(* ===== verification/LJ_Prelude.thy ===== *)
theory LJ_Prelude
  imports Main "HOL-Library.Word"
begin

unbundle bit_operations_syntax

text \<open>
  Shared vocabulary of the LuaJIT development: names for the C integer types, the bit-level helper
  macros of \<^verbatim>\<open>lj_def.h\<close>, a state-and-error monad for the parts of the code that consume an
  input or thread a state and may throw, and the generic lemmas on lists and words that the
  component theories use.

  The configuration modelled everywhere is the 64 bit little-endian x64 build with FFI and JIT:
  \<open>LJ_64 = 1\<close>, \<open>LJ_LE = 1\<close>, \<open>LJ_GC64 = 0\<close>, \<open>LJ_FR2 = 0\<close>, \<open>LJ_DUALNUM = 0\<close>, \<open>LJ_HASFFI = 1\<close>,
  \<open>LJ_HASJIT = 1\<close>, and no assertion checks (\<open>lua_assert\<close> expands to nothing).
\<close>

type_synonym u8 = "8 word"
type_synonym u16 = "16 word"
type_synonym u32 = "32 word"
type_synonym u64 = "64 word"

type_synonym bytes = "u8 list"

text \<open>
  Collections: \<open>lj_ctype\<close> holds the characterisations of the character classes,
  \<open>lj_arith\<close> the word lemmas that read a machine operation as integer arithmetic.
\<close>

named_theorems lj_ctype
named_theorems lj_arith

section \<open>Errors\<close>

text \<open>
  The error messages of \<^verbatim>\<open>lj_errmsg.h\<close> that the modelled code throws, and two outcomes that are no
  error of the program: \<open>UNDEFINED\<close> where the C code would read memory it was not given (the C
  behaviour is undefined), and \<open>NO_RETURN\<close> where a loop would not end.
\<close>

datatype ErrMsg =
    LJ_ERR_ERRMEM | LJ_ERR_STROV | LJ_ERR_TABOV | LJ_ERR_NANIDX | LJ_ERR_NILIDX | LJ_ERR_NEXTIDX
  | LJ_ERR_XLINES | LJ_ERR_XNUMBER | LJ_ERR_XLSTR | LJ_ERR_XLCOM | LJ_ERR_XSTR | LJ_ERR_XESC
  | LJ_ERR_XLDELIM | LJ_ERR_BCFMT | LJ_ERR_BCBAD | LJ_ERR_TABSORT
  | UNDEFINED | NO_RETURN

section \<open>Limits of lj_def.h\<close>

definition LJ_MAX_MEM32 :: nat where "LJ_MAX_MEM32 = 0x7fffff00"
definition LJ_MAX_STR :: nat where "LJ_MAX_STR = LJ_MAX_MEM32"
definition LJ_MAX_BUF :: nat where "LJ_MAX_BUF = LJ_MAX_MEM32"
definition LJ_MAX_LINE :: nat where "LJ_MAX_LINE = LJ_MAX_MEM32"
definition LJ_MAX_STRTAB :: nat where "LJ_MAX_STRTAB = 2 ^ 26"
definition LJ_MAX_HBITS :: nat where "LJ_MAX_HBITS = 26"
definition LJ_MAX_ABITS :: nat where "LJ_MAX_ABITS = 28"
definition LJ_MAX_ASIZE :: nat where "LJ_MAX_ASIZE = 2 ^ (LJ_MAX_ABITS - 1) + 1"
definition LJ_MIN_SBUF :: nat where "LJ_MIN_SBUF = 32"

lemmas lj_limits = LJ_MAX_MEM32_def LJ_MAX_STR_def LJ_MAX_BUF_def LJ_MAX_LINE_def
  LJ_MAX_STRTAB_def LJ_MAX_HBITS_def LJ_MAX_ABITS_def LJ_MAX_ASIZE_def LJ_MIN_SBUF_def

section \<open>Bit helpers of lj_def.h\<close>

text \<open>
  \<open>lj_rol(x, n)\<close> and \<open>lj_ror(x, n)\<close> as the macros write them; the second shift distance is
  \<open>-(int)n & (width-1)\<close>, i.e. \<open>(width - n mod width) mod width\<close>.
\<close>

definition lj_rol :: "'a::len word \<Rightarrow> nat \<Rightarrow> 'a word" where
  "lj_rol x n = push_bit n x OR
     drop_bit ((LENGTH('a) - n mod LENGTH('a)) mod LENGTH('a)) x"

definition lj_ror :: "'a::len word \<Rightarrow> nat \<Rightarrow> 'a word" where
  "lj_ror x n = push_bit ((LENGTH('a) - n mod LENGTH('a)) mod LENGTH('a)) x OR drop_bit n x"

text \<open>Index of the highest set bit (\<open>__builtin_clz(x)^31\<close>); like the builtin it is only used for
  a non-zero argument.\<close>

fun lj_fls_nat :: "nat \<Rightarrow> nat" where
  "lj_fls_nat n = (if n < 2 then 0 else Suc (lj_fls_nat (n div 2)))"

declare lj_fls_nat.simps [simp del]

definition lj_fls :: "u32 \<Rightarrow> nat" where
  "lj_fls x = lj_fls_nat (unat x)"

definition lj_bswap :: "u32 \<Rightarrow> u32" where
  "lj_bswap x = push_bit 24 (x AND 0xff) OR push_bit 8 (x AND 0xff00)
     OR (drop_bit 8 x AND 0xff00) OR drop_bit 24 x"

definition lj_bswap64 :: "u64 \<Rightarrow> u64" where
  "lj_bswap64 x = push_bit 32 (ucast (lj_bswap (ucast x))) OR
     ucast (lj_bswap (ucast (drop_bit 32 x)))"

lemma lj_fls_nat_bounds: "0 < n \<Longrightarrow> 2 ^ lj_fls_nat n \<le> n \<and> n < 2 ^ Suc (lj_fls_nat n)"
proof (induction n rule: lj_fls_nat.induct)
  case (1 n)
  show ?case
  proof (cases "n < 2")
    case True
    with "1.prems" show ?thesis by (subst (1 2) lj_fls_nat.simps) auto
  next
    case False
    then have "0 < n div 2" by auto
    with "1.IH" False have "2 ^ lj_fls_nat (n div 2) \<le> n div 2 \<and> n div 2 < 2 ^ Suc (lj_fls_nat (n div 2))"
      by blast
    then show ?thesis using False by (subst (1 2) lj_fls_nat.simps) auto
  qed
qed

lemma lj_fls_nat_unique: "2 ^ k \<le> n \<Longrightarrow> n < 2 ^ Suc k \<Longrightarrow> lj_fls_nat n = k"
proof (induction k arbitrary: n)
  case 0
  then show ?case by (simp add: lj_fls_nat.simps)
next
  case (Suc k)
  have "2 ^ k \<le> n div 2" "n div 2 < 2 ^ Suc k" using Suc.prems by auto
  then have "lj_fls_nat (n div 2) = k" by (rule Suc.IH)
  moreover have "\<not> n < 2" using Suc.prems(1) one_le_power[of "2::nat" k] by (simp add: not_less, linarith)
  ultimately show ?case by (simp add: lj_fls_nat.simps[of n])
qed

section \<open>Reading bytes as little-endian words\<close>

definition u32_lohi :: "u64 \<Rightarrow> u32 \<times> u32" where
  "u32_lohi x = (ucast x, ucast (drop_bit 32 x))"

definition u64_of_lohi :: "u32 \<Rightarrow> u32 \<Rightarrow> u64" where
  "u64_of_lohi lo hi = ucast lo OR push_bit 32 (ucast hi)"

lemma u64_of_lohi_parts [simp]:
  "u64_of_lohi (ucast x) (ucast (drop_bit 32 x)) = x"
  by (rule bit_word_eqI)
     (auto simp: u64_of_lohi_def bit_or_iff bit_ucast_iff bit_push_bit_iff bit_drop_bit_eq not_less)

section \<open>A state-and-error monad\<close>

text \<open>
  \<open>'s\<close> is the state that a C function reads and writes through a pointer argument, \<open>'e\<close> the errors
  it can throw (LuaJIT throws by \<open>longjmp\<close>, which abandons the state).
\<close>

type_synonym ('s, 'e, 'a) sm = "'s \<Rightarrow> 'e + ('a \<times> 's)"

definition ret :: "'a \<Rightarrow> ('s, 'e, 'a) sm" where
  "ret x s = Inr (x, s)"

definition throw :: "'e \<Rightarrow> ('s, 'e, 'a) sm" where
  "throw e s = Inl e"

definition bnd :: "('s, 'e, 'a) sm \<Rightarrow> ('a \<Rightarrow> ('s, 'e, 'b) sm) \<Rightarrow> ('s, 'e, 'b) sm" where
  "bnd m f s = (case m s of Inl e \<Rightarrow> Inl e | Inr (x, s') \<Rightarrow> f x s')"

lemma bnd_cong [fundef_cong]:
  "m s = m' s' \<Longrightarrow> s = s' \<Longrightarrow> (\<And>x t. m' s' = Inr (x, t) \<Longrightarrow> f x t = g x t) \<Longrightarrow> bnd m f s = bnd m' g s'"
  by (auto simp: bnd_def split: sum.splits)

lemma bnd_ret [simp]: "bnd (ret x) f s = f x s"
  by (simp add: bnd_def ret_def)

lemma bnd_throw [simp]: "bnd (throw e) f s = Inl e"
  by (simp add: bnd_def throw_def)

lemma bnd_Inr: "m s = Inr (x, s') \<Longrightarrow> bnd m f s = f x s'"
  by (simp add: bnd_def)

lemma bnd_Inl: "m s = Inl e \<Longrightarrow> bnd m f s = Inl e"
  by (simp add: bnd_def)

lemma bnd_eq_Inr:
  "bnd m f s = Inr r \<longleftrightarrow> (\<exists>x t. m s = Inr (x, t) \<and> f x t = Inr r)"
  by (auto simp: bnd_def split: sum.splits)

section \<open>Generic lemmas\<close>

lemma unat_of_nat_id [lj_arith]: "n < 2 ^ LENGTH('a) \<Longrightarrow> unat (word_of_nat n :: 'a::len word) = n"
  by (simp add: unat_of_nat take_bit_nat_eq_self)

lemma u8_lt_256 [simp]: "unat (c :: u8) < 256"
  using unsigned_less[of c] by simp

lemma u32_lt [simp]: "unat (x :: u32) < 4294967296"
  using unsigned_less[of x] by simp

lemma nth_append_take_drop: "i < length xs \<Longrightarrow> take i xs @ xs ! i # drop (Suc i) xs = xs"
  by (simp add: id_take_nth_drop[symmetric])

lemma unat_div_less: "k \<noteq> 0 \<Longrightarrow> 1 < unat c \<Longrightarrow> unat (k div c) < unat (k :: 'a::len word)"
  by (simp add: unat_div unat_gt_0[symmetric])

section \<open>Masks and single bits\<close>

lemma bit_0x7f [simp]: "bit (127 :: int) n \<longleftrightarrow> n < 7"
proof -
  have m: "(127 :: int) = mask 7" by (simp add: mask_eq_exp_minus_1)
  show ?thesis unfolding m by (simp add: bit_mask_iff)
qed

lemma bit_0x80 [simp]: "bit (128 :: int) n \<longleftrightarrow> n = 7"
proof -
  have m: "(128 :: int) = 2 ^ 7" by simp
  show ?thesis unfolding m by (simp only: bit_exp_iff) auto
qed

lemma unat_drop_bit_div: "unat (drop_bit n x) = unat (x :: 'a::len word) div 2 ^ n"
  by (simp only: unsigned_drop_bit_eq) (simp add: drop_bit_eq_div take_bit_nat_eq_self)

lemma bit_above_drop: "drop_bit n x = 0 \<Longrightarrow> n \<le> k \<Longrightarrow> \<not> bit (x :: 'a::len word) k"
proof -
  assume d: "drop_bit n x = 0" and k: "n \<le> k"
  have "bit (drop_bit n x) (k - n) = bit x (n + (k - n))" by (simp add: bit_drop_bit_eq)
  then show "\<not> bit x k" using d k by simp
qed

lemma ge_0x80_iff_u8: "x \<ge> (0x80 :: u8) \<longleftrightarrow> drop_bit 7 x \<noteq> 0"
  by (simp only: word_unat_eq_iff unat_drop_bit_div word_le_nat_alt) (simp add: div_eq_0_iff not_less)

lemma ge_0x80_iff_u32: "x \<ge> (0x80 :: u32) \<longleftrightarrow> drop_bit 7 x \<noteq> 0"
  by (simp only: word_unat_eq_iff unat_drop_bit_div word_le_nat_alt) (simp add: div_eq_0_iff not_less)

lemma unat_ucast_le: "unat x < 2 ^ LENGTH('b) \<Longrightarrow> unat (ucast (x :: 'a::len word) :: 'b::len word) = unat x"
  by (simp add: unsigned_ucast_eq take_bit_nat_eq_self)

lemma unat_ucast_up [simp]:
  "unat (ucast (c :: u8) :: u32) = unat c"
  "unat (ucast (c :: u8) :: u64) = unat c"
  "unat (ucast (x :: u32) :: u64) = unat x"
  by (rule unat_ucast_le, rule less_le_trans [OF u8_lt_256], simp)
     (rule unat_ucast_le, rule less_le_trans [OF u8_lt_256], simp,
      rule unat_ucast_le, rule less_le_trans [OF u32_lt], simp)

section \<open>Signed readings\<close>

lemma shift_mod_signed:
  fixes x :: int assumes "0 \<le> x" "x < 2 * h"
  shows "(x + h) mod (2 * h) - h = (if x < h then x else x - 2 * h)"
proof (cases "x < h")
  case True then show ?thesis using assms by simp
next
  case False
  have "(x + h) mod (2 * h) = (x - h + 2 * h) mod (2 * h)" by (simp add: algebra_simps)
  also have "\<dots> = x - h" using assms False by (simp only: mod_add_self2) (rule mod_pos_pos_trivial, auto)
  finally show ?thesis using False by simp
qed

lemma sint_cases:
  assumes "LENGTH('a) = Suc n"
  shows "sint (k :: 'a::len word) = (if uint k < 2 ^ n then uint k else uint k - 2 * 2 ^ n)"
proof -
  have k: "0 \<le> uint k" "uint k < 2 * 2 ^ n" using uint_lt2p[of k] assms by simp_all
  have "sint k = (uint k + 2 ^ n) mod (2 * 2 ^ n) - 2 ^ n"
    using assms by (simp only: sint_uint signed_take_bit_eq_take_bit_shift take_bit_eq_mod) simp
  then show ?thesis using shift_mod_signed[OF k] by simp
qed

lemma sint_u32: "sint (k :: u32) = (if uint k < 2 ^ 31 then uint k else uint k - 2 ^ 32)"
  using sint_cases[of 31 k] by simp

lemma sint_u64: "sint (k :: u64) = (if uint k < 2 ^ 63 then uint k else uint k - 2 ^ 64)"
  using sint_cases[of 63 k] by simp

lemma uint_uminus: "uint (- k :: 'a::len word) = (if k = 0 then 0 else 2 ^ LENGTH('a) - uint k)"
proof (cases "k = 0")
  case False
  then have "uint k \<noteq> 0" by (simp add: uint_0_iff)
  then have "0 < uint k" "uint k < 2 ^ LENGTH('a)" using uint_ge_0[of k] uint_lt2p[of k] by linarith+
  then show ?thesis using False by (simp add: uint_word_ariths zmod_zminus1_eq_if)
qed simp

lemma int_unat_u32: "int (unat (k :: 'a::len word)) = uint k"
  by simp

lemma nat_abs_cong: "int n = \<bar>i\<bar> \<Longrightarrow> n = nat \<bar>i\<bar>"
  by simp

lemma uint_abs_sint:
  assumes "LENGTH('a) = Suc n"
  shows "uint (if sint (k :: 'a::len word) < 0 then - k else k) = \<bar>sint k\<bar>"
proof (cases "sint k < 0")
  case True
  then have "sint k = uint k - 2 * 2 ^ n" "k \<noteq> 0"
    using uint_ge_0[of k] by (auto simp: sint_cases[OF assms] split: if_splits)
  then show ?thesis using True assms by (simp add: uint_uminus)
next
  case False
  then have "sint k = uint k" using uint_lt2p[of k] assms by (auto simp: sint_cases[OF assms] split: if_splits)
  then show ?thesis using False by simp
qed

lemma unat_abs_sint: "unat (if sint (k :: u32) < 0 then - k else k) = nat \<bar>sint k\<bar>"
proof (rule nat_abs_cong)
  have "LENGTH(32) = Suc 31" by simp
  from uint_abs_sint[OF this, of k] show "int (unat (if sint k < 0 then - k else k)) = \<bar>sint k\<bar>"
    by (simp only: int_unat_u32)
qed

end
