(* ===== verification/LJ_Char.thy ===== *)
theory LJ_Char
  imports LJ_Prelude
begin

text \<open>
  Character types (\<^verbatim>\<open>lj_char.c\<close>, \<^verbatim>\<open>lj_char.h\<close>): the hardcoded table of class bits, indexed by
  \<open>c+1\<close> for \<open>c\<close> in \<open>-1..255\<close> (\<open>-1\<close> is the lexer's end-of-file character), and the class tests.
  The lemmas show that the table is exactly the ASCII classification, with every byte from 128 up
  an identifier character.
\<close>

section \<open>The table and the tests\<close>

definition lj_char_bits :: "u8 list" where
  "lj_char_bits = [
    0,
    1,  1,  1,  1,  1,  1,  1,  1,  1,  3,  3,  3,  3,  3,  1,  1,
    1,  1,  1,  1,  1,  1,  1,  1,  1,  1,  1,  1,  1,  1,  1,  1,
    2,  4,  4,  4,  4,  4,  4,  4,  4,  4,  4,  4,  4,  4,  4,  4,
  152,152,152,152,152,152,152,152,152,152,  4,  4,  4,  4,  4,  4,
    4,176,176,176,176,176,176,160,160,160,160,160,160,160,160,160,
  160,160,160,160,160,160,160,160,160,160,160,  4,  4,  4,  4,132,
    4,208,208,208,208,208,208,192,192,192,192,192,192,192,192,192,
  192,192,192,192,192,192,192,192,192,192,192,  4,  4,  4,  4,  1,
  128,128,128,128,128,128,128,128,128,128,128,128,128,128,128,128,
  128,128,128,128,128,128,128,128,128,128,128,128,128,128,128,128,
  128,128,128,128,128,128,128,128,128,128,128,128,128,128,128,128,
  128,128,128,128,128,128,128,128,128,128,128,128,128,128,128,128,
  128,128,128,128,128,128,128,128,128,128,128,128,128,128,128,128,
  128,128,128,128,128,128,128,128,128,128,128,128,128,128,128,128,
  128,128,128,128,128,128,128,128,128,128,128,128,128,128,128,128,
  128,128,128,128,128,128,128,128,128,128,128,128,128,128,128,128]"

definition LJ_CHAR_CNTRL :: u8 where "LJ_CHAR_CNTRL = 0x01"
definition LJ_CHAR_SPACE :: u8 where "LJ_CHAR_SPACE = 0x02"
definition LJ_CHAR_PUNCT :: u8 where "LJ_CHAR_PUNCT = 0x04"
definition LJ_CHAR_DIGIT :: u8 where "LJ_CHAR_DIGIT = 0x08"
definition LJ_CHAR_XDIGIT :: u8 where "LJ_CHAR_XDIGIT = 0x10"
definition LJ_CHAR_UPPER :: u8 where "LJ_CHAR_UPPER = 0x20"
definition LJ_CHAR_LOWER :: u8 where "LJ_CHAR_LOWER = 0x40"
definition LJ_CHAR_IDENT :: u8 where "LJ_CHAR_IDENT = 0x80"
definition LJ_CHAR_ALPHA :: u8 where "LJ_CHAR_ALPHA = LJ_CHAR_LOWER OR LJ_CHAR_UPPER"
definition LJ_CHAR_ALNUM :: u8 where "LJ_CHAR_ALNUM = LJ_CHAR_ALPHA OR LJ_CHAR_DIGIT"
definition LJ_CHAR_GRAPH :: u8 where "LJ_CHAR_GRAPH = LJ_CHAR_ALNUM OR LJ_CHAR_PUNCT"

lemmas lj_char_masks = LJ_CHAR_CNTRL_def LJ_CHAR_SPACE_def LJ_CHAR_PUNCT_def LJ_CHAR_DIGIT_def
  LJ_CHAR_XDIGIT_def LJ_CHAR_UPPER_def LJ_CHAR_LOWER_def LJ_CHAR_IDENT_def LJ_CHAR_ALPHA_def
  LJ_CHAR_ALNUM_def LJ_CHAR_GRAPH_def

text \<open>\<open>((lj_char_bits+1)[(c)] & t)\<close>: the argument is \<open>-1\<close> or a byte value.\<close>

definition lj_char_isa :: "int \<Rightarrow> u8 \<Rightarrow> u8" where
  "lj_char_isa c t = lj_char_bits ! nat (c + 1) AND t"

definition lj_char_iscntrl :: "int \<Rightarrow> bool" where "lj_char_iscntrl c = (lj_char_isa c LJ_CHAR_CNTRL \<noteq> 0)"
definition lj_char_isspace :: "int \<Rightarrow> bool" where "lj_char_isspace c = (lj_char_isa c LJ_CHAR_SPACE \<noteq> 0)"
definition lj_char_ispunct :: "int \<Rightarrow> bool" where "lj_char_ispunct c = (lj_char_isa c LJ_CHAR_PUNCT \<noteq> 0)"
definition lj_char_isdigit :: "int \<Rightarrow> bool" where "lj_char_isdigit c = (lj_char_isa c LJ_CHAR_DIGIT \<noteq> 0)"
definition lj_char_isxdigit :: "int \<Rightarrow> bool" where "lj_char_isxdigit c = (lj_char_isa c LJ_CHAR_XDIGIT \<noteq> 0)"
definition lj_char_isupper :: "int \<Rightarrow> bool" where "lj_char_isupper c = (lj_char_isa c LJ_CHAR_UPPER \<noteq> 0)"
definition lj_char_islower :: "int \<Rightarrow> bool" where "lj_char_islower c = (lj_char_isa c LJ_CHAR_LOWER \<noteq> 0)"
definition lj_char_isident :: "int \<Rightarrow> bool" where "lj_char_isident c = (lj_char_isa c LJ_CHAR_IDENT \<noteq> 0)"
definition lj_char_isalpha :: "int \<Rightarrow> bool" where "lj_char_isalpha c = (lj_char_isa c LJ_CHAR_ALPHA \<noteq> 0)"
definition lj_char_isalnum :: "int \<Rightarrow> bool" where "lj_char_isalnum c = (lj_char_isa c LJ_CHAR_ALNUM \<noteq> 0)"
definition lj_char_isgraph :: "int \<Rightarrow> bool" where "lj_char_isgraph c = (lj_char_isa c LJ_CHAR_GRAPH \<noteq> 0)"

definition lj_char_toupper :: "int \<Rightarrow> int" where
  "lj_char_toupper c = c - uint (drop_bit 1 (lj_char_isa c LJ_CHAR_LOWER))"

definition lj_char_tolower :: "int \<Rightarrow> int" where
  "lj_char_tolower c = c + uint (lj_char_isa c LJ_CHAR_UPPER)"

section \<open>The ASCII classification\<close>

text \<open>The classes by their character ranges, as a bit mask.\<close>

definition ascii_bits :: "int \<Rightarrow> u8" where
  "ascii_bits c =
     (if (0 \<le> c \<and> c \<le> 31) \<or> c = 127 then LJ_CHAR_CNTRL else 0) OR
     (if (9 \<le> c \<and> c \<le> 13) \<or> c = 32 then LJ_CHAR_SPACE else 0) OR
     (if (33 \<le> c \<and> c \<le> 47) \<or> (58 \<le> c \<and> c \<le> 64) \<or> (91 \<le> c \<and> c \<le> 96) \<or> (123 \<le> c \<and> c \<le> 126)
      then LJ_CHAR_PUNCT else 0) OR
     (if 48 \<le> c \<and> c \<le> 57 then LJ_CHAR_DIGIT else 0) OR
     (if (48 \<le> c \<and> c \<le> 57) \<or> (65 \<le> c \<and> c \<le> 70) \<or> (97 \<le> c \<and> c \<le> 102) then LJ_CHAR_XDIGIT else 0) OR
     (if 65 \<le> c \<and> c \<le> 90 then LJ_CHAR_UPPER else 0) OR
     (if 97 \<le> c \<and> c \<le> 122 then LJ_CHAR_LOWER else 0) OR
     (if (48 \<le> c \<and> c \<le> 57) \<or> (65 \<le> c \<and> c \<le> 90) \<or> c = 95 \<or> (97 \<le> c \<and> c \<le> 122) \<or> 128 \<le> c
      then LJ_CHAR_IDENT else 0)"

lemma lj_char_bits_table: "lj_char_bits = map ascii_bits [-1..255]"
  by code_simp

lemma lj_char_isa_ascii: "-1 \<le> c \<Longrightarrow> c \<le> 255 \<Longrightarrow> lj_char_isa c t = ascii_bits c AND t"
  by (simp add: lj_char_isa_def lj_char_bits_table)

text \<open>Each test as a range check, for the characters the macros may be used on.\<close>

lemma if_and_zero: "(if P then a else 0) AND m = (0 :: 'a::len word) \<longleftrightarrow> \<not> P \<or> a AND m = 0"
  by simp

lemmas ascii_and = ascii_bits_def lj_char_masks bit.conj_disj_distrib2 or_eq_0_iff if_and_zero

lemma lj_char_iscntrl_iff [lj_ctype]:
  "-1 \<le> c \<Longrightarrow> c \<le> 255 \<Longrightarrow> lj_char_iscntrl c \<longleftrightarrow> (0 \<le> c \<and> c \<le> 31) \<or> c = 127"
  by (simp add: lj_char_iscntrl_def lj_char_isa_ascii ascii_and split del: if_split)

lemma lj_char_isspace_iff [lj_ctype]:
  "-1 \<le> c \<Longrightarrow> c \<le> 255 \<Longrightarrow> lj_char_isspace c \<longleftrightarrow> (9 \<le> c \<and> c \<le> 13) \<or> c = 32"
  by (simp add: lj_char_isspace_def lj_char_isa_ascii ascii_and split del: if_split)

lemma lj_char_ispunct_iff [lj_ctype]:
  "-1 \<le> c \<Longrightarrow> c \<le> 255 \<Longrightarrow> lj_char_ispunct c \<longleftrightarrow> (33 \<le> c \<and> c \<le> 47) \<or> (58 \<le> c \<and> c \<le> 64) \<or> (91 \<le> c \<and> c \<le> 96) \<or> (123 \<le> c \<and> c \<le> 126)"
  by (simp add: lj_char_ispunct_def lj_char_isa_ascii ascii_and split del: if_split)

lemma lj_char_isdigit_iff [lj_ctype]:
  "-1 \<le> c \<Longrightarrow> c \<le> 255 \<Longrightarrow> lj_char_isdigit c \<longleftrightarrow> 48 \<le> c \<and> c \<le> 57"
  by (simp add: lj_char_isdigit_def lj_char_isa_ascii ascii_and split del: if_split)

lemma lj_char_isxdigit_iff [lj_ctype]:
  "-1 \<le> c \<Longrightarrow> c \<le> 255 \<Longrightarrow> lj_char_isxdigit c \<longleftrightarrow> (48 \<le> c \<and> c \<le> 57) \<or> (65 \<le> c \<and> c \<le> 70) \<or> (97 \<le> c \<and> c \<le> 102)"
  by (simp add: lj_char_isxdigit_def lj_char_isa_ascii ascii_and split del: if_split)

lemma lj_char_isupper_iff [lj_ctype]:
  "-1 \<le> c \<Longrightarrow> c \<le> 255 \<Longrightarrow> lj_char_isupper c \<longleftrightarrow> 65 \<le> c \<and> c \<le> 90"
  by (simp add: lj_char_isupper_def lj_char_isa_ascii ascii_and split del: if_split)

lemma lj_char_islower_iff [lj_ctype]:
  "-1 \<le> c \<Longrightarrow> c \<le> 255 \<Longrightarrow> lj_char_islower c \<longleftrightarrow> 97 \<le> c \<and> c \<le> 122"
  by (simp add: lj_char_islower_def lj_char_isa_ascii ascii_and split del: if_split)

lemma lj_char_isident_iff [lj_ctype]:
  "-1 \<le> c \<Longrightarrow> c \<le> 255 \<Longrightarrow> lj_char_isident c \<longleftrightarrow> (48 \<le> c \<and> c \<le> 57) \<or> (65 \<le> c \<and> c \<le> 90) \<or> c = 95 \<or> (97 \<le> c \<and> c \<le> 122) \<or> 128 \<le> c"
  by (simp add: lj_char_isident_def lj_char_isa_ascii ascii_and split del: if_split)

lemma lj_char_isalpha_iff [lj_ctype]:
  "-1 \<le> c \<Longrightarrow> c \<le> 255 \<Longrightarrow> lj_char_isalpha c \<longleftrightarrow> (65 \<le> c \<and> c \<le> 90) \<or> (97 \<le> c \<and> c \<le> 122)"
  by (simp add: lj_char_isalpha_def lj_char_isa_ascii ascii_and split del: if_split)

lemma lj_char_isalnum_iff [lj_ctype]:
  "-1 \<le> c \<Longrightarrow> c \<le> 255 \<Longrightarrow> lj_char_isalnum c \<longleftrightarrow> (48 \<le> c \<and> c \<le> 57) \<or> (65 \<le> c \<and> c \<le> 90) \<or> (97 \<le> c \<and> c \<le> 122)"
  by (simp add: lj_char_isalnum_def lj_char_isa_ascii ascii_and split del: if_split)

text \<open>Characters as bytes: the form in which the scanners use the tests.\<close>

lemma uint_u8_bounds [simp]: "-1 \<le> uint (c :: u8)" "uint (c :: u8) \<le> 255"
  using uint_lt2p[of c] uint_ge_0[of c] by (simp_all, linarith)

lemma u8_digit_iff [lj_ctype]: "lj_char_isdigit (uint (c :: u8)) \<longleftrightarrow> 48 \<le> c \<and> c \<le> 57"
  by (simp add: lj_char_isdigit_iff word_le_def)

section \<open>Property\<close>

text \<open>C15: the 257-entry classification table, indexed by -1 (end of stream) and 0..255, holds for every
  character exactly the class bits of its ASCII ranges, all bytes from 128 on counting as identifier
  characters and -1 as none.\<close>

theorem lj_char_bits_ascii: "lj_char_bits = map ascii_bits [-1..255]"
  by (rule lj_char_bits_table)

end
