(* ===== verification/LJ_Buf.thy ===== *)
theory LJ_Buf
  imports LJ_Prelude
begin

text \<open>
  Resizable string buffers (\<^verbatim>\<open>lj_buf.c\<close>, \<^verbatim>\<open>lj_buf.h\<close>). An \<open>SBuf\<close> of the code is three pointers
  \<open>b \<le> p \<le> e\<close>; here it is the bytes between \<open>b\<close> and \<open>p\<close> and the size \<open>e - b\<close> as a 32 bit \<open>MSize\<close>.
  The bytes from \<open>p\<close> up are scratch space that the code never reads back. The allocator is assumed
  to succeed below \<open>LJ_MAX_BUF\<close>. The lemmas show that growing terminates, keeps the contents and
  makes room, and that every put operation appends exactly its bytes (locale \<open>byte_sink\<close>).
\<close>

section \<open>Buffer management\<close>

record SBuf =
  sb_data :: bytes
  sb_sz :: u32

definition sbuflen :: "SBuf \<Rightarrow> u32" where
  "sbuflen sb = word_of_nat (length (sb_data sb))"

definition sbufleft :: "SBuf \<Rightarrow> u32" where
  "sbufleft sb = sb_sz sb - sbuflen sb"

definition lj_buf_init :: SBuf where
  "lj_buf_init = \<lparr>sb_data = [], sb_sz = 0\<rparr>"

definition lj_buf_reset :: "SBuf \<Rightarrow> SBuf" where
  "lj_buf_reset sb = sb\<lparr>sb_data := []\<rparr>"

text \<open>The loop \<open>while (nsz < sz) nsz += nsz\<close> on 32 bit sizes: it would not return for a size above
  \<open>2^31\<close>.\<close>

partial_function (option) grow_size :: "u32 \<Rightarrow> u32 \<Rightarrow> u32 option" where
  "grow_size nsz sz = (if nsz < sz then grow_size (nsz + nsz) sz else Some nsz)"

definition buf_grow :: "SBuf \<Rightarrow> u32 \<Rightarrow> ErrMsg + SBuf" where
  "buf_grow sb sz =
     (let osz = sb_sz sb;
          nsz = (if osz < word_of_nat LJ_MIN_SBUF then word_of_nat LJ_MIN_SBUF else osz)
      in case grow_size nsz sz of
           None \<Rightarrow> Inl NO_RETURN
         | Some n \<Rightarrow> Inr (sb\<lparr>sb_sz := n\<rparr>))"

definition lj_buf_need2 :: "SBuf \<Rightarrow> u32 \<Rightarrow> ErrMsg + SBuf" where
  "lj_buf_need2 sb sz = (if sz > word_of_nat LJ_MAX_BUF then Inl LJ_ERR_ERRMEM else buf_grow sb sz)"

definition lj_buf_more2 :: "SBuf \<Rightarrow> u32 \<Rightarrow> ErrMsg + SBuf" where
  "lj_buf_more2 sb sz =
     (let len = sbuflen sb in
      if sz > word_of_nat LJ_MAX_BUF \<or> len + sz > word_of_nat LJ_MAX_BUF then Inl LJ_ERR_ERRMEM
      else buf_grow sb (len + sz))"

definition lj_buf_need :: "SBuf \<Rightarrow> u32 \<Rightarrow> ErrMsg + SBuf" where
  "lj_buf_need sb sz = (if sz > sb_sz sb then lj_buf_need2 sb sz else Inr sb)"

definition lj_buf_more :: "SBuf \<Rightarrow> u32 \<Rightarrow> ErrMsg + SBuf" where
  "lj_buf_more sb sz = (if sz > sbufleft sb then lj_buf_more2 sb sz else Inr sb)"

definition lj_buf_shrink :: "SBuf \<Rightarrow> SBuf" where
  "lj_buf_shrink sb =
     (let osz = sb_sz sb in
      if osz > 2 * word_of_nat LJ_MIN_SBUF then sb\<lparr>sb_sz := drop_bit 1 osz\<rparr> else sb)"

section \<open>Put operations\<close>

text \<open>\<open>p = lj_buf_more(sb, need); \<dots>; setsbufP(sb, p)\<close>: make room for \<open>need\<close> bytes, write the bytes
  \<open>bs\<close> from \<open>p\<close> on, and advance \<open>p\<close> past them.\<close>

definition buf_write :: "SBuf \<Rightarrow> u32 \<Rightarrow> bytes \<Rightarrow> ErrMsg + SBuf" where
  "buf_write sb need bs =
     (case lj_buf_more sb need of
        Inl e \<Rightarrow> Inl e
      | Inr sb' \<Rightarrow> Inr (sb'\<lparr>sb_data := sb_data sb' @ bs\<rparr>))"

definition lj_buf_putmem :: "SBuf \<Rightarrow> bytes \<Rightarrow> ErrMsg + SBuf" where
  "lj_buf_putmem sb q = buf_write sb (word_of_nat (length q)) q"

definition lj_buf_putb :: "SBuf \<Rightarrow> u8 \<Rightarrow> ErrMsg + SBuf" where
  "lj_buf_putb sb c = buf_write sb 1 [c]"

definition lj_buf_putchar :: "SBuf \<Rightarrow> u8 \<Rightarrow> ErrMsg + SBuf" where
  "lj_buf_putchar sb c = buf_write sb 1 [c]"

definition lj_buf_putstr :: "SBuf \<Rightarrow> bytes \<Rightarrow> ErrMsg + SBuf" where
  "lj_buf_putstr sb s = buf_write sb (word_of_nat (length s)) s"

text \<open>The byte loops: \<open>*p++ = *q--\<close> from the last byte down, and the case conversions.\<close>

fun copy_reverse :: "bytes \<Rightarrow> nat \<Rightarrow> bytes" where
  "copy_reverse s 0 = []"
| "copy_reverse s (Suc n) = s ! n # copy_reverse s n"

definition lj_buf_putstr_reverse :: "SBuf \<Rightarrow> bytes \<Rightarrow> ErrMsg + SBuf" where
  "lj_buf_putstr_reverse sb s =
     buf_write sb (word_of_nat (length s)) (copy_reverse s (length s))"

fun copy_lower :: "bytes \<Rightarrow> bytes" where
  "copy_lower [] = []"
| "copy_lower (c # q) = (if c \<ge> 65 \<and> c \<le> 90 then c + 0x20 else c) # copy_lower q"

definition lj_buf_putstr_lower :: "SBuf \<Rightarrow> bytes \<Rightarrow> ErrMsg + SBuf" where
  "lj_buf_putstr_lower sb s = buf_write sb (word_of_nat (length s)) (copy_lower s)"

fun copy_upper :: "bytes \<Rightarrow> bytes" where
  "copy_upper [] = []"
| "copy_upper (c # q) = (if c \<ge> 97 \<and> c \<le> 122 then c - 0x20 else c) # copy_upper q"

definition lj_buf_putstr_upper :: "SBuf \<Rightarrow> bytes \<Rightarrow> ErrMsg + SBuf" where
  "lj_buf_putstr_upper sb s = buf_write sb (word_of_nat (length s)) (copy_upper s)"

text \<open>\<open>do \<dots> while (--rep > 0)\<close>: the inner copy is one byte when the string has one, the whole string
  otherwise.\<close>

fun rep_byte :: "u8 \<Rightarrow> nat \<Rightarrow> bytes" where
  "rep_byte c 0 = []"
| "rep_byte c (Suc n) = c # rep_byte c n"

fun rep_str :: "bytes \<Rightarrow> nat \<Rightarrow> bytes" where
  "rep_str s 0 = []"
| "rep_str s (Suc n) = s @ rep_str s n"

definition lj_buf_putstr_rep :: "SBuf \<Rightarrow> bytes \<Rightarrow> int \<Rightarrow> ErrMsg + SBuf" where
  "lj_buf_putstr_rep sb s rep =
     (let len = length s in
      if rep > 0 \<and> len \<noteq> 0 then
        let tlen = nat rep * len in
        if tlen > LJ_MAX_STR then Inl LJ_ERR_ERRMEM
        else buf_write sb (word_of_nat tlen)
               (if len = 1 then rep_byte (s ! 0) (nat rep) else rep_str s (nat rep))
      else Inr sb)"

definition lj_buf_tostr :: "SBuf \<Rightarrow> bytes" where
  "lj_buf_tostr sb = sb_data sb"

text \<open>\<open>lj_buf_cat2str\<close> copies both strings to the start of the shared temporary buffer, over what it held
  there, and leaves \<open>p\<close> where it was; the result is the new string and the buffer.\<close>

definition lj_buf_cat2str :: "SBuf \<Rightarrow> bytes \<Rightarrow> bytes \<Rightarrow> ErrMsg + (bytes \<times> SBuf)" where
  "lj_buf_cat2str tmp s1 s2 =
     (case lj_buf_need tmp (word_of_nat (length s1) + word_of_nat (length s2)) of
        Inl e \<Rightarrow> Inl e
      | Inr sb \<Rightarrow>
          let buf = s1 @ s2; n = length (sb_data sb) in
          Inr (buf, sb\<lparr>sb_data := take n (buf @ drop (length buf) (sb_data sb))\<rparr>))"

text \<open>Read an unsigned LEB128 value. The C function advances a pointer; here the rest of the bytes is
  returned. \<open>None\<close> where it would run past the end of the bytes given or shift by 32 or more, both
  undefined in C.\<close>

fun ruleb128_loop :: "u32 \<Rightarrow> nat \<Rightarrow> bytes \<Rightarrow> (u32 \<times> bytes) option" where
  "ruleb128_loop v sh [] = None"
| "ruleb128_loop v sh (c # p) =
     (let sh' = sh + 7 in
      if sh' \<ge> 32 then None
      else let v' = v OR push_bit sh' (ucast (c AND 0x7f)) in
           if c \<ge> 0x80 then ruleb128_loop v' sh' p else Some (v', p))"

definition lj_buf_ruleb128 :: "bytes \<Rightarrow> (u32 \<times> bytes) option" where
  "lj_buf_ruleb128 pp =
     (case pp of
        [] \<Rightarrow> None
      | c # p \<Rightarrow>
          let v = (ucast c :: u32) in
          if v \<ge> 0x80 then ruleb128_loop (v AND 0x7f) 0 p else Some (v, p))"

section \<open>Growing\<close>

lemma unat_limits [simp]:
  "unat (word_of_nat LJ_MAX_BUF :: u32) = LJ_MAX_BUF"
  "unat (word_of_nat LJ_MIN_SBUF :: u32) = LJ_MIN_SBUF"
  by (simp_all add: lj_limits)

text \<open>
  A buffer is well formed when \<open>b \<le> p \<le> e\<close> and its size is 0 or a power of two from
  \<open>LJ_MIN_SBUF\<close> to \<open>2^31\<close>, which is what keeps the 32 bit size arithmetic from wrapping.
\<close>

definition size_ok :: "u32 \<Rightarrow> bool" where
  "size_ok n \<longleftrightarrow> n = 0 \<or> (\<exists>k. 5 \<le> k \<and> k \<le> 31 \<and> unat n = 2 ^ k)"

definition sbuf_ok :: "SBuf \<Rightarrow> bool" where
  "sbuf_ok sb \<longleftrightarrow> length (sb_data sb) \<le> unat (sb_sz sb) \<and> size_ok (sb_sz sb)"

lemma grow_size_returns:
  "unat nsz = 2 ^ k \<Longrightarrow> k \<le> 31 \<Longrightarrow> unat sz \<le> 2 ^ 31 \<Longrightarrow>
     \<exists>n m. grow_size nsz sz = Some n \<and> unat n = 2 ^ m \<and> k \<le> m \<and> m \<le> 31 \<and> sz \<le> n"
proof (induction "31 - k" arbitrary: k nsz)
  case 0
  then have "k = 31" by simp
  then have "\<not> nsz < sz" using 0 by (simp add: word_less_nat_alt)
  then show ?case using 0 by (intro exI[of _ nsz] exI[of _ k]) (simp add: grow_size.simps[of nsz])
next
  case (Suc d)
  show ?case
  proof (cases "nsz < sz")
    case True
    have k: "Suc k \<le> 31" using Suc.hyps(2) by simp
    have "(2::nat) ^ Suc k \<le> 2 ^ 31" using k by (rule power_increasing) simp
    then have "unat (nsz + nsz) = 2 ^ Suc k" using Suc.prems(1) by (simp add: unat_word_ariths)
    moreover have "d = 31 - Suc k" using Suc.hyps(2) by simp
    ultimately obtain n m where "grow_size (nsz + nsz) sz = Some n" "unat n = 2 ^ m" "Suc k \<le> m" "m \<le> 31" "sz \<le> n"
      using Suc.hyps(1)[of "Suc k" "nsz + nsz"] Suc.prems(3) k by blast
    then show ?thesis using True by (intro exI[of _ n] exI[of _ m]) (simp add: grow_size.simps[of nsz])
  next
    case False
    then have "grow_size nsz sz = Some nsz" by (subst grow_size.simps) simp
    then show ?thesis using False Suc.prems by (intro exI[of _ nsz] exI[of _ k]) simp
  qed
qed

lemma buf_grow_ok:
  assumes ok: "sbuf_ok sb" and sz: "unat sz \<le> 2 ^ 31"
  shows "\<exists>n. buf_grow sb sz = Inr (sb\<lparr>sb_sz := n\<rparr>) \<and> sz \<le> n \<and> sbuf_ok (sb\<lparr>sb_sz := n\<rparr>)"
proof -
  define n0 where "n0 = (if sb_sz sb < word_of_nat LJ_MIN_SBUF then word_of_nat LJ_MIN_SBUF else sb_sz sb)"
  have n0: "\<exists>k. 5 \<le> k \<and> k \<le> 31 \<and> unat n0 = 2 ^ k"
  proof (cases "sb_sz sb < word_of_nat LJ_MIN_SBUF")
    case True
    then show ?thesis by (intro exI[of _ 5]) (simp add: n0_def lj_limits)
  next
    case False
    then have "sb_sz sb \<noteq> 0" by (auto simp: lj_limits)
    then show ?thesis using ok False by (auto simp: n0_def sbuf_ok_def size_ok_def)
  qed
  then obtain k where k: "5 \<le> k" "k \<le> 31" "unat n0 = 2 ^ k" by blast
  from grow_size_returns[OF k(3,2) sz] obtain n m where
    n: "grow_size n0 sz = Some n" "unat n = 2 ^ m" "k \<le> m" "m \<le> 31" "sz \<le> n" by blast
  have "unat (sb_sz sb) \<le> unat n0" by (simp add: n0_def word_less_nat_alt)
  also have "\<dots> \<le> unat n" using k n by (simp add: power_increasing)
  finally have "length (sb_data sb) \<le> unat n" using ok by (simp add: sbuf_ok_def)
  moreover have "size_ok n" using k n unfolding size_ok_def by (intro disjI2 exI[of _ m]) simp
  ultimately have "sbuf_ok (sb\<lparr>sb_sz := n\<rparr>)" by (simp add: sbuf_ok_def)
  moreover have "buf_grow sb sz = Inr (sb\<lparr>sb_sz := n\<rparr>)"
    using n by (simp add: buf_grow_def Let_def n0_def[symmetric])
  ultimately show ?thesis using n by blast
qed

lemma sbuf_ok_len: "sbuf_ok sb \<Longrightarrow> length (sb_data sb) \<le> 2 ^ 31"
  unfolding sbuf_ok_def size_ok_def using power_increasing[of _ 31 "2::nat"] by force

lemma unat_sbuflen: "sbuf_ok sb \<Longrightarrow> unat (sbuflen sb) = length (sb_data sb)"
  using sbuf_ok_len[of sb] unfolding sbuflen_def by (intro unat_of_nat_id) simp

lemma unat_sbufleft: "sbuf_ok sb \<Longrightarrow> unat (sbufleft sb) = unat (sb_sz sb) - length (sb_data sb)"
  by (simp add: sbufleft_def unat_sub_if' unat_sbuflen) (simp add: sbuf_ok_def)

lemma lj_buf_more_fits:
  assumes ok: "sbuf_ok sb"
  shows "length (sb_data sb) + unat sz \<le> unat (sb_sz sb) \<longleftrightarrow> \<not> sz > sbufleft sb"
    "length (sb_data sb) + unat sz \<le> unat (sb_sz sb) \<Longrightarrow> lj_buf_more sb sz = Inr sb"
proof -
  have "length (sb_data sb) \<le> unat (sb_sz sb)" using ok by (simp add: sbuf_ok_def)
  then show f: "length (sb_data sb) + unat sz \<le> unat (sb_sz sb) \<longleftrightarrow> \<not> sz > sbufleft sb"
    using unat_sbufleft[OF ok] unfolding word_less_nat_alt by linarith
  show "length (sb_data sb) + unat sz \<le> unat (sb_sz sb) \<Longrightarrow> lj_buf_more sb sz = Inr sb"
    unfolding f by (simp add: lj_buf_more_def)
qed

lemma lj_buf_more_limit:
  assumes ok: "sbuf_ok sb" and big: "unat (sb_sz sb) < length (sb_data sb) + unat sz" "LJ_MAX_BUF < length (sb_data sb) + unat sz"
  shows "lj_buf_more sb sz = Inl LJ_ERR_ERRMEM"
proof -
  have "\<not> length (sb_data sb) + unat sz \<le> unat (sb_sz sb)" using big(1) by simp
  then have g: "sz > sbufleft sb" unfolding lj_buf_more_fits(1)[OF ok] by simp
  have "sz > word_of_nat LJ_MAX_BUF \<or> sbuflen sb + sz > word_of_nat LJ_MAX_BUF"
  proof (cases "unat sz \<le> LJ_MAX_BUF")
    case True
    have "length (sb_data sb) \<le> 2 ^ 31" using ok by (rule sbuf_ok_len)
    then have "unat (sbuflen sb + sz) = length (sb_data sb) + unat sz"
      using True unat_sbuflen[OF ok] by (simp add: unat_word_ariths lj_limits)
    then show ?thesis using big(2) by (simp add: word_less_nat_alt)
  qed (simp add: word_less_nat_alt)
  then show ?thesis using g by (simp add: lj_buf_more_def lj_buf_more2_def Let_def)
qed

text \<open>Room is made for the bytes asked for, and the contents are kept; the only error is a total above
  \<open>LJ_MAX_BUF\<close>.\<close>

lemma lj_buf_more_cases:
  assumes ok: "sbuf_ok sb"
  shows "(\<exists>n. lj_buf_more sb sz = Inr (sb\<lparr>sb_sz := n\<rparr>) \<and> length (sb_data sb) + unat sz \<le> unat n
           \<and> sbuf_ok (sb\<lparr>sb_sz := n\<rparr>))
       \<or> lj_buf_more sb sz = Inl LJ_ERR_ERRMEM \<and> LJ_MAX_BUF < length (sb_data sb) + unat sz"
proof (cases "sz > sbufleft sb")
  case False
  then have "unat sz \<le> unat (sb_sz sb) - length (sb_data sb)"
    using unat_sbufleft[OF ok] by (simp add: word_less_nat_alt)
  moreover have "length (sb_data sb) \<le> unat (sb_sz sb)" using ok by (simp add: sbuf_ok_def)
  ultimately have "length (sb_data sb) + unat sz \<le> unat (sb_sz sb)" by linarith
  then show ?thesis using False ok by (intro disjI1 exI[of _ "sb_sz sb"]) (simp add: lj_buf_more_def)
next
  case grow: True
  show ?thesis
  proof (cases "length (sb_data sb) + unat sz \<le> LJ_MAX_BUF")
    case True
    then have sum: "unat (sbuflen sb + sz) = length (sb_data sb) + unat sz"
      using unat_sbuflen[OF ok] by (simp add: unat_word_ariths lj_limits)
    then have "unat (sbuflen sb + sz) \<le> 2 ^ 31" using True by (simp add: lj_limits)
    from buf_grow_ok[OF ok this] obtain n where
      n: "buf_grow sb (sbuflen sb + sz) = Inr (sb\<lparr>sb_sz := n\<rparr>)" "sbuflen sb + sz \<le> n" "sbuf_ok (sb\<lparr>sb_sz := n\<rparr>)"
      by blast
    have "\<not> sz > word_of_nat LJ_MAX_BUF" "\<not> sbuflen sb + sz > word_of_nat LJ_MAX_BUF"
      using True sum by (simp_all add: word_less_nat_alt)
    then have "lj_buf_more sb sz = Inr (sb\<lparr>sb_sz := n\<rparr>)"
      using grow n by (simp add: lj_buf_more_def lj_buf_more2_def Let_def)
    moreover have "length (sb_data sb) + unat sz \<le> unat n" using n(2) sum by (simp add: word_le_nat_alt)
    ultimately show ?thesis using n(3) by blast
  next
    case False
    then show ?thesis using lj_buf_more_limit[OF ok, of sz] lj_buf_more_fits(1)[OF ok, of sz] grow by simp
  qed
qed

section \<open>The sink contract\<close>

text \<open>
  What the formatting and dumping code relies on: a put either appends its bytes and keeps the
  buffer well formed, or fails with an out-of-memory error because the total exceeds the limit.
\<close>

locale byte_sink =
  fixes put :: "'s \<Rightarrow> bytes \<Rightarrow> ErrMsg + 's"
    and content :: "'s \<Rightarrow> bytes"
    and ok :: "'s \<Rightarrow> bool"
    and limit :: nat
  assumes put_room: "ok s \<Longrightarrow> length (content s) + length bs \<le> limit \<Longrightarrow> \<exists>s'. put s bs = Inr s'"
    and put_appends: "ok s \<Longrightarrow> length bs \<le> limit \<Longrightarrow> put s bs = Inr s' \<Longrightarrow>
          ok s' \<and> content s' = content s @ bs"
begin

text \<open>A sequence of puts appends the concatenation, whatever the split into pieces.\<close>

fun puts :: "'s \<Rightarrow> bytes list \<Rightarrow> ErrMsg + 's" where
  "puts s [] = Inr s"
| "puts s (b # bs) = (case put s b of Inl e \<Rightarrow> Inl e | Inr s' \<Rightarrow> puts s' bs)"

lemma puts_append:
  "ok s \<Longrightarrow> length (content s) + length (concat bs) \<le> limit \<Longrightarrow>
     \<exists>s'. puts s bs = Inr s' \<and> ok s' \<and> content s' = content s @ concat bs"
proof (induction bs arbitrary: s)
  case Nil
  then show ?case by simp
next
  case (Cons b bs)
  then obtain s1 where s1: "put s b = Inr s1" using put_room[of s b] by auto
  then have c: "ok s1" "content s1 = content s @ b" using put_appends[of s b s1] Cons.prems by auto
  then obtain s2 where "puts s1 bs = Inr s2" "ok s2" "content s2 = content s1 @ concat bs"
    using Cons.IH[of s1] Cons.prems by auto
  then show ?case using s1 c by auto
qed

end

text \<open>Every put of the code reserves at least as many bytes as it writes.\<close>

lemma buf_write_ok:
  assumes "sbuf_ok sb" "length bs \<le> unat need" "length (sb_data sb) + unat need \<le> LJ_MAX_BUF"
  shows "\<exists>sb'. buf_write sb need bs = Inr sb' \<and> sbuf_ok sb' \<and> sb_data sb' = sb_data sb @ bs"
  using lj_buf_more_cases[OF assms(1), of need] assms(2,3)
  by (auto simp: buf_write_def sbuf_ok_def)

lemma buf_write_Inr:
  assumes "sbuf_ok sb" "length bs \<le> unat need" "buf_write sb need bs = Inr sb'"
  shows "sbuf_ok sb' \<and> sb_data sb' = sb_data sb @ bs"
  using lj_buf_more_cases[OF assms(1), of need] assms(2,3)
  by (auto simp: buf_write_def sbuf_ok_def)

lemma buf_write_Inl:
  assumes "sbuf_ok sb" "buf_write sb need bs = Inl e"
  shows "e = LJ_ERR_ERRMEM \<and> LJ_MAX_BUF < length (sb_data sb) + unat need"
  using lj_buf_more_cases[OF assms(1), of need] assms(2) by (auto simp: buf_write_def)

interpretation sink: byte_sink lj_buf_putmem sb_data sbuf_ok LJ_MAX_BUF
proof unfold_locales
  fix s s' :: SBuf and bs :: bytes
  have u: "length bs \<le> LJ_MAX_BUF \<Longrightarrow> unat (word_of_nat (length bs) :: u32) = length bs"
    by (rule unat_of_nat_id) (simp add: lj_limits)
  show "sbuf_ok s \<Longrightarrow> length (sb_data s) + length bs \<le> LJ_MAX_BUF \<Longrightarrow> \<exists>s'. lj_buf_putmem s bs = Inr s'"
    using buf_write_ok[of s bs "word_of_nat (length bs)"] u by (auto simp: lj_buf_putmem_def)
  show "sbuf_ok s \<Longrightarrow> length bs \<le> LJ_MAX_BUF \<Longrightarrow> lj_buf_putmem s bs = Inr s' \<Longrightarrow>
      sbuf_ok s' \<and> sb_data s' = sb_data s @ bs"
    using buf_write_Inr[of s bs "word_of_nat (length bs)" s'] u by (auto simp: lj_buf_putmem_def)
qed

section \<open>Functional behaviour of the string puts\<close>

lemma copy_reverse_rev: "n \<le> length s \<Longrightarrow> copy_reverse s n = rev (take n s)"
  by (induction n) (auto simp: take_Suc_conv_app_nth)

lemma rep_byte_replicate: "rep_byte c n = replicate n c"
  by (induction n) auto

lemma rep_str_concat: "rep_str s n = concat (replicate n s)"
  by (induction n) auto

lemma copy_lower_map: "copy_lower s = map (\<lambda>c. if 65 \<le> c \<and> c \<le> 90 then c + 32 else c) s"
  by (induction s) auto

lemma copy_upper_map: "copy_upper s = map (\<lambda>c. if 97 \<le> c \<and> c \<le> 122 then c - 32 else c) s"
  by (induction s) auto

lemma length_concat_replicate [simp]: "length (concat (replicate n s)) = n * length s"
  by (induction n) auto

lemma concat_replicate_single: "concat (replicate n [c]) = replicate n c"
  by (induction n) auto

lemma lj_buf_putstr_rep_data:
  assumes ok: "sbuf_ok sb" and r: "lj_buf_putstr_rep sb s rep = Inr sb'"
  shows "sbuf_ok sb' \<and> sb_data sb' = sb_data sb @ concat (replicate (nat rep) s)"
proof (cases "rep > 0 \<and> s \<noteq> []")
  case False
  then show ?thesis using r ok by (auto simp: lj_buf_putstr_rep_def)
next
  case True
  define bs where "bs = (if length s = 1 then rep_byte (s ! 0) (nat rep) else rep_str s (nat rep))"
  have bs: "bs = concat (replicate (nat rep) s)"
  proof (cases "length s = 1")
    case True
    then obtain c where "s = [c]" by (auto simp: length_Suc_conv)
    then show ?thesis by (simp add: bs_def rep_byte_replicate concat_replicate_single)
  qed (simp add: bs_def rep_str_concat)
  from True r have lim: "nat rep * length s \<le> LJ_MAX_STR"
    and w: "buf_write sb (word_of_nat (nat rep * length s)) bs = Inr sb'"
    by (auto simp: lj_buf_putstr_rep_def Let_def bs_def split: if_splits)
  have "unat (word_of_nat (nat rep * length s) :: u32) = length bs"
    using lim by (simp add: bs unat_of_nat_id lj_limits del: of_nat_mult)
  then show ?thesis using buf_write_Inr[OF ok _ w] by (simp add: bs)
qed

lemma putstr_variants_data:
  assumes "sbuf_ok sb" "length s \<le> LJ_MAX_STR" "length bs = length s"
    and "buf_write sb (word_of_nat (length s)) bs = Inr sb'"
  shows "sbuf_ok sb' \<and> sb_data sb' = sb_data sb @ bs"
  using buf_write_Inr[OF assms(1) _ assms(4)] assms(2,3) by (simp add: unat_of_nat_id lj_limits)

section \<open>Properties\<close>

text \<open>C16: in a well-formed buffer \<open>lj_buf_more\<close> always returns (the doubling loop ends without wrapping). Where the
  requested bytes fit behind the contents, the buffer stays as it is, also beyond \<open>LJ_MAX_BUF\<close>; otherwise it fails with
  the out-of-memory error exactly when the total exceeds \<open>LJ_MAX_BUF\<close>, and makes room, keeping the contents and the
  invariant, when it does not.\<close>

theorem lj_buf_more_total:
  assumes "sbuf_ok sb"
  shows "if length (sb_data sb) + unat sz \<le> unat (sb_sz sb) then lj_buf_more sb sz = Inr sb
    else if LJ_MAX_BUF < length (sb_data sb) + unat sz then lj_buf_more sb sz = Inl LJ_ERR_ERRMEM
    else \<exists>n. lj_buf_more sb sz = Inr (sb\<lparr>sb_sz := n\<rparr>) \<and> length (sb_data sb) + unat sz \<le> unat n \<and> sbuf_ok (sb\<lparr>sb_sz := n\<rparr>)"
  using lj_buf_more_cases[OF assms, of sz] lj_buf_more_fits[OF assms, of sz] lj_buf_more_limit[OF assms, of sz] by auto

lemma sbuf_ok_init: "sbuf_ok lj_buf_init"
  by (simp add: sbuf_ok_def size_ok_def lj_buf_init_def)

theorem lj_buf_more_total_witness:
  "(\<exists>n. lj_buf_more lj_buf_init 100 = Inr (lj_buf_init\<lparr>sb_sz := n\<rparr>) \<and> 100 \<le> unat n) \<and>
     lj_buf_more lj_buf_init 0x7fffff01 = Inl LJ_ERR_ERRMEM"
  using lj_buf_more_total[OF sbuf_ok_init, of 100] lj_buf_more_total[OF sbuf_ok_init, of "0x7fffff01"]
  by (simp add: lj_buf_init_def lj_limits) blast

text \<open>C17: the string puts append exactly what their names say (the reversed string, the case conversions of
  the ASCII letters only, \<open>rep\<close> copies and none for \<open>rep \<le> 0\<close>) and keep the buffer well formed.\<close>

theorem lj_buf_putstr_functional:
  assumes "sbuf_ok sb" "length s \<le> LJ_MAX_STR"
  shows "(lj_buf_putstr_reverse sb s = Inr sb' \<longrightarrow> sbuf_ok sb' \<and> sb_data sb' = sb_data sb @ rev s)
    \<and> (lj_buf_putstr_lower sb s = Inr sb' \<longrightarrow>
         sbuf_ok sb' \<and> sb_data sb' = sb_data sb @ map (\<lambda>c. if 65 \<le> c \<and> c \<le> 90 then c + 32 else c) s)
    \<and> (lj_buf_putstr_upper sb s = Inr sb' \<longrightarrow>
         sbuf_ok sb' \<and> sb_data sb' = sb_data sb @ map (\<lambda>c. if 97 \<le> c \<and> c \<le> 122 then c - 32 else c) s)
    \<and> (lj_buf_putstr_rep sb s n = Inr sb' \<longrightarrow>
         sbuf_ok sb' \<and> sb_data sb' = sb_data sb @ concat (replicate (nat n) s))"
  using putstr_variants_data[OF assms, of "rev s" sb']
    putstr_variants_data[OF assms, of "copy_lower s" sb'] putstr_variants_data[OF assms, of "copy_upper s" sb']
    lj_buf_putstr_rep_data[OF assms(1), of s n sb']
  by (simp add: lj_buf_putstr_reverse_def lj_buf_putstr_lower_def lj_buf_putstr_upper_def
      copy_reverse_rev copy_lower_map copy_upper_map)

definition sbuf32 :: SBuf where "sbuf32 = \<lparr>sb_data = [], sb_sz = 32\<rparr>"

theorem lj_buf_putstr_functional_witness:
  "\<exists>sb. lj_buf_putstr_reverse sbuf32 [1, 2, 3] = Inr sb \<and> sb_data sb = [3, 2, 1]"
proof -
  have ok: "sbuf_ok sbuf32" by (auto simp: sbuf32_def sbuf_ok_def size_ok_def intro!: exI[of _ 5])
  have run: "lj_buf_putstr_reverse sbuf32 [1, 2, 3] = Inr \<lparr>sb_data = [3, 2, 1], sb_sz = 32\<rparr>"
    by code_simp
  have "sb_data \<lparr>sb_data = [3, 2, 1], sb_sz = 32\<rparr> = sb_data sbuf32 @ rev [1, 2, 3]"
    using lj_buf_putstr_functional[OF ok, of "[1, 2, 3]"] run by (simp add: lj_limits sbuf32_def)
  then show ?thesis using run by (simp add: sbuf32_def)
qed

end
