(* ===== verification/LJ_StrFmt.thy ===== *)
theory LJ_StrFmt
  imports LJ_Buf LJ_Char
begin

text \<open>
  String formatting (\<^verbatim>\<open>lj_strfmt.c\<close>, \<^verbatim>\<open>lj_strfmt.h\<close>): the format parser, the raw conversions of
  integers, pointers and unsigned LEB128 values, the quoted-string writer and the formatted
  conversions. A function of the code that writes through \<open>char *p\<close> and returns the advanced pointer
  is here the list of bytes written.
  The lemmas give the decimal digits of \<open>lj_strfmt_wint\<close> with its multiply-and-shift divisions, the
  round trip of the LEB128 encoding, and what the formatted writers append.
\<close>

section \<open>Format words\<close>

definition STRFMT_EOF :: u32 where "STRFMT_EOF = 0"
definition STRFMT_ERR :: u32 where "STRFMT_ERR = 1"
definition STRFMT_LIT :: u32 where "STRFMT_LIT = 2"
definition STRFMT_INT :: u32 where "STRFMT_INT = 3"
definition STRFMT_UINT :: u32 where "STRFMT_UINT = 4"
definition STRFMT_NUM :: u32 where "STRFMT_NUM = 5"
definition STRFMT_STR :: u32 where "STRFMT_STR = 6"
definition STRFMT_CHAR :: u32 where "STRFMT_CHAR = 7"
definition STRFMT_PTR :: u32 where "STRFMT_PTR = 8"

definition STRFMT_T_HEX :: u32 where "STRFMT_T_HEX = 0x0010"
definition STRFMT_T_OCT :: u32 where "STRFMT_T_OCT = 0x0020"
definition STRFMT_T_FP_A :: u32 where "STRFMT_T_FP_A = 0x0000"
definition STRFMT_T_FP_E :: u32 where "STRFMT_T_FP_E = 0x0010"
definition STRFMT_T_FP_F :: u32 where "STRFMT_T_FP_F = 0x0020"
definition STRFMT_T_FP_G :: u32 where "STRFMT_T_FP_G = 0x0030"
definition STRFMT_T_QUOTED :: u32 where "STRFMT_T_QUOTED = 0x0010"

definition STRFMT_F_LEFT :: u32 where "STRFMT_F_LEFT = 0x0100"
definition STRFMT_F_PLUS :: u32 where "STRFMT_F_PLUS = 0x0200"
definition STRFMT_F_ZERO :: u32 where "STRFMT_F_ZERO = 0x0400"
definition STRFMT_F_SPACE :: u32 where "STRFMT_F_SPACE = 0x0800"
definition STRFMT_F_ALT :: u32 where "STRFMT_F_ALT = 0x1000"
definition STRFMT_F_UPPER :: u32 where "STRFMT_F_UPPER = 0x2000"

definition STRFMT_SH_WIDTH :: nat where "STRFMT_SH_WIDTH = 16"
definition STRFMT_SH_PREC :: nat where "STRFMT_SH_PREC = 24"

definition STRFMT_TYPE :: "u32 \<Rightarrow> u32" where "STRFMT_TYPE sf = sf AND 15"
definition STRFMT_WIDTH :: "u32 \<Rightarrow> u32" where "STRFMT_WIDTH sf = drop_bit STRFMT_SH_WIDTH sf AND 255"
definition STRFMT_PREC :: "u32 \<Rightarrow> u32" where "STRFMT_PREC sf = (drop_bit STRFMT_SH_PREC sf AND 255) - 1"

definition STRFMT_A :: u32 where "STRFMT_A = STRFMT_NUM OR STRFMT_T_FP_A"
definition STRFMT_C :: u32 where "STRFMT_C = STRFMT_CHAR"
definition STRFMT_D :: u32 where "STRFMT_D = STRFMT_INT"
definition STRFMT_E :: u32 where "STRFMT_E = STRFMT_NUM OR STRFMT_T_FP_E"
definition STRFMT_F :: u32 where "STRFMT_F = STRFMT_NUM OR STRFMT_T_FP_F"
definition STRFMT_G :: u32 where "STRFMT_G = STRFMT_NUM OR STRFMT_T_FP_G"
definition STRFMT_I :: u32 where "STRFMT_I = STRFMT_D"
definition STRFMT_O :: u32 where "STRFMT_O = STRFMT_UINT OR STRFMT_T_OCT"
definition STRFMT_P :: u32 where "STRFMT_P = STRFMT_PTR"
definition STRFMT_Q :: u32 where "STRFMT_Q = STRFMT_STR OR STRFMT_T_QUOTED"
definition STRFMT_S :: u32 where "STRFMT_S = STRFMT_STR"
definition STRFMT_U :: u32 where "STRFMT_U = STRFMT_UINT"
definition STRFMT_X :: u32 where "STRFMT_X = STRFMT_UINT OR STRFMT_T_HEX"

lemmas strfmt_types = STRFMT_EOF_def STRFMT_ERR_def STRFMT_LIT_def STRFMT_INT_def STRFMT_UINT_def
  STRFMT_NUM_def STRFMT_STR_def STRFMT_CHAR_def STRFMT_PTR_def STRFMT_T_HEX_def STRFMT_T_OCT_def
  STRFMT_T_FP_A_def STRFMT_T_FP_E_def STRFMT_T_FP_F_def STRFMT_T_FP_G_def STRFMT_T_QUOTED_def

lemmas strfmt_flags = STRFMT_F_LEFT_def STRFMT_F_PLUS_def STRFMT_F_ZERO_def STRFMT_F_SPACE_def
  STRFMT_F_ALT_def STRFMT_F_UPPER_def STRFMT_SH_WIDTH_def STRFMT_SH_PREC_def

lemmas strfmt_convs = STRFMT_A_def STRFMT_C_def STRFMT_D_def STRFMT_E_def STRFMT_F_def STRFMT_G_def
  STRFMT_I_def STRFMT_O_def STRFMT_P_def STRFMT_Q_def STRFMT_S_def STRFMT_U_def STRFMT_X_def

section \<open>Format parser\<close>

definition strfmt_map :: "u32 list" where
  "strfmt_map = [
  STRFMT_A,0,0,0,STRFMT_E,0,STRFMT_G,0,0,0,0,0,0,
  0,0,0,0,0,0,0,0,0,0,STRFMT_X,0,0,
  0,0,0,0,0,0,
  STRFMT_A,0,STRFMT_C,STRFMT_D,STRFMT_E,STRFMT_F,STRFMT_G,0,STRFMT_I,0,0,0,0,
  0,STRFMT_O,STRFMT_P,STRFMT_Q,0,STRFMT_S,0,STRFMT_U,0,0,STRFMT_X]"

text \<open>
  The parser state: the bytes from \<open>p\<close> up to \<open>e\<close> (the string has a NUL at \<open>e\<close>, which the parser may
  look at), and the literal or bad format of the last call, \<open>str\<close> with length \<open>len\<close>.
\<close>

record FormatState =
  fs_p :: bytes
  fs_str :: bytes

definition peek :: "bytes \<Rightarrow> u32" where
  "peek p = (case p of [] \<Rightarrow> 0 | c # _ \<Rightarrow> ucast c)"

definition isdig :: "bytes \<Rightarrow> bool" where
  "isdig p = (peek p - 48 < 10)"

fun strfmt_flags_loop :: "bytes \<Rightarrow> u32 \<Rightarrow> u32 \<times> bytes" where
  "strfmt_flags_loop [] sf = (sf, [])"
| "strfmt_flags_loop (c # p) sf =
     (if (ucast c :: u32) - 32 \<le> 48 - 32 then
        if c = 45 then strfmt_flags_loop p (sf OR STRFMT_F_LEFT)
        else if c = 43 then strfmt_flags_loop p (sf OR STRFMT_F_PLUS)
        else if c = 48 then strfmt_flags_loop p (sf OR STRFMT_F_ZERO)
        else if c = 32 then strfmt_flags_loop p (sf OR STRFMT_F_SPACE)
        else if c = 35 then strfmt_flags_loop p (sf OR STRFMT_F_ALT)
        else (sf, c # p)
      else (sf, c # p))"

definition strfmt_width :: "bytes \<Rightarrow> u32 \<Rightarrow> u32 \<times> bytes" where
  "strfmt_width p sf =
     (if isdig p then
        let width = peek p - 48; p = tl p in
        if isdig p then (sf OR push_bit STRFMT_SH_WIDTH ((peek p - 48) + width * 10), tl p)
        else (sf OR push_bit STRFMT_SH_WIDTH width, p)
      else (sf, p))"

definition strfmt_prec :: "bytes \<Rightarrow> u32 \<Rightarrow> u32 \<times> bytes" where
  "strfmt_prec p sf =
     (if peek p = 46 then
        let p = tl p in
        if isdig p then
          let prec = peek p - 48; p = tl p in
          if isdig p then (sf OR push_bit STRFMT_SH_PREC (((peek p - 48) + prec * 10) + 1), tl p)
          else (sf OR push_bit STRFMT_SH_PREC (prec + 1), p)
        else (sf OR push_bit STRFMT_SH_PREC (0 + 1), p)
      else (sf, p))"

text \<open>After the \<open>%\<close>: \<open>p0\<close> is the string from the escape on, \<open>p\<close> what follows it.\<close>

definition strfmt_conv :: "bytes \<Rightarrow> bytes \<Rightarrow> u32 \<times> FormatState" where
  "strfmt_conv p0 p =
     (let (sf, p) = strfmt_flags_loop p 0;
          (sf, p) = strfmt_width p sf;
          (sf, p) = strfmt_prec p sf;
          c = peek p - 65;
          sx = (if c \<le> 120 - 65 then strfmt_map ! unat c else 0)
      in if sx \<noteq> 0 then
           (sf OR sx OR (if c AND 0x20 \<noteq> 0 then 0 else STRFMT_F_UPPER), \<lparr>fs_p = tl p, fs_str = p0\<rparr>)
         else
           let n = length p0 - length p + (if peek p \<ge> 32 then 1 else 0) in
           (STRFMT_ERR, \<lparr>fs_p = [], fs_str = take n p0\<rparr>))"

text \<open>The outer loop: \<open>lit\<close> is the literal read so far (from \<open>fs->str\<close> to \<open>p\<close>).\<close>

fun strfmt_scan :: "bytes \<Rightarrow> bytes \<Rightarrow> u32 \<times> FormatState" where
  "strfmt_scan lit [] =
     (if lit \<noteq> [] then STRFMT_LIT else STRFMT_EOF, \<lparr>fs_p = [], fs_str = lit\<rparr>)"
| "strfmt_scan lit (c # p) =
     (if c = 37 then
        if peek p = 37 then (STRFMT_LIT, \<lparr>fs_p = tl p, fs_str = lit @ [37]\<rparr>)
        else if lit \<noteq> [] then (STRFMT_LIT, \<lparr>fs_p = c # p, fs_str = lit\<rparr>)
        else strfmt_conv (c # p) p
      else strfmt_scan (lit @ [c]) p)"

definition lj_strfmt_parse :: "FormatState \<Rightarrow> u32 \<times> FormatState" where
  "lj_strfmt_parse fs = strfmt_scan [] (fs_p fs)"

section \<open>Raw conversions\<close>

text \<open>\<open>WINT_R(x, sh, sc)\<close>: the next digit of \<open>x\<close> by multiply and shift, and what remains.\<close>

definition WINT_R :: "u32 \<Rightarrow> nat \<Rightarrow> nat \<Rightarrow> u32 \<times> u8" where
  "WINT_R x sh sc =
     (let d = drop_bit sh (x * word_of_nat ((2 ^ sh + sc - 1) div sc))
      in (x - d * word_of_nat sc, ucast (48 + d)))"

text \<open>The labels \<open>dig1\<close>..\<open>dig7\<close> of the code and the two fall-through points, last digit first.\<close>

definition dig1 :: "u32 \<Rightarrow> bytes" where "dig1 u = [ucast (48 + u)]"
definition dig2 :: "u32 \<Rightarrow> bytes" where "dig2 u = (let (u, c) = WINT_R u 10 10 in c # dig1 u)"
definition dig3 :: "u32 \<Rightarrow> bytes" where "dig3 u = (let (u, c) = WINT_R u 12 100 in c # dig2 u)"
definition dig4 :: "u32 \<Rightarrow> bytes" where "dig4 u = (let (u, c) = WINT_R u 23 1000 in c # dig3 u)"
definition dig5 :: "u32 \<Rightarrow> u32 \<Rightarrow> bytes" where "dig5 v u = ucast (48 + v) # dig4 u"
definition dig6 :: "u32 \<Rightarrow> u32 \<Rightarrow> bytes" where "dig6 v u = (let (v, c) = WINT_R v 10 10 in c # dig5 v u)"
definition dig7 :: "u32 \<Rightarrow> u32 \<Rightarrow> bytes" where "dig7 v u = (let (v, c) = WINT_R v 12 100 in c # dig6 v u)"
definition dig8 :: "u32 \<Rightarrow> u32 \<Rightarrow> bytes" where "dig8 v u = (let (v, c) = WINT_R v 23 1000 in c # dig7 v u)"

definition lj_strfmt_wint :: "u32 \<Rightarrow> bytes" where
  "lj_strfmt_wint k =
     (let (u, sign) = (if sint k < 0 then (- k, [45]) else (k, [])) in
      sign @
      (if u < 10000 then
         if u < 10 then dig1 u else if u < 100 then dig2 u else if u < 1000 then dig3 u else dig4 u
       else
         let v = u div 10000; u = u - v * 10000 in
         if v < 10000 then
           if v < 10 then dig5 v u else if v < 100 then dig6 v u else if v < 1000 then dig7 v u
           else dig8 v u
         else
           let w = v div 10000; v = v - w * 10000;
               (w, c) = (if w \<ge> 10 then let (w, c) = WINT_R w 10 10 in (w, [c]) else (w, []))
           in c @ [ucast (48 + w)] @ dig8 v u))"

definition hexdig :: "u64 \<Rightarrow> u8" where
  "hexdig d = (if d < 10 then 48 + ucast d else 87 + ucast d)"

fun wptr_digits :: "nat \<Rightarrow> u64 \<Rightarrow> bytes" where
  "wptr_digits 0 x = []"
| "wptr_digits (Suc i) x = wptr_digits i (drop_bit 4 x) @ [hexdig (x AND 15)]"

definition lj_strfmt_wptr :: "u64 \<Rightarrow> bytes" where
  "lj_strfmt_wptr x =
     (if x = 0 then [78, 85, 76, 76]
      else
        let hi = (ucast (drop_bit 32 x) :: u32);
            n = 2 + 2 * 4 + (if hi \<noteq> 0 then 2 + 2 * (lj_fls hi div 8) else 0)
        in [48, 120] @ wptr_digits (n - 2) x)"

function lj_strfmt_wuleb128 :: "u32 \<Rightarrow> bytes" where
  "lj_strfmt_wuleb128 v =
     (if v \<ge> 0x80 then ucast ((v AND 0x7f) OR 0x80) # lj_strfmt_wuleb128 (drop_bit 7 v)
      else [ucast v])"
  by pat_completeness auto
termination
proof (relation "measure unat")
  fix v :: u32
  assume "0x80 \<le> v"
  then have "128 \<le> unat v" by (simp add: word_le_nat_alt)
  then show "(drop_bit 7 v, v) \<in> measure unat" by (simp add: drop_bit_eq_div unat_div)
qed simp

declare lj_strfmt_wuleb128.simps [simp del]

section \<open>Conversions to buffer\<close>

definition STRFMT_MAXBUF_XINT :: nat where "STRFMT_MAXBUF_XINT = 1 + 22"
definition STRFMT_MAXBUF_INT :: u32 where "STRFMT_MAXBUF_INT = 1 + 10"
definition STRFMT_MAXBUF_PTR :: u32 where "STRFMT_MAXBUF_PTR = 2 + 2 * 8"

definition lj_strfmt_putint :: "SBuf \<Rightarrow> u32 \<Rightarrow> ErrMsg + SBuf" where
  "lj_strfmt_putint sb k = buf_write sb STRFMT_MAXBUF_INT (lj_strfmt_wint k)"

definition lj_strfmt_putptr :: "SBuf \<Rightarrow> u64 \<Rightarrow> ErrMsg + SBuf" where
  "lj_strfmt_putptr sb v = buf_write sb STRFMT_MAXBUF_PTR (lj_strfmt_wptr v)"

text \<open>One step of the quoting loop: the bytes written for the character \<open>c\<close> when the rest of the string
  is \<open>s\<close> (the string ends with a NUL, which is what \<open>*s\<close> reads behind the last character).\<close>

definition quote_tens :: "u32 \<Rightarrow> bytes" where
  "quote_tens c = (let d = drop_bit 11 (c * 205); c = c - d * 10 in [ucast (48 + d), ucast (c + 48)])"

definition quote_char :: "u32 \<Rightarrow> bytes \<Rightarrow> bytes" where
  "quote_char c s =
     (if c = 34 \<or> c = 92 \<or> c = 10 then [92, ucast c]
      else if lj_char_iscntrl (uint c) then
        if c \<ge> 100 \<or> lj_char_isdigit (uint (peek s)) then
          [92, ucast (48 + (if c \<ge> 100 then 1 else 0 :: u32))] @ quote_tens (if c \<ge> 100 then c - 100 else c)
        else if c \<ge> 10 then [92] @ quote_tens c
        else [92, ucast (c + 48)]
      else [ucast c])"

fun putquoted_loop :: "SBuf \<Rightarrow> bytes \<Rightarrow> ErrMsg + SBuf" where
  "putquoted_loop sb [] = Inr sb"
| "putquoted_loop sb (c # s) =
     (case buf_write sb 4 (quote_char (ucast c) s) of
        Inl e \<Rightarrow> Inl e
      | Inr sb' \<Rightarrow> putquoted_loop sb' s)"

definition lj_strfmt_putquoted :: "SBuf \<Rightarrow> bytes \<Rightarrow> ErrMsg + SBuf" where
  "lj_strfmt_putquoted sb str =
     (case lj_buf_putb sb 34 of
        Inl e \<Rightarrow> Inl e
      | Inr sb \<Rightarrow>
          (case putquoted_loop sb str of
             Inl e \<Rightarrow> Inl e
           | Inr sb \<Rightarrow> lj_buf_putb sb 34))"

section \<open>Formatted conversions to buffer\<close>

text \<open>\<open>while (n-- > m) *p++ = c\<close> on unsigned 32 bit counters writes \<open>n - m\<close> bytes, none if \<open>n \<le> m\<close>.\<close>

definition fill :: "u32 \<Rightarrow> u32 \<Rightarrow> u8 \<Rightarrow> bytes" where
  "fill n m c = replicate (unat n - unat m) c"

definition lj_strfmt_putfchar :: "SBuf \<Rightarrow> u32 \<Rightarrow> u8 \<Rightarrow> ErrMsg + SBuf" where
  "lj_strfmt_putfchar sb sf c =
     (let width = STRFMT_WIDTH sf in
      buf_write sb (if width > 1 then width else 1)
        ((if sf AND STRFMT_F_LEFT \<noteq> 0 then [c] else []) @ fill width 1 32 @
         (if sf AND STRFMT_F_LEFT = 0 then [c] else [])))"

definition lj_strfmt_putfstr :: "SBuf \<Rightarrow> u32 \<Rightarrow> bytes \<Rightarrow> ErrMsg + SBuf" where
  "lj_strfmt_putfstr sb sf str =
     (let slen = (word_of_nat (length str) :: u32);
          len = (if slen \<le> STRFMT_PREC sf then slen else STRFMT_PREC sf);
          width = STRFMT_WIDTH sf
      in buf_write sb (if width > len then width else len)
        ((if sf AND STRFMT_F_LEFT \<noteq> 0 then take (unat len) str else []) @ fill width len 32 @
         (if sf AND STRFMT_F_LEFT = 0 then take (unat len) str else [])))"

text \<open>The digit loops of \<open>lj_strfmt_putfxint\<close>, which fill a fixed buffer from its end: the accumulator is
  what the buffer holds from \<open>q\<close> on.\<close>

function xint_dec32 :: "u32 \<Rightarrow> bytes \<Rightarrow> bytes" where
  "xint_dec32 k2 q =
     (let q = (48 + ucast (k2 mod 10)) # q; k2 = k2 div 10
      in if k2 \<noteq> 0 then xint_dec32 k2 q else q)"
  by pat_completeness auto
termination
  by (relation "measure (unat o fst)") (auto intro!: unat_div_less)

function xint_dec :: "u64 \<Rightarrow> bytes \<Rightarrow> bytes" where
  "xint_dec k q =
     (if drop_bit 32 k \<noteq> 0 then xint_dec (k div 10) ((48 + ucast (k mod 10)) # q)
      else xint_dec32 (ucast k) q)"
  by pat_completeness auto
termination
  by (relation "measure (unat o fst)") (auto intro!: unat_div_less)

function xint_hex :: "bool \<Rightarrow> u64 \<Rightarrow> bytes \<Rightarrow> bytes" where
  "xint_hex upper k q =
     (let d = k AND 15; q = (if upper \<and> d \<ge> 10 then 55 + ucast d else hexdig d) # q; k = drop_bit 4 k
      in if k \<noteq> 0 then xint_hex upper k q else q)"
  by pat_completeness auto
termination
  by (relation "measure (\<lambda>(u, k, q). unat k)") (auto simp: drop_bit_eq_div simp del: unat_div_distrib intro!: unat_div_less)

function xint_oct :: "u64 \<Rightarrow> bytes \<Rightarrow> bytes" where
  "xint_oct k q =
     (let q = (48 + ucast (k AND 7)) # q; k = drop_bit 3 k
      in if k \<noteq> 0 then xint_oct k q else q)"
  by pat_completeness auto
termination
  by (relation "measure (unat o fst)") (auto simp: drop_bit_eq_div simp del: unat_div_distrib intro!: unat_div_less)

declare xint_dec32.simps [simp del] xint_dec.simps [simp del] xint_hex.simps [simp del]
  xint_oct.simps [simp del]

text \<open>The signed prefix (second component: the prefix word, its length in the bits from 8 up).\<close>

definition xint_sign :: "u32 \<Rightarrow> u64 \<Rightarrow> u64 \<times> u32" where
  "xint_sign sf k =
     (if STRFMT_TYPE sf = STRFMT_INT then
        if sint k < 0 then (- k, 256 + 45)
        else if sf AND STRFMT_F_PLUS \<noteq> 0 then (k, 256 + 43)
        else if sf AND STRFMT_F_SPACE \<noteq> 0 then (k, 256 + 32)
        else (k, 0)
      else (k, 0))"

text \<open>The number conversion: what the fixed buffer holds from \<open>q\<close> on, and the prefix word.\<close>

definition xint_digits :: "u32 \<Rightarrow> u64 \<Rightarrow> u32 \<Rightarrow> u32 \<Rightarrow> bytes \<times> u32" where
  "xint_digits sf k prefix prec =
     (if k = 0 then
        (if prec \<noteq> 0 \<or> sf AND (STRFMT_T_OCT OR STRFMT_F_ALT) = (STRFMT_T_OCT OR STRFMT_F_ALT)
         then [48] else [], prefix)
      else if sf AND (STRFMT_T_HEX OR STRFMT_T_OCT) = 0 then (xint_dec k [], prefix)
      else if sf AND STRFMT_T_HEX \<noteq> 0 then
        (xint_hex (sf AND STRFMT_F_UPPER \<noteq> 0) k [],
         if sf AND STRFMT_F_ALT \<noteq> 0 then 512 + (if sf AND STRFMT_F_UPPER \<noteq> 0 then 88 else 120) else prefix)
      else ((if sf AND STRFMT_F_ALT \<noteq> 0 then [48] else []) @ xint_oct k [], prefix))"

text \<open>The bytes written and the space reserved.\<close>

definition xint_bytes :: "u32 \<Rightarrow> u64 \<Rightarrow> u32 \<times> bytes" where
  "xint_bytes sf0 k0 =
     (let (k, prefix) = xint_sign sf0 k0;
          prec = STRFMT_PREC sf0;
          sf = (if 0 \<le> sint prec then sf0 AND NOT STRFMT_F_ZERO else sf0);
          (q, prefix) = xint_digits sf k prefix prec;
          len = (word_of_nat (length q) :: u32);
          prec = (if sint len \<ge> sint prec then len else prec);
          width = STRFMT_WIDTH sf;
          pprec = prec + drop_bit 8 prefix;
          need = (if width > pprec then width else pprec)
      in (need,
          (if sf AND (STRFMT_F_LEFT OR STRFMT_F_ZERO) = 0 then fill width pprec 32 else []) @
          (if prefix \<noteq> 0 then
             (if (ucast prefix :: u8) \<ge> 88 then [48] else []) @ [ucast prefix] else []) @
          (if sf AND (STRFMT_F_LEFT OR STRFMT_F_ZERO) = STRFMT_F_ZERO then fill width pprec 48 else []) @
          fill prec len 48 @ q @
          (if sf AND STRFMT_F_LEFT \<noteq> 0 then fill width pprec 32 else [])))"

definition lj_strfmt_putfxint :: "SBuf \<Rightarrow> u32 \<Rightarrow> u64 \<Rightarrow> ErrMsg + SBuf" where
  "lj_strfmt_putfxint sb sf k = (let (need, bs) = xint_bytes sf k in buf_write sb need bs)"

end
