(* ===== verification/LJ_StrFmtProofs.thy ===== *)
theory LJ_StrFmtProofs
  imports LJ_StrFmt
begin

text \<open>
  Properties of the formatter of theory \<open>LJ_StrFmt\<close>: the LEB128 round trip, the decimal digits of the
  integer writers, and the sizes the writers reserve.
\<close>

section \<open>LEB128\<close>

lemma wuleb_small: "\<not> v \<ge> 0x80 \<Longrightarrow> lj_strfmt_wuleb128 v = [ucast v]"
  by (subst lj_strfmt_wuleb128.simps) simp

lemma wuleb_big: "v \<ge> 0x80 \<Longrightarrow>
    lj_strfmt_wuleb128 v = ucast ((v AND 0x7f) OR 0x80) # lj_strfmt_wuleb128 (drop_bit 7 v)"
  by (subst lj_strfmt_wuleb128.simps) simp

lemma uleb_byte:
  fixes v :: u32
  shows "ucast ((ucast ((v AND 0x7f) OR 0x80) :: u8) AND 0x7f) = v AND 0x7f"
    and "(ucast ((v AND 0x7f) OR 0x80) :: u8) \<ge> 0x80"
proof -
  show "ucast ((ucast ((v AND 0x7f) OR 0x80) :: u8) AND 0x7f) = v AND 0x7f"
    by (rule bit_word_eqI) (auto simp: bit_simps)
  have "bit (ucast ((v AND 0x7f) OR 0x80) :: u8) 7" by (simp add: bit_simps)
  then have "drop_bit 7 (ucast ((v AND 0x7f) OR 0x80) :: u8) \<noteq> 0"
    using bit_above_drop[of 7 _ 7] by blast
  then show "(ucast ((v AND 0x7f) OR 0x80) :: u8) \<ge> 0x80" by (simp add: ge_0x80_iff_u8)
qed

lemma uleb_last:
  fixes v :: u32
  assumes "\<not> v \<ge> 0x80"
  shows "ucast ((ucast v :: u8) AND 0x7f) = v" "\<not> (ucast v :: u8) \<ge> 0x80"
proof -
  have v: "unat v < 128" using assms by (simp add: word_le_nat_alt)
  have u: "unat (ucast v :: u8) = unat v" using v by (intro unat_ucast_le) simp
  show "\<not> (ucast v :: u8) \<ge> 0x80" using v u by (simp add: word_le_nat_alt)
  have "drop_bit 7 v = 0" using assms by (simp add: ge_0x80_iff_u32)
  then have "n < 7" if "bit v n" for n using that bit_above_drop not_less by blast
  then show "ucast ((ucast v :: u8) AND 0x7f) = v"
    by (intro bit_word_eqI) (force simp: bit_simps)
qed

lemma push_bit_pieces:
  fixes a x :: u32
  shows "a OR push_bit s (x AND 0x7f) OR push_bit (s + 7) (drop_bit 7 x) = a OR push_bit s x"
proof (rule bit_word_eqI)
  fix n assume n: "n < LENGTH(32)"
  show "bit (a OR push_bit s (x AND 0x7f) OR push_bit (s + 7) (drop_bit 7 x)) n \<longleftrightarrow> bit (a OR push_bit s x) n"
  proof (cases "s + 7 \<le> n")
    case True
    then obtain m where "n = s + 7 + m" using le_Suc_ex by blast
    then show ?thesis using n by (simp add: bit_simps)
  next
    case False
    then show ?thesis using n by (auto simp add: bit_simps)
  qed
qed

lemma ruleb128_loop_wuleb:
  "sh + 7 < 32 \<Longrightarrow> unat x < 2 ^ (32 - (sh + 7)) \<Longrightarrow>
     ruleb128_loop a sh (lj_strfmt_wuleb128 x @ rest) = Some (a OR push_bit (sh + 7) x, rest)"
proof (induction x arbitrary: a sh rule: lj_strfmt_wuleb128.induct)
  case (1 x)
  show ?case
  proof (cases "x \<ge> 0x80")
    case True
    have x: "2 ^ 7 \<le> unat x" using True by (simp add: word_le_nat_alt)
    then have "(2::nat) ^ 7 < 2 ^ (32 - (sh + 7))" using "1.prems"(2) by linarith
    then have "7 < 32 - (sh + 7)" by (rule power_less_imp_less_exp [rotated]) simp
    then have sh: "sh + 7 + 7 < 32" by linarith
    define d where "d = 32 - (sh + 7 + 7)"
    have "32 - (sh + 7) = 7 + d" using sh by (simp add: d_def)
    then have "unat x < 2 ^ d * 2 ^ 7" using "1.prems"(2) by (simp only: power_add mult.commute)
    then have "unat (drop_bit 7 x) < 2 ^ (32 - (sh + 7 + 7))"
      unfolding unat_drop_bit_div d_def by (rule less_mult_imp_div_less)
    moreover have "a OR push_bit (sh + 7) (x AND 0x7f) OR push_bit (sh + 7 + 7) (drop_bit 7 x)
        = a OR push_bit (sh + 7) x" by (rule push_bit_pieces)
    moreover define b where "b = (ucast ((x AND 0x7f) OR 0x80) :: u8)"
    moreover have "ucast (b AND 0x7f) = x AND 0x7f" "b \<ge> 0x80"
      unfolding b_def by (rule uleb_byte)+
    moreover have "lj_strfmt_wuleb128 x = b # lj_strfmt_wuleb128 (drop_bit 7 x)"
      unfolding b_def using True by (rule wuleb_big)
    ultimately show ?thesis using "1.IH"[OF True sh] sh
      by (simp add: Let_def or.assoc del: push_bit_and)
  next
    case False
    then show ?thesis using "1.prems" uleb_last[OF False] by (simp add: wuleb_small)
  qed
qed

lemma ruleb128_wuleb128: "lj_buf_ruleb128 (lj_strfmt_wuleb128 v @ rest) = Some (v, rest)"
proof (cases "v \<ge> 0x80")
  case True
  have "unat (drop_bit 7 v) < 2 ^ (32 - (0 + 7))"
    unfolding unat_drop_bit_div using u32_lt[of v] by (intro less_mult_imp_div_less) simp
  from ruleb128_loop_wuleb[OF _ this, of "v AND 0x7f" rest]
  have "ruleb128_loop (v AND 0x7f) 0 (lj_strfmt_wuleb128 (drop_bit 7 v) @ rest)
      = Some ((v AND 0x7f) OR push_bit 7 (drop_bit 7 v), rest)" by simp
  moreover have "(v AND 0x7f) OR push_bit 7 (drop_bit 7 v) = v"
    using push_bit_pieces[of 0 0 v] by simp
  moreover have "(ucast (ucast ((v AND 0x7f) OR 0x80) :: u8) :: u32) \<ge> 0x80"
    using uleb_byte(2)[of v] by (simp add: word_le_nat_alt unat_ucast_le)
  moreover have "ucast (ucast ((v AND 0x7f) OR 0x80) :: u8) AND 0x7f = v AND 0x7f"
    by (rule bit_word_eqI) (auto simp: bit_simps)
  ultimately show ?thesis using True by (simp add: lj_buf_ruleb128_def wuleb_big Let_def)
next
  case False
  have "ucast (ucast v :: u8) = v"
    using False by (simp add: word_unat_eq_iff word_le_nat_alt unat_ucast_le)
  then show ?thesis using False by (simp add: lj_buf_ruleb128_def wuleb_small Let_def)
qed

section \<open>Decimal digits\<close>

text \<open>The decimal digits of a number, and its last \<open>n\<close> digits with leading zeros.\<close>

fun dec_of :: "nat \<Rightarrow> bytes" where
  "dec_of n = (if n < 10 then [48 + of_nat n] else dec_of (n div 10) @ [48 + of_nat (n mod 10)])"

declare dec_of.simps [simp del]

fun digs :: "nat \<Rightarrow> nat \<Rightarrow> bytes" where
  "digs 0 x = []"
| "digs (Suc n) x = digs n (x div 10) @ [48 + of_nat (x mod 10)]"

lemma dec_of_digs: "10 ^ n \<le> x \<Longrightarrow> x < 10 ^ Suc n \<Longrightarrow> dec_of x = digs (Suc n) x"
proof (induction n arbitrary: x)
  case 0
  then show ?case by (simp add: dec_of.simps)
next
  case (Suc n)
  have "(10::nat) \<le> 10 ^ Suc n" by simp
  then have "\<not> x < 10" using Suc.prems(1) by linarith
  moreover have "10 ^ n \<le> x div 10" "x div 10 < 10 ^ Suc n" using Suc.prems by auto
  ultimately show ?case using Suc.IH[of "x div 10"] by (simp add: dec_of.simps[of x])
qed

lemma digs_front: "x < 10 ^ Suc n \<Longrightarrow> digs (Suc n) x = (48 + of_nat (x div 10 ^ n)) # digs n (x mod 10 ^ n)"
proof (induction n arbitrary: x)
  case 0
  then show ?case by simp
next
  case (Suc n)
  have "digs (Suc n) (x div 10) = (48 + of_nat (x div 10 div 10 ^ n)) # digs n (x div 10 mod 10 ^ n)"
    using Suc.prems by (intro Suc.IH) auto
  moreover have "x div 10 mod 10 ^ n = x mod 10 ^ Suc n div 10"
    by (simp add: mod_mult2_eq)
  moreover have "x mod 10 ^ Suc n mod 10 = x mod 10" by (simp add: mod_mod_cancel)
  ultimately show ?case by (simp add: div_mult2_eq)
qed

lemma digs_split: "y < 10 ^ b \<Longrightarrow> digs (a + b) (x * 10 ^ b + y) = digs a x @ digs b y"
proof (induction b arbitrary: y)
  case 0
  then show ?case by simp
next
  case (Suc b)
  have "(x * 10 ^ Suc b + y) div 10 = x * 10 ^ b + y div 10" by simp
  moreover have "(x * 10 ^ Suc b + y) mod 10 = y mod 10"
    using mod_mult_self3[of "x * 10 ^ b" 10 y] by (simp add: mult_ac)
  ultimately show ?case using Suc by simp
qed

text \<open>The multiply-and-shift divisions of \<open>WINT_R\<close> are exact in the ranges the code uses them in.\<close>

lemma mul_shift_div:
  fixes x :: nat
  assumes "0 < sc" "p \<le> m * sc"
    and "\<And>q r. q \<le> x div sc \<Longrightarrow> r < sc \<Longrightarrow> (sc * q + r) * m < p * q + p"
  shows "x * m div p = x div sc"
proof (rule div_nat_eqI)
  have x: "x = sc * (x div sc) + x mod sc" by simp
  have "p * (x div sc) \<le> m * sc * (x div sc)" using assms(2) by (rule mult_le_mono1)
  also have "\<dots> = sc * (x div sc) * m" by (simp add: mult_ac)
  also have "\<dots> \<le> x * m" by (intro mult_le_mono1) simp
  finally show "p * (x div sc) \<le> x * m" .
  have "(sc * (x div sc) + x mod sc) * m < p * (x div sc) + p"
    using assms(1) by (intro assms(3)) auto
  then show "x * m < p * Suc (x div sc)" using x by simp
qed

lemma le_div_less: "q \<le> x div sc \<Longrightarrow> x < 10 * sc \<Longrightarrow> q \<le> (9::nat)"
proof -
  assume q: "q \<le> x div sc" and x: "x < 10 * sc"
  have "x div sc < 10" using x by (simp add: less_mult_imp_div_less)
  then show "q \<le> 9" using q by simp
qed

lemma magic_div_le:
  assumes "x < 10 * sc" "0 < sc" "p \<le> m * sc"
    and "\<And>q r. q \<le> 9 \<Longrightarrow> r < sc \<Longrightarrow> (sc * q + r) * m < p * q + p"
  shows "x * m div p = x div (sc :: nat)"
  by (rule mul_shift_div) (use assms le_div_less[OF _ assms(1)] in simp_all)

lemma magic_div:
  "x < 100 \<Longrightarrow> x * 103 div 1024 = x div (10::nat)"
  "x < 1000 \<Longrightarrow> x * 41 div 4096 = x div (100::nat)"
  "x < 10000 \<Longrightarrow> x * 8389 div 8388608 = x div (1000::nat)"
  subgoal by (rule magic_div_le) (simp_all add: algebra_simps)
  subgoal by (rule magic_div_le) (simp_all add: algebra_simps)
  subgoal by (rule magic_div_le) (simp_all add: algebra_simps)
  done

lemma dec_groups: "n div 10000 div 10000 * 100000000 + (n div 10000 mod 10000 * 10000 + n mod 10000) = (n::nat)"
proof -
  have "a = b * 10000 + c \<Longrightarrow> n = a * 10000 + r \<Longrightarrow> b * 100000000 + (c * 10000 + r) = n" for a b c r :: nat
    by simp
  from this[of "n div 10000"] show ?thesis by (simp only: div_mult_mod_eq)
qed

lemma ucast_digit: "n < 100 \<Longrightarrow> (ucast (48 + word_of_nat n :: u32) :: u8) = 48 + word_of_nat n"
proof -
  assume n: "n < 100"
  have "unat (48 + word_of_nat n :: u32) = 48 + n" "unat (48 + word_of_nat n :: u8) = 48 + n"
    using n by (simp_all add: unat_word_ariths unat_of_nat_id)
  moreover from this(1) have "unat (ucast (48 + word_of_nat n :: u32) :: u8) = 48 + n"
    using n by (subst unat_ucast_le) auto
  ultimately show ?thesis by (simp add: word_unat_eq_iff)
qed

lemma WINT_R_spec:
  assumes d: "unat x * m div 2 ^ sh = unat x div sc" and m: "(2 ^ sh + sc - 1) div sc = m"
    and b: "unat x * m < 2 ^ 32" "unat x div sc < 10"
  shows "WINT_R x sh sc = (word_of_nat (unat x mod sc), 48 + word_of_nat (unat x div sc))"
proof -
  define q :: u32 where "q = drop_bit sh (x * word_of_nat m)"
  have "unat (x * word_of_nat m :: u32) = unat x * m"
  proof (cases "unat x = 0")
    case False
    then have "m < 2 ^ 32" using b(1) by (cases "unat x") auto
    then show ?thesis using b(1) by (simp add: unat_word_ariths unat_of_nat_id)
  qed (simp add: unat_eq_0)
  then have uq: "unat q = unat x div sc" by (simp add: q_def unat_drop_bit_div d)
  have q: "q = word_of_nat (unat x div sc)" unfolding uq[symmetric] by simp
  have "x = word_of_nat (sc * (unat x div sc) + unat x mod sc)" by simp
  then have "x - q * word_of_nat sc = word_of_nat (unat x mod sc)"
    unfolding q of_nat_add of_nat_mult by (simp add: algebra_simps)
  moreover have "(ucast (48 + q) :: u8) = 48 + word_of_nat (unat x div sc)"
    using b(2) unfolding q by (intro ucast_digit) simp
  ultimately show ?thesis unfolding WINT_R_def m q_def[symmetric] Let_def by simp
qed

lemma unat_word_of_nat_u32: "n < 4294967296 \<Longrightarrow> unat (word_of_nat n :: u32) = n"
  by (rule unat_of_nat_id) simp

lemma WINT_R_10: "unat x < 100 \<Longrightarrow> WINT_R x 10 10 = (word_of_nat (unat x mod 10), 48 + word_of_nat (unat x div 10))"
  by (rule WINT_R_spec[where m = 103]) (simp_all add: magic_div less_mult_imp_div_less)

lemma WINT_R_100: "unat x < 1000 \<Longrightarrow> WINT_R x 12 100 = (word_of_nat (unat x mod 100), 48 + word_of_nat (unat x div 100))"
  by (rule WINT_R_spec[where m = 41]) (simp_all add: magic_div less_mult_imp_div_less)

lemma WINT_R_1000: "unat x < 10000 \<Longrightarrow> WINT_R x 23 1000 = (word_of_nat (unat x mod 1000), 48 + word_of_nat (unat x div 1000))"
  by (rule WINT_R_spec[where m = 8389]) (simp_all add: magic_div less_mult_imp_div_less)

lemma digs_cons:
  "unat (u :: u32) < 10 ^ Suc n \<Longrightarrow> k = 10 ^ n \<Longrightarrow> m = Suc n \<Longrightarrow>
     (48 + word_of_nat (unat u div k)) # digs n (unat u mod k) = digs m (unat u)"
  using digs_front[of "unat u" n] by simp

lemma mod_lt_u32: "0 < m \<Longrightarrow> m < 4294967296 \<Longrightarrow> unat (word_of_nat (n mod m) :: u32) = n mod m"
  by (rule unat_word_of_nat_u32) (rule less_trans[OF mod_less_divisor])

lemma dig1_digs: "unat u < 10 \<Longrightarrow> dig1 u = digs 1 (unat u)"
  using ucast_digit[of "unat u"] by (simp add: dig1_def)

lemma dig2_digs: "unat u < 100 \<Longrightarrow> dig2 u = digs 2 (unat u)"
  by (simp add: dig2_def WINT_R_10 dig1_digs mod_lt_u32 del: digs.simps, rule digs_cons) simp_all

lemma dig3_digs: "unat u < 1000 \<Longrightarrow> dig3 u = digs 3 (unat u)"
  by (simp add: dig3_def WINT_R_100 dig2_digs mod_lt_u32 del: digs.simps, rule digs_cons) simp_all

lemma dig4_digs: "unat u < 10000 \<Longrightarrow> dig4 u = digs 4 (unat u)"
  by (simp add: dig4_def WINT_R_1000 dig3_digs mod_lt_u32 del: digs.simps, rule digs_cons) simp_all

lemma dig5_digs: "unat v < 10 \<Longrightarrow> unat u < 10000 \<Longrightarrow> dig5 v u = digs 1 (unat v) @ digs 4 (unat u)"
  unfolding dig5_def using ucast_digit[of "unat v"] by (simp add: dig4_digs del: digs.simps(2)) simp

lemma dig6_digs:
  assumes "unat v < 100" "unat u < 10000"
  shows "dig6 v u = digs 2 (unat v) @ digs 4 (unat u)"
proof -
  have "dig6 v u = ((48 + word_of_nat (unat v div 10)) # digs 1 (unat v mod 10)) @ digs 4 (unat u)"
    using assms by (simp add: dig6_def WINT_R_10 dig5_digs mod_lt_u32 del: digs.simps)
  moreover have "(48 + word_of_nat (unat v div 10)) # digs 1 (unat v mod 10) = digs 2 (unat v)"
    by (rule digs_cons) (use assms(1) in simp_all)
  ultimately show ?thesis by (simp only:)
qed

lemma dig7_digs:
  assumes "unat v < 1000" "unat u < 10000"
  shows "dig7 v u = digs 3 (unat v) @ digs 4 (unat u)"
proof -
  have "dig7 v u = ((48 + word_of_nat (unat v div 100)) # digs 2 (unat v mod 100)) @ digs 4 (unat u)"
    using assms by (simp add: dig7_def WINT_R_100 dig6_digs mod_lt_u32 del: digs.simps)
  moreover have "(48 + word_of_nat (unat v div 100)) # digs 2 (unat v mod 100) = digs 3 (unat v)"
    by (rule digs_cons) (use assms(1) in simp_all)
  ultimately show ?thesis by (simp only:)
qed

lemma dig8_digs:
  assumes "unat v < 10000" "unat u < 10000"
  shows "dig8 v u = digs 4 (unat v) @ digs 4 (unat u)"
proof -
  have "dig8 v u = ((48 + word_of_nat (unat v div 1000)) # digs 3 (unat v mod 1000)) @ digs 4 (unat u)"
    using assms by (simp add: dig8_def WINT_R_1000 dig7_digs mod_lt_u32 del: digs.simps)
  moreover have "(48 + word_of_nat (unat v div 1000)) # digs 3 (unat v mod 1000) = digs 4 (unat v)"
    by (rule digs_cons) (use assms(1) in simp_all)
  ultimately show ?thesis by (simp only:)
qed

lemma dec_of_split:
  assumes "10 ^ n \<le> x" "x < 10 ^ Suc n" "y < 10 ^ b"
  shows "dec_of (x * 10 ^ b + y) = digs (Suc n) x @ digs b y"
proof -
  have l: "10 ^ (n + b) \<le> x * 10 ^ b + y"
    using mult_le_mono1[OF assms(1), of "10 ^ b"] unfolding power_add by linarith
  have "x * 10 ^ b + y < (x + 1) * 10 ^ b" using assms(3) by simp
  also have "\<dots> \<le> 10 ^ Suc n * 10 ^ b" using assms(2) by (intro mult_le_mono1) simp
  also have "\<dots> = 10 ^ Suc (n + b)" by (simp add: power_add)
  finally have "dec_of (x * 10 ^ b + y) = digs (Suc (n + b)) (x * 10 ^ b + y)"
    by (rule dec_of_digs[OF l])
  also have "\<dots> = digs (Suc n) x @ digs b y" using digs_split[OF assms(3), of "Suc n" x] by simp
  finally show ?thesis .
qed

lemma unat_sub_mul_div: "unat (u - u div c * c) = unat u mod unat (c :: u32)"
  by (simp add: minus_div_mult_eq_mod unat_mod_distrib)

definition wint_low :: "u32 \<Rightarrow> bytes" where
  "wint_low u = (if u < 10 then dig1 u else if u < 100 then dig2 u else if u < 1000 then dig3 u else dig4 u)"

definition wint_mid :: "u32 \<Rightarrow> u32 \<Rightarrow> bytes" where
  "wint_mid v u = (if v < 10 then dig5 v u else if v < 100 then dig6 v u else if v < 1000 then dig7 v u
     else dig8 v u)"

lemma dec_of_range: "lo = 10 ^ n \<Longrightarrow> k = Suc n \<Longrightarrow> lo \<le> x \<Longrightarrow> x < 10 * lo \<Longrightarrow> dec_of x = digs k x"
  using dec_of_digs[of n x] by simp

lemma dec_of_1: "x < 10 \<Longrightarrow> dec_of x = digs 1 x"
  by (simp add: dec_of.simps)

lemma wint_low_dec:
  assumes "unat u < 10000"
  shows "wint_low u = dec_of (unat u)"
proof -
  consider "unat u < 10" | "10 \<le> unat u" "unat u < 100" | "100 \<le> unat u" "unat u < 1000" | "1000 \<le> unat u"
    by linarith
  then show ?thesis
  proof cases
    case 1
    then show ?thesis using dig1_digs dec_of_1 by (simp only: wint_low_def word_less_nat_alt) simp
  next
    case 2
    then show ?thesis using dig2_digs[of u] dec_of_range[of 10 1 2 "unat u"]
      by (simp add: wint_low_def word_less_nat_alt del: digs.simps)
  next
    case 3
    then show ?thesis using dig3_digs[of u] dec_of_range[of 100 2 3 "unat u"]
      by (simp add: wint_low_def word_less_nat_alt del: digs.simps)
  next
    case 4
    then show ?thesis using dig4_digs[of u] dec_of_range[of 1000 3 4 "unat u"] assms
      by (simp add: wint_low_def word_less_nat_alt del: digs.simps)
  qed
qed

lemma wint_mid_dec:
  assumes "0 < unat v" "unat v < 10000" "unat u < 10000"
  shows "wint_mid v u = dec_of (unat v * 10000 + unat u)"
proof -
  have d: "dec_of (unat v * 10000 + unat u) = digs k (unat v) @ digs 4 (unat u)"
    if "lo = 10 ^ n" "k = Suc n" "lo \<le> unat v" "unat v < 10 * lo" for lo n k
    using dec_of_split[of n "unat v" "unat u" 4] that assms(3) by simp
  consider "unat v < 10" | "10 \<le> unat v" "unat v < 100" | "100 \<le> unat v" "unat v < 1000" | "1000 \<le> unat v"
    by linarith
  then show ?thesis
  proof cases
    case 1
    have "dec_of (unat v * 10000 + unat u) = digs 1 (unat v) @ digs 4 (unat u)"
      by (rule d[of 1 0]) (use 1 assms in simp_all)
    moreover have "wint_mid v u = dig5 v u" using 1 by (simp add: wint_mid_def word_less_nat_alt)
    ultimately show ?thesis using dig5_digs[of v u] 1 assms by (simp only:)
  next
    case 2
    have "dec_of (unat v * 10000 + unat u) = digs 2 (unat v) @ digs 4 (unat u)"
      by (rule d[of 10 1]) (use 2 assms in simp_all)
    moreover have "wint_mid v u = dig6 v u" using 2 by (simp add: wint_mid_def word_less_nat_alt)
    ultimately show ?thesis using dig6_digs[of v u] 2 assms by (simp only:)
  next
    case 3
    have "dec_of (unat v * 10000 + unat u) = digs 3 (unat v) @ digs 4 (unat u)"
      by (rule d[of 100 2]) (use 3 assms in simp_all)
    moreover have "wint_mid v u = dig7 v u" using 3 by (simp add: wint_mid_def word_less_nat_alt)
    ultimately show ?thesis using dig7_digs[of v u] 3 assms by (simp only:)
  next
    case 4
    have "dec_of (unat v * 10000 + unat u) = digs 4 (unat v) @ digs 4 (unat u)"
      by (rule d[of 1000 3]) (use 4 assms in simp_all)
    moreover have "wint_mid v u = dig8 v u" using 4 by (simp add: wint_mid_def word_less_nat_alt)
    ultimately show ?thesis using dig8_digs[of v u] 4 assms by (simp only:)
  qed
qed

definition wint_high :: "u32 \<Rightarrow> u32 \<Rightarrow> u32 \<Rightarrow> bytes" where
  "wint_high w v u =
     (let (w, c) = (if w \<ge> 10 then let (w, c) = WINT_R w 10 10 in (w, [c]) else (w, []))
      in c @ [ucast (48 + w)] @ dig8 v u)"

lemma wint_high_dec:
  assumes "0 < unat w" "unat w < 100" "unat v < 10000" "unat u < 10000"
  shows "wint_high w v u = dec_of (unat w * 100000000 + (unat v * 10000 + unat u))"
proof -
  have y: "unat v * 10000 + unat u < 10 ^ 8" using assms by simp
  have "digs 8 (unat v * 10000 + unat u) = digs 4 (unat v) @ digs 4 (unat u)"
    using digs_split[of "unat u" 4 4 "unat v"] assms(4) by simp
  then have d: "dec_of (unat w * 100000000 + (unat v * 10000 + unat u)) = digs k (unat w) @ dig8 v u"
    if "lo = 10 ^ n" "k = Suc n" "lo \<le> unat w" "unat w < 10 * lo" for lo n k
    using dec_of_split[of n "unat w" "unat v * 10000 + unat u" 8] that y assms(3,4) dig8_digs by simp
  show ?thesis
  proof (cases "unat w < 10")
    case True
    have "wint_high w v u = dig1 w @ dig8 v u" using True by (simp add: wint_high_def word_le_nat_alt dig1_def)
    moreover have "dec_of (unat w * 100000000 + (unat v * 10000 + unat u)) = digs 1 (unat w) @ dig8 v u"
      by (rule d[of 1 0]) (use True assms(1) in simp_all)
    ultimately show ?thesis using dig1_digs[OF True] by (simp only:)
  next
    case False
    have "wint_high w v u = dig2 w @ dig8 v u"
      using False assms(2) by (simp add: wint_high_def word_le_nat_alt WINT_R_10 dig2_def dig1_def)
    moreover have "dec_of (unat w * 100000000 + (unat v * 10000 + unat u)) = digs 2 (unat w) @ dig8 v u"
      by (rule d[of 10 1]) (use False assms(2) in simp_all)
    ultimately show ?thesis using dig2_digs[OF assms(2)] by (simp only:)
  qed
qed

text \<open>The whole routine on the magnitude \<open>u\<close>.\<close>

definition wint_mag :: "u32 \<Rightarrow> bytes" where
  "wint_mag u =
     (if u < 10000 then wint_low u
      else let v = u div 10000; u = u - v * 10000 in
        if v < 10000 then wint_mid v u
        else let w = v div 10000; v = v - w * 10000 in wint_high w v u)"

lemma lj_strfmt_wint_eq:
  "lj_strfmt_wint k = (if sint k < 0 then 45 # wint_mag (- k) else wint_mag k)"
  by (simp add: lj_strfmt_wint_def wint_mag_def wint_low_def wint_mid_def wint_high_def Let_def)

lemma wint_mag_dec: "wint_mag u = dec_of (unat u)"
proof (cases "u < 10000")
  case True
  then show ?thesis using wint_low_dec[of u] by (simp add: wint_mag_def word_less_nat_alt)
next
  case u: False
  define v where "v = u div 10000"
  have v: "unat v = unat u div 10000" by (simp add: v_def unat_div)
  have r: "unat (u - v * 10000) = unat u mod 10000" using unat_sub_mul_div[of u 10000] by (simp add: v_def)
  show ?thesis
  proof (cases "v < 10000")
    case True
    have "0 < unat v" using u v by (simp add: word_less_nat_alt div_greater_zero_iff)
    then have "wint_mid v (u - v * 10000) = dec_of (unat v * 10000 + unat (u - v * 10000))"
      using True r by (intro wint_mid_dec) (simp_all add: word_less_nat_alt)
    moreover have "unat v * 10000 + unat (u - v * 10000) = unat u" unfolding v r by simp
    ultimately show ?thesis using u True by (simp add: wint_mag_def v_def[symmetric])
  next
    case False
    define w where "w = v div 10000"
    have w: "unat w = unat v div 10000" by (simp add: w_def unat_div)
    have rv: "unat (v - w * 10000) = unat v mod 10000" using unat_sub_mul_div[of v 10000] by (simp add: w_def)
    have "unat v \<le> 429496" unfolding v using u32_lt[of u] by linarith
    then have "unat w < 100" "0 < unat w"
      using w False by (simp_all add: word_less_nat_alt div_greater_zero_iff less_mult_imp_div_less)
    then have "wint_high w (v - w * 10000) (u - v * 10000) =
        dec_of (unat w * 100000000 + (unat (v - w * 10000) * 10000 + unat (u - v * 10000)))"
      using r rv by (intro wint_high_dec) simp_all
    moreover have "unat w * 100000000 + (unat (v - w * 10000) * 10000 + unat (u - v * 10000)) = unat u"
      unfolding r rv w v by (rule dec_groups)
    ultimately show ?thesis using u False by (simp add: wint_mag_def v_def[symmetric] w_def[symmetric])
  qed
qed

lemma lj_strfmt_wint_dec:
  "lj_strfmt_wint k = (if sint k < 0 then [45] else []) @ dec_of (nat \<bar>sint k\<bar>)"
  using unat_abs_sint[of k] by (simp add: lj_strfmt_wint_eq wint_mag_dec split: if_splits)

section \<open>The formatted integers\<close>


lemma dec_of_small: "n < 10 \<Longrightarrow> dec_of n = [48 + word_of_nat n]"
  by (subst dec_of.simps) simp

lemma xint_dec32_dec: "xint_dec32 k q = dec_of (unat k) @ q"
proof (induction k q rule: xint_dec32.induct)
  case (1 k q)
  have d: "unat (k div 10) = unat k div 10" "unat (k mod 10) = unat k mod 10" by (simp_all add: unat_div unat_mod)
  have c: "(48 :: u8) + ucast (k mod 10) = 48 + word_of_nat (unat k mod 10)"
    using d(2) by (simp add: word_unat_eq_iff unat_word_ariths unat_ucast_le unat_of_nat_id)
  show ?case
  proof (cases "k div 10 = 0")
    case True
    then have "unat k < 10" using d(1) by (simp add: div_eq_0_iff)
    then have "xint_dec32 k q = [48 + ucast (k mod 10)] @ q" "dec_of (unat k) = [48 + word_of_nat (unat k mod 10)]"
      using True by (simp_all add: xint_dec32.simps[of k] dec_of_small Let_def)
    then show ?thesis using c by (simp only:)
  next
    case False
    then have "\<not> unat k < 10" using d(1) by (auto simp: word_unat_eq_iff)
    then show ?thesis using False "1"[OF refl refl] c d(1) by (simp add: xint_dec32.simps[of k] dec_of.simps[of "unat k"])
  qed
qed

lemma xint_dec_dec: "xint_dec k q = dec_of (unat k) @ q"
proof (induction k q rule: xint_dec.induct)
  case (1 k q)
  have d: "unat (k div 10) = unat k div 10" "unat (k mod 10) = unat k mod 10" by (simp_all add: unat_div unat_mod)
  have c: "(48 :: u8) + ucast (k mod 10) = 48 + word_of_nat (unat k mod 10)"
    using d(2) by (simp add: word_unat_eq_iff unat_word_ariths unat_ucast_le unat_of_nat_id)
  show ?case
  proof (cases "drop_bit 32 k = 0")
    case True
    then have "unat k < 2 ^ 32" using unat_drop_bit_div[of 32 k] by (simp add: div_eq_0_iff)
    then show ?thesis using True by (simp add: xint_dec.simps[of k] xint_dec32_dec unat_ucast_le)
  next
    case False
    then have "\<not> unat k < 10" using unat_drop_bit_div[of 32 k] by (auto simp: word_unat_eq_iff)
    then show ?thesis using False "1" c d(1) by (simp add: xint_dec.simps[of k] dec_of.simps[of "unat k"])
  qed
qed

lemma length_dec_of: "n < 10 ^ m \<Longrightarrow> 0 < m \<Longrightarrow> length (dec_of n) \<le> m"
proof (induction m arbitrary: n)
  case (Suc m)
  show ?case
  proof (cases "n < 10")
    case False
    then have "0 < m" using Suc.prems by (cases m) auto
    moreover have "n div 10 < 10 ^ m" using Suc.prems by (simp add: less_mult_imp_div_less)
    ultimately show ?thesis using Suc.IH False by (simp add: dec_of.simps[of n])
  qed (simp add: dec_of_small)
qed simp

lemma length_xint_hex: "unat k < 16 ^ m \<Longrightarrow> 0 < m \<Longrightarrow> length (xint_hex u k q) \<le> length q + m"
proof (induction m arbitrary: k q)
  case (Suc m)
  have d: "unat (drop_bit 4 k) = unat k div 16" by (simp add: unat_drop_bit_div)
  show ?case
  proof (cases "drop_bit 4 k = 0")
    case True then show ?thesis by (simp add: xint_hex.simps[of u k] Let_def)
  next
    case False
    then have "0 < m" using Suc.prems d by (cases m) (auto simp: word_unat_eq_iff)
    moreover have "unat (drop_bit 4 k) < 16 ^ m" using Suc.prems d by (simp add: less_mult_imp_div_less)
    ultimately have "length (xint_hex u (drop_bit 4 k) (c # q)) \<le> length (c # q) + m" for c using Suc.IH by blast
    then show ?thesis using False by (simp add: xint_hex.simps[of u k] Let_def split del: if_split)
  qed
qed simp

lemma length_xint_oct: "unat k < 8 ^ m \<Longrightarrow> 0 < m \<Longrightarrow> length (xint_oct k q) \<le> length q + m"
proof (induction m arbitrary: k q)
  case (Suc m)
  have d: "unat (drop_bit 3 k) = unat k div 8" by (simp add: unat_drop_bit_div)
  show ?case
  proof (cases "drop_bit 3 k = 0")
    case True then show ?thesis by (simp add: xint_oct.simps[of k])
  next
    case False
    then have "0 < m" using Suc.prems d by (cases m) (auto simp: word_unat_eq_iff)
    moreover have "unat (drop_bit 3 k) < 8 ^ m" using Suc.prems d by (simp add: less_mult_imp_div_less)
    ultimately have "length (xint_oct (drop_bit 3 k) (c # q)) \<le> length (c # q) + m" for c using Suc.IH by blast
    then show ?thesis using False by (simp add: xint_oct.simps[of k] Let_def)
  qed
qed simp

lemma u64_lt: "unat (k :: u64) < 18446744073709551616"
  using unsigned_less[of k] by simp

lemma xint_digits_bound: "length (fst (xint_digits sf k prefix prec)) \<le> STRFMT_MAXBUF_XINT"
proof -
  have "length (xint_dec k []) \<le> 20" unfolding xint_dec_dec append_Nil2
    by (rule length_dec_of) (rule less_trans[OF u64_lt], simp_all)
  moreover have "length (xint_hex u k []) \<le> 23" for u
    using length_xint_hex[of k 16 u "[]"] u64_lt[of k] by simp
  moreover have "length (xint_oct k []) \<le> 22"
    using length_xint_oct[of k 22 "[]"] u64_lt[of k] by simp
  ultimately show ?thesis
    unfolding xint_digits_def STRFMT_MAXBUF_XINT_def by (simp split: if_split)
qed

lemma and_flag_if:
  "(x :: u32) AND 0x100 = (if bit x 8 then 0x100 else 0)"
  "x AND 0x400 = (if bit x 10 then 0x400 else 0)"
proof -
  have *: "x AND 2 ^ n = (if bit x n then 2 ^ n else 0)" for n
    by (rule bit_word_eqI) (auto simp: bit_simps bit_exp_iff)
  show "x AND 0x100 = (if bit x 8 then 0x100 else 0)" "x AND 0x400 = (if bit x 10 then 0x400 else 0)"
    using *[of 8] *[of 10] by simp_all
qed

lemma sf_flag_cases:
  obtains (none) "sf AND (STRFMT_F_LEFT OR STRFMT_F_ZERO) = 0" "sf AND STRFMT_F_LEFT = 0"
  | (zero) "sf AND (STRFMT_F_LEFT OR STRFMT_F_ZERO) = STRFMT_F_ZERO" "sf AND STRFMT_F_LEFT = 0"
  | (left) "sf AND STRFMT_F_LEFT \<noteq> 0" "sf AND (STRFMT_F_LEFT OR STRFMT_F_ZERO) \<noteq> 0"
      "sf AND (STRFMT_F_LEFT OR STRFMT_F_ZERO) \<noteq> STRFMT_F_ZERO"
  by (cases "bit sf 8"; cases "bit sf 10")
     (simp_all only: bit.conj_disj_distrib STRFMT_F_LEFT_def STRFMT_F_ZERO_def and_flag_if if_True if_False, simp_all)

lemma xint_sign_prefix: "snd (xint_sign sf k) \<in> {0, 256 + 45, 256 + 43, 256 + 32}"
  by (simp add: xint_sign_def)

lemma xint_digits_prefix:
  "snd (xint_digits sf k prefix prec) \<in> {prefix, 512 + 88, 512 + 120}"
  by (simp add: xint_digits_def)

lemma STRFMT_PREC_cases: "STRFMT_PREC sf = - 1 \<or> unat (STRFMT_PREC sf) \<le> 254"
proof -
  define x where "x = drop_bit STRFMT_SH_PREC sf AND 255"
  have "x \<le> 255" unfolding x_def by (rule word_and_le1)
  then have "x = 0 \<or> unat (x - 1) \<le> 254"
    by (cases "x = 0") (auto simp: word_le_nat_alt unat_sub_if' unat_eq_0 unat_gt_0 Suc_le_eq)
  then show ?thesis by (auto simp: STRFMT_PREC_def x_def)
qed

lemma STRFMT_WIDTH_le: "unat (STRFMT_WIDTH sf) \<le> 255"
proof -
  have "STRFMT_WIDTH sf \<le> 255" unfolding STRFMT_WIDTH_def by (rule word_and_le1)
  then show ?thesis by (simp add: word_le_nat_alt)
qed

text \<open>The field of zero padding: the digits and the zeros in front of them are the larger of both counts.\<close>

definition xint_prec :: "u32 \<Rightarrow> u32 \<Rightarrow> u32" where
  "xint_prec len prec = (if sint len \<ge> sint prec then len else prec)"

lemma xint_prec_le:
  assumes "unat len \<le> 23" "prec = - 1 \<or> unat prec \<le> 254"
  shows "unat len \<le> unat (xint_prec len prec)" "unat (xint_prec len prec) \<le> 254"
proof -
  have s: "sint x = int (unat x)" if "unat x \<le> 254" for x :: u32
  proof -
    have i: "int (unat x) = uint x" by (rule int_unat_u32)
    have "uint x \<le> 254" using that by (simp only: i[symmetric])
    then show ?thesis using i by (simp add: sint_u32)
  qed
  have l: "sint len = int (unat len)" using assms(1) by (intro s) simp
  have "unat len \<le> unat (xint_prec len prec) \<and> unat (xint_prec len prec) \<le> 254"
    using assms(2)
  proof
    assume "prec = - 1"
    then have "sint prec = - 1" by simp
    then have "xint_prec len prec = len" using uint_ge_0[of len] unfolding xint_prec_def l by (simp, linarith)
    then show ?thesis using assms(1) by simp
  next
    assume p: "unat prec \<le> 254"
    show ?thesis unfolding xint_prec_def l s[OF p] of_nat_le_iff using assms(1) p by simp
  qed
  then show "unat len \<le> unat (xint_prec len prec)" "unat (xint_prec len prec) \<le> 254" by auto
qed

lemma length_fill [simp]: "length (fill n m c) = unat n - unat m"
  by (simp add: fill_def)

lemma prefix_bytes:
  assumes "prefix \<in> {0, 256 + 45, 256 + 43, 256 + 32, 512 + 88, 512 + 120 :: u32}"
  shows "length (if prefix \<noteq> 0 then (if (ucast prefix :: u8) \<ge> 88 then [48] else []) @ [ucast prefix :: u8] else [])
           = unat (drop_bit 8 prefix)" "unat (drop_bit 8 prefix) \<le> 2"
  using assms by auto

lemma xint_bytes_need: "case xint_bytes sf k of (need, bs) \<Rightarrow> length bs = unat need"
proof -
  define pre where "pre = snd (xint_sign sf k)"
  define k' where "k' = fst (xint_sign sf k)"
  define prec where "prec = STRFMT_PREC sf"
  define sf' where "sf' = (if 0 \<le> sint prec then sf AND NOT STRFMT_F_ZERO else sf)"
  define q where "q = fst (xint_digits sf' k' pre prec)"
  define pre' where "pre' = snd (xint_digits sf' k' pre prec)"
  define len :: u32 where "len = word_of_nat (length q)"
  define p where "p = xint_prec len prec"
  define w where "w = STRFMT_WIDTH sf'"
  define pp where "pp = p + drop_bit 8 pre'"
  have q: "length q \<le> 23" using xint_digits_bound[of sf' k' pre prec] by (simp add: q_def STRFMT_MAXBUF_XINT_def)
  then have len: "unat len = length q" unfolding len_def by (intro unat_of_nat_id) simp
  have pre': "pre' \<in> {0, 256 + 45, 256 + 43, 256 + 32, 512 + 88, 512 + 120}"
    using xint_sign_prefix[of sf k] xint_digits_prefix[of sf' k' pre prec] by (auto simp: pre'_def pre_def)
  have p: "length q \<le> unat p" "unat p \<le> 254"
    using xint_prec_le[of len prec] STRFMT_PREC_cases[of sf] q len by (simp_all add: p_def prec_def)
  have pp: "unat pp = unat p + unat (drop_bit 8 pre')"
    using p prefix_bytes(2)[OF pre'] by (simp add: pp_def unat_word_ariths)
  have w: "unat w \<le> 255" unfolding w_def by (rule STRFMT_WIDTH_le)
  have eq: "xint_bytes sf k = (if w > pp then w else pp,
          (if sf' AND (STRFMT_F_LEFT OR STRFMT_F_ZERO) = 0 then fill w pp 32 else []) @
          (if pre' \<noteq> 0 then
             (if (ucast pre' :: u8) \<ge> 88 then [48] else []) @ [ucast pre'] else []) @
          (if sf' AND (STRFMT_F_LEFT OR STRFMT_F_ZERO) = STRFMT_F_ZERO then fill w pp 48 else []) @
          fill p len 48 @ q @
          (if sf' AND STRFMT_F_LEFT \<noteq> 0 then fill w pp 32 else []))"
    unfolding xint_bytes_def Let_def case_prod_beta pp_def w_def p_def len_def pre'_def q_def sf'_def prec_def
      k'_def pre_def xint_prec_def by (rule refl)
  have m: "unat (if w > pp then w else pp) = unat pp + (unat w - unat pp)"
    by (simp add: word_less_nat_alt)
  show ?thesis
    unfolding eq prod.case length_append m prefix_bytes(1)[OF pre'] pp length_fill len
    using p(1) by (cases rule: sf_flag_cases[of sf']) (simp_all add: pp len, simp_all add: STRFMT_F_ZERO_def)
qed


section \<open>Properties\<close>

text \<open>C18: the LEB128 decoder of the buffer code reads back what \<open>lj_strfmt_wuleb128\<close> wrote, for every 32 bit
  value, and stops exactly behind it, whatever bytes follow.\<close>

theorem uleb128_roundtrip: "lj_buf_ruleb128 (lj_strfmt_wuleb128 v @ rest) = Some (v, rest)"
  by (rule ruleb128_wuleb128)

text \<open>C19: \<open>lj_strfmt_wint\<close>, which divides by multiplying with magic constants and jumps into the middle of a
  digit sequence, writes the decimal numeral of the signed 32 bit value (a minus sign and the digits of the
  magnitude, also for -2147483648).\<close>

theorem wint_is_decimal: "lj_strfmt_wint k = (if sint k < 0 then [45] else []) @ dec_of (nat \<bar>sint k\<bar>)"
  by (rule lj_strfmt_wint_dec)

text \<open>C20: for every format word and every 64 bit value the digits of \<open>lj_strfmt_putfxint\<close> fit into its local
  buffer of \<open>STRFMT_MAXBUF_XINT\<close> bytes, and the function writes exactly the number of bytes it has reserved
  (the assertion at its end).\<close>

theorem putfxint_fits:
  "length (fst (xint_digits sf k prefix prec)) \<le> STRFMT_MAXBUF_XINT \<and>
   (case xint_bytes sf' k' of (need, bs) \<Rightarrow> length bs = unat need)"
  by (intro conjI xint_digits_bound xint_bytes_need)

end
