(* ===== verification/LJ_CArith.thy ===== *)
theory LJ_CArith
  imports LJ_Prelude "HOL-Library.Signed_Division"
begin

text \<open>
  Integer arithmetic helpers: the 64 bit operations on FFI integers (\<^verbatim>\<open>lj_carith.c\<close>) and the 32 bit
  modulus of the VM (\<open>lj_vm_modi\<close> in \<^verbatim>\<open>lj_vmmath.c\<close>). A C \<open>int64_t\<close> or \<open>int32_t\<close> is the word of its
  bits, read with \<open>sint\<close>; a cast between signed and unsigned keeps the word.
  The lemmas give each helper as integer arithmetic: truncating division with the fixed results for
  division by zero and overflow, powers modulo \<open>2^64\<close>, the floor modulus of Lua.
\<close>

section \<open>64 bit shifts\<close>

definition lj_carith_shl64 :: "u64 \<Rightarrow> u32 \<Rightarrow> u64" where
  "lj_carith_shl64 x sh = push_bit (unat (sh AND 63)) x"

definition lj_carith_shr64 :: "u64 \<Rightarrow> u32 \<Rightarrow> u64" where
  "lj_carith_shr64 x sh = drop_bit (unat (sh AND 63)) x"

definition lj_carith_sar64 :: "u64 \<Rightarrow> u32 \<Rightarrow> u64" where
  "lj_carith_sar64 x sh = signed_drop_bit (unat (sh AND 63)) x"

definition lj_carith_rol64 :: "u64 \<Rightarrow> u32 \<Rightarrow> u64" where
  "lj_carith_rol64 x sh = lj_rol x (unat (sh AND 63))"

definition lj_carith_ror64 :: "u64 \<Rightarrow> u32 \<Rightarrow> u64" where
  "lj_carith_ror64 x sh = lj_ror x (unat (sh AND 63))"

text \<open>\<open>op\<close> counts from \<open>IR_BSHL\<close>: \<open>BSHL\<close>, \<open>BSHR\<close>, \<open>BSAR\<close>, \<open>BROL\<close>, \<open>BROR\<close>.\<close>

definition lj_carith_shift64 :: "u64 \<Rightarrow> u32 \<Rightarrow> nat \<Rightarrow> u64" where
  "lj_carith_shift64 x sh op =
     (if op = 0 then lj_carith_shl64 x sh
      else if op = 1 then lj_carith_shr64 x sh
      else if op = 2 then lj_carith_sar64 x sh
      else if op = 3 then lj_carith_rol64 x sh
      else if op = 4 then lj_carith_ror64 x sh
      else x)"

section \<open>64 bit division and power\<close>

text \<open>The division of C: dividing by zero is undefined (\<^verbatim>\<open>None\<close>), and so is the one signed quotient that overflows.\<close>

definition c_divu :: "u64 \<Rightarrow> u64 \<Rightarrow> u64 option" where
  "c_divu a b = (if b = 0 then None else Some (a div b))"

definition c_modu :: "u64 \<Rightarrow> u64 \<Rightarrow> u64 option" where
  "c_modu a b = (if b = 0 then None else Some (a mod b))"

definition c_divi :: "u64 \<Rightarrow> u64 \<Rightarrow> u64 option" where
  "c_divi a b =
     (if b = 0 \<or> (a = 0x8000000000000000 \<and> b = - 1) then None else Some (word_of_int (sint a sdiv sint b)))"

definition c_modi :: "u64 \<Rightarrow> u64 \<Rightarrow> u64 option" where
  "c_modi a b =
     (if b = 0 \<or> (a = 0x8000000000000000 \<and> b = - 1) then None else Some (word_of_int (sint a smod sint b)))"

definition lj_carith_divu64 :: "u64 \<Rightarrow> u64 \<Rightarrow> u64 option" where
  "lj_carith_divu64 a b = (if b = 0 then Some 0x8000000000000000 else c_divu a b)"

definition lj_carith_divi64 :: "u64 \<Rightarrow> u64 \<Rightarrow> u64 option" where
  "lj_carith_divi64 a b =
     (if b = 0 \<or> (a = 0x8000000000000000 \<and> b = - 1) then Some 0x8000000000000000 else c_divi a b)"

definition lj_carith_modu64 :: "u64 \<Rightarrow> u64 \<Rightarrow> u64 option" where
  "lj_carith_modu64 a b = (if b = 0 then Some 0x8000000000000000 else c_modu a b)"

definition lj_carith_modi64 :: "u64 \<Rightarrow> u64 \<Rightarrow> u64 option" where
  "lj_carith_modi64 a b =
     (if b = 0 then Some 0x8000000000000000
      else if a = 0x8000000000000000 \<and> b = - 1 then Some 0
      else c_modi a b)"

text \<open>The two loops of the binary power; they would not end on an exponent 0, hence the option.\<close>

partial_function (option) powu_strip :: "u64 \<Rightarrow> u64 \<Rightarrow> (u64 \<times> u64) option" where
  [code]: "powu_strip x k =
     (if k AND 1 = 0 then powu_strip (x * x) (drop_bit 1 k) else Some (x, k))"

partial_function (option) powu_loop :: "u64 \<Rightarrow> u64 \<Rightarrow> u64 \<Rightarrow> u64 option" where
  [code]: "powu_loop x y k =
     (let x = x * x in
      if k = 1 then Some (y * x)
      else powu_loop x (if k AND 1 \<noteq> 0 then y * x else y) (drop_bit 1 k))"

definition lj_carith_powu64 :: "u64 \<Rightarrow> u64 \<Rightarrow> u64 option" where
  "lj_carith_powu64 x k =
     (if k = 0 then Some 1
      else case powu_strip x k of
        None \<Rightarrow> None
      | Some (x, k) \<Rightarrow>
          let y = x; k = drop_bit 1 k in
          if k \<noteq> 0 then powu_loop x y k else Some y)"

definition lj_carith_powi64 :: "u64 \<Rightarrow> u64 \<Rightarrow> u64 option" where
  "lj_carith_powi64 x k =
     (if k = 0 then Some 1
      else if sint k < 0 then
        (if x = 0 then Some 0x7fffffffffffffff
         else if x = 1 then Some 1
         else if x = - 1 then Some (if k AND 1 \<noteq> 0 then - 1 else 1)
         else Some 0)
      else lj_carith_powu64 x k)"

section \<open>Operators on FFI integers\<close>

text \<open>
  \<open>carith_int64\<close>: both operands have been converted by \<open>lj_cconv_ct_ct\<close> to the result type; the
  conversion is the argument \<open>conv\<close> of an operand here (it is not modelled), its type is given by what
  the function tests. The result is a boolean, a new cdata object, or \<open>None\<close> where the code returns 0 to
  try something else. The remaining values of \<open>MMS\<close> are excluded by an assertion of the code.
\<close>

datatype CTypeID = CTID_INT64 | CTID_UINT64

datatype MMS = MM_index | MM_newindex | MM_gc | MM_mode | MM_eq | MM_len | MM_lt | MM_le | MM_concat | MM_call
  | MM_add | MM_sub | MM_mul | MM_div | MM_mod | MM_pow | MM_unm
  | MM_metatable | MM_tostring | MM_new | MM_pairs | MM_ipairs

record CDArg =
  ca_isnum :: bool
  ca_unsigned :: bool
  ca_size :: nat
  ca_conv :: "CTypeID \<Rightarrow> u64"

datatype CDResult = RBool bool | RCData CTypeID u64

definition carith_int64 :: "CDArg \<Rightarrow> CDArg \<Rightarrow> MMS \<Rightarrow> CDResult option" where
  "carith_int64 ca0 ca1 mm =
     (if ca_isnum ca0 \<and> ca_size ca0 \<le> 8 \<and> ca_isnum ca1 \<and> ca_size ca1 \<le> 8 then
        let id = (if (ca_unsigned ca0 \<and> ca_size ca0 = 8) \<or> (ca_unsigned ca1 \<and> ca_size ca1 = 8)
                  then CTID_UINT64 else CTID_INT64);
            u0 = ca_conv ca0 id; u1 = ca_conv ca1 id
        in case mm of
             MM_eq \<Rightarrow> Some (RBool (u0 = u1))
           | MM_lt \<Rightarrow> Some (RBool (if id = CTID_INT64 then sint u0 < sint u1 else u0 < u1))
           | MM_le \<Rightarrow> Some (RBool (if id = CTID_INT64 then sint u0 \<le> sint u1 else u0 \<le> u1))
           | MM_add \<Rightarrow> Some (RCData id (u0 + u1))
           | MM_sub \<Rightarrow> Some (RCData id (u0 - u1))
           | MM_mul \<Rightarrow> Some (RCData id (u0 * u1))
           | MM_div \<Rightarrow> map_option (RCData id)
               (if id = CTID_INT64 then lj_carith_divi64 u0 u1 else lj_carith_divu64 u0 u1)
           | MM_mod \<Rightarrow> map_option (RCData id)
               (if id = CTID_INT64 then lj_carith_modi64 u0 u1 else lj_carith_modu64 u0 u1)
           | MM_pow \<Rightarrow> map_option (RCData id)
               (if id = CTID_INT64 then lj_carith_powi64 u0 u1 else lj_carith_powu64 u0 u1)
           | MM_unm \<Rightarrow> Some (RCData id (- u0))
           | _ \<Rightarrow> None
      else None)"

section \<open>32 bit modulus\<close>

definition lj_vm_modi :: "u32 \<Rightarrow> u32 \<Rightarrow> u32" where
  "lj_vm_modi a b =
     (let ua = (if sint a < 0 then - a else a);
          ub = (if sint b < 0 then - b else b);
          y = ua mod ub;
          y = (if y \<noteq> 0 \<and> sint (a XOR b) < 0 then y - ub else y);
          y = (if sint (y XOR b) < 0 then - y else y)
      in y)"

section \<open>Division\<close>

lemma sint_word_of_int_u64: "- (2 ^ 63) \<le> i \<Longrightarrow> i < 2 ^ 63 \<Longrightarrow> sint (word_of_int i :: u64) = i"
  by (simp add: int_word_sint)

lemma sint_u64_range: "- (2 ^ 63) \<le> sint (x :: u64)" "sint (x :: u64) < 2 ^ 63"
  using uint_lt2p[of x] uint_ge_0[of x] unfolding sint_u64 by (simp_all split: if_split, linarith+)

lemma sint_eq_iff: "sint x = sint y \<longleftrightarrow> x = y"
  by (auto intro: signed_word_eqI)

lemma sint_min: "sint (0x8000000000000000 :: u64) = - (2 ^ 63)"
  by (simp add: sint_u64)

lemma abs_sdiv: "\<bar>a sdiv b\<bar> = \<bar>a\<bar> div \<bar>b :: int\<bar>"
  by (cases "a = 0"; cases "b = 0") (simp_all add: signed_divide_int_def abs_mult abs_sgn_eq pos_imp_zdiv_nonneg_iff)

lemma sdiv_bound:
  fixes a b :: int
  assumes "- m \<le> a" "a < m" "b \<noteq> 0" "\<not> (a = - m \<and> b = - 1)" "0 < m"
  shows "- m \<le> a sdiv b \<and> a sdiv b < m"
proof (cases "b = 1 \<or> b = - 1")
  case True
  then show ?thesis using assms by auto
next
  case False
  then have "2 \<le> \<bar>b\<bar>" using assms(3) by auto
  then have "\<bar>a\<bar> div \<bar>b\<bar> \<le> \<bar>a\<bar> div 2" by (intro zdiv_mono2) auto
  also have "\<dots> < m" using assms by linarith
  finally show ?thesis using abs_sdiv[of a b] by linarith
qed

lemma smod_facts:
  fixes a b :: int
  assumes "b \<noteq> 0"
  shows "\<bar>a smod b\<bar> < \<bar>b\<bar>" and "0 \<le> a \<Longrightarrow> 0 \<le> a smod b" and "a \<le> 0 \<Longrightarrow> a smod b \<le> 0"
proof -
  show "\<bar>a smod b\<bar> < \<bar>b\<bar>" using smod_int_range[OF assms, of a] by (simp add: abs_less_iff)
  have s: "0 \<le> \<bar>a\<bar> mod \<bar>b\<bar>" using assms by simp
  show "0 \<le> a \<Longrightarrow> 0 \<le> a smod b" "a \<le> 0 \<Longrightarrow> a smod b \<le> 0"
    using s by (auto simp: signed_modulo_int_def sgn_if)
qed

lemma smod_sign: "b \<noteq> 0 \<Longrightarrow> a smod b = 0 \<or> (a smod b < 0) = (a < (0 :: int))"
  using smod_facts(2,3)[of b a] by (cases "0 \<le> a") (auto simp: not_le)

lemma div_no_overflow:
  fixes a b :: u64
  assumes "b \<noteq> 0" "\<not> (a = 0x8000000000000000 \<and> b = - 1)"
  shows "sint (word_of_int (sint a sdiv sint b) :: u64) = sint a sdiv sint b"
    "sint (word_of_int (sint a smod sint b) :: u64) = sint a smod sint b"
proof -
  have b: "sint b \<noteq> 0" using assms(1) sint_eq_iff[of b 0] by simp
  moreover have "\<not> (sint a = - (2 ^ 63) \<and> sint b = - 1)"
    using assms(2) sint_eq_iff[of a "0x8000000000000000"] sint_eq_iff[of b "- 1"] by (simp add: sint_min)
  ultimately have "- (2 ^ 63) \<le> sint a sdiv sint b" "sint a sdiv sint b < 2 ^ 63"
    using sdiv_bound[of "2 ^ 63" "sint a" "sint b"] sint_u64_range[of a] by simp_all
  then show "sint (word_of_int (sint a sdiv sint b) :: u64) = sint a sdiv sint b" by (rule sint_word_of_int_u64)
  have "- (2 ^ 63) \<le> sint a smod sint b" "sint a smod sint b < 2 ^ 63"
    using smod_facts(1)[OF b, of "sint a"] sint_u64_range[of b] by linarith+
  then show "sint (word_of_int (sint a smod sint b) :: u64) = sint a smod sint b" by (rule sint_word_of_int_u64)
qed

section \<open>Power\<close>

lemma drop_bit_1_eq: "unat (drop_bit (Suc 0) (k :: u64)) = unat k div 2"
  by (simp add: unat_drop_bit_div)

lemma and_1_odd: "(k AND 1 = 0) = even (unat (k :: u64))"
proof -
  have "k AND 1 = of_bool (odd k)" by (simp add: and_one_eq mod_2_eq_odd)
  moreover have "odd k = odd (unat k)" using bit_unsigned_iff[where 'a = nat, of k 0] by (simp add: bit_0)
  ultimately show ?thesis by simp
qed

lemma powu_strip_returns:
  "k \<noteq> 0 \<Longrightarrow> \<exists>x' k'. powu_strip x k = Some (x', k') \<and> odd (unat k') \<and> x' ^ unat k' = x ^ unat k"
proof (induction "unat k" arbitrary: x k rule: less_induct)
  case less
  show ?case
  proof (cases "even (unat k)")
    case False
    then show ?thesis by (subst powu_strip.simps) (simp add: and_1_odd)
  next
    case True
    have k: "0 < unat k" using less.prems by (simp add: unat_gt_0)
    have "unat (drop_bit (Suc 0) k) < unat k" "drop_bit (Suc 0) k \<noteq> 0"
      using k True drop_bit_1_eq[of k] by (auto simp: word_unat_eq_iff elim!: evenE)
    from less.hyps[OF this, of "x * x"] obtain x' k' where
      "powu_strip (x * x) (drop_bit (Suc 0) k) = Some (x', k')" "odd (unat k')" "x' ^ unat k' = (x * x) ^ (unat k div 2)"
      unfolding drop_bit_1_eq by blast
    moreover have "(x * x) ^ (unat k div 2) = x ^ unat k"
      using True by (simp add: power2_eq_square[symmetric] power_mult[symmetric])
    ultimately show ?thesis using True by (subst powu_strip.simps) (simp add: and_1_odd)
  qed
qed

lemma powu_loop_returns: "k \<noteq> 0 \<Longrightarrow> powu_loop x y k = Some (y * (x * x) ^ unat k)"
proof (induction "unat k" arbitrary: x y k rule: less_induct)
  case less
  show ?case
  proof (cases "k = 1")
    case True
    then show ?thesis by (subst powu_loop.simps) simp
  next
    case False
    then have k: "1 < unat k" using less.prems by (metis One_nat_def less_one linorder_neqE_nat unat_1 unat_eq_0 word_unat_eq_iff)
    define z where "z = x * x"
    have d: "unat (drop_bit (Suc 0) k) < unat k" "drop_bit (Suc 0) k \<noteq> 0"
      using k drop_bit_1_eq[of k] by (auto simp: word_unat_eq_iff)
    have "powu_loop x y k = Some ((if odd (unat k) then y * z else y) * (z * z) ^ (unat k div 2))"
      using False by (subst powu_loop.simps) (simp add: Let_def and_1_odd z_def less.hyps[OF d, unfolded One_nat_def] drop_bit_1_eq)
    also have "(if odd (unat k) then y * z else y) * (z * z) ^ (unat k div 2) = y * z ^ unat k"
    proof -
      have "(z * z) ^ (unat k div 2) = z ^ (2 * (unat k div 2))" by (simp add: power_mult power2_eq_square)
      then show ?thesis
        by (cases "odd (unat k)") (auto elim!: oddE evenE simp: mult.assoc)
    qed
    finally show ?thesis by (simp add: z_def)
  qed
qed

lemma powu64_power: "lj_carith_powu64 x k = Some (x ^ unat k)"
proof (cases "k = 0")
  case False
  from powu_strip_returns[OF False, of x] obtain x' k' where
    s: "powu_strip x k = Some (x', k')" "odd (unat k')" "x' ^ unat k' = x ^ unat k" by blast
  have "(if drop_bit (Suc 0) k' \<noteq> 0 then powu_loop x' x' (drop_bit (Suc 0) k') else Some x') = Some (x' ^ unat k')"
  proof (cases "drop_bit (Suc 0) k' = 0")
    case True
    then have "unat k' = 1" using s(2) drop_bit_1_eq[of k'] by (auto elim!: oddE)
    then show ?thesis using True by simp
  next
    case False
    have "x' * (x' * x') ^ (unat k' div 2) = x' ^ unat k'"
      using s(2) by (auto elim!: oddE simp: power_mult power2_eq_square)
    then show ?thesis using False powu_loop_returns[OF False, of x' x'] by (simp add: drop_bit_1_eq)
  qed
  then show ?thesis using False s by (simp add: lj_carith_powu64_def Let_def)
qed (simp add: lj_carith_powu64_def)


section \<open>Shifts and rotations\<close>

lemma bit_u64_lt: "bit (x :: u64) n \<Longrightarrow> n < 64"
  using bit_imp_le_length[of x n] by simp

lemma sh63: "unat (sh AND 63 :: u32) < 64"
proof -
  have "sh AND 63 \<le> 63" by (rule word_and_le1)
  then show ?thesis by (simp add: word_le_nat_alt)
qed

lemma bit_lj_rol: "n < 64 \<Longrightarrow> i < 64 \<Longrightarrow> bit (lj_rol (x :: u64) n) i = bit x ((i + (64 - n)) mod 64)"
proof -
  assume n: "n < 64" and i: "i < 64"
  show ?thesis
  proof (cases "n \<le> i")
    case True
    then have "(i + (64 - n)) mod 64 = i - n" using n i by (simp add: mod_if)
    moreover have "\<not> bit x ((64 - n) mod 64 + i)" if "n \<noteq> 0"
      using that True n bit_u64_lt[of x] by force
    ultimately show ?thesis using True n i
      by (cases "n = 0") (auto simp: lj_rol_def bit_or_iff bit_push_bit_iff bit_drop_bit_eq)
  next
    case False
    define m where "m = 64 - n"
    have m: "(i + m) mod 64 = i + m" "(LENGTH(64) - n mod LENGTH(64)) mod LENGTH(64) = m"
      using False n by (simp_all add: m_def)
    show ?thesis unfolding lj_rol_def m m_def[symmetric] using False i
      by (simp add: bit_or_iff bit_push_bit_iff bit_drop_bit_eq add.commute)
  qed
qed

lemma bit_lj_ror: "n < 64 \<Longrightarrow> i < 64 \<Longrightarrow> bit (lj_ror (x :: u64) n) i = bit x ((i + n) mod 64)"
proof -
  assume n: "n < 64" and i: "i < 64"
  show ?thesis
  proof (cases "i + n < 64")
    case True
    then show ?thesis using n i
      by (cases "n = 0") (auto simp: lj_ror_def bit_or_iff bit_push_bit_iff bit_drop_bit_eq add.commute)
  next
    case False
    then have "\<not> bit x (n + i)" using bit_u64_lt[of x] by force
    moreover have "(i + n) mod 64 = i - (64 - n)" using False i n by (simp add: mod_if)
    ultimately show ?thesis using False n i
      by (cases "n = 0") (auto simp: lj_ror_def bit_or_iff bit_push_bit_iff bit_drop_bit_eq)
  qed
qed

lemma uint_shl: "uint (push_bit n (x :: u64)) = (uint x * 2 ^ n) mod 2 ^ 64"
  by (simp only: unsigned_push_bit_eq) (simp add: push_bit_eq_mult take_bit_eq_mod)

lemma uint_shr: "uint (drop_bit n (x :: u64)) = uint x div 2 ^ n"
  using uint_lt2p[of x] by (simp only: unsigned_drop_bit_eq) (simp add: drop_bit_eq_div take_bit_int_eq_self)

lemma sint_sar: "sint (signed_drop_bit n (x :: u64)) = sint x div 2 ^ n"
  by (simp add: sint_signed_drop_bit_eq drop_bit_eq_div)

section \<open>Floor modulus\<close>

lemma sint_word_of_int_u32: "- (2 ^ 31) \<le> i \<Longrightarrow> i < 2 ^ 31 \<Longrightarrow> sint (word_of_int i :: u32) = i"
  by (simp add: int_word_sint)

lemma sint_u32_range: "- (2 ^ 31) \<le> sint (x :: u32)" "sint (x :: u32) < 2 ^ 31"
  using uint_lt2p[of x] uint_ge_0[of x] unfolding sint_u32 by (simp_all split: if_split, linarith+)

lemma bit31_neg: "bit (x :: u32) 31 \<longleftrightarrow> sint x < 0"
  using bit_last_iff[of x] by simp

lemma xor_neg: "sint ((x :: u32) XOR y) < 0 \<longleftrightarrow> (sint x < 0) \<noteq> (sint y < 0)"
  unfolding bit31_neg[symmetric] by (simp add: bit_xor_iff)

lemma uint_abs_u32: "uint (if sint (k :: u32) < 0 then - k else k) = \<bar>sint k\<bar>"
proof -
  have "LENGTH(32) = Suc 31" by simp
  then show ?thesis by (rule uint_abs_sint)
qed

lemma floor_mod_cases:
  fixes A B :: int assumes "B \<noteq> 0"
  defines "y \<equiv> \<bar>A\<bar> mod \<bar>B\<bar>"
  shows "A mod B = (if y = 0 then 0 else if A < 0 \<and> B < 0 then - y else if A < 0 then B - y else if B < 0 then y + B else y)"
proof (cases "A < 0")
  case True
  then show ?thesis
    using zmod_zminus1_eq_if[of "- A" B] zmod_zminus2_eq_if[of "- A" "- B"] assms(1)
    by (cases "B < 0") (auto simp: y_def mod_minus_minus[of "- A" "- B"])
next
  case False
  then show ?thesis using zmod_zminus2_eq_if[of A "- B"] assms(1) by (cases "B < 0") (auto simp: y_def)
qed

lemma vm_modi_floor:
  assumes "b \<noteq> 0"
  shows "sint (lj_vm_modi a b) = sint a mod sint b"
proof -
  define A B where "A = sint a" "B = sint b"
  define ua ub where "ua = (if sint a < 0 then - a else a)" "ub = (if sint b < 0 then - b else b)"
  define y where "y = ua mod ub"
  define Y where "Y = \<bar>A\<bar> mod \<bar>B\<bar>"
  have B: "B \<noteq> 0" using assms sint_eq_iff[of b 0] by (simp add: A_B_def)
  have "uint y = Y" by (simp add: y_def uint_mod ua_ub_def uint_abs_u32 Y_def A_B_def)
  then have y: "y = word_of_int Y" by (metis word_of_int_uint)
  have ub: "ub = word_of_int \<bar>B\<bar>" using uint_abs_u32[of b] by (metis A_B_def(2) ua_ub_def(2) word_of_int_uint)
  have r: "- (2 ^ 31) \<le> B" "B < 2 ^ 31" unfolding A_B_def by (rule sint_u32_range)+
  have Y: "0 \<le> Y" "Y < \<bar>B\<bar>" using B by (simp_all add: Y_def)
  define Y1 where "Y1 = (if Y \<noteq> 0 \<and> (A < 0) \<noteq> (B < 0) then Y - \<bar>B\<bar> else Y)"
  define y1 where "y1 = (if y \<noteq> 0 \<and> sint (a XOR b) < 0 then y - ub else y)"
  have "y \<noteq> 0 \<longleftrightarrow> Y \<noteq> 0" using \<open>uint y = Y\<close> by (metis uint_0_iff)
  then have y1: "y1 = word_of_int Y1"
    unfolding y1_def Y1_def xor_neg A_B_def[symmetric] by (simp add: y ub)
  have "- (2 ^ 31) < Y1" "Y1 < 2 ^ 31" using Y r by (auto simp: Y1_def split: if_splits)
  then have s1: "sint y1 = Y1" "sint (- y1) = - Y1"
    using sint_word_of_int_u32[of Y1] sint_word_of_int_u32[of "- Y1"] by (simp_all add: y1)
  have "sint (lj_vm_modi a b) = (if (Y1 < 0) \<noteq> (B < 0) then - Y1 else Y1)"
    unfolding lj_vm_modi_def Let_def ua_ub_def[symmetric]
    unfolding y_def[symmetric]
    unfolding y1_def[symmetric]
    unfolding xor_neg s1(1) A_B_def(2)[symmetric]
    by (simp split: if_split) (simp add: s1)
  also have "\<dots> = A mod B"
    using Y unfolding floor_mod_cases[OF B, of A] Y_def[symmetric] Y1_def by (auto split: if_splits)
  finally show ?thesis by (simp add: A_B_def)
qed


section \<open>Properties\<close>

text \<open>C26: signed 64 bit division and modulus of FFI integers are defined for all operands, also where the division of C
  is not: a zero divisor gives the most negative number twice, the one overflow gives that number and the remainder 0, and
  in all other cases quotient and remainder satisfy the division identity over the integers, the remainder is smaller
  than the divisor and it has the sign of the dividend.\<close>

theorem carith_divmod_i64:
  "\<exists>q r. lj_carith_divi64 a b = Some q \<and> lj_carith_modi64 a b = Some r \<and>
     (if b = 0 then q = 0x8000000000000000 \<and> r = 0x8000000000000000
      else if a = 0x8000000000000000 \<and> b = - 1 then q = 0x8000000000000000 \<and> r = 0
      else sint q * sint b + sint r = sint a \<and> \<bar>sint r\<bar> < \<bar>sint b\<bar> \<and> (sint r = 0 \<or> (sint r < 0) = (sint a < 0)))"
proof (cases "b = 0 \<or> a = 0x8000000000000000 \<and> b = - 1")
  case False
  then have b: "b \<noteq> 0" "\<not> (a = 0x8000000000000000 \<and> b = - 1)" by blast+
  have s: "sint b \<noteq> 0" using b(1) sint_eq_iff[of b 0] by simp
  have "sint a sdiv sint b * sint b + sint a smod sint b = sint a" by (simp add: mult_sdiv_smod_eq mult.commute)
  then show ?thesis using smod_facts(1)[OF s, of "sint a"] smod_sign[OF s, of "sint a"]
    by (simp add: b lj_carith_divi64_def lj_carith_modi64_def c_divi_def c_modi_def div_no_overflow[OF b])
qed (auto simp: lj_carith_divi64_def lj_carith_modi64_def)

text \<open>C27: the integer power returns for every base and exponent. Unsigned it is the power modulo
  \<open>2^64\<close>; signed, a non-negative exponent gives the same, and a negative one the power truncated to an
  integer: 1 or -1 for bases 1 and -1, the largest integer for 0, and 0 otherwise.\<close>

theorem carith_pow_total:
  "lj_carith_powu64 x k = Some (x ^ unat k) \<and>
   lj_carith_powi64 x k = Some (
     if 0 \<le> sint k then x ^ nat (sint k)
     else if x = 0 then 0x7fffffffffffffff
     else if x = 1 then 1
     else if x = - 1 then (if even (unat k) then 1 else - 1)
     else 0)"
proof -
  have "nat (sint k) = unat k" if "0 \<le> sint k"
    using that uint_lt2p[of k] by (simp add: sint_u64 split: if_splits)
  then show ?thesis by (auto simp: lj_carith_powi64_def powu64_power and_1_odd)
qed

text \<open>C28: the 64 bit shifts take the distance \<open>n\<close> modulo 64 and are multiplication modulo \<open>2^64\<close>, unsigned and
  signed floor division by \<open>2^n\<close>; rotating left moves the bit at \<open>i\<close> to \<open>i + n\<close>, rotating right to \<open>i - n\<close>, modulo 64.\<close>

theorem carith_shift64_arith:
  "uint (lj_carith_shift64 x sh 0) = (uint x * 2 ^ unat (sh AND 63)) mod 2 ^ 64
   \<and> uint (lj_carith_shift64 x sh 1) = uint x div 2 ^ unat (sh AND 63)
   \<and> sint (lj_carith_shift64 x sh 2) = sint x div 2 ^ unat (sh AND 63)
   \<and> bit (lj_carith_shift64 x sh 3) ((i + unat (sh AND 63)) mod 64) = bit x (i mod 64)
   \<and> bit (lj_carith_shift64 x sh 4) (i mod 64) = bit x ((i + unat (sh AND 63)) mod 64)"
proof -
  have "((i + n) mod 64 + (64 - n)) mod 64 = i mod 64" if "n < 64" for n
  proof -
    have "((i + n) mod 64 + (64 - n)) mod 64 = (i + n + (64 - n)) mod 64" by (rule mod_add_left_eq)
    then show ?thesis using that by simp
  qed
  note r = this[OF sh63, of sh]
  have "(i mod 64 + unat (sh AND 63)) mod 64 = (i + unat (sh AND 63)) mod 64" by (rule mod_add_left_eq)
  then show ?thesis
    using uint_shl[of "unat (sh AND 63)" x] uint_shr[of "unat (sh AND 63)" x] sint_sar[of "unat (sh AND 63)" x] r
    by (simp add: lj_carith_shift64_def lj_carith_shl64_def lj_carith_shr64_def lj_carith_sar64_def
        lj_carith_rol64_def lj_carith_ror64_def bit_lj_rol bit_lj_ror sh63 del: push_bit_of_1)
qed

text \<open>C29: \<open>lj_vm_modi\<close>, written with unsigned remainders and sign corrections, is Lua's modulus: the floor
  modulus of the signed 32 bit values, with the sign of the divisor.\<close>

theorem vm_modi_is_floor_mod:
  assumes "b \<noteq> 0"
  shows "sint (lj_vm_modi a b) = sint a mod sint b"
  by (rule vm_modi_floor[OF assms])

theorem vm_modi_is_floor_mod_witness: "sint (lj_vm_modi (- 7) 3) = 2"
  using vm_modi_is_floor_mod[of 3 "- 7"] by simp


end
