(* ===== verification/LJ_Dbl.thy ===== *)
theory LJ_Dbl
  imports LJ_Prelude
begin

text \<open>
  IEEE 754 binary64 numbers as their 64 bit patterns, which is how \<open>TValue\<close> holds a \<open>lua_Number\<close>: the
  conversions, the operations of C that the modelled code applies to doubles, and the macros of
  \<^verbatim>\<open>lj_obj.h\<close> on them. Every operation that rounds computes the exact result as an integer times
  a power of two and rounds it once, to nearest with ties to even (\<open>dbl_make\<close>).
\<close>

section \<open>Bit patterns\<close>

definition dbl_neg :: "u64 \<Rightarrow> bool" where "dbl_neg x = bit x 63"
definition dbl_exp :: "u64 \<Rightarrow> int" where "dbl_exp x = uint (drop_bit 52 x AND 0x7ff)"
definition dbl_frac :: "u64 \<Rightarrow> int" where "dbl_frac x = uint (x AND 0xfffffffffffff)"

definition dbl_finite :: "u64 \<Rightarrow> bool" where "dbl_finite x = (dbl_exp x \<noteq> 0x7ff)"
definition dbl_isnan :: "u64 \<Rightarrow> bool" where "dbl_isnan x = (dbl_exp x = 0x7ff \<and> dbl_frac x \<noteq> 0)"
definition dbl_isinf :: "u64 \<Rightarrow> bool" where "dbl_isinf x = (dbl_exp x = 0x7ff \<and> dbl_frac x = 0)"

text \<open>The magnitude of a finite double is \<open>dbl_mant x * 2 ^ dbl_pow x\<close>.\<close>

definition dbl_mant :: "u64 \<Rightarrow> int" where
  "dbl_mant x = (if dbl_exp x = 0 then dbl_frac x else dbl_frac x + 2 ^ 52)"

definition dbl_pow :: "u64 \<Rightarrow> int" where
  "dbl_pow x = (if dbl_exp x = 0 then - 1074 else dbl_exp x - 1075)"

definition sign_bit :: "bool \<Rightarrow> u64" where
  "sign_bit s = (if s then 0x8000000000000000 else 0)"

definition dbl_nan :: u64 where "dbl_nan = 0xfff8000000000000"
definition dbl_inf :: "bool \<Rightarrow> u64" where "dbl_inf s = sign_bit s OR 0x7ff0000000000000"
definition dbl_zero :: "bool \<Rightarrow> u64" where "dbl_zero s = sign_bit s"

section \<open>Rounding\<close>

text \<open>The position of the highest bit of a positive integer.\<close>

function ilog2 :: "int \<Rightarrow> int" where
  "ilog2 m = (if m < 2 then 0 else ilog2 (m div 2) + 1)"
  by pat_completeness auto
termination by (relation "measure nat") auto

declare ilog2.simps [simp del]

text \<open>\<open>m / 2 ^ d\<close>, to nearest, ties to even.\<close>

definition rne :: "int \<Rightarrow> nat \<Rightarrow> int" where
  "rne m d =
     (let q = m div 2 ^ d; r = m mod 2 ^ d in
      if 2 * r < 2 ^ d \<or> (2 * r = 2 ^ d \<and> even q) then q else q + 1)"

text \<open>The double nearest to \<open>m * 2 ^ e\<close> with sign \<open>s\<close>, for \<open>0 \<le> m\<close>: the last place is \<open>2 ^ q\<close>, a carry out of
  the rounding runs into the exponent field, and from \<open>2 ^ 1024\<close> on the result is infinite.\<close>

definition dbl_last :: "int \<Rightarrow> int \<Rightarrow> int" where
  "dbl_last m e = max (e + ilog2 m - 52) (- 1074)"

definition dbl_round :: "int \<Rightarrow> int \<Rightarrow> int \<Rightarrow> int" where
  "dbl_round m e q = (if q \<le> e then m * 2 ^ nat (e - q) else rne m (nat (q - e)))"

definition dbl_pack :: "bool \<Rightarrow> int \<Rightarrow> int \<Rightarrow> u64" where
  "dbl_pack s M q =
     (let b = (q + 1074) * 2 ^ 52 + M in
      if 0x7ff0000000000000 \<le> b then dbl_inf s else sign_bit s OR word_of_int b)"

definition dbl_make :: "bool \<Rightarrow> int \<Rightarrow> int \<Rightarrow> u64" where
  "dbl_make s m e =
     (if m = 0 then dbl_zero s
      else let q = dbl_last m e in dbl_pack s (dbl_round m e q) q)"

section \<open>Operations\<close>

definition dbl_uminus :: "u64 \<Rightarrow> u64" where
  "dbl_uminus x = x XOR 0x8000000000000000"

definition dbl_abs :: "u64 \<Rightarrow> u64" where
  "dbl_abs x = x AND 0x7fffffffffffffff"

definition dbl_of_int :: "int \<Rightarrow> u64" where
  "dbl_of_int i = dbl_make (i < 0) \<bar>i\<bar> 0"

definition dbl_ldexp :: "u64 \<Rightarrow> int \<Rightarrow> u64" where
  "dbl_ldexp x n = (if dbl_finite x then dbl_make (dbl_neg x) (dbl_mant x) (dbl_pow x + n) else x)"

text \<open>A signed integer times a power of two; \<open>z\<close> is the sign of an exact zero.\<close>

definition dbl_of_scaled :: "bool \<Rightarrow> int \<Rightarrow> int \<Rightarrow> u64" where
  "dbl_of_scaled z m e = (if m = 0 then dbl_zero z else dbl_make (m < 0) \<bar>m\<bar> e)"

definition dbl_smant :: "u64 \<Rightarrow> int" where
  "dbl_smant x = (if dbl_neg x then - dbl_mant x else dbl_mant x)"

definition dbl_add :: "u64 \<Rightarrow> u64 \<Rightarrow> u64" where
  "dbl_add x y =
     (if dbl_isnan x \<or> dbl_isnan y then dbl_nan
      else if dbl_isinf x then (if dbl_isinf y \<and> dbl_neg x \<noteq> dbl_neg y then dbl_nan else x)
      else if dbl_isinf y then y
      else let e = min (dbl_pow x) (dbl_pow y) in
        dbl_of_scaled (dbl_neg x \<and> dbl_neg y)
          (dbl_smant x * 2 ^ nat (dbl_pow x - e) + dbl_smant y * 2 ^ nat (dbl_pow y - e)) e)"

definition dbl_sub :: "u64 \<Rightarrow> u64 \<Rightarrow> u64" where
  "dbl_sub x y = (if dbl_isnan y then dbl_nan else dbl_add x (dbl_uminus y))"

definition dbl_mul :: "u64 \<Rightarrow> u64 \<Rightarrow> u64" where
  "dbl_mul x y =
     (let s = (dbl_neg x \<noteq> dbl_neg y) in
      if dbl_isnan x \<or> dbl_isnan y then dbl_nan
      else if dbl_isinf x \<or> dbl_isinf y then
        (if (dbl_finite x \<and> dbl_mant x = 0) \<or> (dbl_finite y \<and> dbl_mant y = 0) then dbl_nan else dbl_inf s)
      else dbl_make s (dbl_mant x * dbl_mant y) (dbl_pow x + dbl_pow y))"

text \<open>Comparisons (false when an operand is a NaN), on the total order of sign and magnitude bits.\<close>

definition dbl_key :: "u64 \<Rightarrow> int" where
  "dbl_key x = (let m = uint (dbl_abs x) in if dbl_neg x then - m else m)"

definition dbl_eq :: "u64 \<Rightarrow> u64 \<Rightarrow> bool" where
  "dbl_eq x y = (\<not> dbl_isnan x \<and> \<not> dbl_isnan y \<and> dbl_key x = dbl_key y)"

definition dbl_lt :: "u64 \<Rightarrow> u64 \<Rightarrow> bool" where
  "dbl_lt x y = (\<not> dbl_isnan x \<and> \<not> dbl_isnan y \<and> dbl_key x < dbl_key y)"

definition dbl_le :: "u64 \<Rightarrow> u64 \<Rightarrow> bool" where
  "dbl_le x y = (\<not> dbl_isnan x \<and> \<not> dbl_isnan y \<and> dbl_key x \<le> dbl_key y)"

section \<open>Conversions of lj_obj.h\<close>

text \<open>The integer part of a finite double.\<close>

definition dbl_trunc :: "u64 \<Rightarrow> int" where
  "dbl_trunc x =
     (let m = (if 0 \<le> dbl_pow x then dbl_mant x * 2 ^ nat (dbl_pow x)
               else dbl_mant x div 2 ^ nat (- dbl_pow x))
      in if dbl_neg x then - m else m)"

text \<open>\<open>(int32_t)n\<close>: truncation; out of range the x64 conversion gives the most negative number.\<close>

definition lj_num2int :: "u64 \<Rightarrow> u32" where
  "lj_num2int x =
     (if dbl_finite x \<and> - (2 ^ 31) \<le> dbl_trunc x \<and> dbl_trunc x < 2 ^ 31 then word_of_int (dbl_trunc x)
      else 0x80000000)"

text \<open>\<open>(int64_t)n\<close> likewise.\<close>

definition dbl_to_i64 :: "u64 \<Rightarrow> u64" where
  "dbl_to_i64 x =
     (if dbl_finite x \<and> - (2 ^ 63) \<le> dbl_trunc x \<and> dbl_trunc x < 2 ^ 63 then word_of_int (dbl_trunc x)
      else 0x8000000000000000)"

text \<open>\<open>(uint64_t)n\<close>: the code that the x64 compilers emit subtracts \<open>2^63\<close> from numbers from \<open>2^63\<close> on.\<close>

definition lj_num2u64 :: "u64 \<Rightarrow> u64" where
  "lj_num2u64 n =
     (if dbl_le 0x43e0000000000000 n
      then dbl_to_i64 (dbl_sub n 0x43e0000000000000) XOR 0x8000000000000000 else dbl_to_i64 n)"

text \<open>\<open>n + 6755399441055744.0\<close>, then the low word.\<close>

definition lj_num2bit :: "u64 \<Rightarrow> u32" where
  "lj_num2bit n = ucast (dbl_add n 0x4338000000000000)"

definition setnanV :: u64 where "setnanV = 0xfff8000000000000"
definition setpinfV :: u64 where "setpinfV = 0x7ff0000000000000"
definition setminfV :: u64 where "setminfV = 0xfff0000000000000"

definition setintV :: "u32 \<Rightarrow> u64" where
  "setintV i = dbl_of_int (sint i)"

end
