(* ===== verification/LJ_StrScan.thy ===== *)
theory LJ_StrScan
  imports LJ_Dbl LJ_Char
begin

text \<open>
  String to number conversion (\<^verbatim>\<open>lj_strscan.c\<close>): the scanner for signs, bases, digits, exponents and
  suffixes, and the hexadecimal, octal and decimal parsers behind it. A \<open>const uint8_t *p\<close> into the
  NUL-terminated string \<open>s\<close> is here the index \<open>p\<close>; reading at the end of \<open>s\<close> gives the NUL.
  The C integers \<open>ex\<close>, \<open>ex2\<close>, \<open>ex10\<close> and the digit counts are unbounded here; they stay far inside 32 bits
  for every string shorter than \<open>2^28\<close> bytes.
  The loops of the decimal slow path are \<open>partial_function (option)\<close>: the value \<open>None\<close> of a scan would be
  a loop that does not end.
\<close>

section \<open>Interface types\<close>

definition STRSCAN_OPT_TOINT :: u32 where "STRSCAN_OPT_TOINT = 0x01"
definition STRSCAN_OPT_TONUM :: u32 where "STRSCAN_OPT_TONUM = 0x02"
definition STRSCAN_OPT_IMAG :: u32 where "STRSCAN_OPT_IMAG = 0x04"
definition STRSCAN_OPT_LL :: u32 where "STRSCAN_OPT_LL = 0x08"
definition STRSCAN_OPT_C :: u32 where "STRSCAN_OPT_C = 0x10"

lemmas strscan_opts = STRSCAN_OPT_TOINT_def STRSCAN_OPT_TONUM_def STRSCAN_OPT_IMAG_def
  STRSCAN_OPT_LL_def STRSCAN_OPT_C_def

text \<open>The returned format; the code compares and adds to its values, \<open>fmt_num\<close> is the value.\<close>

datatype StrScanFmt = STRSCAN_ERROR | STRSCAN_NUM | STRSCAN_IMAG | STRSCAN_INT | STRSCAN_U32 | STRSCAN_I64 | STRSCAN_U64

text \<open>What is stored through \<open>TValue *o\<close>: its member \<open>i\<close>, \<open>u64\<close> or \<open>n\<close>, or nothing.\<close>

datatype StrScanVal = SV_none | SV_i u32 | SV_u64 u64 | SV_n u64

type_synonym strscan_res = "StrScanFmt \<times> StrScanVal"

definition char_at :: "bytes \<Rightarrow> nat \<Rightarrow> u8" where
  "char_at s p = (if p < length s then s ! p else 0)"

definition casecmp :: "u8 \<Rightarrow> u8 \<Rightarrow> bool" where
  "casecmp c k = (c OR 0x20 = k)"

section \<open>Conversion to double\<close>

text \<open>The rounding of denormals before the conversion: \<open>b\<close> is the highest bit of \<open>x\<close>, \<open>rb\<close> the bit below the
  last place of the result.\<close>

definition strscan_denorm :: "u64 \<Rightarrow> int \<Rightarrow> u64" where
  "strscan_denorm x ex2 =
     (if ex2 \<le> -1075 \<and> x \<noteq> 0 then
        let b = ilog2 (uint x) in
        if b + ex2 \<le> -1023 \<and> b + ex2 \<ge> -1075 then
          let rb = push_bit (nat (- 1075 - ex2)) (1 :: u64);
              x = (if x AND rb \<noteq> 0 \<and> x AND (rb + rb + rb - 1) \<noteq> 0 then x + (rb + rb) else x)
          in x AND NOT (rb + rb - 1)
        else x
      else x)"

definition strscan_double :: "u64 \<Rightarrow> int \<Rightarrow> bool \<Rightarrow> u64" where
  "strscan_double x ex2 neg =
     (let x = strscan_denorm x ex2;
          n = dbl_of_int (sint x);
          n = (if neg then dbl_uminus n else n)
      in if ex2 \<noteq> 0 then dbl_ldexp n ex2 else n)"

section \<open>Hexadecimal and octal numbers\<close>

text \<open>\<open>*p != '.' ? *p : *++p\<close>: the next digit character and the advanced \<open>p\<close> (without the \<open>p++\<close>).\<close>

definition next_dig :: "bytes \<Rightarrow> nat \<Rightarrow> u8 \<times> nat" where
  "next_dig s p = (if char_at s p \<noteq> 46 then (char_at s p, p) else (char_at s (p + 1), p + 1))"

fun hex_digits :: "bytes \<Rightarrow> nat \<Rightarrow> nat \<Rightarrow> u64 \<Rightarrow> u64 \<times> nat" where
  "hex_digits s 0 p x = (x, p)"
| "hex_digits s (Suc i) p x =
     (let (c, p) = next_dig s p;
          d = (ucast c :: u64); d = (if c > 57 then d + 9 else d)
      in hex_digits s i (p + 1) (push_bit 4 x + (d AND 15)))"

fun hex_excess :: "bytes \<Rightarrow> nat \<Rightarrow> nat \<Rightarrow> u64 \<Rightarrow> int \<Rightarrow> u64 \<times> int" where
  "hex_excess s 0 p x ex2 = (x, ex2)"
| "hex_excess s (Suc i) p x ex2 =
     (let (c, p) = next_dig s p
      in hex_excess s i (p + 1) (x OR (if c \<noteq> 48 then 1 else 0)) (ex2 + 4))"

definition neg32 :: "bool \<Rightarrow> u64 \<Rightarrow> u32" where
  "neg32 neg x = (if neg then - ucast x else ucast x)"

definition neg64 :: "bool \<Rightarrow> u64 \<Rightarrow> u64" where
  "neg64 neg x = (if neg then - x else x)"

text \<open>\<open>x < 0x80000000u+neg\<close>\<close>

definition fits_i32 :: "bool \<Rightarrow> u64 \<Rightarrow> bool" where
  "fits_i32 neg x = (x < (if neg then 0x80000001 else 0x80000000))"

definition hex_num :: "StrScanFmt \<Rightarrow> u64 \<Rightarrow> int \<Rightarrow> bool \<Rightarrow> strscan_res" where
  "hex_num fmt x ex2 neg =
     (let (x, ex2) = (if x AND 0xc000000000000000 \<noteq> 0 then (drop_bit 2 x OR (x AND 3), ex2 + 2) else (x, ex2))
      in (fmt, SV_n (strscan_double x ex2 neg)))"

definition strscan_hex :: "bytes \<Rightarrow> nat \<Rightarrow> StrScanFmt \<Rightarrow> u32 \<Rightarrow> int \<Rightarrow> bool \<Rightarrow> nat \<Rightarrow> strscan_res" where
  "strscan_hex s p fmt opt ex2 neg dig =
     (let (x, p) = hex_digits s (if dig > 16 then 16 else dig) p 0;
          (x, ex2) = hex_excess s (dig - 16) p x ex2;
          u32 = (if dig > 8 then (STRSCAN_ERROR, SV_none) else (STRSCAN_U32, SV_i (neg32 neg x)))
      in case fmt of
           STRSCAN_INT \<Rightarrow>
             if opt AND STRSCAN_OPT_TONUM = 0 \<and> fits_i32 neg x then (STRSCAN_INT, SV_i (neg32 neg x))
             else if opt AND STRSCAN_OPT_C = 0 then hex_num STRSCAN_NUM x ex2 neg
             else u32
         | STRSCAN_U32 \<Rightarrow> u32
         | STRSCAN_I64 \<Rightarrow> if dig > 16 then (STRSCAN_ERROR, SV_none) else (fmt, SV_u64 (neg64 neg x))
         | STRSCAN_U64 \<Rightarrow> if dig > 16 then (STRSCAN_ERROR, SV_none) else (fmt, SV_u64 (neg64 neg x))
         | _ \<Rightarrow> hex_num fmt x ex2 neg)"

fun oct_digits :: "bytes \<Rightarrow> nat \<Rightarrow> nat \<Rightarrow> u64 \<Rightarrow> u64 option" where
  "oct_digits s 0 p x = Some x"
| "oct_digits s (Suc dig) p x =
     (let c = char_at s p in
      if \<not> (c \<ge> 48 \<and> c \<le> 55) then None
      else oct_digits s dig (p + 1) (push_bit 3 x + (ucast c AND 7)))"

definition strscan_oct :: "bytes \<Rightarrow> nat \<Rightarrow> StrScanFmt \<Rightarrow> bool \<Rightarrow> nat \<Rightarrow> strscan_res" where
  "strscan_oct s p fmt neg dig =
     (if dig > 22 \<or> (dig = 22 \<and> char_at s p > 49) then (STRSCAN_ERROR, SV_none)
      else case oct_digits s dig p 0 of
        None \<Rightarrow> (STRSCAN_ERROR, SV_none)
      | Some x \<Rightarrow>
          if fmt = STRSCAN_INT \<or> fmt = STRSCAN_U32 then
            let fmt = (if fmt = STRSCAN_INT \<and> \<not> fits_i32 neg x then STRSCAN_U32 else fmt) in
            if drop_bit 32 x \<noteq> 0 then (STRSCAN_ERROR, SV_none) else (fmt, SV_i (neg32 neg x))
          else (fmt, SV_u64 (neg64 neg x)))"


section \<open>Decimal numbers\<close>

definition STRSCAN_MAXDIG :: nat where "STRSCAN_MAXDIG = 800"
definition STRSCAN_DDIG :: nat where "STRSCAN_DDIG = 512"

definition DNEXT :: "nat \<Rightarrow> nat" where "DNEXT a = (a + 1) mod 512"
definition DPREV :: "nat \<Rightarrow> nat" where "DPREV a = (a + 511) mod 512"
definition DLEN :: "nat \<Rightarrow> nat \<Rightarrow> int" where "DLEN lo hi = (int lo - int hi) mod 512"

text \<open>One decimal digit, and the digit pairs of the buffer in base 100.\<close>

definition dec_digit :: "bytes \<Rightarrow> nat \<Rightarrow> u8 \<times> nat" where
  "dec_digit s p = (let (c, p) = next_dig s p in (c AND 15, p + 1))"

fun dec_pairs :: "bytes \<Rightarrow> nat \<Rightarrow> nat \<Rightarrow> bytes \<Rightarrow> bytes \<times> nat \<times> nat" where
  "dec_pairs s (Suc (Suc i)) p xi =
     (let (a, p) = dec_digit s p; (b, p) = dec_digit s p
      in dec_pairs s i p (xi @ [10 * a + b]))"
| "dec_pairs s i p xi = (xi, i, p)"

text \<open>\<open>do { \<dots> } while (--dig > STRSCAN_MAXDIG)\<close>: is one of the next \<open>n\<close> characters not a zero?\<close>

fun dec_excess :: "bytes \<Rightarrow> nat \<Rightarrow> nat \<Rightarrow> bool" where
  "dec_excess s 0 p = False"
| "dec_excess s (Suc n) p =
     (let (c, p) = next_dig s p in if c \<noteq> 48 then True else dec_excess s n (p + 1))"

text \<open>\<open>while (ex10 > 0 && dig <= 18)\<close>\<close>

function dec_simplify :: "bytes \<Rightarrow> int \<Rightarrow> nat \<Rightarrow> bytes \<times> int \<times> nat" where
  "dec_simplify xi ex10 dig =
     (if ex10 > 0 \<and> dig \<le> 18 then dec_simplify (xi @ [0]) (ex10 - 2) (dig + 2) else (xi, ex10, dig))"
  by pat_completeness auto
termination by (relation "measure (\<lambda>(xi, ex10, dig). 19 - dig)") auto

declare dec_simplify.simps [simp del]

definition set_last_bit :: "bytes \<Rightarrow> bytes" where
  "set_last_bit xi = butlast xi @ [last xi OR 1]"

text \<open>The digit buffer \<open>xi..xip\<close> with the exponent and the digit count.\<close>

definition dec_buffer :: "bytes \<Rightarrow> nat \<Rightarrow> nat \<Rightarrow> int \<Rightarrow> bytes \<times> int \<times> nat" where
  "dec_buffer s p dig ex10 =
     (let (i, ex10) = (if dig > STRSCAN_MAXDIG then (STRSCAN_MAXDIG, ex10 + int (dig - STRSCAN_MAXDIG)) else (dig, ex10));
          (xi, i, p) = (if odd ex10 \<noteq> odd i then let (d, p) = dec_digit s p in ([d], i - 1, p) else ([], i, p));
          (xi, i, p) = dec_pairs s i p xi;
          (xi, ex10, dig, p) =
            (if i \<noteq> 0 then let (d, p) = dec_digit s p in (xi @ [10 * d], ex10 - 1, dig + 1, p)
             else (xi, ex10, dig, p))
      in if dig > STRSCAN_MAXDIG then
           (if dec_excess s (dig - STRSCAN_MAXDIG) p then set_last_bit xi else xi, ex10, STRSCAN_MAXDIG)
         else dec_simplify xi ex10 dig)"

text \<open>The slow path works on the circular buffer \<open>xi\<close> of \<open>STRSCAN_DDIG\<close> entries, with the digits from
  \<open>hi\<close> up to \<open>lo\<close> (exclusive). One pass of scaling up multiplies by 64, from the last digit on.\<close>

definition xi_at :: "bytes \<Rightarrow> nat \<Rightarrow> u32" where
  "xi_at xi i = ucast (xi ! i)"

partial_function (option) scale_up_pass :: "bytes \<Rightarrow> nat \<Rightarrow> nat \<Rightarrow> nat \<Rightarrow> u32 \<Rightarrow> (bytes \<times> nat \<times> u32) option" where
  [code]: "scale_up_pass xi lo hi i cy =
     (let d = push_bit 6 (xi_at xi i) + cy;
          cy = drop_bit 17 (drop_bit 2 d * 5243);
          d = d - cy * 100;
          xi = xi[i := ucast d]
      in if i = hi then Some (xi, lo, cy)
         else let lo = (if d = 0 \<and> i = DPREV lo then i else lo)
              in scale_up_pass xi lo hi (DPREV i) cy)"

text \<open>The carry of a pass becomes a new first digit.\<close>

definition scale_up_carry :: "bytes \<Rightarrow> nat \<Rightarrow> nat \<Rightarrow> u32 \<Rightarrow> bytes \<times> nat \<times> nat" where
  "scale_up_carry xi lo hi cy =
     (let hi = DPREV hi;
          (xi, lo) =
            (if xi ! DPREV lo = 0 then (xi, DPREV lo)
             else if hi = lo then
               let lo = DPREV lo in (xi[DPREV lo := xi ! DPREV lo OR xi ! lo], lo)
             else (xi, lo))
      in (xi[hi := ucast cy], lo, hi))"

partial_function (option) scale_up :: "bytes \<Rightarrow> nat \<Rightarrow> nat \<Rightarrow> int \<Rightarrow> int \<Rightarrow> (bytes \<times> nat \<times> nat \<times> int \<times> int) option" where
  [code]: "scale_up xi lo hi idig ex2 =
     (if idig < 9 \<and> idig < DLEN lo hi then
        (case scale_up_pass xi lo hi (DPREV lo) 0 of
           None \<Rightarrow> None
         | Some (xi, lo, cy) \<Rightarrow>
             if cy \<noteq> 0 then
               let (xi, lo, hi) = scale_up_carry xi lo hi cy in scale_up xi lo hi (idig + 1) (ex2 - 6)
             else scale_up xi lo hi idig (ex2 - 6))
      else Some (xi, lo, hi, idig, ex2))"

text \<open>Scaling down divides by 64 from the first digit on; the remainder is appended.\<close>

partial_function (option) scale_down_pass :: "bytes \<Rightarrow> nat \<Rightarrow> nat \<Rightarrow> int \<Rightarrow> nat \<Rightarrow> u32 \<Rightarrow> (bytes \<times> nat \<times> int \<times> u32) option" where
  [code]: "scale_down_pass xi lo hi idig i cy =
     (let cy = cy + xi_at xi i;
          xi = xi[i := ucast (drop_bit 6 cy)];
          cy = 100 * (cy AND 0x3f);
          (hi, idig) = (if xi ! i = 0 \<and> i = hi then (DNEXT hi, idig - 1) else (hi, idig));
          i = DNEXT i
      in if i \<noteq> lo then scale_down_pass xi lo hi idig i cy else Some (xi, hi, idig, cy))"

partial_function (option) scale_down_rest :: "bytes \<Rightarrow> nat \<Rightarrow> nat \<Rightarrow> u32 \<Rightarrow> (bytes \<times> nat) option" where
  [code]: "scale_down_rest xi lo hi cy =
     (if cy \<noteq> 0 then
        if hi = lo then Some (xi[DPREV lo := xi ! DPREV lo OR 1], lo)
        else scale_down_rest (xi[lo := ucast (drop_bit 6 cy)]) (DNEXT lo) hi (100 * (cy AND 0x3f))
      else Some (xi, lo))"

partial_function (option) scale_down :: "bytes \<Rightarrow> nat \<Rightarrow> nat \<Rightarrow> int \<Rightarrow> int \<Rightarrow> (bytes \<times> nat \<times> nat \<times> int \<times> int) option" where
  [code]: "scale_down xi lo hi idig ex2 =
     (if idig > 9 then
        (case scale_down_pass xi lo hi idig hi 0 of
           None \<Rightarrow> None
         | Some (xi, hi, idig, cy) \<Rightarrow>
             (case scale_down_rest xi lo hi cy of
                None \<Rightarrow> None
              | Some (xi, lo) \<Rightarrow> scale_down xi lo hi idig (ex2 + 6)))
      else Some (xi, lo, hi, idig, ex2))"

text \<open>\<open>for (i = DNEXT(hi); --idig > 0 && i != lo; i = DNEXT(i))\<close>\<close>

function collect :: "bytes \<Rightarrow> nat \<Rightarrow> nat \<Rightarrow> int \<Rightarrow> u64 \<Rightarrow> u64 \<times> nat \<times> int" where
  "collect xi lo i idig x =
     (let idig = idig - 1 in
      if idig > 0 \<and> i \<noteq> lo then collect xi lo (DNEXT i) idig (x * 100 + ucast (xi ! i)) else (x, i, idig))"
  by pat_completeness auto
termination by (relation "measure (\<lambda>(xi, lo, i, idig, x). nat idig)") auto

declare collect.simps [simp del]

partial_function (option) gather :: "bytes \<Rightarrow> nat \<Rightarrow> nat \<Rightarrow> bool option" where
  [code]: "gather xi lo i =
     (if xi ! i \<noteq> 0 then Some True
      else let i = DNEXT i in if i \<noteq> lo then gather xi lo i else Some False)"

definition dec_collect :: "bytes \<Rightarrow> nat \<Rightarrow> nat \<Rightarrow> int \<Rightarrow> int \<Rightarrow> bool \<Rightarrow> u64 option" where
  "dec_collect xi lo hi idig ex2 neg =
     (let (x, i, idig) = collect xi lo (DNEXT hi) idig (ucast (xi ! hi)) in
      if i = lo then Some (strscan_double (x * 100 ^ nat idig) ex2 neg)
      else (case gather xi lo i of
              None \<Rightarrow> None
            | Some b \<Rightarrow> Some (strscan_double (push_bit 1 x OR (if b then 1 else 0)) (ex2 - 1) neg)))"

definition dec_slow :: "bytes \<Rightarrow> int \<Rightarrow> bool \<Rightarrow> u64 option" where
  "dec_slow xi ex10 neg =
     (let lo = length xi;
          idig = int lo + ex10 div 2;
          xi = xi @ replicate (STRSCAN_DDIG - lo) 0
      in if idig > 310 div 2 then Some (if neg then setminfV else setpinfV)
         else if idig < - (326 div 2) then Some (dbl_zero neg)
         else case scale_up xi lo 0 idig 0 of
           None \<Rightarrow> None
         | Some (xi, lo, hi, idig, ex2) \<Rightarrow>
             (case scale_down xi lo hi idig ex2 of
                None \<Rightarrow> None
              | Some (xi, lo, hi, idig, ex2) \<Rightarrow> dec_collect xi lo hi idig ex2 neg))"

text \<open>The fast path: a result, or \<open>None\<close> to go on with the slow one.\<close>

definition dec_fast :: "bytes \<Rightarrow> StrScanFmt \<Rightarrow> u32 \<Rightarrow> bool \<Rightarrow> nat \<Rightarrow> strscan_res option" where
  "dec_fast xi fmt opt neg dig =
     (let x = foldl (\<lambda>x d. x * 100 + ucast d) (0 :: u64) xi;
          plain = (\<lambda>fmt. if sint x < 0 then None
            else Some (fmt, SV_n (let n = dbl_of_int (sint x) in if neg then dbl_uminus n else n)));
          u32 = Some (if drop_bit 32 x \<noteq> 0 then (STRSCAN_ERROR, SV_none) else (STRSCAN_U32, SV_i (neg32 neg x)))
      in if dig = 20 \<and> (hd xi > 18 \<or> sint x \<ge> 0) then None
         else case fmt of
           STRSCAN_INT \<Rightarrow>
             if opt AND STRSCAN_OPT_TONUM = 0 \<and> fits_i32 neg x then Some (STRSCAN_INT, SV_i (neg32 neg x))
             else if opt AND STRSCAN_OPT_C = 0 then plain STRSCAN_NUM
             else u32
         | STRSCAN_U32 \<Rightarrow> u32
         | STRSCAN_I64 \<Rightarrow> Some (fmt, SV_u64 (neg64 neg x))
         | STRSCAN_U64 \<Rightarrow> Some (fmt, SV_u64 (neg64 neg x))
         | _ \<Rightarrow> plain fmt)"

definition strscan_dec :: "bytes \<Rightarrow> nat \<Rightarrow> StrScanFmt \<Rightarrow> u32 \<Rightarrow> int \<Rightarrow> bool \<Rightarrow> nat \<Rightarrow> strscan_res option" where
  "strscan_dec s p fmt opt ex10 neg dig =
     (let (xi, ex10, dig) = (if dig \<noteq> 0 then dec_buffer s p dig ex10 else ([0], 0, dig)) in
      case (if dig \<le> 20 \<and> ex10 = 0 then dec_fast xi fmt opt neg dig else None) of
        Some r \<Rightarrow> Some r
      | None \<Rightarrow>
          if fmt = STRSCAN_INT \<and> opt AND STRSCAN_OPT_C \<noteq> 0 then Some (STRSCAN_ERROR, SV_none)
          else if fmt \<in> {STRSCAN_U32, STRSCAN_I64, STRSCAN_U64} then Some (STRSCAN_ERROR, SV_none)
          else map_option (\<lambda>n. (if fmt = STRSCAN_INT then STRSCAN_NUM else fmt, SV_n n)) (dec_slow xi ex10 neg))"


section \<open>The scanner\<close>

lemma char_at_inside: "char_at s p \<noteq> 0 \<Longrightarrow> p < length s"
  by (auto simp: char_at_def split: if_splits)

function skip_space :: "bytes \<Rightarrow> nat \<Rightarrow> nat" where
  "skip_space s p = (if lj_char_isspace (uint (char_at s p)) then skip_space s (p + 1) else p)"
  by pat_completeness auto
termination
proof (relation "measure (\<lambda>(s, p). length s - p)")
  fix s p assume "lj_char_isspace (uint (char_at s p))"
  then have "char_at s p \<noteq> 0" by (auto simp: lj_char_isspace_iff)
  then show "((s, p + 1), (s, p)) \<in> measure (\<lambda>(s, p). length s - p)" using char_at_inside by simp fastforce
qed simp

declare skip_space.simps [simp del]

text \<open>Parse \<open>inf\<close>, \<open>infinity\<close> or \<open>nan\<close> at \<open>p\<close>.\<close>

definition scan_special :: "bytes \<Rightarrow> nat \<Rightarrow> bool \<Rightarrow> strscan_res" where
  "scan_special s p neg =
     (let ci = (\<lambda>i k. casecmp (char_at s (p + i)) k);
          (tmp, n) =
            (if ci 0 105 \<and> ci 1 110 \<and> ci 2 102 then
               (if neg then setminfV else setpinfV,
                if ci 3 105 \<and> ci 4 110 \<and> ci 5 105 \<and> ci 6 116 \<and> ci 7 121 then 8 else 3)
             else if ci 0 110 \<and> ci 1 97 \<and> ci 2 110 then (setnanV, 3)
             else (setnanV, 0));
          p = skip_space s (p + n)
      in if char_at s p \<noteq> 0 then (STRSCAN_ERROR, SV_none) else (STRSCAN_NUM, SV_u64 tmp))"

text \<open>Skip leading zeros and a decimal point (\<open>dp\<close>); \<open>None\<close> on a second point.\<close>

function skip_zeros :: "bytes \<Rightarrow> nat \<Rightarrow> nat option \<Rightarrow> bool \<Rightarrow> (nat \<times> nat option \<times> bool) option" where
  "skip_zeros s p dp hasdig =
     (if char_at s p = 48 then skip_zeros s (p + 1) dp True
      else if char_at s p = 46 then (if dp \<noteq> None then None else skip_zeros s (p + 1) (Some p) hasdig)
      else Some (p, dp, hasdig))"
  by pat_completeness auto
termination
  by (relation "measure (\<lambda>(s, p, dp, h). length s - p)") (auto simp: char_at_def split: if_splits)

text \<open>The scan of digits and point: \<open>x\<close> for the fast path, and their count \<open>dig\<close>.\<close>

function scan_digits :: "bytes \<Rightarrow> u8 \<Rightarrow> nat \<Rightarrow> nat option \<Rightarrow> u32 \<Rightarrow> nat \<Rightarrow> (nat \<times> nat option \<times> u32 \<times> nat) option" where
  "scan_digits s cmask p dp x dig =
     (if p < length s \<and> lj_char_isa (uint (char_at s p)) cmask \<noteq> 0 then
        scan_digits s cmask (p + 1) dp (x * 10 + (ucast (char_at s p) AND 15)) (dig + 1)
      else if char_at s p = 46 then
        (if dp \<noteq> None then None else scan_digits s cmask (p + 1) (Some p) x dig)
      else Some (p, dp, x, dig))"
  by pat_completeness auto
termination
  by (relation "measure (\<lambda>(s, c, p, dp, x, d). length s - p)") (auto simp: char_at_def split: if_splits)

text \<open>\<open>while (ex < 0 && *dp-- == '0') ex++, dig--\<close>: drop the trailing zeros behind the point; \<open>n\<close> counts
  the characters behind it (\<open>ex = - n\<close>), of which \<open>p - 1\<close> is the last.\<close>

fun trailing_zeros :: "bytes \<Rightarrow> nat \<Rightarrow> nat \<Rightarrow> nat \<Rightarrow> nat \<times> nat" where
  "trailing_zeros s p 0 dig = (0, dig)"
| "trailing_zeros s p (Suc n) dig =
     (if char_at s (p - 1) = 48 then trailing_zeros s (p - 1) n (dig - 1) else (Suc n, dig))"

definition scan_point :: "bytes \<Rightarrow> nat \<Rightarrow> nat option \<Rightarrow> nat \<Rightarrow> nat \<Rightarrow> StrScanFmt \<times> int \<times> nat" where
  "scan_point s p dp base dig =
     (case dp of
        None \<Rightarrow> (STRSCAN_INT, 0, dig)
      | Some d \<Rightarrow>
          if dig \<noteq> 0 then
            let (n, dig) = trailing_zeros s p (p - 1 - d) dig; ex = - int n
            in (STRSCAN_NUM, if base = 16 then ex * 4 else ex, dig)
          else (STRSCAN_NUM, 0, dig))"

function exp_digits :: "bytes \<Rightarrow> nat \<Rightarrow> int \<Rightarrow> int \<times> nat" where
  "exp_digits s p xx =
     (if p < length s \<and> lj_char_isdigit (uint (char_at s p)) then
        exp_digits s (p + 1) (if xx < 65536 then xx * 10 + uint (char_at s p AND 15) else xx)
      else (xx, p))"
  by pat_completeness auto
termination by (relation "measure (\<lambda>(s, p, xx). length s - p)") auto

declare skip_zeros.simps [simp del] scan_digits.simps [simp del] exp_digits.simps [simp del]

text \<open>The exponent: \<open>None\<close> for an error, else the value to add, or no exponent.\<close>

definition scan_exp :: "bytes \<Rightarrow> nat \<Rightarrow> nat \<Rightarrow> (StrScanFmt \<Rightarrow> StrScanFmt \<times> int \<times> nat) option" where
  "scan_exp s p base =
     (if casecmp (char_at s p) (if base = 16 then 112 else 101) then
        let p = p + 1;
            negx = (char_at s p = 45);
            p = (if char_at s p = 43 \<or> char_at s p = 45 then p + 1 else p)
        in if \<not> lj_char_isdigit (uint (char_at s p)) then None
           else let (xx, p) = exp_digits s (p + 1) (uint (char_at s p AND 15))
                in Some (\<lambda>fmt. (STRSCAN_NUM, if negx then - xx else xx, p))
      else Some (\<lambda>fmt. (fmt, 0, p)))"

text \<open>\<open>fmt += STRSCAN_I64 - STRSCAN_INT\<close> and \<open>fmt += STRSCAN_U32 - STRSCAN_INT\<close>, for the formats they are
  applied to.\<close>

fun fmt_add_ll :: "StrScanFmt \<Rightarrow> StrScanFmt" where
  "fmt_add_ll STRSCAN_INT = STRSCAN_I64"
| "fmt_add_ll STRSCAN_U32 = STRSCAN_U64"
| "fmt_add_ll fmt = fmt"

fun fmt_add_u :: "StrScanFmt \<Rightarrow> StrScanFmt" where
  "fmt_add_u STRSCAN_INT = STRSCAN_U32"
| "fmt_add_u STRSCAN_I64 = STRSCAN_U64"
| "fmt_add_u fmt = fmt"

text \<open>The integer suffixes (\<open>sizeof(long) == 8\<close>); \<open>None\<close> for an error.\<close>

definition scan_int_suffix :: "bytes \<Rightarrow> nat \<Rightarrow> StrScanFmt \<Rightarrow> u32 \<Rightarrow> (StrScanFmt \<times> nat) option" where
  "scan_int_suffix s p fmt opt =
     (let (p, fmt) = (if casecmp (char_at s p) 117 then (p + 1, STRSCAN_U32) else (p, fmt));
          r = (if casecmp (char_at s p) 108 then
                 if casecmp (char_at s (p + 1)) 108 then Some (p + 2, fmt_add_ll fmt)
                 else if opt AND STRSCAN_OPT_C = 0 then None
                 else Some (p + 1, fmt_add_ll fmt)
               else Some (p, fmt))
      in case r of
           None \<Rightarrow> None
         | Some (p, fmt) \<Rightarrow>
             let (p, fmt) =
               (if casecmp (char_at s p) 117 \<and> (fmt = STRSCAN_INT \<or> fmt = STRSCAN_I64)
                then (p + 1, fmt_add_u fmt) else (p, fmt))
             in if (fmt = STRSCAN_U32 \<and> opt AND STRSCAN_OPT_C = 0) \<or>
                   (fmt \<in> {STRSCAN_I64, STRSCAN_U64} \<and> opt AND STRSCAN_OPT_LL = 0)
                then None else Some (fmt, p))"

definition scan_suffix :: "bytes \<Rightarrow> nat \<Rightarrow> StrScanFmt \<Rightarrow> u32 \<Rightarrow> StrScanFmt option" where
  "scan_suffix s p fmt opt =
     (if char_at s p = 0 then Some fmt
      else
        case (if casecmp (char_at s p) 105 then
                (if opt AND STRSCAN_OPT_IMAG = 0 then None else Some (STRSCAN_IMAG, p + 1))
              else if fmt = STRSCAN_INT then scan_int_suffix s p fmt opt
              else Some (fmt, p)) of
          None \<Rightarrow> None
        | Some (fmt, p) \<Rightarrow> if char_at s (skip_space s p) \<noteq> 0 then None else Some fmt)"

text \<open>What follows the suffix: the fast path for decimal 32 bit integers, the parser of the base, and
  the conversion to an integer on request. \<open>sp\<close> is the first significant digit.\<close>

definition scan_value :: "bytes \<Rightarrow> nat \<Rightarrow> StrScanFmt \<Rightarrow> u32 \<Rightarrow> nat \<Rightarrow> int \<Rightarrow> bool \<Rightarrow> nat \<Rightarrow> u32 \<Rightarrow> strscan_res option" where
  "scan_value s sp fmt opt base ex neg dig x =
     (if fmt = STRSCAN_INT \<and> base = 10 \<and>
         (dig < 10 \<or> (dig = 10 \<and> char_at s sp \<le> 50 \<and> x < (if neg then 0x80000001 else 0x80000000))) then
        let y = (if neg then - x else x) in
        if opt AND STRSCAN_OPT_TONUM \<noteq> 0 then Some (STRSCAN_NUM, SV_n (dbl_of_int (sint y)))
        else Some (STRSCAN_INT, SV_i y)
      else if base = 0 \<and> \<not> (fmt = STRSCAN_NUM \<or> fmt = STRSCAN_IMAG) then Some (strscan_oct s sp fmt neg dig)
      else
        (case (if base = 16 then Some (strscan_hex s sp fmt opt ex neg dig)
               else strscan_dec s sp fmt opt ex neg dig) of
           None \<Rightarrow> None
         | Some (fmt, v) \<Rightarrow>
             (case v of
                SV_n n \<Rightarrow>
                  if fmt = STRSCAN_NUM \<and> opt AND STRSCAN_OPT_TOINT \<noteq> 0 \<and> dbl_eq n (setintV (lj_num2int n))
                  then Some (STRSCAN_INT, SV_i (lj_num2int n)) else Some (fmt, v)
              | _ \<Rightarrow> Some (fmt, v))))"

definition scan_regular :: "bytes \<Rightarrow> nat \<Rightarrow> bool \<Rightarrow> u32 \<Rightarrow> strscan_res option" where
  "scan_regular s p neg opt =
     (let err = Some (STRSCAN_ERROR, SV_none);
          base = (if opt AND STRSCAN_OPT_C \<noteq> 0 \<and> char_at s p = 48 then 0 else 10 :: nat);
          (base, cmask, p0) =
            (if char_at s p = 48 \<and> casecmp (char_at s (p + 1)) 120 then (16, LJ_CHAR_XDIGIT, p + 2)
             else (base, LJ_CHAR_DIGIT, p))
      in case (if char_at s p \<le> 48 then skip_zeros s p0 None False else Some (p, None, False)) of
           None \<Rightarrow> err
         | Some (sp, dp, hasdig) \<Rightarrow>
             (case scan_digits s cmask sp dp 0 0 of
                None \<Rightarrow> err
              | Some (p, dp, x, dig) \<Rightarrow>
                  if \<not> hasdig \<and> dig = 0 then err
                  else
                    let (fmt, ex, dig') = scan_point s p dp base dig in
                    case scan_exp s p base of
                      None \<Rightarrow> err
                    | Some f \<Rightarrow>
                        let (fmt, xx, p) = f fmt in
                        case scan_suffix s p fmt opt of
                          None \<Rightarrow> err
                        | Some fmt \<Rightarrow> scan_value s sp fmt opt base (ex + xx) neg dig' x))"

definition lj_strscan_scan :: "bytes \<Rightarrow> u32 \<Rightarrow> strscan_res option" where
  "lj_strscan_scan s opt =
     (if lj_char_isdigit (uint (char_at s 0)) then scan_regular s 0 False opt
      else
        let p = skip_space s 0;
            neg = (char_at s p = 45);
            p = (if char_at s p = 43 \<or> char_at s p = 45 then p + 1 else p)
        in if char_at s p \<ge> 65 then Some (scan_special s p neg)
           else scan_regular s p neg opt)"

text \<open>\<open>lj_strscan_num\<close>: the double of a string, or \<open>None\<close> inside for a string that is no number.\<close>

definition lj_strscan_num :: "bytes \<Rightarrow> u64 option option" where
  "lj_strscan_num str =
     map_option (\<lambda>(fmt, v). if fmt = STRSCAN_ERROR then None
        else (case v of SV_n n \<Rightarrow> Some n | SV_u64 u \<Rightarrow> Some u | _ \<Rightarrow> None))
       (lj_strscan_scan str STRSCAN_OPT_TONUM)"

end
