(* ===== verification/LJ_StrScanProofs.thy ===== *)
theory LJ_StrScanProofs
  imports LJ_StrScan LJ_StrFmtProofs
begin

text \<open>
  Properties of the number scanner: formatted integers are read back, the conversion of a scaled integer
  to a double rounds exactly once (also into the subnormal range), the formats a scan to a number can
  return, and the bound of the decimal digit buffer.
\<close>

section \<open>Reading back integers\<close>

lemma dec_of_nonempty [simp]: "dec_of n \<noteq> []"
  by (subst dec_of.simps) simp

definition dig_chr :: "nat \<Rightarrow> u8" where "dig_chr d = 48 + word_of_nat d"

lemma less10_cases: "d < (10::nat) \<Longrightarrow> d \<in> {0, 1, 2, 3, 4, 5, 6, 7, 8, 9}"
  by auto

lemma dig_chr_facts:
  assumes "d < 10"
  shows "lj_char_isa (uint (dig_chr d)) LJ_CHAR_DIGIT \<noteq> 0" "lj_char_isdigit (uint (dig_chr d))"
    "ucast (dig_chr d) AND (15 :: u32) = word_of_nat d" "dig_chr d = 48 \<longleftrightarrow> d = 0" "48 \<le> dig_chr d" "dig_chr d \<le> 57"
    "dig_chr d \<le> 50 \<longleftrightarrow> d \<le> 2"
proof -
  show d: "lj_char_isdigit (uint (dig_chr d))"
    using less10_cases[OF assms] by (auto simp: lj_char_isdigit_iff dig_chr_def)
  then show "lj_char_isa (uint (dig_chr d)) LJ_CHAR_DIGIT \<noteq> 0" by (simp add: lj_char_isdigit_def)
qed (use less10_cases[OF assms] in \<open>auto simp: dig_chr_def\<close>)

lemma dec_of_digits: "c \<in> set (dec_of n) \<Longrightarrow> \<exists>d < 10. c = dig_chr d"
proof (induction n rule: dec_of.induct)
  case (1 n)
  show ?case
  proof (cases "n < 10")
    case True
    then show ?thesis using "1.prems" by (auto simp: dec_of_small dig_chr_def)
  next
    case False
    then have "c \<in> set (dec_of (n div 10)) \<or> c = dig_chr (n mod 10)"
      using "1.prems" by (auto simp: dec_of.simps[of n] dig_chr_def)
    then show ?thesis using "1.IH"[OF False] by (metis mod_less_divisor zero_less_numeral)
  qed
qed

lemma dec_of_hd: "0 < n \<Longrightarrow> 10 ^ k \<le> n \<Longrightarrow> n < 10 ^ Suc k \<Longrightarrow> length (dec_of n) = Suc k \<and> hd (dec_of n) = dig_chr (n div 10 ^ k)"
proof (induction k arbitrary: n)
  case 0
  then show ?case by (simp add: dec_of_small dig_chr_def)
next
  case (Suc k)
  have "10 ^ k \<le> n div 10" "n div 10 < 10 ^ Suc k" using Suc.prems by (simp_all add: less_mult_imp_div_less)
  moreover have "0 < n div 10" using calculation(1) one_le_power[of "10::nat" k] by linarith
  ultimately have "length (dec_of (n div 10)) = Suc k \<and> hd (dec_of (n div 10)) = dig_chr (n div 10 div 10 ^ k)"
    using Suc.IH by blast
  moreover have "\<not> n < 10" using \<open>0 < n div 10\<close> by auto
  ultimately show ?case by (simp add: dec_of.simps[of n] div_mult2_eq)
qed

definition dec_val :: "u32 \<Rightarrow> bytes \<Rightarrow> u32" where
  "dec_val x ds = foldl (\<lambda>x c. x * 10 + (ucast c AND 15)) x ds"

lemma dec_val_dec_of: "dec_val 0 (dec_of n) = word_of_nat n"
proof (induction n rule: dec_of.induct)
  case (1 n)
  show ?case
  proof (cases "n < 10")
    case True
    then show ?thesis using dig_chr_facts(3)[of n] by (simp add: dec_of_small dec_val_def dig_chr_def)
  next
    case False
    have "dec_val 0 (dec_of n) = word_of_nat (n div 10) * 10 + word_of_nat (n mod 10)"
      using "1.IH"[OF False] False dig_chr_facts(3)[of "n mod 10"]
      by (simp add: dec_of.simps[of n] dec_val_def dig_chr_def)
    also have "\<dots> = word_of_nat (n div 10 * 10 + n mod 10)" by (simp only: of_nat_add of_nat_mult of_nat_numeral)
    finally show ?thesis by (simp only: div_mult_mod_eq)
  qed
qed

lemma char_at_append: "char_at (xs @ c # ys) (length xs) = c"
  by (simp add: char_at_def nth_append)

lemma scan_digits_all:
  "(\<And>c. c \<in> set ds \<Longrightarrow> \<exists>d < 10. c = dig_chr d) \<Longrightarrow>
   scan_digits (pre @ ds) LJ_CHAR_DIGIT (length pre) None x k =
     Some (length pre + length ds, None, dec_val x ds, k + length ds)"
proof (induction ds arbitrary: pre x k)
  case Nil
  then show ?case by (subst scan_digits.simps) (simp add: char_at_def dec_val_def)
next
  case (Cons c ds)
  obtain d where d: "d < 10" "c = dig_chr d" using Cons.prems by auto
  have "scan_digits (pre @ c # ds) LJ_CHAR_DIGIT (length pre) None x k =
      scan_digits ((pre @ [c]) @ ds) LJ_CHAR_DIGIT (length (pre @ [c])) None (x * 10 + (ucast c AND 15)) (k + 1)"
    using dig_chr_facts(1)[OF d(1)] by (subst scan_digits.simps) (simp add: char_at_append d(2))
  also have "\<dots> = Some (length (pre @ [c]) + length ds, None, dec_val (x * 10 + (ucast c AND 15)) ds, k + 1 + length ds)"
    using Cons.prems by (intro Cons.IH) auto
  finally show ?case by (simp add: dec_val_def)
qed


lemma scan_regular_dec:
  assumes n: "n < 2 ^ 31 + (if neg then 1 else 0)"
  shows "scan_regular (pre @ dec_of n) (length pre) neg 0 =
           Some (STRSCAN_INT, SV_i (if neg then - word_of_nat n else word_of_nat n))"
proof (cases "n = 0")
  case True
  have z: "char_at (pre @ [48]) (length pre) = 48" "char_at (pre @ [48]) (Suc (length pre)) = 0"
    by (simp_all add: char_at_def nth_append)
  have "skip_zeros (pre @ [48]) (length pre) None False = Some (Suc (length pre), None, True)"
    by (subst skip_zeros.simps, subst skip_zeros.simps) (simp add: z)
  moreover have "scan_digits (pre @ [48]) LJ_CHAR_DIGIT (Suc (length pre)) None 0 0 = Some (Suc (length pre), None, 0, 0)"
    by (subst scan_digits.simps) (simp add: z)
  ultimately show ?thesis using True
    by (simp add: scan_regular_def dec_of_small z casecmp_def strscan_opts scan_point_def scan_exp_def
        scan_suffix_def scan_value_def)
next
  case False
  define ds where "ds = dec_of n"
  obtain k where k: "10 ^ k \<le> n" "n < 10 ^ Suc k" using False ex_power_ivl1[of 10 n] by auto
  have hd: "length ds = Suc k" "hd ds = dig_chr (n div 10 ^ k)"
    using dec_of_hd[of n k] False k by (simp_all add: ds_def)
  define d where "d = n div 10 ^ k"
  have d: "d < 10" "d \<noteq> 0"
    using k by (simp_all add: d_def less_mult_imp_div_less div_greater_zero_iff)
  have c: "char_at (pre @ ds) (length pre) = dig_chr d"
    using hd by (cases ds) (simp_all add: char_at_append d_def)
  have e: "char_at (pre @ ds) (length pre + length ds) = 0" by (simp add: char_at_def)
  have x: "dec_val 0 ds = word_of_nat n" by (simp add: ds_def dec_val_dec_of)
  have sd: "scan_digits (pre @ ds) LJ_CHAR_DIGIT (length pre) None 0 0 =
      Some (length pre + length ds, None, word_of_nat n, Suc k)"
    using scan_digits_all[of ds pre 0 0] dec_of_digits[of _ n] by (simp add: x hd(1) flip: ds_def)
  have nz: "\<not> dig_chr d \<le> 48" using dig_chr_facts(4,5)[OF d(1)] d(2) by auto
  have fast: "Suc k < 10 \<or> (Suc k = 10 \<and> dig_chr d \<le> 50 \<and>
      (word_of_nat n :: u32) < (if neg then 0x80000001 else 0x80000000))"
  proof (cases "Suc k < 10")
    case False
    have "k \<le> 9"
    proof (rule ccontr)
      assume "\<not> k \<le> 9"
      then have "(10::nat) ^ 10 \<le> 10 ^ k" by (intro power_increasing) auto
      then show False using k n by (simp split: if_splits)
    qed
    with False have k9: "k = 9" by simp
    have "d \<le> 2" using n unfolding d_def k9 by (simp split: if_splits)
    moreover have "unat (word_of_nat n :: u32) = n" using n by (intro unat_of_nat_id) (simp split: if_splits)
    ultimately show ?thesis using n k9 dig_chr_facts(7)[OF d(1)] by (cases neg) (simp_all add: word_less_nat_alt)
  qed simp
  have nx: "\<not> (dig_chr d = 48)" using dig_chr_facts(4)[OF d(1)] d(2) by simp
  show ?thesis unfolding ds_def[symmetric]
    using fast by (simp add: scan_regular_def c nz nx sd strscan_opts scan_point_def scan_exp_def e casecmp_def
        scan_suffix_def scan_value_def)
qed

text \<open>C23: Scanning what \<open>lj_strfmt_wint\<close> writes gives the same 32 bit integer back, with the integer
  format, for every value including the most negative one.\<close>

theorem strscan_wint: "lj_strscan_scan (lj_strfmt_wint k) 0 = Some (STRSCAN_INT, SV_i k)"
proof (cases "sint k < 0")
  case True
  define n where "n = nat \<bar>sint k\<bar>"
  have w: "lj_strfmt_wint k = [45] @ dec_of n" using True by (simp add: lj_strfmt_wint_dec n_def)
  have c0: "char_at (45 # dec_of n) 0 = 45" by (simp add: char_at_def)
  obtain c cs where dc: "dec_of n = c # cs" by (cases "dec_of n") auto
  then obtain d where d: "d < 10" "c = dig_chr d" using dec_of_digits[of c n] by auto
  have c1: "char_at (45 # dec_of n) (Suc 0) = dig_chr d" by (simp add: char_at_def dc d)
  have "\<not> dig_chr d \<ge> 65" using dig_chr_facts(6)[OF d(1)] by (auto simp: word_le_nat_alt)
  moreover have "skip_space (45 # dec_of n) 0 = 0" by (subst skip_space.simps) (simp add: c0 lj_char_isspace_iff)
  moreover have "n \<le> 2 ^ 31" using sint_ge[of k] True by (simp add: n_def)
  ultimately have "lj_strscan_scan (45 # dec_of n) 0 = Some (STRSCAN_INT, SV_i (- word_of_nat n))"
    using scan_regular_dec[of n True "[45]"] by (simp add: lj_strscan_scan_def c0 c1 lj_char_isdigit_iff)
  moreover have "- word_of_nat n = k"
  proof -
    have "- int n = sint k" using True by (simp add: n_def)
    then have "word_of_int (- int n) = (word_of_int (sint k) :: u32)" by simp
    then show ?thesis by simp
  qed
  ultimately show ?thesis using w by simp
next
  case False
  define n where "n = nat \<bar>sint k\<bar>"
  have w: "lj_strfmt_wint k = [] @ dec_of n" using False by (simp add: lj_strfmt_wint_dec n_def)
  obtain c cs where dc: "dec_of n = c # cs" by (cases "dec_of n") auto
  then obtain d where d: "d < 10" "c = dig_chr d" using dec_of_digits[of c n] by auto
  have c1: "char_at (dec_of n) 0 = dig_chr d" by (simp add: char_at_def dc d)
  have "n < 2 ^ 31" using sint_lt[of k] False by (simp add: n_def)
  then have "lj_strscan_scan (dec_of n) 0 = Some (STRSCAN_INT, SV_i (word_of_nat n))"
    using scan_regular_dec[of n False "[]"] dig_chr_facts(2)[OF d(1)] by (simp add: lj_strscan_scan_def c1)
  moreover have "word_of_nat n = k"
  proof -
    have "int n = sint k" using False by (simp add: n_def)
    then have "word_of_int (int n) = (word_of_int (sint k) :: u32)" by simp
    then show ?thesis by simp
  qed
  ultimately show ?thesis using w by simp
qed

section \<open>Rounding\<close>

lemma ilog2_bounds: "0 < m \<Longrightarrow> \<exists>k. ilog2 m = int k \<and> 2 ^ k \<le> m \<and> m < 2 * 2 ^ k"
proof (induction m rule: ilog2.induct)
  case (1 m)
  show ?case
  proof (cases "m < 2")
    case True
    then show ?thesis using "1.prems" by (intro exI[of _ 0]) (simp add: ilog2.simps[of m])
  next
    case False
    then have "0 < m div 2" by simp
    then obtain k where "ilog2 (m div 2) = int k" "2 ^ k \<le> m div 2" "m div 2 < 2 * 2 ^ k" using "1.IH" False by blast
    moreover from this have "2 * 2 ^ k \<le> m" "m < 4 * 2 ^ k" by linarith+
    ultimately show ?thesis using False by (intro exI[of _ "Suc k"]) (simp add: ilog2.simps[of m])
  qed
qed

lemma ilog2_unique: "2 ^ k \<le> m \<Longrightarrow> m < 2 * 2 ^ k \<Longrightarrow> ilog2 m = int k"
proof (induction k arbitrary: m)
  case 0
  then show ?case by (simp add: ilog2.simps[of m])
next
  case (Suc k)
  have "2 ^ k \<le> m div 2" "m div 2 < 2 * 2 ^ k" using Suc.prems unfolding power_Suc by linarith+
  then have "ilog2 (m div 2) = int k" by (rule Suc.IH)
  moreover have "\<not> m < 2" using Suc.prems(1) one_le_power[of "2::int" k] unfolding power_Suc by linarith
  ultimately show ?case by (simp add: ilog2.simps[of m])
qed

lemma ilog2_scale: "0 < m \<Longrightarrow> ilog2 (m * 2 ^ k) = ilog2 m + int k"
proof -
  assume "0 < m"
  then obtain j where j: "ilog2 m = int j" "2 ^ j \<le> m" "m < 2 * 2 ^ j" using ilog2_bounds by blast
  have "ilog2 (m * 2 ^ k) = int (j + k)"
    using j(2,3) by (intro ilog2_unique) (simp_all add: power_add)
  then show ?thesis using j(1) by simp
qed

lemma ilog2_pow: "ilog2 (2 ^ k) = int k"
  by (rule ilog2_unique) simp_all

lemma ilog2_nonneg: "0 \<le> ilog2 m"
  by (induction m rule: ilog2.induct) (subst ilog2.simps, auto)

lemma rne_exact [simp]: "rne (m * 2 ^ d) d = m"
  by (simp add: rne_def)

lemma rne_scale: "rne (m * 2 ^ k) (d + k) = rne m d"
proof -
  have d: "m * 2 ^ k div 2 ^ (d + k) = m div 2 ^ d" by (simp add: power_add)
  have r: "m * 2 ^ k mod 2 ^ (d + k) = m mod 2 ^ d * 2 ^ k" by (simp add: power_add mult_mod_right[symmetric] mod_mult_mult2)
  have p: "(2 :: int) ^ (d + k) = 2 ^ d * 2 ^ k" by (simp add: power_add)
  have "2 * (x * 2 ^ k) < 2 ^ d * 2 ^ k \<longleftrightarrow> 2 * x < 2 ^ d" "2 * (x * 2 ^ k) = 2 ^ d * 2 ^ k \<longleftrightarrow> 2 * x = 2 ^ d" for x :: int
    by (simp_all flip: mult.assoc)
  then show ?thesis unfolding rne_def Let_def d r p by simp
qed

lemma rne_bounds: "0 \<le> m \<Longrightarrow> 0 \<le> rne m d \<and> rne m d * 2 ^ d \<le> m + 2 ^ d \<and> m div 2 ^ d \<le> rne m d \<and> rne m d \<le> m div 2 ^ d + 1"
proof -
  assume m: "0 \<le> m"
  have "m div 2 ^ d * 2 ^ d \<le> m" using div_mult_mod_eq[of m "2 ^ d"] pos_mod_sign[of "2 ^ d" m] zero_less_power[of "2::int" d] by linarith
  moreover have "0 \<le> m div 2 ^ d" using m by (simp add: pos_imp_zdiv_nonneg_iff)
  moreover have "(m div 2 ^ d + 1) * 2 ^ d = m div 2 ^ d * 2 ^ d + 2 ^ d" by (simp add: distrib_right)
  moreover have "rne m d = m div 2 ^ d \<or> rne m d = m div 2 ^ d + 1" by (simp add: rne_def Let_def)
  ultimately show ?thesis by (auto intro: add_increasing2)
qed

lemma rne_small: "0 \<le> m \<Longrightarrow> 2 * m \<le> 2 ^ d \<Longrightarrow> 0 < d \<Longrightarrow> rne m d = 0"
proof -
  assume m: "0 \<le> m" "2 * m \<le> 2 ^ d" "0 < d"
  then have "m < 2 ^ d" using zero_less_power[of "2::int" d] by linarith
  then have "m div 2 ^ d = 0" "m mod 2 ^ d = m" using m(1) by simp_all
  then show ?thesis using m by (auto simp: rne_def Let_def)
qed

lemma dbl_make_scale: "0 < m \<Longrightarrow> dbl_make s (m * 2 ^ k) e = dbl_make s m (e + int k)"
proof -
  assume m: "0 < m"
  define q where "q = dbl_last m (e + int k)"
  have q: "dbl_last (m * 2 ^ k) e = q" using m by (simp add: dbl_last_def q_def ilog2_scale)
  have "dbl_round (m * 2 ^ k) e q = dbl_round m (e + int k) q"
  proof (cases "q \<le> e")
    case True
    then have "nat (e + int k - q) = k + nat (e - q)" by linarith
    then show ?thesis using True by (simp add: dbl_round_def power_add)
  next
    case F: False
    show ?thesis
    proof (cases "q \<le> e + int k")
      case True
      define a where "a = nat (e + int k - q)"
      have k: "k = nat (q - e) + a" using True F by (simp add: a_def)
      have "m * 2 ^ k = m * 2 ^ a * 2 ^ nat (q - e)" by (subst k) (simp add: power_add)
      then have "rne (m * 2 ^ k) (nat (q - e)) = m * 2 ^ a" by (simp only: rne_exact)
      then show ?thesis using True F by (simp add: dbl_round_def a_def)
    next
      case False
      have "nat (q - e) = nat (q - (e + int k)) + k" using False by linarith
      then show ?thesis using False F by (simp add: dbl_round_def rne_scale)
    qed
  qed
  then show ?thesis using m q by (simp add: dbl_make_def q_def[symmetric] Let_def)
qed


section \<open>Packing and reading back\<close>

lemma dbl_pack_carry: "dbl_pack s (2 * M) q = dbl_pack s M (q + 1) \<longleftrightarrow> True" if "M = 2 ^ 52"
  using that by (simp add: dbl_pack_def algebra_simps)

lemma dbl_exp_eq: "dbl_exp y = uint y div 2 ^ 52 mod 2 ^ 11"
proof -
  have "(0x7ff :: u64) = mask 11" by (simp add: mask_eq_exp_minus_1)
  then have "dbl_exp y = uint (take_bit 11 (drop_bit 52 y))" by (simp add: dbl_exp_def take_bit_eq_mask)
  also have "\<dots> = take_bit 11 (drop_bit 52 (uint y))"
    using uint_lt2p[of y] by (simp only: unsigned_take_bit_eq unsigned_drop_bit_eq) (simp add: take_bit_int_eq_self)
  finally show ?thesis by (simp add: take_bit_eq_mod drop_bit_eq_div)
qed

lemma dbl_frac_eq: "dbl_frac y = uint y mod 2 ^ 52"
proof -
  have "(0xfffffffffffff :: u64) = mask 52" by (simp add: mask_eq_exp_minus_1)
  then have "dbl_frac y = uint (take_bit 52 y)" by (simp add: dbl_frac_def take_bit_eq_mask)
  also have "\<dots> = take_bit 52 (uint y)" by (simp only: unsigned_take_bit_eq)
  finally show ?thesis by (simp add: take_bit_eq_mod)
qed

lemma dbl_neg_eq: "dbl_neg y \<longleftrightarrow> 2 ^ 63 \<le> uint y"
proof -
  have "dbl_neg y \<longleftrightarrow> sint y < 0" using bit_last_iff[of y] by (simp add: dbl_neg_def)
  also have "\<dots> \<longleftrightarrow> 2 ^ 63 \<le> uint y" using uint_lt2p[of y] uint_ge_0[of y] unfolding sint_u64 by (simp split: if_split)
  finally show ?thesis .
qed

lemma and_exp_if: "(x :: 'a::len word) AND 2 ^ n = (if bit x n then 2 ^ n else 0)"
  by (rule bit_word_eqI) (auto simp: bit_simps bit_exp_iff)

lemma uint_signed:
  assumes "0 \<le> b" "b < 2 ^ 63"
  shows "uint (sign_bit s OR word_of_int b) = b + (if s then 2 ^ 63 else 0)"
proof (cases s)
  case True
  have u: "uint (word_of_int b :: u64) = b" using assms by (simp add: uint_word_of_int)
  have "(word_of_int b :: u64) AND 2 ^ 63 = (if bit (word_of_int b :: u64) 63 then 2 ^ 63 else 0)"
    by (rule and_exp_if)
  moreover have "\<not> bit (word_of_int b :: u64) 63"
    using dbl_neg_eq[of "word_of_int b"] assms by (simp add: dbl_neg_def u)
  ultimately have "(0x8000000000000000 :: u64) AND word_of_int b = 0" by (simp add: and.commute)
  then have "sign_bit s OR word_of_int b = 0x8000000000000000 + word_of_int b"
    using True disjunctive_add_eq_or[of "0x8000000000000000 :: u64" "word_of_int b"] by (simp add: sign_bit_def)
  then show ?thesis using True assms u by (simp add: uint_word_ariths)
qed (use assms in \<open>simp add: sign_bit_def uint_word_of_int\<close>)

lemma dbl_parts:
  assumes "0 \<le> b" "b < 2 ^ 63"
  shows "dbl_neg (sign_bit s OR word_of_int b) = s" "dbl_exp (sign_bit s OR word_of_int b) = b div 2 ^ 52"
    "dbl_frac (sign_bit s OR word_of_int b) = b mod 2 ^ 52"
proof -
  note u = uint_signed[OF assms, of s]
  show "dbl_neg (sign_bit s OR word_of_int b) = s" using assms unfolding dbl_neg_eq u by simp
  have b: "b div 2 ^ 52 < 2 ^ 11" "0 \<le> b div 2 ^ 52" using assms by (simp_all add: pos_imp_zdiv_nonneg_iff)
  have "(b + 2 ^ 63) div 2 ^ 52 = b div 2 ^ 52 + 2 ^ 11" by simp
  then show "dbl_exp (sign_bit s OR word_of_int b) = b div 2 ^ 52"
    using b unfolding dbl_exp_eq u by simp
  have "(b + 2 ^ 63) mod 2 ^ 52 = b mod 2 ^ 52" by (simp add: mod_add_eq[symmetric])
  then show "dbl_frac (sign_bit s OR word_of_int b) = b mod 2 ^ 52" unfolding dbl_frac_eq u by simp
qed


lemma dbl_pack_parts:
  assumes "0 \<le> M" "- 1074 \<le> q" "(q + 1074) * 2 ^ 52 + M < 0x7ff0000000000000"
  defines "b \<equiv> (q + 1074) * 2 ^ 52 + M"
  shows "dbl_neg (dbl_pack s M q) = s" "dbl_exp (dbl_pack s M q) = b div 2 ^ 52"
    "dbl_frac (dbl_pack s M q) = b mod 2 ^ 52" "dbl_finite (dbl_pack s M q)"
proof -
  have b: "0 \<le> b" "b < 2 ^ 63" "b < 0x7ff0000000000000" using assms by (simp_all add: b_def)
  then have p: "dbl_pack s M q = sign_bit s OR word_of_int b" by (simp add: dbl_pack_def b_def)
  show "dbl_neg (dbl_pack s M q) = s" "dbl_exp (dbl_pack s M q) = b div 2 ^ 52"
    "dbl_frac (dbl_pack s M q) = b mod 2 ^ 52"
    unfolding p by (rule dbl_parts[OF b(1,2)])+
  then show "dbl_finite (dbl_pack s M q)" using b(3) by (simp add: dbl_finite_def)
qed

text \<open>A packed number that is not subnormal reads back as itself.\<close>

lemma dbl_pack_value:
  assumes M: "2 ^ 52 \<le> M" "M < 2 ^ 53" and q: "- 1074 \<le> q" "q \<le> 970"
  shows "dbl_neg (dbl_pack s M q) = s" "dbl_mant (dbl_pack s M q) = M" "dbl_pow (dbl_pack s M q) = q"
    "dbl_finite (dbl_pack s M q)"
proof -
  have "(q + 1074) * 2 ^ 52 \<le> 2044 * 2 ^ 52" using q by simp
  then have lt: "(q + 1074) * 2 ^ 52 + M < 0x7ff0000000000000" using M(2) by simp
  have M0: "0 \<le> M" using M by simp
  note p = dbl_pack_parts[OF M0 q(1) lt, of s]
  have b: "(q + 1074) * 2 ^ 52 + M = (M - 2 ^ 52) + (q + 1075) * 2 ^ 52" by (simp add: algebra_simps)
  have "(M - 2 ^ 52) mod 2 ^ 52 = M - 2 ^ 52" using M by (intro mod_pos_pos_trivial) simp_all
  then have "((q + 1074) * 2 ^ 52 + M) div 2 ^ 52 = q + 1075" "((q + 1074) * 2 ^ 52 + M) mod 2 ^ 52 = M - 2 ^ 52"
    unfolding b mod_mult_self1 using M by (simp_all only:) simp_all
  then show "dbl_neg (dbl_pack s M q) = s" "dbl_mant (dbl_pack s M q) = M" "dbl_pow (dbl_pack s M q) = q"
    "dbl_finite (dbl_pack s M q)"
    using p q by (simp_all add: dbl_mant_def dbl_pow_def)
qed

lemma dbl_make_exact:
  assumes M: "2 ^ 52 \<le> M" "M < 2 ^ 53" and q: "- 1074 \<le> q"
  shows "dbl_make s M q = dbl_pack s M q"
proof -
  have "ilog2 M = int 52" using M by (intro ilog2_unique) simp_all
  then have "dbl_last M q = q" using q by (simp add: dbl_last_def)
  moreover have "M \<noteq> 0" using M by auto
  ultimately show ?thesis by (simp add: dbl_make_def dbl_round_def)
qed

text \<open>Rescaling a double is one more rounding of its value.\<close>

lemma ldexp_make:
  assumes "2 ^ 52 \<le> M" "M < 2 ^ 53" "- 1074 \<le> q" "q \<le> 970"
  shows "dbl_ldexp (dbl_make s M q) n = dbl_make s M (q + n)"
  using dbl_make_exact[OF assms(1-3), of s] dbl_pack_value[OF assms, of s] by (simp add: dbl_ldexp_def)

lemma dbl_round_nonneg: "0 \<le> m \<Longrightarrow> 0 \<le> dbl_round m e q"
  using rne_bounds[of m] by (simp add: dbl_round_def)

lemma uminus_signed:
  assumes "0 \<le> b" "b < 2 ^ 63"
  shows "dbl_uminus (word_of_int b) = sign_bit True OR word_of_int b"
proof -
  have x: "w XOR (2 ^ 63 :: u64) = 2 ^ 63 OR w" if "\<not> bit w 63" for w :: u64
    using disjunctive_xor_eq_or[of "2 ^ 63" w] and_exp_if[of w 63] that by (simp add: and.commute xor.commute)
  have "\<not> bit (word_of_int b :: u64) 63"
    using dbl_neg_eq[of "word_of_int b"] assms by (simp add: dbl_neg_def uint_word_of_int)
  then show ?thesis using x[of "word_of_int b"] by (simp add: dbl_uminus_def sign_bit_def)
qed

lemma dbl_uminus_make: "0 \<le> m \<Longrightarrow> dbl_uminus (dbl_make False m e) = dbl_make True m e"
proof -
  assume m: "0 \<le> m"
  define q where "q = dbl_last m e"
  define b where "b = (q + 1074) * 2 ^ 52 + dbl_round m e q"
  have "- 1074 \<le> q" by (simp add: q_def dbl_last_def)
  then have "0 \<le> b" using dbl_round_nonneg[OF m, of e q] by (simp add: b_def)
  then have "b < 0x7ff0000000000000 \<Longrightarrow> dbl_uminus (word_of_int b) = sign_bit True OR word_of_int b"
    by (intro uminus_signed) simp_all
  moreover have "dbl_uminus (dbl_inf False) = dbl_inf True" "dbl_uminus (dbl_zero False) = dbl_zero True"
    by (simp_all add: dbl_uminus_def dbl_inf_def sign_bit_def dbl_zero_def)
  moreover have "dbl_make s m e = (if m = 0 then dbl_zero s
      else if 0x7ff0000000000000 \<le> b then dbl_inf s else sign_bit s OR word_of_int b)" for s
    unfolding dbl_make_def dbl_pack_def Let_def q_def[symmetric] b_def[symmetric] ..
  moreover have "sign_bit False OR w = w" for w by (simp add: sign_bit_def)
  ultimately show ?thesis by (simp only: split: if_split) simp
qed

lemma dbl_make_neg: "0 \<le> m \<Longrightarrow> (if neg then dbl_uminus (dbl_make False m e) else dbl_make False m e) = dbl_make neg m e"
  by (simp add: dbl_uminus_make)

text \<open>A rounding that carries into the next power of two.\<close>

lemma pack_make:
  assumes "2 ^ 52 \<le> r" "r \<le> 2 ^ 53" "- 1074 \<le> q"
  shows "dbl_pack s r q = dbl_make s r q"
proof (cases "r = 2 ^ 53")
  case True
  have "dbl_make s (2 ^ 52 * 2 ^ 1) q = dbl_make s (2 ^ 52) (q + int 1)" by (rule dbl_make_scale) simp
  also have "\<dots> = dbl_pack s (2 ^ 52) (q + 1)" using dbl_make_exact[of "2 ^ 52" "q + 1" s] assms(3) by simp
  also have "\<dots> = dbl_pack s (2 ^ 53) q" by (simp add: dbl_pack_def algebra_simps)
  finally show ?thesis using True by simp
next
  case False
  then show ?thesis using dbl_make_exact[of r q s] assms by simp
qed

lemma ldexp_make_carry:
  assumes "2 ^ 52 \<le> r" "r \<le> 2 ^ 53" "- 1074 \<le> q" "q \<le> 900"
  shows "dbl_ldexp (dbl_make s r q) n = dbl_make s r (q + n)"
proof (cases "r = 2 ^ 53")
  case True
  have m: "dbl_make s (2 ^ 53) p = dbl_make s (2 ^ 52) (p + 1)" for p
    using dbl_make_scale[of "2 ^ 52" s 1 p] by simp
  have "dbl_ldexp (dbl_make s (2 ^ 52) (q + 1)) n = dbl_make s (2 ^ 52) (q + 1 + n)"
    using assms by (intro ldexp_make) simp_all
  then show ?thesis unfolding True m by (simp add: algebra_simps)
next
  case False
  then show ?thesis using assms by (intro ldexp_make) simp_all
qed

text \<open>Converting an integer and rescaling: exact up to 53 bits, one rounding beyond.\<close>

lemma ldexp_int_small:
  assumes "0 < m" "ilog2 m \<le> 52"
  shows "dbl_ldexp (dbl_make s m 0) n = dbl_make s m n"
proof -
  obtain j where j: "ilog2 m = int j" "2 ^ j \<le> m" "m < 2 * 2 ^ j" using ilog2_bounds assms(1) by blast
  define k where "k = 52 - j"
  have jk: "j + k = 52" using j(1) assms(2) by (simp add: k_def)
  have e: "(2::int) ^ j * 2 ^ k = 2 ^ 52" by (simp flip: power_add add: jk)
  have "2 ^ j * 2 ^ k \<le> m * 2 ^ k" "m * 2 ^ k < 2 * 2 ^ j * 2 ^ k" using j(2,3) by simp_all
  then have M: "2 ^ 52 \<le> m * 2 ^ k" "m * 2 ^ k < 2 ^ 53" using e by (simp_all add: mult.assoc)
  have r: "dbl_make s (m * 2 ^ k) (- int k + i) = dbl_make s m i" for i
    using dbl_make_scale[OF assms(1), of s k "- int k + i"] by simp
  have "dbl_ldexp (dbl_make s (m * 2 ^ k) (- int k)) n = dbl_make s (m * 2 ^ k) (- int k + n)"
    using M jk by (intro ldexp_make) simp_all
  then show ?thesis using r[of 0] r[of n] by simp
qed

lemma pos_imp_zdiv_less: "m < b * 2 ^ q \<Longrightarrow> m div 2 ^ q < (b :: int)"
proof (rule ccontr)
  assume m: "m < b * 2 ^ q" "\<not> m div 2 ^ q < b"
  then have "b * 2 ^ q \<le> m div 2 ^ q * 2 ^ q" by (intro mult_right_mono) simp_all
  also have "\<dots> \<le> m" using div_mult_mod_eq[of m "2 ^ q"] pos_mod_sign[of "2 ^ q" m] zero_less_power[of "2::int" q] by linarith
  finally show False using m(1) by simp
qed

lemma rne_53:
  assumes "2 ^ j \<le> m" "m < 2 * 2 ^ j" "j = 52 + q"
  shows "2 ^ 52 \<le> rne m q" "rne m q \<le> 2 ^ 53"
proof -
  have m: "2 ^ 52 * 2 ^ q \<le> m" "m < 2 ^ 53 * 2 ^ q" using assms by (simp_all add: power_add)
  then have "2 ^ 52 \<le> m div 2 ^ q" "m div 2 ^ q < 2 ^ 53"
    using zdiv_mono1[OF m(1), of "2 ^ q"] pos_imp_zdiv_less[OF m(2)] by simp_all
  moreover have "0 \<le> m" using m(1) by (rule order_trans[rotated]) simp
  ultimately show "2 ^ 52 \<le> rne m q" "rne m q \<le> 2 ^ 53" using rne_bounds[of m q] by linarith+
qed

lemma ldexp_int_big:
  assumes "0 < m" "m < 2 ^ 63" "ilog2 m = int (52 + q)"
  shows "dbl_ldexp (dbl_make s m 0) n = dbl_make s (rne m q) (int q + n)"
    and "2 ^ 52 \<le> rne m q" "rne m q \<le> 2 ^ 53"
    and "- 1074 \<le> int q + n \<Longrightarrow> dbl_make s m n = dbl_make s (rne m q) (int q + n)"
proof -
  obtain j where j: "ilog2 m = int j" "2 ^ j \<le> m" "m < 2 * 2 ^ j" using ilog2_bounds assms(1) by blast
  then have jq: "j = 52 + q" using assms(3) by simp
  show r: "2 ^ 52 \<le> rne m q" "rne m q \<le> 2 ^ 53" by (rule rne_53[OF j(2,3) jq])+
  have mk: "dbl_make s m i = dbl_make s (rne m q) (int q + i)" if "- 1074 \<le> int q + i" for i
  proof -
    have "dbl_last m i = int q + i" using that assms(3) by (simp add: dbl_last_def)
    moreover have "dbl_round m i (int q + i) = rne m q" by (cases "q = 0") (simp_all add: dbl_round_def, simp add: rne_def)
    ultimately show ?thesis using assms(1) pack_make[OF r that, of s] by (simp add: dbl_make_def Let_def)
  qed
  then show "- 1074 \<le> int q + n \<Longrightarrow> dbl_make s m n = dbl_make s (rne m q) (int q + n)" .
  have "j < 63"
  proof (rule ccontr)
    assume "\<not> j < 63"
    then have "(2::int) ^ 63 \<le> 2 ^ j" by (intro power_increasing) simp_all
    then show False using j(2) assms(2) by linarith
  qed
  then show "dbl_ldexp (dbl_make s m 0) n = dbl_make s (rne m q) (int q + n)"
    using mk[of 0] ldexp_make_carry[OF r, of "int q" s n] jq by simp
qed


lemma ldexp_int_exact:
  assumes "0 < m" "m < 2 ^ 63" "ilog2 m = int (52 + q)" "2 ^ q dvd m"
  shows "dbl_ldexp (dbl_make s m 0) n = dbl_make s m n"
proof -
  obtain r where r: "m = r * 2 ^ q" using assms(4) by (metis dvd_def mult.commute)
  then have "0 < r" using assms(1) by (simp add: zero_less_mult_iff)
  then have "dbl_make s m n = dbl_make s (rne m q) (int q + n)"
    using dbl_make_scale[of r s q n] by (simp add: r add.commute)
  then show ?thesis using ldexp_int_big(1)[OF assms(1-3)] by simp
qed

text \<open>Below half of the least subnormal everything rounds to zero.\<close>

lemma make_tiny:
  assumes "0 < m" "m \<le> 2 * 2 ^ j" "int j + e \<le> - 1076"
  shows "dbl_make s m e = dbl_zero s"
proof -
  define d where "d = nat (- 1074 - e)"
  obtain i where i: "ilog2 m = int i" "2 ^ i \<le> m" using ilog2_bounds assms(1) by blast
  have "i \<le> Suc j"
  proof (rule ccontr)
    assume "\<not> i \<le> Suc j"
    then have "(2::int) ^ Suc (Suc j) \<le> 2 ^ i" by (intro power_increasing) simp_all
    moreover have "0 < (2::int) ^ j" by simp
    ultimately show False using i(2) assms(2) unfolding power_Suc by linarith
  qed
  then have l: "dbl_last m e = - 1074" using i(1) assms(3) by (simp add: dbl_last_def)
  have "j + 2 \<le> d" using assms(3) by (simp add: d_def)
  then have "2 ^ (j + 2) \<le> (2 :: int) ^ d" by (intro power_increasing) simp_all
  then have "rne m d = 0" using assms(1,2) \<open>j + 2 \<le> d\<close> by (intro rne_small) simp_all
  then have "dbl_round m e (- 1074) = 0" using assms(3) by (simp add: dbl_round_def d_def)
  then show ?thesis using assms(1) l by (simp add: dbl_make_def dbl_pack_def dbl_zero_def)
qed

text \<open>The bits that \<open>strscan_denorm\<close> tests and clears.\<close>

lemma and_not_mask: "(x :: 'a::len word) AND NOT (mask n) = push_bit n (drop_bit n x)"
  by (rule bit_word_eqI) (auto simp: bit_simps)

lemma uint_and_not_mask: "uint ((x :: u64) AND NOT (mask n)) = uint x div 2 ^ n * 2 ^ n"
proof -
  have "uint x div 2 ^ n * 2 ^ n \<le> uint x" using div_mult_mod_eq[of "uint x" "2 ^ n"] pos_mod_sign[of "2 ^ n" "uint x"] zero_less_power[of "2::int" n] by linarith
  then have "uint x div 2 ^ n * 2 ^ n < 2 ^ 64" using uint_lt2p[of x] by simp
  moreover have "0 \<le> uint x div 2 ^ n * 2 ^ n" by (simp add: pos_imp_zdiv_nonneg_iff)
  moreover have "uint (drop_bit n x) = uint x div 2 ^ n"
    using uint_lt2p[of x] by (simp only: unsigned_drop_bit_eq) (simp add: drop_bit_eq_div take_bit_int_eq_self)
  ultimately show ?thesis
    unfolding and_not_mask by (simp only: unsigned_push_bit_eq) (simp add: push_bit_eq_mult take_bit_eq_mod)
qed

lemma bit_uint_odd: "bit (x :: u64) n \<longleftrightarrow> odd (uint x div 2 ^ n)"
proof -
  have "bit x n = bit (uint x) n" using bit_imp_le_length[of x n] by (auto simp: bit_uint_iff)
  also have "\<dots> = odd (uint x div 2 ^ n)" by (rule bit_iff_odd)
  finally show ?thesis .
qed

lemma denorm_round:
  assumes x: "uint x < 2 ^ 62" and h: "h \<le> 61"
  defines "rb \<equiv> push_bit h (1 :: u64)"
  shows "uint ((if x AND rb \<noteq> 0 \<and> x AND (rb + rb + rb - 1) \<noteq> 0 then x + (rb + rb) else x) AND NOT (rb + rb - 1))
      = rne (uint x) (Suc h) * 2 ^ Suc h"
proof -
  define X where "X = uint x"
  define q where "q = X div 2 ^ Suc h"
  have rb: "rb = 2 ^ h" by (simp add: rb_def)
  then have r2: "rb + rb = 2 ^ Suc h" by simp
  then have m: "rb + rb - 1 = mask (Suc h)" by (simp add: mask_eq_exp_minus_1)
  have disj: "(2 ^ Suc h :: u64) AND mask h = 0"
    by (rule bit_word_eqI) (auto simp: bit_simps bit_exp_iff)
  have m3: "rb + rb + rb - 1 = 2 ^ Suc h OR mask h"
    using disjunctive_add_eq_or[OF disj] by (simp add: rb mask_eq_exp_minus_1 algebra_simps)
  have p62: "2 ^ Suc h \<le> (2 :: int) ^ 62" using h by (intro power_increasing) simp_all
  moreover have "2 ^ Suc h = (word_of_int (2 ^ Suc h) :: u64)" by simp
  ultimately have u2: "uint (2 ^ Suc h :: u64) = 2 ^ Suc h"
    by (simp only: uint_word_of_int) (rule mod_pos_pos_trivial, simp_all)
  then have nz: "(2 ^ Suc h :: u64) \<noteq> 0" by (metis power_not_zero uint_0_eq zero_neq_numeral)
  have c1: "x AND rb \<noteq> 0 \<longleftrightarrow> odd (X div 2 ^ h)"
    using h by (simp add: rb and_exp_if bit_uint_odd X_def)
  have tm: "x AND mask h = 0 \<longleftrightarrow> X mod 2 ^ h = 0"
  proof -
    have "x AND mask h = 0 \<longleftrightarrow> uint (take_bit h x) = 0" by (simp only: take_bit_eq_mask) (simp add: uint_0_iff)
    also have "uint (take_bit h x) = X mod 2 ^ h" by (simp only: unsigned_take_bit_eq) (simp add: take_bit_eq_mod X_def)
    finally show ?thesis .
  qed
  have c2: "x AND (rb + rb + rb - 1) \<noteq> 0 \<longleftrightarrow> odd q \<or> X mod 2 ^ h \<noteq> 0"
    using nz unfolding m3 bit.conj_disj_distrib or_eq_0_iff tm and_exp_if bit_uint_odd q_def X_def by simp
  have split: "X div 2 ^ h = 2 * q + of_bool (odd (X div 2 ^ h))" "X mod 2 ^ Suc h = of_bool (odd (X div 2 ^ h)) * 2 ^ h + X mod 2 ^ h"
  proof -
    have "q = X div 2 ^ h div 2" unfolding q_def power_Suc2 by (rule zdiv_zmult2_eq) simp
    then show "X div 2 ^ h = 2 * q + of_bool (odd (X div 2 ^ h))"
      using mult_div_mod_eq[of 2 "X div 2 ^ h"] by (simp only: mod_2_eq_odd)
    have "X mod (2 ^ h * 2) = 2 ^ h * (X div 2 ^ h mod 2) + X mod 2 ^ h" by (rule zmod_zmult2_eq) simp
    then show "X mod 2 ^ Suc h = of_bool (odd (X div 2 ^ h)) * 2 ^ h + X mod 2 ^ h"
      by (simp add: mod_2_eq_odd mult.commute)
  qed
  have small: "0 \<le> X mod 2 ^ h" "X mod 2 ^ h < 2 ^ h" by simp_all
  have rne: "rne X (Suc h) = (if odd (X div 2 ^ h) \<and> (odd q \<or> X mod 2 ^ h \<noteq> 0) then q + 1 else q)"
    unfolding rne_def Let_def q_def[symmetric] split(2) using small by (cases "odd (X div 2 ^ h)") (auto simp: not_less)
  have "uint (x + 2 ^ Suc h) = X + 2 ^ Suc h"
    using x u2 p62 by (simp add: uint_word_ariths X_def)
  then have "uint ((x + (rb + rb)) AND NOT (rb + rb - 1)) = (q + 1) * 2 ^ Suc h"
    unfolding m unfolding uint_and_not_mask r2 by (simp only: q_def div_add_self2 power_not_zero zero_neq_numeral not_False_eq_True)
  moreover have "uint (x AND NOT (rb + rb - 1)) = q * 2 ^ Suc h"
    unfolding m uint_and_not_mask by (simp add: q_def X_def)
  ultimately show ?thesis using c1 c2 rne by (simp add: X_def)
qed


lemma rne_le_of_bound: "0 \<le> m \<Longrightarrow> m < b * 2 ^ d \<Longrightarrow> rne m d \<le> b"
  using rne_bounds[of m d] pos_imp_zdiv_less[of m b d] by linarith

lemma make_subnormal:
  assumes "0 \<le> r" "r \<le> 2 ^ 52"
  shows "dbl_make s r (- 1074) = dbl_pack s r (- 1074)"
proof (cases "r = 0")
  case True
  then show ?thesis by (simp add: dbl_make_def dbl_pack_def dbl_zero_def)
next
  case False
  then obtain i where i: "ilog2 r = int i" "2 ^ i \<le> r" using ilog2_bounds[of r] assms(1) by auto
  have "i \<le> 52"
  proof (rule ccontr)
    assume "\<not> i \<le> 52"
    then have "(2::int) ^ 53 \<le> 2 ^ i" by (intro power_increasing) simp_all
    then show False using i(2) assms(2) by simp
  qed
  then have "dbl_last r (- 1074) = - 1074" using i(1) by (simp add: dbl_last_def)
  then show ?thesis using False by (simp add: dbl_make_def dbl_round_def)
qed

lemma make_zero: "dbl_make s 0 e = dbl_zero s"
  by (simp add: dbl_make_def)

lemma ldexp_zero: "dbl_ldexp (dbl_zero s) n = dbl_zero s"
proof -
  have z: "dbl_zero s = sign_bit s OR word_of_int 0" by (simp add: dbl_zero_def)
  show ?thesis using dbl_parts[of 0 s]
    by (simp add: z dbl_ldexp_def dbl_finite_def dbl_mant_def make_zero)
qed

text \<open>The conversion after the pre-rounding is exact.\<close>

lemma ldexp_multiple:
  assumes "0 \<le> r" "r \<le> 2 ^ 52" "r * 2 ^ k < 2 ^ 63"
  shows "dbl_ldexp (dbl_make s (r * 2 ^ k) 0) n = dbl_make s (r * 2 ^ k) n"
proof (cases "r = 0")
  case True
  then show ?thesis by (simp add: make_zero ldexp_zero)
next
  case False
  define m where "m = r * 2 ^ k"
  have m0: "0 < m" using False assms(1) by (simp add: m_def)
  obtain j where j: "ilog2 m = int j" "2 ^ j \<le> m" using ilog2_bounds[OF m0] by blast
  show ?thesis
  proof (cases "j \<le> 52")
    case True
    then show ?thesis using ldexp_int_small[OF m0] j(1) by (simp flip: m_def)
  next
    case False
    have "j - 52 \<le> k"
    proof (rule ccontr)
      assume "\<not> j - 52 \<le> k"
      then have "(2::int) ^ Suc (52 + k) \<le> 2 ^ j" by (intro power_increasing) simp_all
      moreover have "m \<le> 2 ^ 52 * 2 ^ k" unfolding m_def using assms(2) by (intro mult_right_mono) simp_all
      moreover have "(2::int) ^ Suc (52 + k) = 2 * (2 ^ 52 * 2 ^ k)" by (simp add: power_add)
      moreover have "0 < (2 :: int) ^ 52 * 2 ^ k" by simp
      ultimately show False using j(2) by linarith
    qed
    then have "2 ^ (j - 52) dvd m" unfolding m_def by (intro dvd_mult le_imp_power_dvd)
    moreover have "ilog2 m = int (52 + (j - 52))" using False j(1) by simp
    ultimately show ?thesis using ldexp_int_exact[OF m0, of "j - 52" s n] assms(3) by (simp flip: m_def)
  qed
qed

lemma strscan_double_general:
  assumes x: "uint x < 2 ^ 62" and ex2: "ex2 \<noteq> 0"
  shows "dbl_ldexp (dbl_make neg (uint (strscan_denorm x ex2)) 0) ex2 = dbl_make neg (uint x) ex2"
    and "uint (strscan_denorm x ex2) < 2 ^ 63"
proof -
  define X where "X = uint x"
  have X: "0 \<le> X" "X < 2 ^ 62" using x by (simp_all add: X_def)
  have id: "strscan_denorm x ex2 = x \<Longrightarrow> uint (strscan_denorm x ex2) < 2 ^ 63" using x by simp
  have "dbl_ldexp (dbl_make neg (uint (strscan_denorm x ex2)) 0) ex2 = dbl_make neg X ex2 \<and> uint (strscan_denorm x ex2) < 2 ^ 63"
  proof (cases "X = 0")
    case True
    then have "x = 0" by (simp add: X_def uint_0_iff)
    then show ?thesis using True by (simp add: strscan_denorm_def make_zero ldexp_zero)
  next
    case nz: False
    then have X0: "0 < X" "x \<noteq> 0" using X(1) by (linarith, auto simp: X_def)
    obtain j where j: "ilog2 X = int j" "2 ^ j \<le> X" "X < 2 * 2 ^ j" using ilog2_bounds[OF X0(1)] by blast
    have j61: "j \<le> 61"
    proof (rule ccontr)
      assume "\<not> j \<le> 61"
      then have "(2::int) ^ 62 \<le> 2 ^ j" by (intro power_increasing) simp_all
      then show False using j(2) X(2) by linarith
    qed
    have jx: "ilog2 (uint x) = int j" using j(1) by (simp add: X_def)
    show ?thesis
    proof (cases "ex2 \<le> - 1075 \<and> int j + ex2 \<le> - 1023 \<and> - 1075 \<le> int j + ex2")
      case True
      define h where "h = nat (- 1075 - ex2)"
      define r where "r = rne X (Suc h)"
      have h: "h \<le> 61" "int (Suc h) = - 1074 - ex2" "j \<le> h + 52" using True j61 unfolding h_def by linarith+
      have u: "uint (strscan_denorm x ex2) = r * 2 ^ Suc h"
        using denorm_round[OF x h(1)] True X0(2) unfolding strscan_denorm_def jx h_def[symmetric] Let_def r_def X_def by simp
      have "(2::int) ^ Suc j \<le> 2 ^ (52 + Suc h)" using h(3) by (intro power_increasing) simp_all
      then have "X < 2 ^ 52 * 2 ^ Suc h" using j(3) by (simp add: power_add)
      then have r: "0 \<le> r" "r \<le> 2 ^ 52"
        using rne_bounds[OF X(1), of "Suc h"] rne_le_of_bound[OF X(1)] by (simp_all add: r_def)
      have "(2::int) ^ Suc h \<le> 2 ^ 62" using h(1) by (intro power_increasing) simp_all
      then have b: "r * 2 ^ Suc h < 2 ^ 63" using rne_bounds[OF X(1), of "Suc h"] X(2) by (simp add: r_def)
      have "dbl_make neg (r * 2 ^ Suc h) ex2 = dbl_make neg X ex2"
      proof -
        have "dbl_make neg (r * 2 ^ Suc h) ex2 = dbl_make neg r (- 1074)"
        proof (cases "r = 0")
          case False
          moreover have "ex2 + int (Suc h) = - 1074" using h(2) by linarith
          moreover have "0 < r" using False r(1) by simp
          ultimately show ?thesis using dbl_make_scale[of r neg "Suc h" ex2] by (simp only:)
        qed (simp add: make_zero)
        also have "\<dots> = dbl_pack neg r (- 1074)" by (rule make_subnormal[OF r])
        also have "\<dots> = dbl_make neg X ex2"
        proof -
          have l: "dbl_last X ex2 = - 1074" using True j(1) by (simp add: dbl_last_def)
          have "nat (- 1074 - ex2) = Suc h" using h(2) by linarith
          then have "dbl_round X ex2 (- 1074) = r" using True by (simp add: dbl_round_def r_def)
          then show ?thesis using nz l by (simp add: dbl_make_def)
        qed
        finally show ?thesis .
      qed
      then show ?thesis using ldexp_multiple[OF r b, of neg ex2] u b by simp
    next
      case False
      have d: "strscan_denorm x ex2 = x" using False unfolding strscan_denorm_def jx Let_def by auto
      have "dbl_ldexp (dbl_make neg X 0) ex2 = dbl_make neg X ex2"
      proof (cases "j \<le> 52")
        case True
        then show ?thesis using ldexp_int_small[OF X0(1)] j(1) by simp
      next
        case big: False
        then have q: "ilog2 X = int (52 + (j - 52))" using j(1) by simp
        have X63: "X < 2 ^ 63" using X(2) by simp
        note B = ldexp_int_big[OF X0(1) X63 q]
        show ?thesis
        proof (cases "- 1074 \<le> int (j - 52) + ex2")
          case True
          then show ?thesis using B(1)[of neg ex2] B(4)[of ex2 neg] by simp
        next
          case F: False
          then have t: "int j + ex2 \<le> - 1076" using False big by linarith
          have "dbl_make neg (rne X (j - 52)) (int (j - 52) + ex2) = dbl_zero neg"
            using B(2,3) t big by (intro make_tiny[where j = 52]) simp_all
          then show ?thesis using B(1)[of neg ex2] make_tiny[OF X0(1) less_imp_le[OF j(3)] t] by simp
        qed
      qed
      then show ?thesis using d id by (simp add: X_def)
    qed
  qed
  then show "dbl_ldexp (dbl_make neg (uint (strscan_denorm x ex2)) 0) ex2 = dbl_make neg (uint x) ex2"
    "uint (strscan_denorm x ex2) < 2 ^ 63" by (simp_all add: X_def)
qed

text \<open>C22: Correct rounding: for every mantissa below \<open>2^62\<close> and every binary exponent the conversion
  is the one rounding to nearest, ties to even, of the exact value \<open>x * 2^ex2\<close>, subnormal results, underflow and
  overflow included: the first rounding in the integer conversion never shows.\<close>

theorem strscan_double_rounds:
  assumes "uint x < 2 ^ 62"
  shows "strscan_double x ex2 neg = dbl_make neg (uint x) ex2"
proof -
  have s: "(if neg then dbl_uminus (dbl_of_int (sint y)) else dbl_of_int (sint y)) = dbl_make neg (uint y) 0"
    if "uint y < 2 ^ 63" for y :: u64
  proof -
    have "sint y = uint y" using that by (simp add: sint_u64)
    then show ?thesis using dbl_make_neg[of "uint y" neg 0] by (cases neg) (simp_all add: dbl_of_int_def)
  qed
  show ?thesis
  proof (cases "ex2 = 0")
    case True
    then show ?thesis using s[of x] assms by (simp add: strscan_double_def strscan_denorm_def Let_def)
  next
    case False
    note g = strscan_double_general[OF assms False]
    show ?thesis using s[OF g(2)] g(1)[of neg] False unfolding strscan_double_def Let_def by simp
  qed
qed

theorem strscan_double_rounds_witness: "strscan_double 0x3fffffffffffffff (- 1100) True = dbl_make True 0x3fffffffffffffff (- 1100)"
  using strscan_double_rounds[of "0x3fffffffffffffff" "- 1100" True] by simp

section \<open>Formats of a scan to a number\<close>

lemma tonum_opts:
  "STRSCAN_OPT_TONUM \<noteq> 0" "STRSCAN_OPT_TONUM AND STRSCAN_OPT_C = 0"
  "STRSCAN_OPT_TONUM AND STRSCAN_OPT_LL = 0" "STRSCAN_OPT_TONUM AND STRSCAN_OPT_IMAG = 0"
  "STRSCAN_OPT_TONUM AND STRSCAN_OPT_TOINT = 0"
  by (simp_all add: strscan_opts)

lemma fmt_add_ll_not_int: "fmt_add_ll f \<noteq> STRSCAN_INT \<and> (f \<in> {STRSCAN_INT, STRSCAN_U32} \<longrightarrow> fmt_add_ll f \<in> {STRSCAN_I64, STRSCAN_U64})"
  by (cases f) auto

lemma int_suffix_tonum: "scan_int_suffix s p STRSCAN_INT STRSCAN_OPT_TONUM = Some (f, p') \<Longrightarrow> f = STRSCAN_INT"
  by (auto simp: scan_int_suffix_def tonum_opts Let_def split: if_splits)

lemma suffix_tonum:
  "scan_suffix s p fmt STRSCAN_OPT_TONUM = Some f \<Longrightarrow> fmt \<in> {STRSCAN_INT, STRSCAN_NUM} \<Longrightarrow> f \<in> {STRSCAN_INT, STRSCAN_NUM}"
  by (auto simp: scan_suffix_def tonum_opts dest: int_suffix_tonum split: if_splits option.splits)

lemma hex_tonum:
  "fmt \<in> {STRSCAN_INT, STRSCAN_NUM} \<Longrightarrow> \<exists>n. strscan_hex s p fmt STRSCAN_OPT_TONUM ex2 neg dig = (STRSCAN_NUM, SV_n n)"
  by (auto simp: strscan_hex_def hex_num_def tonum_opts Let_def split: prod.splits)

lemma dec_fast_tonum:
  "dec_fast xi fmt STRSCAN_OPT_TONUM neg dig = Some (f, v) \<Longrightarrow> fmt \<in> {STRSCAN_INT, STRSCAN_NUM} \<Longrightarrow>
     f = STRSCAN_NUM \<and> (\<exists>n. v = SV_n n)"
  by (auto simp: dec_fast_def tonum_opts Let_def split: if_splits)

lemma dec_tonum:
  "strscan_dec s p fmt STRSCAN_OPT_TONUM ex neg dig = Some (f, v) \<Longrightarrow> fmt \<in> {STRSCAN_INT, STRSCAN_NUM} \<Longrightarrow>
     f = STRSCAN_NUM \<and> (\<exists>n. v = SV_n n)"
  using dec_fast_tonum
  by (fastforce simp: strscan_dec_def tonum_opts split: prod.splits option.splits if_splits)

lemma value_tonum:
  assumes "scan_value s sp fmt STRSCAN_OPT_TONUM base ex neg dig x = Some (f, v)"
    and "fmt \<in> {STRSCAN_INT, STRSCAN_NUM}" "base \<noteq> 0"
  shows "f = STRSCAN_NUM \<and> (\<exists>n. v = SV_n n)"
proof -
  define R where "R = (if base = 16 then Some (strscan_hex s sp fmt STRSCAN_OPT_TONUM ex neg dig)
               else strscan_dec s sp fmt STRSCAN_OPT_TONUM ex neg dig)"
  have R: "f = STRSCAN_NUM \<and> (\<exists>n. v = SV_n n)" if "R = Some (f, v)" for f v
    using that hex_tonum[OF assms(2), of s sp ex neg dig] dec_tonum[of s sp fmt ex neg dig f v, OF _ assms(2)]
    by (auto simp: R_def split: if_splits)
  have "scan_value s sp fmt STRSCAN_OPT_TONUM base ex neg dig x = R
      \<or> (\<exists>n. scan_value s sp fmt STRSCAN_OPT_TONUM base ex neg dig x = Some (STRSCAN_NUM, SV_n n))"
    using assms(3) unfolding scan_value_def R_def[symmetric]
    by (simp add: tonum_opts Let_def split: option.splits StrScanVal.splits)
  then show ?thesis using R assms(1) by auto
qed

lemma regular_tonum:
  assumes "scan_regular s p neg STRSCAN_OPT_TONUM = Some (f, v)"
  shows "(f = STRSCAN_ERROR \<and> v = SV_none) \<or> (f = STRSCAN_NUM \<and> (\<exists>n. v = SV_n n))"
proof -
  have pt: "fst (scan_point s a b c d) \<in> {STRSCAN_INT, STRSCAN_NUM}" for s a b c d
    by (auto simp: scan_point_def Let_def split: option.splits prod.splits)
  have ex: "scan_exp s a b = Some g \<Longrightarrow> fmt \<in> {STRSCAN_INT, STRSCAN_NUM} \<Longrightarrow> fst (g fmt) \<in> {STRSCAN_INT, STRSCAN_NUM}"
    for s a b g fmt by (auto simp: scan_exp_def Let_def split: if_splits prod.splits)
  define B where "B = (if char_at s p = 48 \<and> casecmp (char_at s (p + 1)) 120 then (16, LJ_CHAR_XDIGIT, p + 2)
      else (10 :: nat, LJ_CHAR_DIGIT, p))"
  obtain base cmask p0 where Beq: "B = (base, cmask, p0)" by (cases B)
  have b0: "base \<noteq> 0" using Beq by (auto simp: B_def split: if_splits)
  define Z where "Z = (if char_at s p \<le> 48 then skip_zeros s p0 None False else Some (p, None, False))"
  have main: "(case Z of None \<Rightarrow> Some (STRSCAN_ERROR, SV_none)
         | Some (sp, dp, hasdig) \<Rightarrow>
             (case scan_digits s cmask sp dp 0 0 of
                None \<Rightarrow> Some (STRSCAN_ERROR, SV_none)
              | Some (p, dp, x, dig) \<Rightarrow>
                  if \<not> hasdig \<and> dig = 0 then Some (STRSCAN_ERROR, SV_none)
                  else
                    let (fmt, ex, dig') = scan_point s p dp base dig in
                    case scan_exp s p base of
                      None \<Rightarrow> Some (STRSCAN_ERROR, SV_none)
                    | Some f \<Rightarrow>
                        let (fmt, xx, p) = f fmt in
                        case scan_suffix s p fmt STRSCAN_OPT_TONUM of
                          None \<Rightarrow> Some (STRSCAN_ERROR, SV_none)
                        | Some fmt \<Rightarrow> scan_value s sp fmt STRSCAN_OPT_TONUM base (ex + xx) neg dig' x)) = Some (f, v)"
    using assms Beq unfolding scan_regular_def Z_def B_def by (simp add: tonum_opts Let_def)
  show ?thesis
  proof (cases "f = STRSCAN_ERROR \<and> v = SV_none")
    case False
    with main obtain sp dp hasdig p' dp' x dig g fmt' where
      r: "scan_exp s p' base = Some g"
         "scan_suffix s (snd (snd (g (fst (scan_point s p' dp' base dig))))) (fst (g (fst (scan_point s p' dp' base dig)))) STRSCAN_OPT_TONUM = Some fmt'"
         "\<exists>e d. scan_value s sp fmt' STRSCAN_OPT_TONUM base e neg d x = Some (f, v)"
      by (auto simp: Let_def case_prod_beta split: option.splits if_splits) blast+
    have "fmt' \<in> {STRSCAN_INT, STRSCAN_NUM}" using suffix_tonum[OF r(2)] ex[OF r(1) pt] by blast
    then show ?thesis using r(3) value_tonum b0 by blast
  qed blast
qed

lemma scan_tonum:
  assumes "lj_strscan_scan s STRSCAN_OPT_TONUM = Some (f, v)"
  shows "(f = STRSCAN_ERROR \<and> v = SV_none) \<or> (f = STRSCAN_NUM \<and> (\<exists>n. v = SV_n n \<or> v = SV_u64 n))"
proof -
  have sp: "(f = STRSCAN_ERROR \<and> v = SV_none) \<or> (f = STRSCAN_NUM \<and> (\<exists>n. v = SV_u64 n))"
    if "scan_special s p neg = (f, v)" for p neg
    using that by (auto simp: scan_special_def Let_def case_prod_beta split: if_splits)
  show ?thesis
    using assms regular_tonum[of s] sp unfolding lj_strscan_scan_def Let_def by (simp split: if_splits) blast+
qed

section \<open>The digit buffer\<close>

lemma length_dec_pairs: "length (fst (dec_pairs s i p xi)) = length xi + i div 2"
  by (induction s i p xi rule: dec_pairs.induct) (auto simp: dec_digit_def next_dig_def Let_def split: prod.splits)

lemma length_dec_simplify: "length (fst (dec_simplify xi ex10 dig)) \<le> length xi + (20 - dig) div 2"
proof (induction xi ex10 dig rule: dec_simplify.induct)
  case (1 xi ex10 dig)
  show ?case
  proof (cases "ex10 > 0 \<and> dig \<le> 18")
    case True
    then have "length (fst (dec_simplify (xi @ [0]) (ex10 - 2) (dig + 2))) \<le> length xi + 1 + (20 - (dig + 2)) div 2"
      using "1.IH" by simp
    also have "(20 - (dig + 2)) div 2 + 1 = (20 - dig) div 2" using True by linarith
    then have "length xi + 1 + (20 - (dig + 2)) div 2 = length xi + (20 - dig) div 2" by linarith
    finally show ?thesis using True by (simp add: dec_simplify.simps[of xi])
  next
    case False
    then have "dec_simplify xi ex10 dig = (xi, ex10, dig)" by (subst dec_simplify.simps) (rule if_not_P)
    then show ?thesis by simp
  qed
qed

lemma length_set_last_bit: "xi \<noteq> [] \<Longrightarrow> length (set_last_bit xi) = length xi"
  by (simp add: set_last_bit_def)

lemma length_dec_buffer: "0 < dig \<Longrightarrow> length (fst (dec_buffer s p dig ex10)) \<le> 412"
proof -
  assume "0 < dig"
  define i where "i = (if dig > STRSCAN_MAXDIG then STRSCAN_MAXDIG else dig)"
  define e where "e = (if dig > STRSCAN_MAXDIG then ex10 + int (dig - STRSCAN_MAXDIG) else ex10)"
  have A: "(if dig > STRSCAN_MAXDIG then (STRSCAN_MAXDIG, ex10 + int (dig - STRSCAN_MAXDIG)) else (dig, ex10)) = (i, e)"
    by (simp add: i_def e_def)
  define H where "H = (if odd e \<noteq> odd i then let (d, p) = dec_digit s p in ([d], i - 1, p) else ([], i, p))"
  obtain xi0 i0 p0 where H: "H = (xi0, i0, p0)" by (cases H)
  have i: "0 < i" "i \<le> 800" using \<open>0 < dig\<close> by (auto simp: i_def STRSCAN_MAXDIG_def)
  have xi0: "length xi0 + i0 = i"
    using H i by (auto simp: H_def dec_digit_def Let_def split: if_splits prod.splits)
  obtain xi1 i1 p1 where P: "dec_pairs s i0 p0 xi0 = (xi1, i1, p1)" by (cases "dec_pairs s i0 p0 xi0")
  have "length xi1 = length xi0 + i0 div 2" using length_dec_pairs[of s i0 p0 xi0] P by simp
  then have xi1: "length xi1 \<le> 401" using xi0 i H by (auto simp: H_def Let_def split: if_splits prod.splits)
  define R where "R = (if i1 \<noteq> 0 then let (d, p) = dec_digit s p1 in (xi1 @ [10 * d], e - 1, dig + 1, p)
             else (xi1, e, dig, p1))"
  obtain xi2 e2 d2 p2 where R: "R = (xi2, e2, d2, p2)" by (cases R)
  have xi2: "length xi2 \<le> 402" using R xi1 by (auto simp: R_def Let_def split: if_splits prod.splits)
  have eq: "dec_buffer s p dig ex10 = (if d2 > STRSCAN_MAXDIG then
             (if dec_excess s (d2 - STRSCAN_MAXDIG) p2 then set_last_bit xi2 else xi2, e2, STRSCAN_MAXDIG)
         else dec_simplify xi2 e2 d2)"
    by (simp only: dec_buffer_def Let_def A prod.case H[unfolded H_def Let_def] P R[unfolded R_def Let_def])
  have "length (set_last_bit xi2) \<le> Suc (length xi2)" by (simp add: set_last_bit_def)
  moreover have "length (fst (dec_simplify xi2 e2 d2)) \<le> length xi2 + 10"
    using length_dec_simplify[of xi2 e2 d2] by linarith
  ultimately show ?thesis using xi2 unfolding eq by simp
qed

text \<open>C25: The decimal digit buffer is never overrun: whatever the number of digits and the exponent, the
  pairs collected (the padding of short numbers included) stay inside the \<open>STRSCAN_DDIG\<close> bytes of \<open>xi\<close>.\<close>

theorem dec_buffer_fits: "0 < dig \<Longrightarrow> length (fst (dec_buffer s p dig ex10)) \<le> 412 \<and> 412 < STRSCAN_DDIG"
  using length_dec_buffer by (simp add: STRSCAN_DDIG_def)

theorem dec_buffer_fits_witness: "length (fst (dec_buffer [49, 50] 0 2 0)) \<le> 412"
  using dec_buffer_fits[of 2 "[49, 50]" 0 0] by simp

end
