(* ===== verification/LJ_StrScanTotal.thy ===== *)
theory LJ_StrScanTotal
  imports LJ_StrScanProofs
begin

text \<open>
  Termination of the scanner of \<^verbatim>\<open>lj_strscan.c\<close>. The decimal slow path multiplies or divides a base 100
  number in a circular buffer by 64 until its integer part has the right number of digits. Scaling up ends because
  the value of the leading digits grows with every pass, scaling down because the digit count sinks.
\<close>


section \<open>The slow path ends\<close>

text \<open>Distances on the circular buffer, going down and going up.\<close>

lemma DPREV_lt [simp]: "DPREV i < 512" and DNEXT_lt [simp]: "DNEXT i < 512"
  by (simp_all add: DPREV_def DNEXT_def)

definition cdist :: "nat \<Rightarrow> nat \<Rightarrow> nat" where "cdist i j = (i + 512 - j) mod 512"

lemma cdist_eq_0: "i < 512 \<Longrightarrow> j < 512 \<Longrightarrow> cdist i j = 0 \<longleftrightarrow> i = j"
  by (auto simp: cdist_def mod_if)

lemma cdist_DPREV: "i < 512 \<Longrightarrow> j < 512 \<Longrightarrow> i \<noteq> j \<Longrightarrow> cdist (DPREV i) j < cdist i j"
  by (cases "i = 0") (auto simp: cdist_def DPREV_def mod_if split: if_splits)

lemma cdist_DNEXT: "i < 512 \<Longrightarrow> j < 512 \<Longrightarrow> i \<noteq> j \<Longrightarrow> cdist j (DNEXT i) < cdist j i"
  by (auto simp: cdist_def DNEXT_def mod_if split: if_splits)

text \<open>The carry of one step of scaling up: at least 1 from 128 on, and exact below 100.\<close>

definition up_carry :: "u32 \<Rightarrow> u32" where
  "up_carry d = drop_bit 17 (drop_bit 2 d * 5243)"

lemma unat_up_carry: "unat d \<le> 20000 \<Longrightarrow> unat (up_carry d) = unat d div 4 * 5243 div 131072"
proof -
  assume d: "unat d \<le> 20000"
  then have "unat d div 4 * 5243 < 4294967296" by linarith
  then show ?thesis by (simp add: up_carry_def unat_drop_bit_div unat_word_ariths)
qed

lemma up_carry_le: "unat d \<le> 20000 \<Longrightarrow> unat (up_carry d) \<le> 200"
  by (simp add: unat_up_carry)

lemma up_carry_zero: "unat d \<le> 20000 \<Longrightarrow> up_carry d = 0 \<Longrightarrow> unat d < 100"
proof -
  assume d: "unat d \<le> 20000" "up_carry d = 0"
  then have "unat d div 4 * 5243 < 131072" using unat_up_carry[of d] by (simp add: div_eq_0_iff)
  then have "unat d div 4 \<le> 24" by linarith
  then show "unat d < 100" using div_mult_mod_eq[of "unat d" 4] mod_less_divisor[of 4 "unat d"] by linarith
qed

definition up_digit :: "bytes \<Rightarrow> nat \<Rightarrow> u32 \<Rightarrow> u32" where
  "up_digit xi i cy = push_bit 6 (xi_at xi i) + cy"

lemma unat_up_digit: "unat cy \<le> 200 \<Longrightarrow> unat (up_digit xi i cy) = 64 * unat (xi ! i) + unat cy"
proof -
  assume c: "unat cy \<le> 200"
  have x: "unat (xi ! i) < 256" by simp
  then have "unat (xi ! i) * 64 mod 4294967296 = unat (xi ! i) * 64"
    "(unat (xi ! i) * 64 + unat cy) mod 4294967296 = unat (xi ! i) * 64 + unat cy"
    using c by (simp_all del: u8_lt_256)
  then show ?thesis by (simp add: up_digit_def xi_at_def push_bit_eq_mult unat_word_ariths)
qed

lemma up_digit_le: "unat cy \<le> 200 \<Longrightarrow> unat (up_digit xi i cy) \<le> 20000"
proof -
  assume c: "unat cy \<le> 200"
  have "unat (xi ! i) < 256" by simp
  then show ?thesis unfolding unat_up_digit[OF c] using c by linarith
qed

lemma scale_up_pass_returns:
  assumes "length xi = 512" "lo < 512" "lo \<noteq> hi" "hi < 512" "i < 512" "unat cy \<le> 200"
  shows "\<exists>xi' lo' cy' c. scale_up_pass xi lo hi i cy = Some (xi', lo', cy') \<and> length xi' = 512 \<and> lo' < 512 \<and> lo' \<noteq> hi
     \<and> unat c \<le> 200 \<and> cy' = up_carry (up_digit xi hi c) \<and> xi' ! hi = ucast (up_digit xi hi c - cy' * 100)"
  using assms
proof (induction "cdist i hi" arbitrary: xi lo i cy rule: less_induct)
  case less
  define d where "d = up_digit xi i cy"
  define xj where "xj = xi[i := ucast (d - up_carry d * 100)]"
  have unf: "scale_up_pass xi lo hi i cy =
      (if i = hi then Some (xj, lo, up_carry d)
       else scale_up_pass xj (if d - up_carry d * 100 = 0 \<and> i = DPREV lo then i else lo) hi (DPREV i) (up_carry d))"
    by (subst scale_up_pass.simps) (simp add: Let_def d_def xj_def up_digit_def up_carry_def)
  show ?case
  proof (cases "i = hi")
    case True
    then show ?thesis using less.prems unf
      by (intro exI[of _ xj] exI[of _ lo] exI[of _ "up_carry d"] exI[of _ cy]) (simp add: xj_def d_def)
  next
    case False
    define lo' where "lo' = (if d - up_carry d * 100 = 0 \<and> i = DPREV lo then i else lo)"
    have "unat (up_carry d) \<le> 200" using up_digit_le[OF less.prems(6)] up_carry_le by (simp add: d_def)
    moreover have "length xj = 512" "lo' < 512" "lo' \<noteq> hi" using less.prems False by (auto simp: xj_def lo'_def)
    moreover have "cdist (DPREV i) hi < cdist i hi" using cdist_DPREV less.prems False by blast
    ultimately obtain xi' lo'' cy' c where "scale_up_pass xj lo' hi (DPREV i) (up_carry d) = Some (xi', lo'', cy')"
      "length xi' = 512" "lo'' < 512" "lo'' \<noteq> hi" "unat c \<le> 200" "cy' = up_carry (up_digit xj hi c)"
      "xi' ! hi = ucast (up_digit xj hi c - cy' * 100)"
      using less.hyps[of "DPREV i" xj lo' "up_carry d"] less.prems by auto
    moreover have "up_digit xj hi c = up_digit xi hi c" using False by (simp add: up_digit_def xi_at_def xj_def)
    ultimately show ?thesis using False unf by (auto simp: lo'_def)
  qed
qed

text \<open>The invariant of scaling: a non-empty range of digits with a non-zero first digit.\<close>

definition digits_ok :: "bytes \<Rightarrow> nat \<Rightarrow> nat \<Rightarrow> bool" where
  "digits_ok xi lo hi \<longleftrightarrow> length xi = 512 \<and> lo < 512 \<and> hi < 512 \<and> lo \<noteq> hi \<and> xi ! hi \<noteq> 0"

lemma DPREV_ne: "hi < 512 \<Longrightarrow> DPREV hi \<noteq> hi"
  by (auto simp: DPREV_def mod_if)

lemma DPREV_inj: "a < 512 \<Longrightarrow> b < 512 \<Longrightarrow> DPREV a = DPREV b \<longleftrightarrow> a = b"
  by (auto simp: DPREV_def mod_if split: if_splits)

lemma scale_up_carry_ok:
  assumes "length xi = 512" "lo < 512" "hi < 512" "lo \<noteq> hi" "ucast cy \<noteq> (0 :: u8)"
    and "scale_up_carry xi lo hi cy = (xi', lo', hi')"
  shows "digits_ok xi' lo' hi' \<and> xi' ! hi' = ucast cy"
proof -
  have n: "DPREV lo \<noteq> DPREV hi" using assms DPREV_inj by blast
  have n2: "DPREV lo \<noteq> lo" using assms by (intro DPREV_ne)
  show ?thesis
    using assms n n2 unfolding scale_up_carry_def Let_def
    by (auto simp: digits_ok_def split: if_splits)
qed


lemma ucast_u8_nonzero: "x \<noteq> 0 \<Longrightarrow> unat (x :: u32) < 256 \<Longrightarrow> (ucast x :: u8) \<noteq> 0"
proof -
  assume x: "x \<noteq> 0" "unat x < 256"
  then have "unat (ucast x :: u8) = unat x" by (intro unat_ucast_le) simp
  then show ?thesis using x(1) by (metis unat_0 word_unat_eq_iff)
qed

lemma scale_up_returns:
  assumes "digits_ok xi lo hi"
  shows "\<exists>xi' lo' hi' idig' ex2'. scale_up xi lo hi idig ex2 = Some (xi', lo', hi', idig', ex2') \<and> digits_ok xi' lo' hi'"
  using assms
proof (induction "nat (9 - idig) * 2 + (if xi ! hi = 1 then 1 else 0)" arbitrary: xi lo hi idig ex2 rule: less_induct)
  case less
  show ?case
  proof (cases "idig < 9 \<and> idig < DLEN lo hi")
    case False
    then have "scale_up xi lo hi idig ex2 = Some (xi, lo, hi, idig, ex2)" by (subst scale_up.simps) (rule if_not_P)
    then show ?thesis using less.prems by blast
  next
    case True
    have ok: "length xi = 512" "lo < 512" "lo \<noteq> hi" "hi < 512" "xi ! hi \<noteq> 0" using less.prems by (auto simp: digits_ok_def)
    obtain xi1 lo1 cy c where p: "scale_up_pass xi lo hi (DPREV lo) 0 = Some (xi1, lo1, cy)" "length xi1 = 512"
      "lo1 < 512" "lo1 \<noteq> hi" "unat c \<le> 200" "cy = up_carry (up_digit xi hi c)" "xi1 ! hi = ucast (up_digit xi hi c - cy * 100)"
      using scale_up_pass_returns[of xi lo hi "DPREV lo" 0] ok by auto
    have d: "unat (up_digit xi hi c) \<le> 20000" "unat (up_digit xi hi c) = 64 * unat (xi ! hi) + unat c"
      using up_digit_le unat_up_digit p(5) by blast+
    show ?thesis
    proof (cases "cy = 0")
      case cy0: True
      have lt: "unat (up_digit xi hi c) < 100" using up_carry_zero[OF d(1)] p(6) cy0 by simp
      have "0 < unat (xi ! hi)" using ok(5) by (simp add: unat_gt_0)
      then have one: "unat (xi ! hi) = 1" using lt d(2) by linarith
      then have x1: "xi ! hi = 1" by (simp add: word_unat_eq_iff)
      have "unat (xi1 ! hi) = unat (up_digit xi hi c)"
        using lt unfolding p(7) cy0 by (simp add: unat_ucast_le)
      then have "64 \<le> unat (xi1 ! hi)" using d(2) one by linarith
      then have n: "xi1 ! hi \<noteq> 0" "xi1 ! hi \<noteq> 1" by auto
      then have "digits_ok xi1 lo1 hi" using p ok by (simp add: digits_ok_def)
      moreover have "nat (9 - idig) * 2 + (if xi1 ! hi = 1 then 1 else 0) < nat (9 - idig) * 2 + (if xi ! hi = 1 then 1 else 0)"
        using n x1 by simp
      ultimately obtain r where "scale_up xi1 lo1 hi idig (ex2 - 6) = Some r" "case r of (a, b, c, _) \<Rightarrow> digits_ok a b c"
        using less.hyps[of idig xi1 hi lo1 "ex2 - 6"] by fastforce
      moreover have "scale_up xi lo hi idig ex2 = scale_up xi1 lo1 hi idig (ex2 - 6)"
        using True p(1) cy0 by (subst scale_up.simps) simp
      ultimately show ?thesis by (cases r) auto
    next
      case cy: False
      obtain xi2 lo2 hi2 where c: "scale_up_carry xi1 lo1 hi cy = (xi2, lo2, hi2)" by (cases "scale_up_carry xi1 lo1 hi cy")
      have "unat cy < 256" using up_carry_le[OF d(1)] p(6) by simp
      then have "(ucast cy :: u8) \<noteq> 0" using ucast_u8_nonzero cy by blast
      then have "digits_ok xi2 lo2 hi2" using scale_up_carry_ok[OF p(2,3) ok(4) p(4) _ c] by blast
      moreover have "nat (9 - (idig + 1)) * 2 + (if xi2 ! hi2 = 1 then 1 else 0) < nat (9 - idig) * 2 + (if xi ! hi = 1 then 1 else 0)"
      proof -
        have "nat (9 - idig) = Suc (nat (9 - (idig + 1)))" using True by (simp add: Suc_nat_eq_nat_zadd1)
        then show ?thesis by simp
      qed
      ultimately obtain r where "scale_up xi2 lo2 hi2 (idig + 1) (ex2 - 6) = Some r" "case r of (a, b, c, _) \<Rightarrow> digits_ok a b c"
        using less.hyps[of "idig + 1" xi2 hi2 lo2 "ex2 - 6"] by fastforce
      moreover have "scale_up xi lo hi idig ex2 = scale_up xi2 lo2 hi2 (idig + 1) (ex2 - 6)"
        using True p(1) cy c by (subst scale_up.simps) simp
      ultimately show ?thesis by (cases r) auto
    qed
  qed
qed

text \<open>Scaling down needs no invariant but the bounds of the indices.\<close>

lemma scale_down_pass_step:
  fixes xi cy i idig hi
  defines "c \<equiv> cy + xi_at xi i" and "xj \<equiv> xi[i := ucast (drop_bit 6 (cy + xi_at xi i))]"
  defines "h \<equiv> (if xj ! i = 0 \<and> i = hi then DNEXT hi else hi)" and "g \<equiv> (if xj ! i = 0 \<and> i = hi then idig - 1 else idig)"
  shows "scale_down_pass xi lo hi idig i cy =
       (if DNEXT i \<noteq> lo then scale_down_pass xj lo h g (DNEXT i) (100 * (c AND 0x3f)) else Some (xj, h, g, 100 * (c AND 0x3f)))"
proof -
  define Z where "Z \<longleftrightarrow> xj ! i = 0 \<and> i = hi"
  have hg: "(if xj ! i = 0 \<and> i = hi then (DNEXT hi, idig - 1) else (hi, idig)) = (h, g)"
    unfolding h_def g_def Z_def[symmetric] by (cases Z) simp_all
  have "scale_down_pass xi lo hi idig i cy =
      (case (if xj ! i = 0 \<and> i = hi then (DNEXT hi, idig - 1) else (hi, idig)) of (h, g) \<Rightarrow>
        if DNEXT i \<noteq> lo then scale_down_pass xj lo h g (DNEXT i) (100 * (c AND 0x3f)) else Some (xj, h, g, 100 * (c AND 0x3f)))"
    by (subst scale_down_pass.simps) (simp only: Let_def xj_def c_def)
  then show ?thesis by (simp only: hg prod.case)
qed

lemma scale_down_pass_returns:
  assumes "length xi = 512" "lo < 512" "hi < 512" "i < 512"
  shows "\<exists>xi' hi' idig' cy'. scale_down_pass xi lo hi idig i cy = Some (xi', hi', idig', cy') \<and> length xi' = 512 \<and> hi' < 512 \<and> idig' \<le> idig"
  using assms
proof (induction "cdist lo (DNEXT i)" arbitrary: xi hi idig i cy rule: less_induct)
  case less
  define c where "c = cy + xi_at xi i"
  define xj where "xj = xi[i := ucast (drop_bit 6 c)]"
  define h where "h = (if xj ! i = 0 \<and> i = hi then DNEXT hi else hi)"
  define g where "g = (if xj ! i = 0 \<and> i = hi then idig - 1 else idig)"
  have unf: "scale_down_pass xi lo hi idig i cy =
      (if DNEXT i \<noteq> lo then scale_down_pass xj lo h g (DNEXT i) (100 * (c AND 0x3f)) else Some (xj, h, g, 100 * (c AND 0x3f)))"
    unfolding c_def xj_def h_def g_def by (rule scale_down_pass_step)
  have b: "length xj = 512" "h < 512" "g \<le> idig" using less.prems by (auto simp: xj_def h_def g_def)
  show ?case
  proof (cases "DNEXT i = lo")
    case True
    then show ?thesis using unf b by auto
  next
    case False
    have "cdist lo (DNEXT (DNEXT i)) < cdist lo (DNEXT i)" using cdist_DNEXT[of "DNEXT i" lo] False less.prems by simp
    then obtain r where "scale_down_pass xj lo h g (DNEXT i) (100 * (c AND 0x3f)) = Some r"
      "case r of (a, b, c, d) \<Rightarrow> length a = 512 \<and> b < 512 \<and> c \<le> g"
      using less.hyps[of "DNEXT i" xj h g "100 * (c AND 0x3f)"] b less.prems by fastforce
    then show ?thesis using unf False b(3) by (cases r) auto
  qed
qed


lemma scale_down_pass_keeps:
  assumes "length xi = 512" "lo < 512" "hi < 512" "i < 512" "i \<noteq> lo"
    and "cdist lo i < (if lo = hi then 512 else cdist lo hi)"
  shows "\<exists>xi' cy'. scale_down_pass xi lo hi idig i cy = Some (xi', hi, idig, cy') \<and> length xi' = 512 \<and> xi' ! hi = xi ! hi"
  using assms
proof (induction "cdist lo i" arbitrary: xi i cy rule: less_induct)
  case less
  define xj where "xj = xi[i := ucast (drop_bit 6 (cy + xi_at xi i))]"
  have ne: "i \<noteq> hi" using less.prems by (auto split: if_splits)
  have xj: "length xj = 512" "xj ! hi = xi ! hi" using less.prems ne by (simp_all add: xj_def)
  have unf: "scale_down_pass xi lo hi idig i cy =
      (if DNEXT i \<noteq> lo then scale_down_pass xj lo hi idig (DNEXT i) (100 * ((cy + xi_at xi i) AND 0x3f))
       else Some (xj, hi, idig, 100 * ((cy + xi_at xi i) AND 0x3f)))"
    using scale_down_pass_step[of xi lo hi idig i cy] ne by (simp add: xj_def)
  show ?case
  proof (cases "DNEXT i = lo")
    case True
    then show ?thesis using unf xj by auto
  next
    case False
    have l: "cdist lo (DNEXT i) < cdist lo i" using cdist_DNEXT less.prems by blast
    then have "cdist lo (DNEXT i) < (if lo = hi then 512 else cdist lo hi)" using less.prems(6) by simp
    then show ?thesis
      using less.hyps[OF l xj(1) less.prems(2,3) DNEXT_lt False, of "100 * ((cy + xi_at xi i) AND 0x3f)"] unf False xj(2) by simp
  qed
qed

lemma scale_down_pass_progress:
  assumes "length xi = 512" "lo < 512" "hi < 512"
  shows "\<exists>xi' hi' idig' cy'. scale_down_pass xi lo hi idig hi 0 = Some (xi', hi', idig', cy') \<and> length xi' = 512 \<and> hi' < 512 \<and>
     (idig' < idig \<or> idig' = idig \<and> hi' = hi \<and> unat (xi ! hi) \<ge> 64 \<and> unat (xi' ! hi) < 64)"
proof -
  define xj where "xj = xi[hi := ucast (drop_bit 6 (0 + xi_at xi hi))]"
  define c where "c = 100 * ((0 + xi_at xi hi) AND 0x3f)"
  have "unat (drop_bit 6 (xi_at xi hi)) = unat (xi ! hi) div 64" by (simp add: unat_drop_bit_div xi_at_def)
  moreover have s: "unat (xi ! hi) div 64 < 4" using u8_lt_256[of "xi ! hi"] by linarith
  ultimately have "unat (ucast (drop_bit 6 (xi_at xi hi)) :: u8) = unat (xi ! hi) div 64"
    by (subst unat_ucast_le) simp_all
  then have x: "unat (xj ! hi) = unat (xi ! hi) div 64" "unat (xj ! hi) < 64" and len: "length xj = 512"
    using assms s by (simp_all add: xj_def)
  have unf: "scale_down_pass xi lo hi idig hi 0 =
      (if DNEXT hi \<noteq> lo then scale_down_pass xj lo (if xj ! hi = 0 then DNEXT hi else hi) (if xj ! hi = 0 then idig - 1 else idig) (DNEXT hi) c
       else Some (xj, if xj ! hi = 0 then DNEXT hi else hi, if xj ! hi = 0 then idig - 1 else idig, c))"
    using scale_down_pass_step[of xi lo hi idig hi 0] by (simp add: xj_def c_def)
  show ?thesis
  proof (cases "xj ! hi = 0")
    case True
    show ?thesis
    proof (cases "DNEXT hi = lo")
      case t: True
      then show ?thesis using unf True len assms(2) by simp
    next
      case False
      obtain xi' hi' idig' cy' where "scale_down_pass xj lo (DNEXT hi) (idig - 1) (DNEXT hi) c = Some (xi', hi', idig', cy')"
        "length xi' = 512" "hi' < 512" "idig' \<le> idig - 1"
        using scale_down_pass_returns[OF len assms(2) DNEXT_lt DNEXT_lt] by blast
      then show ?thesis using unf True False by auto
    qed
  next
    case nz: False
    then have ge: "64 \<le> unat (xi ! hi)" using x(1) by (metis div_less not_less unat_0 word_unat_eq_iff)
    show ?thesis
    proof (cases "DNEXT hi = lo")
      case t: True
      then show ?thesis using unf nz len ge x assms(3) by simp
    next
      case False
      have "cdist lo (DNEXT hi) < (if lo = hi then 512 else cdist lo hi)"
        using cdist_DNEXT[of hi lo] assms by (auto simp: cdist_def)
      from scale_down_pass_keeps[OF len assms(2,3) DNEXT_lt False this, of idig c]
      show ?thesis using unf nz False ge x assms(3) by auto
    qed
  qed
qed

lemma cy_shrink:
  "100 * ((100 * ((100 * ((100 * (c AND 0x3f)) AND 0x3f)) AND 0x3f)) AND 0x3f) = (0 :: u32)"
proof -
  have m: "unat (100 * (x AND 0x3f)) = 100 * (unat x mod 64)" for x :: u32
  proof -
    have "(0x3f :: u32) = mask 6" by (simp add: mask_eq_exp_minus_1)
    then have "x AND 0x3f = take_bit 6 x" by (simp add: take_bit_eq_mask)
    moreover have "unat (take_bit 6 x) = unat x mod 64"
      by (simp only: unsigned_take_bit_eq) (simp add: take_bit_eq_mod)
    moreover have "unat x mod 64 < 64" by simp
    ultimately show ?thesis by (simp add: unat_word_ariths)
  qed
  have "100 * (100 * (100 * n mod 64) mod 64) mod 64 = (0 :: nat)" for n
  proof -
    have "100 * (100 * (100 * n mod 64) mod 64) mod 64 = 64 * (15625 * n) mod 64"
      by (simp only: mod_mult_right_eq) (simp add: mult.assoc[symmetric])
    then show ?thesis by simp
  qed
  then show ?thesis unfolding word_unat_eq_iff m by simp
qed

lemma scale_down_rest_returns:
  assumes "length xi = 512" "lo < 512" "hi < 512"
  shows "\<exists>xi' lo'. scale_down_rest xi lo hi cy = Some (xi', lo') \<and> length xi' = 512 \<and> lo' < 512 \<and> xi' ! hi = xi ! hi"
proof -
  define P where "P = (\<lambda>xi lo cy. length xi = 512 \<longrightarrow> lo < 512 \<longrightarrow> 
    (\<exists>xi' lo'. scale_down_rest xi lo hi cy = Some (xi', lo') \<and> length xi' = 512 \<and> lo' < 512 \<and> xi' ! hi = xi ! hi))"
  have zero: "P xi lo 0" for xi lo unfolding P_def by (subst scale_down_rest.simps) simp
  have step: "P xi lo cy" if that: "\<And>xi lo. P xi lo (100 * (cy AND 0x3f))" for xi lo cy
  proof -
    consider "cy = 0" | "cy \<noteq> 0" "hi = lo" | "cy \<noteq> 0" "hi \<noteq> lo" by blast
    then show ?thesis
    proof cases
      case 1
      then show ?thesis using zero by simp
    next
      case 2
      have "DPREV lo \<noteq> lo" if "lo < 512" using that by (rule DPREV_ne)
      then show ?thesis using 2 unfolding P_def by (subst scale_down_rest.simps) auto
    next
      case 3
      then have "scale_down_rest xi lo hi cy = scale_down_rest (xi[lo := ucast (drop_bit 6 cy)]) (DNEXT lo) hi (100 * (cy AND 0x3f))"
        by (subst scale_down_rest.simps) simp
      then show ?thesis using that[of "xi[lo := ucast (drop_bit 6 cy)]" "DNEXT lo"] 3 unfolding P_def by simp
    qed
  qed
  have "P xi lo cy"
    by (rule step, rule step, rule step, rule step) (simp only: cy_shrink zero)
  then show ?thesis using assms unfolding P_def by blast
qed

lemma scale_down_returns:
  assumes "length xi = 512" "lo < 512" "hi < 512"
  shows "\<exists>xi' lo' hi' idig' ex2'. scale_down xi lo hi idig ex2 = Some (xi', lo', hi', idig', ex2') \<and> length xi' = 512 \<and> lo' < 512 \<and> hi' < 512"
  using assms
proof (induction "nat idig * 2 + (if 64 \<le> unat (xi ! hi) then 1 else 0)" arbitrary: xi lo hi idig ex2 rule: less_induct)
  case less
  show ?case
  proof (cases "idig > 9")
    case False
    then have "scale_down xi lo hi idig ex2 = Some (xi, lo, hi, idig, ex2)" by (subst scale_down.simps) (rule if_not_P)
    then show ?thesis using less.prems by blast
  next
    case True
    obtain xi1 hi1 idig1 cy where p: "scale_down_pass xi lo hi idig hi 0 = Some (xi1, hi1, idig1, cy)" "length xi1 = 512" "hi1 < 512"
      "idig1 < idig \<or> idig1 = idig \<and> hi1 = hi \<and> unat (xi ! hi) \<ge> 64 \<and> unat (xi1 ! hi) < 64"
      using scale_down_pass_progress[OF less.prems] by blast
    obtain xi2 lo2 where r: "scale_down_rest xi1 lo hi1 cy = Some (xi2, lo2)" "length xi2 = 512" "lo2 < 512" "xi2 ! hi1 = xi1 ! hi1"
      using scale_down_rest_returns[OF p(2) less.prems(2) p(3)] by blast
    have "nat idig1 * 2 + (if 64 \<le> unat (xi2 ! hi1) then 1 else 0) < nat idig * 2 + (if 64 \<le> unat (xi ! hi) then 1 else 0)"
      using p(4) r(4) True by auto
    then obtain r' where "scale_down xi2 lo2 hi1 idig1 (ex2 + 6) = Some r'" "case r' of (a, b, c, _) \<Rightarrow> length a = 512 \<and> b < 512 \<and> c < 512"
      using less.hyps[of idig1 xi2 hi1 lo2 "ex2 + 6"] r p(3) by fastforce
    moreover have "scale_down xi lo hi idig ex2 = scale_down xi2 lo2 hi1 idig1 (ex2 + 6)"
      using True p(1) r(1) by (subst scale_down.simps) simp
    ultimately show ?thesis by (cases r') auto
  qed
qed

lemma gather_returns: "lo < 512 \<Longrightarrow> i < 512 \<Longrightarrow> \<exists>b. gather xi lo i = Some b"
proof (induction "cdist lo (DNEXT i)" arbitrary: i rule: less_induct)
  case less
  show ?case
  proof (cases "xi ! i \<noteq> 0 \<or> DNEXT i = lo")
    case True
    then show ?thesis by (subst gather.simps) (auto simp: Let_def)
  next
    case False
    have "cdist lo (DNEXT (DNEXT i)) < cdist lo (DNEXT i)" using cdist_DNEXT[of "DNEXT i" lo] False less.prems by simp
    then show ?thesis using less.hyps[of "DNEXT i"] False less.prems by (subst gather.simps) (simp add: Let_def)
  qed
qed

lemma collect_lt: "i < 512 \<Longrightarrow> fst (snd (collect xi lo i idig x)) < 512"
proof (induction xi lo i idig x rule: collect.induct)
  case (1 xi lo i idig x)
  then show ?case by (subst collect.simps) (simp add: Let_def)
qed

lemma dec_slow_returns:
  assumes "xi \<noteq> []" "length xi \<le> 412" "hd xi \<noteq> 0"
  shows "\<exists>n. dec_slow xi ex10 neg = Some n"
proof -
  define xs where "xs = xi @ replicate (STRSCAN_DDIG - length xi) 0"
  have ok: "digits_ok xs (length xi) 0"
    using assms by (cases xi) (auto simp: digits_ok_def xs_def STRSCAN_DDIG_def)
  define idig where "idig = int (length xi) + ex10 div 2"
  obtain xi1 lo1 hi1 idig1 e1 where u: "scale_up xs (length xi) 0 idig 0 = Some (xi1, lo1, hi1, idig1, e1)" "digits_ok xi1 lo1 hi1"
    using scale_up_returns[OF ok] by blast
  obtain xi2 lo2 hi2 idig2 e2 where d: "scale_down xi1 lo1 hi1 idig1 e1 = Some (xi2, lo2, hi2, idig2, e2)" "length xi2 = 512" "lo2 < 512" "hi2 < 512"
    using scale_down_returns[of xi1 lo1 hi1 idig1 e1] u(2) by (auto simp: digits_ok_def)
  obtain x i g where c: "collect xi2 lo2 (DNEXT hi2) idig2 (ucast (xi2 ! hi2)) = (x, i, g)" by (cases "collect xi2 lo2 (DNEXT hi2) idig2 (ucast (xi2 ! hi2))")
  have "i < 512" using collect_lt[of "DNEXT hi2" xi2 lo2 idig2 "ucast (xi2 ! hi2)"] c by simp
  then obtain b where "gather xi2 lo2 i = Some b" using gather_returns d(3) by blast
  then have "\<exists>n. dec_collect xi2 lo2 hi2 idig2 e2 neg = Some n" unfolding dec_collect_def by (simp add: c)
  then show ?thesis unfolding dec_slow_def Let_def xs_def[symmetric] idig_def[symmetric] by (simp add: u d)
qed


section \<open>Every scan returns\<close>

lemma dec_pairs_append: "\<exists>ys. fst (dec_pairs s i p xi) = xi @ ys"
proof (induction s i p xi rule: dec_pairs.induct)
  case (1 s i p xi)
  then show ?case by (fastforce simp: Let_def split: prod.splits)
qed auto

lemma dec_simplify_append: "\<exists>ys. fst (dec_simplify xi ex10 dig) = xi @ ys"
proof (induction xi ex10 dig rule: dec_simplify.induct)
  case (1 xi ex10 dig)
  then show ?case
    by (cases "ex10 > 0 \<and> dig \<le> 18") (force simp: dec_simplify.simps[of xi])+
qed

lemma low_nibble: "unat (c AND 15 :: u8) \<le> 15"
proof -
  have "c AND 15 \<le> 15" by (rule word_and_le1)
  then show ?thesis by (simp add: word_le_nat_alt)
qed

lemma pair_nonzero: "a AND 15 \<noteq> (0 :: u8) \<Longrightarrow> 10 * (a AND 15) + (b AND 15) \<noteq> 0 \<and> 10 * (a AND 15) \<noteq> 0"
proof -
  assume "a AND 15 \<noteq> 0"
  then have a: "0 < unat (a AND 15)" by (simp add: unat_gt_0)
  have "unat (10 * (a AND 15)) = 10 * unat (a AND 15)"
    using low_nibble[of a] by (simp add: unat_word_ariths)
  moreover from this have "unat (10 * (a AND 15) + (b AND 15)) = 10 * unat (a AND 15) + unat (b AND 15)"
    using low_nibble[of a] low_nibble[of b] by (simp add: unat_word_ariths)
  ultimately show ?thesis using a by (metis add_is_0 mult_is_0 not_gr0 unat_0 zero_neq_numeral)
qed

lemma hd_set_last_bit: "xi \<noteq> [] \<Longrightarrow> hd xi \<noteq> 0 \<Longrightarrow> hd (set_last_bit xi) \<noteq> 0 \<and> set_last_bit xi \<noteq> []"
  by (cases xi rule: rev_cases; cases xi) (auto simp: set_last_bit_def or_eq_0_iff hd_append)

lemma hd_dec_buffer:
  assumes "0 < dig" and c: "char_at s p \<noteq> 46" "char_at s p AND 15 \<noteq> 0"
  shows "fst (dec_buffer s p dig ex10) \<noteq> [] \<and> hd (fst (dec_buffer s p dig ex10)) \<noteq> 0"
proof -
  define i where "i = (if dig > STRSCAN_MAXDIG then STRSCAN_MAXDIG else dig)"
  define e where "e = (if dig > STRSCAN_MAXDIG then ex10 + int (dig - STRSCAN_MAXDIG) else ex10)"
  have A: "(if dig > STRSCAN_MAXDIG then (STRSCAN_MAXDIG, ex10 + int (dig - STRSCAN_MAXDIG)) else (dig, ex10)) = (i, e)"
    by (simp add: i_def e_def)
  define H where "H = (if odd e \<noteq> odd i then let (d, p) = dec_digit s p in ([d], i - 1, p) else ([], i, p))"
  obtain xi0 i0 p0 where H: "H = (xi0, i0, p0)" by (cases H)
  obtain xi1 i1 p1 where P: "dec_pairs s i0 p0 xi0 = (xi1, i1, p1)" by (cases "dec_pairs s i0 p0 xi0")
  define R where "R = (if i1 \<noteq> 0 then let (d, p) = dec_digit s p1 in (xi1 @ [10 * d], e - 1, dig + 1, p)
             else (xi1, e, dig, p1))"
  obtain xi2 e2 d2 p2 where R: "R = (xi2, e2, d2, p2)" by (cases R)
  have eq: "dec_buffer s p dig ex10 = (if d2 > STRSCAN_MAXDIG then
             (if dec_excess s (d2 - STRSCAN_MAXDIG) p2 then set_last_bit xi2 else xi2, e2, STRSCAN_MAXDIG)
         else dec_simplify xi2 e2 d2)"
    by (simp only: dec_buffer_def Let_def A prod.case H[unfolded H_def Let_def] P R[unfolded R_def Let_def])
  have i: "0 < i" using assms(1) by (simp add: i_def STRSCAN_MAXDIG_def)
  have d: "dec_digit s p = (char_at s p AND 15, p + 1)" using c(1) by (simp add: dec_digit_def next_dig_def)
  have xi2: "xi2 \<noteq> [] \<and> hd xi2 \<noteq> 0"
  proof (cases "odd e \<noteq> odd i")
    case True
    then have "xi0 = [char_at s p AND 15]" using H by (simp add: H_def d)
    moreover obtain ys where "xi1 = xi0 @ ys" using dec_pairs_append[of s i0 p0 xi0] P by auto
    ultimately show ?thesis using R c(2) by (auto simp: R_def split: if_splits prod.splits)
  next
    case False
    then have h: "xi0 = []" "i0 = i" "p0 = p" using H by (simp_all add: H_def)
    show ?thesis
    proof (cases "i = 1")
      case True
      then have "xi1 = []" "i1 = 1" "p1 = p" using P h by simp_all
      then show ?thesis using R pair_nonzero[OF c(2)] by (auto simp: R_def d split: if_splits)
    next
      case False
      then obtain k where k: "i = Suc (Suc k)" using i by (metis One_nat_def not0_implies_Suc not_gr0)
      obtain b q where b: "dec_digit s (p + 1) = (b AND 15, q)"
        by (cases "next_dig s (p + 1)") (simp add: dec_digit_def)
      have "fst (dec_pairs s k q [10 * (char_at s p AND 15) + (b AND 15)]) = xi1"
        using P h k b by (simp add: d)
      then obtain ys where "xi1 = (10 * (char_at s p AND 15) + (b AND 15)) # ys"
        using dec_pairs_append[of s k q "[10 * (char_at s p AND 15) + (b AND 15)]"] by auto
      then show ?thesis using R pair_nonzero[OF c(2), of b] by (auto simp: R_def split: if_splits prod.splits)
    qed
  qed
  obtain ys where "fst (dec_simplify xi2 e2 d2) = xi2 @ ys" using dec_simplify_append by blast
  then show ?thesis using xi2 hd_set_last_bit[of xi2] unfolding eq by auto
qed

lemma strscan_dec_returns:
  assumes "dig \<noteq> 0 \<Longrightarrow> char_at s p \<noteq> 46 \<and> char_at s p AND 15 \<noteq> 0"
  shows "strscan_dec s p fmt opt ex10 neg dig \<noteq> None"
proof (cases "dig = 0")
  case True
  have "dec_fast [0] fmt opt neg 0 \<noteq> None"
    by (cases fmt) (simp_all add: dec_fast_def)
  then show ?thesis using True by (auto simp: strscan_dec_def split: option.splits)
next
  case False
  obtain xi e d where b: "dec_buffer s p dig ex10 = (xi, e, d)" by (cases "dec_buffer s p dig ex10")
  have "xi \<noteq> []" "hd xi \<noteq> 0" using hd_dec_buffer[of dig s p ex10] assms False b by simp_all
  moreover have "length xi \<le> 412" using length_dec_buffer[of dig s p ex10] False b by simp
  ultimately obtain n where "dec_slow xi e neg = Some n" using dec_slow_returns by blast
  then show ?thesis using False b by (auto simp: strscan_dec_def split: option.splits)
qed

lemma skip_zeros_stop: "skip_zeros s p dp h = Some (q, dp', h') \<Longrightarrow> char_at s q \<noteq> 48 \<and> char_at s q \<noteq> 46"
proof (induction s p dp h rule: skip_zeros.induct)
  case (1 s p dp h)
  show ?case
  proof (cases "char_at s p = 48 \<or> char_at s p = 46")
    case True
    then show ?thesis using 1 skip_zeros.simps[of s p dp h] by (auto split: if_splits)
  next
    case False
    then show ?thesis using "1.prems" skip_zeros.simps[of s p dp h] by auto
  qed
qed

lemma u8_digit_cases:
  assumes "48 \<le> unat (c :: u8)" "unat c \<le> 57"
  shows "c \<in> {48, 49, 50, 51, 52, 53, 54, 55, 56, 57}"
proof -
  have "unat c = 48 \<or> unat c = 49 \<or> unat c = 50 \<or> unat c = 51 \<or> unat c = 52 \<or> unat c = 53 \<or>
        unat c = 54 \<or> unat c = 55 \<or> unat c = 56 \<or> unat c = 57" using assms by arith
  then show ?thesis by (simp add: word_unat_eq_iff)
qed

lemma digit_nibble: "lj_char_isa (uint c) LJ_CHAR_DIGIT \<noteq> 0 \<Longrightarrow> c \<noteq> 48 \<Longrightarrow> c \<noteq> 46 \<and> c AND (15 :: u8) \<noteq> 0"
proof -
  assume c: "lj_char_isa (uint c) LJ_CHAR_DIGIT \<noteq> 0" "c \<noteq> 48"
  then have "lj_char_isdigit (uint c)" by (simp add: lj_char_isdigit_def)
  then have "48 \<le> c" "c \<le> 57" using u8_digit_iff by blast+
  then have "48 \<le> unat c" "unat c \<le> 57" by (simp_all add: word_le_nat_alt)
  then show ?thesis using u8_digit_cases[of c] c(2) by auto
qed

lemma scan_digits_first:
  assumes "scan_digits s LJ_CHAR_DIGIT p dp x d = Some (q, dp', x', d')" "d' \<noteq> d"
    and c: "char_at s p \<noteq> 48" "char_at s p \<noteq> 46"
  shows "char_at s p AND 15 \<noteq> 0"
proof (cases "p < length s \<and> lj_char_isa (uint (char_at s p)) LJ_CHAR_DIGIT \<noteq> 0")
  case True
  then show ?thesis using digit_nibble[of "char_at s p"] c by simp
next
  case False
  then show ?thesis using assms scan_digits.simps[of s LJ_CHAR_DIGIT p dp x d] by auto
qed

lemma trailing_zeros_dig: "snd (trailing_zeros s p n d) \<le> d"
  by (induction s p n d rule: trailing_zeros.induct) auto

lemma scan_point_dig: "snd (snd (scan_point s p dp base 0)) = 0"
  by (auto simp: scan_point_def split: option.splits)

lemma scan_value_returns:
  assumes "base \<noteq> 16 \<Longrightarrow> dig \<noteq> 0 \<Longrightarrow> char_at s sp \<noteq> 46 \<and> char_at s sp AND 15 \<noteq> 0"
  shows "scan_value s sp fmt opt base ex neg dig x \<noteq> None"
proof -
  have d: "base \<noteq> 16 \<Longrightarrow> strscan_dec s sp fmt opt ex neg dig \<noteq> None"
    using strscan_dec_returns[of dig s sp] assms by blast
  define r where "r = (if base = 16 then Some (strscan_hex s sp fmt opt ex neg dig)
      else strscan_dec s sp fmt opt ex neg dig)"
  have "r \<noteq> None" using d by (simp add: r_def)
  then obtain f v where r: "r = Some (f, v)" by (cases r) auto
  show ?thesis unfolding scan_value_def r_def[symmetric] r by (auto simp: Let_def split: StrScanVal.split)
qed

lemma scan_regular_returns: "scan_regular s p neg opt \<noteq> None"
proof -
  define hex where "hex \<longleftrightarrow> char_at s p = 48 \<and> casecmp (char_at s (p + 1)) 120"
  define base where "base = (if hex then 16 else if opt AND STRSCAN_OPT_C \<noteq> 0 \<and> char_at s p = 48 then 0 else 10 :: nat)"
  define cmask where "cmask = (if hex then LJ_CHAR_XDIGIT else LJ_CHAR_DIGIT)"
  define p0 where "p0 = (if hex then p + 2 else p)"
  define z where "z = (if char_at s p \<le> 48 then skip_zeros s p0 None False else Some (p, None, False))"
  have eq: "scan_regular s p neg opt = (case z of
           None \<Rightarrow> Some (STRSCAN_ERROR, SV_none)
         | Some (sp, dp, hasdig) \<Rightarrow>
             (case scan_digits s cmask sp dp 0 0 of
                None \<Rightarrow> Some (STRSCAN_ERROR, SV_none)
              | Some (p, dp, x, dig) \<Rightarrow>
                  if \<not> hasdig \<and> dig = 0 then Some (STRSCAN_ERROR, SV_none)
                  else
                    let (fmt, ex, dig') = scan_point s p dp base dig in
                    case scan_exp s p base of
                      None \<Rightarrow> Some (STRSCAN_ERROR, SV_none)
                    | Some f \<Rightarrow>
                        let (fmt, xx, p) = f fmt in
                        case scan_suffix s p fmt opt of
                          None \<Rightarrow> Some (STRSCAN_ERROR, SV_none)
                        | Some fmt \<Rightarrow> scan_value s sp fmt opt base (ex + xx) neg dig' x))"
  proof -
    have T: "(if char_at s p = 48 \<and> casecmp (char_at s (p + 1)) 120 then (16, LJ_CHAR_XDIGIT, p + 2)
        else (if opt AND STRSCAN_OPT_C \<noteq> 0 \<and> char_at s p = 48 then 0 else 10, LJ_CHAR_DIGIT, p)) = (base, cmask, p0)"
      by (simp add: hex_def base_def cmask_def p0_def)
    show ?thesis by (simp only: scan_regular_def Let_def T prod.case z_def)
  qed
  show ?thesis
  proof (cases z)
    case None
    then show ?thesis unfolding eq by simp
  next
    case (Some a)
    then obtain sp dp hasdig where z: "z = Some (sp, dp, hasdig)" by (cases a) auto
    have stop: "char_at s sp \<noteq> 48 \<and> char_at s sp \<noteq> 46"
    proof (cases "char_at s p \<le> 48")
      case True
      then show ?thesis using z skip_zeros_stop[of s p0 None False sp dp hasdig] by (simp add: z_def)
    next
      case False
      then have "char_at s p \<noteq> 46" "char_at s p \<noteq> 48" "sp = p" using z by (auto simp: z_def)
      then show ?thesis by simp
    qed
    show ?thesis
    proof (cases "scan_digits s cmask sp dp 0 0")
      case None
      then show ?thesis unfolding eq z by simp
    next
      case (Some b)
      then obtain q dp' x dig where d: "scan_digits s cmask sp dp 0 0 = Some (q, dp', x, dig)" by (cases b) auto
      obtain fmt ex dig' where pt: "scan_point s q dp' base dig = (fmt, ex, dig')"
        by (cases "scan_point s q dp' base dig")
      have "char_at s sp \<noteq> 46 \<and> char_at s sp AND 15 \<noteq> 0" if "base \<noteq> 16" "dig' \<noteq> 0"
      proof -
        have "dig \<noteq> 0" using that(2) pt scan_point_dig[of s q dp' base] by (cases dig) auto
        moreover have "cmask = LJ_CHAR_DIGIT" using that(1) by (auto simp: base_def cmask_def)
        ultimately show ?thesis using scan_digits_first[of s sp dp 0 0 q dp' x dig] d stop by simp
      qed
      then have v: "scan_value s sp f opt base e neg dig' x \<noteq> None" for f e
        using scan_value_returns[of base dig' s sp] by blast
      show ?thesis unfolding eq z using d pt v by (auto simp: Let_def split: option.split prod.split)
    qed
  qed
qed

lemma lj_strscan_scan_returns: "\<exists>fmt v. lj_strscan_scan s opt = Some (fmt, v)"
proof -
  have "lj_strscan_scan s opt \<noteq> None"
    using scan_regular_returns by (simp add: lj_strscan_scan_def Let_def)
  then show ?thesis by (cases "lj_strscan_scan s opt") auto
qed

text \<open>C21: The scanner returns for every string and every option set: none of its loops, those of
  the slow decimal path (scaling a base 100 number by 64 in a circular buffer until it has the right magnitude)
  included, can run forever.\<close>

theorem lj_strscan_scan_total: "\<exists>fmt v. lj_strscan_scan s opt = Some (fmt, v)"
  by (rule lj_strscan_scan_returns)

text \<open>C24: The string-to-number conversion of the interpreter returns for every string, and it fails exactly
  when the scanner reports an error; in every other case the slot holds a double, never a bare integer.\<close>

theorem lj_strscan_num_decides:
  "\<exists>r. lj_strscan_num s = Some r \<and> (r = None \<longleftrightarrow> lj_strscan_scan s STRSCAN_OPT_TONUM = Some (STRSCAN_ERROR, SV_none))"
proof -
  obtain f v where r: "lj_strscan_scan s STRSCAN_OPT_TONUM = Some (f, v)"
    using lj_strscan_scan_returns by blast
  then show ?thesis using scan_tonum[OF r] by (auto simp: lj_strscan_num_def)
qed

end
