(* ===== verification/LJ_IR.thy ===== *)
theory LJ_IR
  imports LJ_Dbl LJ_CArith
begin

text \<open>
  The SSA intermediate representation of traces (\<^verbatim>\<open>lj_ir.h\<close>, \<^verbatim>\<open>lj_ir.c\<close>): opcodes with their mode
  bits, result types, instructions, the interning of constants, the emitter with its buffer limits, the
  per-opcode chains, common-subexpression elimination (\<^verbatim>\<open>lj_opt_fold.c\<close>) and roll-back.

  References are natural numbers around \<open>REF_BIAS\<close>: constants grow downwards from it, instructions upwards.
  The biased instruction array \<open>J->cur.ir\<close> is the function \<open>J_ir\<close>; only the references from \<open>nk\<close> up to
  \<open>nins\<close> are in use. A tagged reference carries a copy of the type of the instruction it refers to, so the
  bare reference stands for it here.
\<close>

section \<open>Opcodes and modes\<close>

text \<open>
  The opcodes are numbers, as in the code, which flips comparisons with \<open>o ^ 1\<close> and \<open>o ^ 3\<close> and takes differences of
  opcodes.
\<close>

type_synonym IROp = nat

abbreviation IR_LT :: IROp where "IR_LT \<equiv> 0"
abbreviation IR_GE :: IROp where "IR_GE \<equiv> 1"
abbreviation IR_LE :: IROp where "IR_LE \<equiv> 2"
abbreviation IR_GT :: IROp where "IR_GT \<equiv> 3"
abbreviation IR_ULT :: IROp where "IR_ULT \<equiv> 4"
abbreviation IR_UGE :: IROp where "IR_UGE \<equiv> 5"
abbreviation IR_ULE :: IROp where "IR_ULE \<equiv> 6"
abbreviation IR_UGT :: IROp where "IR_UGT \<equiv> 7"
abbreviation IR_EQ :: IROp where "IR_EQ \<equiv> 8"
abbreviation IR_NE :: IROp where "IR_NE \<equiv> 9"
abbreviation IR_ABC :: IROp where "IR_ABC \<equiv> 10"
abbreviation IR_RETF :: IROp where "IR_RETF \<equiv> 11"
abbreviation IR_NOP :: IROp where "IR_NOP \<equiv> 12"
abbreviation IR_BASE :: IROp where "IR_BASE \<equiv> 13"
abbreviation IR_PVAL :: IROp where "IR_PVAL \<equiv> 14"
abbreviation IR_GCSTEP :: IROp where "IR_GCSTEP \<equiv> 15"
abbreviation IR_HIOP :: IROp where "IR_HIOP \<equiv> 16"
abbreviation IR_LOOP :: IROp where "IR_LOOP \<equiv> 17"
abbreviation IR_USE :: IROp where "IR_USE \<equiv> 18"
abbreviation IR_PHI :: IROp where "IR_PHI \<equiv> 19"
abbreviation IR_RENAME :: IROp where "IR_RENAME \<equiv> 20"
abbreviation IR_PROF :: IROp where "IR_PROF \<equiv> 21"
abbreviation IR_KPRI :: IROp where "IR_KPRI \<equiv> 22"
abbreviation IR_KINT :: IROp where "IR_KINT \<equiv> 23"
abbreviation IR_KGC :: IROp where "IR_KGC \<equiv> 24"
abbreviation IR_KPTR :: IROp where "IR_KPTR \<equiv> 25"
abbreviation IR_KKPTR :: IROp where "IR_KKPTR \<equiv> 26"
abbreviation IR_KNULL :: IROp where "IR_KNULL \<equiv> 27"
abbreviation IR_KNUM :: IROp where "IR_KNUM \<equiv> 28"
abbreviation IR_KINT64 :: IROp where "IR_KINT64 \<equiv> 29"
abbreviation IR_KSLOT :: IROp where "IR_KSLOT \<equiv> 30"
abbreviation IR_BNOT :: IROp where "IR_BNOT \<equiv> 31"
abbreviation IR_BSWAP :: IROp where "IR_BSWAP \<equiv> 32"
abbreviation IR_BAND :: IROp where "IR_BAND \<equiv> 33"
abbreviation IR_BOR :: IROp where "IR_BOR \<equiv> 34"
abbreviation IR_BXOR :: IROp where "IR_BXOR \<equiv> 35"
abbreviation IR_BSHL :: IROp where "IR_BSHL \<equiv> 36"
abbreviation IR_BSHR :: IROp where "IR_BSHR \<equiv> 37"
abbreviation IR_BSAR :: IROp where "IR_BSAR \<equiv> 38"
abbreviation IR_BROL :: IROp where "IR_BROL \<equiv> 39"
abbreviation IR_BROR :: IROp where "IR_BROR \<equiv> 40"
abbreviation IR_ADD :: IROp where "IR_ADD \<equiv> 41"
abbreviation IR_SUB :: IROp where "IR_SUB \<equiv> 42"
abbreviation IR_MUL :: IROp where "IR_MUL \<equiv> 43"
abbreviation IR_DIV :: IROp where "IR_DIV \<equiv> 44"
abbreviation IR_MOD :: IROp where "IR_MOD \<equiv> 45"
abbreviation IR_POW :: IROp where "IR_POW \<equiv> 46"
abbreviation IR_NEG :: IROp where "IR_NEG \<equiv> 47"
abbreviation IR_ABS :: IROp where "IR_ABS \<equiv> 48"
abbreviation IR_ATAN2 :: IROp where "IR_ATAN2 \<equiv> 49"
abbreviation IR_LDEXP :: IROp where "IR_LDEXP \<equiv> 50"
abbreviation IR_MIN :: IROp where "IR_MIN \<equiv> 51"
abbreviation IR_MAX :: IROp where "IR_MAX \<equiv> 52"
abbreviation IR_FPMATH :: IROp where "IR_FPMATH \<equiv> 53"
abbreviation IR_ADDOV :: IROp where "IR_ADDOV \<equiv> 54"
abbreviation IR_SUBOV :: IROp where "IR_SUBOV \<equiv> 55"
abbreviation IR_MULOV :: IROp where "IR_MULOV \<equiv> 56"
abbreviation IR_AREF :: IROp where "IR_AREF \<equiv> 57"
abbreviation IR_HREFK :: IROp where "IR_HREFK \<equiv> 58"
abbreviation IR_HREF :: IROp where "IR_HREF \<equiv> 59"
abbreviation IR_NEWREF :: IROp where "IR_NEWREF \<equiv> 60"
abbreviation IR_UREFO :: IROp where "IR_UREFO \<equiv> 61"
abbreviation IR_UREFC :: IROp where "IR_UREFC \<equiv> 62"
abbreviation IR_FREF :: IROp where "IR_FREF \<equiv> 63"
abbreviation IR_STRREF :: IROp where "IR_STRREF \<equiv> 64"
abbreviation IR_LREF :: IROp where "IR_LREF \<equiv> 65"
abbreviation IR_ALOAD :: IROp where "IR_ALOAD \<equiv> 66"
abbreviation IR_HLOAD :: IROp where "IR_HLOAD \<equiv> 67"
abbreviation IR_ULOAD :: IROp where "IR_ULOAD \<equiv> 68"
abbreviation IR_FLOAD :: IROp where "IR_FLOAD \<equiv> 69"
abbreviation IR_XLOAD :: IROp where "IR_XLOAD \<equiv> 70"
abbreviation IR_SLOAD :: IROp where "IR_SLOAD \<equiv> 71"
abbreviation IR_VLOAD :: IROp where "IR_VLOAD \<equiv> 72"
abbreviation IR_ASTORE :: IROp where "IR_ASTORE \<equiv> 73"
abbreviation IR_HSTORE :: IROp where "IR_HSTORE \<equiv> 74"
abbreviation IR_USTORE :: IROp where "IR_USTORE \<equiv> 75"
abbreviation IR_FSTORE :: IROp where "IR_FSTORE \<equiv> 76"
abbreviation IR_XSTORE :: IROp where "IR_XSTORE \<equiv> 77"
abbreviation IR_SNEW :: IROp where "IR_SNEW \<equiv> 78"
abbreviation IR_XSNEW :: IROp where "IR_XSNEW \<equiv> 79"
abbreviation IR_TNEW :: IROp where "IR_TNEW \<equiv> 80"
abbreviation IR_TDUP :: IROp where "IR_TDUP \<equiv> 81"
abbreviation IR_CNEW :: IROp where "IR_CNEW \<equiv> 82"
abbreviation IR_CNEWI :: IROp where "IR_CNEWI \<equiv> 83"
abbreviation IR_BUFHDR :: IROp where "IR_BUFHDR \<equiv> 84"
abbreviation IR_BUFPUT :: IROp where "IR_BUFPUT \<equiv> 85"
abbreviation IR_BUFSTR :: IROp where "IR_BUFSTR \<equiv> 86"
abbreviation IR_TBAR :: IROp where "IR_TBAR \<equiv> 87"
abbreviation IR_OBAR :: IROp where "IR_OBAR \<equiv> 88"
abbreviation IR_XBAR :: IROp where "IR_XBAR \<equiv> 89"
abbreviation IR_CONV :: IROp where "IR_CONV \<equiv> 90"
abbreviation IR_TOBIT :: IROp where "IR_TOBIT \<equiv> 91"
abbreviation IR_TOSTR :: IROp where "IR_TOSTR \<equiv> 92"
abbreviation IR_STRTO :: IROp where "IR_STRTO \<equiv> 93"
abbreviation IR_CALLN :: IROp where "IR_CALLN \<equiv> 94"
abbreviation IR_CALLA :: IROp where "IR_CALLA \<equiv> 95"
abbreviation IR_CALLL :: IROp where "IR_CALLL \<equiv> 96"
abbreviation IR_CALLS :: IROp where "IR_CALLS \<equiv> 97"
abbreviation IR_CALLXS :: IROp where "IR_CALLXS \<equiv> 98"
abbreviation IR_CARG :: IROp where "IR_CARG \<equiv> 99"

text \<open>The mode bits of \<^verbatim>\<open>lj_ir.h\<close>.\<close>

datatype IRMode = IRMref | IRMlit | IRMcst | IRMnone

fun irmode_num :: "IRMode \<Rightarrow> u8" where
  "irmode_num IRMref = 0"
| "irmode_num IRMlit = 1"
| "irmode_num IRMcst = 2"
| "irmode_num IRMnone = 3"

type_synonym IRM = u8

definition IRM_C :: IRM where "IRM_C = 0x10"
definition IRM_N :: IRM where "IRM_N = 0x00"
definition IRM_R :: IRM where "IRM_R = IRM_N"
definition IRM_A :: IRM where "IRM_A = 0x20"
definition IRM_L :: IRM where "IRM_L = 0x40"
definition IRM_S :: IRM where "IRM_S = 0x60"
definition IRM_W :: IRM where "IRM_W = 0x80"
definition IRM_NW :: IRM where "IRM_NW = IRM_N OR IRM_W"
definition IRM_CW :: IRM where "IRM_CW = IRM_C OR IRM_W"
definition IRM_AW :: IRM where "IRM_AW = IRM_A OR IRM_W"
definition IRM_LW :: IRM where "IRM_LW = IRM_L OR IRM_W"

lemmas irm_defs = IRM_C_def IRM_N_def IRM_R_def IRM_A_def IRM_L_def IRM_S_def IRM_W_def
  IRM_NW_def IRM_CW_def IRM_AW_def IRM_LW_def

text \<open>The table, in the order of the opcodes.\<close>

definition IRDEF :: "(IRM \<times> IRMode \<times> IRMode) list" where
  "IRDEF =
    [(IRM_N, IRMref, IRMref), (IRM_N, IRMref, IRMref), (IRM_N, IRMref, IRMref), (IRM_N, IRMref, IRMref),
     (IRM_N, IRMref, IRMref), (IRM_N, IRMref, IRMref), (IRM_N, IRMref, IRMref), (IRM_N, IRMref, IRMref),
     (IRM_C, IRMref, IRMref), (IRM_C, IRMref, IRMref), (IRM_N, IRMref, IRMref), (IRM_S, IRMref, IRMref),
     (IRM_N, IRMnone, IRMnone), (IRM_N, IRMlit, IRMlit), (IRM_N, IRMlit, IRMnone),
     (IRM_S, IRMnone, IRMnone), (IRM_S, IRMref, IRMref), (IRM_S, IRMnone, IRMnone),
     (IRM_S, IRMref, IRMnone), (IRM_S, IRMref, IRMref), (IRM_S, IRMref, IRMlit),
     (IRM_S, IRMnone, IRMnone), (IRM_N, IRMnone, IRMnone), (IRM_N, IRMcst, IRMnone),
     (IRM_N, IRMcst, IRMnone), (IRM_N, IRMcst, IRMnone), (IRM_N, IRMcst, IRMnone),
     (IRM_N, IRMcst, IRMnone), (IRM_N, IRMcst, IRMnone), (IRM_N, IRMcst, IRMnone),
     (IRM_N, IRMref, IRMlit), (IRM_N, IRMref, IRMnone), (IRM_N, IRMref, IRMnone),
     (IRM_C, IRMref, IRMref), (IRM_C, IRMref, IRMref), (IRM_C, IRMref, IRMref), (IRM_N, IRMref, IRMref),
     (IRM_N, IRMref, IRMref), (IRM_N, IRMref, IRMref), (IRM_N, IRMref, IRMref), (IRM_N, IRMref, IRMref),
     (IRM_C, IRMref, IRMref), (IRM_N, IRMref, IRMref), (IRM_C, IRMref, IRMref), (IRM_N, IRMref, IRMref),
     (IRM_N, IRMref, IRMref), (IRM_N, IRMref, IRMref), (IRM_N, IRMref, IRMref), (IRM_N, IRMref, IRMref),
     (IRM_N, IRMref, IRMref), (IRM_N, IRMref, IRMref), (IRM_C, IRMref, IRMref), (IRM_C, IRMref, IRMref),
     (IRM_N, IRMref, IRMlit), (IRM_CW, IRMref, IRMref), (IRM_NW, IRMref, IRMref),
     (IRM_CW, IRMref, IRMref), (IRM_R, IRMref, IRMref), (IRM_R, IRMref, IRMref),
     (IRM_L, IRMref, IRMref), (IRM_S, IRMref, IRMref), (IRM_LW, IRMref, IRMlit),
     (IRM_LW, IRMref, IRMlit), (IRM_R, IRMref, IRMlit), (IRM_N, IRMref, IRMref),
     (IRM_L, IRMnone, IRMnone), (IRM_L, IRMref, IRMnone), (IRM_L, IRMref, IRMnone),
     (IRM_L, IRMref, IRMnone), (IRM_L, IRMref, IRMlit), (IRM_L, IRMref, IRMlit),
     (IRM_L, IRMlit, IRMlit), (IRM_L, IRMref, IRMnone), (IRM_S, IRMref, IRMref),
     (IRM_S, IRMref, IRMref), (IRM_S, IRMref, IRMref), (IRM_S, IRMref, IRMref), (IRM_S, IRMref, IRMref),
     (IRM_N, IRMref, IRMref), (IRM_A, IRMref, IRMref), (IRM_AW, IRMlit, IRMlit),
     (IRM_AW, IRMref, IRMnone), (IRM_AW, IRMref, IRMref), (IRM_NW, IRMref, IRMref),
     (IRM_L, IRMref, IRMlit), (IRM_L, IRMref, IRMref), (IRM_A, IRMref, IRMref),
     (IRM_S, IRMref, IRMnone), (IRM_S, IRMref, IRMref), (IRM_S, IRMnone, IRMnone),
     (IRM_NW, IRMref, IRMlit), (IRM_N, IRMref, IRMref), (IRM_N, IRMref, IRMlit),
     (IRM_N, IRMref, IRMnone), (IRM_N, IRMref, IRMlit), (IRM_A, IRMref, IRMlit),
     (IRM_L, IRMref, IRMlit), (IRM_S, IRMref, IRMlit), (IRM_S, IRMref, IRMref), (IRM_N, IRMref, IRMref)]"

definition lj_ir_mode :: "IROp \<Rightarrow> u8" where
  "lj_ir_mode op =
     (if op < length IRDEF then
        let (m, m1, m2) = IRDEF ! op in (irmode_num m1 OR push_bit 2 (irmode_num m2) OR m) XOR IRM_W
      else 0)"

definition irm_op1 :: "u8 \<Rightarrow> u8" where "irm_op1 m = m AND 3"
definition irm_op2 :: "u8 \<Rightarrow> u8" where "irm_op2 m = drop_bit 2 m AND 3"
definition irm_iscomm :: "u8 \<Rightarrow> bool" where "irm_iscomm m = (m AND IRM_C \<noteq> 0)"
definition irm_kind :: "u8 \<Rightarrow> u8" where "irm_kind m = m AND IRM_S"

section \<open>Types\<close>

datatype IRType =
    IRT_NIL | IRT_FALSE | IRT_TRUE | IRT_LIGHTUD | IRT_STR | IRT_P32 | IRT_THREAD | IRT_PROTO | IRT_FUNC
  | IRT_P64 | IRT_CDATA | IRT_TAB | IRT_UDATA | IRT_FLOAT | IRT_NUM | IRT_I8 | IRT_U8 | IRT_I16 | IRT_U16
  | IRT_INT | IRT_U32 | IRT_I64 | IRT_U64 | IRT_SOFTFP

definition IRTDEF :: "(IRType \<times> nat) list" where
  "IRTDEF =
    [(IRT_NIL, 4), (IRT_FALSE, 4), (IRT_TRUE, 4), (IRT_LIGHTUD, 8), (IRT_STR, 4),
     (IRT_P32, 4), (IRT_THREAD, 4), (IRT_PROTO, 4), (IRT_FUNC, 4), (IRT_P64, 8), (IRT_CDATA, 4),
     (IRT_TAB, 4), (IRT_UDATA, 4),
     (IRT_FLOAT, 4), (IRT_NUM, 8), (IRT_I8, 1), (IRT_U8, 1), (IRT_I16, 2), (IRT_U16, 2),
     (IRT_INT, 4), (IRT_U32, 4), (IRT_I64, 8), (IRT_U64, 8),
     (IRT_SOFTFP, 4)]"

fun index_of :: "'a \<Rightarrow> 'a list \<Rightarrow> nat" where
  "index_of x [] = 0"
| "index_of x (y # ys) = (if x = y then 0 else Suc (index_of x ys))"

definition irt_num :: "IRType \<Rightarrow> nat" where
  "irt_num t = index_of t (map fst IRTDEF)"

definition lj_ir_type_size :: "IRType \<Rightarrow> nat" where
  "lj_ir_type_size t = the (map_of IRTDEF t)"

text \<open>A result type with its flags (one byte in the code).\<close>

record IRType1 =
  irt_type :: IRType
  irt_ismarked :: bool
  irt_isphi :: bool
  irt_isguard :: bool

definition mk_irt :: "IRType \<Rightarrow> IRType1" where
  "mk_irt t = \<lparr> irt_type = t, irt_ismarked = False, irt_isphi = False, irt_isguard = False \<rparr>"

definition irt_byte :: "IRType1 \<Rightarrow> u8" where
  "irt_byte t = word_of_nat (irt_num (irt_type t)) OR (if irt_ismarked t then 0x20 else 0)
     OR (if irt_isphi t then 0x40 else 0) OR (if irt_isguard t then 0x80 else 0)"

definition irt_isnum :: "IRType1 \<Rightarrow> bool" where "irt_isnum t = (irt_type t = IRT_NUM)"
definition irt_isint :: "IRType1 \<Rightarrow> bool" where "irt_isint t = (irt_type t = IRT_INT)"
definition irt_isi64 :: "IRType1 \<Rightarrow> bool" where "irt_isi64 t = (irt_type t = IRT_I64)"
definition irt_isu8 :: "IRType1 \<Rightarrow> bool" where "irt_isu8 t = (irt_type t = IRT_U8)"
definition irt_isu16 :: "IRType1 \<Rightarrow> bool" where "irt_isu16 t = (irt_type t = IRT_U16)"

definition irt_is64 :: "IRType1 \<Rightarrow> bool" where
  "irt_is64 t = (irt_type t \<in> {IRT_NUM, IRT_I64, IRT_U64, IRT_P64, IRT_LIGHTUD})"

lemmas irt_defs = irt_isnum_def irt_isint_def irt_isi64_def irt_isu8_def irt_isu16_def irt_is64_def

section \<open>Instructions and the state of the compiler\<close>

definition REF_BIAS :: nat where "REF_BIAS = 0x8000"
definition REF_TRUE :: nat where "REF_TRUE = REF_BIAS - 3"
definition REF_FALSE :: nat where "REF_FALSE = REF_BIAS - 2"
definition REF_NIL :: nat where "REF_NIL = REF_BIAS - 1"
definition REF_BASE :: nat where "REF_BASE = REF_BIAS"
definition REF_FIRST :: nat where "REF_FIRST = REF_BIAS + 1"
definition REF_DROP :: nat where "REF_DROP = 0xffff"

definition irref_isk :: "nat \<Rightarrow> bool" where "irref_isk ref = (ref < REF_BIAS)"

text \<open>
  The members of the union that overlap the operands: a literal integer, a GC object (strings are interned, so
  a string object is its content), a pointer, or the address of a 64 bit constant: an element of the
  chained arrays \<open>J->k64\<close> or one of the fixed SIMD constants.
\<close>

datatype KAddr = K64_at nat nat | KSIMD_ABS | KSIMD_NEG

datatype GCobj = GCO_str bytes | GCO_other nat

datatype IRVal = IV_none | IV_i u32 | IV_gc GCobj | IV_ptr u64 | IV_k64 KAddr

record IRIns =
  ir_op1 :: nat
  ir_op2 :: nat
  ir_t :: IRType1
  ir_o :: IROp
  ir_prev :: nat
  ir_val :: IRVal

record ScEvEntry =
  scev_idx :: nat
  scev_start :: nat
  scev_stop :: nat
  scev_dir :: bool

text \<open>An entry of the backpropagation cache for narrowing conversions.\<close>

record BPropEntry =
  bp_key :: nat
  bp_val :: nat
  bp_mode :: nat

record jit_State =
  J_ir :: "nat \<Rightarrow> IRIns"
  J_nk :: nat
  J_nins :: nat
  J_irbotlim :: nat
  J_irtoplim :: nat
  J_chain :: "IROp \<Rightarrow> nat"
  J_flags :: u32
  J_guardemit :: bool
  J_k64 :: "u64 list list"
  J_scev :: ScEvEntry
  J_slot :: "nat \<Rightarrow> nat"
  J_bpropcache :: "BPropEntry list"
  J_bpropslot :: nat
  J_ins :: IRIns
  J_left :: IRIns
  J_right :: IRIns

definition JIT_F_OPT_FOLD :: u32 where "JIT_F_OPT_FOLD = 0x00010000"
definition JIT_F_OPT_CSE :: u32 where "JIT_F_OPT_CSE = 0x00020000"
definition JIT_F_OPT_DCE :: u32 where "JIT_F_OPT_DCE = 0x00040000"
definition JIT_F_OPT_FWD :: u32 where "JIT_F_OPT_FWD = 0x00080000"
definition JIT_F_OPT_DSE :: u32 where "JIT_F_OPT_DSE = 0x00100000"
definition JIT_F_OPT_NARROW :: u32 where "JIT_F_OPT_NARROW = 0x00200000"
definition JIT_F_OPT_ABC :: u32 where "JIT_F_OPT_ABC = 0x00800000"

text \<open>Reading the constants of instructions; the checks of the opcode are assertions of the code.\<close>

definition k64_value :: "jit_State \<Rightarrow> KAddr \<Rightarrow> u64" where
  "k64_value J a =
     (case a of K64_at i j \<Rightarrow> J_k64 J ! i ! j | KSIMD_ABS \<Rightarrow> 0x7fffffffffffffff | KSIMD_NEG \<Rightarrow> 0x8000000000000000)"

definition ins_i :: "IRIns \<Rightarrow> u32" where
  "ins_i ir = (case ir_val ir of IV_i k \<Rightarrow> k | _ \<Rightarrow> 0)"

definition ir_k64 :: "jit_State \<Rightarrow> IRIns \<Rightarrow> u64" where
  "ir_k64 J ir = (case ir_val ir of IV_k64 a \<Rightarrow> k64_value J a | _ \<Rightarrow> 0)"

definition ir_kstr :: "IRIns \<Rightarrow> bytes" where
  "ir_kstr ir = (case ir_val ir of IV_gc (GCO_str s) \<Rightarrow> s | _ \<Rightarrow> [])"

text \<open>A store, or another op with a guard that is not weak, has a side effect.\<close>

definition ir_sideeff :: "IRIns \<Rightarrow> bool" where
  "ir_sideeff ir = ((irt_byte (ir_t ir) OR NOT 0x80) AND lj_ir_mode (ir_o ir) \<ge> IRM_S)"

section \<open>The emitter\<close>

definition LJ_MIN_IRSZ :: nat where "LJ_MIN_IRSZ = 32"
definition LJ_MIN_K64SZ :: nat where "LJ_MIN_K64SZ = 16"

text \<open>Growing the buffer moves the memory and the limits; the contents stay at their references.\<close>

definition lj_ir_growtop :: "jit_State \<Rightarrow> jit_State" where
  "lj_ir_growtop J =
     (let szins = J_irtoplim J - J_irbotlim J in
      if szins \<noteq> 0 then J\<lparr>J_irtoplim := J_irbotlim J + 2 * szins\<rparr>
      else J\<lparr>J_irbotlim := REF_BASE - LJ_MIN_IRSZ div 4,
             J_irtoplim := REF_BASE - LJ_MIN_IRSZ div 4 + LJ_MIN_IRSZ\<rparr>)"

definition lj_ir_growbot :: "jit_State \<Rightarrow> jit_State" where
  "lj_ir_growbot J =
     (let szins = J_irtoplim J - J_irbotlim J in
      if J_nins J + szins div 2 < J_irtoplim J then
        let ofs = szins div 4 in J\<lparr>J_irbotlim := J_irbotlim J - ofs, J_irtoplim := J_irtoplim J - ofs\<rparr>
      else
        let ofs = (if szins \<ge> 256 then 128 else szins div 2)
        in J\<lparr>J_irbotlim := J_irbotlim J - ofs, J_irtoplim := J_irbotlim J - ofs + 2 * szins\<rparr>)"

definition lj_ir_nextins :: "jit_State \<Rightarrow> nat \<times> jit_State" where
  "lj_ir_nextins J =
     (let ref = J_nins J;
          J = (if ref \<ge> J_irtoplim J then lj_ir_growtop J else J)
      in (ref, J\<lparr>J_nins := ref + 1\<rparr>))"

definition set_ir :: "nat \<Rightarrow> IRIns \<Rightarrow> jit_State \<Rightarrow> jit_State" where
  "set_ir ref ins J = J\<lparr>J_ir := (J_ir J)(ref := ins)\<rparr>"

definition set_chain :: "IROp \<Rightarrow> nat \<Rightarrow> jit_State \<Rightarrow> jit_State" where
  "set_chain op ref J = J\<lparr>J_chain := (J_chain J)(op := ref)\<rparr>"

definition lj_ir_emit :: "jit_State \<Rightarrow> nat \<times> jit_State" where
  "lj_ir_emit J =
     (let (ref, J) = lj_ir_nextins J; fins = J_ins J; op = ir_o fins;
          ins = fins\<lparr>ir_prev := J_chain J op\<rparr>
      in (ref, (set_chain op ref (set_ir ref ins J))\<lparr>J_guardemit := J_guardemit J \<or> irt_isguard (ir_t fins)\<rparr>))"

section \<open>Interning of constants\<close>

definition ir_nextk :: "jit_State \<Rightarrow> nat \<times> jit_State" where
  "ir_nextk J =
     (let ref = J_nk J;
          J = (if ref \<le> J_irbotlim J then lj_ir_growbot J else J)
      in (ref - 1, J\<lparr>J_nk := ref - 1\<rparr>))"

text \<open>
  The walk along the chain of an opcode for an instruction that satisfies \<open>P\<close>, down to the reference \<open>lim\<close>.
  Links of instructions lead to lower references, links of constants to higher ones below
  \<open>REF_BIAS\<close>; a link that does not is a corrupted chain, on which the model ends the walk (see \<open>chains_ok\<close>).
\<close>

function walk :: "(nat \<Rightarrow> IRIns) \<Rightarrow> (nat \<Rightarrow> IRIns \<Rightarrow> bool) \<Rightarrow> nat \<Rightarrow> nat \<Rightarrow> nat option" where
  "walk ir P lim ref =
     (if ref \<le> lim then None
      else if P ref (ir ref) then Some ref
      else if ir_prev (ir ref) < ref then walk ir P lim (ir_prev (ir ref))
      else None)"
  by pat_completeness auto
termination by (relation "measure (\<lambda>(ir, P, lim, ref). ref)") auto

function walk_k :: "(nat \<Rightarrow> IRIns) \<Rightarrow> (IRIns \<Rightarrow> bool) \<Rightarrow> nat \<Rightarrow> nat option" where
  "walk_k ir P ref =
     (if ref = 0 then None
      else if P (ir ref) then Some ref
      else if ir_prev (ir ref) = 0 \<or> ref < ir_prev (ir ref) \<and> ir_prev (ir ref) < REF_BIAS
        then walk_k ir P (ir_prev (ir ref))
      else None)"
  by pat_completeness auto
termination
  by (relation "measure (\<lambda>(ir, P, ref). if ref = 0 then 0 else Suc (REF_BIAS - ref))") (auto split: if_splits)

declare walk.simps [simp del] walk_k.simps [simp del]

text \<open>The common part of the interning functions: a new constant at the bottom.\<close>

definition new_k :: "IROp \<Rightarrow> IRType \<Rightarrow> IRVal \<Rightarrow> jit_State \<Rightarrow> nat \<times> jit_State" where
  "new_k op t v J =
     (let (ref, J) = ir_nextk J;
          ins = (J_ir J ref)\<lparr>ir_val := v, ir_t := mk_irt t, ir_o := op, ir_prev := J_chain J op\<rparr>
      in (ref, set_chain op ref (set_ir ref ins J)))"

definition intern_k :: "IROp \<Rightarrow> IRType \<Rightarrow> IRVal \<Rightarrow> (IRIns \<Rightarrow> bool) \<Rightarrow> jit_State \<Rightarrow> nat \<times> jit_State" where
  "intern_k op t v P J =
     (case walk_k (J_ir J) P (J_chain J op) of
        Some ref \<Rightarrow> (ref, J)
      | None \<Rightarrow> new_k op t v J)"

definition lj_ir_kint :: "u32 \<Rightarrow> jit_State \<Rightarrow> nat \<times> jit_State" where
  "lj_ir_kint k J = intern_k IR_KINT IRT_INT (IV_i k) (\<lambda>ir. ir_val ir = IV_i k) J"

text \<open>The chained arrays of 64 bit constants: the address of \<open>u\<close>, added behind the last element if it
  is not there yet.\<close>

fun k64_index :: "u64 \<Rightarrow> nat \<Rightarrow> u64 list \<Rightarrow> nat option" where
  "k64_index u j [] = None"
| "k64_index u j (x # xs) = (if x = u then Some j else k64_index u (Suc j) xs)"

fun k64_search :: "u64 \<Rightarrow> nat \<Rightarrow> u64 list list \<Rightarrow> KAddr option" where
  "k64_search u i [] = None"
| "k64_search u i (k # ks) =
     (case k64_index u 0 k of Some j \<Rightarrow> Some (K64_at i j) | None \<Rightarrow> k64_search u (Suc i) ks)"

definition lj_ir_k64_find :: "u64 \<Rightarrow> jit_State \<Rightarrow> KAddr \<times> jit_State" where
  "lj_ir_k64_find u J =
     (case k64_search u 0 (J_k64 J) of
        Some a \<Rightarrow> (a, J)
      | None \<Rightarrow>
          let ks = (if J_k64 J \<noteq> [] \<and> length (last (J_k64 J)) < LJ_MIN_K64SZ then J_k64 J else J_k64 J @ [[]])
          in (K64_at (length ks - 1) (length (last ks)), J\<lparr>J_k64 := butlast ks @ [last ks @ [u]]\<rparr>))"

definition lj_ir_k64 :: "IROp \<Rightarrow> KAddr \<Rightarrow> jit_State \<Rightarrow> nat \<times> jit_State" where
  "lj_ir_k64 op tv J =
     intern_k op (if op = IR_KNUM then IRT_NUM else IRT_I64) (IV_k64 tv) (\<lambda>ir. ir_val ir = IV_k64 tv) J"

definition lj_ir_knum_u64 :: "u64 \<Rightarrow> jit_State \<Rightarrow> nat \<times> jit_State" where
  "lj_ir_knum_u64 u J = (let (tv, J) = lj_ir_k64_find u J in lj_ir_k64 IR_KNUM tv J)"

definition lj_ir_kint64 :: "u64 \<Rightarrow> jit_State \<Rightarrow> nat \<times> jit_State" where
  "lj_ir_kint64 u J = (let (tv, J) = lj_ir_k64_find u J in lj_ir_k64 IR_KINT64 tv J)"

definition lj_ir_knum :: "u64 \<Rightarrow> jit_State \<Rightarrow> nat \<times> jit_State" where
  "lj_ir_knum n J = lj_ir_knum_u64 n J"

definition lj_ir_knum_one :: "jit_State \<Rightarrow> nat \<times> jit_State" where
  "lj_ir_knum_one J = lj_ir_knum_u64 0x3ff0000000000000 J"

definition lj_ir_knum_neg :: "jit_State \<Rightarrow> nat \<times> jit_State" where
  "lj_ir_knum_neg J = lj_ir_k64 IR_KNUM KSIMD_NEG J"

text \<open>A number that is an integer of 32 bits; -0 is none.\<close>

definition numistrueint :: "u64 \<Rightarrow> u32 option" where
  "numistrueint n =
     (let k = lj_num2int n in
      if dbl_eq n (setintV k) then (if k = 0 \<and> snd (u32_lohi n) \<noteq> 0 then None else Some k) else None)"

definition lj_ir_knumint :: "u64 \<Rightarrow> jit_State \<Rightarrow> nat \<times> jit_State" where
  "lj_ir_knumint n J = (case numistrueint n of Some k \<Rightarrow> lj_ir_kint k J | None \<Rightarrow> lj_ir_knum n J)"

definition lj_ir_kgc :: "GCobj \<Rightarrow> IRType \<Rightarrow> jit_State \<Rightarrow> nat \<times> jit_State" where
  "lj_ir_kgc g t J = intern_k IR_KGC t (IV_gc g) (\<lambda>ir. ir_val ir = IV_gc g) J"

definition lj_ir_kstr :: "bytes \<Rightarrow> jit_State \<Rightarrow> nat \<times> jit_State" where
  "lj_ir_kstr s J = lj_ir_kgc (GCO_str s) IRT_STR J"

definition lj_ir_kptr_op :: "IROp \<Rightarrow> u64 \<Rightarrow> jit_State \<Rightarrow> nat \<times> jit_State" where
  "lj_ir_kptr_op op p J = intern_k op IRT_P32 (IV_ptr p) (\<lambda>ir. ir_val ir = IV_ptr p) J"

definition lj_ir_knull :: "IRType \<Rightarrow> jit_State \<Rightarrow> nat \<times> jit_State" where
  "lj_ir_knull t J = intern_k IR_KNULL t (IV_i 0) (\<lambda>ir. irt_type (ir_t ir) = t) J"

definition lj_ir_kslot :: "nat \<Rightarrow> nat \<Rightarrow> jit_State \<Rightarrow> nat \<times> jit_State" where
  "lj_ir_kslot key slot J =
     (case walk_k (J_ir J) (\<lambda>ir. ir_op1 ir = key \<and> ir_op2 ir = slot) (J_chain J IR_KSLOT) of
        Some ref \<Rightarrow> (ref, J)
      | None \<Rightarrow>
          let (ref, J) = new_k IR_KSLOT IRT_P32 IV_none J
          in (ref, set_ir ref ((J_ir J ref)\<lparr>ir_op1 := key, ir_op2 := slot\<rparr>) J))"

section \<open>Access to constants\<close>

text \<open>The value of a constant, as a key or a value of a table: a primitive, a number, a string or another object.
  An integer becomes a number, a 64 bit integer a new cdata object.\<close>

datatype KValue = KV_pri IRType | KV_num u64 | KV_gc GCobj | KV_lightud u64 | KV_cdata u64

definition lj_ir_kvalue :: "jit_State \<Rightarrow> IRIns \<Rightarrow> KValue" where
  "lj_ir_kvalue J ir =
     (if ir_o ir = IR_KPRI then KV_pri (irt_type (ir_t ir))
      else if ir_o ir = IR_KINT then KV_num (setintV (ins_i ir))
      else if ir_o ir = IR_KGC then (case ir_val ir of IV_gc g \<Rightarrow> KV_gc g | _ \<Rightarrow> KV_pri IRT_NIL)
      else if ir_o ir = IR_KPTR \<or> ir_o ir = IR_KKPTR \<or> ir_o ir = IR_KNULL then
        KV_lightud (case ir_val ir of IV_ptr p \<Rightarrow> p | _ \<Rightarrow> 0)
      else if ir_o ir = IR_KNUM then KV_num (ir_k64 J ir)
      else if ir_o ir = IR_KINT64 then KV_cdata (ir_k64 J ir)
      else KV_pri IRT_NIL)"

section \<open>Comparisons of numbers and strings\<close>

definition lj_ir_numcmp :: "u64 \<Rightarrow> u64 \<Rightarrow> IROp \<Rightarrow> bool" where
  "lj_ir_numcmp a b op =
     (if op = IR_EQ then dbl_eq a b
      else if op = IR_NE then \<not> dbl_eq a b
      else if op = IR_LT then dbl_lt a b
      else if op = IR_GE then dbl_le b a
      else if op = IR_LE then dbl_le a b
      else if op = IR_GT then dbl_lt b a
      else if op = IR_ULT then \<not> dbl_le b a
      else if op = IR_UGE then \<not> dbl_lt a b
      else if op = IR_ULE then \<not> dbl_lt b a
      else if op = IR_UGT then \<not> dbl_le a b
      else False)"

section \<open>Common-subexpression elimination\<close>

definition lj_opt_cse :: "jit_State \<Rightarrow> nat \<times> jit_State" where
  "lj_opt_cse J =
     (let fins = J_ins J; op = ir_o fins;
          found = (if J_flags J AND JIT_F_OPT_CSE \<noteq> 0 then
                     walk (J_ir J) (\<lambda>_ ir. ir_op1 ir = ir_op1 fins \<and> ir_op2 ir = ir_op2 fins)
                       (max (ir_op1 fins) (ir_op2 fins)) (J_chain J op)
                   else None)
      in case found of
           Some ref \<Rightarrow> (ref, J)
         | None \<Rightarrow>
             let (ref, J) = lj_ir_nextins J; ins = fins\<lparr>ir_prev := J_chain J op\<rparr>
             in (ref, (set_chain op ref (set_ir ref ins J))\<lparr>J_guardemit := J_guardemit J \<or> irt_isguard (ir_t fins)\<rparr>))"

definition lj_opt_cselim :: "nat \<Rightarrow> jit_State \<Rightarrow> nat \<times> jit_State" where
  "lj_opt_cselim lim J =
     (let fins = J_ins J in
      case walk (J_ir J) (\<lambda>_ ir. ir_op1 ir = ir_op1 fins \<and> ir_op2 ir = ir_op2 fins) lim (J_chain J (ir_o fins)) of
        Some ref \<Rightarrow> (ref, J)
      | None \<Rightarrow> lj_ir_emit J)"

section \<open>Roll-back\<close>

text \<open>\<open>n\<close> is the number of instructions above \<open>ref\<close>.\<close>

fun rollback :: "nat \<Rightarrow> jit_State \<Rightarrow> jit_State" where
  "rollback 0 J = J"
| "rollback (Suc n) J =
     (let nins = J_nins J - 1; ir = J_ir J nins
      in rollback n ((set_chain (ir_o ir) (ir_prev ir) J)\<lparr>J_nins := nins\<rparr>))"

definition lj_ir_rollback :: "nat \<Rightarrow> jit_State \<Rightarrow> jit_State" where
  "lj_ir_rollback ref J = rollback (J_nins J - ref) J"

section \<open>Dead code elimination\<close>

text \<open>The snapshots of the trace are here the list of the references they hold.\<close>

definition set_mark :: "bool \<Rightarrow> nat \<Rightarrow> (nat \<Rightarrow> IRIns) \<Rightarrow> nat \<Rightarrow> IRIns" where
  "set_mark b ref ir = ir(ref := (ir ref)\<lparr>ir_t := (ir_t (ir ref))\<lparr>irt_ismarked := b\<rparr>\<rparr>)"

definition mark_ref :: "nat \<Rightarrow> (nat \<Rightarrow> IRIns) \<Rightarrow> nat \<Rightarrow> IRIns" where
  "mark_ref ref ir = (if ref \<ge> REF_FIRST then set_mark True ref ir else ir)"

definition dce_marksnap :: "nat list list \<Rightarrow> (nat \<Rightarrow> IRIns) \<Rightarrow> nat \<Rightarrow> IRIns" where
  "dce_marksnap snaps ir = foldl (foldl (\<lambda>ir ref. mark_ref ref ir)) ir snaps"

text \<open>A chain pointer \<open>pchain[o]\<close>: the anchor of the chain, or the link of an instruction.\<close>

datatype ChainPtr = CP_anchor | CP_prev nat

definition store_chain :: "IROp \<Rightarrow> ChainPtr \<Rightarrow> nat \<Rightarrow> jit_State \<Rightarrow> jit_State" where
  "store_chain op p ref J =
     (case p of CP_anchor \<Rightarrow> set_chain op ref J
      | CP_prev r \<Rightarrow> set_ir r ((J_ir J r)\<lparr>ir_prev := ref\<rparr>) J)"

definition nop_ins :: "IRIns \<Rightarrow> IRIns" where
  "nop_ins ir = ir\<lparr>ir_t := mk_irt IRT_NIL, ir_o := IR_NOP, ir_op1 := 0, ir_op2 := 0, ir_prev := 0\<rparr>"

text \<open>One step of the backward pass, for the instruction \<open>ins\<close>.\<close>

definition dce_step :: "nat \<Rightarrow> (IROp \<Rightarrow> ChainPtr) \<times> jit_State \<Rightarrow> (IROp \<Rightarrow> ChainPtr) \<times> jit_State" where
  "dce_step ins s =
     (let (pchain, J) = s; ir = J_ir J ins in
      if \<not> irt_ismarked (ir_t ir) \<and> \<not> ir_sideeff ir then
        (pchain, set_ir ins (nop_ins ir) (store_chain (ir_o ir) (pchain (ir_o ir)) (ir_prev ir) J))
      else
        let (pchain, J) =
              (if irt_ismarked (ir_t ir) then
                 (pchain(ir_o ir := CP_prev ins), J\<lparr>J_ir := set_mark False ins (J_ir J)\<rparr>)
               else (pchain, J));
            J = J\<lparr>J_ir := mark_ref (ir_op2 ir) (mark_ref (ir_op1 ir) (J_ir J))\<rparr>
        in (pchain, J))"

text \<open>\<open>n\<close> instructions, the last of them at \<open>REF_FIRST + n - 1\<close>, from the last one backwards.\<close>

fun dce_loop :: "nat \<Rightarrow> (IROp \<Rightarrow> ChainPtr) \<times> jit_State \<Rightarrow> (IROp \<Rightarrow> ChainPtr) \<times> jit_State" where
  "dce_loop 0 s = s"
| "dce_loop (Suc n) s = dce_loop n (dce_step (REF_FIRST + n) s)"

definition dce_propagate :: "jit_State \<Rightarrow> jit_State" where
  "dce_propagate J = snd (dce_loop (J_nins J - REF_FIRST) (\<lambda>_. CP_anchor, J))"

definition lj_opt_dce :: "nat list list \<Rightarrow> jit_State \<Rightarrow> jit_State" where
  "lj_opt_dce snaps J =
     (if J_flags J AND JIT_F_OPT_DCE \<noteq> 0 then
        (dce_propagate (J\<lparr>J_ir := dce_marksnap snaps (J_ir J)\<rparr>))\<lparr>J_bpropcache :=
           replicate 16 \<lparr>bp_key = 0, bp_val = 0, bp_mode = 0\<rparr>\<rparr>
      else J)"

end
