(* ===== verification/LJ_VMMath.thy ===== *)
theory LJ_VMMath
  imports LJ_Dbl LJ_IR
begin

text \<open>
  The math helpers behind the generated code and the constant folding (\<^verbatim>\<open>lj_vmmath.c\<close>). Division, rounding
  to an integer and the arithmetic operators are exact; the transcendental functions of the C library are
  the argument \<open>lm\<close>, of which nothing is assumed.
\<close>

record libm =
  lm_pow :: "u64 \<Rightarrow> u64 \<Rightarrow> u64"
  lm_atan2 :: "u64 \<Rightarrow> u64 \<Rightarrow> u64"
  lm_sqrt :: "u64 \<Rightarrow> u64"
  lm_exp :: "u64 \<Rightarrow> u64"
  lm_exp2 :: "u64 \<Rightarrow> u64"
  lm_log :: "u64 \<Rightarrow> u64"
  lm_log2 :: "u64 \<Rightarrow> u64"
  lm_log10 :: "u64 \<Rightarrow> u64"
  lm_sin :: "u64 \<Rightarrow> u64"
  lm_cos :: "u64 \<Rightarrow> u64"
  lm_tan :: "u64 \<Rightarrow> u64"

text \<open>IEEE division: 120 more bits of the quotient than the operands have, the last one standing for the
  remainder, are enough for one correct rounding.\<close>

definition dbl_div :: "u64 \<Rightarrow> u64 \<Rightarrow> u64" where
  "dbl_div x y =
     (let s = (dbl_neg x \<noteq> dbl_neg y) in
      if dbl_isnan x \<or> dbl_isnan y then dbl_nan
      else if dbl_isinf x then (if dbl_isinf y then dbl_nan else dbl_inf s)
      else if dbl_isinf y then dbl_zero s
      else if dbl_mant y = 0 then (if dbl_mant x = 0 then dbl_nan else dbl_inf s)
      else let n = dbl_mant x * 2 ^ 120; q = n div dbl_mant y
           in dbl_make s (2 * q + (if n mod dbl_mant y = 0 then 0 else 1)) (dbl_pow x - dbl_pow y - 121))"

text \<open>Rounding to an integer keeps the sign of a zero and leaves infinities and NaNs alone.\<close>

definition dbl_rint :: "(bool \<Rightarrow> int \<Rightarrow> nat \<Rightarrow> int) \<Rightarrow> u64 \<Rightarrow> u64" where
  "dbl_rint f x =
     (if \<not> dbl_finite x \<or> 0 \<le> dbl_pow x then x
      else dbl_make (dbl_neg x) (f (dbl_neg x) (dbl_mant x) (nat (- dbl_pow x))) 0)"

definition lj_vm_floor :: "u64 \<Rightarrow> u64" where
  "lj_vm_floor = dbl_rint (\<lambda>s m d. if s then (m + 2 ^ d - 1) div 2 ^ d else m div 2 ^ d)"

definition lj_vm_ceil :: "u64 \<Rightarrow> u64" where
  "lj_vm_ceil = dbl_rint (\<lambda>s m d. if s then m div 2 ^ d else (m + 2 ^ d - 1) div 2 ^ d)"

definition lj_vm_trunc :: "u64 \<Rightarrow> u64" where
  "lj_vm_trunc = dbl_rint (\<lambda>s m d. m div 2 ^ d)"

definition lj_vm_foldarith :: "libm \<Rightarrow> u64 \<Rightarrow> u64 \<Rightarrow> nat \<Rightarrow> u64" where
  "lj_vm_foldarith lm x y op =
     (if op = IR_ADD - IR_ADD then dbl_add x y
      else if op = IR_SUB - IR_ADD then dbl_sub x y
      else if op = IR_MUL - IR_ADD then dbl_mul x y
      else if op = IR_DIV - IR_ADD then dbl_div x y
      else if op = IR_MOD - IR_ADD then dbl_sub x (dbl_mul (lj_vm_floor (dbl_div x y)) y)
      else if op = IR_POW - IR_ADD then lm_pow lm x y
      else if op = IR_NEG - IR_ADD then dbl_uminus x
      else if op = IR_ABS - IR_ADD then dbl_abs x
      else if op = IR_ATAN2 - IR_ADD then lm_atan2 lm x y
      else if op = IR_LDEXP - IR_ADD then dbl_ldexp x (sint (lj_num2int y))
      else if op = IR_MIN - IR_ADD then (if dbl_lt y x then y else x)
      else if op = IR_MAX - IR_ADD then (if dbl_lt x y then y else x)
      else x)"

abbreviation IRFPM_FLOOR :: nat where "IRFPM_FLOOR \<equiv> 0"
abbreviation IRFPM_CEIL :: nat where "IRFPM_CEIL \<equiv> 1"
abbreviation IRFPM_TRUNC :: nat where "IRFPM_TRUNC \<equiv> 2"
abbreviation IRFPM_SQRT :: nat where "IRFPM_SQRT \<equiv> 3"
abbreviation IRFPM_EXP :: nat where "IRFPM_EXP \<equiv> 4"
abbreviation IRFPM_EXP2 :: nat where "IRFPM_EXP2 \<equiv> 5"
abbreviation IRFPM_LOG :: nat where "IRFPM_LOG \<equiv> 6"
abbreviation IRFPM_LOG2 :: nat where "IRFPM_LOG2 \<equiv> 7"
abbreviation IRFPM_LOG10 :: nat where "IRFPM_LOG10 \<equiv> 8"
abbreviation IRFPM_SIN :: nat where "IRFPM_SIN \<equiv> 9"
abbreviation IRFPM_COS :: nat where "IRFPM_COS \<equiv> 10"
abbreviation IRFPM_TAN :: nat where "IRFPM_TAN \<equiv> 11"

definition lj_vm_foldfpm :: "libm \<Rightarrow> u64 \<Rightarrow> nat \<Rightarrow> u64" where
  "lj_vm_foldfpm lm x fpm =
     (if fpm = IRFPM_FLOOR then lj_vm_floor x
      else if fpm = IRFPM_CEIL then lj_vm_ceil x
      else if fpm = IRFPM_TRUNC then lj_vm_trunc x
      else if fpm = IRFPM_SQRT then lm_sqrt lm x
      else if fpm = IRFPM_EXP then lm_exp lm x
      else if fpm = IRFPM_EXP2 then lm_exp2 lm x
      else if fpm = IRFPM_LOG then lm_log lm x
      else if fpm = IRFPM_LOG2 then lm_log2 lm x
      else if fpm = IRFPM_LOG10 then lm_log10 lm x
      else if fpm = IRFPM_SIN then lm_sin lm x
      else if fpm = IRFPM_COS then lm_cos lm x
      else if fpm = IRFPM_TAN then lm_tan lm x
      else dbl_zero False)"

end
