(* ===== verification/LJ_Fold.thy ===== *)
theory LJ_Fold
  imports LJ_VMMath LJ_StrScan LJ_StrFmt
begin

text \<open>
  The fold rules of \<^verbatim>\<open>lj_opt_fold.c\<close>: constant folding, algebraic simplification, reassociation,
  commutativity and array bounds check elimination. A rule reads the instruction \<open>fins\<close> with its operands
  \<open>fleft\<close>, \<open>fright\<close> from the fold state, may change it in place, may intern constants or (through the engine
  that it is given) emit other instructions, and returns one of the special values or a reference.
\<close>

section \<open>Rules and the state they work on\<close>

datatype FoldRes = NEXTFOLD | RETRYFOLD | KINTFOLD | FAILFOLD | DROPFOLD | FoldRef nat

text \<open>The trace errors raised here, and the outcome of an engine that runs out of fuel.\<close>

datatype TraceErr = LJ_TRERR_GFAIL | LJ_TRERR_BADTYPE | TRACE_ERRMEM ErrMsg | FOLD_FUEL

type_synonym 'a jit = "(jit_State, TraceErr, 'a) sm"

text \<open>
  What a rule is given: the engine \<open>lj_opt_fold\<close>, the C library (\<open>fe_num\<close> and \<open>fe_fnum\<close> are its conversions of
  numbers to strings), and the heap that the compiler reads: the memory, the addresses of objects, the
  contents of constant tables, C data objects, and upvalues.
\<close>

record fold_env =
  fe_fold :: "nat jit"
  fe_libm :: libm
  fe_num :: "u64 \<Rightarrow> bytes"
  fe_fnum :: "nat \<Rightarrow> u32 \<Rightarrow> u64 \<Rightarrow> bytes"
  fe_mem :: "u64 \<Rightarrow> u8"
  fe_gcaddr :: "GCobj \<Rightarrow> u64"
  fe_niltv :: u64
  fe_tab :: "GCobj \<Rightarrow> KValue \<Rightarrow> KValue"
  fe_tab_asize :: "GCobj \<Rightarrow> u32"
  fe_tab_hmask :: "GCobj \<Rightarrow> u32"
  fe_cdata_id :: "GCobj \<Rightarrow> u32"
  fe_cdata_const :: "GCobj \<Rightarrow> bool"
  fe_uvptr :: "GCobj \<Rightarrow> nat \<Rightarrow> nat"

type_synonym fold_func = "fold_env \<Rightarrow> FoldRes jit"

type_synonym fold_rule = "jit_State \<Rightarrow> FoldRes \<times> jit_State"

definition pure_rule :: "fold_rule \<Rightarrow> fold_func" where
  "pure_rule f E J = Inr (f J)"

definition math_rule :: "(libm \<Rightarrow> fold_rule) \<Rightarrow> fold_func" where
  "math_rule f E J = Inr (f (fe_libm E) J)"

definition fins_o :: "IROp \<Rightarrow> jit_State \<Rightarrow> jit_State" where
  "fins_o op J = J\<lparr>J_ins := (J_ins J)\<lparr>ir_o := op\<rparr>\<rparr>"

definition fins_op1 :: "nat \<Rightarrow> jit_State \<Rightarrow> jit_State" where
  "fins_op1 r J = J\<lparr>J_ins := (J_ins J)\<lparr>ir_op1 := r\<rparr>\<rparr>"

definition fins_op2 :: "nat \<Rightarrow> jit_State \<Rightarrow> jit_State" where
  "fins_op2 r J = J\<lparr>J_ins := (J_ins J)\<lparr>ir_op2 := r\<rparr>\<rparr>"

definition fins_ot :: "IROp \<Rightarrow> IRType1 \<Rightarrow> jit_State \<Rightarrow> jit_State" where
  "fins_ot op t J = J\<lparr>J_ins := (J_ins J)\<lparr>ir_o := op, ir_t := t\<rparr>\<rparr>"

definition lj_ir_set :: "IROp \<Rightarrow> IRType1 \<Rightarrow> nat \<Rightarrow> nat \<Rightarrow> jit_State \<Rightarrow> jit_State" where
  "lj_ir_set op t a b J = J\<lparr>J_ins := (J_ins J)\<lparr>ir_o := op, ir_t := t, ir_op1 := a, ir_op2 := b\<rparr>\<rparr>"

definition emitir :: "fold_env \<Rightarrow> IROp \<Rightarrow> IRType1 \<Rightarrow> nat \<Rightarrow> nat \<Rightarrow> nat jit" where
  "emitir E op t a b J = fe_fold E (lj_ir_set op t a b J)"

abbreviation fins :: "jit_State \<Rightarrow> IRIns" where "fins \<equiv> J_ins"
abbreviation fleft :: "jit_State \<Rightarrow> IRIns" where "fleft \<equiv> J_left"
abbreviation fright :: "jit_State \<Rightarrow> IRIns" where "fright \<equiv> J_right"
abbreviation fo :: "jit_State \<Rightarrow> IROp" where "fo J \<equiv> ir_o (J_ins J)"
abbreviation op1 :: "jit_State \<Rightarrow> nat" where "op1 J \<equiv> ir_op1 (J_ins J)"
abbreviation op2 :: "jit_State \<Rightarrow> nat" where "op2 J \<equiv> ir_op2 (J_ins J)"
abbreviation knumleft :: "jit_State \<Rightarrow> u64" where "knumleft J \<equiv> ir_k64 J (J_left J)"
abbreviation knumright :: "jit_State \<Rightarrow> u64" where "knumright J \<equiv> ir_k64 J (J_right J)"

abbreviation phi :: "IRIns \<Rightarrow> bool" where "phi ir \<equiv> irt_isphi (ir_t ir)"

definition INTFOLD :: "u32 \<Rightarrow> fold_rule" where
  "INTFOLD k J = (KINTFOLD, J\<lparr>J_ins := (J_ins J)\<lparr>ir_val := IV_i k\<rparr>\<rparr>)"

definition ref_fold :: "nat \<times> jit_State \<Rightarrow> FoldRes \<times> jit_State" where
  "ref_fold r = (FoldRef (fst r), snd r)"

definition INT64FOLD :: "u64 \<Rightarrow> fold_rule" where
  "INT64FOLD k J = ref_fold (lj_ir_kint64 k J)"

definition CONDFOLD :: "bool \<Rightarrow> FoldRes" where
  "CONDFOLD b = (if b then DROPFOLD else FAILFOLD)"

abbreviation LEFTFOLD :: fold_rule where "LEFTFOLD J \<equiv> (FoldRef (op1 J), J)"
abbreviation RIGHTFOLD :: fold_rule where "RIGHTFOLD J \<equiv> (FoldRef (op2 J), J)"

lemmas fold_set = fins_o_def fins_op1_def fins_op2_def fins_ot_def lj_ir_set_def

text \<open>The conversion modes in the second operand of \<open>CONV\<close>.\<close>

definition irconv :: "IRType \<Rightarrow> IRType \<Rightarrow> nat" where
  "irconv d s = irt_num d * 32 + irt_num s"

definition IRCONV_SEXT :: nat where "IRCONV_SEXT = 0x800"
definition IRCONV_MODEMASK :: nat where "IRCONV_MODEMASK = 0xfff"

definition conv_src :: "nat \<Rightarrow> nat" where "conv_src m = m AND 0x1f"
definition conv_dst :: "nat \<Rightarrow> nat" where "conv_dst m = drop_bit 5 (m AND 0x3e0)"
definition conv_sext :: "nat \<Rightarrow> bool" where "conv_sext m = (m AND IRCONV_SEXT \<noteq> 0)"

section \<open>Constant folding of numbers\<close>

definition kfold_numarith :: "libm \<Rightarrow> fold_rule" where
  "kfold_numarith lm J =
     (let y = lj_vm_foldarith lm (knumleft J) (knumright J) (fo J - IR_ADD) in ref_fold (lj_ir_knum y J))"

definition kfold_ldexp :: fold_rule where
  "kfold_ldexp J = (NEXTFOLD, J)"

definition kfold_fpmath :: "libm \<Rightarrow> fold_rule" where
  "kfold_fpmath lm J = (let y = lj_vm_foldfpm lm (knumleft J) (op2 J) in ref_fold (lj_ir_knum y J))"

definition kfold_numpow :: "libm \<Rightarrow> fold_rule" where
  "kfold_numpow lm J =
     (let b = setintV (ins_i (fright J)); y = lj_vm_foldarith lm (knumleft J) b (IR_POW - IR_ADD)
      in ref_fold (lj_ir_knum y J))"

definition kfold_numcomp :: fold_rule where
  "kfold_numcomp J = (CONDFOLD (lj_ir_numcmp (knumleft J) (knumright J) (fo J)), J)"

section \<open>Constant folding of 32 bit integers\<close>

definition kfold_intop :: "u32 \<Rightarrow> u32 \<Rightarrow> IROp \<Rightarrow> u32" where
  "kfold_intop k1 k2 op =
     (let sh = unat (k2 AND 31) in
      if op = IR_ADD then k1 + k2
      else if op = IR_SUB then k1 - k2
      else if op = IR_MUL then k1 * k2
      else if op = IR_MOD then lj_vm_modi k1 k2
      else if op = IR_NEG then - k1
      else if op = IR_BAND then k1 AND k2
      else if op = IR_BOR then k1 OR k2
      else if op = IR_BXOR then k1 XOR k2
      else if op = IR_BSHL then push_bit sh k1
      else if op = IR_BSHR then drop_bit sh k1
      else if op = IR_BSAR then signed_drop_bit sh k1
      else if op = IR_BROL then lj_rol k1 sh
      else if op = IR_BROR then lj_ror k1 sh
      else if op = IR_MIN then (if sint k1 < sint k2 then k1 else k2)
      else if op = IR_MAX then (if sint k1 > sint k2 then k1 else k2)
      else k1)"

definition kfold_intarith :: fold_rule where
  "kfold_intarith J = INTFOLD (kfold_intop (ins_i (fleft J)) (ins_i (fright J)) (fo J)) J"

definition kfold_intovarith :: "libm \<Rightarrow> fold_rule" where
  "kfold_intovarith lm J =
     (let n = lj_vm_foldarith lm (setintV (ins_i (fleft J))) (setintV (ins_i (fright J))) (fo J - IR_ADDOV);
          k = lj_num2int n
      in if \<not> dbl_eq n (setintV k) then (FAILFOLD, J) else INTFOLD k J)"

definition kfold_bnot :: fold_rule where
  "kfold_bnot J = INTFOLD (NOT (ins_i (fleft J))) J"

definition kfold_bswap :: fold_rule where
  "kfold_bswap J = INTFOLD (lj_bswap (ins_i (fleft J))) J"

definition kfold_intcomp :: fold_rule where
  "kfold_intcomp J =
     (let a = ins_i (fleft J); b = ins_i (fright J) in
      (if fo J = IR_LT then CONDFOLD (sint a < sint b)
       else if fo J = IR_GE then CONDFOLD (sint a \<ge> sint b)
       else if fo J = IR_LE then CONDFOLD (sint a \<le> sint b)
       else if fo J = IR_GT then CONDFOLD (sint a > sint b)
       else if fo J = IR_ULT then CONDFOLD (a < b)
       else if fo J = IR_UGE then CONDFOLD (a \<ge> b)
       else if fo J = IR_ULE then CONDFOLD (a \<le> b)
       else if fo J = IR_ABC \<or> fo J = IR_UGT then CONDFOLD (a > b)
       else FAILFOLD, J))"

definition kfold_intcomp0 :: fold_rule where
  "kfold_intcomp0 J = (if ins_i (fright J) = 0 then (DROPFOLD, J) else (NEXTFOLD, J))"

section \<open>Constant folding of 64 bit integers\<close>

definition kfold_int64op :: "u64 \<Rightarrow> u64 \<Rightarrow> IROp \<Rightarrow> u64" where
  "kfold_int64op k1 k2 op =
     (if op = IR_ADD then k1 + k2
      else if op = IR_SUB then k1 - k2
      else if op = IR_MUL then k1 * k2
      else if op = IR_BAND then k1 AND k2
      else if op = IR_BOR then k1 OR k2
      else if op = IR_BXOR then k1 XOR k2
      else k1)"

definition kfold_int64arith :: fold_rule where
  "kfold_int64arith J = INT64FOLD (kfold_int64op (ir_k64 J (fleft J)) (ir_k64 J (fright J)) (fo J)) J"

text \<open>The operations of \<open>lj_carith\<close> are defined and end on every input; \<open>k1\<close> stands for one that would not.\<close>

definition kfold_int64arith2 :: fold_rule where
  "kfold_int64arith2 J =
     (let k1 = ir_k64 J (fleft J); k2 = ir_k64 J (fright J);
          r = (if irt_isi64 (ir_t (fins J)) then
                 (if fo J = IR_DIV then lj_carith_divi64 k1 k2
                  else if fo J = IR_MOD then lj_carith_modi64 k1 k2
                  else lj_carith_powi64 k1 k2)
               else
                 (if fo J = IR_DIV then lj_carith_divu64 k1 k2
                  else if fo J = IR_MOD then lj_carith_modu64 k1 k2
                  else lj_carith_powu64 k1 k2))
      in INT64FOLD (case r of Some k \<Rightarrow> k | None \<Rightarrow> k1) J)"

definition kfold_int64shift :: fold_rule where
  "kfold_int64shift J =
     (let k = ir_k64 J (fleft J); sh = ins_i (fright J) AND 63
      in INT64FOLD (lj_carith_shift64 k sh (fo J - IR_BSHL)) J)"

definition kfold_bnot64 :: fold_rule where
  "kfold_bnot64 J = INT64FOLD (NOT (ir_k64 J (fleft J))) J"

definition kfold_bswap64 :: fold_rule where
  "kfold_bswap64 J = INT64FOLD (lj_bswap64 (ir_k64 J (fleft J))) J"

text \<open>As in the code, both operands are unsigned also in the first four cases.\<close>

definition kfold_int64comp :: fold_rule where
  "kfold_int64comp J =
     (let a = ir_k64 J (fleft J); b = ir_k64 J (fright J) in
      (if fo J = IR_LT then CONDFOLD (a < b)
       else if fo J = IR_GE then CONDFOLD (a \<ge> b)
       else if fo J = IR_LE then CONDFOLD (a \<le> b)
       else if fo J = IR_GT then CONDFOLD (a > b)
       else if fo J = IR_ULT then CONDFOLD (a < b)
       else if fo J = IR_UGE then CONDFOLD (a \<ge> b)
       else if fo J = IR_ULE then CONDFOLD (a \<le> b)
       else if fo J = IR_UGT then CONDFOLD (a > b)
       else FAILFOLD, J))"

definition kfold_int64comp0 :: fold_rule where
  "kfold_int64comp0 J = (if ir_k64 J (fright J) = 0 then (DROPFOLD, J) else (NEXTFOLD, J))"

section \<open>Constant folding of pointers, strings and conversions\<close>

text \<open>On a 64 bit target the offset is read as a 64 bit constant by both rules.\<close>

definition kfold_add_kptr :: fold_rule where
  "kfold_add_kptr J =
     (case ir_val (fleft J) of
        IV_ptr p \<Rightarrow> ref_fold (lj_ir_kptr_op (ir_o (fleft J)) (p + ir_k64 J (fright J)) J)
      | _ \<Rightarrow> (NEXTFOLD, J))"

definition kfold_add_kright :: fold_rule where
  "kfold_add_kright J =
     (if ir_o (fleft J) = IR_KINT \<or> ir_o (fleft J) = IR_KINT64 then
        (RETRYFOLD, fins_op2 (op1 J) (fins_op1 (op2 J) J))
      else (NEXTFOLD, J))"

definition kfold_snew_empty :: fold_rule where
  "kfold_snew_empty J =
     (if ins_i (fright J) = 0 then ref_fold (lj_ir_kstr [] J) else (NEXTFOLD, J))"

definition kfold_tobit :: fold_rule where
  "kfold_tobit J = INTFOLD (lj_num2bit (knumleft J)) J"

definition kfold_conv_kint_num :: fold_rule where
  "kfold_conv_kint_num J = ref_fold (lj_ir_knum (dbl_of_int (sint (ins_i (fleft J)))) J)"

definition kfold_conv_kintu32_num :: fold_rule where
  "kfold_conv_kintu32_num J = ref_fold (lj_ir_knum (dbl_of_int (uint (ins_i (fleft J)))) J)"

definition kfold_conv_kint_ext :: fold_rule where
  "kfold_conv_kint_ext J =
     (let k = ins_i (fleft J); s = conv_src (op2 J) in
      INTFOLD (if s = irt_num IRT_I8 then scast (ucast k :: u8)
               else if s = irt_num IRT_U8 then ucast (ucast k :: u8)
               else if s = irt_num IRT_I16 then scast (ucast k :: u16)
               else ucast (ucast k :: u16)) J)"

definition kfold_conv_kint_i64 :: fold_rule where
  "kfold_conv_kint_i64 J =
     (if conv_sext (op2 J) then INT64FOLD (scast (ins_i (fleft J))) J
      else INT64FOLD (ucast (ins_i (fleft J))) J)"

definition kfold_conv_kint64_num_i64 :: fold_rule where
  "kfold_conv_kint64_num_i64 J = ref_fold (lj_ir_knum (dbl_of_int (sint (ir_k64 J (fleft J)))) J)"

definition kfold_conv_kint64_num_u64 :: fold_rule where
  "kfold_conv_kint64_num_u64 J = ref_fold (lj_ir_knum (dbl_of_int (uint (ir_k64 J (fleft J)))) J)"

definition kfold_conv_kint64_int_i64 :: fold_rule where
  "kfold_conv_kint64_int_i64 J = INTFOLD (ucast (ir_k64 J (fleft J))) J"

definition kfold_conv_knum_int_num :: fold_rule where
  "kfold_conv_knum_int_num J =
     (let n = knumleft J; k = lj_num2int n in
      if irt_isguard (ir_t (fins J)) \<and> \<not> dbl_eq n (setintV k) then (FAILFOLD, J) else INTFOLD k J)"

text \<open>\<open>(uint32_t)n\<close> is the low word of the 64 bit conversion on x64.\<close>

definition kfold_conv_knum_u32_num :: fold_rule where
  "kfold_conv_knum_u32_num J = INTFOLD (ucast (dbl_to_i64 (knumleft J))) J"

definition kfold_conv_knum_i64_num :: fold_rule where
  "kfold_conv_knum_i64_num J = INT64FOLD (dbl_to_i64 (knumleft J)) J"

definition kfold_tostr_kint :: fold_rule where
  "kfold_tostr_kint J =
     (let k = ins_i (fleft J)
      in ref_fold (lj_ir_kstr (if op2 J = 0 then lj_strfmt_wint k else [ucast k]) J))"

definition kfold_strto :: fold_rule where
  "kfold_strto J =
     (case lj_strscan_num (ir_kstr (fleft J)) of
        Some (Some n) \<Rightarrow> ref_fold (lj_ir_knum n J)
      | _ \<Rightarrow> (FAILFOLD, J))"

section \<open>Equality checks\<close>

definition kfold_kref :: fold_rule where
  "kfold_kref J = (CONDFOLD ((op1 J = op2 J) \<noteq> (fo J = IR_NE)), J)"

definition cse_rule :: fold_rule where
  "cse_rule J = ref_fold (lj_opt_cse J)"

definition emit_rule :: fold_rule where
  "emit_rule J = ref_fold (lj_ir_emit J)"

section \<open>Algebraic shortcuts\<close>

definition shortcut_round :: fold_rule where
  "shortcut_round J =
     (let op = ir_op2 (fleft J) in
      if op = IRFPM_FLOOR \<or> op = IRFPM_CEIL \<or> op = IRFPM_TRUNC then LEFTFOLD J else (NEXTFOLD, J))"

definition shortcut_left :: fold_rule where
  "shortcut_left J = LEFTFOLD J"

definition shortcut_dropleft :: fold_rule where
  "shortcut_dropleft J =
     (if phi (fleft J) then (NEXTFOLD, J) else (RETRYFOLD, fins_op1 (ir_op1 (fleft J)) J))"

definition shortcut_leftleft :: fold_rule where
  "shortcut_leftleft J =
     (if phi (fleft J) then (NEXTFOLD, J) else (FoldRef (ir_op1 (fleft J)), J))"

section \<open>Algebraic simplification of numbers\<close>

definition simplify_numadd_negx :: fold_rule where
  "simplify_numadd_negx J =
     (if phi (fleft J) then (NEXTFOLD, J)
      else (RETRYFOLD, fins_op2 (ir_op1 (fleft J)) (fins_op1 (op2 J) (fins_o IR_SUB J))))"

definition simplify_numadd_xneg :: fold_rule where
  "simplify_numadd_xneg J =
     (if phi (fright J) then (NEXTFOLD, J)
      else (RETRYFOLD, fins_op2 (ir_op1 (fright J)) (fins_o IR_SUB J)))"

definition simplify_numsub_k :: fold_rule where
  "simplify_numsub_k J = (if dbl_eq (knumright J) (dbl_zero False) then LEFTFOLD J else (NEXTFOLD, J))"

definition simplify_numsub_negk :: fold_rule where
  "simplify_numsub_negk J =
     (if phi (fleft J) then (NEXTFOLD, J)
      else let J1 = fins_op2 (ir_op1 (fleft J)) J;
               (r, J2) = lj_ir_knum (dbl_uminus (knumright J)) J1
           in (RETRYFOLD, fins_op1 r J2))"

definition simplify_numsub_xneg :: fold_rule where
  "simplify_numsub_xneg J =
     (if phi (fright J) then (NEXTFOLD, J)
      else (RETRYFOLD, fins_op2 (ir_op1 (fright J)) (fins_o IR_ADD J)))"

definition simplify_nummuldiv_k :: fold_rule where
  "simplify_nummuldiv_k J =
     (let n = knumright J in
      if dbl_eq n (setintV 1) then LEFTFOLD J
      else if dbl_eq n (setintV (- 1)) then
        let (r, J) = lj_ir_knum_neg (fins_o IR_NEG J) in (RETRYFOLD, fins_op2 r J)
      else if fo J = IR_MUL \<and> dbl_eq n (setintV 2) then
        (RETRYFOLD, fins_op2 (op1 J) (fins_o IR_ADD J))
      else if fo J = IR_DIV then
        let ex = drop_bit 52 n AND 0x7ff in
        if n AND 0x000fffffffffffff = 0 \<and> (ucast ex :: u32) - 1 < 0x7fd then
          let u = (n AND 0x8000000000000000) OR push_bit 52 (0x7fe - ex);
              (r, J) = lj_ir_knum_u64 u (fins_o IR_MUL J)
          in (RETRYFOLD, fins_op2 r J)
        else (NEXTFOLD, J)
      else (NEXTFOLD, J))"

definition simplify_nummuldiv_negk :: fold_rule where
  "simplify_nummuldiv_negk J =
     (if phi (fleft J) then (NEXTFOLD, J)
      else let J1 = fins_op1 (ir_op1 (fleft J)) J;
               (r, J2) = lj_ir_knum (dbl_uminus (knumright J)) J1
           in (RETRYFOLD, fins_op2 r J2))"

definition simplify_nummuldiv_negneg :: fold_rule where
  "simplify_nummuldiv_negneg J =
     (if phi (fleft J) \<or> phi (fright J) then (NEXTFOLD, J)
      else (RETRYFOLD, fins_op2 (ir_op1 (fright J)) (fins_op1 (ir_op1 (fleft J)) J)))"

text \<open>The unrolled power: \<open>k\<close> is positive; the first loop strips the factors of two, the second one
  walks over the remaining bits.\<close>

function numpow_strip :: "fold_env \<Rightarrow> nat \<Rightarrow> nat \<Rightarrow> (nat \<times> nat) jit" where
  "numpow_strip E k ref =
     (if 0 < k \<and> even k then
        bnd (emitir E IR_MUL (mk_irt IRT_NUM) ref ref) (\<lambda>ref. numpow_strip E (k div 2) ref)
      else ret (k, ref))"
  by pat_completeness auto
termination by (relation "measure (\<lambda>(E, k, ref). k)") auto

function numpow_bits :: "fold_env \<Rightarrow> nat \<Rightarrow> nat \<Rightarrow> nat \<Rightarrow> (nat \<times> nat) jit" where
  "numpow_bits E k ref tmp =
     (if 1 < k then
        bnd (if odd k then emitir E IR_MUL (mk_irt IRT_NUM) ref tmp else ret ref) (\<lambda>ref.
        bnd (emitir E IR_MUL (mk_irt IRT_NUM) tmp tmp) (\<lambda>tmp. numpow_bits E (k div 2) ref tmp))
      else ret (ref, tmp))"
  by pat_completeness auto
termination by (relation "measure (\<lambda>(E, k, ref, tmp). k)") auto

declare numpow_strip.simps [simp del] numpow_bits.simps [simp del]

definition simplify_numpow_xk :: fold_func where
  "simplify_numpow_xk E J =
     (let k = ins_i (fright J); ref = op1 J in
      if k = 0 then Inr (ref_fold (lj_ir_knum_one J))
      else if k = 1 then Inr (LEFTFOLD J)
      else if k + 65536 > 2 * 65536 then Inr (NEXTFOLD, J)
      else bnd (if sint k < 0 then
                  (\<lambda>J. let (one, J) = lj_ir_knum_one J in emitir E IR_DIV (mk_irt IRT_NUM) one ref J)
                else ret ref) (\<lambda>ref.
           bnd (numpow_strip E (nat \<bar>sint k\<bar>) ref) (\<lambda>(k, ref).
             if k div 2 \<noteq> 0 then
               bnd (emitir E IR_MUL (mk_irt IRT_NUM) ref ref) (\<lambda>tmp.
               bnd (numpow_bits E (k div 2) ref tmp) (\<lambda>(ref, tmp).
               bnd (emitir E IR_MUL (mk_irt IRT_NUM) ref tmp) (\<lambda>ref. ret (FoldRef ref))))
             else ret (FoldRef ref))) J)"

definition simplify_numpow_kx :: fold_func where
  "simplify_numpow_kx E J =
     (if dbl_eq (knumleft J) (setintV 2) then
        bnd (\<lambda>J. fe_fold E (fins_op2 (irconv IRT_NUM IRT_INT) (fins_op1 (op2 J) (fins_o IR_CONV J)))) (\<lambda>r J.
          let J = fins_op2 r J; (one, J) = lj_ir_knum_one J
          in Inr (RETRYFOLD, fins_o IR_LDEXP (fins_op1 one J))) J
      else Inr (NEXTFOLD, J))"

section \<open>Simplification of conversions\<close>

definition shortcut_conv_num_int :: fold_rule where
  "shortcut_conv_num_int J =
     (if phi (fleft J) then (NEXTFOLD, J)
      else if conv_src (ir_op2 (fleft J)) = irt_num IRT_NUM \<and> irt_isguard (ir_t (fleft J)) then
        (FoldRef (ir_op1 (fleft J)), J)
      else (NEXTFOLD, J))"

definition simplify_conv_int_num :: fold_rule where
  "simplify_conv_int_num J =
     (if conv_src (ir_op2 (fleft J)) = conv_dst (op2 J) then (FoldRef (ir_op1 (fleft J)), J)
      else (NEXTFOLD, J))"

definition simplify_conv_i64_num :: fold_rule where
  "simplify_conv_i64_num J =
     (if phi (fleft J) then (NEXTFOLD, J)
      else if conv_src (ir_op2 (fleft J)) = irt_num IRT_INT then
        (RETRYFOLD, fins_op2 (irconv IRT_I64 IRT_INT OR IRCONV_SEXT) (fins_op1 (ir_op1 (fleft J)) J))
      else if conv_src (ir_op2 (fleft J)) = irt_num IRT_U32 then (FoldRef (ir_op1 (fleft J)), J)
      else (NEXTFOLD, J))"

definition simplify_conv_int_i64 :: fold_rule where
  "simplify_conv_int_i64 J =
     (if phi (fleft J) then (NEXTFOLD, J)
      else let src = conv_src (ir_op2 (fleft J)) in
        if src = irt_num IRT_INT \<or> src = irt_num IRT_U32 then
          if src = conv_dst (op2 J) then (FoldRef (ir_op1 (fleft J)), J)
          else (RETRYFOLD, fins_op1 (ir_op1 (fleft J)) (fins_op2 ((op2 J AND 0x3e0) OR src) J))
        else (NEXTFOLD, J))"

definition simplify_conv_flt_num :: fold_rule where
  "simplify_conv_flt_num J =
     (if phi (fleft J) then (NEXTFOLD, J)
      else if conv_src (ir_op2 (fleft J)) = irt_num IRT_FLOAT then (FoldRef (ir_op1 (fleft J)), J)
      else (NEXTFOLD, J))"

definition simplify_tobit_conv :: fold_rule where
  "simplify_tobit_conv J =
     (if conv_src (ir_op2 (fleft J)) = irt_num IRT_INT then (FoldRef (ir_op1 (fleft J)), J)
      else if conv_src (ir_op2 (fleft J)) = irt_num IRT_U32 then
        (RETRYFOLD, fins_op2 (irconv IRT_INT IRT_U32) (fins_op1 (ir_op1 (fleft J)) (fins_o IR_CONV J)))
      else (NEXTFOLD, J))"

definition simplify_floor_conv :: fold_rule where
  "simplify_floor_conv J =
     (if conv_src (ir_op2 (fleft J)) = irt_num IRT_INT \<or> conv_src (ir_op2 (fleft J)) = irt_num IRT_U32
      then LEFTFOLD J else (NEXTFOLD, J))"

definition simplify_conv_sext :: fold_rule where
  "simplify_conv_sext J =
     (let l = fleft J in
      if \<not> conv_sext (op2 J) then (NEXTFOLD, J)
      else if phi l then (NEXTFOLD, J)
      else if ir_o l = IR_XLOAD \<and> (irt_isu8 (ir_t l) \<or> irt_isu16 (ir_t l)) then LEFTFOLD J
      else
        let (ofs, ref) = (if ir_o l = IR_ADD \<and> irref_isk (ir_op2 l)
                          then (sint (ins_i (J_ir J (ir_op2 l))), ir_op1 l) else (0, op1 J));
            sc = J_scev J
        in if ref = scev_idx sc then
             let lo = (if scev_dir sc then scev_start sc else scev_stop sc)
             in if lo \<noteq> 0 \<and> sint (ins_i (J_ir J lo)) + ofs \<ge> 0 then LEFTFOLD J else (NEXTFOLD, J)
           else (NEXTFOLD, J))"

definition simplify_conv_narrow :: fold_func where
  "simplify_conv_narrow E J =
     (let op = ir_o (fleft J); t = irt_type (ir_t (fins J));
          a = ir_op1 (fleft J); b = ir_op2 (fleft J); mode = op2 J
      in if phi (fleft J) then Inr (NEXTFOLD, J)
         else bnd (emitir E IR_CONV (mk_irt IRT_INT) a mode) (\<lambda>a.
              bnd (emitir E IR_CONV (mk_irt IRT_INT) b mode) (\<lambda>b J.
                Inr (RETRYFOLD, fins_op2 b (fins_op1 a (fins_ot op (mk_irt t) J))))) J)"

definition cse_conv :: fold_rule where
  "cse_conv J =
     (let m = op2 J AND IRCONV_MODEMASK; g = irt_isguard (ir_t (fins J)) in
      case (if J_flags J AND JIT_F_OPT_CSE \<noteq> 0 then
              walk (J_ir J) (\<lambda>_ ir. ir_op1 ir = op1 J \<and> ir_op2 ir AND IRCONV_MODEMASK = m \<and>
                               (g \<longrightarrow> irt_isguard (ir_t ir))) (op1 J) (J_chain J IR_CONV)
            else None) of
        Some ref \<Rightarrow> (FoldRef ref, J)
      | None \<Rightarrow> emit_rule J)"

section \<open>Algebraic simplification of integers\<close>

definition simplify_intadd_k :: fold_rule where
  "simplify_intadd_k J = (if ins_i (fright J) = 0 then LEFTFOLD J else (NEXTFOLD, J))"

text \<open>The rule for \<open>MULOV\<close>.\<close>

definition simplify_intmulov_k :: fold_rule where
  "simplify_intmulov_k J =
     (if ins_i (fright J) = 0 then RIGHTFOLD J
      else if ins_i (fright J) = 1 then LEFTFOLD J
      else if ins_i (fright J) = 2 then (RETRYFOLD, fins_op2 (op1 J) (fins_o IR_ADDOV J))
      else (NEXTFOLD, J))"

definition simplify_intsub_k :: fold_rule where
  "simplify_intsub_k J =
     (if ins_i (fright J) = 0 then LEFTFOLD J
      else let (r, J1) = lj_ir_kint (- ins_i (fright J)) (fins_o IR_ADD J) in (RETRYFOLD, fins_op2 r J1))"

definition simplify_intsub_kleft :: fold_rule where
  "simplify_intsub_kleft J =
     (if (if ir_o (fleft J) = IR_KINT then ins_i (fleft J) = 0 else ir_k64 J (fleft J) = 0) then
        (RETRYFOLD, fins_op1 (op2 J) (fins_o IR_NEG J))
      else (NEXTFOLD, J))"

definition simplify_intadd_k64 :: fold_rule where
  "simplify_intadd_k64 J = (if ir_k64 J (fright J) = 0 then LEFTFOLD J else (NEXTFOLD, J))"

definition simplify_intsub_k64 :: fold_rule where
  "simplify_intsub_k64 J =
     (let k = ir_k64 J (fright J) in
      if k = 0 then LEFTFOLD J
      else let (r, J1) = lj_ir_kint64 (- k) (fins_o IR_ADD J) in (RETRYFOLD, fins_op2 r J1))"

definition simplify_intmul_k :: "u32 \<Rightarrow> fold_rule" where
  "simplify_intmul_k k J =
     (if k = 0 then RIGHTFOLD J
      else if k = 1 then LEFTFOLD J
      else if k AND (k - 1) = 0 then
        let (r, J1) = lj_ir_kint (word_of_nat (lj_fls k)) (fins_o IR_BSHL J) in (RETRYFOLD, fins_op2 r J1)
      else (NEXTFOLD, J))"

definition simplify_intmul_k32 :: fold_rule where
  "simplify_intmul_k32 J =
     (if sint (ins_i (fright J)) \<ge> 0 then simplify_intmul_k (ins_i (fright J)) J else (NEXTFOLD, J))"

definition simplify_intmul_k64 :: fold_rule where
  "simplify_intmul_k64 J =
     (if ir_k64 J (fright J) < 0x80000000 then simplify_intmul_k (ucast (ir_k64 J (fright J))) J
      else (NEXTFOLD, J))"

definition simplify_intmod_k :: fold_rule where
  "simplify_intmod_k J =
     (let k = ins_i (fright J) in
      if sint k > 0 \<and> k AND (k - 1) = 0 then
        let (r, J1) = lj_ir_kint (k - 1) (fins_o IR_BAND J) in (RETRYFOLD, fins_op2 r J1)
      else (NEXTFOLD, J))"

definition simplify_intmod_kleft :: fold_rule where
  "simplify_intmod_kleft J = (if ins_i (fleft J) = 0 then INTFOLD 0 J else (NEXTFOLD, J))"

text \<open>The constant zero of the type of the instruction.\<close>

definition zero_fold :: fold_rule where
  "zero_fold J = (if irt_is64 (ir_t (fins J)) then INT64FOLD 0 J else INTFOLD 0 J)"

definition simplify_intsub :: fold_rule where
  "simplify_intsub J =
     (if op1 J = op2 J \<and> \<not> irt_isnum (ir_t (fins J)) then zero_fold J else (NEXTFOLD, J))"

definition simplify_intsubadd_leftcancel :: fold_rule where
  "simplify_intsubadd_leftcancel J =
     (if irt_isnum (ir_t (fins J)) \<or> phi (fleft J) then (NEXTFOLD, J)
      else if op2 J = ir_op1 (fleft J) then (FoldRef (ir_op2 (fleft J)), J)
      else if op2 J = ir_op2 (fleft J) then (FoldRef (ir_op1 (fleft J)), J)
      else (NEXTFOLD, J))"

text \<open>\<open>0 - r\<close> in place of the instruction, where the zero is always the 32 bit constant.\<close>

definition neg_retry :: "nat \<Rightarrow> fold_rule" where
  "neg_retry r J = (let (z, J1) = lj_ir_kint 0 J in (RETRYFOLD, fins_op2 r (fins_op1 z J1)))"

definition simplify_intsubsub_leftcancel :: fold_rule where
  "simplify_intsubsub_leftcancel J =
     (if irt_isnum (ir_t (fins J)) \<or> phi (fleft J) then (NEXTFOLD, J)
      else if op2 J = ir_op1 (fleft J) then neg_retry (ir_op2 (fleft J)) J
      else (NEXTFOLD, J))"

definition simplify_intsubsub_rightcancel :: fold_rule where
  "simplify_intsubsub_rightcancel J =
     (if irt_isnum (ir_t (fins J)) \<or> phi (fright J) then (NEXTFOLD, J)
      else if op1 J = ir_op1 (fright J) then (FoldRef (ir_op2 (fright J)), J)
      else (NEXTFOLD, J))"

definition simplify_intsubadd_rightcancel :: fold_rule where
  "simplify_intsubadd_rightcancel J =
     (if irt_isnum (ir_t (fins J)) \<or> phi (fright J) then (NEXTFOLD, J)
      else if op1 J = ir_op1 (fright J) then neg_retry (ir_op2 (fright J)) J
      else if op1 J = ir_op2 (fright J) then neg_retry (ir_op1 (fright J)) J
      else (NEXTFOLD, J))"

definition simplify_intsubaddadd_cancel :: fold_rule where
  "simplify_intsubaddadd_cancel J =
     (let l = fleft J; r = fright J in
      if irt_isnum (ir_t (fins J)) \<or> phi l \<or> phi r then (NEXTFOLD, J)
      else if ir_op1 l = ir_op1 r then (RETRYFOLD, fins_op2 (ir_op2 r) (fins_op1 (ir_op2 l) J))
      else if ir_op1 l = ir_op2 r then (RETRYFOLD, fins_op2 (ir_op1 r) (fins_op1 (ir_op2 l) J))
      else if ir_op2 l = ir_op1 r then (RETRYFOLD, fins_op2 (ir_op2 r) (fins_op1 (ir_op1 l) J))
      else if ir_op2 l = ir_op2 r then (RETRYFOLD, fins_op2 (ir_op1 r) (fins_op1 (ir_op1 l) J))
      else (NEXTFOLD, J))"

text \<open>\<open>fright->o == IR_KINT ? (int64_t)fright->i : (int64_t)ir_k64(fright)->u64\<close>\<close>

definition k_of :: "jit_State \<Rightarrow> IRIns \<Rightarrow> u64" where
  "k_of J ir = (if ir_o ir = IR_KINT then scast (ins_i ir) else ir_k64 J ir)"

definition simplify_band_k :: fold_rule where
  "simplify_band_k J =
     (if k_of J (fright J) = 0 then RIGHTFOLD J else if k_of J (fright J) = - 1 then LEFTFOLD J
      else (NEXTFOLD, J))"

definition simplify_bor_k :: fold_rule where
  "simplify_bor_k J =
     (if k_of J (fright J) = 0 then LEFTFOLD J else if k_of J (fright J) = - 1 then RIGHTFOLD J
      else (NEXTFOLD, J))"

definition simplify_bxor_k :: fold_rule where
  "simplify_bxor_k J =
     (if k_of J (fright J) = 0 then LEFTFOLD J
      else if k_of J (fright J) = - 1 then (RETRYFOLD, fins_op2 0 (fins_o IR_BNOT J))
      else (NEXTFOLD, J))"

definition shift_mask :: "jit_State \<Rightarrow> u32" where
  "shift_mask J = (if irt_is64 (ir_t (fins J)) then 63 else 31)"

definition simplify_shift_ik :: fold_rule where
  "simplify_shift_ik J =
     (let mask = shift_mask J; k = ins_i (fright J) AND mask in
      if k = 0 then LEFTFOLD J
      else if k = 1 \<and> fo J = IR_BSHL then (RETRYFOLD, fins_op2 (op1 J) (fins_o IR_ADD J))
      else if k \<noteq> ins_i (fright J) then let (r, J1) = lj_ir_kint k J in (RETRYFOLD, fins_op2 r J1)
      else if fo J = IR_BROR then
        let (r, J1) = lj_ir_kint (- k AND mask) (fins_o IR_BROL J) in (RETRYFOLD, fins_op2 r J1)
      else (NEXTFOLD, J))"

definition simplify_shift_andk :: fold_rule where
  "simplify_shift_andk J =
     (let irk = J_ir J (ir_op2 (fright J)) in
      if phi (fright J) then (NEXTFOLD, J)
      else if ir_o irk = IR_KINT \<and> ins_i irk AND shift_mask J = shift_mask J then
        (RETRYFOLD, fins_op2 (ir_op1 (fright J)) J)
      else (NEXTFOLD, J))"

definition simplify_shift1_ki :: fold_rule where
  "simplify_shift1_ki J = (if k_of J (fleft J) = 0 then LEFTFOLD J else (NEXTFOLD, J))"

definition simplify_shift2_ki :: fold_rule where
  "simplify_shift2_ki J =
     (if k_of J (fleft J) = 0 \<or> k_of J (fleft J) = - 1 then LEFTFOLD J else (NEXTFOLD, J))"

definition simplify_shiftk_andk :: fold_func where
  "simplify_shiftk_andk E J =
     (let irk = J_ir J (ir_op2 (fleft J)) in
      if phi (fleft J) then Inr (NEXTFOLD, J)
      else if ir_o irk = IR_KINT then
        let k = kfold_intop (ins_i irk) (ins_i (fright J)) (fo J) in
        bnd (\<lambda>J. fe_fold E (fins_op1 (ir_op1 (fleft J)) J)) (\<lambda>r J.
          let J = fins_op1 r J; (z, J) = lj_ir_kint k J
          in Inr (RETRYFOLD, fins_ot IR_BAND (mk_irt IRT_INT) (fins_op2 z J))) J
      else Inr (NEXTFOLD, J))"

definition simplify_andk_shiftk :: fold_rule where
  "simplify_andk_shiftk J =
     (let irk = J_ir J (ir_op2 (fleft J)) in
      if ir_o irk = IR_KINT \<and> kfold_intop (- 1) (ins_i irk) (ir_o (fleft J)) = ins_i (fright J) then LEFTFOLD J
      else (NEXTFOLD, J))"

section \<open>Reassociation\<close>

definition reassoc_intarith_k :: fold_rule where
  "reassoc_intarith_k J =
     (let irk = J_ir J (ir_op2 (fleft J)) in
      if ir_o irk = IR_KINT then
        let k = kfold_intop (ins_i irk) (ins_i (fright J)) (fo J) in
        if k = ins_i irk then LEFTFOLD J
        else if phi (fleft J) then (NEXTFOLD, J)
        else let (r, J1) = lj_ir_kint k (fins_op1 (ir_op1 (fleft J)) J) in (RETRYFOLD, fins_op2 r J1)
      else (NEXTFOLD, J))"

definition reassoc_intarith_k64 :: fold_rule where
  "reassoc_intarith_k64 J =
     (let irk = J_ir J (ir_op2 (fleft J)) in
      if ir_o irk = IR_KINT64 then
        let k = kfold_int64op (ir_k64 J irk) (ir_k64 J (fright J)) (fo J) in
        if phi (fleft J) then (NEXTFOLD, J)
        else let (r, J1) = lj_ir_kint64 k (fins_op1 (ir_op1 (fleft J)) J) in (RETRYFOLD, fins_op2 r J1)
      else (NEXTFOLD, J))"

definition reassoc_dup :: fold_rule where
  "reassoc_dup J =
     (if op2 J = ir_op1 (fleft J) \<or> op2 J = ir_op2 (fleft J) then LEFTFOLD J else (NEXTFOLD, J))"

definition reassoc_bxor :: fold_rule where
  "reassoc_bxor J =
     (if phi (fleft J) then (NEXTFOLD, J)
      else if op2 J = ir_op1 (fleft J) then (FoldRef (ir_op2 (fleft J)), J)
      else if op2 J = ir_op2 (fleft J) then (FoldRef (ir_op1 (fleft J)), J)
      else (NEXTFOLD, J))"

definition reassoc_shift :: fold_rule where
  "reassoc_shift J =
     (let irk = J_ir J (ir_op2 (fleft J)); mask = shift_mask J in
      if phi (fleft J) then (NEXTFOLD, J)
      else if ir_o irk = IR_KINT then
        let k = (ins_i irk AND mask) + (ins_i (fright J) AND mask);
            retry = (\<lambda>k. let (r, J1) = lj_ir_kint k (fins_op1 (ir_op1 (fleft J)) J) in (RETRYFOLD, fins_op2 r J1))
        in if k > mask then
             (if fo J = IR_BSHL \<or> fo J = IR_BSHR then (if mask = 31 then INTFOLD 0 J else INT64FOLD 0 J)
              else if fo J = IR_BSAR then retry mask
              else retry (k AND mask))
           else retry k
      else (NEXTFOLD, J))"

definition reassoc_minmax_k :: "libm \<Rightarrow> fold_rule" where
  "reassoc_minmax_k lm J =
     (let irk = J_ir J (ir_op2 (fleft J)) in
      if ir_o irk = IR_KNUM then
        let a = ir_k64 J irk; y = lj_vm_foldarith lm a (knumright J) (fo J - IR_ADD) in
        if dbl_eq a y then LEFTFOLD J
        else if phi (fleft J) then (NEXTFOLD, J)
        else let (r, J1) = lj_ir_knum y (fins_op1 (ir_op1 (fleft J)) J) in (RETRYFOLD, fins_op2 r J1)
      else if ir_o irk = IR_KINT then
        let a = ins_i irk; y = kfold_intop a (ins_i (fright J)) (fo J) in
        if a = y then LEFTFOLD J
        else if phi (fleft J) then (NEXTFOLD, J)
        else let (r, J1) = lj_ir_kint y (fins_op1 (ir_op1 (fleft J)) J) in (RETRYFOLD, fins_op2 r J1)
      else (NEXTFOLD, J))"

definition reassoc_minmax_left :: fold_rule where
  "reassoc_minmax_left J =
     (if op2 J = ir_op1 (fleft J) \<or> op2 J = ir_op2 (fleft J) then RIGHTFOLD J else (NEXTFOLD, J))"

definition reassoc_minmax_right :: fold_rule where
  "reassoc_minmax_right J =
     (if op1 J = ir_op1 (fright J) \<or> op1 J = ir_op2 (fright J) then LEFTFOLD J else (NEXTFOLD, J))"

section \<open>Array bounds check elimination\<close>

definition opt_on :: "u32 \<Rightarrow> jit_State \<Rightarrow> bool" where
  "opt_on f J = (J_flags J AND f \<noteq> 0)"

definition abc_fwd :: fold_rule where
  "abc_fwd J =
     (let add2 = J_ir J (ir_op1 (fright J)) in
      if opt_on JIT_F_OPT_ABC J \<and> irref_isk (ir_op2 (fright J)) \<and>
         ir_o add2 = IR_ADD \<and> irref_isk (ir_op2 add2) \<and>
         ins_i (J_ir J (ir_op2 (fright J))) = - ins_i (J_ir J (ir_op2 add2)) then
        case walk (J_ir J) (\<lambda>_ ir. ir_op1 ir = op1 J \<and> ir_op2 ir = ir_op1 add2)
               (max (ir_op1 add2) (op1 J)) (J_chain J IR_ABC) of
          Some ref \<Rightarrow> (DROPFOLD, J)
        | None \<Rightarrow> (NEXTFOLD, J)
      else (NEXTFOLD, J))"

definition abc_k :: fold_rule where
  "abc_k J =
     (if opt_on JIT_F_OPT_ABC J then
        case walk (J_ir J) (\<lambda>_ ir. ir_op1 ir = op1 J \<and> irref_isk (ir_op2 ir)) (op1 J) (J_chain J IR_ABC) of
          Some ref \<Rightarrow>
            let ir = J_ir J ref; k = ins_i (J_ir J (ir_op2 ir)) in
            (DROPFOLD, if sint (ins_i (fright J)) > sint k then set_ir ref (ir\<lparr>ir_op2 := op2 J\<rparr>) J else J)
        | None \<Rightarrow> emit_rule J
      else (NEXTFOLD, J))"

definition abc_invar :: fold_rule where
  "abc_invar J =
     (if \<not> irt_isint (ir_t (fins J)) \<and> op1 J < J_chain J IR_LOOP \<and> \<not> phi (J_ir J (op1 J))
      then (DROPFOLD, J) else (NEXTFOLD, J))"

section \<open>Commutativity\<close>

definition comm_swap :: fold_rule where
  "comm_swap J =
     (if op1 J < op2 J then (RETRYFOLD, fins_op2 (op1 J) (fins_op1 (op2 J) J)) else (NEXTFOLD, J))"

definition comm_equal :: fold_rule where
  "comm_equal J =
     (if op1 J = op2 J \<and> \<not> irt_isnum (ir_t (fins J)) then (CONDFOLD (fo J = IR_EQ), J) else comm_swap J)"

definition comm_comp :: fold_rule where
  "comm_comp J =
     (if op1 J = op2 J \<and> \<not> irt_isnum (ir_t (fins J)) then
        (CONDFOLD ((fo J XOR drop_bit 1 (fo J)) AND 1 \<noteq> 0), J)
      else if op1 J < op2 J then
        (RETRYFOLD, fins_o (fo J XOR 3) (fins_op2 (op1 J) (fins_op1 (op2 J) J)))
      else (NEXTFOLD, J))"

definition comm_dup :: fold_rule where
  "comm_dup J = (if op1 J = op2 J then LEFTFOLD J else comm_swap J)"

definition comm_bxor :: fold_rule where
  "comm_bxor J = (if op1 J = op2 J then zero_fold J else comm_swap J)"

section \<open>Compound expressions\<close>

text \<open>The little-endian value of the first \<open>n\<close> bytes of a string (followed by its NUL).\<close>

definition get_le :: "nat \<Rightarrow> bytes \<Rightarrow> u64" where
  "get_le n s = foldr (\<lambda>i x. push_bit 8 x OR ucast (char_at s i)) [0..<n] 0"

text \<open>\<open>None\<close> for the result 0, which is no reference.\<close>

definition kfold_xload :: "IRType \<Rightarrow> bytes \<Rightarrow> jit_State \<Rightarrow> (nat \<times> jit_State) option" where
  "kfold_xload t p J =
     (case t of
        IRT_NUM \<Rightarrow> Some (lj_ir_knum_u64 (get_le 8 p) J)
      | IRT_I8 \<Rightarrow> Some (lj_ir_kint (scast (ucast (get_le 1 p) :: u8)) J)
      | IRT_U8 \<Rightarrow> Some (lj_ir_kint (ucast (get_le 1 p)) J)
      | IRT_I16 \<Rightarrow> Some (lj_ir_kint (scast (ucast (get_le 2 p) :: u16)) J)
      | IRT_U16 \<Rightarrow> Some (lj_ir_kint (ucast (get_le 2 p)) J)
      | IRT_INT \<Rightarrow> Some (lj_ir_kint (ucast (get_le 4 p)) J)
      | IRT_U32 \<Rightarrow> Some (lj_ir_kint (ucast (get_le 4 p)) J)
      | IRT_I64 \<Rightarrow> Some (lj_ir_kint64 (get_le 8 p) J)
      | IRT_U64 \<Rightarrow> Some (lj_ir_kint64 (get_le 8 p) J)
      | _ \<Rightarrow> None)"

definition mk_irtg :: "IRType \<Rightarrow> IRType1" where
  "mk_irtg t = (mk_irt t)\<lparr>irt_isguard := True\<rparr>"

definition IRXLOAD_READONLY :: nat where "IRXLOAD_READONLY = 1"
definition IRXLOAD_UNALIGNED :: nat where "IRXLOAD_UNALIGNED = 4"

text \<open>The part for strings of 1 to 4 bytes: load them and compare with the constant.\<close>

definition merge_load :: "fold_env \<Rightarrow> IROp \<Rightarrow> nat \<Rightarrow> bytes \<Rightarrow> FoldRes jit" where
  "merge_load E op strref kstr =
     (let len = length kstr;
          t = (if len = 1 then IRT_I8 else if len = 2 then IRT_U16 else IRT_INT)
      in bnd (emitir E IR_XLOAD (mk_irt t) strref (IRXLOAD_READONLY OR (if len > 1 then IRXLOAD_UNALIGNED else 0))) (\<lambda>tmp J.
         let (val, J) = (case kfold_xload (irt_type (ir_t (J_ir J tmp))) kstr J of Some r \<Rightarrow> r | None \<Rightarrow> (0, J)) in
         bnd (if len = 3 then (\<lambda>J. let (z, J) = lj_ir_kint 0x00ffffff J in emitir E IR_BAND (mk_irt IRT_INT) tmp z J)
              else ret tmp) (\<lambda>tmp J.
           Inr (RETRYFOLD, fins_ot op (mk_irtg IRT_INT) (fins_op2 val (fins_op1 tmp J)))) J))"

definition merge_eqne_snew_kgc :: fold_func where
  "merge_eqne_snew_kgc E J =
     (let kstr = ir_kstr (fright J); len = length kstr; l = fleft J; op = fo J; strref = ir_op1 l in
      if phi l then Inr (NEXTFOLD, J)
      else if len \<le> 4 then
        (if ir_o (J_ir J strref) \<noteq> IR_STRREF then Inr (NEXTFOLD, J)
         else if op = IR_EQ then
           bnd (\<lambda>J. let (k, J) = lj_ir_kint (word_of_nat len) J in emitir E IR_EQ (mk_irtg IRT_INT) (ir_op2 l) k J) (\<lambda>_.
             if len > 0 then merge_load E op strref kstr else ret DROPFOLD) J
         else if \<not> irref_isk (ir_op2 l) then Inr (NEXTFOLD, J)
         else if ins_i (J_ir J (ir_op2 l)) \<noteq> word_of_nat len then Inr (DROPFOLD, J)
         else if len > 0 then merge_load E op strref kstr J
         else Inr (DROPFOLD, J))
      else Inr (NEXTFOLD, J))"

end
