(* ===== verification/LJ_OptMem.thy ===== *)
theory LJ_OptMem
  imports LJ_Fold
begin

text \<open>
  Memory access optimisations (\<^verbatim>\<open>lj_opt_mem.c\<close>): alias analysis of table, upvalue, field and C data
  references, store-to-load and load-to-load forwarding, and the elimination of redundant stores.
\<close>

section \<open>Alias analysis of tables\<close>

datatype AliasRet = ALIAS_NO | ALIAS_MAY | ALIAS_MUST

text \<open>The numbers of the fields and of the C functions that the analysis tests for.\<close>

abbreviation IRFL_STR_LEN :: nat where "IRFL_STR_LEN \<equiv> 0"
abbreviation IRFL_FUNC_ENV :: nat where "IRFL_FUNC_ENV \<equiv> 1"
abbreviation IRFL_THREAD_ENV :: nat where "IRFL_THREAD_ENV \<equiv> 4"
abbreviation IRFL_TAB_META :: nat where "IRFL_TAB_META \<equiv> 5"
abbreviation IRFL_TAB_ARRAY :: nat where "IRFL_TAB_ARRAY \<equiv> 6"
abbreviation IRFL_TAB_NODE :: nat where "IRFL_TAB_NODE \<equiv> 7"
abbreviation IRFL_TAB_ASIZE :: nat where "IRFL_TAB_ASIZE \<equiv> 8"
abbreviation IRFL_TAB_HMASK :: nat where "IRFL_TAB_HMASK \<equiv> 9"
abbreviation IRFL_TAB_NOMM :: nat where "IRFL_TAB_NOMM \<equiv> 10"
abbreviation IRFL_CDATA_CTYPEID :: nat where "IRFL_CDATA_CTYPEID \<equiv> 14"
abbreviation IRFL_CDATA_PTR :: nat where "IRFL_CDATA_PTR \<equiv> 15"
abbreviation IRFL_CDATA_INT :: nat where "IRFL_CDATA_INT \<equiv> 16"
abbreviation IRFL_CDATA_INT64 :: nat where "IRFL_CDATA_INT64 \<equiv> 17"
abbreviation IRCALL_lj_tab_clear :: nat where "IRCALL_lj_tab_clear \<equiv> 28"
abbreviation IRDELTA_L2S :: nat where "IRDELTA_L2S \<equiv> IR_ASTORE - IR_ALOAD"

definition aa_escape :: "jit_State \<Rightarrow> nat \<Rightarrow> nat \<Rightarrow> AliasRet" where
  "aa_escape J ref stop =
     (if list_ex (\<lambda>r. ir_op2 (J_ir J r) = ref \<and>
           (ir_o (J_ir J r) = IR_ASTORE \<or> ir_o (J_ir J r) = IR_HSTORE \<or>
            ir_o (J_ir J r) = IR_USTORE \<or> ir_o (J_ir J r) = IR_FSTORE)) [Suc ref..<stop]
      then ALIAS_MAY else ALIAS_NO)"

definition is_tab_alloc :: "IRIns \<Rightarrow> bool" where
  "is_tab_alloc ir = (ir_o ir = IR_TNEW \<or> ir_o ir = IR_TDUP)"

definition aa_table :: "jit_State \<Rightarrow> nat \<Rightarrow> nat \<Rightarrow> AliasRet" where
  "aa_table J ta tb =
     (let newa = is_tab_alloc (J_ir J ta); newb = is_tab_alloc (J_ir J tb) in
      if newa \<and> newb then ALIAS_NO
      else if newb then aa_escape J tb ta
      else if \<not> newa then ALIAS_MAY
      else aa_escape J ta tb)"

text \<open>The key and the table of a reference to a slot of a table.\<close>

definition key_ref :: "jit_State \<Rightarrow> nat \<Rightarrow> nat" where
  "key_ref J k = (if ir_o (J_ir J k) = IR_KSLOT then ir_op1 (J_ir J k) else k)"

definition tab_ref :: "jit_State \<Rightarrow> IRIns \<Rightarrow> nat" where
  "tab_ref J ir = (if ir_o ir = IR_HREFK \<or> ir_o ir = IR_AREF then ir_op1 (J_ir J (ir_op1 ir)) else ir_op1 ir)"

text \<open>The offset of an array index \<open>t[base+-ofs]\<close>.\<close>

definition key_base :: "jit_State \<Rightarrow> nat \<Rightarrow> nat \<times> u32" where
  "key_base J k =
     (let key = J_ir J k in
      if ir_o key = IR_ADD \<and> irref_isk (ir_op2 key) then (ir_op1 key, ins_i (J_ir J (ir_op2 key))) else (k, 0))"

definition irt_sametype :: "IRType1 \<Rightarrow> IRType1 \<Rightarrow> bool" where
  "irt_sametype a b = (irt_type a = irt_type b)"

text \<open>\<open>same\<close> says that the two pointers are equal.\<close>

definition aa_ahref :: "jit_State \<Rightarrow> bool \<Rightarrow> IRIns \<Rightarrow> IRIns \<Rightarrow> AliasRet" where
  "aa_ahref J same refa refb =
     (let ka = key_ref J (ir_op2 refa); kb = key_ref J (ir_op2 refb);
          ta = tab_ref J refa; tb = tab_ref J refb;
          (basea, ofsa) = key_base J ka; (baseb, ofsb) = key_base J kb;
          tabs = (if ta = tb then ALIAS_MAY else aa_table J ta tb)
      in if same then ALIAS_MUST
         else if ka = kb then (if ta = tb then ALIAS_MUST else aa_table J ta tb)
         else if irref_isk ka \<and> irref_isk kb then ALIAS_NO
         else if ir_o refa = IR_AREF then
           (if basea = kb \<and> ofsa \<noteq> 0 then ALIAS_NO
            else if ka = baseb \<and> ofsb \<noteq> 0 then ALIAS_NO
            else if basea = baseb \<and> ofsa \<noteq> ofsb then ALIAS_NO
            else tabs)
         else if \<not> irt_sametype (ir_t (J_ir J ka)) (ir_t (J_ir J kb)) then ALIAS_NO
         else tabs)"

section \<open>Searching the chains\<close>

text \<open>The walk along a chain of stores, up to the first one that may alias; with the reference where it stops.\<close>

function scan_alias :: "(nat \<Rightarrow> IRIns) \<Rightarrow> (IRIns \<Rightarrow> AliasRet) \<Rightarrow> nat \<Rightarrow> nat \<Rightarrow> AliasRet \<times> nat" where
  "scan_alias ir aa lim ref =
     (if ref \<le> lim then (ALIAS_NO, ref)
      else case aa (ir ref) of
             ALIAS_NO \<Rightarrow> if ir_prev (ir ref) < ref then scan_alias ir aa lim (ir_prev (ir ref)) else (ALIAS_NO, 0)
           | a \<Rightarrow> (a, ref))"
  by pat_completeness auto
termination by (relation "measure (\<lambda>(ir, aa, lim, ref). ref)") auto

declare scan_alias.simps [simp del]

text \<open>What the walk of a store elimination decides: emit the store, drop it, or first remove the store at \<open>ref\<close>,
  which the chain pointer leads to.\<close>

datatype DseRes = DSE_emit | DSE_drop | DSE_kill ChainPtr nat

function dse_scan :: "(nat \<Rightarrow> IRIns) \<Rightarrow> (IRIns \<Rightarrow> AliasRet) \<Rightarrow> nat \<Rightarrow> nat \<Rightarrow> ChainPtr \<Rightarrow> nat \<Rightarrow> DseRes" where
  "dse_scan ir aa val lim refp ref =
     (if ref \<le> lim then DSE_emit
      else let store = ir ref;
               next = (if ir_prev store < ref then dse_scan ir aa val lim (CP_prev ref) (ir_prev store) else DSE_emit)
           in case aa store of
                ALIAS_NO \<Rightarrow> next
              | ALIAS_MAY \<Rightarrow> if ir_op2 store \<noteq> val then DSE_emit else next
              | ALIAS_MUST \<Rightarrow> if ir_op2 store = val then DSE_drop else DSE_kill refp ref)"
  by pat_completeness auto
termination by (relation "measure (\<lambda>(ir, aa, v, lim, p, ref). ref)") auto

declare dse_scan.simps [simp del]

text \<open>Removing the store: out of its chain, and a \<open>NOP\<close> in its place.\<close>

definition kill_ins :: "ChainPtr \<Rightarrow> nat \<Rightarrow> jit_State \<Rightarrow> jit_State" where
  "kill_ins refp ref J =
     (let store = J_ir J ref; J = store_chain (ir_o store) refp (ir_prev store) J
      in set_ir ref (nop_ins (J_ir J ref)) J)"

text \<open>The check for an instruction with \<open>P\<close> between the store and the end of the trace.\<close>

definition ins_between :: "jit_State \<Rightarrow> (IRIns \<Rightarrow> bool) \<Rightarrow> nat \<Rightarrow> bool" where
  "ins_between J P ref = list_ex (\<lambda>r. P (J_ir J r)) [Suc ref..<J_nins J]"

section \<open>ALOAD/HLOAD forwarding and ASTORE/HSTORE elimination\<close>

text \<open>The last part of the search for a load: a matching load above \<open>lim\<close>, or 0.\<close>

definition find_load :: "nat \<Rightarrow> nat \<Rightarrow> jit_State \<Rightarrow> nat" where
  "find_load xref lim J =
     (case walk (J_ir J) (\<lambda>_ ir. ir_op1 ir = xref) lim (J_chain J (fo J)) of Some r \<Rightarrow> r | None \<Rightarrow> 0)"

definition irt_ispri :: "IRType1 \<Rightarrow> bool" where
  "irt_ispri t = (irt_type t \<in> {IRT_NIL, IRT_FALSE, IRT_TRUE})"

text \<open>The constant that a load from a fresh table yields; \<open>None\<close> if it is not interned.\<close>

definition fwd_const :: "fold_env \<Rightarrow> IRIns \<Rightarrow> IRIns \<Rightarrow> jit_State \<Rightarrow> (nat \<times> jit_State) option" where
  "fwd_const E xr tdup J =
     (let t = ir_t (fins J) in
      if irt_ispri t then Some (REF_NIL - irt_num (irt_type t), J)
      else if irt_isnum t \<or> irt_type t = IRT_STR then
        let key = J_ir J (key_ref J (ir_op2 xr));
            tab = (case ir_val (J_ir J (ir_op1 tdup)) of IV_gc g \<Rightarrow> g | _ \<Rightarrow> GCO_other 0);
            tv = fe_tab E tab (lj_ir_kvalue J key)
        in case tv of
             KV_num n \<Rightarrow> Some (lj_ir_knum_u64 n J)
           | KV_gc g \<Rightarrow> Some (lj_ir_kgc g IRT_STR J)
           | _ \<Rightarrow> None
      else None)"

definition fwd_ahload :: "fold_env \<Rightarrow> nat \<Rightarrow> jit_State \<Rightarrow> nat \<times> jit_State" where
  "fwd_ahload E xref J =
     (let ir = J_ir J; xr = ir xref;
          aa = (\<lambda>store. aa_ahref J (ir_op1 store = xref) xr (ir (ir_op1 store)));
          cselim = (\<lambda>lim. (find_load xref lim J, J))
      in case scan_alias ir aa xref (J_chain J (fo J + IRDELTA_L2S)) of
           (ALIAS_MAY, ref) \<Rightarrow> cselim ref
         | (ALIAS_MUST, ref) \<Rightarrow> (ir_op2 (ir ref), J)
         | (ALIAS_NO, ref) \<Rightarrow>
             let tab = (if ir_o xr = IR_HREFK \<or> ir_o xr = IR_AREF then ir_op1 (ir (ir_op1 xr)) else ir_op1 xr);
                 alloc = ir tab
             in if ir_o alloc = IR_TNEW \<or> (ir_o alloc = IR_TDUP \<and> irref_isk (ir_op2 xr)) then
                  if ir_o xr = IR_AREF \<and>
                     walk ir (\<lambda>_ newref. irt_isnum (ir_t (ir (ir_op2 newref)))) tab (J_chain J IR_NEWREF) \<noteq> None
                  then cselim xref
                  else (case scan_alias ir aa tab ref of
                          (ALIAS_MAY, _) \<Rightarrow> cselim xref
                        | (ALIAS_MUST, ref) \<Rightarrow> (ir_op2 (ir ref), J)
                        | (ALIAS_NO, _) \<Rightarrow>
                            (case fwd_const E xr alloc J of Some r \<Rightarrow> r | None \<Rightarrow> cselim xref))
                else cselim xref)"

definition fwd_aload_reassoc :: "fold_env \<Rightarrow> jit_State \<Rightarrow> nat \<times> jit_State" where
  "fwd_aload_reassoc E J =
     (let ir = J_ir J; irx = ir (op1 J); key = ir (ir_op2 irx); add2 = ir (ir_op1 key) in
      if ir_o key = IR_ADD \<and> irref_isk (ir_op2 key) \<and> ir_o add2 = IR_ADD \<and> irref_isk (ir_op2 add2) \<and>
         ins_i (ir (ir_op2 key)) = - ins_i (ir (ir_op2 add2)) then
        case walk ir (\<lambda>_ i. ir_op1 i = ir_op1 irx \<and> ir_op2 i = ir_op1 add2)
               (max (ir_op1 add2) (ir_op1 irx)) (J_chain J IR_AREF) of
          Some ref \<Rightarrow> fwd_ahload E ref J
        | None \<Rightarrow> (0, J)
      else (0, J))"

definition lj_opt_fwd_aload :: "fold_env \<Rightarrow> fold_rule" where
  "lj_opt_fwd_aload E J =
     (let (ref, J) = fwd_ahload E (op1 J) J in
      if ref \<noteq> 0 then (FoldRef ref, J)
      else let (ref, J) = fwd_aload_reassoc E J in
        if ref \<noteq> 0 then (FoldRef ref, J) else emit_rule J)"

definition lj_opt_fwd_hload :: "fold_env \<Rightarrow> fold_rule" where
  "lj_opt_fwd_hload E J =
     (let (ref, J) = fwd_ahload E (op1 J) J in if ref \<noteq> 0 then (FoldRef ref, J) else emit_rule J)"

text \<open>The walk over the \<open>NEWREF\<close>s: forward from one of them, or CSE; \<open>drop\<close> says that no conflict was found.\<close>

datatype HrefkRes = HREFK_fwd nat | HREFK_cse bool

function hrefk_scan :: "jit_State \<Rightarrow> nat \<Rightarrow> nat \<Rightarrow> HrefkRes" where
  "hrefk_scan J tab ref =
     (if ref \<le> tab then HREFK_cse True
      else let newref = J_ir J ref in
        if tab = ir_op1 newref then
          (if ir_op1 (fright J) = ir_op2 newref then HREFK_fwd ref else HREFK_cse False)
        else if aa_table J tab (ir_op1 newref) \<noteq> ALIAS_NO then HREFK_cse False
        else if ir_prev newref < ref then hrefk_scan J tab (ir_prev newref) else HREFK_cse True)"
  by pat_completeness auto
termination by (relation "measure (\<lambda>(J, tab, ref). ref)") auto

declare hrefk_scan.simps [simp del]

definition lj_opt_fwd_hrefk :: fold_rule where
  "lj_opt_fwd_hrefk J =
     (let tab = ir_op1 (fleft J) in
      case hrefk_scan J tab (J_chain J IR_NEWREF) of
        HREFK_fwd ref \<Rightarrow> (FoldRef ref, J)
      | HREFK_cse noconf \<Rightarrow>
          let t = ir_t (fins J);
              J = (if noconf \<and> ir_o (J_ir J tab) = IR_TDUP
                   then J\<lparr>J_ins := (fins J)\<lparr>ir_t := t\<lparr>irt_isguard := False\<rparr>\<rparr>\<rparr> else J)
          in cse_rule J)"

definition lj_opt_fwd_href_nokey :: "jit_State \<Rightarrow> bool" where
  "lj_opt_fwd_href_nokey J =
     (let lim = op1 J; ir = J_ir J; newref = J_chain J IR_NEWREF in
      \<not> (irt_isnum (ir_t (fright J)) \<and> newref > lim \<and>
         walk ir (\<lambda>ref _. ref < newref) lim (J_chain J IR_ASTORE) \<noteq> None) \<and>
      fst (scan_alias ir (\<lambda>store. aa_ahref J False (fins J) (ir (ir_op1 store))) lim (J_chain J IR_HSTORE)) = ALIAS_NO)"

definition fwd_aa_tab_clear :: "jit_State \<Rightarrow> nat \<Rightarrow> nat \<Rightarrow> bool" where
  "fwd_aa_tab_clear J lim ta =
     (walk (J_ir J) (\<lambda>_ calls. ir_op2 calls = IRCALL_lj_tab_clear \<and>
        (ta = ir_op1 calls \<or> aa_table J ta (ir_op1 calls) \<noteq> ALIAS_NO)) lim (J_chain J IR_CALLS) = None)"

definition lj_opt_fwd_tptr :: "jit_State \<Rightarrow> nat \<Rightarrow> bool" where
  "lj_opt_fwd_tptr J lim =
     (let ta = op1 J in
      walk (J_ir J) (\<lambda>_ newref. ta = ir_op1 newref \<or> aa_table J ta (ir_op1 newref) \<noteq> ALIAS_NO)
        lim (J_chain J IR_NEWREF) = None \<and>
      fwd_aa_tab_clear J lim ta)"

definition lj_opt_dse_ahstore :: fold_rule where
  "lj_opt_dse_ahstore J =
     (let ir = J_ir J; xref = op1 J in
      case dse_scan ir (\<lambda>store. aa_ahref J (ir_op1 store = xref) (ir xref) (ir (ir_op1 store))) (op2 J) xref
             CP_anchor (J_chain J (fo J)) of
        DSE_emit \<Rightarrow> emit_rule J
      | DSE_drop \<Rightarrow> (DROPFOLD, J)
      | DSE_kill refp ref \<Rightarrow>
          if ref > J_chain J IR_LOOP \<and> \<not> ins_between J (\<lambda>i. irt_isguard (ir_t i) \<or> ir_o i = IR_CALLL) ref
          then emit_rule (kill_ins refp ref J) else emit_rule J)"

section \<open>Upvalues\<close>

definition aa_uref :: "IRIns \<Rightarrow> IRIns \<Rightarrow> AliasRet" where
  "aa_uref refa refb =
     (if ir_o refa \<noteq> ir_o refb then ALIAS_NO
      else if ir_op1 refa = ir_op1 refb then
        (if ir_op2 refa = ir_op2 refb then ALIAS_MUST else ALIAS_NO)
      else if (ir_op2 refa XOR ir_op2 refb) AND 0xff \<noteq> 0 then ALIAS_NO else ALIAS_MAY)"

definition lj_opt_fwd_uload :: fold_rule where
  "lj_opt_fwd_uload J =
     (let ir = J_ir J; uref = op1 J; xr = ir uref;
          cselim = (\<lambda>lim. case walk ir (\<lambda>_ i. ir_op1 i = uref \<or>
                (ir_op1 (ir (ir_op1 i)) = ir_op1 xr \<and> ir_op2 (ir (ir_op1 i)) = ir_op2 xr \<and>
                 ir_o (ir (ir_op1 i)) = ir_o xr)) lim (J_chain J IR_ULOAD) of
              Some ref \<Rightarrow> (FoldRef ref, J)
            | None \<Rightarrow> emit_rule J)
      in case scan_alias ir (\<lambda>store. aa_uref xr (ir (ir_op1 store))) REF_BASE (J_chain J IR_USTORE) of
           (ALIAS_NO, _) \<Rightarrow> cselim REF_BASE
         | (ALIAS_MAY, ref) \<Rightarrow> cselim ref
         | (ALIAS_MUST, ref) \<Rightarrow> (FoldRef (ir_op2 (ir ref)), J))"

text \<open>The chain pointer to the \<open>OBAR\<close> behind a store.\<close>

function obar_ptr :: "(nat \<Rightarrow> IRIns) \<Rightarrow> nat \<Rightarrow> ChainPtr \<Rightarrow> nat \<Rightarrow> ChainPtr \<times> nat" where
  "obar_ptr ir lim bp b =
     (if b > lim \<and> ir_prev (ir b) < b then obar_ptr ir lim (CP_prev b) (ir_prev (ir b)) else (bp, b))"
  by pat_completeness auto
termination by (relation "measure (\<lambda>(ir, lim, bp, b). b)") auto

declare obar_ptr.simps [simp del]

definition lj_opt_dse_ustore :: fold_rule where
  "lj_opt_dse_ustore J =
     (let ir = J_ir J; xref = op1 J in
      case dse_scan ir (\<lambda>store. aa_uref (ir xref) (ir (ir_op1 store))) (op2 J) xref
             CP_anchor (J_chain J IR_USTORE) of
        DSE_emit \<Rightarrow> emit_rule J
      | DSE_drop \<Rightarrow> (DROPFOLD, J)
      | DSE_kill refp ref \<Rightarrow>
          if ref > J_chain J IR_LOOP \<and> \<not> ins_between J (\<lambda>i. irt_isguard (ir_t i)) ref then
            let J = kill_ins refp ref J;
                J = (if ref + 1 < J_nins J \<and> ir_o (J_ir J (ref + 1)) = IR_OBAR \<and> ir_op1 (J_ir J (ref + 1)) = xref then
                       let (bp, b) = obar_ptr (J_ir J) (ref + 1) CP_anchor (J_chain J IR_OBAR) in kill_ins bp b J
                     else J)
            in emit_rule J
          else emit_rule J)"

section \<open>Fields\<close>

definition aa_fref :: "jit_State \<Rightarrow> IRIns \<Rightarrow> IRIns \<Rightarrow> AliasRet" where
  "aa_fref J refa refb =
     (if ir_op2 refa \<noteq> ir_op2 refb then ALIAS_NO
      else if ir_op1 refa = ir_op1 refb then ALIAS_MUST
      else if ir_op2 refa \<ge> IRFL_TAB_META \<and> ir_op2 refa \<le> IRFL_TAB_NOMM then
        aa_table J (ir_op1 refa) (ir_op1 refb)
      else ALIAS_MAY)"

definition lj_opt_fwd_fload :: fold_rule where
  "lj_opt_fwd_fload J =
     (let ir = J_ir J; oref = op1 J in
      case scan_alias ir (\<lambda>store. aa_fref J (fins J) (ir (ir_op1 store))) oref (J_chain J IR_FSTORE) of
        (ALIAS_MAY, ref) \<Rightarrow> ref_fold (lj_opt_cselim ref J)
      | (ALIAS_MUST, ref) \<Rightarrow> (FoldRef (ir_op2 (ir ref)), J)
      | (ALIAS_NO, _) \<Rightarrow>
          if op2 J = IRFL_TAB_META \<and> is_tab_alloc (ir oref) then ref_fold (lj_ir_knull IRT_TAB J)
          else ref_fold (lj_opt_cselim oref J))"

definition lj_opt_dse_fstore :: fold_rule where
  "lj_opt_dse_fstore J =
     (let ir = J_ir J; fref = op1 J; xr = ir fref in
      case dse_scan ir (\<lambda>store. aa_fref J xr (ir (ir_op1 store))) (op2 J) fref CP_anchor (J_chain J IR_FSTORE) of
        DSE_emit \<Rightarrow> emit_rule J
      | DSE_drop \<Rightarrow> (DROPFOLD, J)
      | DSE_kill refp ref \<Rightarrow>
          if ref > J_chain J IR_LOOP \<and>
             \<not> ins_between J (\<lambda>i. irt_isguard (ir_t i) \<or> (ir_o i = IR_FLOAD \<and> ir_op2 i = ir_op2 xr)) ref
          then emit_rule (kill_ins refp ref J) else emit_rule J)"

section \<open>C data\<close>

text \<open>The allocation that a pointer is computed from. Operands of an instruction are lower references.\<close>

function aa_findcnew :: "(nat \<Rightarrow> IRIns) \<Rightarrow> nat \<Rightarrow> nat option" where
  "aa_findcnew ir ref =
     (let i = ir ref in
      if ir_o i = IR_ADD then
        case (if \<not> irref_isk (ir_op1 i) \<and> ir_op1 i < ref then aa_findcnew ir (ir_op1 i) else None) of
          Some r \<Rightarrow> Some r
        | None \<Rightarrow>
            if irref_isk (ir_op2 i) then None
            else if ir_op2 i < ref then aa_findcnew ir (ir_op2 i) else None
      else if ir_o i = IR_CNEW then Some ref else None)"
  by pat_completeness auto
termination by (relation "measure (\<lambda>(ir, ref). ref)") (auto split: if_splits)

declare aa_findcnew.simps [simp del]

definition aa_cnew :: "jit_State \<Rightarrow> nat \<Rightarrow> nat \<Rightarrow> AliasRet" where
  "aa_cnew J refa refb =
     (let cnewa = aa_findcnew (J_ir J) refa; cnewb = aa_findcnew (J_ir J) refb in
      if cnewa = cnewb then ALIAS_MAY
      else case (cnewa, cnewb) of
             (Some a, Some b) \<Rightarrow> ALIAS_NO
           | (Some a, None) \<Rightarrow> aa_escape J a refb
           | (None, Some b) \<Rightarrow> aa_escape J b refa
           | (None, None) \<Rightarrow> ALIAS_MAY)"

text \<open>A pointer as base and offset.\<close>

definition ofs_of :: "jit_State \<Rightarrow> IRIns \<Rightarrow> u64" where
  "ofs_of J irk = (if ir_o irk = IR_KINT64 then ir_k64 J irk else scast (ins_i irk))"

definition ptr_base :: "jit_State \<Rightarrow> nat \<Rightarrow> nat \<times> u64" where
  "ptr_base J ref =
     (let i = J_ir J ref in
      if ir_o i = IR_ADD \<and> irref_isk (ir_op2 i) then (ir_op1 i, ofs_of J (J_ir J (ir_op2 i))) else (ref, 0))"

definition ins_ptr :: "IRIns \<Rightarrow> u64" where
  "ins_ptr i = (case ir_val i of IV_ptr p \<Rightarrow> p | _ \<Rightarrow> 0)"

definition irt_isfp :: "IRType1 \<Rightarrow> bool" where
  "irt_isfp t = (irt_type t = IRT_NUM \<or> irt_type t = IRT_FLOAT)"

text \<open>Two integer types that differ in their signedness only.\<close>

definition irt_signpair :: "IRType1 \<Rightarrow> IRType1 \<Rightarrow> bool" where
  "irt_signpair a b =
     (irt_num IRT_I8 \<le> irt_num (irt_type a) \<and> irt_num (irt_type a) \<le> irt_num IRT_U64 \<and>
      (uint (irt_byte a) - int (irt_num IRT_I8)) XOR (uint (irt_byte b) - int (irt_num IRT_I8)) = 1)"

definition aa_xref :: "jit_State \<Rightarrow> nat \<Rightarrow> IRIns \<Rightarrow> IRIns \<Rightarrow> AliasRet" where
  "aa_xref J refa xa xb =
     (let refb = ir_op1 xb;
          (basea, ofsa) = ptr_base J refa; (baseb, ofsb) = ptr_base J refb;
          kp = (ir_o (J_ir J basea) = IR_KPTR \<and> ir_o (J_ir J baseb) = IR_KPTR);
          ofsb = (if kp then ofsb + ins_ptr (J_ir J baseb) - ins_ptr (J_ir J basea) else ofsb);
          baseb = (if kp then basea else baseb)
      in if refa = refb \<and> irt_sametype (ir_t xa) (ir_t xb) then ALIAS_MUST
         else if basea = baseb then
           let sza = int (lj_ir_type_size (irt_type (ir_t xa))); szb = int (lj_ir_type_size (irt_type (ir_t xb))) in
           if ofsa = ofsb then
             (if sza = szb \<and> irt_isfp (ir_t xa) = irt_isfp (ir_t xb) then ALIAS_MUST else ALIAS_MAY)
           else if sint ofsa + sza \<le> sint ofsb \<or> sint ofsb + szb \<le> sint ofsa then ALIAS_NO
           else ALIAS_MAY
         else if \<not> irt_sametype (ir_t xa) (ir_t xb) \<and> \<not> irt_signpair (ir_t xa) (ir_t xb) then ALIAS_NO
         else aa_cnew J basea baseb)"

definition reassoc_trycse :: "jit_State \<Rightarrow> IROp \<Rightarrow> nat \<Rightarrow> nat \<Rightarrow> nat" where
  "reassoc_trycse J op o1 o2 =
     (let lim = max o1 o2; (o1, o2) = (if o2 > o1 then (o2, o1) else (o1, o2)) in
      case walk (J_ir J) (\<lambda>_ i. ir_op1 i = o1 \<and> ir_op2 i = o2) lim (J_chain J op) of Some r \<Rightarrow> r | None \<Rightarrow> 0)"

text \<open>Reassociation of an index reference; 0 for a failure.\<close>

definition reassoc_xref :: "nat \<Rightarrow> jit_State \<Rightarrow> nat \<times> jit_State" where
  "reassoc_xref ref J =
     (let (ref, ofs) = ptr_base J ref; ir = J_ir J ref in
      if ir_o ir = IR_ADD then
        let i1 = J_ir J (ir_op1 ir);
            (same, ir1, shift) =
              (if ir_o i1 = IR_BSHL \<and> irref_isk (ir_op2 i1) then (False, i1, unat (ins_i (J_ir J (ir_op2 i1))))
               else if ir_o i1 = IR_ADD \<and> ir_op1 i1 = ir_op2 i1 then (False, i1, 1)
               else (True, ir, 0));
            ir2 = J_ir J (ir_op1 ir1)
        in if ir_o ir2 = IR_ADD \<and> irt_isint (ir_t ir2) \<and> irref_isk (ir_op2 ir2) then
             let ofs = ofs + push_bit shift (scast (ins_i (J_ir J (ir_op2 ir2))));
                 idx = ir_op1 ir2;
                 idx = (if same then idx
                        else reassoc_trycse J (ir_o ir1) idx (if ir_o ir1 = IR_BSHL then ir_op2 ir1 else idx))
             in if \<not> same \<and> idx = 0 then (0, J)
                else let idx = reassoc_trycse J IR_ADD idx (ir_op2 ir) in
                  if idx = 0 then (0, J)
                  else if ofs \<noteq> 0 then
                    let (refk, J) = lj_ir_kint64 ofs J in (reassoc_trycse J IR_ADD idx refk, J)
                  else (idx, J)
           else (0, J)
      else (0, J))"

definition IRXLOAD_VOLATILE :: nat where "IRXLOAD_VOLATILE = 2"

text \<open>Forwarding of a stored value to a load of another type goes through a conversion.\<close>

definition xload_fwd :: "nat \<Rightarrow> fold_rule" where
  "xload_fwd val J =
     (let dt = irt_type (ir_t (fins J)); st = irt_type (ir_t (J_ir J val)) in
      if \<not> irt_sametype (ir_t (fins J)) (ir_t (J_ir J val)) then
        let (dt, m) = (if dt = IRT_I8 \<or> dt = IRT_I16 then (IRT_INT, irt_num dt OR IRCONV_SEXT)
                       else if dt = IRT_U8 \<or> dt = IRT_U16 then (IRT_INT, irt_num dt)
                       else (dt, irt_num st))
        in (RETRYFOLD, fins_op2 (push_bit 5 (irt_num dt) OR m) (fins_op1 val (fins_ot IR_CONV (mk_irt dt) J)))
      else (FoldRef val, J))"

definition xload_lim :: "jit_State \<Rightarrow> nat \<Rightarrow> nat" where
  "xload_lim J lim = max (max lim (J_chain J IR_CALLXS)) (J_chain J IR_XBAR)"

text \<open>The search for a matching load.\<close>

definition xload_cse :: "jit_State \<Rightarrow> nat \<Rightarrow> nat \<Rightarrow> nat option" where
  "xload_cse J xref lim =
     walk (J_ir J) (\<lambda>_ i. ir_op1 i = xref \<and> irt_sametype (ir_t i) (ir_t (fins J))) lim (J_chain J IR_XLOAD)"

text \<open>The second pass, for the reassociated reference, which is another one than \<open>fins->op1\<close>.\<close>

definition xload_retry :: "nat \<Rightarrow> nat \<Rightarrow> fold_rule" where
  "xload_retry xref lim0 J =
     (let ref = snd (scan_alias (J_ir J) (\<lambda>_. ALIAS_NO) lim0 (J_chain J IR_XSTORE));
          lim = xload_lim J xref;
          cselim = (\<lambda>lim. case xload_cse J xref lim of Some r \<Rightarrow> (FoldRef r, J) | None \<Rightarrow> emit_rule J)
      in case scan_alias (J_ir J) (aa_xref J xref (fins J)) lim ref of
           (ALIAS_NO, _) \<Rightarrow> cselim lim
         | (ALIAS_MAY, ref) \<Rightarrow> cselim ref
         | (ALIAS_MUST, ref) \<Rightarrow> xload_fwd (ir_op2 (J_ir J ref)) J)"

definition lj_opt_fwd_xload :: fold_rule where
  "lj_opt_fwd_xload J =
     (let xref = op1 J; ro = (op2 J AND IRXLOAD_READONLY \<noteq> 0);
          cselim = (\<lambda>lim. case xload_cse J xref lim of
              Some r \<Rightarrow> (FoldRef r, J)
            | None \<Rightarrow>
                if \<not> ro \<and> J_chain J IR_LOOP \<noteq> 0 then
                  let (xref', J) = reassoc_xref xref J in
                  if xref' \<noteq> 0 then xload_retry xref' lim J else emit_rule J
                else emit_rule J);
          lim = xload_lim J xref
      in if ro then cselim xref
         else if op2 J AND IRXLOAD_VOLATILE \<noteq> 0 then emit_rule J
         else case scan_alias (J_ir J) (aa_xref J xref (fins J)) lim (J_chain J IR_XSTORE) of
           (ALIAS_NO, _) \<Rightarrow> cselim lim
         | (ALIAS_MAY, ref) \<Rightarrow> cselim ref
         | (ALIAS_MUST, ref) \<Rightarrow> xload_fwd (ir_op2 (J_ir J ref)) J)"

definition lj_opt_dse_xstore :: fold_rule where
  "lj_opt_dse_xstore J =
     (let xref = op1 J; lim = max (xload_lim J xref) (J_chain J IR_XSNEW) in
      case dse_scan (J_ir J) (aa_xref J xref (fins J)) (op2 J) lim CP_anchor (J_chain J IR_XSTORE) of
        DSE_emit \<Rightarrow> emit_rule J
      | DSE_drop \<Rightarrow> (DROPFOLD, J)
      | DSE_kill refp ref \<Rightarrow>
          if ref > J_chain J IR_LOOP \<and> \<not> ins_between J (\<lambda>i. irt_isguard (ir_t i) \<or> ir_o i = IR_XLOAD) ref
          then emit_rule (kill_ins refp ref J) else emit_rule J)"

section \<open>The length of a table, and previous values\<close>

definition lj_opt_fwd_tab_len :: fold_rule where
  "lj_opt_fwd_tab_len J =
     (let ir = J_ir J; tab = op1 J; lim = max tab (J_chain J IR_ASTORE);
          lim = (case walk ir (\<lambda>_ store. irt_isnum (ir_t (ir (key_ref J (ir_op2 (ir (ir_op1 store)))))))
                        lim (J_chain J IR_HSTORE) of Some ref \<Rightarrow> ref | None \<Rightarrow> lim)
      in if \<not> fwd_aa_tab_clear J lim tab then emit_rule J else ref_fold (lj_opt_cselim lim J))"

text \<open>The walk over the stores: \<open>Some b\<close> if it decides.\<close>

function wasnonnil_scan :: "jit_State \<Rightarrow> IROp \<Rightarrow> nat \<Rightarrow> nat \<Rightarrow> bool option" where
  "wasnonnil_scan J loadop xref ref =
     (if ref \<le> xref then None
      else let store = J_ir J ref; nil = (irt_type (ir_t store) = IRT_NIL);
               skref = ir_op2 (J_ir J (ir_op1 store)); xkref = ir_op2 (J_ir J xref)
           in if ir_op1 store = xref then Some (\<not> nil)
              else if nil \<and> (loadop = IR_ALOAD \<or> irt_sametype (ir_t (J_ir J skref)) (ir_t (J_ir J xkref))) \<and>
                      (skref = xkref \<or> \<not> irref_isk skref \<or> \<not> irref_isk xkref) then Some False
              else if ir_prev store < ref then wasnonnil_scan J loadop xref (ir_prev store) else None)"
  by pat_completeness auto
termination by (relation "measure (\<lambda>(J, l, x, ref). ref)") auto

declare wasnonnil_scan.simps [simp del]

definition lj_opt_fwd_wasnonnil :: "jit_State \<Rightarrow> IROp \<Rightarrow> nat \<Rightarrow> bool" where
  "lj_opt_fwd_wasnonnil J loadop xref =
     (case wasnonnil_scan J loadop xref (J_chain J (loadop + IRDELTA_L2S)) of
        Some b \<Rightarrow> b
      | None \<Rightarrow>
          (case walk (J_ir J) (\<lambda>_ load. ir_op1 load = xref) xref (J_chain J loadop) of
             Some ref \<Rightarrow> irt_type (ir_t (J_ir J ref)) \<noteq> IRT_NIL
           | None \<Rightarrow> False))"

end
