(* ===== verification/LJ_Narrow.thy ===== *)
theory LJ_Narrow
  imports LJ_Fold
begin

text \<open>
  Narrowing of numbers to integers (\<^verbatim>\<open>lj_opt_narrow.c\<close>): demand-driven backpropagation of conversions with its
  cache and its stack machine, stripping of overflow checks, and the narrowing of arithmetic operators and
  of the induction variable of a loop.

  The instruction stack of the code has \<open>NARROW_MAX_STACK\<close> words, an integer constant takes two of them; it is the
  list \<open>st\<close> here, in order, and the stack pointer is its size in words (\<open>st_size\<close>).
\<close>

section \<open>The instructions of the stack machine\<close>

datatype NarrowIns = NARROW_REF nat | NARROW_CONV nat | NARROW_SEXT | NARROW_INT u32 | NARROW_OP IROp IRType nat

definition NARROW_MAX_BACKPROP :: nat where "NARROW_MAX_BACKPROP = 100"
definition NARROW_MAX_STACK :: nat where "NARROW_MAX_STACK = 256"
definition BPROP_SLOTS :: nat where "BPROP_SLOTS = 16"

definition ins_size :: "NarrowIns \<Rightarrow> nat" where
  "ins_size i = (case i of NARROW_INT _ \<Rightarrow> 2 | _ \<Rightarrow> 1)"

definition st_size :: "NarrowIns list \<Rightarrow> nat" where
  "st_size st = sum_list (map ins_size st)"

text \<open>\<open>nc->sp < nc->maxsp\<close>\<close>

definition st_room :: "NarrowIns list \<Rightarrow> bool" where
  "st_room st = (st_size st < NARROW_MAX_STACK - 4)"

definition IRCONV_CONVMASK :: nat where "IRCONV_CONVMASK = 0xf000"
definition IRCONV_TOBIT :: nat where "IRCONV_TOBIT = 0"
definition IRCONV_ANY :: nat where "IRCONV_ANY = 0x1000"
definition IRCONV_INDEX :: nat where "IRCONV_INDEX = 0x2000"
definition IRCONV_CHECK :: nat where "IRCONV_CHECK = 0x3000"

record NarrowConv =
  nc_mode :: nat
  nc_t :: IRType

section \<open>The backpropagation cache\<close>

definition narrow_bpc_get :: "jit_State \<Rightarrow> nat \<Rightarrow> nat \<Rightarrow> nat option" where
  "narrow_bpc_get J key mode =
     map_option bp_val
       (List.find (\<lambda>bp. bp_key bp = key \<and> bp_mode bp \<ge> mode \<and> (bp_mode bp XOR mode) AND IRCONV_MODEMASK = 0)
         (J_bpropcache J))"

definition narrow_bpc_set :: "nat \<Rightarrow> nat \<Rightarrow> nat \<Rightarrow> jit_State \<Rightarrow> jit_State" where
  "narrow_bpc_set key val mode J =
     (let slot = J_bpropslot J in
      J\<lparr>J_bpropslot := (slot + 1) AND (BPROP_SLOTS - 1),
        J_bpropcache := (J_bpropcache J)[slot := \<lparr>bp_key = key, bp_val = val, bp_mode = mode\<rparr>]\<rparr>)"

section \<open>Backpropagation\<close>

function narrow_stripov_backprop :: "jit_State \<Rightarrow> NarrowConv \<Rightarrow> nat \<Rightarrow> nat \<Rightarrow> NarrowIns list \<Rightarrow> NarrowIns list" where
  "narrow_stripov_backprop J nc ref depth st =
     (let ir = J_ir J ref in
      if ir_o ir = IR_ADDOV \<or> ir_o ir = IR_SUBOV \<or>
         (ir_o ir = IR_MULOV \<and> nc_mode nc AND IRCONV_CONVMASK = IRCONV_ANY) then
        case narrow_bpc_get J ref IRCONV_TOBIT of
          Some v \<Rightarrow> st @ [NARROW_REF v]
        | None \<Rightarrow>
            if depth + 1 < NARROW_MAX_BACKPROP \<and> st_room st then
              let st1 = narrow_stripov_backprop J nc (ir_op1 ir) (depth + 1) st in
              if st_room st1 then
                let st2 = narrow_stripov_backprop J nc (ir_op2 ir) (depth + 1) st1 in
                if st_room st2 then st2 @ [NARROW_OP (ir_o ir - IR_ADDOV + IR_ADD) IRT_INT ref]
                else st @ [NARROW_REF ref]
              else st @ [NARROW_REF ref]
            else st @ [NARROW_REF ref]
      else st @ [NARROW_REF ref])"
  by pat_completeness auto
termination by (relation "measure (\<lambda>(J, nc, ref, depth, st). NARROW_MAX_BACKPROP - depth)") auto

declare narrow_stripov_backprop.simps [simp del]

text \<open>A constant that may be narrowed, in the mode.\<close>

definition narrow_knum :: "nat \<Rightarrow> u64 \<Rightarrow> u32 option" where
  "narrow_knum mode n =
     (if mode AND IRCONV_CONVMASK = IRCONV_TOBIT then
        let k64 = dbl_to_i64 n in if dbl_eq n (dbl_of_int (sint k64)) then Some (ucast k64) else None
      else
        let k = lj_num2int n in
        if k = scast (ucast k :: u16) \<and> dbl_eq n (setintV k) then Some k else None)"

text \<open>An existing conversion of the reference that is at least as strong.\<close>

definition narrow_cse :: "jit_State \<Rightarrow> NarrowConv \<Rightarrow> nat \<Rightarrow> nat option" where
  "narrow_cse J nc ref =
     walk (J_ir J) (\<lambda>_ cr. ir_op1 cr = ref \<and>
         (fo J = IR_TOBIT \<or>
          (ir_op2 cr AND IRCONV_MODEMASK = nc_mode nc AND IRCONV_MODEMASK \<and>
           (irt_isguard (ir_t (fins J)) \<longrightarrow> irt_isguard (ir_t cr))))) ref (J_chain J (fo J))"

function narrow_conv_backprop :: "jit_State \<Rightarrow> NarrowConv \<Rightarrow> nat \<Rightarrow> nat \<Rightarrow> NarrowIns list \<Rightarrow> nat \<times> NarrowIns list" where
  "narrow_conv_backprop J nc ref depth st =
     (let ir = J_ir J ref; cm = nc_mode nc AND IRCONV_CONVMASK in
      if \<not> st_room st then (10, st)
      else if ir_o ir = IR_CONV \<and> conv_src (ir_op2 ir) = irt_num IRT_INT then
        let st = (if cm \<le> IRCONV_ANY then narrow_stripov_backprop J nc (ir_op1 ir) (depth + 1) st
                  else st @ [NARROW_REF (ir_op1 ir)])
        in (0, if nc_t nc = IRT_I64 then st @ [NARROW_SEXT] else st)
      else if ir_o ir = IR_KNUM then
        (case narrow_knum (nc_mode nc) (ir_k64 J ir) of
           Some k \<Rightarrow> (0, st @ [NARROW_INT k])
         | None \<Rightarrow> (10, st))
      else case narrow_cse J nc ref of
        Some cref \<Rightarrow> (0, st @ [NARROW_REF cref])
      | None \<Rightarrow>
          if ir_o ir = IR_ADD \<or> ir_o ir = IR_SUB then
            let mode = (if cm = IRCONV_INDEX \<and> depth > 0 then nc_mode nc + IRCONV_CHECK - IRCONV_INDEX
                        else nc_mode nc)
            in case narrow_bpc_get J ref mode of
                 Some v \<Rightarrow> (0, st @ [NARROW_REF v])
               | None \<Rightarrow>
                   (case (if nc_t nc = IRT_I64
                          then narrow_bpc_get J ref (irconv IRT_INT IRT_NUM OR IRCONV_INDEX) else None) of
                      Some v \<Rightarrow> (0, st @ [NARROW_REF v, NARROW_SEXT])
                    | None \<Rightarrow>
                        if depth + 1 < NARROW_MAX_BACKPROP then
                          let (c1, st1) = narrow_conv_backprop J nc (ir_op1 ir) (depth + 1) st;
                              (c2, st2) = narrow_conv_backprop J nc (ir_op2 ir) (depth + 1) st1
                          in if c1 + c2 \<le> 1 then (c1 + c2, st2 @ [NARROW_OP (ir_o ir) (nc_t nc) ref])
                             else (1, st @ [NARROW_CONV ref])
                        else (1, st @ [NARROW_CONV ref]))
          else (1, st @ [NARROW_CONV ref]))"
  by pat_completeness auto
termination by (relation "measure (\<lambda>(J, nc, ref, depth, st). NARROW_MAX_BACKPROP - depth)") auto

declare narrow_conv_backprop.simps [simp del]

section \<open>The stack machine\<close>

text \<open>What is saved before the emission: the guard added to the operators, the type and the mode
  of the conversion.\<close>

record NarrowEmit =
  ne_guard :: bool
  ne_o :: IROp
  ne_t :: IRType1
  ne_op2 :: nat

definition emitir_raw :: "IROp \<Rightarrow> IRType1 \<Rightarrow> nat \<Rightarrow> nat \<Rightarrow> nat jit" where
  "emitir_raw op t a b J = Inr (lj_ir_emit (lj_ir_set op t a b J))"

text \<open>The check of \<open>k + 0x40000000 < 0x80000000\<close> for the constant at \<open>ref\<close>.\<close>

definition small_index :: "jit_State \<Rightarrow> nat \<Rightarrow> bool" where
  "small_index J ref = (irref_isk ref \<and> ins_i (J_ir J ref) + 0x40000000 < 0x80000000)"

text \<open>A popped operator with a guard becomes the overflow-checking one.\<close>

definition guard_op :: "NarrowEmit \<Rightarrow> IROp \<Rightarrow> IRType \<Rightarrow> IROp \<times> IRType1" where
  "guard_op ne op t = (if ne_guard ne then (op + (IR_ADDOV - IR_ADD), mk_irtg t) else (op, mk_irt t))"

fun narrow_emit_loop :: "fold_env \<Rightarrow> NarrowConv \<Rightarrow> NarrowEmit \<Rightarrow> NarrowIns list \<Rightarrow> nat list \<Rightarrow> nat list jit" where
  "narrow_emit_loop E nc ne [] sp = ret sp"
| "narrow_emit_loop E nc ne (i # is) sp =
     (case i of
        NARROW_REF ref \<Rightarrow> narrow_emit_loop E nc ne is (ref # sp)
      | NARROW_CONV ref \<Rightarrow>
          bnd (emitir_raw (ne_o ne) (ne_t ne) ref (ne_op2 ne)) (\<lambda>r. narrow_emit_loop E nc ne is (r # sp))
      | NARROW_SEXT \<Rightarrow>
          bnd (emitir E IR_CONV (mk_irt IRT_I64) (hd sp) (irconv IRT_I64 IRT_INT OR IRCONV_SEXT))
            (\<lambda>r. narrow_emit_loop E nc ne is (r # tl sp))
      | NARROW_INT k \<Rightarrow>
          (\<lambda>J. let (r, J) = (if nc_t nc = IRT_I64 then lj_ir_kint64 (scast k) J else lj_ir_kint k J)
               in narrow_emit_loop E nc ne is (r # sp) J)
      | NARROW_OP op t ref \<Rightarrow>
          (\<lambda>J. let b = sp ! 0; a = sp ! 1; index = (nc_mode nc AND IRCONV_CONVMASK = IRCONV_INDEX);
                   ne = (if index \<and> is = [] \<and> small_index J b then ne\<lparr>ne_guard := False\<rparr> else ne);
                   mode = (if index \<and> \<not> (is = [] \<and> small_index J b)
                           then nc_mode nc + IRCONV_CHECK - IRCONV_INDEX else nc_mode nc);
                   (o2, t2) = guard_op ne op t
               in bnd (emitir E o2 t2 a b) (\<lambda>r J.
                    narrow_emit_loop E nc ne is (r # drop 2 sp)
                      (if ref \<noteq> 0 then narrow_bpc_set ref r mode J else J)) J))"

definition narrow_conv_emit :: "fold_env \<Rightarrow> NarrowConv \<Rightarrow> NarrowIns list \<Rightarrow> nat jit" where
  "narrow_conv_emit E nc st J =
     (let f = fins J;
          ne = \<lparr>ne_guard = irt_isguard (ir_t f), ne_o = ir_o f, ne_t = ir_t f, ne_op2 = ir_op2 f\<rparr>
      in bnd (narrow_emit_loop E nc ne st []) (\<lambda>sp. ret (last sp)) J)"

definition lj_opt_narrow_convert :: fold_func where
  "lj_opt_narrow_convert E J =
     (if J_flags J AND JIT_F_OPT_NARROW \<noteq> 0 then
        let nc = \<lparr>nc_mode = (if fo J = IR_TOBIT then IRCONV_TOBIT else op2 J), nc_t = irt_type (ir_t (fins J))\<rparr>;
            (n, st) = narrow_conv_backprop J nc (op1 J) 0 []
        in if n \<le> 1 then bnd (narrow_conv_emit E nc st) (\<lambda>r. ret (FoldRef r)) J else Inr (NEXTFOLD, J)
      else Inr (NEXTFOLD, J))"

section \<open>Narrowing of implicit conversions\<close>

text \<open>The tag of a reference is the type of its instruction.\<close>

definition tref_type :: "jit_State \<Rightarrow> nat \<Rightarrow> IRType" where
  "tref_type J tr = irt_type (ir_t (J_ir J tr))"

definition tref_isinteger :: "jit_State \<Rightarrow> nat \<Rightarrow> bool" where
  "tref_isinteger J tr = (irt_num IRT_I8 \<le> irt_num (tref_type J tr) \<and> irt_num (tref_type J tr) \<le> irt_num IRT_INT)"

text \<open>The operands of an instruction are lower references, which bounds the recursion.\<close>

function narrow_stripov :: "fold_env \<Rightarrow> IROp \<Rightarrow> nat \<Rightarrow> IRType \<Rightarrow> nat \<Rightarrow> nat jit" where
  "narrow_stripov E lastop mode dt ref J =
     (let ir = J_ir J ref; op = ir_o ir in
      if op \<ge> IR_ADDOV \<and> op \<le> lastop then
        case narrow_bpc_get J ref mode of
          Some v \<Rightarrow> Inr (v, J)
        | None \<Rightarrow>
            if ir_op1 ir < ref \<and> ir_op2 ir < ref then
              bnd (narrow_stripov E lastop mode dt (ir_op1 ir)) (\<lambda>a.
              bnd (narrow_stripov E lastop mode dt (ir_op2 ir)) (\<lambda>b.
              bnd (emitir E (op - IR_ADDOV + IR_ADD) (mk_irt dt) a b) (\<lambda>r J.
                Inr (r, narrow_bpc_set ref r mode J)))) J
            else Inr (ref, J)
      else if conv_sext mode \<and> \<not> irt_is64 (ir_t ir) then emitir E IR_CONV (mk_irt IRT_I64) ref mode J
      else Inr (ref, J))"
  by pat_completeness auto
termination by (relation "measure (\<lambda>(E, l, m, t, ref, J). ref)") auto

declare narrow_stripov.simps [simp del]

definition IRCONV_NUM_INT :: nat where "IRCONV_NUM_INT = irconv IRT_NUM IRT_INT"
definition IRCONV_INT_NUM :: nat where "IRCONV_INT_NUM = irconv IRT_INT IRT_NUM"

definition lj_opt_narrow_index :: "fold_env \<Rightarrow> nat \<Rightarrow> nat jit" where
  "lj_opt_narrow_index E tr J =
     (let ir = J_ir J tr in
      if tref_type J tr = IRT_NUM then emitir E IR_CONV (mk_irtg IRT_INT) tr (IRCONV_INT_NUM OR IRCONV_INDEX) J
      else if (ir_o ir = IR_ADDOV \<or> ir_o ir = IR_SUBOV) \<and> small_index J (ir_op2 ir) then
        emitir E (ir_o ir - IR_ADDOV + IR_ADD) (mk_irt IRT_INT) (ir_op1 ir) (ir_op2 ir) J
      else Inr (tr, J))"

text \<open>A string operand is converted first.\<close>

definition str_tonum :: "fold_env \<Rightarrow> nat \<Rightarrow> nat jit" where
  "str_tonum E tr J = (if tref_type J tr = IRT_STR then emitir E IR_STRTO (mk_irtg IRT_NUM) tr 0 J else Inr (tr, J))"

definition lj_opt_narrow_toint :: "fold_env \<Rightarrow> nat \<Rightarrow> nat jit" where
  "lj_opt_narrow_toint E tr =
     bnd (str_tonum E tr) (\<lambda>tr J.
       if tref_type J tr = IRT_NUM then emitir E IR_CONV (mk_irt IRT_INT) tr (IRCONV_INT_NUM OR IRCONV_ANY) J
       else if \<not> tref_isinteger J tr then Inl LJ_TRERR_BADTYPE
       else narrow_stripov E IR_MULOV (irconv IRT_INT IRT_INT OR IRCONV_TOBIT) IRT_INT tr J)"

definition lj_opt_narrow_tobit :: "fold_env \<Rightarrow> nat \<Rightarrow> nat jit" where
  "lj_opt_narrow_tobit E tr =
     bnd (str_tonum E tr) (\<lambda>tr J.
       if tref_type J tr = IRT_NUM then
         let (k, J) = lj_ir_knum_u64 0x4338000000000000 J in emitir E IR_TOBIT (mk_irt IRT_INT) tr k J
       else if \<not> tref_isinteger J tr then Inl LJ_TRERR_BADTYPE
       else narrow_stripov E IR_SUBOV (irconv IRT_INT IRT_INT OR IRCONV_TOBIT) IRT_INT tr J)"

definition lj_opt_narrow_cindex :: "fold_env \<Rightarrow> nat \<Rightarrow> nat jit" where
  "lj_opt_narrow_cindex E tr J =
     (if tref_type J tr = IRT_NUM then emitir E IR_CONV (mk_irt IRT_I64) tr (irconv IRT_I64 IRT_NUM OR IRCONV_ANY) J
      else narrow_stripov E IR_MULOV (irconv IRT_I64 IRT_INT OR IRCONV_SEXT) IRT_I64 tr J)"

section \<open>Arithmetic operators\<close>

definition numisint :: "u64 \<Rightarrow> bool" where
  "numisint n = dbl_eq n (setintV (lj_num2int n))"

text \<open>The number of a run-time operand: a string is converted, and stays as it is if it is no number.\<close>

definition val_num :: "KValue \<Rightarrow> u64" where
  "val_num v =
     (case v of KV_num n \<Rightarrow> n
      | KV_gc (GCO_str s) \<Rightarrow> (case lj_strscan_num s of Some (Some n) \<Rightarrow> n | _ \<Rightarrow> 0)
      | _ \<Rightarrow> 0)"

definition to_num :: "fold_env \<Rightarrow> nat \<Rightarrow> nat jit" where
  "to_num E tr J =
     (if tref_type J tr \<noteq> IRT_NUM then emitir E IR_CONV (mk_irt IRT_NUM) tr IRCONV_NUM_INT J else Inr (tr, J))"

definition lj_opt_narrow_arith :: "fold_env \<Rightarrow> nat \<Rightarrow> nat \<Rightarrow> KValue \<Rightarrow> KValue \<Rightarrow> IROp \<Rightarrow> nat jit" where
  "lj_opt_narrow_arith E rb rc vb vc op =
     bnd (str_tonum E rb) (\<lambda>rb.
     bnd (str_tonum E rc) (\<lambda>rc J.
       if IR_ADD \<le> op \<and> op \<le> IR_SUB \<and> tref_isinteger J rb \<and> tref_isinteger J rc \<and>
          numisint (lj_vm_foldarith (fe_libm E) (val_num vb) (val_num vc) (op - IR_ADD)) then
         emitir E (op - IR_ADD + IR_ADDOV) (mk_irtg IRT_INT) rb rc J
       else
         bnd (to_num E rb) (\<lambda>rb. bnd (to_num E rc) (\<lambda>rc. emitir E op (mk_irt IRT_NUM) rb rc)) J))"

definition lj_opt_narrow_unm :: "fold_env \<Rightarrow> nat \<Rightarrow> KValue \<Rightarrow> nat jit" where
  "lj_opt_narrow_unm E rc vc =
     bnd (str_tonum E rc) (\<lambda>rc J.
       let isint = tref_isinteger J rc in
       if isint \<and> lj_num2int (val_num vc) \<noteq> 0x80000000 then
         let (z, J) = lj_ir_kint 0 J in emitir E IR_SUBOV (mk_irtg IRT_INT) z rc J
       else
         bnd (if isint then emitir E IR_CONV (mk_irt IRT_NUM) rc IRCONV_NUM_INT else ret rc) (\<lambda>rc J.
           let (k, J) = lj_ir_knum_neg J in emitir E IR_NEG (mk_irt IRT_NUM) rc k J) J)"

text \<open>\<open>lj_ir_tonum\<close>\<close>

definition lj_ir_tonum :: "fold_env \<Rightarrow> nat \<Rightarrow> nat jit" where
  "lj_ir_tonum E tr J =
     (if tref_type J tr \<noteq> IRT_NUM then
        if tref_isinteger J tr then emitir E IR_CONV (mk_irt IRT_NUM) tr IRCONV_NUM_INT J
        else if tref_type J tr = IRT_STR then emitir E IR_STRTO (mk_irtg IRT_NUM) tr 0 J
        else Inl LJ_TRERR_BADTYPE
      else Inr (tr, J))"

definition lj_ir_tonumber :: "fold_env \<Rightarrow> nat \<Rightarrow> nat jit" where
  "lj_ir_tonumber E tr J =
     (if tref_isinteger J tr \<or> tref_type J tr = IRT_NUM then Inr (tr, J)
      else if tref_type J tr = IRT_STR then emitir E IR_STRTO (mk_irtg IRT_NUM) tr 0 J
      else Inl LJ_TRERR_BADTYPE)"

definition lj_ir_tostr :: "fold_env \<Rightarrow> nat \<Rightarrow> nat jit" where
  "lj_ir_tostr E tr J =
     (if tref_type J tr = IRT_STR then Inr (tr, J)
      else if \<not> (tref_isinteger J tr \<or> tref_type J tr = IRT_NUM) then Inl LJ_TRERR_BADTYPE
      else emitir E IR_TOSTR (mk_irt IRT_STR) tr (if tref_type J tr = IRT_NUM then 1 else 0) J)"

text \<open>\<open>tvisstr(vc) && !lj_strscan_num(strV(vc), vc)\<close>\<close>

definition bad_str :: "KValue \<Rightarrow> bool" where
  "bad_str v = (case v of KV_gc (GCO_str s) \<Rightarrow> (case lj_strscan_num s of Some (Some n) \<Rightarrow> False | _ \<Rightarrow> True) | _ \<Rightarrow> False)"

text \<open>\<open>tviszero\<close>: the pattern of +0 or -0.\<close>

definition tviszero :: "u64 \<Rightarrow> bool" where
  "tviszero n = (push_bit 1 n = 0)"

definition lj_opt_narrow_mod :: "fold_env \<Rightarrow> nat \<Rightarrow> nat \<Rightarrow> KValue \<Rightarrow> nat jit" where
  "lj_opt_narrow_mod E rb rc vc J =
     (if bad_str vc then Inl LJ_TRERR_BADTYPE
      else if J_flags J AND JIT_F_OPT_NARROW \<noteq> 0 \<and> tref_isinteger J rb \<and> tref_isinteger J rc \<and>
              \<not> tviszero (val_num vc) then
        let (z, J) = lj_ir_kint 0 J in
        bnd (emitir E IR_NE (mk_irtg IRT_INT) rc z) (\<lambda>_. emitir E IR_MOD (mk_irt IRT_INT) rb rc) J
      else
        bnd (lj_ir_tonum E rb) (\<lambda>rb.
        bnd (lj_ir_tonum E rc) (\<lambda>rc.
        bnd (emitir E IR_DIV (mk_irt IRT_NUM) rb rc) (\<lambda>tmp.
        bnd (emitir E IR_FPMATH (mk_irt IRT_NUM) tmp IRFPM_FLOOR) (\<lambda>tmp.
        bnd (emitir E IR_MUL (mk_irt IRT_NUM) tmp rc) (\<lambda>tmp.
          emitir E IR_SUB (mk_irt IRT_NUM) rb tmp))))) J)"

text \<open>The last part of the narrowing of a power: splitting it up.\<close>

definition split_pow :: "fold_env \<Rightarrow> nat \<Rightarrow> nat \<Rightarrow> nat jit" where
  "split_pow E rb rc J =
     (if irref_isk rb \<and> ir_k64 J (J_ir J rb) = 0x3ff0000000000000 then Inr (rb, J)
      else
        bnd (lj_ir_tonum E rc) (\<lambda>rc J.
          if irref_isk rc \<and> dbl_eq (ir_k64 J (J_ir J rc)) 0x3fe0000000000000 then
            emitir E IR_FPMATH (mk_irt IRT_NUM) rb IRFPM_SQRT J
          else
            bnd (emitir E IR_FPMATH (mk_irt IRT_NUM) rb IRFPM_LOG2) (\<lambda>rb.
            bnd (emitir E IR_MUL (mk_irt IRT_NUM) rb rc) (\<lambda>rc.
              emitir E IR_FPMATH (mk_irt IRT_NUM) rc IRFPM_EXP2)) J) J)"

definition lj_opt_narrow_pow :: "fold_env \<Rightarrow> nat \<Rightarrow> nat \<Rightarrow> KValue \<Rightarrow> nat jit" where
  "lj_opt_narrow_pow E rb rc vc J =
     (if bad_str vc then Inl LJ_TRERR_BADTYPE
      else if numisint (val_num vc) then
        let posk = (irref_isk rb \<and> \<not> dbl_neg (ir_k64 J (J_ir J rb)));
            k = sint (lj_num2int (val_num vc))
        in if posk \<and> \<not> (k \<ge> - 65536 \<and> k \<le> 65536) then split_pow E rb rc J
           else
             bnd (\<lambda>J. if \<not> tref_isinteger J rc then
                    bnd (str_tonum E rc) (\<lambda>rc. emitir E IR_CONV (mk_irtg IRT_INT) rc (IRCONV_INT_NUM OR IRCONV_CHECK)) J
                  else Inr (rc, J)) (\<lambda>rc.
             bnd (if posk \<and> \<not> irref_isk rc then
                    (\<lambda>J. let (k1, J) = lj_ir_kint 65536 J in
                      bnd (emitir E IR_ADD (mk_irt IRT_INT) rc k1) (\<lambda>tmp J.
                        let (k2, J) = lj_ir_kint (2 * 65536) J in emitir E IR_ULE (mk_irtg IRT_INT) tmp k2 J) J)
                  else ret 0) (\<lambda>_.
               emitir E IR_POW (mk_irt IRT_NUM) rb rc)) J
      else split_pow E rb rc J)"

section \<open>Induction variables\<close>

definition narrow_forl :: "jit_State \<Rightarrow> u64 \<Rightarrow> bool" where
  "narrow_forl J n = (J_flags J AND JIT_F_OPT_NARROW \<noteq> 0 \<and> numisint n)"

definition lj_opt_narrow_forl :: "jit_State \<Rightarrow> u64 \<Rightarrow> u64 \<Rightarrow> u64 \<Rightarrow> IRType" where
  "lj_opt_narrow_forl J idx stop step =
     (if narrow_forl J idx \<and> narrow_forl J stop \<and> narrow_forl J step \<and>
         (let sum = dbl_add stop step in
          if dbl_le (dbl_zero False) step then dbl_le sum (dbl_of_int 2147483647)
          else dbl_le (dbl_of_int (- 2147483648)) sum)
      then IRT_INT else IRT_NUM)"

end
