(* ===== verification/LJ_Str.thy ===== *)
theory LJ_Str
  imports LJ_Char
begin

text \<open>
  String handling (\<^verbatim>\<open>lj_str.c\<close>): comparison, search, and the interning of strings in a hash table of chains.
  The data of a string is read four bytes at a time, up to three bytes beyond its end: memory is a
  function from offsets to bytes here, and \<open>mem_of\<close> a string object followed by its zero terminator and by
  whatever (\<open>pad\<close>) lies behind it.
\<close>

section \<open>Comparison\<close>

definition mem_of :: "bytes \<Rightarrow> (nat \<Rightarrow> u8) \<Rightarrow> nat \<Rightarrow> u8" where
  "mem_of s pad i = (if i < length s then s ! i else if i = length s then 0 else pad i)"

definition lj_getu32 :: "(nat \<Rightarrow> u8) \<Rightarrow> nat \<Rightarrow> u32" where
  "lj_getu32 m i = ucast (m i) OR push_bit 8 (ucast (m (i + 1))) OR push_bit 16 (ucast (m (i + 2)))
     OR push_bit 24 (ucast (m (i + 3)))"

text \<open>\<open>i\<close> runs in steps of four below \<open>n\<close>, the length of the shorter string.\<close>

function str_cmp_loop :: "(nat \<Rightarrow> u8) \<Rightarrow> nat \<Rightarrow> (nat \<Rightarrow> u8) \<Rightarrow> nat \<Rightarrow> nat \<Rightarrow> nat \<Rightarrow> int" where
  "str_cmp_loop a alen b blen n i =
     (if i < n then
        let va = lj_getu32 a i; vb = lj_getu32 b i in
        if va \<noteq> vb then
          let va = lj_bswap va; vb = lj_bswap vb;
              d = word_of_nat i - word_of_nat n :: u32;
              sh = unat (32 + push_bit 3 d);
              (va, vb) = (if sint d \<ge> - 3 then (drop_bit sh va, drop_bit sh vb) else (va, vb))
          in if sint d \<ge> - 3 \<and> va = vb then sint (word_of_nat alen - word_of_nat blen :: u32)
             else if va < vb then - 1 else 1
        else str_cmp_loop a alen b blen n (i + 4)
      else sint (word_of_nat alen - word_of_nat blen :: u32))"
  by pat_completeness auto
termination by (relation "measure (\<lambda>(a, alen, b, blen, n, i). n - i)") auto

declare str_cmp_loop.simps [simp del]

definition lj_str_cmp :: "(nat \<Rightarrow> u8) \<Rightarrow> nat \<Rightarrow> (nat \<Rightarrow> u8) \<Rightarrow> nat \<Rightarrow> int" where
  "lj_str_cmp a alen b blen = str_cmp_loop a alen b blen (if alen > blen then blen else alen) 0"

text \<open>The do-while loop of the fast comparison for equality; the result is only tested for being zero.\<close>

function str_fastcmp :: "(nat \<Rightarrow> u8) \<Rightarrow> (nat \<Rightarrow> u8) \<Rightarrow> nat \<Rightarrow> nat \<Rightarrow> u32" where
  "str_fastcmp a b len i =
     (let v = lj_getu32 a i XOR lj_getu32 b i in
      if v \<noteq> 0 then
        let d = word_of_nat i - word_of_nat len :: u32
        in if sint d \<ge> - 3 then push_bit (unat (32 + push_bit 3 d)) v else 1
      else if i + 4 < len then str_fastcmp a b len (i + 4) else 0)"
  by pat_completeness auto
termination by (relation "measure (\<lambda>(a, b, len, i). len - i)") auto

declare str_fastcmp.simps [simp del]

section \<open>Search\<close>

text \<open>\<open>memchr\<close> and \<open>memcmp\<close> of the C library, on a string and an offset.\<close>

fun memchr :: "bytes \<Rightarrow> nat \<Rightarrow> u8 \<Rightarrow> nat \<Rightarrow> nat option" where
  "memchr s off c 0 = None"
| "memchr s off c (Suc n) = (if s ! off = c then Some off else memchr s (off + 1) c n)"

definition memeq :: "bytes \<Rightarrow> nat \<Rightarrow> bytes \<Rightarrow> bool" where
  "memeq s off p = (take (length p) (drop off s) = p)"

lemma memchr_bounds: "memchr s off c n = Some q \<Longrightarrow> off \<le> q \<and> q < off + n"
  by (induction s off c n rule: memchr.induct) (auto split: if_splits)

text \<open>The search from \<open>off\<close> for the first character \<open>c\<close> and the rest \<open>p\<close>; \<open>slen\<close> characters may begin a match.\<close>

function find_loop :: "bytes \<Rightarrow> nat \<Rightarrow> nat \<Rightarrow> u8 \<Rightarrow> bytes \<Rightarrow> nat option" where
  "find_loop s off slen c p =
     (if slen = 0 then None
      else case memchr s off c slen of
             None \<Rightarrow> None
           | Some q \<Rightarrow> if memeq s (q + 1) p then Some q
                       else find_loop s (q + 1) (slen - (q + 1 - off)) c p)"
  by pat_completeness auto
termination by (relation "measure (\<lambda>(s, off, slen, c, p). slen)") (auto dest: memchr_bounds)

declare find_loop.simps [simp del]

definition lj_str_find :: "bytes \<Rightarrow> bytes \<Rightarrow> nat option" where
  "lj_str_find s p =
     (if length p \<le> length s then
        case p of [] \<Rightarrow> Some 0
        | c # p' \<Rightarrow> find_loop s 0 (length s - length p') c p'
      else None)"

definition pattern_chars :: "u8 list" where
  "pattern_chars = [94, 36, 42, 43, 63, 46, 40, 91, 37, 45]"

definition lj_str_haspattern :: "bytes \<Rightarrow> bool" where
  "lj_str_haspattern s = list_ex (\<lambda>c. lj_char_ispunct (uint c) \<and> c \<in> set pattern_chars) s"

section \<open>Interning\<close>

record GCstr =
  gs_data :: bytes
  gs_hash :: u32
  gs_marked :: u8

text \<open>The string part of the global state: the table of chains with its mask, the number of strings, the
  white of the collector, and whether the collector sweeps the strings. A chain is the list of its objects.\<close>

record StrState =
  g_strhash :: "nat list list"
  g_strmask :: u32
  g_strnum :: nat
  g_currentwhite :: u8
  g_sweepstring :: bool
  g_obj :: "nat \<Rightarrow> GCstr"
  g_next :: nat

definition LJ_GC_WHITES :: u8 where "LJ_GC_WHITES = 0x03"

definition isdead :: "StrState \<Rightarrow> nat \<Rightarrow> bool" where
  "isdead g s = (gs_marked (g_obj g s) AND (g_currentwhite g XOR LJ_GC_WHITES) AND LJ_GC_WHITES \<noteq> 0)"

definition flipwhite :: "nat \<Rightarrow> StrState \<Rightarrow> StrState" where
  "flipwhite s g = g\<lparr>g_obj := (g_obj g)(s := (g_obj g s)\<lparr>gs_marked := gs_marked (g_obj g s) XOR LJ_GC_WHITES\<rparr>)\<rparr>"

text \<open>Reinserting every string of the old table, from the last chain to the first, each at the
  head of its new chain.\<close>

definition rehash_chain :: "(nat \<Rightarrow> GCstr) \<Rightarrow> u32 \<Rightarrow> nat list \<Rightarrow> nat list list \<Rightarrow> nat list list" where
  "rehash_chain obj newmask chain new =
     foldl (\<lambda>new s. let h = unat (gs_hash (obj s) AND newmask) in new[h := s # new ! h]) new chain"

definition lj_str_resize :: "u32 \<Rightarrow> StrState \<Rightarrow> StrState" where
  "lj_str_resize newmask g =
     (if g_sweepstring g \<or> unat newmask \<ge> LJ_MAX_STRTAB - 1 then g
      else g\<lparr>g_strhash := foldr (rehash_chain (g_obj g) newmask) (g_strhash g) (replicate (unat newmask + 1) []),
             g_strmask := newmask\<rparr>)"

definition str_hash :: "(nat \<Rightarrow> u8) \<Rightarrow> nat \<Rightarrow> u32" where
  "str_hash m len =
     (let h = word_of_nat len;
          (a, b, h) =
            (if len \<ge> 4 then
               let a = lj_getu32 m 0;
                   h = h XOR lj_getu32 m (len - 4);
                   b = lj_getu32 m (len div 2 - 2);
                   h = h XOR b; h = h - lj_rol b 14;
                   b = b + lj_getu32 m (len div 4 - 1)
               in (a, b, h)
             else
               let a = ucast (m 0);
                   h = h XOR ucast (m (len - 1));
                   b = ucast (m (len div 2));
                   h = h XOR b; h = h - lj_rol b 14
               in (a, b, h));
          a = a XOR h; a = a - lj_rol h 11;
          b = b XOR a; b = b - lj_rol a 25;
          h = h XOR b; h = h - lj_rol b 16
      in h)"

text \<open>The search of a chain. \<open>fast\<close> says that the end of the string is not close to a page boundary;
  otherwise \<open>memcmp\<close> compares.\<close>

definition str_equal :: "bool \<Rightarrow> (nat \<Rightarrow> u8) \<Rightarrow> nat \<Rightarrow> (nat \<Rightarrow> u8) \<Rightarrow> bytes \<Rightarrow> bool" where
  "str_equal fast m len pad sx =
     (length sx = len \<and>
      (if fast then str_fastcmp m (mem_of sx pad) len 0 = 0 else map m [0..<len] = sx))"

datatype StrRef = Strempty | Str nat

definition lj_str_new :: "bool \<Rightarrow> (nat \<Rightarrow> nat \<Rightarrow> u8) \<Rightarrow> (nat \<Rightarrow> u8) \<Rightarrow> nat \<Rightarrow> StrState \<Rightarrow> ErrMsg + (StrRef \<times> StrState)" where
  "lj_str_new fast pad m len g =
     (if len \<ge> LJ_MAX_STR then Inl LJ_ERR_STROV
      else if len = 0 then Inr (Strempty, g)
      else
        let hash = str_hash m len; i = unat (hash AND g_strmask g) in
        case List.find (\<lambda>s. str_equal fast m len (pad s) (gs_data (g_obj g s))) (g_strhash g ! i) of
          Some s \<Rightarrow> Inr (Str s, if isdead g s then flipwhite s g else g)
        | None \<Rightarrow>
            let s = g_next g;
                o' = \<lparr>gs_data = map m [0..<len], gs_hash = hash, gs_marked = g_currentwhite g AND LJ_GC_WHITES\<rparr>;
                g1 = g\<lparr>g_obj := (g_obj g)(s := o'), g_next := s + 1,
                       g_strhash := (g_strhash g)[i := s # g_strhash g ! i],
                       g_strnum := g_strnum g + 1\<rparr>
            in Inr (Str s, if g_strnum g > unat (g_strmask g)
                           then lj_str_resize (push_bit 1 (g_strmask g) + 1) g1 else g1))"

end
