(* ===== verification/LJ_FoldEngine.thy ===== *)
theory LJ_FoldEngine
  imports LJ_OptMem LJ_Narrow LJ_Str
begin

text \<open>
  The remaining fold rules of \<^verbatim>\<open>lj_opt_fold.c\<close> (strings, buffers, pointers, loads, barriers), the table of the
  rules, and the engine \<open>lj_opt_fold\<close> that applies them until nothing more matches. Every rule of the file is
  in the table.
\<close>

abbreviation IRCALL_lj_str_cmp :: nat where "IRCALL_lj_str_cmp \<equiv> 0"
abbreviation IRCALL_lj_strfmt_putquoted :: nat where "IRCALL_lj_strfmt_putquoted \<equiv> 9"
abbreviation IRCALL_lj_strfmt_putfxint :: nat where "IRCALL_lj_strfmt_putfxint \<equiv> 10"
abbreviation IRCALL_lj_strfmt_putfnum_int :: nat where "IRCALL_lj_strfmt_putfnum_int \<equiv> 11"
abbreviation IRCALL_lj_strfmt_putfnum_uint :: nat where "IRCALL_lj_strfmt_putfnum_uint \<equiv> 12"
abbreviation IRCALL_lj_strfmt_putfnum :: nat where "IRCALL_lj_strfmt_putfnum \<equiv> 13"
abbreviation IRCALL_lj_strfmt_putfstr :: nat where "IRCALL_lj_strfmt_putfstr \<equiv> 14"
abbreviation IRCALL_lj_strfmt_putfchar :: nat where "IRCALL_lj_strfmt_putfchar \<equiv> 15"
abbreviation IRCALL_lj_buf_putstr_reverse :: nat where "IRCALL_lj_buf_putstr_reverse \<equiv> 19"
abbreviation IRCALL_lj_buf_putstr_lower :: nat where "IRCALL_lj_buf_putstr_lower \<equiv> 20"
abbreviation IRCALL_lj_buf_putstr_upper :: nat where "IRCALL_lj_buf_putstr_upper \<equiv> 21"
abbreviation IRCALL_lj_buf_putstr_rep :: nat where "IRCALL_lj_buf_putstr_rep \<equiv> 22"
abbreviation IRCALL_lj_buf_puttab :: nat where "IRCALL_lj_buf_puttab \<equiv> 23"
abbreviation IRCALL_lj_tab_len :: nat where "IRCALL_lj_tab_len \<equiv> 30"

definition env_rule :: "(fold_env \<Rightarrow> fold_rule) \<Rightarrow> fold_func" where
  "env_rule f E J = Inr (f E J)"

section \<open>Strings\<close>

definition mem_bytes :: "fold_env \<Rightarrow> u64 \<Rightarrow> nat \<Rightarrow> bytes" where
  "mem_bytes E p n = map (\<lambda>i. fe_mem E (p + word_of_nat i)) [0..<n]"

definition kfold_snew_kptr :: "fold_env \<Rightarrow> fold_rule" where
  "kfold_snew_kptr E J =
     ref_fold (lj_ir_kstr (mem_bytes E (ins_ptr (fleft J)) (unat (ins_i (fright J)))) J)"

text \<open>The data of a string follows its header of 16 bytes.\<close>

definition kfold_strref :: "fold_env \<Rightarrow> fold_rule" where
  "kfold_strref E J =
     (let p = fe_gcaddr E (GCO_str (ir_kstr (fleft J))) + 16 + scast (ins_i (fright J))
      in ref_fold (lj_ir_kptr_op IR_KKPTR p J))"

definition kfold_strref_snew :: fold_func where
  "kfold_strref_snew E J =
     (if phi (fleft J) then Inr (NEXTFOLD, J)
      else if irref_isk (op2 J) \<and> ins_i (fright J) = 0 then Inr (FoldRef (ir_op1 (fleft J)), J)
      else
        let ir = J_ir J (ir_op1 (fleft J)); str = ir_op1 ir in
        if ir_o ir = IR_STRREF \<and> \<not> phi ir then
          bnd (emitir E IR_ADD (mk_irt IRT_INT) (ir_op2 ir) (op2 J)) (\<lambda>r J.
            Inr (RETRYFOLD, fins_ot IR_STRREF (mk_irt IRT_P32) (fins_op1 str (fins_op2 r J)))) J
        else Inr (NEXTFOLD, J))"

definition kfold_strcmp :: fold_rule where
  "kfold_strcmp J =
     (if irref_isk (ir_op1 (fleft J)) \<and> irref_isk (ir_op2 (fleft J)) then
        let a = ir_kstr (J_ir J (ir_op1 (fleft J))); b = ir_kstr (J_ir J (ir_op2 (fleft J)))
        in INTFOLD (word_of_int (lj_str_cmp (mem_of a (\<lambda>_. 0)) (length a) (mem_of b (\<lambda>_. 0)) (length b))) J
      else (NEXTFOLD, J))"

section \<open>Buffers\<close>

definition IRBUFHDR_APPEND :: nat where "IRBUFHDR_APPEND = 1"

definition bufhdr_append :: "IRIns \<Rightarrow> bool" where
  "bufhdr_append ir = (ir_op2 ir AND IRBUFHDR_APPEND \<noteq> 0)"

definition bufput_append :: fold_rule where
  "bufput_append J =
     (let l = fleft J; r = fright J in
      if opt_on JIT_F_OPT_FWD J \<and> \<not> bufhdr_append l \<and> ir_prev l = ir_op2 r \<and>
         ir_op1 l = ir_op1 (J_ir J (ir_op2 r)) then
        let ref = op1 J; hdr = (J_ir J ref)\<lparr>ir_op2 := ir_op2 l OR IRBUFHDR_APPEND, ir_op1 := ir_op1 r\<rparr>
        in (FoldRef ref, set_ir ref hdr J)
      else emit_rule J)"

definition bufput_kgc :: fold_rule where
  "bufput_kgc J =
     (let l = fleft J; r = fright J in
      if opt_on JIT_F_OPT_FOLD J \<and> ir_o r = IR_KGC then
        let s2 = ir_kstr r in
        if s2 = [] then LEFTFOLD J
        else if ir_o l = IR_BUFPUT \<and> irref_isk (ir_op2 l) \<and> \<not> phi l then
          let s1 = ir_kstr (J_ir J (ir_op2 l)); (kref, J) = lj_ir_kstr (s1 @ s2) J
          in (FoldRef (op1 J), set_ir (op1 J) ((J_ir J (op1 J))\<lparr>ir_op2 := kref\<rparr>) J)
        else emit_rule J
      else emit_rule J)"

text \<open>The comparison of two chains of buffer operations up to their headers; operands are lower references.\<close>

function bufstr_same :: "jit_State \<Rightarrow> nat \<Rightarrow> nat \<Rightarrow> bool" where
  "bufstr_same J ra rb =
     (let ira = J_ir J ra; irb = J_ir J rb in
      if ir_o ira = ir_o irb \<and> ir_op2 ira = ir_op2 irb then
        if ir_o ira = IR_BUFHDR \<and> \<not> bufhdr_append ira then True
        else if ir_o ira = IR_CALLL \<and> ir_op2 ira = IRCALL_lj_buf_puttab then False
        else if ir_op1 ira < ra then bufstr_same J (ir_op1 ira) (ir_op1 irb) else False
      else False)"
  by pat_completeness auto
termination by (relation "measure (\<lambda>(J, ra, rb). ra)") auto

declare bufstr_same.simps [simp del]

definition bufstr_kfold_cse :: fold_rule where
  "bufstr_kfold_cse J =
     (let l = fleft J; irb = J_ir J (ir_op1 l);
          cse = (\<lambda>J. if opt_on JIT_F_OPT_CSE J then
                   case walk (J_ir J) (\<lambda>_ irs. bufstr_same J (op1 J) (ir_op1 irs)) 0 (J_chain J IR_BUFSTR) of
                     Some ref \<Rightarrow> (FoldRef ref, J)
                   | None \<Rightarrow> emit_rule J
                 else emit_rule J)
      in if opt_on JIT_F_OPT_FOLD J then
           if ir_o l = IR_BUFHDR then
             (if \<not> bufhdr_append l then ref_fold (lj_ir_kstr [] J)
              else cse_rule (fins_op2 (ir_prev l) (fins_op1 (ir_op1 l) J)))
           else if ir_o l = IR_BUFPUT \<and> ir_o irb = IR_BUFHDR \<and> \<not> bufhdr_append irb then
             (FoldRef (ir_op2 l), J)
           else cse J
         else cse J)"

text \<open>A buffer operation on constants, on the temporary buffer: the string that it puts.\<close>

definition run_buf :: "(SBuf \<Rightarrow> ErrMsg + SBuf) \<Rightarrow> TraceErr + bytes" where
  "run_buf f = (case f lj_buf_init of Inl e \<Rightarrow> Inl (TRACE_ERRMEM e) | Inr sb \<Rightarrow> Inr (lj_buf_tostr sb))"

definition bufput_const :: "nat \<Rightarrow> (SBuf \<Rightarrow> ErrMsg + SBuf) \<Rightarrow> FoldRes jit" where
  "bufput_const o1 f J =
     (case run_buf f of
        Inl e \<Rightarrow> Inl e
      | Inr s \<Rightarrow>
          let J1 = fins_op1 o1 (fins_o IR_BUFPUT J); (r, J2) = lj_ir_kstr s J1
          in Inr (RETRYFOLD, fins_op2 r J2))"

definition bufput_kfold_op :: fold_func where
  "bufput_kfold_op E J =
     (if irref_isk (ir_op2 (fleft J)) then
        let s = ir_kstr (J_ir J (ir_op2 (fleft J))) in
        bufput_const (ir_op1 (fleft J))
          (\<lambda>sb. if op2 J = IRCALL_lj_buf_putstr_reverse then lj_buf_putstr_reverse sb s
                else if op2 J = IRCALL_lj_buf_putstr_upper then lj_buf_putstr_upper sb s
                else if op2 J = IRCALL_lj_buf_putstr_lower then lj_buf_putstr_lower sb s
                else lj_strfmt_putquoted sb s) J
      else Inr (emit_rule J))"

definition bufput_kfold_rep :: fold_func where
  "bufput_kfold_rep E J =
     (let irc = J_ir J (ir_op1 (fleft J)) in
      if irref_isk (ir_op2 (fleft J)) \<and> irref_isk (ir_op2 irc) then
        bufput_const (ir_op1 irc)
          (\<lambda>sb. lj_buf_putstr_rep sb (ir_kstr (J_ir J (ir_op2 irc))) (sint (ins_i (J_ir J (ir_op2 (fleft J)))))) J
      else Inr (emit_rule J))"

definition bufput_kfold_fmt :: fold_func where
  "bufput_kfold_fmt E J =
     (let irc = J_ir J (ir_op1 (fleft J)) in
      if irref_isk (ir_op2 (fleft J)) then
        let sf = ins_i (J_ir J (ir_op2 irc)); ira = J_ir J (ir_op2 (fleft J)) in
        bufput_const (ir_op1 irc)
          (\<lambda>sb. if op2 J = IRCALL_lj_strfmt_putfxint then lj_strfmt_putfxint sb sf (ir_k64 J ira)
                else if op2 J = IRCALL_lj_strfmt_putfstr then lj_strfmt_putfstr sb sf (ir_kstr ira)
                else if op2 J = IRCALL_lj_strfmt_putfchar then lj_strfmt_putfchar sb sf (ucast (ins_i ira))
                else lj_buf_putmem sb (fe_fnum E (op2 J) sf (ir_k64 J ira))) J
      else Inr (emit_rule J))"

section \<open>Pointers and numbers\<close>

definition kfold_add_kgc :: "fold_env \<Rightarrow> fold_rule" where
  "kfold_add_kgc E J =
     (case ir_val (fleft J) of
        IV_gc g \<Rightarrow>
          let p = fe_gcaddr E g + ir_k64 J (fright J) in
          ref_fold (lj_ir_kptr_op (if irt_type (ir_t (fleft J)) = IRT_CDATA \<and> fe_cdata_const E g
                                   then IR_KKPTR else IR_KPTR) p J)
      | _ \<Rightarrow> (NEXTFOLD, J))"

definition kfold_conv_knum_u64_num :: fold_rule where
  "kfold_conv_knum_u64_num J = INT64FOLD (lj_num2u64 (knumleft J)) J"

definition kfold_tostr_knum :: "fold_env \<Rightarrow> fold_rule" where
  "kfold_tostr_knum E J = ref_fold (lj_ir_kstr (fe_num E (knumleft J)) J)"

section \<open>Loads and barriers\<close>

definition kfold_hload_kkptr :: fold_rule where
  "kfold_hload_kkptr J = (FoldRef REF_NIL, J)"

definition gcstep_barrier :: "jit_State \<Rightarrow> nat \<Rightarrow> bool" where
  "gcstep_barrier J ref =
     (ref < J_chain J IR_LOOP \<and>
      (\<exists>op \<in> {IR_SNEW, IR_XSNEW, IR_TNEW, IR_TDUP, IR_CNEW, IR_CNEWI, IR_BUFSTR, IR_TOSTR, IR_CALLA}.
         J_chain J op \<noteq> 0))"

definition uv_of :: "fold_env \<Rightarrow> jit_State \<Rightarrow> IRIns \<Rightarrow> nat \<Rightarrow> nat" where
  "uv_of E J kfn o2 = (case ir_val kfn of IV_gc g \<Rightarrow> fe_uvptr E g (drop_bit 8 o2) | _ \<Rightarrow> 0)"

definition cse_uref :: "fold_env \<Rightarrow> fold_rule" where
  "cse_uref E J =
     (if opt_on JIT_F_OPT_CSE J then
        let uv = uv_of E J (fleft J) (op2 J) in
        case walk (J_ir J) (\<lambda>_ ir. irref_isk (ir_op1 ir) \<and> uv_of E J (J_ir J (ir_op1 ir)) (ir_op2 ir) = uv)
               0 (J_chain J (fo J)) of
          Some ref \<Rightarrow> if fo J = IR_UREFO \<and> gcstep_barrier J ref then emit_rule J else (FoldRef ref, J)
        | None \<Rightarrow> emit_rule J
      else emit_rule J)"

definition fwd_href_tnew :: "fold_env \<Rightarrow> fold_rule" where
  "fwd_href_tnew E J =
     (if lj_opt_fwd_href_nokey J then ref_fold (lj_ir_kptr_op IR_KKPTR (fe_niltv E) J) else (NEXTFOLD, J))"

definition const_tab :: "jit_State \<Rightarrow> GCobj" where
  "const_tab J = (case ir_val (J_ir J (ir_op1 (fleft J))) of IV_gc g \<Rightarrow> g | _ \<Rightarrow> GCO_other 0)"

definition fwd_href_tdup :: "fold_env \<Rightarrow> fold_rule" where
  "fwd_href_tdup E J =
     (if fe_tab E (const_tab J) (lj_ir_kvalue J (fright J)) = KV_pri IRT_NIL \<and> lj_opt_fwd_href_nokey J then
        ref_fold (lj_ir_kptr_op IR_KKPTR (fe_niltv E) J)
      else (NEXTFOLD, J))"

definition fload_tab_tnew_asize :: fold_rule where
  "fload_tab_tnew_asize J =
     (if opt_on JIT_F_OPT_FOLD J \<and> lj_opt_fwd_tptr J (op1 J) then INTFOLD (word_of_nat (ir_op1 (fleft J))) J
      else (NEXTFOLD, J))"

definition fload_tab_tnew_hmask :: fold_rule where
  "fload_tab_tnew_hmask J =
     (if opt_on JIT_F_OPT_FOLD J \<and> lj_opt_fwd_tptr J (op1 J) then INTFOLD (push_bit (ir_op2 (fleft J)) 1 - 1) J
      else (NEXTFOLD, J))"

definition fload_tab_tdup_asize :: "fold_env \<Rightarrow> fold_rule" where
  "fload_tab_tdup_asize E J =
     (if opt_on JIT_F_OPT_FOLD J \<and> lj_opt_fwd_tptr J (op1 J) then INTFOLD (fe_tab_asize E (const_tab J)) J
      else (NEXTFOLD, J))"

definition fload_tab_tdup_hmask :: "fold_env \<Rightarrow> fold_rule" where
  "fload_tab_tdup_hmask E J =
     (if opt_on JIT_F_OPT_FOLD J \<and> lj_opt_fwd_tptr J (op1 J) then INTFOLD (fe_tab_hmask E (const_tab J)) J
      else (NEXTFOLD, J))"

definition fload_tab_ah :: fold_rule where
  "fload_tab_ah J =
     (let (tr, J) = lj_opt_cse J in if lj_opt_fwd_tptr J tr then (FoldRef tr, J) else emit_rule J)"

definition fload_str_len_kgc :: fold_rule where
  "fload_str_len_kgc J =
     (if opt_on JIT_F_OPT_FOLD J then INTFOLD (word_of_nat (length (ir_kstr (fleft J)))) J else (NEXTFOLD, J))"

definition fload_str_len_snew :: fold_rule where
  "fload_str_len_snew J =
     (if opt_on JIT_F_OPT_FOLD J \<and> \<not> phi (fleft J) then (FoldRef (ir_op2 (fleft J)), J) else (NEXTFOLD, J))"

definition fload_str_len_tostr :: fold_rule where
  "fload_str_len_tostr J =
     (if opt_on JIT_F_OPT_FOLD J \<and> ir_op2 (fleft J) = 2 then INTFOLD 1 J else (NEXTFOLD, J))"

definition const_obj :: "IRIns \<Rightarrow> GCobj" where
  "const_obj ir = (case ir_val ir of IV_gc g \<Rightarrow> g | _ \<Rightarrow> GCO_other 0)"

definition fload_cdata_typeid_kgc :: "fold_env \<Rightarrow> fold_rule" where
  "fload_cdata_typeid_kgc E J =
     (if opt_on JIT_F_OPT_FOLD J then INTFOLD (fe_cdata_id E (const_obj (fleft J))) J else (NEXTFOLD, J))"

text \<open>The data of a C data object follows its header of 8 bytes.\<close>

definition fload_cdata_int64_kgc :: "fold_env \<Rightarrow> fold_rule" where
  "fload_cdata_int64_kgc E J =
     (if opt_on JIT_F_OPT_FOLD J then
        let p = mem_bytes E (fe_gcaddr E (const_obj (fleft J)) + 8) 8 in
        if irt_is64 (ir_t (fins J)) then INT64FOLD (get_le 8 p) J else INTFOLD (ucast (get_le 4 p)) J
      else (NEXTFOLD, J))"

definition fload_cdata_typeid_cnew :: fold_rule where
  "fload_cdata_typeid_cnew J =
     (if opt_on JIT_F_OPT_FOLD J then (FoldRef (ir_op1 (fleft J)), J) else (NEXTFOLD, J))"

definition fload_cdata_ptr_int64_cnew :: fold_rule where
  "fload_cdata_ptr_int64_cnew J =
     (if opt_on JIT_F_OPT_FOLD J then (FoldRef (ir_op2 (fleft J)), J) else (NEXTFOLD, J))"

definition IRSLOAD_FRAME :: nat where "IRSLOAD_FRAME = 2"

definition fwd_sload :: fold_rule where
  "fwd_sload J =
     (if op2 J AND IRSLOAD_FRAME \<noteq> 0 then
        let (tr, J) = lj_opt_cse J in if tr < J_chain J IR_RETF then emit_rule J else (FoldRef tr, J)
      else (FoldRef (J_slot J (op1 J)), J))"

definition xload_kptr :: "fold_env \<Rightarrow> fold_rule" where
  "xload_kptr E J =
     (case kfold_xload (irt_type (ir_t (fins J))) (mem_bytes E (ins_ptr (fleft J)) 8) J of
        Some r \<Rightarrow> ref_fold r | None \<Rightarrow> (NEXTFOLD, J))"

definition barrier_tab :: fold_rule where
  "barrier_tab J = (let (tr, J) = lj_opt_cse J in if gcstep_barrier J tr then emit_rule J else (FoldRef tr, J))"

definition barrier_tnew_tdup :: fold_rule where
  "barrier_tnew_tdup J = (if op1 J < J_chain J IR_LOOP then (NEXTFOLD, J) else (DROPFOLD, J))"

definition prof_rule :: fold_rule where
  "prof_rule J =
     (let ref = J_chain J IR_PROF in if ref + 1 = J_nins J then (FoldRef ref, J) else emit_rule J)"

definition narrow_convert :: fold_func where
  "narrow_convert E J =
     (if phi (fleft J) then Inr (NEXTFOLD, J)
      else if J_chain J IR_LOOP \<noteq> 0 then Inr (NEXTFOLD, J)
      else lj_opt_narrow_convert E J)"

end
