(* ===== verification/LJ_FoldTable.thy ===== *)
theory LJ_FoldTable
  imports LJ_FoldEngine
begin

text \<open>
  The table of the fold rules and the engine \<open>lj_opt_fold\<close>. The build tool turns the \<open>LJFOLD\<close> lines into a hash
  table from keys to rules; here it is the association list itself. \<open>any\<close> is the key part with all bits set, a missing
  operand is 0, and a literal operand is compared by its low 10 bits.
\<close>

section \<open>The table\<close>

type_synonym fold_key = "nat \<times> nat \<times> nat"
type_synonym fold_entry = "fold_key \<times> fold_func"

definition fold_rules1 :: "fold_entry list" where
  "fold_rules1 =
    [((IR_ADD, IR_KNUM, IR_KNUM), math_rule kfold_numarith),
     ((IR_SUB, IR_KNUM, IR_KNUM), math_rule kfold_numarith),
     ((IR_MUL, IR_KNUM, IR_KNUM), math_rule kfold_numarith),
     ((IR_DIV, IR_KNUM, IR_KNUM), math_rule kfold_numarith),
     ((IR_NEG, IR_KNUM, IR_KNUM), math_rule kfold_numarith),
     ((IR_ABS, IR_KNUM, IR_KNUM), math_rule kfold_numarith),
     ((IR_ATAN2, IR_KNUM, IR_KNUM), math_rule kfold_numarith),
     ((IR_LDEXP, IR_KNUM, IR_KNUM), math_rule kfold_numarith),
     ((IR_MIN, IR_KNUM, IR_KNUM), math_rule kfold_numarith),
     ((IR_MAX, IR_KNUM, IR_KNUM), math_rule kfold_numarith),
     ((IR_LDEXP, IR_KNUM, IR_KINT), pure_rule kfold_ldexp),
     ((IR_FPMATH, IR_KNUM, 0x3ff), math_rule kfold_fpmath),
     ((IR_POW, IR_KNUM, IR_KINT), math_rule kfold_numpow), ((IR_EQ, IR_KNUM, IR_KNUM), pure_rule kfold_numcomp),
     ((IR_NE, IR_KNUM, IR_KNUM), pure_rule kfold_numcomp), ((IR_LT, IR_KNUM, IR_KNUM), pure_rule kfold_numcomp),
     ((IR_GE, IR_KNUM, IR_KNUM), pure_rule kfold_numcomp), ((IR_LE, IR_KNUM, IR_KNUM), pure_rule kfold_numcomp),
     ((IR_GT, IR_KNUM, IR_KNUM), pure_rule kfold_numcomp),
     ((IR_ULT, IR_KNUM, IR_KNUM), pure_rule kfold_numcomp),
     ((IR_UGE, IR_KNUM, IR_KNUM), pure_rule kfold_numcomp),
     ((IR_ULE, IR_KNUM, IR_KNUM), pure_rule kfold_numcomp),
     ((IR_UGT, IR_KNUM, IR_KNUM), pure_rule kfold_numcomp)]"

definition fold_rules2 :: "fold_entry list" where
  "fold_rules2 =
    [((IR_ADD, IR_KINT, IR_KINT), pure_rule kfold_intarith),
     ((IR_SUB, IR_KINT, IR_KINT), pure_rule kfold_intarith),
     ((IR_MUL, IR_KINT, IR_KINT), pure_rule kfold_intarith),
     ((IR_MOD, IR_KINT, IR_KINT), pure_rule kfold_intarith),
     ((IR_NEG, IR_KINT, IR_KINT), pure_rule kfold_intarith),
     ((IR_BAND, IR_KINT, IR_KINT), pure_rule kfold_intarith),
     ((IR_BOR, IR_KINT, IR_KINT), pure_rule kfold_intarith),
     ((IR_BXOR, IR_KINT, IR_KINT), pure_rule kfold_intarith),
     ((IR_BSHL, IR_KINT, IR_KINT), pure_rule kfold_intarith),
     ((IR_BSHR, IR_KINT, IR_KINT), pure_rule kfold_intarith),
     ((IR_BSAR, IR_KINT, IR_KINT), pure_rule kfold_intarith),
     ((IR_BROL, IR_KINT, IR_KINT), pure_rule kfold_intarith),
     ((IR_BROR, IR_KINT, IR_KINT), pure_rule kfold_intarith),
     ((IR_MIN, IR_KINT, IR_KINT), pure_rule kfold_intarith),
     ((IR_MAX, IR_KINT, IR_KINT), pure_rule kfold_intarith),
     ((IR_ADDOV, IR_KINT, IR_KINT), math_rule kfold_intovarith),
     ((IR_SUBOV, IR_KINT, IR_KINT), math_rule kfold_intovarith),
     ((IR_MULOV, IR_KINT, IR_KINT), math_rule kfold_intovarith), ((IR_BNOT, IR_KINT, 0), pure_rule kfold_bnot),
     ((IR_BSWAP, IR_KINT, 0), pure_rule kfold_bswap), ((IR_LT, IR_KINT, IR_KINT), pure_rule kfold_intcomp),
     ((IR_GE, IR_KINT, IR_KINT), pure_rule kfold_intcomp), ((IR_LE, IR_KINT, IR_KINT), pure_rule kfold_intcomp),
     ((IR_GT, IR_KINT, IR_KINT), pure_rule kfold_intcomp),
     ((IR_ULT, IR_KINT, IR_KINT), pure_rule kfold_intcomp),
     ((IR_UGE, IR_KINT, IR_KINT), pure_rule kfold_intcomp),
     ((IR_ULE, IR_KINT, IR_KINT), pure_rule kfold_intcomp),
     ((IR_UGT, IR_KINT, IR_KINT), pure_rule kfold_intcomp),
     ((IR_ABC, IR_KINT, IR_KINT), pure_rule kfold_intcomp), ((IR_UGE, 0x7f, IR_KINT), pure_rule kfold_intcomp0)]"

definition fold_rules3 :: "fold_entry list" where
  "fold_rules3 =
    [((IR_ADD, IR_KINT64, IR_KINT64), pure_rule kfold_int64arith),
     ((IR_SUB, IR_KINT64, IR_KINT64), pure_rule kfold_int64arith),
     ((IR_MUL, IR_KINT64, IR_KINT64), pure_rule kfold_int64arith),
     ((IR_BAND, IR_KINT64, IR_KINT64), pure_rule kfold_int64arith),
     ((IR_BOR, IR_KINT64, IR_KINT64), pure_rule kfold_int64arith),
     ((IR_BXOR, IR_KINT64, IR_KINT64), pure_rule kfold_int64arith),
     ((IR_DIV, IR_KINT64, IR_KINT64), pure_rule kfold_int64arith2),
     ((IR_MOD, IR_KINT64, IR_KINT64), pure_rule kfold_int64arith2),
     ((IR_POW, IR_KINT64, IR_KINT64), pure_rule kfold_int64arith2),
     ((IR_BSHL, IR_KINT64, IR_KINT), pure_rule kfold_int64shift),
     ((IR_BSHR, IR_KINT64, IR_KINT), pure_rule kfold_int64shift),
     ((IR_BSAR, IR_KINT64, IR_KINT), pure_rule kfold_int64shift),
     ((IR_BROL, IR_KINT64, IR_KINT), pure_rule kfold_int64shift),
     ((IR_BROR, IR_KINT64, IR_KINT), pure_rule kfold_int64shift),
     ((IR_BNOT, IR_KINT64, 0), pure_rule kfold_bnot64), ((IR_BSWAP, IR_KINT64, 0), pure_rule kfold_bswap64),
     ((IR_LT, IR_KINT64, IR_KINT64), pure_rule kfold_int64comp),
     ((IR_GE, IR_KINT64, IR_KINT64), pure_rule kfold_int64comp),
     ((IR_LE, IR_KINT64, IR_KINT64), pure_rule kfold_int64comp),
     ((IR_GT, IR_KINT64, IR_KINT64), pure_rule kfold_int64comp),
     ((IR_ULT, IR_KINT64, IR_KINT64), pure_rule kfold_int64comp),
     ((IR_UGE, IR_KINT64, IR_KINT64), pure_rule kfold_int64comp),
     ((IR_ULE, IR_KINT64, IR_KINT64), pure_rule kfold_int64comp),
     ((IR_UGT, IR_KINT64, IR_KINT64), pure_rule kfold_int64comp),
     ((IR_UGE, 0x7f, IR_KINT64), pure_rule kfold_int64comp0)]"

definition fold_rules4 :: "fold_entry list" where
  "fold_rules4 =
    [((IR_SNEW, IR_KKPTR, IR_KINT), env_rule kfold_snew_kptr),
     ((IR_SNEW, 0x7f, IR_KINT), pure_rule kfold_snew_empty),
     ((IR_STRREF, IR_KGC, IR_KINT), env_rule kfold_strref), ((IR_STRREF, IR_SNEW, 0x3ff), kfold_strref_snew),
     ((IR_CALLN, IR_CARG, IRCALL_lj_str_cmp), pure_rule kfold_strcmp)]"

definition fold_rules5 :: "fold_entry list" where
  "fold_rules5 =
    [((IR_BUFPUT, IR_BUFHDR, IR_BUFSTR), pure_rule bufput_append),
     ((IR_BUFPUT, 0x7f, 0x3ff), pure_rule bufput_kgc), ((IR_BUFSTR, 0x7f, 0x3ff), pure_rule bufstr_kfold_cse),
     ((IR_CALLL, IR_CARG, IRCALL_lj_buf_putstr_reverse), bufput_kfold_op),
     ((IR_CALLL, IR_CARG, IRCALL_lj_buf_putstr_upper), bufput_kfold_op),
     ((IR_CALLL, IR_CARG, IRCALL_lj_buf_putstr_lower), bufput_kfold_op),
     ((IR_CALLL, IR_CARG, IRCALL_lj_strfmt_putquoted), bufput_kfold_op),
     ((IR_CALLL, IR_CARG, IRCALL_lj_buf_putstr_rep), bufput_kfold_rep),
     ((IR_CALLL, IR_CARG, IRCALL_lj_strfmt_putfxint), bufput_kfold_fmt),
     ((IR_CALLL, IR_CARG, IRCALL_lj_strfmt_putfnum_int), bufput_kfold_fmt),
     ((IR_CALLL, IR_CARG, IRCALL_lj_strfmt_putfnum_uint), bufput_kfold_fmt),
     ((IR_CALLL, IR_CARG, IRCALL_lj_strfmt_putfnum), bufput_kfold_fmt),
     ((IR_CALLL, IR_CARG, IRCALL_lj_strfmt_putfstr), bufput_kfold_fmt),
     ((IR_CALLL, IR_CARG, IRCALL_lj_strfmt_putfchar), bufput_kfold_fmt)]"

definition fold_rules6 :: "fold_entry list" where
  "fold_rules6 =
    [((IR_ADD, IR_KGC, IR_KINT), env_rule kfold_add_kgc), ((IR_ADD, IR_KGC, IR_KINT64), env_rule kfold_add_kgc),
     ((IR_ADD, IR_KPTR, IR_KINT), pure_rule kfold_add_kptr),
     ((IR_ADD, IR_KPTR, IR_KINT64), pure_rule kfold_add_kptr),
     ((IR_ADD, IR_KKPTR, IR_KINT), pure_rule kfold_add_kptr),
     ((IR_ADD, IR_KKPTR, IR_KINT64), pure_rule kfold_add_kptr),
     ((IR_ADD, 0x7f, IR_KGC), pure_rule kfold_add_kright),
     ((IR_ADD, 0x7f, IR_KPTR), pure_rule kfold_add_kright),
     ((IR_ADD, 0x7f, IR_KKPTR), pure_rule kfold_add_kright)]"

definition fold_rules7 :: "fold_entry list" where
  "fold_rules7 =
    [((IR_TOBIT, IR_KNUM, IR_KNUM), pure_rule kfold_tobit),
     ((IR_CONV, IR_KINT, irconv IRT_NUM IRT_INT), pure_rule kfold_conv_kint_num),
     ((IR_CONV, IR_KINT, irconv IRT_NUM IRT_U32), pure_rule kfold_conv_kintu32_num),
     ((IR_CONV, IR_KINT, irconv IRT_INT IRT_I8), pure_rule kfold_conv_kint_ext),
     ((IR_CONV, IR_KINT, irconv IRT_INT IRT_U8), pure_rule kfold_conv_kint_ext),
     ((IR_CONV, IR_KINT, irconv IRT_INT IRT_I16), pure_rule kfold_conv_kint_ext),
     ((IR_CONV, IR_KINT, irconv IRT_INT IRT_U16), pure_rule kfold_conv_kint_ext),
     ((IR_CONV, IR_KINT, irconv IRT_I64 IRT_INT), pure_rule kfold_conv_kint_i64),
     ((IR_CONV, IR_KINT, irconv IRT_U64 IRT_INT), pure_rule kfold_conv_kint_i64),
     ((IR_CONV, IR_KINT, irconv IRT_I64 IRT_U32), pure_rule kfold_conv_kint_i64),
     ((IR_CONV, IR_KINT, irconv IRT_U64 IRT_U32), pure_rule kfold_conv_kint_i64),
     ((IR_CONV, IR_KINT64, irconv IRT_NUM IRT_I64), pure_rule kfold_conv_kint64_num_i64),
     ((IR_CONV, IR_KINT64, irconv IRT_NUM IRT_U64), pure_rule kfold_conv_kint64_num_u64),
     ((IR_CONV, IR_KINT64, irconv IRT_INT IRT_I64), pure_rule kfold_conv_kint64_int_i64),
     ((IR_CONV, IR_KINT64, irconv IRT_U32 IRT_I64), pure_rule kfold_conv_kint64_int_i64),
     ((IR_CONV, IR_KNUM, irconv IRT_INT IRT_NUM), pure_rule kfold_conv_knum_int_num),
     ((IR_CONV, IR_KNUM, irconv IRT_U32 IRT_NUM), pure_rule kfold_conv_knum_u32_num),
     ((IR_CONV, IR_KNUM, irconv IRT_I64 IRT_NUM), pure_rule kfold_conv_knum_i64_num),
     ((IR_CONV, IR_KNUM, irconv IRT_U64 IRT_NUM), pure_rule kfold_conv_knum_u64_num),
     ((IR_TOSTR, IR_KNUM, 0x3ff), env_rule kfold_tostr_knum),
     ((IR_TOSTR, IR_KINT, 0x3ff), pure_rule kfold_tostr_kint), ((IR_STRTO, IR_KGC, 0), pure_rule kfold_strto)]"

definition fold_rules8 :: "fold_entry list" where
  "fold_rules8 =
    [((IR_EQ, IR_FLOAD, IR_KNULL), pure_rule cse_rule), ((IR_NE, IR_FLOAD, IR_KNULL), pure_rule cse_rule),
     ((IR_EQ, 0x7f, IR_KNULL), pure_rule kfold_kref), ((IR_NE, 0x7f, IR_KNULL), pure_rule kfold_kref),
     ((IR_EQ, IR_KNULL, 0x3ff), pure_rule kfold_kref), ((IR_NE, IR_KNULL, 0x3ff), pure_rule kfold_kref),
     ((IR_EQ, IR_KINT, IR_KINT), pure_rule kfold_kref), ((IR_NE, IR_KINT, IR_KINT), pure_rule kfold_kref),
     ((IR_EQ, IR_KINT64, IR_KINT64), pure_rule kfold_kref),
     ((IR_NE, IR_KINT64, IR_KINT64), pure_rule kfold_kref), ((IR_EQ, IR_KGC, IR_KGC), pure_rule kfold_kref),
     ((IR_NE, IR_KGC, IR_KGC), pure_rule kfold_kref)]"

definition fold_rules9 :: "fold_entry list" where
  "fold_rules9 =
    [((IR_FPMATH, IR_FPMATH, IRFPM_FLOOR), pure_rule shortcut_round),
     ((IR_FPMATH, IR_FPMATH, IRFPM_CEIL), pure_rule shortcut_round),
     ((IR_FPMATH, IR_FPMATH, IRFPM_TRUNC), pure_rule shortcut_round),
     ((IR_ABS, IR_ABS, IR_KNUM), pure_rule shortcut_left),
     ((IR_ABS, IR_NEG, IR_KNUM), pure_rule shortcut_dropleft),
     ((IR_NEG, IR_NEG, 0x3ff), pure_rule shortcut_leftleft),
     ((IR_BNOT, IR_BNOT, 0), pure_rule shortcut_leftleft),
     ((IR_BSWAP, IR_BSWAP, 0), pure_rule shortcut_leftleft)]"

definition fold_rules10 :: "fold_entry list" where
  "fold_rules10 =
    [((IR_ADD, IR_NEG, 0x3ff), pure_rule simplify_numadd_negx),
     ((IR_ADD, 0x7f, IR_NEG), pure_rule simplify_numadd_xneg),
     ((IR_SUB, 0x7f, IR_KNUM), pure_rule simplify_numsub_k),
     ((IR_SUB, IR_NEG, IR_KNUM), pure_rule simplify_numsub_negk),
     ((IR_SUB, 0x7f, IR_NEG), pure_rule simplify_numsub_xneg),
     ((IR_MUL, 0x7f, IR_KNUM), pure_rule simplify_nummuldiv_k),
     ((IR_DIV, 0x7f, IR_KNUM), pure_rule simplify_nummuldiv_k),
     ((IR_MUL, IR_NEG, IR_KNUM), pure_rule simplify_nummuldiv_negk),
     ((IR_DIV, IR_NEG, IR_KNUM), pure_rule simplify_nummuldiv_negk),
     ((IR_MUL, IR_NEG, IR_NEG), pure_rule simplify_nummuldiv_negneg),
     ((IR_DIV, IR_NEG, IR_NEG), pure_rule simplify_nummuldiv_negneg),
     ((IR_POW, 0x7f, IR_KINT), simplify_numpow_xk), ((IR_POW, IR_KNUM, 0x3ff), simplify_numpow_kx)]"

definition fold_rules11 :: "fold_entry list" where
  "fold_rules11 =
    [((IR_CONV, IR_CONV, irconv IRT_NUM IRT_INT), pure_rule shortcut_conv_num_int),
     ((IR_CONV, IR_CONV, irconv IRT_INT IRT_NUM), pure_rule simplify_conv_int_num),
     ((IR_CONV, IR_CONV, irconv IRT_U32 IRT_NUM), pure_rule simplify_conv_int_num),
     ((IR_CONV, IR_CONV, irconv IRT_I64 IRT_NUM), pure_rule simplify_conv_i64_num),
     ((IR_CONV, IR_CONV, irconv IRT_U64 IRT_NUM), pure_rule simplify_conv_i64_num),
     ((IR_CONV, IR_CONV, irconv IRT_INT IRT_I64), pure_rule simplify_conv_int_i64),
     ((IR_CONV, IR_CONV, irconv IRT_INT IRT_U64), pure_rule simplify_conv_int_i64),
     ((IR_CONV, IR_CONV, irconv IRT_U32 IRT_I64), pure_rule simplify_conv_int_i64),
     ((IR_CONV, IR_CONV, irconv IRT_U32 IRT_U64), pure_rule simplify_conv_int_i64),
     ((IR_CONV, IR_CONV, irconv IRT_FLOAT IRT_NUM), pure_rule simplify_conv_flt_num),
     ((IR_TOBIT, IR_CONV, IR_KNUM), pure_rule simplify_tobit_conv),
     ((IR_FPMATH, IR_CONV, IRFPM_FLOOR), pure_rule simplify_floor_conv),
     ((IR_FPMATH, IR_CONV, IRFPM_CEIL), pure_rule simplify_floor_conv),
     ((IR_FPMATH, IR_CONV, IRFPM_TRUNC), pure_rule simplify_floor_conv),
     ((IR_CONV, 0x7f, irconv IRT_I64 IRT_INT), pure_rule simplify_conv_sext),
     ((IR_CONV, 0x7f, irconv IRT_U64 IRT_INT), pure_rule simplify_conv_sext),
     ((IR_CONV, IR_ADD, irconv IRT_INT IRT_I64), simplify_conv_narrow),
     ((IR_CONV, IR_SUB, irconv IRT_INT IRT_I64), simplify_conv_narrow),
     ((IR_CONV, IR_MUL, irconv IRT_INT IRT_I64), simplify_conv_narrow),
     ((IR_CONV, IR_ADD, irconv IRT_INT IRT_U64), simplify_conv_narrow),
     ((IR_CONV, IR_SUB, irconv IRT_INT IRT_U64), simplify_conv_narrow),
     ((IR_CONV, IR_MUL, irconv IRT_INT IRT_U64), simplify_conv_narrow),
     ((IR_CONV, IR_ADD, irconv IRT_U32 IRT_I64), simplify_conv_narrow),
     ((IR_CONV, IR_SUB, irconv IRT_U32 IRT_I64), simplify_conv_narrow),
     ((IR_CONV, IR_MUL, irconv IRT_U32 IRT_I64), simplify_conv_narrow)]"

definition fold_rules12 :: "fold_entry list" where
  "fold_rules12 =
    [((IR_CONV, IR_ADD, irconv IRT_U32 IRT_U64), simplify_conv_narrow),
     ((IR_CONV, IR_SUB, irconv IRT_U32 IRT_U64), simplify_conv_narrow),
     ((IR_CONV, IR_MUL, irconv IRT_U32 IRT_U64), simplify_conv_narrow),
     ((IR_CONV, 0x7f, 0x3ff), pure_rule cse_conv), ((IR_TOBIT, IR_ADD, IR_KNUM), narrow_convert),
     ((IR_TOBIT, IR_SUB, IR_KNUM), narrow_convert), ((IR_CONV, IR_ADD, irconv IRT_INT IRT_NUM), narrow_convert),
     ((IR_CONV, IR_SUB, irconv IRT_INT IRT_NUM), narrow_convert),
     ((IR_CONV, IR_ADD, irconv IRT_I64 IRT_NUM), narrow_convert),
     ((IR_CONV, IR_SUB, irconv IRT_I64 IRT_NUM), narrow_convert)]"

definition fold_rules13 :: "fold_entry list" where
  "fold_rules13 =
    [((IR_ADD, 0x7f, IR_KINT), pure_rule simplify_intadd_k),
     ((IR_ADDOV, 0x7f, IR_KINT), pure_rule simplify_intadd_k),
     ((IR_SUBOV, 0x7f, IR_KINT), pure_rule simplify_intadd_k),
     ((IR_MULOV, 0x7f, IR_KINT), pure_rule simplify_intmulov_k),
     ((IR_SUB, 0x7f, IR_KINT), pure_rule simplify_intsub_k),
     ((IR_SUB, IR_KINT, 0x3ff), pure_rule simplify_intsub_kleft),
     ((IR_SUB, IR_KINT64, 0x3ff), pure_rule simplify_intsub_kleft),
     ((IR_ADD, 0x7f, IR_KINT64), pure_rule simplify_intadd_k64),
     ((IR_SUB, 0x7f, IR_KINT64), pure_rule simplify_intsub_k64),
     ((IR_MUL, 0x7f, IR_KINT), pure_rule simplify_intmul_k32),
     ((IR_MUL, 0x7f, IR_KINT64), pure_rule simplify_intmul_k64),
     ((IR_MOD, 0x7f, IR_KINT), pure_rule simplify_intmod_k),
     ((IR_MOD, IR_KINT, 0x3ff), pure_rule simplify_intmod_kleft),
     ((IR_SUB, 0x7f, 0x3ff), pure_rule simplify_intsub), ((IR_SUBOV, 0x7f, 0x3ff), pure_rule simplify_intsub),
     ((IR_SUB, IR_ADD, 0x3ff), pure_rule simplify_intsubadd_leftcancel),
     ((IR_SUB, IR_SUB, 0x3ff), pure_rule simplify_intsubsub_leftcancel)]"

definition fold_rules14 :: "fold_entry list" where
  "fold_rules14 =
    [((IR_SUB, 0x7f, IR_SUB), pure_rule simplify_intsubsub_rightcancel),
     ((IR_SUB, 0x7f, IR_ADD), pure_rule simplify_intsubadd_rightcancel),
     ((IR_SUB, IR_ADD, IR_ADD), pure_rule simplify_intsubaddadd_cancel),
     ((IR_BAND, 0x7f, IR_KINT), pure_rule simplify_band_k),
     ((IR_BAND, 0x7f, IR_KINT64), pure_rule simplify_band_k),
     ((IR_BOR, 0x7f, IR_KINT), pure_rule simplify_bor_k), ((IR_BOR, 0x7f, IR_KINT64), pure_rule simplify_bor_k),
     ((IR_BXOR, 0x7f, IR_KINT), pure_rule simplify_bxor_k),
     ((IR_BXOR, 0x7f, IR_KINT64), pure_rule simplify_bxor_k),
     ((IR_BSHL, 0x7f, IR_KINT), pure_rule simplify_shift_ik),
     ((IR_BSHR, 0x7f, IR_KINT), pure_rule simplify_shift_ik),
     ((IR_BSAR, 0x7f, IR_KINT), pure_rule simplify_shift_ik),
     ((IR_BROL, 0x7f, IR_KINT), pure_rule simplify_shift_ik),
     ((IR_BROR, 0x7f, IR_KINT), pure_rule simplify_shift_ik),
     ((IR_BSHL, 0x7f, IR_BAND), pure_rule simplify_shift_andk),
     ((IR_BSHR, 0x7f, IR_BAND), pure_rule simplify_shift_andk),
     ((IR_BSAR, 0x7f, IR_BAND), pure_rule simplify_shift_andk),
     ((IR_BROL, 0x7f, IR_BAND), pure_rule simplify_shift_andk),
     ((IR_BROR, 0x7f, IR_BAND), pure_rule simplify_shift_andk)]"

definition fold_rules15 :: "fold_entry list" where
  "fold_rules15 =
    [((IR_BSHL, IR_KINT, 0x3ff), pure_rule simplify_shift1_ki),
     ((IR_BSHR, IR_KINT, 0x3ff), pure_rule simplify_shift1_ki),
     ((IR_BSHL, IR_KINT64, 0x3ff), pure_rule simplify_shift1_ki),
     ((IR_BSHR, IR_KINT64, 0x3ff), pure_rule simplify_shift1_ki),
     ((IR_BSAR, IR_KINT, 0x3ff), pure_rule simplify_shift2_ki),
     ((IR_BROL, IR_KINT, 0x3ff), pure_rule simplify_shift2_ki),
     ((IR_BROR, IR_KINT, 0x3ff), pure_rule simplify_shift2_ki),
     ((IR_BSAR, IR_KINT64, 0x3ff), pure_rule simplify_shift2_ki),
     ((IR_BROL, IR_KINT64, 0x3ff), pure_rule simplify_shift2_ki),
     ((IR_BROR, IR_KINT64, 0x3ff), pure_rule simplify_shift2_ki),
     ((IR_BSHL, IR_BAND, IR_KINT), simplify_shiftk_andk), ((IR_BSHR, IR_BAND, IR_KINT), simplify_shiftk_andk),
     ((IR_BROL, IR_BAND, IR_KINT), simplify_shiftk_andk), ((IR_BROR, IR_BAND, IR_KINT), simplify_shiftk_andk),
     ((IR_BAND, IR_BSHL, IR_KINT), pure_rule simplify_andk_shiftk),
     ((IR_BAND, IR_BSHR, IR_KINT), pure_rule simplify_andk_shiftk)]"

definition fold_rules16 :: "fold_entry list" where
  "fold_rules16 =
    [((IR_ADD, IR_ADD, IR_KINT), pure_rule reassoc_intarith_k),
     ((IR_MUL, IR_MUL, IR_KINT), pure_rule reassoc_intarith_k),
     ((IR_BAND, IR_BAND, IR_KINT), pure_rule reassoc_intarith_k),
     ((IR_BOR, IR_BOR, IR_KINT), pure_rule reassoc_intarith_k),
     ((IR_BXOR, IR_BXOR, IR_KINT), pure_rule reassoc_intarith_k),
     ((IR_ADD, IR_ADD, IR_KINT64), pure_rule reassoc_intarith_k64),
     ((IR_MUL, IR_MUL, IR_KINT64), pure_rule reassoc_intarith_k64),
     ((IR_BAND, IR_BAND, IR_KINT64), pure_rule reassoc_intarith_k64),
     ((IR_BOR, IR_BOR, IR_KINT64), pure_rule reassoc_intarith_k64),
     ((IR_BXOR, IR_BXOR, IR_KINT64), pure_rule reassoc_intarith_k64),
     ((IR_MIN, IR_MIN, 0x3ff), pure_rule reassoc_dup), ((IR_MAX, IR_MAX, 0x3ff), pure_rule reassoc_dup),
     ((IR_BAND, IR_BAND, 0x3ff), pure_rule reassoc_dup), ((IR_BOR, IR_BOR, 0x3ff), pure_rule reassoc_dup),
     ((IR_BXOR, IR_BXOR, 0x3ff), pure_rule reassoc_bxor),
     ((IR_BSHL, IR_BSHL, IR_KINT), pure_rule reassoc_shift),
     ((IR_BSHR, IR_BSHR, IR_KINT), pure_rule reassoc_shift),
     ((IR_BSAR, IR_BSAR, IR_KINT), pure_rule reassoc_shift),
     ((IR_BROL, IR_BROL, IR_KINT), pure_rule reassoc_shift),
     ((IR_BROR, IR_BROR, IR_KINT), pure_rule reassoc_shift),
     ((IR_MIN, IR_MIN, IR_KNUM), math_rule reassoc_minmax_k),
     ((IR_MAX, IR_MAX, IR_KNUM), math_rule reassoc_minmax_k),
     ((IR_MIN, IR_MIN, IR_KINT), math_rule reassoc_minmax_k),
     ((IR_MAX, IR_MAX, IR_KINT), math_rule reassoc_minmax_k),
     ((IR_MIN, IR_MAX, 0x3ff), pure_rule reassoc_minmax_left),
     ((IR_MAX, IR_MIN, 0x3ff), pure_rule reassoc_minmax_left),
     ((IR_MIN, 0x7f, IR_MAX), pure_rule reassoc_minmax_right),
     ((IR_MAX, 0x7f, IR_MIN), pure_rule reassoc_minmax_right)]"

definition fold_rules17 :: "fold_entry list" where
  "fold_rules17 =
    [((IR_ABC, 0x7f, IR_ADD), pure_rule abc_fwd), ((IR_ABC, 0x7f, IR_KINT), pure_rule abc_k),
     ((IR_ABC, 0x7f, 0x3ff), pure_rule abc_invar)]"

definition fold_rules18 :: "fold_entry list" where
  "fold_rules18 =
    [((IR_ADD, 0x7f, 0x3ff), pure_rule comm_swap), ((IR_MUL, 0x7f, 0x3ff), pure_rule comm_swap),
     ((IR_ADDOV, 0x7f, 0x3ff), pure_rule comm_swap), ((IR_MULOV, 0x7f, 0x3ff), pure_rule comm_swap),
     ((IR_EQ, 0x7f, 0x3ff), pure_rule comm_equal), ((IR_NE, 0x7f, 0x3ff), pure_rule comm_equal),
     ((IR_LT, 0x7f, 0x3ff), pure_rule comm_comp), ((IR_GE, 0x7f, 0x3ff), pure_rule comm_comp),
     ((IR_LE, 0x7f, 0x3ff), pure_rule comm_comp), ((IR_GT, 0x7f, 0x3ff), pure_rule comm_comp),
     ((IR_ULT, 0x7f, 0x3ff), pure_rule comm_comp), ((IR_UGE, 0x7f, 0x3ff), pure_rule comm_comp),
     ((IR_ULE, 0x7f, 0x3ff), pure_rule comm_comp), ((IR_UGT, 0x7f, 0x3ff), pure_rule comm_comp),
     ((IR_BAND, 0x7f, 0x3ff), pure_rule comm_dup), ((IR_BOR, 0x7f, 0x3ff), pure_rule comm_dup),
     ((IR_MIN, 0x7f, 0x3ff), pure_rule comm_dup), ((IR_MAX, 0x7f, 0x3ff), pure_rule comm_dup),
     ((IR_BXOR, 0x7f, 0x3ff), pure_rule comm_bxor)]"

definition fold_rules19 :: "fold_entry list" where
  "fold_rules19 =
    [((IR_EQ, IR_SNEW, IR_KGC), merge_eqne_snew_kgc), ((IR_NE, IR_SNEW, IR_KGC), merge_eqne_snew_kgc)]"

definition fold_rules20 :: "fold_entry list" where
  "fold_rules20 =
    [((IR_ALOAD, 0x7f, 0), env_rule lj_opt_fwd_aload), ((IR_HLOAD, IR_KKPTR, 0), pure_rule kfold_hload_kkptr),
     ((IR_HLOAD, 0x7f, 0), env_rule lj_opt_fwd_hload), ((IR_ULOAD, 0x7f, 0), pure_rule lj_opt_fwd_uload),
     ((IR_CALLL, 0x7f, IRCALL_lj_tab_len), pure_rule lj_opt_fwd_tab_len),
     ((IR_UREFO, IR_KGC, 0x3ff), env_rule cse_uref), ((IR_UREFC, IR_KGC, 0x3ff), env_rule cse_uref),
     ((IR_HREFK, 0x7f, 0x3ff), pure_rule lj_opt_fwd_hrefk), ((IR_HREF, IR_TNEW, 0x3ff), env_rule fwd_href_tnew),
     ((IR_HREF, IR_TDUP, IR_KPRI), env_rule fwd_href_tdup),
     ((IR_HREF, IR_TDUP, IR_KGC), env_rule fwd_href_tdup),
     ((IR_HREF, IR_TDUP, IR_KNUM), env_rule fwd_href_tdup),
     ((IR_FLOAD, IR_TNEW, IRFL_TAB_ASIZE), pure_rule fload_tab_tnew_asize),
     ((IR_FLOAD, IR_TNEW, IRFL_TAB_HMASK), pure_rule fload_tab_tnew_hmask),
     ((IR_FLOAD, IR_TDUP, IRFL_TAB_ASIZE), env_rule fload_tab_tdup_asize),
     ((IR_FLOAD, IR_TDUP, IRFL_TAB_HMASK), env_rule fload_tab_tdup_hmask),
     ((IR_HREF, 0x7f, 0x3ff), pure_rule fload_tab_ah),
     ((IR_FLOAD, 0x7f, IRFL_TAB_ARRAY), pure_rule fload_tab_ah),
     ((IR_FLOAD, 0x7f, IRFL_TAB_NODE), pure_rule fload_tab_ah),
     ((IR_FLOAD, 0x7f, IRFL_TAB_ASIZE), pure_rule fload_tab_ah),
     ((IR_FLOAD, 0x7f, IRFL_TAB_HMASK), pure_rule fload_tab_ah),
     ((IR_FLOAD, IR_KGC, IRFL_STR_LEN), pure_rule fload_str_len_kgc),
     ((IR_FLOAD, IR_SNEW, IRFL_STR_LEN), pure_rule fload_str_len_snew),
     ((IR_FLOAD, IR_TOSTR, IRFL_STR_LEN), pure_rule fload_str_len_tostr)]"

definition fold_rules21 :: "fold_entry list" where
  "fold_rules21 =
    [((IR_FLOAD, IR_KGC, IRFL_CDATA_CTYPEID), env_rule fload_cdata_typeid_kgc),
     ((IR_FLOAD, IR_KGC, IRFL_CDATA_PTR), env_rule fload_cdata_int64_kgc),
     ((IR_FLOAD, IR_KGC, IRFL_CDATA_INT), env_rule fload_cdata_int64_kgc),
     ((IR_FLOAD, IR_KGC, IRFL_CDATA_INT64), env_rule fload_cdata_int64_kgc),
     ((IR_FLOAD, IR_CNEW, IRFL_CDATA_CTYPEID), pure_rule fload_cdata_typeid_cnew),
     ((IR_FLOAD, IR_CNEWI, IRFL_CDATA_CTYPEID), pure_rule fload_cdata_typeid_cnew),
     ((IR_FLOAD, IR_CNEWI, IRFL_CDATA_PTR), pure_rule fload_cdata_ptr_int64_cnew),
     ((IR_FLOAD, IR_CNEWI, IRFL_CDATA_INT), pure_rule fload_cdata_ptr_int64_cnew),
     ((IR_FLOAD, IR_CNEWI, IRFL_CDATA_INT64), pure_rule fload_cdata_ptr_int64_cnew),
     ((IR_FLOAD, 0x7f, IRFL_STR_LEN), pure_rule cse_rule),
     ((IR_FLOAD, 0x7f, IRFL_FUNC_ENV), pure_rule cse_rule),
     ((IR_FLOAD, 0x7f, IRFL_THREAD_ENV), pure_rule cse_rule),
     ((IR_FLOAD, 0x7f, IRFL_CDATA_CTYPEID), pure_rule cse_rule),
     ((IR_FLOAD, 0x7f, IRFL_CDATA_PTR), pure_rule cse_rule),
     ((IR_FLOAD, 0x7f, IRFL_CDATA_INT), pure_rule cse_rule),
     ((IR_FLOAD, 0x7f, IRFL_CDATA_INT64), pure_rule cse_rule), ((IR_VLOAD, 0x7f, 0x3ff), pure_rule cse_rule),
     ((IR_FLOAD, 0x7f, 0x3ff), pure_rule lj_opt_fwd_fload), ((IR_SLOAD, 0x7f, 0x3ff), pure_rule fwd_sload),
     ((IR_XLOAD, IR_KKPTR, 0x3ff), env_rule xload_kptr), ((IR_XLOAD, 0x7f, 0x3ff), pure_rule lj_opt_fwd_xload)]"

definition fold_rules22 :: "fold_entry list" where
  "fold_rules22 =
    [((IR_TBAR, 0x7f, 0), pure_rule barrier_tab), ((IR_OBAR, 0x7f, 0x3ff), pure_rule barrier_tab),
     ((IR_UREFO, 0x7f, 0x3ff), pure_rule barrier_tab), ((IR_TBAR, IR_TNEW, 0), pure_rule barrier_tnew_tdup),
     ((IR_TBAR, IR_TDUP, 0), pure_rule barrier_tnew_tdup)]"

definition fold_rules23 :: "fold_entry list" where
  "fold_rules23 =
    [((IR_PROF, 0x7f, 0x3ff), pure_rule prof_rule)]"

definition fold_rules24 :: "fold_entry list" where
  "fold_rules24 =
    [((IR_ASTORE, 0x7f, 0x3ff), pure_rule lj_opt_dse_ahstore),
     ((IR_HSTORE, 0x7f, 0x3ff), pure_rule lj_opt_dse_ahstore),
     ((IR_USTORE, 0x7f, 0x3ff), pure_rule lj_opt_dse_ustore),
     ((IR_FSTORE, 0x7f, 0x3ff), pure_rule lj_opt_dse_fstore),
     ((IR_XSTORE, 0x7f, 0x3ff), pure_rule lj_opt_dse_xstore), ((IR_NEWREF, 0x7f, 0x3ff), pure_rule emit_rule),
     ((IR_CALLA, 0x7f, 0x3ff), pure_rule emit_rule), ((IR_CALLL, 0x7f, 0x3ff), pure_rule emit_rule),
     ((IR_CALLS, 0x7f, 0x3ff), pure_rule emit_rule), ((IR_CALLXS, 0x7f, 0x3ff), pure_rule emit_rule),
     ((IR_XBAR, 0, 0), pure_rule emit_rule), ((IR_RETF, 0x7f, 0x3ff), pure_rule emit_rule),
     ((IR_TNEW, 0x7f, 0x3ff), pure_rule emit_rule), ((IR_TDUP, 0x7f, 0), pure_rule emit_rule),
     ((IR_CNEW, 0x7f, 0x3ff), pure_rule emit_rule), ((IR_XSNEW, 0x7f, 0x3ff), pure_rule emit_rule),
     ((IR_BUFHDR, 0x7f, 0x3ff), pure_rule emit_rule)]"

definition fold_table :: "fold_entry list" where
  "fold_table =
    concat [fold_rules1, fold_rules2, fold_rules3, fold_rules4, fold_rules5, fold_rules6, fold_rules7, fold_rules8,
      fold_rules9, fold_rules10, fold_rules11, fold_rules12, fold_rules13, fold_rules14, fold_rules15, fold_rules16,
      fold_rules17, fold_rules18, fold_rules19, fold_rules20, fold_rules21, fold_rules22, fold_rules23, fold_rules24]"

section \<open>The engine\<close>

definition JIT_F_OPT_MASK :: u32 where "JIT_F_OPT_MASK = 0x0fff0000"
definition JIT_F_OPT_DEFAULT :: u32 where "JIT_F_OPT_DEFAULT = 0x03ff0000"

text \<open>The checks of the optimisation flags before the rules (\<open>retry\<close>) are tried.\<close>

definition opt_all :: "u32 \<Rightarrow> jit_State \<Rightarrow> bool" where
  "opt_all f J = (J_flags J AND f = f)"

definition fold_checked :: "nat jit \<Rightarrow> nat jit" where
  "fold_checked retry J =
     (let kind = irm_kind (lj_ir_mode (fo J)) in
      if J_flags J AND JIT_F_OPT_MASK \<noteq> JIT_F_OPT_DEFAULT then
        if \<not> opt_on JIT_F_OPT_FOLD J \<and> kind = IRM_N then Inr (lj_opt_cse J)
        else if \<not> opt_all (JIT_F_OPT_FOLD OR JIT_F_OPT_FWD OR JIT_F_OPT_CSE) J \<and> kind = IRM_L \<and> fo J \<noteq> IR_SLOAD then
          Inr (lj_ir_emit J)
        else if \<not> opt_all (JIT_F_OPT_FOLD OR JIT_F_OPT_DSE) J \<and> kind = IRM_S then Inr (lj_ir_emit J)
        else retry J
      else retry J)"

text \<open>The key of the instruction; the operands that are references are copied to \<open>fleft\<close> and \<open>fright\<close>.\<close>

definition fold_load :: "jit_State \<Rightarrow> fold_key \<times> jit_State" where
  "fold_load J =
     (let (l, J) = (if op1 J \<ge> J_nk J then (ir_o (J_ir J (op1 J)), J\<lparr>J_left := J_ir J (op1 J)\<rparr>) else (0, J));
          (r, J) = (if op2 J \<ge> J_nk J then (ir_o (J_ir J (op2 J)), J\<lparr>J_right := J_ir J (op2 J)\<rparr>)
                    else (op2 J AND 0x3ff, J))
      in ((fo J, l, r), J))"

text \<open>From the most specific key to the least specific one; the last result is \<open>NEXTFOLD\<close> when no rule applies.\<close>

definition fold_keys :: "fold_key \<Rightarrow> fold_key list" where
  "fold_keys k = (case k of (op, l, r) \<Rightarrow> [(op, l, r), (op, 0x7f, r), (op, l, 0x3ff), (op, 0x7f, 0x3ff)])"

fun fold_match :: "fold_env \<Rightarrow> fold_key list \<Rightarrow> FoldRes jit" where
  "fold_match E [] J = Inr (NEXTFOLD, J)"
| "fold_match E (k # ks) J =
     (case map_of fold_table k of
        None \<Rightarrow> fold_match E ks J
      | Some rule \<Rightarrow>
          (case rule E J of
             Inl e \<Rightarrow> Inl e
           | Inr (res, J) \<Rightarrow> if res = NEXTFOLD then fold_match E ks J else Inr (res, J)))"

text \<open>The retry loop; each round and each nested call of the engine takes one unit of fuel.\<close>

fun fold_retry :: "nat \<Rightarrow> fold_env \<Rightarrow> nat jit" where
  "fold_retry 0 E J = Inl FOLD_FUEL"
| "fold_retry (Suc n) E J =
     (let (key, J) = fold_load J in
      case fold_match (E\<lparr>fe_fold := fold_checked (fold_retry n E)\<rparr>) (fold_keys key) J of
        Inl e \<Rightarrow> Inl e
      | Inr (NEXTFOLD, J) \<Rightarrow> Inr (lj_opt_cse J)
      | Inr (FoldRef ref, J) \<Rightarrow> Inr (ref, J)
      | Inr (RETRYFOLD, J) \<Rightarrow> fold_retry n E J
      | Inr (KINTFOLD, J) \<Rightarrow> Inr (lj_ir_kint (ins_i (fins J)) J)
      | Inr (FAILFOLD, J) \<Rightarrow> Inl LJ_TRERR_GFAIL
      | Inr (DROPFOLD, J) \<Rightarrow> Inr (REF_DROP, J))"

definition lj_opt_fold :: "nat \<Rightarrow> fold_env \<Rightarrow> nat jit" where
  "lj_opt_fold n E = fold_checked (fold_retry n E)"

end
