(* ===== verification/LJ_Interner.thy ===== *)
theory LJ_Interner
  imports LJ_Prelude
begin

text \<open>
  The contract of hash-consing: a table that hands out one reference per key. The string table (\<^verbatim>\<open>lj_str.c\<close>) and
  the constants of the intermediate representation (\<^verbatim>\<open>lj_ir.c\<close>) both provide it; what the rest of the code
  relies on is that references are equal exactly if their keys are.
\<close>

text \<open>Interning a sequence of keys, with the references that it hands out; whether there is room for all.\<close>

fun intern_all :: "('k \<Rightarrow> 's \<Rightarrow> 'r \<times> 's) \<Rightarrow> 'k list \<Rightarrow> 's \<Rightarrow> 'r list \<times> 's" where
  "intern_all f [] s = ([], s)"
| "intern_all f (k # ks) s = (let (r, s1) = f k s; (rs, s2) = intern_all f ks s1 in (r # rs, s2))"

fun room_all :: "('k \<Rightarrow> 's \<Rightarrow> bool) \<Rightarrow> ('k \<Rightarrow> 's \<Rightarrow> 'r \<times> 's) \<Rightarrow> 'k list \<Rightarrow> 's \<Rightarrow> bool" where
  "room_all room f [] s = True"
| "room_all room f (k # ks) s = (room k s \<and> room_all room f ks (snd (f k s)))"

text \<open>
  \<open>val s r\<close> is the key that the reference \<open>r\<close> stands for in \<open>s\<close>, if any.
\<close>

locale interner =
  fixes inv :: "'s \<Rightarrow> bool"
    and room :: "'k \<Rightarrow> 's \<Rightarrow> bool"
    and intern :: "'k \<Rightarrow> 's \<Rightarrow> 'r \<times> 's"
    and val :: "'s \<Rightarrow> 'r \<Rightarrow> 'k option"
  assumes inv_intern: "inv s \<Longrightarrow> room k s \<Longrightarrow> inv (snd (intern k s))"
    and val_intern: "inv s \<Longrightarrow> room k s \<Longrightarrow> val (snd (intern k s)) (fst (intern k s)) = Some k"
    and val_keep: "inv s \<Longrightarrow> room k s \<Longrightarrow> val s r = Some k' \<Longrightarrow> val (snd (intern k s)) r = Some k'"
    and val_inj: "inv s \<Longrightarrow> val s r = Some k \<Longrightarrow> val s r' = Some k \<Longrightarrow> r = r'"
begin

lemma intern_all_val:
  assumes "inv s" "room_all room intern ks s" "intern_all intern ks s = (rs, s')"
  shows "inv s' \<and> length rs = length ks \<and> (\<forall>i < length ks. val s' (rs ! i) = Some (ks ! i))
     \<and> (\<forall>r k. val s r = Some k \<longrightarrow> val s' r = Some k)"
  using assms
proof (induction ks arbitrary: s rs)
  case Nil
  then show ?case by simp
next
  case (Cons k ks)
  obtain r s1 where 1: "intern k s = (r, s1)" by fastforce
  obtain rs2 s2 where 2: "intern_all intern ks s1 = (rs2, s2)" by fastforce
  have "room k s" "room_all room intern ks s1" using Cons.prems(2) 1 by simp_all
  moreover have "rs = r # rs2" "s' = s2" using Cons.prems(3) 1 2 by simp_all
  moreover note inv_intern[of s k] val_intern[of s k] val_keep[of s k] Cons.IH[of s1 rs2] Cons.prems(1) 1 2
  ultimately show ?case by (auto simp: nth_Cons split: nat.splits)
qed

text \<open>References are equal exactly if the keys are, whatever else has been interned in between.\<close>

lemma same_ref_iff:
  assumes "inv s" "room_all room intern ks s" "i < length ks" "j < length ks"
  shows "fst (intern_all intern ks s) ! i = fst (intern_all intern ks s) ! j \<longleftrightarrow> ks ! i = ks ! j"
proof -
  obtain rs s' where a: "intern_all intern ks s = (rs, s')" by fastforce
  from intern_all_val[OF assms(1,2) a] assms(3,4) val_inj[of s' "rs ! i" "ks ! i" "rs ! j"]
  show ?thesis unfolding a by (metis fst_conv option.inject)
qed

text \<open>Interning a key that is there already gives the reference it has.\<close>

lemma intern_again: "inv s \<Longrightarrow> room k s \<Longrightarrow> val s r = Some k \<Longrightarrow> fst (intern k s) = r"
  using val_inj[OF inv_intern val_intern val_keep] by blast

end

end
