(* ===== verification/LJ_StrProofs.thy ===== *)
theory LJ_StrProofs
  imports LJ_Str LJ_Interner "HOL-Library.List_Lexorder" "HOL-Library.Multiset"
begin

text \<open>
  What the string functions compute: the words of four bytes that they read and compare, byte by byte; the
  comparison as the lexicographic order whatever lies behind the strings; the search as the first match; and
  the invariant of the table of interned strings, which refines a finite map from contents to objects.
\<close>

section \<open>Words of four bytes\<close>

lemma div8:
  assumes "8 * k \<le> n" "n < 8 * k + (8 :: nat)"
  shows "n div 8 = k" "n mod 8 = n - 8 * k"
proof -
  show d: "n div 8 = k" by (rule div_nat_eqI) (use assms in auto)
  show "n mod 8 = n - 8 * k" unfolding modulo_nat_def d by simp
qed

lemma bit_byte_at: "bit (push_bit k (ucast (x :: u8)) :: u32) n \<longleftrightarrow> k \<le> n \<and> n < 32 \<and> bit x (n - k)"
  using bit_imp_le_length[of x "n - k"] by (auto simp: bit_push_bit_iff bit_ucast_iff)

lemma bit_u8_bound: "bit (x :: u8) n \<Longrightarrow> n < 8"
  using bit_imp_le_length[of x n] by simp

lemma getu32_bit: "bit (lj_getu32 m i) n \<longleftrightarrow> n < 32 \<and> bit (m (i + n div 8)) (n mod 8)"
proof -
  have e: "bit (lj_getu32 m i) n \<longleftrightarrow> n < 32 \<and> (bit (m i) n \<or> 8 \<le> n \<and> bit (m (i + 1)) (n - 8)
      \<or> 16 \<le> n \<and> bit (m (i + 2)) (n - 16) \<or> 24 \<le> n \<and> bit (m (i + 3)) (n - 24))"
    using bit_byte_at[of 0 "m i" n] by (auto simp: lj_getu32_def bit_or_iff bit_byte_at)
  have no: "\<not> bit (x :: u8) k" if "8 \<le> k" for x k using bit_u8_bound[of x k] that by linarith
  consider "n < 8" | "8 \<le> n" "n < 16" | "16 \<le> n" "n < 24" | "24 \<le> n" "n < 32" | "32 \<le> n" by linarith
  then show ?thesis
  proof cases
    case 2
    then have "n div 8 = 1" "n mod 8 = n - 8" using div8[of 1 n] by simp_all
    with 2 show ?thesis by (simp add: e no)
  next
    case 3
    then have "n div 8 = 2" "n mod 8 = n - 16" using div8[of 2 n] by simp_all
    with 3 show ?thesis by (simp add: e no)
  next
    case 4
    then have "n div 8 = 3" "n mod 8 = n - 24" using div8[of 3 n] by simp_all
    with 4 show ?thesis by (simp add: e no)
  qed (simp_all add: e no)
qed

lemma bswap_bit: "bit (lj_bswap w) n \<longleftrightarrow> n < 32 \<and> bit w (24 - n div 8 * 8 + n mod 8)"
proof -
  have m1: "(0xff :: u32) = mask 8" "(0xff00 :: u32) = push_bit 8 (mask 8)" by (simp_all add: mask_eq_exp_minus_1)
  consider "n < 8" | "8 \<le> n" "n < 16" | "16 \<le> n" "n < 24" | "24 \<le> n" "n < 32" | "32 \<le> n" by linarith
  then show ?thesis
  proof cases
    case 1 then show ?thesis by (simp add: lj_bswap_def m1 bit_simps add.commute)
  next
    case 2
    then have "n div 8 = 1" "n mod 8 = n - 8" using div8[of 1 n] by simp_all
    with 2 show ?thesis by (auto simp: lj_bswap_def m1 bit_simps dest: bit_imp_le_length)
  next
    case 3
    then have "n div 8 = 2" "n mod 8 = n - 16" using div8[of 2 n] by simp_all
    with 3 show ?thesis by (auto simp: lj_bswap_def m1 bit_simps dest: bit_imp_le_length)
  next
    case 4
    then have "n div 8 = 3" "n mod 8 = n - 24" using div8[of 3 n] by simp_all
    with 4 show ?thesis by (auto simp: lj_bswap_def m1 bit_simps dest: bit_imp_le_length)
  next
    case 5 then show ?thesis by (auto simp: bit_simps dest: bit_imp_le_length)
  qed
qed

lemma unat_or_push:
  assumes "k \<le> 24" "unat (v :: u32) < 2 ^ k"
  shows "unat (push_bit k (ucast (x :: u8)) OR v) = unat x * 2 ^ k + unat v"
proof -
  have x: "unat x < 256" using unsigned_less[of x, where 'a = nat] by simp
  have k: "(256 :: nat) * 2 ^ k \<le> 2 ^ 32" using power_increasing[of "8 + k" 32 "2 :: nat"] assms(1) by (simp add: power_add)
  have "unat x * 2 ^ k < 256 * 2 ^ k" using x by simp
  with k have t: "unat x * 2 ^ k < 2 ^ 32" by linarith
  have ux: "unat (ucast x :: u32) = unat x" using x by (simp add: unsigned_ucast_eq take_bit_nat_eq_self)
  have p: "unat (push_bit k (ucast x) :: u32) = push_bit k (unat x)"
    using t by (simp only: unsigned_push_bit_eq ux) (simp add: push_bit_eq_mult take_bit_nat_eq_self)
  have "push_bit k (unat x) AND unat v = 0"
  proof (rule bit_eqI)
    fix n
    have "\<not> bit (unat v) n" if "k \<le> n"
    proof -
      have "unat v < 2 ^ n" by (rule less_le_trans[OF assms(2) power_increasing[OF that]]) simp
      then show ?thesis by (simp add: bit_iff_odd)
    qed
    then show "bit (push_bit k (unat x) AND unat v) n = bit (0 :: nat) n"
      by (auto simp: bit_and_iff bit_push_bit_iff)
  qed
  from disjunctive_add_eq_or[OF this] show ?thesis
    by (simp only: unsigned_or_eq p) (simp add: push_bit_eq_mult)
qed

fun be :: "bytes \<Rightarrow> nat" where
  "be [] = 0"
| "be (x # xs) = unat x * 256 ^ length xs + be xs"

definition bytes4 :: "(nat \<Rightarrow> u8) \<Rightarrow> nat \<Rightarrow> bytes" where
  "bytes4 m i = [m i, m (i + 1), m (i + 2), m (i + 3)]"

lemma bswap_getu32_bit:
  "bit (lj_bswap (lj_getu32 m i)) n \<longleftrightarrow> n < 32 \<and> bit (m (i + (3 - n div 8))) (n mod 8)"
proof (cases "n < 32")
  case True
  have k0: "24 - n div 8 * 8 + n mod 8 = n mod 8 + (3 - n div 8) * 8" by (simp add: diff_mult_distrib)
  have "n mod 8 + (3 - n div 8) * 8 < 32" by (simp add: add_less_le_mono[of "n mod 8" 8 _ 24, simplified])
  then show ?thesis using True by (simp add: bswap_bit k0 getu32_bit)
qed (simp add: bswap_bit)

lemma bswap_getu32:
  "lj_bswap (lj_getu32 m i) = push_bit 24 (ucast (m i)) OR (push_bit 16 (ucast (m (i + 1))) OR
     (push_bit 8 (ucast (m (i + 2))) OR ucast (m (i + 3))))" (is "?l = ?r")
proof (rule bit_word_eqI)
  fix n assume "n < LENGTH(32)"
  then have n: "n < 32" by simp
  consider "n < 8" | "8 \<le> n" "n < 16" | "16 \<le> n" "n < 24" | "24 \<le> n" "n < 32" using n by linarith
  then show "bit ?l n = bit ?r n"
  proof cases
    case 1
    then have "n div 8 = 0" "n mod 8 = n" by simp_all
    with 1 show ?thesis by (auto simp: bswap_getu32_bit bit_simps dest: bit_imp_le_length)
  next
    case 2
    then have "n div 8 = 1" "n mod 8 = n - 8" using div8[of 1 n] by simp_all
    with 2 show ?thesis by (auto simp: bswap_getu32_bit bit_simps dest: bit_imp_le_length)
  next
    case 3
    then have "n div 8 = 2" "n mod 8 = n - 16" using div8[of 2 n] by simp_all
    with 3 show ?thesis by (auto simp: bswap_getu32_bit bit_simps dest: bit_imp_le_length)
  next
    case 4
    then have "n div 8 = 3" "n mod 8 = n - 24" using div8[of 3 n] by simp_all
    with 4 show ?thesis by (auto simp: bswap_getu32_bit bit_simps dest: bit_imp_le_length)
  qed
qed

lemma unat_u8: "unat (x :: u8) < 256"
  using unsigned_less[of x, where 'a = nat] by simp

lemma unat_or_bytes:
  "unat (push_bit 24 (ucast x0) OR (push_bit 16 (ucast x1) OR (push_bit 8 (ucast x2) OR ucast x3)) :: u32)
    = be [x0, x1, x2, x3]"
proof -
  have u0: "unat (ucast x3 :: u32) = unat x3"
    using unat_u8[of x3] by (simp add: unsigned_ucast_eq take_bit_nat_eq_self)
  have b1: "unat x2 * 256 + unat x3 < 65536" using unat_u8[of x2] unat_u8[of x3] by linarith
  have b2: "unat x1 * 65536 + (unat x2 * 256 + unat x3) < 16777216" using unat_u8[of x1] b1 by linarith
  have u1: "unat (push_bit 8 (ucast x2) OR ucast x3 :: u32) = unat x2 * 256 + unat x3"
    using unat_or_push[of 8 "ucast x3" x2] unat_u8[of x3] by (simp add: u0)
  have u2: "unat (push_bit 16 (ucast x1) OR (push_bit 8 (ucast x2) OR ucast x3) :: u32)
      = unat x1 * 65536 + (unat x2 * 256 + unat x3)"
    using unat_or_push[of 16 "push_bit 8 (ucast x2) OR ucast x3" x1] b1 by (simp add: u1)
  show ?thesis
    using unat_or_push[of 24 "push_bit 16 (ucast x1) OR (push_bit 8 (ucast x2) OR ucast x3)" x0] b2 by (simp add: u2)
qed

lemma unat_bswap_getu32: "unat (lj_bswap (lj_getu32 m i)) = be (bytes4 m i)"
  unfolding bswap_getu32 bytes4_def by (rule unat_or_bytes)

lemma getu32_eq_iff: "lj_getu32 m i = lj_getu32 m' j \<longleftrightarrow> bytes4 m i = bytes4 m' j"
proof
  assume eq: "lj_getu32 m i = lj_getu32 m' j"
  have "bit (m (i + k)) q = bit (m' (j + k)) q" if "k < 4" "q < 8" for k q
    using arg_cong[OF eq, of "\<lambda>w. bit w (8 * k + q)"] that by (simp add: getu32_bit)
  then have "m (i + k) = m' (j + k)" if "k < 4" for k using that by (intro bit_word_eqI) simp
  from this[of 0] this[of 1] this[of 2] this[of 3] show "bytes4 m i = bytes4 m' j" by (simp add: bytes4_def)
qed (simp add: bytes4_def lj_getu32_def)

section \<open>Comparison\<close>

lemma be_bound: "be xs < 256 ^ length xs"
proof (induction xs)
  case (Cons x xs)
  have "unat x * 256 ^ length xs \<le> 255 * 256 ^ length xs" using unat_u8[of x] by (intro mult_right_mono) linarith+
  with Cons have "unat x * 256 ^ length xs + be xs < 256 * 256 ^ length xs" by linarith
  then show ?case by simp
qed simp

lemma be_append: "be (xs @ ys) = be xs * 256 ^ length ys + be ys"
  by (induction xs) (simp_all add: power_add algebra_simps)

lemma be_less_iff: "length xs = length ys \<Longrightarrow> be xs < be ys \<longleftrightarrow> xs < ys"
proof (induction xs ys rule: list_induct2)
  case (Cons x xs y ys)
  let ?p = "256 ^ length ys :: nat"
  have b: "be xs < ?p" "be ys < ?p" using be_bound[of xs] be_bound[of ys] Cons.hyps by simp_all
  consider "x < y" | "x = y" | "y < x" by (rule linorder_cases)
  then show ?case
  proof cases
    case 1
    then have "Suc (unat x) \<le> unat y" by (simp add: word_less_nat_alt)
    then have "Suc (unat x) * ?p \<le> unat y * ?p" by (rule mult_le_mono1)
    with 1 b Cons.hyps show ?thesis by simp
  next
    case 2 then show ?thesis using Cons.IH Cons.hyps by simp
  next
    case 3
    then have "Suc (unat y) \<le> unat x" by (simp add: word_less_nat_alt)
    then have "Suc (unat y) * ?p \<le> unat x * ?p" by (rule mult_le_mono1)
    with 3 b Cons.hyps show ?thesis by (auto simp: dest: less_asym)
  qed
qed simp

lemma be_inj: "length xs = length ys \<Longrightarrow> be xs = be ys \<longleftrightarrow> xs = ys"
  using be_less_iff[of xs ys] be_less_iff[of ys xs] by (metis linorder_less_linear less_irrefl)

lemma be_div: "be (xs @ ys) div 256 ^ length ys = be xs"
  using be_bound[of ys] by (simp add: be_append div_mult_self3)

lemma prefix_less: "(us @ vs < us @ ws) \<longleftrightarrow> (vs < (ws :: bytes))"
  by (induction us) simp_all

lemma less_append: "length xs = length ys \<Longrightarrow> xs < ys \<Longrightarrow> xs @ us < ys @ (vs :: bytes)"
  by (induction xs ys rule: list_induct2) auto

text \<open>The sign of the lexicographic comparison of strings as sequences of unsigned bytes.\<close>

definition bytes_cmp :: "bytes \<Rightarrow> bytes \<Rightarrow> int" where
  "bytes_cmp s t = (if s < t then - 1 else if s = t then 0 else 1)"

lemma bytes4_take:
  assumes "i + r \<le> length s" "r \<le> 4"
  shows "take r (bytes4 (mem_of s pad) i) = take r (drop i s)"
proof (rule nth_equalityI)
  fix k assume "k < length (take r (bytes4 (mem_of s pad) i))"
  then have "k < r" "k < 4" "i + k < length s" using assms by (auto simp: bytes4_def)
  then show "take r (bytes4 (mem_of s pad) i) ! k = take r (drop i s) ! k"
    by (auto simp: bytes4_def mem_of_def nth_Cons' less_Suc_eq numeral_eq_Suc)
qed (use assms in \<open>auto simp: bytes4_def\<close>)

lemma unat_drop_bswap:
  assumes "r \<le> 4"
  shows "unat (drop_bit (8 * (4 - r)) (lj_bswap (lj_getu32 m i))) = be (take r (bytes4 m i))"
proof -
  have "(2 :: nat) ^ (8 * (4 - r)) = 256 ^ length (drop r (bytes4 m i))"
    by (simp add: bytes4_def power_mult)
  then show ?thesis
    using be_div[of "take r (bytes4 m i)" "drop r (bytes4 m i)"]
    by (simp only: unat_drop_bit_eq unat_bswap_getu32 append_take_drop_id flip: drop_bit_eq_div)
       (simp add: drop_bit_eq_div)
qed

lemma bytes_cmp_split:
  assumes "take i s = take i t" "i + k \<le> length s" "i + k \<le> length t"
  shows "take k (drop i s) < take k (drop i t) \<Longrightarrow> bytes_cmp s t = - 1"
    and "take k (drop i t) < take k (drop i s) \<Longrightarrow> bytes_cmp s t = 1"
proof -
  have dec: "u = take i u @ take k (drop i u) @ drop (k + i) u" for u :: bytes
    by (metis append_take_drop_id drop_drop)
  have less: "u < v" if "take i u = take i v" "i + k \<le> length u" "i + k \<le> length v"
      "take k (drop i u) < take k (drop i v)" for u v :: bytes
    by (subst dec[of u], subst dec[of v]) (use that less_append in \<open>simp add: prefix_less\<close>)
  show "take k (drop i s) < take k (drop i t) \<Longrightarrow> bytes_cmp s t = - 1"
    using less[of s t] assms by (simp add: bytes_cmp_def)
  show "take k (drop i t) < take k (drop i s) \<Longrightarrow> bytes_cmp s t = 1"
    using less[of t s] assms by (auto simp: bytes_cmp_def dest: less_asym)
qed

lemma bytes_cmp_prefix:
  assumes "take n s = take n t" "n = min (length s) (length t)"
  shows "bytes_cmp s t = sgn (int (length s) - int (length t))"
proof (cases "length s \<le> length t")
  case True
  then have t: "t = s @ drop (length s) t" using assms append_take_drop_id[of "length s" t] by simp
  have "s < s @ u" if "u \<noteq> []" for u using that prefix_less[of s "[]" u] by (cases u) auto
  then have "s < t \<or> length s = length t" using True t by (metis drop_eq_Nil le_antisym)
  moreover have "s = t" if "length s = length t" using t that by simp
  moreover have "length s < length t" if "s < t" using that True \<open>length s = length t \<Longrightarrow> s = t\<close> by (cases "length s = length t") auto
  ultimately show ?thesis by (auto simp: bytes_cmp_def)
next
  case False
  then have s: "s = t @ drop (length t) s" using assms append_take_drop_id[of "length t" s] by simp
  have "t < t @ u" if "u \<noteq> []" for u using that prefix_less[of t "[]" u] by (cases u) auto
  then have "t < s" using False s by (metis drop_eq_Nil)
  then show ?thesis using False by (auto simp: bytes_cmp_def dest: less_asym)
qed


lemma sint_diff:
  assumes "m < 2 ^ 31" "n < 2 ^ 31"
  shows "sint (word_of_nat m - word_of_nat n :: u32) = int m - int n"
proof -
  have "(word_of_nat m - word_of_nat n :: u32) = word_of_int (int m - int n)" by simp
  then have "sint (word_of_nat m - word_of_nat n :: u32) = (int m - int n + 2 ^ 31) mod 2 ^ 32 - 2 ^ 31"
    by (simp only: int_word_sint) simp
  then show ?thesis using assms by (simp add: mod_pos_pos_trivial)
qed

lemmas sint_dist = sint_diff [OF less_trans]

text \<open>Where the distance to the end is \<open>r\<close> in 1 to 3, the shift drops the bytes behind the end.\<close>

lemma shift_dist:
  assumes "n = i + r" "0 < r" "r \<le> 3"
  shows "unat (32 + push_bit 3 (word_of_nat i - word_of_nat n) :: u32) = 8 * (4 - r)"
proof -
  have "(word_of_nat i - word_of_nat n :: u32) = - word_of_nat r" using assms(1) by simp
  moreover have "r \<in> {1, 2, 3}" using assms by auto
  ultimately show ?thesis by (auto simp: push_bit_eq_mult)
qed

lemma str_cmp_loop_correct:
  assumes "n = min (length s) (length t)" "length s < 2 ^ 31" "length t < 2 ^ 31"
  shows "take (min i n) s = take (min i n) t \<Longrightarrow>
    sgn (str_cmp_loop (mem_of s p) (length s) (mem_of t q) (length t) n i) = bytes_cmp s t"
proof (induction "n - i" arbitrary: i rule: less_induct)
  case less
  have n31: "n < 2 ^ 31" using assms by simp
  note diff = sint_diff[OF assms(2,3)]
  let ?a = "mem_of s p" and ?b = "mem_of t q"
  note sim = str_cmp_loop.simps[of ?a "length s" ?b "length t" n i]
  show ?case
  proof (cases "i < n")
    case False
    then have "str_cmp_loop ?a (length s) ?b (length t) n i = int (length s) - int (length t)"
      by (simp only: sim if_False diff)
    moreover have "min i n = n" using False by simp
    ultimately show ?thesis using less.prems bytes_cmp_prefix[OF _ assms(1)] by simp
  next
    case True
    define r where "r = min 4 (n - i)"
    have r: "0 < r" "r \<le> 4" "i + r \<le> length s" "i + r \<le> length t" using True assms(1) by (auto simp: r_def)
    have eqi: "take i s = take i t" using less.prems True by simp
    let ?x = "take r (drop i s)" and ?y = "take r (drop i t)"
    have x: "take r (bytes4 ?a i) = ?x" and y: "take r (bytes4 ?b i) = ?y" using r by (simp_all add: bytes4_take)
    note dx = unat_drop_bswap[of r ?a i, unfolded x] and dy = unat_drop_bswap[of r ?b i, unfolded y]
    have len: "length ?x = length ?y" using r by simp
    show ?thesis
    proof (cases "lj_getu32 ?a i = lj_getu32 ?b i")
      case eq: True
      then have "?x = ?y" using x y by (simp add: getu32_eq_iff)
      then have "take (i + r) s = take (i + r) t" using eqi by (simp add: take_add)
      moreover have "min (i + 4) n = i + r" using True by (auto simp: r_def)
      ultimately show ?thesis using less.hyps[of "i + 4"] True eq sim by simp
    next
      case neq: False
      let ?d = "word_of_nat i - word_of_nat n :: u32"
      show ?thesis
      proof (cases "n - i \<le> 3")
        case False
        then have "\<not> - 3 \<le> sint ?d" using sint_dist[OF True n31 n31] True by simp
        then have l: "str_cmp_loop ?a (length s) ?b (length t) n i
            = (if lj_bswap (lj_getu32 ?a i) < lj_bswap (lj_getu32 ?b i) then - 1 else 1)"
          using True neq by (simp add: sim Let_def diff)
        have "r = 4" using False by (auto simp: r_def)
        then have "bytes4 ?a i = ?x" "bytes4 ?b i = ?y" using x y by (simp_all add: bytes4_def)
        then have lt: "lj_bswap (lj_getu32 ?a i) < lj_bswap (lj_getu32 ?b i) \<longleftrightarrow> ?x < ?y" and "?x \<noteq> ?y"
          using neq len by (simp_all add: word_less_nat_alt unat_bswap_getu32 be_less_iff getu32_eq_iff)
        then show ?thesis using bytes_cmp_split[OF eqi r(3,4)] l by (cases "?x < ?y") (auto simp: not_less)
      next
        case small: True
        then have rn: "n = i + r" "r \<le> 3" using True by (auto simp: r_def)
        have d: "- 3 \<le> sint ?d" using sint_dist[OF True n31 n31] small by simp
        let ?va = "drop_bit (8 * (4 - r)) (lj_bswap (lj_getu32 ?a i))"
        let ?vb = "drop_bit (8 * (4 - r)) (lj_bswap (lj_getu32 ?b i))"
        have l: "str_cmp_loop ?a (length s) ?b (length t) n i
            = (if ?va = ?vb then int (length s) - int (length t) else if ?va < ?vb then - 1 else 1)"
          using True neq d shift_dist[OF rn(1) r(1) rn(2)] by (simp add: sim Let_def diff)
        have lt: "?va < ?vb \<longleftrightarrow> ?x < ?y" and eq: "?va = ?vb \<longleftrightarrow> ?x = ?y"
          using len r(2) by (simp_all add: word_less_nat_alt word_unat_eq_iff dx dy be_less_iff be_inj)
        show ?thesis
        proof (cases "?x = ?y")
          case True
          then have "take n s = take n t" using eqi rn by (simp add: take_add)
          then show ?thesis using l eq True bytes_cmp_prefix[of n s t] assms(1) by simp
        next
          case False
          then show ?thesis using bytes_cmp_split[OF eqi r(3,4)] l lt eq by (cases "?x < ?y") (auto simp: not_less)
        qed
      qed
    qed
  qed
qed


lemma bytes4_nth: "k < 4 \<Longrightarrow> bytes4 m i ! k = m (i + k)"
  by (cases "k = 0"; cases "k = 1"; cases "k = 2"; cases "k = 3") (auto simp: bytes4_def)

lemma take_bytes4: "r \<le> 4 \<Longrightarrow> take r (bytes4 m i) = map m [i..<i + r]"
  by (rule nth_equalityI) (auto simp: bytes4_nth, simp_all add: bytes4_def)

lemma push_xor_eq_0:
  assumes "0 < r" "r \<le> 4"
  shows "push_bit (8 * (4 - r)) (lj_getu32 m i XOR lj_getu32 m' j) = 0 \<longleftrightarrow> take r (bytes4 m i) = take r (bytes4 m' j)"
    (is "?z = 0 \<longleftrightarrow> ?t")
proof
  assume z: "?z = 0"
  have "m (i + k) = m' (j + k)" if "k < r" for k
  proof (rule bit_word_eqI)
    fix q assume "q < LENGTH(8)"
    then have q: "q < 8" by simp
    have "\<not> bit ?z (8 * (4 - r) + (8 * k + q))" unfolding z by simp
    moreover have "8 * (4 - r) + (8 * k + q) < 32" using that q assms by linarith
    ultimately have "bit (lj_getu32 m i) (8 * k + q) = bit (lj_getu32 m' j) (8 * k + q)"
      by (simp add: bit_push_bit_iff bit_xor_iff)
    then show "bit (m (i + k)) q = bit (m' (j + k)) q" using that q assms by (simp add: getu32_bit)
  qed
  then show ?t by (intro nth_equalityI) (use assms in \<open>auto simp: bytes4_nth, simp_all add: bytes4_def\<close>)
next
  assume t: ?t
  have e: "m (i + k) = m' (j + k)" if "k < r" for k
    using arg_cong[OF t, of "\<lambda>l. l ! k"] that assms by (simp add: bytes4_nth)
  show "?z = 0"
  proof (rule bit_word_eqI)
    fix n assume "n < LENGTH(32)"
    then have "n < 32" by simp
    show "bit ?z n = bit (0 :: u32) n"
    proof (cases "8 * (4 - r) \<le> n")
      case True
      then have "(n - 8 * (4 - r)) div 8 < r" using \<open>n < 32\<close> assms by (simp add: less_mult_imp_div_less)
      from e[OF this] show ?thesis by (auto simp: bit_push_bit_iff bit_xor_iff getu32_bit)
    next
      case False
      then show ?thesis unfolding bit_push_bit_iff by simp
    qed
  qed
qed

lemma xor_eq_0: "(x :: u32) XOR y = 0 \<longleftrightarrow> x = y"
proof
  assume "x XOR y = 0"
  then have "(x XOR y) XOR y = 0 XOR y" by (rule arg_cong[of _ _ "\<lambda>z. z XOR y"])
  then show "x = y" by (simp add: xor.assoc)
qed simp

lemma str_fastcmp_correct:
  assumes "length s < 2 ^ 31" "map m [0..<i] = take i s" "i < length s"
  shows "str_fastcmp m (mem_of s p) (length s) i = 0 \<longleftrightarrow> map m [0..<length s] = s"
  using assms
proof (induction "length s - i" arbitrary: i rule: less_induct)
  case less
  let ?n = "length s" and ?b = "mem_of s p"
  note sim = str_fastcmp.simps[of m ?b ?n i]
  define r where "r = min 4 (?n - i)"
  have r: "0 < r" "r \<le> 4" "i + r \<le> ?n" using less.prems by (auto simp: r_def)
  have y: "take r (bytes4 ?b i) = take r (drop i s)" using r by (simp add: bytes4_take)
  have x: "take r (bytes4 m i) = map m [i..<i + r]"
    using r by (simp add: take_bytes4)
  have step: "map m [0..<i + r] = take (i + r) s \<longleftrightarrow> take r (bytes4 m i) = take r (bytes4 ?b i)"
    using less.prems(2) r(3) unfolding x y upt_add_eq_append[OF le0] map_append take_add by simp
  have "take (i + r) (map m [0..<?n]) = map m [0..<i + r]" using r(3) by (simp add: take_map)
  then have full: "map m [0..<?n] = s \<Longrightarrow> map m [0..<i + r] = take (i + r) s" by simp
  show ?case
  proof (cases "lj_getu32 m i = lj_getu32 ?b i")
    case True
    then have eq: "map m [0..<i + r] = take (i + r) s" using step by (simp add: getu32_eq_iff)
    show ?thesis
    proof (cases "i + 4 < ?n")
      case more: True
      then have "r = 4" by (simp add: r_def)
      then show ?thesis using less.hyps[of "i + 4"] less.prems eq more True sim by simp
    next
      case False
      then have "i + r = ?n" using less.prems(3) by (auto simp: r_def)
      then show ?thesis using eq True False sim by simp
    qed
  next
    case neq: False
    let ?v = "lj_getu32 m i XOR lj_getu32 ?b i" and ?d = "word_of_nat i - word_of_nat ?n :: u32"
    have v: "?v \<noteq> 0" using neq by (simp add: xor_eq_0)
    show ?thesis
    proof (cases "?n - i \<le> 3")
      case False
      then have "\<not> - 3 \<le> sint ?d" using sint_dist[OF less.prems(3,1,1)] by simp
      then have "str_fastcmp m ?b ?n i = 1" using v by (simp add: sim Let_def)
      moreover have "r = 4" using False by (auto simp: r_def)
      ultimately show ?thesis using neq step full by (auto simp: getu32_eq_iff bytes4_def)
    next
      case True
      then have rn: "?n = i + r" "r \<le> 3" using less.prems(3) by (auto simp: r_def)
      have "- 3 \<le> sint ?d" using sint_dist[OF less.prems(3,1,1)] True by simp
      then have "str_fastcmp m ?b ?n i = push_bit (8 * (4 - r)) ?v"
        using v shift_dist[OF rn(1) r(1) rn(2)] by (simp add: sim Let_def)
      then show ?thesis using step rn(1) push_xor_eq_0[OF r(1,2), of m i ?b i] by simp
    qed
  qed
qed

section \<open>Search\<close>

lemma memchr_find: "memchr s off c n = List.find (\<lambda>q. s ! q = c) [off..<off + n]"
  by (induction s off c n rule: memchr.induct) (simp_all add: upt_conv_Cons del: upt_Suc)

lemma find_upt_skip:
  assumes "List.find P [a..<b] = Some q" "\<And>x. R x \<Longrightarrow> P x"
  shows "List.find R [a..<b] = (if R q then Some q else List.find R [q + 1..<b])"
  using assms(1)
proof (induction "b - a" arbitrary: a)
  case (Suc k)
  then have "a < b" by simp
  then have u: "[a..<b] = a # [Suc a..<b]" by (rule upt_conv_Cons)
  show ?case
  proof (cases "P a")
    case True
    then show ?thesis using Suc.prems u by simp
  next
    case False
    then have "\<not> R a" using assms(2) by blast
    then show ?thesis using Suc.prems u False Suc.hyps(1)[of "Suc a"] Suc.hyps(2) by simp
  qed
qed simp

lemma find_loop_find:
  "find_loop s off slen c p = List.find (\<lambda>q. s ! q = c \<and> memeq s (q + 1) p) [off..<off + slen]"
proof (induction s off slen c p rule: find_loop.induct)
  case (1 s off slen c p)
  note sim = find_loop.simps[of s off slen c p]
  show ?case
  proof (cases "memchr s off c slen")
    case None
    then have "\<forall>q \<in> set [off..<off + slen]. s ! q \<noteq> c" by (simp add: memchr_find find_None_iff)
    then have "List.find (\<lambda>q. s ! q = c \<and> memeq s (q + 1) p) [off..<off + slen] = None"
      by (auto simp: find_None_iff)
    then show ?thesis using None sim by simp
  next
    case (Some q)
    have b: "off \<le> q" "q < off + slen" using memchr_bounds[OF Some] by simp_all
    have e: "q + 1 + (slen - (q + 1 - off)) = off + slen" using b by simp
    note skip = find_upt_skip[OF Some[unfolded memchr_find], of "\<lambda>q. s ! q = c \<and> memeq s (q + 1) p"]
    have c: "s ! q = c" using Some by (auto simp: memchr_find find_Some_iff)
    show ?thesis
    proof (cases "memeq s (q + 1) p")
      case True
      then show ?thesis using Some sim skip c b by simp
    next
      case False
      then show ?thesis using Some sim skip b "1.IH"[OF _ Some False] e by (simp add: add.commute[of off])
    qed
  qed
qed

section \<open>The hash\<close>

lemma getu32_cong: "lj_getu32 m i = lj_getu32 m' i" if "\<And>k. k < 4 \<Longrightarrow> m (i + k) = m' (i + k)"
  unfolding getu32_eq_iff bytes4_def using that[of 0] that[of 1] that[of 2] that[of 3] by simp

lemma str_hash_cong:
  assumes "\<And>i. i < len \<Longrightarrow> m i = m' i" "0 < len"
  shows "str_hash m len = str_hash m' len"
proof (cases "4 \<le> len")
  case True
  have g: "lj_getu32 m i = lj_getu32 m' i" if "i + 4 \<le> len" for i by (rule getu32_cong) (use that assms in auto)
  have "lj_getu32 m 0 = lj_getu32 m' 0" "lj_getu32 m (len - 4) = lj_getu32 m' (len - 4)"
    "lj_getu32 m (len div 2 - 2) = lj_getu32 m' (len div 2 - 2)"
    "lj_getu32 m (len div 4 - 1) = lj_getu32 m' (len div 4 - 1)" using True by (auto intro!: g)
  then show ?thesis using True by (simp only: str_hash_def if_True)
next
  case False
  have "m 0 = m' 0" "m (len - 1) = m' (len - 1)" "m (len div 2) = m' (len div 2)" using assms by auto
  then show ?thesis using False by (simp only: str_hash_def if_False)
qed

section \<open>The table of the interned strings\<close>

definition strings :: "StrState \<Rightarrow> nat list" where
  "strings g = concat (g_strhash g)"

definition chain_of :: "(nat \<Rightarrow> GCstr) \<Rightarrow> u32 \<Rightarrow> nat \<Rightarrow> nat" where
  "chain_of obj m s = unat (gs_hash (obj s) AND m)"

text \<open>
  The table: its size is a power of two, every string is in the chain of its hash, has the hash of its content,
  which is not empty and not too long, and no two strings have the same content.
\<close>

definition strtab_ok :: "StrState \<Rightarrow> bool" where
  "strtab_ok g \<longleftrightarrow>
     (\<exists>k < 32. g_strmask g = mask k) \<and> length (g_strhash g) = unat (g_strmask g) + 1 \<and>
     (\<forall>i < length (g_strhash g). \<forall>s \<in> set (g_strhash g ! i). chain_of (g_obj g) (g_strmask g) s = i) \<and>
     (\<forall>s \<in> set (strings g). s < g_next g \<and> gs_data (g_obj g s) \<noteq> [] \<and> length (gs_data (g_obj g s)) < LJ_MAX_STR \<and>
        gs_hash (g_obj g s) = str_hash (\<lambda>i. gs_data (g_obj g s) ! i) (length (gs_data (g_obj g s)))) \<and>
     inj_on (\<lambda>s. gs_data (g_obj g s)) (set (strings g)) \<and> distinct (strings g) \<and>
     g_strnum g = length (strings g)"

lemma and_mask_bound: "unat (h AND m) < unat m + 1" for h m :: u32
  using word_and_le1[of h m] by (simp add: word_le_nat_alt and.commute)

lemma mset_concat_insert:
  "h < length T \<Longrightarrow> mset (concat (T[h := s # T ! h])) = add_mset s (mset (concat T))"
proof (induction T arbitrary: h)
  case (Cons x T)
  then show ?case by (cases h) auto
qed simp

lemma rehash_chain_length [simp]: "length (rehash_chain obj m chain new) = length new"
  unfolding rehash_chain_def by (induction chain arbitrary: new) (simp_all add: Let_def)

lemma rehash_chain_correct:
  assumes "length new = unat m + 1"
    "\<forall>i < length new. \<forall>s \<in> set (new ! i). chain_of obj m s = i"
  shows "mset (concat (rehash_chain obj m chain new)) = mset chain + mset (concat new) \<and>
    (\<forall>i < length new. \<forall>s \<in> set (rehash_chain obj m chain new ! i). chain_of obj m s = i)"
  using assms
proof (induction chain arbitrary: new)
  case Nil
  then show ?case by (simp add: rehash_chain_def)
next
  case (Cons s chain)
  define h where "h = chain_of obj m s"
  have h: "h < length new" using and_mask_bound[of "gs_hash (obj s)" m] Cons.prems(1) by (simp add: h_def chain_of_def)
  let ?new = "new[h := s # new ! h]"
  have "\<forall>i < length ?new. \<forall>s \<in> set (?new ! i). chain_of obj m s = i"
    using Cons.prems(2) h by (auto simp: nth_list_update h_def)
  then have "mset (concat (rehash_chain obj m chain ?new)) = mset chain + mset (concat ?new) \<and>
    (\<forall>i < length ?new. \<forall>s \<in> set (rehash_chain obj m chain ?new ! i). chain_of obj m s = i)"
    using Cons.IH[of ?new] Cons.prems(1) by simp
  moreover have "rehash_chain obj m (s # chain) new = rehash_chain obj m chain ?new"
    by (simp add: rehash_chain_def h_def chain_of_def Let_def)
  ultimately show ?case using h by (simp add: mset_concat_insert)
qed

lemma rehash_correct:
  "length (foldr (rehash_chain obj m) T (replicate (unat m + 1) [])) = unat m + 1 \<and>
   mset (concat (foldr (rehash_chain obj m) T (replicate (unat m + 1) []))) = mset (concat T) \<and>
   (\<forall>i < unat m + 1. \<forall>s \<in> set (foldr (rehash_chain obj m) T (replicate (unat m + 1) []) ! i). chain_of obj m s = i)"
proof (induction T)
  case (Cons c T)
  then show ?case using rehash_chain_correct[of "foldr (rehash_chain obj m) T (replicate (unat m + 1) [])" m obj c] by simp
qed (simp del: replicate_Suc)

lemma lj_str_resize_keeps:
  assumes "strtab_ok g" "k < 32" "newmask = mask k"
  shows "strtab_ok (lj_str_resize newmask g) \<and> mset (strings (lj_str_resize newmask g)) = mset (strings g)"
proof (cases "g_sweepstring g \<or> unat newmask \<ge> LJ_MAX_STRTAB - 1")
  case True
  then show ?thesis using assms(1) by (simp add: lj_str_resize_def)
next
  case False
  let ?T = "foldr (rehash_chain (g_obj g) newmask) (g_strhash g) (replicate (unat newmask + 1) [])"
  let ?g = "g\<lparr>g_strhash := ?T, g_strmask := newmask\<rparr>"
  have g: "lj_str_resize newmask g = ?g" using False by (simp add: lj_str_resize_def)
  have ms: "mset (strings ?g) = mset (strings g)" using rehash_correct[of "g_obj g" newmask "g_strhash g"] by (simp add: strings_def)
  then have set: "set (strings ?g) = set (strings g)" and "length (strings ?g) = length (strings g)"
    and "distinct (strings ?g) = distinct (strings g)"
    by (auto dest: mset_eq_setD mset_eq_length mset_eq_imp_distinct_iff)
  then have "strtab_ok ?g"
    using assms rehash_correct[of "g_obj g" newmask "g_strhash g"] unfolding strtab_ok_def set by auto
  then show ?thesis unfolding g using ms by simp
qed


definition str_content :: "(nat \<Rightarrow> u8) \<Rightarrow> nat \<Rightarrow> bytes" where
  "str_content m len = map m [0..<len]"

lemma str_hash_content: "0 < len \<Longrightarrow> str_hash (\<lambda>i. str_content m len ! i) len = str_hash m len"
  by (rule str_hash_cong) (simp_all add: str_content_def)

lemma str_equal_iff:
  assumes "0 < len" "len < LJ_MAX_STR"
  shows "str_equal fast m len pad sx \<longleftrightarrow> str_content m len = sx"
proof (cases "length sx = len")
  case True
  have "len < 2 ^ 31" using assms(2) by (simp add: lj_limits)
  then show ?thesis
    using True assms(1) str_fastcmp_correct[of sx m 0 pad] by (simp add: str_equal_def str_content_def)
next
  case False
  then show ?thesis by (auto simp: str_equal_def str_content_def)
qed

text \<open>What a step of the table keeps of it: the state differs in colours only, or has one string more.\<close>

lemma flipwhite_fields [simp]:
  "gs_data (g_obj (flipwhite s g) r) = gs_data (g_obj g r)"
  "gs_hash (g_obj (flipwhite s g) r) = gs_hash (g_obj g r)"
  "g_strhash (flipwhite s g) = g_strhash g" "g_strmask (flipwhite s g) = g_strmask g"
  "g_strnum (flipwhite s g) = g_strnum g" "g_next (flipwhite s g) = g_next g"
  by (auto simp: flipwhite_def)

lemma flipwhite_keeps [simp]: "strings (flipwhite s g) = strings g" "strtab_ok (flipwhite s g) = strtab_ok g"
  by (simp_all add: strings_def strtab_ok_def chain_of_def)

lemma resize_data [simp]:
  "g_obj (lj_str_resize m g) = g_obj g" "g_next (lj_str_resize m g) = g_next g"
  by (simp_all add: lj_str_resize_def)

lemma in_stringsI: "i < length (g_strhash g) \<Longrightarrow> s \<in> set (g_strhash g ! i) \<Longrightarrow> s \<in> set (strings g)"
  by (auto simp: strings_def intro: nth_mem)

lemma in_stringsE:
  assumes "s \<in> set (strings g)"
  obtains i where "i < length (g_strhash g)" "s \<in> set (g_strhash g ! i)"
  using assms by (auto simp: strings_def in_set_conv_nth[of _ "g_strhash g"])

lemma in_strings_iff:
  assumes "strtab_ok g"
  shows "s \<in> set (strings g) \<longleftrightarrow> s \<in> set (g_strhash g ! chain_of (g_obj g) (g_strmask g) s)"
  (is "_ \<longleftrightarrow> s \<in> set (_ ! ?i)")
proof
  assume "s \<in> set (strings g)"
  then obtain i where "i < length (g_strhash g)" "s \<in> set (g_strhash g ! i)" by (rule in_stringsE)
  then show "s \<in> set (g_strhash g ! ?i)" using assms by (auto simp: strtab_ok_def)
next
  assume "s \<in> set (g_strhash g ! ?i)"
  moreover have "?i < length (g_strhash g)" using assms and_mask_bound by (simp add: strtab_ok_def chain_of_def)
  ultimately show "s \<in> set (strings g)" by (rule in_stringsI[rotated])
qed

text \<open>The lookup finds exactly the interned string of the content.\<close>

lemma find_string:
  fixes m :: "nat \<Rightarrow> u8" and len :: nat
  assumes ok: "strtab_ok g" and len: "0 < len" "len < LJ_MAX_STR"
  defines "i \<equiv> unat (str_hash m len AND g_strmask g)"
  shows "List.find (\<lambda>s. str_equal fast m len (pad s) (gs_data (g_obj g s))) (g_strhash g ! i) = Some s \<longleftrightarrow>
      s \<in> set (strings g) \<and> gs_data (g_obj g s) = str_content m len"
    (is "List.find ?P ?C = Some s \<longleftrightarrow> ?R s")
proof -
  have P: "?P s \<longleftrightarrow> gs_data (g_obj g s) = str_content m len" for s by (auto simp: str_equal_iff len)
  have mem: "s \<in> set ?C \<longleftrightarrow> s \<in> set (strings g)" if "gs_data (g_obj g s) = str_content m len" for s
  proof -
    have "gs_hash (g_obj g s) = str_hash m len" if "s \<in> set (strings g)"
      using ok that \<open>gs_data (g_obj g s) = str_content m len\<close> str_hash_content[OF len(1), of m]
      by (auto simp: strtab_ok_def str_content_def)
    then have "s \<in> set (strings g) \<Longrightarrow> chain_of (g_obj g) (g_strmask g) s = i" by (simp add: chain_of_def i_def)
    moreover have "s \<in> set ?C \<Longrightarrow> s \<in> set (strings g)"
      using ok and_mask_bound[of "str_hash m len" "g_strmask g"] by (intro in_stringsI) (auto simp: i_def strtab_ok_def)
    ultimately show ?thesis using in_strings_iff[OF ok, of s] by auto
  qed
  have "inj_on (\<lambda>s. gs_data (g_obj g s)) (set (strings g))" using ok by (simp add: strtab_ok_def)
  then have uniq: "s = t" if "?R s" "?R t" for s t using that by (simp add: inj_on_def)
  show ?thesis
  proof
    assume "List.find ?P ?C = Some s"
    then have "s \<in> set ?C" "?P s" by (auto simp: find_Some_iff in_set_conv_nth)
    then show "?R s" using P mem by blast
  next
    assume R: "?R s"
    then have "List.find ?P ?C \<noteq> None" using P mem by (auto simp: find_None_iff)
    then obtain t where t: "List.find ?P ?C = Some t" by blast
    then have "t \<in> set ?C" "?P t" by (auto simp: find_Some_iff in_set_conv_nth)
    then have "?R t" using P mem by blast
    then show "List.find ?P ?C = Some s" using uniq[OF R] t by simp
  qed
qed


lemma grow_mask:
  assumes "strtab_ok g" "\<exists>k < 32. m = mask k"
  shows "strtab_ok (lj_str_resize (push_bit 1 m + 1) g) \<and>
    mset (strings (lj_str_resize (push_bit 1 m + 1) g)) = mset (strings g)"
proof -
  from assms(2) obtain k where k: "k < 32" "m = mask k" by blast
  have "push_bit 1 m + 1 = (2 * 2 ^ k - 1 :: u32)" by (simp add: k mask_eq_exp_minus_1 push_bit_eq_mult algebra_simps)
  also have "\<dots> = mask (Suc k)" by (simp add: mask_eq_exp_minus_1)
  finally have n: "push_bit 1 m + 1 = mask (Suc k)" .
  show ?thesis
  proof (cases "k = 31")
    case True
    then have "unat (mask (Suc k) :: u32) = 2 ^ 32 - 1" by (simp add: mask_eq_exp_minus_1)
    then have "lj_str_resize (push_bit 1 m + 1) g = g" unfolding n lj_str_resize_def by (simp add: lj_limits)
    then show ?thesis using assms(1) by simp
  next
    case False
    then show ?thesis using lj_str_resize_keeps[OF assms(1) _ n] k by simp
  qed
qed

text \<open>The result of a lookup that finds the string, and of one that does not.\<close>

definition interned :: "StrState \<Rightarrow> bytes \<Rightarrow> nat option" where
  "interned g = map_of (map (\<lambda>s. (gs_data (g_obj g s), s)) (strings g))"

lemma interned_iff:
  assumes "strtab_ok g"
  shows "interned g c = Some s \<longleftrightarrow> s \<in> set (strings g) \<and> gs_data (g_obj g s) = c"
proof -
  have "distinct (strings g)" "inj_on (\<lambda>s. gs_data (g_obj g s)) (set (strings g))"
    using assms by (auto simp: strtab_ok_def)
  then have "distinct (map fst (map (\<lambda>s. (gs_data (g_obj g s), s)) (strings g)))"
    by (simp add: distinct_map o_def)
  from map_of_eq_Some_iff[OF this, of c s] show ?thesis by (auto simp: interned_def)
qed

definition new_str :: "(nat \<Rightarrow> u8) \<Rightarrow> nat \<Rightarrow> StrState \<Rightarrow> StrState" where
  "new_str m len g =
     (let hash = str_hash m len; i = unat (hash AND g_strmask g); s = g_next g
      in g\<lparr>g_obj := (g_obj g)(s := \<lparr>gs_data = str_content m len, gs_hash = hash,
                                 gs_marked = g_currentwhite g AND LJ_GC_WHITES\<rparr>),
           g_next := s + 1, g_strhash := (g_strhash g)[i := s # g_strhash g ! i], g_strnum := g_strnum g + 1\<rparr>)"

lemma lj_str_new_cases:
  assumes "strtab_ok g" "0 < len" "len < LJ_MAX_STR"
  shows "lj_str_new fast pad m len g =
     (case interned g (str_content m len) of
        Some s \<Rightarrow> Inr (Str s, if isdead g s then flipwhite s g else g)
      | None \<Rightarrow> Inr (Str (g_next g),
          if g_strnum g > unat (g_strmask g)
          then lj_str_resize (push_bit 1 (g_strmask g) + 1) (new_str m len g) else new_str m len g))"
proof -
  let ?f = "List.find (\<lambda>s. str_equal fast m len (pad s) (gs_data (g_obj g s)))
    (g_strhash g ! unat (str_hash m len AND g_strmask g))"
  have "?f = Some s \<longleftrightarrow> interned g (str_content m len) = Some s" for s
    using find_string[OF assms, where m = m and fast = fast and pad = pad and s = s] interned_iff[OF assms(1)] by simp
  then have "?f = interned g (str_content m len)" by (metis not_None_eq)
  then show ?thesis
    using assms(2,3) by (simp add: lj_str_new_def new_str_def str_content_def Let_def split: option.splits)
qed

lemma new_str_ok:
  assumes ok: "strtab_ok g" and len: "0 < len" "len < LJ_MAX_STR" and new: "interned g (str_content m len) = None"
  shows "strtab_ok (new_str m len g)"
    and "mset (strings (new_str m len g)) = add_mset (g_next g) (mset (strings g))"
proof -
  define i where "i = unat (str_hash m len AND g_strmask g)"
  let ?s = "g_next g" and ?g = "new_str m len g"
  have i: "i < length (g_strhash g)" using ok and_mask_bound by (simp add: strtab_ok_def i_def)
  show ms: "mset (strings ?g) = add_mset ?s (mset (strings g))"
    using mset_concat_insert[OF i, of ?s] by (simp add: strings_def new_str_def i_def Let_def)
  have set: "set (strings ?g) = insert ?s (set (strings g))" using mset_eq_setD[of "strings ?g" "?s # strings g"] ms by simp
  have fresh: "r \<noteq> ?s" if "r \<in> set (strings g)" for r using ok that by (auto simp: strtab_ok_def)
  have dist: "distinct (strings ?g)" and len': "length (strings ?g) = Suc (length (strings g))"
    using mset_eq_imp_distinct_iff[of "strings ?g" "?s # strings g"] mset_eq_length[of "strings ?g" "?s # strings g"] ms ok fresh
    by (auto simp: strtab_ok_def)
  have obj: "g_obj ?g r = g_obj g r" if "r \<in> set (strings g)" for r using fresh[OF that] by (simp add: new_str_def Let_def)
  have objs: "gs_data (g_obj ?g ?s) = str_content m len" "gs_hash (g_obj ?g ?s) = str_hash m len"
    by (simp_all add: new_str_def Let_def)
  have notin: "gs_data (g_obj g r) \<noteq> str_content m len" if "r \<in> set (strings g)" for r
    using new interned_iff[OF ok] that by (metis option.distinct(1))
  have chain: "\<forall>s \<in> set (g_strhash ?g ! j). chain_of (g_obj ?g) (g_strmask ?g) s = j" if j: "j < length (g_strhash ?g)" for j
  proof
    fix s assume s: "s \<in> set (g_strhash ?g ! j)"
    have j': "j < length (g_strhash g)" using j by (simp add: new_str_def Let_def)
    show "chain_of (g_obj ?g) (g_strmask ?g) s = j"
    proof (cases "s \<in> set (g_strhash g ! j)")
      case True
      then have "s \<in> set (strings g)" by (rule in_stringsI[OF j'])
      then have "chain_of (g_obj ?g) (g_strmask ?g) s = chain_of (g_obj g) (g_strmask g) s"
        using obj[of s] by (simp add: chain_of_def) (simp add: new_str_def Let_def)
      then show ?thesis using True ok j' by (simp add: strtab_ok_def)
    next
      case False
      then have "s = ?s" "j = i" using s j' i by (auto simp: new_str_def i_def Let_def nth_list_update split: if_splits)
      then show ?thesis using objs by (simp add: chain_of_def i_def) (simp add: new_str_def Let_def)
    qed
  qed
  have inj: "inj_on (\<lambda>s. gs_data (g_obj ?g s)) (set (strings ?g))"
  proof -
    have "inj_on (\<lambda>s. gs_data (g_obj ?g s)) (set (strings g))" using ok obj by (simp add: inj_on_def strtab_ok_def)
    moreover have "gs_data (g_obj ?g r) \<noteq> gs_data (g_obj ?g ?s)" if "r \<in> set (strings g)" for r
      using notin[OF that] obj[OF that] objs(1) by simp
    ultimately show ?thesis unfolding set inj_on_insert by fastforce
  qed
  have each: "s < g_next ?g \<and> gs_data (g_obj ?g s) \<noteq> [] \<and> length (gs_data (g_obj ?g s)) < LJ_MAX_STR \<and>
      gs_hash (g_obj ?g s) = str_hash (\<lambda>i. gs_data (g_obj ?g s) ! i) (length (gs_data (g_obj ?g s)))"
    if "s \<in> set (strings ?g)" for s
  proof (cases "s = ?s")
    case True
    then show ?thesis using objs len str_hash_content[OF len(1), of m]
      by (simp add: str_content_def) (simp add: new_str_def Let_def)
  next
    case False
    then have "s \<in> set (strings g)" using that set by simp
    moreover have "g_next ?g = Suc (g_next g)" by (simp add: new_str_def Let_def)
    ultimately show ?thesis using ok obj[of s] by (auto simp: strtab_ok_def)
  qed
  have "g_strmask ?g = g_strmask g" "length (g_strhash ?g) = length (g_strhash g)" "g_strnum ?g = Suc (g_strnum g)"
    by (simp_all add: new_str_def Let_def)
  then show "strtab_ok ?g" using ok chain inj each dist len' unfolding strtab_ok_def by simp
qed


text \<open>Interning refines the insertion into a finite map from contents to objects.\<close>

lemma lj_str_new_refines:
  assumes ok: "strtab_ok g" and len: "0 < len" "len < LJ_MAX_STR"
  obtains s g' where "lj_str_new fast pad m len g = Inr (Str s, g')" "strtab_ok g'"
    "interned g' = (interned g)(str_content m len \<mapsto> s)"
    "interned g (str_content m len) = (if s = g_next g then None else Some s)"
proof (cases "interned g (str_content m len)")
  case (Some s)
  let ?g = "if isdead g s then flipwhite s g else g"
  have "strtab_ok ?g" "interned ?g = interned g" using ok by (simp_all add: interned_def)
  moreover have "s \<noteq> g_next g" using Some ok interned_iff[OF ok] by (auto simp: strtab_ok_def)
  ultimately show ?thesis
    using that[of s ?g] lj_str_new_cases[OF ok len, of fast pad m] Some by (simp add: fun_upd_idem)
next
  case None
  let ?n = "new_str m len g"
  let ?g = "if g_strnum g > unat (g_strmask g) then lj_str_resize (push_bit 1 (g_strmask g) + 1) ?n else ?n"
  note n = new_str_ok[OF ok len None]
  have m: "\<exists>k < 32. g_strmask g = mask k" using ok by (simp add: strtab_ok_def)
  have ok': "strtab_ok ?g" and ms: "mset (strings ?g) = add_mset (g_next g) (mset (strings g))"
    using grow_mask[OF n(1) m] n by simp_all
  have obj: "g_obj ?g = g_obj ?n" by simp
  have set: "set (strings ?g) = insert (g_next g) (set (strings g))"
    using mset_eq_setD[of "strings ?g" "g_next g # strings g"] ms by simp
  have o1: "gs_data (g_obj ?n (g_next g)) = str_content m len" by (simp add: new_str_def Let_def)
  have o2: "g_obj ?n r = g_obj g r" if "r \<in> set (strings g)" for r
    using that ok by (auto simp: new_str_def Let_def strtab_ok_def)
  have "interned ?g c = Some r \<longleftrightarrow> ((interned g)(str_content m len \<mapsto> g_next g)) c = Some r" for c r
    using interned_iff[OF ok, of c r] interned_iff[OF ok', of c r] None o1 o2[of r] interned_iff[OF ok, of "str_content m len"]
    unfolding set obj by auto
  then have "interned ?g = (interned g)(str_content m len \<mapsto> g_next g)" by (intro ext) (metis not_None_eq)
  then show ?thesis
    using that[of "g_next g" ?g] lj_str_new_cases[OF ok len, of fast pad m] None ok' by simp
qed

section \<open>The table as an interner\<close>

text \<open>
  Interning the bytes of \<open>c\<close>, followed in memory by whatever \<open>z\<close> says. A string that is too long is an error of
  the code; the table as an interner has room for the others only.
\<close>

definition buf_mem :: "(nat \<Rightarrow> u8) \<Rightarrow> bytes \<Rightarrow> nat \<Rightarrow> u8" where
  "buf_mem z c i = (if i < length c then c ! i else z i)"

definition str_intern :: "bool \<Rightarrow> (nat \<Rightarrow> nat \<Rightarrow> u8) \<Rightarrow> (nat \<Rightarrow> u8) \<Rightarrow> bytes \<Rightarrow> StrState \<Rightarrow> StrRef \<times> StrState" where
  "str_intern fast pad z c g =
     (case lj_str_new fast pad (buf_mem z c) (length c) g of Inr x \<Rightarrow> x | Inl e \<Rightarrow> (Strempty, g))"

definition str_val :: "StrState \<Rightarrow> StrRef \<Rightarrow> bytes option" where
  "str_val g r =
     (case r of Strempty \<Rightarrow> Some []
      | Str s \<Rightarrow> if s \<in> set (strings g) then Some (gs_data (g_obj g s)) else None)"

definition str_room :: "bytes \<Rightarrow> StrState \<Rightarrow> bool" where
  "str_room c g = (length c < LJ_MAX_STR)"

lemma str_val_Str: "strtab_ok g \<Longrightarrow> str_val g (Str s) = Some c \<longleftrightarrow> interned g c = Some s"
  by (simp add: str_val_def interned_iff)

lemma str_content_buf [simp]: "str_content (buf_mem z c) (length c) = c"
  by (rule nth_equalityI) (simp_all add: str_content_def buf_mem_def)

lemma interned_nonempty: "strtab_ok g \<Longrightarrow> interned g c = Some s \<Longrightarrow> c \<noteq> []"
  by (auto simp: interned_iff) (auto simp: strtab_ok_def)

lemma str_intern_spec:
  assumes "strtab_ok g" "length c < LJ_MAX_STR" "c \<noteq> []"
  obtains s g' where "str_intern fast pad z c g = (Str s, g')" "strtab_ok g'"
    "interned g' = (interned g)(c \<mapsto> s)" "interned g c = (if s = g_next g then None else Some s)"
proof -
  have "0 < length c" using assms(3) by simp
  then show ?thesis
    using lj_str_new_refines[OF assms(1) _ assms(2), of fast pad "buf_mem z c"] that by (metis str_content_buf str_intern_def sum.case(2))
qed

lemma str_intern_empty: "str_intern fast pad z [] g = (Strempty, g)"
  by (simp add: str_intern_def lj_str_new_def lj_limits)

interpretation si: interner strtab_ok str_room "str_intern fast pad z" str_val for fast pad z
proof
  fix g :: StrState and c :: bytes and r r' :: StrRef and c' :: bytes
  assume ok: "strtab_ok g"
  {
    assume room: "str_room c g"
    have "strtab_ok (snd (str_intern fast pad z c g)) \<and>
      str_val (snd (str_intern fast pad z c g)) (fst (str_intern fast pad z c g)) = Some c \<and>
      (str_val g r = Some c' \<longrightarrow> str_val (snd (str_intern fast pad z c g)) r = Some c')"
    proof (cases "c = []")
      case True
      then show ?thesis using ok by (simp add: str_intern_empty) (simp add: str_val_def)
    next
      case False
      from str_intern_spec[OF ok room[unfolded str_room_def] False, of fast pad z]
      obtain s g' where *: "str_intern fast pad z c g = (Str s, g')" "strtab_ok g'"
        "interned g' = (interned g)(c \<mapsto> s)" "interned g c = (if s = g_next g then None else Some s)" .
      have "str_val g' r = Some c'" if "str_val g r = Some c'"
      proof (cases r)
        case Strempty
        then show ?thesis using that by (simp add: str_val_def)
      next
        case (Str t)
        then have "interned g c' = Some t" using that ok by (simp add: str_val_Str)
        then have "interned g' c' = Some t" using *(3,4) by (auto split: if_splits)
        then show ?thesis using Str *(2) by (simp add: str_val_Str)
      qed
      then show ?thesis using * by (auto simp: str_val_Str)
    qed
  } note all = this
  show "strtab_ok (snd (str_intern fast pad z c g))" if "str_room c g" using all[OF that] by blast
  show "str_val (snd (str_intern fast pad z c g)) (fst (str_intern fast pad z c g)) = Some c" if "str_room c g"
    using all[OF that] by blast
  show "str_val (snd (str_intern fast pad z c g)) r = Some c'" if "str_room c g" "str_val g r = Some c'"
    using all[OF that(1)] that(2) by blast
  show "r = r'" if "str_val g r = Some c" "str_val g r' = Some c"
    using that ok interned_nonempty[OF ok, of c]
    by (cases r; cases r') (auto simp: str_val_Str, auto simp: str_val_def)
qed

section \<open>Properties\<close>

text \<open>C30: The comparison of strings that reads four bytes at a time gives the sign of the lexicographic comparison
  of the unsigned bytes, for all strings within the limit \<open>LJ_MAX_STR\<close>, for which the difference of the lengths fits
  32 bits; the result does not depend on what it reads behind the ends of the strings.\<close>

theorem lj_str_cmp_lexicographic:
  assumes "length s \<le> LJ_MAX_STR" "length t \<le> LJ_MAX_STR"
  shows "sgn (lj_str_cmp (mem_of s p) (length s) (mem_of t q) (length t)) = bytes_cmp s t"
proof -
  have "length s < 2 ^ 31" "length t < 2 ^ 31" using assms by (simp_all add: lj_limits)
  from str_cmp_loop_correct[OF refl this, of 0 p q] show ?thesis
    by (cases "length t < length s") (simp_all add: lj_str_cmp_def min_def)
qed

lemma lj_str_cmp_lexicographic_witness:
  "sgn (lj_str_cmp (mem_of [97, 98, 99, 100, 101] (\<lambda>_. 7)) (length [97 :: u8, 98, 99, 100, 101])
     (mem_of [97, 98, 99, 100, 200, 1] (\<lambda>_. 9)) (length [97 :: u8, 98, 99, 100, 200, 1])) = - 1"
  by (subst lj_str_cmp_lexicographic) (simp_all add: bytes_cmp_def lj_limits)

text \<open>C31: The fast comparison for equality decides whether the bytes in memory are those of the string, whatever
  lies behind the end of either.\<close>

theorem str_fastcmp_decides:
  assumes "length s < 2 ^ 31" "s \<noteq> []"
  shows "str_fastcmp m (mem_of s p) (length s) 0 = 0 \<longleftrightarrow> map m [0..<length s] = s"
  using str_fastcmp_correct[OF assms(1), of m 0 p] assms(2) by simp

lemma str_fastcmp_decides_witness:
  "str_fastcmp (mem_of [97, 98, 99, 100, 101] (\<lambda>_. 7)) (mem_of [97, 98, 99, 100, 102] (\<lambda>_. 9)) (length [97 :: u8, 98, 99, 100, 102]) 0 \<noteq> 0"
  by (subst str_fastcmp_decides) (simp_all add: mem_of_def upt_rec)

text \<open>C32: The search for a fixed string returns the first position where it occurs, and nothing if there is none.\<close>

theorem lj_str_find_first:
  "lj_str_find s p = List.find (\<lambda>q. take (length p) (drop q s) = p) [0..<Suc (length s) - length p]"
proof (cases p)
  case Nil
  then show ?thesis by (simp add: lj_str_find_def upt_conv_Cons del: upt_Suc)
next
  case (Cons c p')
  have "(s ! q = c \<and> memeq s (q + 1) p') = (take (length p) (drop q s) = p)" if "q < length s - length p'" for q
  proof -
    have "drop q s = s ! q # drop (Suc q) s" using that by (simp add: Cons_nth_drop_Suc)
    then show ?thesis by (simp add: memeq_def Cons)
  qed
  then have "List.find (\<lambda>q. s ! q = c \<and> memeq s (q + 1) p') [0..<length s - length p']
      = List.find (\<lambda>q. take (length p) (drop q s) = p) [0..<length s - length p']"
    by (intro find_cong) auto
  then show ?thesis using Cons by (auto simp: lj_str_find_def find_loop_find)
qed

text \<open>C33: Interning a string refines the insertion into a finite map from contents to objects: it returns the object
  that the map has for the content, or a new one that it adds; the invariant of the table (every string
  in the chain of its hash, no content twice, the count, a power-of-two size) is kept also when the table grows.\<close>

theorem lj_str_new_refines_map:
  assumes "strtab_ok g" "0 < len" "len < LJ_MAX_STR"
  shows "\<exists>s g'. lj_str_new fast pad m len g = Inr (Str s, g') \<and> strtab_ok g' \<and>
    interned g' = (interned g)(str_content m len \<mapsto> s) \<and>
    interned g (str_content m len) = (if s = g_next g then None else Some s)"
  by (rule lj_str_new_refines[OF assms, of fast pad m]) blast

definition strtab_empty :: StrState where
  "strtab_empty = \<lparr>g_strhash = [[], []], g_strmask = 1, g_strnum = 0, g_currentwhite = 1, g_sweepstring = False,
     g_obj = (\<lambda>_. \<lparr>gs_data = [], gs_hash = 0, gs_marked = 0\<rparr>), g_next = 0\<rparr>"

lemma strtab_empty_ok: "strtab_ok strtab_empty"
proof -
  have "(1 :: u32) = mask 1" by (simp add: mask_eq_exp_minus_1)
  then have "\<exists>k < 32. (1 :: u32) = mask k" by (intro exI[of _ 1]) simp
  then show ?thesis
    by (auto simp: strtab_ok_def strtab_empty_def strings_def nth_Cons split: nat.splits)
qed

lemma lj_str_new_refines_map_witness:
  "\<exists>s g'. lj_str_new True (\<lambda>_ _. 0) (mem_of [97] (\<lambda>_. 0)) 1 strtab_empty = Inr (Str s, g') \<and> strtab_ok g' \<and>
    interned g' = (interned strtab_empty)(str_content (mem_of [97] (\<lambda>_. 0)) 1 \<mapsto> s) \<and>
    interned strtab_empty (str_content (mem_of [97] (\<lambda>_. 0)) 1) = (if s = g_next strtab_empty then None else Some s)"
  by (rule lj_str_new_refines_map[OF strtab_empty_ok]) (simp_all add: lj_limits)

text \<open>C34: Strings are equal exactly if they are the same object: whatever strings are interned in whatever order, two of
  the references handed out are equal exactly if the contents are, so the code may compare strings by address.\<close>

theorem string_identity:
  assumes "strtab_ok g" "\<forall>c \<in> set cs. length c < LJ_MAX_STR" "i < length cs" "j < length cs"
  shows "fst (intern_all (str_intern fast pad z) cs g) ! i = fst (intern_all (str_intern fast pad z) cs g) ! j
    \<longleftrightarrow> cs ! i = cs ! j"
proof (rule si.same_ref_iff[OF assms(1) _ assms(3,4)])
  show "room_all str_room (str_intern fast pad z) cs g"
    using assms(2) by (induction cs arbitrary: g) (simp_all add: str_room_def)
qed

lemma string_identity_witness:
  "fst (intern_all (str_intern True (\<lambda>_ _. 0) (\<lambda>_. 7)) [[97], [98, 97], [97]] strtab_empty) ! 0
    = fst (intern_all (str_intern True (\<lambda>_ _. 0) (\<lambda>_. 7)) [[97], [98, 97], [97]] strtab_empty) ! 2"
  by (subst string_identity[OF strtab_empty_ok]) (auto simp: lj_limits)

end
