(* ===== verification/LJ_IRProofs.thy ===== *)
theory LJ_IRProofs
  imports LJ_IR LJ_Interner
begin

text \<open>
  Invariants of a trace under construction: the limits of its buffer, the chains of its opcodes, the order of its
  operands, and the constants. Emission, CSE, interning and roll-back keep them; the walks along the chains never
  meet a corrupted link; constants are hash-consed; dead code elimination keeps what is needed.
\<close>

section \<open>The buffer\<close>

text \<open>
  The trace recorder stops a trace with more than 4000 instructions or 500 constants (with a small
  slack); \<open>ir_room\<close> is a generous form of that. The buffer then stays within \<open>0x8000\<close> slots.
\<close>

definition buf_ok :: "jit_State \<Rightarrow> bool" where
  "buf_ok J \<longleftrightarrow> J_irbotlim J + 32 \<le> J_irtoplim J \<and> J_irtoplim J \<le> J_irbotlim J + 0x8000 \<and>
     REF_BIAS - 0x3000 \<le> J_irbotlim J \<and> J_irbotlim J \<le> J_nk J \<and> J_nk J \<le> REF_TRUE \<and>
     REF_FIRST \<le> J_nins J \<and> J_nins J \<le> J_irtoplim J"

definition ir_room :: "jit_State \<Rightarrow> bool" where
  "ir_room J \<longleftrightarrow> REF_BIAS - 0x1000 < J_nk J \<and> J_nins J < REF_BIAS + 0x1000"

lemmas ref_defs = REF_BIAS_def REF_TRUE_def REF_FALSE_def REF_NIL_def REF_BASE_def REF_FIRST_def

lemma growtop_fields [simp]:
  "J_nk (lj_ir_growtop J) = J_nk J" "J_nins (lj_ir_growtop J) = J_nins J" "J_ir (lj_ir_growtop J) = J_ir J"
  "J_chain (lj_ir_growtop J) = J_chain J" "J_k64 (lj_ir_growtop J) = J_k64 J" "J_flags (lj_ir_growtop J) = J_flags J"
  "J_ins (lj_ir_growtop J) = J_ins J"
  by (simp_all add: lj_ir_growtop_def Let_def)

lemma growbot_fields [simp]:
  "J_nk (lj_ir_growbot J) = J_nk J" "J_nins (lj_ir_growbot J) = J_nins J" "J_ir (lj_ir_growbot J) = J_ir J"
  "J_chain (lj_ir_growbot J) = J_chain J" "J_k64 (lj_ir_growbot J) = J_k64 J" "J_flags (lj_ir_growbot J) = J_flags J"
  "J_ins (lj_ir_growbot J) = J_ins J"
  by (simp_all add: lj_ir_growbot_def Let_def)

lemma growtop_buf:
  assumes "buf_ok J" "ir_room J" "J_irtoplim J \<le> J_nins J"
  shows "buf_ok (lj_ir_growtop J)" "J_nins J < J_irtoplim (lj_ir_growtop J)"
  using assms by (auto simp: lj_ir_growtop_def buf_ok_def ir_room_def ref_defs Let_def)

lemma growbot_buf:
  assumes "buf_ok J" "ir_room J" "J_nk J \<le> J_irbotlim J"
  shows "buf_ok (lj_ir_growbot J)" "J_irbotlim (lj_ir_growbot J) < J_nk J"
proof -
  define b t n where "b = J_irbotlim J" "t = J_irtoplim J" "n = J_nins J"
  have nk: "J_nk J = b" using assms by (simp add: buf_ok_def b_t_n_def)
  have h: "b + 32 \<le> t" "t \<le> b + 0x8000" "0x7000 < b" "b \<le> 0x7ffd" "0x8001 \<le> n" "n \<le> t" "n < 0x9000"
    using assms nk by (auto simp: buf_ok_def ir_room_def ref_defs b_t_n_def)
  show "buf_ok (lj_ir_growbot J)" "J_irbotlim (lj_ir_growbot J) < J_nk J"
  proof (atomize (full), cases "n + (t - b) div 2 < t")
    case True
    define q where "q = (t - b) div 4"
    have q: "8 \<le> q" "q \<le> 0x2000" "n + q \<le> t" using h True by (auto simp: q_def)
    have "J_irbotlim (lj_ir_growbot J) = b - q" "J_irtoplim (lj_ir_growbot J) = t - q"
      using True by (simp_all add: lj_ir_growbot_def Let_def b_t_n_def q_def)
    then show "buf_ok (lj_ir_growbot J) \<and> J_irbotlim (lj_ir_growbot J) < J_nk J"
      using h q nk by (auto simp: buf_ok_def ref_defs b_t_n_def[symmetric])
  next
    case False
    define q where "q = (if t - b \<ge> 256 then 128 else (t - b) div 2)"
    have q: "16 \<le> q" "q \<le> 128" "q \<le> t - b" using h by (auto simp: q_def)
    have sz: "t - b \<le> 0x4000" using h False by linarith
    have "J_irbotlim (lj_ir_growbot J) = b - q" "J_irtoplim (lj_ir_growbot J) = b - q + 2 * (t - b)"
      using False by (simp_all add: lj_ir_growbot_def Let_def b_t_n_def q_def)
    then show "buf_ok (lj_ir_growbot J) \<and> J_irbotlim (lj_ir_growbot J) < J_nk J"
      using h q nk sz by (auto simp: buf_ok_def ref_defs b_t_n_def[symmetric])
  qed
qed

lemma nextins_fields:
  assumes "lj_ir_nextins J = (r, J')"
  shows "r = J_nins J" "J_nins J' = J_nins J + 1" "J_nk J' = J_nk J" "J_ir J' = J_ir J" "J_chain J' = J_chain J"
    "J_k64 J' = J_k64 J" "J_flags J' = J_flags J" "J_ins J' = J_ins J"
  using assms by (auto simp: lj_ir_nextins_def Let_def)

lemma nextins_buf:
  assumes "buf_ok J" "ir_room J" "lj_ir_nextins J = (r, J')"
  shows "buf_ok J'" "J_irbotlim J' \<le> r" "r < J_irtoplim J'"
proof -
  let ?G = "if J_nins J \<ge> J_irtoplim J then lj_ir_growtop J else J"
  have "buf_ok ?G" "J_nins J < J_irtoplim ?G" using growtop_buf[OF assms(1,2)] assms(1) by auto
  moreover have "r = J_nins J" "J' = ?G\<lparr>J_nins := J_nins J + 1\<rparr>" using assms(3) by (auto simp: lj_ir_nextins_def Let_def)
  ultimately show "buf_ok J'" "J_irbotlim J' \<le> r" "r < J_irtoplim J'"
    using assms(1) by (auto simp: buf_ok_def ref_defs split: if_splits)
qed

lemma nextk_fields:
  assumes "ir_nextk J = (r, J')"
  shows "r = J_nk J - 1" "J_nk J' = J_nk J - 1" "J_nins J' = J_nins J" "J_ir J' = J_ir J" "J_chain J' = J_chain J"
    "J_k64 J' = J_k64 J" "J_flags J' = J_flags J" "J_ins J' = J_ins J"
  using assms by (auto simp: ir_nextk_def Let_def)

lemma nextk_buf:
  assumes "buf_ok J" "ir_room J" "ir_nextk J = (r, J')"
  shows "buf_ok J'" "J_irbotlim J' \<le> r" "r < J_irtoplim J'"
proof -
  let ?G = "if J_nk J \<le> J_irbotlim J then lj_ir_growbot J else J"
  have "buf_ok ?G" "J_irbotlim ?G < J_nk J" using growbot_buf[OF assms(1,2)] assms(1) by auto
  moreover have "r = J_nk J - 1" "J' = ?G\<lparr>J_nk := J_nk J - 1\<rparr>" using assms(3) by (auto simp: ir_nextk_def Let_def)
  moreover have "J_nk ?G = J_nk J" "J_nins ?G = J_nins J" by simp_all
  ultimately show "buf_ok J'" "J_irbotlim J' \<le> r" "r < J_irtoplim J'"
    unfolding buf_ok_def ref_defs by auto
qed


section \<open>The chains\<close>

text \<open>A linked list of references, from its head \<open>h\<close> to the terminator 0.\<close>

fun linked :: "(nat \<Rightarrow> IRIns) \<Rightarrow> nat \<Rightarrow> nat list \<Rightarrow> bool" where
  "linked ir h [] = (h = 0)"
| "linked ir h (r # rs) = (h = r \<and> linked ir (ir_prev (ir r)) rs)"

lemma linked_cong: "(\<And>r. r \<in> set rs \<Longrightarrow> ir_prev (ir r) = ir_prev (ir' r)) \<Longrightarrow> linked ir h rs = linked ir' h rs"
  by (induction rs arbitrary: h) auto

text \<open>Constants: the lowest one first; instructions: the highest one first.\<close>

definition kchain :: "jit_State \<Rightarrow> IROp \<Rightarrow> nat list" where
  "kchain J op = filter (\<lambda>r. ir_o (J_ir J r) = op) [J_nk J..<REF_BIAS]"

definition ichain :: "jit_State \<Rightarrow> IROp \<Rightarrow> nat list" where
  "ichain J op = rev (filter (\<lambda>r. ir_o (J_ir J r) = op) [REF_FIRST..<J_nins J])"

definition is_kop :: "IROp \<Rightarrow> bool" where
  "is_kop op \<longleftrightarrow> IR_KPRI \<le> op \<and> op \<le> IR_KSLOT"

text \<open>The opcodes that are in no chain: primitive constants, the base pointer and removed instructions.\<close>

definition unchained :: "IROp \<Rightarrow> bool" where
  "unchained op \<longleftrightarrow> op = IR_KPRI \<or> op = IR_BASE \<or> op = IR_NOP"

definition chains_ok :: "jit_State \<Rightarrow> bool" where
  "chains_ok J \<longleftrightarrow>
     (\<forall>r. J_nk J \<le> r \<and> r < REF_BIAS \<longrightarrow> is_kop (ir_o (J_ir J r))) \<and>
     (\<forall>r. REF_FIRST \<le> r \<and> r < J_nins J \<longrightarrow> \<not> is_kop (ir_o (J_ir J r))) \<and>
     (\<forall>op. \<not> unchained op \<longrightarrow> linked (J_ir J) (J_chain J op) (if is_kop op then kchain J op else ichain J op))"

text \<open>The operands of an instruction are literals, constants or earlier instructions.\<close>

definition ssa_ok :: "jit_State \<Rightarrow> bool" where
  "ssa_ok J \<longleftrightarrow> (\<forall>r. REF_FIRST \<le> r \<and> r < J_nins J \<longrightarrow> ir_op1 (J_ir J r) < r \<and> ir_op2 (J_ir J r) < r)"

definition trace_ok :: "jit_State \<Rightarrow> bool" where
  "trace_ok J \<longleftrightarrow> buf_ok J \<and> chains_ok J \<and> ssa_ok J"

lemma walk_linked:
  assumes "linked ir h rs" "sorted_wrt (\<lambda>a b. b < a) rs" "0 \<notin> set rs"
  shows "walk ir P lim h = List.find (\<lambda>r. P r (ir r)) (takeWhile (\<lambda>r. lim < r) rs)"
  using assms
proof (induction rs arbitrary: h)
  case Nil
  then show ?case by (simp add: walk.simps)
next
  case (Cons r rs)
  have "ir_prev (ir r) < r"
    using Cons.prems by (cases rs) auto
  then show ?case using Cons by (auto simp: walk.simps[of ir P lim r])
qed

lemma walk_k_linked:
  assumes "linked ir h rs" "sorted_wrt (<) rs" "0 \<notin> set rs" "\<forall>r \<in> set rs. r < REF_BIAS"
  shows "walk_k ir P h = List.find (\<lambda>r. P (ir r)) rs"
  using assms
proof (induction rs arbitrary: h)
  case Nil
  then show ?case by (simp add: walk_k.simps)
next
  case (Cons r rs)
  have "ir_prev (ir r) = 0 \<or> r < ir_prev (ir r) \<and> ir_prev (ir r) < REF_BIAS"
    using Cons.prems by (cases rs) auto
  then show ?case using Cons by (auto simp: walk_k.simps[of ir P r])
qed

lemma kchain_sorted: "sorted_wrt (<) (kchain J op)"
  by (simp add: kchain_def sorted_wrt_filter)

lemma ichain_sorted: "sorted_wrt (\<lambda>a b. b < a) (ichain J op)"
  by (simp add: ichain_def sorted_wrt_rev sorted_wrt_filter)

lemma set_kchain: "r \<in> set (kchain J op) \<longleftrightarrow> J_nk J \<le> r \<and> r < REF_BIAS \<and> ir_o (J_ir J r) = op"
  by (auto simp: kchain_def)

lemma set_ichain: "r \<in> set (ichain J op) \<longleftrightarrow> REF_FIRST \<le> r \<and> r < J_nins J \<and> ir_o (J_ir J r) = op"
  by (auto simp: ichain_def)

lemma takeWhile_desc: "sorted_wrt (\<lambda>a b. b < a) rs \<Longrightarrow> takeWhile (\<lambda>r. lim < r) rs = filter (\<lambda>r. lim < (r :: nat)) rs"
proof (induction rs)
  case (Cons a rs)
  have "filter (\<lambda>r. lim < r) (a # rs) = []" if "\<not> lim < a" using Cons.prems that by (auto simp: filter_empty_conv)
  then show ?case using Cons by (cases "lim < a") auto
qed simp

lemma chains_okD:
  assumes "chains_ok J" "\<not> unchained op"
  shows "\<not> is_kop op \<Longrightarrow> linked (J_ir J) (J_chain J op) (ichain J op)"
    and "is_kop op \<Longrightarrow> linked (J_ir J) (J_chain J op) (kchain J op)"
  using assms unfolding chains_ok_def by (metis (full_types))+

text \<open>The search of a chain of instructions finds the latest one above the limit that satisfies \<open>P\<close>; the walk
  never meets a corrupted link.\<close>

lemma walk_chain:
  assumes "chains_ok J" "\<not> unchained op" "\<not> is_kop op"
  shows "walk (J_ir J) P lim (J_chain J op) = List.find (\<lambda>r. P r (J_ir J r)) (filter (\<lambda>r. lim < r) (ichain J op))"
proof -
  have "linked (J_ir J) (J_chain J op) (ichain J op)" using assms by (simp add: chains_okD)
  moreover have "0 \<notin> set (ichain J op)" by (simp add: set_ichain ref_defs)
  ultimately show ?thesis using walk_linked[OF _ ichain_sorted] takeWhile_desc[OF ichain_sorted] by simp
qed

lemma walk_k_chain:
  assumes "chains_ok J" "0 < J_nk J" "\<not> unchained op" "is_kop op"
  shows "walk_k (J_ir J) P (J_chain J op) = List.find (\<lambda>r. P (J_ir J r)) (kchain J op)"
proof -
  have "linked (J_ir J) (J_chain J op) (kchain J op)" using assms by (simp add: chains_okD)
  then show ?thesis using walk_k_linked[OF _ kchain_sorted] assms(2) by (simp add: set_kchain)
qed


section \<open>The emitter\<close>

text \<open>An instruction that may be emitted.\<close>

definition fins_ok :: "jit_State \<Rightarrow> bool" where
  "fins_ok J \<longleftrightarrow> \<not> is_kop (ir_o (J_ins J)) \<and> ir_op1 (J_ins J) < J_nins J \<and> ir_op2 (J_ins J) < J_nins J"

lemma lj_ir_emit_eq:
  assumes "lj_ir_nextins J = (r, J1)"
  shows "lj_ir_emit J = (r, J1\<lparr>J_ir := (J_ir J1)(r := (J_ins J1)\<lparr>ir_prev := J_chain J1 (ir_o (J_ins J1))\<rparr>),
    J_chain := (J_chain J1)(ir_o (J_ins J1) := r), J_guardemit := J_guardemit J1 \<or> irt_isguard (ir_t (J_ins J1))\<rparr>)"
  using assms by (simp add: lj_ir_emit_def set_chain_def set_ir_def Let_def)

lemma emit_fields:
  assumes "lj_ir_emit J = (r, J')"
  shows "r = J_nins J" "J_nins J' = J_nins J + 1" "J_nk J' = J_nk J" "J_k64 J' = J_k64 J" "J_flags J' = J_flags J"
    "J_ins J' = J_ins J"
    "J_ir J' = (J_ir J)(J_nins J := (J_ins J)\<lparr>ir_prev := J_chain J (ir_o (J_ins J))\<rparr>)"
    "J_chain J' = (J_chain J)(ir_o (J_ins J) := J_nins J)"
proof -
  obtain r1 J1 where n: "lj_ir_nextins J = (r1, J1)" by fastforce
  from assms[unfolded lj_ir_emit_eq[OF n]] nextins_fields[OF n]
  show "r = J_nins J" "J_nins J' = J_nins J + 1" "J_nk J' = J_nk J" "J_k64 J' = J_k64 J" "J_flags J' = J_flags J"
    "J_ins J' = J_ins J"
    "J_ir J' = (J_ir J)(J_nins J := (J_ins J)\<lparr>ir_prev := J_chain J (ir_o (J_ins J))\<rparr>)"
    "J_chain J' = (J_chain J)(ir_o (J_ins J) := J_nins J)" by (simp_all, safe, simp_all)
qed

lemma emit_buf:
  assumes "buf_ok J" "ir_room J" "lj_ir_emit J = (r, J')"
  shows "buf_ok J'"
proof -
  obtain r1 J1 where n: "lj_ir_nextins J = (r1, J1)" by fastforce
  have "buf_ok J1" by (rule nextins_buf[OF assms(1,2) n])
  then show ?thesis using assms(3)[unfolded lj_ir_emit_eq[OF n]] by (auto simp: buf_ok_def)
qed

lemma emit_chain_lists:
  assumes "lj_ir_emit J = (r, J')" "REF_FIRST \<le> J_nins J"
  shows "kchain J' op = kchain J op"
    "ichain J' op = (if op = ir_o (J_ins J) then J_nins J # ichain J op else ichain J op)"
proof -
  note f = emit_fields[OF assms(1)]
  show "kchain J' op = kchain J op"
    unfolding kchain_def f using assms(2) by (intro filter_cong) (auto simp: ref_defs)
  have "filter (\<lambda>r. ir_o (J_ir J' r) = op) [REF_FIRST..<J_nins J] = filter (\<lambda>r. ir_o (J_ir J r) = op) [REF_FIRST..<J_nins J]"
    unfolding f by (intro filter_cong) auto
  then show "ichain J' op = (if op = ir_o (J_ins J) then J_nins J # ichain J op else ichain J op)"
    using assms(2) by (simp add: ichain_def f)
qed

lemma emit_trace_ok:
  assumes ok: "trace_ok J" and room: "ir_room J" and fins: "fins_ok J" and e: "lj_ir_emit J = (r, J')"
  shows "trace_ok J'"
proof -
  let ?n = "J_nins J" and ?o = "ir_o (J_ins J)"
  note f = emit_fields[OF e]
  have n: "REF_FIRST \<le> ?n" using ok by (simp add: trace_ok_def buf_ok_def)
  note l = emit_chain_lists[OF e n]
  have c: "chains_ok J" and s: "ssa_ok J" and b: "buf_ok J" using ok by (auto simp: trace_ok_def)
  have "linked (J_ir J') (J_chain J' op) (if is_kop op then kchain J' op else ichain J' op)" if u: "\<not> unchained op" for op
  proof (cases "is_kop op")
    case True
    then have "linked (J_ir J') (J_chain J op) (kchain J op) = linked (J_ir J) (J_chain J op) (kchain J op)"
      using n by (intro linked_cong) (auto simp: f set_kchain ref_defs)
    then show ?thesis using chains_okD(2)[OF c u True] True fins by (auto simp: l f fins_ok_def)
  next
    case False
    then have "linked (J_ir J') (J_chain J op) (ichain J op) = linked (J_ir J) (J_chain J op) (ichain J op)"
      by (intro linked_cong) (auto simp: f set_ichain)
    then show ?thesis using chains_okD(1)[OF c u False] False by (auto simp: l f)
  qed
  moreover have "is_kop (ir_o (J_ir J' r))" if "J_nk J' \<le> r" "r < REF_BIAS" for r
    using c that n by (auto simp: f chains_ok_def ref_defs)
  moreover have "\<not> is_kop (ir_o (J_ir J' r))" if "REF_FIRST \<le> r" "r < J_nins J'" for r
    using c that fins by (auto simp: f chains_ok_def fins_ok_def less_Suc_eq)
  ultimately have "chains_ok J'" unfolding chains_ok_def by blast
  moreover have "ssa_ok J'" using s fins by (auto simp: ssa_ok_def f fins_ok_def less_Suc_eq)
  moreover have "buf_ok J'" by (rule emit_buf[OF b room e])
  ultimately show ?thesis by (simp add: trace_ok_def)
qed

text \<open>CSE: an earlier instruction with the opcode and the operands, or the instruction itself.\<close>

lemma lj_opt_cse_cases:
  "lj_opt_cse J =
     (case (if J_flags J AND JIT_F_OPT_CSE \<noteq> 0 then
              walk (J_ir J) (\<lambda>_ ir. ir_op1 ir = ir_op1 (J_ins J) \<and> ir_op2 ir = ir_op2 (J_ins J))
                (max (ir_op1 (J_ins J)) (ir_op2 (J_ins J))) (J_chain J (ir_o (J_ins J)))
            else None) of
        Some ref \<Rightarrow> (ref, J) | None \<Rightarrow> lj_ir_emit J)"
proof -
  obtain r1 J1 where n: "lj_ir_nextins J = (r1, J1)" by fastforce
  have "J_ins J1 = J_ins J" by (rule nextins_fields[OF n])
  then show ?thesis by (simp add: lj_opt_cse_def lj_ir_emit_eq[OF n] n set_chain_def set_ir_def Let_def split: option.splits)
qed


text \<open>The result of CSE has the opcode and the operands of the instruction; everything that was emitted before stays.\<close>

lemma lj_opt_cse_spec:
  assumes ok: "trace_ok J" and room: "ir_room J" and fins: "fins_ok J" and u: "\<not> unchained (ir_o (J_ins J))"
    and cse: "lj_opt_cse J = (r, J')"
  shows "trace_ok J'" "REF_FIRST \<le> r" "r < J_nins J'"
    "ir_o (J_ir J' r) = ir_o (J_ins J)" "ir_op1 (J_ir J' r) = ir_op1 (J_ins J)" "ir_op2 (J_ir J' r) = ir_op2 (J_ins J)"
    "J' = J \<or> lj_ir_emit J = (r, J')"
proof -
  let ?o = "ir_o (J_ins J)"
  let ?P = "\<lambda>_ ir. ir_op1 ir = ir_op1 (J_ins J) \<and> ir_op2 ir = ir_op2 (J_ins J)"
  let ?lim = "max (ir_op1 (J_ins J)) (ir_op2 (J_ins J))"
  have c: "chains_ok J" and b: "buf_ok J" using ok by (auto simp: trace_ok_def)
  have k: "\<not> is_kop ?o" using fins by (simp add: fins_ok_def)
  note w = walk_chain[OF c u k, of ?P ?lim]
  have "trace_ok J' \<and> REF_FIRST \<le> r \<and> r < J_nins J' \<and> ir_o (J_ir J' r) = ?o \<and> ?P r (J_ir J' r) \<and>
      (J' = J \<or> lj_ir_emit J = (r, J'))"
  proof (cases "J_flags J AND JIT_F_OPT_CSE \<noteq> 0 \<and> walk (J_ir J) ?P ?lim (J_chain J ?o) = Some r")
    case True
    then have "r \<in> set (ichain J ?o)" "?P r (J_ir J r)"
      unfolding w by (auto simp: find_Some_iff in_set_conv_nth dest!: nth_mem)
    moreover have "J' = J" using True cse by (simp add: lj_opt_cse_cases)
    ultimately show ?thesis using ok by (simp add: set_ichain)
  next
    case False
    then have e: "lj_ir_emit J = (r, J')"
      using cse by (auto simp: lj_opt_cse_cases split: if_splits option.splits)
    then show ?thesis
      using emit_trace_ok[OF ok room fins e] emit_fields[OF e] b by (simp add: buf_ok_def)
  qed
  then show "trace_ok J'" "REF_FIRST \<le> r" "r < J_nins J'"
    "ir_o (J_ir J' r) = ir_o (J_ins J)" "ir_op1 (J_ir J' r) = ir_op1 (J_ins J)" "ir_op2 (J_ir J' r) = ir_op2 (J_ins J)"
    "J' = J \<or> lj_ir_emit J = (r, J')" by blast+
qed

text \<open>The instructions that compute the same. Since operands come before an instruction, the search does not miss one when it
  stops at the operands, and it meets the last one first.\<close>

definition cse_same :: "jit_State \<Rightarrow> nat \<Rightarrow> bool" where
  "cse_same J q \<longleftrightarrow> REF_FIRST \<le> q \<and> q < J_nins J \<and> ir_o (J_ir J q) = ir_o (J_ins J) \<and>
     ir_op1 (J_ir J q) = ir_op1 (J_ins J) \<and> ir_op2 (J_ir J q) = ir_op2 (J_ins J)"

lemma find_desc:
  assumes "sorted_wrt (\<lambda>a b. b < a) rs"
  shows "List.find P rs = (if \<exists>q\<in>set rs. P q then Some (GREATEST q :: nat. q \<in> set rs \<and> P q) else None)"
  using assms
proof (induction rs)
  case (Cons r rs)
  show ?case
  proof (cases "P r")
    case True
    then have "(GREATEST q. q \<in> set (r # rs) \<and> P q) = r" using Cons.prems by (intro Greatest_equality) auto
    then show ?thesis using True by auto
  next
    case False
    then have "q \<in> set (r # rs) \<and> P q \<longleftrightarrow> q \<in> set rs \<and> P q" for q by auto
    then show ?thesis using False Cons by simp
  qed
qed simp

lemma lj_opt_cse_search:
  assumes "trace_ok J" "fins_ok J" "\<not> unchained (ir_o (J_ins J))" "J_flags J AND JIT_F_OPT_CSE \<noteq> 0"
  shows "lj_opt_cse J = (if \<exists>q. cse_same J q then (GREATEST q. cse_same J q, J) else lj_ir_emit J)"
proof -
  let ?o = "ir_o (J_ins J)"
  let ?P = "\<lambda>_ ir. ir_op1 ir = ir_op1 (J_ins J) \<and> ir_op2 ir = ir_op2 (J_ins J)"
  let ?lim = "max (ir_op1 (J_ins J)) (ir_op2 (J_ins J))"
  have c: "chains_ok J" and ssa: "ssa_ok J" using assms(1) by (auto simp: trace_ok_def)
  have k: "\<not> is_kop ?o" using assms(2) by (simp add: fins_ok_def)
  have same: "q \<in> set (filter (\<lambda>r. ?lim < r) (ichain J ?o)) \<and> ?P q (J_ir J q) \<longleftrightarrow> cse_same J q" for q
    using ssa by (auto simp: set_ichain cse_same_def ssa_ok_def)
  then have ex: "(\<exists>q\<in>set (filter (\<lambda>r. ?lim < r) (ichain J ?o)). ?P q (J_ir J q)) \<longleftrightarrow> (\<exists>q. cse_same J q)" by blast
  have "sorted_wrt (\<lambda>a b. b < a) (filter (\<lambda>r. ?lim < r) (ichain J ?o))" by (intro sorted_wrt_filter ichain_sorted)
  from find_desc[OF this, of "\<lambda>q. ?P q (J_ir J q)"]
  have "walk (J_ir J) ?P ?lim (J_chain J ?o) = (if \<exists>q. cse_same J q then Some (GREATEST q. cse_same J q) else None)"
    unfolding walk_chain[OF c assms(3) k, of ?P ?lim] ex same .
  then show ?thesis using assms(4) by (simp add: lj_opt_cse_cases)
qed

section \<open>Interning of constants\<close>

lemma new_k_eq:
  assumes "ir_nextk J = (r, J1)"
  shows "new_k op t v J = (r, J1\<lparr>J_ir := (J_ir J1)(r := (J_ir J1 r)\<lparr>ir_val := v, ir_t := mk_irt t, ir_o := op,
    ir_prev := J_chain J1 op\<rparr>), J_chain := (J_chain J1)(op := r)\<rparr>)"
  using assms by (simp add: new_k_def set_chain_def set_ir_def Let_def)

lemma new_k_fields:
  assumes "new_k op t v J = (r, J')"
  shows "r = J_nk J - 1" "J_nk J' = J_nk J - 1" "J_nins J' = J_nins J" "J_k64 J' = J_k64 J" "J_flags J' = J_flags J"
    "J_ins J' = J_ins J"
    "J_ir J' = (J_ir J)(r := (J_ir J r)\<lparr>ir_val := v, ir_t := mk_irt t, ir_o := op, ir_prev := J_chain J op\<rparr>)"
    "J_chain J' = (J_chain J)(op := r)"
proof -
  obtain r1 J1 where n: "ir_nextk J = (r1, J1)" by fastforce
  have r: "r = r1" and J': "J' = J1\<lparr>J_ir := (J_ir J1)(r1 := (J_ir J1 r1)\<lparr>ir_val := v, ir_t := mk_irt t, ir_o := op,
    ir_prev := J_chain J1 op\<rparr>), J_chain := (J_chain J1)(op := r1)\<rparr>"
    using assms[unfolded new_k_eq[OF n]] by auto
  note f = nextk_fields[OF n]
  show "r = J_nk J - 1" unfolding r by (rule f(1))
  show "J_nk J' = J_nk J - 1" "J_nins J' = J_nins J" "J_k64 J' = J_k64 J" "J_flags J' = J_flags J" "J_ins J' = J_ins J"
    "J_ir J' = (J_ir J)(r := (J_ir J r)\<lparr>ir_val := v, ir_t := mk_irt t, ir_o := op, ir_prev := J_chain J op\<rparr>)"
    "J_chain J' = (J_chain J)(op := r)" unfolding r J' using f(2-) by simp_all
qed

lemma new_k_trace_ok:
  assumes ok: "trace_ok J" and room: "ir_room J" and k: "is_kop op" "op \<noteq> IR_KPRI" and e: "new_k op t v J = (r, J')"
  shows "trace_ok J'" "J_nk J' \<le> r" "r < J_nk J"
    "kchain J' op' = (if op' = op then r # kchain J op' else kchain J op')" "ichain J' op' = ichain J op'"
proof -
  note f = new_k_fields[OF e]
  have c: "chains_ok J" and s: "ssa_ok J" and b: "buf_ok J" using ok by (auto simp: trace_ok_def)
  have nk: "0 < J_nk J" "J_nk J < REF_BIAS" "REF_FIRST \<le> J_nins J" using b by (auto simp: buf_ok_def ref_defs)
  then have r: "r < J_nk J" "J_nk J' = r" by (simp_all add: f)
  then show "J_nk J' \<le> r" "r < J_nk J" by simp_all
  have up: "[J_nk J'..<REF_BIAS] = r # [J_nk J..<REF_BIAS]" using r nk by (simp add: f upt_conv_Cons)
  have kl: "kchain J' op' = (if op' = op then r # kchain J op' else kchain J op')" for op'
  proof -
    have "filter (\<lambda>q. ir_o (J_ir J' q) = op') [J_nk J..<REF_BIAS] = kchain J op'"
      unfolding kchain_def using r by (intro filter_cong) (auto simp: f)
    moreover have "ir_o (J_ir J' r) = op" by (simp add: f(7))
    ultimately show ?thesis unfolding kchain_def[of J'] up filter.simps by (simp only:) auto
  qed
  have il: "ichain J' op' = ichain J op'" for op'
    unfolding ichain_def f(3) using r nk by (intro arg_cong[of _ _ rev] filter_cong) (auto simp: f(7) ref_defs)
  show "kchain J' op' = (if op' = op then r # kchain J op' else kchain J op')" "ichain J' op' = ichain J op'"
    by (simp_all only: kl il)
  have low: "r < q" if "q \<in> set (kchain J o') \<or> q \<in> set (ichain J o')" for q o'
    using that r nk by (auto simp: set_kchain set_ichain ref_defs)
  have lc: "linked (J_ir J') h qs = linked (J_ir J) h qs" if "\<forall>q \<in> set qs. r < q" for h qs
    using that by (intro linked_cong) (auto simp: f(7))
  have "linked (J_ir J') (J_chain J' o') (if is_kop o' then kchain J' o' else ichain J' o')" if u: "\<not> unchained o'" for o'
  proof (cases "is_kop o'")
    case True
    have "linked (J_ir J') (J_chain J o') (kchain J o')" using chains_okD(2)[OF c u True] low by (subst lc) auto
    then show ?thesis using True by (auto simp: kl f(7,8))
  next
    case False
    have "linked (J_ir J') (J_chain J o') (ichain J o')" using chains_okD(1)[OF c u False] low by (subst lc) auto
    then show ?thesis using False k by (auto simp: il f(8))
  qed
  moreover have "is_kop (ir_o (J_ir J' q))" if q: "J_nk J' \<le> q" "q < REF_BIAS" for q
  proof (cases "q = r")
    case False
    then have "J_nk J \<le> q" using q(1) r(2) f(1) nk(1) by linarith
    then show ?thesis using c q False by (simp add: f(7) chains_ok_def)
  qed (simp add: f(7) k)
  moreover have "\<not> is_kop (ir_o (J_ir J' q))" if "REF_FIRST \<le> q" "q < J_nins J'" for q
    using c that r nk by (auto simp: f(3,7) chains_ok_def ref_defs)
  ultimately have "chains_ok J'" unfolding chains_ok_def by blast
  moreover have "ssa_ok J'" using s r nk by (auto simp: ssa_ok_def f(3,7) ref_defs)
  moreover have "buf_ok J'"
  proof -
    obtain r1 J1 where n: "ir_nextk J = (r1, J1)" by fastforce
    have "buf_ok J1" by (rule nextk_buf[OF b room n])
    then show ?thesis using e[unfolded new_k_eq[OF n]] by (auto simp: buf_ok_def)
  qed
  ultimately show "trace_ok J'" by (simp add: trace_ok_def)
qed


text \<open>
  The values of the constants: integers, and addresses of elements of the constant arrays; no two constants of
  one opcode have the same value, and no two elements of the arrays.
\<close>

definition kint64_ok :: "u64 list list \<Rightarrow> IRVal \<Rightarrow> bool" where
  "kint64_ok ks v \<longleftrightarrow> (\<exists>u a. v = IV_k64 a \<and> k64_search u 0 ks = Some a)"

definition consts_ok :: "jit_State \<Rightarrow> bool" where
  "consts_ok J \<longleftrightarrow>
     (\<forall>r \<in> set (kchain J IR_KINT). \<exists>k. ir_val (J_ir J r) = IV_i k) \<and>
     (\<forall>r \<in> set (kchain J IR_KINT64). kint64_ok (J_k64 J) (ir_val (J_ir J r))) \<and>
     inj_on (\<lambda>r. ir_val (J_ir J r)) (set (kchain J IR_KINT)) \<and>
     inj_on (\<lambda>r. ir_val (J_ir J r)) (set (kchain J IR_KINT64))"

definition ir_ok :: "jit_State \<Rightarrow> bool" where
  "ir_ok J \<longleftrightarrow> trace_ok J \<and> consts_ok J"

lemma k64_index_append:
  "k64_index u j (xs @ ys) = (case k64_index u j xs of Some q \<Rightarrow> Some q | None \<Rightarrow> k64_index u (j + length xs) ys)"
  by (induction xs arbitrary: j) (auto split: option.splits)

lemma k64_search_append:
  "k64_search u i (xs @ ys) = (case k64_search u i xs of Some a \<Rightarrow> Some a | None \<Rightarrow> k64_search u (i + length xs) ys)"
  by (induction xs arbitrary: i) (auto split: option.splits)

lemma k64_index_nth: "k64_index u j xs = Some q \<Longrightarrow> \<exists>p. q = j + p \<and> p < length xs \<and> xs ! p = u"
proof (induction xs arbitrary: j)
  case (Cons x xs)
  show ?case
  proof (cases "x = u")
    case True then show ?thesis using Cons.prems by (auto intro: exI[of _ 0])
  next
    case False
    then obtain p where "q = Suc j + p" "p < length xs" "xs ! p = u" using Cons.prems Cons.IH[of "Suc j"] by auto
    then show ?thesis by (intro exI[of _ "Suc p"]) simp
  qed
qed simp

lemma k64_search_nth:
  "k64_search u i ks = Some a \<Longrightarrow> \<exists>p q. a = K64_at (i + p) q \<and> p < length ks \<and> q < length (ks ! p) \<and> ks ! p ! q = u"
proof (induction ks arbitrary: i)
  case (Cons k ks)
  show ?case
  proof (cases "k64_index u 0 k")
    case None
    then obtain p q where "a = K64_at (Suc i + p) q" "p < length ks" "q < length (ks ! p)" "ks ! p ! q = u"
      using Cons.prems Cons.IH[of "Suc i"] by auto
    then show ?thesis by (intro exI[of _ "Suc p"] exI[of _ q]) simp
  next
    case (Some q)
    then have "q < length k" "k ! q = u" using k64_index_nth by fastforce+
    then show ?thesis using Cons.prems Some by (intro exI[of _ 0] exI[of _ q]) simp
  qed
qed simp

lemma k64_value_search: "k64_search u 0 (J_k64 J) = Some a \<Longrightarrow> k64_value J a = u"
  using k64_search_nth[of u 0 "J_k64 J" a] by (auto simp: k64_value_def)

lemma k64_index_single: "k64_index u j [x] = Some q \<Longrightarrow> x = u"
  by (simp split: if_splits)

text \<open>Looking up a 64 bit constant keeps the addresses of the others.\<close>

lemma lj_ir_k64_find_spec:
  assumes "lj_ir_k64_find u J = (a, J')"
  shows "k64_search u 0 (J_k64 J') = Some a"
    and "k64_search v 0 (J_k64 J) = Some b \<Longrightarrow> k64_search v 0 (J_k64 J') = Some b"
    and "J' = J\<lparr>J_k64 := J_k64 J'\<rparr>"
proof -
  have "k64_search u 0 (J_k64 J') = Some a \<and> (k64_search v 0 (J_k64 J) = Some b \<longrightarrow> k64_search v 0 (J_k64 J') = Some b) \<and>
      J' = J\<lparr>J_k64 := J_k64 J'\<rparr>"
  proof (cases "k64_search u 0 (J_k64 J)")
    case (Some c)
    then show ?thesis using assms by (simp add: lj_ir_k64_find_def)
  next
    case None
    define ks where "ks = (if J_k64 J \<noteq> [] \<and> length (last (J_k64 J)) < LJ_MIN_K64SZ then J_k64 J else J_k64 J @ [[]])"
    have ne: "ks \<noteq> []" by (auto simp: ks_def)
    then obtain xs k where xk: "ks = xs @ [k]" by (metis append_butlast_last_id)
    have s: "k64_search w 0 ks = k64_search w 0 (J_k64 J)" for w
      by (auto simp: ks_def k64_search_append split: option.splits)
    have J': "a = K64_at (length xs) (length k)" "J' = J\<lparr>J_k64 := xs @ [k @ [u]]\<rparr>"
      using assms None xk by (simp_all add: lj_ir_k64_find_def Let_def flip: ks_def)
    have x: "k64_search w 0 (xs @ [k @ [u]]) = (case k64_search w 0 ks of Some c \<Rightarrow> Some c
        | None \<Rightarrow> if w = u then Some (K64_at (length xs) (length k)) else None)" for w
      unfolding xk by (auto simp: k64_search_append k64_index_append split: option.splits)
    show ?thesis unfolding J' using x s None by simp
  qed
  then show "k64_search u 0 (J_k64 J') = Some a"
    and "k64_search v 0 (J_k64 J) = Some b \<Longrightarrow> k64_search v 0 (J_k64 J') = Some b"
    and "J' = J\<lparr>J_k64 := J_k64 J'\<rparr>" by blast+
qed

text \<open>An interned constant: found in its chain, or a new one whose value no constant of the chain has.\<close>

lemma intern_k_spec:
  assumes ok: "trace_ok J" and room: "ir_room J" and k: "is_kop op" "op \<noteq> IR_KPRI"
    and e: "intern_k op t v (\<lambda>ir. ir_val ir = v) J = (r, J')"
  shows "trace_ok J'" "r \<in> set (kchain J' op)" "ir_val (J_ir J' r) = v"
    "J_k64 J' = J_k64 J" "J_nins J' = J_nins J" "J_ins J' = J_ins J" "J_flags J' = J_flags J"
    "q \<in> set (kchain J o') \<Longrightarrow> q \<in> set (kchain J' o') \<and> J_ir J' q = J_ir J q"
    "q \<in> set (kchain J' o') \<Longrightarrow> q \<in> set (kchain J o') \<or> o' = op \<and> q = r"
    "inj_on (\<lambda>r. ir_val (J_ir J r)) (set (kchain J op)) \<Longrightarrow> inj_on (\<lambda>r. ir_val (J_ir J' r)) (set (kchain J' op))"
    "REF_FIRST \<le> q \<Longrightarrow> J_ir J' q = J_ir J q"
proof -
  have u: "\<not> unchained op" and nk: "0 < J_nk J" and c: "chains_ok J"
    using k ok by (auto simp: unchained_def is_kop_def trace_ok_def buf_ok_def ref_defs)
  note w = walk_k_chain[OF c nk u k(1), of "\<lambda>ir. ir_val ir = v"]
  have "trace_ok J' \<and> r \<in> set (kchain J' op) \<and> ir_val (J_ir J' r) = v \<and> J_k64 J' = J_k64 J \<and> J_nins J' = J_nins J \<and>
    J_ins J' = J_ins J \<and> J_flags J' = J_flags J \<and>
    (\<forall>q o'. q \<in> set (kchain J o') \<longrightarrow> q \<in> set (kchain J' o') \<and> J_ir J' q = J_ir J q) \<and>
    (\<forall>q o'. q \<in> set (kchain J' o') \<longrightarrow> q \<in> set (kchain J o') \<or> o' = op \<and> q = r) \<and>
    (inj_on (\<lambda>r. ir_val (J_ir J r)) (set (kchain J op)) \<longrightarrow> inj_on (\<lambda>r. ir_val (J_ir J' r)) (set (kchain J' op))) \<and>
    (\<forall>q. REF_FIRST \<le> q \<longrightarrow> J_ir J' q = J_ir J q)"
  proof (cases "List.find (\<lambda>r. ir_val (J_ir J r) = v) (kchain J op)")
    case (Some q)
    then have "q \<in> set (kchain J op)" "ir_val (J_ir J q) = v" by (auto simp: find_Some_iff in_set_conv_nth)
    then show ?thesis using e Some ok by (simp add: intern_k_def w)
  next
    case None
    then have no: "\<forall>q \<in> set (kchain J op). ir_val (J_ir J q) \<noteq> v" by (simp add: find_None_iff)
    have e': "new_k op t v J = (r, J')" using e None by (simp add: intern_k_def w)
    note n = new_k_trace_ok[OF ok room k e'] and f = new_k_fields[OF e']
    have ne: "q \<noteq> r" if "q \<in> set (kchain J o')" for q o' using that n(3) by (auto simp: set_kchain)
    have old: "J_ir J' q = J_ir J q" if "q \<in> set (kchain J o')" for q o' using ne[OF that] by (simp add: f(7))
    have "inj_on (\<lambda>r. ir_val (J_ir J' r)) (set (kchain J' op))" if "inj_on (\<lambda>r. ir_val (J_ir J r)) (set (kchain J op))"
    proof -
      have "inj_on (\<lambda>r. ir_val (J_ir J' r)) (set (kchain J op))" using that old by (simp add: inj_on_def)
      moreover have "ir_val (J_ir J' r) = v" by (simp add: f(7))
      moreover have "ir_val (J_ir J' q) \<noteq> v" if "q \<in> set (kchain J op)" for q using old[OF that] no that by simp
      ultimately show ?thesis by (simp add: n(4)) blast
    qed
    moreover have "r < REF_FIRST" using n(3) ok by (simp add: trace_ok_def buf_ok_def ref_defs)
    ultimately show ?thesis using n(1) old by (auto simp: n(4) f(3-7))
  qed
  then show "trace_ok J'" "r \<in> set (kchain J' op)" "ir_val (J_ir J' r) = v"
    "J_k64 J' = J_k64 J" "J_nins J' = J_nins J" "J_ins J' = J_ins J" "J_flags J' = J_flags J"
    "q \<in> set (kchain J o') \<Longrightarrow> q \<in> set (kchain J' o') \<and> J_ir J' q = J_ir J q"
    "q \<in> set (kchain J' o') \<Longrightarrow> q \<in> set (kchain J o') \<or> o' = op \<and> q = r"
    "inj_on (\<lambda>r. ir_val (J_ir J r)) (set (kchain J op)) \<Longrightarrow> inj_on (\<lambda>r. ir_val (J_ir J' r)) (set (kchain J' op))"
    "REF_FIRST \<le> q \<Longrightarrow> J_ir J' q = J_ir J q"
    by blast+
qed


definition kint_val :: "jit_State \<Rightarrow> nat \<Rightarrow> u32 option" where
  "kint_val J r = (if r \<in> set (kchain J IR_KINT) then Some (ins_i (J_ir J r)) else None)"

definition kint64_val :: "jit_State \<Rightarrow> nat \<Rightarrow> u64 option" where
  "kint64_val J r = (if r \<in> set (kchain J IR_KINT64) then Some (ir_k64 J (J_ir J r)) else None)"

lemma kint_ops [simp]: "is_kop IR_KINT" "is_kop IR_KINT64"
  by (simp_all add: is_kop_def)

lemma lj_ir_kint_spec:
  assumes ok: "ir_ok J" and room: "ir_room J" and e: "lj_ir_kint k J = (r, J')"
  shows "ir_ok J'" "kint_val J' r = Some k" "kint_val J q = Some k' \<Longrightarrow> kint_val J' q = Some k'"
    "kint64_val J q = Some u \<Longrightarrow> kint64_val J' q = Some u"
    "REF_FIRST \<le> q \<Longrightarrow> J_ir J' q = J_ir J q" "J_nins J' = J_nins J" "J_ins J' = J_ins J" "J_flags J' = J_flags J"
proof -
  have t: "trace_ok J" and c: "consts_ok J" using ok by (auto simp: ir_ok_def)
  note i = intern_k_spec[OF t room kint_ops(1) _ e[unfolded lj_ir_kint_def], simplified]
  have sub: "\<exists>k. ir_val (J_ir J' q) = IV_i k" if "q \<in> set (kchain J' IR_KINT)" for q
    using i(9)[OF that] i(8)[of q IR_KINT] i(3) c by (auto simp: consts_ok_def)
  have same: "set (kchain J' IR_KINT64) = set (kchain J IR_KINT64)" using i(8,9) by fastforce
  have old: "J_ir J' q = J_ir J q" if "q \<in> set (kchain J o')" for q o' using i(8)[OF that] by simp
  have "consts_ok J'" unfolding consts_ok_def same
    using sub i(10) c old[of _ IR_KINT64] by (auto simp: consts_ok_def i(4) inj_on_def)
  then show "ir_ok J'" using i(1) by (simp add: ir_ok_def)
  show "kint_val J' r = Some k" using i(2,3) by (simp add: kint_val_def ins_i_def)
  show "kint_val J q = Some k' \<Longrightarrow> kint_val J' q = Some k'" using i(8)[of q IR_KINT] by (auto simp: kint_val_def split: if_splits)
  show "kint64_val J q = Some u \<Longrightarrow> kint64_val J' q = Some u"
    using i(8)[of q IR_KINT64] by (auto simp: kint64_val_def ir_k64_def k64_value_def i(4) split: if_splits IRVal.splits KAddr.splits)
  show "REF_FIRST \<le> q \<Longrightarrow> J_ir J' q = J_ir J q" by (rule i(11))
  show "J_nins J' = J_nins J" "J_ins J' = J_ins J" "J_flags J' = J_flags J" by (fact i(5) i(6) i(7))+
qed

text \<open>A state that differs in the constant arrays only.\<close>

lemma k64_update_ok:
  "trace_ok (J\<lparr>J_k64 := ks\<rparr>) = trace_ok J" "kchain (J\<lparr>J_k64 := ks\<rparr>) op = kchain J op" "ir_room (J\<lparr>J_k64 := ks\<rparr>) = ir_room J"
  by (simp_all add: trace_ok_def buf_ok_def chains_ok_def ssa_ok_def kchain_def ichain_def ir_room_def)

lemma lj_ir_kint64_spec:
  assumes ok: "ir_ok J" and room: "ir_room J" and e: "lj_ir_kint64 u J = (r, J')"
  shows "ir_ok J'" "kint64_val J' r = Some u" "kint64_val J q = Some u' \<Longrightarrow> kint64_val J' q = Some u'"
    "kint_val J q = Some k \<Longrightarrow> kint_val J' q = Some k"
    "REF_FIRST \<le> q \<Longrightarrow> J_ir J' q = J_ir J q" "J_nins J' = J_nins J" "J_ins J' = J_ins J" "J_flags J' = J_flags J"
proof -
  have t: "trace_ok J" and c: "consts_ok J" using ok by (auto simp: ir_ok_def)
  obtain a J1 where f: "lj_ir_k64_find u J = (a, J1)" by fastforce
  note fs = lj_ir_k64_find_spec[OF f]
  define ks where "ks = J_k64 J1"
  have J1: "J1 = J\<lparr>J_k64 := ks\<rparr>" unfolding ks_def by (rule fs(3))
  have e': "intern_k IR_KINT64 IRT_I64 (IV_k64 a) (\<lambda>ir. ir_val ir = IV_k64 a) J1 = (r, J')"
    using e by (simp add: lj_ir_kint64_def f lj_ir_k64_def)
  have t1: "trace_ok J1" "ir_room J1" using t room by (simp_all add: J1 k64_update_ok)
  note i = intern_k_spec[OF t1 kint_ops(2) _ e', simplified]
  have kc: "kchain J1 op = kchain J op" and jr: "J_ir J1 = J_ir J" for op by (simp_all add: J1 k64_update_ok)
  have keep: "kint64_ok (J_k64 J') v" if "kint64_ok (J_k64 J) v" for v
    using that fs(2) by (auto simp: kint64_ok_def i(4))
  have sub: "kint64_ok (J_k64 J') (ir_val (J_ir J' q))" if "q \<in> set (kchain J' IR_KINT64)" for q
    using i(9)[OF that]
  proof
    assume "q \<in> set (kchain J1 IR_KINT64)"
    then have "kint64_ok (J_k64 J) (ir_val (J_ir J q))" "J_ir J' q = J_ir J q"
      using i(8)[of q IR_KINT64] c by (simp_all add: kc jr consts_ok_def)
    then show ?thesis using keep by simp
  next
    assume "IR_KINT64 = IR_KINT64 \<and> q = r"
    then show ?thesis using i(3) fs(1) by (auto simp: kint64_ok_def i(4))
  qed
  have same: "set (kchain J' IR_KINT) = set (kchain J IR_KINT)" using i(8,9) by (fastforce simp: kc)
  have old: "J_ir J' q = J_ir J q" if "q \<in> set (kchain J o')" for q o' using i(8)[of q o'] that by (simp add: kc jr)
  have "consts_ok J'" unfolding consts_ok_def same
    using sub i(10) c old[of _ IR_KINT] by (auto simp: consts_ok_def inj_on_def kc jr)
  then show "ir_ok J'" using i(1) by (simp add: ir_ok_def)
  have val: "ir_k64 J' ir = w" if "ir_val ir = IV_k64 b" "k64_search w 0 (J_k64 J') = Some b" for ir b w
    using that k64_value_search[of w J' b] by (simp add: ir_k64_def)
  show "kint64_val J' r = Some u" using i(2) val[OF i(3)] fs(1) by (simp add: kint64_val_def i(4))
  show "kint64_val J' q = Some u'" if "kint64_val J q = Some u'"
  proof -
    have q: "q \<in> set (kchain J IR_KINT64)" and u': "u' = ir_k64 J (J_ir J q)" using that by (auto simp: kint64_val_def split: if_splits)
    then obtain w b where w: "ir_val (J_ir J q) = IV_k64 b" "k64_search w 0 (J_k64 J) = Some b"
      using c by (auto simp: consts_ok_def kint64_ok_def)
    then have "u' = w" using u' k64_value_search[of w J b] by (simp add: ir_k64_def)
    moreover have "ir_k64 J' (J_ir J' q) = w" using old[OF q] val[OF w(1)] fs(2)[OF w(2)] by (simp add: i(4))
    ultimately show ?thesis using i(8)[of q IR_KINT64] q by (simp add: kint64_val_def kc)
  qed
  show "kint_val J q = Some k \<Longrightarrow> kint_val J' q = Some k" using i(8)[of q IR_KINT] by (auto simp: kint_val_def kc jr split: if_splits)
  show "REF_FIRST \<le> q \<Longrightarrow> J_ir J' q = J_ir J q" using i(11) by (simp add: jr)
  show "J_nins J' = J_nins J" "J_ins J' = J_ins J" "J_flags J' = J_flags J" using i(5-7) by (simp_all add: J1)
qed

definition k_room :: "'k \<Rightarrow> jit_State \<Rightarrow> bool" where "k_room k = ir_room"

interpretation kint: interner ir_ok k_room lj_ir_kint kint_val
proof
  fix J :: jit_State and k k' :: u32 and r r' :: nat
  assume ok: "ir_ok J"
  obtain q J' where e: "lj_ir_kint k J = (q, J')" by fastforce
  note s = lj_ir_kint_spec[OF ok _ e]
  show "ir_ok (snd (lj_ir_kint k J))" if "k_room k J" using s(1) that by (simp add: e k_room_def)
  show "kint_val (snd (lj_ir_kint k J)) (fst (lj_ir_kint k J)) = Some k" if "k_room k J"
    using s(2) that by (simp add: e k_room_def)
  show "kint_val (snd (lj_ir_kint k J)) r = Some k'" if "k_room k J" "kint_val J r = Some k'"
    using s(3) that by (simp add: e k_room_def)
  show "r = r'" if "kint_val J r = Some k" "kint_val J r' = Some k"
  proof -
    have "r \<in> set (kchain J IR_KINT)" "r' \<in> set (kchain J IR_KINT)" "ins_i (J_ir J r) = ins_i (J_ir J r')"
      using that by (auto simp: kint_val_def split: if_splits)
    moreover have c: "consts_ok J" using ok by (simp add: ir_ok_def)
    moreover obtain k1 k2 where "ir_val (J_ir J r) = IV_i k1" "ir_val (J_ir J r') = IV_i k2"
      using calculation(1,2) c unfolding consts_ok_def by blast
    ultimately have "ir_val (J_ir J r) = ir_val (J_ir J r')" by (simp add: ins_i_def)
    moreover have "inj_on (\<lambda>r. ir_val (J_ir J r)) (set (kchain J IR_KINT))" using c by (simp add: consts_ok_def)
    ultimately show ?thesis using \<open>r \<in> _\<close> \<open>r' \<in> _\<close> by (simp add: inj_on_def)
  qed
qed

interpretation kint64: interner ir_ok k_room lj_ir_kint64 kint64_val
proof
  fix J :: jit_State and k k' :: u64 and r r' :: nat
  assume ok: "ir_ok J"
  obtain q J' where e: "lj_ir_kint64 k J = (q, J')" by fastforce
  note s = lj_ir_kint64_spec[OF ok _ e]
  show "ir_ok (snd (lj_ir_kint64 k J))" if "k_room k J" using s(1) that by (simp add: e k_room_def)
  show "kint64_val (snd (lj_ir_kint64 k J)) (fst (lj_ir_kint64 k J)) = Some k" if "k_room k J"
    using s(2) that by (simp add: e k_room_def)
  show "kint64_val (snd (lj_ir_kint64 k J)) r = Some k'" if "k_room k J" "kint64_val J r = Some k'"
    using s(3) that by (simp add: e k_room_def)
  show "r = r'" if "kint64_val J r = Some k" "kint64_val J r' = Some k"
  proof -
    have in_chain: "r \<in> set (kchain J IR_KINT64)" "r' \<in> set (kchain J IR_KINT64)" and
      v: "ir_k64 J (J_ir J r) = k" "ir_k64 J (J_ir J r') = k" using that by (auto simp: kint64_val_def split: if_splits)
    have c: "consts_ok J" using ok by (simp add: ir_ok_def)
    obtain w b w' b' where w: "ir_val (J_ir J r) = IV_k64 b" "k64_search w 0 (J_k64 J) = Some b"
      "ir_val (J_ir J r') = IV_k64 b'" "k64_search w' 0 (J_k64 J) = Some b'"
      using in_chain c unfolding consts_ok_def kint64_ok_def by metis
    then have "w = k" "w' = k" using v k64_value_search[of w J b] k64_value_search[of w' J b'] by (simp_all add: ir_k64_def)
    then have "ir_val (J_ir J r) = ir_val (J_ir J r')" using w by simp
    moreover have "inj_on (\<lambda>r. ir_val (J_ir J r)) (set (kchain J IR_KINT64))" using c by (simp add: consts_ok_def)
    ultimately show ?thesis using in_chain by (simp add: inj_on_def)
  qed
qed

section \<open>Roll-back\<close>

lemma rollback_step_ok:
  assumes ok: "trace_ok J" and n: "REF_FIRST < J_nins J"
  defines "r \<equiv> J_nins J - 1"
  defines "J' \<equiv> (set_chain (ir_o (J_ir J r)) (ir_prev (J_ir J r)) J)\<lparr>J_nins := r\<rparr>"
  shows "trace_ok J'" "J_ir J' = J_ir J" "J_nk J' = J_nk J" "J_nins J' = r"
proof -
  have f: "J_ir J' = J_ir J" "J_nk J' = J_nk J" "J_nins J' = r"
    "J_chain J' = (J_chain J)(ir_o (J_ir J r) := ir_prev (J_ir J r))"
    "J_irbotlim J' = J_irbotlim J" "J_irtoplim J' = J_irtoplim J"
    by (simp_all add: J'_def set_chain_def)
  then show "J_ir J' = J_ir J" "J_nk J' = J_nk J" "J_nins J' = r" by simp_all
  have c: "chains_ok J" and s: "ssa_ok J" and b: "buf_ok J" using ok by (auto simp: trace_ok_def)
  have r: "J_nins J = Suc r" "REF_FIRST \<le> r" using n by (simp_all add: r_def)
  have kl: "kchain J' op = kchain J op" for op by (simp add: kchain_def f)
  have il: "ichain J op = (if op = ir_o (J_ir J r) then r # ichain J' op else ichain J' op)" for op
    using r by (simp add: ichain_def f)
  have o: "\<not> is_kop (ir_o (J_ir J r))" using c r by (simp add: chains_ok_def)
  have "linked (J_ir J') (J_chain J' op) (if is_kop op then kchain J' op else ichain J' op)" if u: "\<not> unchained op" for op
  proof (cases "is_kop op")
    case True
    then show ?thesis using chains_okD(2)[OF c u True] o by (auto simp: f kl)
  next
    case False
    then show ?thesis using chains_okD(1)[OF c u False] by (auto simp: f il split: if_splits)
  qed
  moreover have "is_kop (ir_o (J_ir J' q))" if "J_nk J' \<le> q" "q < REF_BIAS" for q using c that by (simp add: f chains_ok_def)
  moreover have "\<not> is_kop (ir_o (J_ir J' q))" if "REF_FIRST \<le> q" "q < J_nins J'" for q
    using c that r by (simp add: f chains_ok_def)
  ultimately have "chains_ok J'" unfolding chains_ok_def by blast
  moreover have "ssa_ok J'" using s r by (simp add: ssa_ok_def f)
  moreover have "buf_ok J'" using b r by (simp add: buf_ok_def f)
  ultimately show "trace_ok J'" by (simp add: trace_ok_def)
qed

lemma rollback_ok:
  "trace_ok J \<Longrightarrow> REF_FIRST + n \<le> J_nins J \<Longrightarrow>
   trace_ok (rollback n J) \<and> J_ir (rollback n J) = J_ir J \<and> J_nk (rollback n J) = J_nk J \<and>
   J_nins (rollback n J) = J_nins J - n"
proof (induction n arbitrary: J)
  case (Suc n)
  let ?r = "J_nins J - 1"
  let ?J = "(set_chain (ir_o (J_ir J ?r)) (ir_prev (J_ir J ?r)) J)\<lparr>J_nins := ?r\<rparr>"
  have "REF_FIRST < J_nins J" using Suc.prems by simp
  note s = rollback_step_ok[OF Suc.prems(1) this]
  have "rollback (Suc n) J = rollback n ?J" by (simp add: Let_def)
  then show ?case using Suc.IH[OF s(1)] s(2-4) Suc.prems by simp
qed simp

text \<open>The heads of the chains are determined by the instructions.\<close>

lemma chain_head: "linked ir h rs \<Longrightarrow> linked ir' h' rs \<Longrightarrow> h = h'"
  by (cases rs) auto

fun emit_all :: "IRIns list \<Rightarrow> jit_State \<Rightarrow> jit_State" where
  "emit_all [] J = J"
| "emit_all (f # fs) J = emit_all fs (snd (lj_ir_emit (J\<lparr>J_ins := f\<rparr>)))"

fun emits_ok :: "IRIns list \<Rightarrow> jit_State \<Rightarrow> bool" where
  "emits_ok [] J = True"
| "emits_ok (f # fs) J = (ir_room J \<and> fins_ok (J\<lparr>J_ins := f\<rparr>) \<and> emits_ok fs (snd (lj_ir_emit (J\<lparr>J_ins := f\<rparr>))))"

lemma ins_update_ok [simp]:
  "trace_ok (J\<lparr>J_ins := f\<rparr>) = trace_ok J" "ir_room (J\<lparr>J_ins := f\<rparr>) = ir_room J"
  by (simp_all add: trace_ok_def buf_ok_def chains_ok_def ssa_ok_def kchain_def ichain_def ir_room_def)

lemma emit_all_ok:
  "trace_ok J \<Longrightarrow> emits_ok fs J \<Longrightarrow> trace_ok (emit_all fs J) \<and> J_nk (emit_all fs J) = J_nk J \<and>
    J_nins (emit_all fs J) = J_nins J + length fs \<and> (\<forall>r < J_nins J. J_ir (emit_all fs J) r = J_ir J r)"
proof (induction fs arbitrary: J)
  case (Cons f fs)
  obtain r J' where e: "lj_ir_emit (J\<lparr>J_ins := f\<rparr>) = (r, J')" by fastforce
  have "trace_ok J'" using emit_trace_ok[OF _ _ _ e] Cons.prems by simp
  then show ?case using Cons.IH[of J'] Cons.prems emit_fields[OF e] by (auto simp: e)
qed simp

section \<open>Dead code elimination\<close>

text \<open>What has to stay: what a snapshot holds, what has a side effect, and the operands of what stays.\<close>

inductive dce_live :: "jit_State \<Rightarrow> nat list list \<Rightarrow> nat \<Rightarrow> bool" for J snaps where
  live_snap: "r \<in> set (concat snaps) \<Longrightarrow> REF_FIRST \<le> r \<Longrightarrow> r < J_nins J \<Longrightarrow> dce_live J snaps r"
| live_side: "ir_sideeff (J_ir J r) \<Longrightarrow> REF_FIRST \<le> r \<Longrightarrow> r < J_nins J \<Longrightarrow> dce_live J snaps r"
| live_op1: "dce_live J snaps r \<Longrightarrow> REF_FIRST \<le> ir_op1 (J_ir J r) \<Longrightarrow> dce_live J snaps (ir_op1 (J_ir J r))"
| live_op2: "dce_live J snaps r \<Longrightarrow> REF_FIRST \<le> ir_op2 (J_ir J r) \<Longrightarrow> dce_live J snaps (ir_op2 (J_ir J r))"

inductive_cases dce_liveE: "dce_live J snaps r"

text \<open>An instruction up to its link and its mark.\<close>

definition ir_core :: "IRIns \<Rightarrow> IRIns" where
  "ir_core ir = ir\<lparr>ir_prev := 0, ir_t := (ir_t ir)\<lparr>irt_ismarked := False\<rparr>\<rparr>"

lemma sideeff_mark: "ir_sideeff (ir\<lparr>ir_t := (ir_t ir)\<lparr>irt_ismarked := b\<rparr>\<rparr>) = ir_sideeff ir"
proof -
  have "irt_byte (t\<lparr>irt_ismarked := b\<rparr>) OR NOT 0x80 = irt_byte t OR NOT 0x80" for t
    by (cases b; cases "irt_ismarked t") (simp_all add: irt_byte_def or.assoc[symmetric], (simp_all add: or.assoc or.left_commute or.commute))
  then show ?thesis by (simp add: ir_sideeff_def)
qed

lemma live_iff:
  assumes "ssa_ok J" "REF_FIRST \<le> r" "r < J_nins J"
  shows "dce_live J snaps r \<longleftrightarrow> r \<in> set (concat snaps) \<or> ir_sideeff (J_ir J r) \<or>
     (\<exists>s. r < s \<and> s < J_nins J \<and> dce_live J snaps s \<and> (ir_op1 (J_ir J s) = r \<or> ir_op2 (J_ir J s) = r))" (is "_ = ?R")
proof
  assume "dce_live J snaps r"
  have range: "REF_FIRST \<le> s \<and> s < J_nins J" if "dce_live J snaps s" for s
    using that assms(1) by induction (auto simp: ssa_ok_def intro: less_trans)
  from \<open>dce_live J snaps r\<close> show ?R
    using range assms(1) unfolding ssa_ok_def by (cases rule: dce_live.cases) blast+
next
  assume ?R
  then show "dce_live J snaps r" using live_snap[of r snaps J] live_side[of J r] live_op1 live_op2 assms(2,3) by metis
qed

definition mk_mark :: "bool \<Rightarrow> IRIns \<Rightarrow> IRIns" where
  "mk_mark b ir = ir\<lparr>ir_t := (ir_t ir)\<lparr>irt_ismarked := b\<rparr>\<rparr>"

lemma mk_mark_simps [simp]:
  "ir_op1 (mk_mark b ir) = ir_op1 ir" "ir_op2 (mk_mark b ir) = ir_op2 ir" "ir_o (mk_mark b ir) = ir_o ir"
  "irt_ismarked (ir_t (mk_mark b ir)) = b" "mk_mark b (mk_mark c ir) = mk_mark b ir" "ir_core (mk_mark b ir) = ir_core ir"
  "ir_sideeff (mk_mark b ir) = ir_sideeff ir"
  by (simp_all add: mk_mark_def ir_core_def sideeff_mark)

lemma mk_mark_same: "irt_ismarked (ir_t ir) = b \<Longrightarrow> mk_mark b ir = ir"
  by (auto simp: mk_mark_def)

lemma mark_ref_at: "mark_ref r ir q = (if q = r \<and> REF_FIRST \<le> r then mk_mark True (ir q) else ir q)"
  by (simp add: mark_ref_def set_mark_def mk_mark_def)

lemma dce_marksnap_at: "REF_FIRST \<le> q \<Longrightarrow> \<not> irt_ismarked (ir_t (ir q)) \<Longrightarrow>
    dce_marksnap snaps ir q = mk_mark (q \<in> set (concat snaps)) (ir q)"
proof -
  assume q: "REF_FIRST \<le> q" "\<not> irt_ismarked (ir_t (ir q))"
  have one: "foldl (\<lambda>ir ref. mark_ref ref ir) ir rs q = (if q \<in> set rs then mk_mark True (ir q) else ir q)" for rs ir
    using q(1) by (induction rs arbitrary: ir) (auto simp: mark_ref_at)
  have "foldl (foldl (\<lambda>ir ref. mark_ref ref ir)) ir snaps q
      = (if q \<in> set (concat snaps) then mk_mark True (ir q) else ir q)" for ir
    by (induction snaps arbitrary: ir) (auto simp: one)
  then show ?thesis using q(2) by (simp add: dce_marksnap_def mk_mark_same)
qed

lemma store_chain_at:
  "J_nins (store_chain op p x J) = J_nins J"
  "(\<forall>r. p = CP_prev r \<longrightarrow> r \<noteq> q) \<Longrightarrow> J_ir (store_chain op p x J) q = J_ir J q"
  "ir_core (J_ir (store_chain op p x J) q) = ir_core (J_ir J q)"
  "ir_o (J_ir (store_chain op p x J) q) = ir_o (J_ir J q)" "ir_op1 (J_ir (store_chain op p x J) q) = ir_op1 (J_ir J q)"
  "ir_op2 (J_ir (store_chain op p x J) q) = ir_op2 (J_ir J q)" "ir_t (J_ir (store_chain op p x J) q) = ir_t (J_ir J q)"
  by (auto simp: store_chain_def set_chain_def set_ir_def ir_core_def split: ChainPtr.splits)

definition dce_marked :: "jit_State \<Rightarrow> nat list list \<Rightarrow> nat \<Rightarrow> nat \<Rightarrow> bool" where
  "dce_marked J snaps i r \<longleftrightarrow> r \<in> set (concat snaps) \<or>
     (\<exists>s. i \<le> s \<and> s < J_nins J \<and> dce_live J snaps s \<and> (ir_op1 (J_ir J s) = r \<or> ir_op2 (J_ir J s) = r))"

definition dce_gone :: "IRIns \<Rightarrow> bool" where
  "dce_gone ir \<longleftrightarrow> ir_o ir = IR_NOP \<and> ir_op1 ir = 0 \<and> ir_op2 ir = 0 \<and> ir_t ir = mk_irt IRT_NIL"

definition dce_inv :: "jit_State \<Rightarrow> nat list list \<Rightarrow> nat \<Rightarrow> (IROp \<Rightarrow> ChainPtr) \<times> jit_State \<Rightarrow> bool" where
  "dce_inv J0 snaps i s \<longleftrightarrow>
     (\<forall>r. REF_FIRST \<le> r \<and> r < i \<longrightarrow> J_ir (snd s) r = mk_mark (dce_marked J0 snaps i r) (J_ir J0 r)) \<and>
     (\<forall>r. i \<le> r \<and> r < J_nins J0 \<longrightarrow>
        (if dce_live J0 snaps r then ir_core (J_ir (snd s) r) = ir_core (J_ir J0 r) \<and> \<not> irt_ismarked (ir_t (J_ir (snd s) r))
         else dce_gone (J_ir (snd s) r))) \<and>
     (\<forall>op r. fst s op = CP_prev r \<longrightarrow> i \<le> r)"

lemma dce_step_inv:
  assumes inv: "dce_inv J0 snaps (Suc i) (pc, J)" and ssa: "ssa_ok J0" and i: "REF_FIRST \<le> i" "i < J_nins J0"
  shows "dce_inv J0 snaps i (dce_step i (pc, J))"
proof -
  let ?cur = "J_ir J0 i" and ?m = "dce_marked J0 snaps (Suc i) i"
  have ir: "J_ir J i = mk_mark ?m ?cur" using inv i by (simp add: dce_inv_def)
  have below: "J_ir J r = mk_mark (dce_marked J0 snaps (Suc i) r) (J_ir J0 r)" if "REF_FIRST \<le> r" "r < i" for r
    using inv that by (simp add: dce_inv_def)
  have above: "if dce_live J0 snaps r then ir_core (J_ir J r) = ir_core (J_ir J0 r) \<and> \<not> irt_ismarked (ir_t (J_ir J r))
         else dce_gone (J_ir J r)" if "i < r" "r < J_nins J0" for r
    using inv that unfolding dce_inv_def by (metis Suc_leI snd_conv)
  have pc: "i < r" if "pc op = CP_prev r" for op r using inv that unfolding dce_inv_def by (simp add: Suc_le_eq)
  have live: "dce_live J0 snaps i \<longleftrightarrow> ?m \<or> ir_sideeff ?cur"
    unfolding live_iff[OF ssa i] dce_marked_def by (auto simp: Suc_le_eq)
  have ops: "ir_op1 ?cur < i" "ir_op2 ?cur < i" using ssa i by (auto simp: ssa_ok_def)
  have mark: "dce_marked J0 snaps i r \<longleftrightarrow> dce_marked J0 snaps (Suc i) r \<or>
      dce_live J0 snaps i \<and> (ir_op1 ?cur = r \<or> ir_op2 ?cur = r)" for r
  proof -
    have "(\<exists>s. i \<le> s \<and> Q s) \<longleftrightarrow> Q i \<or> (\<exists>s. Suc i \<le> s \<and> Q s)" for Q
      by (metis Suc_leD Suc_leI le_less order_refl)
    from this[of "\<lambda>s. s < J_nins J0 \<and> dce_live J0 snaps s \<and> (ir_op1 (J_ir J0 s) = r \<or> ir_op2 (J_ir J0 s) = r)"]
    show ?thesis unfolding dce_marked_def using i(2) by blast
  qed
  show ?thesis
  proof (cases "dce_live J0 snaps i")
    case False
    then have nl: "\<not> ?m" "\<not> ir_sideeff ?cur" using live by auto
    let ?J = "store_chain (ir_o ?cur) (pc (ir_o ?cur)) (ir_prev (mk_mark ?m ?cur)) J"
    have st: "dce_step i (pc, J) = (pc, set_ir i (nop_ins (mk_mark ?m ?cur)) ?J)"
      using nl by (simp add: dce_step_def ir Let_def)
    have at: "J_ir (set_ir i (nop_ins (mk_mark ?m ?cur)) ?J) r = (if r = i then nop_ins (mk_mark ?m ?cur) else J_ir ?J r)" for r
      by (simp add: set_ir_def)
    have lo: "J_ir ?J r = J_ir J r" if "r < i" for r using pc that by (intro store_chain_at(2)) fastforce
    have "dce_gone (nop_ins (mk_mark ?m ?cur))" by (simp add: dce_gone_def nop_ins_def)
    moreover have "dce_gone (J_ir ?J r) = dce_gone (J_ir J r)" for r by (simp add: dce_gone_def store_chain_at)
    ultimately show ?thesis
      unfolding dce_inv_def st using False below above lo pc mark
      by (auto simp: at store_chain_at less_imp_le)
  next
    case True
    let ?J1 = "if ?m then J\<lparr>J_ir := set_mark False i (J_ir J)\<rparr> else J"
    define new where "new = mark_ref (ir_op2 ?cur) (mark_ref (ir_op1 ?cur) (J_ir ?J1))"
    have st: "dce_step i (pc, J) = (if ?m then pc(ir_o ?cur := CP_prev i) else pc, ?J1\<lparr>J_ir := new\<rparr>)"
      using True live by (auto simp: dce_step_def ir Let_def new_def)
    have j1: "J_ir ?J1 r = (if r = i then mk_mark False ?cur else J_ir J r)" for r
      using ir by (auto simp: set_mark_def mk_mark_def)
    have at: "new r = (if r = i then mk_mark False ?cur
        else if (r = ir_op1 ?cur \<or> r = ir_op2 ?cur) \<and> REF_FIRST \<le> r then mk_mark True (J_ir J r) else J_ir J r)" for r
      unfolding new_def using ops by (simp only: mark_ref_at j1) auto
    have "\<forall>r. REF_FIRST \<le> r \<and> r < i \<longrightarrow> new r = mk_mark (dce_marked J0 snaps i r) (J_ir J0 r)"
      using below mark True by (auto simp: at)
    moreover have "if dce_live J0 snaps r then ir_core (new r) = ir_core (J_ir J0 r) \<and> \<not> irt_ismarked (ir_t (new r))
        else dce_gone (new r)" if "i \<le> r" "r < J_nins J0" for r
    proof (cases "r = i")
      case True
      then show ?thesis using \<open>dce_live J0 snaps i\<close> by (simp add: at)
    next
      case False
      then have "new r = J_ir J r" using that ops by (simp add: at)
      then show ?thesis using above[of r] that False by simp
    qed
    moreover have "\<forall>op r. (if ?m then pc(ir_o ?cur := CP_prev i) else pc) op = CP_prev r \<longrightarrow> i \<le> r"
      using pc by (auto simp: less_imp_le split: if_splits)
    ultimately show ?thesis unfolding dce_inv_def st by simp
  qed
qed

lemma dce_loop_inv:
  assumes "ssa_ok J0" "REF_FIRST + n \<le> J_nins J0" "dce_inv J0 snaps (REF_FIRST + n) s"
  shows "dce_inv J0 snaps REF_FIRST (dce_loop n s)"
  using assms(2,3)
proof (induction n arbitrary: s)
  case (Suc n)
  obtain pc J where s: "s = (pc, J)" by fastforce
  have "dce_inv J0 snaps (REF_FIRST + n) (dce_step (REF_FIRST + n) s)"
    unfolding s using Suc.prems by (intro dce_step_inv assms(1)) (simp_all add: s)
  then show ?case using Suc.IH Suc.prems(1) by simp
qed simp


lemma dce_keeps:
  assumes ssa: "ssa_ok J" and n: "REF_FIRST \<le> J_nins J" and on: "J_flags J AND JIT_F_OPT_DCE \<noteq> 0"
    and um: "\<forall>r. REF_FIRST \<le> r \<and> r < J_nins J \<longrightarrow> \<not> irt_ismarked (ir_t (J_ir J r))"
    and r: "REF_FIRST \<le> r" "r < J_nins J"
  shows "if dce_live J snaps r then ir_core (J_ir (lj_opt_dce snaps J) r) = ir_core (J_ir J r)
    else dce_gone (J_ir (lj_opt_dce snaps J) r)"
proof -
  let ?J = "J\<lparr>J_ir := dce_marksnap snaps (J_ir J)\<rparr>"
  let ?n = "J_nins J - REF_FIRST"
  have m: "dce_marked J snaps (J_nins J) q \<longleftrightarrow> q \<in> set (concat snaps)" for q by (auto simp: dce_marked_def)
  have "dce_inv J snaps (REF_FIRST + ?n) (\<lambda>_. CP_anchor, ?J)"
    using n um by (auto simp: dce_inv_def dce_marksnap_at m)
  from dce_loop_inv[OF ssa _ this] n
  have "dce_inv J snaps REF_FIRST (dce_loop ?n (\<lambda>_. CP_anchor, ?J))" by simp
  moreover have "J_ir (lj_opt_dce snaps J) = J_ir (snd (dce_loop ?n (\<lambda>_. CP_anchor, ?J)))"
    using on by (simp add: lj_opt_dce_def dce_propagate_def)
  ultimately show ?thesis using r unfolding dce_inv_def by metis
qed

lemma rollback_emits:
  assumes ok: "trace_ok J" and e: "emits_ok fs J"
  defines "J' \<equiv> lj_ir_rollback (J_nins J) (emit_all fs J)"
  shows "trace_ok J'" "J_nins J' = J_nins J" "J_nk J' = J_nk J" "r < J_nins J \<Longrightarrow> J_ir J' r = J_ir J r"
    "\<not> unchained op \<Longrightarrow> J_chain J' op = J_chain J op"
proof -
  let ?E = "emit_all fs J"
  have E: "trace_ok ?E" "J_nk ?E = J_nk J" "J_nins ?E = J_nins J + length fs" "\<forall>r < J_nins J. J_ir ?E r = J_ir J r"
    using emit_all_ok[OF ok e] by simp_all
  have n: "REF_FIRST \<le> J_nins J" "J_nk J \<le> REF_BIAS" using ok by (auto simp: trace_ok_def buf_ok_def ref_defs)
  have "J' = rollback (length fs) ?E" by (simp add: J'_def lj_ir_rollback_def E(3))
  moreover have "REF_FIRST + length fs \<le> J_nins ?E" using n E(3) by simp
  ultimately have R: "trace_ok J'" "J_ir J' = J_ir ?E" "J_nk J' = J_nk J" "J_nins J' = J_nins J"
    using rollback_ok[OF E(1), of "length fs"] E by simp_all
  then show "trace_ok J'" "J_nins J' = J_nins J" "J_nk J' = J_nk J" by simp_all
  show ir: "J_ir J' r = J_ir J r" if "r < J_nins J" for r using that R(2) E(4) by simp
  show "J_chain J' op = J_chain J op" if u: "\<not> unchained op"
  proof (cases "is_kop op")
    case True
    have "kchain J' op = kchain J op"
      unfolding kchain_def R(3) using n ir by (intro filter_cong) (auto simp: ref_defs)
    then show ?thesis
      using chain_head chains_okD(2)[OF _ u True] ok R(1) by (metis trace_ok_def)
  next
    case False
    have "ichain J' op = ichain J op"
      unfolding ichain_def R(4) using ir by (intro arg_cong[of _ _ rev] filter_cong) auto
    then show ?thesis
      using chain_head chains_okD(1)[OF _ u False] ok R(1) by (metis trace_ok_def)
  qed
qed

lemma intern_k_nk:
  assumes "intern_k op t v P J = (r, J')"
  shows "J_nk J \<le> J_nk J' + 1"
proof (cases "walk_k (J_ir J) P (J_chain J op)")
  case None
  then have "new_k op t v J = (r, J')" using assms by (simp add: intern_k_def)
  from new_k_fields[OF this] show ?thesis by simp
qed (use assms in \<open>simp add: intern_k_def\<close>)

lemma kint_room_all:
  assumes "ir_ok J" "REF_BIAS - 0x1000 + length ks < J_nk J" "J_nins J < REF_BIAS + 0x1000"
  shows "room_all k_room lj_ir_kint ks J"
  using assms
proof (induction ks arbitrary: J)
  case (Cons k ks)
  obtain r J' where e: "lj_ir_kint k J = (r, J')" by fastforce
  have room: "ir_room J" using Cons.prems by (simp add: ir_room_def)
  note s = lj_ir_kint_spec[OF Cons.prems(1) room e]
  have "J_nk J \<le> J_nk J' + 1" using intern_k_nk e by (simp add: lj_ir_kint_def)
  then have "room_all k_room lj_ir_kint ks J'" using Cons.IH[OF s(1)] Cons.prems s(6) by simp
  moreover have "k_room k J" using room by (simp add: k_room_def)
  ultimately show ?case by (simp add: e)
qed simp

lemma kint64_room_all:
  assumes "ir_ok J" "REF_BIAS - 0x1000 + length ks < J_nk J" "J_nins J < REF_BIAS + 0x1000"
  shows "room_all k_room lj_ir_kint64 ks J"
  using assms
proof (induction ks arbitrary: J)
  case (Cons u ks)
  obtain r J' where e: "lj_ir_kint64 u J = (r, J')" by fastforce
  have room: "ir_room J" using Cons.prems by (simp add: ir_room_def)
  note s = lj_ir_kint64_spec[OF Cons.prems(1) room e]
  obtain a J1 where f: "lj_ir_k64_find u J = (a, J1)" by fastforce
  have "J_nk J1 = J_nk J" using arg_cong[OF lj_ir_k64_find_spec(3)[OF f], of J_nk] by simp
  moreover have "J_nk J1 \<le> J_nk J' + 1" using intern_k_nk e f by (simp add: lj_ir_kint64_def lj_ir_k64_def)
  ultimately have "room_all k_room lj_ir_kint64 ks J'" using Cons.IH[OF s(1)] Cons.prems s(6) by simp
  moreover have "k_room u J" using room by (simp add: k_room_def)
  ultimately show ?case by (simp add: e)
qed simp

section \<open>Properties\<close>

text \<open>C35: The slots that the emitter and the interning of constants hand out lie in the buffer of instructions, below
  resp. above everything in use, after growing or shifting it where necessary, and the limits stay valid.\<close>

theorem ir_buffer_bounds:
  assumes "buf_ok J" "ir_room J"
  shows "(case lj_ir_nextins J of (r, J') \<Rightarrow>
      buf_ok J' \<and> r = J_nins J \<and> J_irbotlim J' \<le> r \<and> r < J_irtoplim J' \<and> J_nins J' = r + 1) \<and>
    (case ir_nextk J of (r, J') \<Rightarrow>
      buf_ok J' \<and> r + 1 = J_nk J \<and> J_irbotlim J' \<le> r \<and> r < J_irtoplim J' \<and> J_nk J' = r)"
proof -
  obtain r J1 where n: "lj_ir_nextins J = (r, J1)" by fastforce
  obtain q J2 where k: "ir_nextk J = (q, J2)" by fastforce
  show ?thesis
    using nextins_buf[OF assms n] nextins_fields[OF n] nextk_buf[OF assms k] nextk_fields[OF k] assms(2)
    by (simp add: n k ir_room_def)
qed

text \<open>A trace with the primitive constants and the base pointer only.\<close>

definition ins0 :: IRIns where
  "ins0 = \<lparr>ir_op1 = 0, ir_op2 = 0, ir_t = mk_irt IRT_NIL, ir_o = IR_KPRI, ir_prev = 0, ir_val = IV_none\<rparr>"

definition trace0 :: jit_State where
  "trace0 = \<lparr>J_ir = (\<lambda>r. if r < REF_BIAS then ins0 else ins0\<lparr>ir_o := IR_BASE\<rparr>), J_nk = REF_TRUE, J_nins = REF_FIRST,
     J_irbotlim = REF_BASE - 8, J_irtoplim = REF_BASE - 8 + 32, J_chain = (\<lambda>_. 0), J_flags = 0x03ff0000,
     J_guardemit = False, J_k64 = [], J_scev = \<lparr>scev_idx = 0, scev_start = 0, scev_stop = 0, scev_dir = False\<rparr>,
     J_slot = (\<lambda>_. 0), J_bpropcache = [], J_bpropslot = 0, J_ins = ins0, J_left = ins0, J_right = ins0\<rparr>"

lemma trace0_kchain: "op \<noteq> IR_KPRI \<Longrightarrow> kchain trace0 op = []"
  by (auto simp: kchain_def trace0_def ins0_def filter_empty_conv)

lemma trace0_ok: "ir_ok trace0" "ir_room trace0"
proof -
  have "buf_ok trace0" by (simp add: buf_ok_def trace0_def ref_defs)
  moreover have "ichain trace0 op = []" for op by (simp add: ichain_def trace0_def)
  then have "chains_ok trace0"
    by (auto simp: chains_ok_def trace0_kchain unchained_def) (auto simp: trace0_def ins0_def is_kop_def)
  moreover have "ssa_ok trace0" by (auto simp: ssa_ok_def trace0_def)
  moreover have "consts_ok trace0" by (simp add: consts_ok_def trace0_kchain)
  ultimately show "ir_ok trace0" by (simp add: ir_ok_def trace_ok_def)
  show "ir_room trace0" by (simp add: ir_room_def trace0_def ref_defs)
qed

lemma trace0_buf: "buf_ok trace0"
  using trace0_ok(1) by (simp add: ir_ok_def trace_ok_def)

lemma ir_buffer_bounds_witness:
  "(case lj_ir_nextins trace0 of (r, J') \<Rightarrow>
      buf_ok J' \<and> r = J_nins trace0 \<and> J_irbotlim J' \<le> r \<and> r < J_irtoplim J' \<and> J_nins J' = r + 1) \<and>
    (case ir_nextk trace0 of (r, J') \<Rightarrow>
      buf_ok J' \<and> r + 1 = J_nk trace0 \<and> J_irbotlim J' \<le> r \<and> r < J_irtoplim J' \<and> J_nk J' = r)"
  by (rule ir_buffer_bounds[OF trace0_buf trace0_ok(2)])

text \<open>C36: Integer constants are hash-consed: whatever constants are interned in whatever order, two references are
  equal exactly if the values are. The equality rules of the fold engine compare references only.\<close>

theorem kint_identity:
  assumes "ir_ok J" "REF_BIAS - 0x1000 + length ks < J_nk J" "J_nins J < REF_BIAS + 0x1000" "i < length ks" "j < length ks"
  shows "fst (intern_all lj_ir_kint ks J) ! i = fst (intern_all lj_ir_kint ks J) ! j \<longleftrightarrow> ks ! i = ks ! j"
  by (rule kint.same_ref_iff[OF assms(1) kint_room_all[OF assms(1-3)] assms(4,5)])

lemma kint_identity_witness:
  "fst (intern_all lj_ir_kint [1, - 1, 1] trace0) ! 0 \<noteq> fst (intern_all lj_ir_kint [1, - 1, 1] trace0) ! 1"
  using kint_identity[OF trace0_ok(1), of "[1, - 1, 1]" 0 1] by (simp add: trace0_def ref_defs)

text \<open>C37: The same for 64 bit integer constants, whose values live in the chained arrays.\<close>

theorem kint64_identity:
  assumes "ir_ok J" "REF_BIAS - 0x1000 + length ks < J_nk J" "J_nins J < REF_BIAS + 0x1000" "i < length ks" "j < length ks"
  shows "fst (intern_all lj_ir_kint64 ks J) ! i = fst (intern_all lj_ir_kint64 ks J) ! j \<longleftrightarrow> ks ! i = ks ! j"
  by (rule kint64.same_ref_iff[OF assms(1) kint64_room_all[OF assms(1-3)] assms(4,5)])

lemma kint64_identity_witness:
  "fst (intern_all lj_ir_kint64 [1, 2 ^ 63, 1] trace0) ! 0 = fst (intern_all lj_ir_kint64 [1, 2 ^ 63, 1] trace0) ! 2"
  using kint64_identity[OF trace0_ok(1), of "[1, 2 ^ 63, 1]" 0 2] by (simp add: trace0_def ref_defs)

text \<open>C38: Where common-subexpression elimination is on and an instruction with the opcode and the operands that were asked for
  is in the trace, the last such instruction is returned and nothing is emitted; otherwise the instruction is emitted.
  The trace stays well formed (chains, operand order, buffer), and the result has the opcode and the operands.\<close>

theorem cse_functional:
  assumes "trace_ok J" "ir_room J" "fins_ok J" "\<not> unchained (ir_o (J_ins J))"
  shows "case lj_opt_cse J of (r, J') \<Rightarrow> trace_ok J' \<and> REF_FIRST \<le> r \<and> r < J_nins J' \<and>
    ir_o (J_ir J' r) = ir_o (J_ins J) \<and> ir_op1 (J_ir J' r) = ir_op1 (J_ins J) \<and> ir_op2 (J_ir J' r) = ir_op2 (J_ins J) \<and>
    (if J_flags J AND JIT_F_OPT_CSE \<noteq> 0 \<and> (\<exists>q. cse_same J q)
     then J' = J \<and> cse_same J r \<and> (\<forall>q > r. \<not> cse_same J q)
     else lj_ir_emit J = (r, J') \<and> r = J_nins J \<and> J_nins J' = J_nins J + 1)"
proof -
  obtain r J' where c: "lj_opt_cse J = (r, J')" by fastforce
  have "lj_opt_cse J = lj_ir_emit J" if "J_flags J AND JIT_F_OPT_CSE = 0" using that by (simp add: lj_opt_cse_cases)
  then have l: "lj_opt_cse J = (if J_flags J AND JIT_F_OPT_CSE \<noteq> 0 \<and> (\<exists>q. cse_same J q) then (GREATEST q. cse_same J q, J) else lj_ir_emit J)"
    using lj_opt_cse_search[OF assms(1,3,4)] by (cases "J_flags J AND JIT_F_OPT_CSE = 0") simp_all
  have b: "cse_same J q \<Longrightarrow> q \<le> J_nins J" for q by (simp add: cse_same_def)
  have g: "cse_same J (GREATEST q. cse_same J q) \<and> (\<forall>p > (GREATEST q. cse_same J q). \<not> cse_same J p)" if "\<exists>q. cse_same J q"
    using GreatestI_ex_nat[OF that b] Greatest_le_nat[OF _ b] by (meson not_le)
  show ?thesis
  proof (cases "J_flags J AND JIT_F_OPT_CSE \<noteq> 0 \<and> (\<exists>q. cse_same J q)")
    case True
    then have e: "J' = J" "r = (GREATEST q. cse_same J q)" using l c by simp_all
    have "cse_same J r \<and> (\<forall>q > r. \<not> cse_same J q)" unfolding e(2) by (rule g) (use True in blast)
    then show ?thesis using e(1) lj_opt_cse_spec(1-6)[OF assms c] unfolding c prod.case if_P[OF True] by (intro conjI) (elim conjE; assumption)+
  next
    case False
    then have "lj_ir_emit J = (r, J')" unfolding c[symmetric] l by (simp only: if_False)
    then show ?thesis using False emit_fields(1,2)[of J r J'] lj_opt_cse_spec(1-6)[OF assms c]
      by (simp only: c if_False prod.case)
  qed
qed

definition add_ins :: IRIns where
  "add_ins = ins0\<lparr>ir_o := IR_ADD, ir_t := mk_irt IRT_INT, ir_op1 := REF_BASE, ir_op2 := REF_TRUE\<rparr>"

lemma add_ins_ok: "fins_ok (trace0\<lparr>J_ins := add_ins\<rparr>)" "\<not> unchained (ir_o add_ins)"
  by (simp_all add: fins_ok_def add_ins_def trace0_def is_kop_def unchained_def ref_defs)

lemma trace0_trace_ok: "trace_ok trace0"
  using trace0_ok(1) by (simp add: ir_ok_def)

lemma cse_functional_witness:
  "case lj_opt_cse (trace0\<lparr>J_ins := add_ins\<rparr>) of (r, J') \<Rightarrow> trace_ok J' \<and> ir_o (J_ir J' r) = IR_ADD \<and> r = J_nins trace0"
proof -
  have "\<not> cse_same (trace0\<lparr>J_ins := add_ins\<rparr>) q" for q by (simp add: cse_same_def trace0_def)
  then show ?thesis
    using cse_functional[of "trace0\<lparr>J_ins := add_ins\<rparr>"] trace0_trace_ok trace0_ok(2) add_ins_ok
    by (auto simp: add_ins_def)
qed

text \<open>C39: Rolling back undoes what was emitted: the instructions and constants before, the next reference and the
  chain of every opcode are what they were.\<close>

theorem rollback_undoes_emit:
  assumes "trace_ok J" "emits_ok fs J" "\<not> unchained op" "r < J_nins J"
  shows "trace_ok (lj_ir_rollback (J_nins J) (emit_all fs J)) \<and>
    J_nins (lj_ir_rollback (J_nins J) (emit_all fs J)) = J_nins J \<and>
    J_ir (lj_ir_rollback (J_nins J) (emit_all fs J)) r = J_ir J r \<and>
    J_chain (lj_ir_rollback (J_nins J) (emit_all fs J)) op = J_chain J op"
  using rollback_emits[OF assms(1,2)] assms(3,4) by blast

lemma rollback_undoes_emit_witness:
  "J_chain (lj_ir_rollback (J_nins trace0) (emit_all [add_ins] trace0)) IR_ADD = 0"
  using rollback_undoes_emit[OF trace0_trace_ok, of "[add_ins]" IR_ADD REF_BASE] add_ins_ok(1) trace0_ok(2)
  by (simp add: unchained_def) (simp add: trace0_def ref_defs)

text \<open>C40: Dead code elimination removes exactly what is not needed: an instruction that a snapshot holds, that has a side
  effect, or that a kept instruction uses stays as it is (up to links), every other one becomes a no-op.\<close>

theorem dce_removes_dead_only:
  assumes "ssa_ok J" "REF_FIRST \<le> J_nins J" "J_flags J AND JIT_F_OPT_DCE \<noteq> 0"
    "\<forall>r. REF_FIRST \<le> r \<and> r < J_nins J \<longrightarrow> \<not> irt_ismarked (ir_t (J_ir J r))"
    "REF_FIRST \<le> r" "r < J_nins J"
  shows "if dce_live J snaps r then ir_core (J_ir (lj_opt_dce snaps J) r) = ir_core (J_ir J r)
    else dce_gone (J_ir (lj_opt_dce snaps J) r)"
  by (rule dce_keeps[OF assms])

definition trace1 :: jit_State where
  "trace1 = trace0\<lparr>J_ir := (J_ir trace0)(REF_FIRST := add_ins), J_nins := REF_FIRST + 1\<rparr>"

lemma dce_removes_dead_only_witness: "dce_gone (J_ir (lj_opt_dce [] trace1) REF_FIRST)"
proof -
  have n: "J_nins trace1 = REF_FIRST + 1" by (simp add: trace1_def)
  have only: "r = REF_FIRST" if "REF_FIRST \<le> r" "r < J_nins trace1" for r using that n by simp
  have at: "J_ir trace1 REF_FIRST = add_ins" by (simp add: trace1_def)
  have "ir_op1 add_ins < REF_FIRST" "ir_op2 add_ins < REF_FIRST" by (simp_all add: add_ins_def ref_defs)
  then have ssa: "ssa_ok trace1" unfolding ssa_ok_def using only at by metis
  have "lj_ir_mode IR_ADD = 0x90" by (simp add: lj_ir_mode_def IRDEF_def irm_defs)
  moreover have "irt_byte (mk_irt IRT_INT) = 19" by (simp add: irt_byte_def mk_irt_def irt_num_def IRTDEF_def)
  ultimately have "\<not> ir_sideeff add_ins" by (simp add: ir_sideeff_def add_ins_def IRM_S_def)
  then have dead: "\<not> dce_live trace1 [] REF_FIRST"
    using live_iff[OF ssa order_refl, of "[]"] only by (auto simp: n at)
  have "\<not> irt_ismarked (ir_t (J_ir trace1 r))" if "REF_FIRST \<le> r" "r < J_nins trace1" for r
  proof -
    have "r = REF_FIRST" by (rule only[OF that])
    then show ?thesis by (simp add: at add_ins_def mk_irt_def)
  qed
  moreover have "J_flags trace1 AND JIT_F_OPT_DCE \<noteq> 0" by (simp add: trace1_def trace0_def JIT_F_OPT_DCE_def)
  ultimately show ?thesis using dce_removes_dead_only[OF ssa, of REF_FIRST "[]"] dead n by simp
qed

end
