(* ===== verification/LJ_FoldSem.thy ===== *)
theory LJ_FoldSem
  imports LJ_FoldTable LJ_IRProofs LJ_StrProofs
begin

text \<open>
  The meaning of the integer instructions of a trace, as operations on machine words, and the algebra that the fold
  rules use: what the constant folder computes, how constants reassociate, how shifts compose.
\<close>

section \<open>Operations\<close>

definition sem_un :: "IROp \<Rightarrow> u32 \<Rightarrow> u32" where
  "sem_un op a = (if op = IR_NEG then - a else if op = IR_BNOT then NOT a else lj_bswap a)"

definition sem_un64 :: "IROp \<Rightarrow> u64 \<Rightarrow> u64" where
  "sem_un64 op a = (if op = IR_NEG then - a else if op = IR_BNOT then NOT a else lj_bswap64 a)"

text \<open>A shift takes its distance modulo the width; the rotations are those of the word library.\<close>

definition sem_shift :: "IROp \<Rightarrow> 'a::len word \<Rightarrow> u32 \<Rightarrow> 'a word" where
  "sem_shift op a b =
     (let n = unat b mod LENGTH('a) in
      if op = IR_BSHL then push_bit n a
      else if op = IR_BSHR then drop_bit n a
      else if op = IR_BSAR then signed_drop_bit n a
      else if op = IR_BROL then word_rotl n a
      else word_rotr n a)"

text \<open>The modulus is the floor modulus of the signed values and has no value for the divisor zero.\<close>

definition sem_bin :: "IROp \<Rightarrow> 'a::len word \<Rightarrow> 'a word \<Rightarrow> 'a word option" where
  "sem_bin op a b =
     (if op = IR_ADD then Some (a + b)
      else if op = IR_SUB then Some (a - b)
      else if op = IR_MUL then Some (a * b)
      else if op = IR_MOD then (if b = 0 then None else Some (word_of_int (sint a mod sint b)))
      else if op = IR_BAND then Some (a AND b)
      else if op = IR_BOR then Some (a OR b)
      else if op = IR_BXOR then Some (a XOR b)
      else if op = IR_MIN then Some (if sint a \<le> sint b then a else b)
      else if op = IR_MAX then Some (if sint a \<le> sint b then b else a)
      else None)"

definition un_op :: "IROp \<Rightarrow> bool" where "un_op op \<longleftrightarrow> op = IR_NEG \<or> op = IR_BNOT \<or> op = IR_BSWAP"
definition shift_op :: "IROp \<Rightarrow> bool" where "shift_op op \<longleftrightarrow> IR_BSHL \<le> op \<and> op \<le> IR_BROR"

definition bin_op :: "IROp \<Rightarrow> bool" where
  "bin_op op \<longleftrightarrow> op \<in> {IR_ADD, IR_SUB, IR_MUL, IR_MOD, IR_BAND, IR_BOR, IR_BXOR, IR_MIN, IR_MAX}"

text \<open>The operations that exist in 64 bits (the 64 bit division, modulus and power are library calls).\<close>

definition bin_op64 :: "IROp \<Rightarrow> bool" where
  "bin_op64 op \<longleftrightarrow> op \<in> {IR_ADD, IR_SUB, IR_MUL, IR_BAND, IR_BOR, IR_BXOR}"

definition int_op :: "IROp \<Rightarrow> bool" where "int_op op \<longleftrightarrow> un_op op \<or> shift_op op \<or> bin_op op"

lemmas op_defs = un_op_def shift_op_def bin_op_def bin_op64_def int_op_def

section \<open>The constant folder\<close>


lemma rol_word: "n < LENGTH('a) \<Longrightarrow> lj_rol (x :: 'a::len word) n = word_rotl n x"
proof (rule bit_word_eqI)
  fix i assume n: "n < LENGTH('a)" and i: "i < LENGTH('a)"
  show "bit (lj_rol x n) i = bit (word_rotl n x) i"
  proof (cases "n = 0")
    case True
    then show ?thesis using i by (simp add: lj_rol_def bit_simps bit_word_rotl_iff)
  next
    case False
    have m: "n mod LENGTH('a) = n" "(LENGTH('a) - n) mod LENGTH('a) = LENGTH('a) - n" using n False by (simp_all add: mod_less)
    have "(i + LENGTH('a) - n) mod LENGTH('a) = (if n \<le> i then i - n else i + LENGTH('a) - n)"
      using n i by (auto simp: mod_if)
    moreover have "\<not> bit x (LENGTH('a) - n + i)" if "n \<le> i" using that n by (auto dest: bit_imp_le_length)
    moreover have "LENGTH('a) - n + i = i + LENGTH('a) - n" using n by simp
    ultimately show ?thesis using i n by (auto simp: lj_rol_def m bit_simps bit_word_rotl_iff)
  qed
qed

lemma ror_word: "n < LENGTH('a) \<Longrightarrow> lj_ror (x :: 'a::len word) n = word_rotr n x"
proof (rule bit_word_eqI)
  fix i assume n: "n < LENGTH('a)" and i: "i < LENGTH('a)"
  show "bit (lj_ror x n) i = bit (word_rotr n x) i"
  proof (cases "n = 0")
    case True
    then show ?thesis using i by (simp add: lj_ror_def bit_simps bit_word_rotr_iff)
  next
    case False
    have m: "n mod LENGTH('a) = n" "(LENGTH('a) - n) mod LENGTH('a) = LENGTH('a) - n" using n False by (simp_all add: mod_less)
    have "(i + n) mod LENGTH('a) = (if i + n < LENGTH('a) then i + n else i + n - LENGTH('a))"
      using n i by (auto simp: mod_if)
    moreover have "\<not> bit x (n + i)" if "\<not> i + n < LENGTH('a)" using that by (auto dest: bit_imp_le_length)
    moreover have "i - (LENGTH('a) - n) = i + n - LENGTH('a)" using n by simp
    ultimately show ?thesis using i n by (auto simp: lj_ror_def m bit_simps bit_word_rotr_iff add.commute)
  qed
qed

lemma and31: "unat ((k :: u32) AND 31) = unat k mod 32"
proof -
  have "k AND 31 = take_bit 5 k" by (simp add: take_bit_eq_mask mask_eq_exp_minus_1)
  then show ?thesis by (simp only: unsigned_take_bit_eq) (simp add: take_bit_eq_mod)
qed

lemma and63: "unat ((k :: u32) AND 63) = unat k mod 64"
proof -
  have "k AND 63 = take_bit 6 k" by (simp add: take_bit_eq_mask mask_eq_exp_minus_1)
  then show ?thesis by (simp only: unsigned_take_bit_eq) (simp add: take_bit_eq_mod)
qed

lemma sint_inj: "sint a = sint b \<Longrightarrow> a = b"
  by (metis of_int_sint scast_id)

lemma sint_eq [simp]: "sint a = sint b \<longleftrightarrow> a = b"
  by (auto dest: sint_inj)

lemma sint_le_antisym: "sint a \<le> sint b \<Longrightarrow> sint b \<le> sint a \<Longrightarrow> a = b"
  by (rule sint_inj) simp

lemma word_of_sint: "word_of_int (sint a) = a"
  by (simp add: scast_id)

lemma kfold_intop_bin:
  assumes "sem_bin op a b = Some c"
  shows "kfold_intop a b op = c"
proof -
  have "lj_vm_modi a b = word_of_int (sint a mod sint b)" if "b \<noteq> 0"
    using vm_modi_floor[OF that, of a] word_of_sint by metis
  moreover have "a = b" if "sint a = sint b" using that by (rule sint_inj)
  ultimately show ?thesis using assms by (auto simp: sem_bin_def kfold_intop_def split: if_splits)
qed

lemma kfold_intop_shift: "shift_op op \<Longrightarrow> kfold_intop a b op = sem_shift op a b"
  by (auto simp: shift_op_def kfold_intop_def sem_shift_def Let_def and31 rol_word ror_word)

lemma kfold_intop_neg: "kfold_intop a b IR_NEG = - a"
  by (simp add: kfold_intop_def)

lemma kfold_int64op_bin: "bin_op64 op \<Longrightarrow> sem_bin op a b = Some (kfold_int64op a b op)"
  by (auto simp: bin_op64_def kfold_int64op_def sem_bin_def)

lemma shift64_sem: "shift_op op \<Longrightarrow> lj_carith_shift64 a (b AND 63) (op - IR_BSHL) = sem_shift op a b"
proof -
  assume "shift_op op"
  then have "op \<in> {36, 37, 38, 39, 40}" by (auto simp: shift_op_def)
  moreover have "unat (b AND 63 AND 63) = unat b mod 64" by (simp add: and.assoc and63)
  ultimately show ?thesis
    by (auto simp: lj_carith_shift64_def sem_shift_def Let_def rol_word ror_word lj_carith_shl64_def lj_carith_shr64_def
        lj_carith_sar64_def lj_carith_rol64_def lj_carith_ror64_def)
qed

section \<open>Algebra\<close>

definition assoc_op :: "IROp \<Rightarrow> bool" where
  "assoc_op op \<longleftrightarrow> op \<in> {IR_ADD, IR_MUL, IR_BAND, IR_BOR, IR_BXOR, IR_MIN, IR_MAX}"


lemma sem_simps [simp]:
  "sem_bin IR_ADD a b = Some (a + b)" "sem_bin IR_SUB a b = Some (a - b)" "sem_bin IR_MUL a b = Some (a * b)"
  "sem_bin IR_BAND a b = Some (a AND b)" "sem_bin IR_BOR a b = Some (a OR b)" "sem_bin IR_BXOR a b = Some (a XOR b)"
  "sem_bin IR_MIN a b = Some (if sint a \<le> sint b then a else b)"
  "sem_bin IR_MAX a b = Some (if sint a \<le> sint b then b else a)"
  "sem_bin IR_MOD a b = (if b = 0 then None else Some (word_of_int (sint a mod sint b)))"
  by (simp_all add: sem_bin_def)

lemma sem_assoc:
  assumes "assoc_op op" "sem_bin op x a = Some y" "sem_bin op y b = Some z" "sem_bin op a b = Some c"
  shows "sem_bin op x c = Some z"
proof -
  consider "op \<in> {IR_ADD, IR_MUL, IR_BAND, IR_BOR, IR_BXOR}" | "op \<in> {IR_MIN, IR_MAX}"
    using assms(1) by (auto simp: assoc_op_def)
  then show ?thesis
  proof cases
    case 1
    then show ?thesis using assms(2-) by (auto simp: add.assoc mult.assoc and.assoc or.assoc xor.assoc)
  next
    case 2
    then show ?thesis using assms(2-) by (auto split: if_splits intro: sint_le_antisym)
  qed
qed

lemma sem_comm: "assoc_op op \<Longrightarrow> sem_bin op a b = sem_bin op b a"
  unfolding assoc_op_def by (auto simp: add.commute mult.commute and.commute or.commute xor.commute intro: sint_le_antisym sint_inj)

lemma sem_assoc_defined: "assoc_op op \<Longrightarrow> \<exists>c. sem_bin op a b = Some c"
  by (auto simp: assoc_op_def)

definition idem_op :: "IROp \<Rightarrow> bool" where
  "idem_op op \<longleftrightarrow> op \<in> {IR_BAND, IR_BOR, IR_MIN, IR_MAX}"

lemma sem_dup: "idem_op op \<Longrightarrow> sem_bin op a a = Some a"
  by (auto simp: idem_op_def)

lemma sem_dup2:
  assumes "idem_op op" "sem_bin op a b = Some y"
  shows "sem_bin op y a = Some y" "sem_bin op y b = Some y"
proof -
  have "(a AND b) AND a = a AND b" "(a AND b) AND b = a AND b" "(a OR b) OR a = a OR b" "(a OR b) OR b = a OR b"
    by (auto simp: bit_simps intro!: bit_word_eqI)
  then show "sem_bin op y a = Some y" "sem_bin op y b = Some y"
    using assms unfolding idem_op_def by (auto split: if_splits intro: sint_le_antisym sint_inj)
qed

lemma sem_absorb:
  assumes "op = IR_MAX \<and> op' = IR_MIN \<or> op = IR_MIN \<and> op' = IR_MAX" "sem_bin op' a b = Some y"
  shows "sem_bin op y a = Some a" "sem_bin op y b = Some b" "sem_bin op a y = Some a" "sem_bin op b y = Some b"
  using assms by (auto split: if_splits intro: sint_le_antisym sint_inj)

section \<open>Shifts and rotations\<close>

lemma rotr_cong: "m mod LENGTH('a) = n mod LENGTH('a) \<Longrightarrow> word_rotr m (a :: 'a::len word) = word_rotr n a"
  using mod_add_cong[OF refl, of m "LENGTH('a)" n] by (intro bit_word_eqI) (auto simp: bit_word_rotr_iff)

lemma rol_rotr: "sem_shift IR_BROL (a :: 'a::len word) b = word_rotr (LENGTH('a) - unat b mod LENGTH('a)) a"
  by (simp add: sem_shift_def Let_def word_rotl_eq_word_rotr)

lemma ror_rotr: "sem_shift IR_BROR (a :: 'a::len word) b = word_rotr (unat b) a"
  by (simp add: sem_shift_def Let_def) (rule rotr_cong, simp)

lemma shift_zero: "shift_op op \<Longrightarrow> unat b mod LENGTH('a) = 0 \<Longrightarrow> sem_shift op (a :: 'a::len word) b = a"
  by (auto simp: sem_shift_def Let_def bit_word_rotl_iff bit_word_rotr_iff intro!: bit_word_eqI)

lemma shift_cong: "unat b mod LENGTH('a) = unat c mod LENGTH('a) \<Longrightarrow> sem_shift op (a :: 'a::len word) b = sem_shift op a c"
  by (simp add: sem_shift_def)

lemma shift_of_0: "sem_shift op 0 b = 0"
  by (simp add: sem_shift_def Let_def)

lemma shift_of_m1: "op = IR_BSAR \<or> op = IR_BROL \<or> op = IR_BROR \<Longrightarrow> sem_shift op (- 1) b = - 1"
  by (auto simp: sem_shift_def Let_def bit_simps bit_word_rotl_iff bit_word_rotr_iff intro!: bit_word_eqI)

lemma shl1_add: "unat b mod LENGTH('a) = 1 \<Longrightarrow> sem_shift IR_BSHL (a :: 'a::len word) b = a + a"
  by (simp add: sem_shift_def Let_def push_bit_eq_mult)

lemma ror_rol_neg:
  assumes "(unat b + unat c) mod LENGTH('a) = 0"
  shows "sem_shift IR_BROR (a :: 'a::len word) b = sem_shift IR_BROL a c"
proof -
  define x y where "x = unat b mod LENGTH('a)" "y = unat c mod LENGTH('a)"
  have "x < LENGTH('a)" "y < LENGTH('a)" "(x + y) mod LENGTH('a) = 0" using assms by (simp_all add: x_y_def mod_add_eq)
  then have "x + y = 0 \<or> x + y = LENGTH('a)" by (auto simp: mod_if split: if_splits)
  then have "x = 0 \<and> y = 0 \<or> x = LENGTH('a) - y" by auto
  then have "x mod LENGTH('a) = (LENGTH('a) - y) mod LENGTH('a)" by auto
  then have "unat b mod LENGTH('a) = (LENGTH('a) - unat c mod LENGTH('a)) mod LENGTH('a)" by (simp add: x_y_def)
  then show ?thesis unfolding rol_rotr ror_rotr by (rule rotr_cong)
qed

lemma shift_band: "op \<in> {IR_BSHL, IR_BSHR, IR_BROL, IR_BROR} \<Longrightarrow> sem_shift op (a AND b) c = sem_shift op a c AND sem_shift op b c"
  by (auto simp: sem_shift_def Let_def word_rot_logs push_bit_and drop_bit_and)

lemma shift_masked:
  "op = IR_BSHL \<or> op = IR_BSHR \<Longrightarrow> sem_shift op a b AND sem_shift op (- 1) b = sem_shift op a b"
  using shift_band[of op a "- 1" b] by auto

lemma shift_shift:
  assumes "op \<in> {IR_BSHL, IR_BSHR, IR_BSAR}"
    "unat d mod LENGTH('a) = unat b mod LENGTH('a) + unat c mod LENGTH('a)"
  shows "sem_shift op (sem_shift op (a :: 'a::len word) b) c = sem_shift op a d"
  using assms(1) unfolding sem_shift_def Let_def assms(2)
  by (auto simp: add.commute)

lemma shift_over:
  assumes "LENGTH('a) \<le> unat b mod LENGTH('a) + unat c mod LENGTH('a)" "op = IR_BSHL \<or> op = IR_BSHR"
  shows "sem_shift op (sem_shift op (a :: 'a::len word) b) c = 0"
  using assms
  by (auto simp: sem_shift_def Let_def bit_simps add.commute intro!: bit_word_eqI dest: bit_imp_le_length)

lemma sar_over:
  assumes "LENGTH('a) \<le> unat b mod LENGTH('a) + unat c mod LENGTH('a)" "unat d mod LENGTH('a) = LENGTH('a) - 1"
  shows "sem_shift IR_BSAR (sem_shift IR_BSAR (a :: 'a::len word) b) c = sem_shift IR_BSAR a d"
proof -
  have "signed_drop_bit n a = signed_drop_bit (LENGTH('a) - 1) a" if "LENGTH('a) - 1 \<le> n" for n
  proof (rule bit_word_eqI)
    fix i assume "i < LENGTH('a)"
    then show "bit (signed_drop_bit n a) i = bit (signed_drop_bit (LENGTH('a) - 1) a) i"
      using that by (cases "i = 0"; cases "LENGTH('a) - n \<le> i"; cases "n = LENGTH('a) - 1") (auto simp: bit_signed_drop_bit_iff)
  qed
  from this[of "unat b mod LENGTH('a) + unat c mod LENGTH('a)"] assms
  show ?thesis by (simp add: sem_shift_def Let_def add.commute)
qed

lemma rot_rot:
  assumes "op = IR_BROL \<or> op = IR_BROR" "unat d mod LENGTH('a) = (unat b mod LENGTH('a) + unat c mod LENGTH('a)) mod LENGTH('a)"
  shows "sem_shift op (sem_shift op (a :: 'a::len word) b) c = sem_shift op a d"
  using assms(1)
proof
  assume "op = IR_BROR"
  then show ?thesis unfolding ror_rotr word_rotr_word_rotr_eq
    using assms(2) by (simp add: ror_rotr word_rotr_word_rotr_eq mod_add_eq add.commute) (intro rotr_cong, simp add: mod_add_eq)
next
  let ?L = "LENGTH('a)"
  assume "op = IR_BROL"
  have "(?L - unat c mod ?L + (?L - unat b mod ?L)) mod ?L = (?L - unat d mod ?L) mod ?L"
  proof -
    define x y where "x = unat b mod ?L" "y = unat c mod ?L"
    have "x < ?L" "y < ?L" "0 < ?L" by (simp_all add: x_y_def)
    then have "(?L - y + (?L - x)) mod ?L = (?L - (x + y) mod ?L) mod ?L"
    proof (cases "x + y < ?L")
      case True
      then have "?L - y + (?L - x) = (?L - (x + y)) + ?L" using \<open>x < ?L\<close> \<open>y < ?L\<close> by linarith
      then show ?thesis using True by (simp only: mod_add_self2 mod_less)
    next
      case False
      then have "(x + y) mod ?L = x + y - ?L" "?L - y + (?L - x) = ?L - (x + y - ?L)"
        using \<open>x < ?L\<close> \<open>y < ?L\<close> by (simp_all add: mod_if)
      then show ?thesis by simp
    qed
    then show ?thesis using assms(2) by (simp add: x_y_def)
  qed
  then show ?thesis using \<open>op = IR_BROL\<close> by (simp add: rol_rotr word_rotr_word_rotr_eq) (intro rotr_cong, simp)
qed

section \<open>Strength reduction\<close>

lemma bit_word_nat: "bit (word_of_nat n :: 'a::len word) i \<longleftrightarrow> i < LENGTH('a) \<and> bit n i"
  by transfer (simp add: bit_take_bit_iff bit_of_nat_iff)

lemma pow2_test:
  assumes "0 < n" "(word_of_nat n :: 'a::len word) AND (word_of_nat n - 1) = 0" "n < 2 ^ LENGTH('a)"
  shows "n = 2 ^ lj_fls_nat n"
proof (rule ccontr)
  let ?e = "lj_fls_nat n"
  note b = lj_fls_nat_bounds[OF assms(1)]
  assume ne: "n \<noteq> 2 ^ ?e"
  have lt: "2 ^ ?e < (2 :: nat) ^ LENGTH('a)" using b assms(3) by linarith
  then have e: "?e < LENGTH('a)" by simp
  have w: "word_of_nat n - 1 = (word_of_nat (n - 1) :: 'a word)" using assms(1) by (simp add: of_nat_diff)
  have top: "bit m ?e" if "2 ^ ?e \<le> m" "m < 2 ^ Suc ?e" for m :: nat
  proof -
    have "m div 2 ^ ?e = 1" using that by (intro div_nat_eqI) auto
    then show ?thesis by (simp add: bit_iff_odd)
  qed
  have "bit n ?e" "bit (n - 1) ?e" using b ne by (auto intro!: top)
  then have "bit ((word_of_nat n :: 'a word) AND word_of_nat (n - 1)) ?e"
    using e by (simp add: bit_and_iff bit_word_nat)
  then show False using assms(2) w by simp
qed

lemma pow2_u32:
  assumes "k \<noteq> 0" "k AND (k - 1) = (0 :: u32)"
  shows "unat k = 2 ^ lj_fls k" "lj_fls k < 32"
proof -
  have k: "0 < unat k" "unat k < 2 ^ 32" using assms(1) unsigned_less[of k, where 'a = nat] by (auto simp: word_greater_zero_iff unat_gt_0)
  show u: "unat k = 2 ^ lj_fls k"
    unfolding lj_fls_def by (rule pow2_test[where 'a = 32]) (use k assms in simp_all)
  then have "(2 :: nat) ^ lj_fls k < 2 ^ 32" using k(2) by (simp only:)
  then show "lj_fls k < 32" by (rule power_less_imp_less_exp[rotated]) simp
qed

lemma fls_word: "lj_fls k < 32 \<Longrightarrow> unat (word_of_nat (lj_fls k) :: u32) mod 32 = lj_fls k"
  by (simp add: unat_of_nat)

lemma word_nat_cast: "word_of_nat (unat k) = (k :: 'a::len word)"
  by simp

lemma mul_pow2:
  assumes "k \<noteq> 0" "k AND (k - 1) = (0 :: u32)"
  shows "x * k = sem_shift IR_BSHL x (word_of_nat (lj_fls k))"
proof -
  note p = pow2_u32[OF assms]
  have "k = 2 ^ lj_fls k" using p(1) using word_nat_cast[of k] by simp
  then show ?thesis using fls_word[OF p(2)] by (simp add: sem_shift_def Let_def push_bit_eq_mult)
qed

lemma scast_pow2:
  assumes "k \<noteq> 0" "k AND (k - 1) = (0 :: u32)" "x < 0x80000000" "ucast x = k"
  shows "(y :: u64) * x = sem_shift IR_BSHL y (word_of_nat (lj_fls k))"
proof -
  note p = pow2_u32[OF assms(1,2)]
  have "unat x = unat k"
  proof -
    have "unat x < 2 ^ 31" using assms(3) by (simp add: word_less_nat_alt)
    then show ?thesis using assms(4) by (auto simp: unsigned_ucast_eq take_bit_eq_mod)
  qed
  then have "x = 2 ^ lj_fls k" using p(1) word_nat_cast[of x] by simp
  moreover have "unat (word_of_nat (lj_fls k) :: u32) mod 64 = lj_fls k" using p(2) by (simp add: unat_of_nat)
  ultimately show ?thesis by (simp add: sem_shift_def Let_def push_bit_eq_mult)
qed

lemma mod_pow2:
  assumes "0 < sint k" "k AND (k - 1) = (0 :: u32)"
  shows "sem_bin IR_MOD x k = Some (x AND (k - 1))"
proof -
  have k0: "k \<noteq> 0" using assms(1) by auto
  note p = pow2_u32[OF k0 assms(2)]
  let ?e = "lj_fls k"
  have k: "k = 2 ^ ?e" using p(1) word_nat_cast[of k] by simp
  have "sint k = uint k" using assms(1) uint_bounded[of k] by (auto simp: sint_u32 split: if_splits)
  also have "\<dots> = 2 ^ ?e" using arg_cong[OF p(1), of int] by simp
  finally have sk: "sint k = 2 ^ ?e" .
  have k1: "k - 1 = mask ?e" by (simp add: mask_eq_exp_minus_1 flip: k)
  have "word_of_int (sint x mod 2 ^ ?e) = take_bit ?e x"
    using p(2) by (simp flip: take_bit_eq_mod take_bit_of_int)
  then have "word_of_int (sint x mod 2 ^ ?e) = x AND mask ?e" by (simp add: take_bit_eq_mask)
  then show ?thesis using k0 by (simp add: sk k1)
qed

section \<open>Byte swaps\<close>

lemma bswap_bswap: "lj_bswap (lj_bswap w) = w"
proof (rule bit_word_eqI)
  fix n assume n: "n < LENGTH(32)"
  have "n div 8 < 4" using n by simp
  define q r where "q = n div 8" "r = n mod 8"
  have n': "n = q * 8 + r" "r < 8" "q < 4" using n by (simp_all add: q_r_def)
  have "24 - q * 8 + r < 32" "(24 - q * 8 + r) div 8 = 3 - q" "(24 - q * 8 + r) mod 8 = r"
  proof -
    have "24 - q * 8 + r = (3 - q) * 8 + r" using n' by simp
    then show "24 - q * 8 + r < 32" "(24 - q * 8 + r) div 8 = 3 - q" "(24 - q * 8 + r) mod 8 = r" using n' by simp_all
  qed
  moreover have "24 - (3 - q) * 8 + r = n" using n' by simp
  ultimately show "bit (lj_bswap (lj_bswap w)) n = bit w n"
    using n by (simp add: bswap_bit flip: q_r_def)
qed

lemma bswap64_halves:
  "(ucast (lj_bswap64 x) :: u32) = lj_bswap (ucast (drop_bit 32 x))"
  "(ucast (drop_bit 32 (lj_bswap64 x)) :: u32) = lj_bswap (ucast x)"
proof -
  have n: "\<not> bit (w :: u32) k" if "32 \<le> k" for w k using that by (auto dest: bit_imp_le_length)
  show "(ucast (lj_bswap64 x) :: u32) = lj_bswap (ucast (drop_bit 32 x))"
    by (rule bit_word_eqI) (simp add: lj_bswap64_def bit_simps)
  show "(ucast (drop_bit 32 (lj_bswap64 x)) :: u32) = lj_bswap (ucast x)"
    by (rule bit_word_eqI) (simp add: lj_bswap64_def bit_simps n)
qed

lemma bswap64_bswap64: "lj_bswap64 (lj_bswap64 w) = w"
proof -
  have "push_bit 32 (ucast (ucast (drop_bit 32 w) :: u32)) OR ucast (ucast w :: u32) = w"
    by (rule bit_word_eqI) (auto simp: bit_simps)
  then show ?thesis unfolding lj_bswap64_def[of "lj_bswap64 w"] by (simp add: bswap64_halves bswap_bswap)
qed
end
