(* ===== verification/LJ_FoldSound.thy ===== *)
theory LJ_FoldSound
  imports LJ_FoldSem
begin

text \<open>
  Soundness of the fold engine on integer arithmetic. An assignment of values to the references of a trace is
  consistent when every integer instruction has the value of its operation on the values of its operands. Every rule that
  can apply to an integer instruction keeps the assignment consistent (extending it to the new constants and
  instructions) and replaces the instruction by one with the same value; hence so does the engine as a whole.
\<close>

section \<open>Values of references and instructions\<close>

datatype fval = V32 u32 | V64 u64

type_synonym vals = "nat \<Rightarrow> fval option"

text \<open>
  A few rules leave the 32 bit constant zero as an operand of a 64 bit addition, subtraction or negation, where it
  stands for the 64 bit zero.
\<close>

definition z32 :: "vals \<Rightarrow> nat \<Rightarrow> bool" where
  "z32 \<rho> r \<longleftrightarrow> irref_isk r \<and> \<rho> r = Some (V32 0)"

definition rd32 :: "vals \<Rightarrow> nat \<Rightarrow> u32 option" where
  "rd32 \<rho> r = (case \<rho> r of Some (V32 a) \<Rightarrow> Some a | _ \<Rightarrow> None)"

definition rd64 :: "vals \<Rightarrow> nat \<Rightarrow> u64 option" where
  "rd64 \<rho> r = (case \<rho> r of Some (V64 a) \<Rightarrow> Some a | _ \<Rightarrow> None)"

definition rdz :: "vals \<Rightarrow> nat \<Rightarrow> u64 option" where
  "rdz \<rho> r = (if z32 \<rho> r then Some 0 else rd64 \<rho> r)"

definition ev32 :: "vals \<Rightarrow> IRIns \<Rightarrow> u32 option" where
  "ev32 \<rho> i =
     (case rd32 \<rho> (ir_op1 i) of
        None \<Rightarrow> None
      | Some a \<Rightarrow>
          if un_op (ir_o i) then Some (sem_un (ir_o i) a)
          else case rd32 \<rho> (ir_op2 i) of
                 None \<Rightarrow> None
               | Some b \<Rightarrow> if shift_op (ir_o i) then Some (sem_shift (ir_o i) a b) else sem_bin (ir_o i) a b)"

definition zop :: "IROp \<Rightarrow> bool" where "zop op \<longleftrightarrow> op = IR_ADD \<or> op = IR_SUB \<or> op = IR_NEG"

definition ev64 :: "vals \<Rightarrow> IRIns \<Rightarrow> fval option" where
  "ev64 \<rho> i =
     (let o1 = ir_op1 i; o2 = ir_op2 i; op = ir_o i in
      if zop op \<and> z32 \<rho> o1 \<and> (op = IR_NEG \<or> z32 \<rho> o2) then Some (V32 0)
      else case (if zop op then rdz \<rho> o1 else rd64 \<rho> o1) of
             None \<Rightarrow> None
           | Some a \<Rightarrow>
               if un_op op then Some (V64 (sem_un64 op a))
               else if shift_op op then map_option (\<lambda>b. V64 (sem_shift op a b)) (rd32 \<rho> o2)
               else if bin_op64 op then
                 (case (if zop op then rdz \<rho> o2 else rd64 \<rho> o2) of
                    None \<Rightarrow> None | Some b \<Rightarrow> map_option V64 (sem_bin op a b))
               else None)"

definition ev :: "vals \<Rightarrow> IRIns \<Rightarrow> fval option" where
  "ev \<rho> i =
     (if irt_type (ir_t i) = IRT_INT then map_option V32 (ev32 \<rho> i)
      else if irt_type (ir_t i) = IRT_I64 \<or> irt_type (ir_t i) = IRT_U64 then ev64 \<rho> i
      else None)"

definition wide :: "IRIns \<Rightarrow> bool" where
  "wide i \<longleftrightarrow> irt_type (ir_t i) \<noteq> IRT_INT"

text \<open>Equality of values, up to the width of a zero for 64 bit instructions.\<close>

definition vsim :: "bool \<Rightarrow> fval \<Rightarrow> fval \<Rightarrow> bool" where
  "vsim w v v' \<longleftrightarrow> v = v' \<or> w \<and> v \<in> {V32 0, V64 0} \<and> v' \<in> {V32 0, V64 0}"

lemma vsim_refl [simp]: "vsim w v v" by (simp add: vsim_def)

lemma vsim_trans: "vsim w u v \<Longrightarrow> vsim w v x \<Longrightarrow> vsim w u x"
  by (auto simp: vsim_def)

lemma vsim_sym: "vsim w u v \<Longrightarrow> vsim w v u"
  by (auto simp: vsim_def)

section \<open>Consistent assignments\<close>

definition fold_ok :: "vals \<Rightarrow> jit_State \<Rightarrow> bool" where
  "fold_ok \<rho> J \<longleftrightarrow> ir_ok J \<and>
     (\<forall>r k. kint_val J r = Some k \<longrightarrow> \<rho> r = Some (V32 k)) \<and>
     (\<forall>r u. kint64_val J r = Some u \<longrightarrow> \<rho> r = Some (V64 u)) \<and>
     (\<forall>r. \<rho> r \<noteq> None \<longrightarrow> J_nk J \<le> r \<and> r < J_nins J \<and> r \<noteq> REF_BASE \<and>
        (r < REF_BIAS \<longrightarrow> ir_o (J_ir J r) = IR_KINT \<or> ir_o (J_ir J r) = IR_KINT64)) \<and>
     (\<forall>r. REF_FIRST \<le> r \<and> r < J_nins J \<and> int_op (ir_o (J_ir J r)) \<longrightarrow>
        J_nk J \<le> ir_op1 (J_ir J r) \<and> (un_op (ir_o (J_ir J r)) \<or> J_nk J \<le> ir_op2 (J_ir J r)) \<and>
        \<rho> r = ev \<rho> (J_ir J r) \<and>
        (\<rho> (ir_op1 (J_ir J r)) \<noteq> None \<and> (un_op (ir_o (J_ir J r)) \<or> \<rho> (ir_op2 (J_ir J r)) \<noteq> None) \<longrightarrow>
           ev \<rho> (J_ir J r) \<noteq> None))"

text \<open>The fold state is not part of the trace.\<close>

lemma k64_field [simp]:
  "k64_value (J\<lparr>J_ins := x\<rparr>) = k64_value J" "k64_value (J\<lparr>J_left := x\<rparr>) = k64_value J"
  "k64_value (J\<lparr>J_right := x\<rparr>) = k64_value J"
  by (auto simp: fun_eq_iff k64_value_def split: KAddr.split)

lemma fold_field [simp]:
  "ir_k64 (J\<lparr>J_ins := x\<rparr>) = ir_k64 J" "ir_k64 (J\<lparr>J_left := x\<rparr>) = ir_k64 J" "ir_k64 (J\<lparr>J_right := x\<rparr>) = ir_k64 J"
  "ir_ok (J\<lparr>J_ins := x\<rparr>) = ir_ok J" "ir_ok (J\<lparr>J_left := x\<rparr>) = ir_ok J" "ir_ok (J\<lparr>J_right := x\<rparr>) = ir_ok J"
  "kint_val (J\<lparr>J_ins := x\<rparr>) = kint_val J" "kint_val (J\<lparr>J_left := x\<rparr>) = kint_val J"
  "kint_val (J\<lparr>J_right := x\<rparr>) = kint_val J"
  "kint64_val (J\<lparr>J_ins := x\<rparr>) = kint64_val J" "kint64_val (J\<lparr>J_left := x\<rparr>) = kint64_val J"
  "kint64_val (J\<lparr>J_right := x\<rparr>) = kint64_val J"
  "ir_room (J\<lparr>J_ins := x\<rparr>) = ir_room J" "ir_room (J\<lparr>J_left := x\<rparr>) = ir_room J" "ir_room (J\<lparr>J_right := x\<rparr>) = ir_room J"
proof -
  show k: "ir_k64 (J\<lparr>J_ins := x\<rparr>) = ir_k64 J" "ir_k64 (J\<lparr>J_left := x\<rparr>) = ir_k64 J" "ir_k64 (J\<lparr>J_right := x\<rparr>) = ir_k64 J"
    by (auto simp: fun_eq_iff ir_k64_def split: IRVal.split)
  show "ir_room (J\<lparr>J_ins := x\<rparr>) = ir_room J" "ir_room (J\<lparr>J_left := x\<rparr>) = ir_room J" "ir_room (J\<lparr>J_right := x\<rparr>) = ir_room J"
    by (simp_all add: ir_room_def)
  have c: "ichain (J\<lparr>J_ins := x\<rparr>) op = ichain J op" "kchain (J\<lparr>J_ins := x\<rparr>) op = kchain J op"
    "ichain (J\<lparr>J_left := x\<rparr>) op = ichain J op" "kchain (J\<lparr>J_left := x\<rparr>) op = kchain J op"
    "ichain (J\<lparr>J_right := x\<rparr>) op = ichain J op" "kchain (J\<lparr>J_right := x\<rparr>) op = kchain J op" for op
    by (simp_all add: kchain_def ichain_def)
  then show "ir_ok (J\<lparr>J_ins := x\<rparr>) = ir_ok J" "ir_ok (J\<lparr>J_left := x\<rparr>) = ir_ok J" "ir_ok (J\<lparr>J_right := x\<rparr>) = ir_ok J"
    by (simp_all add: ir_ok_def consts_ok_def trace_ok_def buf_ok_def chains_ok_def ssa_ok_def)
  show "kint_val (J\<lparr>J_ins := x\<rparr>) = kint_val J" "kint_val (J\<lparr>J_left := x\<rparr>) = kint_val J"
    "kint_val (J\<lparr>J_right := x\<rparr>) = kint_val J"
    "kint64_val (J\<lparr>J_ins := x\<rparr>) = kint64_val J" "kint64_val (J\<lparr>J_left := x\<rparr>) = kint64_val J"
    "kint64_val (J\<lparr>J_right := x\<rparr>) = kint64_val J"
    by (simp_all add: fun_eq_iff kint_val_def kint64_val_def k c)
qed

lemma fold_ok_field [simp]:
  "fold_ok \<rho> (J\<lparr>J_ins := x\<rparr>) = fold_ok \<rho> J" "fold_ok \<rho> (J\<lparr>J_left := x\<rparr>) = fold_ok \<rho> J"
  "fold_ok \<rho> (J\<lparr>J_right := x\<rparr>) = fold_ok \<rho> J"
  by (simp_all add: fold_ok_def)

lemma val_facts:
  assumes ok: "fold_ok \<rho> J" and v: "\<rho> r = Some w"
  shows val_range: "J_nk J \<le> r" "r < J_nins J" "r \<noteq> REF_BASE"
    and val_const: "r < REF_BIAS \<Longrightarrow> ir_o (J_ir J r) = IR_KINT \<or> ir_o (J_ir J r) = IR_KINT64"
    and val_kop: "is_kop (ir_o (J_ir J r)) \<Longrightarrow> r < REF_BIAS"
    and val_kint: "ir_o (J_ir J r) = IR_KINT \<Longrightarrow> w = V32 (ins_i (J_ir J r))"
    and val_kint64: "ir_o (J_ir J r) = IR_KINT64 \<Longrightarrow> w = V64 (ir_k64 J (J_ir J r))"
    and val_int: "int_op (ir_o (J_ir J r)) \<Longrightarrow> ev \<rho> (J_ir J r) = Some w"
    and val_int_ins: "int_op (ir_o (J_ir J r)) \<Longrightarrow> REF_FIRST \<le> r"
proof -
  have *: "J_nk J \<le> r \<and> r < J_nins J \<and> r \<noteq> REF_BASE \<and>
        (r < REF_BIAS \<longrightarrow> ir_o (J_ir J r) = IR_KINT \<or> ir_o (J_ir J r) = IR_KINT64)"
    using ok v unfolding fold_ok_def by blast
  then show "J_nk J \<le> r" "r < J_nins J" "r \<noteq> REF_BASE"
    "r < REF_BIAS \<Longrightarrow> ir_o (J_ir J r) = IR_KINT \<or> ir_o (J_ir J r) = IR_KINT64" by blast+
  have ch: "chains_ok J" using ok by (simp add: fold_ok_def ir_ok_def trace_ok_def)
  have first: "REF_FIRST \<le> r" if "\<not> r < REF_BIAS" using that * by (simp add: ref_defs)
  show k: "r < REF_BIAS" if "is_kop (ir_o (J_ir J r))"
    using that first ch * unfolding chains_ok_def by blast
  show "w = V32 (ins_i (J_ir J r))" if o: "ir_o (J_ir J r) = IR_KINT"
  proof -
    have "r < REF_BIAS" using k o by simp
    then have "kint_val J r = Some (ins_i (J_ir J r))" using o * by (simp add: kint_val_def set_kchain)
    then show ?thesis using ok v by (simp add: fold_ok_def)
  qed
  show "w = V64 (ir_k64 J (J_ir J r))" if o: "ir_o (J_ir J r) = IR_KINT64"
  proof -
    have "r < REF_BIAS" using k o by simp
    then have "kint64_val J r = Some (ir_k64 J (J_ir J r))" using o * by (simp add: kint64_val_def set_kchain)
    then show ?thesis using ok v by (simp add: fold_ok_def)
  qed
  show f: "REF_FIRST \<le> r" if "int_op (ir_o (J_ir J r))"
    using that * first by (auto simp: op_defs)
  show "ev \<rho> (J_ir J r) = Some w" if "int_op (ir_o (J_ir J r))"
    using that * f ok v by (simp add: fold_ok_def)
qed

lemma fold_ok_int:
  assumes "fold_ok \<rho> J" "REF_FIRST \<le> r" "r < J_nins J" "int_op (ir_o (J_ir J r))"
  shows "J_nk J \<le> ir_op1 (J_ir J r)" "un_op (ir_o (J_ir J r)) \<or> J_nk J \<le> ir_op2 (J_ir J r)" "\<rho> r = ev \<rho> (J_ir J r)"
    "\<rho> (ir_op1 (J_ir J r)) \<noteq> None \<Longrightarrow> un_op (ir_o (J_ir J r)) \<or> \<rho> (ir_op2 (J_ir J r)) \<noteq> None \<Longrightarrow> ev \<rho> (J_ir J r) \<noteq> None"
  using assms unfolding fold_ok_def by blast+

text \<open>The evaluation of an instruction depends on the values of its operands only.\<close>

lemma ev_cong:
  assumes "\<rho> (ir_op1 i) = \<rho>' (ir_op1 i)" "un_op (ir_o i) \<or> \<rho> (ir_op2 i) = \<rho>' (ir_op2 i)"
  shows "ev \<rho> i = ev \<rho>' i"
proof -
  have 1: "rd32 \<rho> (ir_op1 i) = rd32 \<rho>' (ir_op1 i)" "rd64 \<rho> (ir_op1 i) = rd64 \<rho>' (ir_op1 i)"
    "z32 \<rho> (ir_op1 i) = z32 \<rho>' (ir_op1 i)" "rdz \<rho> (ir_op1 i) = rdz \<rho>' (ir_op1 i)"
    using assms(1) by (simp_all add: rd32_def rd64_def z32_def rdz_def)
  show ?thesis
  proof (cases "un_op (ir_o i)")
    case True
    moreover have "ir_o i = IR_NEG" if "zop (ir_o i)" using that True by (auto simp: zop_def op_defs)
    ultimately show ?thesis by (auto simp: ev_def ev32_def ev64_def Let_def 1 split: option.splits)
  next
    case False
    then have 2: "rd32 \<rho> (ir_op2 i) = rd32 \<rho>' (ir_op2 i)" "rd64 \<rho> (ir_op2 i) = rd64 \<rho>' (ir_op2 i)"
      "z32 \<rho> (ir_op2 i) = z32 \<rho>' (ir_op2 i)" "rdz \<rho> (ir_op2 i) = rdz \<rho>' (ir_op2 i)"
      using assms(2) by (simp_all add: rd32_def rd64_def z32_def rdz_def)
    show ?thesis by (simp only: ev_def ev32_def ev64_def Let_def 1 2)
  qed
qed

lemma ev_fields:
  assumes "ir_o i = ir_o j" "ir_op1 i = ir_op1 j" "ir_op2 i = ir_op2 j" "irt_type (ir_t i) = irt_type (ir_t j)"
  shows "ev \<rho> i = ev \<rho> j"
  by (simp only: ev_def ev32_def ev64_def assms)

lemma ev_operands:
  assumes "ev \<rho> i = Some v"
  shows "\<rho> (ir_op1 i) \<noteq> None" "un_op (ir_o i) \<or> \<rho> (ir_op2 i) \<noteq> None"
proof -
  have r: "rd32 \<rho> q = None" "rd64 \<rho> q = None" "rdz \<rho> q = None" "\<not> z32 \<rho> q" if "\<rho> q = None" for q
    using that by (simp_all add: rd32_def rd64_def rdz_def z32_def)
  show "\<rho> (ir_op1 i) \<noteq> None"
  proof
    assume "\<rho> (ir_op1 i) = None"
    then show False using assms r[of "ir_op1 i"] by (auto simp: ev_def ev32_def ev64_def Let_def split: if_splits)
  qed
  show "un_op (ir_o i) \<or> \<rho> (ir_op2 i) \<noteq> None"
  proof (rule ccontr)
    assume "\<not> (un_op (ir_o i) \<or> \<rho> (ir_op2 i) \<noteq> None)"
    then have u: "\<not> un_op (ir_o i)" and n: "\<rho> (ir_op2 i) = None" by auto
    then have "ir_o i \<noteq> IR_NEG" by (auto simp: un_op_def)
    then show False using assms u r[OF n] by (auto simp: ev_def ev32_def ev64_def Let_def split: if_splits option.splits)
  qed
qed

lemma ev_mono:
  assumes "\<rho> \<subseteq>\<^sub>m \<rho>'" "ev \<rho> i = Some v"
  shows "ev \<rho>' i = Some v"
proof -
  have m: "\<rho> q = \<rho>' q" if "\<rho> q \<noteq> None" for q using assms(1) that by (auto simp: map_le_def dom_def)
  have "ev \<rho> i = ev \<rho>' i" using ev_operands[OF assms(2)] by (intro ev_cong) (auto intro: m)
  then show ?thesis using assms(2) by simp
qed

text \<open>An integer instruction evaluates in the same way whatever integer type it carries.\<close>

lemma ev_type:
  assumes "ir_o i = ir_o j" "ir_op1 i = ir_op1 j" "ir_op2 i = ir_op2 j" "ev \<rho> i = Some v" "ev \<rho> j = Some w"
  shows "v = w"
proof -
  have r: "rd32 \<rho> q = None \<or> rd64 \<rho> q = None" "z32 \<rho> q \<Longrightarrow> rd32 \<rho> q = Some 0 \<and> rd64 \<rho> q = None" for q
    by (auto simp: rd32_def rd64_def z32_def split: option.splits fval.splits)
  let ?a = "ir_op1 j" and ?b = "ir_op2 j"
  have X: False if e: "ev32 \<rho> k = Some x" "ev64 \<rho> k' = Some y" "ir_o k = ir_o j" "ir_o k' = ir_o j"
      "ir_op1 k = ?a" "ir_op1 k' = ?a" "ir_op2 k = ?b" "ir_op2 k' = ?b" "V32 x \<noteq> y" for k k' x y
  proof -
    obtain a where a: "rd32 \<rho> ?a = Some a" using e by (auto simp: ev32_def split: option.splits)
    then have a64: "rd64 \<rho> ?a = None" using r(1)[of ?a] by simp
    then have z: "zop (ir_o j)" "z32 \<rho> ?a" using e(2,4,6)
      by (auto simp: ev64_def Let_def rdz_def split: if_splits option.splits)
    then have a0: "a = 0" using a r(2)[of ?a] by simp
    show False
    proof (cases "ir_o j = IR_NEG")
      case True
      then show False using e z a a0 by (auto simp: ev32_def ev64_def Let_def op_defs sem_un_def)
    next
      case False
      then have n: "\<not> un_op (ir_o j)" "\<not> shift_op (ir_o j)" using z by (auto simp: zop_def op_defs)
      then obtain b where b: "rd32 \<rho> ?b = Some b" using e by (auto simp: ev32_def a split: option.splits)
      then have b64: "rd64 \<rho> ?b = None" using r(1)[of ?b] by simp
      then have "z32 \<rho> ?b" using e(2,4,6,8) z n False
        by (auto simp: ev64_def Let_def rdz_def split: if_splits option.splits)
      then have "b = 0" using b r(2)[of ?b] by simp
      then show False using e z a a0 b n False \<open>z32 \<rho> ?b\<close> by (auto simp: ev32_def ev64_def Let_def zop_def)
    qed
  qed
  show ?thesis
  proof (rule ccontr)
    assume "v \<noteq> w"
    moreover have "ev32 \<rho> i = ev32 \<rho> j" "ev64 \<rho> i = ev64 \<rho> j" by (simp_all only: ev32_def ev64_def assms(1-3))
    moreover have "y = V32 x" if "ev32 \<rho> j = Some x" "Some y = ev64 \<rho> j \<or> ev64 \<rho> j = Some y" for x y
      using that X[of j x j y] by (metis (full_types))
    ultimately show False using assms(4,5) by (auto simp: ev_def split: if_splits)
  qed
qed

section \<open>New constants and instructions\<close>

definition grown :: "nat \<Rightarrow> jit_State \<Rightarrow> jit_State \<Rightarrow> bool" where
  "grown c J J' \<longleftrightarrow> J_nk J \<le> J_nk J' + c \<and> J_nins J' \<le> J_nins J + c \<and> J_flags J' = J_flags J"

definition room :: "nat \<Rightarrow> jit_State \<Rightarrow> bool" where
  "room c J \<longleftrightarrow> REF_BIAS - 0x1000 + c < J_nk J \<and> J_nins J + c < REF_BIAS + 0x1000"

lemma grown_refl [simp]: "grown c J J" by (simp add: grown_def)

lemma grown_trans: "grown c J J1 \<Longrightarrow> grown d J1 J2 \<Longrightarrow> c + d \<le> e \<Longrightarrow> grown e J J2"
  by (auto simp: grown_def)

lemma grown_room: "room (c + d) J \<Longrightarrow> grown c J J' \<Longrightarrow> room d J'"
  by (auto simp: grown_def room_def)

lemma room_ir_room: "room c J \<Longrightarrow> ir_room J"
  by (auto simp: room_def ir_room_def)

lemma room_field [simp]:
  "room c (J\<lparr>J_ins := x\<rparr>) = room c J" "room c (J\<lparr>J_left := x\<rparr>) = room c J" "room c (J\<lparr>J_right := x\<rparr>) = room c J"
  "grown c (J\<lparr>J_ins := x\<rparr>) J' = grown c J J'" "grown c J (J'\<lparr>J_ins := x\<rparr>) = grown c J J'"
  by (simp_all add: room_def grown_def)

lemma fold_ok_const:
  assumes ok: "fold_ok \<rho> J" and ok': "ir_ok J'"
    and nk: "J_nk J' \<le> J_nk J" "J_nins J' = J_nins J" "J_nk J' \<le> r" "r < REF_BIAS"
    and new: "\<And>q. J_nk J' \<le> q \<Longrightarrow> q < REF_BIAS \<Longrightarrow> q = r \<or> J_nk J \<le> q"
    and old: "\<And>q. J_nk J \<le> q \<Longrightarrow> J_ir J' q = J_ir J q"
    and keep: "\<And>q k. kint_val J q = Some k \<Longrightarrow> kint_val J' q = Some k"
      "\<And>q u. kint64_val J q = Some u \<Longrightarrow> kint64_val J' q = Some u"
    and val: "kint_val J' r = Some k \<and> w = V32 k \<or> kint64_val J' r = Some u \<and> w = V64 u"
    and fresh: "r < J_nk J \<or> \<rho> r = Some w"
  shows "\<rho> \<subseteq>\<^sub>m \<rho>(r \<mapsto> w)" "fold_ok (\<rho>(r \<mapsto> w)) J'"
proof -
  have none: "\<rho> q = None" if "q < J_nk J" for q using val_range(1)[OF ok, of q] that by (cases "\<rho> q") auto
  then have r: "\<rho> r = None \<or> \<rho> r = Some w" using fresh by auto
  then show "\<rho> \<subseteq>\<^sub>m \<rho>(r \<mapsto> w)" by (auto simp: map_le_def)
  have old_k: "kint_val J' q = Some k \<Longrightarrow> q \<noteq> r \<Longrightarrow> \<rho> q = Some (V32 k)"
    "kint64_val J' q = Some u \<Longrightarrow> q \<noteq> r \<Longrightarrow> \<rho> q = Some (V64 u)" for q k u
  proof -
    assume q: "kint_val J' q = Some k" "q \<noteq> r"
    then have "J_nk J \<le> q" "q < REF_BIAS" "ir_o (J_ir J' q) = IR_KINT" using new by (auto simp: kint_val_def set_kchain split: if_splits)
    then have e: "kint_val J q = Some (ins_i (J_ir J q))" using old[of q] by (simp add: kint_val_def set_kchain)
    then have "\<rho> q = Some (V32 (ins_i (J_ir J q)))" using ok by (simp add: fold_ok_def)
    then show "\<rho> q = Some (V32 k)" using keep(1)[OF e] q by simp
  next
    assume q: "kint64_val J' q = Some u" "q \<noteq> r"
    then have "J_nk J \<le> q" "q < REF_BIAS" "ir_o (J_ir J' q) = IR_KINT64" using new by (auto simp: kint64_val_def set_kchain split: if_splits)
    then have e: "kint64_val J q = Some (ir_k64 J (J_ir J q))" using old[of q] by (simp add: kint64_val_def set_kchain)
    then have "\<rho> q = Some (V64 (ir_k64 J (J_ir J q)))" using ok by (simp add: fold_ok_def)
    then show "\<rho> q = Some (V64 u)" using keep(2)[OF e] q by simp
  qed
  have r_op: "ir_o (J_ir J' r) = IR_KINT \<or> ir_o (J_ir J' r) = IR_KINT64"
    using val by (auto simp: kint_val_def kint64_val_def set_kchain split: if_splits)
  have r_val: "kint_val J' r = Some k' \<Longrightarrow> w = V32 k'" "kint64_val J' r = Some u' \<Longrightarrow> w = V64 u'" for k' u'
    using val by (auto simp: kint_val_def kint64_val_def set_kchain split: if_splits)
  have nk0: "J_nk J \<le> REF_TRUE" using ok by (simp add: fold_ok_def ir_ok_def trace_ok_def buf_ok_def)
  have ins: "J_ir J' q = J_ir J q" if "REF_FIRST \<le> q" for q using that nk0 by (intro old) (simp add: ref_defs)
  have same: "(\<rho>(r \<mapsto> w)) q = \<rho> q" if "J_nk J \<le> q" for q using fresh that by auto
  have int: "J_nk J' \<le> ir_op1 i \<and> (un_op (ir_o i) \<or> J_nk J' \<le> ir_op2 i) \<and> (\<rho>(r \<mapsto> w)) q = ev (\<rho>(r \<mapsto> w)) i \<and>
      ((\<rho>(r \<mapsto> w)) (ir_op1 i) \<noteq> None \<and> (un_op (ir_o i) \<or> (\<rho>(r \<mapsto> w)) (ir_op2 i) \<noteq> None) \<longrightarrow> ev (\<rho>(r \<mapsto> w)) i \<noteq> None)"
    if q: "REF_FIRST \<le> q" "q < J_nins J'" "int_op (ir_o (J_ir J' q))" and i: "i = J_ir J' q" for q i
  proof -
    have ii: "i = J_ir J q" using ins q i by simp
    have o: "J_nk J \<le> ir_op1 i" "un_op (ir_o i) \<or> J_nk J \<le> ir_op2 i" "\<rho> q = ev \<rho> i"
      "\<rho> (ir_op1 i) \<noteq> None \<and> (un_op (ir_o i) \<or> \<rho> (ir_op2 i) \<noteq> None) \<longrightarrow> ev \<rho> i \<noteq> None"
      using fold_ok_int[OF ok q(1), of] q nk(2) unfolding ii ins[OF q(1)] by metis+
    have e: "ev (\<rho>(r \<mapsto> w)) i = ev \<rho> i" by (rule ev_cong) (use same[OF o(1)] o(2) same in blast)+
    have "J_nk J \<le> q" using q(1) nk0 by (simp add: ref_defs)
    then show ?thesis unfolding e same[OF o(1)] same[OF \<open>J_nk J \<le> q\<close>]
      using o nk(1) same[of "ir_op2 i"] by (metis order_trans)
  qed
  show "fold_ok (\<rho>(r \<mapsto> w)) J'"
    unfolding fold_ok_def
  proof (intro conjI allI impI ok')
    fix q k assume "kint_val J' q = Some k"
    then show "(\<rho>(r \<mapsto> w)) q = Some (V32 k)" using old_k(1) r_val(1) by (cases "q = r") auto
  next
    fix q u assume "kint64_val J' q = Some u"
    then show "(\<rho>(r \<mapsto> w)) q = Some (V64 u)" using old_k(2) r_val(2) by (cases "q = r") auto
  next
    fix q assume q: "(\<rho>(r \<mapsto> w)) q \<noteq> None"
    have "J_nk J' \<le> q \<and> q < J_nins J' \<and> q \<noteq> REF_BASE \<and>
      (q < REF_BIAS \<longrightarrow> ir_o (J_ir J' q) = IR_KINT \<or> ir_o (J_ir J' q) = IR_KINT64)"
    proof (cases "q = r")
      case True
      have "REF_FIRST \<le> J_nins J" using ok by (simp add: fold_ok_def ir_ok_def trace_ok_def buf_ok_def)
      then show ?thesis using True nk r_op by (simp add: ref_defs)
    next
      case False
      then obtain x where x: "\<rho> q = Some x" using q by auto
      note vr = val_range[OF ok x] val_const[OF ok x]
      then show ?thesis using nk old by (metis order_trans)
    qed
    then show "J_nk J' \<le> q" "q < J_nins J'" "q \<noteq> REF_BASE"
      "q < REF_BIAS \<Longrightarrow> ir_o (J_ir J' q) = IR_KINT \<or> ir_o (J_ir J' q) = IR_KINT64" by blast+
  next
    fix q assume q: "REF_FIRST \<le> q \<and> q < J_nins J' \<and> int_op (ir_o (J_ir J' q))"
    from int[of q, OF _ _ _ refl] q
    show "J_nk J' \<le> ir_op1 (J_ir J' q)" "un_op (ir_o (J_ir J' q)) \<or> J_nk J' \<le> ir_op2 (J_ir J' q)"
      "(\<rho>(r \<mapsto> w)) q = ev (\<rho>(r \<mapsto> w)) (J_ir J' q)"
      "(\<rho>(r \<mapsto> w)) (ir_op1 (J_ir J' q)) \<noteq> None \<and>
         (un_op (ir_o (J_ir J' q)) \<or> (\<rho>(r \<mapsto> w)) (ir_op2 (J_ir J' q)) \<noteq> None) \<Longrightarrow>
         ev (\<rho>(r \<mapsto> w)) (J_ir J' q) \<noteq> None" by blast+
  qed
qed

lemma kint_step:
  assumes ok: "fold_ok \<rho> J" and rm: "ir_room J" and e: "lj_ir_kint k J = (r, J')"
  shows "\<exists>\<rho>'. \<rho> \<subseteq>\<^sub>m \<rho>' \<and> fold_ok \<rho>' J' \<and> \<rho>' r = Some (V32 k) \<and> irref_isk r"
    and "J_ins J' = J_ins J" "grown 1 J J'"
proof -
  have irok: "ir_ok J" and t: "trace_ok J" using ok by (auto simp: fold_ok_def ir_ok_def)
  note s = lj_ir_kint_spec[OF irok rm e]
  have g: "grown 1 J J'" using intern_k_nk e s(6,8) by (simp add: grown_def lj_ir_kint_def)
  have kr: "r < REF_BIAS" "J_nk J' \<le> r" using s(2) by (auto simp: kint_val_def set_kchain split: if_splits)
  show "\<exists>\<rho>'. \<rho> \<subseteq>\<^sub>m \<rho>' \<and> fold_ok \<rho>' J' \<and> \<rho>' r = Some (V32 k) \<and> irref_isk r"
  proof (cases "walk_k (J_ir J) (\<lambda>ir. ir_val ir = IV_i k) (J_chain J IR_KINT)")
    case (Some q)
    then have "J' = J" "q = r" using e by (auto simp: lj_ir_kint_def intern_k_def)
    then have "\<rho> r = Some (V32 k)" using s(2) ok by (simp add: fold_ok_def)
    then show ?thesis using ok \<open>J' = J\<close> kr by (intro exI[of _ \<rho>]) (simp add: irref_isk_def)
  next
    case None
    then have "new_k IR_KINT IRT_INT (IV_i k) J = (r, J')" using e by (simp add: lj_ir_kint_def intern_k_def)
    note f = new_k_fields[OF this] and n = new_k_trace_ok[OF t rm _ _ this, simplified]
    have "\<rho> \<subseteq>\<^sub>m \<rho>(r \<mapsto> V32 k)" "fold_ok (\<rho>(r \<mapsto> V32 k)) J'"
      by (rule fold_ok_const[OF ok s(1) _ s(6) kr(2,1) _ _ s(3,4), where k = k];
          use f n kr s(2) in \<open>auto simp: f(2,7)\<close>)+
    then show ?thesis using kr by (auto simp: irref_isk_def)
  qed
  show "J_ins J' = J_ins J" by (rule s(7))
  show "grown 1 J J'" by (rule g)
qed

lemma kint64_step:
  assumes ok: "fold_ok \<rho> J" and rm: "ir_room J" and e: "lj_ir_kint64 u J = (r, J')"
  shows "\<exists>\<rho>'. \<rho> \<subseteq>\<^sub>m \<rho>' \<and> fold_ok \<rho>' J' \<and> \<rho>' r = Some (V64 u)"
    and "J_ins J' = J_ins J" "grown 1 J J'"
proof -
  have irok: "ir_ok J" and t: "trace_ok J" using ok by (auto simp: fold_ok_def ir_ok_def)
  note s = lj_ir_kint64_spec[OF irok rm e]
  obtain a J1 where f1: "lj_ir_k64_find u J = (a, J1)" by fastforce
  obtain ks where J1: "J1 = J\<lparr>J_k64 := ks\<rparr>" using lj_ir_k64_find_spec(3)[OF f1] by metis
  have e': "intern_k IR_KINT64 IRT_I64 (IV_k64 a) (\<lambda>ir. ir_val ir = IV_k64 a) J1 = (r, J')"
    using e by (simp add: lj_ir_kint64_def f1 lj_ir_k64_def)
  have g: "grown 1 J J'" using intern_k_nk[OF e'] s(6,8) by (simp add: grown_def J1)
  have t1: "trace_ok J1" "ir_room J1" using t rm by (simp_all add: J1 k64_update_ok)
  have kr: "r < REF_BIAS" "J_nk J' \<le> r" using s(2) by (auto simp: kint64_val_def set_kchain split: if_splits)
  show "\<exists>\<rho>'. \<rho> \<subseteq>\<^sub>m \<rho>' \<and> fold_ok \<rho>' J' \<and> \<rho>' r = Some (V64 u)"
  proof (cases "walk_k (J_ir J1) (\<lambda>ir. ir_val ir = IV_k64 a) (J_chain J1 IR_KINT64)")
    case (Some q)
    then have J': "J' = J1" "q = r" using e' by (auto simp: intern_k_def)
    have rk: "kint64_val J r = Some (ir_k64 J (J_ir J r))"
      using s(2) by (auto simp: kint64_val_def J' J1 k64_update_ok set_kchain split: if_splits)
    have "\<rho> r = Some (V64 u)" using s(3)[OF rk] s(2) rk ok by (simp add: fold_ok_def)
    then have "\<rho> \<subseteq>\<^sub>m \<rho>(r \<mapsto> V64 u)" "fold_ok (\<rho>(r \<mapsto> V64 u)) J'"
      by - (rule fold_ok_const[OF ok s(1) _ s(6) kr(2,1) _ _ s(4,3), where u = u];
          use kr s(2) in \<open>auto simp: J' J1\<close>)+
    then show ?thesis by auto
  next
    case None
    then have "new_k IR_KINT64 IRT_I64 (IV_k64 a) J1 = (r, J')" using e' by (simp add: intern_k_def)
    note f = new_k_fields[OF this] and n = new_k_trace_ok[OF t1 _ _ this, simplified]
    have "\<rho> \<subseteq>\<^sub>m \<rho>(r \<mapsto> V64 u)" "fold_ok (\<rho>(r \<mapsto> V64 u)) J'"
      by (rule fold_ok_const[OF ok s(1) _ s(6) kr(2,1) _ _ s(4,3), where u = u];
          use f n kr s(2) in \<open>auto simp: f(2,7) J1\<close>)+
    then show ?thesis by auto
  qed
  show "J_ins J' = J_ins J" by (rule s(7))
  show "grown 1 J J'" by (rule g)
qed

text \<open>CSE: an instruction with the same value, or a new one.\<close>

lemma cse_step:
  assumes ok: "fold_ok \<rho> J" and rm: "ir_room J" and v: "int_op (fo J)" "ev \<rho> (fins J) = Some v"
    and op2: "op2 J < J_nins J" and e: "lj_opt_cse J = (r, J')"
  shows "\<exists>\<rho>'. \<rho> \<subseteq>\<^sub>m \<rho>' \<and> fold_ok \<rho>' J' \<and> \<rho>' r = Some v" "grown 1 J J'"
proof -
  have irok: "ir_ok J" and t: "trace_ok J" and c: "consts_ok J" using ok by (auto simp: fold_ok_def ir_ok_def)
  have nk0: "J_nk J \<le> REF_TRUE" "REF_FIRST \<le> J_nins J"
    using t by (auto simp: trace_ok_def buf_ok_def ref_defs)
  note o = ev_operands[OF v(2)]
  have k: "\<not> is_kop (fo J)" "\<not> unchained (fo J)" using v(1) by (auto simp: op_defs is_kop_def unchained_def)
  have o1: "J_nk J \<le> op1 J" "op1 J < J_nins J" using o(1) val_range[OF ok] by blast+
  have o2: "un_op (fo J) \<or> J_nk J \<le> op2 J" using o(2) val_range[OF ok] by blast
  have fok: "fins_ok J" using k o1 op2 by (simp add: fins_ok_def)
  note s = lj_opt_cse_spec[OF t rm fok k(2) e]
  have "(\<exists>\<rho>'. \<rho> \<subseteq>\<^sub>m \<rho>' \<and> fold_ok \<rho>' J' \<and> \<rho>' r = Some v) \<and> grown 1 J J'"
    using s(7)
  proof
    assume J': "J' = J"
    note f = fold_ok_int[OF ok s(2)]
    have "\<rho> r = ev \<rho> (J_ir J r)" "ev \<rho> (J_ir J r) \<noteq> None"
      using f s(3-6) v(1) o by (simp_all add: J')
    then obtain w where w: "\<rho> r = Some w" "ev \<rho> (J_ir J r) = Some w" by auto
    have "w = v" by (rule ev_type[OF _ _ _ w(2) v(2)]) (use s(4-6) in \<open>simp_all add: J'\<close>)
    then show ?thesis using w ok J' by (intro conjI exI[of _ \<rho>]) simp_all
  next
    assume e': "lj_ir_emit J = (r, J')"
    note f = emit_fields[OF e']
    let ?\<rho> = "\<rho>(r \<mapsto> v)"
    have none: "\<rho> r = None" using val_range(2)[OF ok, of r] f(1) by (cases "\<rho> r") auto
    have low: "J_ir J' q = J_ir J q" if "q < J_nins J" for q using that by (simp add: f(7))
    have kc: "kchain J' op = kchain J op" for op by (rule emit_chain_lists(1)[OF e' nk0(2)])
    have kl: "q < J_nins J" if "q \<in> set (kchain J op)" for q op using that nk0 by (auto simp: set_kchain ref_defs)
    have vals: "kint_val J' q = kint_val J q" "kint64_val J' q = kint64_val J q" for q
      using low kl[of q] by (auto simp: kint_val_def kint64_val_def kc ir_k64_def k64_value_def f(4) split: IRVal.split KAddr.split)
    have irok': "ir_ok J'"
    proof -
      have "set (kchain J' op) = set (kchain J op)" for op by (simp add: kc)
      moreover have "J_ir J' q = J_ir J q" if "q \<in> set (kchain J op)" for q op using low kl[OF that] by simp
      ultimately have "consts_ok J'" using c by (simp add: consts_ok_def inj_on_def f(4))
      then show ?thesis using s(1) by (simp add: ir_ok_def)
    qed
    have ev_low: "ev ?\<rho> (J_ir J' q) = ev \<rho> (J_ir J q)" if q: "q < J_nins J" "REF_FIRST \<le> q" for q
    proof -
      have "ssa_ok J" using t by (simp add: trace_ok_def)
      then have "ir_op1 (J_ir J q) < q" "ir_op2 (J_ir J q) < q" using q by (auto simp: ssa_ok_def)
      then show ?thesis unfolding low[OF q(1)] using q f(1) by (intro ev_cong) auto
    qed
    have ev_new: "ev ?\<rho> (J_ir J' r) = Some v"
    proof -
      have "ev ?\<rho> (J_ir J' r) = ev ?\<rho> (fins J)" by (rule ev_fields) (simp_all add: f)
      also have "\<dots> = ev \<rho> (fins J)" using o1(2) op2 f(1) by (intro ev_cong) auto
      finally show ?thesis using v(2) by simp
    qed
    have "fold_ok ?\<rho> J'"
      unfolding fold_ok_def
    proof (intro conjI allI impI irok')
      fix q k assume "kint_val J' q = Some k"
      then show "?\<rho> q = Some (V32 k)" using ok none by (auto simp: vals fold_ok_def)
    next
      fix q u assume "kint64_val J' q = Some u"
      then show "?\<rho> q = Some (V64 u)" using ok none by (auto simp: vals fold_ok_def)
    next
      fix q assume q: "?\<rho> q \<noteq> None"
      have "J_nk J' \<le> q \<and> q < J_nins J' \<and> q \<noteq> REF_BASE \<and>
        (q < REF_BIAS \<longrightarrow> ir_o (J_ir J' q) = IR_KINT \<or> ir_o (J_ir J' q) = IR_KINT64)"
      proof (cases "q = r")
        case True
        then show ?thesis using f nk0 by (simp add: ref_defs)
      next
        case False
        then obtain x where x: "\<rho> q = Some x" using q by auto
        show ?thesis using val_range[OF ok x] val_const[OF ok x] low[of q] by (simp add: f(2,3))
      qed
      then show "J_nk J' \<le> q" "q < J_nins J'" "q \<noteq> REF_BASE"
        "q < REF_BIAS \<Longrightarrow> ir_o (J_ir J' q) = IR_KINT \<or> ir_o (J_ir J' q) = IR_KINT64" by blast+
    next
      fix q assume q: "REF_FIRST \<le> q \<and> q < J_nins J' \<and> int_op (ir_o (J_ir J' q))"
      have "J_nk J' \<le> ir_op1 (J_ir J' q) \<and> (un_op (ir_o (J_ir J' q)) \<or> J_nk J' \<le> ir_op2 (J_ir J' q)) \<and>
         ?\<rho> q = ev ?\<rho> (J_ir J' q) \<and>
         (?\<rho> (ir_op1 (J_ir J' q)) \<noteq> None \<and> (un_op (ir_o (J_ir J' q)) \<or> ?\<rho> (ir_op2 (J_ir J' q)) \<noteq> None) \<longrightarrow>
            ev ?\<rho> (J_ir J' q) \<noteq> None)"
      proof (cases "q = r")
        case True
        then show ?thesis using o1 o2 ev_new s(4-6) by (simp add: f(3))
      next
        case False
        then have l: "q < J_nins J" "REF_FIRST \<le> q" using q f by auto
        have "ssa_ok J" using t by (simp add: trace_ok_def)
        then have ops: "ir_op1 (J_ir J q) \<noteq> r" "ir_op2 (J_ir J q) \<noteq> r" using l f(1) by (force simp: ssa_ok_def)+
        note g = fold_ok_int[OF ok l(2,1)]
        show ?thesis unfolding low[OF l(1)] ev_low[OF l, unfolded low[OF l(1)]] f(3) using False ops g q low[OF l(1)] by auto
      qed
      then show "J_nk J' \<le> ir_op1 (J_ir J' q)" "un_op (ir_o (J_ir J' q)) \<or> J_nk J' \<le> ir_op2 (J_ir J' q)"
        "?\<rho> q = ev ?\<rho> (J_ir J' q)"
        "?\<rho> (ir_op1 (J_ir J' q)) \<noteq> None \<and> (un_op (ir_o (J_ir J' q)) \<or> ?\<rho> (ir_op2 (J_ir J' q)) \<noteq> None) \<Longrightarrow>
           ev ?\<rho> (J_ir J' q) \<noteq> None" by blast+
    qed
    moreover have "\<rho> \<subseteq>\<^sub>m ?\<rho>" using none by (auto simp: map_le_def)
    ultimately show ?thesis using f by (auto simp: grown_def)
  qed
  then show "\<exists>\<rho>'. \<rho> \<subseteq>\<^sub>m \<rho>' \<and> fold_ok \<rho>' J' \<and> \<rho>' r = Some v" "grown 1 J J'" by blast+
qed
end
