(* ===== verification/LJ_FoldRules.thy ===== *)
theory LJ_FoldRules
  imports LJ_FoldSound
begin

text \<open>
  Soundness of the fold rules for integer instructions, one lemma per rule, and of the table.
\<close>

section \<open>What a rule may do\<close>

text \<open>Rules for multiplications and shifts may call the engine again or retry as another kind of operation; all
  others retry within the lighter operations.\<close>

definition heavy :: "IROp \<Rightarrow> bool" where "heavy op \<longleftrightarrow> op = IR_MUL \<or> shift_op op"

definition fpre :: "vals \<Rightarrow> jit_State \<Rightarrow> fval \<Rightarrow> bool" where
  "fpre \<rho> J v \<longleftrightarrow> fold_ok \<rho> J \<and> int_op (fo J) \<and> ev \<rho> (fins J) = Some v \<and> op2 J < J_nins J \<and>
     fleft J = J_ir J (op1 J) \<and> (J_nk J \<le> op2 J \<longrightarrow> fright J = J_ir J (op2 J))"

definition result_ok :: "nat \<Rightarrow> vals \<Rightarrow> jit_State \<Rightarrow> fval \<Rightarrow> nat \<times> jit_State \<Rightarrow> bool" where
  "result_ok c \<rho> J v = (\<lambda>(r, J'). \<exists>\<rho>' w. \<rho> \<subseteq>\<^sub>m \<rho>' \<and> fold_ok \<rho>' J' \<and> \<rho>' r = Some w \<and> vsim (wide (fins J)) v w \<and> grown c J J')"

definition retry_ok :: "nat \<Rightarrow> vals \<Rightarrow> jit_State \<Rightarrow> fval \<Rightarrow> jit_State \<Rightarrow> bool" where
  "retry_ok b \<rho> J v J' \<longleftrightarrow>
     (\<exists>\<rho>' w c. \<rho> \<subseteq>\<^sub>m \<rho>' \<and> fold_ok \<rho>' J' \<and> int_op (fo J') \<and> op2 J' < J_nins J' \<and> wide (fins J') = wide (fins J) \<and>
        ev \<rho>' (fins J') = Some w \<and> vsim (wide (fins J)) v w \<and> grown c J J' \<and>
        (c \<le> 1 \<and> (heavy (fo J') \<longrightarrow> heavy (fo J)) \<or> c \<le> b + 1 \<and> heavy (fo J) \<and> \<not> heavy (fo J')))"

definition fout :: "nat \<Rightarrow> vals \<Rightarrow> jit_State \<Rightarrow> fval \<Rightarrow> FoldRes \<times> jit_State \<Rightarrow> bool" where
  "fout b \<rho> J v p =
     (case fst p of
        NEXTFOLD \<Rightarrow> snd p = J
      | RETRYFOLD \<Rightarrow> retry_ok b \<rho> J v (snd p)
      | KINTFOLD \<Rightarrow> fold_ok \<rho> (snd p) \<and> vsim (wide (fins J)) v (V32 (ins_i (fins (snd p)))) \<and> grown 0 J (snd p)
      | FoldRef r \<Rightarrow> result_ok 1 \<rho> J v (r, snd p)
      | _ \<Rightarrow> False)"

definition engine_sound :: "nat \<Rightarrow> nat jit \<Rightarrow> bool" where
  "engine_sound b f \<longleftrightarrow>
     (\<forall>\<rho> J v. fold_ok \<rho> J \<and> int_op (fo J) \<and> op2 J < J_nins J \<and> ev \<rho> (fins J) = Some v \<and> room b J \<longrightarrow>
        (case f J of Inl e \<Rightarrow> e = FOLD_FUEL | Inr p \<Rightarrow> result_ok b \<rho> J v p))"

definition rkey :: "jit_State \<Rightarrow> nat" where
  "rkey J = (if J_nk J \<le> op2 J then ir_o (fright J) else op2 J AND 0x3ff)"

definition rule_ok :: "IROp \<Rightarrow> nat \<Rightarrow> nat \<Rightarrow> fold_func \<Rightarrow> bool" where
  "rule_ok op l r f \<longleftrightarrow>
     (\<forall>b E \<rho> J v. engine_sound b (fe_fold E) \<and> fpre \<rho> J v \<and> (if heavy op then room (b + 2) J else room 1 J) \<and> fo J = op \<and>
        (l = 0x7f \<or> ir_o (fleft J) = l) \<and> (r = 0x3ff \<or> rkey J = r) \<longrightarrow>
        (case f E J of Inl e \<Rightarrow> e = FOLD_FUEL | Inr p \<Rightarrow> fout b \<rho> J v p))"

lemma rule_okI:
  assumes "\<And>b \<rho> J v. fpre \<rho> J v \<Longrightarrow> ir_room J \<Longrightarrow> fo J = op \<Longrightarrow> l = 0x7f \<or> ir_o (fleft J) = l \<Longrightarrow>
    r = 0x3ff \<or> rkey J = r \<Longrightarrow> fout b \<rho> J v (f J)"
  shows "rule_ok op l r (pure_rule f)"
  using assms by (auto simp: rule_ok_def pure_rule_def dest: room_ir_room split: if_splits)

section \<open>Evaluation\<close>

definition t64 :: "IRIns \<Rightarrow> bool" where
  "t64 i \<longleftrightarrow> irt_type (ir_t i) = IRT_I64 \<or> irt_type (ir_t i) = IRT_U64"

definition t32 :: "IRIns \<Rightarrow> bool" where
  "t32 i \<longleftrightarrow> irt_type (ir_t i) = IRT_INT"

lemma wide_t [simp]: "t64 i \<Longrightarrow> wide i" "t32 i \<Longrightarrow> \<not> wide i"
  by (auto simp: t64_def t32_def wide_def)

lemma t_upd [simp]:
  "t64 (i\<lparr>ir_o := x\<rparr>) = t64 i" "t64 (i\<lparr>ir_op1 := y\<rparr>) = t64 i" "t64 (i\<lparr>ir_op2 := y\<rparr>) = t64 i"
  "t32 (i\<lparr>ir_o := x\<rparr>) = t32 i" "t32 (i\<lparr>ir_op1 := y\<rparr>) = t32 i" "t32 (i\<lparr>ir_op2 := y\<rparr>) = t32 i"
  "wide (i\<lparr>ir_o := x\<rparr>) = wide i" "wide (i\<lparr>ir_op1 := y\<rparr>) = wide i" "wide (i\<lparr>ir_op2 := y\<rparr>) = wide i"
  by (simp_all add: t64_def t32_def wide_def)

lemma rd_Some:
  "rd32 \<rho> r = Some a \<longleftrightarrow> \<rho> r = Some (V32 a)" "rd64 \<rho> r = Some u \<longleftrightarrow> \<rho> r = Some (V64 u)"
  by (auto simp: rd32_def rd64_def split: option.splits fval.splits)

lemma rdz_strict: "\<rho> r = Some (V64 a) \<Longrightarrow> rdz \<rho> r = Some a"
  by (simp add: rdz_def z32_def rd64_def)

lemma rdz_zero: "\<rho> r = Some (V32 0) \<Longrightarrow> irref_isk r \<Longrightarrow> rdz \<rho> r = Some 0"
  by (simp add: rdz_def z32_def)

lemma rdz_cases:
  assumes "rdz \<rho> r = Some a"
  shows "\<rho> r = Some (V64 a) \<or> \<rho> r = Some (V32 0) \<and> irref_isk r \<and> a = 0"
  using assms by (auto simp: rdz_def z32_def rd_Some split: if_splits)

lemma rdz_sim:
  assumes "rdz \<rho> r = Some a"
  shows "\<exists>w. \<rho> r = Some w \<and> vsim True (V64 a) w"
  using rdz_cases[OF assms] by (auto simp: vsim_def)

lemma map_leD: "\<rho> \<subseteq>\<^sub>m \<rho>' \<Longrightarrow> \<rho> r = Some w \<Longrightarrow> \<rho>' r = Some w"
  by (metis domI map_le_def)

lemma rdz_mono:
  assumes "\<rho> \<subseteq>\<^sub>m \<rho>'" "rdz \<rho> r = Some a"
  shows "rdz \<rho>' r = Some a"
  using rdz_cases[OF assms(2)] map_leD[OF assms(1)] by (auto intro: rdz_strict rdz_zero)

definition sem_as :: "IROp \<Rightarrow> u64 \<Rightarrow> u64 \<Rightarrow> u64" where
  "sem_as op a b = (if op = IR_ADD then a + b else a - b)"

text \<open>Introduction rules.\<close>

lemma ev_un32: "t32 i \<Longrightarrow> un_op (ir_o i) \<Longrightarrow> \<rho> (ir_op1 i) = Some (V32 a) \<Longrightarrow> ev \<rho> i = Some (V32 (sem_un (ir_o i) a))"
  by (simp add: ev_def ev32_def t32_def rd32_def)

lemma ev_shift32:
  "t32 i \<Longrightarrow> shift_op (ir_o i) \<Longrightarrow> \<rho> (ir_op1 i) = Some (V32 a) \<Longrightarrow> \<rho> (ir_op2 i) = Some (V32 b) \<Longrightarrow>
   ev \<rho> i = Some (V32 (sem_shift (ir_o i) a b))"
  by (auto simp: ev_def ev32_def t32_def rd32_def op_defs)

lemma ev_bin32:
  "t32 i \<Longrightarrow> bin_op (ir_o i) \<Longrightarrow> \<rho> (ir_op1 i) = Some (V32 a) \<Longrightarrow> \<rho> (ir_op2 i) = Some (V32 b) \<Longrightarrow>
   sem_bin (ir_o i) a b = Some c \<Longrightarrow> ev \<rho> i = Some (V32 c)"
  by (auto simp: ev_def ev32_def t32_def rd32_def op_defs)

lemma ev_un64:
  "t64 i \<Longrightarrow> un_op (ir_o i) \<Longrightarrow> \<rho> (ir_op1 i) = Some (V64 a) \<Longrightarrow> ev \<rho> i = Some (V64 (sem_un64 (ir_o i) a))"
  by (auto simp: ev_def ev64_def t64_def rd64_def rdz_def z32_def Let_def)

lemma ev_shift64:
  "t64 i \<Longrightarrow> shift_op (ir_o i) \<Longrightarrow> \<rho> (ir_op1 i) = Some (V64 a) \<Longrightarrow> \<rho> (ir_op2 i) = Some (V32 b) \<Longrightarrow>
   ev \<rho> i = Some (V64 (sem_shift (ir_o i) a b))"
  by (auto simp: ev_def ev64_def t64_def rd64_def rd32_def zop_def op_defs Let_def)

lemma ev_bin64:
  "t64 i \<Longrightarrow> bin_op64 (ir_o i) \<Longrightarrow> \<rho> (ir_op1 i) = Some (V64 a) \<Longrightarrow> \<rho> (ir_op2 i) = Some (V64 b) \<Longrightarrow>
   sem_bin (ir_o i) a b = Some c \<Longrightarrow> ev \<rho> i = Some (V64 c)"
  by (auto simp: ev_def ev64_def t64_def rd64_def rdz_def z32_def zop_def op_defs Let_def)

lemma ev_as64:
  assumes "t64 i" "ir_o i = IR_ADD \<or> ir_o i = IR_SUB" "rdz \<rho> (ir_op1 i) = Some a" "rdz \<rho> (ir_op2 i) = Some b"
  shows "\<exists>w. ev \<rho> i = Some w \<and> vsim True (V64 (sem_as (ir_o i) a b)) w"
proof (cases "z32 \<rho> (ir_op1 i) \<and> z32 \<rho> (ir_op2 i)")
  case True
  then have "a = 0" "b = 0" using assms(3,4) by (simp_all add: rdz_def)
  then show ?thesis using True assms(1,2) by (auto simp: ev_def ev64_def t64_def zop_def Let_def vsim_def sem_as_def)
next
  case False
  then have "ev \<rho> i = Some (V64 (sem_as (ir_o i) a b))"
    using assms by (auto simp: ev_def ev64_def t64_def zop_def Let_def op_defs sem_as_def)
  then show ?thesis by simp
qed

lemma ev_neg64:
  assumes "t64 i" "ir_o i = IR_NEG" "rdz \<rho> (ir_op1 i) = Some a"
  shows "\<exists>w. ev \<rho> i = Some w \<and> vsim True (V64 (- a)) w"
proof (cases "z32 \<rho> (ir_op1 i)")
  case True
  then have "a = 0" using assms(3) by (simp add: rdz_def)
  then show ?thesis using True assms(1,2) by (auto simp: ev_def ev64_def t64_def zop_def Let_def vsim_def)
next
  case False
  then have "ev \<rho> i = Some (V64 (- a))"
    using assms by (auto simp: ev_def ev64_def t64_def zop_def Let_def op_defs sem_un64_def)
  then show ?thesis by simp
qed

text \<open>Elimination rules.\<close>

lemma ev_t: "ev \<rho> i = Some v \<Longrightarrow> t32 i \<or> t64 i"
  by (auto simp: ev_def t32_def t64_def split: if_splits)

lemma ev_unE:
  assumes "ev \<rho> i = Some v" "ir_o i = IR_BNOT \<or> ir_o i = IR_BSWAP"
  obtains (32) a where "t32 i" "\<rho> (ir_op1 i) = Some (V32 a)" "v = V32 (sem_un (ir_o i) a)"
  | (64) a where "t64 i" "\<rho> (ir_op1 i) = Some (V64 a)" "v = V64 (sem_un64 (ir_o i) a)"
  using ev_t[OF assms(1)]
proof
  assume t: "t32 i"
  then obtain a where "\<rho> (ir_op1 i) = Some (V32 a)"
    using assms by (auto simp: ev_def t32_def ev32_def rd_Some split: option.splits)
  then show thesis using 32[OF t] ev_un32[OF t] assms by (auto simp: op_defs)
next
  assume t: "t64 i"
  then obtain a where "\<rho> (ir_op1 i) = Some (V64 a)"
    using assms by (auto simp: ev_def t64_def ev64_def rd_Some zop_def Let_def split: option.splits)
  then show thesis using 64[OF t] ev_un64[OF t] assms by (auto simp: op_defs)
qed

lemma ev_negE:
  assumes "ev \<rho> i = Some v" "ir_o i = IR_NEG"
  obtains (32) a where "t32 i \<or> t64 i \<and> z32 \<rho> (ir_op1 i)" "\<rho> (ir_op1 i) = Some (V32 a)" "v = V32 (- a)"
  | (64) a where "t64 i" "\<rho> (ir_op1 i) = Some (V64 a)" "v = V64 (- a)"
  using ev_t[OF assms(1)]
proof
  assume t: "t32 i"
  then obtain a where "\<rho> (ir_op1 i) = Some (V32 a)"
    using assms by (auto simp: ev_def t32_def ev32_def rd_Some split: option.splits)
  then show thesis using 32 t ev_un32[OF t] assms by (auto simp: op_defs sem_un_def)
next
  assume t: "t64 i"
  show thesis
  proof (cases "z32 \<rho> (ir_op1 i)")
    case True
    then show thesis using 32[of 0] t assms by (auto simp: ev_def t64_def ev64_def zop_def Let_def z32_def)
  next
    case False
    then obtain a where "\<rho> (ir_op1 i) = Some (V64 a)"
      using assms t by (auto simp: ev_def t64_def ev64_def zop_def Let_def rdz_def rd_Some split: option.splits if_splits)
    then show thesis using 64[OF t] ev_un64[OF t] assms by (auto simp: op_defs sem_un64_def)
  qed
qed

lemma ev_shiftE:
  assumes "ev \<rho> i = Some v" "shift_op (ir_o i)"
  obtains (32) a b where "t32 i" "\<rho> (ir_op1 i) = Some (V32 a)" "\<rho> (ir_op2 i) = Some (V32 b)" "v = V32 (sem_shift (ir_o i) a b)"
  | (64) a b where "t64 i" "\<rho> (ir_op1 i) = Some (V64 a)" "\<rho> (ir_op2 i) = Some (V32 b)" "v = V64 (sem_shift (ir_o i) a b)"
proof -
  have u: "\<not> un_op (ir_o i)" "\<not> zop (ir_o i)" using assms(2) by (auto simp: op_defs zop_def)
  show thesis using ev_t[OF assms(1)]
  proof
    assume t: "t32 i"
    then obtain a b where "\<rho> (ir_op1 i) = Some (V32 a)" "\<rho> (ir_op2 i) = Some (V32 b)"
      using assms u by (auto simp: ev_def t32_def ev32_def rd_Some split: option.splits)
    then show thesis using 32[OF t] ev_shift32[OF t] assms by auto
  next
    assume t: "t64 i"
    then obtain a b where "\<rho> (ir_op1 i) = Some (V64 a)" "\<rho> (ir_op2 i) = Some (V32 b)"
      using assms u by (auto simp: ev_def t64_def ev64_def rd_Some Let_def split: option.splits)
    then show thesis using 64[OF t] ev_shift64[OF t] assms by auto
  qed
qed

lemma ev_asE:
  assumes "ev \<rho> i = Some v" "ir_o i = IR_ADD \<or> ir_o i = IR_SUB"
  obtains (32) a b c where "t32 i \<or> t64 i \<and> z32 \<rho> (ir_op1 i) \<and> z32 \<rho> (ir_op2 i)" "\<rho> (ir_op1 i) = Some (V32 a)"
    "\<rho> (ir_op2 i) = Some (V32 b)" "sem_bin (ir_o i) a b = Some c" "v = V32 c"
  | (64) a b where "t64 i" "rdz \<rho> (ir_op1 i) = Some a" "rdz \<rho> (ir_op2 i) = Some b" "v = V64 (sem_as (ir_o i) a b)"
    "\<not> (z32 \<rho> (ir_op1 i) \<and> z32 \<rho> (ir_op2 i))"
proof -
  have u: "\<not> un_op (ir_o i)" "\<not> shift_op (ir_o i)" "zop (ir_o i)" "ir_o i \<noteq> IR_NEG" "bin_op64 (ir_o i)"
    using assms(2) by (auto simp: op_defs zop_def)
  show thesis using ev_t[OF assms(1)]
  proof
    assume t: "t32 i"
    then show thesis using assms u 32 by (auto simp: ev_def t32_def ev32_def rd_Some split: option.splits)
  next
    assume t: "t64 i"
    show thesis
    proof (cases "z32 \<rho> (ir_op1 i) \<and> z32 \<rho> (ir_op2 i)")
      case True
      then show thesis using 32[of 0 0 0] t assms u by (auto simp: ev_def t64_def ev64_def Let_def z32_def)
    next
      case False
      then obtain a b where "rdz \<rho> (ir_op1 i) = Some a" "rdz \<rho> (ir_op2 i) = Some b" "v = V64 (sem_as (ir_o i) a b)"
        using assms u t by (auto simp: ev_def t64_def ev64_def Let_def sem_as_def split: option.splits if_splits)
      then show thesis using 64 t False by blast
    qed
  qed
qed

lemma ev_binE:
  assumes "ev \<rho> i = Some v" "bin_op (ir_o i)" "ir_o i \<noteq> IR_ADD" "ir_o i \<noteq> IR_SUB"
  obtains (32) a b c where "t32 i" "\<rho> (ir_op1 i) = Some (V32 a)" "\<rho> (ir_op2 i) = Some (V32 b)" "sem_bin (ir_o i) a b = Some c" "v = V32 c"
  | (64) a b c where "t64 i" "\<rho> (ir_op1 i) = Some (V64 a)" "\<rho> (ir_op2 i) = Some (V64 b)" "sem_bin (ir_o i) a b = Some c" "v = V64 c"
    "bin_op64 (ir_o i)"
proof -
  have u: "\<not> un_op (ir_o i)" "\<not> shift_op (ir_o i)" "\<not> zop (ir_o i)" using assms(2-4) by (auto simp: op_defs zop_def)
  show thesis using ev_t[OF assms(1)]
  proof
    assume t: "t32 i"
    then show thesis using assms u 32[OF t] by (auto simp: ev_def t32_def ev32_def rd_Some split: option.splits)
  next
    assume t: "t64 i"
    then show thesis using assms u 64[OF t]
      by (auto simp: ev_def t64_def ev64_def rd_Some Let_def split: option.splits if_splits)
  qed
qed

section \<open>Outcomes\<close>

lemma fout_next [simp]: "fout b \<rho> J v (NEXTFOLD, J)"
  by (simp add: fout_def)

lemma fout_ref:
  "fpre \<rho> J v \<Longrightarrow> \<rho> r = Some w \<Longrightarrow> vsim (wide (fins J)) v w \<Longrightarrow> fout b \<rho> J v (FoldRef r, J)"
  by (auto simp: fout_def result_ok_def fpre_def intro!: exI[of _ \<rho>])

lemma fout_val: "fpre \<rho> J v \<Longrightarrow> \<rho> r = Some v \<Longrightarrow> fout b \<rho> J v (FoldRef r, J)"
  using fout_ref[of \<rho> J v r v] by simp

lemma fout_kint:
  "fpre \<rho> J v \<Longrightarrow> vsim (wide (fins J)) v (V32 k) \<Longrightarrow> fout b \<rho> J v (INTFOLD k J)"
  by (auto simp: fout_def INTFOLD_def fpre_def ins_i_def)

lemma fout_kint64:
  assumes "fpre \<rho> J v" "ir_room J" "vsim (wide (fins J)) v (V64 u)"
  shows "fout b \<rho> J v (INT64FOLD u J)"
proof -
  obtain r J' where e: "lj_ir_kint64 u J = (r, J')" by fastforce
  have ok: "fold_ok \<rho> J" using assms(1) by (simp add: fpre_def)
  obtain \<rho>' where "\<rho> \<subseteq>\<^sub>m \<rho>'" "fold_ok \<rho>' J'" "\<rho>' r = Some (V64 u)" "grown 1 J J'"
    using kint64_step[OF ok assms(2) e] by blast
  then have "result_ok 1 \<rho> J v (r, J')" using assms(3) unfolding result_ok_def by blast
  then show ?thesis by (simp add: fout_def INT64FOLD_def ref_fold_def e)
qed

lemma fout_retry:
  assumes "fpre \<rho> J v" "int_op (ir_o i)" "wide i = wide (fins J)" "ev \<rho> i = Some w" "vsim (wide (fins J)) v w"
    "heavy (ir_o i) \<Longrightarrow> heavy (fo J)" "un_op (ir_o i) \<Longrightarrow> ir_op2 i < J_nins J"
  shows "fout b \<rho> J v (RETRYFOLD, J\<lparr>J_ins := i\<rparr>)"
proof -
  have ok: "fold_ok \<rho> J" using assms(1) by (simp add: fpre_def)
  have "ir_op2 i < J_nins J" using ev_operands(2)[OF assms(4)] val_range(2)[OF ok] assms(7) by blast
  then show ?thesis unfolding fout_def retry_ok_def using ok assms(2-6)
    by (simp, intro exI[of _ \<rho>] exI[of _ w] conjI exI[of _ 0]) auto
qed

text \<open>Retrying with a new constant as the right operand.\<close>

lemma fout_retry_k:
  assumes pre: "fpre \<rho> J v" and rm: "ir_room J" and i: "int_op (ir_o i)" "\<not> un_op (ir_o i)" "wide i = wide (fins J)"
    and ev: "\<And>\<rho>' r. \<rho> \<subseteq>\<^sub>m \<rho>' \<Longrightarrow> \<rho>' r = Some (V32 k) \<Longrightarrow> irref_isk r \<Longrightarrow>
      \<exists>w. ev \<rho>' (i\<lparr>ir_op2 := r\<rparr>) = Some w \<and> vsim (wide (fins J)) v w"
    and h: "heavy (ir_o i) \<Longrightarrow> heavy (fo J)"
  shows "fout b \<rho> J v (let (r, J1) = lj_ir_kint k (J\<lparr>J_ins := i\<rparr>) in (RETRYFOLD, fins_op2 r J1))"
proof -
  obtain r J1 where e: "lj_ir_kint k (J\<lparr>J_ins := i\<rparr>) = (r, J1)" by fastforce
  have ok: "fold_ok \<rho> (J\<lparr>J_ins := i\<rparr>)" "ir_room (J\<lparr>J_ins := i\<rparr>)" using pre rm by (simp_all add: fpre_def)
  note s = kint_step[OF ok e]
  obtain \<rho>' where p: "\<rho> \<subseteq>\<^sub>m \<rho>'" "fold_ok \<rho>' J1" "\<rho>' r = Some (V32 k)" "irref_isk r" using s(1) by blast
  obtain w where w: "ev \<rho>' (i\<lparr>ir_op2 := r\<rparr>) = Some w" "vsim (wide (fins J)) v w" using ev[OF p(1,3,4)] by blast
  have "r < J_nins J1" using val_range(2)[OF p(2,3)] .
  then show ?thesis unfolding fout_def retry_ok_def using p w i h s(2,3)
    by (simp add: e fins_op2_def) (intro exI[of _ \<rho>'] exI[of _ w] conjI exI[of _ 1]; simp)
qed

lemma fout_retry_k64:
  assumes pre: "fpre \<rho> J v" and rm: "ir_room J" and i: "int_op (ir_o i)" "\<not> un_op (ir_o i)" "wide i = wide (fins J)"
    and ev: "\<And>\<rho>' r. \<rho> \<subseteq>\<^sub>m \<rho>' \<Longrightarrow> \<rho>' r = Some (V64 u) \<Longrightarrow>
      \<exists>w. ev \<rho>' (i\<lparr>ir_op2 := r\<rparr>) = Some w \<and> vsim (wide (fins J)) v w"
    and h: "heavy (ir_o i) \<Longrightarrow> heavy (fo J)"
  shows "fout b \<rho> J v (let (r, J1) = lj_ir_kint64 u (J\<lparr>J_ins := i\<rparr>) in (RETRYFOLD, fins_op2 r J1))"
proof -
  obtain r J1 where e: "lj_ir_kint64 u (J\<lparr>J_ins := i\<rparr>) = (r, J1)" by fastforce
  have ok: "fold_ok \<rho> (J\<lparr>J_ins := i\<rparr>)" "ir_room (J\<lparr>J_ins := i\<rparr>)" using pre rm by (simp_all add: fpre_def)
  note s = kint64_step[OF ok e]
  obtain \<rho>' where p: "\<rho> \<subseteq>\<^sub>m \<rho>'" "fold_ok \<rho>' J1" "\<rho>' r = Some (V64 u)" using s(1) by blast
  obtain w where w: "ev \<rho>' (i\<lparr>ir_op2 := r\<rparr>) = Some w" "vsim (wide (fins J)) v w" using ev[OF p(1,3)] by blast
  have "r < J_nins J1" using val_range(2)[OF p(2,3)] .
  then show ?thesis unfolding fout_def retry_ok_def using p w i h s(2,3)
    by (simp add: e fins_op2_def) (intro exI[of _ \<rho>'] exI[of _ w] conjI exI[of _ 1]; simp)
qed

section \<open>Operands\<close>

lemma left_facts:
  assumes pre: "fpre \<rho> J v"
  shows left_val: "\<exists>w. \<rho> (op1 J) = Some w"
    and left_kint: "ir_o (fleft J) = IR_KINT \<Longrightarrow> \<rho> (op1 J) = Some (V32 (ins_i (fleft J)))"
    and left_kint64: "ir_o (fleft J) = IR_KINT64 \<Longrightarrow> \<rho> (op1 J) = Some (V64 (ir_k64 J (fleft J)))"
    and left_int: "int_op (ir_o (fleft J)) \<Longrightarrow> ev \<rho> (fleft J) = \<rho> (op1 J) \<and> REF_FIRST \<le> op1 J"
    and left_kop: "is_kop (ir_o (fleft J)) \<Longrightarrow> irref_isk (op1 J) \<and> (ir_o (fleft J) = IR_KINT \<or> ir_o (fleft J) = IR_KINT64)"
proof -
  have ok: "fold_ok \<rho> J" and l: "fleft J = J_ir J (op1 J)" and e: "ev \<rho> (fins J) = Some v"
    using pre by (simp_all add: fpre_def)
  show "\<exists>w. \<rho> (op1 J) = Some w" using ev_operands(1)[OF e] by auto
  then obtain w where w: "\<rho> (op1 J) = Some w" by auto
  note v = val_kint[OF ok w] val_kint64[OF ok w] val_int[OF ok w] val_int_ins[OF ok w] val_kop[OF ok w] val_const[OF ok w]
  then show "ir_o (fleft J) = IR_KINT \<Longrightarrow> \<rho> (op1 J) = Some (V32 (ins_i (fleft J)))"
    "ir_o (fleft J) = IR_KINT64 \<Longrightarrow> \<rho> (op1 J) = Some (V64 (ir_k64 J (fleft J)))"
    "int_op (ir_o (fleft J)) \<Longrightarrow> ev \<rho> (fleft J) = \<rho> (op1 J) \<and> REF_FIRST \<le> op1 J"
    "is_kop (ir_o (fleft J)) \<Longrightarrow> irref_isk (op1 J) \<and> (ir_o (fleft J) = IR_KINT \<or> ir_o (fleft J) = IR_KINT64)"
    using w unfolding l irref_isk_def by simp_all
qed

lemma right_facts:
  assumes pre: "fpre \<rho> J v" and bin: "\<not> un_op (fo J)"
  shows right_val: "\<exists>w. \<rho> (op2 J) = Some w"
    and right_key: "rkey J = ir_o (fright J)"
    and right_kint: "ir_o (fright J) = IR_KINT \<Longrightarrow> \<rho> (op2 J) = Some (V32 (ins_i (fright J)))"
    and right_kint64: "ir_o (fright J) = IR_KINT64 \<Longrightarrow> \<rho> (op2 J) = Some (V64 (ir_k64 J (fright J)))"
    and right_int: "int_op (ir_o (fright J)) \<Longrightarrow> ev \<rho> (fright J) = \<rho> (op2 J) \<and> REF_FIRST \<le> op2 J"
    and right_kop: "is_kop (ir_o (fright J)) \<Longrightarrow> irref_isk (op2 J) \<and> (ir_o (fright J) = IR_KINT \<or> ir_o (fright J) = IR_KINT64)"
proof -
  have ok: "fold_ok \<rho> J" and e: "ev \<rho> (fins J) = Some v" using pre by (simp_all add: fpre_def)
  show "\<exists>w. \<rho> (op2 J) = Some w" using ev_operands(2)[OF e] bin by auto
  then obtain w where w: "\<rho> (op2 J) = Some w" by auto
  then have nk: "J_nk J \<le> op2 J" by (rule val_range(1)[OF ok])
  then show "rkey J = ir_o (fright J)" by (simp add: rkey_def)
  have l: "fright J = J_ir J (op2 J)" using pre nk by (simp add: fpre_def)
  note v = val_kint[OF ok w] val_kint64[OF ok w] val_int[OF ok w] val_int_ins[OF ok w] val_kop[OF ok w] val_const[OF ok w]
  then show "ir_o (fright J) = IR_KINT \<Longrightarrow> \<rho> (op2 J) = Some (V32 (ins_i (fright J)))"
    "ir_o (fright J) = IR_KINT64 \<Longrightarrow> \<rho> (op2 J) = Some (V64 (ir_k64 J (fright J)))"
    "int_op (ir_o (fright J)) \<Longrightarrow> ev \<rho> (fright J) = \<rho> (op2 J) \<and> REF_FIRST \<le> op2 J"
    "is_kop (ir_o (fright J)) \<Longrightarrow> irref_isk (op2 J) \<and> (ir_o (fright J) = IR_KINT \<or> ir_o (fright J) = IR_KINT64)"
    using w unfolding l irref_isk_def by simp_all
qed

text \<open>A constant that is an operand of an operand.\<close>

lemma inner_kint:
  assumes "fpre \<rho> J v" "\<rho> r = Some w" "ir_o (J_ir J r) = IR_KINT"
  shows "w = V32 (ins_i (J_ir J r))"
  using assms val_kint by (auto simp: fpre_def)

lemma inner_kint64:
  assumes "fpre \<rho> J v" "\<rho> r = Some w" "ir_o (J_ir J r) = IR_KINT64"
  shows "w = V64 (ir_k64 J (J_ir J r))"
  using assms val_kint64 by (auto simp: fpre_def)

text \<open>Rules for constants that are not integers do not apply.\<close>

lemma rule_ok_leftk:
  assumes "is_kop l" "l \<noteq> IR_KINT" "l \<noteq> IR_KINT64"
  shows "rule_ok op l r f"
  unfolding rule_ok_def
proof (intro allI impI, elim conjE)
  fix b E \<rho> J v
  assume pre: "fpre \<rho> J v" and l: "l = 0x7f \<or> ir_o (fleft J) = l"
  have "ir_o (fleft J) = l" using l assms(1) by (auto simp: is_kop_def)
  then show "case f E J of Inl e \<Rightarrow> e = FOLD_FUEL | Inr p \<Rightarrow> fout b \<rho> J v p" using left_kop[OF pre] assms by simp
qed

lemma rule_ok_rightk:
  assumes "is_kop r" "r \<noteq> IR_KINT" "r \<noteq> IR_KINT64" "\<not> un_op op"
  shows "rule_ok op l r f"
  unfolding rule_ok_def
proof (intro allI impI, elim conjE)
  fix b E \<rho> J v
  assume pre: "fpre \<rho> J v" and r: "r = 0x3ff \<or> rkey J = r" and o: "fo J = op"
  have u: "\<not> un_op (fo J)" using o assms(4) by simp
  have "ir_o (fright J) = r" using r assms(1) right_key[OF pre u] by (auto simp: is_kop_def)
  then show "case f E J of Inl e \<Rightarrow> e = FOLD_FUEL | Inr p \<Rightarrow> fout b \<rho> J v p" using right_kop[OF pre u] assms by simp
qed

text \<open>The keys of a binary operation are the opcodes of its operands.\<close>

lemma rule_binI:
  assumes "\<not> un_op op"
    "\<And>b \<rho> J v. fpre \<rho> J v \<Longrightarrow> ir_room J \<Longrightarrow> fo J = op \<Longrightarrow> l = 0x7f \<or> ir_o (fleft J) = l \<Longrightarrow>
      r = 0x3ff \<or> ir_o (fright J) = r \<Longrightarrow> ev \<rho> (fins J) = Some v \<Longrightarrow> fout b \<rho> J v (f J)"
  shows "rule_ok op l r (pure_rule f)"
  using assms right_key by (intro rule_okI) (auto simp: fpre_def)

section \<open>Constant folding\<close>

lemma kfold_intarith_ok:
  assumes "bin_op op \<or> shift_op op"
  shows "rule_ok op IR_KINT IR_KINT (pure_rule kfold_intarith)"
proof (rule rule_binI)
  show u: "\<not> un_op op" using assms by (auto simp: op_defs)
  fix b \<rho> J v
  assume pre: "fpre \<rho> J v" and o: "fo J = op" and l: "IR_KINT = 0x7f \<or> ir_o (fleft J) = IR_KINT"
    and r: "IR_KINT = 0x3ff \<or> ir_o (fright J) = IR_KINT" and e: "ev \<rho> (fins J) = Some v"
  have u': "\<not> un_op (fo J)" using u o by simp
  have a: "\<rho> (op1 J) = Some (V32 (ins_i (fleft J)))" using left_kint[OF pre] l by simp
  have c: "\<rho> (op2 J) = Some (V32 (ins_i (fright J)))" using right_kint[OF pre u'] r by simp
  show "fout b \<rho> J v (kfold_intarith J)"
    unfolding kfold_intarith_def
  proof (rule fout_kint[OF pre])
    consider "shift_op (fo J)" | "fo J = IR_ADD \<or> fo J = IR_SUB" | "bin_op (fo J)" "fo J \<noteq> IR_ADD" "fo J \<noteq> IR_SUB"
      using assms o by blast
    then show "vsim (wide (fins J)) v (V32 (kfold_intop (ins_i (fleft J)) (ins_i (fright J)) (fo J)))"
    proof cases
      case 1
      with e show ?thesis by (cases rule: ev_shiftE) (use a c 1 in \<open>auto simp: kfold_intop_shift\<close>)
    next
      case 2
      from e 2 show ?thesis
      proof (cases rule: ev_asE)
        case (32 x y z)
        then show ?thesis using a c kfold_intop_bin by auto
      next
        case (64 x y)
        have "z32 \<rho> (op1 J)" "z32 \<rho> (op2 J)" using rdz_cases[OF 64(2)] rdz_cases[OF 64(3)] a c by (auto simp: z32_def)
        then show ?thesis using 64(5) by simp
      qed
    next
      case 3
      from e 3 show ?thesis by (cases rule: ev_binE) (use a c kfold_intop_bin in auto)
    qed
  qed
qed

lemma kfold_intarith_neg_ok: "rule_ok IR_NEG IR_KINT IR_KINT (pure_rule kfold_intarith)"
proof (rule rule_okI)
  fix b \<rho> J v
  assume pre: "fpre \<rho> J v" and o: "fo J = IR_NEG" and l: "IR_KINT = 0x7f \<or> ir_o (fleft J) = IR_KINT"
  have e: "ev \<rho> (fins J) = Some v" using pre by (simp add: fpre_def)
  have a: "\<rho> (op1 J) = Some (V32 (ins_i (fleft J)))" using left_kint[OF pre] l by simp
  have "vsim (wide (fins J)) v (V32 (- ins_i (fleft J)))"
    using e o
  proof (cases rule: ev_negE)
    case (32 x)
    then show ?thesis using a by simp
  next
    case (64 x)
    then show ?thesis using a by simp
  qed
  then show "fout b \<rho> J v (kfold_intarith J)"
    unfolding kfold_intarith_def o kfold_intop_neg by (rule fout_kint[OF pre])
qed

lemma kfold_int64arith_ok:
  assumes "bin_op64 op"
  shows "rule_ok op IR_KINT64 IR_KINT64 (pure_rule kfold_int64arith)"
proof (rule rule_binI)
  show u: "\<not> un_op op" using assms by (auto simp: op_defs)
  fix b \<rho> J v
  assume pre: "fpre \<rho> J v" and rm: "ir_room J" and o: "fo J = op" and l: "IR_KINT64 = 0x7f \<or> ir_o (fleft J) = IR_KINT64"
    and r: "IR_KINT64 = 0x3ff \<or> ir_o (fright J) = IR_KINT64" and e: "ev \<rho> (fins J) = Some v"
  have u': "\<not> un_op (fo J)" using u o by simp
  have a: "\<rho> (op1 J) = Some (V64 (ir_k64 J (fleft J)))" using left_kint64[OF pre] l by simp
  have c: "\<rho> (op2 J) = Some (V64 (ir_k64 J (fright J)))" using right_kint64[OF pre u'] r by simp
  have t: "t64 (fins J)" using ev_t[OF e] e a u' by (auto simp: ev_def t32_def ev32_def rd32_def)
  have "ev \<rho> (fins J) = Some (V64 (kfold_int64op (ir_k64 J (fleft J)) (ir_k64 J (fright J)) (fo J)))"
    by (rule ev_bin64[OF t _ a c]) (use assms o kfold_int64op_bin in auto)
  then show "fout b \<rho> J v (kfold_int64arith J)"
    unfolding kfold_int64arith_def using e by (intro fout_kint64[OF pre rm]) simp
qed

lemma kfold_int64shift_ok:
  assumes "shift_op op"
  shows "rule_ok op IR_KINT64 IR_KINT (pure_rule kfold_int64shift)"
proof (rule rule_binI)
  show u: "\<not> un_op op" using assms by (auto simp: op_defs)
  fix b \<rho> J v
  assume pre: "fpre \<rho> J v" and rm: "ir_room J" and o: "fo J = op" and l: "IR_KINT64 = 0x7f \<or> ir_o (fleft J) = IR_KINT64"
    and r: "IR_KINT = 0x3ff \<or> ir_o (fright J) = IR_KINT" and e: "ev \<rho> (fins J) = Some v"
  have u': "\<not> un_op (fo J)" "shift_op (fo J)" using u o assms by simp_all
  have a: "\<rho> (op1 J) = Some (V64 (ir_k64 J (fleft J)))" using left_kint64[OF pre] l by simp
  have c: "\<rho> (op2 J) = Some (V32 (ins_i (fright J)))" using right_kint[OF pre u'(1)] r by simp
  from e u'(2) have "v = V64 (lj_carith_shift64 (ir_k64 J (fleft J)) (ins_i (fright J) AND 63) (fo J - IR_BSHL))"
    by (cases rule: ev_shiftE) (use a c shift64_sem[OF u'(2)] in auto)
  then show "fout b \<rho> J v (kfold_int64shift J)"
    unfolding kfold_int64shift_def Let_def by (intro fout_kint64[OF pre rm]) simp
qed

lemma kfold_un32_ok:
  assumes "op = IR_BNOT \<or> op = IR_BSWAP"
  shows "rule_ok op IR_KINT 0 (pure_rule (\<lambda>J. INTFOLD (sem_un op (ins_i (fleft J))) J))"
proof (rule rule_okI)
  fix b \<rho> J v
  assume pre: "fpre \<rho> J v" and o: "fo J = op" and l: "IR_KINT = 0x7f \<or> ir_o (fleft J) = IR_KINT"
  have e: "ev \<rho> (fins J) = Some v" using pre by (simp add: fpre_def)
  have l': "ir_o (fleft J) = IR_KINT" using l by simp
  from e assms[folded o] have "v = V32 (sem_un (fo J) (ins_i (fleft J)))"
    by (cases rule: ev_unE) (use left_kint[OF pre l'] in auto)
  then show "fout b \<rho> J v (INTFOLD (sem_un op (ins_i (fleft J))) J)" using o by (intro fout_kint[OF pre]) simp
qed

lemma kfold_un64_ok:
  assumes "op = IR_BNOT \<or> op = IR_BSWAP"
  shows "rule_ok op IR_KINT64 0 (pure_rule (\<lambda>J. INT64FOLD (sem_un64 op (ir_k64 J (fleft J))) J))"
proof (rule rule_okI)
  fix b \<rho> J v
  assume pre: "fpre \<rho> J v" and rm: "ir_room J" and o: "fo J = op" and l: "IR_KINT64 = 0x7f \<or> ir_o (fleft J) = IR_KINT64"
  have e: "ev \<rho> (fins J) = Some v" using pre by (simp add: fpre_def)
  have l': "ir_o (fleft J) = IR_KINT64" using l by simp
  from e assms[folded o] have "v = V64 (sem_un64 (fo J) (ir_k64 J (fleft J)))"
    by (cases rule: ev_unE) (use left_kint64[OF pre l'] in auto)
  then show "fout b \<rho> J v (INT64FOLD (sem_un64 op (ir_k64 J (fleft J))) J)" using o by (intro fout_kint64[OF pre rm]) simp
qed

lemma kfold_un_ok:
  "rule_ok IR_BNOT IR_KINT 0 (pure_rule kfold_bnot)" "rule_ok IR_BSWAP IR_KINT 0 (pure_rule kfold_bswap)"
  "rule_ok IR_BNOT IR_KINT64 0 (pure_rule kfold_bnot64)" "rule_ok IR_BSWAP IR_KINT64 0 (pure_rule kfold_bswap64)"
proof -
  have eq: "kfold_bnot = (\<lambda>J. INTFOLD (sem_un IR_BNOT (ins_i (fleft J))) J)"
    "kfold_bswap = (\<lambda>J. INTFOLD (sem_un IR_BSWAP (ins_i (fleft J))) J)"
    "kfold_bnot64 = (\<lambda>J. INT64FOLD (sem_un64 IR_BNOT (ir_k64 J (fleft J))) J)"
    "kfold_bswap64 = (\<lambda>J. INT64FOLD (sem_un64 IR_BSWAP (ir_k64 J (fleft J))) J)"
    by (simp_all add: fun_eq_iff kfold_bnot_def kfold_bswap_def kfold_bnot64_def kfold_bswap64_def sem_un_def sem_un64_def)
  show "rule_ok IR_BNOT IR_KINT 0 (pure_rule kfold_bnot)" "rule_ok IR_BSWAP IR_KINT 0 (pure_rule kfold_bswap)"
    "rule_ok IR_BNOT IR_KINT64 0 (pure_rule kfold_bnot64)" "rule_ok IR_BSWAP IR_KINT64 0 (pure_rule kfold_bswap64)"
    unfolding eq by (rule kfold_un32_ok kfold_un64_ok, blast)+
qed

section \<open>Double negation, commutativity\<close>

lemma sem_un_twice: "un_op op \<Longrightarrow> sem_un op (sem_un op a) = a" "un_op op \<Longrightarrow> sem_un64 op (sem_un64 op c) = c"
  by (auto simp: un_op_def sem_un_def sem_un64_def bswap_bswap bswap64_bswap64)

lemma shortcut_leftleft_ok:
  assumes "un_op op"
  shows "rule_ok op op r (pure_rule shortcut_leftleft)"
proof (rule rule_okI)
  fix b \<rho> J v
  assume pre: "fpre \<rho> J v" and o: "fo J = op" and l: "op = 0x7f \<or> ir_o (fleft J) = op"
  have e: "ev \<rho> (fins J) = Some v" using pre by (simp add: fpre_def)
  have l': "ir_o (fleft J) = op" using l assms by (auto simp: un_op_def)
  then have li: "ev \<rho> (fleft J) = \<rho> (op1 J)" using left_int[OF pre] assms by (auto simp: op_defs)
  have "\<rho> (ir_op1 (fleft J)) = Some v"
  proof (cases "op = IR_NEG")
    case True
    have on: "fo J = IR_NEG" "ir_o (fleft J) = IR_NEG" using True o l' by simp_all
    from e on(1) show ?thesis
    proof (cases rule: ev_negE)
      case (32 a)
      have f: "ev \<rho> (fleft J) = Some (V32 a)" using 32 li by simp
      from f on(2) show ?thesis by (cases rule: ev_negE) (use 32 in auto)
    next
      case (64 a)
      have f: "ev \<rho> (fleft J) = Some (V64 a)" using 64 li by simp
      from f on(2) show ?thesis by (cases rule: ev_negE) (use 64 in auto)
    qed
  next
    case False
    then have on: "fo J = IR_BNOT \<or> fo J = IR_BSWAP" "ir_o (fleft J) = IR_BNOT \<or> ir_o (fleft J) = IR_BSWAP"
      using assms o l' by (auto simp: un_op_def)
    from e on(1) show ?thesis
    proof (cases rule: ev_unE)
      case (32 a)
      have f: "ev \<rho> (fleft J) = Some (V32 a)" using 32 li by simp
      from f on(2) show ?thesis by (cases rule: ev_unE) (use 32 o l' assms sem_un_twice in auto)
    next
      case (64 a)
      have f: "ev \<rho> (fleft J) = Some (V64 a)" using 64 li by simp
      from f on(2) show ?thesis by (cases rule: ev_unE) (use 64 o l' assms sem_un_twice in auto)
    qed
  qed
  then show "fout b \<rho> J v (shortcut_leftleft J)" by (auto simp: shortcut_leftleft_def intro: fout_ref[OF pre])
qed

text \<open>Exchanging the operands of a commutative operation.\<close>

lemma ev_swap:
  assumes "ev \<rho> i = Some v" "assoc_op (ir_o i)"
  shows "\<exists>w. ev \<rho> (i\<lparr>ir_op1 := ir_op2 i, ir_op2 := ir_op1 i\<rparr>) = Some w \<and> vsim (wide i) v w"
proof (cases "ir_o i = IR_ADD")
  case True
  then have as: "ir_o i = IR_ADD \<or> ir_o i = IR_SUB" by simp
  from assms(1) as show ?thesis
  proof (cases rule: ev_asE)
    case (32 a b c)
    then show ?thesis
    proof (cases "t32 i")
      case True
      then have "ev \<rho> (i\<lparr>ir_op1 := ir_op2 i, ir_op2 := ir_op1 i\<rparr>) = Some (V32 c)"
        using 32 \<open>ir_o i = IR_ADD\<close> by (intro ev_bin32[of _ _ b a]) (auto simp: op_defs)
      then show ?thesis using 32 by simp
    next
      case False
      then have "t64 i" "rdz \<rho> (ir_op1 i) = Some 0" "rdz \<rho> (ir_op2 i) = Some 0" "c = 0"
        using 32 True by (auto simp: rdz_def z32_def)
      then show ?thesis using ev_as64[of "i\<lparr>ir_op1 := ir_op2 i, ir_op2 := ir_op1 i\<rparr>" \<rho> 0 0] 32(5) as True
        by (auto simp: sem_as_def vsim_def)
    qed
  next
    case (64 a b)
    then show ?thesis using ev_as64[of "i\<lparr>ir_op1 := ir_op2 i, ir_op2 := ir_op1 i\<rparr>" \<rho> b a] True
      by (auto simp: sem_as_def add.commute)
  qed
next
  case False
  then have bin: "bin_op (ir_o i)" "ir_o i \<noteq> IR_ADD" "ir_o i \<noteq> IR_SUB" using assms(2) by (auto simp: assoc_op_def op_defs)
  from assms(1) bin have "ev \<rho> (i\<lparr>ir_op1 := ir_op2 i, ir_op2 := ir_op1 i\<rparr>) = Some v"
  proof (cases rule: ev_binE)
    case (32 a b c)
    then show ?thesis using bin sem_comm[OF assms(2), of a b] by (simp add: ev_bin32)
  next
    case (64 a b c)
    then show ?thesis using sem_comm[OF assms(2), of a b] by (simp add: ev_bin64)
  qed
  then show ?thesis by simp
qed

lemma comm_swap_fout:
  assumes pre: "fpre \<rho> J v" and o: "assoc_op (fo J)"
  shows "fout b \<rho> J v (comm_swap J)"
proof (cases "op1 J < op2 J")
  case True
  have e: "ev \<rho> (fins J) = Some v" using pre by (simp add: fpre_def)
  let ?i = "(fins J)\<lparr>ir_op1 := op2 J, ir_op2 := op1 J\<rparr>"
  obtain w where w: "ev \<rho> ?i = Some w" "vsim (wide (fins J)) v w" using ev_swap[OF e o] by auto
  have "fout b \<rho> J v (RETRYFOLD, J\<lparr>J_ins := ?i\<rparr>)"
    by (rule fout_retry[OF pre _ _ w]) (use o in \<open>auto simp: assoc_op_def op_defs\<close>)
  then show ?thesis using True by (simp add: comm_swap_def fold_set)
qed (simp add: comm_swap_def)

lemma comm_swap_ok: "assoc_op op \<Longrightarrow> rule_ok op l r (pure_rule comm_swap)"
  by (intro rule_okI) (simp add: comm_swap_fout)

lemma comm_dup_ok:
  assumes "idem_op op"
  shows "rule_ok op l r (pure_rule comm_dup)"
proof (rule rule_okI)
  fix b \<rho> J v
  assume pre: "fpre \<rho> J v" and o: "fo J = op"
  have e: "ev \<rho> (fins J) = Some v" using pre by (simp add: fpre_def)
  have op: "assoc_op (fo J)" "bin_op (fo J)" "fo J \<noteq> IR_ADD" "fo J \<noteq> IR_SUB" "idem_op (fo J)"
    using assms o by (auto simp: idem_op_def assoc_op_def op_defs)
  have "\<rho> (op1 J) = Some v" if "op1 J = op2 J"
    using e op(2-4) by (cases rule: ev_binE) (use that op(5) in \<open>auto simp: sem_dup\<close>)
  then show "fout b \<rho> J v (comm_dup J)"
    using comm_swap_fout[OF pre op(1)] fout_ref[OF pre] by (simp add: comm_dup_def)
qed

lemma zero_fold_fout:
  assumes pre: "fpre \<rho> J v" and rm: "ir_room J" and v: "v = (if wide (fins J) then V64 0 else V32 0) \<or> wide (fins J) \<and> v = V32 0"
  shows "fout b \<rho> J v (zero_fold J)"
proof -
  have "t32 (fins J) \<or> t64 (fins J)" using pre ev_t by (auto simp: fpre_def)
  then have "irt_is64 (ir_t (fins J)) = wide (fins J)" by (auto simp: t32_def t64_def wide_def irt_is64_def)
  then show ?thesis using v fout_kint[OF pre, of 0] fout_kint64[OF pre rm, of 0] by (auto simp: zero_fold_def vsim_def)
qed

lemma comm_bxor_ok: "rule_ok IR_BXOR l r (pure_rule comm_bxor)"
proof (rule rule_okI)
  fix b \<rho> J v
  assume pre: "fpre \<rho> J v" and rm: "ir_room J" and o: "fo J = IR_BXOR"
  have e: "ev \<rho> (fins J) = Some v" using pre by (simp add: fpre_def)
  have op: "assoc_op (fo J)" "bin_op (fo J)" "fo J \<noteq> IR_ADD" "fo J \<noteq> IR_SUB" using o by (auto simp: assoc_op_def op_defs)
  have "v = (if wide (fins J) then V64 0 else V32 0)" if "op1 J = op2 J"
    using e op(2-4) by (cases rule: ev_binE) (use that o in auto)
  then show "fout b \<rho> J v (comm_bxor J)"
    using comm_swap_fout[OF pre op(1)] zero_fold_fout[OF pre rm] by (auto simp: comm_bxor_def)
qed

section \<open>Additions and subtractions\<close>

text \<open>The values of the operands of an addition or subtraction, and what follows for the instruction that replaces it:
  \<open>adds\<close> is the sum of signed operands as a 32 or 64 bit value.\<close>

lemma as32_I:
  assumes "t32 i" "ir_o i = IR_ADD \<or> ir_o i = IR_SUB" "\<rho> (ir_op1 i) = Some (V32 a)" "\<rho> (ir_op2 i) = Some (V32 b)"
  shows "ev \<rho> i = Some (V32 (if ir_o i = IR_ADD then a + b else a - b))"
  using assms by (intro ev_bin32) (auto simp: op_defs)

text \<open>An addition or subtraction of 32 bits, or one of 64 bits, whose operands may be the short zero.\<close>

lemma ev_as_cases:
  assumes "ev \<rho> i = Some v" "ir_o i = IR_ADD \<or> ir_o i = IR_SUB"
  obtains (32) a b where "t32 i" "\<rho> (ir_op1 i) = Some (V32 a)" "\<rho> (ir_op2 i) = Some (V32 b)"
    "v = V32 (if ir_o i = IR_ADD then a + b else a - b)"
  | (64) a b where "t64 i" "rdz \<rho> (ir_op1 i) = Some a" "rdz \<rho> (ir_op2 i) = Some b" "vsim True (V64 (sem_as (ir_o i) a b)) v"
  using assms
proof (cases rule: ev_asE)
  case (32 a b c)
  show thesis
  proof (cases "t32 i")
    case True
    then show thesis using that(1)[OF True 32(2,3)] 32(4,5) assms(2) by auto
  next
    case False
    then have z: "t64 i" "rdz \<rho> (ir_op1 i) = Some 0" "rdz \<rho> (ir_op2 i) = Some 0" using 32 by (auto simp: rdz_def)
    moreover have "a = 0" "b = 0" using 32 False by (auto simp: z32_def)
    then have "vsim True (V64 (sem_as (ir_o i) 0 0)) v" using 32(4,5) assms(2) by (auto simp: sem_as_def vsim_def)
    ultimately show thesis using that(2) by blast
  qed
next
  case (64 a b)
  then show thesis using that(2) by simp
qed

lemma ev_neg_cases:
  assumes "ev \<rho> i = Some v" "ir_o i = IR_NEG"
  obtains (32) a where "t32 i" "\<rho> (ir_op1 i) = Some (V32 a)" "v = V32 (- a)"
  | (64) a where "t64 i" "rdz \<rho> (ir_op1 i) = Some a" "vsim True (V64 (- a)) v"
  using assms
proof (cases rule: ev_negE)
  case (32 a)
  show thesis
  proof (cases "t32 i")
    case False
    then have "t64 i" "rdz \<rho> (ir_op1 i) = Some 0" "a = 0" using 32 by (auto simp: rdz_def z32_def)
    then show thesis using that(2)[of 0] 32 by (auto simp: vsim_def)
  qed (use that(1) 32 in blast)
next
  case (64 a)
  then show thesis using that(2)[of a] rdz_strict by auto
qed

text \<open>An operand that is itself an instruction has a value of its own width: read as a 64 bit value it is a 64 bit
  instruction, and the operation of that instruction yields it exactly.\<close>

lemma inner_as32:
  assumes "ev \<rho> i = Some (V32 c)" "ir_o i = IR_ADD \<or> ir_o i = IR_SUB"
  obtains a b where "\<rho> (ir_op1 i) = Some (V32 a)" "\<rho> (ir_op2 i) = Some (V32 b)"
    "c = (if ir_o i = IR_ADD then a + b else a - b)"
  using assms by (cases rule: ev_asE) (use assms(2) in auto)

lemma inner_as64:
  assumes "ev \<rho> i = Some (V64 c)" "ir_o i = IR_ADD \<or> ir_o i = IR_SUB"
  obtains a b where "rdz \<rho> (ir_op1 i) = Some a" "rdz \<rho> (ir_op2 i) = Some b" "c = sem_as (ir_o i) a b"
  using assms by (cases rule: ev_asE) auto

lemma inner_neg32:
  assumes "ev \<rho> i = Some (V32 c)" "ir_o i = IR_NEG"
  obtains a where "\<rho> (ir_op1 i) = Some (V32 a)" "c = - a"
  using assms by (cases rule: ev_negE) auto

lemma inner_neg64:
  assumes "ev \<rho> i = Some (V64 c)" "ir_o i = IR_NEG"
  obtains a where "\<rho> (ir_op1 i) = Some (V64 a)" "c = - a"
  using assms by (cases rule: ev_negE) auto

lemma rdz_ins: "rdz \<rho> r = Some a \<Longrightarrow> REF_FIRST \<le> r \<Longrightarrow> \<rho> r = Some (V64 a)"
  using rdz_cases[of \<rho> r a] by (auto simp: irref_isk_def ref_defs)

lemma vsim_left: "vsim w u v \<Longrightarrow> vsim w u x \<Longrightarrow> vsim w v x"
  by (auto simp: vsim_def)

text \<open>The two ways in which the rules for additions and subtractions end: an operand of the right value, or a new
  addition or subtraction of the right value.\<close>

lemma as_ref:
  assumes pre: "fpre \<rho> J v" and as: "fo J = IR_ADD \<or> fo J = IR_SUB"
    and 32: "\<And>a b. \<rho> (op1 J) = Some (V32 a) \<Longrightarrow> \<rho> (op2 J) = Some (V32 b) \<Longrightarrow>
      \<rho> r = Some (V32 (if fo J = IR_ADD then a + b else a - b))"
    and 64: "\<And>a b. rdz \<rho> (op1 J) = Some a \<Longrightarrow> rdz \<rho> (op2 J) = Some b \<Longrightarrow> rdz \<rho> r = Some (sem_as (fo J) a b)"
  shows "fout b \<rho> J v (FoldRef r, J)"
proof -
  have e: "ev \<rho> (fins J) = Some v" using pre by (simp add: fpre_def)
  from e as show ?thesis
  proof (cases rule: ev_as_cases)
    case 32: (32 x y)
    then show ?thesis using assms(3)[OF 32(2,3)] by (intro fout_ref[OF pre]) auto
  next
    case 64: (64 x y)
    obtain w where w: "\<rho> r = Some w" "vsim True (V64 (sem_as (fo J) x y)) w" using rdz_sim[OF assms(4)[OF 64(2,3)]] by blast
    then show ?thesis using vsim_left[OF 64(4) w(2)] 64(1) by (intro fout_ref[OF pre w(1)]) simp
  qed
qed

lemma as_retry:
  assumes e: "ev \<rho> i0 = Some v" and as: "ir_o i0 = IR_ADD \<or> ir_o i0 = IR_SUB"
    and i: "ir_o i = IR_ADD \<or> ir_o i = IR_SUB" "ir_t i = ir_t i0"
    and 32: "\<And>a b. \<rho> (ir_op1 i0) = Some (V32 a) \<Longrightarrow> \<rho> (ir_op2 i0) = Some (V32 b) \<Longrightarrow>
      \<exists>c d. \<rho> (ir_op1 i) = Some (V32 c) \<and> \<rho> (ir_op2 i) = Some (V32 d) \<and>
        (if ir_o i = IR_ADD then c + d else c - d) = (if ir_o i0 = IR_ADD then a + b else a - b)"
    and 64: "\<And>a b. rdz \<rho> (ir_op1 i0) = Some a \<Longrightarrow> rdz \<rho> (ir_op2 i0) = Some b \<Longrightarrow>
      \<exists>c d. rdz \<rho> (ir_op1 i) = Some c \<and> rdz \<rho> (ir_op2 i) = Some d \<and> sem_as (ir_o i) c d = sem_as (ir_o i0) a b"
  shows "\<exists>w. ev \<rho> i = Some w \<and> vsim (wide i0) v w"
proof -
  have t: "t32 i = t32 i0" "t64 i = t64 i0" using i(2) by (simp_all add: t32_def t64_def)
  from e as show ?thesis
  proof (cases rule: ev_as_cases)
    case 32: (32 x y)
    obtain c d where cd: "\<rho> (ir_op1 i) = Some (V32 c)" "\<rho> (ir_op2 i) = Some (V32 d)"
      "(if ir_o i = IR_ADD then c + d else c - d) = (if ir_o i0 = IR_ADD then x + y else x - y)"
      using assms(5)[OF 32(2,3)] by blast
    then show ?thesis using as32_I[OF _ i(1) cd(1,2)] t 32(1,4) by auto
  next
    case 64: (64 x y)
    obtain c d where cd: "rdz \<rho> (ir_op1 i) = Some c" "rdz \<rho> (ir_op2 i) = Some d" "sem_as (ir_o i) c d = sem_as (ir_o i0) x y"
      using assms(6)[OF 64(2,3)] by blast
    then obtain w where w: "ev \<rho> i = Some w" "vsim True (V64 (sem_as (ir_o i0) x y)) w"
      using ev_as64[OF _ i(1) cd(1,2)] t 64(1) by auto
    then show ?thesis using vsim_left[OF 64(4) w(2)] 64(1) by auto
  qed
qed

text \<open>Which opcodes the tables mention.\<close>

lemma as_ops: "fo J = IR_ADD \<or> fo J = IR_SUB \<Longrightarrow> \<not> un_op (fo J) \<and> \<not> heavy (fo J) \<and> int_op (fo J)"
  by (auto simp: op_defs heavy_def)

lemma as_fout_retry:
  assumes pre: "fpre \<rho> J v" and as: "fo J = IR_ADD \<or> fo J = IR_SUB" and i: "ir_o i = IR_ADD \<or> ir_o i = IR_SUB" "ir_t i = ir_t (fins J)"
    and 32: "\<And>a b. \<rho> (op1 J) = Some (V32 a) \<Longrightarrow> \<rho> (op2 J) = Some (V32 b) \<Longrightarrow>
      \<exists>c d. \<rho> (ir_op1 i) = Some (V32 c) \<and> \<rho> (ir_op2 i) = Some (V32 d) \<and>
        (if ir_o i = IR_ADD then c + d else c - d) = (if fo J = IR_ADD then a + b else a - b)"
    and 64: "\<And>a b. rdz \<rho> (op1 J) = Some a \<Longrightarrow> rdz \<rho> (op2 J) = Some b \<Longrightarrow>
      \<exists>c d. rdz \<rho> (ir_op1 i) = Some c \<and> rdz \<rho> (ir_op2 i) = Some d \<and> sem_as (ir_o i) c d = sem_as (fo J) a b"
  shows "fout b \<rho> J v (RETRYFOLD, J\<lparr>J_ins := i\<rparr>)"
proof -
  have e: "ev \<rho> (fins J) = Some v" using pre by (simp add: fpre_def)
  obtain w where w: "ev \<rho> i = Some w" "vsim (wide (fins J)) v w" using as_retry[OF e as i 32 64] by blast
  show ?thesis by (rule fout_retry[OF pre _ _ w]) (use i in \<open>auto simp: op_defs heavy_def wide_def\<close>)
qed

lemma simplify_numadd_negx_ok: "rule_ok IR_ADD IR_NEG r (pure_rule simplify_numadd_negx)"
proof (rule rule_binI)
  show "\<not> un_op IR_ADD" by (simp add: op_defs)
  fix b \<rho> J v
  assume pre: "fpre \<rho> J v" and o: "fo J = IR_ADD" and l: "IR_NEG = 0x7f \<or> ir_o (fleft J) = IR_NEG"
  have l': "ir_o (fleft J) = IR_NEG" using l by simp
  have li: "ev \<rho> (fleft J) = \<rho> (op1 J)" "REF_FIRST \<le> op1 J" using left_int[OF pre] l' by (auto simp: op_defs)
  let ?i = "(fins J)\<lparr>ir_o := IR_SUB, ir_op1 := op2 J, ir_op2 := ir_op1 (fleft J)\<rparr>"
  have "fout b \<rho> J v (RETRYFOLD, J\<lparr>J_ins := ?i\<rparr>)"
  proof (rule as_fout_retry[OF pre])
    fix x y assume xy: "\<rho> (op1 J) = Some (V32 x)" "\<rho> (op2 J) = Some (V32 y)"
    obtain a where "\<rho> (ir_op1 (fleft J)) = Some (V32 a)" "x = - a" using inner_neg32 li(1) xy(1) l' by metis
    then show "\<exists>c d. \<rho> (ir_op1 ?i) = Some (V32 c) \<and> \<rho> (ir_op2 ?i) = Some (V32 d) \<and>
        (if ir_o ?i = IR_ADD then c + d else c - d) = (if fo J = IR_ADD then x + y else x - y)" using xy o by auto
  next
    fix x y assume xy: "rdz \<rho> (op1 J) = Some x" "rdz \<rho> (op2 J) = Some y"
    have "ev \<rho> (fleft J) = Some (V64 x)" using rdz_ins[OF xy(1)] li by simp
    then obtain a where "\<rho> (ir_op1 (fleft J)) = Some (V64 a)" "x = - a" using inner_neg64 l' by metis
    then show "\<exists>c d. rdz \<rho> (ir_op1 ?i) = Some c \<and> rdz \<rho> (ir_op2 ?i) = Some d \<and> sem_as (ir_o ?i) c d = sem_as (fo J) x y"
      using xy o rdz_strict by (auto simp: sem_as_def)
  qed (use o in auto)
  then show "fout b \<rho> J v (simplify_numadd_negx J)" by (simp add: simplify_numadd_negx_def fold_set)
qed

text \<open>The right operand is a negation: \<open>a + -b\<close> and \<open>a - -b\<close>.\<close>

lemma xneg_fout:
  assumes pre: "fpre \<rho> J v" and o: "fo J = IR_ADD \<and> o' = IR_SUB \<or> fo J = IR_SUB \<and> o' = IR_ADD" and r: "ir_o (fright J) = IR_NEG"
  shows "fout b \<rho> J v (RETRYFOLD, fins_op2 (ir_op1 (fright J)) (fins_o o' J))"
proof -
  have u: "\<not> un_op (fo J)" using o by (auto simp: op_defs)
  have ri: "ev \<rho> (fright J) = \<rho> (op2 J)" "REF_FIRST \<le> op2 J" using right_int[OF pre u] r by (auto simp: op_defs)
  let ?i = "(fins J)\<lparr>ir_o := o', ir_op2 := ir_op1 (fright J)\<rparr>"
  have "fout b \<rho> J v (RETRYFOLD, J\<lparr>J_ins := ?i\<rparr>)"
  proof (rule as_fout_retry[OF pre])
    fix x y assume xy: "\<rho> (op1 J) = Some (V32 x)" "\<rho> (op2 J) = Some (V32 y)"
    obtain a where "\<rho> (ir_op1 (fright J)) = Some (V32 a)" "y = - a" using inner_neg32 ri(1) xy(2) r by metis
    then show "\<exists>c d. \<rho> (ir_op1 ?i) = Some (V32 c) \<and> \<rho> (ir_op2 ?i) = Some (V32 d) \<and>
        (if ir_o ?i = IR_ADD then c + d else c - d) = (if fo J = IR_ADD then x + y else x - y)" using xy o by auto
  next
    fix x y assume xy: "rdz \<rho> (op1 J) = Some x" "rdz \<rho> (op2 J) = Some y"
    have "ev \<rho> (fright J) = Some (V64 y)" using rdz_ins[OF xy(2)] ri by simp
    then obtain a where "\<rho> (ir_op1 (fright J)) = Some (V64 a)" "y = - a" using inner_neg64 r by metis
    then show "\<exists>c d. rdz \<rho> (ir_op1 ?i) = Some c \<and> rdz \<rho> (ir_op2 ?i) = Some d \<and> sem_as (ir_o ?i) c d = sem_as (fo J) x y"
      using xy o rdz_strict by (auto simp: sem_as_def)
  qed (use o in auto)
  then show ?thesis by (simp add: fold_set)
qed

lemma simplify_xneg_ok:
  "rule_ok IR_ADD l IR_NEG (pure_rule simplify_numadd_xneg)" "rule_ok IR_SUB l IR_NEG (pure_rule simplify_numsub_xneg)"
  by (rule rule_binI; simp add: op_defs simplify_numadd_xneg_def simplify_numsub_xneg_def xneg_fout)+

section \<open>Operands that cancel\<close>

lemma rdz_left_kint:
  assumes "\<rho> r = Some (V32 k)" "rdz \<rho> r = Some a"
  shows "k = 0" "a = 0"
  using rdz_cases[OF assms(2)] assms(1) by auto

lemma simplify_intadd_k_ok: "rule_ok IR_ADD l IR_KINT (pure_rule simplify_intadd_k)"
proof (rule rule_binI)
  show "\<not> un_op IR_ADD" by (simp add: op_defs)
  fix b \<rho> J v
  assume pre: "fpre \<rho> J v" and o: "fo J = IR_ADD" and r: "IR_KINT = 0x3ff \<or> ir_o (fright J) = IR_KINT"
  have u: "\<not> un_op (fo J)" using o by (simp add: op_defs)
  have k: "\<rho> (op2 J) = Some (V32 (ins_i (fright J)))" using right_kint[OF pre u] r by simp
  show "fout b \<rho> J v (simplify_intadd_k J)"
  proof (cases "ins_i (fright J) = 0")
    case True
    have "fout b \<rho> J v (FoldRef (op1 J), J)"
      by (rule as_ref[OF pre]) (use o k True rdz_left_kint[of \<rho> "op2 J"] in \<open>auto simp: sem_as_def\<close>)
    then show ?thesis using True by (simp add: simplify_intadd_k_def)
  qed (simp add: simplify_intadd_k_def)
qed

lemma simplify_intsub_k_ok: "rule_ok IR_SUB l IR_KINT (pure_rule simplify_intsub_k)"
proof (rule rule_binI)
  show "\<not> un_op IR_SUB" by (simp add: op_defs)
  fix b \<rho> J v
  assume pre: "fpre \<rho> J v" and rm: "ir_room J" and o: "fo J = IR_SUB" and r: "IR_KINT = 0x3ff \<or> ir_o (fright J) = IR_KINT"
  have u: "\<not> un_op (fo J)" using o by (simp add: op_defs)
  let ?k = "ins_i (fright J)"
  have k: "\<rho> (op2 J) = Some (V32 ?k)" using right_kint[OF pre u] r by simp
  show "fout b \<rho> J v (simplify_intsub_k J)"
  proof (cases "?k = 0")
    case True
    have "fout b \<rho> J v (FoldRef (op1 J), J)"
      by (rule as_ref[OF pre]) (use o k True rdz_left_kint[of \<rho> "op2 J"] in \<open>auto simp: sem_as_def\<close>)
    then show ?thesis using True by (simp add: simplify_intsub_k_def)
  next
    case False
    let ?i = "(fins J)\<lparr>ir_o := IR_ADD\<rparr>"
    have "fout b \<rho> J v (let (r, J1) = lj_ir_kint (- ?k) (J\<lparr>J_ins := ?i\<rparr>) in (RETRYFOLD, fins_op2 r J1))"
    proof (rule fout_retry_k[OF pre rm])
      fix \<rho>' r assume m: "\<rho> \<subseteq>\<^sub>m \<rho>'" "\<rho>' r = Some (V32 (- ?k))"
      have e: "ev \<rho>' (fins J) = Some v" using pre m(1) by (auto simp: fpre_def intro: ev_mono)
      have k': "\<rho>' (op2 J) = Some (V32 ?k)" by (rule map_leD[OF m(1) k])
      show "\<exists>w. ev \<rho>' (?i\<lparr>ir_op2 := r\<rparr>) = Some w \<and> vsim (wide (fins J)) v w"
        by (rule as_retry[OF e]) (use o m(2) k' False rdz_left_kint[of \<rho>' "op2 J"] in auto)
    qed (auto simp: op_defs heavy_def)
    then show ?thesis using False by (simp add: simplify_intsub_k_def fold_set)
  qed
qed

lemma simplify_intadd_k64_ok: "rule_ok IR_ADD l IR_KINT64 (pure_rule simplify_intadd_k64)"
proof (rule rule_binI)
  show "\<not> un_op IR_ADD" by (simp add: op_defs)
  fix b \<rho> J v
  assume pre: "fpre \<rho> J v" and o: "fo J = IR_ADD" and r: "IR_KINT64 = 0x3ff \<or> ir_o (fright J) = IR_KINT64"
  have u: "\<not> un_op (fo J)" using o by (simp add: op_defs)
  have k: "\<rho> (op2 J) = Some (V64 (ir_k64 J (fright J)))" using right_kint64[OF pre u] r by simp
  show "fout b \<rho> J v (simplify_intadd_k64 J)"
  proof (cases "ir_k64 J (fright J) = 0")
    case True
    have "fout b \<rho> J v (FoldRef (op1 J), J)"
      by (rule as_ref[OF pre]) (use o k True rdz_strict[of \<rho> "op2 J"] in \<open>auto simp: sem_as_def\<close>)
    then show ?thesis using True by (simp add: simplify_intadd_k64_def)
  qed (simp add: simplify_intadd_k64_def)
qed

lemma simplify_intsub_k64_ok: "rule_ok IR_SUB l IR_KINT64 (pure_rule simplify_intsub_k64)"
proof (rule rule_binI)
  show "\<not> un_op IR_SUB" by (simp add: op_defs)
  fix b \<rho> J v
  assume pre: "fpre \<rho> J v" and rm: "ir_room J" and o: "fo J = IR_SUB" and r: "IR_KINT64 = 0x3ff \<or> ir_o (fright J) = IR_KINT64"
  have u: "\<not> un_op (fo J)" using o by (simp add: op_defs)
  let ?k = "ir_k64 J (fright J)"
  have k: "\<rho> (op2 J) = Some (V64 ?k)" using right_kint64[OF pre u] r by simp
  show "fout b \<rho> J v (simplify_intsub_k64 J)"
  proof (cases "?k = 0")
    case True
    have "fout b \<rho> J v (FoldRef (op1 J), J)"
      by (rule as_ref[OF pre]) (use o k True rdz_strict[of \<rho> "op2 J"] in \<open>auto simp: sem_as_def\<close>)
    then show ?thesis using True by (simp add: simplify_intsub_k64_def)
  next
    case False
    let ?i = "(fins J)\<lparr>ir_o := IR_ADD\<rparr>"
    have "fout b \<rho> J v (let (r, J1) = lj_ir_kint64 (- ?k) (J\<lparr>J_ins := ?i\<rparr>) in (RETRYFOLD, fins_op2 r J1))"
    proof (rule fout_retry_k64[OF pre rm])
      fix \<rho>' r assume m: "\<rho> \<subseteq>\<^sub>m \<rho>'" "\<rho>' r = Some (V64 (- ?k))"
      have e: "ev \<rho>' (fins J) = Some v" using pre m(1) by (auto simp: fpre_def intro: ev_mono)
      have k': "\<rho>' (op2 J) = Some (V64 ?k)" by (rule map_leD[OF m(1) k])
      show "\<exists>w. ev \<rho>' (?i\<lparr>ir_op2 := r\<rparr>) = Some w \<and> vsim (wide (fins J)) v w"
        by (rule as_retry[OF e]) (use o m(2) rdz_strict[of \<rho>' r] rdz_strict[of \<rho>' "op2 J"] k' in \<open>auto simp: sem_as_def\<close>)
    qed (auto simp: op_defs heavy_def)
    then show ?thesis using False by (simp add: simplify_intsub_k64_def fold_set)
  qed
qed

lemma simplify_intsub_kleft_ok:
  assumes "k = IR_KINT \<or> k = IR_KINT64"
  shows "rule_ok IR_SUB k r (pure_rule simplify_intsub_kleft)"
proof (rule rule_binI)
  show "\<not> un_op IR_SUB" by (simp add: op_defs)
  fix b \<rho> J v
  assume pre: "fpre \<rho> J v" and o: "fo J = IR_SUB" and l: "k = 0x7f \<or> ir_o (fleft J) = k" and e: "ev \<rho> (fins J) = Some v"
  have k: "ir_o (fleft J) = IR_KINT \<Longrightarrow> \<rho> (op1 J) = Some (V32 (ins_i (fleft J)))"
    "ir_o (fleft J) = IR_KINT64 \<Longrightarrow> \<rho> (op1 J) = Some (V64 (ir_k64 J (fleft J)))"
    using left_kint[OF pre] left_kint64[OF pre] by blast+
  have kk: "ir_o (fleft J) = IR_KINT \<or> ir_o (fleft J) = IR_KINT64" using l assms by auto
  let ?z = "if ir_o (fleft J) = IR_KINT then ins_i (fleft J) = 0 else ir_k64 J (fleft J) = 0"
  show "fout b \<rho> J v (simplify_intsub_kleft J)"
  proof (cases ?z)
    case True
    let ?i = "(fins J)\<lparr>ir_o := IR_NEG, ir_op1 := op2 J\<rparr>"
    have z: "\<rho> (op1 J) = Some (V32 x) \<Longrightarrow> x = 0" "rdz \<rho> (op1 J) = Some y \<Longrightarrow> y = 0" for x y
      using k kk True rdz_cases[of \<rho> "op1 J" y] by auto
    have "fo J = IR_ADD \<or> fo J = IR_SUB" using o by simp
    with e obtain w where w: "ev \<rho> ?i = Some w" "vsim (wide (fins J)) v w"
    proof (cases rule: ev_as_cases)
      case (32 x y)
      then show ?thesis using z(1) o that[of "V32 (- y)"] ev_un32[of ?i \<rho> y] by (auto simp: op_defs sem_un_def)
    next
      case (64 x y)
      have "x = 0" by (rule z(2)[OF 64(2)])
      moreover obtain w where "ev \<rho> ?i = Some w" "vsim True (V64 (- y)) w" using ev_neg64[of ?i \<rho> y] 64 by auto
      ultimately show ?thesis using that[of w] 64 o vsim_left[of True "V64 (- y)" v w] by (auto simp: sem_as_def)
    qed
    have "op2 J < J_nins J" using pre by (simp add: fpre_def)
    then have "fout b \<rho> J v (RETRYFOLD, J\<lparr>J_ins := ?i\<rparr>)" by (intro fout_retry[OF pre _ _ w]) (auto simp: op_defs heavy_def)
    then show ?thesis using True by (simp add: simplify_intsub_kleft_def fold_set)
  qed (simp add: simplify_intsub_kleft_def)
qed

lemma simplify_intsub_ok: "rule_ok IR_SUB l r (pure_rule simplify_intsub)"
proof (rule rule_binI)
  show "\<not> un_op IR_SUB" by (simp add: op_defs)
  fix b \<rho> J v
  assume pre: "fpre \<rho> J v" and rm: "ir_room J" and o: "fo J = IR_SUB" and e: "ev \<rho> (fins J) = Some v"
  have "fo J = IR_ADD \<or> fo J = IR_SUB" using o by simp
  with e have "v = (if wide (fins J) then V64 0 else V32 0) \<or> wide (fins J) \<and> v = V32 0" if "op1 J = op2 J"
    by (cases rule: ev_as_cases) (use that o in \<open>auto simp: sem_as_def vsim_def\<close>)
  then show "fout b \<rho> J v (simplify_intsub J)" using zero_fold_fout[OF pre rm] by (simp add: simplify_intsub_def)
qed

text \<open>The operands of a left or right operand that is itself an addition or subtraction.\<close>

lemma left_as:
  assumes pre: "fpre \<rho> J v" and l: "ir_o (fleft J) = IR_ADD \<or> ir_o (fleft J) = IR_SUB"
  shows "\<rho> (op1 J) = Some (V32 x) \<Longrightarrow> \<exists>a b. \<rho> (ir_op1 (fleft J)) = Some (V32 a) \<and> \<rho> (ir_op2 (fleft J)) = Some (V32 b) \<and>
      x = (if ir_o (fleft J) = IR_ADD then a + b else a - b)"
    and "rdz \<rho> (op1 J) = Some y \<Longrightarrow> \<exists>a b. rdz \<rho> (ir_op1 (fleft J)) = Some a \<and> rdz \<rho> (ir_op2 (fleft J)) = Some b \<and>
      y = sem_as (ir_o (fleft J)) a b"
proof -
  have li: "ev \<rho> (fleft J) = \<rho> (op1 J)" "REF_FIRST \<le> op1 J" using left_int[OF pre] l by (auto simp: op_defs)
  show "\<exists>a b. \<rho> (ir_op1 (fleft J)) = Some (V32 a) \<and> \<rho> (ir_op2 (fleft J)) = Some (V32 b) \<and>
      x = (if ir_o (fleft J) = IR_ADD then a + b else a - b)" if "\<rho> (op1 J) = Some (V32 x)"
    using inner_as32[OF _ l, of \<rho> x] that li(1) by metis
  show "\<exists>a b. rdz \<rho> (ir_op1 (fleft J)) = Some a \<and> rdz \<rho> (ir_op2 (fleft J)) = Some b \<and>
      y = sem_as (ir_o (fleft J)) a b" if "rdz \<rho> (op1 J) = Some y"
    using inner_as64[OF _ l, of \<rho> y] rdz_ins[OF that li(2)] li(1) by metis
qed

lemma right_as:
  assumes pre: "fpre \<rho> J v" and u: "\<not> un_op (fo J)" and r: "ir_o (fright J) = IR_ADD \<or> ir_o (fright J) = IR_SUB"
  shows "\<rho> (op2 J) = Some (V32 x) \<Longrightarrow> \<exists>a b. \<rho> (ir_op1 (fright J)) = Some (V32 a) \<and> \<rho> (ir_op2 (fright J)) = Some (V32 b) \<and>
      x = (if ir_o (fright J) = IR_ADD then a + b else a - b)"
    and "rdz \<rho> (op2 J) = Some y \<Longrightarrow> \<exists>a b. rdz \<rho> (ir_op1 (fright J)) = Some a \<and> rdz \<rho> (ir_op2 (fright J)) = Some b \<and>
      y = sem_as (ir_o (fright J)) a b"
proof -
  have ri: "ev \<rho> (fright J) = \<rho> (op2 J)" "REF_FIRST \<le> op2 J" using right_int[OF pre u] r by (auto simp: op_defs)
  show "\<exists>a b. \<rho> (ir_op1 (fright J)) = Some (V32 a) \<and> \<rho> (ir_op2 (fright J)) = Some (V32 b) \<and>
      x = (if ir_o (fright J) = IR_ADD then a + b else a - b)" if "\<rho> (op2 J) = Some (V32 x)"
    using inner_as32[OF _ r, of \<rho> x] that ri(1) by metis
  show "\<exists>a b. rdz \<rho> (ir_op1 (fright J)) = Some a \<and> rdz \<rho> (ir_op2 (fright J)) = Some b \<and>
      y = sem_as (ir_o (fright J)) a b" if "rdz \<rho> (op2 J) = Some y"
    using inner_as64[OF _ r, of \<rho> y] rdz_ins[OF that ri(2)] ri(1) by metis
qed

lemma neg_retry_fout:
  assumes pre: "fpre \<rho> J v" and rm: "ir_room J" and o: "fo J = IR_SUB"
    and 32: "\<And>a b. \<rho> (op1 J) = Some (V32 a) \<Longrightarrow> \<rho> (op2 J) = Some (V32 b) \<Longrightarrow> \<rho> r = Some (V32 (b - a))"
    and 64: "\<And>a b. rdz \<rho> (op1 J) = Some a \<Longrightarrow> rdz \<rho> (op2 J) = Some b \<Longrightarrow> rdz \<rho> r = Some (b - a)"
  shows "fout b \<rho> J v (neg_retry r J)"
proof -
  obtain z J1 where e: "lj_ir_kint 0 J = (z, J1)" by fastforce
  have ok: "fold_ok \<rho> J" using pre by (simp add: fpre_def)
  note s = kint_step[OF ok rm e]
  obtain \<rho>' where p: "\<rho> \<subseteq>\<^sub>m \<rho>'" "fold_ok \<rho>' J1" "\<rho>' z = Some (V32 0)" "irref_isk z" using s(1) by blast
  let ?i = "(fins J)\<lparr>ir_op1 := z, ir_op2 := r\<rparr>"
  have as: "fo J = IR_ADD \<or> fo J = IR_SUB" using o by simp
  have ev0: "ev \<rho> (fins J) = Some v" using pre by (simp add: fpre_def)
  have "\<exists>w. ev \<rho>' ?i = Some w \<and> vsim (wide (fins J)) v w"
  proof (rule as_retry[OF ev_mono[OF p(1) ev0] as])
    fix a b assume ab: "\<rho>' (op1 J) = Some (V32 a)" "\<rho>' (op2 J) = Some (V32 b)"
    have v: "\<rho> (op1 J) = Some (V32 a)" "\<rho> (op2 J) = Some (V32 b)"
      using ab ev_operands[OF ev0] map_leD[OF p(1)] o by (fastforce simp: op_defs)+
    show "\<exists>c d. \<rho>' (ir_op1 ?i) = Some (V32 c) \<and> \<rho>' (ir_op2 ?i) = Some (V32 d) \<and>
        (if ir_o ?i = IR_ADD then c + d else c - d) = (if fo J = IR_ADD then a + b else a - b)"
      using p(3) map_leD[OF p(1) assms(4)[OF v]] o by auto
  next
    fix a b assume ab: "rdz \<rho>' (op1 J) = Some a" "rdz \<rho>' (op2 J) = Some b"
    have "rdz \<rho> q = rdz \<rho>' q" if "\<rho> q \<noteq> None" for q using that map_leD[OF p(1), of q] by (auto simp: rdz_def z32_def rd64_def)
    then have v: "rdz \<rho> (op1 J) = Some a" "rdz \<rho> (op2 J) = Some b" using ab ev_operands[OF ev0] o by (auto simp: op_defs)
    show "\<exists>c d. rdz \<rho>' (ir_op1 ?i) = Some c \<and> rdz \<rho>' (ir_op2 ?i) = Some d \<and> sem_as (ir_o ?i) c d = sem_as (fo J) a b"
      using rdz_zero[of \<rho>' z] p(3,4) rdz_mono[OF p(1) assms(5)[OF v]] o by (auto simp: sem_as_def)
  qed (use o in auto)
  then obtain w where w: "ev \<rho>' ?i = Some w" "vsim (wide (fins J)) v w" by blast
  have "r < J_nins J1" using ev_operands(2)[OF w(1)] val_range(2)[OF p(2)] o by (auto simp: op_defs)
  then have "retry_ok b \<rho> J v (J1\<lparr>J_ins := ?i\<rparr>)"
    unfolding retry_ok_def using p w s(3) o
    by (intro exI[of _ \<rho>'] exI[of _ w] exI[of _ 1]) (simp add: op_defs heavy_def)
  then show ?thesis by (simp add: neg_retry_def e fold_set s(2) fout_def)
qed

lemma cancel_rules_ok:
  "rule_ok IR_SUB IR_ADD r (pure_rule simplify_intsubadd_leftcancel)"
  "rule_ok IR_SUB IR_SUB r (pure_rule simplify_intsubsub_leftcancel)"
  "rule_ok IR_SUB l IR_SUB (pure_rule simplify_intsubsub_rightcancel)"
  "rule_ok IR_SUB l IR_ADD (pure_rule simplify_intsubadd_rightcancel)"
proof -
  have nu: "\<not> un_op IR_SUB" by (simp add: op_defs)
  show "rule_ok IR_SUB IR_ADD r (pure_rule simplify_intsubadd_leftcancel)"
  proof (rule rule_binI[OF nu])
    fix b \<rho> J v
    assume pre: "fpre \<rho> J v" and o: "fo J = IR_SUB" and l: "IR_ADD = 0x7f \<or> ir_o (fleft J) = IR_ADD"
    have l': "ir_o (fleft J) = IR_ADD" "ir_o (fleft J) = IR_ADD \<or> ir_o (fleft J) = IR_SUB" using l by simp_all
    have "fout b \<rho> J v (FoldRef (ir_op2 (fleft J)), J)" if "op2 J = ir_op1 (fleft J)"
      by (rule as_ref[OF pre]) (use that o l'(1) left_as[OF pre l'(2)] in \<open>force simp: sem_as_def\<close>)+
    moreover have "fout b \<rho> J v (FoldRef (ir_op1 (fleft J)), J)" if "op2 J = ir_op2 (fleft J)"
      by (rule as_ref[OF pre]) (use that o l'(1) left_as[OF pre l'(2)] in \<open>force simp: sem_as_def\<close>)+
    ultimately show "fout b \<rho> J v (simplify_intsubadd_leftcancel J)" by (simp add: simplify_intsubadd_leftcancel_def)
  qed
  show "rule_ok IR_SUB IR_SUB r (pure_rule simplify_intsubsub_leftcancel)"
  proof (rule rule_binI[OF nu])
    fix b \<rho> J v
    assume pre: "fpre \<rho> J v" and rm: "ir_room J" and o: "fo J = IR_SUB" and l: "IR_SUB = 0x7f \<or> ir_o (fleft J) = IR_SUB"
    have l': "ir_o (fleft J) = IR_SUB" "ir_o (fleft J) = IR_ADD \<or> ir_o (fleft J) = IR_SUB" using l by simp_all
    have "fout b \<rho> J v (neg_retry (ir_op2 (fleft J)) J)" if "op2 J = ir_op1 (fleft J)"
      by (rule neg_retry_fout[OF pre rm o]) (use that l'(1) left_as[OF pre l'(2)] in \<open>force simp: sem_as_def\<close>)+
    then show "fout b \<rho> J v (simplify_intsubsub_leftcancel J)" by (simp add: simplify_intsubsub_leftcancel_def)
  qed
  show "rule_ok IR_SUB l IR_SUB (pure_rule simplify_intsubsub_rightcancel)"
  proof (rule rule_binI[OF nu])
    fix b \<rho> J v
    assume pre: "fpre \<rho> J v" and o: "fo J = IR_SUB" and r: "IR_SUB = 0x3ff \<or> ir_o (fright J) = IR_SUB"
    have u: "\<not> un_op (fo J)" using o by (simp add: op_defs)
    have r': "ir_o (fright J) = IR_SUB" "ir_o (fright J) = IR_ADD \<or> ir_o (fright J) = IR_SUB" using r by simp_all
    have "fout b \<rho> J v (FoldRef (ir_op2 (fright J)), J)" if "op1 J = ir_op1 (fright J)"
      by (rule as_ref[OF pre]) (use that o r'(1) right_as[OF pre u r'(2)] in \<open>force simp: sem_as_def\<close>)+
    then show "fout b \<rho> J v (simplify_intsubsub_rightcancel J)" by (simp add: simplify_intsubsub_rightcancel_def)
  qed
  show "rule_ok IR_SUB l IR_ADD (pure_rule simplify_intsubadd_rightcancel)"
  proof (rule rule_binI[OF nu])
    fix b \<rho> J v
    assume pre: "fpre \<rho> J v" and rm: "ir_room J" and o: "fo J = IR_SUB" and r: "IR_ADD = 0x3ff \<or> ir_o (fright J) = IR_ADD"
    have u: "\<not> un_op (fo J)" using o by (simp add: op_defs)
    have r': "ir_o (fright J) = IR_ADD" "ir_o (fright J) = IR_ADD \<or> ir_o (fright J) = IR_SUB" using r by simp_all
    have "fout b \<rho> J v (neg_retry (ir_op2 (fright J)) J)" if "op1 J = ir_op1 (fright J)"
      by (rule neg_retry_fout[OF pre rm o]) (use that r'(1) right_as[OF pre u r'(2)] in \<open>force simp: sem_as_def\<close>)+
    moreover have "fout b \<rho> J v (neg_retry (ir_op1 (fright J)) J)" if "op1 J = ir_op2 (fright J)"
      by (rule neg_retry_fout[OF pre rm o]) (use that r'(1) right_as[OF pre u r'(2)] in \<open>force simp: sem_as_def\<close>)+
    ultimately show "fout b \<rho> J v (simplify_intsubadd_rightcancel J)" by (simp add: simplify_intsubadd_rightcancel_def)
  qed
qed
end
