(* ===== verification/LJ_FoldBits.thy ===== *)
theory LJ_FoldBits
  imports LJ_FoldRules
begin

text \<open>
  Soundness of the remaining fold rules for integers: cancellation of sums, multiplications, bit operations, shifts,
  reassociation, minimum and maximum.
\<close>

section \<open>Differences of sums\<close>

lemma simplify_intsubaddadd_cancel_ok: "rule_ok IR_SUB IR_ADD IR_ADD (pure_rule simplify_intsubaddadd_cancel)"
proof (rule rule_binI)
  show "\<not> un_op IR_SUB" by (simp add: op_defs)
  fix b \<rho> J v
  assume pre: "fpre \<rho> J v" and o: "fo J = IR_SUB" and l: "IR_ADD = 0x7f \<or> ir_o (fleft J) = IR_ADD"
    and r: "IR_ADD = 0x3ff \<or> ir_o (fright J) = IR_ADD"
  have u: "\<not> un_op (fo J)" using o by (simp add: op_defs)
  have l': "ir_o (fleft J) = IR_ADD" "ir_o (fleft J) = IR_ADD \<or> ir_o (fleft J) = IR_SUB" using l by simp_all
  have r': "ir_o (fright J) = IR_ADD" "ir_o (fright J) = IR_ADD \<or> ir_o (fright J) = IR_SUB" using r by simp_all
  note L = left_as[OF pre l'(2)] and R = right_as[OF pre u r'(2)]
  have *: "fout b \<rho> J v (RETRYFOLD, fins_op2 q (fins_op1 p J))"
    if "ir_op1 (fleft J) = c \<and> ir_op2 (fleft J) = p \<or> ir_op2 (fleft J) = c \<and> ir_op1 (fleft J) = p"
      "ir_op1 (fright J) = c \<and> ir_op2 (fright J) = q \<or> ir_op2 (fright J) = c \<and> ir_op1 (fright J) = q" for c p q
  proof -
    let ?i = "(fins J)\<lparr>ir_op1 := p, ir_op2 := q\<rparr>"
    have "fout b \<rho> J v (RETRYFOLD, J\<lparr>J_ins := ?i\<rparr>)"
    proof (rule as_fout_retry[OF pre])
      fix x y assume xy: "\<rho> (op1 J) = Some (V32 x)" "\<rho> (op2 J) = Some (V32 y)"
      obtain a b where ab: "\<rho> (ir_op1 (fleft J)) = Some (V32 a)" "\<rho> (ir_op2 (fleft J)) = Some (V32 b)" "x = a + b"
        using L(1)[OF xy(1)] l'(1) by auto
      obtain d e where de: "\<rho> (ir_op1 (fright J)) = Some (V32 d)" "\<rho> (ir_op2 (fright J)) = Some (V32 e)" "y = d + e"
        using R(1)[OF xy(2)] r'(1) by auto
      show "\<exists>c d. \<rho> (ir_op1 ?i) = Some (V32 c) \<and> \<rho> (ir_op2 ?i) = Some (V32 d) \<and>
          (if ir_o ?i = IR_ADD then c + d else c - d) = (if fo J = IR_ADD then x + y else x - y)"
        using that ab de o by auto
    next
      fix x y assume xy: "rdz \<rho> (op1 J) = Some x" "rdz \<rho> (op2 J) = Some y"
      obtain a b where ab: "rdz \<rho> (ir_op1 (fleft J)) = Some a" "rdz \<rho> (ir_op2 (fleft J)) = Some b" "x = a + b"
        using L(2)[OF xy(1)] l'(1) by (auto simp: sem_as_def)
      obtain d e where de: "rdz \<rho> (ir_op1 (fright J)) = Some d" "rdz \<rho> (ir_op2 (fright J)) = Some e" "y = d + e"
        using R(2)[OF xy(2)] r'(1) by (auto simp: sem_as_def)
      show "\<exists>c d. rdz \<rho> (ir_op1 ?i) = Some c \<and> rdz \<rho> (ir_op2 ?i) = Some d \<and> sem_as (ir_o ?i) c d = sem_as (fo J) x y"
        using that ab de o by (auto simp: sem_as_def)
    qed (use o in auto)
    then show ?thesis by (simp add: fold_set)
  qed
  show "fout b \<rho> J v (simplify_intsubaddadd_cancel J)"
    using *[of "ir_op1 (fright J)" "ir_op2 (fleft J)" "ir_op2 (fright J)"] *[of "ir_op2 (fright J)" "ir_op2 (fleft J)" "ir_op1 (fright J)"]
      *[of "ir_op1 (fright J)" "ir_op1 (fleft J)" "ir_op2 (fright J)"] *[of "ir_op2 (fright J)" "ir_op1 (fleft J)" "ir_op1 (fright J)"]
    unfolding simplify_intsubaddadd_cancel_def Let_def by simp
qed

section \<open>Strict operations\<close>

text \<open>Multiplications, the modulus, bit operations, minima and maxima: operands of one width.\<close>

definition strict_op :: "IROp \<Rightarrow> bool" where
  "strict_op op \<longleftrightarrow> bin_op op \<and> op \<noteq> IR_ADD \<and> op \<noteq> IR_SUB"

lemma strict_ops: "strict_op op \<Longrightarrow> \<not> un_op op \<and> \<not> shift_op op \<and> int_op op"
  by (auto simp: strict_op_def op_defs)

lemma ev_strictE:
  assumes "ev \<rho> i = Some v" "strict_op (ir_o i)"
  obtains (32) a b c where "t32 i" "\<rho> (ir_op1 i) = Some (V32 a)" "\<rho> (ir_op2 i) = Some (V32 b)" "sem_bin (ir_o i) a b = Some c" "v = V32 c"
  | (64) a b c where "t64 i" "\<rho> (ir_op1 i) = Some (V64 a)" "\<rho> (ir_op2 i) = Some (V64 b)" "sem_bin (ir_o i) a b = Some c" "v = V64 c"
    "bin_op64 (ir_o i)"
  using assms ev_binE[of \<rho> i v thesis] by (auto simp: strict_op_def)

lemma ev_strictI:
  "t32 i \<Longrightarrow> strict_op (ir_o i) \<Longrightarrow> \<rho> (ir_op1 i) = Some (V32 a) \<Longrightarrow> \<rho> (ir_op2 i) = Some (V32 b) \<Longrightarrow>
     sem_bin (ir_o i) a b = Some c \<Longrightarrow> ev \<rho> i = Some (V32 c)"
  "t64 i \<Longrightarrow> bin_op64 (ir_o i) \<Longrightarrow> \<rho> (ir_op1 i) = Some (V64 d) \<Longrightarrow> \<rho> (ir_op2 i) = Some (V64 e) \<Longrightarrow>
     sem_bin (ir_o i) d e = Some f \<Longrightarrow> ev \<rho> i = Some (V64 f)"
  by (auto intro: ev_bin32 ev_bin64 simp: strict_op_def)

text \<open>A constant right operand: its value as an integer of the width of the instruction.\<close>

lemma strict_rightk:
  assumes pre: "fpre \<rho> J v" and s: "strict_op (fo J)" and r: "ir_o (fright J) = IR_KINT \<or> ir_o (fright J) = IR_KINT64"
  obtains (32) a c where "t32 (fins J)" "ir_o (fright J) = IR_KINT" "\<rho> (op1 J) = Some (V32 a)" "\<rho> (op2 J) = Some (V32 (ins_i (fright J)))"
      "sem_bin (fo J) a (ins_i (fright J)) = Some c" "v = V32 c"
  | (64) a c where "t64 (fins J)" "ir_o (fright J) = IR_KINT64" "\<rho> (op1 J) = Some (V64 a)" "\<rho> (op2 J) = Some (V64 (ir_k64 J (fright J)))"
      "sem_bin (fo J) a (ir_k64 J (fright J)) = Some c" "v = V64 c" "bin_op64 (fo J)"
proof -
  have u: "\<not> un_op (fo J)" using strict_ops[OF s] by simp
  have e: "ev \<rho> (fins J) = Some v" using pre by (simp add: fpre_def)
  note k = right_kint[OF pre u] right_kint64[OF pre u]
  from e s show thesis
  proof (cases rule: ev_strictE)
    case 32: (32 a b c)
    then have "ir_o (fright J) = IR_KINT" "b = ins_i (fright J)" using k r by auto
    then show thesis using that(1)[of a c] 32 by simp
  next
    case 64: (64 a b c)
    then have "ir_o (fright J) = IR_KINT64" "b = ir_k64 J (fright J)" using k r by auto
    then show thesis using that(2)[of a c] 64 by simp
  qed
qed

text \<open>The 64 bit value that \<open>k_of\<close> reads is zero or minus one for both widths at once.\<close>

lemma k_of_kint: "ir_o ir = IR_KINT \<Longrightarrow> k_of J ir = scast (ins_i ir)" "ir_o ir = IR_KINT64 \<Longrightarrow> k_of J ir = ir_k64 J ir"
  by (simp_all add: k_of_def)

lemma scast_eq: "(scast (x :: u32) :: u64) = 0 \<longleftrightarrow> x = 0" "(scast (x :: u32) :: u64) = - 1 \<longleftrightarrow> x = - 1"
proof -
  have "sint (scast x :: u64) = sint x" by (rule sint_up_scast) (simp add: is_up)
  then have "sint (scast x :: u64) = sint y \<longleftrightarrow> x = y" for y by simp
  moreover have "sint (0 :: u32) = sint (0 :: u64)" "sint (- 1 :: u32) = sint (- 1 :: u64)" by simp_all
  ultimately show "(scast (x :: u32) :: u64) = 0 \<longleftrightarrow> x = 0" "(scast (x :: u32) :: u64) = - 1 \<longleftrightarrow> x = - 1"
    by (metis sint_eq)+
qed

lemma band_bor_k_ok:
  assumes r: "r = IR_KINT \<or> r = IR_KINT64"
  shows "rule_ok IR_BAND l r (pure_rule simplify_band_k)" "rule_ok IR_BOR l r (pure_rule simplify_bor_k)"
proof -
  have *: "fout b \<rho> J v (FoldRef (op1 J), J) \<and> fout b \<rho> J v (FoldRef (op2 J), J) \<or>
      (if fo J = IR_BAND then k_of J (fright J) = - 1 else k_of J (fright J) = 0) \<and> fout b \<rho> J v (FoldRef (op1 J), J) \<or>
      (if fo J = IR_BAND then k_of J (fright J) = 0 else k_of J (fright J) = - 1) \<and> fout b \<rho> J v (FoldRef (op2 J), J) \<or>
      k_of J (fright J) \<noteq> 0 \<and> k_of J (fright J) \<noteq> - 1"
    if pre: "fpre \<rho> J v" and o: "fo J = IR_BAND \<or> fo J = IR_BOR" and r': "ir_o (fright J) = r" for b \<rho> J v
  proof -
    have s: "strict_op (fo J)" using o by (auto simp: strict_op_def op_defs)
    have rk: "ir_o (fright J) = IR_KINT \<or> ir_o (fright J) = IR_KINT64" using r r' by simp
    from pre s rk show ?thesis
    proof (cases rule: strict_rightk)
      case (32 a c)
      then show ?thesis using o fout_ref[OF pre, of "op1 J"] fout_ref[OF pre, of "op2 J"]
        by (auto simp: k_of_kint scast_eq)
    next
      case (64 a c)
      then show ?thesis using o fout_ref[OF pre, of "op1 J"] fout_ref[OF pre, of "op2 J"]
        by (auto simp: k_of_kint)
    qed
  qed
  have rr: "r \<noteq> 0x3ff" using r by auto
  show "rule_ok IR_BAND l r (pure_rule simplify_band_k)"
  proof (rule rule_binI)
    fix b \<rho> J v assume pre: "fpre \<rho> J v" and o: "fo J = IR_BAND" and r': "r = 0x3ff \<or> ir_o (fright J) = r"
    show "fout b \<rho> J v (simplify_band_k J)" using *[OF pre, of b] o r' rr by (auto simp: simplify_band_k_def)
  qed (simp add: op_defs)
  show "rule_ok IR_BOR l r (pure_rule simplify_bor_k)"
  proof (rule rule_binI)
    fix b \<rho> J v assume pre: "fpre \<rho> J v" and o: "fo J = IR_BOR" and r': "r = 0x3ff \<or> ir_o (fright J) = r"
    show "fout b \<rho> J v (simplify_bor_k J)" using *[OF pre, of b] o r' rr by (auto simp: simplify_bor_k_def)
  qed (simp add: op_defs)
qed

lemma simplify_bxor_k_ok:
  assumes r: "r = IR_KINT \<or> r = IR_KINT64"
  shows "rule_ok IR_BXOR l r (pure_rule simplify_bxor_k)"
proof (rule rule_binI)
  show "\<not> un_op IR_BXOR" by (simp add: op_defs)
  fix b \<rho> J v
  assume pre: "fpre \<rho> J v" and o: "fo J = IR_BXOR" and r': "r = 0x3ff \<or> ir_o (fright J) = r"
  have s: "strict_op (fo J)" using o by (auto simp: strict_op_def op_defs)
  have rk: "ir_o (fright J) = IR_KINT \<or> ir_o (fright J) = IR_KINT64" using r r' by auto
  have nins: "0 < J_nins J" using pre by (simp add: fpre_def)
  let ?i = "(fins J)\<lparr>ir_o := IR_BNOT, ir_op2 := 0\<rparr>"
  from pre s rk have "(k_of J (fright J) = 0 \<longrightarrow> \<rho> (op1 J) = Some v) \<and> (k_of J (fright J) = - 1 \<longrightarrow> ev \<rho> ?i = Some v)"
  proof (cases rule: strict_rightk)
    case (32 a c)
    then show ?thesis using o ev_un32[of ?i \<rho> a] by (auto simp: k_of_kint scast_eq op_defs sem_un_def)
  next
    case (64 a c)
    then show ?thesis using o ev_un64[of ?i \<rho> a] by (auto simp: k_of_kint op_defs sem_un64_def)
  qed
  then show "fout b \<rho> J v (simplify_bxor_k J)"
    using fout_ref[OF pre, of "op1 J" v b] fout_retry[OF pre, of ?i v b] nins
    by (auto simp: simplify_bxor_k_def fold_set op_defs heavy_def)
qed

section \<open>Multiplication and modulus by powers of two\<close>

lemma shift_result:
  assumes pre: "fpre \<rho> J v" and rm: "ir_room J" and h: "heavy (fo J)"
    and v: "t32 (fins J) \<and> \<rho> (op1 J) = Some (V32 a) \<and> v = V32 (sem_shift op a k) \<or>
            t64 (fins J) \<and> \<rho> (op1 J) = Some (V64 c) \<and> v = V64 (sem_shift op c k)" and op: "shift_op op"
  shows "fout b \<rho> J v (let (r, J1) = lj_ir_kint k (J\<lparr>J_ins := (fins J)\<lparr>ir_o := op\<rparr>\<rparr>) in (RETRYFOLD, fins_op2 r J1))"
proof (rule fout_retry_k[OF pre rm])
  fix \<rho>' r assume m: "\<rho> \<subseteq>\<^sub>m \<rho>'" "\<rho>' r = Some (V32 k)"
  let ?i = "(fins J)\<lparr>ir_o := op, ir_op2 := r\<rparr>"
  have "ev \<rho>' ?i = Some v"
    using v op m(2) map_leD[OF m(1), of "op1 J"] ev_shift32[of ?i \<rho>' a k] ev_shift64[of ?i \<rho>' c k] by auto
  then show "\<exists>w. ev \<rho>' ((fins J)\<lparr>ir_o := op\<rparr>\<lparr>ir_op2 := r\<rparr>) = Some w \<and> vsim (wide (fins J)) v w" by simp
qed (use op h in \<open>auto simp: op_defs\<close>)

lemma simplify_intmul_k_ok:
  "rule_ok IR_MUL l IR_KINT (pure_rule simplify_intmul_k32)" "rule_ok IR_MUL l IR_KINT64 (pure_rule simplify_intmul_k64)"
proof -
  have *: "fout b \<rho> J v (simplify_intmul_k k J)"
    if pre: "fpre \<rho> J v" and rm: "ir_room J" and o: "fo J = IR_MUL"
      and k: "ir_o (fright J) = IR_KINT \<and> k = ins_i (fright J) \<or>
        ir_o (fright J) = IR_KINT64 \<and> ir_k64 J (fright J) < 0x80000000 \<and> k = ucast (ir_k64 J (fright J))"
    for b \<rho> J v k
  proof -
    have s: "strict_op (fo J)" "heavy (fo J)" using o by (auto simp: strict_op_def op_defs heavy_def)
    have rk: "ir_o (fright J) = IR_KINT \<or> ir_o (fright J) = IR_KINT64" using k by auto
    have *: "(k = 0 \<longrightarrow> \<rho> (op2 J) = Some v) \<and> (k = 1 \<longrightarrow> \<rho> (op1 J) = Some v) \<and>
      (k \<noteq> 0 \<and> k AND (k - 1) = 0 \<longrightarrow> (\<exists>a c.
         t32 (fins J) \<and> \<rho> (op1 J) = Some (V32 a) \<and> v = V32 (sem_shift IR_BSHL a (word_of_nat (lj_fls k))) \<or>
         t64 (fins J) \<and> \<rho> (op1 J) = Some (V64 c) \<and> v = V64 (sem_shift IR_BSHL c (word_of_nat (lj_fls k)))))"
      using pre s(1) rk
    proof (cases rule: strict_rightk)
      case (32 a c)
      then show ?thesis using k o mul_pow2[of k a] by auto
    next
      case (64 a c)
      have x: "ir_k64 J (fright J) < 0x80000000" "ucast (ir_k64 J (fright J)) = k" using k 64(2) by auto
      have u: "unat (ir_k64 J (fright J)) = unat k"
      proof -
        have "unat (ir_k64 J (fright J)) < 2 ^ 31" using x(1) by (simp add: word_less_nat_alt)
        then show ?thesis using x(2) by (auto simp: unsigned_ucast_eq take_bit_eq_mod)
      qed
      have "k = 0 \<Longrightarrow> ir_k64 J (fright J) = 0" "k = 1 \<Longrightarrow> ir_k64 J (fright J) = 1"
        using u word_nat_cast[of "ir_k64 J (fright J)"] by auto
      then show ?thesis using 64 o scast_pow2[of k "ir_k64 J (fright J)" a] x by auto
    qed
    have r: "k = 0 \<Longrightarrow> fout b \<rho> J v (FoldRef (op2 J), J)" "k = 1 \<Longrightarrow> fout b \<rho> J v (FoldRef (op1 J), J)"
      using * fout_ref[OF pre] by auto
    have "fout b \<rho> J v (let (r, J1) = lj_ir_kint (word_of_nat (lj_fls k)) (J\<lparr>J_ins := (fins J)\<lparr>ir_o := IR_BSHL\<rparr>\<rparr>)
        in (RETRYFOLD, fins_op2 r J1))" if p: "k \<noteq> 0" "k AND (k - 1) = 0"
    proof -
      obtain a c where "t32 (fins J) \<and> \<rho> (op1 J) = Some (V32 a) \<and> v = V32 (sem_shift IR_BSHL a (word_of_nat (lj_fls k))) \<or>
         t64 (fins J) \<and> \<rho> (op1 J) = Some (V64 c) \<and> v = V64 (sem_shift IR_BSHL c (word_of_nat (lj_fls k)))"
        using * p by blast
      then show ?thesis by (rule shift_result[OF pre rm s(2)]) (simp add: op_defs)
    qed
    then show ?thesis using r by (simp add: simplify_intmul_k_def fold_set)
  qed
  show "rule_ok IR_MUL l IR_KINT (pure_rule simplify_intmul_k32)"
    by (rule rule_binI) (auto simp: op_defs simplify_intmul_k32_def intro!: *)
  show "rule_ok IR_MUL l IR_KINT64 (pure_rule simplify_intmul_k64)"
    by (rule rule_binI) (auto simp: op_defs simplify_intmul_k64_def intro!: *)
qed

lemma simplify_intmod_k_ok: "rule_ok IR_MOD l IR_KINT (pure_rule simplify_intmod_k)"
proof (rule rule_binI)
  show "\<not> un_op IR_MOD" by (simp add: op_defs)
  fix b \<rho> J v
  assume pre: "fpre \<rho> J v" and rm: "ir_room J" and o: "fo J = IR_MOD" and r: "IR_KINT = 0x3ff \<or> ir_o (fright J) = IR_KINT"
  let ?k = "ins_i (fright J)" and ?i = "(fins J)\<lparr>ir_o := IR_BAND\<rparr>"
  have s: "strict_op (fo J)" using o by (auto simp: strict_op_def op_defs)
  have rk: "ir_o (fright J) = IR_KINT \<or> ir_o (fright J) = IR_KINT64" using r by simp
  show "fout b \<rho> J v (simplify_intmod_k J)"
  proof (cases "sint ?k > 0 \<and> ?k AND (?k - 1) = 0")
    case True
    have "fout b \<rho> J v (let (r, J1) = lj_ir_kint (?k - 1) (J\<lparr>J_ins := ?i\<rparr>) in (RETRYFOLD, fins_op2 r J1))"
    proof (rule fout_retry_k[OF pre rm])
      fix \<rho>' r assume m: "\<rho> \<subseteq>\<^sub>m \<rho>'" "\<rho>' r = Some (V32 (?k - 1))"
      from pre s rk have "ev \<rho>' (?i\<lparr>ir_op2 := r\<rparr>) = Some v"
      proof (cases rule: strict_rightk)
        case (32 a c)
        have "c = a AND (?k - 1)" using 32(5) mod_pow2[of ?k a] True o by simp
        then show ?thesis using 32 map_leD[OF m(1) 32(3)] m(2)
          ev_strictI(1)[of "?i\<lparr>ir_op2 := r\<rparr>" \<rho>' a "?k - 1" "a AND (?k - 1)"] by (auto simp: strict_op_def op_defs)
      next
        case (64 a c)
        then show ?thesis using o by (auto simp: op_defs)
      qed
      then show "\<exists>w. ev \<rho>' (?i\<lparr>ir_op2 := r\<rparr>) = Some w \<and> vsim (wide (fins J)) v w" by simp
    qed (auto simp: op_defs heavy_def)
    then show ?thesis using True by (simp add: simplify_intmod_k_def fold_set Let_def)
  qed (auto simp: simplify_intmod_k_def Let_def)
qed

lemma simplify_intmod_kleft_ok: "rule_ok IR_MOD IR_KINT r (pure_rule simplify_intmod_kleft)"
proof (rule rule_binI)
  show "\<not> un_op IR_MOD" by (simp add: op_defs)
  fix b \<rho> J v
  assume pre: "fpre \<rho> J v" and o: "fo J = IR_MOD" and l: "IR_KINT = 0x7f \<or> ir_o (fleft J) = IR_KINT" and e: "ev \<rho> (fins J) = Some v"
  have k: "\<rho> (op1 J) = Some (V32 (ins_i (fleft J)))" using left_kint[OF pre] l by simp
  have s: "strict_op (fo J)" using o by (auto simp: strict_op_def op_defs)
  from e s have "ins_i (fleft J) = 0 \<Longrightarrow> v = V32 0"
    by (cases rule: ev_strictE) (use k o in \<open>auto split: if_splits\<close>)
  then have "ins_i (fleft J) = 0 \<Longrightarrow> fout b \<rho> J v (INTFOLD 0 J)" by (intro fout_kint[OF pre]) simp
  then show "fout b \<rho> J v (simplify_intmod_kleft J)" by (simp add: simplify_intmod_kleft_def)
qed

section \<open>Shifts\<close>

lemma shift_ops: "shift_op op \<Longrightarrow> \<not> un_op op \<and> int_op op \<and> heavy op"
  by (auto simp: op_defs heavy_def)

lemma shift_mask_t: "t32 (fins J) \<Longrightarrow> shift_mask J = 31" "t64 (fins J) \<Longrightarrow> shift_mask J = 63"
  by (auto simp: shift_mask_def irt_is64_def t32_def t64_def)

text \<open>Retrying a shift as another shift with a new constant distance.\<close>

lemma shift_retry:
  assumes pre: "fpre \<rho> J v" and rm: "ir_room J" and s: "shift_op (fo J)" "shift_op op"
    and 32: "\<And>a d. t32 (fins J) \<Longrightarrow> \<rho> (op1 J) = Some (V32 a) \<Longrightarrow> \<rho> (op2 J) = Some (V32 d) \<Longrightarrow>
      \<exists>x. \<rho> p = Some (V32 x) \<and> sem_shift op x k = sem_shift (fo J) a d"
    and 64: "\<And>a d. t64 (fins J) \<Longrightarrow> \<rho> (op1 J) = Some (V64 a) \<Longrightarrow> \<rho> (op2 J) = Some (V32 d) \<Longrightarrow>
      \<exists>x. \<rho> p = Some (V64 x) \<and> sem_shift op x k = sem_shift (fo J) a d"
  shows "fout b \<rho> J v (let (r, J1) = lj_ir_kint k (J\<lparr>J_ins := (fins J)\<lparr>ir_o := op, ir_op1 := p\<rparr>\<rparr>) in (RETRYFOLD, fins_op2 r J1))"
proof (rule fout_retry_k[OF pre rm])
  fix \<rho>' r assume m: "\<rho> \<subseteq>\<^sub>m \<rho>'" "\<rho>' r = Some (V32 k)"
  let ?i = "(fins J)\<lparr>ir_o := op, ir_op1 := p, ir_op2 := r\<rparr>"
  have e: "ev \<rho> (fins J) = Some v" using pre by (simp add: fpre_def)
  from e s(1) have "ev \<rho>' ?i = Some v"
  proof (cases rule: ev_shiftE)
    case C: (32 a d)
    then obtain x where "\<rho> p = Some (V32 x)" "sem_shift op x k = sem_shift (fo J) a d" using assms(5) by blast
    then show ?thesis using C s(2) m(2) map_leD[OF m(1), of p] ev_shift32[of ?i \<rho>' x k] by simp
  next
    case C: (64 a d)
    then obtain x where "\<rho> p = Some (V64 x)" "sem_shift op x k = sem_shift (fo J) a d" using assms(6) by blast
    then show ?thesis using C s(2) m(2) map_leD[OF m(1), of p] ev_shift64[of ?i \<rho>' x k] by simp
  qed
  then show "\<exists>w. ev \<rho>' ((fins J)\<lparr>ir_o := op, ir_op1 := p\<rparr>\<lparr>ir_op2 := r\<rparr>) = Some w \<and> vsim (wide (fins J)) v w" by simp
qed (use s shift_ops in auto)

lemma unat_neg32: "unat (d :: u32) + unat (- d) = (if d = 0 then 0 else 2 ^ 32)"
proof -
  have "int (unat d + unat (- d)) = int (if d = 0 then 0 else 2 ^ 32)"
    using uint_uminus[of d] by simp
  then show ?thesis by (simp only: of_nat_eq_iff)
qed

lemma simplify_shift_ik_ok:
  assumes s: "shift_op op"
  shows "rule_ok op l IR_KINT (pure_rule simplify_shift_ik)"
proof (rule rule_binI)
  show "\<not> un_op op" using shift_ops[OF s] by simp
  fix b \<rho> J v
  assume pre: "fpre \<rho> J v" and rm: "ir_room J" and o: "fo J = op" and r: "IR_KINT = 0x3ff \<or> ir_o (fright J) = IR_KINT"
    and e: "ev \<rho> (fins J) = Some v"
  have s': "shift_op (fo J)" using s o by simp
  have u: "\<not> un_op (fo J)" "heavy (fo J)" using shift_ops[OF s'] by simp_all
  define d where "d = ins_i (fright J)"
  define k where "k = d AND shift_mask J"
  have dv: "\<rho> (op2 J) = Some (V32 d)" using right_kint[OF pre u(1)] r by (simp add: d_def)
  have k32: "unat k = unat d mod 32" if "t32 (fins J)" using that by (simp add: k_def shift_mask_t and31)
  have k64: "unat k = unat d mod 64" if "t64 (fins J)" using that by (simp add: k_def shift_mask_t and63)
  have left: "fout b \<rho> J v (FoldRef (op1 J), J)" if "k = 0"
  proof -
    from e s' have "\<rho> (op1 J) = Some v"
      by (cases rule: ev_shiftE) (use dv that k32 k64 s' in \<open>auto simp: shift_zero\<close>)
    then show ?thesis by (rule fout_val[OF pre])
  qed
  have add: "fout b \<rho> J v (RETRYFOLD, J\<lparr>J_ins := (fins J)\<lparr>ir_o := IR_ADD, ir_op2 := op1 J\<rparr>\<rparr>)" if k1: "k = 1" "fo J = IR_BSHL"
  proof -
    let ?i = "(fins J)\<lparr>ir_o := IR_ADD, ir_op2 := op1 J\<rparr>"
    from e s' have "ev \<rho> ?i = Some v"
    proof (cases rule: ev_shiftE)
      case (32 a c)
      have "sem_shift IR_BSHL a d = a + a" by (intro shl1_add) (use k32[OF 32(1), symmetric] k1(1) in simp)
      then show ?thesis using 32 dv k1 ev_bin32[of ?i \<rho> a a "a + a"] by (auto simp: op_defs)
    next
      case (64 a c)
      have "sem_shift IR_BSHL a d = a + a" by (intro shl1_add) (use k64[OF 64(1), symmetric] k1(1) in simp)
      then show ?thesis using 64 dv k1 ev_bin64[of ?i \<rho> a a "a + a"] by (auto simp: op_defs)
    qed
    then show ?thesis by (intro fout_retry[OF pre]) (auto simp: op_defs heavy_def)
  qed
  have msk: "fout b \<rho> J v (let (r, J1) = lj_ir_kint k J in (RETRYFOLD, fins_op2 r J1))"
  proof -
    have "fout b \<rho> J v (let (r, J1) = lj_ir_kint k (J\<lparr>J_ins := (fins J)\<lparr>ir_o := fo J, ir_op1 := op1 J\<rparr>\<rparr>) in (RETRYFOLD, fins_op2 r J1))"
      by (rule shift_retry[OF pre rm s' s']) (use dv k32 k64 in \<open>auto intro!: shift_cong\<close>)
    then show ?thesis by simp
  qed
  have ror: "fout b \<rho> J v (let (r, J1) = lj_ir_kint (- k AND shift_mask J) (J\<lparr>J_ins := (fins J)\<lparr>ir_o := IR_BROL\<rparr>\<rparr>)
      in (RETRYFOLD, fins_op2 r J1))" if o': "fo J = IR_BROR" "k = d"
  proof -
    have n: "(unat d + unat (- d AND 31)) mod 32 = 0" "(unat d + unat (- d AND 63)) mod 64 = 0"
    proof -
      have "(unat d + unat (- d)) mod 32 = 0" "(unat d + unat (- d)) mod 64 = 0" unfolding unat_neg32 by simp_all
      then show "(unat d + unat (- d AND 31)) mod 32 = 0" "(unat d + unat (- d AND 63)) mod 64 = 0"
        by (simp_all add: and31 and63 mod_add_right_eq)
    qed
    have "fout b \<rho> J v (let (r, J1) = lj_ir_kint (- k AND shift_mask J)
        (J\<lparr>J_ins := (fins J)\<lparr>ir_o := IR_BROL, ir_op1 := op1 J\<rparr>\<rparr>) in (RETRYFOLD, fins_op2 r J1))"
    proof (rule shift_retry[OF pre rm s'])
      fix a c assume t: "t32 (fins J)" and a: "\<rho> (op1 J) = Some (V32 a)" "\<rho> (op2 J) = Some (V32 c)"
      have "sem_shift IR_BROR a d = sem_shift IR_BROL a (- k AND 31)"
      proof (rule ror_rol_neg)
        show "(unat d + unat (- k AND 31)) mod LENGTH(32) = 0" using n o'(2) by simp
      qed
      then show "\<exists>x. \<rho> (op1 J) = Some (V32 x) \<and> sem_shift IR_BROL x (- k AND shift_mask J) = sem_shift (fo J) a c"
        using a dv o' t by (simp add: shift_mask_t)
    next
      fix a c assume t: "t64 (fins J)" and a: "\<rho> (op1 J) = Some (V64 a)" "\<rho> (op2 J) = Some (V32 c)"
      have "sem_shift IR_BROR a d = sem_shift IR_BROL a (- k AND 63)"
      proof (rule ror_rol_neg)
        show "(unat d + unat (- k AND 63)) mod LENGTH(64) = 0" using n o'(2) by simp
      qed
      then show "\<exists>x. \<rho> (op1 J) = Some (V64 x) \<and> sem_shift IR_BROL x (- k AND shift_mask J) = sem_shift (fo J) a c"
        using a dv o' t by (simp add: shift_mask_t)
    qed (simp add: op_defs)
    then show ?thesis by simp
  qed
  show "fout b \<rho> J v (simplify_shift_ik J)"
    using left add msk ror unfolding simplify_shift_ik_def Let_def k_def[symmetric] d_def[symmetric] by (simp add: fold_set Let_def)
qed

text \<open>The distance is masked by the shift itself.\<close>

lemma and_mask_absorb: "k AND m = m \<Longrightarrow> (b AND k) AND m = b AND (m :: 'a::len word)"
  by (simp add: and.assoc)

lemma simplify_shift_andk_ok:
  assumes s: "shift_op op"
  shows "rule_ok op l IR_BAND (pure_rule simplify_shift_andk)"
proof (rule rule_binI)
  show "\<not> un_op op" using shift_ops[OF s] by simp
  fix b \<rho> J v
  assume pre: "fpre \<rho> J v" and o: "fo J = op" and r: "IR_BAND = 0x3ff \<or> ir_o (fright J) = IR_BAND"
    and e: "ev \<rho> (fins J) = Some v"
  have s': "shift_op (fo J)" using s o by simp
  have u: "\<not> un_op (fo J)" using shift_ops[OF s'] by simp
  let ?q = "ir_op1 (fright J)" and ?irk = "J_ir J (ir_op2 (fright J))"
  have ri: "ev \<rho> (fright J) = \<rho> (op2 J)" using right_int[OF pre u] r by (simp add: op_defs)
  have band: "\<exists>x k. \<rho> ?q = Some (V32 x) \<and> \<rho> (ir_op2 (fright J)) = Some (V32 k) \<and> d = x AND k"
    if d: "\<rho> (op2 J) = Some (V32 d)" for d
  proof -
    have "ev \<rho> (fright J) = Some (V32 d)" "strict_op (ir_o (fright J))" using ri d r by (auto simp: strict_op_def op_defs)
    then show ?thesis by (cases rule: ev_strictE) (use r in auto)
  qed
  have "fout b \<rho> J v (RETRYFOLD, J\<lparr>J_ins := (fins J)\<lparr>ir_op2 := ?q\<rparr>\<rparr>)"
    if k: "ir_o ?irk = IR_KINT" "ins_i ?irk AND shift_mask J = shift_mask J"
  proof -
    let ?i = "(fins J)\<lparr>ir_op2 := ?q\<rparr>"
    have irk: "\<rho> (ir_op2 (fright J)) = Some (V32 c) \<Longrightarrow> c = ins_i ?irk" for c using inner_kint[OF pre _ k(1)] by auto
    from e s' have "ev \<rho> ?i = Some v"
    proof (cases rule: ev_shiftE)
      case (32 a d)
      obtain x c where x: "\<rho> ?q = Some (V32 x)" "\<rho> (ir_op2 (fright J)) = Some (V32 c)" "d = x AND c" using band[OF 32(3)] by blast
      have "unat (d AND 31) = unat (x AND 31)" using k(2) irk[OF x(2)] x(3) shift_mask_t(1)[OF 32(1)] by (simp add: and_mask_absorb)
      then have "sem_shift (fo J) a d = sem_shift (fo J) a x" by (intro shift_cong) (simp add: and31)
      then show ?thesis using 32 x s' ev_shift32[of ?i \<rho> a x] by simp
    next
      case (64 a d)
      obtain x c where x: "\<rho> ?q = Some (V32 x)" "\<rho> (ir_op2 (fright J)) = Some (V32 c)" "d = x AND c" using band[OF 64(3)] by blast
      have "unat (d AND 63) = unat (x AND 63)" using k(2) irk[OF x(2)] x(3) shift_mask_t(2)[OF 64(1)] by (simp add: and_mask_absorb)
      then have "sem_shift (fo J) a d = sem_shift (fo J) a x" by (intro shift_cong) (simp add: and63)
      then show ?thesis using 64 x s' ev_shift64[of ?i \<rho> a x] by simp
    qed
    then show ?thesis using s' u shift_ops[OF s'] by (intro fout_retry[OF pre]) auto
  qed
  then show "fout b \<rho> J v (simplify_shift_andk J)" by (simp add: simplify_shift_andk_def Let_def fold_set)
qed

lemma simplify_shift_ki_ok:
  assumes k: "k = IR_KINT \<or> k = IR_KINT64"
  shows "op = IR_BSHL \<or> op = IR_BSHR \<Longrightarrow> rule_ok op k r (pure_rule simplify_shift1_ki)"
    and "op = IR_BSAR \<or> op = IR_BROL \<or> op = IR_BROR \<Longrightarrow> rule_ok op k r (pure_rule simplify_shift2_ki)"
proof -
  have *: "fout b \<rho> J v (FoldRef (op1 J), J)" if pre: "fpre \<rho> J v" and s: "shift_op (fo J)" and l: "ir_o (fleft J) = k"
    and z: "k_of J (fleft J) = 0 \<or> k_of J (fleft J) = - 1 \<and> (fo J = IR_BSAR \<or> fo J = IR_BROL \<or> fo J = IR_BROR)" for b \<rho> J v
  proof -
    have e: "ev \<rho> (fins J) = Some v" using pre by (simp add: fpre_def)
    note lk = left_kint[OF pre] left_kint64[OF pre]
    from e s have "\<rho> (op1 J) = Some v"
    proof (cases rule: ev_shiftE)
      case (32 a d)
      then have "ir_o (fleft J) = IR_KINT" "a = ins_i (fleft J)" using lk k l by auto
      then show ?thesis using 32 z by (auto simp: k_of_kint scast_eq shift_of_0 shift_of_m1)
    next
      case (64 a d)
      then have "ir_o (fleft J) = IR_KINT64" "a = ir_k64 J (fleft J)" using lk k l by auto
      then show ?thesis using 64 z by (auto simp: k_of_kint shift_of_0 shift_of_m1)
    qed
    then show ?thesis by (rule fout_val[OF pre])
  qed
  have kk: "k \<noteq> 0x7f" using k by auto
  show "rule_ok op k r (pure_rule simplify_shift1_ki)" if "op = IR_BSHL \<or> op = IR_BSHR"
    by (rule rule_binI) (use that kk in \<open>auto simp: op_defs simplify_shift1_ki_def intro!: *\<close>)
  show "rule_ok op k r (pure_rule simplify_shift2_ki)" if "op = IR_BSAR \<or> op = IR_BROL \<or> op = IR_BROR"
    by (rule rule_binI) (use that kk in \<open>auto simp: op_defs simplify_shift2_ki_def intro!: *\<close>)
qed

text \<open>A shift of a shift.\<close>

lemma reassoc_shift_ok:
  assumes s: "op \<in> {IR_BSHL, IR_BSHR, IR_BSAR, IR_BROL, IR_BROR}"
  shows "rule_ok op op IR_KINT (pure_rule reassoc_shift)"
proof (rule rule_binI)
  show "\<not> un_op op" using s by (auto simp: op_defs)
  fix b \<rho> J v
  assume pre: "fpre \<rho> J v" and rm: "ir_room J" and o: "fo J = op" and l: "op = 0x7f \<or> ir_o (fleft J) = op"
    and r: "IR_KINT = 0x3ff \<or> ir_o (fright J) = IR_KINT" and e: "ev \<rho> (fins J) = Some v"
  have s': "shift_op (fo J)" using s o by (auto simp: op_defs)
  have l': "ir_o (fleft J) = fo J" using l s o by auto
  have u: "\<not> un_op (fo J)" using shift_ops[OF s'] by simp
  let ?irk = "J_ir J (ir_op2 (fleft J))" and ?p = "ir_op1 (fleft J)"
  have li: "ev \<rho> (fleft J) = \<rho> (op1 J)" using left_int[OF pre] l' shift_ops[OF s'] by simp
  define m where "m = shift_mask J"
  define c where "c = ins_i ?irk"
  define d where "d = ins_i (fright J)"
  have dv: "\<rho> (op2 J) = Some (V32 d)" using right_kint[OF pre u] r by (simp add: d_def)
  show "fout b \<rho> J v (reassoc_shift J)"
  proof (cases "\<not> phi (fleft J) \<and> ir_o ?irk = IR_KINT")
    case True
    have irk: "\<rho> (ir_op2 (fleft J)) = Some (V32 x) \<Longrightarrow> x = c" for x using inner_kint[OF pre _ conjunct2[OF True]] by (auto simp: c_def)
    have L32: "\<exists>x. \<rho> ?p = Some (V32 x) \<and> a = sem_shift (fo J) x c" if "\<rho> (op1 J) = Some (V32 a)" for a
    proof -
      have "ev \<rho> (fleft J) = Some (V32 a)" "shift_op (ir_o (fleft J))" using li that l' s' by simp_all
      then show ?thesis by (cases rule: ev_shiftE) (use irk l' in auto)
    qed
    have L64: "\<exists>x. \<rho> ?p = Some (V64 x) \<and> a = sem_shift (fo J) x c" if "\<rho> (op1 J) = Some (V64 a)" for a
    proof -
      have "ev \<rho> (fleft J) = Some (V64 a)" "shift_op (ir_o (fleft J))" using li that l' s' by simp_all
      then show ?thesis by (cases rule: ev_shiftE) (use irk l' in auto)
    qed
    let ?k = "(c AND m) + (d AND m)"
    have sum: "unat ?k = unat (c AND m) + unat (d AND m)" if "m = 31 \<or> m = 63"
    proof -
      have "unat (c AND m) < 64" "unat (d AND m) < 64"
        using that pos_mod_bound[of 32 "int (unat c)"] by (auto simp: and31 and63 intro: order_less_trans[of _ 32])
      then show ?thesis by (simp add: unat_word_ariths)
    qed
    have mL: "m = 31 \<and> t32 (fins J) \<or> m = 63 \<and> t64 (fins J)" using ev_t[OF e] shift_mask_t[of J] by (auto simp: m_def)
    have gt: "?k > m \<longleftrightarrow> unat m < unat (c AND m) + unat (d AND m)" using sum mL by (auto simp: word_less_nat_alt)
    have retry: "fout b \<rho> J v (let (r, J1) = lj_ir_kint k (fins_op1 ?p J) in (RETRYFOLD, fins_op2 r J1))"
      if k32: "\<And>x :: u32. m = 31 \<Longrightarrow> sem_shift (fo J) x k = sem_shift (fo J) (sem_shift (fo J) x c) d"
        and k64: "\<And>x :: u64. m = 63 \<Longrightarrow> sem_shift (fo J) x k = sem_shift (fo J) (sem_shift (fo J) x c) d" for k
    proof -
      have "fout b \<rho> J v (let (r, J1) = lj_ir_kint k (J\<lparr>J_ins := (fins J)\<lparr>ir_o := fo J, ir_op1 := ?p\<rparr>\<rparr>) in (RETRYFOLD, fins_op2 r J1))"
      proof (rule shift_retry[OF pre rm s' s'])
        fix a y assume t: "t32 (fins J)" and a: "\<rho> (op1 J) = Some (V32 a)" "\<rho> (op2 J) = Some (V32 y)"
        have "m = 31" using t by (simp add: m_def shift_mask_t)
        then show "\<exists>x. \<rho> ?p = Some (V32 x) \<and> sem_shift (fo J) x k = sem_shift (fo J) a y" using L32[OF a(1)] k32 a dv by auto
      next
        fix a y assume t: "t64 (fins J)" and a: "\<rho> (op1 J) = Some (V64 a)" "\<rho> (op2 J) = Some (V32 y)"
        have "m = 63" using t by (simp add: m_def shift_mask_t)
        then show "\<exists>x. \<rho> ?p = Some (V64 x) \<and> sem_shift (fo J) x k = sem_shift (fo J) a y" using L64[OF a(1)] k64 a dv by auto
      qed
      then show ?thesis by (simp add: fold_set)
    qed
    have rot: "fo J = IR_BROL \<or> fo J = IR_BROR \<or> fo J \<in> {IR_BSHL, IR_BSHR, IR_BSAR}" using s o by auto
    have small: "fout b \<rho> J v (let (r, J1) = lj_ir_kint ?k (fins_op1 ?p J) in (RETRYFOLD, fins_op2 r J1))" if "\<not> ?k > m"
    proof (rule retry)
      fix x :: u32 assume m: "m = 31"
      have n: "unat ?k = unat c mod 32 + unat d mod 32" "unat ?k < 32" using sum that gt m by (auto simp: and31)
      show "sem_shift (fo J) x ?k = sem_shift (fo J) (sem_shift (fo J) x c) d"
        using rot n rot_rot[of "fo J" ?k c d x] shift_shift[of "fo J" ?k c d x] by auto
    next
      fix x :: u64 assume m: "m = 63"
      have n: "unat ?k = unat c mod 64 + unat d mod 64" "unat ?k < 64" using sum that gt m by (auto simp: and63)
      show "sem_shift (fo J) x ?k = sem_shift (fo J) (sem_shift (fo J) x c) d"
        using rot n rot_rot[of "fo J" ?k c d x] shift_shift[of "fo J" ?k c d x] by auto
    qed
    have zero: "fout b \<rho> J v (if m = 31 then INTFOLD 0 J else INT64FOLD 0 J)" if k: "?k > m" "fo J = IR_BSHL \<or> fo J = IR_BSHR"
    proof -
      from e s' show ?thesis
      proof (cases rule: ev_shiftE)
        case (32 a y)
        have m: "m = 31" using 32(1) by (simp add: m_def shift_mask_t)
        obtain x where "a = sem_shift (fo J) x c" using L32[OF 32(2)] by blast
        moreover have "32 \<le> unat c mod 32 + unat d mod 32" using k(1) gt m by (simp add: and31)
        ultimately have "v = V32 0" using 32 dv shift_over[of c d "fo J" x] k(2) by simp
        then show ?thesis using m fout_kint[OF pre, of 0] by simp
      next
        case (64 a y)
        have m: "m = 63" using 64(1) by (simp add: m_def shift_mask_t)
        obtain x where "a = sem_shift (fo J) x c" using L64[OF 64(2)] by blast
        moreover have "64 \<le> unat c mod 64 + unat d mod 64" using k(1) gt m by (simp add: and63)
        ultimately have "v = V64 0" using 64 dv shift_over[of c d "fo J" x] k(2) by simp
        then show ?thesis using m fout_kint64[OF pre rm, of 0] by simp
      qed
    qed
    have sar: "fout b \<rho> J v (let (r, J1) = lj_ir_kint m (fins_op1 ?p J) in (RETRYFOLD, fins_op2 r J1))" if k: "?k > m" "fo J = IR_BSAR"
    proof (rule retry)
      fix x :: u32 assume m: "m = 31"
      then have "32 \<le> unat c mod 32 + unat d mod 32" using k(1) gt by (simp add: and31)
      then show "sem_shift (fo J) x m = sem_shift (fo J) (sem_shift (fo J) x c) d" using sar_over[of c d m x] m k(2) by simp
    next
      fix x :: u64 assume m: "m = 63"
      then have "64 \<le> unat c mod 64 + unat d mod 64" using k(1) gt by (simp add: and63)
      then show "sem_shift (fo J) x m = sem_shift (fo J) (sem_shift (fo J) x c) d" using sar_over[of c d m x] m k(2) by simp
    qed
    have rol: "fout b \<rho> J v (let (r, J1) = lj_ir_kint (?k AND m) (fins_op1 ?p J) in (RETRYFOLD, fins_op2 r J1))"
      if k: "fo J = IR_BROL \<or> fo J = IR_BROR"
    proof (rule retry)
      fix x :: u32 assume m: "m = 31"
      have "unat (?k AND m) mod 32 = (unat c mod 32 + unat d mod 32) mod 32" using sum m by (simp add: and31)
      then show "sem_shift (fo J) x (?k AND m) = sem_shift (fo J) (sem_shift (fo J) x c) d" using rot_rot[OF k, of "?k AND m" c d x] by simp
    next
      fix x :: u64 assume m: "m = 63"
      have "unat (?k AND m) mod 64 = (unat c mod 64 + unat d mod 64) mod 64" using sum m by (simp add: and63)
      then show "sem_shift (fo J) x (?k AND m) = sem_shift (fo J) (sem_shift (fo J) x c) d" using rot_rot[OF k, of "?k AND m" c d x] by simp
    qed
    have c1: "?k > m \<Longrightarrow> fo J = IR_BSHL \<or> fo J = IR_BSHR \<Longrightarrow> m = 31 \<Longrightarrow> fout b \<rho> J v (INTFOLD 0 J)"
      "?k > m \<Longrightarrow> fo J = IR_BSHL \<or> fo J = IR_BSHR \<Longrightarrow> m \<noteq> 31 \<Longrightarrow> fout b \<rho> J v (INT64FOLD 0 J)" using zero by (simp_all split: if_splits)
    show ?thesis
      unfolding reassoc_shift_def Let_def c_def[symmetric] d_def[symmetric] m_def[symmetric]
      using True small c1 sar rol rot by (auto simp: Let_def)
  qed (auto simp: reassoc_shift_def Let_def)
qed
end
