(* ===== verification/LJ_FoldReassoc.thy ===== *)
theory LJ_FoldReassoc
  imports LJ_FoldBits
begin

text \<open>
  Soundness of the reassociation rules and of the rules that exchange a shift with a mask.
\<close>

section \<open>Reassociation with a constant\<close>

lemma left_strict:
  assumes pre: "fpre \<rho> J v" and s: "strict_op (ir_o (fleft J))"
  shows "\<rho> (op1 J) = Some (V32 x) \<Longrightarrow> \<exists>a b. \<rho> (ir_op1 (fleft J)) = Some (V32 a) \<and> \<rho> (ir_op2 (fleft J)) = Some (V32 b) \<and>
      sem_bin (ir_o (fleft J)) a b = Some x"
    and "\<rho> (op1 J) = Some (V64 y) \<Longrightarrow> \<exists>a b. \<rho> (ir_op1 (fleft J)) = Some (V64 a) \<and> \<rho> (ir_op2 (fleft J)) = Some (V64 b) \<and>
      sem_bin (ir_o (fleft J)) a b = Some y"
proof -
  have li: "ev \<rho> (fleft J) = \<rho> (op1 J)" using left_int[OF pre] strict_ops[OF s] by simp
  have *: "\<exists>a b. \<rho> (ir_op1 (fleft J)) = Some (V32 a) \<and> \<rho> (ir_op2 (fleft J)) = Some (V32 b) \<and>
      sem_bin (ir_o (fleft J)) a b = Some x" if "ev \<rho> (fleft J) = Some (V32 x)" for x
    using that s by (cases rule: ev_strictE) auto
  have **: "\<exists>a b. \<rho> (ir_op1 (fleft J)) = Some (V64 a) \<and> \<rho> (ir_op2 (fleft J)) = Some (V64 b) \<and>
      sem_bin (ir_o (fleft J)) a b = Some y" if "ev \<rho> (fleft J) = Some (V64 y)" for y
    using that s by (cases rule: ev_strictE) auto
  show "\<rho> (op1 J) = Some (V32 x) \<Longrightarrow> \<exists>a b. \<rho> (ir_op1 (fleft J)) = Some (V32 a) \<and> \<rho> (ir_op2 (fleft J)) = Some (V32 b) \<and>
      sem_bin (ir_o (fleft J)) a b = Some x"
    "\<rho> (op1 J) = Some (V64 y) \<Longrightarrow> \<exists>a b. \<rho> (ir_op1 (fleft J)) = Some (V64 a) \<and> \<rho> (ir_op2 (fleft J)) = Some (V64 b) \<and>
      sem_bin (ir_o (fleft J)) a b = Some y"
    using * ** li by simp_all
qed

text \<open>The operation with the two constants combined, for 32 bit operations on strict operands.\<close>

lemma reassoc_k_fout:
  assumes pre: "fpre \<rho> J v" and rm: "ir_room J" and s: "strict_op (fo J)" "assoc_op (fo J)"
    and l: "ir_o (fleft J) = fo J" and r: "ir_o (fright J) = IR_KINT" and k: "ir_o (J_ir J (ir_op2 (fleft J))) = IR_KINT"
  defines "c \<equiv> kfold_intop (ins_i (J_ir J (ir_op2 (fleft J)))) (ins_i (fright J)) (fo J)"
  shows "c = ins_i (J_ir J (ir_op2 (fleft J))) \<Longrightarrow> fout b \<rho> J v (FoldRef (op1 J), J)"
    and "fout b \<rho> J v (let (r, J1) = lj_ir_kint c (fins_op1 (ir_op1 (fleft J)) J) in (RETRYFOLD, fins_op2 r J1))"
proof -
  let ?p = "ir_op1 (fleft J)" and ?k = "ins_i (J_ir J (ir_op2 (fleft J)))" and ?d = "ins_i (fright J)"
  have sl: "strict_op (ir_o (fleft J))" using s(1) l by simp
  have c: "sem_bin (fo J) ?k ?d = Some c"
    using sem_assoc_defined[OF s(2), of ?k ?d] kfold_intop_bin[of "fo J" ?k ?d] by (auto simp: c_def)
  obtain a z where a: "t32 (fins J)" "\<rho> (op1 J) = Some (V32 a)" "sem_bin (fo J) a ?d = Some z" "v = V32 z"
    using pre s(1) disjI1[OF r] by (cases rule: strict_rightk) (use r in auto)
  obtain x where x: "\<rho> ?p = Some (V32 x)" "sem_bin (fo J) x ?k = Some a"
    using left_strict(1)[OF pre sl a(2)] inner_kint[OF pre _ k] l by force
  have xc: "sem_bin (fo J) x c = Some z" by (rule sem_assoc[OF s(2) x(2) a(3) c])
  show "fout b \<rho> J v (FoldRef (op1 J), J)" if "c = ?k"
    using xc x(2) a(2,4) that by (intro fout_val[OF pre]) simp
  have "fout b \<rho> J v (let (r, J1) = lj_ir_kint c (J\<lparr>J_ins := (fins J)\<lparr>ir_op1 := ?p\<rparr>\<rparr>) in (RETRYFOLD, fins_op2 r J1))"
  proof (rule fout_retry_k[OF pre rm])
    fix \<rho>' r assume m: "\<rho> \<subseteq>\<^sub>m \<rho>'" "\<rho>' r = Some (V32 c)"
    have "ev \<rho>' ((fins J)\<lparr>ir_op1 := ?p, ir_op2 := r\<rparr>) = Some v"
      using a(1,4) s(1) map_leD[OF m(1) x(1)] m(2) xc by (auto intro: ev_strictI(1))
    then show "\<exists>w. ev \<rho>' ((fins J)\<lparr>ir_op1 := ?p\<rparr>\<lparr>ir_op2 := r\<rparr>) = Some w \<and> vsim (wide (fins J)) v w" by simp
  qed (use strict_ops[OF s(1)] in auto)
  then show "fout b \<rho> J v (let (r, J1) = lj_ir_kint c (fins_op1 ?p J) in (RETRYFOLD, fins_op2 r J1))"
    by (simp add: fold_set)
qed

lemma reassoc_strict_k_ok:
  assumes s: "strict_op op" "assoc_op op"
  shows "rule_ok op op IR_KINT (pure_rule reassoc_intarith_k)"
proof (rule rule_binI)
  show "\<not> un_op op" using strict_ops[OF s(1)] by simp
  fix b \<rho> J v
  assume pre: "fpre \<rho> J v" and rm: "ir_room J" and o: "fo J = op" and l: "op = 0x7f \<or> ir_o (fleft J) = op"
    and r: "IR_KINT = 0x3ff \<or> ir_o (fright J) = IR_KINT"
  have l': "ir_o (fleft J) = fo J" using l o s(1) by (auto simp: strict_op_def op_defs)
  note R = reassoc_k_fout[OF pre rm, of b]
  show "fout b \<rho> J v (reassoc_intarith_k J)"
    using R s o l' r by (simp add: reassoc_intarith_k_def Let_def)
qed

text \<open>The rules for minima and maxima read a constant of either kind; an integer has only integer constants.\<close>

lemma reassoc_minmax_k_ok:
  assumes op: "op = IR_MIN \<or> op = IR_MAX"
  shows "rule_ok op op IR_KINT (math_rule reassoc_minmax_k)"
proof -
  have s: "strict_op op" "assoc_op op" using op by (auto simp: strict_op_def op_defs assoc_op_def)
  have "rule_ok op op IR_KINT (pure_rule (reassoc_minmax_k lm))" for lm
  proof (rule rule_binI)
    show "\<not> un_op op" using strict_ops[OF s(1)] by simp
    fix b \<rho> J v
    assume pre: "fpre \<rho> J v" and rm: "ir_room J" and o: "fo J = op" and l: "op = 0x7f \<or> ir_o (fleft J) = op"
      and r: "IR_KINT = 0x3ff \<or> ir_o (fright J) = IR_KINT"
    have l': "ir_o (fleft J) = fo J" using l o s(1) by (auto simp: strict_op_def op_defs)
    have sl: "strict_op (ir_o (fleft J))" using s(1) l' o by simp
    have e: "ev \<rho> (fins J) = Some v" using pre by (simp add: fpre_def)
    have nn: "ir_o (J_ir J (ir_op2 (fleft J))) \<noteq> IR_KNUM"
    proof -
      have "\<exists>w. \<rho> (op1 J) = Some w" by (rule left_val[OF pre])
      then obtain w where w: "\<rho> (ir_op2 (fleft J)) = Some w"
        using left_strict[OF pre sl] by (metis fval.exhaust)
      have ok: "fold_ok \<rho> J" using pre by (simp add: fpre_def)
      show ?thesis using val_kop[OF ok w] val_const[OF ok w] by (auto simp: is_kop_def)
    qed
    show "fout b \<rho> J v (reassoc_minmax_k lm J)"
      using reassoc_k_fout[OF pre rm, of b] s o l' r nn by (simp add: reassoc_minmax_k_def Let_def)
  qed
  then show ?thesis unfolding rule_ok_def math_rule_def pure_rule_def by blast
qed

section \<open>Reassociation with 64 bit constants\<close>

lemma reassoc_strict_k64_ok:
  assumes s: "strict_op op" "assoc_op op"
  shows "rule_ok op op IR_KINT64 (pure_rule reassoc_intarith_k64)"
proof (rule rule_binI)
  show "\<not> un_op op" using strict_ops[OF s(1)] by simp
  fix b \<rho> J v
  assume pre: "fpre \<rho> J v" and rm: "ir_room J" and o: "fo J = op" and l: "op = 0x7f \<or> ir_o (fleft J) = op"
    and r: "IR_KINT64 = 0x3ff \<or> ir_o (fright J) = IR_KINT64"
  have s': "strict_op (fo J)" "assoc_op (fo J)" using s o by simp_all
  have l': "ir_o (fleft J) = fo J" using l o s(1) by (auto simp: strict_op_def op_defs)
  have sl: "strict_op (ir_o (fleft J))" using s(1) l' o by simp
  have r': "ir_o (fright J) = IR_KINT64" using r by simp
  let ?p = "ir_op1 (fleft J)" and ?irk = "J_ir J (ir_op2 (fleft J))" and ?d = "ir_k64 J (fright J)"
  obtain a z where a: "t64 (fins J)" "\<rho> (op1 J) = Some (V64 a)" "sem_bin (fo J) a ?d = Some z" "v = V64 z" "bin_op64 (fo J)"
    using pre s'(1) disjI2[OF r'] by (cases rule: strict_rightk) (use r' in auto)
  have "fout b \<rho> J v (let (r, J1) = lj_ir_kint64 (kfold_int64op (ir_k64 J ?irk) ?d (fo J)) (fins_op1 ?p J) in (RETRYFOLD, fins_op2 r J1))"
    if k: "ir_o ?irk = IR_KINT64"
  proof -
    let ?c = "kfold_int64op (ir_k64 J ?irk) ?d (fo J)"
    have c: "sem_bin (fo J) (ir_k64 J ?irk) ?d = Some ?c" by (rule kfold_int64op_bin[OF a(5)])
    obtain x where x: "\<rho> ?p = Some (V64 x)" "sem_bin (fo J) x (ir_k64 J ?irk) = Some a"
      using left_strict(2)[OF pre sl a(2)] inner_kint64[OF pre _ k] l' by force
    have xc: "sem_bin (fo J) x ?c = Some z" by (rule sem_assoc[OF s'(2) x(2) a(3) c])
    have "fout b \<rho> J v (let (r, J1) = lj_ir_kint64 ?c (J\<lparr>J_ins := (fins J)\<lparr>ir_op1 := ?p\<rparr>\<rparr>) in (RETRYFOLD, fins_op2 r J1))"
    proof (rule fout_retry_k64[OF pre rm])
      fix \<rho>' r assume m: "\<rho> \<subseteq>\<^sub>m \<rho>'" "\<rho>' r = Some (V64 ?c)"
      have "ev \<rho>' ((fins J)\<lparr>ir_op1 := ?p, ir_op2 := r\<rparr>) = Some v"
        using a(1,4,5) map_leD[OF m(1) x(1)] m(2) xc by (auto intro: ev_strictI(2))
      then show "\<exists>w. ev \<rho>' ((fins J)\<lparr>ir_op1 := ?p\<rparr>\<lparr>ir_op2 := r\<rparr>) = Some w \<and> vsim (wide (fins J)) v w" by simp
    qed (use strict_ops[OF s'(1)] in auto)
    then show ?thesis by (simp add: fold_set)
  qed
  then show "fout b \<rho> J v (reassoc_intarith_k64 J)" by (simp add: reassoc_intarith_k64_def Let_def)
qed

section \<open>Reassociation of additions\<close>

lemma rdz_same: "\<rho> r = \<rho>' r \<Longrightarrow> rdz \<rho> r = rdz \<rho>' r"
  by (simp add: rdz_def z32_def rd64_def)

lemma grown_same: "\<rho> \<subseteq>\<^sub>m \<rho>' \<Longrightarrow> \<rho> r = Some w \<Longrightarrow> \<rho> r = \<rho>' r"
  using map_leD[of \<rho> \<rho>' r w] by simp

lemma reassoc_add_k_ok: "rule_ok IR_ADD IR_ADD IR_KINT (pure_rule reassoc_intarith_k)"
proof (rule rule_binI)
  show "\<not> un_op IR_ADD" by (simp add: op_defs)
  fix b \<rho> J v
  assume pre: "fpre \<rho> J v" and rm: "ir_room J" and o: "fo J = IR_ADD" and l: "IR_ADD = 0x7f \<or> ir_o (fleft J) = IR_ADD"
    and r: "IR_KINT = 0x3ff \<or> ir_o (fright J) = IR_KINT"
  have u: "\<not> un_op (fo J)" using o by (simp add: op_defs)
  have l': "ir_o (fleft J) = IR_ADD" "ir_o (fleft J) = IR_ADD \<or> ir_o (fleft J) = IR_SUB" using l by simp_all
  have e: "ev \<rho> (fins J) = Some v" using pre by (simp add: fpre_def)
  let ?p = "ir_op1 (fleft J)" and ?q = "ir_op2 (fleft J)"
  let ?c = "ins_i (J_ir J ?q)" and ?d = "ins_i (fright J)"
  have d: "\<rho> (op2 J) = Some (V32 ?d)" using right_kint[OF pre u] r by simp
  show "fout b \<rho> J v (reassoc_intarith_k J)"
  proof (cases "ir_o (J_ir J ?q) = IR_KINT")
    case True
    note c = inner_kint[OF pre _ True]
    have L32: "\<exists>a. \<rho> ?p = Some (V32 a) \<and> x = a + ?c" if "\<rho> (op1 J) = Some (V32 x)" for x
      using left_as(1)[OF pre l'(2) that] c l'(1) by force
    have L64: "\<exists>a. rdz \<rho> ?p = Some a \<and> x = a \<and> ?c = 0" if x: "rdz \<rho> (op1 J) = Some x" for x
    proof -
      obtain a b where ab: "rdz \<rho> ?p = Some a" "rdz \<rho> ?q = Some b" "x = a + b"
        using left_as(2)[OF pre l'(2) x] l'(1) by (auto simp: sem_as_def)
      obtain w where w: "\<rho> ?q = Some w" using rdz_cases[OF ab(2)] by auto
      then have "?c = 0" "b = 0" using rdz_left_kint[OF _ ab(2)] c[OF w] by auto
      then show ?thesis using ab by auto
    qed
    have left: "fout b \<rho> J v (FoldRef (op1 J), J)" if "?d = 0"
      by (rule as_ref[OF pre]) (use o d that rdz_left_kint[of \<rho> "op2 J"] in \<open>auto simp: sem_as_def\<close>)
    have "fout b \<rho> J v (let (r, J1) = lj_ir_kint (?c + ?d) (J\<lparr>J_ins := (fins J)\<lparr>ir_op1 := ?p\<rparr>\<rparr>) in (RETRYFOLD, fins_op2 r J1))"
    proof (rule fout_retry_k[OF pre rm])
      fix \<rho>' r assume m: "\<rho> \<subseteq>\<^sub>m \<rho>'" "\<rho>' r = Some (V32 (?c + ?d))" "irref_isk r"
      have e': "ev \<rho>' (fins J) = Some v" by (rule ev_mono[OF m(1) e])
      obtain w1 where "\<rho> (op1 J) = Some w1" using left_val[OF pre] by blast
      then have same: "\<rho> (op1 J) = \<rho>' (op1 J)" by (rule grown_same[OF m(1)])
      have d': "\<rho>' (op2 J) = Some (V32 ?d)" by (rule map_leD[OF m(1) d])
      show "\<exists>w. ev \<rho>' ((fins J)\<lparr>ir_op1 := ?p\<rparr>\<lparr>ir_op2 := r\<rparr>) = Some w \<and> vsim (wide (fins J)) v w"
      proof (rule as_retry[OF e'])
        fix x y assume xy: "\<rho>' (op1 J) = Some (V32 x)" "\<rho>' (op2 J) = Some (V32 y)"
        then obtain a where "\<rho> ?p = Some (V32 a)" "x = a + ?c" using L32 same by metis
        then show "\<exists>c d. \<rho>' (ir_op1 ((fins J)\<lparr>ir_op1 := ?p, ir_op2 := r\<rparr>)) = Some (V32 c) \<and>
            \<rho>' (ir_op2 ((fins J)\<lparr>ir_op1 := ?p, ir_op2 := r\<rparr>)) = Some (V32 d) \<and>
            (if ir_o ((fins J)\<lparr>ir_op1 := ?p, ir_op2 := r\<rparr>) = IR_ADD then c + d else c - d) = (if fo J = IR_ADD then x + y else x - y)"
          using map_leD[OF m(1)] m(2) d' xy(2) o by auto
      next
        fix x y assume xy: "rdz \<rho>' (op1 J) = Some x" "rdz \<rho>' (op2 J) = Some y"
        have "rdz \<rho> (op1 J) = Some x" using rdz_same[of \<rho> "op1 J" \<rho>', OF same] xy(1) by simp
        then obtain a where a: "rdz \<rho> ?p = Some a" "x = a" "?c = 0" using L64 by blast
        have "?d = 0" "y = 0" using rdz_left_kint[OF d' xy(2)] by simp_all
        then have "rdz \<rho>' r = Some 0" using m(2,3) a(3) by (intro rdz_zero) simp_all
        then show "\<exists>c d. rdz \<rho>' (ir_op1 ((fins J)\<lparr>ir_op1 := ?p, ir_op2 := r\<rparr>)) = Some c \<and>
            rdz \<rho>' (ir_op2 ((fins J)\<lparr>ir_op1 := ?p, ir_op2 := r\<rparr>)) = Some d \<and>
            sem_as (ir_o ((fins J)\<lparr>ir_op1 := ?p, ir_op2 := r\<rparr>)) c d = sem_as (fo J) x y"
          using rdz_mono[OF m(1) a(1)] a(2) \<open>y = 0\<close> o by simp
      qed (use o in auto)
    qed (use o in \<open>auto simp: op_defs heavy_def\<close>)
    moreover have "kfold_intop ?c ?d (fo J) = ?c + ?d" by (rule kfold_intop_bin) (simp add: o)
    ultimately show ?thesis using True left by (simp add: reassoc_intarith_k_def Let_def fold_set)
  qed (simp add: reassoc_intarith_k_def Let_def)
qed

lemma reassoc_add_k64_ok: "rule_ok IR_ADD IR_ADD IR_KINT64 (pure_rule reassoc_intarith_k64)"
proof (rule rule_binI)
  show "\<not> un_op IR_ADD" by (simp add: op_defs)
  fix b \<rho> J v
  assume pre: "fpre \<rho> J v" and rm: "ir_room J" and o: "fo J = IR_ADD" and l: "IR_ADD = 0x7f \<or> ir_o (fleft J) = IR_ADD"
    and r: "IR_KINT64 = 0x3ff \<or> ir_o (fright J) = IR_KINT64"
  have u: "\<not> un_op (fo J)" using o by (simp add: op_defs)
  have l': "ir_o (fleft J) = IR_ADD" "ir_o (fleft J) = IR_ADD \<or> ir_o (fleft J) = IR_SUB" using l by simp_all
  have e: "ev \<rho> (fins J) = Some v" using pre by (simp add: fpre_def)
  let ?p = "ir_op1 (fleft J)" and ?q = "ir_op2 (fleft J)"
  let ?c = "ir_k64 J (J_ir J ?q)" and ?d = "ir_k64 J (fright J)"
  have d: "\<rho> (op2 J) = Some (V64 ?d)" using right_kint64[OF pre u] r by simp
  show "fout b \<rho> J v (reassoc_intarith_k64 J)"
  proof (cases "ir_o (J_ir J ?q) = IR_KINT64")
    case True
    note c = inner_kint64[OF pre _ True]
    have L64: "\<exists>a. rdz \<rho> ?p = Some a \<and> x = a + ?c" if x: "rdz \<rho> (op1 J) = Some x" for x
    proof -
      obtain a b where ab: "rdz \<rho> ?p = Some a" "rdz \<rho> ?q = Some b" "x = a + b"
        using left_as(2)[OF pre l'(2) x] l'(1) by (auto simp: sem_as_def)
      obtain w where w: "\<rho> ?q = Some w" using rdz_cases[OF ab(2)] by auto
      then have "b = ?c" using rdz_strict[of \<rho> ?q ?c] c[OF w] ab(2) by simp
      then show ?thesis using ab by auto
    qed
    have "fout b \<rho> J v (let (r, J1) = lj_ir_kint64 (?c + ?d) (J\<lparr>J_ins := (fins J)\<lparr>ir_op1 := ?p\<rparr>\<rparr>) in (RETRYFOLD, fins_op2 r J1))"
    proof (rule fout_retry_k64[OF pre rm])
      fix \<rho>' r assume m: "\<rho> \<subseteq>\<^sub>m \<rho>'" "\<rho>' r = Some (V64 (?c + ?d))"
      have e': "ev \<rho>' (fins J) = Some v" by (rule ev_mono[OF m(1) e])
      obtain w1 where "\<rho> (op1 J) = Some w1" using left_val[OF pre] by blast
      then have same: "\<rho> (op1 J) = \<rho>' (op1 J)" by (rule grown_same[OF m(1)])
      have d': "\<rho>' (op2 J) = Some (V64 ?d)" by (rule map_leD[OF m(1) d])
      show "\<exists>w. ev \<rho>' ((fins J)\<lparr>ir_op1 := ?p\<rparr>\<lparr>ir_op2 := r\<rparr>) = Some w \<and> vsim (wide (fins J)) v w"
      proof (rule as_retry[OF e'])
        fix x y assume xy: "\<rho>' (op2 J) = Some (V32 y)"
        then show "\<exists>c d. \<rho>' (ir_op1 ((fins J)\<lparr>ir_op1 := ?p, ir_op2 := r\<rparr>)) = Some (V32 c) \<and>
            \<rho>' (ir_op2 ((fins J)\<lparr>ir_op1 := ?p, ir_op2 := r\<rparr>)) = Some (V32 d) \<and>
            (if ir_o ((fins J)\<lparr>ir_op1 := ?p, ir_op2 := r\<rparr>) = IR_ADD then c + d else c - d) = (if fo J = IR_ADD then x + y else x - y)"
          using d' by simp
      next
        fix x y assume xy: "rdz \<rho>' (op1 J) = Some x" "rdz \<rho>' (op2 J) = Some y"
        have "rdz \<rho> (op1 J) = Some x" using rdz_same[of \<rho> "op1 J" \<rho>', OF same] xy(1) by simp
        then obtain a where a: "rdz \<rho> ?p = Some a" "x = a + ?c" using L64 by blast
        have "y = ?d" using rdz_strict[of \<rho>' "op2 J", OF d'] xy(2) by simp
        then show "\<exists>c d. rdz \<rho>' (ir_op1 ((fins J)\<lparr>ir_op1 := ?p, ir_op2 := r\<rparr>)) = Some c \<and>
            rdz \<rho>' (ir_op2 ((fins J)\<lparr>ir_op1 := ?p, ir_op2 := r\<rparr>)) = Some d \<and>
            sem_as (ir_o ((fins J)\<lparr>ir_op1 := ?p, ir_op2 := r\<rparr>)) c d = sem_as (fo J) x y"
          using rdz_mono[OF m(1) a(1)] rdz_strict[of \<rho>' r, OF m(2)] a(2) o by (simp add: sem_as_def)
      qed (use o in auto)
    qed (use o in \<open>auto simp: op_defs heavy_def\<close>)
    moreover have "kfold_int64op ?c ?d (fo J) = ?c + ?d"
      using kfold_int64op_bin[of "fo J" ?c ?d] by (simp add: o bin_op64_def)
    ultimately show ?thesis using True by (simp add: reassoc_intarith_k64_def Let_def fold_set)
  qed (simp add: reassoc_intarith_k64_def Let_def)
qed

section \<open>Repeated operands\<close>

text \<open>An operation repeated with one of its own operands.\<close>

lemma reassoc_dup_ok:
  assumes "idem_op op"
  shows "rule_ok op op r (pure_rule reassoc_dup)"
proof (rule rule_binI)
  have s: "strict_op op" using assms by (auto simp: idem_op_def strict_op_def op_defs)
  show "\<not> un_op op" using strict_ops[OF s] by simp
  fix b \<rho> J v
  assume pre: "fpre \<rho> J v" and o: "fo J = op" and l: "op = 0x7f \<or> ir_o (fleft J) = op" and e: "ev \<rho> (fins J) = Some v"
  have s': "strict_op (fo J)" using s o by simp
  have l': "ir_o (fleft J) = op" using l s by (auto simp: strict_op_def op_defs)
  have sl: "strict_op (ir_o (fleft J))" using s l' by simp
  have "\<rho> (op1 J) = Some v" if "op2 J = ir_op1 (fleft J) \<or> op2 J = ir_op2 (fleft J)"
    using e s'
  proof (cases rule: ev_strictE)
    case (32 x y z)
    obtain a b where ab: "\<rho> (ir_op1 (fleft J)) = Some (V32 a)" "\<rho> (ir_op2 (fleft J)) = Some (V32 b)" "sem_bin op a b = Some x"
      using left_strict(1)[OF pre sl 32(2)] l' by auto
    show ?thesis using 32 that ab(1,2) o sem_dup2[OF assms ab(3)] by auto
  next
    case (64 x y z)
    obtain a b where ab: "\<rho> (ir_op1 (fleft J)) = Some (V64 a)" "\<rho> (ir_op2 (fleft J)) = Some (V64 b)" "sem_bin op a b = Some x"
      using left_strict(2)[OF pre sl 64(2)] l' by auto
    show ?thesis using 64 that ab(1,2) o sem_dup2[OF assms ab(3)] by auto
  qed
  then show "fout b \<rho> J v (reassoc_dup J)" using fout_val[OF pre] by (simp add: reassoc_dup_def)
qed

lemma reassoc_bxor_ok: "rule_ok IR_BXOR IR_BXOR r (pure_rule reassoc_bxor)"
proof (rule rule_binI)
  have s: "strict_op IR_BXOR" by (auto simp: strict_op_def op_defs)
  show "\<not> un_op IR_BXOR" using strict_ops[OF s] by simp
  fix b \<rho> J v
  assume pre: "fpre \<rho> J v" and o: "fo J = IR_BXOR" and l: "IR_BXOR = 0x7f \<or> ir_o (fleft J) = IR_BXOR"
    and e: "ev \<rho> (fins J) = Some v"
  have s': "strict_op (fo J)" using s o by simp
  have l': "ir_o (fleft J) = IR_BXOR" using l by simp
  have sl: "strict_op (ir_o (fleft J))" using s l' by simp
  have x: "(a XOR b) XOR a = b" "(a XOR b) XOR b = a" for a b :: "'b::len word"
    by (auto simp: bit_simps intro!: bit_word_eqI)
  have "(op2 J = ir_op1 (fleft J) \<longrightarrow> \<rho> (ir_op2 (fleft J)) = Some v) \<and> (op2 J = ir_op2 (fleft J) \<longrightarrow> \<rho> (ir_op1 (fleft J)) = Some v)"
    using e s'
  proof (cases rule: ev_strictE)
    case (32 p q z)
    show ?thesis using left_strict(1)[OF pre sl 32(2)] 32 l' o by (auto simp: x)
  next
    case (64 p q z)
    show ?thesis using left_strict(2)[OF pre sl 64(2)] 64 l' o by (auto simp: x)
  qed
  then show "fout b \<rho> J v (reassoc_bxor J)" using fout_val[OF pre] by (simp add: reassoc_bxor_def)
qed

text \<open>Absorption: the minimum of a value and a maximum over that value, and so on.\<close>

lemma minmax_strict: "op = IR_MIN \<or> op = IR_MAX \<Longrightarrow> strict_op op \<and> \<not> bin_op64 op \<and> op \<noteq> 0x7f"
  by (auto simp: strict_op_def op_defs)

lemma reassoc_minmax_left_ok:
  assumes op: "op = IR_MAX \<and> l = IR_MIN \<or> op = IR_MIN \<and> l = IR_MAX"
  shows "rule_ok op l r (pure_rule reassoc_minmax_left)"
proof (rule rule_binI)
  have s: "strict_op op" "strict_op l" "l \<noteq> 0x7f" using op minmax_strict by auto
  show "\<not> un_op op" using strict_ops[OF s(1)] by simp
  fix b \<rho> J v
  assume pre: "fpre \<rho> J v" and o: "fo J = op" and l: "l = 0x7f \<or> ir_o (fleft J) = l" and e: "ev \<rho> (fins J) = Some v"
  have s': "strict_op (fo J)" "strict_op (ir_o (fleft J))" "ir_o (fleft J) = l" using s o l by simp_all
  have "\<rho> (op2 J) = Some v" if "op2 J = ir_op1 (fleft J) \<or> op2 J = ir_op2 (fleft J)"
    using e s'(1)
  proof (cases rule: ev_strictE)
    case (32 x y z)
    obtain a b where ab: "\<rho> (ir_op1 (fleft J)) = Some (V32 a)" "\<rho> (ir_op2 (fleft J)) = Some (V32 b)" "sem_bin l a b = Some x"
      using left_strict(1)[OF pre s'(2) 32(2)] s'(3) by blast
    show ?thesis using 32 that ab o sem_absorb[OF op ab(3)] by auto
  next
    case (64 x y z)
    then show ?thesis using op o by (auto simp: op_defs)
  qed
  then show "fout b \<rho> J v (reassoc_minmax_left J)" using fout_val[OF pre] by (simp add: reassoc_minmax_left_def)
qed

lemma reassoc_minmax_right_ok:
  assumes op: "op = IR_MAX \<and> r = IR_MIN \<or> op = IR_MIN \<and> r = IR_MAX"
  shows "rule_ok op l r (pure_rule reassoc_minmax_right)"
proof (rule rule_binI)
  have s: "strict_op op" "strict_op r" "r \<noteq> 0x3ff" using op minmax_strict by auto
  show u: "\<not> un_op op" using strict_ops[OF s(1)] by simp
  fix b \<rho> J v
  assume pre: "fpre \<rho> J v" and o: "fo J = op" and r: "r = 0x3ff \<or> ir_o (fright J) = r" and e: "ev \<rho> (fins J) = Some v"
  have s': "strict_op (fo J)" "strict_op (ir_o (fright J))" "ir_o (fright J) = r" "\<not> un_op (fo J)" using s o r u by simp_all
  have ri: "ev \<rho> (fright J) = \<rho> (op2 J)" using right_int[OF pre s'(4)] strict_ops[OF s'(2)] by simp
  have R: "\<exists>a b. \<rho> (ir_op1 (fright J)) = Some (V32 a) \<and> \<rho> (ir_op2 (fright J)) = Some (V32 b) \<and> sem_bin r a b = Some y"
    if "ev \<rho> (fright J) = Some (V32 y)" for y
    using that s'(2) by (cases rule: ev_strictE) (use s'(3) in auto)
  have "\<rho> (op1 J) = Some v" if "op1 J = ir_op1 (fright J) \<or> op1 J = ir_op2 (fright J)"
    using e s'(1)
  proof (cases rule: ev_strictE)
    case (32 x y z)
    obtain a b where ab: "\<rho> (ir_op1 (fright J)) = Some (V32 a)" "\<rho> (ir_op2 (fright J)) = Some (V32 b)" "sem_bin r a b = Some y"
      using R ri 32(3) by auto
    show ?thesis using 32 that ab o sem_absorb[OF op ab(3)] by auto
  next
    case (64 x y z)
    then show ?thesis using op o by (auto simp: op_defs)
  qed
  then show "fout b \<rho> J v (reassoc_minmax_right J)" using fout_val[OF pre] by (simp add: reassoc_minmax_right_def)
qed

section \<open>Shifts and masks\<close>

lemma simplify_andk_shiftk_ok:
  assumes l: "l = IR_BSHL \<or> l = IR_BSHR"
  shows "rule_ok IR_BAND l IR_KINT (pure_rule simplify_andk_shiftk)"
proof (rule rule_binI)
  show u: "\<not> un_op IR_BAND" by (simp add: op_defs)
  fix b \<rho> J v
  assume pre: "fpre \<rho> J v" and o: "fo J = IR_BAND" and l': "l = 0x7f \<or> ir_o (fleft J) = l"
    and r: "IR_KINT = 0x3ff \<or> ir_o (fright J) = IR_KINT"
  have lo: "ir_o (fleft J) = l" "shift_op (ir_o (fleft J))" using l l' by (auto simp: op_defs)
  have r': "ir_o (fright J) = IR_KINT" using r by simp
  have s: "strict_op (fo J)" using o by (simp add: strict_op_def op_defs)
  let ?irk = "J_ir J (ir_op2 (fleft J))"
  have "\<rho> (op1 J) = Some v" if k: "ir_o ?irk = IR_KINT" "kfold_intop (- 1) (ins_i ?irk) (ir_o (fleft J)) = ins_i (fright J)"
  proof -
    obtain a z where a: "\<rho> (op1 J) = Some (V32 a)" "sem_bin (fo J) a (ins_i (fright J)) = Some z" "v = V32 z"
      using pre s disjI1[OF r'] by (cases rule: strict_rightk) (use r' in auto)
    have "ev \<rho> (fleft J) = Some (V32 a)" using left_int[OF pre] lo(2) a(1) by (simp add: op_defs)
    then obtain x d where x: "a = sem_shift (ir_o (fleft J)) x d" "\<rho> (ir_op2 (fleft J)) = Some (V32 d)"
      using lo(2) by (cases rule: ev_shiftE) auto
    have "d = ins_i ?irk" using inner_kint[OF pre x(2) k(1)] by simp
    then have "ins_i (fright J) = sem_shift (ir_o (fleft J)) (- 1) d" using k(2) kfold_intop_shift[OF lo(2)] by simp
    then have "z = a" using a(2) o x(1) shift_masked[of "ir_o (fleft J)" x d] lo(1) l by auto
    then show ?thesis using a by simp
  qed
  then show "fout b \<rho> J v (simplify_andk_shiftk J)" using fout_val[OF pre] by (simp add: simplify_andk_shiftk_def Let_def)
qed

lemma irt_int: "irt_type (mk_irt IRT_INT) = IRT_INT"
  by (simp add: mk_irt_def)

text \<open>A shift of a masked value: the engine folds the shift of the value, and the mask is shifted.\<close>

lemma simplify_shiftk_andk_ok:
  assumes op: "op \<in> {IR_BSHL, IR_BSHR, IR_BROL, IR_BROR}"
  shows "rule_ok op IR_BAND IR_KINT simplify_shiftk_andk"
  unfolding rule_ok_def
proof (intro allI impI, elim conjE)
  fix b and E :: fold_env and \<rho> J v
  assume eng: "engine_sound b (fe_fold E)" and pre: "fpre \<rho> J v" and rm': "if heavy op then room (b + 2) J else room 1 J" and o: "fo J = op"
    and l: "IR_BAND = 0x7f \<or> ir_o (fleft J) = IR_BAND" and r: "IR_KINT = 0x3ff \<or> rkey J = IR_KINT"
  have s: "shift_op (fo J)" using op o by (auto simp: op_defs)
  have rm: "room (b + 2) J" using rm' s o by (simp add: heavy_def)
  have u: "\<not> un_op (fo J)" using shift_ops[OF s] by simp
  have e: "ev \<rho> (fins J) = Some v" and ok: "fold_ok \<rho> J" and o2: "op2 J < J_nins J" using pre by (simp_all add: fpre_def)
  have r': "ir_o (fright J) = IR_KINT" using r right_key[OF pre u] by simp
  have l': "ir_o (fleft J) = IR_BAND" "strict_op (ir_o (fleft J))" using l by (simp_all add: strict_op_def op_defs)
  let ?p = "ir_op1 (fleft J)" and ?irk = "J_ir J (ir_op2 (fleft J))" and ?d = "ins_i (fright J)"
  define k where "k = kfold_intop (ins_i ?irk) ?d (fo J)"
  show "case simplify_shiftk_andk E J of Inl e \<Rightarrow> e = FOLD_FUEL | Inr p \<Rightarrow> fout b \<rho> J v p"
  proof (cases "\<not> phi (fleft J) \<and> ir_o ?irk = IR_KINT")
    case True
    then have irk: "ir_o ?irk = IR_KINT" by simp
    have d: "\<rho> (op2 J) = Some (V32 ?d)" by (rule right_kint[OF pre u r'])
    obtain x where t: "t32 (fins J)" and x: "\<rho> ?p = Some (V32 x)"
      and v: "v = V32 (sem_shift (fo J) (x AND ins_i ?irk) ?d)"
      using e s
    proof (cases rule: ev_shiftE)
      case (32 a y)
      obtain x c where "\<rho> ?p = Some (V32 x)" "\<rho> (ir_op2 (fleft J)) = Some (V32 c)" "a = x AND c"
        using left_strict(1)[OF pre l'(2) 32(2)] l'(1) by auto
      then show ?thesis using that[of x] 32 d inner_kint[OF pre _ irk] by auto
    next
      case (64 a y)
      then show ?thesis using left_strict(2)[OF pre l'(2) 64(2)] inner_kint[OF pre _ irk] by auto
    qed
    let ?J1 = "fins_op1 ?p J" and ?v1 = "V32 (sem_shift (fo J) x ?d)"
    have e1: "ev \<rho> (fins ?J1) = Some ?v1" using ev_shift32[of "fins ?J1" \<rho> x ?d] t s x d by (simp add: fold_set)
    have s1: "fold_ok \<rho> ?J1 \<and> int_op (fo ?J1) \<and> op2 ?J1 < J_nins ?J1 \<and> ev \<rho> (fins ?J1) = Some ?v1 \<and> room b ?J1"
      using ok o2 e1 rm shift_ops[OF s] by (simp add: fold_set room_def)
    have spec: "case fe_fold E ?J1 of Inl e \<Rightarrow> e = FOLD_FUEL | Inr p \<Rightarrow> result_ok b \<rho> ?J1 ?v1 p"
      using eng s1 unfolding engine_sound_def by blast
    show ?thesis
    proof (cases "fe_fold E ?J1")
      case (Inl err)
      then show ?thesis using True spec by (simp add: simplify_shiftk_andk_def Let_def bnd_def)
    next
      case (Inr q)
      obtain r1 J2 where q: "q = (r1, J2)" by fastforce
      obtain \<rho>1 w where g: "\<rho> \<subseteq>\<^sub>m \<rho>1" "fold_ok \<rho>1 J2" "\<rho>1 r1 = Some w" "vsim (wide (fins ?J1)) ?v1 w" "grown b ?J1 J2"
        using spec unfolding Inr q result_ok_def by auto
      have w: "w = ?v1" using g(4) t by (simp add: vsim_def fold_set)
      have g5: "grown b J J2" using g(5) by (simp add: fold_set)
      have rm2: "ir_room (fins_op1 r1 J2)" using room_ir_room[OF grown_room[OF rm g5]] by (simp add: fold_set)
      obtain z J3 where z: "lj_ir_kint k (fins_op1 r1 J2) = (z, J3)" by fastforce
      have ok2: "fold_ok \<rho>1 (fins_op1 r1 J2)" using g(2) by (simp add: fold_set)
      note ks = kint_step[OF ok2 rm2 z]
      obtain \<rho>2 where g2: "\<rho>1 \<subseteq>\<^sub>m \<rho>2" "fold_ok \<rho>2 J3" "\<rho>2 z = Some (V32 k)" using ks(1) by blast
      let ?J4 = "fins_ot IR_BAND (mk_irt IRT_INT) (fins_op2 z J3)"
      have f3: "op1 J3 = r1" using ks by (simp add: fold_set)
      have kk: "k = sem_shift (fo J) (ins_i ?irk) ?d" unfolding k_def by (rule kfold_intop_shift[OF s])
      have f4: "ir_op1 (fins ?J4) = r1" "ir_op2 (fins ?J4) = z" "ir_t (fins ?J4) = mk_irt IRT_INT" "ir_o (fins ?J4) = IR_BAND"
        using f3 by (simp_all add: fold_set)
      have "ev \<rho>2 (fins ?J4) = Some v"
      proof -
        have "\<rho>2 r1 = Some ?v1" using map_leD[OF g2(1)] g(3) w by simp
        then show ?thesis using g2(3) v kk shift_band[of "fo J" x "ins_i ?irk" ?d] op o
          by (intro trans[OF ev_strictI(1)]) (auto simp: f4 t32_def strict_op_def op_defs irt_int)
      qed
      moreover have "\<rho> \<subseteq>\<^sub>m \<rho>2" using g(1) g2(1) by (rule map_le_trans)
      moreover have "grown (b + 1) J ?J4"
        using grown_trans[OF g5, of 1 J3 "b + 1"] ks(3) by (simp add: fold_set)
      moreover have "z < J_nins ?J4" using val_range(2)[OF g2(2,3)] by (simp add: fold_set)
      moreover have "wide (fins ?J4) = wide (fins J)" using f4(3) t by (simp add: wide_def t32_def irt_int)
      moreover have "fold_ok \<rho>2 ?J4" using g2(2) by (simp add: fold_set)
      moreover have "heavy (fo J)" "\<not> heavy IR_BAND" "int_op IR_BAND" using s by (simp_all add: heavy_def op_defs)
      ultimately have "retry_ok b \<rho> J v ?J4" unfolding retry_ok_def f4
        by (intro exI[of _ \<rho>2] exI[of _ v] exI[of _ "b + 1"]) simp
      then show ?thesis using True z by (simp add: simplify_shiftk_andk_def Let_def bnd_def Inr q k_def[symmetric] fout_def)
    qed
  qed (auto simp: simplify_shiftk_andk_def Let_def)
qed

section \<open>Two rules for numbers that also match integers\<close>

text \<open>The 64 bit modulus is not an integer instruction of the engine, and the 32 bit one has no 64 bit operands.\<close>

lemma kfold_int64mod_ok: "rule_ok IR_MOD IR_KINT64 IR_KINT64 f"
  unfolding rule_ok_def
proof (intro allI impI, elim conjE)
  fix b and E :: fold_env and \<rho> J v
  assume pre: "fpre \<rho> J v" and o: "fo J = IR_MOD" and l: "IR_KINT64 = 0x7f \<or> ir_o (fleft J) = IR_KINT64"
  have s: "strict_op (fo J)" using o by (simp add: strict_op_def op_defs)
  have e: "ev \<rho> (fins J) = Some v" using pre by (simp add: fpre_def)
  from e s show "case f E J of Inl e \<Rightarrow> e = FOLD_FUEL | Inr p \<Rightarrow> fout b \<rho> J v p"
    by (cases rule: ev_strictE) (use left_kint64[OF pre] l o in \<open>auto simp: op_defs\<close>)
qed

lemma mul_negneg_ok: "rule_ok IR_MUL IR_NEG IR_NEG (pure_rule simplify_nummuldiv_negneg)"
proof (rule rule_binI)
  show u0: "\<not> un_op IR_MUL" by (simp add: op_defs)
  fix b \<rho> J v
  assume pre: "fpre \<rho> J v" and o: "fo J = IR_MUL" and l: "IR_NEG = 0x7f \<or> ir_o (fleft J) = IR_NEG"
    and r: "IR_NEG = 0x3ff \<or> ir_o (fright J) = IR_NEG" and e: "ev \<rho> (fins J) = Some v"
  have u: "\<not> un_op (fo J)" using u0 o by simp
  have s: "strict_op (fo J)" using o by (simp add: strict_op_def op_defs)
  have l': "ir_o (fleft J) = IR_NEG" and r': "ir_o (fright J) = IR_NEG" using l r by simp_all
  have li: "ev \<rho> (fleft J) = \<rho> (op1 J)" and ri: "ev \<rho> (fright J) = \<rho> (op2 J)"
    using left_int[OF pre] right_int[OF pre u] l' r' by (simp_all add: op_defs)
  have N: "\<exists>y. \<rho> (ir_op1 i) = Some (V32 y) \<and> x = - y" if "ev \<rho> i = Some (V32 x)" "ir_o i = IR_NEG" for i x
    using that by (cases rule: ev_negE) auto
  have N': "\<exists>y. \<rho> (ir_op1 i) = Some (V64 y) \<and> x = - y" if "ev \<rho> i = Some (V64 x)" "ir_o i = IR_NEG" for i x
    using that by (cases rule: ev_negE) auto
  let ?i = "(fins J)\<lparr>ir_op1 := ir_op1 (fleft J), ir_op2 := ir_op1 (fright J)\<rparr>"
  from e s have "ev \<rho> ?i = Some v"
  proof (cases rule: ev_strictE)
    case (32 x y z)
    obtain a c where ac: "\<rho> (ir_op1 (fleft J)) = Some (V32 a)" "x = - a" "\<rho> (ir_op1 (fright J)) = Some (V32 c)" "y = - c"
      using N[of "fleft J" x] N[of "fright J" y] li ri l' r' 32 by auto
    then show ?thesis using 32 o s by (auto intro!: trans[OF ev_strictI(1)[of ?i \<rho> a c]])
  next
    case (64 x y z)
    obtain a c where ac: "\<rho> (ir_op1 (fleft J)) = Some (V64 a)" "x = - a" "\<rho> (ir_op1 (fright J)) = Some (V64 c)" "y = - c"
      using N'[of "fleft J" x] N'[of "fright J" y] li ri l' r' 64 by auto
    then show ?thesis using 64 o s by (auto intro!: trans[OF ev_strictI(2)[of ?i \<rho> a c]])
  qed
  then have "fout b \<rho> J v (RETRYFOLD, J\<lparr>J_ins := ?i\<rparr>)"
    using u strict_ops[OF s] by (intro fout_retry[OF pre]) auto
  then show "fout b \<rho> J v (simplify_nummuldiv_negneg J)" by (simp add: simplify_nummuldiv_negneg_def fold_set)
qed
end
