(* ===== verification/LJ_FoldMain.thy ===== *)
theory LJ_FoldMain
  imports LJ_FoldReassoc
begin

text \<open>
  Soundness of the table of the fold rules and of the engine for integer instructions.
\<close>

section \<open>The table\<close>

definition entry_ok :: "fold_entry \<Rightarrow> bool" where
  "entry_ok e = (case e of ((op, l, r), f) \<Rightarrow> int_op op \<longrightarrow> rule_ok op l r f)"

lemmas sound_rules =
  kfold_intarith_ok kfold_intarith_neg_ok kfold_int64arith_ok kfold_int64shift_ok kfold_un_ok shortcut_leftleft_ok
  comm_swap_ok comm_dup_ok comm_bxor_ok simplify_numadd_negx_ok simplify_xneg_ok simplify_intadd_k_ok simplify_intsub_k_ok
  simplify_intadd_k64_ok simplify_intsub_k64_ok simplify_intsub_kleft_ok simplify_intsub_ok cancel_rules_ok
  simplify_intsubaddadd_cancel_ok band_bor_k_ok simplify_bxor_k_ok simplify_intmul_k_ok simplify_intmod_k_ok
  simplify_intmod_kleft_ok simplify_shift_ik_ok simplify_shift_andk_ok simplify_shift_ki_ok reassoc_shift_ok
  reassoc_strict_k_ok reassoc_minmax_k_ok reassoc_strict_k64_ok reassoc_add_k_ok reassoc_add_k64_ok reassoc_dup_ok
  reassoc_bxor_ok reassoc_minmax_left_ok reassoc_minmax_right_ok simplify_andk_shiftk_ok simplify_shiftk_andk_ok
  kfold_int64mod_ok mul_negneg_ok

lemmas entry_simps = entry_ok_def op_defs sound_rules rule_ok_leftk rule_ok_rightk is_kop_def assoc_op_def idem_op_def strict_op_def

lemma table_parts:
  "list_all entry_ok fold_rules1" "list_all entry_ok fold_rules2" "list_all entry_ok fold_rules3"
  "list_all entry_ok fold_rules4" "list_all entry_ok fold_rules5" "list_all entry_ok fold_rules6"
  "list_all entry_ok fold_rules7" "list_all entry_ok fold_rules8" "list_all entry_ok fold_rules9"
  "list_all entry_ok fold_rules10" "list_all entry_ok fold_rules11" "list_all entry_ok fold_rules12"
  "list_all entry_ok fold_rules13" "list_all entry_ok fold_rules14" "list_all entry_ok fold_rules15"
  "list_all entry_ok fold_rules16" "list_all entry_ok fold_rules17" "list_all entry_ok fold_rules18"
  "list_all entry_ok fold_rules19" "list_all entry_ok fold_rules20" "list_all entry_ok fold_rules21"
  "list_all entry_ok fold_rules22" "list_all entry_ok fold_rules23" "list_all entry_ok fold_rules24"
  by (simp_all add: fold_rules1_def fold_rules2_def fold_rules3_def fold_rules4_def fold_rules5_def fold_rules6_def
      fold_rules7_def fold_rules8_def fold_rules9_def fold_rules10_def fold_rules11_def fold_rules12_def fold_rules13_def
      fold_rules14_def fold_rules15_def fold_rules16_def fold_rules17_def fold_rules18_def fold_rules19_def
      fold_rules20_def fold_rules21_def fold_rules22_def fold_rules23_def fold_rules24_def entry_simps)

lemma table_ok:
  assumes "map_of fold_table (op, l, r) = Some f" "int_op op"
  shows "rule_ok op l r f"
proof -
  have "list_all entry_ok fold_table" unfolding fold_table_def by (simp add: table_parts)
  then have "entry_ok ((op, l, r), f)" using map_of_SomeD[OF assms(1)] by (auto simp: list_all_iff)
  then show ?thesis using assms(2) by (simp add: entry_ok_def)
qed

section \<open>The engine\<close>

text \<open>The references that a fold with some fuel may allocate: a light operation at most one per round, a heavy one also
  those of a nested fold.\<close>

definition fold_budget :: "bool \<Rightarrow> nat \<Rightarrow> nat" where
  "fold_budget h n = (if h then (n + 1) ^ 2 else n + 1)"

lemma budget_le: "fold_budget h n \<le> (n + 1) ^ 2"
  by (simp add: fold_budget_def power2_eq_square)

definition sound_for :: "nat \<Rightarrow> nat jit \<Rightarrow> bool" where
  "sound_for n f \<longleftrightarrow>
     (\<forall>\<rho> J v. fold_ok \<rho> J \<and> int_op (fo J) \<and> op2 J < J_nins J \<and> ev \<rho> (fins J) = Some v \<and>
        room (fold_budget (heavy (fo J)) n) J \<longrightarrow>
        (case f J of Inl e \<Rightarrow> e = FOLD_FUEL | Inr p \<Rightarrow> result_ok (fold_budget (heavy (fo J)) n) \<rho> J v p))"

lemma result_mono: "result_ok c \<rho> J v p \<Longrightarrow> c \<le> d \<Longrightarrow> result_ok d \<rho> J v p"
  unfolding result_ok_def grown_def by (fastforce split: prod.splits)

lemma sound_for_engine: "sound_for n f \<Longrightarrow> engine_sound ((n + 1) ^ 2) f"
  unfolding sound_for_def engine_sound_def
proof (intro allI impI, elim conjE)
  fix \<rho> J v
  assume *: "\<forall>\<rho> J v. fold_ok \<rho> J \<and> int_op (fo J) \<and> op2 J < J_nins J \<and> ev \<rho> (fins J) = Some v \<and>
        room (fold_budget (heavy (fo J)) n) J \<longrightarrow>
        (case f J of Inl e \<Rightarrow> e = FOLD_FUEL | Inr p \<Rightarrow> result_ok (fold_budget (heavy (fo J)) n) \<rho> J v p)"
    and a: "fold_ok \<rho> J" "int_op (fo J)" "op2 J < J_nins J" "ev \<rho> (fins J) = Some v" "room ((n + 1) ^ 2) J"
  have "room (fold_budget (heavy (fo J)) n) J" using a(5) budget_le[of "heavy (fo J)" n] by (auto simp: room_def)
  then have "case f J of Inl e \<Rightarrow> e = FOLD_FUEL | Inr p \<Rightarrow> result_ok (fold_budget (heavy (fo J)) n) \<rho> J v p"
    using * a by blast
  then show "case f J of Inl e \<Rightarrow> e = FOLD_FUEL | Inr p \<Rightarrow> result_ok ((n + 1) ^ 2) \<rho> J v p"
    using result_mono budget_le by (auto split: sum.splits)
qed

lemma int_op_kind: "int_op op \<Longrightarrow> irm_kind (lj_ir_mode op) = IRM_N"
proof -
  have "\<forall>op \<in> set [IR_NEG, IR_BNOT, IR_BSWAP, IR_BSHL, IR_BSHR, IR_BSAR, IR_BROL, IR_BROR, IR_ADD, IR_SUB, IR_MUL, IR_MOD,
      IR_BAND, IR_BOR, IR_BXOR, IR_MIN, IR_MAX]. irm_kind (lj_ir_mode op) = IRM_N"
    by code_simp
  moreover assume "int_op op"
  then have "op \<in> set [IR_NEG, IR_BNOT, IR_BSWAP, IR_BSHL, IR_BSHR, IR_BSAR, IR_BROL, IR_BROR, IR_ADD, IR_SUB, IR_MUL, IR_MOD,
      IR_BAND, IR_BOR, IR_BXOR, IR_MIN, IR_MAX]"
    by (auto simp: op_defs)
  ultimately show ?thesis by blast
qed

lemma cse_result:
  assumes "fold_ok \<rho> J" "int_op (fo J)" "op2 J < J_nins J" "ev \<rho> (fins J) = Some v" "ir_room J" "1 \<le> c"
  shows "result_ok c \<rho> J v (lj_opt_cse J)"
proof -
  obtain r J' where e: "lj_opt_cse J = (r, J')" by fastforce
  obtain \<rho>' where "\<rho> \<subseteq>\<^sub>m \<rho>'" "fold_ok \<rho>' J'" "\<rho>' r = Some v" "grown 1 J J'"
    using cse_step[OF assms(1,5,2,4,3) e] by blast
  then have "result_ok 1 \<rho> J v (r, J')" unfolding result_ok_def by auto
  then show ?thesis using result_mono assms(6) e by simp
qed

lemma checked_sound:
  assumes "sound_for n f"
  shows "sound_for n (fold_checked f)"
  unfolding sound_for_def
proof (intro allI impI, elim conjE)
  fix \<rho> J v
  assume a: "fold_ok \<rho> J" "int_op (fo J)" "op2 J < J_nins J" "ev \<rho> (fins J) = Some v" "room (fold_budget (heavy (fo J)) n) J"
  have f: "case f J of Inl e \<Rightarrow> e = FOLD_FUEL | Inr p \<Rightarrow> result_ok (fold_budget (heavy (fo J)) n) \<rho> J v p"
    using assms a unfolding sound_for_def by blast
  have c: "result_ok (fold_budget (heavy (fo J)) n) \<rho> J v (lj_opt_cse J)"
    by (rule cse_result[OF a(1-4) room_ir_room[OF a(5)]]) (simp add: fold_budget_def)
  have "irm_kind (lj_ir_mode (fo J)) = IRM_N" by (rule int_op_kind[OF a(2)])
  then show "case fold_checked f J of Inl e \<Rightarrow> e = FOLD_FUEL | Inr p \<Rightarrow> result_ok (fold_budget (heavy (fo J)) n) \<rho> J v p"
    using f c by (simp add: fold_checked_def IRM_N_def IRM_L_def IRM_S_def Let_def)
qed

text \<open>Trying the keys in turn.\<close>

lemma match_sound:
  assumes "engine_sound b (fe_fold E)" "fpre \<rho> J v" "if heavy (fo J) then room (b + 2) J else room 1 J"
    and "\<forall>k \<in> set ks. \<exists>l r. k = (fo J, l, r) \<and> (l = 0x7f \<or> ir_o (fleft J) = l) \<and> (r = 0x3ff \<or> rkey J = r)"
  shows "case fold_match E ks J of Inl e \<Rightarrow> e = FOLD_FUEL | Inr p \<Rightarrow> fout b \<rho> J v p"
  using assms(4)
proof (induction ks)
  case (Cons k ks)
  obtain l r where k: "k = (fo J, l, r)" "l = 0x7f \<or> ir_o (fleft J) = l" "r = 0x3ff \<or> rkey J = r" using Cons.prems by auto
  have IH: "case fold_match E ks J of Inl e \<Rightarrow> e = FOLD_FUEL | Inr p \<Rightarrow> fout b \<rho> J v p" using Cons by simp
  show ?case
  proof (cases "map_of fold_table k")
    case (Some f)
    have "rule_ok (fo J) l r f" by (rule table_ok) (use Some k(1) assms(2) in \<open>simp_all add: fpre_def\<close>)
    then have f: "case f E J of Inl e \<Rightarrow> e = FOLD_FUEL | Inr p \<Rightarrow> fout b \<rho> J v p"
      using assms(1-3) k(2,3) unfolding rule_ok_def by blast
    show ?thesis
    proof (cases "f E J")
      case (Inr p)
      obtain res J' where p: "p = (res, J')" by fastforce
      have "res = NEXTFOLD \<Longrightarrow> J' = J" using f by (simp add: Inr p fout_def)
      then show ?thesis using f IH Some by (simp add: Inr p)
    qed (use f Some in simp)
  qed (use IH in simp)
qed simp

lemma load_spec:
  assumes "fold_ok \<rho> J" "ev \<rho> (fins J) = Some v" "fold_load J = (key, J1)"
  shows "J1 = J\<lparr>J_left := J_left J1, J_right := J_right J1\<rparr>" "fleft J1 = J_ir J1 (op1 J1)"
    "J_nk J1 \<le> op2 J1 \<longrightarrow> fright J1 = J_ir J1 (op2 J1)" "key = (fo J1, ir_o (fleft J1), rkey J1)"
proof -
  have "J_nk J \<le> op1 J" using ev_operands(1)[OF assms(2)] val_range(1)[OF assms(1)] by blast
  then show "J1 = J\<lparr>J_left := J_left J1, J_right := J_right J1\<rparr>" "fleft J1 = J_ir J1 (op1 J1)"
    "J_nk J1 \<le> op2 J1 \<longrightarrow> fright J1 = J_ir J1 (op2 J1)" "key = (fo J1, ir_o (fleft J1), rkey J1)"
    using assms(3) by (auto simp: fold_load_def Let_def rkey_def split: if_splits)
qed

text \<open>One more round on what a rule has left.\<close>

lemma retry_step:
  assumes r: "retry_ok ((n + 1) ^ 2) \<rho> J v J'" and f: "sound_for n f" and rm: "room (fold_budget (heavy (fo J)) (Suc n)) J"
  shows "case f J' of Inl e \<Rightarrow> e = FOLD_FUEL | Inr p \<Rightarrow> result_ok (fold_budget (heavy (fo J)) (Suc n)) \<rho> J v p"
proof -
  let ?d = "fold_budget (heavy (fo J')) n"
  obtain \<rho>' w c where r: "\<rho> \<subseteq>\<^sub>m \<rho>'" "fold_ok \<rho>' J'" "int_op (fo J')" "op2 J' < J_nins J'" "wide (fins J') = wide (fins J)"
      "ev \<rho>' (fins J') = Some w" "vsim (wide (fins J)) v w" "grown c J J'"
      "c \<le> 1 \<and> (heavy (fo J') \<longrightarrow> heavy (fo J)) \<or> c \<le> (n + 1) ^ 2 + 1 \<and> heavy (fo J) \<and> \<not> heavy (fo J')"
    using r unfolding retry_ok_def by blast
  have cd: "c + ?d \<le> fold_budget (heavy (fo J)) (Suc n)"
    using r(9) by (auto simp: fold_budget_def power2_eq_square)
  have rm': "room ?d J'" using grown_room[OF _ r(8), of ?d] rm cd by (auto simp: room_def)
  have "case f J' of Inl e \<Rightarrow> e = FOLD_FUEL | Inr p \<Rightarrow> result_ok ?d \<rho>' J' w p"
    using f r(2,3,4,6) rm' unfolding sound_for_def by blast
  moreover have "result_ok (fold_budget (heavy (fo J)) (Suc n)) \<rho> J v p" if "result_ok ?d \<rho>' J' w p" for p
  proof -
    obtain r0 J0 \<rho>0 w0 where p: "p = (r0, J0)" "\<rho>' \<subseteq>\<^sub>m \<rho>0" "fold_ok \<rho>0 J0" "\<rho>0 r0 = Some w0"
        "vsim (wide (fins J')) w w0" "grown ?d J' J0"
      using \<open>result_ok ?d \<rho>' J' w p\<close> unfolding result_ok_def by (auto split: prod.splits)
    have "vsim (wide (fins J)) v w0" using vsim_trans[OF r(7)] p(5) r(5) by simp
    then show ?thesis unfolding result_ok_def using p map_le_trans[OF r(1) p(2)] grown_trans[OF r(8) p(6) cd] by auto
  qed
  ultimately show ?thesis by (auto split: sum.splits)
qed

lemma left_right_result [simp]:
  "result_ok c \<rho> (J\<lparr>J_left := x\<rparr>) v p = result_ok c \<rho> J v p"
  "result_ok c \<rho> (J\<lparr>J_right := x\<rparr>) v p = result_ok c \<rho> J v p"
  by (simp_all add: result_ok_def grown_def)

lemma retry_sound: "sound_for n (fold_retry n E)"
proof (induction n)
  case 0
  then show ?case by (simp add: sound_for_def)
next
  case (Suc n)
  let ?E = "E\<lparr>fe_fold := fold_checked (fold_retry n E)\<rparr>"
  let ?b = "(n + 1) ^ 2"
  have eng: "engine_sound ?b (fe_fold ?E)" using sound_for_engine[OF checked_sound[OF Suc.IH]] by simp
  show ?case
    unfolding sound_for_def
  proof (intro allI impI, elim conjE)
    fix \<rho> J v
    assume a: "fold_ok \<rho> J" "int_op (fo J)" "op2 J < J_nins J" "ev \<rho> (fins J) = Some v"
      "room (fold_budget (heavy (fo J)) (Suc n)) J"
    obtain key J1 where l: "fold_load J = (key, J1)" by fastforce
    note L = load_spec[OF a(1,4) l]
    obtain x y where xy: "J1 = J\<lparr>J_left := x, J_right := y\<rparr>" using L(1) by blast
    have J1: "fold_ok \<rho> J1" "J_ins J1 = J_ins J" "J_nins J1 = J_nins J" "J_nk J1 = J_nk J" "room c J1 = room c J"
      "result_ok c \<rho> J1 v p = result_ok c \<rho> J v p" for c p
      using a(1) by (simp_all add: xy)
    have pre: "fpre \<rho> J1 v" using a J1 L(2,3) by (simp add: fpre_def)
    have rm: "if heavy (fo J1) then room (?b + 2) J1 else room 1 J1"
      using a(5) J1 by (auto simp: fold_budget_def room_def power2_eq_square)
    have m: "case fold_match ?E (fold_keys key) J1 of Inl e \<Rightarrow> e = FOLD_FUEL | Inr p \<Rightarrow> fout ?b \<rho> J1 v p"
      by (rule match_sound[OF eng pre rm]) (auto simp: fold_keys_def L(4))
    let ?c = "fold_budget (heavy (fo J)) (Suc n)"
    have c: "1 \<le> ?c" by (simp add: fold_budget_def)
    show "case fold_retry (Suc n) E J of Inl e \<Rightarrow> e = FOLD_FUEL | Inr p \<Rightarrow> result_ok ?c \<rho> J v p"
    proof (cases "fold_match ?E (fold_keys key) J1")
      case (Inr q)
      obtain res J2 where q: "q = (res, J2)" by fastforce
      have f: "fout ?b \<rho> J1 v (res, J2)" using m by (simp add: Inr q)
      show ?thesis
      proof (cases res)
        case NEXTFOLD
        then have "J2 = J1" using f by (simp add: fout_def)
        moreover have "result_ok ?c \<rho> J1 v (lj_opt_cse J1)"
          by (rule cse_result) (use a J1 c room_ir_room in auto)
        ultimately show ?thesis using J1(6) NEXTFOLD by (simp add: l Inr q)
      next
        case (FoldRef r)
        then have "result_ok 1 \<rho> J1 v (r, J2)" using f by (simp add: fout_def)
        then show ?thesis using result_mono[OF _ c] J1(6) FoldRef by (simp add: l Inr q)
      next
        case RETRYFOLD
        then have r: "retry_ok ?b \<rho> J1 v J2" using f by (simp add: fout_def)
        have "case fold_retry n E J2 of Inl e \<Rightarrow> e = FOLD_FUEL | Inr p \<Rightarrow> result_ok (fold_budget (heavy (fo J1)) (Suc n)) \<rho> J1 v p"
          by (rule retry_step[OF r Suc.IH]) (use a(5) J1 in simp)
        then show ?thesis using RETRYFOLD J1 by (cases "fold_retry n E J2") (simp_all add: l Inr q)
      next
        case KINTFOLD
        then have k: "fold_ok \<rho> J2" "vsim (wide (fins J1)) v (V32 (ins_i (fins J2)))" "grown 0 J1 J2" using f by (simp_all add: fout_def)
        obtain r J3 where e: "lj_ir_kint (ins_i (fins J2)) J2 = (r, J3)" by fastforce
        have "room 1 J2" using grown_room[of 0 1 J1 J2] k(3) rm by (auto simp: room_def split: if_splits)
        then have rm2: "ir_room J2" by (rule room_ir_room)
        obtain \<rho>' where "\<rho> \<subseteq>\<^sub>m \<rho>'" "fold_ok \<rho>' J3" "\<rho>' r = Some (V32 (ins_i (fins J2)))"
          using kint_step(1)[OF k(1) rm2 e] by blast
        moreover have "grown 1 J1 J3" using grown_trans[OF k(3) kint_step(3)[OF k(1) rm2 e]] by simp
        ultimately have "result_ok 1 \<rho> J1 v (r, J3)" using k(2) unfolding result_ok_def by auto
        then show ?thesis using result_mono[OF _ c] J1(6) KINTFOLD by (simp add: l Inr q e)
      qed (use f in \<open>simp_all add: fout_def\<close>)
    qed (use m l in simp)
  qed
qed

text \<open>C1: The fold engine is sound for integer arithmetic, 32 and 64 bit: whatever the rules of the table do with an
  instruction (constant folding, simplification, reassociation, nested folds, retries, common-subexpression elimination),
  the reference that the engine returns has the value of the instruction, the values of all other references are kept, and
  the trace stays consistent. The only failure is the bound on the rounds; the rounds bound the references allocated. A
  zero of either width is the same value for a 64 bit addition, subtraction or negation.\<close>

theorem lj_opt_fold_sound:
  assumes "fold_ok \<rho> J" "int_op (fo J)" "op2 J < J_nins J" "ev \<rho> (fins J) = Some v" "room ((n + 1) ^ 2) J"
  shows "case lj_opt_fold n E J of
      Inl e \<Rightarrow> e = FOLD_FUEL
    | Inr (r, J') \<Rightarrow> \<exists>\<rho>' w. \<rho> \<subseteq>\<^sub>m \<rho>' \<and> fold_ok \<rho>' J' \<and> \<rho>' r = Some w \<and> vsim (wide (fins J)) v w"
proof -
  have "engine_sound ((n + 1) ^ 2) (lj_opt_fold n E)"
    unfolding lj_opt_fold_def by (intro sound_for_engine checked_sound retry_sound)
  then have "case lj_opt_fold n E J of Inl e \<Rightarrow> e = FOLD_FUEL | Inr p \<Rightarrow> result_ok ((n + 1) ^ 2) \<rho> J v p"
    using assms unfolding engine_sound_def by blast
  then show ?thesis unfolding result_ok_def by (fastforce split: sum.splits prod.splits)
qed

section \<open>Constants\<close>

lemma constant_rule:
  assumes "bin_op op \<or> shift_op op"
  shows "map_of fold_table (op, IR_KINT, IR_KINT) = Some (pure_rule kfold_intarith)"
  using assms by (auto simp: op_defs fold_table_def map_add_def fold_rules1_def fold_rules2_def)

text \<open>C11: With the fold optimisation on, a 32 bit integer operation on two constants of the trace (\<open>KINT\<close>) is folded
  in one round to the constant that is its result: the engine does not fail, and no instruction is emitted or changed.\<close>

theorem fold_constants:
  assumes "ir_ok J" "ir_room J" "opt_on JIT_F_OPT_FOLD J" "kint_val J (op1 J) = Some a" "kint_val J (op2 J) = Some b"
    and "bin_op (fo J) \<and> sem_bin (fo J) a b = Some c \<or> shift_op (fo J) \<and> c = sem_shift (fo J) a b"
  shows "\<exists>r J'. lj_opt_fold (Suc n) E J = Inr (r, J') \<and> ir_ok J' \<and> kint_val J' r = Some c \<and> J_nins J' = J_nins J \<and>
    (\<forall>q \<ge> REF_FIRST. J_ir J' q = J_ir J q)"
proof -
  have op: "bin_op (fo J) \<or> shift_op (fo J)" "int_op (fo J)" using assms(6) by (auto simp: int_op_def)
  have l: "J_nk J \<le> op1 J" "ir_o (J_ir J (op1 J)) = IR_KINT" "a = ins_i (J_ir J (op1 J))"
    and r: "J_nk J \<le> op2 J" "ir_o (J_ir J (op2 J)) = IR_KINT" "b = ins_i (J_ir J (op2 J))"
    using assms(4,5) by (auto simp: kint_val_def kchain_def split: if_splits)
  have c: "kfold_intop a b (fo J) = c" using assms(6) kfold_intop_bin kfold_intop_shift by auto
  let ?J1 = "J\<lparr>J_left := J_ir J (op1 J), J_right := J_ir J (op2 J)\<rparr>"
  have load: "fold_load J = ((fo J, IR_KINT, IR_KINT), ?J1)" using l r by (simp add: fold_load_def Let_def)
  let ?J2 = "snd (INTFOLD c ?J1)"
  have J2: "ir_ok ?J2" "ir_room ?J2" "ins_i (fins ?J2) = c" using assms(1,2) by (simp_all add: INTFOLD_def ins_i_def)
  obtain q J3 where k: "lj_ir_kint c ?J2 = (q, J3)" by fastforce
  have "fold_retry (Suc n) E J = Inr (q, J3)"
    using constant_rule[OF op(1)] c l(3) r(3) J2(3) k
    by (simp add: load fold_keys_def pure_rule_def kfold_intarith_def INTFOLD_def)
  moreover have "fold_checked f J = f J" for f
    using int_op_kind[OF op(2)] assms(3) by (simp add: fold_checked_def IRM_N_def IRM_L_def IRM_S_def Let_def)
  moreover have "J_nins ?J2 = J_nins J" "J_ir ?J2 = J_ir J" by (simp_all add: INTFOLD_def)
  ultimately show ?thesis using lj_ir_kint_spec(1,2,5,6)[OF J2(1,2) k] by (simp add: lj_opt_fold_def)
qed

definition fold_ex :: jit_State where
  "fold_ex =
     (let (r1, J1) = lj_ir_kint 2 trace0; (r2, J2) = lj_ir_kint 3 J1
      in J2\<lparr>J_ins := ins0\<lparr>ir_o := IR_ADD, ir_t := mk_irt IRT_INT, ir_op1 := r1, ir_op2 := r2\<rparr>\<rparr>)"

lemma trace0_fold_ok: "fold_ok (\<lambda>_. None) trace0"
proof -
  have "kint_val trace0 r = None" "kint64_val trace0 r = None" for r
    by (simp_all add: kint_val_def kint64_val_def trace0_kchain)
  then show ?thesis using trace0_ok(1) by (auto simp: fold_ok_def trace0_def)
qed

lemma fold_ex_ok:
  "\<exists>\<rho>. fold_ok \<rho> fold_ex \<and> ev \<rho> (fins fold_ex) = Some (V32 5) \<and> op2 fold_ex < J_nins fold_ex \<and> room 100 fold_ex"
  "fo fold_ex = IR_ADD" "\<not> wide (fins fold_ex)"
proof -
  obtain r1 J1 where 1: "lj_ir_kint 2 trace0 = (r1, J1)" by fastforce
  obtain r2 J2 where 2: "lj_ir_kint 3 J1 = (r2, J2)" by fastforce
  have f: "fold_ex = J2\<lparr>J_ins := ins0\<lparr>ir_o := IR_ADD, ir_t := mk_irt IRT_INT, ir_op1 := r1, ir_op2 := r2\<rparr>\<rparr>"
    by (simp add: fold_ex_def 1 2)
  note s1 = kint_step[OF trace0_fold_ok trace0_ok(2) 1]
  obtain \<rho>1 where \<rho>1: "fold_ok \<rho>1 J1" "\<rho>1 r1 = Some (V32 2)" using s1(1) by blast
  have r0: "room 200 trace0" by (simp add: room_def trace0_def ref_defs)
  then have "room 150 J1" using grown_room[of 1 199 trace0 J1] s1(3) by (auto simp: room_def)
  note s2 = kint_step[OF \<rho>1(1) room_ir_room[OF this] 2]
  obtain \<rho>2 where \<rho>2: "fold_ok \<rho>2 J2" "\<rho>1 \<subseteq>\<^sub>m \<rho>2" "\<rho>2 r2 = Some (V32 3)" using s2(1) by blast
  have "room 100 J2" using grown_room[of 1 149 J1 J2] s2(3) \<open>room 150 J1\<close> by (auto simp: room_def)
  moreover have "r2 < J_nins J2" using val_range(2)[OF \<rho>2(1,3)] .
  moreover have "\<rho>2 r1 = Some (V32 2)" using map_leD[OF \<rho>2(2) \<rho>1(2)] .
  ultimately show "\<exists>\<rho>. fold_ok \<rho> fold_ex \<and> ev \<rho> (fins fold_ex) = Some (V32 5) \<and> op2 fold_ex < J_nins fold_ex \<and> room 100 fold_ex"
    using \<rho>2 by (intro exI[of _ \<rho>2]) (simp add: f, intro trans[OF ev_bin32], simp_all add: t32_def irt_int op_defs, simp)
  show "fo fold_ex = IR_ADD" "\<not> wide (fins fold_ex)" by (simp_all add: f wide_def irt_int)
qed

lemma lj_opt_fold_sound_witness:
  "\<forall>E. case lj_opt_fold 3 E fold_ex of
      Inl e \<Rightarrow> e = FOLD_FUEL
    | Inr (r, J') \<Rightarrow> \<exists>\<rho>. fold_ok \<rho> J' \<and> \<rho> r = Some (V32 5)"
proof
  fix E
  obtain \<rho> where \<rho>: "fold_ok \<rho> fold_ex" "ev \<rho> (fins fold_ex) = Some (V32 5)" "op2 fold_ex < J_nins fold_ex" "room 100 fold_ex"
    using fold_ex_ok(1) by blast
  have "room ((3 + 1) ^ 2) fold_ex" using \<rho>(4) by (auto simp: room_def)
  from lj_opt_fold_sound[OF \<rho>(1) _ \<rho>(3,2) this, of E] fold_ex_ok(2,3)
  show "case lj_opt_fold 3 E fold_ex of Inl e \<Rightarrow> e = FOLD_FUEL
      | Inr (r, J') \<Rightarrow> \<exists>\<rho>. fold_ok \<rho> J' \<and> \<rho> r = Some (V32 5)"
    by (auto simp: op_defs vsim_def split: sum.splits)
qed

lemma fold_constants_witness: "\<forall>E. \<exists>r J'. lj_opt_fold 1 E fold_ex = Inr (r, J') \<and> kint_val J' r = Some 5 \<and> J_nins J' = J_nins fold_ex"
proof
  fix E
  obtain r1 J1 where 1: "lj_ir_kint 2 trace0 = (r1, J1)" by fastforce
  obtain r2 J2 where 2: "lj_ir_kint 3 J1 = (r2, J2)" by fastforce
  note s1 = lj_ir_kint_spec[OF trace0_ok 1]
  have g: "grown 1 trace0 J1" by (rule kint_step(3)[OF trace0_fold_ok trace0_ok(2) 1])
  have rm: "ir_room J1" using g by (intro room_ir_room[of 1]) (auto simp: grown_def room_def trace0_def ref_defs)
  note s2 = lj_ir_kint_spec[OF s1(1) rm 2]
  have f: "fold_ex = J2\<lparr>J_ins := ins0\<lparr>ir_o := IR_ADD, ir_t := mk_irt IRT_INT, ir_op1 := r1, ir_op2 := r2\<rparr>\<rparr>"
    by (simp add: fold_ex_def 1 2)
  obtain \<rho> where rm2: "room 100 fold_ex" using fold_ex_ok(1) by blast
  have on: "opt_on JIT_F_OPT_FOLD fold_ex" using s1(8) s2(8) by (simp add: f opt_on_def trace0_def JIT_F_OPT_FOLD_def)
  show "\<exists>r J'. lj_opt_fold 1 E fold_ex = Inr (r, J') \<and> kint_val J' r = Some 5 \<and> J_nins J' = J_nins fold_ex"
    using fold_constants[OF _ room_ir_room[OF rm2] on, of 2 3 5 0 E] s2(1,2) s2(3)[OF s1(2)] by (simp add: f op_defs) blast
qed

section \<open>A rule that is not sound\<close>

text \<open>The signed 64 bit comparisons of constants compare without sign: a negative constant is not less than zero.\<close>

lemma kfold_int64comp_unsigned:
  assumes "fo J = IR_LT" "ir_k64 J (fleft J) = - 1" "ir_k64 J (fright J) = 0"
  shows "sint (ir_k64 J (fleft J)) < sint (ir_k64 J (fright J)) \<and> fst (kfold_int64comp J) = FAILFOLD"
  using assms by (simp add: kfold_int64comp_def CONDFOLD_def)

end
