(* ===== verification/LJ_Tab.thy ===== *)
theory LJ_Tab
  imports LJ_Dbl
begin

text \<open>
  Lua tables (\<^verbatim>\<open>lj_tab.c\<close>, \<^verbatim>\<open>lj_tab.h\<close>, the tagged values of
  \<^verbatim>\<open>lj_obj.h\<close> and \<^verbatim>\<open>lj_obj_equal\<close>). A tagged value is its 64 bit pattern: a double, or a tag in
  the upper word that overlaps the exponents of NaNs. A table has an array part for the integer keys below its size and
  a hash part whose nodes are chained by index. Where the C code returns a pointer to a value, the model returns the
  slot (array or hash index) that it points to. The hash of a string is a field of the string object: the function from
  string references to hashes is a parameter \<open>h\<close>. The allocator does not fail in the model and the write barrier of
  the collector has no effect on it.
\<close>

section \<open>Tagged values\<close>

type_synonym TValue = u64
type_synonym str_hash_of = "u32 \<Rightarrow> u32"

definition LJ_TNIL :: u32 where "LJ_TNIL = NOT 0"
definition LJ_TFALSE :: u32 where "LJ_TFALSE = NOT 1"
definition LJ_TTRUE :: u32 where "LJ_TTRUE = NOT 2"
definition LJ_TSTR :: u32 where "LJ_TSTR = NOT 4"
definition LJ_TISNUM :: u32 where "LJ_TISNUM = 0xfffeffff"
definition LJ_TISPRI :: u32 where "LJ_TISPRI = LJ_TTRUE"

lemmas lj_tags = LJ_TNIL_def LJ_TFALSE_def LJ_TTRUE_def LJ_TSTR_def LJ_TISNUM_def LJ_TISPRI_def

definition tv_lo :: "TValue \<Rightarrow> u32" where "tv_lo o1 = ucast o1"
definition itype :: "TValue \<Rightarrow> u32" where "itype o1 = ucast (drop_bit 32 o1)"

definition tvisnil :: "TValue \<Rightarrow> bool" where "tvisnil o1 = (itype o1 = LJ_TNIL)"
definition tvisbool :: "TValue \<Rightarrow> bool" where "tvisbool o1 = (itype o1 = LJ_TFALSE \<or> itype o1 = LJ_TTRUE)"
definition tvisstr :: "TValue \<Rightarrow> bool" where "tvisstr o1 = (itype o1 = LJ_TSTR)"
definition tvisnum :: "TValue \<Rightarrow> bool" where "tvisnum o1 = (itype o1 < LJ_TISNUM)"
definition tvisnumber :: "TValue \<Rightarrow> bool" where "tvisnumber o1 = (itype o1 \<le> LJ_TISNUM)"
definition tvispri :: "TValue \<Rightarrow> bool" where "tvispri o1 = (itype o1 \<ge> LJ_TISPRI)"
definition tvismzero :: "TValue \<Rightarrow> bool" where "tvismzero o1 = (o1 = 0x8000000000000000)"
definition boolV :: "TValue \<Rightarrow> u32" where "boolV o1 = LJ_TFALSE - itype o1"

definition setnilV :: "TValue \<Rightarrow> TValue" where
  "setnilV o1 = u64_of_lohi (tv_lo o1) LJ_TNIL"

definition setstrV :: "u32 \<Rightarrow> TValue" where
  "setstrV gcr = u64_of_lohi gcr LJ_TSTR"

definition lj_obj_equal :: "TValue \<Rightarrow> TValue \<Rightarrow> bool" where
  "lj_obj_equal o1 o2 =
     (if itype o1 = itype o2 then
        if tvispri o1 then True
        else if \<not> tvisnum o1 then tv_lo o1 = tv_lo o2
        else dbl_eq o1 o2
      else if \<not> tvisnumber o1 \<or> \<not> tvisnumber o2 then False
      else dbl_eq o1 o2)"

section \<open>Tables\<close>

record Node =
  n_val :: TValue
  n_key :: TValue
  n_next :: "nat option"

record GCtab =
  t_nomm :: u8
  t_colo :: u8
  t_array :: "TValue list"
  t_node :: "Node list"
  t_hmask :: u32
  t_freetop :: nat

definition nilnode :: Node where
  "nilnode = \<lparr>n_val = setnilV 0, n_key = setnilV 0, n_next = None\<rparr>"

definition t_asize :: "GCtab \<Rightarrow> nat" where "t_asize t = length (t_array t)"

datatype Slot = Arr nat | Hash nat

definition slot_val :: "GCtab \<Rightarrow> Slot \<Rightarrow> TValue" where
  "slot_val t s = (case s of Arr i \<Rightarrow> t_array t ! i | Hash i \<Rightarrow> n_val (t_node t ! i))"

definition set_node :: "nat \<Rightarrow> (Node \<Rightarrow> Node) \<Rightarrow> GCtab \<Rightarrow> GCtab" where
  "set_node i f t = t\<lparr>t_node := (t_node t)[i := f (t_node t ! i)]\<rparr>"

text \<open>Storing through the pointer to a slot.\<close>

definition slot_put :: "Slot \<Rightarrow> TValue \<Rightarrow> GCtab \<Rightarrow> GCtab" where
  "slot_put s v t =
     (case s of Arr i \<Rightarrow> t\<lparr>t_array := (t_array t)[i := v]\<rparr> | Hash i \<Rightarrow> set_node i (n_val_update (\<lambda>_. v)) t)"

section \<open>Hashing\<close>

definition HASH_BIAS :: u32 where "HASH_BIAS = - 0x04c11db7"
definition HASH_ROT1 :: nat where "HASH_ROT1 = 14"
definition HASH_ROT2 :: nat where "HASH_ROT2 = 5"
definition HASH_ROT3 :: nat where "HASH_ROT3 = 13"

definition hashrot :: "u32 \<Rightarrow> u32 \<Rightarrow> u32" where
  "hashrot lo hi =
     (let lo = lo XOR hi; hi = lj_rol hi HASH_ROT1;
          lo = lo - hi; hi = lj_rol hi HASH_ROT2;
          hi = hi XOR lo; hi = hi - lj_rol lo HASH_ROT3
      in hi)"

definition hashmask :: "GCtab \<Rightarrow> u32 \<Rightarrow> nat" where
  "hashmask t hash = unat (hash AND t_hmask t)"

definition hashlohi :: "GCtab \<Rightarrow> u32 \<Rightarrow> u32 \<Rightarrow> nat" where
  "hashlohi t lo hi = hashmask t (hashrot lo hi)"

definition hashstr :: "str_hash_of \<Rightarrow> GCtab \<Rightarrow> u32 \<Rightarrow> nat" where
  "hashstr h t s = hashmask t (h s)"

definition hashnum :: "GCtab \<Rightarrow> TValue \<Rightarrow> nat" where
  "hashnum t o1 = hashlohi t (tv_lo o1) (push_bit 1 (itype o1))"

definition hashgcref :: "GCtab \<Rightarrow> u32 \<Rightarrow> nat" where
  "hashgcref t r = hashlohi t r (r + HASH_BIAS)"

definition hashkey :: "str_hash_of \<Rightarrow> GCtab \<Rightarrow> TValue \<Rightarrow> nat" where
  "hashkey h t key =
     (if tvisstr key then hashstr h t (tv_lo key)
      else if tvisnum key then hashnum t key
      else if tvisbool key then hashmask t (boolV key)
      else hashgcref t (tv_lo key))"

section \<open>Creation\<close>

text \<open>\<open>hsize2hbits\<close> on an unsigned size.\<close>

definition hsize2hbits :: "u32 \<Rightarrow> nat" where
  "hsize2hbits s = (if s \<noteq> 0 then (if s = 1 then 1 else 1 + lj_fls (s - 1)) else 0)"

definition LJ_MAX_COLOSIZE :: nat where "LJ_MAX_COLOSIZE = 16"

text \<open>New memory has any contents; it is cleared or copied over before it is used.\<close>

definition newhpart :: "GCtab \<Rightarrow> nat \<Rightarrow> ErrMsg + GCtab" where
  "newhpart t hbits =
     (if hbits > LJ_MAX_HBITS then Inl LJ_ERR_TABOV
      else let hsize = 2 ^ hbits in
        Inr (t\<lparr>t_node := replicate hsize \<lparr>n_val = 0, n_key = 0, n_next = None\<rparr>, t_freetop := hsize,
               t_hmask := word_of_nat (hsize - 1)\<rparr>))"

definition clearhpart :: "GCtab \<Rightarrow> GCtab" where
  "clearhpart t =
     t\<lparr>t_node := map (\<lambda>n. \<lparr>n_val = setnilV (n_val n), n_key = setnilV (n_key n), n_next = None\<rparr>) (t_node t)\<rparr>"

definition clearapart :: "GCtab \<Rightarrow> GCtab" where
  "clearapart t = t\<lparr>t_array := map setnilV (t_array t)\<rparr>"

definition no_hpart :: "GCtab \<Rightarrow> GCtab" where
  "no_hpart t = t\<lparr>t_node := [nilnode], t_hmask := 0, t_freetop := 0\<rparr>"

definition newtab :: "nat \<Rightarrow> nat \<Rightarrow> ErrMsg + GCtab" where
  "newtab asize hbits =
     (let t = \<lparr>t_nomm = NOT 0, t_colo = 0, t_array = [], t_node = [nilnode], t_hmask = 0, t_freetop = 0\<rparr>;
          hpart = (\<lambda>t. if hbits \<noteq> 0 then newhpart t hbits else Inr t)
      in if asize > 0 \<and> asize \<le> LJ_MAX_COLOSIZE then
           hpart (t\<lparr>t_colo := word_of_nat asize, t_array := replicate asize 0\<rparr>)
         else if asize > 0 then
           (if asize > LJ_MAX_ASIZE then Inl LJ_ERR_TABOV else hpart (t\<lparr>t_array := replicate asize 0\<rparr>))
         else hpart t)"

definition lj_tab_new :: "nat \<Rightarrow> nat \<Rightarrow> ErrMsg + GCtab" where
  "lj_tab_new asize hbits =
     (case newtab asize hbits of
        Inl e \<Rightarrow> Inl e
      | Inr t \<Rightarrow> let t = clearapart t in Inr (if t_hmask t > 0 then clearhpart t else t))"

definition lj_tab_new_ah :: "u32 \<Rightarrow> u32 \<Rightarrow> ErrMsg + GCtab" where
  "lj_tab_new_ah a h = lj_tab_new (if sint a > 0 then unat (a + 1) else 0) (hsize2hbits h)"

definition lj_tab_new1 :: "u32 \<Rightarrow> ErrMsg + GCtab" where
  "lj_tab_new1 ahsize = lj_tab_new (unat (ahsize AND 0xffffff)) (unat (drop_bit 24 ahsize))"

definition hbits_of :: "GCtab \<Rightarrow> nat" where
  "hbits_of t = (if t_hmask t > 0 then lj_fls (t_hmask t) + 1 else 0)"

definition lj_tab_dup :: "GCtab \<Rightarrow> ErrMsg + GCtab" where
  "lj_tab_dup kt =
     (case newtab (t_asize kt) (hbits_of kt) of
        Inl e \<Rightarrow> Inl e
      | Inr t \<Rightarrow>
          let t = t\<lparr>t_nomm := 0, t_array := t_array kt\<rparr>
          in Inr (if t_hmask kt > 0 then t\<lparr>t_freetop := t_freetop kt, t_node := t_node kt\<rparr> else t))"

definition lj_tab_clear :: "GCtab \<Rightarrow> GCtab" where
  "lj_tab_clear t =
     (let t = clearapart t in
      if t_hmask t > 0 then clearhpart (t\<lparr>t_freetop := unat (t_hmask t) + 1\<rparr>) else t)"

section \<open>Getters\<close>

text \<open>
  The search along a chain from a node on. A chain without cycle has at most as many nodes as the hash part, so running
  out of the count means that the loop does not end.
\<close>

fun find_node :: "nat \<Rightarrow> (Node \<Rightarrow> bool) \<Rightarrow> Node list \<Rightarrow> nat \<Rightarrow> ErrMsg + nat option" where
  "find_node 0 P ns i = Inl NO_RETURN"
| "find_node (Suc m) P ns i =
     (if P (ns ! i) then Inr (Some i)
      else case n_next (ns ! i) of None \<Rightarrow> Inr None | Some j \<Rightarrow> find_node m P ns j)"

definition search_node :: "(Node \<Rightarrow> bool) \<Rightarrow> GCtab \<Rightarrow> nat \<Rightarrow> ErrMsg + Slot option" where
  "search_node P t i =
     (case find_node (length (t_node t)) P (t_node t) i of
        Inl e \<Rightarrow> Inl e | Inr r \<Rightarrow> Inr (map_option Hash r))"

definition lj_tab_getinth :: "GCtab \<Rightarrow> u32 \<Rightarrow> ErrMsg + Slot option" where
  "lj_tab_getinth t key =
     (let k = setintV key in
      search_node (\<lambda>n. tvisnum (n_key n) \<and> dbl_eq (n_key n) k) t (hashnum t k))"

definition lj_tab_getstr :: "str_hash_of \<Rightarrow> GCtab \<Rightarrow> u32 \<Rightarrow> ErrMsg + Slot option" where
  "lj_tab_getstr h t key = search_node (\<lambda>n. tvisstr (n_key n) \<and> tv_lo (n_key n) = key) t (hashstr h t key)"

definition inarray :: "GCtab \<Rightarrow> u32 \<Rightarrow> bool" where
  "inarray t key = (unat key < t_asize t)"

definition lj_tab_getint :: "GCtab \<Rightarrow> u32 \<Rightarrow> ErrMsg + Slot option" where
  "lj_tab_getint t key = (if inarray t key then Inr (Some (Arr (unat key))) else lj_tab_getinth t key)"

text \<open>The result \<open>None\<close> is the pointer to the nil value.\<close>

definition lj_tab_get :: "str_hash_of \<Rightarrow> GCtab \<Rightarrow> TValue \<Rightarrow> ErrMsg + Slot option" where
  "lj_tab_get h t key =
     (let genlookup = search_node (\<lambda>n. lj_obj_equal (n_key n) key) t (hashkey h t key) in
      if tvisstr key then lj_tab_getstr h t (tv_lo key)
      else if tvisnum key then
        let k = lj_num2int key in if dbl_eq key (setintV k) then lj_tab_getint t k else genlookup
      else if \<not> tvisnil key then genlookup
      else Inr None)"

definition opt_val :: "GCtab \<Rightarrow> Slot option \<Rightarrow> TValue" where
  "opt_val t s = (case s of None \<Rightarrow> setnilV 0 | Some s \<Rightarrow> slot_val t s)"

section \<open>Setters\<close>

text \<open>
  A setter returns the slot of the key, which it may have to create. Inserting a key may rehash the table, which inserts
  the keys again; the setters take the insertion function as their argument \<open>nk\<close>, and \<open>lj_tab_newkey\<close> ties the knot
  with fuel.
\<close>

type_synonym tab_res = "ErrMsg + (Slot \<times> GCtab)"
type_synonym newkey_fun = "GCtab \<Rightarrow> TValue \<Rightarrow> tab_res"

definition set_in_chain :: "newkey_fun \<Rightarrow> (Node \<Rightarrow> bool) \<Rightarrow> GCtab \<Rightarrow> nat \<Rightarrow> TValue \<Rightarrow> tab_res" where
  "set_in_chain nk P t i key =
     (case search_node P t i of
        Inl e \<Rightarrow> Inl e
      | Inr (Some s) \<Rightarrow> Inr (s, t)
      | Inr None \<Rightarrow> nk t key)"

definition setinth_by :: "newkey_fun \<Rightarrow> GCtab \<Rightarrow> u32 \<Rightarrow> tab_res" where
  "setinth_by nk t key =
     (let k = setintV key in
      set_in_chain nk (\<lambda>n. tvisnum (n_key n) \<and> dbl_eq (n_key n) k) t (hashnum t k) k)"

definition setstr_by :: "newkey_fun \<Rightarrow> str_hash_of \<Rightarrow> GCtab \<Rightarrow> u32 \<Rightarrow> tab_res" where
  "setstr_by nk h t key =
     set_in_chain nk (\<lambda>n. tvisstr (n_key n) \<and> tv_lo (n_key n) = key) t (hashstr h t key) (setstrV key)"

definition setint_by :: "newkey_fun \<Rightarrow> GCtab \<Rightarrow> u32 \<Rightarrow> tab_res" where
  "setint_by nk t key = (if inarray t key then Inr (Arr (unat key), t) else setinth_by nk t key)"

definition set_by :: "newkey_fun \<Rightarrow> str_hash_of \<Rightarrow> GCtab \<Rightarrow> TValue \<Rightarrow> tab_res" where
  "set_by nk h t0 key =
     (let t = t0\<lparr>t_nomm := 0\<rparr>;
          generic = set_in_chain nk (\<lambda>n. lj_obj_equal (n_key n) key) t (hashkey h t key) key
      in if tvisstr key then setstr_by nk h t (tv_lo key)
         else if tvisnum key then
           let k = lj_num2int key in
           if dbl_eq key (setintV k) then setint_by nk t k
           else if dbl_isnan key then Inl LJ_ERR_NANIDX
           else generic
         else if tvisnil key then Inl LJ_ERR_NILIDX
         else generic)"

section \<open>Resizing\<close>

text \<open>Storing a value under a key, and a list of them in order.\<close>

definition put_by :: "newkey_fun \<Rightarrow> str_hash_of \<Rightarrow> GCtab \<Rightarrow> TValue \<Rightarrow> TValue \<Rightarrow> ErrMsg + GCtab" where
  "put_by nk h t key v = (case set_by nk h t key of Inl e \<Rightarrow> Inl e | Inr (s, t) \<Rightarrow> Inr (slot_put s v t))"

fun reinsert_nodes :: "newkey_fun \<Rightarrow> str_hash_of \<Rightarrow> GCtab \<Rightarrow> Node list \<Rightarrow> ErrMsg + GCtab" where
  "reinsert_nodes nk h t [] = Inr t"
| "reinsert_nodes nk h t (n # ns) =
     (if \<not> tvisnil (n_val n) then
        case put_by nk h t (n_key n) (n_val n) of Inl e \<Rightarrow> Inl e | Inr t \<Rightarrow> reinsert_nodes nk h t ns
      else reinsert_nodes nk h t ns)"

fun reinsert_array :: "newkey_fun \<Rightarrow> GCtab \<Rightarrow> nat \<Rightarrow> TValue list \<Rightarrow> ErrMsg + GCtab" where
  "reinsert_array nk t i [] = Inr t"
| "reinsert_array nk t i (v # vs) =
     (if \<not> tvisnil v then
        case setinth_by nk t (word_of_nat i) of
          Inl e \<Rightarrow> Inl e
        | Inr (s, t) \<Rightarrow> reinsert_array nk (slot_put s v t) (i + 1) vs
      else reinsert_array nk t (i + 1) vs)"

definition grow_array :: "GCtab \<Rightarrow> nat \<Rightarrow> GCtab" where
  "grow_array t asize =
     t\<lparr>t_array := t_array t @ map setnilV (replicate (asize - t_asize t) 0),
       t_colo := (if sint (t_colo t) > 0 then t_colo t OR 0x80 else t_colo t)\<rparr>"

definition resize_by :: "newkey_fun \<Rightarrow> str_hash_of \<Rightarrow> GCtab \<Rightarrow> nat \<Rightarrow> nat \<Rightarrow> ErrMsg + GCtab" where
  "resize_by nk h t asize hbits =
     (let oldnode = t_node t; oldasize = t_asize t; oldhmask = t_hmask t;
          old = drop asize (t_array t)
      in if asize > oldasize \<and> asize > LJ_MAX_ASIZE then Inl LJ_ERR_TABOV
         else
           let t = (if asize > oldasize then grow_array t asize else t);
               made = (if hbits \<noteq> 0 then
                         (case newhpart t hbits of Inl e \<Rightarrow> Inl e | Inr t \<Rightarrow> Inr (clearhpart t))
                       else Inr (no_hpart t))
           in case made of
                Inl e \<Rightarrow> Inl e
              | Inr t \<Rightarrow>
                  case (if asize < oldasize then reinsert_array nk (t\<lparr>t_array := take asize (t_array t)\<rparr>) asize old
                        else Inr t) of
                    Inl e \<Rightarrow> Inl e
                  | Inr t \<Rightarrow> if oldhmask > 0 then reinsert_nodes nk h t oldnode else Inr t)"

section \<open>Choosing the sizes\<close>

text \<open>
  The bins count the integer keys by the power of two that bounds them. The counts are below \<open>2 ^ 31\<close>, so natural numbers
  stand for the unsigned integers. A read beyond the bins would be undefined.
\<close>

definition int_bin :: "u32 \<Rightarrow> nat" where
  "int_bin k = (if sint k > 2 then lj_fls (k - 1) else 0)"

definition countint :: "TValue \<Rightarrow> nat list \<Rightarrow> nat list \<times> nat" where
  "countint key bins =
     (if tvisnum key then
        let k = lj_num2int key in
        if unat k < LJ_MAX_ASIZE \<and> dbl_eq key (setintV k) then
          (bins[int_bin k := bins ! int_bin k + 1], 1)
        else (bins, 0)
      else (bins, 0))"

text \<open>The array slots from \<open>i\<close> to \<open>tp\<close> (\<^verbatim>\<open>top\<close>) in use.\<close>

definition count_slots :: "TValue list \<Rightarrow> nat \<Rightarrow> nat \<Rightarrow> nat" where
  "count_slots array i tp = length (filter (\<lambda>j. \<not> tvisnil (array ! j)) [i..<tp + 1])"

function countarray_from :: "TValue list \<Rightarrow> nat \<Rightarrow> nat \<Rightarrow> nat \<Rightarrow> nat list \<Rightarrow> nat list \<times> nat" where
  "countarray_from array b i na bins =
     (if b < LJ_MAX_ABITS then
        let tp = 2 * 2 ^ b; last = tp \<ge> length array; tp = (if last then length array - 1 else tp) in
        if last \<and> i > tp then (bins, na)
        else let n = count_slots array i tp in
          countarray_from array (b + 1) (max i (tp + 1)) (na + n) (bins[b := bins ! b + n])
      else (bins, na))"
  by pat_completeness auto
termination by (relation "measure (\<lambda>(array, b, i, na, bins). LJ_MAX_ABITS - b)") auto

declare countarray_from.simps [simp del]

definition countarray :: "GCtab \<Rightarrow> nat list \<Rightarrow> nat list \<times> nat" where
  "countarray t bins = (if t_asize t = 0 then (bins, 0) else countarray_from (t_array t) 0 0 0 bins)"

fun counthash_from :: "Node list \<Rightarrow> nat list \<Rightarrow> nat \<Rightarrow> nat \<Rightarrow> nat list \<times> nat \<times> nat" where
  "counthash_from [] bins na tot = (bins, na, tot)"
| "counthash_from (n # ns) bins na tot =
     (if \<not> tvisnil (n_val n) then
        let (bins, c) = countint (n_key n) bins in counthash_from ns bins (na + c) (tot + 1)
      else counthash_from ns bins na tot)"

definition counthash :: "GCtab \<Rightarrow> nat list \<Rightarrow> nat \<Rightarrow> nat list \<times> nat \<times> nat" where
  "counthash t bins narray = (let (bins, na, tot) = counthash_from (t_node t) bins 0 0 in (bins, narray + na, tot))"

text \<open>The size of the array part and the number of keys that go there.\<close>

function bestasize_from :: "nat list \<Rightarrow> nat \<Rightarrow> nat \<Rightarrow> nat \<Rightarrow> nat \<Rightarrow> nat \<Rightarrow> (nat \<times> nat) option" where
  "bestasize_from bins nn b sm na sz =
     (if 2 * nn > 2 ^ b \<and> sm \<noteq> nn then
        if b \<ge> length bins then None
        else if bins ! b > 0 then
          let sm = sm + bins ! b in
          if 2 * sm > 2 ^ b then bestasize_from bins nn (b + 1) sm sm (2 * 2 ^ b + 1)
          else bestasize_from bins nn (b + 1) sm na sz
        else bestasize_from bins nn (b + 1) sm na sz
      else Some (sz, na))"
  by pat_completeness auto
termination
proof (relation "measure (\<lambda>(bins, nn, b, sm, na, sz). length bins - b)")
qed auto

declare bestasize_from.simps [simp del]

definition bestasize :: "nat list \<Rightarrow> nat \<Rightarrow> (nat \<times> nat) option" where
  "bestasize bins narray = bestasize_from bins narray 0 0 0 0"

definition rehash_sizes :: "GCtab \<Rightarrow> TValue \<Rightarrow> (nat \<times> nat) option" where
  "rehash_sizes t ek =
     (let bins = replicate LJ_MAX_ABITS 0;
          (bins, asize) = countarray t bins; tot = 1 + asize;
          (bins, asize, n) = counthash t bins asize; tot = tot + n;
          (bins, c) = countint ek bins; asize = asize + c
      in case bestasize bins asize of
           None \<Rightarrow> None
         | Some (sz, na) \<Rightarrow> Some (sz, hsize2hbits (word_of_nat (tot - na))))"

definition rehash_by :: "newkey_fun \<Rightarrow> str_hash_of \<Rightarrow> GCtab \<Rightarrow> TValue \<Rightarrow> ErrMsg + GCtab" where
  "rehash_by nk h t ek =
     (case rehash_sizes t ek of
        None \<Rightarrow> Inl UNDEFINED
      | Some (asize, hbits) \<Rightarrow> resize_by nk h t asize hbits)"

section \<open>Inserting a new key\<close>

fun find_free :: "Node list \<Rightarrow> nat \<Rightarrow> nat option" where
  "find_free ns 0 = None"
| "find_free ns (Suc i) = (if tvisnil (n_key (ns ! i)) then Some i else find_free ns i)"

text \<open>The node before \<open>n\<close> in the chain from \<open>c\<close> on; the end of the chain would be dereferenced.\<close>

fun find_pred :: "nat \<Rightarrow> Node list \<Rightarrow> nat \<Rightarrow> nat \<Rightarrow> ErrMsg + nat" where
  "find_pred 0 ns n c = Inl NO_RETURN"
| "find_pred (Suc m) ns n c =
     (if n_next (ns ! c) = Some n then Inr c
      else case n_next (ns ! c) of None \<Rightarrow> Inl UNDEFINED | Some d \<Rightarrow> find_pred m ns n d)"

text \<open>String keys behind a moved node that hash to its old place (a dead key whose string was freed and whose address
  was given to another string) are moved back to the chain of that place.\<close>

fun rechain :: "nat \<Rightarrow> str_hash_of \<Rightarrow> nat \<Rightarrow> nat \<Rightarrow> GCtab \<Rightarrow> ErrMsg + GCtab" where
  "rechain 0 h n freenode t = Inl NO_RETURN"
| "rechain (Suc m) h n freenode t =
     (case n_next (t_node t ! freenode) of
        None \<Rightarrow> Inr t
      | Some nn \<Rightarrow>
          let nd = t_node t ! nn in
          if tvisstr (n_key nd) \<and> \<not> tvisnil (n_val nd) \<and> hashstr h t (tv_lo (n_key nd)) = n then
            let t = set_node freenode (n_next_update (\<lambda>_. n_next nd)) t;
                t = set_node nn (n_next_update (\<lambda>_. n_next (t_node t ! n))) t;
                t = set_node n (n_next_update (\<lambda>_. Some nn)) t
            in rechain m h n freenode t
          else rechain m h n nn t)"

text \<open>The place of the key: the main position, or a free node. A colliding node that is not in its own main position is
  moved away.\<close>

definition newkey_place :: "str_hash_of \<Rightarrow> GCtab \<Rightarrow> nat \<Rightarrow> nat \<Rightarrow> ErrMsg + (nat \<times> GCtab)" where
  "newkey_place h t n freenode =
     (let t = t\<lparr>t_freetop := freenode\<rparr>; nd = t_node t ! n; collide = hashkey h t (n_key nd) in
      if collide \<noteq> n then
        case find_pred (length (t_node t)) (t_node t) n collide of
          Inl e \<Rightarrow> Inl e
        | Inr c \<Rightarrow>
            let t = set_node c (n_next_update (\<lambda>_. Some freenode)) t;
                t = set_node freenode (\<lambda>_. t_node t ! n) t;
                t = set_node n (\<lambda>n. n\<lparr>n_next := None, n_val := setnilV (n_val n)\<rparr>) t
            in case rechain (length (t_node t)) h n freenode t of Inl e \<Rightarrow> Inl e | Inr t \<Rightarrow> Inr (n, t)
      else
        let t = set_node freenode (n_next_update (\<lambda>_. n_next nd)) t;
            t = set_node n (n_next_update (\<lambda>_. Some freenode)) t
        in Inr (freenode, t))"

definition set_key :: "nat \<Rightarrow> TValue \<Rightarrow> GCtab \<Rightarrow> Slot \<times> GCtab" where
  "set_key n key t = (Hash n, set_node n (n_key_update (\<lambda>_. if tvismzero key then 0 else key)) t)"

definition newkey_by :: "newkey_fun \<Rightarrow> str_hash_of \<Rightarrow> newkey_fun" where
  "newkey_by nk h t key =
     (let n = hashkey h t key in
      if \<not> tvisnil (n_val (t_node t ! n)) \<or> t_hmask t = 0 then
        case find_free (t_node t) (t_freetop t) of
          None \<Rightarrow> (case rehash_by nk h t key of Inl e \<Rightarrow> Inl e | Inr t \<Rightarrow> set_by nk h t key)
        | Some freenode \<Rightarrow>
            (case newkey_place h t n freenode of Inl e \<Rightarrow> Inl e | Inr (n, t) \<Rightarrow> Inr (set_key n key t))
      else Inr (set_key n key t))"

fun lj_tab_newkey :: "nat \<Rightarrow> str_hash_of \<Rightarrow> newkey_fun" where
  "lj_tab_newkey 0 h t key = Inl NO_RETURN"
| "lj_tab_newkey (Suc n) h t key = newkey_by (lj_tab_newkey n h) h t key"

definition lj_tab_setinth :: "nat \<Rightarrow> str_hash_of \<Rightarrow> GCtab \<Rightarrow> u32 \<Rightarrow> tab_res" where
  "lj_tab_setinth n h t key = setinth_by (lj_tab_newkey n h) t key"

definition lj_tab_setint :: "nat \<Rightarrow> str_hash_of \<Rightarrow> GCtab \<Rightarrow> u32 \<Rightarrow> tab_res" where
  "lj_tab_setint n h t key = setint_by (lj_tab_newkey n h) t key"

definition lj_tab_setstr :: "nat \<Rightarrow> str_hash_of \<Rightarrow> GCtab \<Rightarrow> u32 \<Rightarrow> tab_res" where
  "lj_tab_setstr n h t key = setstr_by (lj_tab_newkey n h) h t key"

definition lj_tab_set :: "nat \<Rightarrow> str_hash_of \<Rightarrow> GCtab \<Rightarrow> TValue \<Rightarrow> tab_res" where
  "lj_tab_set n h t key = set_by (lj_tab_newkey n h) h t key"

definition lj_tab_resize :: "nat \<Rightarrow> str_hash_of \<Rightarrow> GCtab \<Rightarrow> nat \<Rightarrow> nat \<Rightarrow> ErrMsg + GCtab" where
  "lj_tab_resize n h t asize hbits = resize_by (lj_tab_newkey n h) h t asize hbits"

definition lj_tab_rehash :: "nat \<Rightarrow> str_hash_of \<Rightarrow> GCtab \<Rightarrow> ErrMsg + GCtab" where
  "lj_tab_rehash n h t = rehash_by (lj_tab_newkey n h) h t (setnilV 0)"

definition lj_tab_reasize :: "nat \<Rightarrow> str_hash_of \<Rightarrow> GCtab \<Rightarrow> nat \<Rightarrow> ErrMsg + GCtab" where
  "lj_tab_reasize n h t nasize = lj_tab_resize n h t (nasize + 1) (hbits_of t)"

section \<open>Traversal\<close>

text \<open>One more than the traversal index of a key, so that the start is 0.\<close>

definition keyindex :: "str_hash_of \<Rightarrow> GCtab \<Rightarrow> TValue \<Rightarrow> ErrMsg + nat" where
  "keyindex h t key =
     (let k = lj_num2int key in
      if tvisnum key \<and> unat k < t_asize t \<and> dbl_eq key (setintV k) then Inr (unat k + 1)
      else if \<not> tvisnil key then
        case search_node (\<lambda>n. lj_obj_equal (n_key n) key) t (hashkey h t key) of
          Inl e \<Rightarrow> Inl e
        | Inr (Some (Hash i)) \<Rightarrow> Inr (t_asize t + i + 1)
        | _ \<Rightarrow> if itype key = 0xfffe7fff then Inr (unat (tv_lo key)) else Inl LJ_ERR_NEXTIDX
      else Inr 0)"

text \<open>The entry at an index or the next one in use.\<close>

definition array_from :: "GCtab \<Rightarrow> nat \<Rightarrow> nat option" where
  "array_from t i = find (\<lambda>j. \<not> tvisnil (t_array t ! j)) [i..<t_asize t]"

definition hash_from :: "GCtab \<Rightarrow> nat \<Rightarrow> nat option" where
  "hash_from t i = find (\<lambda>j. \<not> tvisnil (n_val (t_node t ! j))) [i..<unat (t_hmask t) + 1]"

definition lj_tab_next :: "str_hash_of \<Rightarrow> GCtab \<Rightarrow> TValue \<Rightarrow> ErrMsg + (TValue \<times> TValue) option" where
  "lj_tab_next h t key =
     (case keyindex h t key of
        Inl e \<Rightarrow> Inl e
      | Inr i \<Rightarrow>
          (case array_from t i of
             Some j \<Rightarrow> Inr (Some (setintV (word_of_nat j), t_array t ! j))
           | None \<Rightarrow>
               (case hash_from t (max i (t_asize t) - t_asize t) of
                  Some j \<Rightarrow> Inr (Some (n_key (t_node t ! j), n_val (t_node t ! j)))
                | None \<Rightarrow> Inr None)))"

section \<open>Length\<close>

definition int_present :: "GCtab \<Rightarrow> nat \<Rightarrow> ErrMsg + bool" where
  "int_present t j =
     (case lj_tab_getint t (word_of_nat j) of
        Inl e \<Rightarrow> Inl e
      | Inr tv \<Rightarrow> Inr (case tv of Some s \<Rightarrow> \<not> tvisnil (slot_val t s) | None \<Rightarrow> False))"

text \<open>The linear search ends at the first absent key; there are no more present ones than slots.\<close>

fun linear_search :: "nat \<Rightarrow> GCtab \<Rightarrow> nat \<Rightarrow> ErrMsg + nat" where
  "linear_search 0 t i = Inl NO_RETURN"
| "linear_search (Suc m) t i =
     (case int_present t i of
        Inl e \<Rightarrow> Inl e
      | Inr True \<Rightarrow> linear_search m t (i + 1)
      | Inr False \<Rightarrow> Inr (i - 1))"

function binary_search :: "GCtab \<Rightarrow> nat \<Rightarrow> nat \<Rightarrow> ErrMsg + nat" where
  "binary_search t i j =
     (if j - i > 1 then
        let m = (i + j) div 2 in
        case int_present t m of
          Inl e \<Rightarrow> Inl e
        | Inr p \<Rightarrow> if p then binary_search t m j else binary_search t i m
      else Inr i)"
  by pat_completeness auto
termination by (relation "measure (\<lambda>(t, i, j). j - i)") auto

declare binary_search.simps [simp del]

definition INT_MAX :: nat where "INT_MAX = 2 ^ 31 - 1"

function unbound_from :: "GCtab \<Rightarrow> nat \<Rightarrow> nat \<Rightarrow> ErrMsg + nat" where
  "unbound_from t i j =
     (case int_present t j of
        Inl e \<Rightarrow> Inl e
      | Inr p \<Rightarrow>
          if p then
            (if j * 2 > INT_MAX - 2 \<or> j = 0 then linear_search (t_asize t + length (t_node t) + 2) t 1
             else unbound_from t j (j * 2))
          else binary_search t i j)"
  by pat_completeness auto
termination by (relation "measure (\<lambda>(t, i, j). INT_MAX - j)") (auto simp: INT_MAX_def)

declare unbound_from.simps [simp del]

definition unbound_search :: "GCtab \<Rightarrow> nat \<Rightarrow> ErrMsg + nat" where
  "unbound_search t j = unbound_from t j (j + 1)"

function array_search :: "GCtab \<Rightarrow> nat \<Rightarrow> nat \<Rightarrow> nat" where
  "array_search t i j =
     (if j - i > 1 then
        let m = (i + j) div 2 in
        if tvisnil (t_array t ! (m - 1)) then array_search t i m else array_search t m j
      else i - 1)"
  by pat_completeness auto
termination by (relation "measure (\<lambda>(t, i, j). j - i)") auto

declare array_search.simps [simp del]

definition lj_tab_len :: "GCtab \<Rightarrow> ErrMsg + nat" where
  "lj_tab_len t =
     (let j = t_asize t in
      if j > 1 \<and> tvisnil (t_array t ! (j - 1)) then Inr (array_search t 1 j)
      else let j = (if j \<noteq> 0 then j - 1 else j) in
        if t_hmask t = 0 then Inr j else unbound_search t j)"

end
