(* ===== verification/LJ_TabKeys.thy ===== *)
theory LJ_TabKeys
  imports LJ_Tab LJ_StrScanProofs
begin

text \<open>
  Keys of tables: which values are equal as keys, integer keys, and hashes. Two keys are equal exactly if they have the
  same canonical form, which drops the sign of a zero and the unused low word of a primitive value.
\<close>

section \<open>Words\<close>

lemma lohi_tv [simp]: "tv_lo (u64_of_lohi lo hi) = lo" "itype (u64_of_lohi lo hi) = hi"
proof -
  have l: "\<not> bit lo (32 + n)" for n using bit_imp_le_length[of lo "32 + n"] by auto
  show "tv_lo (u64_of_lohi lo hi) = lo" "itype (u64_of_lohi lo hi) = hi"
    by (auto simp: tv_lo_def itype_def u64_of_lohi_def bit_simps l intro!: bit_word_eqI)
qed

lemma tv_lohi: "u64_of_lohi (tv_lo x) (itype x) = x"
  by (auto simp: tv_lo_def itype_def u64_of_lohi_def bit_simps intro!: bit_word_eqI)

lemma tv_eqI: "tv_lo a = tv_lo b \<Longrightarrow> itype a = itype b \<Longrightarrow> a = b"
  by (metis tv_lohi)

lemma setnil [simp]: "tvisnil (setnilV x)"
  by (simp add: tvisnil_def setnilV_def)

section \<open>Equality of doubles\<close>

lemma dbl_abs_eq: "dbl_abs a = dbl_abs b \<Longrightarrow> bit a 63 = bit b 63 \<Longrightarrow> a = b"
proof (rule bit_word_eqI)
  fix n assume e: "dbl_abs a = dbl_abs b" and s: "bit a 63 = bit b 63" and n: "n < LENGTH(64)"
  show "bit a n = bit b n"
  proof (cases "n = 63")
    case False
    have m: "bit (0x7fffffffffffffff :: u64) n"
    proof -
      have "(0x7fffffffffffffff :: u64) = mask 63" by (simp add: mask_eq_exp_minus_1)
      then show ?thesis using n False by (simp only: bit_mask_iff) simp
    qed
    have "bit (dbl_abs a) n = bit (dbl_abs b) n" using e by simp
    then show ?thesis using m by (simp add: dbl_abs_def bit_and_iff)
  qed (use s in simp)
qed

lemma dbl_abs_0: "dbl_abs a = 0 \<Longrightarrow> a = 0 \<or> a = 0x8000000000000000"
  using dbl_abs_eq[of a 0] dbl_abs_eq[of a "0x8000000000000000"]
  by (cases "bit a 63") (simp_all add: dbl_abs_def)

lemma dbl_key_eq: "dbl_key a = dbl_key b \<longleftrightarrow> a = b \<or> dbl_abs a = 0 \<and> dbl_abs b = 0"
proof -
  have z: "uint (dbl_abs x) = 0 \<longleftrightarrow> dbl_abs x = 0" for x by (simp add: uint_0_iff)
  have p: "0 \<le> uint (dbl_abs x)" for x by simp
  have e: "uint (dbl_abs a) = uint (dbl_abs b) \<longleftrightarrow> dbl_abs a = dbl_abs b" by (simp add: word_uint_eq_iff)
  show ?thesis
  proof (cases "bit a 63 = bit b 63")
    case True
    then show ?thesis using dbl_abs_eq[of a b] z[of a] z[of b] e by (auto simp: dbl_key_def dbl_neg_def Let_def)
  next
    case False
    have g: "- x = y \<longleftrightarrow> x = 0 \<and> y = 0" "x = - y \<longleftrightarrow> x = 0 \<and> y = 0" if "0 \<le> x" "0 \<le> y" for x y :: int
      using that by auto
    have "a \<noteq> b" using False by auto
    moreover have "dbl_key a = dbl_key b \<longleftrightarrow> uint (dbl_abs a) = 0 \<and> uint (dbl_abs b) = 0"
      using False g[OF p[of a] p[of b]] by (cases "bit a 63") (simp_all add: dbl_key_def dbl_neg_def Let_def)
    ultimately have "a \<noteq> b" "dbl_key a = dbl_key b \<longleftrightarrow> uint (dbl_abs a) = 0 \<and> uint (dbl_abs b) = 0" by simp_all
    then show ?thesis using z by simp
  qed
qed

section \<open>Canonical keys\<close>

definition tcanon :: "TValue \<Rightarrow> TValue" where
  "tcanon k =
     (if tvisnum k then (if tvismzero k then 0 else k)
      else if tvispri k then u64_of_lohi 0 (itype k) else k)"

definition key_ok :: "TValue \<Rightarrow> bool" where
  "key_ok k \<longleftrightarrow> \<not> tvisnil k \<and> \<not> (tvisnum k \<and> dbl_isnan k)"

lemma pri_notnum: "tvispri k \<Longrightarrow> \<not> tvisnum k" "tvispri k \<Longrightarrow> \<not> tvisnumber k"
  by (auto simp: tvispri_def tvisnum_def tvisnumber_def lj_tags word_le_nat_alt word_less_nat_alt)

lemma num_number: "tvisnum k \<Longrightarrow> tvisnumber k"
  by (auto simp: tvisnum_def tvisnumber_def)

lemma nil_pri: "tvisnil k \<Longrightarrow> tvispri k"
  by (simp add: tvisnil_def tvispri_def lj_tags)

lemma zero_num [simp]: "tvisnum 0" "tvisnum 0x8000000000000000"
  by (simp_all add: tvisnum_def itype_def lj_tags)

text \<open>Every tag has the exponent of a NaN; so has the one that stands for integers in another configuration.\<close>

lemma high_exp:
  assumes "0xfff00000 \<le> itype k"
  shows "dbl_exp k = 0x7ff"
proof -
  have "unat (itype k) < 2 ^ 32" using unsigned_less[of "itype k", where 'a = nat] by simp
  moreover have "0xfff00000 \<le> unat (itype k)" using assms by (simp add: word_le_nat_alt)
  ultimately have "unat (itype k) div 2 ^ 20 = 0xfff" by (intro div_nat_eqI) simp_all
  then have "unat (drop_bit 20 (itype k)) = unat (0xfff :: u32)" by (simp add: unat_drop_bit_div)
  then have d: "drop_bit 20 (itype k) = 0xfff" by (simp only: unat_arith_simps)
  have "n < 12" if "bit k (52 + n)" for n using bit_imp_le_length[OF that] by simp
  then have "drop_bit 52 k = ucast (drop_bit 20 (itype k))"
    by (auto simp: itype_def bit_simps intro!: bit_word_eqI)
  then have "drop_bit 52 k = 0xfff" using d by simp
  then show ?thesis by (simp add: dbl_exp_def)
qed

lemma itype_num_nan:
  assumes "itype k = LJ_TISNUM"
  shows "dbl_isnan k"
proof -
  have "dbl_frac k \<noteq> 0"
  proof
    assume "dbl_frac k = 0"
    then have "k AND 0xfffffffffffff = 0" by (simp add: dbl_frac_def uint_0_iff)
    then have "\<not> bit (k AND 0xfffffffffffff) 32" by simp
    moreover have "bit (0xfffffffffffff :: u64) 32" by simp
    ultimately have "\<not> bit k 32" by (simp add: bit_and_iff)
    then have "\<not> bit (itype k) 0" by (simp add: itype_def bit_simps)
    then show False using assms by (simp add: lj_tags)
  qed
  then show ?thesis using high_exp[of k] assms by (simp add: dbl_isnan_def lj_tags)
qed

lemma finite_num: "dbl_finite k \<Longrightarrow> tvisnum k"
  using high_exp[of k] by (cases "0xfff00000 \<le> itype k") (auto simp: dbl_finite_def tvisnum_def lj_tags word_le_nat_alt word_less_nat_alt)

lemma dbl_eq_canon:
  assumes "tvisnum a" "tvisnum b" "\<not> dbl_isnan a" "\<not> dbl_isnan b"
  shows "dbl_eq a b \<longleftrightarrow> tcanon a = tcanon b"
  using assms dbl_abs_0[of a] dbl_abs_0[of b]
  by (auto simp: dbl_eq_def dbl_key_eq tcanon_def tvismzero_def dbl_abs_def)

lemma obj_equal_canon:
  assumes "key_ok a" "key_ok b"
  shows "lj_obj_equal a b \<longleftrightarrow> tcanon a = tcanon b"
proof -
  have t: "itype (tcanon x) = (if tvisnum x \<and> tvismzero x then 0 else itype x)" for x
    by (simp add: tcanon_def) (simp add: itype_def)
  have num: "tvisnum (tcanon x) = tvisnum x" for x
  proof (cases "tvisnum x")
    case False
    then show ?thesis using t[of x] by (simp add: tvisnum_def)
  qed (auto simp: tcanon_def)
  show ?thesis
  proof (cases "tvisnum a \<and> tvisnum b")
    case True
    then show ?thesis using dbl_eq_canon assms pri_notnum num_number by (auto simp: lj_obj_equal_def key_ok_def)
  next
    case False
    show ?thesis
    proof (cases "tvisnum a = tvisnum b")
      case True
      then have n: "\<not> tvisnum a" "\<not> tvisnum b" using False by auto
      show ?thesis
      proof (cases "itype a = itype b")
        case True
        then have "tvispri a = tvispri b" by (simp add: tvispri_def)
        then show ?thesis using n True tv_eqI[of a b] by (auto simp: lj_obj_equal_def tcanon_def)
      next
        case False
        have "itype (tcanon a) = itype a" "itype (tcanon b) = itype b" using t n by auto
        moreover have "\<not> dbl_eq a b" if "tvisnumber a" "tvisnumber b"
          using that n itype_num_nan[of a] by (auto simp: tvisnumber_def tvisnum_def dbl_eq_def order_le_less)
        ultimately show ?thesis using False by (auto simp: lj_obj_equal_def)
      qed
    next
      case False
      then have "tcanon a \<noteq> tcanon b" using num by metis
      moreover have "\<not> lj_obj_equal a b"
      proof -
        have "itype a \<noteq> itype b" using False by (auto simp: tvisnum_def)
        moreover have "dbl_isnan x" if "tvisnumber x" "\<not> tvisnum x" for x
          using that itype_num_nan[of x] by (auto simp: tvisnumber_def tvisnum_def order_le_less)
        ultimately show ?thesis using False by (auto simp: lj_obj_equal_def dbl_eq_def)
      qed
      ultimately show ?thesis by simp
    qed
  qed
qed

lemma obj_equal_nil: "tvisnil a \<Longrightarrow> key_ok b \<Longrightarrow> \<not> lj_obj_equal a b"
  using nil_pri[of a] pri_notnum[of a] by (auto simp: lj_obj_equal_def key_ok_def tvisnil_def)

lemma hash_canon:
  assumes "key_ok a" "key_ok b" "tcanon a = tcanon b"
  shows "hashkey h t a = hashkey h t b"
proof -
  have z: "tv_lo 0x8000000000000000 = 0" "itype 0x8000000000000000 * 2 = 0" "tv_lo 0 = 0" "itype 0 = 0"
    "tvisstr 0 = False" "tvisstr 0x8000000000000000 = False"
    by code_simp+
  have "hashkey h t x = hashkey h t (tcanon x)" if x: "key_ok x" for x
  proof (cases "tvisnum x")
    case True
    then show ?thesis
    proof (cases "tvismzero x")
      case True
      then have "x = 0x8000000000000000" by (simp add: tvismzero_def)
      then show ?thesis by (simp add: tcanon_def tvismzero_def hashkey_def hashnum_def z)
    qed (simp add: tcanon_def)
  next
    case F: False
    show ?thesis
    proof (cases "tvispri x")
      case True
      then have s: "\<not> tvisstr x" by (auto simp: tvispri_def tvisstr_def lj_tags word_le_nat_alt)
      have "itype x = LJ_TFALSE \<or> itype x = LJ_TTRUE"
      proof -
        obtain u where u: "u = unat (itype x)" by simp
        then have "u < 2 ^ 32" using unsigned_less[of "itype x", where 'a = nat] by simp
        moreover have "0xfffffffd \<le> u" using True by (simp add: u tvispri_def lj_tags word_le_nat_alt)
        ultimately have "u \<in> {0xfffffffd, 0xfffffffe, 0xffffffff}" by auto
        then have "unat (itype x) \<in> {0xfffffffd, 0xfffffffe, 0xffffffff}" by (simp only: u)
        moreover have "unat LJ_TTRUE = 0xfffffffd" "unat LJ_TFALSE = 0xfffffffe" "unat LJ_TNIL = 0xffffffff"
          by (simp_all add: lj_tags unsigned_minus_1_eq_mask mask_eq_exp_minus_1)
        ultimately have "unat (itype x) \<in> {unat LJ_TTRUE, unat LJ_TFALSE, unat LJ_TNIL}" by simp
        then have "itype x \<in> {LJ_TTRUE, LJ_TFALSE, LJ_TNIL}" by (simp add: word_unat_eq_iff)
        then show ?thesis using x by (auto simp: key_ok_def tvisnil_def)
      qed
      then show ?thesis using F s True
        by (simp add: tcanon_def hashkey_def tvisstr_def tvisnum_def tvisbool_def boolV_def)
    qed (simp add: tcanon_def F)
  qed
  then show ?thesis using assms by metis
qed

section \<open>Integer keys\<close>

lemma dbl_of_int_value:
  assumes "i \<noteq> 0" "\<bar>i\<bar> < 2 ^ 52"
  shows "dbl_finite (dbl_of_int i)" "dbl_trunc (dbl_of_int i) = i" "\<not> tvismzero (dbl_of_int i)"
proof -
  obtain j where j: "2 ^ j \<le> \<bar>i\<bar>" "\<bar>i\<bar> < 2 * 2 ^ j" using ilog2_bounds[of "\<bar>i\<bar>"] assms(1) by auto
  have "(2 :: int) ^ j < 2 ^ 52" using j(1) assms(2) by linarith
  then have j52: "j < 52" by (rule power_less_imp_less_exp[rotated]) simp
  define k where "k = 52 - j"
  define M where "M = \<bar>i\<bar> * 2 ^ k"
  have "(2 :: int) ^ j * 2 ^ k = 2 ^ 52" using j52 by (simp add: k_def power_add[symmetric])
  moreover have "2 ^ j * 2 ^ k \<le> M" "M < (2 * 2 ^ j) * 2 ^ k" using j by (simp_all add: M_def)
  ultimately have M: "2 ^ 52 \<le> M" "M < 2 ^ 53" by simp_all
  have e: "dbl_of_int i = dbl_make (i < 0) M (- int k)"
    using dbl_make_scale[of "\<bar>i\<bar>" "i < 0" k "- int k"] assms(1) by (simp add: dbl_of_int_def M_def)
  have q: "- 1074 \<le> - int k" "- int k \<le> 970" by (simp_all add: k_def)
  note v = dbl_pack_value[OF M q, of "i < 0"]
  have e': "dbl_of_int i = dbl_pack (i < 0) M (- int k)" using e dbl_make_exact[OF M q(1)] by simp
  show "dbl_finite (dbl_of_int i)" using v(4) e' by simp
  have "M div 2 ^ k = \<bar>i\<bar>" by (simp add: M_def)
  then show "dbl_trunc (dbl_of_int i) = i" using v(1-3) j52 nat_diff_distrib[of "int j" 52] by (simp add: e' dbl_trunc_def Let_def k_def)
  show "\<not> tvismzero (dbl_of_int i)"
  proof
    assume "tvismzero (dbl_of_int i)"
    then have "dbl_mant (dbl_of_int i) = dbl_mant 0x8000000000000000" by (simp add: tvismzero_def)
    moreover have "dbl_mant 0x8000000000000000 = 0" by code_simp
    ultimately show False using v(2) M(1) e' by simp
  qed
qed

lemma setintV_key:
  "tvisnum (setintV i)" "\<not> dbl_isnan (setintV i)" "\<not> tvismzero (setintV i)" "lj_num2int (setintV i) = i"
proof -
  have f: "dbl_finite (setintV i) \<and> dbl_trunc (setintV i) = sint i \<and> \<not> tvismzero (setintV i)"
  proof (cases "i = 0")
    case True
    then have "setintV i = 0" by (simp add: setintV_def dbl_of_int_def dbl_make_def dbl_zero_def sign_bit_def)
    moreover have "dbl_finite 0 \<and> dbl_trunc 0 = 0 \<and> \<not> tvismzero 0" by code_simp
    ultimately show ?thesis using True by simp
  next
    case False
    have "- (2 ^ 31) \<le> sint i" "sint i < 2 ^ 31" using sint_greater_eq[of i] sint_less[of i] by simp_all
    then have "\<bar>sint i\<bar> < 2 ^ 52" by auto
    moreover have "sint i \<noteq> 0" using False by (simp add: signed_eq_0_iff)
    ultimately show ?thesis using dbl_of_int_value[of "sint i"] by (simp add: setintV_def)
  qed
  then show "tvisnum (setintV i)" "\<not> dbl_isnan (setintV i)" "\<not> tvismzero (setintV i)"
    using finite_num by (auto simp: dbl_isnan_def dbl_finite_def)
  show "lj_num2int (setintV i) = i"
    using f sint_greater_eq[of i] sint_less[of i] by (simp add: lj_num2int_def)
qed

definition int_key :: "TValue \<Rightarrow> u32 option" where
  "int_key k = (if tvisnum k \<and> dbl_eq k (setintV (lj_num2int k)) then Some (lj_num2int k) else None)"

lemma setintV_inj [simp]: "setintV i = setintV j \<longleftrightarrow> i = j"
  using setintV_key(4) by metis

lemma setintV_ok [simp]: "key_ok (setintV i)" "tcanon (setintV i) = setintV i"
  using setintV_key[of i] nil_pri pri_notnum by (auto simp: key_ok_def tcanon_def)

lemma int_key_setintV [simp]: "int_key (setintV i) = Some i"
  using setintV_key[of i] dbl_eq_canon[of "setintV i" "setintV i"] by (simp add: int_key_def)

lemma int_key_canon:
  assumes "key_ok k"
  shows "int_key k = Some i \<longleftrightarrow> tcanon k = setintV i"
proof
  assume "int_key k = Some i"
  then have "tvisnum k" "dbl_eq k (setintV i)" by (auto simp: int_key_def split: if_splits)
  then show "tcanon k = setintV i"
    using dbl_eq_canon[of k "setintV i"] setintV_key[of i] assms by (simp add: key_ok_def)
next
  assume c: "tcanon k = setintV i"
  have n: "tvisnum k"
  proof (rule ccontr)
    assume "\<not> tvisnum k"
    then have "\<not> tvisnum (tcanon k)" by (auto simp: tcanon_def tvisnum_def)
    then show False using c setintV_key(1) by simp
  qed
  have nan: "\<not> dbl_isnan k" using assms n by (simp add: key_ok_def)
  have "lj_num2int k = i"
  proof (cases "tvismzero k")
    case True
    then have "setintV i = setintV 0" using c n by (simp add: tcanon_def setintV_def dbl_of_int_def dbl_make_def dbl_zero_def sign_bit_def)
    then have "i = 0" by (simp only: setintV_inj)
    moreover have "lj_num2int 0x8000000000000000 = 0" by code_simp
    ultimately show ?thesis using True by (simp add: tvismzero_def)
  qed (use c n setintV_key(4)[of i] in \<open>simp add: tcanon_def\<close>)
  then show "int_key k = Some i"
    using n nan c dbl_eq_canon[of k "setintV i"] setintV_key[of i] by (simp add: int_key_def)
qed

lemma int_key_cong: "key_ok a \<Longrightarrow> key_ok b \<Longrightarrow> tcanon a = tcanon b \<Longrightarrow> int_key a = int_key b"
  by (metis int_key_canon not_Some_eq)

end
