(* ===== verification/LJ_TabInv.thy ===== *)
theory LJ_TabInv
  imports LJ_TabKeys
begin

text \<open>
  The hash part of a table: its chains are disjoint paths, every key is on the chain of its main position, and a key whose
  main position is a node finds a key with that main position in it. Inserting a key keeps this, in each of its three
  cases.
\<close>

section \<open>Chains\<close>

definition nx :: "Node list \<Rightarrow> (nat \<times> nat) set" where
  "nx ns = {(i, j). i < length ns \<and> n_next (ns ! i) = Some j}"

definition chains_wf :: "Node list \<Rightarrow> bool" where
  "chains_wf ns \<longleftrightarrow>
     (\<forall>i j. (i, j) \<in> nx ns \<longrightarrow> j < length ns) \<and>
     (\<forall>i i' j. (i, j) \<in> nx ns \<and> (i', j) \<in> nx ns \<longrightarrow> i = i') \<and>
     (\<exists>f :: nat \<Rightarrow> nat. \<forall>i j. (i, j) \<in> nx ns \<longrightarrow> f i < f j)"

lemma chains_inj: "chains_wf ns \<Longrightarrow> (a, j) \<in> nx ns \<Longrightarrow> (b, j) \<in> nx ns \<Longrightarrow> a = b"
  unfolding chains_wf_def by blast

lemma nx_step: "(i, j) \<in> nx ns \<longleftrightarrow> i < length ns \<and> n_next (ns ! i) = Some j"
  by (simp add: nx_def)

lemma reach_lt:
  assumes "chains_wf ns" "(i, j) \<in> (nx ns)\<^sup>*" "i < length ns"
  shows "j < length ns"
  using assms(2,3,1) by (induction) (auto simp: chains_wf_def)

lemma reach_rank:
  assumes f: "\<forall>i j. (i, j) \<in> nx ns \<longrightarrow> f i < (f j :: nat)" and r: "(i, j) \<in> (nx ns)\<^sup>+"
  shows "f i < f j"
  using r by (induction) (use f in fastforce)+

lemma reach_card:
  assumes wf: "chains_wf ns" and s: "(i, j) \<in> nx ns"
  shows "card ((nx ns)\<^sup>* `` {j}) < card ((nx ns)\<^sup>* `` {i})"
proof -
  have i: "i < length ns" using s by (simp add: nx_step)
  have "(nx ns)\<^sup>* `` {i} \<subseteq> {..<length ns}" using reach_lt[OF wf _ i] by auto
  then have fin: "finite ((nx ns)\<^sup>* `` {i})" by (rule finite_subset) simp
  obtain f :: "nat \<Rightarrow> nat" where f: "\<forall>i j. (i, j) \<in> nx ns \<longrightarrow> f i < f j" using wf by (auto simp: chains_wf_def)
  have "i \<notin> (nx ns)\<^sup>* `` {j}"
  proof
    assume "i \<in> (nx ns)\<^sup>* `` {j}"
    then have "(i, i) \<in> (nx ns)\<^sup>+" using s by (simp add: rtrancl_into_trancl2)
    then show False using reach_rank[OF f, of i i] by simp
  qed
  moreover have "(nx ns)\<^sup>* `` {j} \<subseteq> (nx ns)\<^sup>* `` {i}" using s by (auto intro: converse_rtrancl_into_rtrancl)
  ultimately have "(nx ns)\<^sup>* `` {j} \<subset> (nx ns)\<^sup>* `` {i}" by auto
  then show ?thesis by (rule psubset_card_mono[OF fin])
qed

lemma reach_length:
  assumes "chains_wf ns" "i < length ns"
  shows "card ((nx ns)\<^sup>* `` {i}) \<le> length ns"
proof -
  have "(nx ns)\<^sup>* `` {i} \<subseteq> {..<length ns}" using reach_lt[OF assms(1) _ assms(2)] by auto
  then show ?thesis using card_mono[of "{..<length ns}"] by fastforce
qed

lemma reach_pos: "chains_wf ns \<Longrightarrow> i < length ns \<Longrightarrow> card ((nx ns)\<^sup>* `` {i}) \<noteq> 0"
proof -
  assume wf: "chains_wf ns" and i: "i < length ns"
  have "(nx ns)\<^sup>* `` {i} \<subseteq> {..<length ns}" using reach_lt[OF wf _ i] by auto
  then have "finite ((nx ns)\<^sup>* `` {i})" by (rule finite_subset) simp
  then show ?thesis by (auto simp: card_eq_0_iff)
qed

lemma reach_cases: "(i, j) \<in> (nx ns)\<^sup>* \<longleftrightarrow> i = j \<or> (\<exists>k. (i, k) \<in> nx ns \<and> (k, j) \<in> (nx ns)\<^sup>*)"
  by (auto elim: converse_rtranclE intro: converse_rtrancl_into_rtrancl)

text \<open>The search along a chain ends, at the first node that is looked for.\<close>

lemma find_node_from:
  assumes wf: "chains_wf ns"
  shows "i < length ns \<Longrightarrow> card ((nx ns)\<^sup>* `` {i}) \<le> m \<Longrightarrow>
    (case find_node m P ns i of
       Inl e \<Rightarrow> False
     | Inr None \<Rightarrow> \<forall>j. (i, j) \<in> (nx ns)\<^sup>* \<longrightarrow> \<not> P (ns ! j)
     | Inr (Some j) \<Rightarrow> (i, j) \<in> (nx ns)\<^sup>* \<and> P (ns ! j))"
proof (induction m arbitrary: i)
  case 0
  then show ?case using reach_pos[OF wf] by simp
next
  case (Suc m)
  show ?case
  proof (cases "P (ns ! i)")
    case False
    show ?thesis
    proof (cases "n_next (ns ! i)")
      case None
      then have "\<And>j. (i, j) \<in> (nx ns)\<^sup>* \<longleftrightarrow> j = i" by (subst reach_cases) (auto simp: nx_step)
      then show ?thesis using False None by simp
    next
      case (Some k)
      then have s: "(i, k) \<in> nx ns" using Suc.prems(1) by (simp add: nx_step)
      have k: "k < length ns" using wf s by (auto simp: chains_wf_def)
      have "card ((nx ns)\<^sup>* `` {k}) \<le> m" using reach_card[OF wf s] Suc.prems(2) by simp
      note IH = Suc.IH[OF k this]
      have r: "(i, j) \<in> (nx ns)\<^sup>* \<longleftrightarrow> i = j \<or> (k, j) \<in> (nx ns)\<^sup>*" for j
        using Some Suc.prems(1) by (subst reach_cases) (auto simp: nx_step)
      show ?thesis using IH False Some r by (auto split: sum.splits option.splits)
    qed
  qed simp
qed

lemma find_node_spec:
  assumes wf: "chains_wf ns" and i: "i < length ns"
  obtains (found) j where "find_node (length ns) P ns i = Inr (Some j)" "(i, j) \<in> (nx ns)\<^sup>*" "j < length ns" "P (ns ! j)"
  | (none) "find_node (length ns) P ns i = Inr None" "\<And>j. (i, j) \<in> (nx ns)\<^sup>* \<Longrightarrow> \<not> P (ns ! j)"
  using find_node_from[OF wf i reach_length[OF wf i], of P] reach_lt[OF wf _ i]
  by (auto split: sum.splits option.splits)

lemma find_pred_from:
  assumes wf: "chains_wf ns"
  shows "c < length ns \<Longrightarrow> card ((nx ns)\<^sup>* `` {c}) \<le> m \<Longrightarrow> (c, n) \<in> (nx ns)\<^sup>+ \<Longrightarrow> \<exists>p. find_pred m ns n c = Inr p \<and> (p, n) \<in> nx ns"
proof (induction m arbitrary: c)
  case 0
  then show ?case using reach_pos[OF wf] by simp
next
  case (Suc m)
  obtain k where k: "(c, k) \<in> nx ns" "k = n \<or> (k, n) \<in> (nx ns)\<^sup>+"
    using Suc.prems(3) by (auto elim: converse_tranclE)
  show ?case
  proof (cases "k = n")
    case True
    then show ?thesis using k(1) by (auto simp: nx_step)
  next
    case False
    then have "(k, n) \<in> (nx ns)\<^sup>+" "k < length ns" "card ((nx ns)\<^sup>* `` {k}) \<le> m"
      using k wf reach_card[OF wf k(1)] Suc.prems(2) by (auto simp: chains_wf_def)
    then show ?thesis using Suc.IH False k(1) by (simp add: nx_step)
  qed
qed

section \<open>The nodes of a hash part\<close>

definition nodes_ok :: "(TValue \<Rightarrow> nat) \<Rightarrow> Node list \<Rightarrow> bool" where
  "nodes_ok H ns \<longleftrightarrow> chains_wf ns \<and>
     (\<forall>i < length ns. tvisnil (n_key (ns ! i)) \<longrightarrow>
        n_next (ns ! i) = None \<and> tvisnil (n_val (ns ! i)) \<and> (\<forall>j. (j, i) \<notin> nx ns)) \<and>
     (\<forall>i < length ns. \<not> tvisnil (n_key (ns ! i)) \<longrightarrow>
        key_ok (n_key (ns ! i)) \<and> \<not> tvismzero (n_key (ns ! i)) \<and>
        (H (n_key (ns ! i)), i) \<in> (nx ns)\<^sup>* \<and> \<not> tvisnil (n_key (ns ! H (n_key (ns ! i)))) \<and>
        H (n_key (ns ! H (n_key (ns ! i)))) = H (n_key (ns ! i))) \<and>
     (\<forall>i < length ns. \<forall>j < length ns. \<not> tvisnil (n_key (ns ! i)) \<and> \<not> tvisnil (n_key (ns ! j)) \<and>
        tcanon (n_key (ns ! i)) = tcanon (n_key (ns ! j)) \<longrightarrow> i = j)"

lemma nodes_okD:
  assumes "nodes_ok H ns"
  shows "chains_wf ns"
    and "i < length ns \<Longrightarrow> tvisnil (n_key (ns ! i)) \<Longrightarrow> n_next (ns ! i) = None \<and> tvisnil (n_val (ns ! i)) \<and> (\<forall>j. (j, i) \<notin> nx ns)"
    and "i < length ns \<Longrightarrow> \<not> tvisnil (n_key (ns ! i)) \<Longrightarrow>
        key_ok (n_key (ns ! i)) \<and> \<not> tvismzero (n_key (ns ! i)) \<and>
        (H (n_key (ns ! i)), i) \<in> (nx ns)\<^sup>* \<and> \<not> tvisnil (n_key (ns ! H (n_key (ns ! i)))) \<and>
        H (n_key (ns ! H (n_key (ns ! i)))) = H (n_key (ns ! i))"
    and "i < length ns \<Longrightarrow> j < length ns \<Longrightarrow> \<not> tvisnil (n_key (ns ! i)) \<Longrightarrow> \<not> tvisnil (n_key (ns ! j)) \<Longrightarrow>
        tcanon (n_key (ns ! i)) = tcanon (n_key (ns ! j)) \<Longrightarrow> i = j"
  using assms unfolding nodes_ok_def by blast+

lemma nodes_okI:
  assumes "chains_wf ns"
    and "\<And>i. i < length ns \<Longrightarrow> tvisnil (n_key (ns ! i)) \<Longrightarrow> n_next (ns ! i) = None \<and> tvisnil (n_val (ns ! i)) \<and> (\<forall>j. (j, i) \<notin> nx ns)"
    and "\<And>i. i < length ns \<Longrightarrow> \<not> tvisnil (n_key (ns ! i)) \<Longrightarrow>
        key_ok (n_key (ns ! i)) \<and> \<not> tvismzero (n_key (ns ! i)) \<and>
        (H (n_key (ns ! i)), i) \<in> (nx ns)\<^sup>* \<and> \<not> tvisnil (n_key (ns ! H (n_key (ns ! i)))) \<and>
        H (n_key (ns ! H (n_key (ns ! i)))) = H (n_key (ns ! i))"
    and "\<And>i j. i < length ns \<Longrightarrow> j < length ns \<Longrightarrow> \<not> tvisnil (n_key (ns ! i)) \<Longrightarrow> \<not> tvisnil (n_key (ns ! j)) \<Longrightarrow>
        tcanon (n_key (ns ! i)) = tcanon (n_key (ns ! j)) \<Longrightarrow> i = j"
  shows "nodes_ok H ns"
  using assms unfolding nodes_ok_def by blast

definition has_key :: "Node list \<Rightarrow> TValue \<Rightarrow> bool" where
  "has_key ns k \<longleftrightarrow> (\<exists>i < length ns. \<not> tvisnil (n_key (ns ! i)) \<and> tcanon (n_key (ns ! i)) = tcanon k)"

text \<open>Hash functions that respect equality of keys and stay in range.\<close>

definition hash_ok :: "(TValue \<Rightarrow> nat) \<Rightarrow> nat \<Rightarrow> bool" where
  "hash_ok H l \<longleftrightarrow> (\<forall>k. H k < l) \<and> (\<forall>a b. key_ok a \<and> key_ok b \<and> tcanon a = tcanon b \<longrightarrow> H a = H b)"

definition norm_key :: "TValue \<Rightarrow> TValue" where
  "norm_key key = (if tvismzero key then 0 else key)"

lemma norm_key:
  assumes "key_ok k"
  shows "key_ok (norm_key k)" "\<not> tvismzero (norm_key k)" "tcanon (norm_key k) = tcanon k" "\<not> tvisnil (norm_key k)"
proof -
  have z: "\<not> tvisnil 0" "\<not> dbl_isnan 0" "\<not> tvismzero 0" by code_simp+
  have "tvisnum k" if "tvismzero k" using that by (simp add: tvismzero_def)
  then show "key_ok (norm_key k)" "\<not> tvismzero (norm_key k)" "tcanon (norm_key k) = tcanon k" "\<not> tvisnil (norm_key k)"
    using assms z by (auto simp: norm_key_def key_ok_def tcanon_def)
qed

lemma norm_hash: "hash_ok H l \<Longrightarrow> key_ok k \<Longrightarrow> H (norm_key k) = H k"
  using norm_key[of k] unfolding hash_ok_def by blast

text \<open>The first case: the main position is not in use, or holds a key without a value.\<close>

lemma nx_key: "nx (ns[n := (ns ! n)\<lparr>n_key := k\<rparr>]) = nx ns"
  by (cases "n < length ns") (auto simp: nx_def nth_list_update split: if_splits)

lemma ins_main:
  assumes ok: "nodes_ok H ns" and H: "hash_ok H (length ns)" and k: "key_ok k" "\<not> has_key ns k" and v: "tvisnil (n_val (ns ! H k))"
  shows "nodes_ok H (ns[H k := (ns ! H k)\<lparr>n_key := norm_key k\<rparr>])"
proof -
  let ?n = "H k" and ?ns = "ns[H k := (ns ! H k)\<lparr>n_key := norm_key k\<rparr>]"
  have n: "?n < length ns" using H by (simp add: hash_ok_def)
  have nn: "H (norm_key k) = ?n" by (rule norm_hash[OF H k(1)])
  note nk = norm_key[OF k(1)]
  have wf: "chains_wf ?ns" using nodes_okD(1)[OF ok] unfolding chains_wf_def nx_key length_list_update .
  have key: "n_key (?ns ! i) = (if i = ?n then norm_key k else n_key (ns ! i))" if "i < length ns" for i
    using that n by (simp add: nth_list_update)
  have other: "n_next (?ns ! i) = n_next (ns ! i)" "n_val (?ns ! i) = n_val (ns ! i)" if "i < length ns" for i
    using that n by (simp_all add: nth_list_update)
  have main: "key_ok (n_key (?ns ! i)) \<and> \<not> tvismzero (n_key (?ns ! i)) \<and> (H (n_key (?ns ! i)), i) \<in> (nx ?ns)\<^sup>* \<and>
      \<not> tvisnil (n_key (?ns ! H (n_key (?ns ! i)))) \<and> H (n_key (?ns ! H (n_key (?ns ! i)))) = H (n_key (?ns ! i))"
    if i: "i < length ns" "\<not> tvisnil (n_key (?ns ! i))" for i
  proof (cases "i = ?n")
    case True
    then show ?thesis using nk nn n by (simp add: key)
  next
    case False
    then have i': "\<not> tvisnil (n_key (ns ! i))" using i by (simp add: key)
    let ?m = "H (n_key (ns ! i))"
    have Hi: "?m < length ns" using H by (simp add: hash_ok_def)
    have o: "key_ok (n_key (ns ! i))" "\<not> tvismzero (n_key (ns ! i))" "(?m, i) \<in> (nx ns)\<^sup>*" "\<not> tvisnil (n_key (ns ! ?m))"
      "H (n_key (ns ! ?m)) = ?m"
      using nodes_okD(3)[OF ok i(1) i'] by simp_all
    show ?thesis using o False nk nn by (simp add: key[OF i(1)] key[OF Hi] nx_key)
  qed
  have dist: "i = j" if ij: "i < length ns" "j < length ns" "\<not> tvisnil (n_key (?ns ! i))" "\<not> tvisnil (n_key (?ns ! j))"
      "tcanon (n_key (?ns ! i)) = tcanon (n_key (?ns ! j))" for i j
  proof -
    have d: "i = j" if "\<not> tvisnil (n_key (ns ! i))" "\<not> tvisnil (n_key (ns ! j))" "tcanon (n_key (ns ! i)) = tcanon (n_key (ns ! j))"
      using nodes_okD(4)[OF ok ij(1,2)] that by simp
    have h: "\<not> (\<not> tvisnil (n_key (ns ! x)) \<and> tcanon (n_key (ns ! x)) = tcanon k)" if "x < length ns" for x
      using k(2) that by (auto simp: has_key_def)
    have x: "x = ?n \<or> \<not> tvisnil (n_key (ns ! x)) \<and> n_key (?ns ! x) = n_key (ns ! x) \<and> tcanon (n_key (ns ! x)) \<noteq> tcanon k"
      if "x < length ns" "\<not> tvisnil (n_key (?ns ! x))" for x
      using that h[OF that(1)] by (auto simp: key)
    have n1: "tcanon (n_key (?ns ! ?n)) = tcanon k" using n nk(3) by (simp add: key)
    from x[OF ij(1,3)] x[OF ij(2,4)] show ?thesis
    proof (elim disjE conjE)
      assume "i = ?n" "tcanon (n_key (ns ! j)) \<noteq> tcanon k" "n_key (?ns ! j) = n_key (ns ! j)"
      then show ?thesis using ij(5) n1 by simp
    next
      assume "j = ?n" "tcanon (n_key (ns ! i)) \<noteq> tcanon k" "n_key (?ns ! i) = n_key (ns ! i)"
      then show ?thesis using ij(5) n1 by simp
    next
      assume "\<not> tvisnil (n_key (ns ! i))" "\<not> tvisnil (n_key (ns ! j))" "n_key (?ns ! i) = n_key (ns ! i)" "n_key (?ns ! j) = n_key (ns ! j)"
      then show ?thesis using d ij(5) by simp
    qed simp
  qed
  have free: "n_next (?ns ! i) = None \<and> tvisnil (n_val (?ns ! i)) \<and> (\<forall>j. (j, i) \<notin> nx ?ns)"
    if i: "i < length ns" "tvisnil (n_key (?ns ! i))" for i
  proof -
    have "tvisnil (n_key (ns ! i))" using i nk(4) by (simp add: key split: if_splits)
    from nodes_okD(2)[OF ok i(1) this] show ?thesis by (simp add: other[OF i(1)] nx_key)
  qed
  show ?thesis using wf main dist free by (intro nodes_okI) simp_all
qed

text \<open>What every case has to show for the keys: the old ones moved by an injection, and the new one.\<close>

lemma dist_new:
  assumes ok: "nodes_ok H ns" and k: "\<not> has_key ns k" and n: "n < length ns'" and new: "tcanon (n_key (ns' ! n)) = tcanon k"
    and old: "\<And>i. i < length ns' \<Longrightarrow> i \<noteq> n \<Longrightarrow> \<not> tvisnil (n_key (ns' ! i)) \<Longrightarrow> \<tau> i < length ns \<and> n_key (ns' ! i) = n_key (ns ! \<tau> i)"
    and inj: "\<And>i j. i \<noteq> n \<Longrightarrow> j \<noteq> n \<Longrightarrow> i < length ns' \<Longrightarrow> j < length ns' \<Longrightarrow> \<not> tvisnil (n_key (ns' ! i)) \<Longrightarrow>
      \<not> tvisnil (n_key (ns' ! j)) \<Longrightarrow> \<tau> i = \<tau> j \<Longrightarrow> i = j"
    and ij: "i < length ns'" "j < length ns'" "\<not> tvisnil (n_key (ns' ! i))" "\<not> tvisnil (n_key (ns' ! j))"
      "tcanon (n_key (ns' ! i)) = tcanon (n_key (ns' ! j))"
  shows "i = j"
proof -
  have h: "x = n \<or> tcanon (n_key (ns' ! x)) \<noteq> tcanon k" if "x < length ns'" "\<not> tvisnil (n_key (ns' ! x))" for x
    using old[OF that(1) _ that(2)] k that(2) by (auto simp: has_key_def)
  show ?thesis
  proof (cases "i = n \<or> j = n")
    case True
    then show ?thesis using h[OF ij(1,3)] h[OF ij(2,4)] new ij(5) by auto
  next
    case False
    then have o: "\<tau> i < length ns" "n_key (ns' ! i) = n_key (ns ! \<tau> i)" "\<tau> j < length ns" "n_key (ns' ! j) = n_key (ns ! \<tau> j)"
      using old ij by blast+
    have "\<tau> i = \<tau> j" by (rule nodes_okD(4)[OF ok o(1,3)]) (use ij o in simp_all)
    then show ?thesis using inj False ij by blast
  qed
qed

text \<open>The second case: the main position holds a key of its own, and a free node follows it in the chain.\<close>

lemma ins_free:
  assumes ok: "nodes_ok H ns" and H: "hash_ok H (length ns)" and k: "key_ok k" "\<not> has_key ns k"
    and n: "n = H k" "\<not> tvisnil (n_val (ns ! n))" "H (n_key (ns ! n)) = n"
    and p: "p < length ns" "tvisnil (n_key (ns ! p))"
    and ns': "length ns' = length ns" "ns' ! p = (ns ! p)\<lparr>n_next := n_next (ns ! n), n_key := norm_key k\<rparr>"
      "ns' ! n = (ns ! n)\<lparr>n_next := Some p\<rparr>" "\<And>i. i < length ns \<Longrightarrow> i \<noteq> p \<Longrightarrow> i \<noteq> n \<Longrightarrow> ns' ! i = ns ! i"
  shows "nodes_ok H ns'"
proof -
  note wf = nodes_okD(1)[OF ok]
  have nl: "n < length ns" using H n(1) by (simp add: hash_ok_def)
  have nk: "\<not> tvisnil (n_key (ns ! n))" using nodes_okD(2)[OF ok nl] n(2) by blast
  have pn: "p \<noteq> n" using nk p(2) by auto
  have pf: "n_next (ns ! p) = None" "tvisnil (n_val (ns ! p))" "\<And>j. (j, p) \<notin> nx ns" using nodes_okD(2)[OF ok p] by blast+
  note kk = norm_key[OF k(1)]
  have Hk: "H (norm_key k) = n" using norm_hash[OF H k(1)] n(1) by simp
  have e: "(i, j) \<in> nx ns' \<longleftrightarrow> (if i = p then (n, j) \<in> nx ns else if i = n then j = p else (i, j) \<in> nx ns)" for i j
    using ns' p(1) nl pn by (cases "i < length ns") (auto simp: nx_step)
  have wf': "chains_wf ns'"
  proof -
    obtain f :: "nat \<Rightarrow> nat" where f: "\<forall>i j. (i, j) \<in> nx ns \<longrightarrow> f i < f j" using wf by (auto simp: chains_wf_def)
    have range: "j < length ns'" if "(i, j) \<in> nx ns'" for i j
      using that wf p(1) ns'(1) by (auto simp: e chains_wf_def split: if_splits)
    have inj: "i = i'" if "(i, j) \<in> nx ns'" "(i', j) \<in> nx ns'" for i i' j
    proof -
      have g: "if j = p then x = n else x \<noteq> n \<and> ((if x = p then n else x), j) \<in> nx ns" if "(x, j) \<in> nx ns'" for x
        using that pf(3) pn by (auto simp: e split: if_splits)
      show ?thesis
      proof (cases "j = p")
        case False
        then have h: "i \<noteq> n \<and> ((if i = p then n else i), j) \<in> nx ns" "i' \<noteq> n \<and> ((if i' = p then n else i'), j) \<in> nx ns"
          using g[OF that(1)] g[OF that(2)] by simp_all
        have "(if i = p then n else i) = (if i' = p then n else i')"
          by (rule chains_inj[OF wf conjunct2[OF h(1)] conjunct2[OF h(2)]])
        then show ?thesis using h by (simp split: if_splits)
      qed (use g[OF that(1)] g[OF that(2)] in simp)
    qed
    have rank: "(if i = p then 2 * f n + 1 else 2 * f i) < (if j = p then 2 * f n + 1 else 2 * f j)" if "(i, j) \<in> nx ns'" for i j
      using that f[rule_format, of n j] f[rule_format, of i j] pf(3) pn by (auto simp: e split: if_splits)
    show ?thesis unfolding chains_wf_def
    proof (intro conjI exI[of _ "\<lambda>x. if x = p then 2 * f n + 1 else 2 * f x"])
      show "\<forall>i j. (i, j) \<in> nx ns' \<longrightarrow> j < length ns'" using range by blast
      show "\<forall>i i' j. (i, j) \<in> nx ns' \<and> (i', j) \<in> nx ns' \<longrightarrow> i = i'" using inj by blast
      show "\<forall>i j. (i, j) \<in> nx ns' \<longrightarrow> (if i = p then 2 * f n + 1 else 2 * f i) < (if j = p then 2 * f n + 1 else 2 * f j)"
        using rank by blast
    qed
  qed
  have "nx ns \<subseteq> (nx ns')\<^sup>*"
  proof clarify
    fix i j assume ij: "(i, j) \<in> nx ns"
    have ip: "i \<noteq> p" using ij pf(1) by (auto simp: nx_step)
    show "(i, j) \<in> (nx ns')\<^sup>*"
    proof (cases "i = n")
      case True
      then have "(i, p) \<in> nx ns'" "(p, j) \<in> nx ns'" using ij pn by (simp_all add: e)
      then show ?thesis by (meson r_into_rtrancl rtrancl_trans)
    qed (use ij ip e in auto)
  qed
  then have reach: "(nx ns)\<^sup>* \<subseteq> (nx ns')\<^sup>*" by (rule rtrancl_subset_rtrancl)
  have key: "n_key (ns' ! i) = (if i = p then norm_key k else n_key (ns ! i))" if "i < length ns" for i
    using ns' that pn by (cases "i = p"; cases "i = n") auto
  show ?thesis
  proof (rule nodes_okI[OF wf'])
    fix i assume i: "i < length ns'" "tvisnil (n_key (ns' ! i))"
    then have i': "i < length ns" "i \<noteq> p" "tvisnil (n_key (ns ! i))" "i \<noteq> n" using ns'(1) kk(4) nk by (auto simp: key split: if_splits)
    have "(j, i) \<notin> nx ns'" for j using nodes_okD(2)[OF ok i'(1,3)] i'(2) by (auto simp: e)
    then show "n_next (ns' ! i) = None \<and> tvisnil (n_val (ns' ! i)) \<and> (\<forall>j. (j, i) \<notin> nx ns')"
      using nodes_okD(2)[OF ok i'(1,3)] ns'(4)[OF i'(1,2,4)] by simp
  next
    fix i assume i: "i < length ns'" "\<not> tvisnil (n_key (ns' ! i))"
    show "key_ok (n_key (ns' ! i)) \<and> \<not> tvismzero (n_key (ns' ! i)) \<and> (H (n_key (ns' ! i)), i) \<in> (nx ns')\<^sup>* \<and>
      \<not> tvisnil (n_key (ns' ! H (n_key (ns' ! i)))) \<and> H (n_key (ns' ! H (n_key (ns' ! i)))) = H (n_key (ns' ! i))"
    proof (cases "i = p")
      case True
      have "(n, p) \<in> nx ns'" using pn by (simp add: e)
      then show ?thesis using True kk Hk nk n(3) pn by (simp add: key[OF p(1)] key[OF nl] r_into_rtrancl)
    next
      case False
      have i': "i < length ns" "\<not> tvisnil (n_key (ns ! i))" using i False ns'(1) by (simp_all add: key)
      let ?m = "H (n_key (ns ! i))"
      have o: "key_ok (n_key (ns ! i))" "\<not> tvismzero (n_key (ns ! i))" "(?m, i) \<in> (nx ns)\<^sup>*" "\<not> tvisnil (n_key (ns ! ?m))"
        "H (n_key (ns ! ?m)) = ?m" using nodes_okD(3)[OF ok i'] by simp_all
      have m: "?m < length ns" "?m \<noteq> p" using H o(4) p(2) by (auto simp: hash_ok_def)
      have "(?m, i) \<in> (nx ns')\<^sup>*" using o(3) reach by blast
      then show ?thesis using o False m by (simp add: key[OF i'(1)] key[OF m(1)])
    qed
  next
    fix i j
    assume ij: "i < length ns'" "j < length ns'" "\<not> tvisnil (n_key (ns' ! i))" "\<not> tvisnil (n_key (ns' ! j))"
      "tcanon (n_key (ns' ! i)) = tcanon (n_key (ns' ! j))"
    show "i = j"
      by (rule dist_new[OF ok k(2) _ _ _ _ ij, where n = p and \<tau> = id]) (use p(1) ns'(1) kk(3) in \<open>simp_all add: key\<close>)
  qed
qed

text \<open>The third case: the main position holds a key of another chain, which moves to the free node.\<close>

lemma ins_move:
  assumes ok: "nodes_ok H ns" and H: "hash_ok H (length ns)" and k: "key_ok k" "\<not> has_key ns k"
    and n: "n = H k" "\<not> tvisnil (n_val (ns ! n))" "H (n_key (ns ! n)) \<noteq> n"
    and p: "p < length ns" "tvisnil (n_key (ns ! p))" and c: "(c, n) \<in> nx ns"
    and ns': "length ns' = length ns" "ns' ! c = (ns ! c)\<lparr>n_next := Some p\<rparr>" "ns' ! p = ns ! n"
      "n_key (ns' ! n) = norm_key k" "n_next (ns' ! n) = None"
      "\<And>i. i < length ns \<Longrightarrow> i \<noteq> p \<Longrightarrow> i \<noteq> n \<Longrightarrow> i \<noteq> c \<Longrightarrow> ns' ! i = ns ! i"
  shows "nodes_ok H ns'"
proof -
  note wf = nodes_okD(1)[OF ok]
  obtain f :: "nat \<Rightarrow> nat" where f: "\<And>i j. (i, j) \<in> nx ns \<Longrightarrow> f i < f j" using wf by (auto simp: chains_wf_def)
  have u: "(a, j) \<in> nx ns \<Longrightarrow> (b, j) \<in> nx ns \<Longrightarrow> a = b" for a b j using chains_inj[OF wf] by blast
  have nl: "n < length ns" using H n(1) by (simp add: hash_ok_def)
  have nk: "\<not> tvisnil (n_key (ns ! n))" using nodes_okD(2)[OF ok nl] n(2) by blast
  have pn: "p \<noteq> n" using nk p(2) by auto
  have pf: "n_next (ns ! p) = None" "tvisnil (n_val (ns ! p))" "\<And>j. (j, p) \<notin> nx ns" using nodes_okD(2)[OF ok p] by blast+
  have cl: "c < length ns" "c \<noteq> p" "c \<noteq> n" "n_next (ns ! c) = Some n" using c pf(1) f[OF c] by (auto simp: nx_step)
  note kk = norm_key[OF k(1)]
  have Hk: "H (norm_key k) = n" using norm_hash[OF H k(1)] n(1) by simp
  have nn: "(n, n) \<notin> nx ns" using f[of n n] by auto
  let ?s = "\<lambda>x. if x = n then p else x"
  have fwd: "(?s i, ?s j) \<in> nx ns'" if ij: "(i, j) \<in> nx ns" for i j
  proof -
    have i: "i < length ns" "i \<noteq> p" "n_next (ns ! i) = Some j" using ij pf(1) by (auto simp: nx_step)
    consider "i = n" | "i = c" | "i \<noteq> n" "i \<noteq> c" by blast
    then show ?thesis
    proof cases
      case 1
      then have "j \<noteq> n" using nn ij by auto
      then show ?thesis using 1 i(3) p(1) ns' pn by (simp add: nx_step)
    next
      case 2
      then have "j = n" using i(3) cl(4) by simp
      then show ?thesis using 2 cl ns'(1,2) by (simp add: nx_step)
    next
      case 3
      then have "j \<noteq> n" using u[of i n c] ij c by auto
      then show ?thesis using 3 i ns' by (simp add: nx_step)
    qed
  qed
  have bwd: "\<exists>a b. (a, b) \<in> nx ns \<and> i = ?s a \<and> j = ?s b" if ij: "(i, j) \<in> nx ns'" for i j
  proof -
    have i: "i < length ns" "n_next (ns' ! i) = Some j" using ij ns'(1) by (auto simp: nx_step)
    consider "i = n" | "i = c" | "i = p" | "i \<noteq> n" "i \<noteq> c" "i \<noteq> p" by blast
    then show ?thesis
    proof cases
      case 1
      then show ?thesis using i(2) ns'(5) by simp
    next
      case 2
      then have "j = p" using i(2) ns'(2) by simp
      then show ?thesis using 2 c cl by (intro exI[of _ c] exI[of _ n]) simp
    next
      case 3
      then have "(n, j) \<in> nx ns" using i(2) ns'(3) nl by (simp add: nx_step)
      then show ?thesis using 3 nn by (intro exI[of _ n] exI[of _ j]) auto
    next
      case 4
      then have "(i, j) \<in> nx ns" using i ns'(6) by (simp add: nx_step)
      moreover have "j \<noteq> n" using u[of i n c] c 4 calculation by auto
      ultimately show ?thesis using 4 by (intro exI[of _ i] exI[of _ j]) simp
    qed
  qed
  have noP: "a \<noteq> p" "b \<noteq> p" if "(a, b) \<in> nx ns" for a b using that pf by (auto simp: nx_step)
  have sinj: "?s a = ?s b \<Longrightarrow> a \<noteq> p \<Longrightarrow> b \<noteq> p \<Longrightarrow> a = b" for a b by (auto split: if_splits)
  have wf': "chains_wf ns'"
  proof -
    have range: "j < length ns'" if "(i, j) \<in> nx ns'" for i j
      using bwd[OF that] wf p(1) ns'(1) by (auto simp: chains_wf_def)
    have inj: "i = i'" if h: "(i, j) \<in> nx ns'" "(i', j) \<in> nx ns'" for i i' j
    proof -
      obtain a b a' b' where ab: "(a, b) \<in> nx ns" "i = ?s a" "j = ?s b" "(a', b') \<in> nx ns" "i' = ?s a'" "j = ?s b'"
        using bwd[OF h(1)] bwd[OF h(2)] by blast
      have "b = b'" by (rule sinj) (use ab noP in auto)
      then show ?thesis using u[of a b a'] ab by simp
    qed
    let ?f = "\<lambda>x. if x = p then f n else f x"
    have rank: "?f i < ?f j" if h: "(i, j) \<in> nx ns'" for i j
    proof -
      obtain a b where ab: "(a, b) \<in> nx ns" "i = ?s a" "j = ?s b" using bwd[OF h] by blast
      have fs: "?f (?s x) = f x" if "x \<noteq> p" for x using that by auto
      show ?thesis using f[OF ab(1)] unfolding ab(2,3) fs[OF noP(1)[OF ab(1)]] fs[OF noP(2)[OF ab(1)]] .
    qed
    show ?thesis unfolding chains_wf_def
    proof (intro conjI exI[of _ ?f])
      show "\<forall>i j. (i, j) \<in> nx ns' \<longrightarrow> j < length ns'" using range by blast
      show "\<forall>i i' j. (i, j) \<in> nx ns' \<and> (i', j) \<in> nx ns' \<longrightarrow> i = i'" using inj by blast
      show "\<forall>i j. (i, j) \<in> nx ns' \<longrightarrow> ?f i < ?f j" using rank by blast
    qed
  qed
  have reach: "(?s i, ?s j) \<in> (nx ns')\<^sup>*" if "(i, j) \<in> (nx ns)\<^sup>*" for i j
    using that
  proof (induction)
    case (step y z)
    show ?case by (rule rtrancl_into_rtrancl[OF step(3) fwd[OF step(2)]])
  qed simp
  have key: "n_key (ns' ! i) = (if i = n then norm_key k else if i = p then n_key (ns ! n) else n_key (ns ! i))"
    if "i < length ns" for i
    using ns' that by (cases "i = p"; cases "i = n"; cases "i = c") auto
  have noH: "H (n_key (ns ! i)) \<noteq> n" if "i < length ns" "\<not> tvisnil (n_key (ns ! i))" for i
    using nodes_okD(3)[OF ok that] n(3) by auto
  show ?thesis
  proof (rule nodes_okI[OF wf'])
    fix i assume i: "i < length ns'" "tvisnil (n_key (ns' ! i))"
    then have i': "i < length ns" "i \<noteq> p" "i \<noteq> n" "tvisnil (n_key (ns ! i))" using ns'(1) kk(4) nk by (auto simp: key split: if_splits)
    have ic: "i \<noteq> c" using nodes_okD(2)[OF ok i'(1,4)] cl(4) by auto
    have "(j, i) \<notin> nx ns'" for j
    proof
      assume "(j, i) \<in> nx ns'"
      then obtain a b where "(a, b) \<in> nx ns" "i = ?s b" using bwd by blast
      then have "(a, i) \<in> nx ns" using i'(2) by (auto split: if_splits)
      then show False using nodes_okD(2)[OF ok i'(1,4)] by blast
    qed
    then show "n_next (ns' ! i) = None \<and> tvisnil (n_val (ns' ! i)) \<and> (\<forall>j. (j, i) \<notin> nx ns')"
      using nodes_okD(2)[OF ok i'(1,4)] ns'(6)[OF i'(1,2,3) ic] by simp
  next
    fix i assume i: "i < length ns'" "\<not> tvisnil (n_key (ns' ! i))"
    have main: "key_ok (n_key (ns ! j)) \<and> \<not> tvismzero (n_key (ns ! j)) \<and> (H (n_key (ns ! j)), ?s j) \<in> (nx ns')\<^sup>* \<and>
        \<not> tvisnil (n_key (ns' ! H (n_key (ns ! j)))) \<and> H (n_key (ns' ! H (n_key (ns ! j)))) = H (n_key (ns ! j))"
      if j: "j < length ns" "\<not> tvisnil (n_key (ns ! j))" for j
    proof -
      let ?m = "H (n_key (ns ! j))"
      have o: "key_ok (n_key (ns ! j))" "\<not> tvismzero (n_key (ns ! j))" "(?m, j) \<in> (nx ns)\<^sup>*" "\<not> tvisnil (n_key (ns ! ?m))"
        "H (n_key (ns ! ?m)) = ?m" using nodes_okD(3)[OF ok j] by simp_all
      have m: "?m < length ns" "?m \<noteq> p" "?m \<noteq> n" using H o(4) p(2) noH[OF j] by (auto simp: hash_ok_def)
      have "(?m, ?s j) \<in> (nx ns')\<^sup>*" using reach[OF o(3)] m(3) by simp
      then show ?thesis using o m by (simp add: key[OF m(1)])
    qed
    show "key_ok (n_key (ns' ! i)) \<and> \<not> tvismzero (n_key (ns' ! i)) \<and> (H (n_key (ns' ! i)), i) \<in> (nx ns')\<^sup>* \<and>
      \<not> tvisnil (n_key (ns' ! H (n_key (ns' ! i)))) \<and> H (n_key (ns' ! H (n_key (ns' ! i)))) = H (n_key (ns' ! i))"
    proof -
      consider "i = n" | "i = p" | "i \<noteq> n" "i \<noteq> p" by blast
      then show ?thesis
      proof cases
        case 1
        then show ?thesis using kk Hk by (simp add: key[OF nl])
      next
        case 2
        then show ?thesis using main[OF nl nk] pn by (simp add: key[OF p(1)])
      next
        case 3
        have i': "i < length ns" "\<not> tvisnil (n_key (ns ! i))" using i 3 ns'(1) by (simp_all add: key)
        show ?thesis using main[OF i'] 3 by (simp add: key[OF i'(1)])
      qed
    qed
  next
    fix i j
    assume ij: "i < length ns'" "j < length ns'" "\<not> tvisnil (n_key (ns' ! i))" "\<not> tvisnil (n_key (ns' ! j))"
      "tcanon (n_key (ns' ! i)) = tcanon (n_key (ns' ! j))"
    show "i = j"
      by (rule dist_new[OF ok k(2) _ _ _ _ ij, where n = n and \<tau> = "\<lambda>x. if x = p then n else x"])
        (use nl ns'(1) kk(3) in \<open>simp_all add: key split: if_splits\<close>)
  qed
qed

end
