(* ===== verification/LJ_TabMap.thy ===== *)
theory LJ_TabMap
  imports LJ_TabInv
begin

text \<open>
  Tables as maps from keys to values: the invariant of a table, its slots, and what lookups and insertions without a
  rehash do.
\<close>

section \<open>The invariant\<close>

definition tab_ok :: "str_hash_of \<Rightarrow> GCtab \<Rightarrow> bool" where
  "tab_ok h t \<longleftrightarrow>
     nodes_ok (hashkey h t) (t_node t) \<and> length (t_node t) = unat (t_hmask t) + 1 \<and>
     (t_hmask t = 0 \<longrightarrow> t_freetop t = 0 \<and> tvisnil (n_key (t_node t ! 0))) \<and>
     (t_hmask t \<noteq> 0 \<longrightarrow> t_freetop t \<le> length (t_node t) \<and>
        (\<forall>i. t_freetop t \<le> i \<and> i < length (t_node t) \<longrightarrow> \<not> tvisnil (n_key (t_node t ! i)))) \<and>
     (\<forall>i k. i < length (t_node t) \<and> \<not> tvisnil (n_key (t_node t ! i)) \<and> int_key (n_key (t_node t ! i)) = Some k \<longrightarrow>
        \<not> inarray t k) \<and>
     t_asize t \<le> LJ_MAX_ASIZE \<and> (\<exists>b \<le> LJ_MAX_HBITS. length (t_node t) = 2 ^ b)"

lemma tab_okD:
  assumes "tab_ok h t"
  shows "nodes_ok (hashkey h t) (t_node t)" "length (t_node t) = unat (t_hmask t) + 1"
    "t_hmask t = 0 \<Longrightarrow> t_freetop t = 0 \<and> tvisnil (n_key (t_node t ! 0))"
    "t_hmask t \<noteq> 0 \<Longrightarrow> t_freetop t \<le> length (t_node t)"
    "t_hmask t \<noteq> 0 \<Longrightarrow> t_freetop t \<le> i \<Longrightarrow> i < length (t_node t) \<Longrightarrow> \<not> tvisnil (n_key (t_node t ! i))"
    "i < length (t_node t) \<Longrightarrow> \<not> tvisnil (n_key (t_node t ! i)) \<Longrightarrow> int_key (n_key (t_node t ! i)) = Some k \<Longrightarrow> \<not> inarray t k"
    "t_asize t \<le> LJ_MAX_ASIZE" "\<exists>b \<le> LJ_MAX_HBITS. length (t_node t) = 2 ^ b"
  using assms unfolding tab_ok_def by blast+

lemma hashmask_le: "hashmask t x \<le> unat (t_hmask t)"
  unfolding hashmask_def by (simp add: word_le_nat_alt[symmetric] word_and_le1)

lemma hashkey_le: "hashkey h t k \<le> unat (t_hmask t)"
  by (simp add: hashkey_def hashstr_def hashnum_def hashgcref_def hashlohi_def hashmask_le)

lemma hashkey_hmask: "t_hmask t = t_hmask t' \<Longrightarrow> hashkey h t = hashkey h t'"
  by (auto simp: fun_eq_iff hashkey_def hashstr_def hashnum_def hashgcref_def hashlohi_def hashmask_def)

lemma hash_ok_tab:
  assumes "length (t_node t) = unat (t_hmask t) + 1"
  shows "hash_ok (hashkey h t) (length (t_node t))"
  using hashkey_le[of h t] hash_canon assms unfolding hash_ok_def by (simp add: less_Suc_eq_le)

section \<open>Slots of keys\<close>

definition key_at :: "Node list \<Rightarrow> TValue \<Rightarrow> nat \<Rightarrow> bool" where
  "key_at ns k i \<longleftrightarrow> \<not> tvisnil (n_key (ns ! i)) \<and> tcanon (n_key (ns ! i)) = tcanon k"

definition node_of :: "Node list \<Rightarrow> TValue \<Rightarrow> nat option" where
  "node_of ns k = find (key_at ns k) [0..<length ns]"

definition slot_of :: "GCtab \<Rightarrow> TValue \<Rightarrow> Slot option" where
  "slot_of t k =
     (case int_key k of
        Some i \<Rightarrow> if inarray t i then Some (Arr (unat i)) else map_option Hash (node_of (t_node t) k)
      | None \<Rightarrow> map_option Hash (node_of (t_node t) k))"

text \<open>The map: absent keys and keys with the value nil are the same.\<close>

definition tab_map :: "GCtab \<Rightarrow> TValue \<Rightarrow> TValue option" where
  "tab_map t k =
     (if key_ok k then
        case slot_of t k of None \<Rightarrow> None | Some s \<Rightarrow> if tvisnil (slot_val t s) then None else Some (slot_val t s)
      else None)"

definition map_put :: "(TValue \<Rightarrow> TValue option) \<Rightarrow> TValue \<Rightarrow> TValue \<Rightarrow> TValue \<Rightarrow> TValue option" where
  "map_put m k v = (\<lambda>k'. if key_ok k' \<and> tcanon k' = tcanon k then (if tvisnil v then None else Some v) else m k')"

lemma node_of_None: "node_of ns k = None \<longleftrightarrow> \<not> has_key ns k"
  by (auto simp: node_of_def find_None_iff has_key_def key_at_def)

lemma node_of_Some:
  assumes "nodes_ok H ns"
  shows "node_of ns k = Some i \<longleftrightarrow> i < length ns \<and> key_at ns k i"
proof
  assume "node_of ns k = Some i"
  then show "i < length ns \<and> key_at ns k i" by (auto simp: node_of_def find_Some_iff)
next
  assume i: "i < length ns \<and> key_at ns k i"
  then obtain j where j: "node_of ns k = Some j" using node_of_None[of ns k] by (cases "node_of ns k") (auto simp: has_key_def key_at_def)
  then have "j < length ns" "key_at ns k j" by (auto simp: node_of_def find_Some_iff)
  then have "j = i" using nodes_okD(4)[OF assms, of j i] i by (simp add: key_at_def)
  then show "node_of ns k = Some i" using j by simp
qed

lemma node_of_cong: "tcanon k = tcanon k' \<Longrightarrow> node_of ns k = node_of ns k'"
  by (simp add: node_of_def key_at_def[abs_def])

lemma slot_of_cong: "key_ok k \<Longrightarrow> key_ok k' \<Longrightarrow> tcanon k = tcanon k' \<Longrightarrow> slot_of t k = slot_of t k'"
  unfolding slot_of_def by (simp only: int_key_cong[of k k'] node_of_cong[of k k'])

section \<open>Lookups\<close>

lemma find_node_tab:
  assumes ok: "tab_ok h t" and k: "key_ok k"
    and P: "\<And>i. i < length (t_node t) \<Longrightarrow> P (t_node t ! i) \<longleftrightarrow> key_at (t_node t) k i"
  shows "search_node P t (hashkey h t k) = Inr (map_option Hash (node_of (t_node t) k))"
proof -
  let ?ns = "t_node t" and ?H = "hashkey h t"
  note n = tab_okD(1)[OF ok]
  have H: "hash_ok ?H (length ?ns)" by (rule hash_ok_tab[OF tab_okD(2)[OF ok]])
  have s: "?H k < length ?ns" using H by (simp add: hash_ok_def)
  have "find_node (length ?ns) P ?ns (?H k) = Inr (node_of ?ns k)"
  proof (rule find_node_spec[OF nodes_okD(1)[OF n] s, of P])
    fix j assume f: "find_node (length ?ns) P ?ns (?H k) = Inr (Some j)" "j < length ?ns" "P (?ns ! j)"
    then have "node_of ?ns k = Some j" using P node_of_Some[OF n] by simp
    then show ?thesis using f by simp
  next
    assume f: "find_node (length ?ns) P ?ns (?H k) = Inr None" "\<And>j. (?H k, j) \<in> (nx ?ns)\<^sup>* \<Longrightarrow> \<not> P (?ns ! j)"
    have "\<not> key_at ?ns k j" if j: "j < length ?ns" for j
    proof
      assume a: "key_at ?ns k j"
      then have kj: "\<not> tvisnil (n_key (?ns ! j))" "tcanon (n_key (?ns ! j)) = tcanon k" by (simp_all add: key_at_def)
      have o: "key_ok (n_key (?ns ! j))" "(?H (n_key (?ns ! j)), j) \<in> (nx ?ns)\<^sup>*" using nodes_okD(3)[OF n j kj(1)] by simp_all
      have "?H (n_key (?ns ! j)) = ?H k" using H o(1) k kj(2) unfolding hash_ok_def by blast
      then show False using f(2)[of j] o(2) P[OF j] a by simp
    qed
    then have "node_of ?ns k = None" by (auto simp: node_of_None has_key_def key_at_def)
    then show ?thesis using f(1) by simp
  qed
  then show ?thesis by (simp add: search_node_def)
qed

text \<open>The tests of the getters decide equality of keys.\<close>

lemma strkey:
  assumes "tvisstr k"
  shows "k = setstrV (tv_lo k)" "key_ok k" "tcanon k = k" "int_key k = None" "\<not> tvisnum k" "\<not> tvisnil k"
proof -
  have t: "itype k = LJ_TSTR" using assms by (simp add: tvisstr_def)
  show "k = setstrV (tv_lo k)" using t by (intro tv_eqI) (simp_all add: setstrV_def)
  show n: "\<not> tvisnum k" "\<not> tvisnil k" using t by (simp_all add: tvisnum_def tvisnil_def lj_tags)
  have "\<not> tvispri k" using t by (simp add: tvispri_def lj_tags word_le_nat_alt)
  then show "key_ok k" "tcanon k = k" "int_key k = None" using n by (simp_all add: key_ok_def tcanon_def int_key_def)
qed

lemma str_test:
  assumes "nodes_ok H ns" "i < length ns" "tvisstr k"
  shows "tvisstr (n_key (ns ! i)) \<and> tv_lo (n_key (ns ! i)) = tv_lo k \<longleftrightarrow> key_at ns k i"
proof
  assume a: "tvisstr (n_key (ns ! i)) \<and> tv_lo (n_key (ns ! i)) = tv_lo k"
  then have "n_key (ns ! i) = k" using strkey(1)[of k] strkey(1)[of "n_key (ns ! i)"] assms(3) by simp
  then show "key_at ns k i" using a strkey[of "n_key (ns ! i)"] by (simp add: key_at_def)
next
  assume a: "key_at ns k i"
  then have "tcanon (n_key (ns ! i)) = k" using strkey(3)[OF assms(3)] by (simp add: key_at_def)
  moreover have "\<not> tvisnum k" "\<not> tvispri k" using assms(3) by (simp_all add: tvisstr_def tvisnum_def tvispri_def lj_tags word_le_nat_alt)
  moreover have "tvispri (u64_of_lohi 0 (itype x)) = tvispri x" for x by (simp add: tvispri_def)
  ultimately have "n_key (ns ! i) = k" by (metis tcanon_def zero_num(1))
  then show "tvisstr (n_key (ns ! i)) \<and> tv_lo (n_key (ns ! i)) = tv_lo k" using assms(3) by simp
qed

lemma int_test:
  assumes "nodes_ok H ns" "i < length ns"
  shows "tvisnum (n_key (ns ! i)) \<and> dbl_eq (n_key (ns ! i)) (setintV k) \<longleftrightarrow> key_at ns (setintV k) i"
proof (cases "tvisnil (n_key (ns ! i))")
  case True
  then show ?thesis using nil_pri pri_notnum by (simp add: key_at_def)
next
  case False
  then have o: "key_ok (n_key (ns ! i))" using nodes_okD(3)[OF assms] by simp
  have t: "tcanon (n_key (ns ! i)) = setintV k \<longleftrightarrow> tvisnum (n_key (ns ! i)) \<and> dbl_eq (n_key (ns ! i)) (setintV k)"
  proof
    assume c: "tcanon (n_key (ns ! i)) = setintV k"
    then have "int_key (n_key (ns ! i)) = Some k" using int_key_canon[OF o] by simp
    then show "tvisnum (n_key (ns ! i)) \<and> dbl_eq (n_key (ns ! i)) (setintV k)" by (auto simp: int_key_def split: if_splits)
  next
    assume a: "tvisnum (n_key (ns ! i)) \<and> dbl_eq (n_key (ns ! i)) (setintV k)"
    then have "\<not> dbl_isnan (n_key (ns ! i))" using o by (simp add: key_ok_def)
    then show "tcanon (n_key (ns ! i)) = setintV k"
      using dbl_eq_canon[of "n_key (ns ! i)" "setintV k"] setintV_key[of k] a by simp
  qed
  then show ?thesis using False by (simp add: key_at_def)
qed

lemma gen_test:
  assumes "nodes_ok H ns" "i < length ns" "key_ok k"
  shows "lj_obj_equal (n_key (ns ! i)) k \<longleftrightarrow> key_at ns k i"
proof (cases "tvisnil (n_key (ns ! i))")
  case True
  then show ?thesis using obj_equal_nil assms(3) by (simp add: key_at_def)
next
  case False
  then have o: "key_ok (n_key (ns ! i))" using nodes_okD(3)[OF assms(1,2)] by simp
  show ?thesis using obj_equal_canon[OF o assms(3)] False by (simp add: key_at_def)
qed

lemma hash_start:
  "tvisstr k \<Longrightarrow> hashstr h t (tv_lo k) = hashkey h t k" "hashnum t (setintV i) = hashkey h t (setintV i)"
proof -
  show "tvisstr k \<Longrightarrow> hashstr h t (tv_lo k) = hashkey h t k" by (simp add: hashkey_def)
  have "\<not> tvisstr (setintV i)" using strkey(5) setintV_key(1) by blast
  then show "hashnum t (setintV i) = hashkey h t (setintV i)" using setintV_key(1) by (simp add: hashkey_def)
qed

lemma search_str: "tab_ok h t \<Longrightarrow> tvisstr k \<Longrightarrow>
    search_node (\<lambda>n. tvisstr (n_key n) \<and> tv_lo (n_key n) = tv_lo k) t (hashstr h t (tv_lo k)) = Inr (map_option Hash (node_of (t_node t) k))"
  using find_node_tab[of h t k] strkey(2) str_test[OF tab_okD(1)] hash_start(1) by simp

lemma search_int: "tab_ok h t \<Longrightarrow>
    search_node (\<lambda>n. tvisnum (n_key n) \<and> dbl_eq (n_key n) (setintV i)) t (hashnum t (setintV i)) =
      Inr (map_option Hash (node_of (t_node t) (setintV i)))"
  using find_node_tab[of h t "setintV i"] int_test[OF tab_okD(1)] hash_start(2) by simp

lemma search_gen: "tab_ok h t \<Longrightarrow> key_ok k \<Longrightarrow>
    search_node (\<lambda>n. lj_obj_equal (n_key n) k) t (hashkey h t k) = Inr (map_option Hash (node_of (t_node t) k))"
  using find_node_tab[of h t k] gen_test[OF tab_okD(1)] by simp

lemma search_nan:
  assumes ok: "tab_ok h t" and k: "tvisnum k" "dbl_isnan k"
  shows "search_node (\<lambda>n. lj_obj_equal (n_key n) k) t (hashkey h t k) = Inr None"
proof -
  have no: "\<not> lj_obj_equal x k" for x
    using k pri_notnum[of x] num_number by (auto simp: lj_obj_equal_def dbl_eq_def tvisnum_def)
  have s: "hashkey h t k < length (t_node t)" using hash_ok_tab[OF tab_okD(2)[OF ok]] by (simp add: hash_ok_def)
  show ?thesis
    by (rule find_node_spec[OF nodes_okD(1)[OF tab_okD(1)[OF ok]] s, of "\<lambda>n. lj_obj_equal (n_key n) k"])
      (simp_all add: no search_node_def)
qed

theorem get_slot:
  assumes ok: "tab_ok h t"
  shows "lj_tab_get h t k = Inr (if key_ok k then slot_of t k else None)"
proof -
  consider "tvisstr k" | "\<not> tvisstr k" "tvisnum k" "dbl_isnan k" | "\<not> tvisstr k" "tvisnum k" "key_ok k" | "\<not> tvisstr k" "\<not> tvisnum k"
    using nil_pri[of k] pri_notnum(1)[of k] by (auto simp: key_ok_def)
  then show ?thesis
  proof cases
    case 1
    then show ?thesis using search_str[OF ok 1] strkey[OF 1]
      by (simp add: lj_tab_get_def lj_tab_getstr_def slot_of_def Let_def)
  next
    case 2
    then show ?thesis using search_nan[OF ok 2(2,3)] by (simp add: lj_tab_get_def Let_def key_ok_def dbl_eq_def)
  next
    case 3
    show ?thesis
    proof (cases "int_key k")
      case None
      then have "\<not> dbl_eq k (setintV (lj_num2int k))" using 3 by (auto simp: int_key_def split: if_splits)
      then show ?thesis using 3 None search_gen[OF ok 3(3)] by (simp add: lj_tab_get_def Let_def slot_of_def)
    next
      case (Some i)
      then have e: "dbl_eq k (setintV (lj_num2int k))" "i = lj_num2int k" using 3 by (auto simp: int_key_def split: if_splits)
      have "node_of (t_node t) (setintV i) = node_of (t_node t) k"
        using int_key_canon[OF 3(3), of i] Some by (intro node_of_cong) simp
      then show ?thesis using 3 Some e search_int[OF ok, of i]
        by (simp add: lj_tab_get_def Let_def slot_of_def lj_tab_getint_def lj_tab_getinth_def)
    qed
  next
    case 4
    then have "int_key k = None" by (simp add: int_key_def)
    then show ?thesis using 4 search_gen[OF ok, of k] by (auto simp: lj_tab_get_def Let_def slot_of_def key_ok_def)
  qed
qed

end
