(* ===== verification/LJ_TabSet.thy ===== *)
theory LJ_TabSet
  imports LJ_TabMap
begin

text \<open>
  The setters: which slot they return, and the insertion of a key where a free node is left.
\<close>

section \<open>Fields\<close>

lemma tab_fields [simp]:
  "t_asize (t\<lparr>t_nomm := x\<rparr>) = t_asize t" "inarray (t\<lparr>t_nomm := x\<rparr>) = inarray t"
  "hashkey h (t\<lparr>t_nomm := x\<rparr>) = hashkey h t" "slot_of (t\<lparr>t_nomm := x\<rparr>) = slot_of t" "slot_val (t\<lparr>t_nomm := x\<rparr>) = slot_val t"
  "tab_map (t\<lparr>t_nomm := x\<rparr>) = tab_map t" "tab_ok h (t\<lparr>t_nomm := x\<rparr>) = tab_ok h t"
proof -
  show a: "t_asize (t\<lparr>t_nomm := x\<rparr>) = t_asize t" "inarray (t\<lparr>t_nomm := x\<rparr>) = inarray t"
    by (auto simp: t_asize_def inarray_def)
  show k: "hashkey h (t\<lparr>t_nomm := x\<rparr>) = hashkey h t" by (rule hashkey_hmask) simp
  show s: "slot_of (t\<lparr>t_nomm := x\<rparr>) = slot_of t" "slot_val (t\<lparr>t_nomm := x\<rparr>) = slot_val t"
    by (auto simp: fun_eq_iff slot_of_def slot_val_def a split: Slot.splits option.splits)
  show "tab_map (t\<lparr>t_nomm := x\<rparr>) = tab_map t" by (rule ext) (unfold tab_map_def s, rule refl)
  show "tab_ok h (t\<lparr>t_nomm := x\<rparr>) = tab_ok h t" by (simp add: tab_ok_def a k)
qed

lemma set_node_fields [simp]:
  "t_array (set_node i f t) = t_array t" "t_hmask (set_node i f t) = t_hmask t" "t_freetop (set_node i f t) = t_freetop t"
  "t_node (set_node i f t) = (t_node t)[i := f (t_node t ! i)]"
  by (simp_all add: set_node_def)

section \<open>The slot of a setter\<close>

text \<open>The key that is inserted: integers in their own form.\<close>

definition ins_key :: "TValue \<Rightarrow> TValue" where
  "ins_key k = (case int_key k of Some i \<Rightarrow> setintV i | None \<Rightarrow> k)"

lemma ins_key:
  assumes "key_ok k"
  shows "key_ok (ins_key k)" "tcanon (ins_key k) = tcanon k"
  using assms int_key_canon[OF assms] by (auto simp: ins_key_def split: option.splits)

lemma set_in_chain_eq:
  "search_node P t i = Inr (map_option Hash r) \<Longrightarrow>
   set_in_chain nk P t i k = (case r of Some j \<Rightarrow> Inr (Hash j, t) | None \<Rightarrow> nk t k)"
  by (simp add: set_in_chain_def split: option.splits)

lemma set_by_slot:
  assumes ok: "tab_ok h t" and k: "key_ok k"
  shows "set_by nk h t k =
    (case slot_of t k of Some s \<Rightarrow> Inr (s, t\<lparr>t_nomm := 0\<rparr>) | None \<Rightarrow> nk (t\<lparr>t_nomm := 0\<rparr>) (ins_key k))"
proof -
  let ?t = "t\<lparr>t_nomm := 0\<rparr>"
  have ok': "tab_ok h ?t" using ok by simp
  consider "tvisstr k" | "\<not> tvisstr k" "tvisnum k" "\<not> dbl_isnan k" | "\<not> tvisstr k" "\<not> tvisnum k" "\<not> tvisnil k"
    using k by (auto simp: key_ok_def)
  then show ?thesis
  proof cases
    case 1
    have e: "set_by nk h t k = set_in_chain nk (\<lambda>n. tvisstr (n_key n) \<and> tv_lo (n_key n) = tv_lo k) ?t (hashstr h ?t (tv_lo k)) k"
      using 1 strkey(1)[OF 1] by (simp add: set_by_def setstr_by_def Let_def)
    show ?thesis unfolding e set_in_chain_eq[OF search_str[OF ok' 1]]
      using strkey(4)[OF 1] by (simp add: slot_of_def ins_key_def split: option.splits)
  next
    case 2
    show ?thesis
    proof (cases "int_key k")
      case None
      then have "\<not> dbl_eq k (setintV (lj_num2int k))" using 2 by (auto simp: int_key_def split: if_splits)
      then have e: "set_by nk h t k = set_in_chain nk (\<lambda>n. lj_obj_equal (n_key n) k) ?t (hashkey h ?t k) k"
        using 2 by (simp add: set_by_def Let_def)
      show ?thesis unfolding e set_in_chain_eq[OF search_gen[OF ok' k]]
        using None by (simp add: slot_of_def ins_key_def split: option.splits)
    next
      case (Some i)
      then have d: "dbl_eq k (setintV (lj_num2int k))" "i = lj_num2int k" using 2 by (auto simp: int_key_def split: if_splits)
      then have e: "set_by nk h t k = (if inarray t i then Inr (Arr (unat i), ?t)
          else set_in_chain nk (\<lambda>n. tvisnum (n_key n) \<and> dbl_eq (n_key n) (setintV i)) ?t (hashnum ?t (setintV i)) (setintV i))"
        using 2 by (simp add: set_by_def setint_by_def setinth_by_def Let_def)
      have n: "node_of (t_node t) (setintV i) = node_of (t_node t) k"
        using int_key_canon[OF k, of i] Some by (intro node_of_cong) simp
      show ?thesis unfolding e set_in_chain_eq[OF search_int[OF ok']]
        using Some n by (simp add: slot_of_def ins_key_def split: option.splits)
    qed
  next
    case 3
    have e: "set_by nk h t k = set_in_chain nk (\<lambda>n. lj_obj_equal (n_key n) k) ?t (hashkey h ?t k) k"
      using 3 by (simp add: set_by_def Let_def)
    have "int_key k = None" using 3 by (simp add: int_key_def)
    then show ?thesis unfolding e set_in_chain_eq[OF search_gen[OF ok' k]]
      by (simp add: slot_of_def ins_key_def split: option.splits)
  qed
qed

lemma set_by_err:
  assumes "\<not> key_ok k"
  shows "set_by nk h t k = Inl (if tvisnil k then LJ_ERR_NILIDX else LJ_ERR_NANIDX)"
proof (cases "tvisnil k")
  case True
  then have "\<not> tvisstr k" "\<not> tvisnum k" using nil_pri pri_notnum by (auto simp: tvisnil_def tvisstr_def lj_tags)
  then show ?thesis using True by (simp add: set_by_def Let_def)
next
  case False
  then have n: "tvisnum k" "dbl_isnan k" using assms by (simp_all add: key_ok_def)
  then have "\<not> tvisstr k" using strkey(5) by blast
  then show ?thesis using n False by (simp add: set_by_def Let_def dbl_eq_def)
qed

section \<open>Live pairs\<close>

definition live :: "Node list \<Rightarrow> (TValue \<times> TValue) set" where
  "live ns = {(tcanon (n_key (ns ! i)), n_val (ns ! i)) | i.
     i < length ns \<and> \<not> tvisnil (n_key (ns ! i)) \<and> \<not> tvisnil (n_val (ns ! i))}"

definition nkeys :: "Node list \<Rightarrow> nat" where
  "nkeys ns = card {i. i < length ns \<and> \<not> tvisnil (n_key (ns ! i))}"

definition in_array :: "GCtab \<Rightarrow> TValue \<Rightarrow> bool" where
  "in_array t k \<longleftrightarrow> (\<exists>i. int_key k = Some i \<and> inarray t i)"

lemma slot_hash: "\<not> in_array t k \<Longrightarrow> slot_of t k = map_option Hash (node_of (t_node t) k)"
  by (auto simp: slot_of_def in_array_def split: option.splits)

lemma tab_map_live:
  assumes ok: "tab_ok h t" and k: "key_ok k" and a: "\<not> in_array t k"
  shows "tab_map t k = Some v \<longleftrightarrow> (tcanon k, v) \<in> live (t_node t)"
proof -
  note n = node_of_Some[OF tab_okD(1)[OF ok]]
  show ?thesis
  proof (cases "node_of (t_node t) k")
    case None
    then have "\<not> has_key (t_node t) k" by (simp add: node_of_None)
    then have "(tcanon k, v) \<notin> live (t_node t)" by (auto simp: live_def has_key_def)
    then show ?thesis using None k by (simp add: tab_map_def slot_hash[OF a])
  next
    case (Some i)
    then have i: "i < length (t_node t)" "key_at (t_node t) k i" using n by simp_all
    have u: "j = i" if "j < length (t_node t)" "\<not> tvisnil (n_key (t_node t ! j))" "tcanon (n_key (t_node t ! j)) = tcanon k" for j
      using nodes_okD(4)[OF tab_okD(1)[OF ok] that(1) i(1) that(2)] i(2) that(3) by (simp add: key_at_def)
    have "(tcanon k, v) \<in> live (t_node t) \<longleftrightarrow> \<not> tvisnil (n_val (t_node t ! i)) \<and> v = n_val (t_node t ! i)"
    proof
      assume "(tcanon k, v) \<in> live (t_node t)"
      then obtain j where j: "j < length (t_node t)" "\<not> tvisnil (n_key (t_node t ! j))" "tcanon (n_key (t_node t ! j)) = tcanon k"
        "v = n_val (t_node t ! j)" "\<not> tvisnil (n_val (t_node t ! j))" by (auto simp: live_def)
      then show "\<not> tvisnil (n_val (t_node t ! i)) \<and> v = n_val (t_node t ! i)" using u[OF j(1-3)] by simp
    next
      assume "\<not> tvisnil (n_val (t_node t ! i)) \<and> v = n_val (t_node t ! i)"
      then show "(tcanon k, v) \<in> live (t_node t)" using i unfolding live_def key_at_def by (auto intro!: exI[of _ i])
    qed
    then show ?thesis using Some k by (auto simp: tab_map_def slot_hash[OF a] slot_val_def)
  qed
qed

lemma tab_map_array:
  assumes "key_ok k" "in_array t k" "t_array t' = t_array t"
  shows "tab_map t' k = tab_map t k"
  using assms by (auto simp: tab_map_def slot_of_def in_array_def inarray_def t_asize_def slot_val_def)

lemma tab_map_same:
  assumes "tab_ok h t" "tab_ok h' t'" "t_array t' = t_array t" "live (t_node t') = live (t_node t)"
  shows "tab_map t' = tab_map t"
proof
  fix k
  have a: "in_array t' k = in_array t k" using assms(3) by (simp add: in_array_def inarray_def t_asize_def)
  show "tab_map t' k = tab_map t k"
  proof (cases "key_ok k")
    case True
    show ?thesis
    proof (cases "in_array t k")
      case False
      have "tab_map t' k = Some v \<longleftrightarrow> tab_map t k = Some v" for v
        using tab_map_live[OF assms(1) True False, of v] tab_map_live[OF assms(2) True, of v] a False assms(4) by simp
      then show ?thesis by (metis not_Some_eq)
    qed (use tab_map_array[OF True _ assms(3)] in simp)
  qed (simp add: tab_map_def)
qed

section \<open>Inserting a key\<close>

lemma find_free_Some:
  "find_free ns m = Some p \<Longrightarrow> p < m \<and> tvisnil (n_key (ns ! p)) \<and> (\<forall>i. p < i \<and> i < m \<longrightarrow> \<not> tvisnil (n_key (ns ! i)))"
  by (induction m) (auto simp: less_Suc_eq split: if_splits)

lemma find_free_None: "find_free ns m = None \<Longrightarrow> i < m \<Longrightarrow> \<not> tvisnil (n_key (ns ! i))"
  by (induction m) (auto simp: less_Suc_eq split: if_splits)

lemma rechain_none:
  assumes wf: "chains_wf (t_node t)" and no: "\<And>i. i < length (t_node t) \<Longrightarrow> tvisstr (n_key (t_node t ! i)) \<Longrightarrow> hashstr h t (tv_lo (n_key (t_node t ! i))) \<noteq> n"
  shows "f < length (t_node t) \<Longrightarrow> card ((nx (t_node t))\<^sup>* `` {f}) \<le> m \<Longrightarrow> rechain m h n f t = Inr t"
proof (induction m arbitrary: f)
  case 0
  then show ?case using reach_pos[OF wf] by simp
next
  case (Suc m)
  show ?case
  proof (cases "n_next (t_node t ! f)")
    case (Some g)
    then have s: "(f, g) \<in> nx (t_node t)" using Suc.prems(1) by (simp add: nx_step)
    have g: "g < length (t_node t)" using wf s by (auto simp: chains_wf_def)
    have "card ((nx (t_node t))\<^sup>* `` {g}) \<le> m" using reach_card[OF wf s] Suc.prems(2) by simp
    then have "rechain m h n g t = Inr t" using Suc.IH[OF g] by simp
    then show ?thesis using Some no[OF g] by (auto simp: Let_def)
  qed simp
qed

text \<open>What an insertion does to the table.\<close>

definition inserted :: "str_hash_of \<Rightarrow> GCtab \<Rightarrow> TValue \<Rightarrow> nat \<Rightarrow> GCtab \<Rightarrow> bool" where
  "inserted h t k n t' \<longleftrightarrow> tab_ok h t' \<and> t_array t' = t_array t \<and> t_hmask t' = t_hmask t \<and> n < length (t_node t') \<and>
     key_at (t_node t') k n \<and> tvisnil (n_val (t_node t' ! n)) \<and> live (t_node t') = live (t_node t) \<and>
     nkeys (t_node t') \<le> Suc (nkeys (t_node t))"

lemma insertedI:
  assumes ok: "tab_ok h t" and k: "key_ok k" "\<not> in_array t k"
    and nodes: "nodes_ok (hashkey h t) (t_node t')" and same: "t_array t' = t_array t" "t_hmask t' = t_hmask t" "length (t_node t') = length (t_node t)"
    and hm: "t_hmask t \<noteq> 0" and n: "n < length (t_node t)" "n_key (t_node t' ! n) = norm_key k" "tvisnil (n_val (t_node t' ! n))"
    and \<tau>: "\<And>i. i < length (t_node t) \<Longrightarrow> i \<noteq> n \<Longrightarrow> \<not> tvisnil (n_key (t_node t' ! i)) \<Longrightarrow>
        \<tau> i < length (t_node t) \<and> n_key (t_node t' ! i) = n_key (t_node t ! \<tau> i) \<and> n_val (t_node t' ! i) = n_val (t_node t ! \<tau> i)"
      "\<And>i. i < length (t_node t) \<Longrightarrow> \<not> tvisnil (n_val (t_node t ! i)) \<Longrightarrow>
        \<exists>j < length (t_node t). j \<noteq> n \<and> n_key (t_node t' ! j) = n_key (t_node t ! i) \<and> n_val (t_node t' ! j) = n_val (t_node t ! i)"
    and free: "t_freetop t' \<le> length (t_node t)"
      "\<And>i. t_freetop t' \<le> i \<Longrightarrow> i < length (t_node t) \<Longrightarrow> \<not> tvisnil (n_key (t_node t' ! i))"
    and keys: "{i. i < length (t_node t) \<and> \<not> tvisnil (n_key (t_node t' ! i))} \<subseteq> insert q {i. i < length (t_node t) \<and> \<not> tvisnil (n_key (t_node t ! i))}"
  shows "inserted h t k n t'"
proof -
  have H: "hashkey h t' = hashkey h t" by (rule hashkey_hmask[OF same(2)])
  have ina: "inarray t' = inarray t" using same(1) by (simp add: inarray_def t_asize_def fun_eq_iff)
  note nk = norm_key[OF k(1)]
  have ik: "int_key (norm_key k) = int_key k" by (rule int_key_cong[OF nk(1) k(1) nk(3)])
  have arr: "\<not> inarray t' j" if i: "i < length (t_node t')" "\<not> tvisnil (n_key (t_node t' ! i))" "int_key (n_key (t_node t' ! i)) = Some j" for i j
  proof (cases "i = n")
    case True
    then show ?thesis using i(3) n(2) ik k(2) ina by (auto simp: in_array_def)
  next
    case False
    then have "\<tau> i < length (t_node t)" "n_key (t_node t' ! i) = n_key (t_node t ! \<tau> i)" using \<tau>(1) i same(3) by simp_all
    then show ?thesis using tab_okD(6)[OF ok, of "\<tau> i" j] i ina by simp
  qed
  have ok': "tab_ok h t'"
    unfolding tab_ok_def H same(2,3) using nodes tab_okD(2,7,8)[OF ok] hm free arr same by (auto simp: t_asize_def)
  have "live (t_node t') = live (t_node t)"
  proof (intro equalityI subsetI)
    fix x assume "x \<in> live (t_node t')"
    then obtain i where i: "i < length (t_node t)" "\<not> tvisnil (n_key (t_node t' ! i))" "\<not> tvisnil (n_val (t_node t' ! i))"
      "x = (tcanon (n_key (t_node t' ! i)), n_val (t_node t' ! i))" using same(3) by (auto simp: live_def)
    then have "i \<noteq> n" using n(3) by auto
    then show "x \<in> live (t_node t)" using \<tau>(1)[OF i(1)] i by (auto simp: live_def)
  next
    fix x assume "x \<in> live (t_node t)"
    then obtain i where i: "i < length (t_node t)" "\<not> tvisnil (n_key (t_node t ! i))" "\<not> tvisnil (n_val (t_node t ! i))"
      "x = (tcanon (n_key (t_node t ! i)), n_val (t_node t ! i))" by (auto simp: live_def)
    obtain j where "j < length (t_node t)" "n_key (t_node t' ! j) = n_key (t_node t ! i)" "n_val (t_node t' ! j) = n_val (t_node t ! i)"
      using \<tau>(2)[OF i(1,3)] by blast
    then show "x \<in> live (t_node t')" using i same(3) unfolding live_def by (auto intro!: exI[of _ j])
  qed
  moreover have "nkeys (t_node t') \<le> Suc (nkeys (t_node t))"
  proof -
    have "card {i. i < length (t_node t) \<and> \<not> tvisnil (n_key (t_node t' ! i))} \<le> card (insert q {i. i < length (t_node t) \<and> \<not> tvisnil (n_key (t_node t ! i))})"
      by (rule card_mono[OF _ keys]) simp
    also have "\<dots> \<le> Suc (card {i. i < length (t_node t) \<and> \<not> tvisnil (n_key (t_node t ! i))})" by (rule card_insert_le_m1) simp_all
    finally show ?thesis by (simp add: nkeys_def same(3))
  qed
  ultimately show ?thesis using ok' same n nk by (simp add: inserted_def key_at_def)
qed

end
