(* ===== verification/LJ_TabNew.thy ===== *)
theory LJ_TabNew
  imports LJ_TabSet
begin

text \<open>
  Inserting a key where a node is free, storing values through slots, and putting pairs into a table.
\<close>

section \<open>Inserting where a node is free\<close>

lemma set_key_eq: "set_key n k t = (Hash n, t\<lparr>t_node := (t_node t)[n := (t_node t ! n)\<lparr>n_key := norm_key k\<rparr>]\<rparr>)"
  by (simp add: set_key_def set_node_def norm_key_def)

lemma freetop_hash [simp]: "hashkey h (t\<lparr>t_freetop := p\<rparr>) = hashkey h t" "hashkey h (t\<lparr>t_node := ns\<rparr>) = hashkey h t"
  by (rule hashkey_hmask; simp)+

lemma hashstr_hashkey: "tvisstr k \<Longrightarrow> hashstr h t (tv_lo k) = hashkey h t k"
  by (simp add: hashkey_def)

lemma hashstr_hmask: "t_hmask t = t_hmask t' \<Longrightarrow> hashstr h t = hashstr h t'"
  by (simp add: fun_eq_iff hashstr_def hashmask_def)

lemma slot_none: "slot_of t k = None \<longleftrightarrow> \<not> in_array t k \<and> \<not> has_key (t_node t) k"
  by (auto simp: slot_of_def in_array_def node_of_None split: option.splits)

lemma newkey_main:
  assumes ok: "tab_ok h t" and k: "key_ok k" "slot_of t k = None" and hm: "t_hmask t \<noteq> 0"
    and v: "tvisnil (n_val (t_node t ! hashkey h t k))"
  shows "\<exists>n t'. newkey_by nk h t k = Inr (Hash n, t') \<and> inserted h t k n t'"
proof -
  let ?n = "hashkey h t k" and ?ns = "t_node t"
  let ?t = "t\<lparr>t_node := ?ns[?n := (?ns ! ?n)\<lparr>n_key := norm_key k\<rparr>]\<rparr>"
  have H: "hash_ok (hashkey h t) (length ?ns)" by (rule hash_ok_tab[OF tab_okD(2)[OF ok]])
  then have n: "?n < length ?ns" by (simp add: hash_ok_def)
  have a: "\<not> in_array t k" "\<not> has_key ?ns k" using k(2) by (simp_all add: slot_none)
  have "newkey_by nk h t k = Inr (Hash ?n, ?t)" using v hm by (simp add: newkey_by_def Let_def set_key_eq)
  moreover have "inserted h t k ?n ?t"
  proof (rule insertedI[OF ok k(1) a(1), where \<tau> = id and q = ?n])
    show "nodes_ok (hashkey h t) (t_node ?t)" using ins_main[OF tab_okD(1)[OF ok] H k(1) a(2) v] by simp
    show "\<not> tvisnil (n_key (t_node ?t ! i))" if "t_freetop ?t \<le> i" "i < length ?ns" for i
      using that tab_okD(5)[OF ok hm, of i] norm_key(4)[OF k(1)] n by (simp add: nth_list_update)
    show "\<exists>j < length ?ns. j \<noteq> ?n \<and> n_key (t_node ?t ! j) = n_key (?ns ! i) \<and> n_val (t_node ?t ! j) = n_val (?ns ! i)"
      if "i < length ?ns" "\<not> tvisnil (n_val (?ns ! i))" for i
      using that v n by (intro exI[of _ i]) (auto simp: nth_list_update)
  qed (use hm n v tab_okD(4)[OF ok hm] in \<open>auto simp: nth_list_update\<close>)
  ultimately show ?thesis by blast
qed

lemma newkey_free:
  assumes ok: "tab_ok h t" and k: "key_ok k" "slot_of t k = None" and hm: "t_hmask t \<noteq> 0"
    and v: "\<not> tvisnil (n_val (t_node t ! hashkey h t k))" and ff: "find_free (t_node t) (t_freetop t) = Some p"
    and c: "hashkey h t (n_key (t_node t ! hashkey h t k)) = hashkey h t k"
  shows "\<exists>n t'. newkey_by nk h t k = Inr (Hash n, t') \<and> inserted h t k n t'"
proof -
  let ?n = "hashkey h t k" and ?ns = "t_node t"
  have H: "hash_ok (hashkey h t) (length ?ns)" by (rule hash_ok_tab[OF tab_okD(2)[OF ok]])
  then have n: "?n < length ?ns" by (simp add: hash_ok_def)
  have a: "\<not> in_array t k" "\<not> has_key ?ns k" using k(2) by (simp_all add: slot_none)
  have p: "p < t_freetop t" "tvisnil (n_key (?ns ! p))" "\<And>i. p < i \<Longrightarrow> i < t_freetop t \<Longrightarrow> \<not> tvisnil (n_key (?ns ! i))"
    using find_free_Some[OF ff] by blast+
  have pl: "p < length ?ns" using p(1) tab_okD(4)[OF ok hm] by simp
  have pv: "tvisnil (n_val (?ns ! p))" using nodes_okD(2)[OF tab_okD(1)[OF ok] pl p(2)] by simp
  have pn: "p \<noteq> ?n" using pv v by auto
  define ns' where "ns' = (?ns[p := (?ns ! p)\<lparr>n_next := n_next (?ns ! ?n), n_key := norm_key k\<rparr>])[?n := (?ns ! ?n)\<lparr>n_next := Some p\<rparr>]"
  let ?t = "t\<lparr>t_freetop := p, t_node := ns'\<rparr>"
  have ns': "length ns' = length ?ns" "ns' ! p = (?ns ! p)\<lparr>n_next := n_next (?ns ! ?n), n_key := norm_key k\<rparr>"
    "ns' ! ?n = (?ns ! ?n)\<lparr>n_next := Some p\<rparr>" "\<And>i. i < length ?ns \<Longrightarrow> i \<noteq> p \<Longrightarrow> i \<noteq> ?n \<Longrightarrow> ns' ! i = ?ns ! i"
    using n pl pn by (simp_all add: ns'_def)
  have "newkey_by nk h t k = Inr (Hash p, ?t)"
    using v hm ff c pn n pl by (simp add: newkey_by_def newkey_place_def Let_def set_key_eq set_node_def ns'_def list_update_swap[OF pn])
  moreover have "inserted h t k p ?t"
  proof (rule insertedI[OF ok k(1) a(1), where \<tau> = id and q = p])
    show "nodes_ok (hashkey h t) (t_node ?t)"
      using ins_free[OF tab_okD(1)[OF ok] H k(1) a(2) refl v c pl p(2) ns'] by simp
    show "\<not> tvisnil (n_key (t_node ?t ! i))" if "t_freetop ?t \<le> i" "i < length ?ns" for i
    proof -
      have "\<not> tvisnil (n_key (?ns ! i))" if "i \<noteq> p"
        using p(3)[of i] tab_okD(5)[OF ok hm, of i] \<open>t_freetop ?t \<le> i\<close> \<open>i < length ?ns\<close> that by (cases "i < t_freetop t") simp_all
      then show ?thesis using norm_key(4)[OF k(1)] ns' pn that by (cases "i = p"; cases "i = ?n") auto
    qed
    have same: "n_key (ns' ! i) = n_key (?ns ! i) \<and> n_val (ns' ! i) = n_val (?ns ! i)" if "i < length ?ns" "i \<noteq> p" for i
      using ns' that by (cases "i = ?n") auto
    show "id i < length ?ns \<and> n_key (t_node ?t ! i) = n_key (?ns ! id i) \<and> n_val (t_node ?t ! i) = n_val (?ns ! id i)"
      if "i < length ?ns" "i \<noteq> p" "\<not> tvisnil (n_key (t_node ?t ! i))" for i using same that by simp
    show "\<exists>j < length ?ns. j \<noteq> p \<and> n_key (t_node ?t ! j) = n_key (?ns ! i) \<and> n_val (t_node ?t ! j) = n_val (?ns ! i)"
      if "i < length ?ns" "\<not> tvisnil (n_val (?ns ! i))" for i
      using that pv same[of i] by (intro exI[of _ i]) auto
    show "{i. i < length ?ns \<and> \<not> tvisnil (n_key (t_node ?t ! i))} \<subseteq> insert p {i. i < length ?ns \<and> \<not> tvisnil (n_key (?ns ! i))}"
      using same by auto
  qed (use hm pl ns' pv in simp_all)
  ultimately show ?thesis by blast
qed

lemma newkey_move:
  assumes ok: "tab_ok h t" and k: "key_ok k" "slot_of t k = None" and hm: "t_hmask t \<noteq> 0"
    and v: "\<not> tvisnil (n_val (t_node t ! hashkey h t k))" and ff: "find_free (t_node t) (t_freetop t) = Some p"
    and c: "hashkey h t (n_key (t_node t ! hashkey h t k)) \<noteq> hashkey h t k"
  shows "\<exists>n t'. newkey_by nk h t k = Inr (Hash n, t') \<and> inserted h t k n t'"
proof -
  let ?n = "hashkey h t k" and ?ns = "t_node t"
  note nok = tab_okD(1)[OF ok]
  have H: "hash_ok (hashkey h t) (length ?ns)" by (rule hash_ok_tab[OF tab_okD(2)[OF ok]])
  then have n: "?n < length ?ns" by (simp add: hash_ok_def)
  have a: "\<not> in_array t k" "\<not> has_key ?ns k" using k(2) by (simp_all add: slot_none)
  have p: "p < t_freetop t" "tvisnil (n_key (?ns ! p))" "\<And>i. p < i \<Longrightarrow> i < t_freetop t \<Longrightarrow> \<not> tvisnil (n_key (?ns ! i))"
    using find_free_Some[OF ff] by blast+
  have pl: "p < length ?ns" using p(1) tab_okD(4)[OF ok hm] by simp
  have pv: "tvisnil (n_val (?ns ! p))" using nodes_okD(2)[OF nok pl p(2)] by simp
  have nk: "\<not> tvisnil (n_key (?ns ! ?n))" using nodes_okD(2)[OF nok n] v by blast
  have pn: "p \<noteq> ?n" using pv v by auto
  let ?m = "hashkey h t (n_key (?ns ! ?n))"
  have ml: "?m < length ?ns" using H by (simp add: hash_ok_def)
  have "(?m, ?n) \<in> (nx ?ns)\<^sup>+" using nodes_okD(3)[OF nok n nk] c by (simp add: rtrancl_eq_or_trancl)
  then obtain q where fp: "find_pred (length ?ns) ?ns ?n ?m = Inr q" and q: "(q, ?n) \<in> nx ?ns"
    using find_pred_from[OF nodes_okD(1)[OF nok] ml reach_length[OF nodes_okD(1)[OF nok] ml]] by blast
  have ql: "q < length ?ns" using q by (simp add: nx_step)
  have qp: "q \<noteq> p" using q nodes_okD(2)[OF nok pl p(2)] by (auto simp: nx_step)
  have qn: "q \<noteq> ?n" using reach_card[OF nodes_okD(1)[OF nok] q] by auto
  define nm where "nm = ((?ns[q := (?ns ! q)\<lparr>n_next := Some p\<rparr>])[p := ?ns ! ?n])[?n := (?ns ! ?n)\<lparr>n_next := None, n_val := setnilV (n_val (?ns ! ?n))\<rparr>]"
  define ns' where "ns' = nm[?n := (nm ! ?n)\<lparr>n_key := norm_key k\<rparr>]"
  let ?tm = "t\<lparr>t_freetop := p, t_node := nm\<rparr>"
  let ?t = "t\<lparr>t_freetop := p, t_node := ns'\<rparr>"
  have ns': "length ns' = length ?ns" "ns' ! q = (?ns ! q)\<lparr>n_next := Some p\<rparr>" "ns' ! p = ?ns ! ?n"
    "n_key (ns' ! ?n) = norm_key k" "n_next (ns' ! ?n) = None"
    "\<And>i. i < length ?ns \<Longrightarrow> i \<noteq> p \<Longrightarrow> i \<noteq> ?n \<Longrightarrow> i \<noteq> q \<Longrightarrow> ns' ! i = ?ns ! i"
    using n pl pn ql qp qn by (simp_all add: nm_def ns'_def)
  have nv: "tvisnil (n_val (ns' ! ?n))" using n by (simp add: nm_def ns'_def)
  have good: "nodes_ok (hashkey h t) ns'" by (rule ins_move[OF nok H k(1) a(2) refl v c pl p(2) q ns'])
  have key: "n_key (nm ! i) = n_key (?ns ! (if i = p then ?n else i))" if "i < length ?ns" for i
    using that n pl ql qp qn pn by (auto simp: nm_def nth_list_update)
  have lm: "length nm = length ?ns" by (simp add: nm_def)
  have re: "rechain (length nm) h ?n p ?tm = Inr ?tm"
  proof (rule rechain_none)
    show wfm: "chains_wf (t_node ?tm)" using nodes_okD(1)[OF good] unfolding ns'_def chains_wf_def nx_key length_list_update by simp
    show "p < length (t_node ?tm)" using pl lm by simp
    then show "card ((nx (t_node ?tm))\<^sup>* `` {p}) \<le> length nm" using reach_length[OF wfm] by simp
    fix i assume i: "i < length (t_node ?tm)" "tvisstr (n_key (t_node ?tm ! i))"
    define j where "j = (if i = p then ?n else i)"
    have j: "j < length ?ns" "n_key (nm ! i) = n_key (?ns ! j)" using i(1) lm n key by (simp_all add: j_def)
    have s: "tvisstr (n_key (?ns ! j))" using i(2) j(2) by simp
    have "hashkey h t (n_key (?ns ! j)) \<noteq> ?n"
    proof
      assume e: "hashkey h t (n_key (?ns ! j)) = ?n"
      then show False using nodes_okD(3)[OF nok j(1) strkey(6)[OF s]] c by simp
    qed
    moreover have "hashstr h ?tm (tv_lo (n_key (t_node ?tm ! i))) = hashkey h t (n_key (?ns ! j))"
      using j(2) hashstr_hashkey[OF s, of h ?tm] by simp
    ultimately show "hashstr h ?tm (tv_lo (n_key (t_node ?tm ! i))) \<noteq> ?n" by simp
  qed
  have place: "newkey_place h t ?n p = Inr (?n, ?tm)"
    using c fp re lm n pl ql qp qn pn unfolding newkey_place_def Let_def
    by (simp add: set_node_def nm_def list_update_swap)
  have "newkey_by nk h t k = Inr (Hash ?n, ?t)"
    using v hm ff place by (simp add: newkey_by_def Let_def set_key_eq ns'_def)
  moreover have "inserted h t k ?n ?t"
  proof (rule insertedI[OF ok k(1) a(1), where \<tau> = "\<lambda>i. if i = p then ?n else i" and q = p])
    have kv: "n_key (ns' ! i) = n_key (?ns ! (if i = p then ?n else i)) \<and> n_val (ns' ! i) = n_val (?ns ! (if i = p then ?n else i))"
      if "i < length ?ns" "i \<noteq> ?n" for i
      using that ns' by (cases "i = p"; cases "i = q") auto
    then show "(if i = p then ?n else i) < length ?ns \<and> n_key (t_node ?t ! i) = n_key (?ns ! (if i = p then ?n else i)) \<and>
        n_val (t_node ?t ! i) = n_val (?ns ! (if i = p then ?n else i))"
      if "i < length ?ns" "i \<noteq> ?n" "\<not> tvisnil (n_key (t_node ?t ! i))" for i using that n by simp
    show "\<exists>j < length ?ns. j \<noteq> ?n \<and> n_key (t_node ?t ! j) = n_key (?ns ! i) \<and> n_val (t_node ?t ! j) = n_val (?ns ! i)"
      if "i < length ?ns" "\<not> tvisnil (n_val (?ns ! i))" for i
    proof (cases "i = ?n")
      case True
      then show ?thesis using kv[OF pl pn] pl pn by (intro exI[of _ p]) simp
    next
      case False
      then show ?thesis using kv[OF that(1)] that pv by (intro exI[of _ i]) auto
    qed
    show "\<not> tvisnil (n_key (t_node ?t ! i))" if "t_freetop ?t \<le> i" "i < length ?ns" for i
    proof -
      have "\<not> tvisnil (n_key (?ns ! i))" if "i \<noteq> p"
        using p(3)[of i] tab_okD(5)[OF ok hm, of i] \<open>t_freetop ?t \<le> i\<close> \<open>i < length ?ns\<close> that by (cases "i < t_freetop t") simp_all
      then show ?thesis using norm_key(4)[OF k(1)] ns' nk kv[of i] that by (cases "i = p"; cases "i = ?n") auto
    qed
    show "{i. i < length ?ns \<and> \<not> tvisnil (n_key (t_node ?t ! i))} \<subseteq> insert p {i. i < length ?ns \<and> \<not> tvisnil (n_key (?ns ! i))}"
    proof
      fix i assume i: "i \<in> {i. i < length ?ns \<and> \<not> tvisnil (n_key (t_node ?t ! i))}"
      show "i \<in> insert p {i. i < length ?ns \<and> \<not> tvisnil (n_key (?ns ! i))}"
        using i kv[of i] nk by (cases "i = p"; cases "i = ?n") auto
    qed
  qed (use good hm n pl ns' nv in simp_all)
  ultimately show ?thesis by blast
qed

lemma nkeys_full:
  assumes ok: "tab_ok h t" and hm: "t_hmask t \<noteq> 0" and ff: "find_free (t_node t) (t_freetop t) = None"
  shows "nkeys (t_node t) = length (t_node t)"
proof -
  have "\<not> tvisnil (n_key (t_node t ! i))" if "i < length (t_node t)" for i
    using find_free_None[OF ff, of i] tab_okD(5)[OF ok hm, of i] that by (cases "i < t_freetop t") simp_all
  then have "{i. i < length (t_node t) \<and> \<not> tvisnil (n_key (t_node t ! i))} = {..<length (t_node t)}" by auto
  then show ?thesis by (simp add: nkeys_def)
qed

lemma newkey_room:
  assumes ok: "tab_ok h t" and k: "key_ok k" "slot_of t k = None" and hm: "t_hmask t \<noteq> 0" and room: "nkeys (t_node t) < length (t_node t)"
  shows "\<exists>n t'. newkey_by nk h t k = Inr (Hash n, t') \<and> inserted h t k n t'"
proof -
  obtain p where p: "find_free (t_node t) (t_freetop t) = Some p" using nkeys_full[OF ok hm] room by fastforce
  show ?thesis
    using newkey_main[OF ok k hm] newkey_free[OF ok k hm _ p] newkey_move[OF ok k hm _ p] by blast
qed

end
