(* ===== verification/LJ_TabPut.thy ===== *)
theory LJ_TabPut
  imports LJ_TabNew
begin

text \<open>
  Storing values: a store through the slot of a key is an update of the map, and a list of pairs that is put into a table
  with enough room is the map of these pairs. What the setters need of the insertion of a key is a locale, which
  \<open>lj_tab_newkey\<close> interprets.
\<close>

section \<open>Storing through a slot\<close>

lemma slot_of_bound:
  assumes "tab_ok h t" "slot_of t k = Some s"
  shows "case s of Arr i \<Rightarrow> i < t_asize t \<and> int_key k = Some (word_of_nat i) | Hash i \<Rightarrow> i < length (t_node t) \<and> key_at (t_node t) k i \<and> \<not> in_array t k"
proof (cases "in_array t k")
  case True
  then obtain i where "int_key k = Some i" "inarray t i" by (auto simp: in_array_def)
  then show ?thesis using assms(2) by (auto simp: slot_of_def inarray_def)
next
  case False
  then obtain i where "node_of (t_node t) k = Some i" "s = Hash i" using assms(2) by (auto simp: slot_hash)
  then show ?thesis using node_of_Some[OF tab_okD(1)[OF assms(1)], of k i] False by simp
qed

lemma nx_val: "nx (ns[i := n_val_update f (ns ! i)]) = nx ns"
  by (cases "i < length ns") (auto simp: nx_def nth_list_update split: if_splits)

lemma upd_val:
  assumes "i < length ns"
  shows "n_key (ns[i := n_val_update f (ns ! i)] ! j) = n_key (ns ! j)" "n_next (ns[i := n_val_update f (ns ! i)] ! j) = n_next (ns ! j)"
  using assms by (cases "j = i"; simp)+

lemma nodes_put:
  assumes ok: "nodes_ok H ns" and i: "i < length ns" "\<not> tvisnil (n_key (ns ! i))"
  shows "nodes_ok H (ns[i := n_val_update (\<lambda>_. v) (ns ! i)])"
proof (rule nodes_okI)
  let ?ns = "ns[i := n_val_update (\<lambda>_. v) (ns ! i)]"
  show "chains_wf ?ns" using nodes_okD(1)[OF ok] unfolding chains_wf_def nx_val length_list_update .
  fix j assume j: "j < length ?ns"
  then have jl: "j < length ns" by simp
  show "tvisnil (n_key (?ns ! j)) \<Longrightarrow> n_next (?ns ! j) = None \<and> tvisnil (n_val (?ns ! j)) \<and> (\<forall>x. (x, j) \<notin> nx ?ns)"
    using nodes_okD(2)[OF ok jl] i by (cases "j = i") (simp_all add: upd_val[OF i(1)] nx_val)
  show "\<not> tvisnil (n_key (?ns ! j)) \<Longrightarrow> key_ok (n_key (?ns ! j)) \<and> \<not> tvismzero (n_key (?ns ! j)) \<and>
      (H (n_key (?ns ! j)), j) \<in> (nx ?ns)\<^sup>* \<and> \<not> tvisnil (n_key (?ns ! H (n_key (?ns ! j)))) \<and>
      H (n_key (?ns ! H (n_key (?ns ! j)))) = H (n_key (?ns ! j))"
    unfolding upd_val[OF i(1)] nx_val by (rule nodes_okD(3)[OF ok jl])
next
  let ?ns = "ns[i := n_val_update (\<lambda>_. v) (ns ! i)]"
  fix a b assume "a < length ?ns" "b < length ?ns" "\<not> tvisnil (n_key (?ns ! a))" "\<not> tvisnil (n_key (?ns ! b))"
    "tcanon (n_key (?ns ! a)) = tcanon (n_key (?ns ! b))"
  then show "a = b" using nodes_okD(4)[OF ok, of a b] by (simp add: upd_val[OF i(1)])
qed

text \<open>What a store leaves as it was.\<close>

definition same_shape :: "GCtab \<Rightarrow> GCtab \<Rightarrow> bool" where
  "same_shape t t' \<longleftrightarrow> t_asize t' = t_asize t \<and> t_hmask t' = t_hmask t \<and> length (t_node t') = length (t_node t)"

lemma same_shapeD: "same_shape t t' \<Longrightarrow> in_array t' = in_array t"
  by (simp add: same_shape_def in_array_def inarray_def fun_eq_iff)

lemma same_shape_trans: "same_shape a b \<Longrightarrow> same_shape b c \<Longrightarrow> same_shape a c"
  by (simp add: same_shape_def)

lemma slot_put_shape:
  assumes ok: "tab_ok h t" and s: "slot_of t k = Some s"
  shows "same_shape t (slot_put s v t)" "nkeys (t_node (slot_put s v t)) = nkeys (t_node t)" "slot_of (slot_put s v t) = slot_of t"
proof -
  note b = slot_of_bound[OF ok s]
  show sh: "same_shape t (slot_put s v t)"
    by (cases s) (simp_all add: slot_put_def same_shape_def t_asize_def)
  have key: "n_key (t_node (slot_put s v t) ! j) = n_key (t_node t ! j)" for j
    using b by (cases s) (simp_all add: slot_put_def upd_val)
  have len: "length (t_node (slot_put s v t)) = length (t_node t)" using sh by (simp add: same_shape_def)
  show "nkeys (t_node (slot_put s v t)) = nkeys (t_node t)" by (simp add: nkeys_def key len)
  have "node_of (t_node (slot_put s v t)) = node_of (t_node t)"
    by (simp add: fun_eq_iff node_of_def key_at_def[abs_def] key len)
  moreover have "inarray (slot_put s v t) = inarray t" using sh by (simp add: same_shape_def inarray_def fun_eq_iff)
  ultimately show "slot_of (slot_put s v t) = slot_of t" by (simp only: slot_of_def[abs_def])
qed

lemma slot_val_put:
  assumes ok: "tab_ok h t" and s: "slot_of t k = Some s" and k: "key_ok k" "key_ok k'" and s': "slot_of t k' = Some s'"
  shows "slot_val (slot_put s v t) s' = (if tcanon k' = tcanon k then v else slot_val t s')"
proof (cases "tcanon k' = tcanon k")
  case True
  then have "s' = s" using slot_of_cong[OF k(2,1) True, of t] s s' by simp
  then show ?thesis using True slot_of_bound[OF ok s]
    by (cases s) (simp_all add: slot_put_def slot_val_def t_asize_def)
next
  case False
  have "s' \<noteq> s"
  proof
    assume e: "s' = s"
    show False
    proof (cases s)
      case (Arr i)
      then have "int_key k = Some (word_of_nat i)" "int_key k' = Some (word_of_nat i)"
        using slot_of_bound[OF ok s] slot_of_bound[OF ok s'] e by simp_all
      then have "tcanon k = setintV (word_of_nat i)" "tcanon k' = setintV (word_of_nat i)"
        using int_key_canon k by blast+
      then show False using False by simp
    next
      case (Hash i)
      then show False using slot_of_bound[OF ok s] slot_of_bound[OF ok s'] e False by (simp add: key_at_def)
    qed
  qed
  then show ?thesis using False
    by (cases s; cases s') (auto simp: slot_put_def slot_val_def)
qed

lemma slot_put_ok:
  assumes ok: "tab_ok h t" and s: "slot_of t k = Some s" and k: "key_ok k"
  shows "tab_ok h (slot_put s v t)" "tab_map (slot_put s v t) = map_put (tab_map t) k v"
proof -
  let ?t = "slot_put s v t"
  note b = slot_of_bound[OF ok s]
  note sh = slot_put_shape[OF ok s, of v]
  have H: "hashkey h ?t = hashkey h t" using sh(1) by (intro hashkey_hmask) (simp add: same_shape_def)
  have ina: "inarray ?t = inarray t" using sh(1) by (simp add: same_shape_def inarray_def fun_eq_iff)
  have key: "n_key (t_node ?t ! j) = n_key (t_node t ! j)" for j
    using b by (cases s) (simp_all add: slot_put_def upd_val)
  have "nodes_ok (hashkey h t) (t_node ?t)"
    using b tab_okD(1)[OF ok] nodes_put[OF tab_okD(1)[OF ok]] by (cases s) (simp_all add: slot_put_def key_at_def)
  moreover have e: "t_freetop ?t = t_freetop t" by (cases s) (simp_all add: slot_put_def)
  have e': "t_asize ?t = t_asize t" "t_hmask ?t = t_hmask t" "length (t_node ?t) = length (t_node t)"
    using sh(1) by (simp_all add: same_shape_def)
  ultimately show "tab_ok h ?t"
    using ok unfolding tab_ok_def H ina key e e' by blast
  show "tab_map ?t = map_put (tab_map t) k v"
  proof
    fix k'
    show "tab_map ?t k' = map_put (tab_map t) k v k'"
    proof (cases "key_ok k'")
      case True
      show ?thesis
      proof (cases "slot_of t k'")
        case None
        then have "tcanon k' \<noteq> tcanon k" using slot_of_cong[OF True k, of t] s by auto
        then show ?thesis using None True by (simp add: tab_map_def map_put_def sh(3))
      next
        case (Some s')
        show ?thesis using slot_val_put[OF ok s k True Some, of v] Some True by (simp add: tab_map_def map_put_def sh(3))
      qed
    qed (simp add: tab_map_def map_put_def)
  qed
qed

section \<open>The insertion of a key as an interface\<close>

lemma inserted_slot:
  assumes "key_ok k" "\<not> in_array t k" "inserted h t k n t'" "tab_ok h t"
  shows "tab_ok h t'" "slot_of t' k = Some (Hash n)" "same_shape t t'"
proof -
  have i: "tab_ok h t'" "t_array t' = t_array t" "t_hmask t' = t_hmask t" "n < length (t_node t')" "key_at (t_node t') k n"
    using assms(3) by (simp_all add: inserted_def)
  show "tab_ok h t'" by (rule i(1))
  have "\<not> in_array t' k" using assms(2) i(2) by (simp add: in_array_def inarray_def t_asize_def)
  then show "slot_of t' k = Some (Hash n)" using node_of_Some[OF tab_okD(1)[OF i(1)], of k n] i(4,5) by (simp add: slot_hash)
  show "same_shape t t'" using i tab_okD(2)[OF i(1)] tab_okD(2)[OF assms(4)] by (simp add: same_shape_def t_asize_def)
qed

lemma inserted_map: "tab_ok h t \<Longrightarrow> inserted h t k n t' \<Longrightarrow> tab_map t' = tab_map t"
  by (rule tab_map_same[of h t h t']) (simp_all add: inserted_def)

locale insertion =
  fixes h :: str_hash_of and nk :: newkey_fun
  assumes room: "tab_ok h t \<Longrightarrow> key_ok k \<Longrightarrow> slot_of t k = None \<Longrightarrow> t_hmask t \<noteq> 0 \<Longrightarrow> nkeys (t_node t) < length (t_node t) \<Longrightarrow>
    \<exists>n t'. nk t k = Inr (Hash n, t') \<and> inserted h t k n t'"

lemma tab_ok_nomm: "tab_ok h (t\<lparr>t_nomm := x\<rparr>) = tab_ok h t" "tab_map (t\<lparr>t_nomm := x\<rparr>) = tab_map t"
  "same_shape (t\<lparr>t_nomm := x\<rparr>) = same_shape t" "in_array (t\<lparr>t_nomm := x\<rparr>) = in_array t"
  by (simp_all add: same_shape_def[abs_def] in_array_def[abs_def])

text \<open>What a store of a pair does to the table.\<close>

definition stored :: "str_hash_of \<Rightarrow> GCtab \<Rightarrow> TValue \<Rightarrow> TValue \<Rightarrow> GCtab \<Rightarrow> bool" where
  "stored h t k v t' \<longleftrightarrow> tab_ok h t' \<and> tab_map t' = map_put (tab_map t) k v \<and> same_shape t t' \<and>
     nkeys (t_node t') \<le> nkeys (t_node t) + (if in_array t k then 0 else 1)"

lemma map_put_cong: "tcanon k = tcanon k' \<Longrightarrow> map_put m k v = map_put m k' v"
  by (simp add: map_put_def fun_eq_iff)

lemma in_array_cong: "key_ok k \<Longrightarrow> key_ok k' \<Longrightarrow> tcanon k = tcanon k' \<Longrightarrow> in_array t k = in_array t k'"
  using int_key_cong[of k k'] by (simp add: in_array_def)

lemma stored_slot:
  assumes "tab_ok h t" "slot_of t k = Some s" "key_ok k"
  shows "stored h t k v (slot_put s v t)"
  using slot_put_ok[OF assms, of v] slot_put_shape[OF assms(1,2), of v] by (simp add: stored_def)

lemma stored_inserted:
  assumes ok: "tab_ok h t" and k: "key_ok k" "\<not> in_array t k" and i: "inserted h t k n t'"
  shows "stored h t k v (slot_put (Hash n) v t')"
proof -
  note s = inserted_slot[OF k i ok]
  note p = slot_put_ok[OF s(1,2) k(1), of v] slot_put_shape[OF s(1,2), of v]
  have "nkeys (t_node t') \<le> Suc (nkeys (t_node t))" using i by (simp add: inserted_def)
  then show ?thesis using p inserted_map[OF ok i] same_shape_trans[OF s(3) p(3)] k(2) by (simp add: stored_def)
qed

lemma stored_cong:
  assumes "key_ok k" "key_ok k'" "tcanon k = tcanon k'"
  shows "stored h t k v t' = stored h t k' v t'"
  unfolding stored_def map_put_cong[OF assms(3)] in_array_cong[OF assms] ..

context insertion
begin

lemma put_room:
  assumes ok: "tab_ok h t" and k: "key_ok k"
    and r: "\<not> in_array t k \<Longrightarrow> t_hmask t \<noteq> 0 \<and> nkeys (t_node t) < length (t_node t)"
  shows "\<exists>t'. put_by nk h t k v = Inr t' \<and> stored h t k v t'"
proof -
  let ?t = "t\<lparr>t_nomm := 0\<rparr>"
  have ok': "tab_ok h ?t" using ok by simp
  have st: "stored h ?t k v t' = stored h t k v t'" for t' by (simp add: stored_def tab_ok_nomm)
  show ?thesis
  proof (cases "slot_of t k")
    case (Some s)
    then show ?thesis
      using stored_slot[OF ok' _ k, of s v] by (simp add: put_by_def set_by_slot[OF ok k] st)
  next
    case None
    then have a: "\<not> in_array t k" by (simp add: slot_none)
    note ik = ins_key[OF k]
    have "slot_of ?t (ins_key k) = None" using slot_of_cong[OF ik(1) k ik(2), of ?t] None by simp
    then obtain n t' where n: "nk ?t (ins_key k) = Inr (Hash n, t')" "inserted h ?t (ins_key k) n t'"
      using room[OF ok' ik(1)] r[OF a] by fastforce
    have "\<not> in_array ?t (ins_key k)" using a in_array_cong[OF ik(1) k ik(2)] by (simp add: tab_ok_nomm)
    then have "stored h t k v (slot_put (Hash n) v t')"
      using stored_inserted[OF ok' ik(1) _ n(2), of v] stored_cong[OF ik(1) k ik(2)] st by simp
    then show ?thesis using n None by (simp add: put_by_def set_by_slot[OF ok k])
  qed
qed

lemma setinth_room:
  assumes ok: "tab_ok h t" and a: "\<not> inarray t i" and r: "t_hmask t \<noteq> 0" "nkeys (t_node t) < length (t_node t)"
  shows "\<exists>s t'. setinth_by nk t i = Inr (s, t') \<and> stored h t (setintV i) v (slot_put s v t')"
proof -
  have a': "\<not> in_array t (setintV i)" using a by (simp add: in_array_def)
  have e: "setinth_by nk t i = (case slot_of t (setintV i) of Some s \<Rightarrow> Inr (s, t) | None \<Rightarrow> nk t (setintV i))"
    unfolding setinth_by_def Let_def set_in_chain_eq[OF search_int[OF ok]] slot_hash[OF a'] by (simp split: option.splits)
  show ?thesis
  proof (cases "slot_of t (setintV i)")
    case (Some s)
    then show ?thesis using stored_slot[OF ok Some, of v] by (simp add: e)
  next
    case None
    then obtain n t' where n: "nk t (setintV i) = Inr (Hash n, t')" "inserted h t (setintV i) n t'"
      using room[OF ok _ None r] by auto
    then show ?thesis using stored_inserted[OF ok _ a' n(2), of v] None by (simp add: e)
  qed
qed

end

lemma insertion_step: "insertion h (newkey_by nk h)"
  by unfold_locales (rule newkey_room)

interpretation tab: insertion h "lj_tab_newkey (Suc n) h" for h n
  using insertion_step[of h "lj_tab_newkey n h"] by (simp add: insertion_def)

end
