(* ===== verification/LJ_TabResize.thy ===== *)
theory LJ_TabResize
  imports LJ_TabPut
begin

text \<open>
  Resizing: the pairs of the parts that shrink and of the old hash part are put into the new parts, which have room for
  them, and the table stands for the same map as before.
\<close>

section \<open>Lists of pairs\<close>

definition put_pairs :: "(TValue \<Rightarrow> TValue option) \<Rightarrow> (TValue \<times> TValue) list \<Rightarrow> TValue \<Rightarrow> TValue option" where
  "put_pairs m ps = fold (\<lambda>(k, v) m. map_put m k v) ps m"

lemma put_pairs_simps [simp]:
  "put_pairs m [] = m" "put_pairs m ((k, v) # ps) = put_pairs (map_put m k v) ps"
  by (simp_all add: put_pairs_def)

lemma put_pairs_out:
  "(\<And>k v. (k, v) \<in> set ps \<Longrightarrow> tcanon k \<noteq> tcanon k') \<Longrightarrow> put_pairs m ps k' = m k'"
proof (induction ps arbitrary: m)
  case (Cons p ps)
  obtain k v where p: "p = (k, v)" by (cases p)
  have "tcanon k \<noteq> tcanon k'" using Cons.prems[of k v] p by simp
  moreover have "put_pairs (map_put m k v) ps k' = map_put m k v k'"
  proof (rule Cons.IH)
    fix a b assume "(a, b) \<in> set ps"
    then show "tcanon a \<noteq> tcanon k'" using Cons.prems[of a b] by simp
  qed
  ultimately show ?case using p by (simp add: map_put_def)
qed simp

lemma put_pairs_in:
  "distinct (map (tcanon \<circ> fst) ps) \<Longrightarrow> (k, v) \<in> set ps \<Longrightarrow> \<not> tvisnil v \<Longrightarrow> key_ok k' \<Longrightarrow> tcanon k' = tcanon k \<Longrightarrow>
   put_pairs m ps k' = Some v"
proof (induction ps arbitrary: m)
  case (Cons p ps)
  obtain a b where p: "p = (a, b)" by (cases p)
  show ?case
  proof (cases "(k, v) \<in> set ps")
    case True
    then show ?thesis using Cons p by simp
  next
    case False
    then have e: "a = k" "b = v" using Cons.prems(2) p by auto
    have "tcanon x \<noteq> tcanon k'" if xy: "(x, y) \<in> set ps" for x y
    proof -
      have "(tcanon \<circ> fst) (x, y) \<in> (tcanon \<circ> fst) ` set ps" using xy by (rule imageI)
      moreover have "(tcanon \<circ> fst) p \<notin> (tcanon \<circ> fst) ` set ps" using Cons.prems(1) by simp
      ultimately have "(tcanon \<circ> fst) (x, y) \<noteq> (tcanon \<circ> fst) p" by metis
      then show ?thesis using e p Cons.prems(5) by simp
    qed
    then have "put_pairs (map_put m k v) ps k' = map_put m k v k'" by (rule put_pairs_out)
    then show ?thesis using p e Cons.prems by (simp add: map_put_def)
  qed
qed simp

definition node_pairs :: "Node list \<Rightarrow> (TValue \<times> TValue) list" where
  "node_pairs ns = map (\<lambda>n. (n_key n, n_val n)) (filter (\<lambda>n. \<not> tvisnil (n_val n)) ns)"

fun array_pairs :: "nat \<Rightarrow> TValue list \<Rightarrow> (TValue \<times> TValue) list" where
  "array_pairs i [] = []"
| "array_pairs i (v # vs) = (if tvisnil v then array_pairs (i + 1) vs else (setintV (word_of_nat i), v) # array_pairs (i + 1) vs)"

lemma node_pairs_simps [simp]:
  "node_pairs [] = []"
  "node_pairs (n # ns) = (if tvisnil (n_val n) then node_pairs ns else (n_key n, n_val n) # node_pairs ns)"
  by (simp_all add: node_pairs_def)

lemma array_pairs_mem:
  "(k, v) \<in> set (array_pairs i vs) \<longleftrightarrow> (\<exists>j < length vs. \<not> tvisnil (vs ! j) \<and> v = vs ! j \<and> k = setintV (word_of_nat (i + j)))"
proof (induction vs arbitrary: i)
  case (Cons a vs)
  show ?case
  proof
    assume "(k, v) \<in> set (array_pairs i (a # vs))"
    then consider "\<not> tvisnil a" "k = setintV (word_of_nat i)" "v = a" | "(k, v) \<in> set (array_pairs (i + 1) vs)"
      by (auto split: if_splits)
    then show "\<exists>j < length (a # vs). \<not> tvisnil ((a # vs) ! j) \<and> v = (a # vs) ! j \<and> k = setintV (word_of_nat (i + j))"
    proof cases
      case 1
      then show ?thesis by (intro exI[of _ 0]) simp
    next
      case 2
      then obtain j where "j < length vs" "\<not> tvisnil (vs ! j)" "v = vs ! j" "k = setintV (word_of_nat (i + 1 + j))"
        using Cons.IH[of "i + 1"] by blast
      then show ?thesis by (intro exI[of _ "Suc j"]) (simp add: add.assoc)
    qed
  next
    assume "\<exists>j < length (a # vs). \<not> tvisnil ((a # vs) ! j) \<and> v = (a # vs) ! j \<and> k = setintV (word_of_nat (i + j))"
    then obtain j where j: "j < length (a # vs)" "\<not> tvisnil ((a # vs) ! j)" "v = (a # vs) ! j" "k = setintV (word_of_nat (i + j))"
      by blast
    show "(k, v) \<in> set (array_pairs i (a # vs))"
    proof (cases j)
      case 0
      then show ?thesis using j by simp
    next
      case (Suc l)
      then have "(k, v) \<in> set (array_pairs (i + 1) vs)"
        using j Cons.IH[of "i + 1"] by (auto intro!: exI[of _ l] simp: add.assoc)
      then show ?thesis by simp
    qed
  qed
qed simp

lemma unat_of_nat32: "i < 2 ^ 32 \<Longrightarrow> unat (word_of_nat i :: u32) = i"
  by (simp add: unat_of_nat take_bit_eq_mod)

lemma word_nat_inj: "i < 2 ^ 32 \<Longrightarrow> j < 2 ^ 32 \<Longrightarrow> (word_of_nat i :: u32) = word_of_nat j \<longleftrightarrow> i = j"
  by (metis unat_of_nat32)

lemma array_pairs_distinct:
  "i + length vs \<le> 2 ^ 32 \<Longrightarrow> distinct (map (tcanon \<circ> fst) (array_pairs i vs))"
proof (induction vs arbitrary: i)
  case (Cons a vs)
  have "setintV (word_of_nat i) \<notin> (tcanon \<circ> fst) ` set (array_pairs (i + 1) vs)"
  proof
    assume "setintV (word_of_nat i) \<in> (tcanon \<circ> fst) ` set (array_pairs (i + 1) vs)"
    then obtain k v where "(k, v) \<in> set (array_pairs (i + 1) vs)" "tcanon k = setintV (word_of_nat i)" by auto
    then obtain j where "j < length vs" "(word_of_nat i :: u32) = word_of_nat (i + 1 + j)"
      by (auto simp: array_pairs_mem)
    then show False using word_nat_inj[of i "i + 1 + j"] Cons.prems by simp
  qed
  then show ?case using Cons by simp
qed simp

lemma node_pairs_mem: "(k, v) \<in> set (node_pairs ns) \<longleftrightarrow> (\<exists>i < length ns. \<not> tvisnil (n_val (ns ! i)) \<and> k = n_key (ns ! i) \<and> v = n_val (ns ! i))"
  by (auto simp: node_pairs_def in_set_conv_nth)

lemma node_val_key: "nodes_ok H ns \<Longrightarrow> i < length ns \<Longrightarrow> \<not> tvisnil (n_val (ns ! i)) \<Longrightarrow> \<not> tvisnil (n_key (ns ! i))"
  using nodes_okD(2) by blast

lemma node_pairs_live:
  assumes "nodes_ok H ns"
  shows "(c, v) \<in> live ns \<longleftrightarrow> (\<exists>k. (k, v) \<in> set (node_pairs ns) \<and> tcanon k = c)"
  using node_val_key[OF assms] unfolding live_def node_pairs_mem by blast

lemma node_pairs_ok: "nodes_ok H ns \<Longrightarrow> (k, v) \<in> set (node_pairs ns) \<Longrightarrow> key_ok k \<and> \<not> tvisnil v"
  using node_val_key[of H ns] nodes_okD(3)[of H ns] unfolding node_pairs_mem by blast

lemma node_pairs_distinct:
  assumes "nodes_ok H ns"
  shows "distinct (map (tcanon \<circ> fst) (node_pairs ns))"
proof -
  let ?P = "\<lambda>n. \<not> tvisnil (n_val n)"
  have "distinct (map (tcanon \<circ> n_key) (filter ?P ns))"
  proof -
    have "map (tcanon \<circ> n_key) (filter ?P ns) = map (\<lambda>i. tcanon (n_key (ns ! i))) (filter (\<lambda>i. ?P (ns ! i)) [0..<length ns])"
      by (subst (1) map_nth[of ns, symmetric]) (simp only: filter_map map_map o_def)
    moreover have "inj_on (\<lambda>i. tcanon (n_key (ns ! i))) (set (filter (\<lambda>i. ?P (ns ! i)) [0..<length ns]))"
    proof (rule inj_onI)
      fix i j assume "i \<in> set (filter (\<lambda>i. ?P (ns ! i)) [0..<length ns])" "j \<in> set (filter (\<lambda>i. ?P (ns ! i)) [0..<length ns])"
        and e: "tcanon (n_key (ns ! i)) = tcanon (n_key (ns ! j))"
      then have "i < length ns" "j < length ns" "?P (ns ! i)" "?P (ns ! j)" by simp_all
      then show "i = j" using nodes_okD(4)[OF assms _ _ _ _ e] node_val_key[OF assms] by blast
    qed
    ultimately show ?thesis by (simp add: distinct_map)
  qed
  then show ?thesis by (simp add: node_pairs_def o_def)
qed

section \<open>Putting the pairs back\<close>

text \<open>The pairs that need a node.\<close>

definition outside :: "GCtab \<Rightarrow> (TValue \<times> TValue) list \<Rightarrow> nat" where
  "outside t ps = length (filter (\<lambda>p. \<not> in_array t (fst p)) ps)"

lemma outside_simps [simp]:
  "outside t [] = 0" "outside t ((k, v) # ps) = (if in_array t k then 0 else 1) + outside t ps"
  by (simp_all add: outside_def)

lemma outside_shape: "same_shape t t' \<Longrightarrow> outside t' ps = outside t ps"
  by (simp add: outside_def same_shapeD)

definition filled :: "str_hash_of \<Rightarrow> GCtab \<Rightarrow> (TValue \<times> TValue) list \<Rightarrow> GCtab \<Rightarrow> bool" where
  "filled h t ps t' \<longleftrightarrow> tab_ok h t' \<and> tab_map t' = put_pairs (tab_map t) ps \<and> same_shape t t' \<and>
     nkeys (t_node t') \<le> nkeys (t_node t) + outside t ps"

definition roomy :: "GCtab \<Rightarrow> (TValue \<times> TValue) list \<Rightarrow> bool" where
  "roomy t ps \<longleftrightarrow> (outside t ps \<noteq> 0 \<longrightarrow> t_hmask t \<noteq> 0 \<and> nkeys (t_node t) + outside t ps \<le> length (t_node t))"

lemma roomy_step:
  assumes "roomy t ((k, v) # ps)" "stored h t k v t'"
  shows "roomy t' ps" "filled h t' ps u \<Longrightarrow> filled h t ((k, v) # ps) u"
proof -
  have s: "same_shape t t'" "nkeys (t_node t') \<le> nkeys (t_node t) + (if in_array t k then 0 else 1)"
    "tab_map t' = map_put (tab_map t) k v" using assms(2) by (simp_all add: stored_def)
  show "roomy t' ps" using assms(1) s outside_shape[OF s(1), of ps]
    by (auto simp: roomy_def same_shape_def split: if_splits)
  assume "filled h t' ps u"
  then show "filled h t ((k, v) # ps) u"
    using s outside_shape[OF s(1), of ps] same_shape_trans[OF s(1), of u] by (auto simp: filled_def)
qed

lemma filled_refl: "tab_ok h t \<Longrightarrow> filled h t [] t"
  by (simp add: filled_def same_shape_def)

context insertion
begin

lemma reinsert_nodes_ok:
  "tab_ok h t \<Longrightarrow> (\<And>k v. (k, v) \<in> set (node_pairs ns) \<Longrightarrow> key_ok k) \<Longrightarrow> roomy t (node_pairs ns) \<Longrightarrow>
   \<exists>t'. reinsert_nodes nk h t ns = Inr t' \<and> filled h t (node_pairs ns) t'"
proof (induction ns arbitrary: t)
  case Nil
  then show ?case using filled_refl by simp
next
  case (Cons n ns)
  show ?case
  proof (cases "tvisnil (n_val n)")
    case True
    then show ?thesis using Cons by simp
  next
    case False
    have k: "key_ok (n_key n)" using Cons.prems(2) False by auto
    have "\<not> in_array t (n_key n) \<Longrightarrow> t_hmask t \<noteq> 0 \<and> nkeys (t_node t) < length (t_node t)"
      using Cons.prems(3) False by (simp add: roomy_def)
    from put_room[OF Cons.prems(1) k this] obtain t1 where t1: "put_by nk h t (n_key n) (n_val n) = Inr t1" "stored h t (n_key n) (n_val n) t1"
      by blast
    have r: "roomy t ((n_key n, n_val n) # node_pairs ns)" using Cons.prems(3) False by simp
    have "tab_ok h t1" using t1(2) by (simp add: stored_def)
    then obtain t' where "reinsert_nodes nk h t1 ns = Inr t'" "filled h t1 (node_pairs ns) t'"
      using Cons.IH[of t1] Cons.prems(2) roomy_step(1)[OF r t1(2)] by fastforce
    then show ?thesis using t1(1) False roomy_step(2)[OF r t1(2)] by simp
  qed
qed

lemma reinsert_array_ok:
  "tab_ok h t \<Longrightarrow> t_asize t \<le> i \<Longrightarrow> i + length vs \<le> 2 ^ 32 \<Longrightarrow> roomy t (array_pairs i vs) \<Longrightarrow>
   \<exists>t'. reinsert_array nk t i vs = Inr t' \<and> filled h t (array_pairs i vs) t'"
proof (induction vs arbitrary: t i)
  case Nil
  then show ?case using filled_refl by simp
next
  case (Cons v vs)
  show ?case
  proof (cases "tvisnil v")
    case True
    then show ?thesis using Cons by simp
  next
    case False
    let ?k = "setintV (word_of_nat i)"
    have a: "\<not> inarray t (word_of_nat i)" using Cons.prems by (simp add: inarray_def unat_of_nat32)
    then have "\<not> in_array t ?k" by (simp add: in_array_def)
    then have "t_hmask t \<noteq> 0" "nkeys (t_node t) < length (t_node t)"
      using Cons.prems(4) False by (simp_all add: roomy_def)
    from setinth_room[OF Cons.prems(1) a this, of v] obtain s t1 where t1: "setinth_by nk t (word_of_nat i) = Inr (s, t1)"
      "stored h t ?k v (slot_put s v t1)" by blast
    have r: "roomy t ((?k, v) # array_pairs (i + 1) vs)" using Cons.prems(4) False by simp
    have t: "tab_ok h (slot_put s v t1)" "t_asize (slot_put s v t1) = t_asize t" using t1(2) by (simp_all add: stored_def same_shape_def)
    obtain t' where "reinsert_array nk (slot_put s v t1) (i + 1) vs = Inr t'" "filled h (slot_put s v t1) (array_pairs (i + 1) vs) t'"
      using Cons.IH[OF t(1), of "i + 1"] Cons.prems(2,3) t(2) roomy_step(1)[OF r t1(2)] by auto
    then show ?thesis using t1(1) False roomy_step(2)[OF r t1(2)] by simp
  qed
qed

end

section \<open>Fresh hash parts\<close>

lemma chains_fresh:
  assumes "\<And>i. i < length ns \<Longrightarrow> n_next (ns ! i) = None"
  shows "nx ns = {}" "chains_wf ns"
proof -
  show "nx ns = {}" using assms by (auto simp: nx_def)
  then show "chains_wf ns" by (simp add: chains_wf_def)
qed

definition empty_nodes :: "Node list \<Rightarrow> bool" where
  "empty_nodes ns \<longleftrightarrow> (\<forall>n \<in> set ns. n_next n = None \<and> tvisnil (n_key n) \<and> tvisnil (n_val n))"

lemma empty_nodesD: "empty_nodes ns \<Longrightarrow> i < length ns \<Longrightarrow> n_next (ns ! i) = None \<and> tvisnil (n_key (ns ! i)) \<and> tvisnil (n_val (ns ! i))"
  by (simp add: empty_nodes_def)

lemma empty_tab_ok:
  assumes e: "empty_nodes (t_node t)" and b: "length (t_node t) = 2 ^ b" "b \<le> LJ_MAX_HBITS" "unat (t_hmask t) + 1 = 2 ^ b"
    and f: "t_freetop t = (if b = 0 then 0 else 2 ^ b)" and a: "t_asize t \<le> LJ_MAX_ASIZE"
  shows "tab_ok h t" "nkeys (t_node t) = 0" "key_ok k \<Longrightarrow> \<not> in_array t k \<Longrightarrow> tab_map t k = None"
proof -
  note d = empty_nodesD[OF e]
  note c = chains_fresh[of "t_node t"]
  have "nodes_ok (hashkey h t) (t_node t)" using c d by (intro nodes_okI) simp_all
  moreover have "t_hmask t = 0 \<longleftrightarrow> b = 0" using b(3) by (cases b) (auto simp: unat_eq_0)
  ultimately show "tab_ok h t"
    using b f a d unfolding tab_ok_def by (auto simp: b(3)[symmetric])
  show "nkeys (t_node t) = 0" using d by (simp add: nkeys_def)
  show "tab_map t k = None" if "key_ok k" "\<not> in_array t k"
  proof -
    have "\<not> has_key (t_node t) k" using d by (auto simp: has_key_def)
    then show ?thesis using that by (simp add: tab_map_def slot_hash node_of_None[symmetric])
  qed
qed

lemma hbits_mask:
  assumes "b \<le> LJ_MAX_HBITS"
  shows "unat (word_of_nat (2 ^ b - 1) :: u32) + 1 = 2 ^ b"
proof -
  have "(2::nat) ^ b \<le> 2 ^ 26" using assms by (intro power_increasing) (simp_all add: LJ_MAX_HBITS_def)
  then show ?thesis by (subst unat_of_nat32) auto
qed

text \<open>The table between the two loops of a resize: the new parts, with what was in the part of the array that is kept.\<close>

lemma new_hpart:
  assumes "hbits \<le> LJ_MAX_HBITS"
  obtains t' where "(if hbits \<noteq> 0 then (case newhpart t hbits of Inl e \<Rightarrow> Inl e | Inr t \<Rightarrow> Inr (clearhpart t)) else Inr (no_hpart t)) = Inr t'"
    "empty_nodes (t_node t')" "length (t_node t') = 2 ^ hbits" "unat (t_hmask t') + 1 = 2 ^ hbits"
    "t_freetop t' = (if hbits = 0 then 0 else 2 ^ hbits)" "t_array t' = t_array t"
proof (cases "hbits = 0")
  case True
  show ?thesis by (rule that[of "no_hpart t"]) (simp_all add: True no_hpart_def empty_nodes_def nilnode_def)
next
  case False
  show ?thesis
    by (rule that[of "clearhpart (t\<lparr>t_node := replicate (2 ^ hbits) \<lparr>n_val = 0, n_key = 0, n_next = None\<rparr>, t_freetop := 2 ^ hbits,
               t_hmask := word_of_nat (2 ^ hbits - 1)\<rparr>)"])
      (use False assms hbits_mask[OF assms] in \<open>simp_all add: newhpart_def clearhpart_def empty_nodes_def Let_def\<close>)
qed

section \<open>Resizing\<close>

definition in_size :: "nat \<Rightarrow> TValue \<Rightarrow> bool" where
  "in_size n k \<longleftrightarrow> (\<exists>i. int_key k = Some i \<and> unat i < n)"

lemma in_array_size: "in_array t k \<longleftrightarrow> in_size (t_asize t) k"
  by (simp add: in_array_def in_size_def inarray_def)

text \<open>The pairs that have to go to the hash part beside an array part of a given size.\<close>

definition hash_need :: "GCtab \<Rightarrow> nat \<Rightarrow> nat" where
  "hash_need t n = length (array_pairs n (drop n (t_array t))) + length (filter (\<lambda>p. \<not> in_size n (fst p)) (node_pairs (t_node t)))"

text \<open>The pairs of the old table in a new array part and a list of pairs for the hash part.\<close>

lemma resize_map:
  assumes ok: "tab_ok h t" and f: "tab_ok h f" "\<And>k. key_ok k \<Longrightarrow> \<not> in_array f k \<Longrightarrow> tab_map f k = None" "t_asize f = n"
    and keep: "\<And>i. i < n \<Longrightarrow> i < t_asize t \<Longrightarrow> t_array f ! i = t_array t ! i" and grown: "\<And>i. i < n \<Longrightarrow> t_asize t \<le> i \<Longrightarrow> tvisnil (t_array f ! i)"
  shows "put_pairs (put_pairs (tab_map f) (array_pairs n (drop n (t_array t)))) (node_pairs (t_node t)) = tab_map t"
proof
  fix k
  let ?P = "array_pairs n (drop n (t_array t))" and ?Q = "node_pairs (t_node t)"
  note nok = tab_okD(1)[OF ok]
  have asz: "t_asize t < 2 ^ 32" using tab_okD(7)[OF ok] by (simp add: LJ_MAX_ASIZE_def LJ_MAX_ABITS_def)
  have P: "(a, v) \<in> set ?P \<Longrightarrow> \<exists>i. n \<le> unat i \<and> unat i < t_asize t \<and> a = setintV i \<and> v = t_array t ! unat i \<and> \<not> tvisnil v" for a v
  proof -
    assume "(a, v) \<in> set ?P"
    then obtain j where j: "j < length (drop n (t_array t))" "\<not> tvisnil (drop n (t_array t) ! j)" "v = drop n (t_array t) ! j"
      "a = setintV (word_of_nat (n + j))"
      unfolding array_pairs_mem by blast
    define w :: u32 where "w = word_of_nat (n + j)"
    have "n + j < t_asize t" using j(1) by (simp add: t_asize_def)
    moreover have "unat w = n + j" unfolding w_def using calculation asz by (intro unat_of_nat32) simp
    moreover have "v = t_array t ! (n + j)" "a = setintV w" using j calculation unfolding w_def by (simp_all add: t_asize_def)
    ultimately show "\<exists>i. n \<le> unat i \<and> unat i < t_asize t \<and> a = setintV i \<and> v = t_array t ! unat i \<and> \<not> tvisnil v"
      using j(2,3) by (intro exI[of _ w]) simp
  qed
  have arr: "tab_map u x = (if tvisnil (t_array u ! unat i) then None else Some (t_array u ! unat i))"
    if "key_ok x" "int_key x = Some i" "unat i < t_asize u" for u x i
    using that by (simp add: tab_map_def slot_of_def inarray_def slot_val_def)
  show "put_pairs (put_pairs (tab_map f) ?P) ?Q k = tab_map t k"
  proof (cases "key_ok k")
    case False
    have "put_pairs m ps k = m k" for m ps using False by (induction ps arbitrary: m) (auto simp: map_put_def)
    then show ?thesis using False by (simp add: tab_map_def)
  next
    case True
    show ?thesis
    proof (cases "in_array t k")
      case a: True
      then obtain i where i: "int_key k = Some i" "unat i < t_asize t" by (auto simp: in_array_def inarray_def)
      have c: "tcanon k = setintV i" using int_key_canon[OF True] i(1) by blast
      have "tcanon x \<noteq> tcanon k" if x: "(x, v) \<in> set ?Q" for x v
      proof
        assume e: "tcanon x = tcanon k"
        obtain j where j: "j < length (t_node t)" "x = n_key (t_node t ! j)" "\<not> tvisnil (n_val (t_node t ! j))" using x by (auto simp: node_pairs_mem)
        have "int_key x = Some i" using int_key_cong[OF _ True e] node_pairs_ok[OF nok x] i(1) by simp
        then show False using tab_okD(6)[OF ok j(1), of i] j(2) node_val_key[OF nok j(1,3)] i(2) by (simp add: inarray_def)
      qed
      then have Q: "put_pairs (put_pairs (tab_map f) ?P) ?Q k = put_pairs (tab_map f) ?P k" by (rule put_pairs_out)
      show ?thesis
      proof (cases "unat i < n")
        case lt: True
        have "tcanon x \<noteq> tcanon k" if x: "(x, v) \<in> set ?P" for x v
          using P[OF x] lt c by (auto dest: arg_cong[where f = unat])
        then have "put_pairs (tab_map f) ?P k = tab_map f k" by (rule put_pairs_out)
        then show ?thesis using Q arr[OF True i] arr[OF True i(1), of f] lt f(3) keep[OF lt i(2)] by simp
      next
        case ge: False
        have nf: "tab_map f k = None" using f(2)[OF True] ge i(1) f(3) by (simp add: in_array_size in_size_def)
        show ?thesis
        proof (cases "tvisnil (t_array t ! unat i)")
          case nil: True
          have "tcanon x \<noteq> tcanon k" if x: "(x, v) \<in> set ?P" for x v
            using P[OF x] nil c by auto
          then have "put_pairs (tab_map f) ?P k = tab_map f k" by (rule put_pairs_out)
          then show ?thesis using Q nf arr[OF True i] nil by simp
        next
          case nn: False
          have "(setintV i, t_array t ! unat i) \<in> set ?P" unfolding array_pairs_mem
            using nn i(2) ge by (intro exI[of _ "unat i - n"]) (simp add: t_asize_def)
          moreover have "distinct (map (tcanon \<circ> fst) ?P)" 
            by (cases "n \<le> t_asize t") (use asz in \<open>auto intro!: array_pairs_distinct simp: t_asize_def\<close>)
          ultimately have "put_pairs (tab_map f) ?P k = Some (t_array t ! unat i)" using put_pairs_in[of ?P "setintV i" "t_array t ! unat i" k "tab_map f"] nn True c by simp
          then show ?thesis using Q arr[OF True i] nn by simp
        qed
      qed
    next
      case na: False
      have tm: "tab_map t k = Some v \<longleftrightarrow> (\<exists>x. (x, v) \<in> set ?Q \<and> tcanon x = tcanon k)" for v
        using tab_map_live[OF ok True na] node_pairs_live[OF nok] by simp
      show ?thesis
      proof (cases "tab_map t k")
        case None
        have "tcanon x \<noteq> tcanon k" if "(x, v) \<in> set ?Q" for x v using tm[of v] None that by auto
        then have Q: "put_pairs (put_pairs (tab_map f) ?P) ?Q k = put_pairs (tab_map f) ?P k" by (rule put_pairs_out)
        have "tcanon x \<noteq> tcanon k" if x: "(x, v) \<in> set ?P" for x v
        proof
          assume e: "tcanon x = tcanon k"
          obtain i where "x = setintV i" "unat i < t_asize t" using P[OF x] by blast
          then show False using e int_key_canon[OF True, of i] na by (simp add: in_array_def inarray_def)
        qed
        then have "put_pairs (tab_map f) ?P k = tab_map f k" by (rule put_pairs_out)
        moreover have "tab_map f k = None"
        proof (cases "in_array f k")
          case True': True
          then obtain i where i: "int_key k = Some i" "unat i < n" using f(3) by (auto simp: in_array_size in_size_def)
          then have "t_asize t \<le> unat i" using na by (auto simp: in_array_size in_size_def)
          then show ?thesis using arr[OF True i(1), of f] f(3) i(2) grown[OF i(2)] by simp
        qed (use f(2)[OF True] in simp)
        ultimately show ?thesis using Q None by simp
      next
        case (Some v)
        then obtain x where x: "(x, v) \<in> set ?Q" "tcanon x = tcanon k" using tm[of v] by auto
        have "put_pairs (put_pairs (tab_map f) ?P) ?Q k = Some v"
          using put_pairs_in[OF node_pairs_distinct[OF nok] x(1) _ True] x node_pairs_ok[OF nok x(1)] by simp
        then show ?thesis using Some by simp
      qed
    qed
  qed
qed

text \<open>The array part after a resize.\<close>

definition new_array :: "GCtab \<Rightarrow> nat \<Rightarrow> TValue list" where
  "new_array t n = (if t_asize t < n then t_array t @ map setnilV (replicate (n - t_asize t) 0) else take n (t_array t))"

lemma new_array:
  "length (new_array t n) = n" "i < n \<Longrightarrow> i < t_asize t \<Longrightarrow> new_array t n ! i = t_array t ! i"
  "i < n \<Longrightarrow> t_asize t \<le> i \<Longrightarrow> tvisnil (new_array t n ! i)"
  by (auto simp: new_array_def t_asize_def nth_append)

definition resized :: "str_hash_of \<Rightarrow> GCtab \<Rightarrow> nat \<Rightarrow> nat \<Rightarrow> GCtab \<Rightarrow> bool" where
  "resized h t asize hbits t' \<longleftrightarrow> tab_ok h t' \<and> tab_map t' = tab_map t \<and> t_asize t' = asize \<and> length (t_node t') = 2 ^ hbits \<and>
     nkeys (t_node t') \<le> hash_need t asize"

lemma outside_eq: "outside t ps = length (filter (\<lambda>p. \<not> in_size (t_asize t) (fst p)) ps)"
  by (simp add: outside_def in_array_size)

lemma array_pairs_length: "length (array_pairs i vs) = length (filter (\<lambda>v. \<not> tvisnil v) vs)"
  by (induction vs arbitrary: i) simp_all

lemma outside_array:
  assumes "t_asize f \<le> n" "n + length vs \<le> 2 ^ 32"
  shows "outside f (array_pairs n vs) = length (array_pairs n vs)"
  using assms
proof (induction vs arbitrary: n)
  case (Cons v vs)
  have "\<not> in_array f (setintV (word_of_nat n))" using Cons.prems by (simp add: in_array_def inarray_def unat_of_nat32)
  then show ?case using Cons by simp
qed simp

context insertion
begin

lemma resize_by_ok:
  assumes ok: "tab_ok h t" and a: "asize \<le> LJ_MAX_ASIZE" and b: "hbits \<le> LJ_MAX_HBITS"
    and need: "hash_need t asize \<le> (if hbits = 0 then 0 else 2 ^ hbits)"
  shows "\<exists>t'. resize_by nk h t asize hbits = Inr t' \<and> resized h t asize hbits t'"
proof -
  let ?t1 = "if t_asize t < asize then grow_array t asize else t"
  let ?old = "drop asize (t_array t)"
  let ?P = "array_pairs asize ?old" and ?Q = "node_pairs (t_node t)"
  obtain t2 where t2: "(if hbits \<noteq> 0 then (case newhpart ?t1 hbits of Inl e \<Rightarrow> Inl e | Inr t \<Rightarrow> Inr (clearhpart t)) else Inr (no_hpart ?t1)) = Inr t2"
    and e: "empty_nodes (t_node t2)" "length (t_node t2) = 2 ^ hbits" "unat (t_hmask t2) + 1 = 2 ^ hbits"
      "t_freetop t2 = (if hbits = 0 then 0 else 2 ^ hbits)" "t_array t2 = t_array ?t1"
    using new_hpart[OF b] by blast
  define f where "f = t2\<lparr>t_array := new_array t asize\<rparr>"
  have fa: "t_array f = new_array t asize" "t_asize f = asize" by (simp_all add: f_def t_asize_def new_array)
  have f: "tab_ok h f" "nkeys (t_node f) = 0" "\<And>k. key_ok k \<Longrightarrow> \<not> in_array f k \<Longrightarrow> tab_map f k = None"
    using empty_tab_ok(1)[of f hbits h] empty_tab_ok(2,3)[of f hbits] e b a fa(2) by (simp_all add: f_def)
  have asz: "t_asize t \<le> 2 ^ 32" using tab_okD(7)[OF ok] by (simp add: LJ_MAX_ASIZE_def LJ_MAX_ABITS_def)
  have hm: "t_hmask f \<noteq> 0" if "hbits \<noteq> 0" using that e(3) by (cases hbits) (auto simp: f_def)
  have lf: "length (t_node f) = 2 ^ hbits" using e(2) by (simp add: f_def)
  have oP: "outside f ?P = length ?P"
  proof (cases "asize \<le> t_asize t")
    case True
    then show ?thesis using outside_array[of f asize ?old] fa asz by (simp add: t_asize_def)
  next
    case False
    then have "?old = []" by (simp add: t_asize_def)
    then show ?thesis by (simp only: array_pairs.simps outside_simps list.size)
  qed
  have oQ: "outside f ?Q + length ?P = hash_need t asize" using fa by (simp add: hash_need_def outside_eq)
  have "roomy f ?P" using need oP oQ f(2) hm lf by (auto simp: roomy_def split: if_splits)
  obtain t3 where t3: "(if asize < t_asize t then reinsert_array nk f asize ?old else Inr f) = Inr t3" "filled h f ?P t3"
  proof (cases "asize < t_asize t")
    case True
    then show ?thesis using that reinsert_array_ok[OF f(1) _ _ \<open>roomy f ?P\<close>] fa asz by (auto simp: t_asize_def)
  next
    case False
    then have "?old = []" by (simp add: t_asize_def)
    then have "filled h f ?P f" using filled_refl[OF f(1)] by (simp only: array_pairs.simps)
    then show ?thesis using that False by simp
  qed
  have s3: "tab_ok h t3" "tab_map t3 = put_pairs (tab_map f) ?P" "same_shape f t3" "nkeys (t_node t3) \<le> length ?P"
    using t3(2) f(2) oP by (simp_all add: filled_def)
  have oQ3: "outside t3 ?Q = outside f ?Q" by (rule outside_shape[OF s3(3)])
  have "roomy t3 ?Q" using need oQ oQ3 s3(3,4) hm lf by (auto simp: roomy_def same_shape_def split: if_splits)
  then obtain t4 where t4: "reinsert_nodes nk h t3 (t_node t) = Inr t4" "filled h t3 ?Q t4"
    using reinsert_nodes_ok[OF s3(1), of "t_node t"] node_pairs_ok[OF tab_okD(1)[OF ok]] by blast
  have s4: "(if t_hmask t > 0 then reinsert_nodes nk h t3 (t_node t) else Inr t3) = Inr t4"
  proof (cases "t_hmask t = 0")
    case True
    obtain n where n: "t_node t = [n]" using tab_okD(2)[OF ok] True by (cases "t_node t") auto
    have "tvisnil (n_val n)" using tab_okD(3)[OF ok True] nodes_okD(2)[OF tab_okD(1)[OF ok], of 0] n by simp
    then show ?thesis using t4(1) True n by simp
  next
    case False
    then show ?thesis using t4(1) by (simp add: word_gt_0)
  qed
  have t2f: "(if asize < t_asize t then reinsert_array nk (t2\<lparr>t_array := take asize (t_array t2)\<rparr>) asize ?old else Inr t2) = Inr t3"
  proof (cases "asize < t_asize t")
    case True
    then show ?thesis using t3(1) e(5) by (simp add: f_def new_array_def)
  next
    case False
    have "t_array t2 = new_array t asize" using False e(5) by (simp add: new_array_def grow_array_def t_asize_def)
    then have "t2 = f" by (simp add: f_def)
    then show ?thesis using t3(1) False by simp
  qed
  have "resize_by nk h t asize hbits = Inr t4"
    using a t2 t2f s4 by (simp add: resize_by_def Let_def del: not_gr_zero)
  moreover have "tab_map t4 = tab_map t"
    using t4(2) s3(2) resize_map[OF ok f(1,3) fa(2)] fa(1) new_array by (simp add: filled_def)
  moreover have "same_shape f t4" using same_shape_trans[OF s3(3)] t4(2) by (simp add: filled_def)
  ultimately show ?thesis using t4(2) s3(4) oQ oQ3 fa lf by (auto simp: resized_def filled_def same_shape_def)
qed

end

end
