(* ===== verification/LJ_TabRehash.thy ===== *)
theory LJ_TabRehash
  imports LJ_TabResize
begin

text \<open>
  Choosing the sizes of a rehash: the bins count the integer keys by power of two, the array part that is chosen is more
  than a quarter full, and the hash part has room for everything else, the new key included.
\<close>

section \<open>Bins\<close>

definition kbin :: "nat \<Rightarrow> nat" where
  "kbin k = (if k > 2 then lj_fls_nat (k - 1) else 0)"

lemma kbin_le: "kbin k \<le> b \<longleftrightarrow> k \<le> 2 ^ (b + 1)"
proof (cases "k > 2")
  case True
  define e where "e = lj_fls_nat (k - 1)"
  have e: "2 ^ e \<le> k - 1" "k - 1 < 2 ^ Suc e" using lj_fls_nat_bounds[of "k - 1"] True by (simp_all add: e_def)
  have "e \<le> b \<longleftrightarrow> k \<le> 2 ^ (b + 1)"
  proof
    assume "e \<le> b"
    then have "(2::nat) ^ Suc e \<le> 2 ^ Suc b" by (intro power_increasing) simp_all
    then show "k \<le> 2 ^ (b + 1)" using e(2) by (simp only: Suc_eq_plus1)
  next
    assume k: "k \<le> 2 ^ (b + 1)"
    have "(2::nat) ^ e < 2 ^ (b + 1)" using e(1) k True by linarith
    then have "e < b + 1" by (rule power_less_imp_less_exp[rotated]) simp
    then show "e \<le> b" by simp
  qed
  then show ?thesis using True by (simp add: kbin_def e_def)
next
  case False
  have "2 \<le> (2::nat) * 2 ^ b" by simp
  then have "k \<le> 2 * 2 ^ b" using False by linarith
  then show ?thesis using False by (simp add: kbin_def)
qed

lemma max_asize: "LJ_MAX_ASIZE = 2 ^ 27 + 1" by (simp add: LJ_MAX_ASIZE_def LJ_MAX_ABITS_def)

lemma kbin_max: "k < LJ_MAX_ASIZE \<Longrightarrow> kbin k < LJ_MAX_ABITS - 1"
  using kbin_le[of k 26] by (simp add: max_asize LJ_MAX_ABITS_def)

lemma int_bin: "unat i < LJ_MAX_ASIZE \<Longrightarrow> int_bin i = kbin (unat i)"
proof -
  assume i: "unat i < LJ_MAX_ASIZE"
  have s: "sint i = int (unat i)"
  proof -
    have "unat i < 2147483648" using i by (simp add: max_asize)
    moreover have "uint i = int (unat i)" by simp
    ultimately have "uint i < 2147483648" by linarith
    moreover have "0 \<le> uint i" by simp
    ultimately have "sint (word_of_int (uint i) :: u32) = uint i" by (subst int_word_sint) simp
    then show ?thesis by simp
  qed
  have c: "sint i > 2 \<longleftrightarrow> unat i > 2" unfolding s by linarith
  have "unat (i - 1) = unat i - 1" if "unat i > 2" using that by (simp add: unat_sub_if' word_le_nat_alt)
  then show ?thesis unfolding int_bin_def kbin_def lj_fls_def c by (cases "unat i > 2") (simp_all only: if_True if_False)
qed

definition bins_of :: "nat set \<Rightarrow> nat list \<Rightarrow> bool" where
  "bins_of K bins \<longleftrightarrow> length bins = LJ_MAX_ABITS \<and> finite K \<and> (\<forall>k \<in> K. k < LJ_MAX_ASIZE) \<and>
     (\<forall>b < LJ_MAX_ABITS. bins ! b = card {k \<in> K. kbin k = b})"

lemma bins_ofD:
  assumes "bins_of K bins"
  shows "length bins = LJ_MAX_ABITS" "finite K" "k \<in> K \<Longrightarrow> k < LJ_MAX_ASIZE" "b < LJ_MAX_ABITS \<Longrightarrow> bins ! b = card {k \<in> K. kbin k = b}"
  using assms by (simp_all add: bins_of_def)

lemma bins_of_empty: "bins_of {} (replicate LJ_MAX_ABITS 0)"
  by (simp add: bins_of_def)

lemma bins_of_add:
  assumes K: "bins_of K bins" and A: "finite A" "K \<inter> A = {}" "\<And>k. k \<in> A \<Longrightarrow> kbin k = b \<and> k < LJ_MAX_ASIZE" and b: "b < LJ_MAX_ABITS"
  shows "bins_of (K \<union> A) (bins[b := bins ! b + card A])"
proof -
  note d = bins_ofD[OF K]
  have "(bins[b := bins ! b + card A]) ! c = card {k \<in> K \<union> A. kbin k = c}" if c: "c < LJ_MAX_ABITS" for c
  proof (cases "c = b")
    case True
    have "{k \<in> K \<union> A. kbin k = b} = {k \<in> K. kbin k = b} \<union> A" using A(3) by auto
    moreover have "card ({k \<in> K. kbin k = b} \<union> A) = card {k \<in> K. kbin k = b} + card A"
      using d(2) A(1,2) by (intro card_Un_disjoint) auto
    ultimately show ?thesis using True d(1,4) b by simp
  next
    case False
    have "{k \<in> K \<union> A. kbin k = c} = {k \<in> K. kbin k = c}" using A(3) False by auto
    then show ?thesis using False d(1,4) c by simp
  qed
  then show ?thesis using d A unfolding bins_of_def by auto
qed

section \<open>Counting\<close>

lemma countint_key:
  "countint key bins = (case int_key key of
     Some i \<Rightarrow> if unat i < LJ_MAX_ASIZE then (bins[int_bin i := bins ! int_bin i + 1], 1) else (bins, 0)
   | None \<Rightarrow> (bins, 0))"
  by (simp add: countint_def int_key_def Let_def)

definition int_of :: "TValue \<Rightarrow> nat" where "int_of k = unat (the (int_key k))"

lemma in_size_int: "in_size n k \<Longrightarrow> int_of k < n" "in_size n k \<Longrightarrow> int_key k = Some (word_of_nat (int_of k))"
  by (auto simp: in_size_def int_of_def)

lemma countint_ok:
  assumes "bins_of K bins" "in_size LJ_MAX_ASIZE key \<Longrightarrow> int_of key \<notin> K"
  shows "\<exists>bins'. countint key bins = (bins', if in_size LJ_MAX_ASIZE key then 1 else 0) \<and>
     bins_of (K \<union> (if in_size LJ_MAX_ASIZE key then {int_of key} else {})) bins'"
proof (cases "in_size LJ_MAX_ASIZE key")
  case True
  then obtain i where i: "int_key key = Some i" "unat i < LJ_MAX_ASIZE" "int_of key = unat i" by (auto simp: in_size_def int_of_def)
  have "bins_of (K \<union> {unat i}) (bins[int_bin i := bins ! int_bin i + card {unat i}])"
    using assms True i kbin_max[OF i(2)] by (intro bins_of_add) (simp_all add: int_bin)
  then show ?thesis using i True by (simp add: countint_key)
next
  case False
  then have "countint key bins = (bins, 0)" by (auto simp: countint_key in_size_def split: option.splits)
  then show ?thesis using False assms(1) by simp
qed

text \<open>The integer keys of a list of pairs that the array part could hold.\<close>

definition int_keys :: "(TValue \<times> TValue) list \<Rightarrow> nat list" where
  "int_keys ps = map (int_of \<circ> fst) (filter (\<lambda>p. in_size LJ_MAX_ASIZE (fst p)) ps)"

lemma int_keys_simps [simp]:
  "int_keys [] = []" "int_keys ((k, v) # ps) = (if in_size LJ_MAX_ASIZE k then int_of k # int_keys ps else int_keys ps)"
  by (simp_all add: int_keys_def)

lemma counthash_ok:
  "bins_of K bins \<Longrightarrow> distinct (int_keys (node_pairs ns)) \<Longrightarrow> K \<inter> set (int_keys (node_pairs ns)) = {} \<Longrightarrow>
   \<exists>bins'. counthash_from ns bins na tot = (bins', na + length (int_keys (node_pairs ns)), tot + length (node_pairs ns)) \<and>
     bins_of (K \<union> set (int_keys (node_pairs ns))) bins'"
proof (induction ns arbitrary: K bins na tot)
  case (Cons n ns)
  show ?case
  proof (cases "tvisnil (n_val n)")
    case True
    then show ?thesis using Cons by simp
  next
    case False
    let ?S = "in_size LJ_MAX_ASIZE (n_key n)"
    have "?S \<Longrightarrow> int_of (n_key n) \<notin> K" using Cons.prems(3) False by auto
    from countint_ok[OF Cons.prems(1) this] obtain b1 where b1: "countint (n_key n) bins = (b1, if ?S then 1 else 0)"
      "bins_of (K \<union> (if ?S then {int_of (n_key n)} else {})) b1" by blast
    have "distinct (int_keys (node_pairs ns))" "(K \<union> (if ?S then {int_of (n_key n)} else {})) \<inter> set (int_keys (node_pairs ns)) = {}"
      using Cons.prems(2,3) False by (auto split: if_splits)
    from Cons.IH[OF b1(2) this, of "na + (if ?S then 1 else 0)" "tot + 1"]
    obtain b2 where b2: "counthash_from ns b1 (na + (if ?S then 1 else 0)) (tot + 1) =
        (b2, na + (if ?S then 1 else 0) + length (int_keys (node_pairs ns)), tot + 1 + length (node_pairs ns))"
      "bins_of (K \<union> (if ?S then {int_of (n_key n)} else {}) \<union> set (int_keys (node_pairs ns))) b2" by blast
    have "K \<union> (if ?S then {int_of (n_key n)} else {}) \<union> set (int_keys (node_pairs ns)) = K \<union> set (int_keys (node_pairs (n # ns)))"
      using False by auto
    then show ?thesis using b1(1) b2 False by (intro exI[of _ b2]) (simp add: Let_def del: countint_key)
  qed
qed simp

text \<open>The array slots in use.\<close>

definition used :: "TValue list \<Rightarrow> nat \<Rightarrow> nat set" where
  "used a n = {j. j < n \<and> \<not> tvisnil (a ! j)}"

lemma used_fin [simp]: "finite (used a n)" by (simp add: used_def)

lemma count_slots_card: "count_slots a i tp = card {j. i \<le> j \<and> j \<le> tp \<and> \<not> tvisnil (a ! j)}"
proof -
  have "count_slots a i tp = card (set (filter (\<lambda>j. \<not> tvisnil (a ! j)) [i..<tp + 1]))"
    by (simp only: count_slots_def distinct_card distinct_filter distinct_upt)
  moreover have "set (filter (\<lambda>j. \<not> tvisnil (a ! j)) [i..<tp + 1]) = {j. i \<le> j \<and> j \<le> tp \<and> \<not> tvisnil (a ! j)}" by auto
  ultimately show ?thesis by simp
qed

definition array_mark :: "TValue list \<Rightarrow> nat \<Rightarrow> nat" where
  "array_mark a b = (if b = 0 then 0 else min (2 ^ b + 1) (length a))"

lemma countarray_from_ok:
  assumes len: "0 < length a" "length a \<le> LJ_MAX_ASIZE"
  shows "b \<le> LJ_MAX_ABITS \<Longrightarrow> bins_of (used a (array_mark a b)) bins \<Longrightarrow>
    \<exists>bins'. countarray_from a b (array_mark a b) (card (used a (array_mark a b))) bins = (bins', card (used a (length a))) \<and>
      bins_of (used a (length a)) bins'"
proof (induction "LJ_MAX_ABITS - b" arbitrary: b bins)
  case 0
  then have b: "b = LJ_MAX_ABITS" by simp
  have "array_mark a b = length a" using len(2) by (simp add: b array_mark_def max_asize LJ_MAX_ABITS_def)
  then show ?case using 0 b by (subst countarray_from.simps) simp
next
  case (Suc m)
  let ?i = "array_mark a b"
  let ?last = "2 * 2 ^ b \<ge> length a"
  let ?tp = "if ?last then length a - 1 else 2 * 2 ^ b"
  have b: "b < LJ_MAX_ABITS" using Suc.hyps(2) by simp
  show ?case
  proof (cases "?last \<and> ?i > ?tp")
    case True
    then have "?i = length a" by (auto simp: array_mark_def split: if_splits)
    then show ?thesis using True b Suc.prems(2) by (subst countarray_from.simps) (auto simp: Let_def)
  next
    case False
    let ?A = "{j. ?i \<le> j \<and> j \<le> ?tp \<and> \<not> tvisnil (a ! j)}"
    let ?bins = "bins[b := bins ! b + card ?A]"
    have nxt: "max ?i (?tp + 1) = array_mark a (b + 1)"
      using len(1) by (auto simp: array_mark_def min_def max_def split: if_splits)
    have U: "used a (array_mark a (b + 1)) = used a ?i \<union> ?A"
      unfolding nxt[symmetric] used_def by auto
    have inA: "kbin k = b \<and> k < LJ_MAX_ASIZE" if k: "k \<in> ?A" for k
    proof -
      have "?tp < length a" using len(1) by (simp split: if_split)
      moreover have "?tp \<le> 2 * 2 ^ b" by (simp split: if_split, arith)
      moreover have "k \<le> ?tp" using k by blast
      ultimately have tp: "k < length a" "k \<le> 2 * 2 ^ b" by linarith+
      have "kbin k \<le> b" using tp(2) by (simp add: kbin_le)
      moreover have "b \<le> kbin k"
      proof (cases b)
        case (Suc c)
        have "2 ^ (c + 1) < k" using k tp(1) Suc by (auto simp: array_mark_def)
        then show ?thesis using kbin_le[of k c] Suc by simp
      qed simp
      ultimately show ?thesis using tp(1) len(2) by simp
    qed
    have dis: "used a ?i \<inter> ?A = {}" by (auto simp: used_def)
    have fA: "finite ?A" by (rule finite_subset[of _ "{..?tp}"]) auto
    have B: "bins_of (used a (array_mark a (b + 1))) ?bins"
      unfolding U by (rule bins_of_add[OF Suc.prems(2) fA dis inA b])
    have C: "card (used a (array_mark a (b + 1))) = card (used a ?i) + card ?A"
      unfolding U using dis fA by (intro card_Un_disjoint) simp_all
    have step: "countarray_from a b ?i (card (used a ?i)) bins =
        countarray_from a (b + 1) (array_mark a (b + 1)) (card (used a (array_mark a (b + 1)))) ?bins"
      using b False by (subst countarray_from.simps) (simp only: Let_def if_P[OF b] if_not_P[OF False] if_True if_False nxt count_slots_card C)
    show ?thesis unfolding step using Suc.hyps(2) b B by (intro Suc.hyps(1)) simp_all
  qed
qed

lemma countarray_ok:
  assumes "t_asize t \<le> LJ_MAX_ASIZE"
  shows "\<exists>bins'. countarray t (replicate LJ_MAX_ABITS 0) = (bins', card (used (t_array t) (t_asize t))) \<and>
    bins_of (used (t_array t) (t_asize t)) bins'"
proof (cases "t_asize t = 0")
  case True
  then show ?thesis using bins_of_empty by (simp add: countarray_def used_def)
next
  case False
  have "bins_of (used (t_array t) (array_mark (t_array t) 0)) (replicate LJ_MAX_ABITS 0)"
    using bins_of_empty by (simp add: used_def array_mark_def)
  from countarray_from_ok[OF _ _ _ this] show ?thesis using assms False
    by (simp add: countarray_def t_asize_def array_mark_def used_def)
qed

section \<open>The best size\<close>

lemma bins_of_bound: "bins_of K bins \<Longrightarrow> {k \<in> K. kbin k < LJ_MAX_ABITS - 1} = K"
  using kbin_max bins_ofD(3) by blast

text \<open>The size is justified when it is 0 or the keys below it fill more than a quarter of it.\<close>

definition asize_ok :: "nat set \<Rightarrow> nat \<Rightarrow> bool" where
  "asize_ok K sz \<longleftrightarrow> sz = 0 \<or> (\<exists>b. sz = 2 ^ (b + 1) + 1 \<and> 2 * card {k \<in> K. k < sz} > 2 ^ b)"

lemma bestasize_from_ok:
  assumes K: "bins_of K bins"
  shows "b \<le> LJ_MAX_ABITS \<Longrightarrow> sm = card {k \<in> K. kbin k < b} \<Longrightarrow> na = card {k \<in> K. k < sz} \<Longrightarrow> asize_ok K sz \<Longrightarrow> sz \<le> LJ_MAX_ASIZE \<Longrightarrow>
    \<exists>sz'. bestasize_from bins (card K) b sm na sz = Some (sz', card {k \<in> K. k < sz'}) \<and> asize_ok K sz' \<and> sz' \<le> LJ_MAX_ASIZE"
proof (induction "LJ_MAX_ABITS - b" arbitrary: b sm na sz)
  case 0
  then have b: "b = LJ_MAX_ABITS" by simp
  have "{k \<in> K. kbin k < LJ_MAX_ABITS} = K" using kbin_max bins_ofD(3)[OF K] by fastforce
  then have "sm = card K" using 0 b by simp
  then show ?case using 0 by (subst bestasize_from.simps) simp
next
  case (Suc m)
  have b: "b < LJ_MAX_ABITS" "\<not> b \<ge> length bins" using Suc.hyps(2) bins_ofD(1)[OF K] by simp_all
  have bb: "bins ! b = card {k \<in> K. kbin k = b}" by (rule bins_ofD(4)[OF K b(1)])
  have sm: "sm + bins ! b = card {k \<in> K. kbin k < b + 1}"
  proof -
    have "{k \<in> K. kbin k < b + 1} = {k \<in> K. kbin k < b} \<union> {k \<in> K. kbin k = b}" by auto
    moreover have "card ({k \<in> K. kbin k < b} \<union> {k \<in> K. kbin k = b}) = card {k \<in> K. kbin k < b} + card {k \<in> K. kbin k = b}"
      using bins_ofD(2)[OF K] by (intro card_Un_disjoint) auto
    ultimately show ?thesis using Suc.prems(2) bb by simp
  qed
  have below: "{k \<in> K. kbin k < b + 1} = {k \<in> K. k < 2 * 2 ^ b + 1}" using kbin_le[of _ b] by (auto simp: less_Suc_eq_le)
  have m: "m = LJ_MAX_ABITS - (b + 1)" "b + 1 \<le> LJ_MAX_ABITS" using Suc.hyps(2) by simp_all
  note keep = Suc.hyps(1)[OF m(1) m(2) _ Suc.prems(3,4,5)]
  show ?case
  proof (cases "2 * card K > 2 ^ b \<and> sm \<noteq> card K")
    case False
    then show ?thesis using Suc.prems by (subst bestasize_from.simps) (simp only: if_False, blast)
  next
    case go: True
    show ?thesis
    proof (cases "bins ! b > 0")
      case False
      then have "bestasize_from bins (card K) b sm na sz = bestasize_from bins (card K) (b + 1) sm na sz"
        using go b by (subst bestasize_from.simps) simp
      then show ?thesis using keep[of sm] sm False by simp
    next
      case pos: True
      show ?thesis
      proof (cases "2 * (sm + bins ! b) > 2 ^ b")
        case False
        then have "bestasize_from bins (card K) b sm na sz = bestasize_from bins (card K) (b + 1) (sm + bins ! b) na sz"
          using go b pos by (subst bestasize_from.simps) (simp add: Let_def)
        then show ?thesis using keep[OF sm] by simp
      next
        case True
        let ?sz = "2 * 2 ^ b + 1"
        have "{k \<in> K. kbin k = b} \<noteq> {}" using pos bb by (metis card.empty less_numeral_extra(3))
        then obtain k where "k \<in> K" "kbin k = b" by blast
        then have "b \<le> 26" using kbin_max[of k] bins_ofD(3)[OF K] by (simp add: LJ_MAX_ABITS_def)
        then have "(2::nat) ^ (b + 1) \<le> 2 ^ 27" by (intro power_increasing) simp_all
        then have max: "?sz \<le> LJ_MAX_ASIZE" by (simp add: max_asize)
        have cnt: "sm + bins ! b = card {k \<in> K. k < ?sz}" using sm below by simp
        have "asize_ok K ?sz" unfolding asize_ok_def using True cnt by (intro disjI2 exI[of _ b]) simp
        from Suc.hyps(1)[OF m(1) m(2) sm cnt this max]
        have "\<exists>sz'. bestasize_from bins (card K) (b + 1) (sm + bins ! b) (sm + bins ! b) ?sz = Some (sz', card {k \<in> K. k < sz'}) \<and>
          asize_ok K sz' \<and> sz' \<le> LJ_MAX_ASIZE" .
        moreover have "bestasize_from bins (card K) b sm na sz = bestasize_from bins (card K) (b + 1) (sm + bins ! b) (sm + bins ! b) ?sz"
          using go b pos True by (subst bestasize_from.simps) (simp add: Let_def)
        ultimately show ?thesis by (simp only:)
      qed
    qed
  qed
qed

lemma bestasize_ok:
  assumes "bins_of K bins"
  shows "\<exists>sz. bestasize bins (card K) = Some (sz, card {k \<in> K. k < sz}) \<and> asize_ok K sz \<and> sz \<le> LJ_MAX_ASIZE"
  using bestasize_from_ok[OF assms, of 0 0 0 0] by (simp add: bestasize_def asize_ok_def)

lemma hsize2hbits_room:
  assumes "n < 2 ^ 32"
  shows "n \<le> (if hsize2hbits (word_of_nat n) = 0 then 0 else 2 ^ hsize2hbits (word_of_nat n))"
    "n \<le> 2 ^ b \<Longrightarrow> 0 < b \<Longrightarrow> hsize2hbits (word_of_nat n) \<le> b"
proof -
  define s :: u32 where "s = word_of_nat n"
  have s: "unat s = n" unfolding s_def by (rule unat_of_nat32[OF assms])
  have s0: "s = 0 \<longleftrightarrow> n = 0" "s = 1 \<longleftrightarrow> n = 1" using s by (simp_all add: word_unat_eq_iff)
  consider "n \<le> 1" | "2 \<le> n" by linarith
  then have "n \<le> (if hsize2hbits s = 0 then 0 else 2 ^ hsize2hbits s) \<and> (n \<le> 2 ^ b \<and> 0 < b \<longrightarrow> hsize2hbits s \<le> b)"
  proof cases
    case 1
    then show ?thesis using s0 by (cases "n = 0") (auto simp: hsize2hbits_def)
  next
    case 2
    have u: "unat (s - 1) = n - 1" using s 2 by (simp add: unat_sub_if' word_le_nat_alt)
    have e: "2 ^ lj_fls (s - 1) \<le> n - 1" "n - 1 < 2 ^ Suc (lj_fls (s - 1))"
      using lj_fls_nat_bounds[of "n - 1"] 2 by (simp_all add: lj_fls_def u)
    have h: "hsize2hbits s = Suc (lj_fls (s - 1))" using 2 s0 by (simp add: hsize2hbits_def)
    have "Suc (lj_fls (s - 1)) \<le> b" if "n \<le> 2 ^ b"
    proof -
      have "(2::nat) ^ lj_fls (s - 1) < 2 ^ b" using e(1) that 2 by linarith
      then have "lj_fls (s - 1) < b" by (rule power_less_imp_less_exp[rotated]) simp
      then show ?thesis by simp
    qed
    then show ?thesis using e(2) h by simp
  qed
  then show "n \<le> (if hsize2hbits (word_of_nat n) = 0 then 0 else 2 ^ hsize2hbits (word_of_nat n))"
    "n \<le> 2 ^ b \<Longrightarrow> 0 < b \<Longrightarrow> hsize2hbits (word_of_nat n) \<le> b" unfolding s_def by blast+
qed

section \<open>The sizes of a rehash\<close>

definition ints :: "GCtab \<Rightarrow> nat set" where
  "ints t = used (t_array t) (t_asize t) \<union> set (int_keys (node_pairs (t_node t)))"

lemma int_keys_mem: "x \<in> set (int_keys ps) \<longleftrightarrow> (\<exists>k v. (k, v) \<in> set ps \<and> in_size LJ_MAX_ASIZE k \<and> x = int_of k)"
  by (force simp: int_keys_def)

lemma int_of_inj:
  assumes "key_ok a" "key_ok b" "in_size n a" "in_size n b" "int_of a = int_of b"
  shows "tcanon a = tcanon b"
  using in_size_int(2)[OF assms(3)] in_size_int(2)[OF assms(4)] int_key_canon[OF assms(1)] int_key_canon[OF assms(2)] assms(5) by simp

lemma int_keys_distinct:
  assumes "distinct (map (tcanon \<circ> fst) ps)" "\<And>k v. (k, v) \<in> set ps \<Longrightarrow> key_ok k"
  shows "distinct (int_keys ps)"
  using assms
proof (induction ps)
  case (Cons p ps)
  obtain k v where p: "p = (k, v)" by (cases p)
  have "int_of k \<notin> set (int_keys ps)" if s: "in_size LJ_MAX_ASIZE k"
  proof
    assume "int_of k \<in> set (int_keys ps)"
    then obtain a b where a: "(a, b) \<in> set ps" "in_size LJ_MAX_ASIZE a" "int_of k = int_of a" by (auto simp: int_keys_mem)
    have "tcanon k = tcanon a" using int_of_inj[OF _ _ s a(2,3)] Cons.prems(2)[of k v] Cons.prems(2)[of a b] p a(1) by simp
    moreover have "tcanon a \<in> (tcanon \<circ> fst) ` set ps" using a(1) by force
    ultimately show False using Cons.prems(1) p by simp
  qed
  moreover have "distinct (int_keys ps)" using Cons.prems by (intro Cons.IH) auto
  ultimately show ?case using p by simp
qed simp

lemma int_keys_outside:
  assumes ok: "tab_ok h t" and kv: "(k, v) \<in> set (node_pairs (t_node t))" "in_size LJ_MAX_ASIZE k"
  shows "\<not> int_of k < t_asize t"
proof
  assume a: "int_of k < t_asize t"
  obtain i where i: "i < length (t_node t)" "\<not> tvisnil (n_val (t_node t ! i))" "k = n_key (t_node t ! i)" using kv(1) by (auto simp: node_pairs_mem)
  obtain j where j: "int_key k = Some j" "int_of k = unat j" using kv(2) by (auto simp: in_size_def int_of_def)
  show False using tab_okD(6)[OF ok i(1), of j] node_val_key[OF tab_okD(1)[OF ok] i(1,2)] i(3) j a by (simp add: inarray_def)
qed

lemma int_keys_below:
  assumes "sz \<le> LJ_MAX_ASIZE"
  shows "length (filter (\<lambda>p. in_size sz (fst p)) ps) = length (filter (\<lambda>x. x < sz) (int_keys ps))"
proof (induction ps)
  case (Cons p ps)
  obtain k v where p: "p = (k, v)" by (cases p)
  have "in_size sz k \<longleftrightarrow> in_size LJ_MAX_ASIZE k \<and> int_of k < sz" using assms by (auto simp: in_size_def int_of_def)
  then show ?case using Cons p by simp
qed simp

lemma used_split:
  assumes "t_asize t = length (t_array t)"
  shows "card (used (t_array t) (t_asize t)) = card {k \<in> used (t_array t) (t_asize t). k < n} + length (array_pairs n (drop n (t_array t)))"
proof -
  let ?a = "t_array t" let ?U = "used ?a (length ?a)"
  have "length (array_pairs n (drop n ?a)) = card {j. j < length (drop n ?a) \<and> \<not> tvisnil (drop n ?a ! j)}"
    by (simp only: array_pairs_length length_filter_conv_card)
  also have "\<dots> = card {k \<in> ?U. \<not> k < n}"
    by (rule bij_betw_same_card[OF bij_betw_byWitness[where f = "\<lambda>j. n + j" and f' = "\<lambda>k. k - n"]]) (auto simp: used_def)
  finally have e: "length (array_pairs n (drop n ?a)) = card {k \<in> ?U. \<not> k < n}" .
  have "?U = {k \<in> ?U. k < n} \<union> {k \<in> ?U. \<not> k < n}" by auto
  moreover have "card ({k \<in> ?U. k < n} \<union> {k \<in> ?U. \<not> k < n}) = card {k \<in> ?U. k < n} + card {k \<in> ?U. \<not> k < n}"
    by (intro card_Un_disjoint) auto
  ultimately show ?thesis using assms e by simp
qed

lemma rehash_sizes_ok:
  assumes ok: "tab_ok h t" and ek: "in_size LJ_MAX_ASIZE ek \<Longrightarrow> int_of ek \<notin> ints t"
  shows "\<exists>sz K. rehash_sizes t ek = Some (sz, hsize2hbits (word_of_nat (hash_need t sz + (if in_size sz ek then 0 else 1)))) \<and>
     sz \<le> LJ_MAX_ASIZE \<and> K = ints t \<union> (if in_size LJ_MAX_ASIZE ek then {int_of ek} else {}) \<and> asize_ok K sz"
proof -
  let ?U = "used (t_array t) (t_asize t)" and ?ps = "node_pairs (t_node t)"
  let ?M = "in_size LJ_MAX_ASIZE ek"
  let ?K = "ints t \<union> (if ?M then {int_of ek} else {})"
  note nok = tab_okD(1)[OF ok]
  obtain b1 where b1: "countarray t (replicate LJ_MAX_ABITS 0) = (b1, card ?U)" "bins_of ?U b1"
    using countarray_ok[OF tab_okD(7)[OF ok]] by blast
  have d: "distinct (int_keys ?ps)" using int_keys_distinct[OF node_pairs_distinct[OF nok]] node_pairs_ok[OF nok] by blast
  have dis: "?U \<inter> set (int_keys ?ps) = {}" using int_keys_outside[OF ok] by (auto simp: int_keys_mem used_def)
  obtain b2 where b2: "counthash t b1 (card ?U) = (b2, card ?U + length (int_keys ?ps), length ?ps)" "bins_of (ints t) b2"
    using counthash_ok[OF b1(2) d dis, of 0 0] by (auto simp: counthash_def ints_def)
  obtain b3 where b3: "countint ek b2 = (b3, if ?M then 1 else 0)" "bins_of ?K b3" using countint_ok[OF b2(2) ek] by blast
  have fin: "finite (ints t)" using bins_ofD(2)[OF b2(2)] .
  have ci: "card (ints t) = card ?U + length (int_keys ?ps)"
    unfolding ints_def using dis d by (simp add: card_Un_disjoint distinct_card)
  have cK: "card ?K = card ?U + length (int_keys ?ps) + (if ?M then 1 else 0)" using ci fin ek by simp
  obtain sz where sz: "bestasize b3 (card ?K) = Some (sz, card {k \<in> ?K. k < sz})" "asize_ok ?K sz" "sz \<le> LJ_MAX_ASIZE"
    using bestasize_ok[OF b3(2)] by blast
  have ins: "in_size sz ek \<longleftrightarrow> ?M \<and> int_of ek < sz" using sz(3) by (auto simp: in_size_def int_of_def)
  have below: "card {k \<in> ?K. k < sz} = card {k \<in> ?U. k < sz} + length (filter (\<lambda>p. in_size sz (fst p)) ?ps) + (if in_size sz ek then 1 else 0)"
  proof -
    have "card {k \<in> ints t. k < sz} = card ({k \<in> ?U. k < sz} \<union> {k \<in> set (int_keys ?ps). k < sz})"
      by (rule arg_cong[where f = card]) (auto simp: ints_def)
    also have "\<dots> = card {k \<in> ?U. k < sz} + card {k \<in> set (int_keys ?ps). k < sz}"
      using dis by (intro card_Un_disjoint) auto
    also have "card {k \<in> set (int_keys ?ps). k < sz} = length (filter (\<lambda>x. x < sz) (int_keys ?ps))"
      using distinct_card[of "filter (\<lambda>x. x < sz) (int_keys ?ps)"] d by simp
    finally have c: "card {k \<in> ints t. k < sz} = card {k \<in> ?U. k < sz} + length (filter (\<lambda>p. in_size sz (fst p)) ?ps)"
      by (simp only: int_keys_below[OF sz(3)])
    show ?thesis
    proof (cases "in_size sz ek")
      case True
      then have e: "{k \<in> ?K. k < sz} = insert (int_of ek) {k \<in> ints t. k < sz}" using ins by auto
      show ?thesis unfolding e using c True ins ek fin by simp
    next
      case False
      then have "{k \<in> ?K. k < sz} = {k \<in> ints t. k < sz}" using ins by auto
      then show ?thesis using c False by simp
    qed
  qed
  have filt: "length ?ps = length (filter (\<lambda>p. in_size sz (fst p)) ?ps) + length (filter (\<lambda>p. \<not> in_size sz (fst p)) ?ps)"
    by (rule sum_length_filter_compl[symmetric])
  have "1 + card ?U + length ?ps - card {k \<in> ?K. k < sz} = hash_need t sz + (if in_size sz ek then 0 else 1)"
    using below used_split[of t sz] filt by (simp add: hash_need_def t_asize_def)
  then have "rehash_sizes t ek = Some (sz, hsize2hbits (word_of_nat (hash_need t sz + (if in_size sz ek then 0 else 1))))"
    using b1(1) b2(1) b3(1) sz(1) cK unfolding rehash_sizes_def by (simp add: Let_def del: of_nat_add)
  then show ?thesis using sz by blast
qed

end
