(* ===== verification/LJ_TabRefine.thy ===== *)
theory LJ_TabRefine
  imports LJ_TabRehash
begin

text \<open>
  The setters refine the map of a table: they return the slot of the key in a table that stands for the same map, or one
  of the errors of the code.
\<close>

section \<open>Rehashing\<close>

definition pair_count :: "GCtab \<Rightarrow> nat" where
  "pair_count t = length (array_pairs 0 (t_array t)) + length (node_pairs (t_node t))"

lemma hash_need_le: "hash_need t n \<le> pair_count t"
proof -
  have "length (array_pairs n (drop n (t_array t))) \<le> length (array_pairs 0 (t_array t))"
  proof -
    have "length (filter (\<lambda>v. \<not> tvisnil v) (drop n xs)) \<le> length (filter (\<lambda>v. \<not> tvisnil v) xs)" for xs
      by (induction xs arbitrary: n) (auto simp: drop_Cons split: nat.split intro: le_SucI)
    then show ?thesis by (simp add: array_pairs_length)
  qed
  then show ?thesis unfolding hash_need_def pair_count_def by (rule add_mono[OF _ length_filter_le])
qed

lemma pair_count_bound: "tab_ok h t \<Longrightarrow> pair_count t < 2 ^ 31"
proof -
  assume ok: "tab_ok h t"
  obtain b where b: "b \<le> LJ_MAX_HBITS" "length (t_node t) = 2 ^ b" using tab_okD(8)[OF ok] by blast
  have "(2::nat) ^ b \<le> 2 ^ 26" using b(1) by (intro power_increasing) (simp_all add: LJ_MAX_HBITS_def)
  moreover have "length (array_pairs 0 (t_array t)) \<le> t_asize t" by (simp add: array_pairs_length t_asize_def)
  moreover have "length (node_pairs (t_node t)) \<le> length (t_node t)" by (simp add: node_pairs_def)
  ultimately show ?thesis using b(2) tab_okD(7)[OF ok] by (simp add: pair_count_def max_asize)
qed

lemma absent_int:
  assumes ok: "tab_ok h t" and k: "key_ok k" "slot_of t k = None" and s: "in_size LJ_MAX_ASIZE k"
  shows "int_of k \<notin> ints t"
proof
  assume "int_of k \<in> ints t"
  moreover have "int_of k \<notin> used (t_array t) (t_asize t)"
  proof
    assume "int_of k \<in> used (t_array t) (t_asize t)"
    moreover obtain j where "int_key k = Some j" "int_of k = unat j" using s by (auto simp: in_size_def int_of_def)
    ultimately have "in_size (t_asize t) k" by (simp add: used_def in_size_def)
    then show False using k(2) by (simp add: slot_none in_array_size)
  qed
  ultimately obtain a v where a: "(a, v) \<in> set (node_pairs (t_node t))" "in_size LJ_MAX_ASIZE a" "int_of k = int_of a"
    by (auto simp: ints_def int_keys_mem)
  have c: "tcanon a = tcanon k" using int_of_inj[OF _ k(1) a(2) s] node_pairs_ok[OF tab_okD(1)[OF ok] a(1)] a(3) by simp
  obtain i where "i < length (t_node t)" "\<not> tvisnil (n_val (t_node t ! i))" "a = n_key (t_node t ! i)" using a(1) by (auto simp: node_pairs_mem)
  then have "has_key (t_node t) k" using c node_val_key[OF tab_okD(1)[OF ok]] by (auto simp: has_key_def)
  then show False using k(2) by (simp add: slot_none)
qed

lemma resize_over: "hbits > LJ_MAX_HBITS \<Longrightarrow> resize_by nk h t asize hbits = Inl LJ_ERR_TABOV"
  by (simp add: resize_by_def newhpart_def Let_def)

context insertion
begin

lemma rehash_by_ok:
  assumes ok: "tab_ok h t" and ek: "in_size LJ_MAX_ASIZE ek \<longrightarrow> int_of ek \<notin> ints t"
  shows "rehash_by nk h t ek = Inl LJ_ERR_TABOV \<and> 2 ^ 26 \<le> pair_count t \<or>
    (\<exists>sz hb t'. rehash_by nk h t ek = Inr t' \<and> resized h t sz hb t' \<and>
       (\<not> in_array t' ek \<longrightarrow> t_hmask t' \<noteq> 0 \<and> nkeys (t_node t') < length (t_node t')))"
proof -
  obtain sz where sz: "rehash_sizes t ek = Some (sz, hsize2hbits (word_of_nat (hash_need t sz + (if in_size sz ek then 0 else 1))))"
    "sz \<le> LJ_MAX_ASIZE" using rehash_sizes_ok[OF ok, of ek] ek by blast
  define n where "n = hash_need t sz + (if in_size sz ek then 0 else 1)"
  define hb where "hb = hsize2hbits (word_of_nat n)"
  have n: "n < 2 ^ 32" "n \<le> pair_count t + 1" using hash_need_le[of t sz] pair_count_bound[OF ok] by (simp_all add: n_def)
  note room' = hsize2hbits_room[OF n(1), folded hb_def]
  have e: "rehash_by nk h t ek = resize_by nk h t sz hb" using sz(1) by (simp add: rehash_by_def hb_def n_def)
  show ?thesis
  proof (cases "hb \<le> LJ_MAX_HBITS")
    case False
    have "\<not> n \<le> 2 ^ 26" using room'(2)[of 26] False by (auto simp: LJ_MAX_HBITS_def)
    then show ?thesis using e resize_over[of hb nk h t sz] False n(2) by simp
  next
    case True
    have need: "hash_need t sz \<le> (if hb = 0 then 0 else 2 ^ hb)" using room'(1) by (auto simp: n_def split: if_splits)
    obtain t' where t': "resize_by nk h t sz hb = Inr t'" "resized h t sz hb t'" using resize_by_ok[OF ok sz(2) True need] by blast
    have "t_hmask t' \<noteq> 0 \<and> nkeys (t_node t') < length (t_node t')" if a: "\<not> in_array t' ek"
    proof -
      have "\<not> in_size sz ek" using a t'(2) by (simp add: in_array_size resized_def)
      then have m: "Suc (hash_need t sz) \<le> (if hb = 0 then 0 else 2 ^ hb)" using room'(1) by (simp add: n_def)
      then have hb0: "hb \<noteq> 0" by (simp split: if_splits)
      have l: "length (t_node t') = 2 ^ hb" "nkeys (t_node t') \<le> hash_need t sz" using t'(2) by (simp_all add: resized_def)
      have "unat (t_hmask t') + 1 = 2 ^ hb" using tab_okD(2)[of h t'] t'(2) l by (simp add: resized_def)
      then have "t_hmask t' \<noteq> 0" using hb0 by (cases hb) auto
      then show ?thesis using l m hb0 by simp
    qed
    then show ?thesis using e t' by (intro disjI2 exI[of _ sz] exI[of _ hb] exI[of _ t']) simp
  qed
qed

end

section \<open>Inserting a key\<close>

text \<open>A slot for a key, in a table that stands for the same map.\<close>

definition entered :: "str_hash_of \<Rightarrow> GCtab \<Rightarrow> TValue \<Rightarrow> Slot \<Rightarrow> GCtab \<Rightarrow> bool" where
  "entered h t k s t' \<longleftrightarrow> tab_ok h t' \<and> tab_map t' = tab_map t \<and> slot_of t' k = Some s"

definition entered_or_full :: "str_hash_of \<Rightarrow> GCtab \<Rightarrow> TValue \<Rightarrow> tab_res \<Rightarrow> bool" where
  "entered_or_full h t k r \<longleftrightarrow> r = Inl LJ_ERR_TABOV \<and> 2 ^ 26 \<le> pair_count t \<or> (\<exists>s t'. r = Inr (s, t') \<and> entered h t k s t')"

lemma entered_cong: "key_ok k \<Longrightarrow> key_ok k' \<Longrightarrow> tcanon k = tcanon k' \<Longrightarrow> entered h t k s t' = entered h t k' s t'"
  using slot_of_cong[of k k'] by (simp add: entered_def)

lemma entered_nomm: "entered h (t\<lparr>t_nomm := x\<rparr>) k s t' = entered h t k s t'" "pair_count (t\<lparr>t_nomm := x\<rparr>) = pair_count t"
  by (simp_all add: entered_def pair_count_def)

lemma entered_inserted:
  "tab_ok h t \<Longrightarrow> key_ok k \<Longrightarrow> \<not> in_array t k \<Longrightarrow> inserted h t k n t' \<Longrightarrow> entered h t k (Hash n) t'"
  using inserted_slot[of k t h n t'] inserted_map[of h t k n t'] by (simp add: entered_def)

lemma newkey_no_room:
  assumes ok: "tab_ok h t" and nr: "t_hmask t \<noteq> 0 \<Longrightarrow> \<not> tvisnil (n_val (t_node t ! hashkey h t k)) \<and> find_free (t_node t) (t_freetop t) = None"
  shows "newkey_by nk h t k = (case rehash_by nk h t k of Inl e \<Rightarrow> Inl e | Inr t \<Rightarrow> set_by nk h t k)"
proof (cases "t_hmask t = 0")
  case True
  then show ?thesis using tab_okD(3)[OF ok] by (simp add: newkey_by_def Let_def)
next
  case False
  then show ?thesis using nr by (simp add: newkey_by_def Let_def)
qed

context insertion
begin

lemma set_by_room:
  assumes ok: "tab_ok h t" and k: "key_ok k" and r: "\<not> in_array t k \<Longrightarrow> t_hmask t \<noteq> 0 \<and> nkeys (t_node t) < length (t_node t)"
  shows "\<exists>s t'. set_by nk h t k = Inr (s, t') \<and> entered h t k s t'"
proof -
  let ?t = "t\<lparr>t_nomm := 0\<rparr>"
  have ok': "tab_ok h ?t" using ok by simp
  show ?thesis
  proof (cases "slot_of t k")
    case (Some s)
    then show ?thesis using ok by (simp add: set_by_slot[OF ok k] entered_def)
  next
    case None
    then have a: "\<not> in_array t k" by (simp add: slot_none)
    note ik = ins_key[OF k]
    have "slot_of ?t (ins_key k) = None" using slot_of_cong[OF ik(1) k ik(2), of ?t] None by simp
    then obtain n t' where n: "nk ?t (ins_key k) = Inr (Hash n, t')" "inserted h ?t (ins_key k) n t'"
      using room[OF ok' ik(1)] r[OF a] by fastforce
    have "\<not> in_array ?t (ins_key k)" using a in_array_cong[OF ik(1) k ik(2)] by (simp add: tab_ok_nomm)
    then have "entered h t k (Hash n) t'"
      using entered_inserted[OF ok' ik(1) _ n(2)] entered_cong[OF ik(1) k ik(2)] entered_nomm by simp
    then show ?thesis using n None by (simp add: set_by_slot[OF ok k])
  qed
qed

lemma newkey_ok:
  assumes ok: "tab_ok h t" and k: "key_ok k" "slot_of t k = None"
  shows "entered_or_full h t k (newkey_by nk h t k)"
proof (cases "t_hmask t \<noteq> 0 \<and> (tvisnil (n_val (t_node t ! hashkey h t k)) \<or> find_free (t_node t) (t_freetop t) \<noteq> None)")
  case True
  then obtain n t' where n: "newkey_by nk h t k = Inr (Hash n, t')" "inserted h t k n t'"
    using newkey_main[OF ok k] newkey_free[OF ok k] newkey_move[OF ok k] by blast
  have "\<not> in_array t k" using k(2) by (simp add: slot_none)
  then show ?thesis using n entered_inserted[OF ok k(1) _ n(2)] by (simp add: entered_or_full_def)
next
  case False
  have e: "newkey_by nk h t k = (case rehash_by nk h t k of Inl e \<Rightarrow> Inl e | Inr t \<Rightarrow> set_by nk h t k)"
    by (rule newkey_no_room[OF ok]) (use False in blast)
  have "in_size LJ_MAX_ASIZE k \<longrightarrow> int_of k \<notin> ints t" using absent_int[OF ok k] by blast
  from rehash_by_ok[OF ok this] show ?thesis
  proof (elim disjE exE conjE)
    assume "rehash_by nk h t k = Inl LJ_ERR_TABOV" "2 ^ 26 \<le> pair_count t"
    then show ?thesis by (simp add: e entered_or_full_def)
  next
    fix sz hb t1
    assume r: "rehash_by nk h t k = Inr t1" "resized h t sz hb t1"
      "\<not> in_array t1 k \<longrightarrow> t_hmask t1 \<noteq> 0 \<and> nkeys (t_node t1) < length (t_node t1)"
    have "tab_ok h t1" using r(2) by (simp add: resized_def)
    then obtain s t' where "set_by nk h t1 k = Inr (s, t')" "entered h t1 k s t'" using set_by_room[OF _ k(1)] r(3) by blast
    then show ?thesis using r(1,2) by (simp add: e entered_or_full_def entered_def resized_def)
  qed
qed

end

lemma lj_tab_newkey_ok:
  assumes "tab_ok h t" "key_ok k" "slot_of t k = None"
  shows "entered_or_full h t k (lj_tab_newkey (Suc (Suc n)) h t k)"
  using tab.newkey_ok[OF assms] by simp

lemma lj_tab_set_entered:
  assumes ok: "tab_ok h t" and k: "key_ok k"
  shows "entered_or_full h t k (lj_tab_set (Suc (Suc n)) h t k)"
proof (cases "slot_of t k")
  case (Some s)
  then show ?thesis using ok by (simp add: lj_tab_set_def set_by_slot[OF ok k] entered_or_full_def entered_def del: lj_tab_newkey.simps)
next
  case None
  let ?t = "t\<lparr>t_nomm := 0\<rparr>"
  note ik = ins_key[OF k]
  have ok': "tab_ok h ?t" using ok by simp
  have "slot_of ?t (ins_key k) = None" using slot_of_cong[OF ik(1) k ik(2), of ?t] None by simp
  from lj_tab_newkey_ok[OF ok' ik(1) this, of n] show ?thesis
    using None entered_cong[OF ik(1) k ik(2), of h t]
    by (simp add: lj_tab_set_def set_by_slot[OF ok k] entered_or_full_def entered_nomm del: lj_tab_newkey.simps)
qed

lemma lj_tab_setint_entered:
  assumes ok: "tab_ok h t"
  shows "entered_or_full h t (setintV i) (lj_tab_setint (Suc (Suc n)) h t i)"
proof (cases "inarray t i")
  case True
  then have "slot_of t (setintV i) = Some (Arr (unat i))" by (simp add: slot_of_def)
  then show ?thesis using True ok by (simp add: lj_tab_setint_def setint_by_def entered_or_full_def entered_def)
next
  case False
  then have a: "\<not> in_array t (setintV i)" by (simp add: in_array_def)
  have "setinth_by nk t i = (case slot_of t (setintV i) of Some s \<Rightarrow> Inr (s, t) | None \<Rightarrow> nk t (setintV i))" for nk
    unfolding setinth_by_def Let_def set_in_chain_eq[OF search_int[OF ok]] slot_hash[OF a] by (simp split: option.splits)
  then show ?thesis using False lj_tab_newkey_ok[OF ok, of "setintV i" n] ok
    by (cases "slot_of t (setintV i)")
      (simp_all add: lj_tab_setint_def setint_by_def entered_or_full_def entered_def del: lj_tab_newkey.simps)
qed

lemma lj_tab_setstr_entered:
  assumes ok: "tab_ok h t"
  shows "entered_or_full h t (setstrV s) (lj_tab_setstr (Suc (Suc n)) h t s)"
proof -
  have k: "tvisstr (setstrV s)" "tv_lo (setstrV s) = s" by (simp_all add: tvisstr_def setstrV_def)
  note sk = strkey[OF k(1)]
  have "\<not> in_array t (setstrV s)" using sk(4) by (simp add: in_array_def)
  then have "setstr_by nk h t s = (case slot_of t (setstrV s) of Some s \<Rightarrow> Inr (s, t) | None \<Rightarrow> nk t (setstrV s))" for nk
    using set_in_chain_eq[OF search_str[OF ok k(1)], of nk "setstrV s"] by (simp add: setstr_by_def k(2) slot_hash split: option.splits)
  then show ?thesis using lj_tab_newkey_ok[OF ok sk(2), of n] ok
    by (cases "slot_of t (setstrV s)") (simp_all add: lj_tab_setstr_def entered_or_full_def entered_def del: lj_tab_newkey.simps)
qed

end
