(* ===== verification/LJ_TabIter.thy ===== *)
theory LJ_TabIter
  imports LJ_TabRefine
begin

text \<open>
  Traversal and length: \<open>lj_tab_next\<close> steps through the pairs of a table in the order of its slots, and
  \<open>lj_tab_len\<close> returns a border.
\<close>

section \<open>Traversal\<close>

lemma array_pairs_find:
  "array_pairs i (drop i xs) =
     (case find (\<lambda>j. \<not> tvisnil (xs ! j)) [i..<length xs] of
        None \<Rightarrow> []
      | Some j \<Rightarrow> (setintV (word_of_nat j), xs ! j) # array_pairs (j + 1) (drop (j + 1) xs))"
proof (induction "length xs - i" arbitrary: i)
  case 0
  then show ?case by simp
next
  case (Suc m)
  then have i: "i < length xs" by simp
  have d: "drop i xs = xs ! i # drop (i + 1) xs" using Cons_nth_drop_Suc[OF i] by simp
  have u: "[i..<length xs] = i # [i + 1..<length xs]" using i by (simp add: upt_conv_Cons)
  have "m = length xs - (i + 1)" using Suc.hyps(2) by simp
  note IH = Suc.hyps(1)[OF this]
  show ?case
  proof (cases "tvisnil (xs ! i)")
    case True
    then show ?thesis unfolding d u using IH by simp
  next
    case False
    then show ?thesis unfolding d u by simp
  qed
qed

lemma node_pairs_find:
  "node_pairs (drop i ns) =
     (case find (\<lambda>j. \<not> tvisnil (n_val (ns ! j))) [i..<length ns] of
        None \<Rightarrow> []
      | Some j \<Rightarrow> (n_key (ns ! j), n_val (ns ! j)) # node_pairs (drop (j + 1) ns))"
proof (induction "length ns - i" arbitrary: i)
  case 0
  then show ?case by simp
next
  case (Suc m)
  then have i: "i < length ns" by simp
  have d: "drop i ns = ns ! i # drop (i + 1) ns" using Cons_nth_drop_Suc[OF i] by simp
  have u: "[i..<length ns] = i # [i + 1..<length ns]" using i by (simp add: upt_conv_Cons)
  have "m = length ns - (i + 1)" using Suc.hyps(2) by simp
  note IH = Suc.hyps(1)[OF this]
  show ?case
  proof (cases "tvisnil (n_val (ns ! i))")
    case True
    then show ?thesis unfolding d u using IH by simp
  next
    case False
    then show ?thesis unfolding d u by simp
  qed
qed

text \<open>The pairs from a traversal index on.\<close>

definition pairs_from :: "GCtab \<Rightarrow> nat \<Rightarrow> (TValue \<times> TValue) list" where
  "pairs_from t i = array_pairs i (drop i (t_array t)) @ node_pairs (drop (i - t_asize t) (t_node t))"

lemma keyindex_array:
  assumes "j < t_asize t" "t_asize t \<le> LJ_MAX_ASIZE"
  shows "keyindex h t (setintV (word_of_nat j)) = Inr (j + 1)"
proof -
  have "unat (word_of_nat j :: u32) = j" using assms by (intro unat_of_nat32) (simp add: max_asize)
  moreover have "dbl_eq (setintV i) (setintV i)" for i
    using int_key_setintV[of i] by (auto simp: int_key_def split: if_splits)
  ultimately show ?thesis using assms(1) setintV_key[of "word_of_nat j"] by (simp add: keyindex_def Let_def)
qed

lemma keyindex_node:
  assumes ok: "tab_ok h t" and j: "j < length (t_node t)" "\<not> tvisnil (n_val (t_node t ! j))"
  shows "keyindex h t (n_key (t_node t ! j)) = Inr (t_asize t + j + 1)"
proof -
  let ?k = "n_key (t_node t ! j)"
  have nk: "\<not> tvisnil ?k" using node_val_key[OF tab_okD(1)[OF ok] j] .
  then have ko: "key_ok ?k" using nodes_okD(3)[OF tab_okD(1)[OF ok] j(1)] by simp
  have na: "\<not> (tvisnum ?k \<and> unat (lj_num2int ?k) < t_asize t \<and> dbl_eq ?k (setintV (lj_num2int ?k)))"
  proof
    assume a: "tvisnum ?k \<and> unat (lj_num2int ?k) < t_asize t \<and> dbl_eq ?k (setintV (lj_num2int ?k))"
    then have "int_key ?k = Some (lj_num2int ?k)" by (simp add: int_key_def)
    then show False using tab_okD(6)[OF ok j(1) nk] a by (simp add: inarray_def)
  qed
  have "node_of (t_node t) ?k = Some j" using node_of_Some[OF tab_okD(1)[OF ok]] j(1) nk by (simp add: key_at_def)
  then show ?thesis using na nk search_gen[OF ok ko] by (simp add: keyindex_def Let_def)
qed

lemma next_step:
  assumes ok: "tab_ok h t" and i: "keyindex h t key = Inr i"
  shows "pairs_from t i = [] \<and> lj_tab_next h t key = Inr None \<or>
    (\<exists>k v j. pairs_from t i = (k, v) # pairs_from t j \<and> lj_tab_next h t key = Inr (Some (k, v)) \<and> keyindex h t k = Inr j)"
proof -
  have m: "max i (t_asize t) - t_asize t = i - t_asize t" by simp
  have hl: "unat (t_hmask t) + 1 = length (t_node t)" using tab_okD(2)[OF ok] by simp
  show ?thesis
  proof (cases "array_from t i")
    case (Some j)
    then have j: "j < t_asize t" "find (\<lambda>j. \<not> tvisnil (t_array t ! j)) [i..<length (t_array t)] = Some j"
      by (auto simp: array_from_def t_asize_def find_Some_iff)
    have "i \<le> j" using j(2) by (auto simp: find_Some_iff)
    then have "node_pairs (drop (i - t_asize t) (t_node t)) = node_pairs (drop (j + 1 - t_asize t) (t_node t))" using j(1) by simp
    then have "pairs_from t i = (setintV (word_of_nat j), t_array t ! j) # pairs_from t (j + 1)"
      unfolding pairs_from_def by (subst array_pairs_find) (simp add: j(2))
    then show ?thesis using Some i keyindex_array[OF j(1) tab_okD(7)[OF ok], of h]
      by (intro disjI2 exI[of _ "setintV (word_of_nat j)"] exI[of _ "t_array t ! j"] exI[of _ "j + 1"]) (simp add: lj_tab_next_def)
  next
    case None
    then have a: "array_pairs i (drop i (t_array t)) = []" by (subst array_pairs_find) (simp add: array_from_def t_asize_def)
    show ?thesis
    proof (cases "hash_from t (i - t_asize t)")
      case n: None
      then have "node_pairs (drop (i - t_asize t) (t_node t)) = []"
        unfolding hash_from_def hl by (subst node_pairs_find) simp
      then show ?thesis using a None n i m by (simp add: pairs_from_def lj_tab_next_def)
    next
      case (Some j)
      then have f: "find (\<lambda>j. \<not> tvisnil (n_val (t_node t ! j))) [i - t_asize t..<length (t_node t)] = Some j"
        unfolding hash_from_def hl .
      then have j: "j < length (t_node t)" "\<not> tvisnil (n_val (t_node t ! j))" by (auto simp: find_Some_iff)
      have "array_pairs (t_asize t + j + 1) (drop (t_asize t + j + 1) (t_array t)) = []" by (simp add: t_asize_def)
      then have "pairs_from t i = (n_key (t_node t ! j), n_val (t_node t ! j)) # pairs_from t (t_asize t + j + 1)"
        unfolding pairs_from_def a by (subst node_pairs_find) (simp add: f)
      then show ?thesis using Some None i m keyindex_node[OF ok j]
        by (intro disjI2 exI[of _ "n_key (t_node t ! j)"] exI[of _ "n_val (t_node t ! j)"] exI[of _ "t_asize t + j + 1"])
          (simp add: lj_tab_next_def)
    qed
  qed
qed

text \<open>The loop of a client that traverses a table from a key on.\<close>

fun traverse :: "nat \<Rightarrow> str_hash_of \<Rightarrow> GCtab \<Rightarrow> TValue \<Rightarrow> ErrMsg + (TValue \<times> TValue) list" where
  "traverse 0 h t key = Inl NO_RETURN"
| "traverse (Suc m) h t key =
     (case lj_tab_next h t key of
        Inl e \<Rightarrow> Inl e
      | Inr None \<Rightarrow> Inr []
      | Inr (Some (k, v)) \<Rightarrow> (case traverse m h t k of Inl e \<Rightarrow> Inl e | Inr ps \<Rightarrow> Inr ((k, v) # ps)))"

lemma traverse_from:
  "tab_ok h t \<Longrightarrow> keyindex h t key = Inr i \<Longrightarrow> length (pairs_from t i) < m \<Longrightarrow> traverse m h t key = Inr (pairs_from t i)"
proof (induction m arbitrary: key i)
  case (Suc m)
  from next_step[OF Suc.prems(1,2)] show ?case
  proof (elim disjE exE conjE)
    fix k v j
    assume p: "pairs_from t i = (k, v) # pairs_from t j" "lj_tab_next h t key = Inr (Some (k, v))" "keyindex h t k = Inr j"
    have "traverse m h t k = Inr (pairs_from t j)" using Suc.IH[OF Suc.prems(1) p(3)] Suc.prems(3) p(1) by simp
    then show ?thesis using p by simp
  qed simp
qed simp

definition all_pairs :: "GCtab \<Rightarrow> (TValue \<times> TValue) list" where
  "all_pairs t = array_pairs 0 (t_array t) @ node_pairs (t_node t)"

lemma traverse_all:
  assumes ok: "tab_ok h t" and m: "pair_count t < m"
  shows "traverse m h t (setnilV 0) = Inr (all_pairs t)"
proof -
  have "\<not> tvisnum (setnilV 0)" using nil_pri[of "setnilV 0"] pri_notnum by simp
  then have "keyindex h t (setnilV 0) = Inr 0" by (simp add: keyindex_def Let_def)
  then show ?thesis using traverse_from[OF ok, of "setnilV 0" 0 m] m by (simp add: pairs_from_def all_pairs_def pair_count_def)
qed

lemma all_pairs_map:
  assumes ok: "tab_ok h t" and k: "key_ok k"
  shows "tab_map t k = Some v \<longleftrightarrow> (\<exists>k'. (k', v) \<in> set (all_pairs t) \<and> tcanon k' = tcanon k)"
proof -
  note nok = tab_okD(1)[OF ok]
  have asz: "t_asize t < 2 ^ 32" using tab_okD(7)[OF ok] by (simp add: max_asize)
  have A: "(k', v) \<in> set (array_pairs 0 (t_array t)) \<longleftrightarrow> (\<exists>i. inarray t i \<and> k' = setintV i \<and> v = t_array t ! unat i \<and> \<not> tvisnil v)" for k'
  proof
    assume "(k', v) \<in> set (array_pairs 0 (t_array t))"
    then obtain j where j: "j < t_asize t" "\<not> tvisnil v" "v = t_array t ! j" "k' = setintV (word_of_nat j)"
      by (auto simp: array_pairs_mem t_asize_def)
    have "unat (word_of_nat j :: u32) = j" using asz j(1) by (intro unat_of_nat32) simp
    then show "\<exists>i. inarray t i \<and> k' = setintV i \<and> v = t_array t ! unat i \<and> \<not> tvisnil v"
      using j by (intro exI[of _ "word_of_nat j"]) (simp add: inarray_def)
  next
    assume "\<exists>i. inarray t i \<and> k' = setintV i \<and> v = t_array t ! unat i \<and> \<not> tvisnil v"
    then obtain i where "inarray t i" "k' = setintV i" "v = t_array t ! unat i" "\<not> tvisnil v" by blast
    then show "(k', v) \<in> set (array_pairs 0 (t_array t))"
      unfolding array_pairs_mem by (intro exI[of _ "unat i"]) (simp add: inarray_def t_asize_def)
  qed
  show ?thesis
  proof (cases "in_array t k")
    case True
    then obtain i where i: "int_key k = Some i" "inarray t i" by (auto simp: in_array_def)
    have c: "tcanon k = setintV i" using int_key_canon[OF k] i(1) by blast
    have "tcanon k' \<noteq> tcanon k" if x: "(k', v) \<in> set (node_pairs (t_node t))" for k'
    proof
      assume e: "tcanon k' = tcanon k"
      obtain j where j: "j < length (t_node t)" "k' = n_key (t_node t ! j)" "\<not> tvisnil (n_val (t_node t ! j))" using x by (auto simp: node_pairs_mem)
      have "int_key k' = Some i" using int_key_cong[OF _ k e] node_pairs_ok[OF nok x] i(1) by simp
      then show False using tab_okD(6)[OF ok j(1), of i] j(2) node_val_key[OF nok j(1,3)] i(2) by simp
    qed
    moreover have "tab_map t k = Some v \<longleftrightarrow> v = t_array t ! unat i \<and> \<not> tvisnil v"
      using i k by (auto simp: tab_map_def slot_of_def slot_val_def)
    moreover have "(\<exists>k'. (k', v) \<in> set (array_pairs 0 (t_array t)) \<and> tcanon k' = tcanon k) \<longleftrightarrow> v = t_array t ! unat i \<and> \<not> tvisnil v"
    proof -
      have "(\<exists>k'. (\<exists>j. inarray t j \<and> k' = setintV j \<and> v = t_array t ! unat j \<and> \<not> tvisnil v) \<and> tcanon k' = setintV i) \<longleftrightarrow>
        v = t_array t ! unat i \<and> \<not> tvisnil v"
        using i(2) setintV_ok(2) setintV_inj by metis
      then show ?thesis unfolding A c .
    qed
    ultimately show ?thesis unfolding all_pairs_def set_append Un_iff by blast
  next
    case False
    have "tcanon k' \<noteq> tcanon k" if x: "(k', v) \<in> set (array_pairs 0 (t_array t))" for k'
    proof
      assume e: "tcanon k' = tcanon k"
      obtain i where "inarray t i" "k' = setintV i" using x unfolding A by blast
      then show False using e int_key_canon[OF k, of i] False by (simp add: in_array_def)
    qed
    then show ?thesis unfolding all_pairs_def set_append Un_iff tab_map_live[OF ok k False] node_pairs_live[OF nok] by blast
  qed
qed

lemma all_pairs_distinct:
  assumes ok: "tab_ok h t"
  shows "distinct (map (tcanon \<circ> fst) (all_pairs t))"
proof -
  note nok = tab_okD(1)[OF ok]
  have asz: "t_asize t < 2 ^ 32" using tab_okD(7)[OF ok] by (simp add: max_asize)
  have "tcanon a \<noteq> tcanon b" if a: "(a, v) \<in> set (array_pairs 0 (t_array t))" and b: "(b, w) \<in> set (node_pairs (t_node t))" for a b v w
  proof
    assume e: "tcanon a = tcanon b"
    obtain i where i: "i < t_asize t" "a = setintV (word_of_nat i)" using a by (auto simp: array_pairs_mem t_asize_def)
    have u: "unat (word_of_nat i :: u32) = i" using asz i(1) by (intro unat_of_nat32) simp
    obtain j where j: "j < length (t_node t)" "b = n_key (t_node t ! j)" "\<not> tvisnil (n_val (t_node t ! j))" using b by (auto simp: node_pairs_mem)
    have "int_key b = Some (word_of_nat i)" using int_key_canon[of b "word_of_nat i"] node_pairs_ok[OF nok b] e i(2) by simp
    then show False using tab_okD(6)[OF ok j(1)] j(2) node_val_key[OF nok j(1,3)] i(1) u by (simp add: inarray_def)
  qed
  then have "(tcanon \<circ> fst) ` set (array_pairs 0 (t_array t)) \<inter> (tcanon \<circ> fst) ` set (node_pairs (t_node t)) = {}" by fastforce
  then show ?thesis using array_pairs_distinct[of 0 "t_array t"] node_pairs_distinct[OF nok] asz by (simp add: all_pairs_def t_asize_def)
qed

section \<open>Length\<close>

text \<open>A border: its key has a value (or it is 0) and the next key has none.\<close>

definition has_int :: "GCtab \<Rightarrow> nat \<Rightarrow> bool" where
  "has_int t n \<longleftrightarrow> tab_map t (setintV (word_of_nat n)) \<noteq> None"

definition is_border :: "GCtab \<Rightarrow> nat \<Rightarrow> bool" where
  "is_border t n \<longleftrightarrow> (n = 0 \<or> has_int t n) \<and> \<not> has_int t (n + 1)"

lemma int_present_ok:
  assumes ok: "tab_ok h t"
  shows "int_present t j = Inr (has_int t j)"
proof -
  let ?w = "word_of_nat j :: u32"
  have "lj_tab_getint t ?w = Inr (slot_of t (setintV ?w))"
    using search_int[OF ok, of ?w] by (simp add: lj_tab_getint_def lj_tab_getinth_def Let_def slot_of_def)
  then show ?thesis by (simp add: int_present_def has_int_def tab_map_def split: option.split)
qed

lemma has_int_array:
  assumes "j < t_asize t" "tab_ok h t"
  shows "has_int t j \<longleftrightarrow> \<not> tvisnil (t_array t ! j)"
proof -
  have "unat (word_of_nat j :: u32) = j" using assms tab_okD(7)[OF assms(2)] by (intro unat_of_nat32) (simp add: max_asize)
  then show ?thesis using assms(1) by (simp add: has_int_def tab_map_def slot_of_def inarray_def slot_val_def)
qed

lemma binary_search_ok:
  assumes ok: "tab_ok h t"
  shows "i < j \<Longrightarrow> i = 0 \<or> has_int t i \<Longrightarrow> \<not> has_int t j \<Longrightarrow> \<exists>n. binary_search t i j = Inr n \<and> is_border t n \<and> i \<le> n \<and> n < j"
proof (induction "j - i" arbitrary: i j rule: less_induct)
  case less
  show ?case
  proof (cases "j - i > 1")
    case False
    then have "j = i + 1" using less.prems(1) by simp
    then show ?thesis using less.prems False by (subst binary_search.simps) (simp add: is_border_def)
  next
    case True
    let ?m = "(i + j) div 2"
    have m: "i < ?m" "?m < j" using True by auto
    have e: "binary_search t i j = (if has_int t ?m then binary_search t ?m j else binary_search t i ?m)"
      using True int_present_ok[OF ok, of ?m] by (subst binary_search.simps) (simp add: Let_def)
    show ?thesis
    proof (cases "has_int t ?m")
      case p: True
      have "j - ?m < j - i" using m by linarith
      from less.hyps[OF this m(2)] p less.prems(3) obtain n where "binary_search t ?m j = Inr n" "is_border t n" "?m \<le> n" "n < j" by blast
      then show ?thesis using e p m by auto
    next
      case p: False
      have "?m - i < j - i" using m by linarith
      from less.hyps[OF this m(1) less.prems(2) p] obtain n where "binary_search t i ?m = Inr n" "is_border t n" "i \<le> n" "n < ?m" by blast
      then show ?thesis using e p m by auto
    qed
  qed
qed

lemma array_search_ok:
  assumes ok: "tab_ok h t"
  shows "1 \<le> i \<Longrightarrow> i < j \<Longrightarrow> j \<le> t_asize t \<Longrightarrow> i = 1 \<or> has_int t (i - 1) \<Longrightarrow> \<not> has_int t (j - 1) \<Longrightarrow>
    is_border t (array_search t i j)"
proof (induction "j - i" arbitrary: i j rule: less_induct)
  case less
  show ?case
  proof (cases "j - i > 1")
    case False
    then have "j = i + 1" using less.prems(2) by simp
    then show ?thesis using less.prems False by (subst array_search.simps) (auto simp: is_border_def)
  next
    case True
    let ?m = "(i + j) div 2"
    have m: "i < ?m" "?m < j" using True by auto
    have p: "has_int t (?m - 1) \<longleftrightarrow> \<not> tvisnil (t_array t ! (?m - 1))"
      using has_int_array[of "?m - 1" t h] ok m less.prems(3) by simp
    have e: "array_search t i j = (if has_int t (?m - 1) then array_search t ?m j else array_search t i ?m)"
      using True p by (subst array_search.simps) (simp add: Let_def)
    have l: "j - ?m < j - i" "?m - i < j - i" "1 \<le> ?m" "?m \<le> t_asize t" using m less.prems(3) by linarith+
    show ?thesis
      using e less.hyps[OF l(1) l(3) m(2) less.prems(3) _ less.prems(5)] less.hyps[OF l(2) less.prems(1) m(1) l(4) less.prems(4)]
      by (cases "has_int t (?m - 1)") simp_all
  qed
qed

text \<open>There are no more present integers in a row than slots.\<close>

lemma has_int_slots:
  assumes ok: "tab_ok h t" and all: "\<And>j. 1 \<le> j \<Longrightarrow> j \<le> n \<Longrightarrow> has_int t j" and n: "n < 2 ^ 32"
  shows "n \<le> pair_count t"
proof -
  let ?f = "\<lambda>j::nat. setintV (word_of_nat j)"
  have "?f ` {1..n} \<subseteq> tcanon ` fst ` set (all_pairs t)"
  proof
    fix x assume "x \<in> ?f ` {1..n}"
    then obtain j where j: "x = ?f j" "has_int t j" using all by auto
    then obtain v where "tab_map t (?f j) = Some v" by (auto simp: has_int_def)
    then obtain k' where "(k', v) \<in> set (all_pairs t)" "tcanon k' = tcanon (?f j)" using all_pairs_map[OF ok, of "?f j" v] by auto
    then show "x \<in> tcanon ` fst ` set (all_pairs t)" using j(1) by force
  qed
  then have "card (?f ` {1..n}) \<le> card (tcanon ` fst ` set (all_pairs t))" by (intro card_mono) simp_all
  also have "\<dots> \<le> length (all_pairs t)" using card_image_le[of "set (all_pairs t)" "tcanon \<circ> fst"] card_length[of "all_pairs t"]
    by (simp add: image_comp)
  finally have "card (?f ` {1..n}) \<le> pair_count t" by (simp add: all_pairs_def pair_count_def)
  moreover have "inj_on ?f {1..n}" using n word_nat_inj by (intro inj_onI) (simp add: word_nat_inj)
  ultimately show ?thesis by (simp add: card_image)
qed

lemma linear_search_ok:
  assumes ok: "tab_ok h t"
  shows "1 \<le> i \<Longrightarrow> (\<And>j. 1 \<le> j \<Longrightarrow> j < i \<Longrightarrow> has_int t j) \<Longrightarrow> pair_count t + 2 \<le> m + i \<Longrightarrow> i \<le> pair_count t + 1 \<Longrightarrow>
    \<exists>n. linear_search m t i = Inr n \<and> is_border t n"
proof (induction m arbitrary: i)
  case 0
  then show ?case by simp
next
  case (Suc m)
  show ?case
  proof (cases "has_int t i")
    case False
    then show ?thesis using Suc.prems(1,2) int_present_ok[OF ok, of i] by (cases "i = 1") (auto simp: is_border_def)
  next
    case True
    have a: "has_int t j" if "1 \<le> j" "j \<le> i" for j using Suc.prems(2)[of j] True that by (cases "j = i") simp_all
    have "i < 2 ^ 32" using Suc.prems(4) pair_count_bound[OF ok] by simp
    then have "i \<le> pair_count t" using has_int_slots[OF ok a] by simp
    then obtain n where "linear_search m t (i + 1) = Inr n" "is_border t n" using Suc.IH[of "i + 1"] a Suc.prems(3) by auto
    then show ?thesis using True int_present_ok[OF ok, of i] by simp
  qed
qed

lemma unbound_from_ok:
  assumes ok: "tab_ok h t"
  shows "i < j \<Longrightarrow> i = 0 \<or> has_int t i \<Longrightarrow> \<exists>n. unbound_from t i j = Inr n \<and> is_border t n"
proof (induction "INT_MAX - j" arbitrary: i j rule: less_induct)
  case less
  show ?case
  proof (cases "has_int t j")
    case False
    then show ?thesis using binary_search_ok[OF ok less.prems] int_present_ok[OF ok, of j]
      by (subst unbound_from.simps) fastforce
  next
    case True
    have pc: "pair_count t \<le> t_asize t + length (t_node t)"
      by (simp add: pair_count_def array_pairs_length t_asize_def node_pairs_def add_mono)
    obtain n where l: "linear_search (t_asize t + length (t_node t) + 2) t 1 = Inr n" "is_border t n"
      using linear_search_ok[OF ok, of 1 "t_asize t + length (t_node t) + 2"] pc by auto
    show ?thesis
    proof (cases "j * 2 > INT_MAX - 2 \<or> j = 0")
      case s: True
      then show ?thesis using l True int_present_ok[OF ok, of j] by (subst unbound_from.simps) simp
    next
      case s: False
      then have "INT_MAX - j * 2 < INT_MAX - j" "j < j * 2" by (auto simp: INT_MAX_def)
      from less.hyps[OF this] True obtain n where "unbound_from t j (j * 2) = Inr n" "is_border t n" by blast
      then show ?thesis using s True int_present_ok[OF ok, of j] by (subst unbound_from.simps) simp
    qed
  qed
qed

lemma lj_tab_len_ok:
  assumes ok: "tab_ok h t"
  shows "\<exists>n. lj_tab_len t = Inr n \<and> is_border t n"
proof -
  let ?a = "t_asize t"
  have asz: "?a < 2 ^ 32" using tab_okD(7)[OF ok] by (simp add: max_asize)
  consider "?a > 1" "tvisnil (t_array t ! (?a - 1))" | "\<not> (?a > 1 \<and> tvisnil (t_array t ! (?a - 1)))" by blast
  then show ?thesis
  proof cases
    case 1
    have "\<not> has_int t (?a - 1)" using has_int_array[of "?a - 1" t h] ok 1 by simp
    then have "is_border t (array_search t 1 ?a)" using array_search_ok[OF ok, of 1 ?a] 1(1) by simp
    then show ?thesis using 1 by (simp add: lj_tab_len_def Let_def)
  next
    case 2
    define j where "j = (if ?a \<noteq> 0 then ?a - 1 else ?a)"
    have j: "j = 0 \<or> has_int t j"
      using 2 has_int_array[of "?a - 1" t h] ok by (cases "?a > 1") (auto simp: j_def)
    have e: "lj_tab_len t = (if t_hmask t = 0 then Inr j else unbound_search t j)"
      unfolding lj_tab_len_def Let_def if_not_P[OF 2] j_def ..
    show ?thesis
    proof (cases "t_hmask t = 0")
      case True
      have u: "unat (word_of_nat (j + 1) :: u32) = j + 1" using asz by (intro unat_of_nat32) (auto simp: j_def max_asize split: if_splits)
      have "\<not> inarray t (word_of_nat (j + 1))" unfolding inarray_def u by (auto simp: j_def)
      then have na: "\<not> in_array t (setintV (word_of_nat (j + 1)))" by (simp add: in_array_def)
      obtain n where n: "t_node t = [n]" using tab_okD(2)[OF ok] True by (cases "t_node t") auto
      have "live (t_node t) = {}" using tab_okD(3)[OF ok True] n by (auto simp: live_def)
      then have "tab_map t (setintV (word_of_nat (j + 1))) \<noteq> Some v" for v using tab_map_live[OF ok _ na, of v] by simp
      then have "\<not> has_int t (j + 1)" unfolding has_int_def by (metis not_Some_eq)
      then show ?thesis using e True j by (auto simp: is_border_def)
    next
      case False
      then show ?thesis using e unbound_from_ok[OF ok, of j "j + 1"] j by (simp add: unbound_search_def)
    qed
  qed
qed

end
