(* ===== verification/LJ_TabMain.thy ===== *)
theory LJ_TabMain
  imports LJ_TabIter
begin

text \<open>
  The properties of tables: the operations keep the invariant and refine the operations of a map.
\<close>

section \<open>New, copied and cleared tables\<close>

lemma newtab_eq:
  "newtab asize hbits =
     (if asize > LJ_MAX_ASIZE then Inl LJ_ERR_TABOV
      else let t = \<lparr>t_nomm = NOT 0, t_colo = (if asize > 0 \<and> asize \<le> LJ_MAX_COLOSIZE then word_of_nat asize else 0),
             t_array = replicate asize 0, t_node = [nilnode], t_hmask = 0, t_freetop = 0\<rparr>
           in if hbits \<noteq> 0 then newhpart t hbits else Inr t)"
proof -
  have m: "asize \<le> LJ_MAX_COLOSIZE \<Longrightarrow> \<not> asize > LJ_MAX_ASIZE" by (simp add: LJ_MAX_COLOSIZE_def max_asize)
  consider "asize = 0" | "0 < asize" "asize \<le> LJ_MAX_COLOSIZE" | "0 < asize" "\<not> asize \<le> LJ_MAX_COLOSIZE" by blast
  then show ?thesis by cases (use m in \<open>simp_all add: newtab_def Let_def\<close>)
qed

lemma lj_tab_new_ok:
  assumes "lj_tab_new asize hbits = Inr t"
  shows "tab_ok h t" "key_ok k \<Longrightarrow> tab_map t k = None" "t_asize t = asize" "pair_count t = 0" "asize \<le> LJ_MAX_ASIZE \<and> hbits \<le> LJ_MAX_HBITS"
proof -
  have a: "asize \<le> LJ_MAX_ASIZE" using assms by (auto simp: lj_tab_new_def newtab_eq split: if_splits)
  have b: "hbits \<le> LJ_MAX_HBITS" using assms a by (auto simp: lj_tab_new_def newtab_eq newhpart_def Let_def split: if_splits)
  show "asize \<le> LJ_MAX_ASIZE \<and> hbits \<le> LJ_MAX_HBITS" using a b by simp
  have hm: "hbits \<noteq> 0 \<Longrightarrow> 0 < (word_of_nat (2 ^ hbits - 1) :: u32)"
  proof -
    assume "hbits \<noteq> 0"
    then have "2 \<le> (2::nat) ^ hbits" by (cases hbits) simp_all
    then have "unat (word_of_nat (2 ^ hbits - 1) :: u32) \<noteq> 0" using hbits_mask[OF b] by linarith
    then show ?thesis by (simp add: word_gt_0 unat_eq_0)
  qed
  have t: "empty_nodes (t_node t)" "length (t_node t) = 2 ^ hbits" "unat (t_hmask t) + 1 = 2 ^ hbits"
    "t_freetop t = (if hbits = 0 then 0 else 2 ^ hbits)" "t_array t = map setnilV (replicate asize 0)"
  proof -
    define base where "base = \<lparr>t_nomm = NOT 0, t_colo = (if asize > 0 \<and> asize \<le> LJ_MAX_COLOSIZE then word_of_nat asize else 0),
             t_array = map setnilV (replicate asize 0), t_node = [nilnode], t_hmask = 0, t_freetop = 0\<rparr>"
    have "t = (if hbits = 0 then base else clearhpart (base\<lparr>t_node := replicate (2 ^ hbits) \<lparr>n_val = 0, n_key = 0, n_next = None\<rparr>,
        t_freetop := 2 ^ hbits, t_hmask := word_of_nat (2 ^ hbits - 1)\<rparr>))"
      using assms a b hm by (cases "hbits = 0") (simp_all add: lj_tab_new_def newtab_eq newhpart_def clearapart_def Let_def base_def split: if_splits)
    then show "empty_nodes (t_node t)" "length (t_node t) = 2 ^ hbits" "unat (t_hmask t) + 1 = 2 ^ hbits"
      "t_freetop t = (if hbits = 0 then 0 else 2 ^ hbits)" "t_array t = map setnilV (replicate asize 0)"
      using hbits_mask[OF b] by (simp_all add: base_def clearhpart_def empty_nodes_def nilnode_def)
  qed
  show "t_asize t = asize" by (simp add: t_asize_def t)
  have na: "tab_map t k = None" if "key_ok k" "in_array t k" for k
    using that t(5) by (auto simp: tab_map_def slot_of_def in_array_def inarray_def t_asize_def slot_val_def)
  note e = empty_tab_ok[OF t(1,2) b t(3,4)]
  show "tab_ok h t" using e(1) a t(5) by (simp add: t_asize_def)
  show "key_ok k \<Longrightarrow> tab_map t k = None" using e(3)[of k] na[of k] a t(5) by (cases "in_array t k") (simp_all add: t_asize_def)
  have "node_pairs (t_node t) = []" using t(1) by (simp add: node_pairs_def empty_nodes_def)
  then show "pair_count t = 0" by (simp add: pair_count_def array_pairs_length t(5))
qed

lemma lj_tab_new_error: "lj_tab_new asize hbits = Inl e \<longleftrightarrow> e = LJ_ERR_TABOV \<and> (asize > LJ_MAX_ASIZE \<or> hbits > LJ_MAX_HBITS)"
  by (auto simp: lj_tab_new_def newtab_eq newhpart_def Let_def)

lemma hbits_of_len:
  assumes ok: "tab_ok h t"
  shows "length (t_node t) = 2 ^ hbits_of t" "hbits_of t \<le> LJ_MAX_HBITS" "hbits_of t = 0 \<longleftrightarrow> t_hmask t = 0"
proof -
  obtain b where b: "b \<le> LJ_MAX_HBITS" "length (t_node t) = 2 ^ b" using tab_okD(8)[OF ok] by blast
  have u: "unat (t_hmask t) = 2 ^ b - 1" using tab_okD(2)[OF ok] b(2) by simp
  have "hbits_of t = b \<and> (b = 0 \<longleftrightarrow> t_hmask t = 0)"
  proof (cases b)
    case 0
    then have "t_hmask t = 0" using u by (simp add: unat_eq_0)
    then show ?thesis using 0 by (simp add: hbits_of_def)
  next
    case (Suc c)
    have "1 \<le> (2::nat) ^ c" by simp
    then have "lj_fls_nat (2 ^ b - 1) = c" unfolding Suc by (intro lj_fls_nat_unique) simp_all
    moreover have "t_hmask t > 0"
    proof -
      have "unat (t_hmask t) = 2 * 2 ^ c - 1" "1 \<le> (2::nat) ^ c" using u Suc by simp_all
      then have "unat (t_hmask t) \<noteq> 0" by linarith
      then show ?thesis by (simp add: word_gt_0 unat_eq_0)
    qed
    ultimately show ?thesis using u Suc by (simp add: hbits_of_def lj_fls_def word_gt_0)
  qed
  then show "length (t_node t) = 2 ^ hbits_of t" "hbits_of t \<le> LJ_MAX_HBITS" "hbits_of t = 0 \<longleftrightarrow> t_hmask t = 0"
    using b by simp_all
qed

lemma tab_map_fields:
  assumes "t_array t' = t_array t" "t_node t' = t_node t" "t_hmask t' = t_hmask t" "t_freetop t' = t_freetop t"
  shows "tab_map t' = tab_map t" "tab_ok h t' = tab_ok h t"
proof -
  have a: "t_asize t' = t_asize t" "inarray t' = inarray t" using assms by (auto simp: t_asize_def inarray_def)
  have k: "hashkey h t' = hashkey h t" by (rule hashkey_hmask[OF assms(3)])
  have s: "slot_of t' = slot_of t" "slot_val t' = slot_val t" unfolding slot_of_def[abs_def] slot_val_def[abs_def] a assms by simp_all
  show "tab_map t' = tab_map t" by (simp only: tab_map_def[abs_def] s)
  show "tab_ok h t' = tab_ok h t" by (simp add: tab_ok_def a k assms)
qed

lemma lj_tab_dup_ok:
  assumes ok: "tab_ok h kt"
  shows "\<exists>t. lj_tab_dup kt = Inr t \<and> tab_ok h t \<and> tab_map t = tab_map kt \<and> t_asize t = t_asize kt"
proof -
  note hb = hbits_of_len[OF ok]
  have a: "\<not> t_asize kt > LJ_MAX_ASIZE" using tab_okD(7)[OF ok] by simp
  define base where "base = \<lparr>t_nomm = 0, t_colo = (if t_asize kt > 0 \<and> t_asize kt \<le> LJ_MAX_COLOSIZE then word_of_nat (t_asize kt) else 0),
      t_array = t_array kt, t_node = [nilnode], t_hmask = 0, t_freetop = 0\<rparr>"
  show ?thesis
  proof (cases "t_hmask kt = 0")
    case True
    then have h0: "hbits_of kt = 0" using hb(3) by simp
    have e: "lj_tab_dup kt = Inr base" using a True h0 by (simp add: lj_tab_dup_def newtab_eq Let_def base_def)
    have n: "empty_nodes (t_node base)" by (simp add: base_def empty_nodes_def nilnode_def)
    have okb: "tab_ok h base"
      using empty_tab_ok(1)[OF n, of 0] a by (simp add: base_def t_asize_def)
    obtain n where n: "t_node kt = [n]" using tab_okD(2)[OF ok] True by (cases "t_node kt") auto
    have "live (t_node kt) = {}" "live (t_node base) = {}" using tab_okD(3)[OF ok True] n by (auto simp: live_def base_def nilnode_def)
    then have "tab_map base = tab_map kt" using tab_map_same[OF ok okb] by (simp add: base_def)
    then show ?thesis using e okb by (simp add: base_def t_asize_def)
  next
    case False
    define t where "t = base\<lparr>t_node := t_node kt, t_hmask := t_hmask kt, t_freetop := t_freetop kt\<rparr>"
    have "word_of_nat (2 ^ hbits_of kt - 1) = t_hmask kt" using tab_okD(2)[OF ok] hb(1) by simp
    then have "lj_tab_dup kt = Inr t"
      using a False hb(2,3) by (simp add: lj_tab_dup_def newtab_eq newhpart_def Let_def base_def t_def word_gt_0)
    then show ?thesis using tab_map_fields(1)[of t kt] tab_map_fields(2)[of t kt h] ok by (simp add: t_def base_def t_asize_def)
  qed
qed

lemma lj_tab_clear_ok:
  assumes ok: "tab_ok h t"
  shows "tab_ok h (lj_tab_clear t) \<and> (\<forall>k. key_ok k \<longrightarrow> tab_map (lj_tab_clear t) k = None) \<and> t_asize (lj_tab_clear t) = t_asize t"
proof -
  let ?t = "lj_tab_clear t"
  note hb = hbits_of_len[OF ok]
  have arr: "t_array ?t = map setnilV (t_array t)" by (simp add: lj_tab_clear_def clearapart_def clearhpart_def Let_def)
  have as: "t_asize ?t = t_asize t" by (simp add: t_asize_def arr)
  have e: "empty_nodes (t_node ?t)"
  proof (cases "t_hmask t = 0")
    case True
    obtain n where n: "t_node t = [n]" using tab_okD(2)[OF ok] True by (cases "t_node t") auto
    then show ?thesis using tab_okD(3)[OF ok True] nodes_okD(2)[OF tab_okD(1)[OF ok], of 0] True
      by (simp add: lj_tab_clear_def clearapart_def Let_def empty_nodes_def)
  qed (auto simp: lj_tab_clear_def clearapart_def clearhpart_def Let_def empty_nodes_def word_gt_0)
  have f: "length (t_node ?t) = 2 ^ hbits_of t" "unat (t_hmask ?t) + 1 = 2 ^ hbits_of t" "t_freetop ?t = (if hbits_of t = 0 then 0 else 2 ^ hbits_of t)"
  proof -
    have l: "length (t_node ?t) = length (t_node t)" "t_hmask ?t = t_hmask t"
      by (simp_all add: lj_tab_clear_def clearapart_def clearhpart_def Let_def)
    show "length (t_node ?t) = 2 ^ hbits_of t" "unat (t_hmask ?t) + 1 = 2 ^ hbits_of t" using l hb(1) tab_okD(2)[OF ok] by simp_all
    show "t_freetop ?t = (if hbits_of t = 0 then 0 else 2 ^ hbits_of t)"
    proof (cases "t_hmask t = 0")
      case True
      then show ?thesis using hb(3) tab_okD(3)[OF ok True] by (simp add: lj_tab_clear_def clearapart_def Let_def)
    next
      case False
      then have "t_freetop ?t = unat (t_hmask t) + 1" by (simp add: lj_tab_clear_def clearapart_def clearhpart_def Let_def word_gt_0)
      then show ?thesis using hb(1,3) False tab_okD(2)[OF ok] by simp
    qed
  qed
  note em = empty_tab_ok[OF e f(1) hb(2) f(2,3)]
  have "tab_map ?t k = None" if "key_ok k" for k
  proof (cases "in_array ?t k")
    case True
    then show ?thesis using that arr by (auto simp: tab_map_def slot_of_def in_array_def inarray_def t_asize_def slot_val_def)
  qed (use em(3)[of k] that tab_okD(7)[OF ok] as in simp)
  then show ?thesis using em(1)[of h] tab_okD(7)[OF ok] as by simp
qed

lemma reasize_fits:
  assumes ok: "tab_ok h t" and n: "t_asize t \<le> n"
  shows "hash_need t n \<le> (if hbits_of t = 0 then 0 else 2 ^ hbits_of t)"
proof -
  note hb = hbits_of_len[OF ok]
  have d: "drop n (t_array t) = []" using n by (simp add: t_asize_def)
  show ?thesis
  proof (cases "hbits_of t = 0")
    case True
    then have h0: "t_hmask t = 0" using hb(3) by simp
    obtain m where m: "t_node t = [m]" using tab_okD(2)[OF ok] h0 by (cases "t_node t") auto
    have "node_pairs (t_node t) = []" using tab_okD(3)[OF ok h0] nodes_okD(2)[OF tab_okD(1)[OF ok], of 0] m by simp
    then show ?thesis using d by (simp add: hash_need_def)
  next
    case False
    have "length (filter (\<lambda>p. \<not> in_size n (fst p)) (node_pairs (t_node t))) \<le> length (node_pairs (t_node t))" by (rule length_filter_le)
    also have "\<dots> \<le> length (t_node t)" by (simp add: node_pairs_def)
    finally show ?thesis using False d hb(1) by (simp add: hash_need_def)
  qed
qed

lemma lj_tab_reasize_ok:
  assumes ok: "tab_ok h t" and n: "t_asize t \<le> n + 1" "n + 1 \<le> LJ_MAX_ASIZE"
  shows "\<exists>t'. lj_tab_reasize (Suc f) h t n = Inr t' \<and> tab_ok h t' \<and> tab_map t' = tab_map t \<and> t_asize t' = n + 1"
  using tab.resize_by_ok[OF ok n(2) hbits_of_len(2)[OF ok] reasize_fits[OF ok n(1)], of f]
  by (auto simp: lj_tab_reasize_def lj_tab_resize_def resized_def simp del: lj_tab_newkey.simps)

lemma lj_tab_rehash_ok:
  assumes ok: "tab_ok h t"
  shows "lj_tab_rehash (Suc f) h t = Inl LJ_ERR_TABOV \<and> 2 ^ 26 \<le> pair_count t \<or>
    (\<exists>t'. lj_tab_rehash (Suc f) h t = Inr t' \<and> tab_ok h t' \<and> tab_map t' = tab_map t)"
proof -
  have "int_key (setnilV 0) = None" using nil_pri[of "setnilV 0"] pri_notnum by (simp add: int_key_def)
  then have "in_size LJ_MAX_ASIZE (setnilV 0) \<longrightarrow> int_of (setnilV 0) \<notin> ints t" by (simp add: in_size_def)
  from tab.rehash_by_ok[OF ok this, of f] show ?thesis
    by (auto simp: lj_tab_rehash_def resized_def simp del: lj_tab_newkey.simps)
qed

section \<open>Tables as maps\<close>

text \<open>What a script sees: reading a key, and writing a value under a key.\<close>

definition tab_get :: "str_hash_of \<Rightarrow> GCtab \<Rightarrow> TValue \<Rightarrow> TValue option" where
  "tab_get h t k =
     (case lj_tab_get h t k of
        Inl e \<Rightarrow> None
      | Inr s \<Rightarrow> if tvisnil (opt_val t s) then None else Some (opt_val t s))"

definition tab_put :: "str_hash_of \<Rightarrow> GCtab \<Rightarrow> TValue \<Rightarrow> TValue \<Rightarrow> ErrMsg + GCtab" where
  "tab_put h t k v = (case lj_tab_set 2 h t k of Inl e \<Rightarrow> Inl e | Inr (s, t) \<Rightarrow> Inr (slot_put s v t))"

lemma tab_get_map: "tab_ok h t \<Longrightarrow> tab_get h t k = tab_map t k"
  using setnil by (simp add: tab_get_def get_slot tab_map_def opt_val_def split: option.split)

text \<open>The keys of the map, each once.\<close>

definition keys_of :: "GCtab \<Rightarrow> TValue set" where
  "keys_of t = {tcanon k | k. key_ok k \<and> tab_map t k \<noteq> None}"

lemma all_pairs_ok: "tab_ok h t \<Longrightarrow> (k, v) \<in> set (all_pairs t) \<Longrightarrow> key_ok k"
  using node_pairs_ok[OF tab_okD(1)] by (auto simp: all_pairs_def array_pairs_mem)

lemma pair_count_keys:
  assumes ok: "tab_ok h t"
  shows "keys_of t = (tcanon \<circ> fst) ` set (all_pairs t)" "pair_count t = card (keys_of t)"
proof -
  show k: "keys_of t = (tcanon \<circ> fst) ` set (all_pairs t)"
  proof (intro equalityI subsetI)
    fix x assume "x \<in> keys_of t"
    then obtain k v where k: "x = tcanon k" "key_ok k" "tab_map t k = Some v" by (auto simp: keys_of_def)
    then obtain k' where "(k', v) \<in> set (all_pairs t)" "tcanon k' = tcanon k" using all_pairs_map[OF ok k(2)] by blast
    then show "x \<in> (tcanon \<circ> fst) ` set (all_pairs t)" using k(1) by force
  next
    fix x assume "x \<in> (tcanon \<circ> fst) ` set (all_pairs t)"
    then obtain k v where k: "(k, v) \<in> set (all_pairs t)" "x = tcanon k" by auto
    have "tab_map t k = Some v" using all_pairs_map[OF ok all_pairs_ok[OF ok k(1)]] k(1) by blast
    then show "x \<in> keys_of t" using k(2) all_pairs_ok[OF ok k(1)] by (auto simp: keys_of_def)
  qed
  have "card (keys_of t) = length (map (tcanon \<circ> fst) (all_pairs t))"
    using distinct_card[OF all_pairs_distinct[OF ok]] k by simp
  then show "pair_count t = card (keys_of t)" by (simp add: all_pairs_def pair_count_def)
qed

lemma pair_count_put:
  assumes ok: "tab_ok h t" "tab_ok h t'" and m: "tab_map t' = map_put (tab_map t) k v"
  shows "pair_count t' \<le> pair_count t + 1"
proof -
  have fin: "finite (keys_of t)" using pair_count_keys(1)[OF ok(1)] by simp
  have "keys_of t' \<subseteq> insert (tcanon k) (keys_of t)" unfolding keys_of_def m map_put_def by (auto split: if_splits)
  then have "card (keys_of t') \<le> card (insert (tcanon k) (keys_of t))" using fin by (intro card_mono) simp_all
  also have "\<dots> \<le> card (keys_of t) + 1" using card_insert_le_m1[of "card (keys_of t) + 1" "keys_of t" "tcanon k"] by simp
  finally show ?thesis using pair_count_keys(2)[OF ok(1)] pair_count_keys(2)[OF ok(2)] by simp
qed

text \<open>The contract that a client of a table relies on, and what it gives for a sequence of stores.\<close>

fun put_all :: "('t \<Rightarrow> TValue \<Rightarrow> TValue \<Rightarrow> ErrMsg + 't) \<Rightarrow> 't \<Rightarrow> (TValue \<times> TValue) list \<Rightarrow> ErrMsg + 't" where
  "put_all put t [] = Inr t"
| "put_all put t ((k, v) # ps) = (case put t k v of Inl e \<Rightarrow> Inl e | Inr t \<Rightarrow> put_all put t ps)"

locale lua_map =
  fixes inv :: "'t \<Rightarrow> bool" and abs :: "'t \<Rightarrow> TValue \<Rightarrow> TValue option" and cnt :: "'t \<Rightarrow> nat" and limit :: nat
    and get :: "'t \<Rightarrow> TValue \<Rightarrow> TValue option" and put :: "'t \<Rightarrow> TValue \<Rightarrow> TValue \<Rightarrow> ErrMsg + 't"
  assumes get_abs: "inv t \<Longrightarrow> get t k = abs t k"
    and put_abs: "inv t \<Longrightarrow> key_ok k \<Longrightarrow> cnt t < limit \<Longrightarrow>
      \<exists>t'. put t k v = Inr t' \<and> inv t' \<and> abs t' = map_put (abs t) k v \<and> cnt t' \<le> cnt t + 1"
begin

lemma put_all_abs:
  "inv t \<Longrightarrow> \<forall>p \<in> set ps. key_ok (fst p) \<Longrightarrow> cnt t + length ps \<le> limit \<Longrightarrow>
   \<exists>t'. put_all put t ps = Inr t' \<and> inv t' \<and> get t' = put_pairs (abs t) ps"
proof (induction ps arbitrary: t)
  case Nil
  then show ?case using get_abs by (simp add: fun_eq_iff)
next
  case (Cons p ps)
  obtain k v where p: "p = (k, v)" by (cases p)
  obtain t1 where t1: "put t k v = Inr t1" "inv t1" "abs t1 = map_put (abs t) k v" "cnt t1 \<le> cnt t + 1"
    using put_abs[OF Cons.prems(1), of k v] Cons.prems(2,3) p by auto
  have ks: "\<forall>p \<in> set ps. key_ok (fst p)" using Cons.prems(2) by simp
  have "cnt t1 + length ps \<le> limit" using t1(4) Cons.prems(3) by simp
  from Cons.IH[OF t1(2) ks this] show ?case using t1(1,3) p by simp
qed

end

lemma tab_put_ok:
  assumes ok: "tab_ok h t" and k: "key_ok k" and c: "pair_count t < 2 ^ 26"
  shows "\<exists>t'. tab_put h t k v = Inr t' \<and> tab_ok h t' \<and> tab_map t' = map_put (tab_map t) k v \<and> pair_count t' \<le> pair_count t + 1"
proof -
  have "lj_tab_set (Suc (Suc 0)) h t k = lj_tab_set 2 h t k" by (simp add: numeral_2_eq_2)
  then obtain s t1 where s: "lj_tab_set 2 h t k = Inr (s, t1)" "entered h t k s t1"
    using lj_tab_set_entered[OF ok k, of 0] c by (auto simp: entered_or_full_def)
  have e: "tab_ok h t1" "slot_of t1 k = Some s" "tab_map t1 = tab_map t" using s(2) by (simp_all add: entered_def)
  note p = slot_put_ok[OF e(1,2) k, of v]
  have "tab_map (slot_put s v t1) = map_put (tab_map t) k v" using p(2) e(3) by simp
  then show ?thesis using s(1) p(1) pair_count_put[OF ok p(1)] by (simp add: tab_put_def)
qed

interpretation store: lua_map "tab_ok h" tab_map pair_count "2 ^ 26" "tab_get h" "tab_put h" for h
  by unfold_locales (rule tab_get_map tab_put_ok; assumption)+

text \<open>The last value that a list of pairs gives to a key.\<close>

definition last_value :: "(TValue \<times> TValue) list \<Rightarrow> TValue \<Rightarrow> TValue option" where
  "last_value ps k =
     (case find (\<lambda>p. tcanon (fst p) = tcanon k) (rev ps) of
        None \<Rightarrow> None
      | Some p \<Rightarrow> if tvisnil (snd p) then None else Some (snd p))"

lemma put_pairs_last: "key_ok k \<Longrightarrow> m k = None \<Longrightarrow> put_pairs m ps k = last_value ps k"
proof (induction ps rule: rev_induct)
  case (snoc p ps)
  obtain a v where p: "p = (a, v)" by (cases p)
  have "put_pairs m (ps @ [p]) = map_put (put_pairs m ps) a v" by (simp add: put_pairs_def p)
  then show ?case using snoc p by (auto simp: map_put_def last_value_def)
qed (simp add: last_value_def)

section \<open>Reachable tables\<close>

inductive tab_reach :: "str_hash_of \<Rightarrow> GCtab \<Rightarrow> bool" for h :: str_hash_of where
  reach_new: "lj_tab_new asize hbits = Inr t \<Longrightarrow> tab_reach h t"
| reach_set: "tab_reach h t \<Longrightarrow> lj_tab_set 2 h t k = Inr (s, t') \<Longrightarrow> tab_reach h (slot_put s v t')"
| reach_setint: "tab_reach h t \<Longrightarrow> lj_tab_setint 2 h t i = Inr (s, t') \<Longrightarrow> tab_reach h (slot_put s v t')"
| reach_setstr: "tab_reach h t \<Longrightarrow> lj_tab_setstr 2 h t r = Inr (s, t') \<Longrightarrow> tab_reach h (slot_put s v t')"
| reach_dup: "tab_reach h t \<Longrightarrow> lj_tab_dup t = Inr t' \<Longrightarrow> tab_reach h t'"
| reach_clear: "tab_reach h t \<Longrightarrow> tab_reach h (lj_tab_clear t)"
| reach_rehash: "tab_reach h t \<Longrightarrow> lj_tab_rehash 2 h t = Inr t' \<Longrightarrow> tab_reach h t'"
| reach_reasize: "tab_reach h t \<Longrightarrow> t_asize t \<le> n + 1 \<Longrightarrow> n + 1 \<le> LJ_MAX_ASIZE \<Longrightarrow> lj_tab_reasize 2 h t n = Inr t' \<Longrightarrow> tab_reach h t'"

lemma entered_put:
  assumes e: "entered_or_full h t k r" "r = Inr (s, t')" and k: "key_ok k"
  shows "tab_ok h (slot_put s v t')"
  using assms slot_put_ok(1)[of h t' k s v] by (auto simp: entered_or_full_def entered_def)

lemma tab_reach_inv: "tab_reach h t \<Longrightarrow> tab_ok h t"
proof (induction rule: tab_reach.induct)
  case (reach_set t k s t' v)
  have k: "key_ok k"
  proof (rule ccontr)
    assume "\<not> key_ok k"
    then show False using reach_set.hyps(2) set_by_err[of k] by (simp add: lj_tab_set_def)
  qed
  show ?case using entered_put[OF lj_tab_set_entered[OF reach_set.IH k, of 0] _ k, of s t'] reach_set.hyps(2)
    by (simp add: numeral_2_eq_2)
next
  case (reach_setint t i s t' v)
  show ?case using entered_put[OF lj_tab_setint_entered[OF reach_setint.IH, of i 0], of s t'] reach_setint.hyps(2)
    by (simp add: numeral_2_eq_2)
next
  case (reach_setstr t r s t' v)
  have "key_ok (setstrV r)" using strkey(2)[of "setstrV r"] by (simp add: tvisstr_def setstrV_def)
  then show ?case using entered_put[OF lj_tab_setstr_entered[OF reach_setstr.IH, of r 0], of s t'] reach_setstr.hyps(2)
    by (simp add: numeral_2_eq_2)
next
  case (reach_dup t t')
  then show ?case using lj_tab_dup_ok[of h t] by auto
next
  case (reach_rehash t t')
  then show ?case using lj_tab_rehash_ok[of h t 1] by (auto simp: numeral_2_eq_2)
next
  case (reach_reasize t n t')
  then show ?case using lj_tab_reasize_ok[of h t n 1] by (auto simp: numeral_2_eq_2)
qed (use lj_tab_new_ok(1) lj_tab_clear_ok in auto)

section \<open>The properties\<close>

text \<open>C2: \<open>lj_tab_set\<close> refines the update of a map. On a well-formed table it ends, also when it has to rehash the table,
  and returns the slot of the key in a well-formed table that stands for the same map, so that a store through the slot is
  the update; a nil or NaN key and a table with at least \<open>2 ^ 26\<close> pairs are the only causes of its errors.\<close>

theorem tab_set_refines:
  assumes "tab_ok h t"
  shows "case lj_tab_set (Suc (Suc n)) h t k of
      Inl e \<Rightarrow> e = LJ_ERR_NILIDX \<and> tvisnil k \<or> e = LJ_ERR_NANIDX \<and> tvisnum k \<and> dbl_isnan k \<or>
        e = LJ_ERR_TABOV \<and> 2 ^ 26 \<le> pair_count t
    | Inr (s, t') \<Rightarrow> key_ok k \<and> tab_ok h t' \<and> tab_map t' = tab_map t \<and> slot_of t' k = Some s \<and>
        (\<forall>v. tab_ok h (slot_put s v t') \<and> tab_map (slot_put s v t') = map_put (tab_map t) k v)"
proof (cases "key_ok k")
  case True
  from lj_tab_set_entered[OF assms True, of n] show ?thesis
    using slot_put_ok[OF _ _ True, of h] True by (auto simp: entered_or_full_def entered_def simp del: lj_tab_newkey.simps)
next
  case False
  then show ?thesis by (auto simp: lj_tab_set_def set_by_err key_ok_def simp del: lj_tab_newkey.simps)
qed

lemma new_table: "\<exists>t. lj_tab_new 2 1 = Inr t \<and> tab_ok h t"
proof (cases "lj_tab_new 2 1")
  case (Inl e)
  then show ?thesis using lj_tab_new_error[of 2 1 e] by (simp add: max_asize LJ_MAX_HBITS_def)
next
  case (Inr t)
  then show ?thesis using lj_tab_new_ok(1)[OF Inr] by blast
qed

lemma str_key: "tvisstr (setstrV r)" "tv_lo (setstrV r) = r"
  by (simp_all add: tvisstr_def setstrV_def)

text \<open>A table with two pairs, for the witnesses.\<close>

definition sample :: "(TValue \<times> TValue) list" where
  "sample = [(setintV 1, setintV 7), (setstrV 5, setintV 9)]"

lemma int_notnil: "\<not> tvisnil (setintV i)"
  using nil_pri pri_notnum setintV_key(1) by blast

lemma sample_table:
  obtains t where "tab_ok h t" "put_all (tab_put h) (case lj_tab_new 2 1 of Inr t \<Rightarrow> t) sample = Inr t"
    "tab_map t (setintV 1) = Some (setintV 7)" "tab_map t (setstrV 5) = Some (setintV 9)"
    "\<forall>i. i \<noteq> 1 \<longrightarrow> tab_map t (setintV i) = None" "pair_count t \<le> 2"
proof -
  obtain t0 where t0: "lj_tab_new 2 1 = Inr t0" using new_table by blast
  note n = lj_tab_new_ok[OF t0]
  note s = strkey[OF str_key(1)[of 5]]
  have ks: "\<forall>p \<in> set sample. key_ok (fst p)" using s(2) by (simp add: sample_def)
  have len: "pair_count t0 + length sample \<le> 2 ^ 26" using n(4) by (simp add: sample_def)
  obtain t where t: "put_all (tab_put h) t0 sample = Inr t" "tab_ok h t" "tab_get h t = put_pairs (tab_map t0) sample"
    using store.put_all_abs[OF n(1)[of h] ks len] by blast
  have d: "setintV i \<noteq> setstrV 5" for i using s(5) setintV_key(1)[of i] by auto
  have m: "tab_map t k = (if key_ok k \<and> tcanon k = setstrV 5 then Some (setintV 9) else if key_ok k \<and> tcanon k = setintV 1 then Some (setintV 7) else None)" for k
    using tab_get_map[OF t(2), of k] n(2)[of k] t(3) s(3) int_notnil by (auto simp: sample_def map_put_def tab_map_def)
  have "keys_of t \<subseteq> {setintV 1, setstrV 5}" by (auto simp: keys_of_def m split: if_splits)
  then have "card (keys_of t) \<le> card {setintV 1, setstrV 5}" by (intro card_mono) simp_all
  also have "\<dots> \<le> 2" by (simp add: card_insert_if)
  finally have "pair_count t \<le> 2" using pair_count_keys(2)[OF t(2)] by simp
  moreover have "put_all (tab_put h) (case lj_tab_new 2 1 of Inr t \<Rightarrow> t) sample = Inr t" using t(1) t0 by simp
  moreover have "tab_map t (setintV 1) = Some (setintV 7)" "tab_map t (setstrV 5) = Some (setintV 9)" using m d s(2,3) by simp_all
  moreover have "tab_map t (setintV i) = None" if "i \<noteq> 1" for i using m[of "setintV i"] d[of i] that by simp
  ultimately show ?thesis using that[OF t(2)] by blast
qed

theorem tab_set_refines_witness:
  "\<exists>t s t'. put_all (tab_put (\<lambda>s. s)) (case lj_tab_new 2 1 of Inr t \<Rightarrow> t) sample = Inr t \<and> lj_tab_set 2 (\<lambda>s. s) t (setstrV 7) = Inr (s, t') \<and>
     tab_map (slot_put s (setintV 4) t') = map_put (tab_map t) (setstrV 7) (setintV 4)"
proof -
  obtain t where t: "tab_ok (\<lambda>s. s) t" "put_all (tab_put (\<lambda>s. s)) (case lj_tab_new 2 1 of Inr t \<Rightarrow> t) sample = Inr t" "pair_count t \<le> 2" by (rule sample_table)
  note k = strkey(5,6)[OF str_key(1)[of 7]]
  show ?thesis
    using tab_set_refines[OF t(1), where n = 0 and k = "setstrV 7", unfolded numeral_2_eq_2[symmetric]] k t(2,3)
    by (cases "lj_tab_set 2 (\<lambda>s. s) t (setstrV 7)") auto
qed


text \<open>C4: a table that is filled by any sequence of at most \<open>2 ^ 26\<close> stores under legal keys never fails, and reading a key
  gives the last value that was stored under an equal key, whatever rehashes, moves of nodes and growth of the array part
  happened in between; an integer and its double, \<open>0\<close> and \<open>-0\<close>, are equal keys.\<close>

theorem tab_store_sequence:
  assumes "lj_tab_new asize hbits = Inr t0" and "\<forall>p \<in> set ps. key_ok (fst p)" and "length ps \<le> 2 ^ 26"
  shows "\<exists>t. put_all (tab_put h) t0 ps = Inr t \<and> (\<forall>k. tab_get h t k = (if key_ok k then last_value ps k else None))"
proof -
  note n = lj_tab_new_ok[OF assms(1)]
  have len: "pair_count t0 + length ps \<le> 2 ^ 26" using n(4) assms(3) by simp
  obtain t where t: "put_all (tab_put h) t0 ps = Inr t" "tab_ok h t" "tab_get h t = put_pairs (tab_map t0) ps"
    using store.put_all_abs[OF n(1)[of h] assms(2) len] by blast
  have "tab_get h t k = (if key_ok k then last_value ps k else None)" for k
    using put_pairs_last[of k "tab_map t0" ps] n(2)[of k] t(3) tab_get_map[OF t(2), of k] by (auto simp: tab_map_def)
  then show ?thesis using t(1) by blast
qed

theorem tab_store_sequence_witness:
  "\<exists>t0 t. lj_tab_new 2 1 = Inr t0 \<and>
     put_all (tab_put (\<lambda>s. s)) t0 [(setintV 5, setintV 1), (setintV 1, setintV 2), (setintV 5, setintV 3)] = Inr t \<and>
     tab_get (\<lambda>s. s) t (setintV 5) = Some (setintV 3)"
proof -
  let ?ps = "[(setintV 5, setintV 1), (setintV 1, setintV 2), (setintV 5, setintV 3)]"
  obtain t0 where t0: "lj_tab_new 2 1 = Inr t0" using new_table by blast
  have ok: "\<forall>p \<in> set ?ps. key_ok (fst p)" by simp
  have len: "length ?ps \<le> 2 ^ 26" by simp
  obtain t where "put_all (tab_put (\<lambda>s. s)) t0 ?ps = Inr t"
    "\<And>k. tab_get (\<lambda>s. s) t k = (if key_ok k then last_value ?ps k else None)"
    using tab_store_sequence[OF t0 ok len, where h = "\<lambda>s. s"] by blast
  moreover have "last_value ?ps (setintV 5) = Some (setintV 3)"
    using nil_pri[of "setintV 3"] pri_notnum[of "setintV 3"] setintV_key(1) by (auto simp: last_value_def)
  ultimately have "put_all (tab_put (\<lambda>s. s)) t0 ?ps = Inr t" "tab_get (\<lambda>s. s) t (setintV 5) = Some (setintV 3)" by simp_all
  then show ?thesis using t0 by blast
qed

text \<open>C5: every table that a sequence of table operations makes from a new one is well-formed: chains without cycles, every
  key reachable from its main position, no key twice, no integer key of the array part in the hash part, no free node
  above the free pointer. So a lookup always ends and returns the value of the key.\<close>

theorem tab_reach_ok:
  assumes "tab_reach h t"
  shows "tab_ok h t \<and> (\<exists>s. lj_tab_get h t k = Inr s \<and>
    tab_map t k = (if tvisnil (opt_val t s) then None else Some (opt_val t s)))"
proof -
  have ok: "tab_ok h t" by (rule tab_reach_inv[OF assms])
  show ?thesis using ok get_slot[OF ok, of k] tab_get_map[OF ok, of k] by (simp add: tab_get_def)
qed

theorem tab_reach_ok_witness: "\<exists>t. lj_tab_new 2 1 = Inr t \<and> tab_ok (\<lambda>s. s) (lj_tab_clear t)"
proof -
  obtain t where t: "lj_tab_new 2 1 = Inr t" using new_table by blast
  show ?thesis using tab_reach_ok[OF reach_clear[OF reach_new[OF t]]] t by blast
qed

text \<open>C6: \<open>lj_tab_resize\<close> keeps the map, for every pair of sizes that leaves room for the pairs: the part of the array that
  is cut off goes to the hash part, and keys of the hash part below the new size go to the array part.\<close>

theorem tab_resize_map:
  assumes "tab_ok h t" "asize \<le> LJ_MAX_ASIZE" "hbits \<le> LJ_MAX_HBITS"
    and "hash_need t asize \<le> (if hbits = 0 then 0 else 2 ^ hbits)"
  shows "\<exists>t'. lj_tab_resize (Suc n) h t asize hbits = Inr t' \<and> tab_ok h t' \<and> tab_map t' = tab_map t \<and>
    t_asize t' = asize \<and> length (t_node t') = 2 ^ hbits"
  using tab.resize_by_ok[OF assms, of n] by (auto simp: lj_tab_resize_def resized_def simp del: lj_tab_newkey.simps)

theorem tab_resize_map_witness:
  "\<exists>t t'. put_all (tab_put (\<lambda>s. s)) (case lj_tab_new 2 1 of Inr t \<Rightarrow> t) sample = Inr t \<and> lj_tab_resize 1 (\<lambda>s. s) t 0 2 = Inr t' \<and> t_asize t' = 0 \<and>
     tab_map t' (setintV 1) = Some (setintV 7)"
proof -
  obtain t where t: "tab_ok (\<lambda>s. s) t" "put_all (tab_put (\<lambda>s. s)) (case lj_tab_new 2 1 of Inr t \<Rightarrow> t) sample = Inr t" "pair_count t \<le> 2"
    "tab_map t (setintV 1) = Some (setintV 7)" by (rule sample_table)
  have "hash_need t 0 \<le> 2" using hash_need_le[of t 0] t(3) by simp
  then show ?thesis using tab_resize_map[OF t(1), of 0 2 0] t(2,4) by (auto simp: LJ_MAX_HBITS_def)
qed


text \<open>C7: the sizes that a rehash chooses fit: the read of the bins stays in bounds, the array part is within its limit and
  its integer keys fill more than a quarter of it, and the hash part has a node for each of the other pairs and for the key
  that is to be inserted.\<close>

theorem rehash_sizes_fit:
  assumes "tab_ok h t" "key_ok ek" "slot_of t ek = None"
  shows "\<exists>sz hb. rehash_sizes t ek = Some (sz, hb) \<and> sz \<le> LJ_MAX_ASIZE \<and>
    asize_ok (ints t \<union> (if in_size LJ_MAX_ASIZE ek then {int_of ek} else {})) sz \<and>
    hash_need t sz + (if in_size sz ek then 0 else 1) \<le> (if hb = 0 then 0 else 2 ^ hb)"
proof -
  obtain sz where sz: "rehash_sizes t ek = Some (sz, hsize2hbits (word_of_nat (hash_need t sz + (if in_size sz ek then 0 else 1))))"
    "sz \<le> LJ_MAX_ASIZE" "asize_ok (ints t \<union> (if in_size LJ_MAX_ASIZE ek then {int_of ek} else {})) sz"
    using rehash_sizes_ok[OF assms(1) absent_int[OF assms]] by blast
  have "hash_need t sz + (if in_size sz ek then 0 else 1) < 2 ^ 32"
    using hash_need_le[of t sz] pair_count_bound[OF assms(1)] by simp
  from hsize2hbits_room(1)[OF this] show ?thesis using sz by blast
qed

theorem rehash_sizes_fit_witness:
  "\<exists>t sz hb. lj_tab_new 2 1 = Inr t \<and> rehash_sizes t (setstrV 7) = Some (sz, hb) \<and> hb \<noteq> 0"
proof -
  obtain t where t: "lj_tab_new 2 1 = Inr t" "tab_ok (\<lambda>s. s) t" using new_table by blast
  note sk = strkey[OF str_key(1)[of 7]]
  have "slot_of t (setstrV 7) = None"
  proof -
    have "t_node t = [nilnode, nilnode] \<or> \<not> has_key (t_node t) (setstrV 7)"
      using t(1) by (auto simp: lj_tab_new_def newtab_eq newhpart_def clearhpart_def clearapart_def Let_def has_key_def max_asize LJ_MAX_HBITS_def
          less_Suc_eq nth_Cons split: if_splits nat.splits)
    then have "\<not> has_key (t_node t) (setstrV 7)" by (auto simp: has_key_def less_Suc_eq nilnode_def)
    then show ?thesis using sk(4) by (simp add: slot_none in_array_def)
  qed
  from rehash_sizes_fit[OF t(2) sk(2) this] obtain sz hb where r: "rehash_sizes t (setstrV 7) = Some (sz, hb)"
    "hash_need t sz + (if in_size sz (setstrV 7) then 0 else 1) \<le> (if hb = 0 then 0 else 2 ^ hb)" by blast
  have "\<not> in_size sz (setstrV 7)" using sk(4) by (simp add: in_size_def)
  then have "hb \<noteq> 0" using r(2) by (auto split: if_splits)
  then show ?thesis using t(1) r(1) by blast
qed

text \<open>C8: a traversal with \<open>lj_tab_next\<close> from nil on ends after one step for each pair and one more, and it visits every
  pair of the map exactly once.\<close>

theorem tab_traverse_pairs:
  assumes "tab_ok h t" "pair_count t < m"
  shows "\<exists>ps. traverse m h t (setnilV 0) = Inr ps \<and> length ps = pair_count t \<and> distinct (map (tcanon \<circ> fst) ps) \<and>
    (\<forall>k v. key_ok k \<longrightarrow> (tab_map t k = Some v \<longleftrightarrow> (\<exists>k'. (k', v) \<in> set ps \<and> tcanon k' = tcanon k)))"
  using traverse_all[OF assms] all_pairs_distinct[OF assms(1)] all_pairs_map[OF assms(1)]
  by (intro exI[of _ "all_pairs t"]) (simp add: all_pairs_def pair_count_def)

theorem tab_traverse_pairs_witness:
  "\<exists>t ps. put_all (tab_put (\<lambda>s. s)) (case lj_tab_new 2 1 of Inr t \<Rightarrow> t) sample = Inr t \<and> traverse 3 (\<lambda>s. s) t (setnilV 0) = Inr ps \<and> length ps \<le> 2 \<and>
     (\<exists>k. (k, setintV 9) \<in> set ps)"
proof -
  obtain t where t: "tab_ok (\<lambda>s. s) t" "put_all (tab_put (\<lambda>s. s)) (case lj_tab_new 2 1 of Inr t \<Rightarrow> t) sample = Inr t" "pair_count t \<le> 2"
    "tab_map t (setstrV 5) = Some (setintV 9)" by (rule sample_table)
  have "pair_count t < 3" using t(3) by simp
  from tab_traverse_pairs[OF t(1) this] obtain ps where ps: "traverse 3 (\<lambda>s. s) t (setnilV 0) = Inr ps" "length ps = pair_count t"
    "\<forall>k v. key_ok k \<longrightarrow> (tab_map t k = Some v \<longleftrightarrow> (\<exists>k'. (k', v) \<in> set ps \<and> tcanon k' = tcanon k))" by (elim exE conjE)
  have "tab_map t (setstrV 5) = Some (setintV 9) \<longleftrightarrow> (\<exists>k'. (k', setintV 9) \<in> set ps \<and> tcanon k' = tcanon (setstrV 5))"
    using ps(3) strkey(2)[OF str_key(1)[of 5]] by (elim allE impE)
  then obtain k where k: "(k, setintV 9) \<in> set ps" using t(4) by (elim iffE) blast
  have "length ps \<le> 2" using ps(2) t(3) by simp
  then show ?thesis using ps(1) t(2) k by (intro exI[of _ t] exI[of _ ps] exI[of _ k] conjI)
qed


text \<open>C9: \<open>lj_tab_len\<close> ends and returns a border: 0 or an integer key with a value, such that the next integer has none,
  also when it has to search the hash part.\<close>

theorem tab_len_border:
  assumes "tab_ok h t"
  shows "\<exists>n. lj_tab_len t = Inr n \<and>
    (n = 0 \<or> tab_map t (setintV (word_of_nat n)) \<noteq> None) \<and> tab_map t (setintV (word_of_nat (n + 1))) = None"
  using lj_tab_len_ok[OF assms] by (auto simp: is_border_def has_int_def)

theorem tab_len_border_witness:
  "\<exists>t n. put_all (tab_put (\<lambda>s. s)) (case lj_tab_new 2 1 of Inr t \<Rightarrow> t) sample = Inr t \<and> lj_tab_len t = Inr n \<and> (word_of_nat n :: u32) = 1"
proof -
  obtain t where t: "tab_ok (\<lambda>s. s) t" "put_all (tab_put (\<lambda>s. s)) (case lj_tab_new 2 1 of Inr t \<Rightarrow> t) sample = Inr t" "tab_map t (setintV 1) = Some (setintV 7)"
    "\<forall>i. i \<noteq> 1 \<longrightarrow> tab_map t (setintV i) = None" by (rule sample_table)
  obtain n where n: "lj_tab_len t = Inr n" "n = 0 \<or> tab_map t (setintV (word_of_nat n)) \<noteq> None"
    "tab_map t (setintV (word_of_nat (n + 1))) = None" using tab_len_border[OF t(1)] by blast
  have "n \<noteq> 0"
  proof
    assume "n = 0"
    then show False using n(3) t(3) by simp
  qed
  then have "(word_of_nat n :: u32) = 1" using n(2) t(4) by auto
  then show ?thesis using n(1) t(2) by blast
qed


text \<open>C10: \<open>lj_tab_dup\<close> makes a well-formed copy that stands for the same map, and \<open>lj_tab_clear\<close> leaves a well-formed table
  with no pair in it.\<close>

theorem tab_dup_clear:
  assumes "tab_ok h t"
  shows "(\<exists>t'. lj_tab_dup t = Inr t' \<and> tab_ok h t' \<and> tab_map t' = tab_map t) \<and>
    tab_ok h (lj_tab_clear t) \<and> (\<forall>k. tab_map (lj_tab_clear t) k = None)"
proof -
  have "tab_map (lj_tab_clear t) k = None" for k using lj_tab_clear_ok[OF assms] by (cases "key_ok k") (simp_all add: tab_map_def)
  then show ?thesis using lj_tab_dup_ok[OF assms] lj_tab_clear_ok[OF assms] by blast
qed

theorem tab_dup_clear_witness:
  "\<exists>t t'. put_all (tab_put (\<lambda>s. s)) (case lj_tab_new 2 1 of Inr t \<Rightarrow> t) sample = Inr t \<and> lj_tab_dup t = Inr t' \<and> tab_map t' (setstrV 5) = Some (setintV 9) \<and>
     tab_map (lj_tab_clear t) (setstrV 5) = None"
proof -
  obtain t where t: "tab_ok (\<lambda>s. s) t" "put_all (tab_put (\<lambda>s. s)) (case lj_tab_new 2 1 of Inr t \<Rightarrow> t) sample = Inr t" "tab_map t (setstrV 5) = Some (setintV 9)"
    by (rule sample_table)
  show ?thesis using tab_dup_clear[OF t(1)] t(2,3) by auto
qed


end
