(* ===== verification/LJ_BCDump.thy ===== *)
theory LJ_BCDump
  imports LJ_TabMain LJ_StrFmtProofs
begin

text \<open>
  The bytecode dump: the writer (\<^verbatim>\<open>lj_bcwrite.c\<close>) and the reader (\<^verbatim>\<open>lj_bcread.c\<close>) of
  function prototypes (\<^verbatim>\<open>GCproto\<close> of \<^verbatim>\<open>lj_obj.h\<close>). A prototype is a tree: the arrays that
  are colocated with it are lists, its collectable constants are in the order of memory, so the constant with index
  -1 is the last one, and the debug information is the block of bytes from the line table on, with the offsets of the
  two tables inside it. The number of instructions is a field of its own (\<open>pt_sizebc\<close>), since the reader takes it from the dump,
  while the size of the array is computed from it modulo \<open>2^32\<close>. What the two files need of the rest of the runtime is a parameter: the contents of a string
  reference and the reference that interning gives to contents (\<^verbatim>\<open>lj_str.c\<close>), the hash of a string,
  and the first instruction of the root trace that a patched loop refers to.
\<close>

section \<open>Prototypes\<close>

type_synonym BCIns = u32

datatype GCproto = GCproto
    (pt_flags: u8) (pt_numparams: u8) (pt_framesize: u8)
    (pt_sizebc: u32) (pt_bc: "BCIns list") (pt_uv: "u16 list") (pt_kgc: "KGC list") (pt_kn: "TValue list")
    (pt_trace: u16) (pt_chunkname: u32) (pt_firstline: u32) (pt_numline: u32)
    (pt_dbg: bytes) (pt_uvinfo: nat) (pt_varinfo: nat)
  and KGC =
    KGC_STR u32 | KGC_PROTO GCproto | KGC_TAB GCtab | KGC_I64 u64 | KGC_U64 u64 | KGC_COMPLEX u64 u64

definition PROTO_CHILD :: u8 where "PROTO_CHILD = 0x01"
definition PROTO_VARARG :: u8 where "PROTO_VARARG = 0x02"
definition PROTO_FFI :: u8 where "PROTO_FFI = 0x04"
definition PROTO_ILOOP :: u8 where "PROTO_ILOOP = 0x10"

lemmas proto_flags = PROTO_CHILD_def PROTO_VARARG_def PROTO_FFI_def PROTO_ILOOP_def

record bc_env =
  e_sdata :: "u32 \<Rightarrow> bytes"
  e_snew :: "bytes \<Rightarrow> u32"
  e_hash :: str_hash_of
  e_startins :: "u32 \<Rightarrow> BCIns"

section \<open>The format\<close>

definition BCDUMP_HEAD1 :: u8 where "BCDUMP_HEAD1 = 0x1b"
definition BCDUMP_HEAD2 :: u8 where "BCDUMP_HEAD2 = 0x4c"
definition BCDUMP_HEAD3 :: u8 where "BCDUMP_HEAD3 = 0x4a"
definition BCDUMP_VERSION :: u8 where "BCDUMP_VERSION = 2"

definition BCDUMP_F_BE :: u32 where "BCDUMP_F_BE = 0x01"
definition BCDUMP_F_STRIP :: u32 where "BCDUMP_F_STRIP = 0x02"
definition BCDUMP_F_FFI :: u32 where "BCDUMP_F_FFI = 0x04"
definition BCDUMP_F_FR2 :: u32 where "BCDUMP_F_FR2 = 0x08"
definition BCDUMP_F_KNOWN :: u32 where "BCDUMP_F_KNOWN = BCDUMP_F_FR2 * 2 - 1"

definition BCDUMP_KGC_CHILD :: u32 where "BCDUMP_KGC_CHILD = 0"
definition BCDUMP_KGC_TAB :: u32 where "BCDUMP_KGC_TAB = 1"
definition BCDUMP_KGC_I64 :: u32 where "BCDUMP_KGC_I64 = 2"
definition BCDUMP_KGC_U64 :: u32 where "BCDUMP_KGC_U64 = 3"
definition BCDUMP_KGC_COMPLEX :: u32 where "BCDUMP_KGC_COMPLEX = 4"
definition BCDUMP_KGC_STR :: u32 where "BCDUMP_KGC_STR = 5"

definition BCDUMP_KTAB_NIL :: u32 where "BCDUMP_KTAB_NIL = 0"
definition BCDUMP_KTAB_FALSE :: u32 where "BCDUMP_KTAB_FALSE = 1"
definition BCDUMP_KTAB_TRUE :: u32 where "BCDUMP_KTAB_TRUE = 2"
definition BCDUMP_KTAB_INT :: u32 where "BCDUMP_KTAB_INT = 3"
definition BCDUMP_KTAB_NUM :: u32 where "BCDUMP_KTAB_NUM = 4"
definition BCDUMP_KTAB_STR :: u32 where "BCDUMP_KTAB_STR = 5"

lemmas bcdump_flags = BCDUMP_F_BE_def BCDUMP_F_STRIP_def BCDUMP_F_FFI_def BCDUMP_F_FR2_def BCDUMP_F_KNOWN_def
lemmas bcdump_types = BCDUMP_KGC_CHILD_def BCDUMP_KGC_TAB_def BCDUMP_KGC_I64_def BCDUMP_KGC_U64_def BCDUMP_KGC_COMPLEX_def
  BCDUMP_KGC_STR_def BCDUMP_KTAB_NIL_def BCDUMP_KTAB_FALSE_def BCDUMP_KTAB_TRUE_def BCDUMP_KTAB_INT_def BCDUMP_KTAB_NUM_def
  BCDUMP_KTAB_STR_def

section \<open>Instructions\<close>

definition BC_FORI :: u8 where "BC_FORI = 77"
definition BC_JFORI :: u8 where "BC_JFORI = 78"
definition BC_FORL :: u8 where "BC_FORL = 79"
definition BC_IFORL :: u8 where "BC_IFORL = 80"
definition BC_JFORL :: u8 where "BC_JFORL = 81"
definition BC_ITERL :: u8 where "BC_ITERL = 82"
definition BC_IITERL :: u8 where "BC_IITERL = 83"
definition BC_JITERL :: u8 where "BC_JITERL = 84"
definition BC_LOOP :: u8 where "BC_LOOP = 85"
definition BC_ILOOP :: u8 where "BC_ILOOP = 86"
definition BC_JLOOP :: u8 where "BC_JLOOP = 87"
definition BC_FUNCF :: u8 where "BC_FUNCF = 89"
definition BC_FUNCV :: u8 where "BC_FUNCV = 92"

definition bc_op :: "BCIns \<Rightarrow> u8" where "bc_op i = ucast i"
definition bc_a :: "BCIns \<Rightarrow> u8" where "bc_a i = ucast (drop_bit 8 i)"
definition bc_b :: "BCIns \<Rightarrow> u8" where "bc_b i = ucast (drop_bit 24 i)"
definition bc_c :: "BCIns \<Rightarrow> u8" where "bc_c i = ucast (drop_bit 16 i)"
definition bc_d :: "BCIns \<Rightarrow> u32" where "bc_d i = drop_bit 16 i"

definition BCINS_ABC :: "u8 \<Rightarrow> u8 \<Rightarrow> u8 \<Rightarrow> u8 \<Rightarrow> BCIns" where
  "BCINS_ABC o1 a b c = ucast o1 OR push_bit 8 (ucast a) OR push_bit 24 (ucast b) OR push_bit 16 (ucast c)"

definition BCINS_AD :: "u8 \<Rightarrow> u8 \<Rightarrow> u32 \<Rightarrow> BCIns" where
  "BCINS_AD o1 a d = ucast o1 OR push_bit 8 (ucast a) OR push_bit 16 d"

text \<open>Little-endian memory.\<close>

definition bytes_u16 :: "u16 \<Rightarrow> bytes" where "bytes_u16 x = [ucast x, ucast (drop_bit 8 x)]"
definition bytes_u32 :: "u32 \<Rightarrow> bytes" where
  "bytes_u32 x = [ucast x, ucast (drop_bit 8 x), ucast (drop_bit 16 x), ucast (drop_bit 24 x)]"

fun u16s_of :: "bytes \<Rightarrow> u16 list" where
  "u16s_of (a # b # bs) = (ucast a OR push_bit 8 (ucast b)) # u16s_of bs"
| "u16s_of bs = []"

fun u32s_of :: "bytes \<Rightarrow> u32 list" where
  "u32s_of (a # b # c # d # bs) =
     (ucast a OR push_bit 8 (ucast b) OR push_bit 16 (ucast c) OR push_bit 24 (ucast d)) # u32s_of bs"
| "u32s_of bs = []"

section \<open>The writer\<close>

text \<open>
  The context of the writer: its buffer, the data and the status of the writer callback. A callback takes the bytes and
  returns a status. A write of more bytes than were reserved would overrun the buffer.
\<close>

record 'w BCWriteCtx =
  wc_sb :: SBuf
  wc_strip :: bool
  wc_wfunc :: "bytes \<Rightarrow> 'w \<Rightarrow> int \<times> 'w"
  wc_wdata :: 'w
  wc_status :: int

type_synonym ('w, 'a) wr = "('w BCWriteCtx, ErrMsg, 'a) sm"

definition bc_more :: "u32 \<Rightarrow> bytes \<Rightarrow> ('w, unit) wr" where
  "bc_more need bs ctx =
     (case buf_write (wc_sb ctx) need bs of
        Inl e \<Rightarrow> Inl e
      | Inr sb \<Rightarrow> if length bs > unat need then Inl UNDEFINED else Inr ((), ctx\<lparr>wc_sb := sb\<rparr>))"

text \<open>\<open>lj_buf_need\<close> and writing from the start of the buffer.\<close>

definition bc_need :: "u32 \<Rightarrow> bytes \<Rightarrow> ('w, unit) wr" where
  "bc_need need bs ctx =
     (case lj_buf_need (wc_sb ctx) need of
        Inl e \<Rightarrow> Inl e
      | Inr sb \<Rightarrow> if length bs > unat need then Inl UNDEFINED else Inr ((), ctx\<lparr>wc_sb := sb\<lparr>sb_data := bs\<rparr>\<rparr>))"

definition bc_wfunc :: "bytes \<Rightarrow> ('w, unit) wr" where
  "bc_wfunc bs ctx =
     (let (st, w) = wc_wfunc ctx bs (wc_wdata ctx) in Inr ((), ctx\<lparr>wc_status := st, wc_wdata := w\<rparr>))"

definition bcwrite_ktabk :: "bc_env \<Rightarrow> TValue \<Rightarrow> bool \<Rightarrow> ('w, unit) wr" where
  "bcwrite_ktabk E o1 narrow =
     (if tvisstr o1 then
        let s = e_sdata E (tv_lo o1); len = word_of_nat (length s) in
        bnd (bc_more (1 + 10) []) (\<lambda>_. bc_more (5 + len) (lj_strfmt_wuleb128 (BCDUMP_KTAB_STR + len) @ s))
      else if tvisnum o1 then
        let k = lj_num2int o1 in
        if narrow \<and> dbl_eq o1 (setintV k) then bc_more (1 + 10) (ucast BCDUMP_KTAB_INT # lj_strfmt_wuleb128 k)
        else bc_more (1 + 10) (ucast BCDUMP_KTAB_NUM # lj_strfmt_wuleb128 (tv_lo o1) @ lj_strfmt_wuleb128 (itype o1))
      else bc_more (1 + 10) [ucast (BCDUMP_KTAB_NIL + NOT (itype o1))])"

fun bcwrite_karray :: "bc_env \<Rightarrow> TValue list \<Rightarrow> ('w, unit) wr" where
  "bcwrite_karray E [] = ret ()"
| "bcwrite_karray E (v # vs) = bnd (bcwrite_ktabk E v True) (\<lambda>_. bcwrite_karray E vs)"

fun bcwrite_khash :: "bc_env \<Rightarrow> Node list \<Rightarrow> ('w, unit) wr" where
  "bcwrite_khash E [] = ret ()"
| "bcwrite_khash E (n # ns) =
     (if \<not> tvisnil (n_val n) then
        bnd (bcwrite_ktabk E (n_key n) False) (\<lambda>_. bnd (bcwrite_ktabk E (n_val n) True) (\<lambda>_. bcwrite_khash E ns))
      else bcwrite_khash E ns)"

text \<open>The length of the array part without the nils at its end, and the used hash slots.\<close>

definition ktab_narray :: "GCtab \<Rightarrow> nat" where
  "ktab_narray t = length (dropWhile tvisnil (rev (t_array t)))"

definition ktab_nhash :: "GCtab \<Rightarrow> nat" where
  "ktab_nhash t = (if t_hmask t > 0 then length (filter (\<lambda>n. \<not> tvisnil (n_val n)) (t_node t)) else 0)"

text \<open>\<open>pre\<close> is what the caller has written to the room of \<open>need\<close> bytes already; the nodes are written from the
  last one down.\<close>

definition bcwrite_ktab :: "bc_env \<Rightarrow> u32 \<Rightarrow> bytes \<Rightarrow> GCtab \<Rightarrow> ('w, unit) wr" where
  "bcwrite_ktab E need pre t =
     (let narray = ktab_narray t; nhash = ktab_nhash t in
      bnd (bc_more need (pre @ lj_strfmt_wuleb128 (word_of_nat narray) @ lj_strfmt_wuleb128 (word_of_nat nhash))) (\<lambda>_.
      bnd (bcwrite_karray E (take narray (t_array t))) (\<lambda>_.
      if nhash \<noteq> 0 then bcwrite_khash E (rev (t_node t)) else ret ())))"

definition bcwrite_u64 :: "u64 \<Rightarrow> bytes" where
  "bcwrite_u64 q = lj_strfmt_wuleb128 (tv_lo q) @ lj_strfmt_wuleb128 (itype q)"

definition bcwrite_kgc1 :: "bc_env \<Rightarrow> KGC \<Rightarrow> ('w, unit) wr" where
  "bcwrite_kgc1 E k =
     (case k of
        KGC_STR r \<Rightarrow>
          let s = e_sdata E r; len = word_of_nat (length s) in
          bc_more (5 + len) (lj_strfmt_wuleb128 (BCDUMP_KGC_STR + len) @ s)
      | KGC_PROTO p \<Rightarrow> bc_more 1 (lj_strfmt_wuleb128 BCDUMP_KGC_CHILD)
      | KGC_TAB t \<Rightarrow> bcwrite_ktab E (1 + 2 * 5) (lj_strfmt_wuleb128 BCDUMP_KGC_TAB) t
      | KGC_I64 q \<Rightarrow> bc_more (1 + 4 * 5) (lj_strfmt_wuleb128 BCDUMP_KGC_I64 @ bcwrite_u64 q)
      | KGC_U64 q \<Rightarrow> bc_more (1 + 4 * 5) (lj_strfmt_wuleb128 BCDUMP_KGC_U64 @ bcwrite_u64 q)
      | KGC_COMPLEX re im \<Rightarrow> bc_more (1 + 4 * 5) (lj_strfmt_wuleb128 BCDUMP_KGC_COMPLEX @ bcwrite_u64 re @ bcwrite_u64 im))"

fun bcwrite_kgc :: "bc_env \<Rightarrow> KGC list \<Rightarrow> ('w, unit) wr" where
  "bcwrite_kgc E [] = ret ()"
| "bcwrite_kgc E (k # ks) = bnd (bcwrite_kgc1 E k) (\<lambda>_. bcwrite_kgc E ks)"

text \<open>A 33 bit ULEB128: the lowest bit tells a number from an integer. Where the upper bit of the value is set, the fifth
  byte of the encoding is patched to hold the two upper bits.\<close>

definition wuleb128_33 :: "u32 \<Rightarrow> u32 \<Rightarrow> bytes" where
  "wuleb128_33 lsb k =
     (let p = lj_strfmt_wuleb128 (lsb + (2 * k OR (k AND 0x80000000))) in
      if sint k < 0 then butlast p @ [(last p AND 7) OR ucast (drop_bit 27 k AND 0x18)] else p)"

definition bcwrite_knum1 :: "TValue \<Rightarrow> bytes" where
  "bcwrite_knum1 o1 =
     (let k = lj_num2int o1 in
      if dbl_eq o1 (setintV k) then wuleb128_33 0 k
      else wuleb128_33 1 (tv_lo o1) @ lj_strfmt_wuleb128 (itype o1))"

definition bcwrite_knum :: "TValue list \<Rightarrow> ('w, unit) wr" where
  "bcwrite_knum kn = bc_more (10 * word_of_nat (length kn)) (concat (map bcwrite_knum1 kn))"

text \<open>Instructions that the compiler patched are written as they were.\<close>

definition unpatch :: "bc_env \<Rightarrow> BCIns \<Rightarrow> BCIns" where
  "unpatch E i =
     (let op = bc_op i in
      if op = BC_IFORL \<or> op = BC_IITERL \<or> op = BC_ILOOP \<or> op = BC_JFORI then
        BCINS_ABC (op - BC_IFORL + BC_FORL) (bc_a i) (bc_b i) (bc_c i)
      else if op = BC_JFORL \<or> op = BC_JITERL \<or> op = BC_JLOOP then
        let ins = e_startins E (bc_d i) in BCINS_ABC (op - BC_JFORL + BC_FORL) (bc_a i) (bc_b ins) (bc_c ins)
      else i)"

definition patched :: "GCproto \<Rightarrow> bool" where
  "patched pt \<longleftrightarrow> pt_flags pt AND PROTO_ILOOP \<noteq> 0 \<or> pt_trace pt \<noteq> 0"

definition bcwrite_bytecode :: "bc_env \<Rightarrow> GCproto \<Rightarrow> bytes" where
  "bcwrite_bytecode E pt =
     (let nbc = pt_sizebc pt - 1; bc = take (unat (nbc * 4) div 4) (tl (pt_bc pt)) in
      concat (map bytes_u32 (if patched pt then map (unpatch E) bc else bc)))"

text \<open>The copy, and the loop over the instructions that were copied, stay inside the instructions of the prototype.\<close>

definition bytecode_inside :: "GCproto \<Rightarrow> bool" where
  "bytecode_inside pt \<longleftrightarrow>
     (let nbc = pt_sizebc pt - 1; n = length (tl (pt_bc pt)) in
      unat (nbc * 4) \<le> 4 * n \<and> (if patched pt then unat nbc \<le> n else True))"

text \<open>The final size is written in front of the data, into the five bytes that were left free.\<close>

definition bcwrite_flush :: "('w, unit) wr" where
  "bcwrite_flush ctx =
     (if wc_status ctx = 0 then
        let buf = sb_data (wc_sb ctx);
            n = word_of_nat (length buf - 5) :: u32;
            nn = ((lj_fls n + 8) * 9) div 64;
            len = lj_strfmt_wuleb128 n;
            buf = take (5 - nn) buf @ len @ drop (5 - nn + length len) buf
        in bc_wfunc (take (nn + unat n) (drop (5 - nn) buf)) (ctx\<lparr>wc_sb := (wc_sb ctx)\<lparr>sb_data := buf\<rparr>\<rparr>)
      else Inr ((), ctx))"

definition proto_head :: "bool \<Rightarrow> GCproto \<Rightarrow> bytes" where
  "proto_head strip pt =
     (let sizedbg = length (pt_dbg pt) in
      [pt_flags pt AND (PROTO_CHILD OR PROTO_VARARG OR PROTO_FFI), pt_numparams pt, pt_framesize pt, word_of_nat (length (pt_uv pt))] @
      lj_strfmt_wuleb128 (word_of_nat (length (pt_kgc pt))) @ lj_strfmt_wuleb128 (word_of_nat (length (pt_kn pt))) @
      lj_strfmt_wuleb128 (pt_sizebc pt - 1) @
      (if \<not> strip then
         lj_strfmt_wuleb128 (word_of_nat sizedbg) @
         (if sizedbg \<noteq> 0 then lj_strfmt_wuleb128 (pt_firstline pt) @ lj_strfmt_wuleb128 (pt_numline pt) else [])
       else []))"

definition bcwrite_body :: "bc_env \<Rightarrow> GCproto \<Rightarrow> ('w, unit) wr" where
  "bcwrite_body E pt ctx =
     (let strip = wc_strip ctx; dbg = (if strip then [] else pt_dbg pt);
          need = 5 + 4 + 6 * 5 + (pt_sizebc pt - 1) * 4 + word_of_nat (length (pt_uv pt)) * 2
      in if \<not> isl (lj_buf_need (wc_sb ctx) need) \<and> \<not> bytecode_inside pt then Inl UNDEFINED
         else bnd (bc_need need
             (replicate 5 0 @ proto_head strip pt @ bcwrite_bytecode E pt @ concat (map bytes_u16 (pt_uv pt)))) (\<lambda>_.
         bnd (bcwrite_kgc E (pt_kgc pt)) (\<lambda>_.
         bnd (bcwrite_knum (pt_kn pt)) (\<lambda>_.
         bnd (if dbg \<noteq> [] then bc_more (word_of_nat (length dbg)) dbg else ret ()) (\<lambda>_.
         bcwrite_flush)))) ctx)"

text \<open>The children of a prototype are written before it, from the constant with index -1 (the last one) down.\<close>

fun bcwrite_proto :: "bc_env \<Rightarrow> GCproto \<Rightarrow> ('w, unit) wr"
and bcwrite_kids :: "bc_env \<Rightarrow> KGC list \<Rightarrow> ('w, unit) wr" where
  "bcwrite_proto E (GCproto fl np fs sbc bc uv kgc kn tr cn fline nline dbg ui vi) =
     bnd (if fl AND PROTO_CHILD \<noteq> 0 then bcwrite_kids E kgc else ret ())
       (\<lambda>_. bcwrite_body E (GCproto fl np fs sbc bc uv kgc kn tr cn fline nline dbg ui vi))"
| "bcwrite_kids E [] = ret ()"
| "bcwrite_kids E (k # ks) =
     bnd (bcwrite_kids E ks) (\<lambda>_. case k of KGC_PROTO p \<Rightarrow> bcwrite_proto E p | _ \<Rightarrow> ret ())"

definition bcwrite_header :: "bc_env \<Rightarrow> GCproto \<Rightarrow> ('w, unit) wr" where
  "bcwrite_header E pt ctx =
     (let name = e_sdata E (pt_chunkname pt); len = word_of_nat (length name) :: u32;
          hd = [BCDUMP_HEAD1, BCDUMP_HEAD2, BCDUMP_HEAD3, BCDUMP_VERSION,
                ucast ((if wc_strip ctx then BCDUMP_F_STRIP else 0) + (if pt_flags pt AND PROTO_FFI \<noteq> 0 then BCDUMP_F_FFI else 0))] @
               (if \<not> wc_strip ctx then lj_strfmt_wuleb128 len @ name else [])
      in bnd (bc_need (5 + 5 + len) hd) (\<lambda>_. bc_wfunc hd) ctx)"

definition bcwrite_footer :: "('w, unit) wr" where
  "bcwrite_footer ctx = (if wc_status ctx = 0 then bc_wfunc [0] ctx else Inr ((), ctx))"

definition cpwriter :: "bc_env \<Rightarrow> GCproto \<Rightarrow> ('w, unit) wr" where
  "cpwriter E pt =
     bnd (bc_need 1024 []) (\<lambda>_. bnd (bcwrite_header E pt) (\<lambda>_. bnd (bcwrite_proto E pt) (\<lambda>_. bcwrite_footer)))"

text \<open>The result is the status and the data of the callback, or the error that the protected call caught.\<close>

definition lj_bcwrite :: "bc_env \<Rightarrow> GCproto \<Rightarrow> (bytes \<Rightarrow> 'w \<Rightarrow> int \<times> 'w) \<Rightarrow> 'w \<Rightarrow> bool \<Rightarrow> ErrMsg + (int \<times> 'w)" where
  "lj_bcwrite E pt wfunc wdata strip =
     (case cpwriter E pt \<lparr>wc_sb = lj_buf_init, wc_strip = strip, wc_wfunc = wfunc, wc_wdata = wdata, wc_status = 0\<rparr> of
        Inl e \<Rightarrow> Inl e
      | Inr (_, ctx) \<Rightarrow> Inr (wc_status ctx, wc_wdata ctx))"

section \<open>The reader\<close>

text \<open>
  The state of the reader: the bytes between \<open>p\<close> and \<open>pe\<close>, the pieces that the reader function will still return (an
  empty one is the end of the input, like none), whether the end was seen, the flags of the dump, the name of the chunk,
  and the prototypes on the stack of the Lua state above its old top. A read beyond \<open>pe\<close> is undefined.
\<close>

record LexBC =
  ls_p :: bytes
  ls_in :: "bytes list"
  ls_eof :: bool
  ls_flags :: u32
  ls_chunkname :: u32
  ls_stack :: "GCproto list"

type_synonym 'a rd = "(LexBC, ErrMsg, 'a) sm"

fun fill_loop :: "nat \<Rightarrow> bool \<Rightarrow> bytes \<Rightarrow> bytes list \<Rightarrow> ErrMsg + (bytes \<times> bytes list \<times> bool)" where
  "fill_loop len need p [] = (if need then Inl LJ_ERR_BCBAD else Inr (p, [], True))"
| "fill_loop len need p (b # bs) =
     (if b = [] then (if need then Inl LJ_ERR_BCBAD else Inr (p, bs, True))
      else if p \<noteq> [] \<and> max len (length p + length b) > LJ_MAX_BUF then Inl LJ_ERR_ERRMEM
      else if length (p @ b) < len then fill_loop len need (p @ b) bs
      else Inr (p @ b, bs, False))"

definition bcread_fill :: "nat \<Rightarrow> bool \<Rightarrow> unit rd" where
  "bcread_fill len need ls =
     (if len > LJ_MAX_BUF \<or> ls_eof ls then Inl LJ_ERR_BCBAD
      else case fill_loop len need (ls_p ls) (ls_in ls) of
        Inl e \<Rightarrow> Inl e
      | Inr (p, bs, eof) \<Rightarrow> Inr ((), ls\<lparr>ls_p := p, ls_in := bs, ls_eof := eof\<rparr>))"

definition bcread_need :: "nat \<Rightarrow> unit rd" where
  "bcread_need len ls = (if length (ls_p ls) < len then bcread_fill len True ls else Inr ((), ls))"

definition bcread_want :: "nat \<Rightarrow> unit rd" where
  "bcread_want len ls = (if length (ls_p ls) < len then bcread_fill len False ls else Inr ((), ls))"

definition bcread_mem :: "nat \<Rightarrow> bytes rd" where
  "bcread_mem len ls =
     (if length (ls_p ls) < len then Inl UNDEFINED else Inr (take len (ls_p ls), ls\<lparr>ls_p := drop len (ls_p ls)\<rparr>))"

definition bcread_byte :: "u8 rd" where
  "bcread_byte ls = (case ls_p ls of [] \<Rightarrow> Inl UNDEFINED | c # p \<Rightarrow> Inr (c, ls\<lparr>ls_p := p\<rparr>))"

definition bcread_uleb128 :: "u32 rd" where
  "bcread_uleb128 ls = (case lj_buf_ruleb128 (ls_p ls) of None \<Rightarrow> Inl UNDEFINED | Some (v, p) \<Rightarrow> Inr (v, ls\<lparr>ls_p := p\<rparr>))"

fun uleb33_loop :: "u32 \<Rightarrow> nat \<Rightarrow> bytes \<Rightarrow> (u32 \<times> bytes) option" where
  "uleb33_loop v sh [] = None"
| "uleb33_loop v sh (c # p) =
     (if sh \<ge> 32 then None
      else let v = v OR push_bit sh (ucast (c AND 0x7f)) in
           if c \<ge> 0x80 then uleb33_loop v (sh + 7) p else Some (v, p))"

definition ruleb128_33 :: "bytes \<Rightarrow> (u32 \<times> bytes) option" where
  "ruleb128_33 p =
     (case p of
        [] \<Rightarrow> None
      | c # p \<Rightarrow>
          let v = drop_bit 1 (ucast c) :: u32 in
          if v \<ge> 0x40 then uleb33_loop (v AND 0x3f) 6 p else Some (v, p))"

definition bcread_uleb128_33 :: "u32 rd" where
  "bcread_uleb128_33 ls = (case ruleb128_33 (ls_p ls) of None \<Rightarrow> Inl UNDEFINED | Some (v, p) \<Rightarrow> Inr (v, ls\<lparr>ls_p := p\<rparr>))"

definition bcread_swap :: "LexBC \<Rightarrow> bool" where
  "bcread_swap ls = (ls_flags ls AND BCDUMP_F_BE \<noteq> 0)"

text \<open>Swapping the first \<open>n\<close> units of two or four bytes; swapping beyond the debug information is undefined.\<close>

fun swap2 :: "nat \<Rightarrow> bytes \<Rightarrow> bytes" where
  "swap2 (Suc n) (a # b # bs) = b # a # swap2 n bs"
| "swap2 n bs = bs"

fun swap4 :: "nat \<Rightarrow> bytes \<Rightarrow> bytes" where
  "swap4 (Suc n) (a # b # c # d # bs) = d # c # b # a # swap4 n bs"
| "swap4 n bs = bs"

definition bcread_dbg :: "u32 \<Rightarrow> u32 \<Rightarrow> nat \<Rightarrow> bytes rd" where
  "bcread_dbg numline sizebc sizedbg ls =
     bnd (bcread_mem sizedbg) (\<lambda>bs.
       let n = unat (sizebc - 1) in
       if bcread_swap ls \<and> sint numline \<ge> 256 then
         if sint numline < 65536 then (if 2 * n > sizedbg then throw UNDEFINED else ret (swap2 n bs))
         else (if 4 * n > sizedbg then throw UNDEFINED else ret (swap4 n bs))
       else ret bs) ls"

text \<open>The offset behind \<open>n\<close> terminated names.\<close>

fun skip_names :: "nat \<Rightarrow> nat \<Rightarrow> bytes \<Rightarrow> nat option" where
  "skip_names 0 p bs = Some p"
| "skip_names (Suc n) p [] = None"
| "skip_names (Suc n) p (c # bs) = (if c \<noteq> 0 then skip_names (Suc n) (p + 1) bs else skip_names n (p + 1) bs)"

definition bcread_varinfo :: "nat \<Rightarrow> nat \<Rightarrow> bytes \<Rightarrow> nat option" where
  "bcread_varinfo sizeuv uvinfo dbg = skip_names sizeuv uvinfo (drop uvinfo dbg)"

definition setpriV :: "TValue \<Rightarrow> u32 \<Rightarrow> TValue" where
  "setpriV o1 i = u64_of_lohi (tv_lo o1) i"

text \<open>The constant is stored over what the slot held before.\<close>

definition bcread_ktabk :: "bc_env \<Rightarrow> TValue \<Rightarrow> TValue rd" where
  "bcread_ktabk E o1 =
     bnd bcread_uleb128 (\<lambda>tp.
       if tp \<ge> BCDUMP_KTAB_STR then
         bnd (bcread_mem (unat (tp - BCDUMP_KTAB_STR))) (\<lambda>s. ret (setstrV (e_snew E s)))
       else if tp = BCDUMP_KTAB_INT then bnd bcread_uleb128 (\<lambda>k. ret (setintV k))
       else if tp = BCDUMP_KTAB_NUM then bnd bcread_uleb128 (\<lambda>lo. bnd bcread_uleb128 (\<lambda>hi. ret (u64_of_lohi lo hi)))
       else ret (setpriV o1 (NOT tp)))"

fun bcread_karray :: "bc_env \<Rightarrow> nat \<Rightarrow> nat \<Rightarrow> GCtab \<Rightarrow> GCtab rd" where
  "bcread_karray E 0 i t = ret t"
| "bcread_karray E (Suc n) i t =
     bnd (bcread_ktabk E (t_array t ! i)) (\<lambda>v. bcread_karray E n (i + 1) (slot_put (Arr i) v t))"

text \<open>Setting a key has the fuel that is always enough.\<close>

fun bcread_khash :: "bc_env \<Rightarrow> nat \<Rightarrow> GCtab \<Rightarrow> GCtab rd" where
  "bcread_khash E 0 t = ret t"
| "bcread_khash E (Suc n) t =
     bnd (bcread_ktabk E 0) (\<lambda>key.
       case lj_tab_set 2 (e_hash E) t key of
         Inl e \<Rightarrow> throw e
       | Inr (s, t) \<Rightarrow> bnd (bcread_ktabk E (slot_val t s)) (\<lambda>v. bcread_khash E n (slot_put s v t)))"

definition bcread_ktab :: "bc_env \<Rightarrow> GCtab rd" where
  "bcread_ktab E =
     bnd bcread_uleb128 (\<lambda>narray.
     bnd bcread_uleb128 (\<lambda>nhash.
       case lj_tab_new (unat narray) (hsize2hbits nhash) of
         Inl e \<Rightarrow> throw e
       | Inr t \<Rightarrow> bnd (bcread_karray E (unat narray) 0 t) (\<lambda>t. bcread_khash E (unat nhash) t)))"

definition bcread_u64 :: "u64 rd" where
  "bcread_u64 = bnd bcread_uleb128 (\<lambda>lo. bnd bcread_uleb128 (\<lambda>hi. ret (u64_of_lohi lo hi)))"

definition bcread_pop :: "GCproto rd" where
  "bcread_pop ls = (case ls_stack ls of [] \<Rightarrow> Inl LJ_ERR_BCBAD | p # ps \<Rightarrow> Inr (p, ls\<lparr>ls_stack := ps\<rparr>))"

definition bcread_kgc1 :: "bc_env \<Rightarrow> KGC rd" where
  "bcread_kgc1 E =
     bnd bcread_uleb128 (\<lambda>tp.
       if tp \<ge> BCDUMP_KGC_STR then
         bnd (bcread_mem (unat (tp - BCDUMP_KGC_STR))) (\<lambda>s. ret (KGC_STR (e_snew E s)))
       else if tp = BCDUMP_KGC_TAB then bnd (bcread_ktab E) (\<lambda>t. ret (KGC_TAB t))
       else if tp \<noteq> BCDUMP_KGC_CHILD then
         bnd bcread_u64 (\<lambda>q.
           if tp = BCDUMP_KGC_COMPLEX then bnd bcread_u64 (\<lambda>im. ret (KGC_COMPLEX q im))
           else if tp = BCDUMP_KGC_I64 then ret (KGC_I64 q) else ret (KGC_U64 q))
       else bnd bcread_pop (\<lambda>p. ret (KGC_PROTO p)))"

fun bcread_kgc :: "bc_env \<Rightarrow> nat \<Rightarrow> KGC list rd" where
  "bcread_kgc E 0 = ret []"
| "bcread_kgc E (Suc n) = bnd (bcread_kgc1 E) (\<lambda>k. bnd (bcread_kgc E n) (\<lambda>ks. ret (k # ks)))"

definition bcread_knum1 :: "TValue rd" where
  "bcread_knum1 ls =
     (if ls_p ls = [] then Inl UNDEFINED
      else let isnum = (hd (ls_p ls) AND 1 \<noteq> 0) in
        bnd bcread_uleb128_33 (\<lambda>lo.
          if isnum then bnd bcread_uleb128 (\<lambda>hi. ret (u64_of_lohi lo hi)) else ret (setintV lo)) ls)"

fun bcread_knum :: "nat \<Rightarrow> TValue list rd" where
  "bcread_knum 0 = ret []"
| "bcread_knum (Suc n) = bnd bcread_knum1 (\<lambda>k. bnd (bcread_knum n) (\<lambda>ks. ret (k # ks)))"

text \<open>The number of bytes is computed modulo \<open>2^32\<close>, the loop that swaps runs over all instructions.\<close>

definition bcread_bytecode :: "u8 \<Rightarrow> u8 \<Rightarrow> u32 \<Rightarrow> BCIns list rd" where
  "bcread_bytecode flags framesize sizebc ls =
     bnd (bcread_mem (unat ((sizebc - 1) * 4))) (\<lambda>bs.
       let bc = u32s_of bs in
       if bcread_swap ls \<and> length bc < unat (sizebc - 1) then throw UNDEFINED
       else ret (BCINS_AD (if flags AND PROTO_VARARG \<noteq> 0 then BC_FUNCV else BC_FUNCF) framesize 0 #
            (if bcread_swap ls then map lj_bswap bc else bc))) ls"

definition bcread_uv :: "nat \<Rightarrow> u16 list rd" where
  "bcread_uv sizeuv ls =
     bnd (bcread_mem (sizeuv * 2)) (\<lambda>bs. ret (u16s_of (if bcread_swap ls then swap2 sizeuv bs else bs))) ls"

definition bcread_lines :: "(u32 \<times> u32 \<times> u32) rd" where
  "bcread_lines ls =
     (if ls_flags ls AND BCDUMP_F_STRIP = 0 then
        bnd bcread_uleb128 (\<lambda>sizedbg.
          if sizedbg \<noteq> 0 then
            bnd bcread_uleb128 (\<lambda>firstline. bnd bcread_uleb128 (\<lambda>numline. ret (sizedbg, firstline, numline)))
          else ret (0, 0, 0)) ls
      else ret (0, 0, 0) ls)"

text \<open>
  The offsets of the constants, the upvalues and the debug information inside a prototype, and its size. All of them are
  computed modulo \<open>2^32\<close>.
\<close>

definition proto_size :: "u32 \<Rightarrow> u32 \<Rightarrow> u32 \<Rightarrow> u32 \<Rightarrow> u32 \<Rightarrow> u32 \<times> u32 \<times> u32 \<times> u32" where
  "proto_size sizebc sizekgc sizekn sizeuv sizedbg =
     (let sizept = 64 + sizebc * 4 + sizekgc * 4;
          ofsk = (sizept + 7) AND NOT 7;
          ofsuv = ofsk + sizekn * 8;
          ofsdbg = ofsuv + ((sizeuv + 1) AND NOT 1) * 2
      in (ofsk, ofsuv, ofsdbg, ofsdbg + sizedbg))"

text \<open>
  Where an offset has wrapped around, the code writes beyond the object, or over parts of it that were written before: that
  is undefined here, at the point where it happens. First the gap below the constants is closed, and the instructions and
  the upvalues are written; then the collectable constants, of which \<open>kgc_room\<close> are inside the object (the one behind them
  is still read before it is written); then the number constants and the debug information.
\<close>

definition head_fits :: "u32 \<Rightarrow> u32 \<Rightarrow> u32 \<Rightarrow> u32 \<Rightarrow> u32 \<Rightarrow> u32 \<Rightarrow> bool" where
  "head_fits sizebc sizekgc sizeuv ofsk ofsuv sizept \<longleftrightarrow>
     4 * unat (sizekgc + 1) \<le> unat ofsk \<and> unat ofsk - 4 * unat (sizekgc + 1) + 4 \<le> unat sizept \<and>
     68 + unat ((sizebc - 1) * 4) \<le> unat sizept \<and>
     (sizeuv = 0 \<or> ofsk \<le> ofsuv \<and> unat ofsuv + 2 * unat sizeuv \<le> unat sizept)"

definition kgc_room :: "u32 \<Rightarrow> u32 \<Rightarrow> u32 \<Rightarrow> nat" where
  "kgc_room sizekgc ofsk sizept =
     (if 4 * unat sizekgc \<le> unat ofsk then (unat sizept - (unat ofsk - 4 * unat sizekgc)) div 4 else 0)"

definition bcread_kgcs :: "bc_env \<Rightarrow> nat \<Rightarrow> nat \<Rightarrow> KGC list rd" where
  "bcread_kgcs E room sizekgc =
     (if sizekgc \<le> room then bcread_kgc E sizekgc
      else bnd (bcread_kgc E (room + 1)) (\<lambda>_. throw UNDEFINED))"

definition tail_fits :: "u32 \<Rightarrow> u32 \<Rightarrow> u32 \<Rightarrow> u32 \<Rightarrow> u32 \<Rightarrow> u32 \<Rightarrow> bool" where
  "tail_fits sizekn sizedbg ofsk ofsuv ofsdbg sizept \<longleftrightarrow>
     unat ofsk + 8 * unat sizekn \<le> unat sizept \<and>
     (sizedbg = 0 \<or> ofsuv \<le> ofsdbg \<and> unat ofsdbg + unat sizedbg \<le> unat sizept)"

text \<open>The debug information at the end of a prototype; the size of the line table is computed modulo \<open>2^32\<close> as well.\<close>

definition bcread_end :: "u32 \<Rightarrow> nat \<Rightarrow> nat \<Rightarrow> u32 \<Rightarrow> (bytes \<Rightarrow> nat \<Rightarrow> nat \<Rightarrow> GCproto) \<Rightarrow> GCproto rd" where
  "bcread_end sizebc sizeuv sizedbg numline pt =
     (if sizedbg \<noteq> 0 then
        let sizeli = unat (push_bit (if sint numline < 256 then 0 else if sint numline < 65536 then 1 else 2) (sizebc - 1)) in
        bnd (bcread_dbg numline sizebc sizedbg) (\<lambda>dbg.
          case bcread_varinfo sizeuv sizeli dbg of
            None \<Rightarrow> throw UNDEFINED
          | Some vi \<Rightarrow> ret (pt dbg sizeli vi))
      else ret (pt [] 0 0))"

text \<open>The stack of the Lua state is assumed to have room, and the allocator to succeed.\<close>

definition lj_bcread_proto :: "bc_env \<Rightarrow> GCproto rd" where
  "lj_bcread_proto E =
     bnd bcread_byte (\<lambda>flags. bnd bcread_byte (\<lambda>numparams. bnd bcread_byte (\<lambda>framesize. bnd bcread_byte (\<lambda>sizeuv.
     bnd bcread_uleb128 (\<lambda>sizekgc. bnd bcread_uleb128 (\<lambda>sizekn. bnd bcread_uleb128 (\<lambda>nbc.
     bnd bcread_lines (\<lambda>(sizedbg, firstline, numline).
     let sizebc = nbc + 1; (ofsk, ofsuv, ofsdbg, sizept) = proto_size sizebc sizekgc sizekn (ucast sizeuv) sizedbg in
     if \<not> head_fits sizebc sizekgc (ucast sizeuv) ofsk ofsuv sizept then throw UNDEFINED else
     bnd (bcread_bytecode flags framesize sizebc) (\<lambda>bc.
     bnd (bcread_uv (unat sizeuv)) (\<lambda>uv.
     bnd (bcread_kgcs E (kgc_room sizekgc ofsk sizept) (unat sizekgc)) (\<lambda>kgc.
     if \<not> tail_fits sizekn sizedbg ofsk ofsuv ofsdbg sizept then throw UNDEFINED else
     bnd (bcread_knum (unat sizekn)) (\<lambda>kn ls.
     bcread_end sizebc (unat sizeuv) (unat sizedbg) numline
       (GCproto flags numparams framesize sizebc bc uv kgc kn 0 (ls_chunkname ls) firstline numline) ls))))))))))))"

text \<open>The name of the chunk is taken from the dump, or is the argument \<open>chunkarg\<close> for a stripped one.\<close>

definition bcread_header :: "bc_env \<Rightarrow> bytes \<Rightarrow> bool rd" where
  "bcread_header E chunkarg =
     bnd (bcread_want (3 + 5 + 5)) (\<lambda>_.
     bnd bcread_byte (\<lambda>h2. if h2 \<noteq> BCDUMP_HEAD2 then ret False else
     bnd bcread_byte (\<lambda>h3. if h3 \<noteq> BCDUMP_HEAD3 then ret False else
     bnd bcread_byte (\<lambda>ver. if ver \<noteq> BCDUMP_VERSION then ret False else
     bnd bcread_uleb128 (\<lambda>flags ls.
       let ls = ls\<lparr>ls_flags := flags\<rparr> in
       if flags AND NOT BCDUMP_F_KNOWN \<noteq> 0 then ret False ls
       else if flags AND BCDUMP_F_FR2 \<noteq> 0 then ret False ls
       else if flags AND BCDUMP_F_STRIP \<noteq> 0 then ret True (ls\<lparr>ls_chunkname := e_snew E chunkarg\<rparr>)
       else bnd bcread_uleb128 (\<lambda>len.
            bnd (bcread_need (unat len)) (\<lambda>_.
            bnd (bcread_mem (unat len)) (\<lambda>s ls. ret True (ls\<lparr>ls_chunkname := e_snew E s\<rparr>)))) ls)))))"

text \<open>The loop over the prototypes. Each round takes at least one byte, so the number of bytes bounds the rounds.\<close>

fun bcread_protos :: "nat \<Rightarrow> bc_env \<Rightarrow> unit rd" where
  "bcread_protos 0 E ls = Inl NO_RETURN"
| "bcread_protos (Suc n) E ls =
     (if ls_p ls \<noteq> [] \<and> hd (ls_p ls) = 0 then Inr ((), ls\<lparr>ls_p := tl (ls_p ls)\<rparr>)
      else
        bnd (bcread_want 5) (\<lambda>_.
        bnd bcread_uleb128 (\<lambda>len.
          if len = 0 then ret ()
          else
            bnd (bcread_need (unat len)) (\<lambda>_ ls0.
            bnd (lj_bcread_proto E) (\<lambda>pt ls.
              if length (ls_p ls) + unat len \<noteq> length (ls_p ls0) then Inl LJ_ERR_BCBAD
              else bcread_protos n E (ls\<lparr>ls_stack := pt # ls_stack ls\<rparr>)) ls0))) ls)"

definition input_size :: "LexBC \<Rightarrow> nat" where
  "input_size ls = length (ls_p ls) + length (concat (ls_in ls))"

definition lj_bcread :: "bc_env \<Rightarrow> bytes \<Rightarrow> GCproto rd" where
  "lj_bcread E chunkarg ls =
     bnd (bcread_header E chunkarg) (\<lambda>ok.
       if \<not> ok then throw LJ_ERR_BCFMT
       else
         bnd (bcread_protos (input_size ls + 1) E) (\<lambda>_ ls.
           if sint (2 * word_of_nat (length (ls_p ls)) :: u32) > 0 \<or> length (ls_stack ls) \<noteq> 1 then Inl LJ_ERR_BCBAD
           else Inr (hd (ls_stack ls), ls\<lparr>ls_stack := tl (ls_stack ls)\<rparr>))) (ls\<lparr>ls_stack := []\<rparr>)"

end
