(* ===== verification/LJ_BCFormat.thy ===== *)
theory LJ_BCFormat
  imports LJ_BCDump
begin

text \<open>
  Variable-length numbers of the dump of theory \<open>LJ_BCDump\<close>: their lengths, and that the numbers of 33 bits that the writer
  produces are read back, with the bit that tells a number constant from an integer.
\<close>

section \<open>Variable-length numbers\<close>

lemma fls_drop: "128 \<le> n \<Longrightarrow> lj_fls_nat n = 7 + lj_fls_nat (n div 128)"
proof -
  assume n: "128 \<le> n"
  define m where "m = n div 128"
  have m: "0 < m" using n by (simp add: m_def div_greater_zero_iff)
  note b = lj_fls_nat_bounds[OF m]
  have "128 * m \<le> n" "n < 128 * (m + 1)" unfolding m_def by simp_all
  then have "2 ^ (7 + lj_fls_nat m) \<le> n" "n < 2 ^ Suc (7 + lj_fls_nat m)"
    using b by (simp_all add: power_add)
  then show ?thesis unfolding m_def by (rule lj_fls_nat_unique)
qed

lemma wuleb_length: "length (lj_strfmt_wuleb128 v) = lj_fls v div 7 + 1"
proof (induction v rule: lj_strfmt_wuleb128.induct)
  case (1 v)
  show ?case
  proof (cases "v \<ge> 0x80")
    case True
    then have "128 \<le> unat v" by (simp add: word_le_nat_alt)
    then have "lj_fls v = 7 + lj_fls (drop_bit 7 v)"
      using fls_drop[of "unat v"] by (simp add: lj_fls_def unat_drop_bit_div unat_div)
    then show ?thesis using 1[OF True] True by (simp add: wuleb_big)
  next
    case False
    then have v: "unat v < 128" by (simp add: word_le_nat_alt)
    have "lj_fls_nat (unat v) < 7"
    proof (cases "unat v = 0")
      case False
      then have "2 ^ lj_fls_nat (unat v) \<le> unat v" using lj_fls_nat_bounds[of "unat v"] by simp
      then have "(2::nat) ^ lj_fls_nat (unat v) < 2 ^ 7" using v by simp
      then show ?thesis by (rule power_less_imp_less_exp[rotated]) simp
    qed (simp add: lj_fls_nat.simps)
    then show ?thesis using False by (simp add: wuleb_small lj_fls_def)
  qed
qed

lemma fls_max: "lj_fls v \<le> 31"
proof (cases "unat v = 0")
  case False
  then have "2 ^ lj_fls v \<le> unat v" using lj_fls_nat_bounds[of "unat v"] by (simp add: lj_fls_def)
  then have "(2::nat) ^ lj_fls v < 2 ^ 32" using u32_lt[of v] by (simp add: le_less_trans)
  then have "lj_fls v < 32" by (rule power_less_imp_less_exp[rotated]) simp
  then show ?thesis by simp
qed (simp add: lj_fls_def lj_fls_nat.simps)

lemma wuleb_max: "length (lj_strfmt_wuleb128 v) \<le> 5"
  using fls_max[of v] by (simp add: wuleb_length)

text \<open>The size that the writer computes for the length of a block.\<close>

lemma wuleb_size: "((lj_fls v + 8) * 9) div 64 = length (lj_strfmt_wuleb128 v)"
proof -
  have "list_all (\<lambda>f. ((f + 8) * 9) div 64 = f div 7 + 1) [0..<32]" by code_simp
  then have "((f + 8) * 9) div 64 = f div 7 + 1" if "f \<le> 31" for f :: nat
    using that by (auto simp: list_all_iff)
  from this[OF fls_max] show ?thesis by (simp add: wuleb_length)
qed

lemma wuleb_nonempty [simp]: "lj_strfmt_wuleb128 v \<noteq> []"
  using wuleb_length[of v] by fastforce

lemma uleb33_loop_wuleb:
  "sh < 32 \<Longrightarrow> unat x < 2 ^ (32 - sh) \<Longrightarrow> uleb33_loop a sh (lj_strfmt_wuleb128 x @ rest) = Some (a OR push_bit sh x, rest)"
proof (induction x arbitrary: a sh rule: lj_strfmt_wuleb128.induct)
  case (1 x)
  show ?case
  proof (cases "x \<ge> 0x80")
    case True
    have "2 ^ 7 \<le> unat x" using True by (simp add: word_le_nat_alt)
    then have "(2::nat) ^ 7 < 2 ^ (32 - sh)" using "1.prems"(2) by linarith
    then have "7 < 32 - sh" by (rule power_less_imp_less_exp [rotated]) simp
    then have sh: "sh + 7 < 32" by linarith
    define d where "d = 32 - (sh + 7)"
    have "32 - sh = 7 + d" using sh by (simp add: d_def)
    then have "unat x < 2 ^ d * 2 ^ 7" using "1.prems"(2) by (simp only: power_add mult.commute)
    then have "unat (drop_bit 7 x) < 2 ^ (32 - (sh + 7))"
      unfolding unat_drop_bit_div d_def by (rule less_mult_imp_div_less)
    from "1.IH"[OF True sh this] show ?thesis
      using "1.prems"(1) push_bit_pieces[of a sh x] uleb_byte[of x] True by (simp add: wuleb_big Let_def or.assoc del: push_bit_and)
  next
    case False
    then show ?thesis using "1.prems" uleb_last[OF False] by (simp add: wuleb_small)
  qed
qed

lemma ruleb33_head: "ruleb128_33 (ucast (v AND 0x7f OR 0x80) # p) = uleb33_loop (drop_bit 1 v AND 0x3f) 6 p"
proof -
  have m: "(0x3f :: u32) = mask 6" "(0x7f :: u32) = mask 7" "(0x80 :: u32) = push_bit 7 1" by (simp_all add: mask_eq_exp_minus_1)
  define c where "c = (ucast ((v AND 0x7f) OR 0x80) :: u8)"
  have "c \<ge> 0x80" unfolding c_def by (rule uleb_byte(2))
  then have "drop_bit 1 (ucast c :: u32) \<ge> 0x40"
    by (simp add: word_le_nat_alt unat_drop_bit_div unat_div unat_ucast_le)
  moreover have "drop_bit 1 (ucast c) AND 0x3f = drop_bit 1 v AND (0x3f :: u32)"
  proof (rule bit_word_eqI)
    fix n assume "n < LENGTH(32)"
    have "n < 6 \<Longrightarrow> bit (v AND 0x7f OR 0x80) (Suc n) = bit v (Suc n)"
      unfolding m(2,3) bit_or_iff bit_and_iff bit_push_bit_iff bit_mask_iff by simp
    then show "bit (drop_bit 1 (ucast c) AND 0x3f :: u32) n = bit (drop_bit 1 v AND 0x3f) n"
      unfolding c_def m(1) by (cases "n < 6") (simp_all add: bit_simps)
  qed
  ultimately show ?thesis unfolding c_def[symmetric] by (simp add: ruleb128_33_def)
qed

lemma ruleb33_wuleb: "ruleb128_33 (lj_strfmt_wuleb128 v @ rest) = Some (drop_bit 1 v, rest)"
proof (cases "v \<ge> 0x80")
  case True
  have m: "(0x3f :: u32) = mask 6" by (simp add: mask_eq_exp_minus_1)
  have "unat v < 67108864 * 128" using u32_lt[of v] by (rule less_trans) simp
  then have "unat (drop_bit 7 v) < 2 ^ (32 - 6)" by (simp add: unat_drop_bit_div less_mult_imp_div_less)
  moreover have "drop_bit 1 v AND 0x3f OR push_bit 6 (drop_bit 7 v) = drop_bit 1 v"
  proof (rule bit_word_eqI)
    fix n assume "n < LENGTH(32)"
    show "bit (drop_bit 1 v AND 0x3f OR push_bit 6 (drop_bit 7 v)) n = bit (drop_bit 1 v) n"
    proof (cases "6 \<le> n")
      case True
      then obtain c where "n = 6 + c" unfolding le_iff_add by blast
      then show ?thesis using \<open>n < LENGTH(32)\<close> unfolding m by (auto simp: bit_simps)
    qed (simp add: m bit_simps)
  qed
  ultimately show ?thesis using uleb33_loop_wuleb[of 6 "drop_bit 7 v" _ rest] True by (simp add: ruleb33_head wuleb_big)
next
  case False
  have "unat (ucast v :: u8) = unat v" using False by (intro unat_ucast_le) (simp add: word_le_nat_alt)
  then have e: "(ucast (ucast v :: u8) :: u32) = v" by (simp add: word_unat_eq_iff unat_ucast_le)
  have "\<not> drop_bit 1 v \<ge> 0x40" using False by (simp add: word_le_nat_alt unat_drop_bit_div unat_div)
  then show ?thesis using False by (simp add: ruleb128_33_def wuleb_small e)
qed

text \<open>The encoding of an integer with its upper bit set has five bytes, and its last byte holds five bits.\<close>

lemma wuleb_five:
  assumes "v \<ge> 0x10000000"
  shows "lj_strfmt_wuleb128 v = [ucast (v AND 0x7f OR 0x80), ucast (drop_bit 7 v AND 0x7f OR 0x80), ucast (drop_bit 14 v AND 0x7f OR 0x80),
    ucast (drop_bit 21 v AND 0x7f OR 0x80), ucast (drop_bit 28 v)]"
proof -
  have v: "0x10000000 \<le> unat v" using assms by (simp add: word_le_nat_alt)
  have "unat v < 128 * 268435456" using u32_lt[of v] by (rule less_trans) simp
  then have "\<not> 128 \<le> unat v div 268435456" using less_mult_imp_div_less not_le by blast
  then have "drop_bit 7 v \<ge> 0x80" "drop_bit 14 v \<ge> 0x80" "drop_bit 21 v \<ge> 0x80" "v \<ge> 0x80" "\<not> drop_bit 28 v \<ge> 0x80"
    using v by (simp_all add: word_le_nat_alt unat_drop_bit_div unat_div)
  then show ?thesis by (simp add: wuleb_big wuleb_small drop_bit_drop_bit)
qed

lemma uleb33_step:
  "sh < 32 \<Longrightarrow> uleb33_loop a sh (ucast (x AND 0x7f OR 0x80) # p) = uleb33_loop (a OR push_bit sh (x AND 0x7f)) (sh + 7) p"
  using uleb_byte[of x] by simp

lemma uleb33_last:
  "sh < 32 \<Longrightarrow> \<not> c \<ge> 0x80 \<Longrightarrow> c AND 0x7f = c \<Longrightarrow> uleb33_loop a sh (c # p) = Some (a OR push_bit sh (ucast c), p)"
  by simp

lemma double_bit: "bit (2 * k :: u32) n \<longleftrightarrow> 0 < n \<and> n < 32 \<and> bit k (n - 1)"
  using bit_push_bit_iff[of 1 k n] by (auto simp: push_bit_eq_mult bit_simps)

lemma lsb_or:
  assumes "lsb < 2" "\<not> bit w 0"
  shows "lsb + w = lsb OR (w :: u32)"
proof -
  have "lsb AND w = 0"
  proof (rule bit_word_eqI)
    fix n assume "n < LENGTH(32)"
    have "bit lsb n \<Longrightarrow> n = 0" 
    proof (rule ccontr)
      assume b: "bit lsb n" "n \<noteq> 0"
      have "drop_bit 1 lsb = 0" using assms(1) by (simp add: word_less_nat_alt word_unat_eq_iff unat_drop_bit_div)
      then show False using bit_above_drop[of 1 lsb n] b by simp
    qed
    then show "bit (lsb AND w) n = bit 0 n" using assms(2) by (auto simp: bit_simps)
  qed
  then show ?thesis by (simp add: disjunctive_add_eq_or)
qed

lemma uleb33_patched:
  fixes k v :: u32
  assumes v: "bit v 31" "\<And>n. n < 30 \<Longrightarrow> bit v (Suc n) = bit k n"
  defines "p \<equiv> lj_strfmt_wuleb128 v"
  shows "ruleb128_33 (butlast p @ (last p AND 7 OR ucast (drop_bit 27 k AND 0x18)) # rest) = Some (k, rest)"
proof -
  have m: "(0x3f :: u32) = mask 6" "(0x7f :: u32) = mask 7" by (simp_all add: mask_eq_exp_minus_1)
  have big: "v \<ge> 0x10000000"
  proof (rule ccontr)
    assume "\<not> v \<ge> 0x10000000"
    then have "drop_bit 28 v = 0" by (simp add: word_le_nat_alt word_unat_eq_iff unat_drop_bit_div unat_div)
    then show False using v(1) bit_above_drop[of 28 v 31] by simp
  qed
  define c where "c = (ucast (drop_bit 28 v) AND 7 OR ucast (drop_bit 27 k AND 0x18) :: u8)"
  have c: "c AND 0x7f = c" unfolding c_def by (simp add: bit.conj_disj_distrib2 and.assoc unsigned_and_eq)
  then have "c \<le> 0x7f" by (metis word_and_le1)
  then have c8: "\<not> c \<ge> 0x80" by (simp add: word_le_nat_alt)
  have "drop_bit 1 v AND 0x3f OR push_bit 6 (drop_bit 7 v AND 0x7f) OR push_bit 13 (drop_bit 14 v AND 0x7f) OR
    push_bit 20 (drop_bit 21 v AND 0x7f) OR push_bit 27 (ucast c) = k" (is "?r = k")
  proof (rule bit_word_eqI)
    fix n assume "n < LENGTH(32)"
    then have n: "n < 32" by simp
    have e: "bit v (7 + c) = bit k (6 + c)" if "c < 24" for c using v(2)[of "6 + c"] that by simp
    consider "n < 6" | c where "n = 6 + c" "c < 7" | c where "n = 13 + c" "c < 7" | c where "n = 20 + c" "c < 7"
      | c where "n = 27 + c" "c < 3" | "n = 30" | "n = 31"
    proof -
      have "n < 6 \<or> (6 \<le> n \<and> n < 13) \<or> (13 \<le> n \<and> n < 20) \<or> (20 \<le> n \<and> n < 27) \<or> (27 \<le> n \<and> n < 30) \<or> n = 30 \<or> n = 31"
        using n by linarith
      then show thesis using that by (auto simp: le_iff_add)
    qed
    then show "bit ?r n = bit k n"
    proof cases
      case 1
      then show ?thesis unfolding m c_def using v(2)[of n] by (simp add: bit_simps)
    next
      case (2 c)
      then show ?thesis unfolding m c_def using e[of c] by (simp add: bit_simps)
    next
      case (3 c)
      then show ?thesis unfolding m c_def using e[of "7 + c"] by (simp add: bit_simps)
    next
      case (4 c)
      then show ?thesis unfolding m c_def using e[of "14 + c"] by (simp add: bit_simps)
    next
      case (5 c)
      then have "c = 0 \<or> c = 1 \<or> c = 2" by arith
      then show ?thesis unfolding m c_def using 5 e[of "21 + c"] by (auto simp: bit_simps)
    next
      case 6
      then show ?thesis unfolding m c_def by (simp add: bit_simps)
    next
      case 7
      then show ?thesis unfolding m c_def by (simp add: bit_simps)
    qed
  qed
  then show ?thesis unfolding p_def wuleb_five[OF big] 
    by (simp add: ruleb33_head uleb33_step uleb33_last[OF _ c8 c] c_def[symmetric] or.assoc del: uleb33_loop.simps push_bit_and)
qed

lemma wuleb33_value:
  fixes k :: u32
  assumes "lsb < 2"
  defines "v \<equiv> lsb + (2 * k OR (k AND 0x80000000))"
  shows "n < 30 \<Longrightarrow> bit v (Suc n) = bit k n" "bit v 31 \<longleftrightarrow> bit k 30 \<or> bit k 31" "bit v 0 \<longleftrightarrow> bit lsb 0"
proof -
  have h: "(0x80000000 :: u32) = push_bit 31 1" by simp
  have l: "bit lsb (Suc n) = False" for n
  proof -
    have "drop_bit 1 lsb = 0" using assms(1) by (simp add: word_less_nat_alt word_unat_eq_iff unat_drop_bit_div)
    then show ?thesis using bit_above_drop[of 1 lsb "Suc n"] by simp
  qed
  have w: "\<not> bit (2 * k OR (k AND 0x80000000)) 0" unfolding bit_or_iff bit_and_iff double_bit by simp
  have v: "v = lsb OR (2 * k OR (k AND 0x80000000))" unfolding v_def by (rule lsb_or[OF assms(1) w])
  show "n < 30 \<Longrightarrow> bit v (Suc n) = bit k n" 
    unfolding v h by (simp add: l bit_or_iff bit_and_iff double_bit bit_push_bit_iff bit_1_iff del: push_bit_of_1)
  show "bit v 31 \<longleftrightarrow> bit k 30 \<or> bit k 31"
    using l[of 30] unfolding v by (simp add: bit_or_iff bit_and_iff double_bit)
  show "bit v 0 \<longleftrightarrow> bit lsb 0" using w unfolding v bit_or_iff by blast
qed

lemma hd_wuleb: "bit (hd (lj_strfmt_wuleb128 v)) 0 = bit v 0"
  by (cases "v \<ge> 0x80") (simp_all add: wuleb_big wuleb_small bit_simps)

lemma sint_neg_bit: "sint (k :: u32) < 0 \<longleftrightarrow> bit k 31"
  using bit_last_iff[of k] by simp

lemma wuleb33_roundtrip:
  assumes "lsb < 2"
  shows "ruleb128_33 (wuleb128_33 lsb k @ rest) = Some (k, rest)"
proof -
  define v where "v = lsb + (2 * k OR (k AND 0x80000000))"
  note b = wuleb33_value[OF assms, where k = k, folded v_def]
  show ?thesis
  proof (cases "sint k < 0")
    case True
    then show ?thesis using uleb33_patched[of v k rest] b by (simp add: wuleb128_33_def Let_def v_def[symmetric] sint_neg_bit)
  next
    case False
    have "drop_bit 1 v = k"
    proof (rule bit_word_eqI)
      fix n assume "n < LENGTH(32)"
      then consider "n < 30" | "n = 30" | "n = 31" by fastforce
      then show "bit (drop_bit 1 v) n = bit k n"
        using b False by cases (auto simp: bit_drop_bit_eq sint_neg_bit dest: bit_imp_le_length)
    qed
    then show ?thesis using False by (simp add: wuleb128_33_def Let_def v_def[symmetric] ruleb33_wuleb)
  qed
qed

lemma wuleb33_bytes:
  assumes "lsb < 2"
  shows "wuleb128_33 lsb k \<noteq> []" "length (wuleb128_33 lsb k) \<le> 5" "hd (wuleb128_33 lsb k) AND 1 \<noteq> 0 \<longleftrightarrow> lsb \<noteq> 0"
proof -
  define v where "v = lsb + (2 * k OR (k AND 0x80000000))"
  note b = wuleb33_value[OF assms, where k = k, folded v_def]
  let ?p = "lj_strfmt_wuleb128 v"
  have e: "wuleb128_33 lsb k = (if sint k < 0 then butlast ?p @ [(last ?p AND 7) OR ucast (drop_bit 27 k AND 0x18)] else ?p)"
    by (simp add: wuleb128_33_def Let_def v_def)
  have five: "butlast ?p \<noteq> [] \<and> hd (butlast ?p) = hd ?p" if "sint k < 0"
  proof -
    have "v \<ge> 0x80"
    proof (rule ccontr)
      assume "\<not> v \<ge> 0x80"
      then have "drop_bit 7 v = 0" by (simp add: word_le_nat_alt word_unat_eq_iff unat_drop_bit_div unat_div)
      then show False using that b(2) bit_above_drop[of 7 v 31] by (simp add: sint_neg_bit)
    qed
    then show ?thesis by (simp add: wuleb_big)
  qed
  show "wuleb128_33 lsb k \<noteq> []" by (simp add: e)
  show "length (wuleb128_33 lsb k) \<le> 5" using wuleb_max[of v] by (simp add: e)
  have "hd (wuleb128_33 lsb k) = hd ?p" using five by (simp add: e)
  moreover have "lsb = 0 \<or> lsb = 1" using assms by (simp add: word_less_nat_alt word_unat_eq_iff) arith
  ultimately show "hd (wuleb128_33 lsb k) AND 1 \<noteq> 0 \<longleftrightarrow> lsb \<noteq> 0"
    using hd_wuleb[of v] b(3) by (auto simp: and_one_eq bit_0 odd_iff_mod_2_eq_one)
qed

end
