(* ===== verification/LJ_BCWrite.thy ===== *)
theory LJ_BCWrite
  imports LJ_BCFormat
begin

text \<open>
  What the writer of theory \<open>LJ_BCDump\<close> produces: the format of a dump as pure functions, the room the writer reserves for
  it, and the proof that the writer puts exactly these bytes into the room it has reserved.
\<close>

section \<open>The format as functions\<close>

definition fmt_str :: "bytes \<Rightarrow> u32 \<Rightarrow> bytes" where
  "fmt_str s tp = lj_strfmt_wuleb128 (tp + word_of_nat (length s)) @ s"

definition fmt_ktabk :: "bc_env \<Rightarrow> bool \<Rightarrow> TValue \<Rightarrow> bytes" where
  "fmt_ktabk E narrow v =
     (if tvisstr v then fmt_str (e_sdata E (tv_lo v)) BCDUMP_KTAB_STR
      else if tvisnum v then
        if narrow \<and> dbl_eq v (setintV (lj_num2int v)) then ucast BCDUMP_KTAB_INT # lj_strfmt_wuleb128 (lj_num2int v)
        else ucast BCDUMP_KTAB_NUM # lj_strfmt_wuleb128 (tv_lo v) @ lj_strfmt_wuleb128 (itype v)
      else [ucast (BCDUMP_KTAB_NIL + NOT (itype v))])"

definition fmt_pairs :: "bc_env \<Rightarrow> (TValue \<times> TValue) list \<Rightarrow> bytes" where
  "fmt_pairs E ps = concat (map (\<lambda>(k, v). fmt_ktabk E False k @ fmt_ktabk E True v) ps)"

definition karray :: "GCtab \<Rightarrow> TValue list" where
  "karray t = take (ktab_narray t) (t_array t)"

definition kpairs :: "GCtab \<Rightarrow> (TValue \<times> TValue) list" where
  "kpairs t = (if ktab_nhash t \<noteq> 0 then node_pairs (rev (t_node t)) else [])"

definition fmt_ktab :: "bc_env \<Rightarrow> GCtab \<Rightarrow> bytes" where
  "fmt_ktab E t =
     lj_strfmt_wuleb128 (word_of_nat (ktab_narray t)) @ lj_strfmt_wuleb128 (word_of_nat (ktab_nhash t)) @
     concat (map (fmt_ktabk E True) (karray t)) @ fmt_pairs E (kpairs t)"

definition fmt_kgc1 :: "bc_env \<Rightarrow> KGC \<Rightarrow> bytes" where
  "fmt_kgc1 E k =
     (case k of
        KGC_STR r \<Rightarrow> fmt_str (e_sdata E r) BCDUMP_KGC_STR
      | KGC_PROTO p \<Rightarrow> lj_strfmt_wuleb128 BCDUMP_KGC_CHILD
      | KGC_TAB t \<Rightarrow> lj_strfmt_wuleb128 BCDUMP_KGC_TAB @ fmt_ktab E t
      | KGC_I64 q \<Rightarrow> lj_strfmt_wuleb128 BCDUMP_KGC_I64 @ bcwrite_u64 q
      | KGC_U64 q \<Rightarrow> lj_strfmt_wuleb128 BCDUMP_KGC_U64 @ bcwrite_u64 q
      | KGC_COMPLEX re im \<Rightarrow> lj_strfmt_wuleb128 BCDUMP_KGC_COMPLEX @ bcwrite_u64 re @ bcwrite_u64 im)"

definition fmt_body :: "bc_env \<Rightarrow> bool \<Rightarrow> GCproto \<Rightarrow> bytes" where
  "fmt_body E strip pt =
     proto_head strip pt @ bcwrite_bytecode E pt @ concat (map bytes_u16 (pt_uv pt)) @
     concat (map (fmt_kgc1 E) (pt_kgc pt)) @ concat (map bcwrite_knum1 (pt_kn pt)) @ (if strip then [] else pt_dbg pt)"

definition fmt_block :: "bc_env \<Rightarrow> bool \<Rightarrow> GCproto \<Rightarrow> bytes" where
  "fmt_block E strip pt = lj_strfmt_wuleb128 (word_of_nat (length (fmt_body E strip pt))) @ fmt_body E strip pt"

definition fmt_header :: "bc_env \<Rightarrow> bool \<Rightarrow> GCproto \<Rightarrow> bytes" where
  "fmt_header E strip pt =
     [BCDUMP_HEAD1, BCDUMP_HEAD2, BCDUMP_HEAD3, BCDUMP_VERSION,
      ucast ((if strip then BCDUMP_F_STRIP else 0) + (if pt_flags pt AND PROTO_FFI \<noteq> 0 then BCDUMP_F_FFI else 0))] @
     (if strip then [] else fmt_str (e_sdata E (pt_chunkname pt)) 0)"

text \<open>The prototypes in the order in which they are written: children first.\<close>

fun written :: "GCproto \<Rightarrow> GCproto list" and written_kids :: "KGC list \<Rightarrow> GCproto list" where
  "written (GCproto fl np fs sbc bc uv kgc kn tr cn fline nline dbg ui vi) =
     (if fl AND PROTO_CHILD \<noteq> 0 then written_kids kgc else []) @ [GCproto fl np fs sbc bc uv kgc kn tr cn fline nline dbg ui vi]"
| "written_kids [] = []"
| "written_kids (k # ks) = written_kids ks @ (case k of KGC_PROTO p \<Rightarrow> written p | _ \<Rightarrow> [])"

definition dump_pieces :: "bc_env \<Rightarrow> bool \<Rightarrow> GCproto \<Rightarrow> bytes list" where
  "dump_pieces E strip pt = fmt_header E strip pt # map (fmt_block E strip) (written pt) @ [[0]]"

text \<open>The writer callback gets the pieces one by one, until its status is not 0.\<close>

fun feed :: "(bytes \<Rightarrow> 'w \<Rightarrow> int \<times> 'w) \<Rightarrow> bytes list \<Rightarrow> int \<times> 'w \<Rightarrow> int \<times> 'w" where
  "feed f [] s = s"
| "feed f (p # ps) s = (if fst s = 0 then feed f ps (f p (snd s)) else s)"

section \<open>Sizes\<close>

text \<open>The limits of the compiler on the sizes of strings, instructions, upvalues, constants and debug information.\<close>

definition LJ_MAX_BCINS :: nat where "LJ_MAX_BCINS = 2 ^ 26"

definition str_sized :: "bc_env \<Rightarrow> TValue \<Rightarrow> bool" where
  "str_sized E v \<longleftrightarrow> (tvisstr v \<longrightarrow> length (e_sdata E (tv_lo v)) \<le> LJ_MAX_STR)"

definition tab_sized :: "bc_env \<Rightarrow> GCtab \<Rightarrow> bool" where
  "tab_sized E t \<longleftrightarrow> list_all (str_sized E) (karray t) \<and> list_all (\<lambda>(k, v). str_sized E k \<and> str_sized E v) (kpairs t)"

definition kgc_sized :: "bc_env \<Rightarrow> KGC \<Rightarrow> bool" where
  "kgc_sized E k \<longleftrightarrow>
     (case k of KGC_STR r \<Rightarrow> length (e_sdata E r) \<le> LJ_MAX_STR | KGC_TAB t \<Rightarrow> tab_sized E t | _ \<Rightarrow> True)"

text \<open>The number of instructions of a compiled function is the one that the prototype says.\<close>

definition bc_counted :: "GCproto \<Rightarrow> bool" where
  "bc_counted pt \<longleftrightarrow> pt_bc pt \<noteq> [] \<and> length (pt_bc pt) \<le> LJ_MAX_BCINS \<and> unat (pt_sizebc pt) = length (pt_bc pt)"

lemma bc_countedD:
  assumes "bc_counted pt"
  shows "unat (pt_sizebc pt - 1) = length (pt_bc pt) - 1" "unat ((pt_sizebc pt - 1) * 4) = 4 * (length (pt_bc pt) - 1)"
    "pt_sizebc pt - 1 = word_of_nat (length (pt_bc pt) - 1)" "pt_sizebc pt - 1 + 1 = pt_sizebc pt"
proof -
  have l: "0 < length (pt_bc pt)" "length (pt_bc pt) \<le> 2 ^ 26" "unat (pt_sizebc pt) = length (pt_bc pt)"
    using assms by (simp_all add: bc_counted_def LJ_MAX_BCINS_def)
  then have "pt_sizebc pt = word_of_nat (length (pt_bc pt))" by (simp add: word_unat_eq_iff unat_of_nat32)
  then show e: "pt_sizebc pt - 1 = word_of_nat (length (pt_bc pt) - 1)" using l(1) by (cases "pt_bc pt") simp_all
  have n: "length (pt_bc pt) - 1 < 2 ^ 26" using l(1,2) by simp
  show "unat (pt_sizebc pt - 1) = length (pt_bc pt) - 1" unfolding e by (rule unat_of_nat32) (use n in simp)
  have "(pt_sizebc pt - 1) * 4 = word_of_nat (4 * (length (pt_bc pt) - 1))" unfolding e by simp
  then show "unat ((pt_sizebc pt - 1) * 4) = 4 * (length (pt_bc pt) - 1)" by (simp only:) (rule unat_of_nat32, use n in simp)
qed simp

lemma bytecode_counted:
  assumes "bc_counted pt"
  shows "bcwrite_bytecode E pt = concat (map bytes_u32 (if patched pt then map (unpatch E) (tl (pt_bc pt)) else tl (pt_bc pt)))"
    "bytecode_inside pt"
  using bc_countedD[OF assms] by (simp_all add: bcwrite_bytecode_def bytecode_inside_def Let_def)

definition body_sized :: "bc_env \<Rightarrow> GCproto \<Rightarrow> bool" where
  "body_sized E pt \<longleftrightarrow>
     bc_counted pt \<and> length (pt_uv pt) \<le> 255 \<and> list_all (kgc_sized E) (pt_kgc pt) \<and>
     length (pt_kn pt) \<le> LJ_MAX_BCINS \<and> length (pt_dbg pt) < 2 ^ 31"

text \<open>The room that the writer asks for.\<close>

definition room_ktabk :: "bc_env \<Rightarrow> TValue \<Rightarrow> nat" where
  "room_ktabk E v = 11 + (if tvisstr v then 5 + length (e_sdata E (tv_lo v)) else 0)"

definition room_ktab :: "bc_env \<Rightarrow> GCtab \<Rightarrow> nat" where
  "room_ktab E t = 11 + sum_list (map (room_ktabk E) (karray t)) + sum_list (map (\<lambda>(k, v). room_ktabk E k + room_ktabk E v) (kpairs t))"

definition room_kgc1 :: "bc_env \<Rightarrow> KGC \<Rightarrow> nat" where
  "room_kgc1 E k =
     (case k of KGC_STR r \<Rightarrow> 5 + length (e_sdata E r) | KGC_PROTO p \<Rightarrow> 1 | KGC_TAB t \<Rightarrow> room_ktab E t | _ \<Rightarrow> 21)"

definition room_body :: "bc_env \<Rightarrow> bool \<Rightarrow> GCproto \<Rightarrow> nat" where
  "room_body E strip pt =
     39 + 4 * (length (pt_bc pt) - 1) + 2 * length (pt_uv pt) + sum_list (map (room_kgc1 E) (pt_kgc pt)) + 10 * length (pt_kn pt) +
     (if strip then 0 else length (pt_dbg pt))"

section \<open>Writing into reserved room\<close>

definition writes :: "('w, unit) wr \<Rightarrow> bytes \<Rightarrow> nat \<Rightarrow> bool" where
  "writes w bs n \<longleftrightarrow> length bs \<le> n \<and>
     (\<forall>ctx. sbuf_ok (wc_sb ctx) \<longrightarrow>
        (\<exists>sb. w ctx = Inr ((), ctx\<lparr>wc_sb := sb\<rparr>) \<and> sbuf_ok sb \<and> sb_data sb = sb_data (wc_sb ctx) @ bs) \<or>
        w ctx = Inl LJ_ERR_ERRMEM \<and> LJ_MAX_BUF < length (sb_data (wc_sb ctx)) + n)"

lemma bnd_assoc: "bnd (bnd m f) g = bnd m (\<lambda>x. bnd (f x) g)"
  by (auto simp: bnd_def fun_eq_iff split: sum.splits)

lemma writes_ret: "writes (ret ()) [] 0"
proof -
  have "ret () ctx = Inr ((), ctx\<lparr>wc_sb := wc_sb ctx\<rparr>)" for ctx :: "'a BCWriteCtx" by (simp add: ret_def)
  then show ?thesis unfolding writes_def by force
qed

lemma writes_bnd:
  assumes a: "writes w1 bs n" and b: "writes w2 cs m"
  shows "writes (bnd w1 (\<lambda>_. w2)) (bs @ cs) (n + m)"
proof -
  have "(\<exists>sb. bnd w1 (\<lambda>_. w2) ctx = Inr ((), ctx\<lparr>wc_sb := sb\<rparr>) \<and> sbuf_ok sb \<and> sb_data sb = sb_data (wc_sb ctx) @ bs @ cs) \<or>
     bnd w1 (\<lambda>_. w2) ctx = Inl LJ_ERR_ERRMEM \<and> LJ_MAX_BUF < length (sb_data (wc_sb ctx)) + (n + m)" if ok: "sbuf_ok (wc_sb ctx)" for ctx
  proof -
    have la: "length bs \<le> n" using a by (simp add: writes_def)
    from a ok consider sb where "w1 ctx = Inr ((), ctx\<lparr>wc_sb := sb\<rparr>)" "sbuf_ok sb" "sb_data sb = sb_data (wc_sb ctx) @ bs"
      | "w1 ctx = Inl LJ_ERR_ERRMEM" "LJ_MAX_BUF < length (sb_data (wc_sb ctx)) + n" unfolding writes_def by blast
    then show ?thesis
    proof cases
      case (1 sb)
      let ?c = "ctx\<lparr>wc_sb := sb\<rparr>"
      have "sbuf_ok (wc_sb ?c)" using 1 by simp
      then have "(\<exists>sb'. w2 ?c = Inr ((), ?c\<lparr>wc_sb := sb'\<rparr>) \<and> sbuf_ok sb' \<and> sb_data sb' = sb_data (wc_sb ?c) @ cs) \<or>
        w2 ?c = Inl LJ_ERR_ERRMEM \<and> LJ_MAX_BUF < length (sb_data (wc_sb ?c)) + m" using b unfolding writes_def by blast
      then show ?thesis using 1 la by (auto simp: bnd_def)
    qed (simp add: bnd_def)
  qed
  then show ?thesis using a b by (simp add: writes_def)
qed

lemma writes_mono: "writes w bs n \<Longrightarrow> n \<le> m \<Longrightarrow> writes w bs m"
  unfolding writes_def by fastforce

lemma writes_more:
  assumes "length bs \<le> unat need"
  shows "writes (bc_more need bs) bs (unat need)"
proof -
  have "(\<exists>sb. bc_more need bs ctx = Inr ((), ctx\<lparr>wc_sb := sb\<rparr>) \<and> sbuf_ok sb \<and> sb_data sb = sb_data (wc_sb ctx) @ bs) \<or>
     bc_more need bs ctx = Inl LJ_ERR_ERRMEM \<and> LJ_MAX_BUF < length (sb_data (wc_sb ctx)) + unat need" if ok: "sbuf_ok (wc_sb ctx)" for ctx :: "'a BCWriteCtx"
    using lj_buf_more_cases[OF ok, of need]
  proof
    assume "\<exists>n. lj_buf_more (wc_sb ctx) need = Inr (wc_sb ctx\<lparr>sb_sz := n\<rparr>) \<and> length (sb_data (wc_sb ctx)) + unat need \<le> unat n \<and>
      sbuf_ok (wc_sb ctx\<lparr>sb_sz := n\<rparr>)"
    then show ?thesis using assms by (auto simp: bc_more_def buf_write_def sbuf_ok_def)
  qed (use assms in \<open>simp add: bc_more_def buf_write_def\<close>)
  then show ?thesis using assms by (simp add: writes_def)
qed

lemma writes_list:
  assumes "\<And>x. x \<in> set xs \<Longrightarrow> writes (f x) (g x) (h x)"
    and "F [] = ret ()" "\<And>x xs. F (x # xs) = bnd (f x) (\<lambda>_. F xs)"
  shows "writes (F xs) (concat (map g xs)) (sum_list (map h xs))"
  using assms(1)
proof (induction xs)
  case Nil
  then show ?case by (simp add: assms(2) writes_ret)
next
  case (Cons x xs)
  then show ?case using writes_bnd[of "f x" "g x" "h x" "F xs"] by (simp add: assms(3))
qed

section \<open>The constants\<close>

lemma str_len: "n \<le> LJ_MAX_STR \<Longrightarrow> unat (word_of_nat n :: u32) = n" "n \<le> LJ_MAX_STR \<Longrightarrow> unat (5 + word_of_nat n :: u32) = 5 + n"
  by (simp_all add: lj_limits unat_of_nat_id unat_word_ariths)

lemma fmt_str_length: "length (fmt_str s tp) \<le> 5 + length s"
  using wuleb_max by (simp add: fmt_str_def)

lemma writes_ktabk:
  assumes "str_sized E v"
  shows "writes (bcwrite_ktabk E v narrow :: ('w, unit) wr) (fmt_ktabk E narrow v) (room_ktabk E v)"
proof (cases "tvisstr v")
  case True
  let ?s = "e_sdata E (tv_lo v)" let ?n = "word_of_nat (length ?s) :: u32"
  have len: "unat (5 + ?n) = 5 + length ?s" using assms True by (simp add: str_sized_def str_len)
  have "writes (bc_more (5 + ?n) (fmt_str ?s BCDUMP_KTAB_STR) :: ('w, unit) wr) (fmt_str ?s BCDUMP_KTAB_STR) (5 + length ?s)"
    using writes_more[of "fmt_str ?s BCDUMP_KTAB_STR" "5 + ?n"] fmt_str_length[of ?s] by (simp add: len)
  moreover have "writes (bc_more (1 + 10) [] :: ('w, unit) wr) [] 11" using writes_more[of "[]" "1 + 10"] by simp
  ultimately have "writes (bnd (bc_more (1 + 10) []) (\<lambda>_. bc_more (5 + ?n) (fmt_str ?s BCDUMP_KTAB_STR)) :: ('w, unit) wr)
      ([] @ fmt_str ?s BCDUMP_KTAB_STR) (11 + (5 + length ?s))"
    by (intro writes_bnd)
  then show ?thesis using True by (simp add: bcwrite_ktabk_def fmt_ktabk_def room_ktabk_def Let_def fmt_str_def)
next
  case False
  have "length (fmt_ktabk E narrow v) \<le> 11"
    using False wuleb_max[of "tv_lo v"] wuleb_max[of "itype v"] wuleb_max[of "lj_num2int v"] by (simp add: fmt_ktabk_def)
  then have "writes (bc_more (1 + 10) (fmt_ktabk E narrow v) :: ('w, unit) wr) (fmt_ktabk E narrow v) 11" 
    using writes_more[of "fmt_ktabk E narrow v" "1 + 10 :: u32"] by simp
  then show ?thesis using False by (auto simp: bcwrite_ktabk_def fmt_ktabk_def room_ktabk_def Let_def split: if_splits)
qed

lemma writes_karray: "list_all (str_sized E) vs \<Longrightarrow> writes (bcwrite_karray E vs) (concat (map (fmt_ktabk E True) vs)) (sum_list (map (room_ktabk E) vs))"
  by (rule writes_list[where f = "\<lambda>v. bcwrite_ktabk E v True"]) (auto simp: list_all_iff writes_ktabk)

lemma writes_khash:
  "list_all (\<lambda>(k, v). str_sized E k \<and> str_sized E v) (node_pairs ns) \<Longrightarrow>
   writes (bcwrite_khash E ns :: ('w, unit) wr) (fmt_pairs E (node_pairs ns)) (sum_list (map (\<lambda>(k, v). room_ktabk E k + room_ktabk E v) (node_pairs ns)))"
proof (induction ns)
  case Nil
  then show ?case by (simp add: fmt_pairs_def writes_ret)
next
  case (Cons n ns)
  show ?case
  proof (cases "tvisnil (n_val n)")
    case False
    have "writes (bnd (bcwrite_ktabk E (n_key n) False) (\<lambda>_. bnd (bcwrite_ktabk E (n_val n) True) (\<lambda>_. bcwrite_khash E ns)) :: ('w, unit) wr)
      (fmt_ktabk E False (n_key n) @ fmt_ktabk E True (n_val n) @ fmt_pairs E (node_pairs ns))
      (room_ktabk E (n_key n) + (room_ktabk E (n_val n) + sum_list (map (\<lambda>(k, v). room_ktabk E k + room_ktabk E v) (node_pairs ns))))"
      using Cons False by (intro writes_bnd writes_ktabk) simp_all
    then show ?thesis using False by (simp add: fmt_pairs_def ac_simps)
  qed (use Cons in simp)
qed

lemma writes_ktab:
  assumes "tab_sized E t" "unat need \<ge> length pre + 10"
  shows "writes (bcwrite_ktab E need pre t) (pre @ fmt_ktab E t) (unat need + (room_ktab E t - 11))"
proof -
  let ?hd = "pre @ lj_strfmt_wuleb128 (word_of_nat (ktab_narray t)) @ lj_strfmt_wuleb128 (word_of_nat (ktab_nhash t))"
  have l: "length ?hd \<le> unat need"
    using assms(2) wuleb_max[of "word_of_nat (ktab_narray t)"] wuleb_max[of "word_of_nat (ktab_nhash t)"] by simp
  have "writes (if ktab_nhash t \<noteq> 0 then bcwrite_khash E (rev (t_node t)) else ret ()) (fmt_pairs E (kpairs t))
    (sum_list (map (\<lambda>(k, v). room_ktabk E k + room_ktabk E v) (kpairs t)))"
    using writes_khash[of E "rev (t_node t)"] assms(1) by (auto simp: kpairs_def tab_sized_def fmt_pairs_def writes_ret)
  moreover have "writes (bcwrite_karray E (karray t)) (concat (map (fmt_ktabk E True) (karray t))) (sum_list (map (room_ktabk E) (karray t)))"
    using assms(1) by (intro writes_karray) (simp add: tab_sized_def)
  ultimately have "writes (bcwrite_ktab E need pre t) (?hd @ concat (map (fmt_ktabk E True) (karray t)) @ fmt_pairs E (kpairs t))
    (unat need + (sum_list (map (room_ktabk E) (karray t)) + sum_list (map (\<lambda>(k, v). room_ktabk E k + room_ktabk E v) (kpairs t))))"
    unfolding bcwrite_ktab_def Let_def karray_def[symmetric] using writes_more[OF l] by (intro writes_bnd)
  then show ?thesis by (simp add: fmt_ktab_def room_ktab_def)
qed

lemma wuleb_tag: "k < 0x80 \<Longrightarrow> lj_strfmt_wuleb128 k = [ucast k]"
  by (rule wuleb_small) (simp add: not_le)

lemma writes_kgc1:
  assumes "kgc_sized E k"
  shows "writes (bcwrite_kgc1 E k) (fmt_kgc1 E k) (room_kgc1 E k)"
proof (cases k)
  case (KGC_STR r)
  let ?s = "e_sdata E r" let ?n = "word_of_nat (length ?s) :: u32"
  have "unat (5 + ?n) = 5 + length ?s" using assms KGC_STR by (simp add: kgc_sized_def str_len)
  then have "writes (bc_more (5 + ?n) (fmt_str ?s BCDUMP_KGC_STR)) (fmt_str ?s BCDUMP_KGC_STR) (5 + length ?s)"
    using writes_more[of "fmt_str ?s BCDUMP_KGC_STR" "5 + ?n"] fmt_str_length[of ?s] by simp
  then show ?thesis using KGC_STR by (simp add: bcwrite_kgc1_def fmt_kgc1_def room_kgc1_def Let_def fmt_str_def)
next
  case (KGC_TAB t)
  then show ?thesis using assms writes_ktab[of E t "lj_strfmt_wuleb128 BCDUMP_KGC_TAB" "1 + 2 * 5"]
    by (simp add: bcwrite_kgc1_def fmt_kgc1_def room_kgc1_def kgc_sized_def room_ktab_def wuleb_tag bcdump_types add.assoc)
next
  case (KGC_PROTO p)
  then show ?thesis using writes_more[of "lj_strfmt_wuleb128 BCDUMP_KGC_CHILD" 1]
    by (simp add: bcwrite_kgc1_def fmt_kgc1_def room_kgc1_def wuleb_tag bcdump_types)
next
  case (KGC_I64 q)
  have "length (fmt_kgc1 E k) \<le> 21" using KGC_I64 wuleb_max[of "tv_lo q"] wuleb_max[of "itype q"]
    by (simp add: fmt_kgc1_def bcwrite_u64_def wuleb_tag bcdump_types)
  then show ?thesis using KGC_I64 writes_more[of "fmt_kgc1 E k" "1 + 4 * 5"]
    by (simp add: bcwrite_kgc1_def fmt_kgc1_def room_kgc1_def)
next
  case (KGC_U64 q)
  have "length (fmt_kgc1 E k) \<le> 21" using KGC_U64 wuleb_max[of "tv_lo q"] wuleb_max[of "itype q"]
    by (simp add: fmt_kgc1_def bcwrite_u64_def wuleb_tag bcdump_types)
  then show ?thesis using KGC_U64 writes_more[of "fmt_kgc1 E k" "1 + 4 * 5"]
    by (simp add: bcwrite_kgc1_def fmt_kgc1_def room_kgc1_def)
next
  case (KGC_COMPLEX re im)
  have "length (fmt_kgc1 E k) \<le> 21" using KGC_COMPLEX wuleb_max[of "tv_lo re"] wuleb_max[of "itype re"] wuleb_max[of "tv_lo im"] wuleb_max[of "itype im"]
    by (simp add: fmt_kgc1_def bcwrite_u64_def wuleb_tag bcdump_types)
  then show ?thesis using KGC_COMPLEX writes_more[of "fmt_kgc1 E k" "1 + 4 * 5"]
    by (simp add: bcwrite_kgc1_def fmt_kgc1_def room_kgc1_def)
qed

lemma writes_kgc: "list_all (kgc_sized E) ks \<Longrightarrow> writes (bcwrite_kgc E ks) (concat (map (fmt_kgc1 E) ks)) (sum_list (map (room_kgc1 E) ks))"
  by (rule writes_list[where f = "bcwrite_kgc1 E"]) (auto simp: list_all_iff writes_kgc1)

lemma knum1_length: "length (bcwrite_knum1 v) \<le> 10"
  using wuleb33_bytes(2)[of 0 "lj_num2int v"] wuleb33_bytes(2)[of 1 "tv_lo v"] wuleb_max[of "itype v"] by (simp add: bcwrite_knum1_def Let_def)

lemma writes_knum:
  assumes "length kn \<le> LJ_MAX_BCINS"
  shows "writes (bcwrite_knum kn) (concat (map bcwrite_knum1 kn)) (10 * length kn)"
proof -
  have "unat (10 * word_of_nat (length kn) :: u32) = 10 * length kn"
    using assms by (simp add: LJ_MAX_BCINS_def unat_word_ariths unat_of_nat_id)
  moreover have "length (concat (map bcwrite_knum1 kn)) \<le> 10 * length kn"
    using knum1_length by (induction kn) (simp_all add: add_mono)
  ultimately show ?thesis unfolding bcwrite_knum_def using writes_more[of "concat (map bcwrite_knum1 kn)" "10 * word_of_nat (length kn)"] by simp
qed

section \<open>Prototypes\<close>

lemma lj_buf_need_cases:
  assumes ok: "sbuf_ok sb" and l: "length bs \<le> unat need"
  shows "(\<exists>n. lj_buf_need sb need = Inr (sb\<lparr>sb_sz := n\<rparr>) \<and> sbuf_ok (sb\<lparr>sb_sz := n, sb_data := bs\<rparr>)) \<or>
    lj_buf_need sb need = Inl LJ_ERR_ERRMEM \<and> LJ_MAX_BUF < unat need"
proof (cases "need > sb_sz sb")
  case False
  then have "sbuf_ok (sb\<lparr>sb_sz := sb_sz sb, sb_data := bs\<rparr>)" using ok l by (simp add: sbuf_ok_def word_less_nat_alt)
  then show ?thesis using False by (intro disjI1 exI[of _ "sb_sz sb"]) (simp add: lj_buf_need_def)
next
  case True
  show ?thesis
  proof (cases "need > word_of_nat LJ_MAX_BUF")
    case False
    then have "unat need \<le> 2 ^ 31" by (simp add: word_less_nat_alt lj_limits)
    from buf_grow_ok[OF ok this] obtain n where "buf_grow sb need = Inr (sb\<lparr>sb_sz := n\<rparr>)" "need \<le> n" "sbuf_ok (sb\<lparr>sb_sz := n\<rparr>)" by blast
    then show ?thesis using True False l by (auto simp: lj_buf_need_def lj_buf_need2_def sbuf_ok_def word_le_nat_alt)
  qed (use True in \<open>auto simp: lj_buf_need_def lj_buf_need2_def word_less_nat_alt\<close>)
qed

text \<open>A write that starts with \<open>bc_need\<close> replaces what the buffer held.\<close>

lemma bc_need_cases:
  assumes "sbuf_ok (wc_sb ctx)" "length bs \<le> unat need"
  shows "(\<exists>sb. bc_need need bs ctx = Inr ((), ctx\<lparr>wc_sb := sb\<rparr>) \<and> sbuf_ok sb \<and> sb_data sb = bs) \<or>
    bc_need need bs ctx = Inl LJ_ERR_ERRMEM \<and> LJ_MAX_BUF < unat need"
  using lj_buf_need_cases[OF assms] assms(2) by (auto simp: bc_need_def)

lemma needs_then:
  assumes ok: "sbuf_ok (wc_sb ctx)" and l: "length bs \<le> unat need" and w: "writes w cs n"
  shows "(\<exists>sb. bnd (bc_need need bs) (\<lambda>_. w) ctx = Inr ((), ctx\<lparr>wc_sb := sb\<rparr>) \<and> sbuf_ok sb \<and> sb_data sb = bs @ cs) \<or>
    bnd (bc_need need bs) (\<lambda>_. w) ctx = Inl LJ_ERR_ERRMEM \<and> LJ_MAX_BUF < unat need + n"
  using bc_need_cases[OF ok l]
proof (elim disjE exE conjE)
  fix sb assume sb: "bc_need need bs ctx = Inr ((), ctx\<lparr>wc_sb := sb\<rparr>)" "sbuf_ok sb" "sb_data sb = bs"
  let ?c = "ctx\<lparr>wc_sb := sb\<rparr>"
  have "sbuf_ok (wc_sb ?c)" using sb by simp
  then have "(\<exists>sb'. w ?c = Inr ((), ?c\<lparr>wc_sb := sb'\<rparr>) \<and> sbuf_ok sb' \<and> sb_data sb' = sb_data (wc_sb ?c) @ cs) \<or>
    w ?c = Inl LJ_ERR_ERRMEM \<and> LJ_MAX_BUF < length (sb_data (wc_sb ?c)) + n" using w unfolding writes_def by blast
  then show ?thesis using sb l by (auto simp: bnd_def)
qed (simp add: bnd_def)

lemma bcwrite_flush_eq:
  assumes "sbuf_ok (wc_sb ctx)" "sb_data (wc_sb ctx) = replicate 5 0 @ b"
  shows "\<exists>sb. sbuf_ok sb \<and> bcwrite_flush ctx =
    (if wc_status ctx = 0 then bc_wfunc (lj_strfmt_wuleb128 (word_of_nat (length b)) @ b) (ctx\<lparr>wc_sb := sb\<rparr>) else Inr ((), ctx\<lparr>wc_sb := sb\<rparr>))"
proof (cases "wc_status ctx = 0")
  case True
  let ?n = "word_of_nat (length b) :: u32" let ?l = "lj_strfmt_wuleb128 ?n"
  have m: "length ?l \<le> 5" by (rule wuleb_max)
  have b: "unat ?n = length b" using sbuf_ok_len[OF assms(1)] assms(2) by (simp add: unat_of_nat_id)
  define buf where "buf = replicate (5 - length ?l) 0 @ ?l @ b"
  have e: "take (5 - length ?l) (replicate 5 0 @ b) @ ?l @ drop (5 - length ?l + length ?l) (replicate 5 0 @ b) = buf"
    using m by (simp add: buf_def)
  have t: "take (length ?l + length b) (drop (5 - length ?l) buf) = ?l @ b" by (simp add: buf_def)
  have d: "length (replicate 5 0 @ b) - 5 = length b" by simp
  have "length buf = length (sb_data (wc_sb ctx))" using m assms(2) by (simp add: buf_def)
  then have "sbuf_ok ((wc_sb ctx)\<lparr>sb_data := buf\<rparr>)" using assms(1) by (simp add: sbuf_ok_def)
  moreover have "bcwrite_flush ctx = bc_wfunc (?l @ b) (ctx\<lparr>wc_sb := (wc_sb ctx)\<lparr>sb_data := buf\<rparr>\<rparr>)"
    by (simp only: bcwrite_flush_def Let_def assms(2) True if_True d wuleb_size e t b refl)
  ultimately show ?thesis using True by auto
next
  case False
  then show ?thesis using assms(1) by (intro exI[of _ "wc_sb ctx"]) (simp add: bcwrite_flush_def)
qed

lemma proto_head_length: "4 \<le> length (proto_head strip pt)" "length (proto_head strip pt) \<le> 4 + 6 * 5"
proof -
  show "4 \<le> length (proto_head strip pt)" by (simp add: proto_head_def Let_def)
  show "length (proto_head strip pt) \<le> 4 + 6 * 5"
    using wuleb_max[of "word_of_nat (length (pt_kgc pt))"] wuleb_max[of "word_of_nat (length (pt_kn pt))"]
      wuleb_max[of "pt_sizebc pt - 1"] wuleb_max[of "word_of_nat (length (pt_dbg pt))"]
      wuleb_max[of "pt_firstline pt"] wuleb_max[of "pt_numline pt"] wuleb_max[of 0]
    by (simp add: proto_head_def Let_def)
qed

lemma bytes_length [simp]: "length (concat (map bytes_u32 xs)) = 4 * length xs" "length (concat (map bytes_u16 ys)) = 2 * length ys"
  by (induction xs, simp_all add: bytes_u32_def) (induction ys, simp_all add: bytes_u16_def)

lemma bytecode_length [simp]: "bc_counted pt \<Longrightarrow> length (bcwrite_bytecode E pt) = 4 * (length (pt_bc pt) - 1)"
  by (simp add: bytecode_counted)

text \<open>One prototype: the piece is handed out when the status is still 0; the only error is that of a full buffer.\<close>

lemma bcwrite_body_ok:
  assumes ok: "sbuf_ok (wc_sb ctx)" and sz: "body_sized E pt"
  shows "(\<exists>sb. sbuf_ok sb \<and> bcwrite_body E pt ctx =
      (if wc_status ctx = 0 then bc_wfunc (fmt_block E (wc_strip ctx) pt) (ctx\<lparr>wc_sb := sb\<rparr>) else Inr ((), ctx\<lparr>wc_sb := sb\<rparr>))) \<or>
    bcwrite_body E pt ctx = Inl LJ_ERR_ERRMEM \<and> LJ_MAX_BUF < room_body E (wc_strip ctx) pt"
proof -
  let ?strip = "wc_strip ctx" and ?dbg = "if wc_strip ctx then [] else pt_dbg pt"
  let ?need = "5 + 4 + 6 * 5 + (pt_sizebc pt - 1) * 4 + word_of_nat (length (pt_uv pt)) * 2 :: u32"
  let ?bs = "replicate 5 0 @ proto_head ?strip pt @ bcwrite_bytecode E pt @ concat (map bytes_u16 (pt_uv pt))"
  let ?cs = "concat (map (fmt_kgc1 E) (pt_kgc pt)) @ concat (map bcwrite_knum1 (pt_kn pt)) @ ?dbg"
  let ?m = "sum_list (map (room_kgc1 E) (pt_kgc pt)) + (10 * length (pt_kn pt) + length ?dbg)"
  have c: "bc_counted pt" and s: "length (pt_uv pt) \<le> 255" "list_all (kgc_sized E) (pt_kgc pt)" "length (pt_kn pt) \<le> LJ_MAX_BCINS"
    "length (pt_dbg pt) < 2 ^ 31" using sz by (simp_all add: body_sized_def)
  have need: "unat ?need = 39 + 4 * (length (pt_bc pt) - 1) + 2 * length (pt_uv pt)"
  proof -
    define n where "n = length (pt_bc pt) - 1"
    have n: "length (pt_bc pt) = Suc n" using c by (cases "pt_bc pt") (auto simp: n_def bc_counted_def)
    have e: "?need = word_of_nat (39 + 4 * n + 2 * length (pt_uv pt))" unfolding bc_countedD(3)[OF c] n by simp
    have "n \<le> 2 ^ 26" "length (pt_uv pt) \<le> 255" using c s n by (simp_all add: bc_counted_def LJ_MAX_BCINS_def)
    then have "39 + 4 * n + 2 * length (pt_uv pt) < 2 ^ 32" by simp
    then have "unat (word_of_nat (39 + 4 * n + 2 * length (pt_uv pt)) :: u32) = 39 + 4 * n + 2 * length (pt_uv pt)" by (rule unat_of_nat32)
    then show ?thesis by (simp only: e n_def[symmetric])
  qed
  have l: "length ?bs \<le> unat ?need" using proto_head_length(2)[of ?strip pt] unfolding need by (simp add: c)
  have "writes (if ?dbg \<noteq> [] then bc_more (word_of_nat (length ?dbg)) ?dbg else ret ()) ?dbg (length ?dbg)"
    using writes_more[of ?dbg "word_of_nat (length ?dbg)"] s by (auto simp: writes_ret unat_of_nat_id)
  then have "writes (bnd (bcwrite_kgc E (pt_kgc pt)) (\<lambda>_. bnd (bcwrite_knum (pt_kn pt)) (\<lambda>_.
      if ?dbg \<noteq> [] then bc_more (word_of_nat (length ?dbg)) ?dbg else ret ()))) ?cs ?m"
    using s by (intro writes_bnd writes_kgc writes_knum) (simp_all add: LJ_MAX_BCINS_def)
  note nt = needs_then[OF ok l this]
  have body: "bcwrite_body E pt ctx = bnd (bnd (bc_need ?need ?bs) (\<lambda>_. bnd (bcwrite_kgc E (pt_kgc pt)) (\<lambda>_. bnd (bcwrite_knum (pt_kn pt)) (\<lambda>_.
      if ?dbg \<noteq> [] then bc_more (word_of_nat (length ?dbg)) ?dbg else ret ())))) (\<lambda>_. bcwrite_flush) ctx" (is "_ = bnd ?w _ ctx")
    by (simp only: bcwrite_body_def Let_def bnd_assoc bytecode_counted(2)[OF c] simp_thms if_False)
  from nt show ?thesis
  proof (elim disjE exE conjE)
    fix sb assume e: "?w ctx = Inr ((), ctx\<lparr>wc_sb := sb\<rparr>)" and sb: "sbuf_ok sb" "sb_data sb = ?bs @ ?cs"
    have "sb_data (wc_sb (ctx\<lparr>wc_sb := sb\<rparr>)) = replicate 5 0 @ fmt_body E ?strip pt" using sb by (simp add: fmt_body_def)
    from bcwrite_flush_eq[OF _ this] sb obtain sb' where
      "sbuf_ok sb'" "bcwrite_flush (ctx\<lparr>wc_sb := sb\<rparr>) = (if wc_status ctx = 0 then bc_wfunc (fmt_block E ?strip pt) (ctx\<lparr>wc_sb := sb'\<rparr>)
        else Inr ((), ctx\<lparr>wc_sb := sb'\<rparr>))" by (auto simp: fmt_block_def)
    then show ?thesis unfolding body bnd_Inr[of ?w, OF e] by auto
  next
    assume e: "?w ctx = Inl LJ_ERR_ERRMEM" and r: "LJ_MAX_BUF < unat ?need + ?m"
    have "LJ_MAX_BUF < room_body E ?strip pt" using r unfolding need room_body_def by (cases ?strip) (simp_all add: add.assoc)
    then show ?thesis unfolding body bnd_Inl[of ?w, OF e] by simp
  qed
qed

section \<open>Dumps\<close>

lemma feed_stop: "fst s \<noteq> 0 \<Longrightarrow> feed f ps s = s"
  by (cases ps) simp_all

lemma feed_append [simp]: "feed f (ps @ qs) s = feed f qs (feed f ps s)"
  by (induction ps arbitrary: s) (simp_all add: feed_stop)

definition emits :: "('w, unit) wr \<Rightarrow> bool \<Rightarrow> bytes list \<Rightarrow> bool \<Rightarrow> bool" where
  "emits w strip ps full \<longleftrightarrow>
     (\<forall>ctx. sbuf_ok (wc_sb ctx) \<and> wc_strip ctx = strip \<longrightarrow>
        (\<exists>sb. sbuf_ok sb \<and> w ctx = Inr ((), ctx\<lparr>wc_sb := sb, wc_status := fst (feed (wc_wfunc ctx) ps (wc_status ctx, wc_wdata ctx)),
           wc_wdata := snd (feed (wc_wfunc ctx) ps (wc_status ctx, wc_wdata ctx))\<rparr>)) \<or>
        w ctx = Inl LJ_ERR_ERRMEM \<and> full)"

lemma emitsD:
  "emits w strip ps full \<Longrightarrow> sbuf_ok (wc_sb ctx) \<Longrightarrow> wc_strip ctx = strip \<Longrightarrow>
     (\<exists>sb. sbuf_ok sb \<and> w ctx = Inr ((), ctx\<lparr>wc_sb := sb, wc_status := fst (feed (wc_wfunc ctx) ps (wc_status ctx, wc_wdata ctx)),
       wc_wdata := snd (feed (wc_wfunc ctx) ps (wc_status ctx, wc_wdata ctx))\<rparr>)) \<or> w ctx = Inl LJ_ERR_ERRMEM \<and> full"
  by (simp add: emits_def)

lemma emits_ret: "emits (ret ()) strip [] full"
  unfolding emits_def
proof (intro allI impI disjI1)
  fix ctx :: "'a BCWriteCtx" assume "sbuf_ok (wc_sb ctx) \<and> wc_strip ctx = strip"
  then show "\<exists>sb. sbuf_ok sb \<and> ret () ctx = Inr ((), ctx\<lparr>wc_sb := sb, wc_status := fst (feed (wc_wfunc ctx) [] (wc_status ctx, wc_wdata ctx)),
      wc_wdata := snd (feed (wc_wfunc ctx) [] (wc_status ctx, wc_wdata ctx))\<rparr>)"
    by (intro exI[of _ "wc_sb ctx"]) (simp add: ret_def)
qed

lemma emits_bnd:
  assumes a: "emits w1 strip ps full" and b: "emits w2 strip qs full"
  shows "emits (bnd w1 (\<lambda>_. w2)) strip (ps @ qs) full"
  unfolding emits_def
proof (intro allI impI)
  fix ctx :: "'a BCWriteCtx" assume ok: "sbuf_ok (wc_sb ctx) \<and> wc_strip ctx = strip"
  let ?r = "feed (wc_wfunc ctx) ps (wc_status ctx, wc_wdata ctx)"
  from emitsD[OF a] ok consider sb where "sbuf_ok sb" "w1 ctx = Inr ((), ctx\<lparr>wc_sb := sb, wc_status := fst ?r, wc_wdata := snd ?r\<rparr>)"
    | "w1 ctx = Inl LJ_ERR_ERRMEM" "full" by blast
  then show "(\<exists>sb. sbuf_ok sb \<and> bnd w1 (\<lambda>_. w2) ctx = Inr ((), ctx\<lparr>wc_sb := sb, wc_status := fst (feed (wc_wfunc ctx) (ps @ qs) (wc_status ctx, wc_wdata ctx)),
      wc_wdata := snd (feed (wc_wfunc ctx) (ps @ qs) (wc_status ctx, wc_wdata ctx))\<rparr>)) \<or> bnd w1 (\<lambda>_. w2) ctx = Inl LJ_ERR_ERRMEM \<and> full"
  proof cases
    case (1 sb)
    let ?c = "ctx\<lparr>wc_sb := sb, wc_status := fst ?r, wc_wdata := snd ?r\<rparr>"
    have "sbuf_ok (wc_sb ?c)" "wc_strip ?c = strip" using 1 ok by simp_all
    from emitsD[OF b this] show ?thesis unfolding bnd_def 1(2) by auto
  qed (simp add: bnd_def)
qed

lemma emits_full: "emits w strip ps full \<Longrightarrow> (full \<longrightarrow> full') \<Longrightarrow> emits w strip ps full'"
  unfolding emits_def by blast

definition too_big :: "bc_env \<Rightarrow> bool \<Rightarrow> GCproto list \<Rightarrow> bool" where
  "too_big E strip ps \<longleftrightarrow> (\<exists>p \<in> set ps. LJ_MAX_BUF < room_body E strip p)"

lemma too_big_append [simp]: "too_big E strip (ps @ qs) = (too_big E strip ps \<or> too_big E strip qs)"
  by (auto simp: too_big_def)

lemma emits_body:
  assumes "body_sized E pt"
  shows "emits (bcwrite_body E pt) strip [fmt_block E strip pt] (too_big E strip [pt])"
  unfolding emits_def
proof (intro allI impI)
  fix ctx :: "'a BCWriteCtx" assume ok: "sbuf_ok (wc_sb ctx) \<and> wc_strip ctx = strip"
  show "(\<exists>sb. sbuf_ok sb \<and> bcwrite_body E pt ctx = Inr ((), ctx\<lparr>wc_sb := sb,
      wc_status := fst (feed (wc_wfunc ctx) [fmt_block E strip pt] (wc_status ctx, wc_wdata ctx)),
      wc_wdata := snd (feed (wc_wfunc ctx) [fmt_block E strip pt] (wc_status ctx, wc_wdata ctx))\<rparr>)) \<or>
    bcwrite_body E pt ctx = Inl LJ_ERR_ERRMEM \<and> too_big E strip [pt]"
    using bcwrite_body_ok[of ctx E pt] ok assms by (auto simp: bc_wfunc_def too_big_def split: prod.splits)
qed

lemma emits_proto:
  "list_all (body_sized E) (written pt) \<Longrightarrow> emits (bcwrite_proto E pt :: ('w, unit) wr) strip (map (fmt_block E strip) (written pt)) (too_big E strip (written pt))"
  "list_all (body_sized E) (written_kids ks) \<Longrightarrow> emits (bcwrite_kids E ks :: ('w, unit) wr) strip (map (fmt_block E strip) (written_kids ks)) (too_big E strip (written_kids ks))"
proof (induction pt and ks rule: written_written_kids.induct)
  case (1 fl np fs sbc bc uv kgc kn tr cn fline nline dbg ui vi)
  let ?p = "GCproto fl np fs sbc bc uv kgc kn tr cn fline nline dbg ui vi"
  let ?k = "if fl AND PROTO_CHILD \<noteq> 0 then written_kids kgc else []"
  have "emits (if fl AND PROTO_CHILD \<noteq> 0 then bcwrite_kids E kgc else ret () :: ('w, unit) wr) strip (map (fmt_block E strip) ?k) (too_big E strip ?k)"
    using 1 by (cases "fl AND PROTO_CHILD \<noteq> 0") (simp_all add: emits_ret)
  from emits_bnd[OF emits_full[OF this] emits_full[OF emits_body[of E ?p strip]]] show ?case
    using 1 by (simp add: too_big_def)
next
  case 2
  then show ?case by (simp add: emits_ret)
next
  case (3 k ks)
  let ?k = "case k of KGC_PROTO p \<Rightarrow> written p | _ \<Rightarrow> []"
  have k: "emits (case k of KGC_PROTO p \<Rightarrow> bcwrite_proto E p | _ \<Rightarrow> (ret () :: ('w, unit) wr)) strip (map (fmt_block E strip) ?k) (too_big E strip ?k)"
    using 3 by (cases k) (simp_all add: emits_ret)
  have "emits (bcwrite_kids E ks :: ('w, unit) wr) strip (map (fmt_block E strip) (written_kids ks)) (too_big E strip (written_kids ks))" using 3 by simp
  from emits_bnd[OF emits_full[OF this] emits_full[OF k]] show ?case by simp
qed

lemma bcwrite_header_ok:
  assumes n: "length (e_sdata E (pt_chunkname pt)) + 10 \<le> LJ_MAX_BUF" and ok: "sbuf_ok (wc_sb ctx)"
  shows "\<exists>sb. sbuf_ok sb \<and> bcwrite_header E pt ctx = bc_wfunc (fmt_header E (wc_strip ctx) pt) (ctx\<lparr>wc_sb := sb\<rparr>)"
proof -
  let ?n = "length (e_sdata E (pt_chunkname pt))" let ?need = "5 + 5 + word_of_nat ?n :: u32"
  let ?hd = "fmt_header E (wc_strip ctx) pt"
  have need: "unat ?need = 10 + ?n" using n by (simp add: lj_limits unat_of_nat_id unat_word_ariths)
  have "length ?hd \<le> unat ?need" unfolding need using fmt_str_length[of "e_sdata E (pt_chunkname pt)" 0] by (simp add: fmt_header_def)
  from bc_need_cases[OF ok this] n obtain sb where sb: "bc_need ?need ?hd ctx = Inr ((), ctx\<lparr>wc_sb := sb\<rparr>)" "sbuf_ok sb"
    unfolding need by auto
  have "bcwrite_header E pt ctx = bnd (bc_need ?need ?hd) (\<lambda>_. bc_wfunc ?hd) ctx"
    by (cases "wc_strip ctx") (simp_all add: bcwrite_header_def Let_def fmt_header_def fmt_str_def)
  then show ?thesis using sb(2) unfolding bnd_Inr[of "bc_need ?need ?hd", OF sb(1)] by blast
qed

lemma sbuf_init_ok: "sbuf_ok lj_buf_init"
  by (simp add: lj_buf_init_def sbuf_ok_def size_ok_def)

text \<open>The writer as a whole.\<close>

lemma lj_bcwrite_ok:
  assumes n: "length (e_sdata E (pt_chunkname pt)) + 10 \<le> LJ_MAX_BUF" and sz: "list_all (body_sized E) (written pt)"
  shows "lj_bcwrite E pt wfunc wdata strip = Inr (feed wfunc (dump_pieces E strip pt) (0, wdata)) \<or>
    lj_bcwrite E pt wfunc wdata strip = Inl LJ_ERR_ERRMEM \<and> too_big E strip (written pt)"
proof -
  let ?c0 = "\<lparr>wc_sb = lj_buf_init, wc_strip = strip, wc_wfunc = wfunc, wc_wdata = wdata, wc_status = 0\<rparr>"
  let ?hd = "fmt_header E strip pt"
  let ?r = "wfunc ?hd wdata"
  have "sbuf_ok (wc_sb ?c0)" by (simp add: sbuf_init_ok)
  from bc_need_cases[OF this, of "[]" 1024] obtain sb1 where sb1: "bc_need 1024 [] ?c0 = Inr ((), ?c0\<lparr>wc_sb := sb1\<rparr>)" "sbuf_ok sb1"
    by (auto simp: lj_limits)
  let ?c1 = "?c0\<lparr>wc_sb := sb1\<rparr>"
  have "sbuf_ok (wc_sb ?c1)" using sb1 by simp
  from bcwrite_header_ok[OF n this] obtain sb2 where sb2: "sbuf_ok sb2"
    "bcwrite_header E pt ?c1 = bc_wfunc ?hd (?c1\<lparr>wc_sb := sb2\<rparr>)" by auto
  let ?c2 = "?c1\<lparr>wc_sb := sb2, wc_status := fst ?r, wc_wdata := snd ?r\<rparr>"
  have h: "bcwrite_header E pt ?c1 = Inr ((), ?c2)" unfolding sb2(2) bc_wfunc_def by (simp split: prod.splits)
  have cp: "cpwriter E pt ?c0 = bnd (bcwrite_proto E pt) (\<lambda>_. bcwrite_footer) ?c2"
    unfolding cpwriter_def bnd_Inr[of "bc_need 1024 []", OF sb1(1)] bnd_Inr[of "bcwrite_header E pt", OF h] ..
  let ?ps = "map (fmt_block E strip) (written pt)"
  let ?q = "feed wfunc ?ps ?r"
  have "sbuf_ok (wc_sb ?c2)" "wc_strip ?c2 = strip" using sb2 by simp_all
  from emitsD[OF emits_proto(1)[OF sz] this] consider
    sb3 where "bcwrite_proto E pt ?c2 = Inr ((), ?c2\<lparr>wc_sb := sb3, wc_status := fst ?q, wc_wdata := snd ?q\<rparr>)"
    | "bcwrite_proto E pt ?c2 = Inl LJ_ERR_ERRMEM" "too_big E strip (written pt)" by auto
  then show ?thesis
  proof cases
    case (1 sb3)
    have d: "feed wfunc (dump_pieces E strip pt) (0, wdata) = feed wfunc [[0]] ?q" by (simp add: dump_pieces_def)
    show ?thesis unfolding lj_bcwrite_def cp bnd_Inr[of "bcwrite_proto E pt", OF 1] d
      by (simp add: bcwrite_footer_def bc_wfunc_def split: prod.splits)
  next
    case 2
    show ?thesis using 2(2) unfolding lj_bcwrite_def cp bnd_Inl[of "bcwrite_proto E pt", OF 2(1)] by simp
  qed
qed

end
