(* ===== verification/LJ_BCRead.thy ===== *)
theory LJ_BCRead
  imports LJ_BCWrite
begin

text \<open>
  The reader of theory \<open>LJ_BCDump\<close> on what the writer produces: each part of the format is read back, and tables come back
  with the same pairs.
\<close>

section \<open>Reading a known piece\<close>

text \<open>
  Whatever follows, the reader takes exactly the bytes \<open>bs\<close> and the prototypes \<open>pop\<close> from the stack, and leaves a value
  with the property \<open>Q\<close>. The flags of the dump and the name of the chunk are fixed.
\<close>

definition reads :: "u32 \<times> u32 \<Rightarrow> GCproto list \<Rightarrow> 'a rd \<Rightarrow> bytes \<Rightarrow> ('a \<Rightarrow> bool) \<Rightarrow> bool" where
  "reads fc pop r bs Q \<longleftrightarrow>
     (\<forall>ls rest st. ls_p ls = bs @ rest \<and> ls_stack ls = pop @ st \<and> (ls_flags ls, ls_chunkname ls) = fc \<longrightarrow>
        (\<exists>v. r ls = Inr (v, ls\<lparr>ls_p := rest, ls_stack := st\<rparr>) \<and> Q v))"

lemma readsD:
  "reads fc pop r bs Q \<Longrightarrow> ls_p ls = bs @ rest \<Longrightarrow> ls_stack ls = pop @ st \<Longrightarrow> (ls_flags ls, ls_chunkname ls) = fc \<Longrightarrow>
     \<exists>v. r ls = Inr (v, ls\<lparr>ls_p := rest, ls_stack := st\<rparr>) \<and> Q v"
  unfolding reads_def by blast

lemma ls_same: "ls_p ls = rest \<Longrightarrow> ls_stack ls = st \<Longrightarrow> ls\<lparr>ls_p := rest, ls_stack := st\<rparr> = ls"
  by simp

lemma reads_ret: "Q v \<Longrightarrow> reads fc [] (ret v) [] Q"
  unfolding reads_def by (auto simp: ret_def)

lemma reads_bnd:
  assumes a: "reads fc p1 r bs Q" and b: "\<forall>v. Q v \<longrightarrow> reads fc p2 (f v) cs R"
  shows "reads fc (p1 @ p2) (bnd r f) (bs @ cs) R"
  unfolding reads_def
proof (intro allI impI)
  fix ls :: LexBC and rest st
  assume ls: "ls_p ls = (bs @ cs) @ rest \<and> ls_stack ls = (p1 @ p2) @ st \<and> (ls_flags ls, ls_chunkname ls) = fc"
  then obtain v where v: "r ls = Inr (v, ls\<lparr>ls_p := cs @ rest, ls_stack := p2 @ st\<rparr>)" "Q v"
    using readsD[OF a, of ls "cs @ rest" "p2 @ st"] by auto
  have "reads fc p2 (f v) cs R" using b v(2) by blast
  from readsD[OF this, of "ls\<lparr>ls_p := cs @ rest, ls_stack := p2 @ st\<rparr>" rest st] ls
  show "\<exists>v. bnd r f ls = Inr (v, ls\<lparr>ls_p := rest, ls_stack := st\<rparr>) \<and> R v"
    unfolding bnd_Inr[of r, OF v(1)] by auto
qed

lemma reads_bnd0:
  "reads fc [] r bs Q \<Longrightarrow> (\<forall>v. Q v \<longrightarrow> reads fc p2 (f v) cs R) \<Longrightarrow> reads fc p2 (bnd r f) (bs @ cs) R"
  using reads_bnd[of fc "[]" r bs Q p2 f cs R] by simp

lemma reads_bnd1:
  "reads fc p1 r bs Q \<Longrightarrow> (\<forall>v. Q v \<longrightarrow> reads fc [] (f v) [] R) \<Longrightarrow> reads fc p1 (bnd r f) bs R"
  using reads_bnd[of fc p1 r bs Q "[]" f "[]" R] by simp

lemma reads_bnd2:
  "reads fc p1 r bs Q \<Longrightarrow> (\<forall>v. Q v \<longrightarrow> reads fc [] (f v) cs R) \<Longrightarrow> reads fc p1 (bnd r f) (bs @ cs) R"
  using reads_bnd[of fc p1 r bs Q "[]" f cs R] by simp

lemma reads_weaken: "reads fc pop r bs Q \<Longrightarrow> (\<forall>v. Q v \<longrightarrow> R v) \<Longrightarrow> reads fc pop r bs R"
  unfolding reads_def by blast

lemma reads_cong: "(\<And>ls :: LexBC. (ls_flags ls, ls_chunkname ls) = fc \<Longrightarrow> r' ls = r ls) \<Longrightarrow> reads fc pop r bs Q \<Longrightarrow> reads fc pop r' bs Q"
  unfolding reads_def by simp

lemma reads_uleb: "reads fc [] bcread_uleb128 (lj_strfmt_wuleb128 v) (\<lambda>x. x = v)"
  unfolding reads_def bcread_uleb128_def by (simp add: ruleb128_wuleb128)

lemma reads_uleb33: "lsb < 2 \<Longrightarrow> reads fc [] bcread_uleb128_33 (wuleb128_33 lsb k) (\<lambda>x. x = k)"
  unfolding reads_def bcread_uleb128_33_def by (simp add: wuleb33_roundtrip)

lemma reads_mem: "n = length bs \<Longrightarrow> reads fc [] (bcread_mem n) bs (\<lambda>x. x = bs)"
  unfolding reads_def bcread_mem_def by simp

lemma reads_byte: "reads fc [] bcread_byte [c] (\<lambda>x. x = c)"
  unfolding reads_def bcread_byte_def by simp

lemma uleb_then: "reads fc p (f v) cs R \<Longrightarrow> reads fc p (bnd bcread_uleb128 f) (lj_strfmt_wuleb128 v @ cs) R"
  by (rule reads_bnd0[OF reads_uleb]) simp

lemma uleb_only: "reads fc p (f v) [] R \<Longrightarrow> reads fc p (bnd bcread_uleb128 f) (lj_strfmt_wuleb128 v) R"
  using uleb_then[of fc p f v "[]" R] by simp

lemma mem_then: "n = length bs \<Longrightarrow> reads fc p (f bs) cs R \<Longrightarrow> reads fc p (bnd (bcread_mem n) f) (bs @ cs) R"
  by (rule reads_bnd0[OF reads_mem]) simp_all

lemma byte_then: "reads fc p (f c) cs R \<Longrightarrow> reads fc p (bnd bcread_byte f) (c # cs) R"
  using reads_bnd0[OF reads_byte[of fc c], of p f cs R] by simp

section \<open>Constants\<close>

text \<open>Values are read back up to the sign of zero and the unused bits of a primitive value.\<close>

abbreviation val_sim :: "TValue \<Rightarrow> TValue \<Rightarrow> bool" where "val_sim a b \<equiv> tcanon a = tcanon b"

text \<open>The constants that a template table can hold.\<close>

definition kconst :: "bc_env \<Rightarrow> TValue \<Rightarrow> bool" where
  "kconst E v \<longleftrightarrow>
     (if tvisstr v then e_snew E (e_sdata E (tv_lo v)) = tv_lo v \<and> length (e_sdata E (tv_lo v)) \<le> LJ_MAX_STR
      else tvisnum v \<or> tvispri v)"

lemma str_tv: "tvisstr v \<Longrightarrow> setstrV (tv_lo v) = v"
  by (rule tv_eqI) (simp_all add: setstrV_def tvisstr_def)

lemma str_tag:
  assumes "length s \<le> LJ_MAX_STR"
  shows "5 \<le> (5 + word_of_nat (length s) :: u32)" "unat (word_of_nat (length s) :: u32) = length s"
  using str_len[OF assms] by (simp_all add: word_le_nat_alt)

lemma pri_sim: "tvispri a \<Longrightarrow> itype a = itype b \<Longrightarrow> val_sim a b"
  using pri_notnum(1)[of a] pri_notnum(1)[of b] by (simp add: tcanon_def tvispri_def)

lemma reads_ktabk:
  assumes k: "kconst E v"
  shows "reads fc [] (bcread_ktabk E o1) (fmt_ktabk E narrow v) (\<lambda>w. val_sim w v)"
proof -
  consider (str) "tvisstr v" | (num) "\<not> tvisstr v" "tvisnum v" | (pri) "\<not> tvisstr v" "\<not> tvisnum v" "tvispri v"
    using k by (auto simp: kconst_def split: if_splits)
  then show ?thesis
  proof cases
    case str
    let ?s = "e_sdata E (tv_lo v)"
    have s: "length ?s \<le> LJ_MAX_STR" "e_snew E ?s = tv_lo v" using k str by (simp_all add: kconst_def)
    have "reads fc [] (bcread_mem (length ?s)) ?s (\<lambda>x. x = ?s)" by (rule reads_mem) simp
    then have "reads fc [] (bnd (bcread_mem (length ?s)) (\<lambda>s. ret (setstrV (e_snew E s)))) ?s (\<lambda>w. val_sim w v)"
      by (rule reads_bnd1) (simp add: reads_ret s str_tv[OF str])
    then show ?thesis
      unfolding bcread_ktabk_def fmt_ktabk_def fmt_str_def using str str_tag[OF s(1)]
      by (simp, intro uleb_then) (simp add: bcdump_types)
  next
    case num
    show ?thesis
    proof (cases "narrow \<and> dbl_eq v (setintV (lj_num2int v))")
      case True
      let ?k = "lj_num2int v"
      have "\<not> dbl_isnan v" "\<not> dbl_isnan (setintV ?k)" using True by (auto simp: dbl_eq_def)
      then have s: "val_sim (setintV ?k) v" using dbl_eq_canon[OF num(2) setintV_key(1)[of ?k]] True by simp
      have e: "fmt_ktabk E narrow v = lj_strfmt_wuleb128 BCDUMP_KTAB_INT @ lj_strfmt_wuleb128 ?k"
        using True num by (simp add: fmt_ktabk_def wuleb_tag bcdump_types)
      show ?thesis unfolding bcread_ktabk_def e
        by (rule uleb_then, simp add: bcdump_types, rule uleb_only, rule reads_ret, rule s)
    next
      case False
      have e: "fmt_ktabk E narrow v = lj_strfmt_wuleb128 BCDUMP_KTAB_NUM @ lj_strfmt_wuleb128 (tv_lo v) @ lj_strfmt_wuleb128 (itype v)"
        using False num by (auto simp add: fmt_ktabk_def wuleb_tag bcdump_types)
      show ?thesis unfolding bcread_ktabk_def e
        by (rule uleb_then, simp add: bcdump_types, rule uleb_then, rule uleb_only, simp add: reads_ret tv_lohi)
    qed
  next
    case pri
    define tp where "tp = NOT (itype v)"
    have "NOT 2 \<le> itype v" using pri(3) by (simp add: tvispri_def lj_tags)
    moreover have "tp = - 1 - itype v" by (simp add: tp_def not_eq_complement)
    moreover have "unat (- 1 - itype v) = unat (- 1 :: u32) - unat (itype v)" by (intro unat_sub) simp
    moreover have "unat (- 1 :: u32) = 4294967295" proof -
      have "(- 1 :: u32) = 0xffffffff" by simp
      then show ?thesis by (simp only:) simp
    qed
    ultimately have "tp \<le> 2" by (simp add: word_le_nat_alt)
    then have tp: "tp < 3" by (simp add: word_le_nat_alt word_less_nat_alt)
    have "tp < 0x80" using tp by (simp add: word_less_nat_alt)
    then have e: "fmt_ktabk E narrow v = lj_strfmt_wuleb128 tp @ []"
      using pri by (simp add: fmt_ktabk_def tp_def[symmetric] wuleb_tag bcdump_types)
    have "val_sim (setpriV o1 (NOT tp)) v" using pri(3) by (intro pri_sim) (simp_all add: setpriV_def tp_def tvispri_def)
    then have "reads fc [] (ret (setpriV o1 (NOT tp))) [] (\<lambda>w. val_sim w v)" by (rule reads_ret)
    moreover have "tp \<noteq> 3" "tp \<noteq> 4" "\<not> 5 \<le> tp" using tp by (auto simp: word_less_nat_alt word_le_nat_alt)
    ultimately show ?thesis unfolding bcread_ktabk_def e
      by (intro uleb_then) (simp add: bcdump_types)
  qed
qed

section \<open>Template tables\<close>

lemma tcanon_itype: "itype (tcanon x) = (if tvisnum x \<and> tvismzero x then 0 else itype x)"
  by (simp add: tcanon_def) (simp add: itype_def)

lemma nil_num: "tvisnil x \<Longrightarrow> \<not> tvisnum x"
  using nil_pri pri_notnum(1) by blast

lemma sim_nil: "val_sim a b \<Longrightarrow> tvisnil a = tvisnil b"
proof -
  have t: "tvisnil x \<longleftrightarrow> itype (tcanon x) = LJ_TNIL" for x
    using nil_num[of x] by (auto simp: tcanon_itype tvisnil_def) (simp add: lj_tags)
  show "val_sim a b \<Longrightarrow> tvisnil a = tvisnil b" by (simp only: t)
qed

lemma sim_key:
  assumes "val_sim a b" "key_ok b"
  shows "key_ok a"
proof -
  have n: "\<not> tvisnil a" using sim_nil[OF assms(1)] assms(2) by (simp add: key_ok_def)
  have "\<not> dbl_isnan a" if a: "tvisnum a"
  proof
    assume nan: "dbl_isnan a"
    have z: "\<not> dbl_isnan 0" "\<not> dbl_isnan 0x8000000000000000" by code_simp+
    then have "tcanon a = a" using a nan by (auto simp: tcanon_def tvismzero_def)
    then have e: "tcanon b = a" using assms(1) by simp
    show False
    proof (cases "tvisnum b")
      case True
      then show False using e nan z assms(2) by (auto simp: tcanon_def key_ok_def split: if_splits)
    next
      case False
      then have "itype a = itype b" using e by (auto simp: tcanon_def split: if_splits)
      then show False using a False by (simp add: tvisnum_def)
    qed
  qed
  then show ?thesis using n by (auto simp: key_ok_def)
qed

lemma reads_karray:
  "list_all (kconst E) vs \<Longrightarrow> i + length vs \<le> length (t_array t) \<Longrightarrow>
   reads fc [] (bcread_karray E (length vs) i t) (concat (map (fmt_ktabk E True) vs))
     (\<lambda>t'. \<exists>ws. list_all2 val_sim ws vs \<and> t' = t\<lparr>t_array := take i (t_array t) @ ws @ drop (i + length vs) (t_array t)\<rparr>)"
proof (induction vs arbitrary: i t)
  case Nil
  then show ?case by (simp add: reads_ret)
next
  case (Cons v vs)
  have "reads fc [] (bcread_karray E (length vs) (i + 1) (slot_put (Arr i) w t)) (concat (map (fmt_ktabk E True) vs))
     (\<lambda>t'. \<exists>ws. list_all2 val_sim ws (v # vs) \<and> t' = t\<lparr>t_array := take i (t_array t) @ ws @ drop (i + length (v # vs)) (t_array t)\<rparr>)"
    if w: "val_sim w v" for w
  proof -
    let ?t = "slot_put (Arr i) w t"
    have a: "t_array ?t = (t_array t)[i := w]" by (simp add: slot_put_def)
    have u: "?t\<lparr>t_array := x\<rparr> = t\<lparr>t_array := x\<rparr>" for x by (simp add: slot_put_def)
    have "take (i + 1) (t_array ?t) = take i (t_array t) @ [w]"
      using Cons.prems by (simp add: a take_Suc_conv_app_nth)
    moreover have "drop (i + 1 + length vs) (t_array ?t) = drop (i + length (v # vs)) (t_array t)" by (simp add: a)
    moreover have "reads fc [] (bcread_karray E (length vs) (i + 1) ?t) (concat (map (fmt_ktabk E True) vs))
      (\<lambda>t'. \<exists>ws. list_all2 val_sim ws vs \<and> t' = ?t\<lparr>t_array := take (i + 1) (t_array ?t) @ ws @ drop (i + 1 + length vs) (t_array ?t)\<rparr>)"
      using Cons.prems by (intro Cons.IH) (simp_all add: a)
    ultimately have "reads fc [] (bcread_karray E (length vs) (i + 1) ?t) (concat (map (fmt_ktabk E True) vs))
      (\<lambda>t'. \<exists>ws. list_all2 val_sim ws vs \<and> t' = t\<lparr>t_array := take i (t_array t) @ (w # ws) @ drop (i + length (v # vs)) (t_array t)\<rparr>)"
      by (simp add: u)
    then show ?thesis
    proof (rule reads_weaken, intro allI impI, elim exE conjE)
      fix t' ws assume "list_all2 val_sim ws vs" "t' = t\<lparr>t_array := take i (t_array t) @ (w # ws) @ drop (i + length (v # vs)) (t_array t)\<rparr>"
      then show "\<exists>ws. list_all2 val_sim ws (v # vs) \<and> t' = t\<lparr>t_array := take i (t_array t) @ ws @ drop (i + length (v # vs)) (t_array t)\<rparr>"
        using w by (intro exI[of _ "w # ws"] conjI) simp_all
    qed
  qed
  then have "\<forall>w. val_sim w v \<longrightarrow> reads fc [] (bcread_karray E (length vs) (i + 1) (slot_put (Arr i) w t)) (concat (map (fmt_ktabk E True) vs))
     (\<lambda>t'. \<exists>ws. list_all2 val_sim ws (v # vs) \<and> t' = t\<lparr>t_array := take i (t_array t) @ ws @ drop (i + length (v # vs)) (t_array t)\<rparr>)" by blast
  then show ?case using Cons.prems reads_bnd0[OF reads_ktabk[of E v]] by simp
qed

lemma roomy_sim: "roomy t ((k, v) # ps) \<Longrightarrow> val_sim k' k \<Longrightarrow> key_ok k \<Longrightarrow> key_ok k' \<Longrightarrow> roomy t ((k', v') # ps)"
  using in_array_cong[of k' k t] by (simp add: roomy_def)

lemma filled_step:
  assumes "stored h t k v t'" "filled h t' ps u"
  shows "filled h t ((k, v) # ps) u"
proof -
  have s: "same_shape t t'" using assms(1) by (simp add: stored_def)
  show ?thesis using assms same_shape_trans[OF s, of u] outside_shape[OF s, of ps]
    by (simp add: filled_def stored_def split: if_splits)
qed

lemma set_room:
  assumes "tab_ok h t" "key_ok k" "\<not> in_array t k \<Longrightarrow> t_hmask t \<noteq> 0 \<and> nkeys (t_node t) < length (t_node t)"
  shows "\<exists>s t'. lj_tab_set 2 h t k = Inr (s, t') \<and> (\<forall>v. stored h t k v (slot_put s v t'))"
proof -
  have two: "(2::nat) = Suc 1" by simp
  have p: "\<exists>t'. put_by (lj_tab_newkey 2 h) h t k v = Inr t' \<and> stored h t k v t'" for v
    unfolding two by (rule tab.put_room[OF assms])
  obtain s t' where s: "lj_tab_set 2 h t k = Inr (s, t')"
    using p[of 0] by (auto simp: put_by_def lj_tab_set_def split: sum.splits)
  have "stored h t k v (slot_put s v t')" for v
    using p[of v] s by (simp add: put_by_def lj_tab_set_def)
  then show ?thesis using s by blast
qed

lemma reads_khash:
  "tab_ok (e_hash E) t \<Longrightarrow> list_all (\<lambda>(k, v). key_ok k \<and> kconst E k \<and> kconst E v) ps \<Longrightarrow> roomy t ps \<Longrightarrow>
   reads fc [] (bcread_khash E (length ps) t) (fmt_pairs E ps)
     (\<lambda>t'. \<exists>qs. list_all2 (\<lambda>(k', v') (k, v). val_sim k' k \<and> val_sim v' v \<and> key_ok k') qs ps \<and> filled (e_hash E) t qs t')"
proof (induction ps arbitrary: t)
  case Nil
  then show ?case by (simp add: fmt_pairs_def reads_ret filled_refl)
next
  case (Cons p ps)
  obtain k v where p: "p = (k, v)" by (cases p)
  have k: "key_ok k" "kconst E k" "kconst E v" "list_all (\<lambda>(k, v). key_ok k \<and> kconst E k \<and> kconst E v) ps"
    using Cons.prems(2) p by auto
  let ?Q = "\<lambda>t'. \<exists>qs. list_all2 (\<lambda>(k', v') (k, v). val_sim k' k \<and> val_sim v' v \<and> key_ok k') qs (p # ps) \<and> filled (e_hash E) t qs t'"
  have "reads fc [] (case lj_tab_set 2 (e_hash E) t key of Inl e \<Rightarrow> throw e
      | Inr (s, t) \<Rightarrow> bnd (bcread_ktabk E (slot_val t s)) (\<lambda>v. bcread_khash E (length ps) (slot_put s v t)))
      (fmt_ktabk E True v @ fmt_pairs E ps) ?Q" if key: "val_sim key k" for key
  proof -
    have ko: "key_ok key" using sim_key[OF key k(1)] .
    have r: "roomy t ((key, w) # ps)" for w using roomy_sim[of t k v ps key] Cons.prems(3) key k(1) ko p by simp
    then have rm: "\<not> in_array t key \<Longrightarrow> t_hmask t \<noteq> 0 \<and> nkeys (t_node t) < length (t_node t)"
      by (auto simp: roomy_def)
    obtain s t1 where s: "lj_tab_set 2 (e_hash E) t key = Inr (s, t1)" "\<And>v. stored (e_hash E) t key v (slot_put s v t1)"
      using set_room[OF Cons.prems(1) ko rm] by blast
    have "reads fc [] (bcread_khash E (length ps) (slot_put s w t1)) (fmt_pairs E ps) ?Q" if w: "val_sim w v" for w
    proof -
      have st: "stored (e_hash E) t key w (slot_put s w t1)" by (rule s(2))
      have "tab_ok (e_hash E) (slot_put s w t1)" using st by (simp add: stored_def)
      from Cons.IH[OF this k(4) roomy_step(1)[OF r st]] show ?thesis
      proof (rule reads_weaken, intro allI impI, elim exE conjE)
        fix u qs assume q: "list_all2 (\<lambda>(k', v') (k, v). val_sim k' k \<and> val_sim v' v \<and> key_ok k') qs ps" "filled (e_hash E) (slot_put s w t1) qs u"
        show "?Q u" using q(1) filled_step[OF st q(2)] key w ko p by (intro exI[of _ "(key, w) # qs"]) simp
      qed
    qed
    then show ?thesis unfolding s(1) by (simp, intro reads_bnd0[OF reads_ktabk[OF k(3)]]) blast
  qed
  then show ?case unfolding p by (simp add: fmt_pairs_def, intro reads_bnd0[OF reads_ktabk[OF k(2)]]) (simp add: fmt_pairs_def)
qed

lemma lj_tab_new_room:
  assumes "lj_tab_new asize hbits = Inr t"
  shows "length (t_node t) = 2 ^ hbits" "t_hmask t = 0 \<longleftrightarrow> hbits = 0" "nkeys (t_node t) = 0"
proof -
  have a: "asize \<le> LJ_MAX_ASIZE" "hbits \<le> LJ_MAX_HBITS" using lj_tab_new_ok(5)[OF assms] by simp_all
  define base where "base = \<lparr>t_nomm = NOT 0, t_colo = (if asize > 0 \<and> asize \<le> LJ_MAX_COLOSIZE then word_of_nat asize else 0),
             t_array = map setnilV (replicate asize 0), t_node = [nilnode], t_hmask = 0, t_freetop = 0\<rparr>"
  define ht where "ht = base\<lparr>t_node := replicate (2 ^ hbits) \<lparr>n_val = 0, n_key = 0, n_next = None\<rparr>,
        t_freetop := 2 ^ hbits, t_hmask := word_of_nat (2 ^ hbits - 1)\<rparr>"
  have t: "t = (if hbits = 0 then base else if t_hmask ht > 0 then clearhpart ht else ht)"
    using assms a by (cases "hbits = 0") (auto simp: lj_tab_new_def newtab_eq newhpart_def clearapart_def Let_def base_def ht_def split: if_splits)
  have hm: "unat (t_hmask ht) + 1 = 2 ^ hbits" using hbits_mask[OF a(2)] by (simp add: ht_def)
  have "hbits \<noteq> 0 \<Longrightarrow> (2::nat) \<le> 2 ^ hbits" by (cases hbits) simp_all
  then have h: "hbits \<noteq> 0 \<Longrightarrow> t_hmask ht > 0" using hm by (auto simp: word_less_nat_alt)
  show "length (t_node t) = 2 ^ hbits" using h by (simp add: t base_def ht_def clearhpart_def)
  show "t_hmask t = 0 \<longleftrightarrow> hbits = 0" using h by (auto simp: t base_def clearhpart_def)
  have "\<forall>n \<in> set (t_node t). tvisnil (n_key n)" using h by (auto simp: t base_def ht_def clearhpart_def nilnode_def)
  then show "nkeys (t_node t) = 0" by (simp add: nkeys_def)
qed

text \<open>What a template table must be to be written: its keys and values are constants.\<close>

definition ktab_ok :: "bc_env \<Rightarrow> GCtab \<Rightarrow> bool" where
  "ktab_ok E t \<longleftrightarrow> tab_ok (e_hash E) t \<and> list_all (kconst E) (karray t) \<and> list_all (\<lambda>(k, v). kconst E k \<and> kconst E v) (kpairs t)"

text \<open>The table that is read has the pairs of the one that was written.\<close>

definition tab_sim :: "bc_env \<Rightarrow> GCtab \<Rightarrow> GCtab \<Rightarrow> bool" where
  "tab_sim E t' t \<longleftrightarrow> tab_ok (e_hash E) t' \<and> t_asize t' = ktab_narray t \<and> (\<forall>k. rel_option val_sim (tab_map t' k) (tab_map t k))"

lemma kpairs_nodes:
  assumes "tab_ok h t"
  shows "kpairs t = rev (node_pairs (t_node t))" "length (kpairs t) = ktab_nhash t"
proof -
  have l: "t_hmask t > 0 \<Longrightarrow> ktab_nhash t = length (node_pairs (t_node t))" by (simp add: ktab_nhash_def node_pairs_def)
  have r: "node_pairs (rev ns) = rev (node_pairs ns)" for ns by (simp add: node_pairs_def rev_map rev_filter)
  have e: "node_pairs (t_node t) = []" if h: "t_hmask t = 0"
  proof -
    obtain m where m: "t_node t = [m]" using tab_okD(2)[OF assms] h by (cases "t_node t") auto
    then show ?thesis using tab_okD(3)[OF assms h] nodes_okD(2)[OF tab_okD(1)[OF assms], of 0] by simp
  qed
  show k: "kpairs t = rev (node_pairs (t_node t))"
    using l e by (cases "t_hmask t = 0") (auto simp: kpairs_def r word_gt_0 ktab_nhash_def)
  show "length (kpairs t) = ktab_nhash t" using l e k by (cases "t_hmask t = 0") (auto simp: word_gt_0 ktab_nhash_def)
qed

lemma karray_len: "length (karray t) = ktab_narray t" "ktab_narray t \<le> t_asize t"
proof -
  have "length (dropWhile tvisnil (rev (t_array t))) \<le> length (rev (t_array t))" by (rule length_dropWhile_le)
  then show "ktab_narray t \<le> t_asize t" by (simp add: ktab_narray_def t_asize_def)
  then show "length (karray t) = ktab_narray t" by (simp add: karray_def t_asize_def)
qed

lemma karray_tail:
  assumes "ktab_narray t \<le> i" "i < t_asize t"
  shows "tvisnil (t_array t ! i)"
proof -
  let ?r = "rev (t_array t)" and ?n = "ktab_narray t"
  have s: "takeWhile tvisnil ?r @ dropWhile tvisnil ?r = ?r" by (rule takeWhile_dropWhile_id)
  have l: "length (takeWhile tvisnil ?r) + ?n = t_asize t"
    using arg_cong[OF s, of length] by (simp only: length_append length_rev ktab_narray_def t_asize_def)
  let ?j = "t_asize t - 1 - i"
  have j: "?j < length (takeWhile tvisnil ?r)" using assms l by linarith
  then have "tvisnil (takeWhile tvisnil ?r ! ?j)" using set_takeWhileD nth_mem by metis
  also have "takeWhile tvisnil ?r ! ?j = ?r ! ?j" using j by (rule takeWhile_nth)
  also have "?r ! ?j = t_array t ! i" using assms by (simp add: rev_nth t_asize_def)
  finally show ?thesis .
qed

lemma tab_map_arr:
  assumes "key_ok k" "int_key k = Some i" "inarray t i"
  shows "tab_map t k = (let v = t_array t ! unat i in if tvisnil v then None else Some v)"
  using assms by (simp add: tab_map_def slot_of_def slot_val_def Let_def)

lemma list_all2_mem:
  assumes "list_all2 R xs ys"
  shows "x \<in> set xs \<Longrightarrow> \<exists>y \<in> set ys. R x y" "y \<in> set ys \<Longrightarrow> \<exists>x \<in> set xs. R x y"
  using assms unfolding list_all2_conv_all_nth in_set_conv_nth by (metis nth_mem)+

lemma tab_sim_read:
  assumes ok: "tab_ok h t" and new: "lj_tab_new (ktab_narray t) hbits = Inr t0"
    and ws: "list_all2 val_sim ws (karray t)" and qs: "list_all2 (\<lambda>(k', v') (k, v). val_sim k' k \<and> val_sim v' v \<and> key_ok k') qs (kpairs t)"
    and f: "filled h (t0\<lparr>t_array := ws\<rparr>) qs u"
  shows "\<forall>k. rel_option val_sim (tab_map u k) (tab_map t k)"
proof
  fix k
  let ?t1 = "t0\<lparr>t_array := ws\<rparr>" and ?ps = "node_pairs (t_node t)"
  note wl = list_all2_lengthD[OF ws, unfolded karray_len]
  note kp = kpairs_nodes[OF ok]
  have a1: "t_asize ?t1 = ktab_narray t" by (simp add: t_asize_def wl)
  have mu: "tab_map u = put_pairs (tab_map ?t1) qs" using f by (simp add: filled_def)
  have none: "tab_map ?t1 k = None" if "key_ok k" "\<not> in_array ?t1 k"
  proof -
    have "\<not> in_array t0 k" using that(2) a1 lj_tab_new_ok(3)[OF new] by (simp add: in_array_def inarray_def)
    then have "slot_of ?t1 k = map_option Hash (node_of (t_node t0) k)" "slot_of t0 k = map_option Hash (node_of (t_node t0) k)"
      using that(2) slot_hash[of ?t1 k] slot_hash[of t0 k] by simp_all
    then have "tab_map ?t1 k = tab_map t0 k" by (simp add: tab_map_def slot_val_def split: option.splits)
    then show ?thesis using lj_tab_new_ok(2)[OF new that(1)] by simp
  qed
  have q: "\<exists>k2 v2. (k2, v2) \<in> set ?ps \<and> val_sim k' k2 \<and> val_sim v' v2 \<and> key_ok k'" if "(k', v') \<in> set qs" for k' v'
    using list_all2_mem(1)[OF qs that] by (auto simp: kp)
  have p: "\<exists>k' v'. (k', v') \<in> set qs \<and> val_sim k' k2 \<and> val_sim v' v2 \<and> key_ok k'" if "(k2, v2) \<in> set ?ps" for k2 v2
    using list_all2_mem(2)[OF qs, of "(k2, v2)"] that by (auto simp: kp)
  show "rel_option val_sim (tab_map u k) (tab_map t k)"
  proof (cases "key_ok k")
    case ko: True
    show ?thesis
    proof (cases "in_array t k")
      case True
      then obtain i where i: "int_key k = Some i" "inarray t i" by (auto simp: in_array_def)
      have "\<not> val_sim k' k" if mem: "(k', v') \<in> set qs" for k' v'
      proof
        assume "val_sim k' k"
        obtain k2 v2 where k2: "(k2, v2) \<in> set ?ps" "val_sim k' k2" using q[OF mem] by blast
        then have v: "val_sim k2 k" using \<open>val_sim k' k\<close> by simp
        obtain j where j: "j < length (t_node t)" "\<not> tvisnil (n_val (t_node t ! j))" "k2 = n_key (t_node t ! j)"
          using k2(1) by (auto simp: node_pairs_mem)
        have "int_key k2 = Some i" using int_key_cong[OF _ ko v] node_pairs_ok[OF tab_okD(1)[OF ok] k2(1)] i(1) by simp
        then show False
          using tab_okD(6)[OF ok j(1), of i] node_val_key[OF tab_okD(1)[OF ok] j(1,2)] j(3) i(2) by simp
      qed
      then have e: "tab_map u k = tab_map ?t1 k" unfolding mu by (intro put_pairs_out) auto
      have mt: "tab_map t k = (let v = t_array t ! unat i in if tvisnil v then None else Some v)" by (rule tab_map_arr[OF ko i])
      show ?thesis
      proof (cases "unat i < ktab_narray t")
        case True
        then have "val_sim (ws ! unat i) (t_array t ! unat i)" using list_all2_nthD[OF ws, of "unat i"] wl by (simp add: karray_def)
        moreover have "tab_map ?t1 k = (let v = ws ! unat i in if tvisnil v then None else Some v)"
          using tab_map_arr[OF ko i(1), of ?t1] True a1 by (simp add: inarray_def)
        ultimately show ?thesis using sim_nil[of "ws ! unat i" "t_array t ! unat i"] by (simp add: e mt Let_def)
      next
        case False
        then have "tvisnil (t_array t ! unat i)" using karray_tail[of t "unat i"] i(2) by (simp add: inarray_def)
        moreover have "\<not> in_array ?t1 k" using False i(1) a1 by (simp add: in_array_def inarray_def)
        ultimately show ?thesis using none[OF ko] by (simp add: e mt)
      qed
    next
      case False
      then have na: "\<not> in_array ?t1 k" using karray_len(2)[of t] a1 by (auto simp: in_array_def inarray_def)
      note live = tab_map_live[OF ok ko False, unfolded node_pairs_live[OF tab_okD(1)[OF ok]]]
      show ?thesis
      proof (cases "\<exists>k2 v2. (k2, v2) \<in> set ?ps \<and> val_sim k2 k")
        case True
        then obtain k2 v2 where k2: "(k2, v2) \<in> set ?ps" "val_sim k2 k" by blast
        then obtain k' v' where k': "(k', v') \<in> set qs" "val_sim k' k2" "val_sim v' v2" using p by blast
        have "\<not> tvisnil v'" using sim_nil[OF k'(3)] node_pairs_ok[OF tab_okD(1)[OF ok] k2(1)] by simp
        moreover have "distinct (map (tcanon \<circ> fst) qs)"
        proof -
          have "map (tcanon \<circ> fst) qs = map (tcanon \<circ> fst) (kpairs t)"
            using qs by (induction rule: list_all2_induct) auto
          then show ?thesis using node_pairs_distinct[OF tab_okD(1)[OF ok]] by (simp add: kp rev_map[symmetric])
        qed
        ultimately have "tab_map u k = Some v'" unfolding mu using put_pairs_in[of qs k' v' k] k' k2 ko by simp
        moreover have "tab_map t k = Some v2" using live k2 by blast
        ultimately show ?thesis by (simp only: option.rel_inject k'(3))
      next
        case None: False
        have "tab_map t k = None"
        proof (rule ccontr)
          assume "tab_map t k \<noteq> None"
          then show False using live None by auto
        qed
        moreover have "\<not> val_sim k' k" if "(k', v') \<in> set qs" for k' v' using q[OF that] None by (metis)
        then have "tab_map u k = tab_map ?t1 k" unfolding mu by (intro put_pairs_out) auto
        ultimately show ?thesis using none[OF ko na] by simp
      qed
    qed
  qed (simp add: tab_map_def)
qed

lemma reads_ktab:
  assumes "ktab_ok E t"
  shows "reads fc [] (bcread_ktab E) (fmt_ktab E t) (\<lambda>t'. tab_sim E t' t)"
proof -
  have ok: "tab_ok (e_hash E) t" using assms by (simp add: ktab_ok_def)
  have na: "ktab_narray t \<le> LJ_MAX_ASIZE" using tab_okD(7)[OF ok] karray_len(2)[of t] by simp
  obtain b where b: "b \<le> LJ_MAX_HBITS" "length (t_node t) = 2 ^ b" using tab_okD(8)[OF ok] by blast
  have "ktab_nhash t \<le> length (t_node t)" by (simp add: ktab_nhash_def)
  also have "\<dots> \<le> 2 ^ LJ_MAX_HBITS" unfolding b(2) using b(1) by (intro power_increasing) simp_all
  finally have nh: "ktab_nhash t \<le> 2 ^ LJ_MAX_HBITS" .
  let ?na = "word_of_nat (ktab_narray t) :: u32" and ?nh = "word_of_nat (ktab_nhash t) :: u32"
  have small: "ktab_narray t < 2 ^ 32" "ktab_nhash t < 2 ^ 32" using na nh by (simp_all add: lj_limits)
  have u: "unat ?na = ktab_narray t" "unat ?nh = ktab_nhash t" using small by (simp_all add: unat_of_nat32)
  let ?b = "hsize2hbits ?nh"
  have b: "?b \<le> LJ_MAX_HBITS" "ktab_nhash t \<le> (if ?b = 0 then 0 else 2 ^ ?b)"
    using hsize2hbits_room(2)[OF small(2) nh] hsize2hbits_room(1)[OF small(2)] by (simp_all add: lj_limits)
  obtain t0 where t0: "lj_tab_new (ktab_narray t) ?b = Inr t0"
    using lj_tab_new_error[of "ktab_narray t" ?b] na b(1) by (cases "lj_tab_new (ktab_narray t) ?b") auto
  note n = lj_tab_new_ok(1)[OF t0, of "e_hash E"] lj_tab_new_ok(3)[OF t0] lj_tab_new_room[OF t0]
  have r1: "reads fc [] (bcread_karray E (ktab_narray t) 0 t0) (concat (map (fmt_ktabk E True) (karray t)))
     (\<lambda>t'. \<exists>ws. list_all2 val_sim ws (karray t) \<and> t' = t0\<lparr>t_array := ws\<rparr>)"
    using reads_karray[of E "karray t" 0 t0 fc] assms n(2) by (simp add: karray_len ktab_ok_def t_asize_def)
  have r2: "reads fc [] (bcread_khash E (ktab_nhash t) (t0\<lparr>t_array := ws\<rparr>)) (fmt_pairs E (kpairs t)) (\<lambda>t'. tab_sim E t' t)"
    if ws: "list_all2 val_sim ws (karray t)" for ws
  proof -
    let ?t1 = "t0\<lparr>t_array := ws\<rparr>"
    have as: "t_asize ?t1 = t_asize t0" using list_all2_lengthD[OF ws] n(2) by (simp add: karray_len t_asize_def)
    have "inarray ?t1 = inarray t0" using as by (auto simp: inarray_def)
    moreover have "hashkey (e_hash E) ?t1 = hashkey (e_hash E) t0" by (rule hashkey_hmask) simp
    ultimately have ok1: "tab_ok (e_hash E) ?t1" using n(1) as unfolding tab_ok_def by auto
    have "outside ?t1 (kpairs t) \<le> ktab_nhash t"
      using length_filter_le[of _ "kpairs t"] kpairs_nodes(2)[OF ok] by (simp add: outside_def)
    then have "roomy ?t1 (kpairs t)" using b(2) n(3-5) by (auto simp: roomy_def split: if_splits)
    moreover have "list_all (\<lambda>(k, v). key_ok k \<and> kconst E k \<and> kconst E v) (kpairs t)"
      using assms node_pairs_ok[OF tab_okD(1)[OF ok]] by (auto simp: ktab_ok_def list_all_iff kpairs_nodes(1)[OF ok])
    ultimately have "reads fc [] (bcread_khash E (length (kpairs t)) ?t1) (fmt_pairs E (kpairs t))
      (\<lambda>t'. \<exists>qs. list_all2 (\<lambda>(k', v') (k, v). val_sim k' k \<and> val_sim v' v \<and> key_ok k') qs (kpairs t) \<and> filled (e_hash E) ?t1 qs t')"
      using reads_khash[OF ok1] by blast
    then show ?thesis unfolding kpairs_nodes(2)[OF ok]
    proof (rule reads_weaken, intro allI impI, elim exE conjE)
      fix u qs assume q: "list_all2 (\<lambda>(k', v') (k, v). val_sim k' k \<and> val_sim v' v \<and> key_ok k') qs (kpairs t)" "filled (e_hash E) ?t1 qs u"
      have "t_asize u = ktab_narray t" using q(2) as n(2) by (simp add: filled_def same_shape_def)
      then show "tab_sim E u t" using tab_sim_read[OF ok t0 ws q] q(2) by (simp add: tab_sim_def filled_def)
    qed
  qed
  have "reads fc [] (bnd (bcread_karray E (ktab_narray t) 0 t0) (bcread_khash E (ktab_nhash t)))
     (concat (map (fmt_ktabk E True) (karray t)) @ fmt_pairs E (kpairs t)) (\<lambda>t'. tab_sim E t' t)"
    using r2 by (intro reads_bnd0[OF r1]) auto
  then show ?thesis unfolding bcread_ktab_def fmt_ktab_def
    by (intro uleb_then) (simp add: u t0)
qed

end
