(* ===== verification/LJ_BCRound.thy ===== *)
theory LJ_BCRound
  imports LJ_BCRead
begin

text \<open>
  A dump is read back as the prototype that was written, however the reader function cuts it into pieces.
\<close>

section \<open>Equal prototypes\<close>

definition proto_mask :: "u8 \<Rightarrow> u8" where
  "proto_mask fl = fl AND (PROTO_CHILD OR PROTO_VARARG OR PROTO_FFI)"

text \<open>The instructions of the function that is read: a new header instruction, and the others as the compiler found them.\<close>

definition clean_bc :: "bc_env \<Rightarrow> GCproto \<Rightarrow> BCIns list" where
  "clean_bc E pt =
     BCINS_AD (if pt_flags pt AND PROTO_VARARG \<noteq> 0 then BC_FUNCV else BC_FUNCF) (pt_framesize pt) 0 #
     (if patched pt then map (unpatch E) (tl (pt_bc pt)) else tl (pt_bc pt))"

text \<open>
  \<open>proto_sim E strip cn p p'\<close>: the prototype \<open>p'\<close> was read from a dump of \<open>p\<close>. Flags of the running program, the trace and,
  in a stripped dump, the debug information are not in the dump; the name of the chunk is \<open>cn\<close>.
\<close>

fun proto_sim :: "bc_env \<Rightarrow> bool \<Rightarrow> u32 \<Rightarrow> GCproto \<Rightarrow> GCproto \<Rightarrow> bool"
and kgcs_sim :: "bc_env \<Rightarrow> bool \<Rightarrow> u32 \<Rightarrow> KGC list \<Rightarrow> KGC list \<Rightarrow> bool" where
  "proto_sim E strip cn (GCproto fl np fs sbc bc uv kgc kn tr cn0 fline nline dbg ui vi) p' \<longleftrightarrow>
     pt_flags p' = proto_mask fl \<and> pt_numparams p' = np \<and> pt_framesize p' = fs \<and>
     pt_sizebc p' = sbc \<and> pt_bc p' = clean_bc E (GCproto fl np fs sbc bc uv kgc kn tr cn0 fline nline dbg ui vi) \<and> pt_uv p' = uv \<and>
     kgcs_sim E strip cn kgc (pt_kgc p') \<and> list_all2 val_sim (pt_kn p') kn \<and> pt_trace p' = 0 \<and> pt_chunkname p' = cn \<and>
     (if strip \<or> dbg = [] then
        pt_firstline p' = 0 \<and> pt_numline p' = 0 \<and> pt_dbg p' = [] \<and> pt_uvinfo p' = 0 \<and> pt_varinfo p' = 0
      else pt_firstline p' = fline \<and> pt_numline p' = nline \<and> pt_dbg p' = dbg \<and> pt_uvinfo p' = ui \<and> pt_varinfo p' = vi)"
| "kgcs_sim E strip cn [] ks' \<longleftrightarrow> ks' = []"
| "kgcs_sim E strip cn (k # ks) ks' \<longleftrightarrow>
     (case ks' of
        [] \<Rightarrow> False
      | k' # ks' \<Rightarrow>
          (case k of
             KGC_PROTO p \<Rightarrow> (case k' of KGC_PROTO p' \<Rightarrow> proto_sim E strip cn p p' | _ \<Rightarrow> False)
           | KGC_TAB t \<Rightarrow> (case k' of KGC_TAB t' \<Rightarrow> tab_sim E t' t | _ \<Rightarrow> False)
           | _ \<Rightarrow> k' = k) \<and> kgcs_sim E strip cn ks ks')"

text \<open>What can be dumped and read back.\<close>

definition kgc_ok :: "bc_env \<Rightarrow> KGC \<Rightarrow> bool" where
  "kgc_ok E k \<longleftrightarrow>
     (case k of
        KGC_STR r \<Rightarrow> e_snew E (e_sdata E r) = r \<and> length (e_sdata E r) \<le> LJ_MAX_STR
      | KGC_TAB t \<Rightarrow> ktab_ok E t
      | _ \<Rightarrow> True)"

definition is_child :: "KGC \<Rightarrow> bool" where
  "is_child k = (case k of KGC_PROTO p \<Rightarrow> True | _ \<Rightarrow> False)"

definition line_size :: "u32 \<Rightarrow> nat" where
  "line_size numline = (if sint numline < 256 then 1 else if sint numline < 65536 then 2 else 4)"

definition body_ok :: "bc_env \<Rightarrow> bool \<Rightarrow> GCproto \<Rightarrow> bool" where
  "body_ok E strip pt \<longleftrightarrow>
     bc_counted pt \<and> length (pt_uv pt) \<le> 255 \<and>
     length (pt_kgc pt) \<le> LJ_MAX_BCINS \<and> list_all (kgc_ok E) (pt_kgc pt) \<and>
     (pt_flags pt AND PROTO_CHILD = 0 \<longrightarrow> \<not> list_ex is_child (pt_kgc pt)) \<and>
     length (pt_kn pt) \<le> LJ_MAX_BCINS \<and> list_all tvisnum (pt_kn pt) \<and> length (pt_dbg pt) < 2 ^ 31 \<and>
     (\<not> strip \<and> pt_dbg pt \<noteq> [] \<longrightarrow>
        pt_uvinfo pt = (length (pt_bc pt) - 1) * line_size (pt_numline pt) \<and>
        bcread_varinfo (length (pt_uv pt)) (pt_uvinfo pt) (pt_dbg pt) = Some (pt_varinfo pt))"

lemma kconst_sized: "kconst E v \<Longrightarrow> str_sized E v"
  by (simp add: kconst_def str_sized_def)

lemma kgc_ok_sized: "kgc_ok E k \<Longrightarrow> kgc_sized E k"
  by (cases k) (auto simp: kgc_ok_def kgc_sized_def ktab_ok_def tab_sized_def list_all_iff kconst_sized)

lemma body_ok_sized: "body_ok E strip pt \<Longrightarrow> body_sized E pt"
  by (auto simp: body_ok_def body_sized_def list_all_iff kgc_ok_sized)

section \<open>The parts of a prototype\<close>

fun children :: "KGC list \<Rightarrow> GCproto list" where
  "children [] = []"
| "children (k # ks) = (case k of KGC_PROTO p \<Rightarrow> p # children ks | _ \<Rightarrow> children ks)"

lemma reads_u64: "reads fc [] bcread_u64 (bcwrite_u64 q) (\<lambda>x. x = q)"
  unfolding bcread_u64_def bcwrite_u64_def by (intro uleb_then uleb_only) (simp add: reads_ret tv_lohi)

lemma u64_then: "reads fc p (f q) cs R \<Longrightarrow> reads fc p (bnd bcread_u64 f) (bcwrite_u64 q @ cs) R"
  by (rule reads_bnd0[OF reads_u64]) simp

lemma reads_pop: "reads fc [p] bcread_pop [] (\<lambda>x. x = p)"
  unfolding reads_def bcread_pop_def by simp

definition kgc_sim1 :: "bc_env \<Rightarrow> bool \<Rightarrow> u32 \<Rightarrow> KGC \<Rightarrow> KGC \<Rightarrow> bool" where
  "kgc_sim1 E strip cn k k' \<longleftrightarrow>
     (case k of
        KGC_PROTO p \<Rightarrow> (case k' of KGC_PROTO p' \<Rightarrow> proto_sim E strip cn p p' | _ \<Rightarrow> False)
      | KGC_TAB t \<Rightarrow> (case k' of KGC_TAB t' \<Rightarrow> tab_sim E t' t | _ \<Rightarrow> False)
      | _ \<Rightarrow> k' = k)"

lemma reads_kgc1_plain:
  assumes "kgc_ok E k" "\<not> is_child k"
  shows "reads fc [] (bcread_kgc1 E) (fmt_kgc1 E k) (\<lambda>k'. kgc_sim1 E strip cn k k')"
proof (cases k)
  case (KGC_STR r)
  let ?s = "e_sdata E r"
  have s: "length ?s \<le> LJ_MAX_STR" "e_snew E ?s = r" using assms KGC_STR by (simp_all add: kgc_ok_def)
  have "reads fc [] (bnd (bcread_mem (length ?s)) (\<lambda>s. ret (KGC_STR (e_snew E s)))) ?s (\<lambda>k'. kgc_sim1 E strip cn k k')"
    using mem_then[of "length ?s" ?s fc "[]" "\<lambda>s. ret (KGC_STR (e_snew E s))" "[]"] by (simp add: reads_ret s kgc_sim1_def KGC_STR)
  then show ?thesis unfolding bcread_kgc1_def fmt_kgc1_def fmt_str_def using KGC_STR str_tag[OF s(1)]
    by (simp, intro uleb_then) (simp add: bcdump_types)
next
  case (KGC_TAB t)
  have "ktab_ok E t" using assms KGC_TAB by (simp add: kgc_ok_def)
  then have "reads fc [] (bnd (bcread_ktab E) (\<lambda>t. ret (KGC_TAB t))) (fmt_ktab E t) (\<lambda>k'. kgc_sim1 E strip cn k k')"
    by (intro reads_bnd1[OF reads_ktab]) (simp_all add: reads_ret kgc_sim1_def KGC_TAB)
  then show ?thesis unfolding bcread_kgc1_def fmt_kgc1_def using KGC_TAB
    by (simp, intro uleb_then) (simp add: bcdump_types word_le_nat_alt)
next
  case (KGC_PROTO p)
  then show ?thesis using assms by (simp add: is_child_def)
next
  case (KGC_I64 q)
  then show ?thesis unfolding bcread_kgc1_def fmt_kgc1_def
    by (simp, intro uleb_then) (simp add: bcdump_types reads_bnd1[OF reads_u64] reads_ret kgc_sim1_def)
next
  case (KGC_U64 q)
  then show ?thesis unfolding bcread_kgc1_def fmt_kgc1_def
    by (simp, intro uleb_then) (simp add: bcdump_types reads_bnd1[OF reads_u64] reads_ret kgc_sim1_def)
next
  case (KGC_COMPLEX re im)
  have "reads fc [] (bnd bcread_u64 (\<lambda>im. ret (KGC_COMPLEX re im))) (bcwrite_u64 im) (\<lambda>k'. kgc_sim1 E strip cn k k')"
    by (rule reads_bnd1[OF reads_u64]) (simp add: reads_ret kgc_sim1_def KGC_COMPLEX)
  then show ?thesis unfolding bcread_kgc1_def fmt_kgc1_def using KGC_COMPLEX
    by (simp, intro uleb_then) (simp add: bcdump_types u64_then)
qed

lemma reads_kgc1_child:
  assumes "proto_sim E strip cn p p'"
  shows "reads fc [p'] (bcread_kgc1 E) (fmt_kgc1 E (KGC_PROTO p)) (\<lambda>k'. kgc_sim1 E strip cn (KGC_PROTO p) k')"
proof -
  have "reads fc [p'] (bnd bcread_pop (\<lambda>p. ret (KGC_PROTO p))) [] (\<lambda>k'. kgc_sim1 E strip cn (KGC_PROTO p) k')"
    by (rule reads_bnd1[OF reads_pop]) (simp add: reads_ret kgc_sim1_def assms)
  then show ?thesis unfolding bcread_kgc1_def fmt_kgc1_def
    by (simp, intro uleb_only) (simp add: bcdump_types)
qed

lemma reads_kgc:
  "list_all (kgc_ok E) ks \<Longrightarrow> list_all2 (proto_sim E strip cn) (children ks) cs \<Longrightarrow>
   reads fc cs (bcread_kgc E (length ks)) (concat (map (fmt_kgc1 E) ks)) (\<lambda>ks'. kgcs_sim E strip cn ks ks')"
proof (induction ks arbitrary: cs)
  case Nil
  then show ?case by (simp add: reads_ret)
next
  case (Cons k ks)
  have tl: "reads fc cs' (bnd (bcread_kgc E (length ks)) (\<lambda>ks. ret (k' # ks))) (concat (map (fmt_kgc1 E) ks)) (\<lambda>ks'. kgcs_sim E strip cn (k # ks) ks')"
    if "kgc_sim1 E strip cn k k'" "list_all2 (proto_sim E strip cn) (children ks) cs'" for k' cs'
    using Cons.prems(1) that by (intro reads_bnd1[OF Cons.IH]) (simp_all add: reads_ret kgc_sim1_def)
  show ?case
  proof (cases "is_child k")
    case True
    then obtain p where p: "k = KGC_PROTO p" by (cases k) (simp_all add: is_child_def)
    then obtain p' cs' where cs: "cs = p' # cs'" "proto_sim E strip cn p p'" "list_all2 (proto_sim E strip cn) (children ks) cs'"
      using Cons.prems(2) by (auto simp: list_all2_Cons1)
    have "\<forall>k'. kgc_sim1 E strip cn (KGC_PROTO p) k' \<longrightarrow> reads fc cs' (bnd (bcread_kgc E (length ks)) (\<lambda>ks. ret (k' # ks)))
      (concat (map (fmt_kgc1 E) ks)) (\<lambda>ks'. kgcs_sim E strip cn (k # ks) ks')" using tl[OF _ cs(3)] p by blast
    from reads_bnd[OF reads_kgc1_child[OF cs(2)] this] show ?thesis by (simp add: cs(1) p del: kgcs_sim.simps)
  next
    case False
    then have "children (k # ks) = children ks" by (cases k) (simp_all add: is_child_def)
    then have "list_all2 (proto_sim E strip cn) (children ks) cs" using Cons.prems(2) by simp
    then have t: "\<forall>k'. kgc_sim1 E strip cn k k' \<longrightarrow> reads fc cs (bnd (bcread_kgc E (length ks)) (\<lambda>ks. ret (k' # ks)))
      (concat (map (fmt_kgc1 E) ks)) (\<lambda>ks'. kgcs_sim E strip cn (k # ks) ks')" using tl by blast
    have "kgc_ok E k" using Cons.prems(1) by simp
    from reads_bnd0[OF reads_kgc1_plain[OF this False] t] show ?thesis by (simp del: kgcs_sim.simps)
  qed
qed

lemma reads_knum1:
  assumes "tvisnum v"
  shows "reads fc [] bcread_knum1 (bcwrite_knum1 v) (\<lambda>w. val_sim w v)"
proof -
  let ?k = "lj_num2int v"
  let ?R = "\<lambda>isnum. bnd bcread_uleb128_33 (\<lambda>lo. if isnum then bnd bcread_uleb128 (\<lambda>hi. ret (u64_of_lohi lo hi)) else ret (setintV lo))"
  have r: "reads fc [] (?R (hd (bcwrite_knum1 v) AND 1 \<noteq> 0)) (bcwrite_knum1 v) (\<lambda>w. val_sim w v)"
  proof (cases "dbl_eq v (setintV ?k)")
    case True
    have e: "bcwrite_knum1 v = wuleb128_33 0 ?k" using True by (simp add: bcwrite_knum1_def Let_def)
    have "\<not> dbl_isnan v" using True by (auto simp: dbl_eq_def)
    then have s: "val_sim (setintV ?k) v" using dbl_eq_canon[OF assms setintV_key(1)[of ?k]] True setintV_key(2)[of ?k] by simp
    have h: "\<not> hd (wuleb128_33 0 ?k) AND 1 \<noteq> 0" using wuleb33_bytes(3)[of 0 ?k] by simp
    show ?thesis unfolding e if_not_P[OF h]
    proof (rule reads_bnd1[OF reads_uleb33], simp, intro allI impI)
      fix x assume "x = ?k"
      then show "reads fc [] (ret (setintV x)) [] (\<lambda>w. val_sim w v)" using s by (intro reads_ret) (simp only:)
    qed
  next
    case False
    have e: "bcwrite_knum1 v = wuleb128_33 1 (tv_lo v) @ lj_strfmt_wuleb128 (itype v)" using False by (simp add: bcwrite_knum1_def Let_def)
    have w: "wuleb128_33 1 (tv_lo v) \<noteq> []" "hd (wuleb128_33 1 (tv_lo v)) AND 1 \<noteq> 0"
      using wuleb33_bytes(1,3)[of 1 "tv_lo v"] by (simp_all add: word_less_nat_alt)
    have h: "hd (bcwrite_knum1 v) AND 1 \<noteq> 0" using w by (simp add: e)
    show ?thesis unfolding if_P[OF h] unfolding e
      by (rule reads_bnd0[OF reads_uleb33]) (auto simp add: word_less_nat_alt tv_lohi intro!: uleb_only reads_ret)
  qed
  have ne: "bcwrite_knum1 v \<noteq> []"
    using wuleb33_bytes(1)[of 0 ?k] wuleb33_bytes(1)[of 1 "tv_lo v"] by (simp add: bcwrite_knum1_def Let_def word_less_nat_alt)
  show ?thesis unfolding reads_def
  proof (intro allI impI)
    fix ls :: LexBC and rest st
    assume ls: "ls_p ls = bcwrite_knum1 v @ rest \<and> ls_stack ls = [] @ st \<and> (ls_flags ls, ls_chunkname ls) = fc"
    then have "ls_p ls \<noteq> []" "hd (ls_p ls) = hd (bcwrite_knum1 v)" using ne by simp_all
    then have "bcread_knum1 ls = ?R (hd (bcwrite_knum1 v) AND 1 \<noteq> 0) ls" by (simp add: bcread_knum1_def Let_def)
    then show "\<exists>w. bcread_knum1 ls = Inr (w, ls\<lparr>ls_p := rest, ls_stack := st\<rparr>) \<and> val_sim w v"
      using readsD[OF r, of ls rest st] ls by simp
  qed
qed

lemma reads_knum: "list_all tvisnum vs \<Longrightarrow> reads fc [] (bcread_knum (length vs)) (concat (map bcwrite_knum1 vs)) (\<lambda>ws. list_all2 val_sim ws vs)"
proof (induction vs)
  case Nil
  then show ?case by (simp add: reads_ret)
next
  case (Cons v vs)
  have "reads fc [] (bnd (bcread_knum (length vs)) (\<lambda>ks. ret (w # ks))) (concat (map bcwrite_knum1 vs)) (\<lambda>ws. list_all2 val_sim ws (v # vs))"
    if "val_sim w v" for w
    using Cons that by (intro reads_bnd1[OF Cons.IH]) (auto intro: reads_ret)
  then have t: "\<forall>w. val_sim w v \<longrightarrow> reads fc [] (bnd (bcread_knum (length vs)) (\<lambda>ks. ret (w # ks))) (concat (map bcwrite_knum1 vs)) (\<lambda>ws. list_all2 val_sim ws (v # vs))"
    by blast
  have "tvisnum v" using Cons.prems by simp
  from reads_bnd0[OF reads_knum1[OF this] t] show ?case by simp
qed

lemma u32s_bytes [simp]: "u32s_of (concat (map bytes_u32 xs)) = xs"
proof (induction xs)
  case (Cons x xs)
  have "ucast (ucast x :: u8) OR push_bit 8 (ucast (ucast (drop_bit 8 x) :: u8)) OR push_bit 16 (ucast (ucast (drop_bit 16 x) :: u8)) OR
    push_bit 24 (ucast (ucast (drop_bit 24 x) :: u8)) = x" (is "?l = x")
  proof (rule bit_word_eqI)
    fix n assume "n < LENGTH(32)"
    then have "n < 8 \<or> (8 \<le> n \<and> n < 16) \<or> (16 \<le> n \<and> n < 24) \<or> (24 \<le> n \<and> n < 32)" by simp linarith
    then show "bit ?l n = bit x n" by (elim disjE conjE; simp add: bit_simps less_diff_conv2)
  qed
  then show ?case using Cons by (simp add: bytes_u32_def)
qed simp

lemma u16s_bytes [simp]: "u16s_of (concat (map bytes_u16 xs)) = xs"
proof (induction xs)
  case (Cons x xs)
  have "ucast (ucast x :: u8) OR push_bit 8 (ucast (ucast (drop_bit 8 x) :: u8)) = x" (is "?l = x")
  proof (rule bit_word_eqI)
    fix n assume "n < LENGTH(16)"
    then have "n < 8 \<or> (8 \<le> n \<and> n < 16)" by simp linarith
    then show "bit ?l n = bit x n" by (elim disjE conjE; simp add: bit_simps less_diff_conv2)
  qed
  then show ?case using Cons by (simp add: bytes_u16_def)
qed simp

lemma mask_vararg: "proto_mask fl AND PROTO_VARARG = fl AND PROTO_VARARG"
  by (simp add: proto_mask_def proto_flags and.assoc)

lemma reads_bytecode:
  assumes c: "bc_counted pt" and be: "fst fc AND BCDUMP_F_BE = 0"
  shows "reads fc [] (bcread_bytecode (proto_mask (pt_flags pt)) (pt_framesize pt) (pt_sizebc pt)) (bcwrite_bytecode E pt) (\<lambda>bc. bc = clean_bc E pt)"
proof -
  have u: "u32s_of (bcwrite_bytecode E pt) = tl (clean_bc E pt)" unfolding bytecode_counted(1)[OF c] u32s_bytes clean_bc_def by simp
  have l: "unat ((pt_sizebc pt - 1) * 4) = length (bcwrite_bytecode E pt)" using bc_countedD(2)[OF c] c by simp
  have "reads fc [] (bnd (bcread_mem (unat ((pt_sizebc pt - 1) * 4))) (\<lambda>bs.
       ret (BCINS_AD (if proto_mask (pt_flags pt) AND PROTO_VARARG \<noteq> 0 then BC_FUNCV else BC_FUNCF) (pt_framesize pt) 0 # u32s_of bs)))
     (bcwrite_bytecode E pt) (\<lambda>bc. bc = clean_bc E pt)"
    by (rule reads_bnd1[OF reads_mem[OF l]]) (auto simp: u mask_vararg clean_bc_def intro!: reads_ret)
  then show ?thesis
    by (rule reads_cong[rotated]) (use be in \<open>auto simp: bcread_bytecode_def Let_def bcread_swap_def\<close>)
qed

lemma reads_uv:
  assumes "fst fc AND BCDUMP_F_BE = 0"
  shows "reads fc [] (bcread_uv (length uv)) (concat (map bytes_u16 uv)) (\<lambda>x. x = uv)"
proof -
  have l: "length uv * 2 = length (concat (map bytes_u16 uv))" by simp
  have "reads fc [] (bnd (bcread_mem (length uv * 2)) (\<lambda>bs. ret (u16s_of bs))) (concat (map bytes_u16 uv)) (\<lambda>x. x = uv)"
    by (rule reads_bnd1[OF reads_mem[OF l]]) (auto intro!: reads_ret)
  then show ?thesis
    by (rule reads_cong[rotated]) (use assms in \<open>auto simp: bcread_uv_def bcread_swap_def\<close>)
qed

lemma reads_dbg:
  assumes "fst fc AND BCDUMP_F_BE = 0"
  shows "reads fc [] (bcread_dbg numline sizebc (length dbg)) dbg (\<lambda>x. x = dbg)"
proof -
  have "reads fc [] (bnd (bcread_mem (length dbg)) ret) dbg (\<lambda>x. x = dbg)"
    by (rule reads_bnd1[OF reads_mem]) (auto intro!: reads_ret)
  then show ?thesis
    by (rule reads_cong[rotated]) (use assms in \<open>auto simp: bcread_dbg_def bcread_swap_def\<close>)
qed

section \<open>One prototype\<close>

definition fmt_lines :: "bool \<Rightarrow> GCproto \<Rightarrow> bytes" where
  "fmt_lines strip pt =
     (if strip then []
      else lj_strfmt_wuleb128 (word_of_nat (length (pt_dbg pt))) @
        (if pt_dbg pt \<noteq> [] then lj_strfmt_wuleb128 (pt_firstline pt) @ lj_strfmt_wuleb128 (pt_numline pt) else []))"

definition lines_of :: "bool \<Rightarrow> GCproto \<Rightarrow> u32 \<times> u32 \<times> u32" where
  "lines_of strip pt = (if strip \<or> pt_dbg pt = [] then (0, 0, 0) else (word_of_nat (length (pt_dbg pt)), pt_firstline pt, pt_numline pt))"

lemma reads_lines:
  assumes "length (pt_dbg pt) < 2 ^ 31" "fst fc AND BCDUMP_F_STRIP \<noteq> 0 \<longleftrightarrow> strip"
  shows "reads fc [] bcread_lines (fmt_lines strip pt) (\<lambda>x. x = lines_of strip pt)"
proof (cases strip)
  case True
  have "reads fc [] (ret (0, 0, 0)) [] (\<lambda>x. x = lines_of strip pt)" by (rule reads_ret) (simp add: True lines_of_def)
  then have "reads fc [] (ret (0, 0, 0)) (fmt_lines strip pt) (\<lambda>x. x = lines_of strip pt)" by (simp add: fmt_lines_def True)
  then show ?thesis by (rule reads_cong[rotated]) (use assms True in \<open>auto simp: bcread_lines_def\<close>)
next
  case False
  let ?n = "word_of_nat (length (pt_dbg pt)) :: u32"
  have n: "unat ?n = length (pt_dbg pt)" using assms(1) by (intro unat_of_nat32) simp
  then have z: "?n = 0 \<longleftrightarrow> pt_dbg pt = []" by (metis length_0_conv unat_0 unat_eq_zero)
  let ?r = "bnd bcread_uleb128 (\<lambda>sizedbg.
          if sizedbg \<noteq> 0 then
            bnd bcread_uleb128 (\<lambda>firstline. bnd bcread_uleb128 (\<lambda>numline. ret (sizedbg, firstline, numline)))
          else ret (0, 0, 0))"
  have "reads fc [] ?r (fmt_lines strip pt) (\<lambda>x. x = lines_of strip pt)"
  proof (cases "pt_dbg pt = []")
    case True
    have e: "fmt_lines strip pt = lj_strfmt_wuleb128 0" using True False by (simp add: fmt_lines_def)
    show ?thesis unfolding e by (rule uleb_only) (simp add: reads_ret lines_of_def True)
  next
    case d: False
    have e: "fmt_lines strip pt = lj_strfmt_wuleb128 ?n @ lj_strfmt_wuleb128 (pt_firstline pt) @ lj_strfmt_wuleb128 (pt_numline pt)"
      using d False by (simp add: fmt_lines_def)
    have "reads fc [] (bnd bcread_uleb128 (\<lambda>firstline. bnd bcread_uleb128 (\<lambda>numline. ret (?n, firstline, numline))))
      (lj_strfmt_wuleb128 (pt_firstline pt) @ lj_strfmt_wuleb128 (pt_numline pt)) (\<lambda>x. x = lines_of strip pt)"
      by (rule uleb_then, rule uleb_only, rule reads_ret) (simp add: lines_of_def d False)
    then show ?thesis unfolding e using d z by (intro uleb_then) simp
  qed
  then show ?thesis by (rule reads_cong[rotated]) (use assms False in \<open>auto simp: bcread_lines_def\<close>)
qed

lemma proto_head_eq:
  "proto_head strip pt =
     proto_mask (pt_flags pt) # pt_numparams pt # pt_framesize pt # word_of_nat (length (pt_uv pt)) #
     lj_strfmt_wuleb128 (word_of_nat (length (pt_kgc pt))) @ lj_strfmt_wuleb128 (word_of_nat (length (pt_kn pt))) @
     lj_strfmt_wuleb128 (pt_sizebc pt - 1) @ fmt_lines strip pt"
  by (simp add: proto_head_def proto_mask_def fmt_lines_def Let_def)

lemma proto_sim_eq:
  "proto_sim E strip cn p p' \<longleftrightarrow>
     pt_flags p' = proto_mask (pt_flags p) \<and> pt_numparams p' = pt_numparams p \<and> pt_framesize p' = pt_framesize p \<and>
     pt_sizebc p' = pt_sizebc p \<and> pt_bc p' = clean_bc E p \<and> pt_uv p' = pt_uv p \<and> kgcs_sim E strip cn (pt_kgc p) (pt_kgc p') \<and> list_all2 val_sim (pt_kn p') (pt_kn p) \<and>
     pt_trace p' = 0 \<and> pt_chunkname p' = cn \<and>
     (if strip \<or> pt_dbg p = [] then
        pt_firstline p' = 0 \<and> pt_numline p' = 0 \<and> pt_dbg p' = [] \<and> pt_uvinfo p' = 0 \<and> pt_varinfo p' = 0
      else pt_firstline p' = pt_firstline p \<and> pt_numline p' = pt_numline p \<and> pt_dbg p' = pt_dbg p \<and> pt_uvinfo p' = pt_uvinfo p \<and>
        pt_varinfo p' = pt_varinfo p)"
  by (cases p) simp

text \<open>The size of a prototype whose offsets do not wrap around, and where it is what the code computes.\<close>

definition proto_bytes :: "nat \<Rightarrow> nat \<Rightarrow> nat \<Rightarrow> nat \<Rightarrow> nat \<Rightarrow> nat" where
  "proto_bytes sizebc sizekgc sizekn sizeuv sizedbg =
     (64 + sizebc * 4 + sizekgc * 4 + 7) div 8 * 8 + sizekn * 8 + (sizeuv + 1) div 2 * 2 * 2 + sizedbg"

lemma align_word: "unat ((w :: u32) AND NOT 7) = unat w div 8 * 8" "unat (w AND NOT 1) = unat w div 2 * 2"
proof -
  have a: "w AND NOT (mask n) = push_bit n (drop_bit n w)" for n by (rule bit_word_eqI) (auto simp: bit_simps)
  have b: "unat (push_bit n (drop_bit n w)) = unat w div 2 ^ n * 2 ^ n" for n
  proof -
    have "unat w div 2 ^ n * 2 ^ n \<le> unat w" by (rule div_times_less_eq_dividend)
    also have "\<dots> < 2 ^ 32" using u32_lt[of w] by simp
    finally show ?thesis
      by (simp only: unsigned_push_bit_eq unsigned_drop_bit_eq) (simp add: push_bit_eq_mult drop_bit_eq_div take_bit_eq_mod mod_less)
  qed
  show "unat (w AND NOT 7) = unat w div 8 * 8" using a[of 3] b[of 3] by (simp add: mask_eq_exp_minus_1)
  show "unat (w AND NOT 1) = unat w div 2 * 2" using a[of 1] b[of 1] by (simp add: mask_eq_exp_minus_1)
qed

lemma layout_exact:
  assumes sz: "proto_bytes (unat sizebc) (unat k) (unat n) (unat u) (unat d) < 2 ^ 32"
    and ps: "proto_size sizebc k n u d = (ofsk, ofsuv, ofsdbg, sizept)"
  shows "unat ofsk = (64 + unat sizebc * 4 + unat k * 4 + 7) div 8 * 8" "unat ofsuv = unat ofsk + unat n * 8"
    "unat ofsdbg = unat ofsuv + (unat u + 1) div 2 * 2 * 2" "unat sizept = unat ofsdbg + unat d"
proof -
  have pow: "(2 :: nat) ^ 32 = 8 * 2 ^ 29" by simp
  note s = sz[unfolded proto_bytes_def]
  have m: "unat (sizebc * 4) = unat sizebc * 4" "unat (k * 4) = unat k * 4" "unat (n * 8) = unat n * 8"
    using s by (simp_all add: unat_word_ariths mod_less)
  have "(64 + unat sizebc * 4 + unat k * 4 + 7) div 8 < 2 ^ 29" using s pow by linarith
  then have "64 + unat sizebc * 4 + unat k * 4 + 7 < 2 ^ 32" by (simp add: div_less_iff_less_mult)
  then have "unat (64 + sizebc * 4 + k * 4 + 7) = 64 + unat sizebc * 4 + unat k * 4 + 7"
    by (simp add: unat_word_ariths(1) m mod_less)
  moreover have e: "ofsk = (64 + sizebc * 4 + k * 4 + 7) AND NOT 7" "ofsuv = ofsk + n * 8"
    "ofsdbg = ofsuv + ((u + 1) AND NOT 1) * 2" "sizept = ofsdbg + d"
    using ps by (auto simp only: proto_size_def Let_def prod.inject)
  ultimately show K: "unat ofsk = (64 + unat sizebc * 4 + unat k * 4 + 7) div 8 * 8" by (simp only: align_word)
  have add: "unat (x + y) = unat x + unat y" if "unat x + unat y < 2 ^ 32" for x y :: u32
    using that by (simp add: unat_word_ariths(1) mod_less)
  show U: "unat ofsuv = unat ofsk + unat n * 8" unfolding e(2) m(3)[symmetric] by (rule add) (use s K m(3) in linarith)
  have "unat u + 1 < 2 ^ 32" using s by linarith
  then have "unat (u + 1) = unat u + 1" using add[of u 1] by simp
  then have a: "unat ((u + 1) AND NOT 1) = (unat u + 1) div 2 * 2" by (simp only: align_word)
  have "unat (((u + 1) AND NOT 1) * 2) = (unat u + 1) div 2 * 2 * 2"
    using s by (simp add: unat_word_ariths(2) a[simplified] mod_less)
  note a2 = this
  show D: "unat ofsdbg = unat ofsuv + (unat u + 1) div 2 * 2 * 2" unfolding e(3) a2[symmetric] by (rule add) (use s K U a2 in linarith)
  show "unat sizept = unat ofsdbg + unat d" unfolding e(4) by (rule add) (use s K U D in linarith)
qed

lemma layout_fits:
  assumes sz: "proto_bytes (unat sizebc) (unat k) (unat n) (unat u) (unat d) < 2 ^ 32"
    and ps: "proto_size sizebc k n u d = (ofsk, ofsuv, ofsdbg, sizept)"
    and bc: "0 < unat sizebc" "unat ((sizebc - 1) * 4) = 4 * (unat sizebc - 1)"
  shows "head_fits sizebc k u ofsk ofsuv sizept" "unat k \<le> kgc_room k ofsk sizept" "tail_fits n d ofsk ofsuv ofsdbg sizept"
proof -
  note l = layout_exact[OF sz ps]
  have K: "64 + unat sizebc * 4 + unat k * 4 \<le> unat ofsk" unfolding l(1) by linarith
  have le: "unat ofsk \<le> unat ofsuv" "unat ofsuv + 2 * unat u \<le> unat ofsdbg" "unat ofsdbg \<le> unat sizept" using l(2-4) by linarith+
  have "unat k * 4 < 4294967296" using K u32_lt[of ofsk] by linarith
  then have k1: "unat (k + 1) = unat k + 1" by (simp add: unat_word_ariths(1))
  have k4: "4 * unat (k + 1) \<le> unat ofsk" using K bc(1) unfolding k1 by simp
  have arith: "a - 4 * (b + 1) + 4 \<le> c" "4 * b \<le> c - (a - 4 * b)" if "4 * (b + 1) \<le> a" "a \<le> c" for a b c :: nat using that by simp_all
  have "unat ofsk \<le> unat sizept" using le by (meson le_trans le_add1)
  note ar = arith[OF k4[unfolded k1] this]
  have "unat ofsk - 4 * unat (k + 1) + 4 \<le> unat sizept" unfolding k1 by (rule ar(1))
  moreover have "68 + unat ((sizebc - 1) * 4) \<le> unat sizept" unfolding bc(2) using K le bc(1) by linarith
  ultimately show "head_fits sizebc k u ofsk ofsuv sizept"
    using k4 le unfolding head_fits_def word_le_nat_alt by linarith
  have "unat k \<le> (unat sizept - (unat ofsk - 4 * unat k)) div 4" using ar(2) by (simp add: less_eq_div_iff_mult_less_eq mult.commute)
  then show "unat k \<le> kgc_room k ofsk sizept" using K unfolding kgc_room_def by simp
  show "tail_fits n d ofsk ofsuv ofsdbg sizept"
    using l(2,4) le unfolding tail_fits_def word_le_nat_alt by linarith
qed

lemma line_size_eq:
  assumes "bc_counted pt"
  shows "unat (push_bit (if sint numline < 256 then 0 else if sint numline < 65536 then 1 else 2) (pt_sizebc pt - 1)) =
    (length (pt_bc pt) - 1) * line_size numline"
proof -
  have "unat (push_bit j (pt_sizebc pt - 1)) = (length (pt_bc pt) - 1) * 2 ^ j" if "j \<le> 2" for j
  proof -
    have "length (pt_bc pt) - 1 \<le> 2 ^ 26" using assms by (auto simp: bc_counted_def LJ_MAX_BCINS_def)
    then have "(length (pt_bc pt) - 1) * 2 ^ j \<le> 2 ^ 26 * 2 ^ 2"
      using that by (intro mult_le_mono power_increasing) simp_all
    then show ?thesis using bc_countedD(1)[OF assms]
      by (simp only: unsigned_push_bit_eq) (simp add: push_bit_eq_mult take_bit_eq_mod mod_less)
  qed
  from this[of 0] this[of 1] this[of 2] show ?thesis by (simp add: line_size_def)
qed

lemma reads_end:
  assumes ok: "body_ok E strip pt" and be: "fst fc AND BCDUMP_F_BE = 0" and l: "lines_of strip pt = (sizedbg, firstline, numline)"
    and sim: "\<And>ui vi. pt_uvinfo pt = ui \<and> pt_varinfo pt = vi \<or> strip \<or> pt_dbg pt = [] \<Longrightarrow>
      proto_sim E strip cn pt (p (if strip then [] else pt_dbg pt) (if strip \<or> pt_dbg pt = [] then 0 else ui) (if strip \<or> pt_dbg pt = [] then 0 else vi))"
  shows "reads fc [] (bcread_end (pt_sizebc pt) (length (pt_uv pt)) (unat sizedbg) numline p) (if strip then [] else pt_dbg pt)
    (\<lambda>p'. proto_sim E strip cn pt p')"
proof (cases "strip \<or> pt_dbg pt = []")
  case True
  have e: "(if strip then [] else pt_dbg pt) = []" using True by auto
  have "sizedbg = 0" using l True by (simp add: lines_of_def)
  moreover have "proto_sim E strip cn pt (p [] 0 0)" using sim[of 0 0] True by (auto simp: e)
  ultimately show ?thesis by (simp add: bcread_end_def e reads_ret)
next
  case False
  have ui: "pt_uvinfo pt = (length (pt_bc pt) - 1) * line_size (pt_numline pt)"
    "bcread_varinfo (length (pt_uv pt)) (pt_uvinfo pt) (pt_dbg pt) = Some (pt_varinfo pt)" and c: "bc_counted pt"
    and d: "length (pt_dbg pt) < 2 ^ 31" using ok False unfolding body_ok_def by blast+
  have "unat (word_of_nat (length (pt_dbg pt)) :: u32) = length (pt_dbg pt)" by (rule unat_of_nat32) (use d in simp)
  then have e: "unat sizedbg = length (pt_dbg pt)" "numline = pt_numline pt" "length (pt_dbg pt) \<noteq> 0" using l False by (auto simp: lines_of_def)
  have "proto_sim E strip cn pt (p (pt_dbg pt) (pt_uvinfo pt) (pt_varinfo pt))" using sim[of "pt_uvinfo pt" "pt_varinfo pt"] False by simp
  then have "reads fc [] (case bcread_varinfo (length (pt_uv pt)) (pt_uvinfo pt) (pt_dbg pt) of None \<Rightarrow> throw UNDEFINED
      | Some vi \<Rightarrow> ret (p (pt_dbg pt) (pt_uvinfo pt) vi)) [] (\<lambda>p'. proto_sim E strip cn pt p')" by (simp add: ui(2) reads_ret)
  then show ?thesis using False
    unfolding bcread_end_def e(1,2) if_P[OF e(3)] Let_def line_size_eq[OF c] ui(1)[symmetric]
    by (simp, intro reads_bnd1[OF reads_dbg[OF be]]) simp
qed

lemma reads_proto:
  assumes ok: "body_ok E strip pt" and fc: "fst fc AND BCDUMP_F_BE = 0" "fst fc AND BCDUMP_F_STRIP \<noteq> 0 \<longleftrightarrow> strip"
    and cs: "list_all2 (proto_sim E strip (snd fc)) (children (pt_kgc pt)) cs"
  shows "reads fc cs (lj_bcread_proto E) (fmt_body E strip pt) (\<lambda>p'. proto_sim E strip (snd fc) pt p')"
proof -
  have c: "bc_counted pt" and b: "length (pt_uv pt) \<le> 255" "length (pt_kgc pt) \<le> 2 ^ 26" "list_all (kgc_ok E) (pt_kgc pt)"
    "length (pt_kn pt) \<le> 2 ^ 26" "list_all tvisnum (pt_kn pt)" "length (pt_dbg pt) < 2 ^ 31"
    using ok unfolding body_ok_def LJ_MAX_BCINS_def by blast+
  let ?kgc = "word_of_nat (length (pt_kgc pt)) :: u32" and ?kn = "word_of_nat (length (pt_kn pt)) :: u32"
    and ?uv = "word_of_nat (length (pt_uv pt)) :: u8"
  have u: "unat ?kgc = length (pt_kgc pt)" "unat ?kn = length (pt_kn pt)" "unat ?uv = length (pt_uv pt)"
    "unat (ucast ?uv :: u32) = length (pt_uv pt)" using b by (simp_all add: unat_of_nat_id unat_ucast_up)
  have n: "length (pt_bc pt) \<le> 2 ^ 26" "0 < unat (pt_sizebc pt)" "unat (pt_sizebc pt) = length (pt_bc pt)"
    using c by (simp_all add: bc_counted_def LJ_MAX_BCINS_def)
  let ?Q = "\<lambda>p'. proto_sim E strip (snd fc) pt p'"
  let ?dbg = "if strip then [] else pt_dbg pt"
  obtain sizedbg firstline numline where l: "lines_of strip pt = (sizedbg, firstline, numline)" by (cases "lines_of strip pt")
  have sd: "unat sizedbg < 2 ^ 31" using l b(6) by (auto simp: lines_of_def unat_of_nat32 split: if_splits)
  have size: "proto_bytes (unat (pt_sizebc pt)) (unat ?kgc) (unat ?kn) (unat (ucast ?uv :: u32)) (unat sizedbg) < 2 ^ 32"
  proof -
    have "(64 + length (pt_bc pt) * 4 + length (pt_kgc pt) * 4 + 7) div 8 * 8 \<le> 64 + length (pt_bc pt) * 4 + length (pt_kgc pt) * 4 + 7"
      "(length (pt_uv pt) + 1) div 2 * 2 * 2 \<le> 2 * (length (pt_uv pt) + 1)" by simp_all
    then have "proto_bytes (length (pt_bc pt)) (length (pt_kgc pt)) (length (pt_kn pt)) (length (pt_uv pt)) (unat sizedbg)
      \<le> 71 + length (pt_bc pt) * 4 + length (pt_kgc pt) * 4 + length (pt_kn pt) * 8 + 2 * (length (pt_uv pt) + 1) + unat sizedbg"
      unfolding proto_bytes_def by linarith
    also have "\<dots> < 2 ^ 32" using b n(1) sd by simp
    finally show ?thesis by (simp only: u n(3))
  qed
  obtain ofsk ofsuv ofsdbg sizept where ps: "proto_size (pt_sizebc pt) ?kgc ?kn (ucast ?uv) sizedbg = (ofsk, ofsuv, ofsdbg, sizept)"
    by (cases "proto_size (pt_sizebc pt) ?kgc ?kn (ucast ?uv) sizedbg")
  have "unat ((pt_sizebc pt - 1) * 4) = 4 * (unat (pt_sizebc pt) - 1)" using bc_countedD(2)[OF c] n(3) by simp
  note fits = layout_fits[OF size ps n(2) this, unfolded u(1)]
  let ?fin = "\<lambda>bc uv kgc kn (ls :: LexBC). bcread_end (pt_sizebc pt) (length (pt_uv pt)) (unat sizedbg) numline
       (GCproto (proto_mask (pt_flags pt)) (pt_numparams pt) (pt_framesize pt) (pt_sizebc pt) bc uv kgc kn 0 (ls_chunkname ls) firstline numline) ls"
  have fin: "reads fc [] (?fin (clean_bc E pt) (pt_uv pt) kgc kn) ?dbg ?Q"
    if k: "kgcs_sim E strip (snd fc) (pt_kgc pt) kgc" "list_all2 val_sim kn (pt_kn pt)" for kgc kn
  proof (rule reads_cong)
    show "reads fc [] (bcread_end (pt_sizebc pt) (length (pt_uv pt)) (unat sizedbg) numline (GCproto (proto_mask (pt_flags pt)) (pt_numparams pt)
        (pt_framesize pt) (pt_sizebc pt) (clean_bc E pt) (pt_uv pt) kgc kn 0 (snd fc) firstline numline)) ?dbg ?Q"
      by (rule reads_end[OF ok fc(1) l]) (use k l in \<open>auto simp: proto_sim_eq lines_of_def split: if_splits\<close>)
  qed auto
  have r1: "reads fc [] (bnd (bcread_knum (length (pt_kn pt))) (?fin (clean_bc E pt) (pt_uv pt) kgc)) (concat (map bcwrite_knum1 (pt_kn pt)) @ ?dbg) ?Q"
    if "kgcs_sim E strip (snd fc) (pt_kgc pt) kgc" for kgc
    using fin[OF that] by (intro reads_bnd0[OF reads_knum[OF b(5)]]) blast
  have r2: "reads fc cs (bnd (bcread_kgc E (length (pt_kgc pt))) (\<lambda>kgc. bnd (bcread_knum (length (pt_kn pt))) (?fin (clean_bc E pt) (pt_uv pt) kgc)))
      (concat (map (fmt_kgc1 E) (pt_kgc pt)) @ concat (map bcwrite_knum1 (pt_kn pt)) @ ?dbg) ?Q"
    by (rule reads_bnd2[OF reads_kgc[OF b(3) cs]]) (use r1 in blast)
  have r3: "reads fc cs (bnd (bcread_bytecode (proto_mask (pt_flags pt)) (pt_framesize pt) (pt_sizebc pt)) (\<lambda>bc.
      bnd (bcread_uv (length (pt_uv pt))) (\<lambda>uv. bnd (bcread_kgc E (length (pt_kgc pt))) (\<lambda>kgc. bnd (bcread_knum (length (pt_kn pt))) (?fin bc uv kgc)))))
      (bcwrite_bytecode E pt @ concat (map bytes_u16 (pt_uv pt)) @
       concat (map (fmt_kgc1 E) (pt_kgc pt)) @ concat (map bcwrite_knum1 (pt_kn pt)) @ ?dbg) ?Q"
    by (rule reads_bnd0[OF reads_bytecode[OF c fc(1)]], intro allI impI, rule reads_bnd0[OF reads_uv[OF fc(1)]],
      intro allI impI, hypsubst, rule r2)
  show ?thesis unfolding lj_bcread_proto_def fmt_body_def proto_head_eq append_Cons append_assoc
    by (intro byte_then uleb_then, rule reads_bnd0[OF reads_lines[OF b(6) fc(2)]])
      (use r3 fits in \<open>simp only: l u(1-3) bc_countedD(4)[OF c] Let_def ps prod.case bcread_kgcs_def simp_thms if_True if_False\<close>)
qed

end
