(* ===== verification/LJ_BCStream.thy ===== *)
theory LJ_BCStream
  imports LJ_BCRound
begin

text \<open>
  The input of the reader of theory \<open>LJ_BCDump\<close>: the buffer is filled from the pieces of the reader function, and a whole dump
  is read prototype by prototype.
\<close>

section \<open>The input\<close>

text \<open>The bytes that are still to come.\<close>

definition avail :: "LexBC \<Rightarrow> bytes" where
  "avail ls = ls_p ls @ concat (ls_in ls)"

definition input_ok :: "LexBC \<Rightarrow> bool" where
  "input_ok ls \<longleftrightarrow> \<not> ls_eof ls \<and> [] \<notin> set (ls_in ls) \<and> length (avail ls) \<le> LJ_MAX_BUF"

lemma fill_loop_ok:
  "[] \<notin> set bs \<Longrightarrow> len \<le> length (p @ concat bs) \<Longrightarrow> length (p @ concat bs) \<le> LJ_MAX_BUF \<Longrightarrow> length p < len \<Longrightarrow>
   \<exists>q cs. fill_loop len need p bs = Inr (q, cs, False) \<and> q @ concat cs = p @ concat bs \<and> len \<le> length q \<and> [] \<notin> set cs"
proof (induction bs arbitrary: p)
  case (Cons b bs)
  have b: "b \<noteq> []" "\<not> max len (length p + length b) > LJ_MAX_BUF" using Cons.prems by auto
  show ?case
  proof (cases "length (p @ b) < len")
    case True
    then show ?thesis using Cons.IH[of "p @ b"] Cons.prems b by simp
  next
    case False
    then show ?thesis using Cons.prems b by simp
  qed
qed simp

lemma fill_loop_end:
  "[] \<notin> set bs \<Longrightarrow> length (p @ concat bs) < len \<Longrightarrow> len \<le> LJ_MAX_BUF \<Longrightarrow> fill_loop len False p bs = Inr (p @ concat bs, [], True)"
proof (induction bs arbitrary: p)
  case (Cons b bs)
  have "b \<noteq> []" "\<not> max len (length p + length b) > LJ_MAX_BUF" "length (p @ b) < len" using Cons.prems by auto
  then show ?case using Cons.IH[of "p @ b"] Cons.prems by simp
qed simp

definition filled_to :: "nat \<Rightarrow> LexBC \<Rightarrow> LexBC \<Rightarrow> bool" where
  "filled_to len ls ls' \<longleftrightarrow>
     input_ok ls' \<and> avail ls' = avail ls \<and> len \<le> length (ls_p ls') \<and> ls_flags ls' = ls_flags ls \<and>
     ls_chunkname ls' = ls_chunkname ls \<and> ls_stack ls' = ls_stack ls"

lemma bcread_fill_ok:
  assumes ok: "input_ok ls" and l: "len \<le> length (avail ls)" "length (ls_p ls) < len"
  shows "\<exists>ls'. bcread_fill len need ls = Inr ((), ls') \<and> filled_to len ls ls'"
proof -
  have le: "len \<le> LJ_MAX_BUF" using ok l by (simp add: input_ok_def)
  obtain q cs where q: "fill_loop len need (ls_p ls) (ls_in ls) = Inr (q, cs, False)" "q @ concat cs = ls_p ls @ concat (ls_in ls)"
    "len \<le> length q" "[] \<notin> set cs"
    using fill_loop_ok[of "ls_in ls" len "ls_p ls" need] ok l by (auto simp: input_ok_def avail_def)
  have "bcread_fill len need ls = Inr ((), ls\<lparr>ls_p := q, ls_in := cs, ls_eof := False\<rparr>)"
    using ok le q(1) by (simp add: bcread_fill_def input_ok_def)
  moreover have "filled_to len ls (ls\<lparr>ls_p := q, ls_in := cs, ls_eof := False\<rparr>)"
    using ok q by (simp add: filled_to_def input_ok_def avail_def)
  ultimately show ?thesis by blast
qed

lemma bcread_want_ok:
  assumes "input_ok ls" "len \<le> length (avail ls)"
  shows "\<exists>ls'. bcread_want len ls = Inr ((), ls') \<and> filled_to len ls ls'"
  using bcread_fill_ok[OF assms] assms by (cases "length (ls_p ls) < len") (auto simp: bcread_want_def filled_to_def)

lemma bcread_need_ok:
  assumes "input_ok ls" "len \<le> length (avail ls)"
  shows "\<exists>ls'. bcread_need len ls = Inr ((), ls') \<and> filled_to len ls ls'"
  using bcread_fill_ok[OF assms] assms by (cases "length (ls_p ls) < len") (auto simp: bcread_need_def filled_to_def)

text \<open>A known prefix of the input that was filled is in the buffer.\<close>

lemma filled_prefix:
  assumes "filled_to len ls ls'" "avail ls = bs @ R" "length bs \<le> len"
  shows "\<exists>rest. ls_p ls' = bs @ rest \<and> R = rest @ concat (ls_in ls')"
proof -
  have a: "ls_p ls' @ concat (ls_in ls') = bs @ R" "length bs \<le> length (ls_p ls')" using assms by (simp_all add: filled_to_def avail_def)
  then have "ls_p ls' = bs @ drop (length bs) (ls_p ls')" by (simp add: append_eq_append_conv_if split: if_splits) (metis append_eq_conv_conj)
  then show ?thesis using a by (metis append_assoc same_append_eq)
qed

lemma uleb_prefix:
  assumes "ls_p ls = lj_strfmt_wuleb128 v @ rest"
  shows "bcread_uleb128 ls = Inr (v, ls\<lparr>ls_p := rest\<rparr>)"
  by (simp add: bcread_uleb128_def assms ruleb128_wuleb128)

lemma hd_wuleb_zero: "v \<noteq> 0 \<Longrightarrow> hd (lj_strfmt_wuleb128 v) \<noteq> 0"
proof (cases "v \<ge> 0x80")
  case True
  have "(ucast (v AND 0x7f OR 0x80) :: u8) \<ge> 0x80" by (rule uleb_byte(2))
  then show ?thesis using True by (auto simp: wuleb_big word_le_nat_alt)
next
  case False
  assume "v \<noteq> 0"
  have "unat (ucast v :: u8) = unat v" using False by (intro unat_ucast_le) (simp add: word_le_nat_alt)
  then have "(ucast v :: u8) \<noteq> 0" using \<open>v \<noteq> 0\<close> by (metis unat_0 unat_eq_zero)
  then show ?thesis using False by (simp add: wuleb_small)
qed

section \<open>One round\<close>

lemma fmt_body_min: "7 \<le> length (fmt_body E strip pt)"
proof -
  have n: "1 \<le> length (lj_strfmt_wuleb128 v)" for v using wuleb_nonempty[of v] by (cases "lj_strfmt_wuleb128 v") simp_all
  show ?thesis
    using n[of "word_of_nat (length (pt_kgc pt))"] n[of "word_of_nat (length (pt_kn pt))"] n[of "pt_sizebc pt - 1"]
    by (simp add: fmt_body_def proto_head_eq)
qed

lemma round_ok:
  assumes ok: "body_ok E strip pt" and fc: "fst fc AND BCDUMP_F_BE = 0" "fst fc AND BCDUMP_F_STRIP \<noteq> 0 \<longleftrightarrow> strip"
    and cs: "list_all2 (proto_sim E strip (snd fc)) (children (pt_kgc pt)) cs"
    and ls: "input_ok ls" "avail ls = fmt_block E strip pt @ R" "ls_stack ls = cs @ st" "(ls_flags ls, ls_chunkname ls) = fc"
  shows "\<exists>ls' p'. bcread_protos (Suc n) E ls = bcread_protos n E ls' \<and> input_ok ls' \<and> avail ls' = R \<and> ls_stack ls' = p' # st \<and>
    (ls_flags ls', ls_chunkname ls') = fc \<and> proto_sim E strip (snd fc) pt p'"
proof -
  let ?b = "fmt_body E strip pt" let ?n = "word_of_nat (length ?b) :: u32"
  have av: "avail ls = lj_strfmt_wuleb128 ?n @ ?b @ R" using ls(2) by (simp add: fmt_block_def)
  have len: "unat ?n = length ?b" using ls(1) av by (intro unat_of_nat32) (simp add: input_ok_def lj_limits)
  have nz: "?n \<noteq> 0" using len fmt_body_min[of E strip pt] by auto
  have "hd (avail ls) \<noteq> 0" using hd_wuleb_zero[OF nz] av wuleb_nonempty by simp
  then have h: "\<not> (ls_p ls \<noteq> [] \<and> hd (ls_p ls) = 0)" by (auto simp: avail_def)
  have "5 \<le> length (avail ls)" using av fmt_body_min[of E strip pt] by simp
  from bcread_want_ok[OF ls(1) this] obtain l1 where l1: "bcread_want 5 ls = Inr ((), l1)" "filled_to 5 ls l1" by blast
  from filled_prefix[OF l1(2) av wuleb_max] obtain r1 where r1: "ls_p l1 = lj_strfmt_wuleb128 ?n @ r1" "?b @ R = r1 @ concat (ls_in l1)" by blast
  let ?l2 = "l1\<lparr>ls_p := r1\<rparr>"
  have u: "bcread_uleb128 l1 = Inr (?n, ?l2)" by (rule uleb_prefix[OF r1(1)])
  have a2: "avail ?l2 = ?b @ R" using r1(2) by (simp add: avail_def)
  have ok2: "input_ok ?l2" using l1(2) av a2 by (auto simp: filled_to_def input_ok_def)
  have "length ?b \<le> length (avail ?l2)" using a2 by simp
  from bcread_need_ok[OF ok2 this] obtain l3 where l3: "bcread_need (length ?b) ?l2 = Inr ((), l3)" "filled_to (length ?b) ?l2 l3" by blast
  from filled_prefix[OF l3(2) a2] obtain r3 where r3: "ls_p l3 = ?b @ r3" "R = r3 @ concat (ls_in l3)" by blast
  have st: "ls_stack l3 = cs @ st" "(ls_flags l3, ls_chunkname l3) = fc" using l3(2) l1(2) ls(3,4) by (simp_all add: filled_to_def)
  from readsD[OF reads_proto[OF ok fc cs] r3(1) st] obtain p' where
    p': "lj_bcread_proto E l3 = Inr (p', l3\<lparr>ls_p := r3, ls_stack := st\<rparr>)" "proto_sim E strip (snd fc) pt p'" by blast
  let ?l4 = "l3\<lparr>ls_p := r3, ls_stack := p' # st\<rparr>"
  have "bcread_protos (Suc n) E ls = bcread_protos n E ?l4"
    unfolding bcread_protos.simps(2) if_not_P[OF h] using l1(1) u nz l3(1) len p'(1) r3(1) by (simp add: bnd_Inr)
  moreover have "input_ok ?l4" "avail ?l4 = R" using l3(2) r3 a2 by (simp_all add: filled_to_def input_ok_def avail_def)
  ultimately show ?thesis using p'(2) st(2) by (intro exI[of _ ?l4] exI[of _ p']) simp
qed

section \<open>Trees\<close>

text \<open>Reading the blocks of a tree puts its root on the stack; reading those of a list of constants puts their children there.\<close>

definition reads_blocks :: "bc_env \<Rightarrow> bool \<Rightarrow> u32 \<times> u32 \<Rightarrow> GCproto list \<Rightarrow> GCproto list \<Rightarrow> bool" where
  "reads_blocks E strip fc ps qs \<longleftrightarrow>
     (\<forall>ls R st n. input_ok ls \<and> avail ls = concat (map (fmt_block E strip) ps) @ R \<and> ls_stack ls = st \<and> (ls_flags ls, ls_chunkname ls) = fc \<longrightarrow>
        (\<exists>ls' cs. bcread_protos (length ps + n) E ls = bcread_protos n E ls' \<and> input_ok ls' \<and> avail ls' = R \<and> ls_stack ls' = cs @ st \<and>
           (ls_flags ls', ls_chunkname ls') = fc \<and> list_all2 (proto_sim E strip (snd fc)) qs cs))"

lemma reads_blocksD:
  "reads_blocks E strip fc ps qs \<Longrightarrow> input_ok ls \<Longrightarrow> avail ls = concat (map (fmt_block E strip) ps) @ R \<Longrightarrow> ls_stack ls = st \<Longrightarrow>
   (ls_flags ls, ls_chunkname ls) = fc \<Longrightarrow>
     \<exists>ls' cs. bcread_protos (length ps + n) E ls = bcread_protos n E ls' \<and> input_ok ls' \<and> avail ls' = R \<and> ls_stack ls' = cs @ st \<and>
       (ls_flags ls', ls_chunkname ls') = fc \<and> list_all2 (proto_sim E strip (snd fc)) qs cs"
  unfolding reads_blocks_def by blast

lemma reads_blocks_Nil: "reads_blocks E strip fc [] []"
  unfolding reads_blocks_def by (auto intro!: exI)

lemma reads_blocks_append:
  assumes a: "reads_blocks E strip fc ps1 qs1" and b: "reads_blocks E strip fc ps2 qs2"
  shows "reads_blocks E strip fc (ps1 @ ps2) (qs2 @ qs1)"
  unfolding reads_blocks_def
proof (intro allI impI)
  fix ls :: LexBC and R st n
  assume ls: "input_ok ls \<and> avail ls = concat (map (fmt_block E strip) (ps1 @ ps2)) @ R \<and> ls_stack ls = st \<and> (ls_flags ls, ls_chunkname ls) = fc"
  then obtain l1 c1 where l1: "bcread_protos (length ps1 + (length ps2 + n)) E ls = bcread_protos (length ps2 + n) E l1" "input_ok l1"
    "avail l1 = concat (map (fmt_block E strip) ps2) @ R" "ls_stack l1 = c1 @ st" "(ls_flags l1, ls_chunkname l1) = fc"
    "list_all2 (proto_sim E strip (snd fc)) qs1 c1"
    using reads_blocksD[OF a, of ls "concat (map (fmt_block E strip) ps2) @ R" st "length ps2 + n"] by auto
  from reads_blocksD[OF b l1(2,3,4,5), of n] obtain l2 c2 where l2: "bcread_protos (length ps2 + n) E l1 = bcread_protos n E l2" "input_ok l2"
    "avail l2 = R" "ls_stack l2 = c2 @ c1 @ st" "(ls_flags l2, ls_chunkname l2) = fc" "list_all2 (proto_sim E strip (snd fc)) qs2 c2" by blast
  have "list_all2 (proto_sim E strip (snd fc)) (qs2 @ qs1) (c2 @ c1)" using l1(6) l2(6) by (intro list_all2_appendI)
  then show "\<exists>ls' cs. bcread_protos (length (ps1 @ ps2) + n) E ls = bcread_protos n E ls' \<and> input_ok ls' \<and> avail ls' = R \<and> ls_stack ls' = cs @ st \<and>
       (ls_flags ls', ls_chunkname ls') = fc \<and> list_all2 (proto_sim E strip (snd fc)) (qs2 @ qs1) cs"
    using l1(1) l2 by (intro exI[of _ l2] exI[of _ "c2 @ c1"]) (simp add: add.assoc)
qed

lemma reads_blocks_one:
  assumes k: "reads_blocks E strip fc ps (children (pt_kgc pt))" and ok: "body_ok E strip pt"
    and fc: "fst fc AND BCDUMP_F_BE = 0" "fst fc AND BCDUMP_F_STRIP \<noteq> 0 \<longleftrightarrow> strip"
  shows "reads_blocks E strip fc (ps @ [pt]) [pt]"
  unfolding reads_blocks_def
proof (intro allI impI)
  fix ls :: LexBC and R st n
  assume ls: "input_ok ls \<and> avail ls = concat (map (fmt_block E strip) (ps @ [pt])) @ R \<and> ls_stack ls = st \<and> (ls_flags ls, ls_chunkname ls) = fc"
  then obtain l1 c1 where l1: "bcread_protos (length ps + (1 + n)) E ls = bcread_protos (1 + n) E l1" "input_ok l1"
    "avail l1 = fmt_block E strip pt @ R" "ls_stack l1 = c1 @ st" "(ls_flags l1, ls_chunkname l1) = fc"
    "list_all2 (proto_sim E strip (snd fc)) (children (pt_kgc pt)) c1"
    using reads_blocksD[OF k, of ls "fmt_block E strip pt @ R" st "1 + n"] by auto
  from round_ok[OF ok fc l1(6,2,3,4,5), of n] obtain l2 p' where "bcread_protos (Suc n) E l1 = bcread_protos n E l2" "input_ok l2" "avail l2 = R"
    "ls_stack l2 = p' # st" "(ls_flags l2, ls_chunkname l2) = fc" "proto_sim E strip (snd fc) pt p'" by blast
  then show "\<exists>ls' cs. bcread_protos (length (ps @ [pt]) + n) E ls = bcread_protos n E ls' \<and> input_ok ls' \<and> avail ls' = R \<and> ls_stack ls' = cs @ st \<and>
       (ls_flags ls', ls_chunkname ls') = fc \<and> list_all2 (proto_sim E strip (snd fc)) [pt] cs"
    using l1(1) by (intro exI[of _ l2] exI[of _ "[p']"]) simp
qed

lemma no_children: "\<not> list_ex is_child ks \<Longrightarrow> children ks = []"
  by (induction ks) (auto simp: is_child_def split: KGC.splits)

lemma reads_tree:
  assumes fc: "fst fc AND BCDUMP_F_BE = 0" "fst fc AND BCDUMP_F_STRIP \<noteq> 0 \<longleftrightarrow> strip"
  shows "list_all (body_ok E strip) (written pt) \<Longrightarrow> reads_blocks E strip fc (written pt) [pt]"
    "list_all (body_ok E strip) (written_kids ks) \<Longrightarrow> reads_blocks E strip fc (written_kids ks) (children ks)"
proof (induction pt and ks rule: written_written_kids.induct)
  case (1 fl np fs sbc bc uv kgc kn tr cn fline nline dbg ui vi)
  let ?p = "GCproto fl np fs sbc bc uv kgc kn tr cn fline nline dbg ui vi"
  have ok: "body_ok E strip ?p" using 1(2) by simp
  show ?case
  proof (cases "fl AND PROTO_CHILD = 0")
    case True
    then have "children (pt_kgc ?p) = []" using ok by (intro no_children) (simp add: body_ok_def)
    then show ?thesis using reads_blocks_one[OF _ ok fc, of "[]"] reads_blocks_Nil[of E strip fc] True by simp
  next
    case False
    then have "reads_blocks E strip fc (written_kids kgc) (children (pt_kgc ?p))" using 1 by simp
    from reads_blocks_one[OF this ok fc] show ?thesis using False by simp
  qed
next
  case 2
  then show ?case by (simp add: reads_blocks_Nil)
next
  case (3 k ks)
  have r: "reads_blocks E strip fc (written_kids ks) (children ks)" using 3 by simp
  show ?case
  proof (cases "is_child k")
    case True
    then obtain p where p: "k = KGC_PROTO p" by (cases k) (simp_all add: is_child_def)
    have "reads_blocks E strip fc (written p) [p]" using 3 p by simp
    from reads_blocks_append[OF r this] show ?thesis by (simp add: p)
  next
    case False
    then show ?thesis using r by (cases k) (simp_all add: is_child_def)
  qed
qed

section \<open>Whole dumps\<close>

lemma read_footer:
  assumes "input_ok ls" "avail ls = [0]"
  shows "\<exists>ls'. bcread_protos (Suc n) E ls = Inr ((), ls') \<and> ls_p ls' = [] \<and> ls_stack ls' = ls_stack ls"
proof (cases "ls_p ls = []")
  case False
  then have "ls_p ls = [0]" using assms(2) by (cases "ls_p ls") (auto simp: avail_def)
  then show ?thesis by (intro exI[of _ "ls\<lparr>ls_p := []\<rparr>"]) simp
next
  case True
  then have "concat (ls_in ls) = [0]" using assms(2) by (simp add: avail_def)
  then have "fill_loop 5 False [] (ls_in ls) = Inr ([0], [], True)"
    using fill_loop_end[of "ls_in ls" "[]" 5] assms(1) by (simp add: input_ok_def lj_limits)
  then have w: "bcread_want 5 ls = Inr ((), ls\<lparr>ls_p := [0], ls_in := [], ls_eof := True\<rparr>)"
    using True assms(1) by (simp add: bcread_want_def bcread_fill_def input_ok_def lj_limits)
  have u: "bcread_uleb128 (ls\<lparr>ls_p := [0], ls_in := [], ls_eof := True\<rparr>) = Inr (0, ls\<lparr>ls_p := [], ls_in := [], ls_eof := True\<rparr>)"
    using uleb_prefix[of "ls\<lparr>ls_p := [0], ls_in := [], ls_eof := True\<rparr>" 0 "[]"] by (simp add: wuleb_tag)
  show ?thesis using True by (simp add: bnd_Inr[of "bcread_want 5", OF w] bnd_Inr[of bcread_uleb128, OF u] ret_def)
qed

definition dump_flags :: "bool \<Rightarrow> GCproto \<Rightarrow> u32" where
  "dump_flags strip pt = (if strip then BCDUMP_F_STRIP else 0) + (if pt_flags pt AND PROTO_FFI \<noteq> 0 then BCDUMP_F_FFI else 0)"

lemma dump_flags:
  "dump_flags strip pt < 0x80" "dump_flags strip pt AND NOT BCDUMP_F_KNOWN = 0" "dump_flags strip pt AND BCDUMP_F_FR2 = 0"
  "dump_flags strip pt AND BCDUMP_F_BE = 0" "dump_flags strip pt AND BCDUMP_F_STRIP \<noteq> 0 \<longleftrightarrow> strip"
  by (auto simp: dump_flags_def bcdump_flags)

text \<open>The name that the chunk gets.\<close>

definition dump_name :: "bc_env \<Rightarrow> bool \<Rightarrow> bytes \<Rightarrow> GCproto \<Rightarrow> u32" where
  "dump_name E strip chunkarg pt = (if strip then e_snew E chunkarg else e_snew E (e_sdata E (pt_chunkname pt)))"

lemma read_bytes4:
  assumes "ls_p ls = a # b # c # lj_strfmt_wuleb128 v @ rest"
  shows "bcread_byte ls = Inr (a, ls\<lparr>ls_p := b # c # lj_strfmt_wuleb128 v @ rest\<rparr>)"
    "bcread_byte (ls\<lparr>ls_p := b # c # lj_strfmt_wuleb128 v @ rest\<rparr>) = Inr (b, ls\<lparr>ls_p := c # lj_strfmt_wuleb128 v @ rest\<rparr>)"
    "bcread_byte (ls\<lparr>ls_p := c # lj_strfmt_wuleb128 v @ rest\<rparr>) = Inr (c, ls\<lparr>ls_p := lj_strfmt_wuleb128 v @ rest\<rparr>)"
    "bcread_uleb128 (ls\<lparr>ls_p := lj_strfmt_wuleb128 v @ rest\<rparr>) = Inr (v, ls\<lparr>ls_p := rest\<rparr>)"
  using assms by (simp_all add: bcread_byte_def bcread_uleb128_def ruleb128_wuleb128)

lemma fmt_header_tl:
  "tl (fmt_header E strip pt) = BCDUMP_HEAD2 # BCDUMP_HEAD3 # BCDUMP_VERSION # lj_strfmt_wuleb128 (dump_flags strip pt) @
     (if strip then [] else fmt_str (e_sdata E (pt_chunkname pt)) 0)"
  by (simp add: fmt_header_def wuleb_tag[OF dump_flags(1)]) (simp add: dump_flags_def)

lemma read_header:
  assumes ls: "input_ok ls" "avail ls = tl (fmt_header E strip pt) @ R" "9 \<le> length R"
    and n: "length (e_sdata E (pt_chunkname pt)) \<le> LJ_MAX_STR"
  shows "\<exists>ls'. bcread_header E chunkarg ls = Inr (True, ls') \<and> input_ok ls' \<and> avail ls' = R \<and> ls_stack ls' = ls_stack ls \<and>
    (ls_flags ls', ls_chunkname ls') = (dump_flags strip pt, dump_name E strip chunkarg pt)"
proof -
  let ?fl = "dump_flags strip pt" and ?s = "e_sdata E (pt_chunkname pt)"
  let ?h = "BCDUMP_HEAD2 # BCDUMP_HEAD3 # BCDUMP_VERSION # lj_strfmt_wuleb128 ?fl"
  have fl: "lj_strfmt_wuleb128 ?fl = [ucast ?fl]" by (rule wuleb_tag[OF dump_flags(1)])
  let ?n = "word_of_nat (length ?s) :: u32"
  define N where "N = (if strip then [] else lj_strfmt_wuleb128 ?n)"
  define S where "S = (if strip then [] else ?s)"
  have av: "avail ls = (?h @ N) @ (S @ R)" using ls(2) by (simp add: fmt_header_tl N_def S_def fmt_str_def)
  have "length (avail ls) = 3 + length (lj_strfmt_wuleb128 ?fl) + length N + length S + length R" unfolding av by simp
  then have "13 \<le> length (avail ls)" using ls(3) unfolding fl by simp
  from bcread_want_ok[OF ls(1) this] obtain l1 where l1: "bcread_want 13 ls = Inr ((), l1)" "filled_to 13 ls l1" by blast
  have "length (?h @ N) \<le> 13" using wuleb_max[of ?n] by (simp add: N_def fl)
  from filled_prefix[OF l1(2) av this] obtain r1 where r1: "ls_p l1 = (?h @ N) @ r1" "S @ R = r1 @ concat (ls_in l1)" by blast
  then have p1: "ls_p l1 = BCDUMP_HEAD2 # BCDUMP_HEAD3 # BCDUMP_VERSION # lj_strfmt_wuleb128 ?fl @ (N @ r1)" by simp
  note b = read_bytes4[OF p1]
  let ?l2 = "l1\<lparr>ls_p := N @ r1, ls_flags := ?fl\<rparr>"
  let ?k = "\<lambda>ls. if ?fl AND BCDUMP_F_STRIP \<noteq> 0 then ret True (ls\<lparr>ls_chunkname := e_snew E chunkarg\<rparr>)
       else bnd bcread_uleb128 (\<lambda>len.
            bnd (bcread_need (unat len)) (\<lambda>_.
            bnd (bcread_mem (unat len)) (\<lambda>s ls. ret True (ls\<lparr>ls_chunkname := e_snew E s\<rparr>)))) ls"
  have want: "bcread_want (3 + 5 + 5) ls = Inr ((), l1)" using l1(1) by simp
  have hd: "bcread_header E chunkarg ls = ?k ?l2"
    unfolding bcread_header_def bnd_Inr[of "bcread_want (3 + 5 + 5)", OF want] bnd_Inr[of bcread_byte, OF b(1)]
    by (simp add: bnd_Inr[of bcread_byte, OF b(2)] bnd_Inr[of bcread_byte, OF b(3)] bnd_Inr[of bcread_uleb128, OF b(4)] dump_flags Let_def)
  have a2: "avail ?l2 = N @ S @ R" using r1(2) by (simp add: avail_def)
  have ok2: "input_ok ?l2" using l1(2) ls(1) a2 av by (auto simp: filled_to_def input_ok_def)
  have st: "ls_stack ?l2 = ls_stack ls" using l1(2) by (simp add: filled_to_def)
  show ?thesis
  proof (cases strip)
    case True
    let ?l3 = "?l2\<lparr>ls_chunkname := e_snew E chunkarg\<rparr>"
    have "bcread_header E chunkarg ls = Inr (True, ?l3)" unfolding hd using dump_flags(5)[of strip pt] True by (simp add: ret_def)
    moreover have "avail ?l3 = R" "input_ok ?l3" using a2 ok2 True by (simp_all add: N_def S_def avail_def input_ok_def)
    ultimately show ?thesis using st True by (intro exI[of _ ?l3]) (simp add: dump_name_def)
  next
    case False
    let ?l3 = "?l2\<lparr>ls_p := r1\<rparr>"
    have u: "bcread_uleb128 ?l2 = Inr (?n, ?l3)" using uleb_prefix[of ?l2 ?n r1] False by (simp add: N_def)
    have len: "unat ?n = length ?s" using str_tag(2)[OF n] .
    have a3: "avail ?l3 = ?s @ R" using r1(2) False by (simp add: avail_def S_def)
    have ok3: "input_ok ?l3" using ok2 a2 a3 by (simp add: input_ok_def S_def False)
    have "length ?s \<le> length (avail ?l3)" using a3 by simp
    from bcread_need_ok[OF ok3 this] obtain l4 where l4: "bcread_need (length ?s) ?l3 = Inr ((), l4)" "filled_to (length ?s) ?l3 l4" by blast
    from filled_prefix[OF l4(2) a3] obtain r4 where r4: "ls_p l4 = ?s @ r4" "R = r4 @ concat (ls_in l4)" by blast
    let ?l5 = "l4\<lparr>ls_p := r4\<rparr>"
    have m: "bcread_mem (length ?s) l4 = Inr (?s, ?l5)" using r4(1) by (simp add: bcread_mem_def)
    let ?l6 = "?l5\<lparr>ls_chunkname := e_snew E ?s\<rparr>"
    have ns: "\<not> ?fl AND BCDUMP_F_STRIP \<noteq> 0" using dump_flags(5)[of strip pt] False by simp
    have "bcread_header E chunkarg ls = Inr (True, ?l6)"
      unfolding hd if_not_P[OF ns] bnd_Inr[of bcread_uleb128, OF u] len bnd_Inr[of "bcread_need (length ?s)", OF l4(1)]
        bnd_Inr[of "bcread_mem (length ?s)", OF m] ret_def ..
    moreover have "avail ?l6 = R" using r4(2) by (simp add: avail_def)
    moreover have "input_ok ?l6" using l4(2) a3 \<open>avail ?l6 = R\<close> by (auto simp: filled_to_def input_ok_def)
    ultimately show ?thesis using st False l4(2) by (intro exI[of _ ?l6]) (simp add: dump_name_def filled_to_def)
  qed
qed

text \<open>A reader at the start of a dump whose first byte the caller has looked at.\<close>

definition reader :: "bytes list \<Rightarrow> LexBC" where
  "reader chunks = \<lparr>ls_p = [], ls_in = chunks, ls_eof = False, ls_flags = 0, ls_chunkname = 0, ls_stack = []\<rparr>"

lemma written_last: "\<exists>ps. written pt = ps @ [pt]"
  by (cases pt) simp

lemma block_min: "8 \<le> length (fmt_block E strip pt)"
proof -
  have "0 < length (lj_strfmt_wuleb128 (word_of_nat (length (fmt_body E strip pt)) :: u32))" by simp
  then show ?thesis using fmt_body_min[of E strip pt] unfolding fmt_block_def length_append by linarith
qed

lemma lj_bcread_dump:
  assumes ok: "list_all (body_ok E strip) (written pt)" and n: "length (e_sdata E (pt_chunkname pt)) \<le> LJ_MAX_STR"
    and c: "concat chunks = tl (concat (dump_pieces E strip pt))" "[] \<notin> set chunks" "length (concat chunks) \<le> LJ_MAX_BUF"
  shows "\<exists>p' ls. lj_bcread E chunkarg (reader chunks) = Inr (p', ls) \<and> proto_sim E strip (dump_name E strip chunkarg pt) pt p'"
proof -
  let ?ls = "reader chunks" and ?bl = "concat (map (fmt_block E strip) (written pt))"
  let ?fc = "(dump_flags strip pt, dump_name E strip chunkarg pt)"
  have "fmt_header E strip pt \<noteq> []" by (simp add: fmt_header_def)
  then have av: "avail ?ls = tl (fmt_header E strip pt) @ ?bl @ [0]" using c(1) by (simp add: avail_def reader_def dump_pieces_def)
  have iok: "input_ok ?ls" using c by (simp add: input_ok_def reader_def avail_def)
  obtain ps where ps: "written pt = ps @ [pt]" using written_last by blast
  have "8 \<le> length ?bl" using block_min[of E strip pt] by (simp add: ps)
  then have "9 \<le> length (?bl @ [0])" by simp
  from read_header[OF iok av this n, of chunkarg] obtain l1 where l1: "bcread_header E chunkarg ?ls = Inr (True, l1)" "input_ok l1"
    "avail l1 = ?bl @ [0]" "ls_stack l1 = []" "(ls_flags l1, ls_chunkname l1) = ?fc" by (auto simp: reader_def)
  have "input_size ?ls = length (avail ?ls)" by (simp add: input_size_def avail_def)
  moreover have "length (written pt) \<le> length ?bl"
  proof -
    have "length xs \<le> length (concat (map (fmt_block E strip) xs))" for xs
    proof (induction xs)
      case (Cons x xs)
      then show ?case using block_min[of E strip x] by simp
    qed simp
    then show ?thesis .
  qed
  moreover have "length ?bl \<le> length (avail ?ls)" unfolding av by simp
  ultimately have "length (written pt) \<le> input_size ?ls" by linarith
  then obtain m where "input_size ?ls = length (written pt) + m" unfolding le_iff_add by blast
  then have m: "input_size ?ls + 1 = length (written pt) + Suc m" by linarith
  have fc: "fst ?fc AND BCDUMP_F_BE = 0" "fst ?fc AND BCDUMP_F_STRIP \<noteq> 0 \<longleftrightarrow> strip" using dump_flags(4,5) by simp_all
  from reads_blocksD[OF reads_tree(1)[OF fc ok] l1(2,3,4,5), of "Suc m"] obtain l2 cs where l2:
    "bcread_protos (length (written pt) + Suc m) E l1 = bcread_protos (Suc m) E l2" "input_ok l2" "avail l2 = [0]" "ls_stack l2 = cs @ []"
    "list_all2 (proto_sim E strip (snd ?fc)) [pt] cs" by blast
  obtain p' where p': "cs = [p']" "proto_sim E strip (snd ?fc) pt p'" using l2(5) by (auto simp: list_all2_Cons1)
  from read_footer[OF l2(2,3), of m E] obtain l3 where l3: "bcread_protos (Suc m) E l2 = Inr ((), l3)" "ls_p l3 = []" "ls_stack l3 = [p']"
    using l2(4) p'(1) by auto
  have "?ls\<lparr>ls_stack := []\<rparr> = ?ls" by (simp add: reader_def)
  moreover have "bcread_protos (input_size ?ls + 1) E l1 = Inr ((), l3)" unfolding m l2(1) by (rule l3(1))
  ultimately have "lj_bcread E chunkarg ?ls = Inr (p', l3\<lparr>ls_stack := []\<rparr>)"
    using l1(1) l3(2,3) by (simp add: lj_bcread_def bnd_Inr del: bcread_protos.simps)
  then show ?thesis using p'(2) by auto
qed

end
