(* ===== verification/LJ_BCSafe.thy ===== *)
theory LJ_BCSafe
  imports LJ_BCStream
begin

text \<open>
  The reader on any input: it ends, refuses a wrong header, and the prototypes that it returns are well formed.
\<close>

section \<open>Well-formed prototypes\<close>

fun proto_typed :: "bc_env \<Rightarrow> GCproto \<Rightarrow> bool" and kgcs_typed :: "bc_env \<Rightarrow> KGC list \<Rightarrow> bool" where
  "proto_typed E (GCproto fl np fs sbc bc uv kgc kn tr cn fline nline dbg ui vi) \<longleftrightarrow>
     bc \<noteq> [] \<and> hd bc = BCINS_AD (if fl AND PROTO_VARARG \<noteq> 0 then BC_FUNCV else BC_FUNCF) fs 0 \<and>
     length uv \<le> 255 \<and> kgcs_typed E kgc \<and> tr = 0 \<and>
     unat ((sbc - 1) * 4) = 4 * (length bc - 1) \<and>
     proto_bytes (length bc) (length kgc) (length kn) (length uv) (length dbg) < 2 ^ 32"
| "kgcs_typed E [] \<longleftrightarrow> True"
| "kgcs_typed E (k # ks) \<longleftrightarrow>
     (case k of
        KGC_PROTO p \<Rightarrow> proto_typed E p
      | KGC_TAB t \<Rightarrow> tab_ok (e_hash E) t
      | KGC_STR r \<Rightarrow> r \<in> range (e_snew E)
      | _ \<Rightarrow> True) \<and> kgcs_typed E ks"

definition kgc_typed :: "bc_env \<Rightarrow> KGC \<Rightarrow> bool" where "kgc_typed E k \<longleftrightarrow> kgcs_typed E [k]"

lemma kgc_typed [simp]:
  "kgc_typed E (KGC_PROTO p) \<longleftrightarrow> proto_typed E p" "kgc_typed E (KGC_TAB t) \<longleftrightarrow> tab_ok (e_hash E) t" "kgc_typed E (KGC_STR r) \<longleftrightarrow> r \<in> range (e_snew E)"
  "kgc_typed E (KGC_I64 q)" "kgc_typed E (KGC_U64 q)" "kgc_typed E (KGC_COMPLEX q im)"
  by (simp_all add: kgc_typed_def)

lemma kgcs_typed_Cons: "kgcs_typed E (k # ks) \<longleftrightarrow> kgc_typed E k \<and> kgcs_typed E ks"
  by (cases k) simp_all

text \<open>
  A reader that keeps the stack well formed, takes its bytes from the input, and ends: with a value with \<open>Q\<close>, or with an
  outcome that is neither a loop without end nor the error for a header that is not the one of a dump.
\<close>

definition other_error :: "ErrMsg \<Rightarrow> bool" where
  [simp]: "other_error e \<longleftrightarrow> e \<noteq> NO_RETURN \<and> e \<noteq> LJ_ERR_BCFMT"

definition returns :: "bc_env \<Rightarrow> 'a rd \<Rightarrow> ('a \<Rightarrow> bool) \<Rightarrow> bool" where
  "returns E r Q \<longleftrightarrow>
     (\<forall>ls. list_all (proto_typed E) (ls_stack ls) \<longrightarrow>
        (case r ls of
           Inl e \<Rightarrow> other_error e
         | Inr (v, ls') \<Rightarrow> Q v \<and> input_size ls' \<le> input_size ls \<and> list_all (proto_typed E) (ls_stack ls')))"

lemma returns_ret [intro!]: "Q v \<Longrightarrow> returns E (ret v) Q"
  by (simp add: returns_def ret_def)

lemma returns_throw [intro!]: "other_error e \<Longrightarrow> returns E (throw e) Q"
  by (simp add: returns_def throw_def)

lemma returnsD:
  "returns E r Q \<Longrightarrow> list_all (proto_typed E) (ls_stack ls) \<Longrightarrow> r ls = Inr (v, ls') \<Longrightarrow>
     Q v \<and> input_size ls' \<le> input_size ls \<and> list_all (proto_typed E) (ls_stack ls')"
  "returns E r Q \<Longrightarrow> list_all (proto_typed E) (ls_stack ls) \<Longrightarrow> r ls \<noteq> Inl NO_RETURN \<and> r ls \<noteq> Inl LJ_ERR_BCFMT"
  unfolding returns_def by (auto split: sum.splits prod.splits)

lemma returns_bnd:
  assumes r: "returns E r Q" and f: "\<And>v. Q v \<Longrightarrow> returns E (f v) R"
  shows "returns E (bnd r f) R"
  unfolding returns_def
proof (intro allI impI)
  fix ls :: LexBC assume st: "list_all (proto_typed E) (ls_stack ls)"
  show "case bnd r f ls of Inl e \<Rightarrow> other_error e
    | Inr (v, ls') \<Rightarrow> R v \<and> input_size ls' \<le> input_size ls \<and> list_all (proto_typed E) (ls_stack ls')"
  proof (cases "r ls")
    case (Inl e)
    then show ?thesis using returnsD(2)[OF r st] by (simp add: bnd_def)
  next
    case (Inr p)
    obtain v l1 where p: "r ls = Inr (v, l1)" using Inr by (cases p) simp
    note d = returnsD(1)[OF r st p]
    have "returns E (f v) R" using f d by blast
    then show ?thesis using d unfolding returns_def bnd_Inr[of r, OF p] by (fastforce split: sum.splits)
  qed
qed

lemma returns_any: "returns E r Q \<Longrightarrow> returns E r (\<lambda>_. True)"
  unfolding returns_def by (auto split: sum.splits)

lemma returns_weaken: "returns E r Q \<Longrightarrow> (\<And>v. Q v \<Longrightarrow> R v) \<Longrightarrow> returns E r R"
  unfolding returns_def by (fastforce split: sum.splits)

lemma returns_local: "(\<And>l0. returns E (f l0) Q) \<Longrightarrow> (\<And>ls. r ls = f ls ls) \<Longrightarrow> returns E r Q"
  unfolding returns_def by simp

section \<open>The input\<close>

lemma ruleb_loop_shorter: "ruleb128_loop v sh p = Some (x, q) \<Longrightarrow> length q < length p"
  by (induction v sh p rule: ruleb128_loop.induct) (fastforce simp: Let_def split: if_splits)+

lemma ruleb_shorter: "lj_buf_ruleb128 p = Some (x, q) \<Longrightarrow> length q < length p"
  by (cases p) (auto simp: lj_buf_ruleb128_def Let_def split: if_splits dest!: ruleb_loop_shorter)

lemma uleb33_loop_shorter: "uleb33_loop v sh p = Some (x, q) \<Longrightarrow> length q < length p"
  by (induction v sh p rule: uleb33_loop.induct) (fastforce simp: Let_def split: if_splits)+

lemma ruleb33_shorter: "ruleb128_33 p = Some (x, q) \<Longrightarrow> length q < length p"
  by (cases p) (auto simp: ruleb128_33_def Let_def simp del: uleb33_loop.simps split: if_splits dest!: uleb33_loop_shorter)

lemma fill_loop_size:
  "fill_loop len need p bs = Inr (q, cs, e) \<Longrightarrow> length q + length (concat cs) = length p + length (concat bs)"
  "fill_loop len need p bs \<noteq> Inl NO_RETURN \<and> fill_loop len need p bs \<noteq> Inl LJ_ERR_BCFMT"
  by (induction len need p bs rule: fill_loop.induct) (auto split: if_splits)

lemma returns_fill: "returns E (bcread_fill len need) (\<lambda>_. True)"
  unfolding returns_def
proof (intro allI impI)
  fix ls :: LexBC assume st: "list_all (proto_typed E) (ls_stack ls)"
  show "case bcread_fill len need ls of Inl e \<Rightarrow> other_error e
    | Inr (v, ls') \<Rightarrow> True \<and> input_size ls' \<le> input_size ls \<and> list_all (proto_typed E) (ls_stack ls')"
  proof (cases "fill_loop len need (ls_p ls) (ls_in ls)")
    case (Inl e)
    then show ?thesis using fill_loop_size(2)[of len need "ls_p ls" "ls_in ls"] by (simp add: bcread_fill_def)
  next
    case (Inr r)
    obtain q cs e where r: "r = (q, cs, e)" by (cases r)
    show ?thesis using st fill_loop_size(1)[OF Inr[unfolded r]] by (simp add: bcread_fill_def input_size_def Inr r)
  qed
qed

lemma returns_skip: "returns E (\<lambda>ls. Inr (v, ls)) (\<lambda>x. x = v)"
  by (simp add: returns_def)

lemma returns_need: "returns E (bcread_need len) (\<lambda>_. True)" and returns_want: "returns E (bcread_want len) (\<lambda>_. True)"
  using returns_fill[of E len] unfolding returns_def bcread_need_def bcread_want_def by auto

lemma returns_mem: "returns E (bcread_mem n) (\<lambda>bs. length bs = n)"
  by (simp add: returns_def bcread_mem_def input_size_def)

lemma returns_byte: "returns E bcread_byte (\<lambda>_. True)"
  by (simp add: returns_def bcread_byte_def input_size_def split: list.splits)

lemma returns_uleb: "returns E bcread_uleb128 (\<lambda>_. True)"
  by (auto simp: returns_def bcread_uleb128_def input_size_def split: option.splits dest!: ruleb_shorter)

lemma returns_uleb33: "returns E bcread_uleb128_33 (\<lambda>_. True)"
  by (auto simp: returns_def bcread_uleb128_33_def input_size_def split: option.splits dest!: ruleb33_shorter)

lemma uleb_shorter: "bcread_uleb128 ls = Inr (v, ls') \<Longrightarrow> input_size ls' < input_size ls \<and> ls_stack ls' = ls_stack ls"
  by (auto simp: bcread_uleb128_def input_size_def split: option.splits dest!: ruleb_shorter)

lemmas returns_basic = returns_mem returns_byte returns_uleb returns_uleb33 returns_need returns_want

section \<open>Tables and constants\<close>

lemma tab_ok_array:
  assumes ok: "tab_ok h t" and l: "length xs = length (t_array t)"
  shows "tab_ok h (t\<lparr>t_array := xs\<rparr>)"
proof -
  let ?t = "t\<lparr>t_array := xs\<rparr>"
  have as: "t_asize ?t = t_asize t" using l by (simp add: t_asize_def)
  then have "inarray ?t = inarray t" by (auto simp: inarray_def)
  moreover have "hashkey h ?t = hashkey h t" by (rule hashkey_hmask) simp
  ultimately show ?thesis using ok as unfolding tab_ok_def by auto
qed

lemma returns_ktabk: "returns E (bcread_ktabk E o1) (\<lambda>_. True)"
  unfolding bcread_ktabk_def by (auto intro!: returns_bnd[OF returns_uleb] returns_bnd[OF returns_mem])

lemma returns_karray: "tab_ok h t \<Longrightarrow> returns E (bcread_karray E n i t) (tab_ok h)"
proof (induction n arbitrary: i t)
  case 0
  then show ?case by auto
next
  case (Suc n)
  have "tab_ok h (slot_put (Arr i) v t)" for v
    using tab_ok_array[OF Suc.prems, of "(t_array t)[i := v]"] by (simp add: slot_put_def)
  then show ?case by (auto intro!: returns_bnd[OF returns_ktabk] Suc.IH)
qed

lemma tab_set_outcome:
  assumes "tab_ok h t"
  shows "(\<exists>e. lj_tab_set 2 h t k = Inl e \<and> other_error e) \<or>
    (\<exists>s t'. lj_tab_set 2 h t k = Inr (s, t') \<and> (\<forall>v. tab_ok h (slot_put s v t')))"
proof (cases "key_ok k")
  case True
  have two: "(2::nat) = Suc (Suc 0)" by simp
  have "entered_or_full h t k (lj_tab_set 2 h t k)" unfolding two by (rule lj_tab_set_entered[OF assms True])
  then show ?thesis using slot_put_ok(1)[OF _ _ True] by (auto simp: entered_or_full_def entered_def)
next
  case False
  then show ?thesis by (simp add: lj_tab_set_def set_by_err)
qed

lemma returns_khash: "tab_ok (e_hash E) t \<Longrightarrow> returns E (bcread_khash E n t) (tab_ok (e_hash E))"
proof (induction n arbitrary: t)
  case 0
  then show ?case by auto
next
  case (Suc n)
  have "returns E (case lj_tab_set 2 (e_hash E) t key of Inl e \<Rightarrow> throw e
      | Inr (s, t) \<Rightarrow> bnd (bcread_ktabk E (slot_val t s)) (\<lambda>v. bcread_khash E n (slot_put s v t))) (tab_ok (e_hash E))" for key
    using tab_set_outcome[OF Suc.prems, of key]
    by (elim disjE exE conjE) (auto intro!: returns_bnd[OF returns_ktabk] Suc.IH)
  then show ?case by (auto intro!: returns_bnd[OF returns_ktabk])
qed

lemma returns_ktab: "returns E (bcread_ktab E) (tab_ok (e_hash E))"
proof -
  have "returns E (case lj_tab_new n b of Inl e \<Rightarrow> throw e | Inr t \<Rightarrow> bnd (bcread_karray E n 0 t) (bcread_khash E m)) (tab_ok (e_hash E))" for n m b
  proof (cases "lj_tab_new n b")
    case (Inl e)
    then show ?thesis using lj_tab_new_error[of n b e] by auto
  next
    case (Inr t)
    show ?thesis unfolding Inr
      by (simp, rule returns_bnd[OF returns_karray[OF lj_tab_new_ok(1)[OF Inr]] returns_khash])
  qed
  then show ?thesis unfolding bcread_ktab_def by (intro returns_bnd[OF returns_uleb]) simp
qed

lemma returns_u64: "returns E bcread_u64 (\<lambda>_. True)"
  unfolding bcread_u64_def by (auto intro!: returns_bnd[OF returns_uleb])

lemma returns_pop: "returns E bcread_pop (proto_typed E)"
  by (simp add: returns_def bcread_pop_def input_size_def split: list.splits)

lemma returns_kgc1: "returns E (bcread_kgc1 E) (kgc_typed E)"
  unfolding bcread_kgc1_def
  by (auto intro!: returns_bnd[OF returns_uleb] returns_bnd[OF returns_mem] returns_bnd[OF returns_ktab] returns_bnd[OF returns_u64]
      returns_bnd[OF returns_pop])

lemma returns_kgc: "returns E (bcread_kgc E n) (\<lambda>ks. length ks = n \<and> kgcs_typed E ks)"
proof (induction n)
  case (Suc n)
  show ?case unfolding bcread_kgc.simps 
    by (rule returns_bnd[OF returns_kgc1], rule returns_bnd[OF Suc.IH]) (auto simp: kgcs_typed_Cons simp del: kgcs_typed.simps(2))
qed auto

lemma returns_knum1: "returns E bcread_knum1 (\<lambda>_. True)"
proof (rule returns_local)
  let ?f = "\<lambda>l0 :: LexBC. if ls_p l0 = [] then throw UNDEFINED
      else let isnum = (hd (ls_p l0) AND 1 \<noteq> 0) in
        bnd bcread_uleb128_33 (\<lambda>lo.
          if isnum then bnd bcread_uleb128 (\<lambda>hi. ret (u64_of_lohi lo hi)) else ret (setintV lo))"
  show "returns E (?f l0) (\<lambda>_. True)" for l0
    by (auto simp: Let_def intro!: returns_bnd[OF returns_uleb33] returns_bnd[OF returns_uleb])
  show "bcread_knum1 ls = ?f ls ls" for ls by (simp add: bcread_knum1_def throw_def)
qed

lemma returns_knum: "returns E (bcread_knum n) (\<lambda>ks. length ks = n)"
proof (induction n)
  case (Suc n)
  show ?case unfolding bcread_knum.simps by (rule returns_bnd[OF returns_knum1], rule returns_bnd[OF Suc.IH]) auto
qed auto

section \<open>Prototypes and dumps\<close>

lemma u32s_length: "length bs = 4 * n \<Longrightarrow> length (u32s_of bs) = n"
proof (induction n arbitrary: bs)
  case (Suc n)
  then obtain a b c d cs where "bs = a # b # c # d # cs" "length cs = 4 * n" by (auto simp: length_Suc_conv numeral_eq_Suc)
  then show ?case using Suc.IH by simp
qed simp

lemma u16s_length: "length bs = 2 * n \<Longrightarrow> length (u16s_of bs) = n"
proof (induction n arbitrary: bs)
  case (Suc n)
  then obtain a b cs where "bs = a # b # cs" "length cs = 2 * n" by (auto simp: length_Suc_conv)
  then show ?case using Suc.IH by simp
qed simp

lemma swap_length [simp]: "length (swap2 n bs) = length bs" "length (swap4 n bs) = length bs"
  by (induction n bs rule: swap2.induct; simp) (induction n bs rule: swap4.induct; simp)

definition header_ins :: "u8 \<Rightarrow> u8 \<Rightarrow> BCIns" where
  "header_ins fl fs = BCINS_AD (if fl AND PROTO_VARARG \<noteq> 0 then BC_FUNCV else BC_FUNCF) fs 0"

lemma returns_bytecode:
  "returns E (bcread_bytecode fl fs sizebc) (\<lambda>bc. bc \<noteq> [] \<and> hd bc = header_ins fl fs \<and> 4 * (length bc - 1) = unat ((sizebc - 1) * 4))"
proof (rule returns_local)
  let ?f = "\<lambda>l0 :: LexBC. bnd (bcread_mem (unat ((sizebc - 1) * 4))) (\<lambda>bs. let bc = u32s_of bs in
       if bcread_swap l0 \<and> length bc < unat (sizebc - 1) then throw UNDEFINED
       else ret (header_ins fl fs # (if bcread_swap l0 then map lj_bswap bc else bc)))"
  have "unat ((sizebc - 1) * 4) = 4 * (unat ((sizebc - 1) * 4) div 4)"
  proof -
    have "(4 :: nat) dvd unat ((sizebc - 1) * 4)" by (simp only: unat_word_ariths(2)) (simp add: dvd_mod)
    then show ?thesis by simp
  qed
  then have l: "length bs = unat ((sizebc - 1) * 4) \<Longrightarrow> length (u32s_of bs) = unat ((sizebc - 1) * 4) div 4" for bs
    by (intro u32s_length) simp
  show "returns E (?f l0) (\<lambda>bc. bc \<noteq> [] \<and> hd bc = header_ins fl fs \<and> 4 * (length bc - 1) = unat ((sizebc - 1) * 4))" for l0
    by (rule returns_bnd[OF returns_mem]) (use l \<open>unat ((sizebc - 1) * 4) = 4 * _\<close> in \<open>auto simp: Let_def\<close>)
  show "bcread_bytecode fl fs sizebc ls = ?f ls ls" for ls unfolding bcread_bytecode_def header_ins_def ..
qed

lemma returns_uv: "returns E (bcread_uv n) (\<lambda>uv. length uv = n)"
proof (rule returns_local)
  let ?f = "\<lambda>l0 :: LexBC. bnd (bcread_mem (n * 2)) (\<lambda>bs. ret (u16s_of (if bcread_swap l0 then swap2 n bs else bs)))"
  show "returns E (?f l0) (\<lambda>uv. length uv = n)" for l0
    by (rule returns_bnd[OF returns_mem]) (auto simp: u16s_length)
  show "bcread_uv n ls = ?f ls ls" for ls by (simp add: bcread_uv_def)
qed

lemma returns_dbg: "returns E (bcread_dbg numline sizebc n) (\<lambda>dbg. length dbg = n)"
proof (rule returns_local)
  let ?f = "\<lambda>l0 :: LexBC. bnd (bcread_mem n) (\<lambda>bs. let m = unat (sizebc - 1) in
       if bcread_swap l0 \<and> sint numline \<ge> 256 then
         if sint numline < 65536 then (if 2 * m > n then throw UNDEFINED else ret (swap2 m bs))
         else (if 4 * m > n then throw UNDEFINED else ret (swap4 m bs))
       else ret bs)"
  show "returns E (?f l0) (\<lambda>dbg. length dbg = n)" for l0
    unfolding Let_def by (rule returns_bnd[OF returns_mem]) auto
  show "bcread_dbg numline sizebc n ls = ?f ls ls" for ls by (simp add: bcread_dbg_def)
qed

lemma returns_lines: "returns E bcread_lines (\<lambda>_. True)"
proof (rule returns_local)
  let ?f = "\<lambda>l0 :: LexBC. if ls_flags l0 AND BCDUMP_F_STRIP = 0 then
        bnd bcread_uleb128 (\<lambda>sizedbg.
          if sizedbg \<noteq> 0 then
            bnd bcread_uleb128 (\<lambda>firstline. bnd bcread_uleb128 (\<lambda>numline. ret (sizedbg, firstline, numline)))
          else ret (0, 0, 0))
      else ret (0, 0, 0)"
  show "returns E (?f l0) (\<lambda>_. True)" for l0 by (auto intro!: returns_bnd[OF returns_uleb])
  show "bcread_lines ls = ?f ls ls" for ls by (simp add: bcread_lines_def)
qed

lemma returns_end:
  assumes "\<And>dbg ui vi. length dbg = sizedbg \<Longrightarrow> Q (p dbg ui vi)"
  shows "returns E (bcread_end sizebc sizeuv sizedbg numline p) Q"
  unfolding bcread_end_def Let_def
  using assms by (auto intro!: returns_bnd[OF returns_dbg] split: option.splits)

lemma returns_kgcs: "returns E (bcread_kgcs E room n) (\<lambda>ks. n \<le> room \<and> length ks = n \<and> kgcs_typed E ks)"
proof (cases "n \<le> room")
  case True
  then show ?thesis unfolding bcread_kgcs_def by (simp add: returns_kgc)
next
  case False
  show ?thesis unfolding bcread_kgcs_def if_not_P[OF False] by (rule returns_bnd[OF returns_kgc]) auto
qed

text \<open>What the checks of the model say of the size of the object: nothing but the number of instructions may wrap around.\<close>

lemma fits_exact:
  fixes a k U E D d T :: nat
  assumes "K = (a + 4 * k + 7) mod 2 ^ 32 div 8 * 8" "4 * k + 4 \<le> K" "a \<le> T" "T < 2 ^ 32" "4 dvd a"
    and "U = (K + 8 * n) mod 2 ^ 32" "K + 8 * n \<le> T" "D = (U + e) mod 2 ^ 32" "e \<le> 512" "T = (D + d) mod 2 ^ 32"
    and "d = 0 \<or> U \<le> D \<and> D + d \<le> T" "d < 2 ^ 32"
  shows "(a + 4 * k + 7) div 8 * 8 + 8 * n + e + d < 2 ^ 32"
proof -
  have pow: "(2 :: nat) ^ 32 = 4294967296" by simp
  note h = assms[unfolded pow]
  obtain b where b: "a = 4 * b" using h(5) by blast
  have k: "k < 1073741823" using h(2,4,7) by linarith
  have b': "b < 1073741824" using h(3,4) b by linarith
  have s: "a + 4 * k + 7 < 4294967296"
  proof (rule ccontr)
    assume "\<not> a + 4 * k + 7 < 4294967296"
    moreover have "a + 4 * k + 7 - 4294967296 < 4294967296" using k b b' by linarith
    ultimately have "(a + 4 * k + 7) mod 4294967296 = a + 4 * k + 7 - 4294967296" using le_mod_geq[of 4294967296 "a + 4 * k + 7"] by simp
    then have "K \<le> a + 4 * k + 7 - 4294967296" using h(1) by (simp add: div_times_less_eq_dividend)
    then show False using h(2) b b' by linarith
  qed
  then have K: "K = (a + 4 * k + 7) div 8 * 8" using h(1) by simp
  have U: "U = K + 8 * n" using h(4,6,7) by simp
  have D: "D = U + e"
  proof (rule ccontr)
    assume "D \<noteq> U + e"
    then have "4294967296 \<le> U + e" using h(8) by (metis mod_less not_le)
    then have "D = U + e - 4294967296" using h(4,7,8,9) U by (simp add: mod_if)
    moreover have "U \<le> D" using h(7,8,10,11) U by auto
    ultimately show False using h(9) \<open>4294967296 \<le> U + e\<close> h(4,7) U by linarith
  qed
  have "U + e < 4294967296" using D h(8) by (metis mod_less_divisor zero_less_numeral)
  then show ?thesis using K U D h(4,11) unfolding pow by linarith
qed

lemma fits_typed:
  fixes sizeuv :: u8
  assumes ps: "proto_size sizebc k n (ucast sizeuv) d = (ofsk, ofsuv, ofsdbg, sizept)"
    and h: "head_fits sizebc k (ucast sizeuv) ofsk ofsuv sizept" and r: "unat k \<le> kgc_room k ofsk sizept"
    and t: "tail_fits n d ofsk ofsuv ofsdbg sizept" and bc: "4 * (nbc - 1) = unat ((sizebc - 1) * 4)" "0 < nbc"
  shows "proto_bytes nbc (unat k) (unat n) (unat sizeuv) (unat d) < 2 ^ 32"
proof -
  let ?u = "ucast sizeuv :: u32"
  have e: "ofsk = (64 + sizebc * 4 + k * 4 + 7) AND NOT 7" "ofsuv = ofsk + n * 8"
    "ofsdbg = ofsuv + ((?u + 1) AND NOT 1) * 2" "sizept = ofsdbg + d"
    using ps by (auto simp only: proto_size_def Let_def prod.inject)
  let ?m = "unat ((sizebc - 1) * 4)"
  have m: "68 + ?m \<le> unat sizept" and g: "4 * unat (k + 1) \<le> unat ofsk" using h by (simp_all add: head_fits_def)
  have k4: "4 * unat k \<le> unat ofsk"
  proof (cases "unat k = 0")
    case False
    then show ?thesis using r by (simp add: kgc_room_def split: if_splits)
  qed simp
  then have "unat k < 1073741824" using u32_lt[of ofsk] by linarith
  then have k1: "unat (k + 1) = unat k + 1" "unat (k * 4) = 4 * unat k" by (simp_all add: unat_word_ariths(1,2) mod_less)
  have "sizebc * 4 = (sizebc - 1) * 4 + 4" by (simp add: algebra_simps)
  moreover have "?m + 4 < 4294967296" using m u32_lt[of sizept] by linarith
  ultimately have s4: "unat (sizebc * 4) = ?m + 4" by (simp only: unat_word_ariths(1)) simp
  have nb: "nbc * 4 = ?m + 4" using bc by linarith
  have u: "unat ?u = unat sizeuv" "unat sizeuv \<le> 255" using u8_lt_256[of sizeuv] by (simp add: unat_ucast_up, linarith)
  have "unat (64 + sizebc * 4 + k * 4 + 7) = (64 + (?m + 4) + 4 * unat k + 7) mod 2 ^ 32"
    by (simp only: unat_word_ariths(1) s4 k1 mod_simps) simp
  then have "unat ofsk = (64 + nbc * 4 + 4 * unat k + 7) mod 2 ^ 32 div 8 * 8" unfolding e(1) align_word nb by (simp only: add.assoc)
  moreover have "4 * unat k + 4 \<le> unat ofsk" using g unfolding k1 by simp
  moreover have "64 + nbc * 4 \<le> unat sizept" using m nb by linarith
  moreover have "unat sizept < 2 ^ 32" using u32_lt[of sizept] by simp
  moreover have "4 dvd 64 + nbc * 4" by simp
  moreover have "unat ofsuv = (unat ofsk + 8 * unat n) mod 2 ^ 32"
    unfolding e(2) by (simp only: unat_word_ariths(1,2)) (simp add: mult.commute mod_simps)
  moreover have "unat ofsk + 8 * unat n \<le> unat sizept" using t by (simp add: tail_fits_def)
  moreover have "unat ofsdbg = (unat ofsuv + (unat sizeuv + 1) div 2 * 2 * 2) mod 2 ^ 32"
  proof -
    have "unat (?u + 1) = unat sizeuv + 1" using u by (simp add: unat_word_ariths(1))
    then have "unat ((?u + 1) AND NOT 1) = (unat sizeuv + 1) div 2 * 2" by (simp only: align_word)
    then show ?thesis unfolding e(3) by (simp only: unat_word_ariths(1,2)) (simp add: mod_simps)
  qed
  moreover have "(unat sizeuv + 1) div 2 * 2 * 2 \<le> 512" using u(2) by linarith
  moreover have "unat sizept = (unat ofsdbg + unat d) mod 2 ^ 32" unfolding e(4) by (simp add: unat_word_ariths(1))
  moreover have "unat d = 0 \<or> unat ofsuv \<le> unat ofsdbg \<and> unat ofsdbg + unat d \<le> unat sizept"
    using t by (auto simp: tail_fits_def word_le_nat_alt unat_eq_zero)
  moreover have "unat d < 2 ^ 32" using u32_lt[of d] by simp
  ultimately have "(64 + nbc * 4 + 4 * unat k + 7) div 8 * 8 + 8 * unat n + (unat sizeuv + 1) div 2 * 2 * 2 + unat d < 2 ^ 32"
    by (rule fits_exact)
  then show ?thesis by (simp add: proto_bytes_def mult.commute)
qed

lemma returns_proto: "returns E (lj_bcread_proto E) (proto_typed E)"
proof -
  have uv: "unat (x :: u8) \<le> 255" for x using u8_lt_256[of x] by linarith
  note b = returns_bnd[OF returns_byte] and u = returns_bnd[OF returns_uleb]
  show ?thesis
    unfolding lj_bcread_proto_def
  proof (rule b, rule b, rule b, rule b, rule u, rule u, rule u, rule returns_bnd[OF returns_lines])
    fix fl np fs sizeuv :: u8 and sizekgc sizekn nbc :: u32 and l :: "u32 \<times> u32 \<times> u32"
    obtain sizedbg firstline numline where l: "l = (sizedbg, firstline, numline)" by (cases l)
    obtain ofsk ofsuv ofsdbg sizept where ps: "proto_size (nbc + 1) sizekgc sizekn (ucast sizeuv) sizedbg = (ofsk, ofsuv, ofsdbg, sizept)"
      by (cases "proto_size (nbc + 1) sizekgc sizekn (ucast sizeuv) sizedbg")
    show "returns E (case l of (sizedbg, firstline, numline) \<Rightarrow>
       let sizebc = nbc + 1; (ofsk, ofsuv, ofsdbg, sizept) = proto_size sizebc sizekgc sizekn (ucast sizeuv) sizedbg in
       if \<not> head_fits sizebc sizekgc (ucast sizeuv) ofsk ofsuv sizept then throw UNDEFINED else
       bnd (bcread_bytecode fl fs sizebc) (\<lambda>bc. bnd (bcread_uv (unat sizeuv)) (\<lambda>uv.
       bnd (bcread_kgcs E (kgc_room sizekgc ofsk sizept) (unat sizekgc)) (\<lambda>kgc.
         if \<not> tail_fits sizekn sizedbg ofsk ofsuv ofsdbg sizept then throw UNDEFINED else
         bnd (bcread_knum (unat sizekn)) (\<lambda>kn ls. bcread_end sizebc (unat sizeuv) (unat sizedbg) numline
           (GCproto fl np fs sizebc bc uv kgc kn 0 (ls_chunkname ls) firstline numline) ls))))) (proto_typed E)"
    proof (cases "head_fits (nbc + 1) sizekgc (ucast sizeuv) ofsk ofsuv sizept")
      case h: True
      then have n: "\<not> \<not> head_fits (nbc + 1) sizekgc (ucast sizeuv) ofsk ofsuv sizept" by simp
      show ?thesis unfolding l prod.case Let_def ps if_not_P[OF n]
      proof (rule returns_bnd[OF returns_bytecode], rule returns_bnd[OF returns_uv], rule returns_bnd[OF returns_kgcs])
        fix bc kgc and uv :: "u16 list"
        assume bc: "bc \<noteq> [] \<and> hd bc = header_ins fl fs \<and> 4 * (length bc - 1) = unat ((nbc + 1 - 1) * 4)"
          and uvs: "length uv = unat sizeuv"
          and kgc: "unat sizekgc \<le> kgc_room sizekgc ofsk sizept \<and> length kgc = unat sizekgc \<and> kgcs_typed E kgc"
        show "returns E (if \<not> tail_fits sizekn sizedbg ofsk ofsuv ofsdbg sizept then throw UNDEFINED else
         bnd (bcread_knum (unat sizekn)) (\<lambda>kn ls. bcread_end (nbc + 1) (unat sizeuv) (unat sizedbg) numline
           (GCproto fl np fs (nbc + 1) bc uv kgc kn 0 (ls_chunkname ls) firstline numline) ls)) (proto_typed E)"
        proof (cases "tail_fits sizekn sizedbg ofsk ofsuv ofsdbg sizept")
          case t: True
          have sz: "proto_bytes (length bc) (length kgc) (unat sizekn) (length uv) (unat sizedbg) < 2 ^ 32"
            using fits_typed[OF ps h _ t, of "length bc"] bc kgc uvs by simp
          have "returns E (\<lambda>ls. bcread_end (nbc + 1) (unat sizeuv) (unat sizedbg) numline
           (GCproto fl np fs (nbc + 1) bc uv kgc kn 0 (ls_chunkname ls) firstline numline) ls) (proto_typed E)" if "length kn = unat sizekn" for kn
            by (rule returns_local[where f = "\<lambda>l0. bcread_end (nbc + 1) (unat sizeuv) (unat sizedbg) numline
              (GCproto fl np fs (nbc + 1) bc uv kgc kn 0 (ls_chunkname l0) firstline numline)"])
              (use sz bc kgc uvs uv[of sizeuv] that in \<open>auto simp: header_ins_def intro!: returns_end\<close>)
          then show ?thesis using t by (simp only: simp_thms if_False) (rule returns_bnd[OF returns_knum])
        qed auto
      qed
    qed (auto simp: l ps)
  qed
qed

text \<open>Each round of the loop takes at least one byte of the input, so the fuel of the model is enough for any input.\<close>

lemma protos_return:
  "input_size ls < n \<Longrightarrow> list_all (proto_typed E) (ls_stack ls) \<Longrightarrow>
     (case bcread_protos n E ls of Inl e \<Rightarrow> other_error e | Inr (v, ls') \<Rightarrow> list_all (proto_typed E) (ls_stack ls'))"
proof (induction n arbitrary: ls)
  case (Suc n)
  note st = Suc.prems(2)
  show ?case
  proof (cases "ls_p ls \<noteq> [] \<and> hd (ls_p ls) = 0")
    case True
    then show ?thesis using st by simp
  next
    case c: False
    show ?thesis
    proof (cases "bcread_want 5 ls")
      case (Inl e)
      then show ?thesis using returnsD(2)[OF returns_want st, of 5] unfolding bcread_protos.simps(2) if_not_P[OF c] by (simp add: bnd_def)
    next
      case (Inr x)
      then obtain l1 where w: "bcread_want 5 ls = Inr ((), l1)" by (cases x) simp
      note d1 = returnsD(1)[OF returns_want st w]
      show ?thesis
      proof (cases "bcread_uleb128 l1")
        case (Inl e)
        then show ?thesis using returnsD(2)[OF returns_uleb, of E l1] d1 w
          unfolding bcread_protos.simps(2) if_not_P[OF c] by (simp add: bnd_def)
      next
        case (Inr y)
        then obtain len l2 where u: "bcread_uleb128 l1 = Inr (len, l2)" by (cases y) simp
        note d2 = uleb_shorter[OF u]
        have s2: "list_all (proto_typed E) (ls_stack l2)" using d1 d2 by simp
        let ?rest = "bnd (bcread_need (unat len)) (\<lambda>_ ls0. bnd (lj_bcread_proto E) (\<lambda>pt ls.
              if length (ls_p ls) + unat len \<noteq> length (ls_p ls0) then Inl LJ_ERR_BCBAD
              else bcread_protos n E (ls\<lparr>ls_stack := pt # ls_stack ls\<rparr>)) ls0)"
        have e: "bcread_protos (Suc n) E ls = (if len = 0 then ret () l2 else ?rest l2)"
          unfolding bcread_protos.simps(2) if_not_P[OF c] by (simp add: bnd_Inr[of "bcread_want 5", OF w] bnd_Inr[of bcread_uleb128, OF u])
        show ?thesis
        proof (cases "bcread_need (unat len) l2")
          case (Inl e')
          then show ?thesis using returnsD(2)[OF returns_need s2] s2 unfolding e by (auto simp: bnd_def ret_def)
        next
          case (Inr z)
          then obtain l3 where nd: "bcread_need (unat len) l2 = Inr ((), l3)" by (cases z) simp
          note d3 = returnsD(1)[OF returns_need s2 nd]
          show ?thesis
          proof (cases "lj_bcread_proto E l3")
            case (Inl e')
            then show ?thesis using returnsD(2)[OF returns_proto, of E l3] d3 s2 nd unfolding e by (auto simp: bnd_def ret_def)
          next
            case (Inr q)
            then obtain pt l4 where p: "lj_bcread_proto E l3 = Inr (pt, l4)" by (cases q) simp
            note d4 = returnsD(1)[OF returns_proto _ p]
            have f: "proto_typed E pt" "input_size l4 < n" "list_all (proto_typed E) (ls_stack l4)"
              using d4 d3 d2 d1 Suc.prems(1) by auto
            let ?l5 = "l4\<lparr>ls_stack := pt # ls_stack l4\<rparr>"
            have "input_size ?l5 < n" "list_all (proto_typed E) (ls_stack ?l5)" using f by (simp_all add: input_size_def)
            note ih = Suc.IH[OF this]
            have "?rest l2 = (if length (ls_p l4) + unat len \<noteq> length (ls_p l3) then Inl LJ_ERR_BCBAD else bcread_protos n E ?l5)"
              by (simp add: bnd_Inr[of "bcread_need (unat len)", OF nd] bnd_Inr[of "lj_bcread_proto E", OF p])
            then show ?thesis using ih s2 unfolding e by (simp add: ret_def)
          qed
        qed
      qed
    qed
  qed
qed simp

lemma returns_after:
  assumes r: "returns E r Q" and g: "\<And>ls :: LexBC. input_size (g ls) = input_size ls \<and> ls_stack (g ls) = ls_stack ls"
  shows "returns E (\<lambda>ls. r (g ls)) Q"
  unfolding returns_def
proof (intro allI impI)
  fix ls :: LexBC assume "list_all (proto_typed E) (ls_stack ls)"
  then have "list_all (proto_typed E) (ls_stack (g ls))" using g by simp
  from r[unfolded returns_def, rule_format, OF this]
  show "case r (g ls) of Inl e \<Rightarrow> other_error e | Inr (v, ls') \<Rightarrow> Q v \<and> input_size ls' \<le> input_size ls \<and> list_all (proto_typed E) (ls_stack ls')"
    by (simp only: conjunct1[OF g[of ls]])
qed

lemma returns_if: "returns E f Q \<Longrightarrow> returns E g Q \<Longrightarrow> returns E (\<lambda>ls. if c then f ls else g ls) Q"
  by (cases c) simp_all

lemma returns_header: "returns E (bcread_header E chunkarg) (\<lambda>_. True)"
proof -
  note u = returns_bnd[OF returns_uleb] and b = returns_bnd[OF returns_byte]
  have name: "returns E (\<lambda>ls. ret True (ls\<lparr>ls_chunkname := x\<rparr>)) (\<lambda>_. True)" for x
    by (rule returns_after) (auto simp: input_size_def)
  have len: "returns E (bnd bcread_uleb128 (\<lambda>len. bnd (bcread_need (unat len)) (\<lambda>_.
            bnd (bcread_mem (unat len)) (\<lambda>s ls. ret True (ls\<lparr>ls_chunkname := e_snew E s\<rparr>))))) (\<lambda>_. True)"
    by (rule u, rule returns_bnd[OF returns_need], rule returns_bnd[OF returns_mem], rule name)
  have flags: "returns E (\<lambda>ls. let ls = ls\<lparr>ls_flags := flags\<rparr> in
       if flags AND NOT BCDUMP_F_KNOWN \<noteq> 0 then ret False ls
       else if flags AND BCDUMP_F_FR2 \<noteq> 0 then ret False ls
       else if flags AND BCDUMP_F_STRIP \<noteq> 0 then ret True (ls\<lparr>ls_chunkname := e_snew E chunkarg\<rparr>)
       else bnd bcread_uleb128 (\<lambda>len.
            bnd (bcread_need (unat len)) (\<lambda>_.
            bnd (bcread_mem (unat len)) (\<lambda>s ls. ret True (ls\<lparr>ls_chunkname := e_snew E s\<rparr>)))) ls) (\<lambda>_. True)" (is "returns E (\<lambda>ls. let ls = _ in ?body ls) _") for flags
  proof -
    have body: "returns E ?body (\<lambda>_. True)" by (rule returns_if[OF _ returns_if[OF _ returns_if[OF name len]]]) auto
    show ?thesis unfolding Let_def by (rule returns_after[OF body]) (simp add: input_size_def)
  qed
  show ?thesis unfolding bcread_header_def
    by (rule returns_bnd[OF returns_want]) (use flags in \<open>auto intro!: b u\<close>)
qed

lemma lj_bcread_returns:
  "case lj_bcread E chunkarg ls of
     Inl e \<Rightarrow> e \<noteq> NO_RETURN \<and> (e = LJ_ERR_BCFMT \<longleftrightarrow> (\<exists>l1. bcread_header E chunkarg (ls\<lparr>ls_stack := []\<rparr>) = Inr (False, l1)))
   | Inr (pt, ls') \<Rightarrow> proto_typed E pt"
proof -
  let ?l0 = "ls\<lparr>ls_stack := []\<rparr>"
  have st: "list_all (proto_typed E) (ls_stack ?l0)" and sz: "input_size ?l0 = input_size ls" by (simp_all add: input_size_def)
  define m where "m = input_size ls + 1"
  let ?r = "\<lambda>ok. if \<not> ok then throw LJ_ERR_BCFMT
       else bnd (bcread_protos m E) (\<lambda>_ ls.
           if sint (2 * word_of_nat (length (ls_p ls)) :: u32) > 0 \<or> length (ls_stack ls) \<noteq> 1 then Inl LJ_ERR_BCBAD
           else Inr (hd (ls_stack ls), ls\<lparr>ls_stack := tl (ls_stack ls)\<rparr>))"
  have e: "lj_bcread E chunkarg ls = bnd (bcread_header E chunkarg) ?r ?l0" unfolding lj_bcread_def m_def ..
  show ?thesis
  proof (cases "bcread_header E chunkarg ?l0")
    case (Inl x)
    then show ?thesis using returnsD(2)[OF returns_header st, of chunkarg] unfolding e by (simp add: bnd_def)
  next
    case (Inr y)
    then obtain ok l1 where h: "bcread_header E chunkarg ?l0 = Inr (ok, l1)" by (cases y) simp
    note d = returnsD(1)[OF returns_header st h]
    show ?thesis
    proof (cases ok)
      case True
      have "input_size l1 < m" using d sz by (simp add: m_def)
      note p = protos_return[OF this, of E] 
      show ?thesis
      proof (cases "bcread_protos m E l1")
        case (Inl x)
        then show ?thesis using p d True h unfolding e bnd_Inr[of "bcread_header E chunkarg", OF h] by (simp add: bnd_def del: bcread_protos.simps)
      next
        case (Inr z)
        then obtain l2 where l2: "bcread_protos m E l1 = Inr ((), l2)" by (cases z) simp
        have "list_all (proto_typed E) (ls_stack l2)" using p d unfolding l2 by simp
        then show ?thesis using True h unfolding e bnd_Inr[of "bcread_header E chunkarg", OF h]
          by (cases "ls_stack l2") (auto simp: bnd_Inr[of "bcread_protos m E", OF l2] simp del: bcread_protos.simps)
      qed
    next
      case False
      then show ?thesis using h unfolding e bnd_Inr[of "bcread_header E chunkarg", OF h] by (simp add: throw_def)
    qed
  qed
qed

section \<open>The header\<close>

text \<open>
  The first bytes of a dump that the reader refuses: not the signature or the version, unknown flags, or a dump for frames of
  two slots. What is behind the flags does not matter.
\<close>

definition header_refused :: "bytes \<Rightarrow> bool" where
  "header_refused bs \<longleftrightarrow>
     take 3 bs \<noteq> [BCDUMP_HEAD2, BCDUMP_HEAD3, BCDUMP_VERSION] \<or>
     (case lj_buf_ruleb128 (drop 3 bs) of
        None \<Rightarrow> False
      | Some (flags, _) \<Rightarrow> flags AND NOT BCDUMP_F_KNOWN \<noteq> 0 \<or> flags AND BCDUMP_F_FR2 \<noteq> 0)"

lemma ruleb_loop_prefix:
  "32 \<le> sh + 7 * length p \<Longrightarrow> map_option fst (ruleb128_loop v sh (p @ r)) = map_option fst (ruleb128_loop v sh p)"
proof (induction v sh p rule: ruleb128_loop.induct)
  case (1 v sh)
  then show ?case by (cases r) simp_all
qed (auto simp: Let_def)

lemma ruleb_prefix: "6 \<le> length p \<Longrightarrow> map_option fst (lj_buf_ruleb128 (p @ r)) = map_option fst (lj_buf_ruleb128 p)"
  by (cases p) (auto simp: lj_buf_ruleb128_def Let_def intro!: ruleb_loop_prefix)

lemma header_refused_prefix:
  assumes "9 \<le> length p"
  shows "header_refused (p @ r) \<longleftrightarrow> header_refused p"
proof -
  have e: "map_option fst (lj_buf_ruleb128 (drop 3 p @ r)) = map_option fst (lj_buf_ruleb128 (drop 3 p))"
    using assms by (intro ruleb_prefix) simp
  have "take 3 (p @ r) = take 3 p" "drop 3 (p @ r) = drop 3 p @ r" using assms by simp_all
  then show ?thesis using e by (auto simp: header_refused_def split: option.splits)
qed

text \<open>Steps of the reader that never answer no.\<close>

definition accepts :: "bool rd \<Rightarrow> bool" where
  "accepts r \<longleftrightarrow> (\<forall>ls ls'. r ls \<noteq> Inr (False, ls'))"

lemma accepts_bnd: "(\<And>v. accepts (f v)) \<Longrightarrow> accepts (bnd r f)"
  by (auto simp: accepts_def bnd_def split: sum.splits)

lemma header_answer:
  assumes w: "bcread_want 13 ls = Inr ((), l1)" and l: "9 \<le> length (ls_p l1)"
  shows "(\<exists>l'. bcread_header E chunkarg ls = Inr (False, l')) \<longleftrightarrow> header_refused (ls_p l1)"
proof -
  have w': "bcread_want (3 + 5 + 5) ls = Inr ((), l1)" using w by simp
  obtain a b c p where p: "ls_p l1 = a # b # c # p"
    using l by (cases "ls_p l1"; cases "tl (ls_p l1)"; cases "tl (tl (ls_p l1))") auto
  let ?k = "\<lambda>flags ls. let ls = ls\<lparr>ls_flags := flags\<rparr> in
       if flags AND NOT BCDUMP_F_KNOWN \<noteq> 0 then ret False ls
       else if flags AND BCDUMP_F_FR2 \<noteq> 0 then ret False ls
       else if flags AND BCDUMP_F_STRIP \<noteq> 0 then ret True (ls\<lparr>ls_chunkname := e_snew E chunkarg\<rparr>)
       else bnd bcread_uleb128 (\<lambda>len.
            bnd (bcread_need (unat len)) (\<lambda>_.
            bnd (bcread_mem (unat len)) (\<lambda>s ls. ret True (ls\<lparr>ls_chunkname := e_snew E s\<rparr>)))) ls"
  have h: "bcread_header E chunkarg ls =
      (if a = BCDUMP_HEAD2 \<and> b = BCDUMP_HEAD3 \<and> c = BCDUMP_VERSION then bnd bcread_uleb128 ?k (l1\<lparr>ls_p := p\<rparr>)
       else Inr (False, l1\<lparr>ls_p := (if a \<noteq> BCDUMP_HEAD2 then b # c # p else if b \<noteq> BCDUMP_HEAD3 then c # p else p)\<rparr>))"
    unfolding bcread_header_def bnd_Inr[of "bcread_want (3 + 5 + 5)", OF w']
    by (simp add: bnd_def bcread_byte_def p ret_def)
  have acc: "accepts (bnd bcread_uleb128 (\<lambda>len. bnd (bcread_need (unat len)) (\<lambda>_.
      bnd (bcread_mem (unat len)) (\<lambda>s ls. ret True (ls\<lparr>ls_chunkname := e_snew E s\<rparr>)))))"
    by (intro accepts_bnd) (simp add: accepts_def ret_def)
  show ?thesis
  proof (cases "a = BCDUMP_HEAD2 \<and> b = BCDUMP_HEAD3 \<and> c = BCDUMP_VERSION")
    case False
    then show ?thesis unfolding h if_not_P[OF False] by (simp add: header_refused_def p)
  next
    case True
    show ?thesis
    proof (cases "lj_buf_ruleb128 p")
      case None
      then show ?thesis unfolding h if_P[OF True] using True by (simp add: bnd_def bcread_uleb128_def header_refused_def p)
    next
      case (Some x)
      obtain flags q where x: "x = (flags, q)" by (cases x)
      have "bcread_uleb128 (l1\<lparr>ls_p := p\<rparr>) = Inr (flags, l1\<lparr>ls_p := q\<rparr>)" using Some x by (simp add: bcread_uleb128_def)
      then have "bcread_header E chunkarg ls = ?k flags (l1\<lparr>ls_p := q\<rparr>)" unfolding h if_P[OF True] by (rule bnd_Inr)
      then show ?thesis using acc True by (simp add: header_refused_def p Some x Let_def ret_def accepts_def)
    qed
  qed
qed

end
