(* ===== verification/LJ_BCMain.thy ===== *)
theory LJ_BCMain
  imports LJ_BCSafe
begin

text \<open>
  The properties of the bytecode dump: what the writer hands out, that the reader ends and what it returns on any input, and
  that a dump is read back as the prototype that was written.
\<close>

section \<open>What fits\<close>

lemma writes_length: "writes w bs n \<Longrightarrow> length bs \<le> n"
  by (simp add: writes_def)

lemma fmt_body_room:
  assumes "body_sized E pt"
  shows "length (fmt_body E strip pt) \<le> room_body E strip pt"
proof -
  have b: "list_all (kgc_sized E) (pt_kgc pt)" "length (pt_kn pt) \<le> LJ_MAX_BCINS" "bc_counted pt" using assms by (simp_all add: body_sized_def)
  have "writes (bcwrite_kgc E (pt_kgc pt) :: (unit, unit) wr) (concat (map (fmt_kgc1 E) (pt_kgc pt))) (sum_list (map (room_kgc1 E) (pt_kgc pt)))"
    "writes (bcwrite_knum (pt_kn pt) :: (unit, unit) wr) (concat (map bcwrite_knum1 (pt_kn pt))) (10 * length (pt_kn pt))"
    by (rule writes_kgc[OF b(1)], rule writes_knum[OF b(2)])
  note l = this[THEN writes_length]
  show ?thesis using proto_head_length(2)[of strip pt] l b(3) by (cases strip) (simp_all add: fmt_body_def room_body_def)
qed

text \<open>The room for a whole dump.\<close>

definition dump_room :: "bc_env \<Rightarrow> bool \<Rightarrow> GCproto \<Rightarrow> nat" where
  "dump_room E strip pt =
     15 + length (e_sdata E (pt_chunkname pt)) + sum_list (map (\<lambda>p. 5 + room_body E strip p) (written pt))"

definition dumpable :: "bc_env \<Rightarrow> bool \<Rightarrow> GCproto \<Rightarrow> bool" where
  "dumpable E strip pt \<longleftrightarrow> list_all (body_ok E strip) (written pt) \<and> dump_room E strip pt \<le> LJ_MAX_BUF"

lemma blocks_room:
  "list_all (body_sized E) ps \<Longrightarrow> length (concat (map (fmt_block E strip) ps)) \<le> sum_list (map (\<lambda>p. 5 + room_body E strip p) ps)"
proof (induction ps)
  case (Cons p ps)
  then have "length (fmt_body E strip p) \<le> room_body E strip p" using fmt_body_room by simp
  then show ?case using Cons wuleb_max[of "word_of_nat (length (fmt_body E strip p))"] by (simp add: fmt_block_def)
qed simp

lemma dump_room:
  assumes "list_all (body_sized E) (written pt)"
  shows "length (concat (dump_pieces E strip pt)) \<le> dump_room E strip pt"
    "dump_room E strip pt \<le> LJ_MAX_BUF \<Longrightarrow> \<not> too_big E strip (written pt)"
proof -
  have "length (fmt_header E strip pt) \<le> 10 + length (e_sdata E (pt_chunkname pt))"
    using fmt_str_length[of "e_sdata E (pt_chunkname pt)" 0] by (simp add: fmt_header_def)
  then show "length (concat (dump_pieces E strip pt)) \<le> dump_room E strip pt"
    using blocks_room[OF assms, of strip] by (simp add: dump_pieces_def dump_room_def)
  have "room_body E strip p \<le> sum_list (map (\<lambda>p. 5 + room_body E strip p) ps)" if "p \<in> set ps" for p ps
    using that by (induction ps) auto
  then show "dump_room E strip pt \<le> LJ_MAX_BUF \<Longrightarrow> \<not> too_big E strip (written pt)"
    unfolding too_big_def dump_room_def by (meson add_leE le_trans not_le)
qed

text \<open>A writer callback that collects what it gets.\<close>

definition collect_bytes :: "bytes \<Rightarrow> bytes \<Rightarrow> int \<times> bytes" where
  "collect_bytes b w = (0, w @ b)"

lemma feed_collect_bytes: "feed collect_bytes ps (0, w) = (0, w @ concat ps)"
  by (induction ps arbitrary: w) (simp_all add: collect_bytes_def)

section \<open>Properties\<close>

text \<open>C3: a prototype with its children that is written with \<open>lj_bcwrite\<close> is read back by \<open>lj_bcread\<close>, however the reader
  function cuts the dump into pieces: the same instructions, as the compiler found them, the same constants and children, template
  tables with the same pairs, and, unless the dump was stripped, the same debug information.\<close>

theorem bcdump_roundtrip:
  assumes "dumpable E strip pt"
  shows "\<exists>dump. lj_bcwrite E pt collect_bytes [] strip = Inr (0, BCDUMP_HEAD1 # dump) \<and>
    (\<forall>chunks. concat chunks = dump \<and> [] \<notin> set chunks \<longrightarrow>
       (\<exists>pt' ls. lj_bcread E chunkarg (reader chunks) = Inr (pt', ls) \<and> proto_sim E strip (dump_name E strip chunkarg pt) pt pt'))"
proof -
  let ?d = "concat (dump_pieces E strip pt)"
  have ok: "list_all (body_ok E strip) (written pt)" and room: "dump_room E strip pt \<le> LJ_MAX_BUF" using assms by (simp_all add: dumpable_def)
  have sz: "list_all (body_sized E) (written pt)" using ok by (auto simp: list_all_iff body_ok_sized)
  have n: "length (e_sdata E (pt_chunkname pt)) + 10 \<le> LJ_MAX_BUF" using room by (simp add: dump_room_def)
  have hd: "?d = BCDUMP_HEAD1 # tl ?d" by (simp add: dump_pieces_def fmt_header_def)
  have "length ?d \<le> LJ_MAX_BUF" using dump_room(1)[OF sz, of strip] room by (rule le_trans)
  then have len: "length (tl ?d) \<le> LJ_MAX_BUF" by simp
  have n': "length (e_sdata E (pt_chunkname pt)) \<le> LJ_MAX_STR" using n by (simp add: lj_limits)
  have "lj_bcwrite E pt collect_bytes [] strip = Inr (feed collect_bytes (dump_pieces E strip pt) (0, []))"
    using lj_bcwrite_ok[OF n sz, of collect_bytes "[]" strip] dump_room(2)[OF sz room] by blast
  then have "lj_bcwrite E pt collect_bytes [] strip = Inr (0, BCDUMP_HEAD1 # tl ?d)" by (simp only: feed_collect_bytes append_Nil hd[symmetric])
  moreover have "\<exists>pt' ls. lj_bcread E chunkarg (reader chunks) = Inr (pt', ls) \<and> proto_sim E strip (dump_name E strip chunkarg pt) pt pt'"
    if "concat chunks = tl ?d \<and> [] \<notin> set chunks" for chunks
  proof -
    have c: "concat chunks = tl ?d" "[] \<notin> set chunks" using that by blast+
    show ?thesis by (rule lj_bcread_dump[OF ok n' c]) (simp only: c(1) len)
  qed
  ultimately show ?thesis by blast
qed

text \<open>A function with a child, a string, an integer and a number constant and debug information.\<close>

definition sample_env :: bc_env where
  "sample_env = \<lparr>e_sdata = (\<lambda>r. [ucast r]), e_snew = (\<lambda>s. ucast (hd s)), e_hash = (\<lambda>r. r), e_startins = (\<lambda>_. 0)\<rparr>"

definition sample_child :: GCproto where
  "sample_child = GCproto PROTO_VARARG 0 2 2 [BCINS_AD BC_FUNCV 2 0, 0x1004b] [] [] [] 0 65 0 0 [] 0 0"

definition sample_proto :: GCproto where
  "sample_proto = GCproto PROTO_CHILD 1 3 2 [BCINS_AD BC_FUNCF 3 0, 0x1004b] [0x8001] [KGC_STR 7, KGC_PROTO sample_child, KGC_I64 5] [setintV 3]
     0 65 1 2 [0, 120, 0] 1 3"

lemma sample_dumpable: "dumpable sample_env False sample_proto"
  by (simp add: dumpable_def dump_room_def sample_env_def sample_proto_def sample_child_def proto_flags body_ok_def bc_counted_def kgc_ok_def
      LJ_MAX_BCINS_def lj_limits is_child_def setintV_key line_size_def bcread_varinfo_def room_body_def room_kgc1_def)

text \<open>The number of instructions that a dump names is not checked: here it is \<open>2^30\<close>, of which the object holds none.\<close>

lemma sizebc_wraps:
  "\<exists>pt ls. lj_bcread_proto E \<lparr>ls_p = [0, 0, 2, 0, 0, 0, 0x80, 0x80, 0x80, 0x80, 4], ls_in = [], ls_eof = False,
      ls_flags = BCDUMP_F_STRIP, ls_chunkname = 0, ls_stack = []\<rparr> = Inr (pt, ls) \<and>
     pt_sizebc pt = 0x40000001 \<and> length (pt_bc pt) = 1"
  by (simp add: lj_bcread_proto_def bcread_byte_def bcread_uleb128_def lj_buf_ruleb128_def bnd_def bcread_lines_def ret_def Let_def
      BCDUMP_F_STRIP_def proto_size_def head_fits_def kgc_room_def tail_fits_def bcread_kgcs_def bcread_bytecode_def bcread_mem_def
      bcread_uv_def bcread_end_def bcread_swap_def BCDUMP_F_BE_def)

lemma truncated_reads: "lj_bcread sample_env [] (reader []) = Inl UNDEFINED"
  by (simp add: lj_bcread_def bcread_header_def reader_def bnd_def bcread_want_def bcread_fill_def bcread_byte_def lj_limits)

theorem bcdump_roundtrip_witness:
  "\<exists>dump pt' ls. lj_bcwrite sample_env sample_proto collect_bytes [] False = Inr (0, BCDUMP_HEAD1 # dump) \<and>
     lj_bcread sample_env [] (reader [dump]) = Inr (pt', ls) \<and> hd (pt_kgc pt') = KGC_STR 7 \<and> pt_dbg pt' = [0, 120, 0]"
proof -
  obtain dump where d: "lj_bcwrite sample_env sample_proto collect_bytes [] False = Inr (0, BCDUMP_HEAD1 # dump)"
    "\<forall>chunks. concat chunks = dump \<and> [] \<notin> set chunks \<longrightarrow> (\<exists>pt' ls. lj_bcread sample_env [] (reader chunks) = Inr (pt', ls) \<and>
       proto_sim sample_env False (dump_name sample_env False [] sample_proto) sample_proto pt')"
    using bcdump_roundtrip[OF sample_dumpable, of "[]"] by (elim exE conjE)
  have "dump \<noteq> []"
  proof
    assume "dump = []"
    then obtain pt' ls where "lj_bcread sample_env [] (reader []) = Inr (pt', ls)" using d(2)[rule_format, of "[]"] by auto
    then show False using truncated_reads by simp
  qed
  then have "concat [dump] = dump \<and> [] \<notin> set [dump]" by simp
  with d(2) obtain pt' ls where r: "lj_bcread sample_env [] (reader [dump]) = Inr (pt', ls)"
    "proto_sim sample_env False (dump_name sample_env False [] sample_proto) sample_proto pt'" by blast
  have "pt_kgc pt' \<noteq> [] \<and> hd (pt_kgc pt') = KGC_STR 7 \<and> pt_dbg pt' = [0, 120, 0]"
    using r(2) by (auto simp: sample_proto_def split: list.splits)
  then show ?thesis using d(1) r(1) by blast
qed

text \<open>C13: \<open>lj_bcwrite\<close> hands the pieces of the format, in order, to its callback until the callback returns another status
  than 0, and it never writes more bytes than it has reserved; the only error is that of a buffer that would get too big.\<close>

theorem bcwrite_pieces:
  assumes "length (e_sdata E (pt_chunkname pt)) + 10 \<le> LJ_MAX_BUF" "list_all (body_sized E) (written pt)"
  shows "lj_bcwrite E pt wfunc wdata strip = Inr (feed wfunc (dump_pieces E strip pt) (0, wdata)) \<or>
    lj_bcwrite E pt wfunc wdata strip = Inl LJ_ERR_ERRMEM \<and> too_big E strip (written pt)"
  by (rule lj_bcwrite_ok[OF assms])

theorem bcwrite_pieces_witness:
  "lj_bcwrite sample_env sample_proto (\<lambda>b n. (1, n + 1)) (0 :: nat) False = Inr (1, 1)"
proof -
  have sz: "list_all (body_sized sample_env) (written sample_proto)" using sample_dumpable by (auto simp: dumpable_def list_all_iff body_ok_sized)
  have r: "dump_room sample_env False sample_proto \<le> LJ_MAX_BUF" using sample_dumpable by (simp add: dumpable_def)
  then have n: "length (e_sdata sample_env (pt_chunkname sample_proto)) + 10 \<le> LJ_MAX_BUF" by (simp add: dump_room_def)
  show ?thesis using bcwrite_pieces[OF n sz, of "\<lambda>b n. (1, n + 1)" "0 :: nat" False] dump_room(2)[OF sz r] by (simp add: dump_pieces_def feed_stop)
qed

text \<open>C14: on an input of at least 13 bytes the reader raises the error of a wrong format exactly when the header is not the
  one of a dump: another signature or version, unknown flags, or frames of two slots. And its loop over the prototypes always
  ends, with a prototype, an error, or a read beyond the buffer, which is undefined: each round takes at least one byte.\<close>

theorem bcread_format_error:
  assumes "input_ok ls" "13 \<le> length (avail ls)"
  shows "(lj_bcread E chunkarg ls = Inl LJ_ERR_BCFMT \<longleftrightarrow> header_refused (avail ls)) \<and> lj_bcread E chunkarg ls \<noteq> Inl NO_RETURN"
proof -
  let ?l0 = "ls\<lparr>ls_stack := []\<rparr>"
  have "input_ok ?l0" "13 \<le> length (avail ?l0)" using assms by (simp_all add: input_ok_def avail_def)
  from bcread_want_ok[OF this] obtain l1 where l1: "bcread_want 13 ?l0 = Inr ((), l1)" "filled_to 13 ?l0 l1" by blast
  then have l: "9 \<le> length (ls_p l1)" and a: "avail ls = ls_p l1 @ concat (ls_in l1)" by (simp_all add: filled_to_def avail_def)
  note h = header_answer[OF l1(1) l, of E chunkarg]
  have "lj_bcread E chunkarg ls = Inl LJ_ERR_BCFMT" if "bcread_header E chunkarg ?l0 = Inr (False, l')" for l'
    unfolding lj_bcread_def bnd_Inr[of "bcread_header E chunkarg", OF that] by (simp add: throw_def)
  then show ?thesis using lj_bcread_returns[of E chunkarg ls] h unfolding a header_refused_prefix[OF l] by (auto split: sum.splits)
qed

theorem bcread_format_error_witness:
  "lj_bcread sample_env [] (reader [[0x4c, 0x4a], [1, 2, 11, 0, 0, 2, 0, 0, 0, 1, 0x4b, 0, 1, 0, 0]]) = Inl LJ_ERR_BCFMT"
  by (subst conjunct1[OF bcread_format_error])
    (simp_all add: input_ok_def avail_def reader_def lj_limits header_refused_def BCDUMP_VERSION_def)

text \<open>C12: whatever the bytes of the input are, a prototype that \<open>lj_bcread\<close> returns is well formed, with all its children:
  its first instruction is the header for its kind, its template tables satisfy the invariant of tables, and its arrays fit
  the object that was allocated for them, whose offsets are computed modulo \<open>2^32\<close>. Only the number of instructions may
  wrap around: it agrees with the size of their array modulo \<open>2^30\<close>.\<close>

theorem bcread_typed:
  assumes "lj_bcread E chunkarg ls = Inr (pt, ls')"
  shows "proto_typed E pt"
  using lj_bcread_returns[of E chunkarg ls] by (simp add: assms)


theorem bcread_typed_witness:
  "\<exists>pt ls. lj_bcread sample_env [] (reader [tl (concat (dump_pieces sample_env False sample_proto))]) = Inr (pt, ls) \<and>
     pt_dbg pt = [0, 120, 0] \<and> proto_typed sample_env pt"
proof -
  let ?c = "tl (concat (dump_pieces sample_env False sample_proto))"
  have ok: "list_all (body_ok sample_env False) (written sample_proto)" using sample_dumpable by (simp add: dumpable_def)
  have sz: "list_all (body_sized sample_env) (written sample_proto)" using ok by (auto simp: list_all_iff body_ok_sized)
  have n: "length (e_sdata sample_env (pt_chunkname sample_proto)) \<le> LJ_MAX_STR" by (simp add: sample_env_def lj_limits)
  have ne: "[] \<notin> set [?c]" by (simp add: dump_pieces_def fmt_header_def)
  have "dump_room sample_env False sample_proto \<le> LJ_MAX_BUF" using sample_dumpable by (simp add: dumpable_def)
  then have len: "length (concat [?c]) \<le> LJ_MAX_BUF" using dump_room(1)[OF sz, of False] by simp
  obtain pt ls where r: "lj_bcread sample_env [] (reader [?c]) = Inr (pt, ls)"
    "proto_sim sample_env False (dump_name sample_env False [] sample_proto) sample_proto pt"
    using lj_bcread_dump[OF ok n _ ne len, of "[]"] by auto
  have "pt_dbg pt = [0, 120, 0]" using r(2) by (simp add: sample_proto_def)
  then show ?thesis using r(1) bcread_typed[OF r(1)] by blast
qed

end
