(* ===== verification/Spec2Isabelle.thy ===== *)
theory Spec2Isabelle
  imports LJ_Char LJ_Buf LJ_StrFmt LJ_StrFmtProofs LJ_CArith LJ_Dbl LJ_StrScan LJ_StrScanProofs LJ_StrScanTotal
    LJ_IR LJ_VMMath LJ_Fold LJ_OptMem LJ_Narrow LJ_Str LJ_FoldEngine LJ_FoldTable LJ_Interner LJ_StrProofs LJ_IRProofs
    LJ_FoldSem LJ_FoldSound LJ_FoldRules LJ_FoldBits LJ_FoldReassoc LJ_FoldMain
    LJ_Tab LJ_TabKeys LJ_TabInv LJ_TabMap LJ_TabSet LJ_TabNew LJ_TabPut LJ_TabResize LJ_TabRehash LJ_TabRefine LJ_TabIter LJ_TabMain
    LJ_BCDump LJ_BCFormat LJ_BCWrite LJ_BCRead LJ_BCRound LJ_BCStream LJ_BCSafe LJ_BCMain
begin

text \<open>
  Verification development for the LuaJIT 2.1 runtime that Maccer ships under
  \<^verbatim>\<open>src/luapower/csrc/luajit/src/src\<close>. Maccer itself is a set of Lua scripts; the C code of the
  repository is the runtime that executes them. File names below are relative to that directory.

  The configuration modelled is x64, little endian, with the JIT compiler and the FFI, 32 bit GC references
  (\<^verbatim>\<open>LJ_GC64=0\<close>, \<^verbatim>\<open>LJ_DUALNUM=0\<close>) and internal assertions off. Words keep their width:
  \<^verbatim>\<open>uint8_t\<close>, \<^verbatim>\<open>int32_t\<close>/\<^verbatim>\<open>uint32_t\<close> and \<^verbatim>\<open>uint64_t\<close> are words of 8, 32
  and 64 bits, doubles are their bit patterns with the arithmetic of IEEE 754 written out. Sizes, indexes and references
  are natural numbers. A function that can raise an error returns a sum whose left side is the error.

  \<^bold>\<open>Parts and theories.\<close>
  \<^item> \<^theory_text>\<open>LJ_Prelude\<close>: words of the model, byte access, the state and error monad, shared lemmas.
  \<^item> \<^theory_text>\<open>LJ_Char\<close>: the character class table of \<^verbatim>\<open>lj_char.c\<close>.
  \<^item> \<^theory_text>\<open>LJ_Buf\<close>: string buffers (\<^verbatim>\<open>lj_buf.c\<close>, \<^verbatim>\<open>lj_buf.h\<close>). A buffer is its contents and
    its capacity; growing doubles the capacity up to the limit.
  \<^item> \<^theory_text>\<open>LJ_StrFmt\<close>, \<^theory_text>\<open>LJ_StrFmtProofs\<close>: formatting of integers, strings and characters
    (\<^verbatim>\<open>lj_strfmt.c\<close>). The digits of doubles (\<^verbatim>\<open>printf\<close>) are a parameter.
  \<^item> \<^theory_text>\<open>LJ_CArith\<close>: 64 bit arithmetic of the FFI (\<^verbatim>\<open>lj_carith.c\<close>).
  \<^item> \<^theory_text>\<open>LJ_Dbl\<close>: doubles and their conversions (\<^verbatim>\<open>lj_obj.h\<close>, \<^verbatim>\<open>lj_vm.h\<close>).
  \<^item> \<^theory_text>\<open>LJ_StrScan\<close>, \<^theory_text>\<open>LJ_StrScanProofs\<close>, \<^theory_text>\<open>LJ_StrScanTotal\<close>: the conversion of strings to
    numbers (\<^verbatim>\<open>lj_strscan.c\<close>), its rounding and its termination.
  \<^item> \<^theory_text>\<open>LJ_Str\<close>, \<^theory_text>\<open>LJ_Interner\<close>, \<^theory_text>\<open>LJ_StrProofs\<close>: comparison, search and interning of
    strings (\<^verbatim>\<open>lj_str.c\<close>). The interning contract is a locale, interpreted for strings and for the constants
    of traces.
  \<^item> \<^theory_text>\<open>LJ_IR\<close>, \<^theory_text>\<open>LJ_IRProofs\<close>: the intermediate representation of traces, its buffer, constants,
    common-subexpression and dead code elimination (\<^verbatim>\<open>lj_ir.c\<close>, \<^verbatim>\<open>lj_ir.h\<close>,
    \<^verbatim>\<open>lj_jit.h\<close>, \<^verbatim>\<open>lj_opt_dce.c\<close>, parts of \<^verbatim>\<open>lj_opt_fold.c\<close>). The instruction
    buffer is a function from references to instructions with the two bounds of the allocated part; the operand that
    overlays a constant's value is a separate field.
  \<^item> \<^theory_text>\<open>LJ_VMMath\<close>: the arithmetic helpers of the folder (\<^verbatim>\<open>lj_vmmath.c\<close>). Transcendental
    functions are a parameter (\<open>libm\<close>).
  \<^item> \<^theory_text>\<open>LJ_Fold\<close>, \<^theory_text>\<open>LJ_FoldEngine\<close>, \<^theory_text>\<open>LJ_FoldTable\<close>: every fold rule, the rule table, the
    key search and the retry loop of \<^verbatim>\<open>lj_opt_fold.c\<close>. What the rules read from memory outside the trace
    (tables, strings, upvalues) is the parameter \<open>fold_env\<close>.
  \<^item> \<^theory_text>\<open>LJ_OptMem\<close>: alias analysis, forwarding and store elimination (\<^verbatim>\<open>lj_opt_mem.c\<close>).
  \<^item> \<^theory_text>\<open>LJ_Narrow\<close>: narrowing of numbers to integers (\<^verbatim>\<open>lj_opt_narrow.c\<close>).
  \<^item> \<^theory_text>\<open>LJ_FoldSem\<close>, \<^theory_text>\<open>LJ_FoldSound\<close>, \<^theory_text>\<open>LJ_FoldRules\<close>, \<^theory_text>\<open>LJ_FoldBits\<close>,
    \<^theory_text>\<open>LJ_FoldReassoc\<close>, \<^theory_text>\<open>LJ_FoldMain\<close>: the meaning of integer instructions and the soundness of
    the fold engine for them.
  \<^item> \<^theory_text>\<open>LJ_Tab\<close>: Lua tables (\<^verbatim>\<open>lj_tab.c\<close>, \<^verbatim>\<open>lj_tab.h\<close>) over tagged values
    (\<^verbatim>\<open>lj_obj.h\<close>) with raw equality (\<^verbatim>\<open>lj_obj.c\<close>). A table is its array part, its nodes
    with their chains as indices, the hash mask and the free pointer; a pointer to a value is a slot. The hash of a string
    is a parameter. \<^theory_text>\<open>LJ_TabKeys\<close>: equality of keys. \<^theory_text>\<open>LJ_TabInv\<close>: chains and the three cases of an
    insertion. \<^theory_text>\<open>LJ_TabMap\<close>, \<^theory_text>\<open>LJ_TabSet\<close>, \<^theory_text>\<open>LJ_TabNew\<close>, \<^theory_text>\<open>LJ_TabPut\<close>: the map that a
    table stands for, lookups, insertion where a node is free (a locale that \<^verbatim>\<open>lj_tab_newkey\<close> interprets)
    and stores. \<^theory_text>\<open>LJ_TabResize\<close>, \<^theory_text>\<open>LJ_TabRehash\<close>, \<^theory_text>\<open>LJ_TabRefine\<close>: resizing, the choice of
    sizes and the setters. \<^theory_text>\<open>LJ_TabIter\<close>, \<^theory_text>\<open>LJ_TabMain\<close>: traversal, length and the properties.
  \<^item> \<^theory_text>\<open>LJ_BCDump\<close>: the writer and the reader of bytecode dumps (\<^verbatim>\<open>lj_bcwrite.c\<close>,
    \<^verbatim>\<open>lj_bcread.c\<close>, the format in \<^verbatim>\<open>lj_bcdump.h\<close>). A prototype is a tree of its instructions,
    constants, children and debug information; the writer uses the string buffers and the integer formats, the reader builds
    template tables with the operations of \<^theory_text>\<open>LJ_Tab\<close>. The callbacks are a function with a state (writer) and
    the list of pieces that it will return (reader). \<^theory_text>\<open>LJ_BCFormat\<close>: variable-length numbers.
    \<^theory_text>\<open>LJ_BCWrite\<close>: the format as pure functions, which the writer produces. \<^theory_text>\<open>LJ_BCRead\<close>,
    \<^theory_text>\<open>LJ_BCRound\<close>, \<^theory_text>\<open>LJ_BCStream\<close>: each part of the format is read back, then a prototype, then a
    dump in pieces. \<^theory_text>\<open>LJ_BCSafe\<close>: the reader on any input. \<^theory_text>\<open>LJ_BCMain\<close>: the properties.

  \<^bold>\<open>What the lemmas show.\<close>
  \<^item> Buffers: the well-formedness invariant under every operation, contents of each put, the out-of-memory error exactly
    at the size limit.
  \<^item> Numbers and strings: decimal output is the numeral and is read back; digits fit their local buffers; the scanner
    returns for every input and rounds correctly; the 64 bit operations mean what their arithmetic says.
  \<^item> Interning: references are equal exactly if contents are, as a refinement of a map from contents to references, for
    strings (also while the hash table grows) and for trace constants.
  \<^item> Traces: every slot handed out lies in the allocated buffer; chains, operand order and bounds are invariants; rollback
    undoes emission; dead code elimination keeps what is live.
  \<^item> Folding: an assignment of values to references is consistent when every integer instruction has the value of its
    operation. Each rule that the table holds for an integer opcode (\<open>rule_ok\<close>, one lemma per rule) returns an operand,
    a constant or a new instruction of the same value; the engine is sound by induction on its rounds, for any rules of
    other opcodes.
  \<^item> Tables: \<open>tab_ok\<close> is the invariant (chains without cycles, each key on the chain of its main position and only once,
    no key of the array part among the nodes, no free node above the free pointer) and \<open>tab_map\<close> the map from keys to
    values. Setters, resizing, rehashing, copying and clearing keep the invariant and do to the map what they promise;
    traversal and length are functions of the map.
  \<^item> Bytecode: the writer puts the pieces of the format into the room it has reserved and hands them on; what it wrote is
    read back, however the input is cut; on any other input the reader ends, refuses a wrong header, and what it returns is
    well formed. A read or a write beyond a buffer or an object is an outcome of its own (\<open>UNDEFINED\<close>), which the code does
    not exclude for a damaged dump.

  \<^bold>\<open>Bounds and fuel.\<close> The number scanner, the buffers, the interning table and the searches of the optimiser are
  recursive functions proved terminating. The fold engine calls itself through its rules, so each round takes one unit of
  fuel and \<open>FOLD_FUEL\<close> is an error value of its own; the C code has no such limit. A fold of constants needs one
  round. A fold with \<open>n\<close> rounds allocates at most \<open>(n + 1)\<close>\<open>^2\<close> references, for which the theorem asks room.
  \<open>ir_room\<close> is the limit of 4096 references on each side of the bias, above the default limits of the recorder.
  Inserting a key into a full table rehashes it, which inserts keys again: \<open>lj_tab_newkey\<close> takes fuel for this
  recursion, and two units are always enough since a rehash makes room for every key that it moves.
  The loop over the prototypes of a dump has one unit of fuel more than the input has bytes, and each round takes a byte.

  \<^bold>\<open>Not modelled.\<close> The Lua scripts, the parser and bytecode generator, the garbage collector and the allocator, the
  trace recorder and the machine code back ends, the interpreter (assembly), the C API, the FFI type system, and the
  libraries. Allocation does not fail and the Lua stack has room where a dump is read. The 64 bit division, modulus and
  power instructions are outside the soundness theorem of the folder.
\<close>

end
